(* ===== verification/PyString.thy ===== *)
theory PyString
  imports Prelude "HOL-Library.Char_ord" "HOL-Library.List_Lexorder"
begin

text \<open>
  The string operations of Python that the code uses. A \<^typ>\<open>char\<close> is read as the Unicode code point
  of the same number, so a \<^typ>\<open>string\<close> is a Python string over U+0000 to U+00FF; on that fragment
  the classes behind \<open>\w\<close>, \<open>\d\<close>, \<open>\s\<close>, \<open>str.isdigit\<close>, \<open>str.strip\<close> and \<open>str.splitlines\<close> are written
  out exactly as CPython has them. Case conversion is exact on the characters whose converted form
  stays inside the fragment (\<open>upper\<close> leaves U+00B5 and U+00FF alone, where Python maps them out of
  it).
\<close>

subsection \<open>Character classes\<close>

abbreviation cp :: "char \<Rightarrow> nat" where
  "cp c \<equiv> of_char c"

lemma char_of_cp [simp]: "char_of (cp c) = c"
  by simp

lemma cp_eqI: "cp d = n \<Longrightarrow> cp c = n \<longleftrightarrow> c = d"
  by (metis char_of_cp)

definition is_space :: "char \<Rightarrow> bool" where
  "is_space c = (let n = cp c in 9 \<le> n \<and> n \<le> 13 \<or> 28 \<le> n \<and> n \<le> 32 \<or> n = 133 \<or> n = 160)"

definition is_decimal :: "char \<Rightarrow> bool" where
  "is_decimal c = (let n = cp c in 48 \<le> n \<and> n \<le> 57)"

text \<open>\<open>str.isdigit\<close> also accepts the superscripts two, three and one.\<close>

definition is_digit :: "char \<Rightarrow> bool" where
  "is_digit c = (is_decimal c \<or> cp c \<in> {178, 179, 185})"

definition is_upper_az :: "char \<Rightarrow> bool" where
  "is_upper_az c = (let n = cp c in 65 \<le> n \<and> n \<le> 90)"

definition is_lower_az :: "char \<Rightarrow> bool" where
  "is_lower_az c = (let n = cp c in 97 \<le> n \<and> n \<le> 122)"

definition is_alnum :: "char \<Rightarrow> bool" where
  "is_alnum c = (is_decimal c \<or> is_upper_az c \<or> is_lower_az c
     \<or> cp c \<in> {170, 178, 179, 181, 185, 186, 188, 189, 190}
     \<or> (let n = cp c in 192 \<le> n \<and> n \<noteq> 215 \<and> n \<noteq> 247))"

text \<open>\<open>\w\<close>\<close>

definition is_word :: "char \<Rightarrow> bool" where
  "is_word c = (is_alnum c \<or> c = CHR ''_'')"

definition is_line_break :: "char \<Rightarrow> bool" where
  "is_line_break c = (let n = cp c in 10 \<le> n \<and> n \<le> 13 \<or> 28 \<le> n \<and> n \<le> 30 \<or> n = 133)"

definition is_hex_lower :: "char \<Rightarrow> bool" where
  "is_hex_lower c = (is_decimal c \<or> (let n = cp c in 97 \<le> n \<and> n \<le> 102))"

subsection \<open>Case conversion\<close>

definition upper_char :: "char \<Rightarrow> string" where
  "upper_char c = (let n = cp c in
     if 97 \<le> n \<and> n \<le> 122 then [char_of (n - 32)]
     else if n = 223 then ''SS''
     else if 224 \<le> n \<and> n \<le> 254 \<and> n \<noteq> 247 then [char_of (n - 32)]
     else [c])"

definition upper :: "string \<Rightarrow> string" where
  "upper s = concat (map upper_char s)"

definition lower_char :: "char \<Rightarrow> char" where
  "lower_char c = (let n = cp c in
     if 65 \<le> n \<and> n \<le> 90 then char_of (n + 32)
     else if 192 \<le> n \<and> n \<le> 222 \<and> n \<noteq> 215 then char_of (n + 32)
     else c)"

definition lower :: "string \<Rightarrow> string" where
  "lower s = map lower_char s"

text \<open>\<open>casefold\<close> differs from \<open>lower\<close> on the fragment only in the sharp s.\<close>

definition casefold :: "string \<Rightarrow> string" where
  "casefold s = concat (map (\<lambda>c. if cp c = 223 then ''ss'' else [lower_char c]) s)"

lemma upper_Nil [simp]: "upper [] = []"
  by (simp add: upper_def)

lemma upper_append [simp]: "upper (s @ t) = upper s @ upper t"
  by (simp add: upper_def)

lemma upper_char_nonempty: "upper_char c \<noteq> []"
  by (simp add: upper_char_def Let_def)

lemma upper_eq_Nil [simp]: "upper s = [] \<longleftrightarrow> s = []"
  by (auto simp: upper_def upper_char_nonempty)

lemma upper_upper_char: "upper (upper_char c) = upper_char c"
proof -
  have "cp c < 256" by (rule nat_of_char_less_256)
  then show ?thesis
    by (auto simp: upper_def upper_char_def Let_def take_bit_nat_def)
qed

lemma upper_idem [simp]: "upper (upper s) = upper s"
proof (induction s)
  case (Cons c s)
  have "upper (c # s) = upper_char c @ upper s" by (simp add: upper_def)
  with Cons show ?case by (simp add: upper_upper_char)
qed simp

subsection \<open>Trimming and splitting\<close>

definition lstrip :: "string \<Rightarrow> string" where
  "lstrip s = dropWhile is_space s"

definition rstrip :: "string \<Rightarrow> string" where
  "rstrip s = rev (dropWhile is_space (rev s))"

definition strip :: "string \<Rightarrow> string" where
  "strip s = rstrip (lstrip s)"

text \<open>\<open>s.rstrip(c)\<close> for one character\<close>

definition rstrip_char :: "char \<Rightarrow> string \<Rightarrow> string" where
  "rstrip_char c s = rev (dropWhile (\<lambda>x. x = c) (rev s))"

text \<open>\<open>s.split(c)\<close> for one character: always at least one piece.\<close>

fun split_on :: "char \<Rightarrow> string \<Rightarrow> string list" where
  "split_on c [] = [[]]"
| "split_on c (x # xs) =
     (if x = c then [] # split_on c xs
      else (case split_on c xs of [] \<Rightarrow> [[x]] | p # ps \<Rightarrow> (x # p) # ps))"

lemma split_on_not_Nil [simp]: "split_on c s \<noteq> []"
  by (induction s) (auto split: list.splits)

text \<open>\<open>s.split()\<close>: the maximal runs of characters that are not white space.\<close>

function words :: "string \<Rightarrow> string list" where
  "words s = (case lstrip s of [] \<Rightarrow> []
     | c # cs \<Rightarrow> takeWhile (\<lambda>x. \<not> is_space x) (c # cs) # words (dropWhile (\<lambda>x. \<not> is_space x) (c # cs)))"
  by pat_completeness auto
termination
proof (relation "measure length")
  fix s c cs assume a: "lstrip s = c # cs"
  have "\<not> is_space c" using a hd_dropWhile[of is_space s] by (auto simp: lstrip_def)
  then have "length (dropWhile (\<lambda>x. \<not> is_space x) (c # cs)) < Suc (length cs)"
    by (simp add: length_dropWhile_le le_imp_less_Suc)
  also have "Suc (length cs) \<le> length s"
    using length_dropWhile_le[of is_space s] a by (simp add: lstrip_def)
  finally show "(dropWhile (\<lambda>x. \<not> is_space x) (c # cs), s) \<in> measure length" by simp
qed simp

declare words.simps [simp del]

text \<open>\<open>s.splitlines()\<close>, where the pair CR LF is one break; \<open>keep\<close> is \<open>keepends\<close>.\<close>

fun lines_acc :: "bool \<Rightarrow> string \<Rightarrow> string \<Rightarrow> string list" where
  "lines_acc keep acc [] = (if acc = [] then [] else [rev acc])"
| "lines_acc keep acc (c # cs) =
     (if is_line_break c then
        (case cs of
           d # ds \<Rightarrow> (if cp c = 13 \<and> cp d = 10
             then rev (if keep then d # c # acc else acc) # lines_acc keep [] ds
             else rev (if keep then c # acc else acc) # lines_acc keep [] cs)
         | [] \<Rightarrow> [rev (if keep then c # acc else acc)])
      else lines_acc keep (c # acc) cs)"

definition splitlines :: "string \<Rightarrow> string list" where
  "splitlines s = lines_acc False [] s"

definition splitlines_keep :: "string \<Rightarrow> string list" where
  "splitlines_keep s = lines_acc True [] s"

lemma concat_lines_keep: "concat (lines_acc True acc s) = rev acc @ s"
  by (induction True acc s rule: lines_acc.induct) (auto split: list.splits)

lemma concat_splitlines_keep [simp]: "concat (splitlines_keep s) = s"
  by (simp add: splitlines_keep_def concat_lines_keep)

lemma lines_no_break:
  "\<forall>c\<in>set s. \<not> is_line_break c \<Longrightarrow>
     lines_acc False acc (s @ CHR 0x0A # r) = (rev acc @ s) # lines_acc False [] r"
proof (induction s arbitrary: acc)
  case Nil
  then show ?case by (cases r) (auto simp: is_line_break_def)
qed auto

lemma lines_last:
  "\<forall>c\<in>set s. \<not> is_line_break c \<Longrightarrow> s \<noteq> [] \<or> acc \<noteq> [] \<Longrightarrow> lines_acc False acc s = [rev acc @ s]"
  by (induction s arbitrary: acc) auto

definition join :: "string \<Rightarrow> string list \<Rightarrow> string" where
  "join sep ss = concat (case ss of [] \<Rightarrow> [] | x # xs \<Rightarrow> x # map (\<lambda>y. sep @ y) xs)"

lemma join_simps [simp]:
  "join sep [] = []"
  "join sep [s] = s"
  "join sep (s # t # ss) = s @ sep @ join sep (t # ss)"
  by (simp_all add: join_def)

lemma splitlines_join:
  assumes "\<And>l. l \<in> set ls \<Longrightarrow> l \<noteq> [] \<and> (\<forall>c\<in>set l. \<not> is_line_break c)"
  shows "splitlines (join [CHR 0x0A] ls) = ls"
  using assms
proof (induction ls rule: induct_list012)
  case 1
  then show ?case by (simp add: splitlines_def)
next
  case (2 x)
  then show ?case by (simp add: splitlines_def lines_last)
next
  case (3 x y zs)
  from "3.prems"[of x] have "splitlines (x @ CHR 0x0A # join [CHR 0x0A] (y # zs))
      = x # splitlines (join [CHR 0x0A] (y # zs))"
    by (simp add: splitlines_def lines_no_break)
  moreover have "splitlines (join [CHR 0x0A] (y # zs)) = y # zs"
    using "3.prems" by (intro "3.IH"(2)) auto
  ultimately show ?case by simp
qed

lemma splitlines_terminated:
  assumes "\<And>l. l \<in> set ls \<Longrightarrow> \<forall>c\<in>set l. \<not> is_line_break c"
  shows "splitlines (concat (map (\<lambda>l. l @ [CHR 0x0A]) ls)) = ls"
  using assms
proof (induction ls)
  case (Cons l ls)
  from Cons.prems[of l] have "splitlines (l @ CHR 0x0A # concat (map (\<lambda>l. l @ [CHR 0x0A]) ls))
      = l # splitlines (concat (map (\<lambda>l. l @ [CHR 0x0A]) ls))"
    by (simp add: splitlines_def lines_no_break)
  moreover have "splitlines (concat (map (\<lambda>l. l @ [CHR 0x0A]) ls)) = ls"
    using Cons.prems by (intro Cons.IH) auto
  ultimately show ?case by simp
qed (simp add: splitlines_def)

subsection \<open>Prefixes and substrings\<close>

fun starts_with :: "string \<Rightarrow> string \<Rightarrow> bool" where
  "starts_with [] s = True"
| "starts_with (p # ps) [] = False"
| "starts_with (p # ps) (c # cs) = (p = c \<and> starts_with ps cs)"

lemma starts_with_iff: "starts_with p s \<longleftrightarrow> (\<exists>t. s = p @ t)"
  by (induction p s rule: starts_with.induct) auto

text \<open>\<open>s.find(p)\<close>: the least position where \<open>p\<close> stands, or none.\<close>

fun find_sub :: "string \<Rightarrow> string \<Rightarrow> nat option" where
  "find_sub p [] = (if p = [] then Some 0 else None)"
| "find_sub p (c # cs) =
     (if starts_with p (c # cs) then Some 0 else map_option Suc (find_sub p cs))"

definition contains_sub :: "string \<Rightarrow> string \<Rightarrow> bool" where
  "contains_sub p s = (find_sub p s \<noteq> None)"

text \<open>\<open>s[a:b]\<close> for \<open>0 \<le> a\<close> and any \<open>b\<close>.\<close>

definition slice :: "nat \<Rightarrow> nat \<Rightarrow> 'a list \<Rightarrow> 'a list" where
  "slice a b s = take (b - a) (drop a s)"

subsection \<open>Numbers in text\<close>

fun digits_of :: "nat \<Rightarrow> string" where
  "digits_of n = (if n < 10 then [char_of (48 + n)] else digits_of (n div 10) @ [char_of (48 + n mod 10)])"

declare digits_of.simps [simp del]

definition str_int :: "int \<Rightarrow> string" where
  "str_int i = (if i < 0 then CHR ''-'' # digits_of (nat (- i)) else digits_of (nat i))"

definition digit_val :: "char \<Rightarrow> nat" where
  "digit_val c = cp c - 48"

definition nat_of_digits :: "string \<Rightarrow> nat" where
  "nat_of_digits s = foldl (\<lambda>n c. 10 * n + digit_val c) 0 s"

lemma foldl_digits_append:
  "foldl (\<lambda>n c. 10 * n + digit_val c) a (s @ [c]) = 10 * foldl (\<lambda>n c. 10 * n + digit_val c) a s + digit_val c"
  by simp

lemma cp_digit [simp]: "d < 10 \<Longrightarrow> cp (char_of (48 + d)) = 48 + d"
  by (simp add: take_bit_nat_def)

lemma nat_of_digits_of [simp]: "nat_of_digits (digits_of n) = n"
proof (induction n rule: digits_of.induct)
  case (1 n)
  show ?case
  proof (cases "n < 10")
    case True
    then show ?thesis
      by (subst digits_of.simps) (simp add: nat_of_digits_def digit_val_def)
  next
    case False
    with 1 show ?thesis
      by (subst digits_of.simps) (simp add: nat_of_digits_def digit_val_def)
  qed
qed

lemma digits_of_decimal: "\<forall>c\<in>set (digits_of n). is_decimal c"
proof (induction n rule: digits_of.induct)
  case (1 n)
  show ?case
  proof (cases "n < 10")
    case True
    then show ?thesis by (subst digits_of.simps) (simp add: is_decimal_def)
  next
    case False
    with 1 show ?thesis by (subst digits_of.simps) (simp add: is_decimal_def)
  qed
qed

lemma digits_of_not_Nil [simp]: "digits_of n \<noteq> []"
  by (subst digits_of.simps) simp

lemma digits_of_inj: "digits_of m = digits_of n \<longleftrightarrow> m = n"
  by (metis nat_of_digits_of)

text \<open>\<open>s.zfill(n)\<close> for a string without a sign, and the \<open>:012d\<close> of a format string.\<close>

definition zfill :: "nat \<Rightarrow> string \<Rightarrow> string" where
  "zfill n s = replicate (n - length s) (CHR ''0'') @ s"

lemma nat_of_digits_zfill: "nat_of_digits (zfill n s) = nat_of_digits s"
proof -
  have "foldl (\<lambda>n c. 10 * n + digit_val c) 0 (replicate k (CHR ''0'')) = 0" for k
    by (induction k) (simp_all add: digit_val_def)
  then show ?thesis by (simp add: zfill_def nat_of_digits_def)
qed


subsection \<open>UTF-8\<close>

text \<open>\<open>s.encode("utf-8")\<close> and its inverse; a byte is the character of the same number.\<close>

definition utf8_char :: "char \<Rightarrow> string" where
  "utf8_char c = (let n = cp c in
     if n < 128 then [c] else [char_of (192 + n div 64), char_of (128 + n mod 64)])"

definition utf8 :: "string \<Rightarrow> string" where
  "utf8 s = concat (map utf8_char s)"

fun utf8_decode :: "string \<Rightarrow> string result" where
  "utf8_decode [] = Inr []"
| "utf8_decode (a # r) =
     (if cp a < 128 then rbind (utf8_decode r) (\<lambda>s. Inr (a # s))
      else case r of
        [] \<Rightarrow> Inl ValueError
      | b # r' \<Rightarrow>
          (if 194 \<le> cp a \<and> cp a \<le> 195 \<and> 128 \<le> cp b \<and> cp b < 192
           then rbind (utf8_decode r') (\<lambda>s. Inr (char_of (64 * (cp a - 192) + (cp b - 128)) # s))
           else Inl ValueError))"

lemma utf8_decode_utf8 [simp]: "utf8_decode (utf8 s) = Inr s"
proof (induction s)
  case (Cons c s)
  have u: "utf8 (c # s) = utf8_char c @ utf8 s" by (simp add: utf8_def)
  show ?case
  proof (cases "cp c < 128")
    case True
    then show ?thesis using Cons by (simp add: u utf8_char_def)
  next
    case False
    define n where "n = cp c"
    have n: "128 \<le> n" "n < 256" using False nat_of_char_less_256[of c] by (simp_all add: n_def)
    then have d: "n div 64 = 2 \<or> n div 64 = 3" by auto
    have a: "cp (char_of (192 + n div 64)) = 192 + n div 64"
      "cp (char_of (128 + n mod 64)) = 128 + n mod 64"
      using d by (auto simp: take_bit_nat_def mod_less)
    have "64 * (n div 64) + n mod 64 = n" by simp
    then have "char_of (64 * (n div 64) + n mod 64) = c" by (simp add: n_def)
    moreover have "n mod 64 < 64" by simp
    then have "128 + n mod 64 < 192" by linarith
    ultimately show ?thesis
      using Cons d False unfolding u utf8_char_def Let_def n_def [symmetric]
      by (auto simp: a simp del: of_char_of)
  qed
qed (simp add: utf8_def)

lemma utf8_inj [simp]: "utf8 s = utf8 t \<longleftrightarrow> s = t"
  by (metis utf8_decode_utf8 sum.inject(2))


subsection \<open>Counting lines\<close>

lemma length_lines_acc:
  assumes "CHR 0x0D \<notin> set s" and "s \<noteq> [] \<Longrightarrow> \<not> is_line_break (last s)" and "s = [] \<Longrightarrow> acc \<noteq> []"
  shows "length (lines_acc keep acc s) = Suc (length (filter is_line_break s))"
  using assms
proof (induction keep acc s rule: lines_acc.induct)
  case (2 keep acc c cs)
  have 13: "cp c \<noteq> 13"
  proof
    assume "cp c = 13"
    then have "c = CHR 0x0D" using cp_eqI [of "CHR 0x0D" 13 c] by simp
    with "2.prems"(1) show False by simp
  qed
  show ?case
  proof (cases "is_line_break c")
    case True
    then obtain d ds where cs: "cs = d # ds" using "2.prems"(2) by (cases cs) auto
    have "length (lines_acc keep [] cs) = Suc (length (filter is_line_break cs))"
      using "2.IH"(2) [OF True cs] "2.prems" 13 cs by auto
    then show ?thesis using True cs 13 by simp
  next
    case False
    then show ?thesis using "2.IH"(3) "2.prems" by (cases "cs = []") auto
  qed
qed auto


lemma nat_of_digits_bound: "list_all is_decimal s \<Longrightarrow> nat_of_digits s < 10 ^ length s"
proof (induction s rule: rev_induct)
  case (snoc c s)
  have "digit_val c \<le> 9" using snoc.prems by (auto simp: is_decimal_def digit_val_def Let_def)
  moreover have "nat_of_digits (s @ [c]) = 10 * nat_of_digits s + digit_val c" by (simp add: nat_of_digits_def)
  moreover have "nat_of_digits s < 10 ^ length s" using snoc by simp
  ultimately show ?case by simp
qed (simp add: nat_of_digits_def)

end
