(* ===== verification/Json.thy ===== *)
theory Json
  imports PyString
begin

text \<open>
  The part of Python's \<open>json\<close> module that the code uses: \<open>json.dumps\<close> with its \<open>sort_keys\<close>,
  \<open>separators\<close> and \<open>ensure_ascii\<close> options and \<open>json.loads\<close>. A dictionary is an insertion-ordered
  association list; a float is carried as the text that \<open>float.__repr__\<close> gives it. The main fact is
  the round trip \<open>loads_dumps\<close>: reading a printed value gives the value back.
\<close>

datatype json =
    JNull
  | JBool bool
  | JInt int
  | JFloat string
  | JStr string
  | JArr "json list"
  | JObj "(string \<times> json) list"

subsection \<open>Writing\<close>

definition hex_digit :: "nat \<Rightarrow> char" where
  "hex_digit n = (if n < 10 then char_of (48 + n) else char_of (87 + n))"

definition esc_char :: "bool \<Rightarrow> char \<Rightarrow> string" where
  "esc_char ascii c = (let n = cp c in
     if n = 34 then [CHR 0x5C, CHR 0x22]
     else if n = 92 then [CHR 0x5C, CHR 0x5C]
     else if n = 10 then [CHR 0x5C, CHR ''n'']
     else if n = 13 then [CHR 0x5C, CHR ''r'']
     else if n = 9 then [CHR 0x5C, CHR ''t'']
     else if n = 12 then [CHR 0x5C, CHR ''f'']
     else if n = 8 then [CHR 0x5C, CHR ''b'']
     else if n < 32 \<or> ascii \<and> 127 \<le> n
       then [CHR 0x5C, CHR ''u'', CHR ''0'', CHR ''0'', hex_digit (n div 16), hex_digit (n mod 16)]
     else [c])"

definition quote :: "bool \<Rightarrow> string \<Rightarrow> string" where
  "quote ascii s = CHR 0x22 # concat (map (esc_char ascii) s) @ [CHR 0x22]"

text \<open>\<open>dumps ascii isep ksep v\<close>: the item and key separators are the \<open>separators\<close> option.\<close>

primrec dumps :: "bool \<Rightarrow> string \<Rightarrow> string \<Rightarrow> json \<Rightarrow> string" where
  "dumps a i k JNull = ''null''"
| "dumps a i k (JBool b) = (if b then ''true'' else ''false'')"
| "dumps a i k (JInt n) = str_int n"
| "dumps a i k (JFloat s) = s"
| "dumps a i k (JStr s) = quote a s"
| "dumps a i k (JArr vs) = CHR ''['' # join i (map (dumps a i k) vs) @ [CHR '']'']"
| "dumps a i k (JObj kvs) =
     CHR ''{'' # join i (map (\<lambda>(x, t). quote a x @ k @ t) (map (map_prod id (dumps a i k)) kvs)) @ [CHR ''}'']"

text \<open>\<open>sort_keys=True\<close> orders the members of every object by key.\<close>

primrec jsort :: "json \<Rightarrow> json" where
  "jsort JNull = JNull"
| "jsort (JBool b) = JBool b"
| "jsort (JInt n) = JInt n"
| "jsort (JFloat s) = JFloat s"
| "jsort (JStr s) = JStr s"
| "jsort (JArr vs) = JArr (map jsort vs)"
| "jsort (JObj kvs) = JObj (sort_key fst (map (map_prod id jsort) kvs))"

definition dumps_sorted :: "bool \<Rightarrow> string \<Rightarrow> string \<Rightarrow> json \<Rightarrow> string" where
  "dumps_sorted a i k v = dumps a i k (jsort v)"

subsection \<open>Reading\<close>

definition is_ws :: "char \<Rightarrow> bool" where
  "is_ws c = (cp c \<in> {9, 10, 13, 32})"

definition skip_ws :: "string \<Rightarrow> string" where
  "skip_ws s = dropWhile is_ws s"

definition hex_val :: "char \<Rightarrow> nat option" where
  "hex_val c = (let n = cp c in
     if 48 \<le> n \<and> n \<le> 57 then Some (n - 48)
     else if 97 \<le> n \<and> n \<le> 102 then Some (n - 87)
     else if 65 \<le> n \<and> n \<le> 70 then Some (n - 55) else None)"

text \<open>
  The body of a string, after the opening quote. An escape of a code point above U+00FF leaves the
  fragment and is refused.
\<close>

definition unesc :: "char \<Rightarrow> char option" where
  "unesc e = (let n = cp e in
     if n = 34 \<or> n = 92 \<or> n = 47 then Some e
     else if e = CHR ''n'' then Some (CHR 0x0A)
     else if e = CHR ''r'' then Some (CHR 0x0D)
     else if e = CHR ''t'' then Some (CHR 0x09)
     else if e = CHR ''f'' then Some (CHR 0x0C)
     else if e = CHR ''b'' then Some (CHR 0x08)
     else None)"

fun parse_str :: "string \<Rightarrow> (string \<times> string) option" where
  "parse_str [] = None"
| "parse_str (c # cs) =
     (if c = CHR 0x22 then Some ([], cs)
      else if c = CHR 0x5C then
        (case cs of
           [] \<Rightarrow> None
         | e # r \<Rightarrow>
             (if e = CHR ''u'' then
                (case r of
                   z1 # z2 # h1 # h2 # r' \<Rightarrow>
                     (case (hex_val z1, hex_val z2, hex_val h1, hex_val h2) of
                        (Some 0, Some 0, Some a, Some b) \<Rightarrow>
                          map_option (\<lambda>(t, r''). (char_of (16 * a + b) # t, r'')) (parse_str r')
                      | _ \<Rightarrow> None)
                 | _ \<Rightarrow> None)
              else (case unesc e of
                  None \<Rightarrow> None
                | Some d \<Rightarrow> map_option (\<lambda>(t, r'). (d # t, r')) (parse_str r))))
      else if cp c < 32 then None
      else map_option (\<lambda>(t, r). (c # t, r)) (parse_str cs))"

definition is_num_char :: "char \<Rightarrow> bool" where
  "is_num_char c = (is_decimal c \<or> c \<in> set ''+-.eE'')"

text \<open>The number grammar: \<open>Some False\<close> for an integer literal, \<open>Some True\<close> for a float literal.\<close>

definition digits1 :: "string \<Rightarrow> string option" where
  "digits1 s = (case s of [] \<Rightarrow> None
     | c # cs \<Rightarrow> if is_decimal c then Some (dropWhile is_decimal cs) else None)"

definition num_exp :: "string \<Rightarrow> bool option" where
  "num_exp s = (case s of
     [] \<Rightarrow> Some False
   | e # r \<Rightarrow>
       if e = CHR ''e'' \<or> e = CHR ''E'' then
         (let r' = (case r of c # cs \<Rightarrow> if c = CHR ''+'' \<or> c = CHR ''-'' then cs else r | [] \<Rightarrow> r)
          in if digits1 r' = Some [] then Some True else None)
       else None)"

definition num_frac :: "string \<Rightarrow> bool option" where
  "num_frac s = (case s of
     [] \<Rightarrow> Some False
   | c # r \<Rightarrow>
       if c = CHR ''.'' then (case digits1 r of None \<Rightarrow> None | Some r' \<Rightarrow> map_option (\<lambda>_. True) (num_exp r'))
       else num_exp s)"

definition num_kind :: "string \<Rightarrow> bool option" where
  "num_kind s =
     (let r = (case s of c # cs \<Rightarrow> if c = CHR ''-'' then cs else s | [] \<Rightarrow> s)
      in case r of
           [] \<Rightarrow> None
         | d # ds \<Rightarrow>
             if d = CHR ''0'' then num_frac ds
             else if is_decimal d then num_frac (dropWhile is_decimal ds)
             else None)"

definition int_literal :: "string \<Rightarrow> int" where
  "int_literal s = (case s of
     c # cs \<Rightarrow> if c = CHR ''-'' then - int (nat_of_digits cs) else int (nat_of_digits s)
   | [] \<Rightarrow> 0)"

definition parse_num :: "string \<Rightarrow> (json \<times> string) option" where
  "parse_num s =
     (let t = takeWhile is_num_char s; r = dropWhile is_num_char s
      in case num_kind t of
           None \<Rightarrow> None
         | Some False \<Rightarrow> Some (JInt (int_literal t), r)
         | Some True \<Rightarrow> Some (JFloat t, r))"

definition lit :: "string \<Rightarrow> json \<Rightarrow> string \<Rightarrow> (json \<times> string) option" where
  "lit w v s = (if starts_with w s then Some (v, drop (length w) s) else None)"

definition dict_of :: "(string \<times> 'v) list \<Rightarrow> (string \<times> 'v) list" where
  "dict_of kvs = foldl (\<lambda>d (k, v). dict_set k v d) [] kvs"

fun parse_val :: "nat \<Rightarrow> string \<Rightarrow> (json \<times> string) option"
  and parse_elems :: "nat \<Rightarrow> string \<Rightarrow> (json list \<times> string) option"
  and parse_members :: "nat \<Rightarrow> string \<Rightarrow> ((string \<times> json) list \<times> string) option" where
  "parse_val 0 s = None"
| "parse_val (Suc f) s =
     (case skip_ws s of
        [] \<Rightarrow> None
      | c # cs \<Rightarrow>
          if c = CHR 0x22 then map_option (\<lambda>(t, r). (JStr t, r)) (parse_str cs)
          else if c = CHR ''['' then
            (case skip_ws cs of
               [] \<Rightarrow> None
             | d # ds \<Rightarrow> if d = CHR '']'' then Some (JArr [], ds)
                 else map_option (\<lambda>(vs, r). (JArr vs, r)) (parse_elems f (d # ds)))
          else if c = CHR ''{'' then
            (case skip_ws cs of
               [] \<Rightarrow> None
             | d # ds \<Rightarrow> if d = CHR ''}'' then Some (JObj [], ds)
                 else map_option (\<lambda>(kvs, r). (JObj (dict_of kvs), r)) (parse_members f (d # ds)))
          else if c = CHR ''t'' then lit ''true'' (JBool True) (c # cs)
          else if c = CHR ''f'' then lit ''false'' (JBool False) (c # cs)
          else if c = CHR ''n'' then lit ''null'' JNull (c # cs)
          else parse_num (c # cs))"
| "parse_elems 0 s = None"
| "parse_elems (Suc f) s =
     (case parse_val f s of
        None \<Rightarrow> None
      | Some (v, r) \<Rightarrow>
          (case skip_ws r of
             [] \<Rightarrow> None
           | d # ds \<Rightarrow>
               if d = CHR '']'' then Some ([v], ds)
               else if d = CHR '','' then map_option (\<lambda>(vs, r'). (v # vs, r')) (parse_elems f ds)
               else None))"
| "parse_members 0 s = None"
| "parse_members (Suc f) s =
     (case skip_ws s of
        [] \<Rightarrow> None
      | q # qs \<Rightarrow>
          if q \<noteq> CHR 0x22 then None
          else (case parse_str qs of
             None \<Rightarrow> None
           | Some (key, r) \<Rightarrow>
               (case skip_ws r of
                  [] \<Rightarrow> None
                | col # r1 \<Rightarrow>
                    if col \<noteq> CHR '':'' then None
                    else (case parse_val f r1 of
                       None \<Rightarrow> None
                     | Some (v, r2) \<Rightarrow>
                         (case skip_ws r2 of
                            [] \<Rightarrow> None
                          | d # ds \<Rightarrow>
                              if d = CHR ''}'' then Some ([(key, v)], ds)
                              else if d = CHR '','' then
                                map_option (\<lambda>(kvs, r'). ((key, v) # kvs, r')) (parse_members f ds)
                              else None)))))"

text \<open>One unit of fuel per character is enough: every call of the reader consumes one.\<close>

definition loads :: "string \<Rightarrow> json option" where
  "loads s = (case parse_val (Suc (length s)) s of
     None \<Rightarrow> None
   | Some (v, r) \<Rightarrow> if skip_ws r = [] then Some v else None)"

subsection \<open>The round trip\<close>

text \<open>The values a program can hold: float texts are float literals, objects have distinct keys.\<close>

primrec json_ok :: "json \<Rightarrow> bool" where
  "json_ok JNull = True"
| "json_ok (JBool b) = True"
| "json_ok (JInt n) = True"
| "json_ok (JFloat s) = (num_kind s = Some True \<and> (\<forall>c\<in>set s. is_num_char c))"
| "json_ok (JStr s) = True"
| "json_ok (JArr vs) = list_all id (map json_ok vs)"
| "json_ok (JObj kvs) = (distinct (map fst kvs) \<and> list_all snd (map (map_prod id json_ok) kvs))"

lemma json_ok_Arr [simp]: "json_ok (JArr vs) \<longleftrightarrow> (\<forall>v\<in>set vs. json_ok v)"
  by (simp add: list_all_iff)

lemma json_ok_Obj [simp]:
  "json_ok (JObj kvs) \<longleftrightarrow> distinct (map fst kvs) \<and> (\<forall>kv\<in>set kvs. json_ok (snd kv))"
  by (auto simp: list_all_iff)

declare json_ok.simps(6,7) [simp del]

lemma hex_val_digit [simp]: "n < 16 \<Longrightarrow> hex_val (hex_digit n) = Some n"
  by (auto simp: hex_val_def hex_digit_def Let_def take_bit_nat_def)

lemma hex_val_0 [simp]: "hex_val (CHR ''0'') = Some 0"
  by (simp add: hex_val_def)

lemma cp_less: "cp c < 256"
  by (rule nat_of_char_less_256)

lemma cp_specials:
  "cp c = 34 \<longleftrightarrow> c = CHR 0x22" "cp c = 92 \<longleftrightarrow> c = CHR 0x5C" "cp c = 10 \<longleftrightarrow> c = CHR 0x0A"
  "cp c = 13 \<longleftrightarrow> c = CHR 0x0D" "cp c = 9 \<longleftrightarrow> c = CHR 0x09" "cp c = 12 \<longleftrightarrow> c = CHR 0x0C"
  "cp c = 8 \<longleftrightarrow> c = CHR 0x08"
  by (rule cp_eqI, simp)+

lemma esc_char_cases:
  obtains (q) "c = CHR 0x22" | (b) "c = CHR 0x5C" | (n) "c = CHR 0x0A" | (r) "c = CHR 0x0D"
  | (t) "c = CHR 0x09" | (f) "c = CHR 0x0C" | (bs) "c = CHR 0x08"
  | (u) "esc_char a c = [CHR 0x5C, CHR ''u'', CHR ''0'', CHR ''0'', hex_digit (cp c div 16), hex_digit (cp c mod 16)]"
  | (plain) "esc_char a c = [c]" "c \<noteq> CHR 0x22" "c \<noteq> CHR 0x5C" "32 \<le> cp c"
proof (cases "c \<in> {CHR 0x22, CHR 0x5C, CHR 0x0A, CHR 0x0D, CHR 0x09, CHR 0x0C, CHR 0x08}")
  case True
  then show thesis using that(1-7) by auto
next
  case False
  then show thesis
    using that(8,9)
    by (cases "cp c < 32 \<or> a \<and> 127 \<le> cp c") (auto simp: esc_char_def Let_def cp_specials)
qed

lemma parse_str_esc:
  "parse_str (esc_char a c @ t) = map_option (\<lambda>(u, r). (c # u, r)) (parse_str t)"
proof (cases rule: esc_char_cases [where c = c and a = a])
  case u
  have "cp c div 16 < 16" using cp_less [of c] by linarith
  moreover have "16 * (cp c div 16) + cp c mod 16 = cp c" by simp
  ultimately show ?thesis unfolding u by simp
qed (simp_all add: esc_char_def unesc_def)

lemma parse_str_quote [simp]:
  "parse_str (concat (map (esc_char a) s) @ CHR 0x22 # r) = Some (s, r)"
  by (induction s) (simp_all add: parse_str_esc)

subsubsection \<open>Numbers\<close>

lemma is_num_char_decimal: "is_decimal c \<Longrightarrow> is_num_char c"
  by (simp add: is_num_char_def)

lemma str_int_num_chars: "\<forall>c\<in>set (str_int n). is_num_char c"
  using digits_of_decimal by (auto simp: str_int_def is_num_char_def)

lemma cp_0: "cp (CHR ''0'') = 48"
  by simp

lemma char_of_48: "char_of (48::nat) = CHR ''0''"
  by (metis cp_0 char_of_cp)

lemma digits_of_hd: "0 < n \<Longrightarrow> hd (digits_of n) \<noteq> CHR ''0''"
proof (induction n rule: digits_of.induct)
  case (1 n)
  show ?case
  proof (cases "n < 10")
    case True
    then have "char_of (48 + n) \<noteq> CHR ''0''"
      using "1.prems" cp_digit [of n] by (metis add_cancel_right_right cp_0 less_irrefl)
    with True show ?thesis by (subst digits_of.simps) simp
  next
    case False
    with 1 have "hd (digits_of (n div 10)) \<noteq> CHR ''0''" by simp
    with False show ?thesis by (subst digits_of.simps) (simp add: hd_append)
  qed
qed

lemma dropWhile_all: "\<forall>c\<in>set s. P c \<Longrightarrow> dropWhile P s = []"
  by (induction s) auto

lemma num_kind_digits: "num_kind (digits_of n) = Some False"
proof (cases "n = 0")
  case True
  then show ?thesis by (subst True) (simp add: digits_of.simps char_of_48 num_kind_def num_frac_def)
next
  case False
  obtain d ds where d: "digits_of n = d # ds" by (cases "digits_of n") auto
  have dec: "is_decimal d" "\<forall>c\<in>set ds. is_decimal c"
    using digits_of_decimal [of n] by (auto simp: d)
  have "d \<noteq> CHR ''0''" using digits_of_hd [of n] False by (simp add: d)
  moreover have "d \<noteq> CHR ''-''" using dec by (auto simp: is_decimal_def)
  ultimately show ?thesis
    using dec by (simp add: num_kind_def d dropWhile_all num_frac_def)
qed

lemma num_kind_minus: "num_kind (CHR ''-'' # digits_of n) = Some False"
proof -
  obtain d ds where d: "digits_of n = d # ds" by (cases "digits_of n") auto
  have "is_decimal d" using digits_of_decimal [of n] by (auto simp: d)
  then have "d \<noteq> CHR ''-''" by (auto simp: is_decimal_def)
  then have "num_kind (CHR ''-'' # digits_of n) = num_kind (digits_of n)"
    by (simp add: num_kind_def d)
  then show ?thesis by (simp add: num_kind_digits)
qed

lemma num_kind_str_int: "num_kind (str_int n) = Some False"
  by (simp add: str_int_def num_kind_digits num_kind_minus)

lemma int_literal_str_int [simp]: "int_literal (str_int n) = n"
proof (cases "n < 0")
  case True
  then show ?thesis by (simp add: str_int_def int_literal_def)
next
  case False
  obtain d ds where d: "digits_of (nat n) = d # ds" by (cases "digits_of (nat n)") auto
  have "is_decimal d" using digits_of_decimal [of "nat n"] by (auto simp: d)
  then have "d \<noteq> CHR ''-''" by (auto simp: is_decimal_def)
  then have "int_literal (digits_of (nat n)) = int (nat_of_digits (digits_of (nat n)))"
    by (simp add: int_literal_def d)
  with False show ?thesis by (simp add: str_int_def)
qed

definition ends_num :: "string \<Rightarrow> bool" where
  "ends_num r = (case r of [] \<Rightarrow> True | c # _ \<Rightarrow> \<not> is_num_char c)"

lemma span_num:
  assumes "\<forall>c\<in>set s. is_num_char c" and "ends_num r"
  shows "takeWhile is_num_char (s @ r) = s" "dropWhile is_num_char (s @ r) = r"
  using assms by (cases r; simp add: ends_num_def)+

lemma parse_num_int: "ends_num r \<Longrightarrow> parse_num (str_int n @ r) = Some (JInt n, r)"
  unfolding parse_num_def span_num [OF str_int_num_chars] by (simp add: num_kind_str_int)

lemma parse_num_float:
  "ends_num r \<Longrightarrow> num_kind s = Some True \<Longrightarrow> \<forall>c\<in>set s. is_num_char c \<Longrightarrow>
     parse_num (s @ r) = Some (JFloat s, r)"
  unfolding parse_num_def by (simp only: span_num) simp

lemma num_start:
  assumes "num_kind s = Some k"
  obtains c cs where "s = c # cs" "is_decimal c \<or> c = CHR ''-''"
proof (cases s)
  case Nil
  with assms show thesis by (simp add: num_kind_def)
next
  case (Cons c cs)
  have "c = CHR ''0'' \<Longrightarrow> is_decimal c" by (simp add: is_decimal_def)
  then have "is_decimal c \<or> c = CHR ''-''"
    using assms Cons by (auto simp: num_kind_def Let_def split: if_splits)
  with Cons show thesis by (rule that)
qed

lemma parse_val_num:
  assumes "num_kind s = Some k" and "parse_num (s @ r) = Some (v, r)"
  shows "parse_val (Suc f) (s @ r) = Some (v, r)"
proof -
  obtain c cs where s: "s = c # cs" and c: "is_decimal c \<or> c = CHR ''-''"
    using num_start [OF assms(1)] by blast
  have "\<not> is_ws c" "c \<noteq> CHR 0x22" "c \<noteq> CHR ''[''" "c \<noteq> CHR ''{''" "c \<noteq> CHR ''t''"
      "c \<noteq> CHR ''f''" "c \<noteq> CHR ''n''"
    using c by (auto simp: is_decimal_def is_ws_def)
  with assms(2) show ?thesis by (simp add: s skip_ws_def)
qed

subsubsection \<open>Structures\<close>

lemma skip_ws_append: "\<forall>c\<in>set w. is_ws c \<Longrightarrow> skip_ws (w @ s) = skip_ws s"
  by (simp add: skip_ws_def)

lemma skip_ws_nonws [simp]: "\<not> is_ws c \<Longrightarrow> skip_ws (c # s) = c # s"
  by (simp add: skip_ws_def)

lemma skip_ws_idem [simp]: "skip_ws (skip_ws s) = skip_ws s"
  by (simp add: skip_ws_def)

lemma parse_val_ws: "\<forall>c\<in>set w. is_ws c \<Longrightarrow> parse_val f (w @ s) = parse_val f s"
  by (cases f) (simp_all add: skip_ws_append)

lemma parse_elems_ws: "\<forall>c\<in>set w. is_ws c \<Longrightarrow> parse_elems f (w @ s) = parse_elems f s"
  by (cases f) (simp_all add: parse_val_ws)

lemma parse_members_ws: "\<forall>c\<in>set w. is_ws c \<Longrightarrow> parse_members f (w @ s) = parse_members f s"
  by (cases f) (simp_all add: skip_ws_append)

lemma not_ws [simp]:
  "\<not> is_ws (CHR 0x22)" "\<not> is_ws (CHR ''['')" "\<not> is_ws (CHR '']'')" "\<not> is_ws (CHR ''{'')"
  "\<not> is_ws (CHR ''}'')" "\<not> is_ws (CHR '','')" "\<not> is_ws (CHR '':'')" "\<not> is_ws (CHR ''t'')"
  "\<not> is_ws (CHR ''f'')" "\<not> is_ws (CHR ''n'')"
  by (simp_all add: is_ws_def)

lemma not_num [simp]:
  "ends_num (CHR '']'' # r)" "ends_num (CHR ''}'' # r)" "ends_num (CHR '','' # r)" "ends_num []"
  by (simp_all add: ends_num_def is_num_char_def is_decimal_def)

lemma num_head:
  assumes "num_kind s = Some k"
  shows "\<exists>c cs. s = c # cs \<and> \<not> is_ws c \<and> c \<noteq> CHR '']''"
proof -
  obtain c cs where "s = c # cs" "is_decimal c \<or> c = CHR ''-''" by (rule num_start [OF assms])
  then show ?thesis by (auto simp: is_decimal_def is_ws_def)
qed

lemma dumps_head:
  "json_ok v \<Longrightarrow> \<exists>c cs. dumps a i k v = c # cs \<and> \<not> is_ws c \<and> c \<noteq> CHR '']''"
  using num_head [OF num_kind_str_int] num_head by (cases v) (fastforce simp: quote_def)+

lemma dumps_pos: "json_ok v \<Longrightarrow> 0 < length (dumps a i k v)"
  using dumps_head [of v a i k] by auto

lemma foldl_dict_set_new:
  "distinct (map fst (d @ kvs)) \<Longrightarrow> foldl (\<lambda>d (k, v). dict_set k v d) d kvs = d @ kvs"
proof (induction kvs arbitrary: d)
  case (Cons kv kvs)
  then show ?case by (cases kv) (simp add: dict_set_new)
qed simp

lemma dict_of_distinct: "distinct (map fst kvs) \<Longrightarrow> dict_of kvs = kvs"
  using foldl_dict_set_new [of "[]" kvs] by (simp add: dict_of_def)

lemma length_join_Cons: "length (join i (x # xs)) \<ge> length x"
  by (cases xs) auto

lemma parse_elems_dumps:
  assumes IH: "\<And>v r f. v \<in> set vs \<Longrightarrow> ends_num r \<Longrightarrow> length (dumps a (CHR '','' # w) k v) \<le> f \<Longrightarrow>
      parse_val f (dumps a (CHR '','' # w) k v @ r) = Some (v, r)"
    and w: "\<forall>c\<in>set w. is_ws c" and "vs \<noteq> []"
    and "length (join (CHR '','' # w) (map (dumps a (CHR '','' # w) k) vs)) < f"
  shows "parse_elems f (join (CHR '','' # w) (map (dumps a (CHR '','' # w) k) vs) @ CHR '']'' # r)
      = Some (vs, r)"
  using assms(1,3,4)
proof (induction vs arbitrary: f rule: induct_list012)
  case (2 v)
  then show ?case by (cases f) auto
next
  case (3 v v' vs)
  let ?j = "join (CHR '','' # w) (map (dumps a (CHR '','' # w) k) (v' # vs))"
  obtain g where f: "f = Suc g" using "3.prems"(3) by (cases f) auto
  have g: "length (dumps a (CHR '','' # w) k v) \<le> g" "length ?j < g"
    using "3.prems"(3) by (simp_all add: f)
  have v: "parse_val g (dumps a (CHR '','' # w) k v @ CHR '','' # w @ ?j @ CHR '']'' # r)
      = Some (v, CHR '','' # w @ ?j @ CHR '']'' # r)"
    using g(1) by (intro "3.prems"(1)) auto
  have "parse_elems g (?j @ CHR '']'' # r) = Some (v' # vs, r)"
    using "3.prems"(1) g(2) by (intro "3.IH"(2)) auto
  then show ?case
    using v w by (simp add: f parse_elems_ws)
qed simp

lemma parse_members_dumps:
  assumes IH: "\<And>v r f. v \<in> snd ` set kvs \<Longrightarrow> ends_num r \<Longrightarrow> length (d v) \<le> f \<Longrightarrow>
      parse_val f (d v @ r) = Some (v, r)"
    and w: "\<forall>c\<in>set w. is_ws c" and w': "\<forall>c\<in>set w'. is_ws c" and "kvs \<noteq> []"
    and "length (join (CHR '','' # w) (map (\<lambda>(x, t). quote a x @ (CHR '':'' # w') @ d t) kvs)) < f"
  shows "parse_members f
      (join (CHR '','' # w) (map (\<lambda>(x, t). quote a x @ (CHR '':'' # w') @ d t) kvs) @ CHR ''}'' # r)
      = Some (kvs, r)"
  using assms(1,4,5)
proof (induction kvs arbitrary: f rule: induct_list012)
  case (2 kv)
  obtain x v where kv: "kv = (x, v)" by (cases kv)
  obtain g where f: "f = Suc g" using "2.prems"(3) by (cases f) auto
  have "parse_val g (d v @ CHR ''}'' # r) = Some (v, CHR ''}'' # r)"
    using "2.prems" by (intro "2.prems"(1)) (auto simp: kv f)
  then show ?case using w' by (simp add: kv f quote_def parse_val_ws)
next
  case (3 kv kv' kvs)
  let ?j = "join (CHR '','' # w) (map (\<lambda>(x, t). quote a x @ (CHR '':'' # w') @ d t) (kv' # kvs))"
  obtain x v where kv: "kv = (x, v)" by (cases kv)
  obtain g where f: "f = Suc g" using "3.prems"(3) by (cases f) auto
  have g: "length (d v) \<le> g" "length ?j < g"
    using "3.prems"(3) by (simp_all add: f kv)
  have v: "parse_val g (d v @ CHR '','' # w @ ?j @ CHR ''}'' # r)
      = Some (v, CHR '','' # w @ ?j @ CHR ''}'' # r)"
    using g(1) by (intro "3.prems"(1)) (auto simp: kv)
  have "parse_members g (?j @ CHR ''}'' # r) = Some (kv' # kvs, r)"
    using "3.prems"(1) g(2) by (intro "3.IH"(2)) auto
  then show ?case
    using v w w' by (simp add: f kv quote_def parse_val_ws parse_members_ws)
qed simp

lemma parse_val_dumps:
  assumes "json_ok v" and "ends_num r" and "length (dumps a (CHR '','' # w) (CHR '':'' # w') v) \<le> f"
    and w: "\<forall>c\<in>set w. is_ws c" and w': "\<forall>c\<in>set w'. is_ws c"
  shows "parse_val f (dumps a (CHR '','' # w) (CHR '':'' # w') v @ r) = Some (v, r)"
  using assms(1-3)
proof (induction v arbitrary: r f)
  case (JInt n)
  then obtain g where "f = Suc g" using dumps_pos [of "JInt n" a] by (cases f) auto
  then show ?case
    using JInt parse_val_num [OF num_kind_str_int parse_num_int] by simp
next
  case (JFloat s)
  then obtain g where "f = Suc g" using dumps_pos [of "JFloat s" a] by (cases f) auto
  then show ?case
    using JFloat parse_val_num [OF _ parse_num_float] by auto
next
  case (JArr vs)
  let ?d = "dumps a (CHR '','' # w) (CHR '':'' # w')"
  obtain g where f: "f = Suc g" using JArr.prems by (cases f) auto
  show ?case
  proof (cases vs)
    case Nil
    then show ?thesis by (simp add: f)
  next
    case (Cons v vs')
    obtain c cs where c: "join (CHR '','' # w) (map ?d vs) = c # cs" "\<not> is_ws c" "c \<noteq> CHR '']''"
      using dumps_head [of v a "CHR '','' # w" "CHR '':'' # w'"] JArr.prems(1) Cons
      by (cases vs') auto
    have "parse_elems g (join (CHR '','' # w) (map ?d vs) @ CHR '']'' # r) = Some (vs, r)"
      using JArr.prems JArr.IH w Cons by (intro parse_elems_dumps) (auto simp: f)
    with c show ?thesis by (simp add: f)
  qed
next
  case (JObj kvs)
  let ?d = "dumps a (CHR '','' # w) (CHR '':'' # w')"
  let ?m = "map (\<lambda>(x, t). quote a x @ (CHR '':'' # w') @ ?d t) kvs"
  have m: "map (\<lambda>(x, t). quote a x @ (CHR '':'' # w') @ t) (map (map_prod id ?d) kvs) = ?m"
    by auto
  obtain g where f: "f = Suc g" using JObj.prems by (cases f) auto
  show ?case
  proof (cases kvs)
    case Nil
    then show ?thesis by (simp add: f)
  next
    case (Cons kv kvs')
    obtain cs where c: "join (CHR '','' # w) ?m = CHR 0x22 # cs"
      by (cases kvs'; cases kv) (auto simp: Cons quote_def)
    have "parse_members g (join (CHR '','' # w) ?m @ CHR ''}'' # r) = Some (kvs, r)"
    proof (rule parse_members_dumps [where d = ?d, OF _ w w'])
      show "kvs \<noteq> []" using Cons by simp
      show "length (join (CHR '','' # w) ?m) < g"
        using JObj.prems(3) unfolding dumps.simps m f by simp
      show "parse_val f' (?d v @ r') = Some (v, r')"
        if "v \<in> snd ` set kvs" "ends_num r'" "length (?d v) \<le> f'" for v r' f'
        using that JObj.prems(1) JObj.IH by force
    qed
    with c JObj.prems(1) show ?thesis
      unfolding dumps.simps m f by (simp add: dict_of_distinct)
  qed
next
  case JNull
  then show ?case by (cases f) (auto simp: lit_def)
next
  case (JBool b)
  then show ?case by (cases f; cases b) (auto simp: lit_def)
next
  case (JStr s)
  then show ?case by (cases f) (auto simp: quote_def)
qed

theorem loads_dumps:
  assumes "json_ok v" and "\<forall>c\<in>set w. is_ws c" and "\<forall>c\<in>set w'. is_ws c"
  shows "loads (dumps a (CHR '','' # w) (CHR '':'' # w') v) = Some v"
proof -
  have "parse_val (Suc (length (dumps a (CHR '','' # w) (CHR '':'' # w') v)))
      (dumps a (CHR '','' # w) (CHR '':'' # w') v @ []) = Some (v, [])"
    using assms by (intro parse_val_dumps) auto
  then show ?thesis by (simp only: loads_def append_Nil2) (simp add: skip_ws_def)
qed

subsection \<open>Sorted output\<close>

lemma map_fst_map_prod_id: "map fst (map (map_prod id f) kvs) = map fst kvs"
  by simp

lemma json_ok_jsort [simp]: "json_ok v \<Longrightarrow> json_ok (jsort v)"
proof (induction v)
  case (JObj kvs)
  have "distinct (map fst (sort_key fst (map (map_prod id jsort) kvs)))"
    using JObj.prems by (simp add: distinct_map inj_on_def) force
  with JObj show ?case by force
qed auto

lemma dumps_sorted_inj:
  assumes "dumps_sorted a (CHR '','' # w) (CHR '':'' # w') u = dumps_sorted a (CHR '','' # w) (CHR '':'' # w') v"
    and "json_ok u" and "json_ok v" and "\<forall>c\<in>set w. is_ws c" and "\<forall>c\<in>set w'. is_ws c"
  shows "jsort u = jsort v"
  using assms loads_dumps [OF json_ok_jsort [OF assms(2)] assms(4,5)]
    loads_dumps [OF json_ok_jsort [OF assms(3)] assms(4,5)]
  by (metis dumps_sorted_def option.inject)

subsection \<open>\<open>str\<close> of a value that was read\<close>

definition repr_char :: "char \<Rightarrow> char \<Rightarrow> string" where
  "repr_char q c = (let n = cp c in
     if c = q \<or> n = 92 then [CHR 0x5C, c]
     else if n = 10 then [CHR 0x5C, CHR ''n'']
     else if n = 13 then [CHR 0x5C, CHR ''r'']
     else if n = 9 then [CHR 0x5C, CHR ''t'']
     else if n < 32 \<or> 127 \<le> n \<and> n \<le> 160 \<or> n = 173
       then [CHR 0x5C, CHR ''x'', hex_digit (n div 16), hex_digit (n mod 16)]
     else [c])"

definition repr_str :: "string \<Rightarrow> string" where
  "repr_str s =
     (let q = (if CHR 0x27 \<in> set s \<and> CHR 0x22 \<notin> set s then CHR 0x22 else CHR 0x27)
      in q # concat (map (repr_char q) s) @ [q])"

primrec py_repr :: "json \<Rightarrow> string" where
  "py_repr JNull = ''None''"
| "py_repr (JBool b) = (if b then ''True'' else ''False'')"
| "py_repr (JInt n) = str_int n"
| "py_repr (JFloat s) = s"
| "py_repr (JStr s) = repr_str s"
| "py_repr (JArr vs) = CHR ''['' # join '', '' (map py_repr vs) @ [CHR '']'']"
| "py_repr (JObj kvs) =
     CHR ''{'' # join '', '' (map (\<lambda>(x, t). repr_str x @ '': '' @ t) (map (map_prod id py_repr) kvs)) @ [CHR ''}'']"

definition py_str :: "json \<Rightarrow> string" where
  "py_str v = (case v of JStr s \<Rightarrow> s | _ \<Rightarrow> py_repr v)"

lemma py_str_JStr [simp]: "py_str (JStr s) = s"
  by (simp add: py_str_def)

text \<open>\<open>d[k]\<close> and \<open>k in d\<close> on a value that was read.\<close>

definition jget :: "string \<Rightarrow> json \<Rightarrow> json option" where
  "jget k v = (case v of JObj kvs \<Rightarrow> dict_get kvs k | _ \<Rightarrow> None)"

lemma jget_jsort:
  assumes "json_ok v"
  shows "jget k (jsort v) = map_option jsort (jget k v)"
proof (cases v)
  case (JObj kvs)
  let ?m = "map (map_prod id jsort) kvs"
  have d: "distinct (map fst ?m)" using assms JObj by simp
  have "distinct (map fst (sort_key fst ?m))"
    using d by (metis distinct_map distinct_sort set_sort)
  then have "map_of (sort_key fst ?m) = map_of ?m"
    using d by (subst map_of_inject_set) auto
  then have "map_of (sort_key fst ?m) k = map_of ?m k" by simp
  moreover have "map_of ?m k = map_option jsort (map_of kvs k)"
    by (induction kvs) auto
  ultimately show ?thesis by (simp add: JObj jget_def)
qed (auto simp: jget_def)


lemma sort_key_map_prod: "sort_key fst (map (map_prod id f) xs) = map (map_prod id f) (sort_key fst xs)"
proof (induction xs)
  case (Cons x xs)
  have "insort_key fst (map_prod id f x) (map (map_prod id f) ys) = map (map_prod id f) (insort_key fst x ys)" for ys
    by (induction ys) auto
  with Cons show ?case by (simp only: list.map sort_key_simps)
qed simp

lemma jsort_idem [simp]: "jsort (jsort v) = jsort v"
proof (induction v)
  case (JObj kvs)
  have "map (map_prod id jsort) (map (map_prod id jsort) kvs) = map (map_prod id jsort) kvs"
    using JObj by (auto simp: case_prod_unfold)
  then show ?case
    by (simp add: sort_key_map_prod [symmetric] sort_key_id_if_sorted del: map_map)
qed auto


subsection \<open>The characters of the output\<close>

primrec json_chars :: "json \<Rightarrow> char set" where
  "json_chars JNull = {}"
| "json_chars (JBool b) = {}"
| "json_chars (JInt n) = {}"
| "json_chars (JFloat s) = {}"
| "json_chars (JStr s) = set s"
| "json_chars (JArr vs) = \<Union> (set (map json_chars vs))"
| "json_chars (JObj kvs) = (\<Union>(x, cs) \<in> set (map (map_prod id json_chars) kvs). set x \<union> cs)"

definition printable :: "char \<Rightarrow> bool" where
  "printable c = (32 \<le> cp c \<and> cp c < 127)"

lemma cp_hex_digit: "n < 16 \<Longrightarrow> printable (hex_digit n)"
  by (simp add: printable_def hex_digit_def take_bit_nat_def)

lemma esc_char_chars:
  assumes "x \<in> set (esc_char a c)"
  shows "printable x \<or> \<not> a \<and> x = c \<and> 32 \<le> cp c"
proof -
  have c: "x \<in> {CHR 0x5C, CHR 0x22, CHR ''n'', CHR ''r'', CHR ''t'', CHR ''f'', CHR ''b'', CHR ''u'', CHR ''0'',
      hex_digit (cp c div 16), hex_digit (cp c mod 16)}
    \<or> \<not> a \<and> x = c \<and> 32 \<le> cp c \<or> x = c \<and> 32 \<le> cp c \<and> cp c < 127"
    using assms unfolding esc_char_def Let_def by (simp split: if_split_asm) auto
  have "cp c < 256" by (rule nat_of_char_less_256)
  then have "printable (hex_digit (cp c div 16))" "printable (hex_digit (cp c mod 16))"
    by (simp_all add: cp_hex_digit less_mult_imp_div_less)
  moreover have "printable (CHR ''n'')" "printable (CHR ''r'')" "printable (CHR ''t'')"
      "printable (CHR ''f'')" "printable (CHR ''b'')" "printable (CHR ''u'')" "printable (CHR ''0'')"
      "printable (CHR 0x5C)" "printable (CHR 0x22)"
    by (simp_all add: printable_def)
  ultimately show ?thesis
    using c by (elim disjE insertE emptyE) (simp_all add: printable_def)
qed

lemma quote_chars: "x \<in> set (quote a s) \<Longrightarrow> printable x \<or> \<not> a \<and> x \<in> set s \<and> 32 \<le> cp x"
  using esc_char_chars by (fastforce simp: quote_def printable_def)

lemma num_char_printable: "is_num_char c \<Longrightarrow> printable c"
  by (auto simp: is_num_char_def is_decimal_def printable_def Let_def)

lemma join_chars: "x \<in> set (join i ss) \<Longrightarrow> x \<in> set i \<or> (\<exists>s\<in>set ss. x \<in> set s)"
  by (induction ss rule: induct_list012) auto

lemma dumps_chars:
  "json_ok v \<Longrightarrow> x \<in> set (dumps a i k v) \<Longrightarrow>
     x \<in> set i \<union> set k \<or> printable x \<or> \<not> a \<and> x \<in> json_chars v \<and> 32 \<le> cp x"
proof (induction v)
  case (JInt n)
  then show ?case using str_int_num_chars [of n] num_char_printable by auto
next
  case (JFloat s)
  then show ?case using num_char_printable by auto
next
  case (JStr s)
  then show ?case using quote_chars by auto
next
  case (JArr vs)
  from JArr.prems(2) consider "printable x" | "x \<in> set (join i (map (dumps a i k) vs))"
    by (auto simp: printable_def)
  then show ?case
  proof cases
    case 2
    from join_chars [OF this] JArr show ?thesis by fastforce
  qed simp
next
  case (JObj kvs)
  let ?m = "map (\<lambda>(x, t). quote a x @ k @ t) (map (map_prod id (dumps a i k)) kvs)"
  from JObj.prems(2) consider "printable x" | "x \<in> set (join i ?m)"
    by (auto simp: printable_def)
  then show ?case
  proof cases
    case 2
    from join_chars [OF this] consider "x \<in> set i"
      | y t where "(y, t) \<in> set kvs" "x \<in> set (quote a y) \<or> x \<in> set k \<or> x \<in> set (dumps a i k t)"
      by fastforce
    then show ?thesis
    proof cases
      case (2 y t)
      then have "json_ok t" using JObj.prems(1) by auto
      with 2 JObj.IH [of "(y, t)" t] quote_chars [of x a y]
      have "x \<in> set i \<union> set k \<or> printable x \<or> \<not> a \<and> x \<in> set y \<union> json_chars t \<and> 32 \<le> cp x"
        by auto
      moreover have "set y \<union> json_chars t \<subseteq> json_chars (JObj kvs)" using 2(1) by force
      ultimately show ?thesis by blast
    qed simp
  qed simp
qed (auto simp: printable_def split: if_splits)

lemma printable_no_break: "printable c \<Longrightarrow> \<not> is_line_break c"
  by (simp add: printable_def is_line_break_def Let_def)

lemma space_no_break [simp]: "\<not> is_line_break (CHR '' '')" "\<not> is_line_break (CHR '','')"
    "\<not> is_line_break (CHR '':'')"
  by (simp_all add: is_line_break_def)

lemma dumps_ascii_no_break:
  assumes "json_ok v" and "c \<in> set (dumps True '', '' '': '' v)"
  shows "\<not> is_line_break c"
  using dumps_chars [OF assms] printable_no_break by auto

lemma json_chars_jsort [simp]: "json_chars (jsort v) = json_chars v"
proof (induction v)
  case (JObj kvs)
  then have "map (map_prod id json_chars) (map (map_prod id jsort) kvs) = map (map_prod id json_chars) kvs"
    by (auto simp: snds.simps)
  then have "set (map (map_prod id json_chars) (sort_key fst (map (map_prod id jsort) kvs)))
      = set (map (map_prod id json_chars) kvs)"
    by (simp only: set_map set_sort) (simp only: set_map [symmetric])
  then show ?case by (simp only: jsort.simps json_chars.simps)
qed auto


text \<open>A character of a string that is written as itself stands in the output.\<close>

lemma dumps_keeps:
  assumes "esc_char a x = [x]"
  shows "x \<in> json_chars v \<Longrightarrow> x \<in> set (dumps a i k v)"
proof (induction v)
  case (JStr s)
  then show ?case using assms by (force simp: quote_def)
next
  case (JArr vs)
  then obtain v where v: "v \<in> set vs" "x \<in> set (dumps a i k v)" by auto
  have "x \<in> set (join i ss)" if "t \<in> set ss" "x \<in> set t" for t ss
    using that by (induction ss rule: induct_list012) auto
  from this [of "dumps a i k v" "map (dumps a i k) vs"] v show ?case by simp
next
  case (JObj kvs)
  then obtain y t where t: "(y, t) \<in> set kvs" "x \<in> set y \<or> x \<in> json_chars t" by auto
  then have q: "x \<in> set (quote a y @ k @ dumps a i k t)"
    using JObj.IH [of "(y, t)" t] assms by (force simp: quote_def)
  let ?m = "map (\<lambda>(x, t). quote a x @ k @ t) (map (map_prod id (dumps a i k)) kvs)"
  have m: "quote a y @ k @ dumps a i k t \<in> set ?m" using t(1) by force
  have "x \<in> set (join i ss)" if "t \<in> set ss" "x \<in> set t" for t ss
    using that by (induction ss rule: induct_list012) auto
  from this [OF m q] show ?case by simp
qed auto

end
