(* ===== verification/PyDatetime.thy ===== *)
theory PyDatetime
  imports PyString
begin

text \<open>
  The part of Python's \<open>datetime\<close> that the code uses. A \<open>datetime\<close> is its wall-clock reading, in
  microseconds since the start of 0001-01-01, and its offset from UTC (none for a naive value). The
  calendar is CPython's own \<open>_ord2ymd\<close> and \<open>_ymd2ord\<close>. \<open>fromisoformat\<close> reads the extended forms
  that \<open>isoformat\<close> writes, with any separator and with \<open>Z\<close> for \<open>+00:00\<close>.
\<close>

record datetime =
  wall :: nat
  tzoff :: "int option"

definition aware :: "datetime \<Rightarrow> bool" where
  "aware t = (tzoff t \<noteq> None)"

text \<open>The instant of an aware value, and \<open>replace(tzinfo=utc)\<close> for a naive one.\<close>

definition instant :: "datetime \<Rightarrow> int" where
  "instant t = int (wall t) - (case tzoff t of None \<Rightarrow> 0 | Some z \<Rightarrow> z)"

definition assume_utc :: "datetime \<Rightarrow> datetime" where
  "assume_utc t = (if tzoff t = None then t\<lparr>tzoff := Some 0\<rparr> else t)"

definition to_utc :: "datetime \<Rightarrow> datetime" where
  "to_utc t = \<lparr>wall = nat (instant t), tzoff = Some 0\<rparr>"

definition day_us :: nat where
  "day_us = 86400000000"

definition add_days :: "datetime \<Rightarrow> nat \<Rightarrow> datetime" where
  "add_days t n = t\<lparr>wall := wall t + n * day_us\<rparr>"

lemma instant_add_days: "instant (add_days t n) = instant t + int (n * day_us)"
  by (simp add: instant_def add_days_def)

subsection \<open>The calendar\<close>

definition is_leap :: "nat \<Rightarrow> bool" where
  "is_leap y = (y mod 4 = 0 \<and> (y mod 100 \<noteq> 0 \<or> y mod 400 = 0))"

definition days_before_year :: "nat \<Rightarrow> nat" where
  "days_before_year y = (y - 1) * 365 + (y - 1) div 4 - (y - 1) div 100 + (y - 1) div 400"

definition dbm_table :: "nat list" where
  "dbm_table = [0, 0, 31, 59, 90, 120, 151, 181, 212, 243, 273, 304, 334]"

definition dim_table :: "nat list" where
  "dim_table = [0, 31, 28, 31, 30, 31, 30, 31, 31, 30, 31, 30, 31]"

definition days_before_month :: "bool \<Rightarrow> nat \<Rightarrow> nat" where
  "days_before_month leap m = dbm_table ! m + (if 2 < m \<and> leap then 1 else 0)"

definition days_in_month :: "bool \<Rightarrow> nat \<Rightarrow> nat" where
  "days_in_month leap m = dim_table ! m + (if m = 2 \<and> leap then 1 else 0)"

definition ymd2ord :: "nat \<Rightarrow> nat \<Rightarrow> nat \<Rightarrow> nat" where
  "ymd2ord y m d = days_before_year y + days_before_month (is_leap y) m + d"

text \<open>The month and day of a year's day \<open>n\<close>, counted from 0.\<close>

definition month_day :: "bool \<Rightarrow> nat \<Rightarrow> nat \<times> nat" where
  "month_day leap n =
     (let m = (n + 50) div 32; p = days_before_month leap m
      in if n < p
         then (m - 1, n - (p - (dim_table ! (m - 1) + (if m - 1 = 2 \<and> leap then 1 else 0))) + 1)
         else (m, n - p + 1))"

definition ord2ymd :: "nat \<Rightarrow> nat \<times> nat \<times> nat" where
  "ord2ymd ord =
     (let n = ord - 1;
          n400 = n div 146097; n = n mod 146097;
          n100 = n div 36524; n = n mod 36524;
          n4 = n div 1461; n = n mod 1461;
          n1 = n div 365; n = n mod 365;
          y = n400 * 400 + 1 + n100 * 100 + n4 * 4 + n1
      in if n1 = 4 \<or> n100 = 4 then (y - 1, 12, 31)
         else (y, month_day (n1 = 3 \<and> (n4 \<noteq> 24 \<or> n100 = 3)) n))"

lemma month_cases:
  fixes n :: nat
  assumes "n < 366"
  obtains m where "(n + 50) div 32 = m" "m \<in> {1, 2, 3, 4, 5, 6, 7, 8, 9, 10, 11, 12}"
    "32 * m \<le> n + 50" "n + 50 < 32 * m + 32"
proof -
  let ?m = "(n + 50) div 32"
  have b: "32 * ?m \<le> n + 50" "n + 50 < 32 * ?m + 32" by linarith+
  have "1 \<le> ?m" "?m \<le> 12" using assms by linarith+
  moreover have "k \<in> {1, 2, 3, 4, 5, 6, 7, 8, 9, 10, 11, 12}" if "1 \<le> k" "k \<le> 12" for k :: nat
    using that by simp arith
  ultimately have "?m \<in> {1, 2, 3, 4, 5, 6, 7, 8, 9, 10, 11, 12}" by blast
  then show thesis using b by (rule that [OF refl])
qed

lemma month_day_ok:
  assumes "n < (if leap then 366 else 365)" and "month_day leap n = (m, d)"
  shows "days_before_month leap m + d = n + 1 \<and> 1 \<le> m \<and> m \<le> 12 \<and> 1 \<le> d \<and> d \<le> days_in_month leap m"
proof -
  have "n < 366" using assms(1) by (cases leap) auto
  then obtain k where k: "(n + 50) div 32 = k" "k \<in> {1, 2, 3, 4, 5, 6, 7, 8, 9, 10, 11, 12}"
      "32 * k \<le> n + 50" "n + 50 < 32 * k + 32"
    by (rule month_cases)
  have md: "(m, d) = month_day leap n" using assms(2) by simp
  from k(2) show ?thesis
    using assms(1) k(3,4) md unfolding month_day_def k(1) days_before_month_def days_in_month_def
    by (elim insertE; simp add: dbm_table_def dim_table_def Let_def split: if_splits)
qed

lemma year_parts:
  assumes "b \<le> 3" "c \<le> 24" "e \<le> 3" "y = 400 * a + 100 * b + 4 * c + e + 1"
  shows "days_before_year y = 146097 * a + 36524 * b + 1461 * c + 365 * e"
    and "is_leap y = (e = 3 \<and> (c \<noteq> 24 \<or> b = 3))"
proof -
  have y: "y - 1 = e + (100 * a + 25 * b + c) * 4" "y - 1 = (4 * c + e) + (4 * a + b) * 100"
      "y - 1 = (100 * b + 4 * c + e) + a * 400"
    using assms(4) by auto
  have "(y - 1) div 4 = 100 * a + 25 * b + c"
    unfolding y(1) using assms(3) by (subst div_mult_self1) auto
  moreover have "(y - 1) div 100 = 4 * a + b"
    unfolding y(2) using assms(2,3) by (subst div_mult_self1) auto
  moreover have "(y - 1) div 400 = a"
    unfolding y(3) using assms(1-3) by (subst div_mult_self1) auto
  ultimately
  show "days_before_year y = 146097 * a + 36524 * b + 1461 * c + 365 * e"
    using assms(4) by (simp add: days_before_year_def)
  have y': "y = (e + 1) + (100 * a + 25 * b + c) * 4" "y = (4 * c + e + 1) + (4 * a + b) * 100"
      "y = (100 * b + 4 * c + e + 1) + a * 400"
    using assms(4) by auto
  have 4: "y mod 4 = (e + 1) mod 4" by (subst y'(1)) (rule mod_mult_self1)
  have 100: "y mod 100 = (4 * c + e + 1) mod 100" by (subst y'(2)) (rule mod_mult_self1)
  have 400: "y mod 400 = (100 * b + 4 * c + e + 1) mod 400" by (subst y'(3)) (rule mod_mult_self1)
  show "is_leap y = (e = 3 \<and> (c \<noteq> 24 \<or> b = 3))"
  proof (cases "e = 3")
    case True
    show ?thesis
    proof (cases "c = 24")
      case True
      with \<open>e = 3\<close> have "y mod 4 = 0" "y mod 100 = 0" "y mod 400 = (100 * (b + 1)) mod 400"
        using 4 100 400 by (simp_all add: algebra_simps)
      moreover have "(100 * (b + 1)) mod 400 = 0 \<longleftrightarrow> b = 3"
        using assms(1) by (cases "b = 3") auto
      ultimately show ?thesis using \<open>e = 3\<close> True by (simp add: is_leap_def)
    next
      case False
      with assms(2) have "4 * c + 4 < 100" by simp
      then have "y mod 100 = 4 * c + 4" using 100 True by simp
      then show ?thesis using 4 True False by (simp add: is_leap_def)
    qed
  next
    case False
    then have "e + 1 < 4" using assms(3) by simp
    then have "y mod 4 = e + 1" using 4 by simp
    then show ?thesis using False by (simp add: is_leap_def)
  qed
qed


lemma ymd2ord_ord2ymd:
  assumes "1 \<le> ord" "ord2ymd ord = (y, m, d)"
  shows "ymd2ord y m d = ord" and "1 \<le> m \<and> m \<le> 12 \<and> 1 \<le> d \<and> d \<le> days_in_month (is_leap y) m \<and> 1 \<le> y"
proof -
  define n where "n = ord - 1"
  define a where "a = n div 146097"
  define r where "r = n mod 146097"
  define b where "b = r div 36524"
  define s where "s = r mod 36524"
  define c where "c = s div 1461"
  define t where "t = s mod 1461"
  define e where "e = t div 365"
  define f where "f = t mod 365"
  have n: "n = 146097 * a + r" "r < 146097" by (simp_all add: a_def r_def)
  have r: "r = 36524 * b + s" "s < 36524" by (simp_all add: b_def s_def)
  have s: "s = 1461 * c + t" "t < 1461" by (simp_all add: c_def t_def)
  have t: "t = 365 * e + f" "f < 365" by (simp_all add: e_def f_def)
  have b4: "b \<le> 4" using n(2) r by linarith
  have c24: "c \<le> 24" using r(2) s by linarith
  have e4: "e \<le> 4" using s(2) t by linarith
  have eq: "ord2ymd ord = (if e = 4 \<or> b = 4 then (a * 400 + 1 + b * 100 + c * 4 + e - 1, 12, 31)
      else (a * 400 + 1 + b * 100 + c * 4 + e, month_day (e = 3 \<and> (c \<noteq> 24 \<or> b = 3)) f))"
    unfolding ord2ymd_def Let_def n_def [symmetric] a_def [symmetric] r_def [symmetric]
      b_def [symmetric] s_def [symmetric] c_def [symmetric] t_def [symmetric] e_def [symmetric]
      f_def [symmetric] by (rule refl)
  have goal: "ymd2ord y m d = ord \<and> 1 \<le> m \<and> m \<le> 12 \<and> 1 \<le> d \<and> d \<le> days_in_month (is_leap y) m \<and> 1 \<le> y"
  proof (cases "e = 4 \<or> b = 4")
    case True
    then have y: "y = a * 400 + b * 100 + c * 4 + e" "m = 12" "d = 31"
      using eq assms(2) by auto
    have dbm: "days_before_month l 12 = (if l then 335 else 334)" for l
      by (simp add: days_before_month_def dbm_table_def)
    show ?thesis
    proof (cases "b = 4")
      case True
      then have "s = 0" using r n(2) by linarith
      then have z: "c = 0" "t = 0" using s by auto
      then have "e = 0" "f = 0" using t by auto
      have y2: "y = 400 * a + 100 * 3 + 4 * 24 + 3 + 1" using y True z \<open>e = 0\<close> by simp
      note yp = year_parts[OF _ _ _ y2]
      have "ymd2ord y 12 31 = n + 1"
        using yp n r s t True z \<open>e = 0\<close> \<open>f = 0\<close> by (simp add: ymd2ord_def dbm)
      moreover have "1 \<le> y" using y2 by simp
      ultimately show ?thesis
        unfolding y(2,3) using assms(1) by (simp add: n_def days_in_month_def dim_table_def)
    next
      case False
      then have "e = 4" "b \<le> 3" using True b4 by auto
      then have f0: "f = 0" using t s(2) by linarith
      have c23: "c \<noteq> 24" using \<open>e = 4\<close> r(2) s t by linarith
      have y2: "y = 400 * a + 100 * b + 4 * c + 3 + 1" using y \<open>e = 4\<close> by simp
      note yp = year_parts[OF \<open>b \<le> 3\<close> c24 _ y2]
      have "ymd2ord y 12 31 = n + 1"
        using yp n r s t c23 \<open>e = 4\<close> f0 by (simp add: ymd2ord_def dbm)
      moreover have "1 \<le> y" using y2 by simp
      ultimately show ?thesis
        unfolding y(2,3) using assms(1) by (simp add: n_def days_in_month_def dim_table_def)
    qed
  next
    case False
    then have be: "b \<le> 3" "e \<le> 3" using b4 e4 by auto
    define L where "L = (e = 3 \<and> (c \<noteq> 24 \<or> b = 3))"
    have y: "y = 400 * a + 100 * b + 4 * c + e + 1" "month_day L f = (m, d)"
      using eq assms(2) False by (auto simp: L_def)
    have "f < (if L then 366 else 365)" using t(2) by simp
    from month_day_ok[OF this y(2)]
    have md: "days_before_month L m + d = f + 1" "1 \<le> m" "m \<le> 12" "1 \<le> d" "d \<le> days_in_month L m" by auto
    note yp = year_parts[OF be(1) c24 be(2) y(1)]
    have "ymd2ord y m d = n + 1"
      using yp n r s t md(1) unfolding ymd2ord_def L_def [symmetric] by simp
    then show ?thesis using md y(1) assms(1) yp(2) by (simp add: n_def L_def)
  qed
  from goal show "ymd2ord y m d = ord" by blast
  from goal show "1 \<le> m \<and> m \<le> 12 \<and> 1 \<le> d \<and> d \<le> days_in_month (is_leap y) m \<and> 1 \<le> y" by blast
qed


subsection \<open>ISO 8601 text\<close>

fun pad :: "nat \<Rightarrow> nat \<Rightarrow> string" where
  "pad 0 n = []"
| "pad (Suc k) n = pad k (n div 10) @ [char_of (48 + n mod 10)]"

text \<open>\<open>clock n\<close> writes the time of day \<open>n\<close>, in microseconds, as \<open>HH:MM:SS[.ffffff]\<close>.\<close>

definition iso_clock :: "nat \<Rightarrow> string" where
  "iso_clock n =
     (let s = n div 1000000; u = n mod 1000000
      in pad 2 (s div 3600) @ '':'' @ pad 2 (s div 60 mod 60) @ '':'' @ pad 2 (s mod 60)
         @ (if u = 0 then [] else ''.'' @ pad 6 u))"

definition iso_offset :: "int option \<Rightarrow> string" where
  "iso_offset z = (case z of None \<Rightarrow> [] | Some z \<Rightarrow>
     (let a = nat \<bar>z\<bar>; s = a div 1000000; u = a mod 1000000
      in (if z < 0 then ''-'' else ''+'')
         @ pad 2 (s div 3600) @ '':'' @ pad 2 (s div 60 mod 60)
         @ (if s mod 60 = 0 \<and> u = 0 then [] else '':'' @ pad 2 (s mod 60))
         @ (if u = 0 then [] else ''.'' @ pad 6 u)))"

definition isoformat :: "datetime \<Rightarrow> string" where
  "isoformat t =
     (let (y, m, d) = ord2ymd (wall t div day_us + 1)
      in pad 4 y @ ''-'' @ pad 2 m @ ''-'' @ pad 2 d @ ''T'' @ iso_clock (wall t mod day_us)
         @ iso_offset (tzoff t))"

text \<open>Reading: \<open>take_num k s\<close> reads exactly \<open>k\<close> digits.\<close>

definition take_num :: "nat \<Rightarrow> string \<Rightarrow> (nat \<times> string) option" where
  "take_num k s =
     (let t = take k s
      in if length t = k \<and> (\<forall>c\<in>set t. is_decimal c) then Some (nat_of_digits t, drop k s) else None)"

definition take_char :: "char \<Rightarrow> string \<Rightarrow> string option" where
  "take_char c s = (case s of [] \<Rightarrow> None | x # xs \<Rightarrow> if x = c then Some xs else None)"

definition frac_us :: "string \<Rightarrow> nat option" where
  "frac_us s = (if s \<noteq> [] \<and> (\<forall>c\<in>set s. is_decimal c)
     then Some (nat_of_digits (take 6 (s @ ''00000''))) else None)"

definition parse_sec :: "string \<Rightarrow> nat option" where
  "parse_sec r = (case take_num 2 r of None \<Rightarrow> None
     | Some (ss, r) \<Rightarrow> if 60 \<le> ss then None else
         (case r of [] \<Rightarrow> Some (ss * 1000000)
          | c # f \<Rightarrow> if c = CHR ''.'' \<or> c = CHR '','' then map_option (\<lambda>u. ss * 1000000 + u) (frac_us f)
                     else None))"

definition parse_min :: "string \<Rightarrow> nat option" where
  "parse_min r = (case take_num 2 r of None \<Rightarrow> None
     | Some (mm, r) \<Rightarrow> if 60 \<le> mm then None else
         (case r of [] \<Rightarrow> Some (mm * 60000000)
          | c # f \<Rightarrow> if c = CHR '':'' then map_option (\<lambda>u. mm * 60000000 + u) (parse_sec f) else None))"

definition parse_clock :: "string \<Rightarrow> nat option" where
  "parse_clock r = (case take_num 2 r of None \<Rightarrow> None
     | Some (hh, r) \<Rightarrow> if 24 \<le> hh then None else
         (case r of [] \<Rightarrow> Some (hh * 3600000000)
          | c # f \<Rightarrow> if c = CHR '':'' then map_option (\<lambda>u. hh * 3600000000 + u) (parse_min f) else None))"

definition is_tz_mark :: "char \<Rightarrow> bool" where
  "is_tz_mark c = (c = CHR ''-'' \<or> c = CHR ''+'' \<or> c = CHR ''Z'')"

definition parse_zone :: "string \<Rightarrow> int option option" where
  "parse_zone r = (case r of
     [] \<Rightarrow> Some None
   | c # z \<Rightarrow>
       if c = CHR ''Z'' then (if z = [] then Some (Some 0) else None)
       else map_option (\<lambda>u. Some (if c = CHR ''-'' then - int u else int u)) (parse_clock z))"

definition fromisoformat :: "string \<Rightarrow> datetime result" where
  "fromisoformat s =
     (case take_num 4 s of None \<Rightarrow> Inl ValueError | Some (y, s) \<Rightarrow>
      case take_char (CHR ''-'') s of None \<Rightarrow> Inl ValueError | Some s \<Rightarrow>
      case take_num 2 s of None \<Rightarrow> Inl ValueError | Some (m, s) \<Rightarrow>
      case take_char (CHR ''-'') s of None \<Rightarrow> Inl ValueError | Some s \<Rightarrow>
      case take_num 2 s of None \<Rightarrow> Inl ValueError | Some (d, s) \<Rightarrow>
      if \<not> (1 \<le> y \<and> 1 \<le> m \<and> m \<le> 12 \<and> 1 \<le> d \<and> d \<le> days_in_month (is_leap y) m) then Inl ValueError
      else
        (let day = (ymd2ord y m d - 1) * day_us
         in case s of
              [] \<Rightarrow> Inr \<lparr>wall = day, tzoff = None\<rparr>
            | _ # t \<Rightarrow>
                (case (parse_clock (takeWhile (\<lambda>c. \<not> is_tz_mark c) t),
                       parse_zone (dropWhile (\<lambda>c. \<not> is_tz_mark c) t)) of
                   (Some u, Some z) \<Rightarrow> Inr \<lparr>wall = day + u, tzoff = z\<rparr>
                 | _ \<Rightarrow> Inl ValueError)))"

subsubsection \<open>Reading what was written\<close>

lemma length_pad [simp]: "length (pad k n) = k"
  by (induction k arbitrary: n) auto

lemma is_decimal_digit: "d < 10 \<Longrightarrow> is_decimal (char_of (48 + d :: nat))"
  by (simp add: is_decimal_def)

lemma pad_decimal: "c \<in> set (pad k n) \<Longrightarrow> is_decimal c"
  by (induction k arbitrary: n) (auto simp: is_decimal_digit)

lemma nat_of_digits_pad: "nat_of_digits (pad k n) = n mod 10 ^ k"
proof (induction k arbitrary: n)
  case (Suc k)
  have "nat_of_digits (pad (Suc k) n) = 10 * nat_of_digits (pad k (n div 10)) + n mod 10"
    by (simp add: nat_of_digits_def digit_val_def)
  also have "\<dots> = 10 * (n div 10 mod 10 ^ k) + n mod 10" by (simp only: Suc.IH)
  also have "\<dots> = n mod 10 ^ Suc k" by (simp add: mod_mult2_eq)
  finally show ?case .
qed (simp add: nat_of_digits_def)

lemma take_num_pad [simp]: "n < 10 ^ k \<Longrightarrow> take_num k (pad k n @ s) = Some (n, s)"
  by (simp add: take_num_def nat_of_digits_pad pad_decimal)

lemma take_num_pad0 [simp]: "n < 10 ^ k \<Longrightarrow> take_num k (pad k n) = Some (n, [])"
  using take_num_pad [of n k "[]"] by (simp del: take_num_pad)

lemma take_char_simp [simp]: "take_char c (c # s) = Some s"
  by (simp add: take_char_def)

lemma frac_us_pad [simp]: "u < 1000000 \<Longrightarrow> frac_us (pad 6 u) = Some u"
proof -
  assume "u < 1000000"
  moreover have "pad 6 u \<noteq> []" using length_pad [of 6 u] by (metis list.size(3) zero_neq_numeral)
  ultimately show ?thesis
    by (simp add: frac_us_def nat_of_digits_pad pad_decimal)
qed

lemma parse_iso_clock [simp]:
  assumes "n < day_us"
  shows "parse_clock (iso_clock n) = Some n"
proof -
  define s where "s = n div 1000000"
  define u where "u = n mod 1000000"
  have n: "n = s * 1000000 + u" and u: "u < 1000000" by (simp_all add: s_def u_def)
  have "s < 86400" using assms n by (simp add: day_us_def)
  then have b: "s div 3600 < 24" "s div 60 mod 60 < 60" "s mod 60 < 60" by auto
  have s: "s = s div 3600 * 3600 + s div 60 mod 60 * 60 + s mod 60"
  proof -
    have "s div 3600 = s div 60 div 60" by (simp add: div_mult2_eq [of s 60 60, simplified])
    moreover have "s = s div 60 * 60 + s mod 60" by simp
    moreover have "s div 60 = s div 60 div 60 * 60 + s div 60 mod 60" by simp
    ultimately show ?thesis by linarith
  qed
  have sec: "parse_sec (pad 2 (s mod 60) @ (if u = 0 then [] else ''.'' @ pad 6 u))
      = Some (s mod 60 * 1000000 + u)"
    using u by (simp add: parse_sec_def not_le del: pad.simps)
  have "parse_clock (iso_clock n)
      = Some (s div 3600 * 3600000000 + (s div 60 mod 60 * 60000000 + (s mod 60 * 1000000 + u)))"
    using b sec unfolding iso_clock_def Let_def s_def [symmetric] u_def [symmetric]
    by (simp add: parse_clock_def parse_min_def)
  then show ?thesis using n s by simp
qed

text \<open>A value Python can hold: a year below 10000.\<close>

definition dt_ok :: "datetime \<Rightarrow> bool" where
  "dt_ok t = (fst (ord2ymd (wall t div day_us + 1)) < 10000)"

lemma not_tz_mark: "is_decimal c \<Longrightarrow> \<not> is_tz_mark c"
  by (auto simp: is_decimal_def is_tz_mark_def)

lemma iso_clock_no_mark: "\<forall>c\<in>set (iso_clock n). \<not> is_tz_mark c"
  by (auto simp: iso_clock_def Let_def dest!: pad_decimal dest: not_tz_mark) (simp_all add: is_tz_mark_def)

lemma span_mark:
  assumes "\<forall>c\<in>set s. \<not> is_tz_mark c" and "is_tz_mark z"
  shows "takeWhile (\<lambda>c. \<not> is_tz_mark c) (s @ z # r) = s"
    and "dropWhile (\<lambda>c. \<not> is_tz_mark c) (s @ z # r) = z # r"
  using assms by (induction s) auto

lemma fromisoformat_isoformat:
  assumes "dt_ok t" and "tzoff t = Some 0"
  shows "fromisoformat (isoformat t) = Inr t"
proof -
  define n where "n = wall t div day_us + 1"
  obtain y m d where ymd: "ord2ymd n = (y, m, d)" by (cases "ord2ymd n")
  have "1 \<le> n" by (simp add: n_def)
  note r = ymd2ord_ord2ymd [OF this ymd]
  have y: "y < 10000" using assms(1) ymd by (simp add: dt_ok_def n_def)
  have "days_in_month l k < 100" if "k \<le> 12" "1 \<le> k" for l k
  proof -
    have "k \<in> {1, 2, 3, 4, 5, 6, 7, 8, 9, 10, 11, 12}" using that by simp arith
    then show ?thesis by (auto simp: days_in_month_def dim_table_def)
  qed
  then have d: "d < 100" "m < 100" using r(2) by (auto intro: le_less_trans)
  have off: "iso_offset (Some 0) = ''+'' @ pad 2 0 @ '':'' @ pad 2 0"
    by (simp add: iso_offset_def)
  have z: "parse_zone (CHR ''+'' # pad 2 0 @ '':'' @ pad 2 0) = Some (Some 0)"
    by (simp add: parse_zone_def parse_clock_def parse_min_def del: pad.simps)
  have day: "0 < day_us" by (simp add: day_us_def)
  have w: "wall t = (n - 1) * day_us + wall t mod day_us" by (simp add: n_def)
  have iso: "isoformat t = pad 4 y @ CHR ''-'' # pad 2 m @ CHR ''-'' # pad 2 d @ CHR ''T''
      # iso_clock (wall t mod day_us) @ CHR ''+'' # pad 2 0 @ '':'' @ pad 2 0"
    unfolding isoformat_def n_def [symmetric] ymd assms(2) off by simp
  have "is_tz_mark (CHR ''+'')" by (simp add: is_tz_mark_def)
  note sp = span_mark [OF iso_clock_no_mark this]
  have "fromisoformat (isoformat t) = Inr \<lparr>wall = (n - 1) * day_us + wall t mod day_us, tzoff = Some 0\<rparr>"
    unfolding iso fromisoformat_def using y d r day z
    by (simp add: sp del: pad.simps append_Cons)
  then show ?thesis using w assms(2) by simp
qed

end
