(* ===== verification/Hashing.thy ===== *)
theory Hashing
  imports Json PyDatetime
begin

text \<open>
  \<open>hashing.py\<close>: the canonical content of an audit record and its hash. SHA-256 is the library's; it
  is the argument \<open>H\<close>, the function from a text to the hexadecimal digest of its UTF-8 bytes. What the
  theorems use of it is that a digest has 64 characters (\<open>digest64\<close>); that two different texts have
  different digests is never assumed: a statement that needs it has the colliding texts as an
  alternative, named among the texts the program hashed.
\<close>

definition GENESIS_HASH :: string where
  "GENESIS_HASH = replicate 64 (CHR ''0'')"

definition digest64 :: "(string \<Rightarrow> string) \<Rightarrow> bool" where
  "digest64 H = (\<forall>s. length (H s) = 64)"

lemma digest64D [simp]: "digest64 H \<Longrightarrow> length (H s) = 64"
  by (simp add: digest64_def)

lemma length_GENESIS [simp]: "length GENESIS_HASH = 64"
  by (simp add: GENESIS_HASH_def)

text \<open>\<open>_ts\<close>: a naive time is refused; an aware one is written in UTC.\<close>

definition ts_text :: "datetime \<Rightarrow> string result" where
  "ts_text t = (if tzoff t = None then Inl ValueError else Inr (isoformat (to_utc t)))"

definition opt_str :: "string option \<Rightarrow> json" where
  "opt_str x = (case x of None \<Rightarrow> JNull | Some s \<Rightarrow> JStr s)"

text \<open>The dictionary that is dumped; its values other than the identifier and the time may be any
  JSON value, which is how \<open>verify_export\<close> calls it.\<close>

definition content_of :: "string \<Rightarrow> json \<Rightarrow> json \<Rightarrow> string \<Rightarrow> json \<Rightarrow> json \<Rightarrow> json" where
  "content_of doc frm to t stp payload = JObj
     [(''document_id'', JStr doc), (''from_state'', frm), (''to_state'', to), (''ts'', JStr t),
      (''step'', stp), (''payload'', payload)]"

definition canonical_content ::
    "string \<Rightarrow> json \<Rightarrow> json \<Rightarrow> datetime \<Rightarrow> json \<Rightarrow> json \<Rightarrow> string result" where
  "canonical_content doc frm to t stp payload =
     rbind (ts_text t) (\<lambda>ts. Inr (dumps_sorted False '','' '':'' (content_of doc frm to ts stp payload)))"

definition compute_hash :: "(string \<Rightarrow> string) \<Rightarrow> string \<Rightarrow> string \<Rightarrow> string" where
  "compute_hash H prev content = H (prev @ content)"

subsection \<open>Times as text\<close>

definition utc_ok :: "datetime \<Rightarrow> bool" where
  "utc_ok t = (aware t \<and> dt_ok (to_utc t))"

lemma tzoff_to_utc [simp]: "tzoff (to_utc t) = Some 0"
  by (simp add: to_utc_def)

lemma ts_text_ok: "utc_ok t \<Longrightarrow> ts_text t = Inr (isoformat (to_utc t))"
  by (simp add: ts_text_def utc_ok_def aware_def)

lemma ts_text_read: "utc_ok t \<Longrightarrow> ts_text t = Inr s \<Longrightarrow> fromisoformat s = Inr (to_utc t)"
  by (simp add: ts_text_ok) (auto simp: utc_ok_def fromisoformat_isoformat)

lemma to_utc_idem [simp]: "to_utc (to_utc t) = to_utc t"
  by (simp add: to_utc_def instant_def)

lemma ts_text_to_utc: "utc_ok t \<Longrightarrow> ts_text (to_utc t) = ts_text t"
  by (simp add: ts_text_ok) (simp add: ts_text_def)

subsection \<open>The content determines the record\<close>

lemma content_keys:
  "jget ''document_id'' (content_of d f t ts s p) = Some (JStr d)"
  "jget ''from_state'' (content_of d f t ts s p) = Some f"
  "jget ''to_state'' (content_of d f t ts s p) = Some t"
  "jget ''ts'' (content_of d f t ts s p) = Some (JStr ts)"
  "jget ''step'' (content_of d f t ts s p) = Some s"
  "jget ''payload'' (content_of d f t ts s p) = Some p"
  by (simp_all add: jget_def content_of_def)

lemma content_ok: "json_ok f \<Longrightarrow> json_ok t \<Longrightarrow> json_ok s \<Longrightarrow> json_ok p \<Longrightarrow>
    json_ok (content_of d f t ts s p)"
  by (simp add: content_of_def)

lemma content_inj:
  assumes "dumps_sorted False '','' '':'' (content_of d f t ts s p)
      = dumps_sorted False '','' '':'' (content_of d' f' t' ts' s' p')"
    and "json_ok f" "json_ok t" "json_ok s" "json_ok p" "json_ok f'" "json_ok t'" "json_ok s'" "json_ok p'"
  shows "d = d'" "jsort f = jsort f'" "jsort t = jsort t'" "ts = ts'" "jsort s = jsort s'" "jsort p = jsort p'"
proof -
  have ok: "json_ok (content_of d f t ts s p)" "json_ok (content_of d' f' t' ts' s' p')"
    using assms by (simp_all add: content_ok)
  have "jsort (content_of d f t ts s p) = jsort (content_of d' f' t' ts' s' p')"
    using dumps_sorted_inj [of False "[]" "[]", OF _ ok] assms(1) by simp
  then have "map_option jsort (jget k (content_of d f t ts s p))
      = map_option jsort (jget k (content_of d' f' t' ts' s' p'))" for k
    using jget_jsort [OF ok(1), of k] jget_jsort [OF ok(2), of k] by simp
  note g = this [of "''document_id''"] this [of "''from_state''"] this [of "''to_state''"]
    this [of "''ts''"] this [of "''step''"] this [of "''payload''"]
  show "d = d'" "jsort f = jsort f'" "jsort t = jsort t'" "ts = ts'" "jsort s = jsort s'" "jsort p = jsort p'"
    using g unfolding content_keys by simp_all
qed

lemma opt_str_ok [simp]: "json_ok (opt_str x)"
  by (simp add: opt_str_def split: option.split)

lemma jsort_opt_str [simp]: "jsort (opt_str x) = opt_str x"
  by (simp add: opt_str_def split: option.split)

lemma opt_str_inj [simp]: "opt_str x = opt_str y \<longleftrightarrow> x = y"
  by (simp add: opt_str_def split: option.split)

lemma canonical_content_inj:
  assumes "canonical_content d (opt_str f) (JStr t) u (JStr s) p = Inr c"
    and "canonical_content d' (opt_str f') (JStr t') u' (JStr s') p' = Inr c"
    and "json_ok p" "json_ok p'" "utc_ok u" "utc_ok u'"
  shows "d = d' \<and> f = f' \<and> t = t' \<and> to_utc u = to_utc u' \<and> s = s' \<and> jsort p = jsort p'"
proof -
  have eq: "dumps_sorted False '','' '':'' (content_of d (opt_str f) (JStr t) (isoformat (to_utc u)) (JStr s) p)
      = dumps_sorted False '','' '':'' (content_of d' (opt_str f') (JStr t') (isoformat (to_utc u')) (JStr s') p')"
    using assms by (simp add: canonical_content_def ts_text_ok)
  note c = content_inj [OF eq opt_str_ok _ _ assms(3) opt_str_ok _ _ assms(4)]
  have "isoformat (to_utc u) = isoformat (to_utc u')" using c(4) by simp
  then have "fromisoformat (isoformat (to_utc u)) = fromisoformat (isoformat (to_utc u'))" by simp
  then have "to_utc u = to_utc u'"
    using ts_text_read [OF assms(5) ts_text_ok [OF assms(5)]]
      ts_text_read [OF assms(6) ts_text_ok [OF assms(6)]] by simp
  then show ?thesis using c by simp
qed


lemma decimal_printable: "is_decimal c \<Longrightarrow> printable c"
  by (auto simp: is_decimal_def printable_def Let_def)

lemma isoformat_printable: "c \<in> set (isoformat t) \<Longrightarrow> printable c"
proof -
  have p: "list_all printable (pad k n)" for k n
    using pad_decimal decimal_printable by (auto simp: list_all_iff)
  have l: "printable (CHR ''-'')" "printable (CHR ''+'')" "printable (CHR '':'')" "printable (CHR ''.'')"
      "printable (CHR ''T'')" by (simp_all add: printable_def)
  have "list_all printable (iso_clock n)" for n
    by (simp add: iso_clock_def Let_def p l del: pad.simps)
  moreover have "list_all printable (iso_offset z)" for z
    by (simp add: iso_offset_def Let_def p l del: pad.simps split: option.split)
  ultimately have "list_all printable (isoformat t)"
    by (simp add: isoformat_def p l del: pad.simps split: prod.split)
  then show "c \<in> set (isoformat t) \<Longrightarrow> printable c" by (simp add: list_all_iff)
qed

subsection \<open>A digest function and a time, for the concrete instances\<close>

definition sample_hash :: "string \<Rightarrow> string" where
  "sample_hash s = replicate 64 (CHR ''a'')"

definition sample_time :: datetime where
  "sample_time = \<lparr>wall = 63000000000000000, tzoff = Some 0\<rparr>"

lemma sample_hash_digest [simp]: "digest64 sample_hash"
  by (simp add: digest64_def sample_hash_def)

lemma sample_time_ok [simp]: "utc_ok sample_time" "aware sample_time"
  by (simp_all add: utc_ok_def aware_def sample_time_def to_utc_def instant_def dt_ok_def day_us_def
      ord2ymd_def Let_def month_day_def)

end
