(* ===== verification/HashChain.thy ===== *)
theory HashChain
  imports Hashing
begin

text \<open>
  What both hash-chained tables (the document trail and the key-lifecycle stream) share: a record
  names its predecessor's hash, and its own hash covers that name and its content. The interface
  \<open>hash_chain\<close> states the law of a verifier in those terms; the append and tamper-evidence lemmas are
  proved once from it, and each table's verifier is an interpretation.
\<close>

definition tail_of :: "('r \<Rightarrow> string) \<Rightarrow> string \<Rightarrow> 'r list \<Rightarrow> string" where
  "tail_of hash p rs = (if rs = [] then p else hash (last rs))"

lemma tail_of_simps [simp]:
  "tail_of hash p [] = p"
  "tail_of hash p (r # rs) = tail_of hash (hash r) rs"
  "tail_of hash p (rs @ [r]) = hash r"
  by (simp_all add: tail_of_def)

text \<open>The texts a chain from \<open>p\<close> hashes: each predecessor's hash followed by a content.\<close>

fun hashed :: "('r \<Rightarrow> string) \<Rightarrow> ('r \<Rightarrow> string option) \<Rightarrow> string \<Rightarrow> 'r list \<Rightarrow> string set" where
  "hashed hash content p [] = {}"
| "hashed hash content p (r # rs) =
     (case content r of None \<Rightarrow> {} | Some c \<Rightarrow> {p @ c}) \<union> hashed hash content (hash r) rs"

lemma hashed_append:
  "hashed hash content p (rs @ [r]) = hashed hash content p rs
     \<union> (case content r of None \<Rightarrow> {} | Some c \<Rightarrow> {tail_of hash p rs @ c})"
  by (induction rs arbitrary: p) (auto split: option.splits)

text \<open>Two texts among those the program hashed have the same digest.\<close>

definition collision :: "(string \<Rightarrow> string) \<Rightarrow> string set \<Rightarrow> bool" where
  "collision H S = (\<exists>x\<in>S. \<exists>y\<in>S. x \<noteq> y \<and> H x = H y)"

lemma collision_mono: "collision H S \<Longrightarrow> S \<subseteq> T \<Longrightarrow> collision H T"
  by (auto simp: collision_def)

text \<open>The only ways a digest can fail a chain from \<open>g\<close>: two of its texts collide, or one hashes to \<open>g\<close>.\<close>

definition hash_broken :: "(string \<Rightarrow> string) \<Rightarrow> string \<Rightarrow> string set \<Rightarrow> bool" where
  "hash_broken H g S = (collision H S \<or> (\<exists>x\<in>S. H x = g))"

lemma hash_broken_mono: "hash_broken H g S \<Longrightarrow> S \<subseteq> T \<Longrightarrow> hash_broken H g T"
  unfolding hash_broken_def using collision_mono by blast

locale hash_chain =
  fixes H :: "string \<Rightarrow> string"
    and ok :: "string \<Rightarrow> 'r list \<Rightarrow> bool"
    and prev :: "'r \<Rightarrow> string"
    and hash :: "'r \<Rightarrow> string"
    and content :: "'r \<Rightarrow> string option"
  assumes ok_Nil: "ok p []"
    and ok_Cons: "ok p (r # rs) \<longleftrightarrow>
      prev r = p \<and> (\<exists>c. content r = Some c \<and> hash r = H (p @ c)) \<and> ok (hash r) rs"
begin

lemma ok_append: "ok p (xs @ ys) \<longleftrightarrow> ok p xs \<and> ok (tail_of hash p xs) ys"
  by (induction xs arbitrary: p) (auto simp: ok_Nil ok_Cons)

lemma ok_snoc:
  "ok p (rs @ [r]) \<longleftrightarrow> ok p rs \<and> prev r = tail_of hash p rs
     \<and> (\<exists>c. content r = Some c \<and> hash r = H (tail_of hash p rs @ c))"
  by (simp add: ok_append ok_Nil ok_Cons)

lemma extend:
  assumes "ok p rs" and "prev r = tail_of hash p rs" and "content r = Some c"
    and "hash r = H (tail_of hash p rs @ c)"
  shows "ok p (rs @ [r])"
  using assms by (simp add: ok_snoc)

lemma ok_prefix: "ok p (xs @ ys) \<Longrightarrow> ok p xs"
  by (simp add: ok_append)

lemma contents_defined: "ok p rs \<Longrightarrow> r \<in> set rs \<Longrightarrow> \<exists>c. content r = Some c"
  by (induction rs arbitrary: p) (auto simp: ok_Nil ok_Cons)

lemma hash_in_hashed:
  assumes "ok p rs" and "r \<in> set rs"
  shows "\<exists>x\<in>hashed hash content p rs. hash r = H x"
  using assms
proof (induction rs arbitrary: p)
  case (Cons a rs)
  then obtain c where c: "content a = Some c" "hash a = H (p @ c)" "ok (hash a) rs"
    by (auto simp: ok_Cons)
  show ?case using Cons.IH [OF c(3)] Cons.prems(2) c by auto
qed simp

text \<open>
  The newest hash commits to the whole chain: two chains that verify and end in the same hash hold
  the same contents, unless two of the texts they hashed collide or one of them hashes to the
  genesis value.
\<close>

lemma same_tail:
  assumes "ok g xs" and "ok g ys" and "tail_of hash g xs = tail_of hash g ys"
    and len: "\<And>s. length (H s) = length g"
  shows "map content xs = map content ys \<and> map hash xs = map hash ys
    \<or> hash_broken H g (hashed hash content g xs \<union> hashed hash content g ys)"
  using assms(1-3)
proof (induction xs arbitrary: ys rule: rev_induct)
  case Nil
  show ?case
  proof (cases ys rule: rev_cases)
    case (snoc ys' y)
    with Nil hash_in_hashed [of g ys y] show ?thesis by (auto simp: hash_broken_def)
  qed simp
next
  case (snoc x xs)
  obtain c where c: "ok g xs" "content x = Some c" "hash x = H (tail_of hash g xs @ c)"
    using snoc.prems(1) by (auto simp: ok_snoc)
  show ?case
  proof (cases ys rule: rev_cases)
    case Nil
    with snoc.prems hash_in_hashed [of g "xs @ [x]" x] show ?thesis by (auto simp: hash_broken_def)
  next
    case (snoc ys' y)
    obtain d where d: "ok g ys'" "content y = Some d" "hash y = H (tail_of hash g ys' @ d)"
      using snoc.prems(2) snoc by (auto simp: ok_snoc)
    have eq: "hash x = hash y" using snoc.prems(3) snoc by simp
    let ?S = "hashed hash content g (xs @ [x]) \<union> hashed hash content g ys"
    have sub: "hashed hash content g xs \<union> hashed hash content g ys' \<subseteq> ?S"
      "tail_of hash g xs @ c \<in> ?S" "tail_of hash g ys' @ d \<in> ?S"
      using c(2) d(2) by (auto simp: hashed_append snoc)
    have lt: "length (tail_of hash g zs) = length g" if "ok g zs" for zs
    proof (cases zs rule: rev_cases)
      case (snoc zs' z)
      with that show ?thesis by (auto simp: ok_snoc len)
    qed simp
    show ?thesis
    proof (cases "tail_of hash g xs @ c = tail_of hash g ys' @ d")
      case True
      then have t: "tail_of hash g xs = tail_of hash g ys'" "c = d"
        using lt [OF c(1)] lt [OF d(1)] by (auto simp: append_eq_append_conv)
      from snoc.IH [OF c(1) d(1) t(1)] show ?thesis
      proof
        assume "map content xs = map content ys' \<and> map hash xs = map hash ys'"
        then show ?thesis using t(2) c(2) d(2) eq snoc by simp
      next
        assume "hash_broken H g (hashed hash content g xs \<union> hashed hash content g ys')"
        then show ?thesis using hash_broken_mono [OF _ sub(1)] by blast
      qed
    next
      case False
      then have "collision H ?S"
        unfolding collision_def using sub(2,3) eq c(3) d(3) by metis
      then show ?thesis by (simp add: hash_broken_def)
    qed
  qed
qed

lemma tail_digest:
  assumes "ok p rs" and "rs \<noteq> []" and "\<And>s. length (H s) = n"
  shows "length (hash (last rs)) = n"
  using assms by (cases rs rule: rev_cases) (auto simp: ok_snoc)

lemma hashed_prefix: "hashed hash content p xs \<subseteq> hashed hash content p (xs @ ys)"
  by (induction xs arbitrary: p) auto

lemma same_tail_prefix:
  assumes "\<And>s. length (H s) = length g" and "ok g (xs @ ys)" and "ys \<noteq> []"
    and "tail_of hash g xs = tail_of hash g (xs @ ys)"
  shows "hash_broken H g (hashed hash content g (xs @ ys))"
proof -
  from same_tail [OF ok_prefix [OF assms(2)] assms(2,4,1)]
  have "hash_broken H g (hashed hash content g xs \<union> hashed hash content g (xs @ ys))"
    using assms(3) by (auto simp: hash_broken_def dest: arg_cong [of _ _ length])
  then show ?thesis using hashed_prefix [of g xs ys] by (simp add: Un_absorb1)
qed

lemma prev_of_split: "ok p (xs @ r # ys) \<Longrightarrow> prev r = tail_of hash p xs"
  by (simp add: ok_append ok_Cons)

text \<open>The unique constraints of a chained table are met by a fresh record, unless the digest breaks.\<close>

lemma unique_clash:
  assumes len: "\<And>s. length (H s) = length g" and ok: "ok g (rs @ [r])"
    and x: "x \<in> set rs" and clash: "prev x = prev r \<or> hash x = hash r"
  shows "hash_broken H g (hashed hash content g (rs @ [r]))"
proof -
  obtain xs ys where rs: "rs = xs @ x # ys" using x by (auto simp: in_set_conv_decomp)
  from clash show ?thesis
  proof
    assume "prev x = prev r"
    moreover have "prev x = tail_of hash g xs"
      using ok by (intro prev_of_split [of g xs x "ys @ [r]"]) (simp add: rs)
    moreover have "prev r = tail_of hash g rs" using ok by (simp add: ok_snoc)
    ultimately have "tail_of hash g xs = tail_of hash g (xs @ x # ys)" by (simp add: rs)
    from same_tail_prefix [OF len _ _ this]
    have "hash_broken H g (hashed hash content g rs)" using ok_prefix [OF ok] by (simp add: rs)
    then show ?thesis by (rule hash_broken_mono) (rule hashed_prefix)
  next
    assume "hash x = hash r"
    then have "tail_of hash g (xs @ [x]) = tail_of hash g ((xs @ [x]) @ ys @ [r])"
      by (simp add: tail_of_def)
    from same_tail_prefix [OF len _ _ this] ok show ?thesis by (simp add: rs)
  qed
qed

end

end
