(* ===== verification/States.thy ===== *)
theory States
  imports Prelude
begin

text \<open>
  \<open>states.py\<close>: the states of a document, the terminal ones, and the allowed transitions. \<open>None\<close> is a
  document that does not exist yet. A Python \<open>frozenset\<close> is a set here, a dictionary an association
  list.
\<close>

datatype state =
    REGISTERED | EXTRACTABLE | UNPROCESSABLE_OCR | EXTRACTED | ANONYMIZED | INDEXED | FAILED
  | SUPERSEDED | DELETED

definition all_states :: "state list" where
  "all_states = [REGISTERED, EXTRACTABLE, UNPROCESSABLE_OCR, EXTRACTED, ANONYMIZED, INDEXED, FAILED,
     SUPERSEDED, DELETED]"

primrec state_value :: "state \<Rightarrow> string" where
  "state_value REGISTERED = ''registered''"
| "state_value EXTRACTABLE = ''extractable''"
| "state_value UNPROCESSABLE_OCR = ''unprocessable_ocr''"
| "state_value EXTRACTED = ''extracted''"
| "state_value ANONYMIZED = ''anonymized''"
| "state_value INDEXED = ''indexed''"
| "state_value FAILED = ''failed''"
| "state_value SUPERSEDED = ''superseded''"
| "state_value DELETED = ''deleted''"

text \<open>\<open>State(s)\<close> raises \<open>ValueError\<close> for a text that is no member's value.\<close>

definition state_of :: "string \<Rightarrow> state result" where
  "state_of s = (case filter (\<lambda>x. state_value x = s) all_states of
     [] \<Rightarrow> Inl ValueError | x # _ \<Rightarrow> Inr x)"

definition TERMINAL :: "state set" where
  "TERMINAL = {INDEXED, FAILED, SUPERSEDED, DELETED}"

definition EDGES :: "(state option \<times> state set) list" where
  "EDGES =
     [(None, {REGISTERED}),
      (Some REGISTERED, {EXTRACTABLE, UNPROCESSABLE_OCR, FAILED}),
      (Some UNPROCESSABLE_OCR, {EXTRACTABLE}),
      (Some EXTRACTABLE, {EXTRACTED, FAILED}),
      (Some EXTRACTED, {ANONYMIZED, FAILED}),
      (Some ANONYMIZED, {INDEXED, FAILED}),
      (Some INDEXED, {}),
      (Some FAILED, {}),
      (Some SUPERSEDED, {})]"

definition ALLOWED :: "(state option \<times> state set) list" where
  "ALLOWED = map (\<lambda>(frm, to). (frm, to \<union>
     (case frm of None \<Rightarrow> {} | Some f \<Rightarrow> {SUPERSEDED, DELETED} - {f}))) EDGES"

definition is_allowed :: "state option \<Rightarrow> state \<Rightarrow> bool" where
  "is_allowed frm to = (to \<in> (case dict_get ALLOWED frm of None \<Rightarrow> {} | Some s \<Rightarrow> s))"

subsection \<open>The graph\<close>

lemma state_of_value [simp]: "state_of (state_value s) = Inr s"
  by (cases s) (simp_all add: state_of_def all_states_def)

lemma state_of_Inr: "state_of t = Inr s \<longleftrightarrow> t = state_value s"
proof
  assume "state_of t = Inr s"
  then have "s \<in> set (filter (\<lambda>x. state_value x = t) all_states)"
    by (auto simp: state_of_def simp del: set_filter split: list.splits)
  then show "t = state_value s" by simp
qed simp

lemma is_allowed_None [simp]: "is_allowed None t \<longleftrightarrow> t = REGISTERED"
  by (simp add: is_allowed_def ALLOWED_def EDGES_def)

lemma is_allowed_simps [simp]:
  "is_allowed (Some REGISTERED) t \<longleftrightarrow> t \<in> {EXTRACTABLE, UNPROCESSABLE_OCR, FAILED, SUPERSEDED, DELETED}"
  "is_allowed (Some UNPROCESSABLE_OCR) t \<longleftrightarrow> t \<in> {EXTRACTABLE, SUPERSEDED, DELETED}"
  "is_allowed (Some EXTRACTABLE) t \<longleftrightarrow> t \<in> {EXTRACTED, FAILED, SUPERSEDED, DELETED}"
  "is_allowed (Some EXTRACTED) t \<longleftrightarrow> t \<in> {ANONYMIZED, FAILED, SUPERSEDED, DELETED}"
  "is_allowed (Some ANONYMIZED) t \<longleftrightarrow> t \<in> {INDEXED, FAILED, SUPERSEDED, DELETED}"
  "is_allowed (Some INDEXED) t \<longleftrightarrow> t \<in> {SUPERSEDED, DELETED}"
  "is_allowed (Some FAILED) t \<longleftrightarrow> t \<in> {SUPERSEDED, DELETED}"
  "is_allowed (Some SUPERSEDED) t \<longleftrightarrow> t = DELETED"
  "is_allowed (Some DELETED) t \<longleftrightarrow> False"
  by (auto simp: is_allowed_def ALLOWED_def EDGES_def)

text \<open>The runs of the machine: the states a document goes through, from its registration on.\<close>

inductive run :: "state option \<Rightarrow> state list \<Rightarrow> bool" where
  run_Nil: "run s []"
| run_Cons: "is_allowed s t \<Longrightarrow> run (Some t) ts \<Longrightarrow> run s (t # ts)"

inductive_simps run_Nil_iff [simp]: "run s []"
inductive_simps run_Cons_iff [simp]: "run s (t # ts)"

lemma run_append: "run s (xs @ ys) \<longleftrightarrow> run s xs \<and> run (if xs = [] then s else Some (last xs)) ys"
  by (induction xs arbitrary: s) auto

text \<open>How far a document has come: every edge goes up, the one out of OCR recovery included.\<close>

primrec rank :: "state \<Rightarrow> nat" where
  "rank REGISTERED = 0"
| "rank UNPROCESSABLE_OCR = 1"
| "rank EXTRACTABLE = 2"
| "rank EXTRACTED = 3"
| "rank ANONYMIZED = 4"
| "rank INDEXED = 5"
| "rank FAILED = 5"
| "rank SUPERSEDED = 6"
| "rank DELETED = 7"

lemma is_allowed_rank: "is_allowed (Some s) t \<Longrightarrow> rank s < rank t"
  by (cases s) auto

lemma run_rank: "run (Some s) ts \<Longrightarrow> length ts + rank s \<le> rank (last (s # ts))"
proof (induction ts arbitrary: s)
  case (Cons t ts)
  then have "rank s < rank t" "run (Some t) ts" using is_allowed_rank by auto
  with Cons.IH [of t] show ?case by (auto simp del: rank.simps)
qed simp

lemma rank_le: "rank s \<le> 7"
  by (cases s) auto

end
