(* ===== verification/AuditTrail.thy ===== *)
theory AuditTrail
  imports HashChain States
begin

text \<open>
  \<open>audit.py\<close>: appending to, verifying, exporting and reading the document trail. \<open>audit_db\<close> is the table
  \<open>audit_records\<close> of \<open>models.py\<close> with its sequence; a statement's \<open>ORDER BY seq\<close> is \<open>by_seq\<close>. The clock is
  an argument, the advisory lock has no effect on one transaction.
\<close>

record audit_record =
  ar_seq :: nat
  ar_document_id :: string
  ar_from_state :: "string option"
  ar_to_state :: string
  ar_ts :: datetime
  ar_step :: string
  ar_payload :: json
  ar_prev_hash :: string
  ar_hash :: string

record audit_db =
  trail :: "audit_record list"
  next_seq :: nat

definition by_seq :: "audit_record list \<Rightarrow> audit_record list" where
  "by_seq rs = sort_key ar_seq rs"

definition tail_hash :: "audit_db \<Rightarrow> string" where
  "tail_hash db = (case last_opt (by_seq (trail db)) of
     None \<Rightarrow> GENESIS_HASH
   | Some r \<Rightarrow> if ar_hash r = [] then GENESIS_HASH else ar_hash r)"

definition record_content :: "audit_record \<Rightarrow> string result" where
  "record_content r = canonical_content (ar_document_id r) (opt_str (ar_from_state r))
     (JStr (ar_to_state r)) (ar_ts r) (JStr (ar_step r)) (ar_payload r)"

text \<open>The table's two unique constraints, on \<open>prev_hash\<close> and on \<open>hash\<close>.\<close>

definition insert_record :: "audit_db \<Rightarrow> audit_record \<Rightarrow> audit_db result" where
  "insert_record db r =
     (if \<exists>x\<in>set (trail db). ar_prev_hash x = ar_prev_hash r then Inl (IntegrityError ''prev_hash'')
      else if \<exists>x\<in>set (trail db). ar_hash x = ar_hash r then Inl (IntegrityError ''hash'')
      else Inr (db\<lparr>trail := trail db @ [r], next_seq := next_seq db + 1\<rparr>))"

definition or_empty :: "json option \<Rightarrow> json" where
  "or_empty p = (case p of None \<Rightarrow> JObj [] | Some v \<Rightarrow> v)"

definition append_record ::
    "(string \<Rightarrow> string) \<Rightarrow> datetime \<Rightarrow> audit_db \<Rightarrow> string \<Rightarrow> string option \<Rightarrow> string \<Rightarrow> string
      \<Rightarrow> json option \<Rightarrow> datetime option \<Rightarrow> (audit_db \<times> audit_record) result" where
  "append_record H now db doc frm to stp payload ts =
     (let payload = or_empty payload;
          ts = (case ts of None \<Rightarrow> now | Some t \<Rightarrow> t);
          prev = tail_hash db
      in rbind (canonical_content doc (opt_str frm) (JStr to) ts (JStr stp) payload) (\<lambda>content.
         let record = \<lparr>ar_seq = next_seq db, ar_document_id = doc, ar_from_state = frm,
               ar_to_state = to, ar_ts = ts, ar_step = stp, ar_payload = payload,
               ar_prev_hash = prev, ar_hash = compute_hash H prev content\<rparr>
         in rbind (insert_record db record) (\<lambda>db'. Inr (db', record))))"

text \<open>The loop of \<open>verify_chain\<close>; the pair is the tuple the function returns.\<close>

fun verify_from :: "(string \<Rightarrow> string) \<Rightarrow> string \<Rightarrow> audit_record list \<Rightarrow> (bool \<times> nat option) result" where
  "verify_from H prev [] = Inr (True, None)"
| "verify_from H prev (rec # rs) =
     (if ar_prev_hash rec \<noteq> prev then Inr (False, Some (ar_seq rec))
      else rbind (record_content rec) (\<lambda>content.
        if compute_hash H (ar_prev_hash rec) content \<noteq> ar_hash rec then Inr (False, Some (ar_seq rec))
        else verify_from H (ar_hash rec) rs))"

definition verify_chain :: "(string \<Rightarrow> string) \<Rightarrow> audit_db \<Rightarrow> (bool \<times> nat option) result" where
  "verify_chain H db = verify_from H GENESIS_HASH (by_seq (trail db))"

definition jsonl_line :: "audit_record \<Rightarrow> string" where
  "jsonl_line r = dumps_sorted False '', '' '': '' (JObj
     [(''seq'', JInt (int (ar_seq r))), (''document_id'', JStr (ar_document_id r)),
      (''from_state'', opt_str (ar_from_state r)), (''to_state'', JStr (ar_to_state r)),
      (''ts'', JStr (isoformat (to_utc (ar_ts r)))), (''step'', JStr (ar_step r)),
      (''payload'', ar_payload r), (''prev_hash'', JStr (ar_prev_hash r)), (''hash'', JStr (ar_hash r))])"

definition records_after :: "audit_db \<Rightarrow> nat \<Rightarrow> audit_record list" where
  "records_after db after = by_seq (filter (\<lambda>r. after < ar_seq r) (trail db))"

definition export_jsonl :: "audit_db \<Rightarrow> nat \<Rightarrow> string" where
  "export_jsonl db after = join [CHR 0x0A] (map jsonl_line (records_after db after))"

definition current_state :: "audit_db \<Rightarrow> string \<Rightarrow> state option result" where
  "current_state db doc =
     (case last_opt (by_seq (filter (\<lambda>r. ar_document_id r = doc) (trail db))) of
        None \<Rightarrow> Inr None
      | Some r \<Rightarrow> if ar_to_state r = [] then Inr None else rbind (state_of (ar_to_state r)) (\<lambda>s. Inr (Some s)))"

subsection \<open>The table\<close>

text \<open>Rows are written in the order of their numbers, and the sequence is past all of them.\<close>

definition trail_wf :: "audit_db \<Rightarrow> bool" where
  "trail_wf db = (sorted (map ar_seq (trail db)) \<and> distinct (map ar_seq (trail db))
     \<and> (\<forall>r\<in>set (trail db). ar_seq r < next_seq db \<and> 0 < ar_seq r) \<and> 0 < next_seq db)"

lemma by_seq_sorted: "sorted (map ar_seq rs) \<Longrightarrow> by_seq rs = rs"
  by (simp add: by_seq_def sort_key_id_if_sorted)

lemma by_seq_wf [simp]: "trail_wf db \<Longrightarrow> by_seq (trail db) = trail db"
  by (simp add: trail_wf_def by_seq_sorted)

lemma by_seq_filter_wf [simp]: "trail_wf db \<Longrightarrow> by_seq (filter P (trail db)) = filter P (trail db)"
  by (simp add: trail_wf_def by_seq_sorted sorted_filter)

lemma append_recordE:
  assumes "append_record H now db doc frm to stp payload ts = Inr (db', r)"
  obtains c where "record_content r = Inr c" "ar_hash r = H (tail_hash db @ c)"
    "ar_prev_hash r = tail_hash db" "ar_seq r = next_seq db" "ar_document_id r = doc"
    "ar_from_state r = frm" "ar_to_state r = to" "ar_step r = stp" "ar_payload r = or_empty payload"
    "ar_ts r = (case ts of None \<Rightarrow> now | Some t \<Rightarrow> t)"
    "db' = db\<lparr>trail := trail db @ [r], next_seq := next_seq db + 1\<rparr>"
    "\<forall>x\<in>set (trail db). ar_prev_hash x \<noteq> ar_prev_hash r"
  using assms
  by (auto simp: append_record_def result_simps insert_record_def record_content_def compute_hash_def
      Let_def split: if_splits)

lemma append_wf:
  assumes "trail_wf db" and "append_record H now db doc frm to stp payload ts = Inr (db', r)"
  shows "trail_wf db'" and "trail db' = trail db @ [r]" and "ar_seq r = next_seq db"
proof -
  from assms(2) obtain c where "ar_seq r = next_seq db" and
    db': "db' = db\<lparr>trail := trail db @ [r], next_seq := next_seq db + 1\<rparr>"
    by (rule append_recordE)
  then show "trail_wf db'" "trail db' = trail db @ [r]" "ar_seq r = next_seq db"
    using assms(1) by (auto simp: trail_wf_def sorted_append less_imp_le)
qed

text \<open>An append succeeds when neither hash is taken.\<close>

lemma append_possible:
  assumes "aware (case ts of None \<Rightarrow> now | Some t \<Rightarrow> t)"
    and "\<And>x. x \<in> set (trail db) \<Longrightarrow> ar_prev_hash x \<noteq> tail_hash db" and "\<And>x s. x \<in> set (trail db) \<Longrightarrow> ar_hash x \<noteq> H s"
  shows "\<exists>db' r. append_record H now db doc frm to stp payload ts = Inr (db', r)"
proof -
  obtain c where "canonical_content doc (opt_str frm) (JStr to) (case ts of None \<Rightarrow> now | Some t \<Rightarrow> t) (JStr stp) (or_empty payload) = Inr c"
    using assms(1) by (auto simp: canonical_content_def ts_text_def aware_def)
  then show ?thesis using assms(2,3) by (auto simp: append_record_def insert_record_def compute_hash_def Let_def)
qed

subsection \<open>The chain\<close>

definition content_opt :: "audit_record \<Rightarrow> string option" where
  "content_opt r = (case record_content r of Inl _ \<Rightarrow> None | Inr c \<Rightarrow> Some c)"

lemma content_opt_Some: "content_opt r = Some c \<longleftrightarrow> record_content r = Inr c"
  by (simp add: content_opt_def split: sum.split)

interpretation at: hash_chain H "\<lambda>p rs. verify_from H p rs = Inr (True, None)"
    ar_prev_hash ar_hash content_opt for H
  by unfold_locales (auto simp: result_simps content_opt_Some compute_hash_def split: if_splits)

text \<open>The number \<open>verify_chain\<close> returns is that of the first record that breaks the chain.\<close>

lemma verify_from_bad:
  assumes "verify_from H p rs = Inr (False, n)"
  shows "\<exists>xs r ys. rs = xs @ r # ys \<and> verify_from H p xs = Inr (True, None)
    \<and> verify_from H p (xs @ [r]) \<noteq> Inr (True, None) \<and> n = Some (ar_seq r)"
  using assms
proof (induction rs arbitrary: p)
  case (Cons r rs)
  show ?case
  proof (cases "verify_from H p [r] = Inr (True, None)")
    case True
    then obtain c where c: "ar_prev_hash r = p" "record_content r = Inr c" "ar_hash r = H (p @ c)"
      by (auto simp: result_simps compute_hash_def split: if_splits)
    then have "verify_from H (ar_hash r) rs = Inr (False, n)"
      using Cons.prems by (auto simp: compute_hash_def)
    from Cons.IH [OF this] obtain xs r' ys where "rs = xs @ r' # ys"
        "verify_from H (ar_hash r) xs = Inr (True, None)"
        "verify_from H (ar_hash r) (xs @ [r']) \<noteq> Inr (True, None)" "n = Some (ar_seq r')" by blast
    with c show ?thesis
      by (intro exI [of _ "r # xs"] exI [of _ r'] exI [of _ ys]) (auto simp: compute_hash_def)
  next
    case False
    then have "n = Some (ar_seq r)"
      using Cons.prems by (auto simp: result_simps split: if_splits)
    with False show ?thesis
      by (intro exI [of _ "[]"] exI [of _ r] exI [of _ rs]) auto
  qed
qed simp

lemma verify_from_bool: "verify_from H p rs = Inr (b, n) \<Longrightarrow> b = (n = None)"
  by (induction H p rs rule: verify_from.induct) (auto simp: result_simps split: if_splits)

lemma tail_hash_eq:
  assumes "digest64 H" and "trail_wf db" and "verify_chain H db = Inr (True, None)"
  shows "tail_hash db = tail_of ar_hash GENESIS_HASH (trail db)"
proof (cases "trail db" rule: rev_cases)
  case Nil
  then show ?thesis by (simp add: tail_hash_def by_seq_def)
next
  case (snoc rs r)
  have "verify_from H GENESIS_HASH (trail db) = Inr (True, None)"
    using assms(3) by (simp only: verify_chain_def by_seq_wf [OF assms(2)])
  with snoc have "verify_from H GENESIS_HASH (rs @ [r]) = Inr (True, None)" by simp
  then have "length (ar_hash r) = 64"
    using at.tail_digest [of H GENESIS_HASH "rs @ [r]" 64] assms(1) by simp
  then have "ar_hash r \<noteq> []" by auto
  moreover have "by_seq (trail db) = rs @ [r]"
    by (rule trans [OF by_seq_wf [OF assms(2)] snoc])
  ultimately show ?thesis by (simp add: tail_hash_def snoc del: by_seq_wf)
qed


lemma verify_chain_wf: "trail_wf db \<Longrightarrow> verify_chain H db = verify_from H GENESIS_HASH (trail db)"
  by (simp add: verify_chain_def)

lemma append_verifies:
  assumes "digest64 H" and "trail_wf db" and "verify_chain H db = Inr (True, None)"
    and "append_record H now db doc frm to stp payload ts = Inr (db', r)"
  shows "verify_chain H db' = Inr (True, None)"
proof -
  note wf = append_wf [OF assms(2,4)]
  from assms(4) obtain c where c: "record_content r = Inr c" "ar_hash r = H (tail_hash db @ c)" "ar_prev_hash r = tail_hash db"
    by (rule append_recordE)
  have "verify_from H GENESIS_HASH (trail db @ [r]) = Inr (True, None)"
  proof (rule at.extend)
    show "verify_from H GENESIS_HASH (trail db) = Inr (True, None)" using assms(2,3) by (simp add: verify_chain_def)
    show "content_opt r = Some c" using c(1) by (simp add: content_opt_Some)
  qed (simp_all add: c tail_hash_eq [OF assms(1-3)])
  then show ?thesis using wf(2) by (simp add: verify_chain_wf [OF wf(1)])
qed

definition trail_texts :: "audit_db \<Rightarrow> string set" where
  "trail_texts db = hashed ar_hash content_opt GENESIS_HASH (trail db)"

text \<open>C12: Appending to a trail that verifies gives a trail that verifies and that is the old one with one
  new record at its end, which takes the next number and holds the document, the states, the instant, the step and the payload it was given.
  If an append of an aware time fails, the error is a violation of one of the two uniqueness constraints, and then the digest
  function has collided on two of the texts that this chain hashed and the text of the refused record (or one of them hits the genesis value).\<close>

theorem append_keeps_chain:
  assumes "digest64 H" and "trail_wf db" and "verify_chain H db = Inr (True, None)"
    and "aware (case ts of None \<Rightarrow> now | Some t \<Rightarrow> t)"
  shows "case append_record H now db doc frm to stp payload ts of
      Inr (db', r) \<Rightarrow> trail_wf db' \<and> verify_chain H db' = Inr (True, None)
        \<and> trail db' = trail db @ [r] \<and> next_seq db' = Suc (next_seq db) \<and> tail_hash db' = ar_hash r
        \<and> ar_seq r = next_seq db \<and> ar_document_id r = doc \<and> ar_from_state r = frm \<and> ar_to_state r = to \<and> ar_step r = stp
        \<and> ar_payload r = or_empty payload \<and> ar_ts r = (case ts of None \<Rightarrow> now | Some t \<Rightarrow> t)
    | Inl e \<Rightarrow> e \<in> {IntegrityError ''prev_hash'', IntegrityError ''hash''}
        \<and> (\<exists>c. canonical_content doc (opt_str frm) (JStr to) (case ts of None \<Rightarrow> now | Some t \<Rightarrow> t) (JStr stp) (or_empty payload) = Inr c
             \<and> hash_broken H GENESIS_HASH (trail_texts db \<union> {tail_hash db @ c}))"
proof -
  let ?ts = "case ts of None \<Rightarrow> now | Some t \<Rightarrow> t"
  let ?tail = "tail_of ar_hash GENESIS_HASH (trail db)"
  have tail: "tail_hash db = ?tail" by (rule tail_hash_eq [OF assms(1-3)])
  obtain c where c: "canonical_content doc (opt_str frm) (JStr to) ?ts (JStr stp) (or_empty payload) = Inr c"
    using assms(4) by (auto simp: canonical_content_def ts_text_def aware_def)
  define r where "r = \<lparr>ar_seq = next_seq db, ar_document_id = doc, ar_from_state = frm,
    ar_to_state = to, ar_ts = ?ts, ar_step = stp, ar_payload = or_empty payload,
    ar_prev_hash = ?tail, ar_hash = H (?tail @ c)\<rparr>"
  have app: "append_record H now db doc frm to stp payload ts
      = rbind (insert_record db r) (\<lambda>db'. Inr (db', r))"
    by (simp add: append_record_def c tail r_def compute_hash_def Let_def)
  have ok: "verify_from H GENESIS_HASH (trail db @ [r]) = Inr (True, None)"
  proof (rule at.extend)
    show "verify_from H GENESIS_HASH (trail db) = Inr (True, None)"
      using assms(2,3) by (simp add: verify_chain_def)
    show "content_opt r = Some c" using c by (simp add: content_opt_Some record_content_def r_def)
  qed (simp_all add: r_def)
  have len: "length (H s) = length GENESIS_HASH" for s using assms(1) by simp
  show ?thesis
  proof (cases "insert_record db r")
    case (Inl e)
    then obtain x where "x \<in> set (trail db)" "ar_prev_hash x = ar_prev_hash r \<or> ar_hash x = ar_hash r"
      by (auto simp: insert_record_def split: if_splits)
    from at.unique_clash [OF len ok this] have "hash_broken H GENESIS_HASH (trail_texts db \<union> {tail_hash db @ c})"
      using c by (simp add: trail_texts_def hashed_append content_opt_def record_content_def r_def tail)
    moreover have "e \<in> {IntegrityError ''prev_hash'', IntegrityError ''hash''}"
      using Inl by (auto simp: insert_record_def split: if_splits)
    ultimately show ?thesis using Inl c by (simp add: app)
  next
    case (Inr db')
    then have a: "append_record H now db doc frm to stp payload ts = Inr (db', r)" by (simp add: app)
    note wf = append_wf [OF assms(2) a]
    have v: "verify_chain H db' = Inr (True, None)"
      using ok wf(2) by (simp add: verify_chain_wf [OF wf(1)])
    have "next_seq db' = Suc (next_seq db)" using Inr by (auto simp: insert_record_def split: if_splits)
    with tail_hash_eq [OF assms(1) wf(1) v] wf v show ?thesis by (simp add: a) (simp add: r_def)
  qed
qed

definition same_record :: "audit_record \<Rightarrow> audit_record \<Rightarrow> bool" where
  "same_record r s = (ar_document_id r = ar_document_id s \<and> ar_from_state r = ar_from_state s
     \<and> ar_to_state r = ar_to_state s \<and> to_utc (ar_ts r) = to_utc (ar_ts s) \<and> ar_step r = ar_step s
     \<and> jsort (ar_payload r) = jsort (ar_payload s) \<and> ar_hash r = ar_hash s)"

definition record_ok :: "audit_record \<Rightarrow> bool" where
  "record_ok r = (json_ok (ar_payload r) \<and> utc_ok (ar_ts r))"

lemma same_contentD:
  assumes "content_opt r = content_opt s" and "record_ok r" and "record_ok s" and "ar_hash r = ar_hash s"
  shows "same_record r s"
proof -
  obtain c where "record_content r = Inr c" "record_content s = Inr c"
    using assms(1-3) by (cases "content_opt r")
      (auto simp: content_opt_Some record_ok_def record_content_def canonical_content_def
        ts_text_ok content_opt_def split: sum.splits)
  then show ?thesis
    using canonical_content_inj assms(2-4) unfolding record_content_def record_ok_def same_record_def
    by blast
qed

text \<open>C13: The trail is tamper evident. Two trails that verify and end in the same hash record the same
  events in the same order (document, states, instant, step and payload up to the order of its keys),
  unless the digest function collides on the texts of these two chains.\<close>

theorem tamper_evident:
  assumes "digest64 H" and "trail_wf a" and "trail_wf b"
    and "verify_chain H a = Inr (True, None)" and "verify_chain H b = Inr (True, None)"
    and "tail_hash a = tail_hash b"
    and "\<forall>r\<in>set (trail a) \<union> set (trail b). record_ok r"
  shows "list_all2 same_record (trail a) (trail b) \<or> hash_broken H GENESIS_HASH (trail_texts a \<union> trail_texts b)"
proof -
  have len: "length (H s) = length GENESIS_HASH" for s using assms(1) by simp
  have v: "verify_from H GENESIS_HASH (trail a) = Inr (True, None)"
      "verify_from H GENESIS_HASH (trail b) = Inr (True, None)"
    using assms(2-5) by (simp_all add: verify_chain_def)
  have "tail_of ar_hash GENESIS_HASH (trail a) = tail_of ar_hash GENESIS_HASH (trail b)"
    using assms(6) tail_hash_eq [OF assms(1,2,4)] tail_hash_eq [OF assms(1,3,5)] by simp
  from at.same_tail [OF v this len] show ?thesis
  proof (elim disjE conjE)
    assume m: "map content_opt (trail a) = map content_opt (trail b)"
      "map ar_hash (trail a) = map ar_hash (trail b)"
    have l: "length (trail a) = length (trail b)" using m(1) by (rule map_eq_imp_length_eq)
    have "same_record (trail a ! i) (trail b ! i)" if "i < length (trail a)" for i
    proof (rule same_contentD)
      show "content_opt (trail a ! i) = content_opt (trail b ! i)"
        using arg_cong [OF m(1), of "\<lambda>xs. xs ! i"] that l by simp
      show "ar_hash (trail a ! i) = ar_hash (trail b ! i)"
        using arg_cong [OF m(2), of "\<lambda>xs. xs ! i"] that l by simp
    qed (use assms(7) that l in auto)
    then show ?thesis using l by (simp add: list_all2_conv_all_nth)
  qed (auto simp: trail_texts_def)
qed

text \<open>When the chain does not verify, the number returned is that of the first record that breaks
  it: everything before that record verifies, and with it nothing does.\<close>

theorem verify_chain_first_bad:
  assumes "trail_wf db" and "verify_chain H db = Inr (b, n)"
  shows "(b \<longleftrightarrow> n = None) \<and> (\<forall>s. n = Some s \<longrightarrow>
    (\<exists>xs r ys. trail db = xs @ r # ys \<and> ar_seq r = s
       \<and> verify_from H GENESIS_HASH xs = Inr (True, None)
       \<and> verify_from H GENESIS_HASH (xs @ [r]) \<noteq> Inr (True, None)))"
proof -
  have v: "verify_from H GENESIS_HASH (trail db) = Inr (b, n)"
    using assms by (simp add: verify_chain_wf)
  note bn = verify_from_bool [OF v]
  show ?thesis
  proof (intro conjI allI impI)
    fix s assume "n = Some s"
    with v bn have "verify_from H GENESIS_HASH (trail db) = Inr (False, Some s)" by simp
    from verify_from_bad [OF this] show "\<exists>xs r ys. trail db = xs @ r # ys \<and> ar_seq r = s
       \<and> verify_from H GENESIS_HASH xs = Inr (True, None)
       \<and> verify_from H GENESIS_HASH (xs @ [r]) \<noteq> Inr (True, None)"
      by auto
  qed (use bn in simp)
qed

lemma current_state_append:
  assumes "trail_wf db" and "append_record H now db doc frm (state_value s) stp payload ts = Inr (db', r)"
  shows "current_state db' d = (if d = doc then Inr (Some s) else current_state db d)"
proof -
  note wf = append_wf [OF assms]
  from assms(2) have r: "ar_document_id r = doc" "ar_to_state r = state_value s"
    by (auto elim: append_recordE)
  have ne: "state_value s \<noteq> []" by (cases s) auto
  have "by_seq (filter (\<lambda>r. ar_document_id r = d) (trail db'))
      = by_seq (filter (\<lambda>r. ar_document_id r = d) (trail db)) @ (if d = doc then [r] else [])"
    unfolding by_seq_filter_wf [OF wf(1)] unfolding by_seq_filter_wf [OF assms(1)]
    unfolding wf(2) using r by simp
  then show ?thesis using r ne by (simp add: current_state_def)
qed


subsection \<open>Concrete instances\<close>

definition sample_record :: audit_record where
  "sample_record = \<lparr>ar_seq = 1, ar_document_id = ''d1'', ar_from_state = None, ar_to_state = ''registered'',
     ar_ts = sample_time, ar_step = ''register'', ar_payload = JObj [(''object_key'', JStr ''k'')],
     ar_prev_hash = GENESIS_HASH, ar_hash = sample_hash []\<rparr>"

definition sample_trail :: audit_db where
  "sample_trail = \<lparr>trail = [sample_record], next_seq = 2\<rparr>"

definition bad_trail :: audit_db where
  "bad_trail = \<lparr>trail = [sample_record, sample_record\<lparr>ar_seq := 2\<rparr>], next_seq = 3\<rparr>"

lemma sample_trail_ok [simp]:
  "trail_wf sample_trail" "verify_chain sample_hash sample_trail = Inr (True, None)"
  by (simp_all add: trail_wf_def sample_trail_def sample_record_def verify_chain_def by_seq_def
      record_content_def canonical_content_def ts_text_def sample_time_def compute_hash_def sample_hash_def
      opt_str_def del: replicate.simps)

lemma sample_record_ok [simp]: "record_ok sample_record"
  by (simp add: record_ok_def sample_record_def)

lemma append_keeps_chain_witness:
  "case append_record sample_hash sample_time sample_trail ''d1'' (Some ''registered'') ''failed'' ''extract'' None None of
      Inr (db', r) \<Rightarrow> trail_wf db' \<and> verify_chain sample_hash db' = Inr (True, None)
        \<and> trail db' = trail sample_trail @ [r] \<and> next_seq db' = Suc (next_seq sample_trail) \<and> tail_hash db' = ar_hash r
        \<and> ar_seq r = next_seq sample_trail \<and> ar_document_id r = ''d1'' \<and> ar_from_state r = Some ''registered'' \<and> ar_to_state r = ''failed''
        \<and> ar_step r = ''extract'' \<and> ar_payload r = or_empty None \<and> ar_ts r = (case None of None \<Rightarrow> sample_time | Some t \<Rightarrow> t)
    | Inl e \<Rightarrow> e \<in> {IntegrityError ''prev_hash'', IntegrityError ''hash''}
        \<and> (\<exists>c. canonical_content ''d1'' (opt_str (Some ''registered'')) (JStr ''failed'') (case None of None \<Rightarrow> sample_time | Some t \<Rightarrow> t)
               (JStr ''extract'') (or_empty None) = Inr c
             \<and> hash_broken sample_hash GENESIS_HASH (trail_texts sample_trail \<union> {tail_hash sample_trail @ c}))"
  by (rule append_keeps_chain) simp_all

lemma tamper_evident_witness:
  "list_all2 same_record (trail sample_trail) (trail sample_trail)
    \<or> hash_broken sample_hash GENESIS_HASH (trail_texts sample_trail \<union> trail_texts sample_trail)"
  by (rule tamper_evident) (simp_all, simp add: sample_trail_def)

lemma verify_chain_first_bad_witness:
  "\<exists>xs r ys. trail bad_trail = xs @ r # ys \<and> ar_seq r = 2
       \<and> verify_from sample_hash GENESIS_HASH xs = Inr (True, None)
       \<and> verify_from sample_hash GENESIS_HASH (xs @ [r]) \<noteq> Inr (True, None)"
proof -
  have "trail_wf bad_trail"
    by (simp add: trail_wf_def bad_trail_def sample_record_def)
  moreover have "GENESIS_HASH \<noteq> replicate 64 (CHR ''a'')" by (simp add: GENESIS_HASH_def)
  then have "verify_chain sample_hash bad_trail = Inr (False, Some 2)"
    by (simp add: bad_trail_def sample_record_def verify_chain_def by_seq_def
      record_content_def canonical_content_def ts_text_def sample_time_def compute_hash_def sample_hash_def
      opt_str_def del: replicate.simps)
  ultimately show ?thesis using verify_chain_first_bad [of bad_trail sample_hash False "Some 2"] by simp
qed

end
