(* ===== verification/KeyAudit.thy ===== *)
theory KeyAudit
  imports HashChain
begin

text \<open>
  \<open>key_audit_pg.py\<close> and the names of \<open>key_audit.py\<close>: the key-lifecycle stream, its own hash chain
  beside the document trail. \<open>key_db\<close> is the table \<open>key_lifecycle_events\<close> with its sequence. A payload
  is the dictionary of an event's keyword arguments.
\<close>

record key_event =
  ke_seq :: nat
  ke_ts :: datetime
  ke_action :: string
  ke_actor :: string
  ke_payload :: json
  ke_prev_hash :: string
  ke_hash :: string

record key_db =
  key_events :: "key_event list"
  key_next_seq :: nat

definition STREAM :: string where "STREAM = ''key_lifecycle''"
definition ROTATION_ACTION :: string where "ROTATION_ACTION = ''key_rotation''"
definition GRANT_ISSUED_ACTION :: string where "GRANT_ISSUED_ACTION = ''grant_issued''"
definition GRANT_REVOKED_ACTION :: string where "GRANT_REVOKED_ACTION = ''grant_revoked''"
definition ROLE_ACTION :: string where "ROLE_ACTION = ''role_changed''"
definition DOSSIER_RENAMED_ACTION :: string where "DOSSIER_RENAMED_ACTION = ''dossier_renamed''"

definition ENVELOPE :: "string list" where
  "ENVELOPE = [''seq'', ''ts'', ''stage'', ''action'', ''actor'', ''prev_hash'', ''hash'']"

definition iso_utc :: "datetime \<Rightarrow> string" where
  "iso_utc t = isoformat (to_utc t)"

definition key_content :: "json \<Rightarrow> json \<Rightarrow> json \<Rightarrow> json \<Rightarrow> string" where
  "key_content ts action actor payload = dumps_sorted True '','' '':''
     (JObj [(''ts'', ts), (''action'', action), (''actor'', actor), (''payload'', payload)])"

definition key_events_by_seq :: "key_event list \<Rightarrow> key_event list" where
  "key_events_by_seq es = sort_key ke_seq es"

definition insert_event :: "key_db \<Rightarrow> key_event \<Rightarrow> key_db result" where
  "insert_event db e =
     (if \<exists>x\<in>set (key_events db). ke_prev_hash x = ke_prev_hash e then Inl (IntegrityError ''prev_hash'')
      else if \<exists>x\<in>set (key_events db). ke_hash x = ke_hash e then Inl (IntegrityError ''hash'')
      else Inr (db\<lparr>key_events := key_events db @ [e], key_next_seq := key_next_seq db + 1\<rparr>))"

text \<open>\<open>scalar_one_or_none() or GENESIS_HASH\<close> of the last hash\<close>

definition last_hash :: "key_event list \<Rightarrow> string" where
  "last_hash es = (case last_opt (key_events_by_seq es) of
     None \<Rightarrow> GENESIS_HASH
   | Some e \<Rightarrow> if ke_hash e = [] then GENESIS_HASH else ke_hash e)"

definition append_event ::
    "(string \<Rightarrow> string) \<Rightarrow> datetime \<Rightarrow> key_db \<Rightarrow> string \<Rightarrow> string \<Rightarrow> json \<Rightarrow> datetime option
      \<Rightarrow> (key_db \<times> key_event) result" where
  "append_event H now db action actor payload ts =
     (case loads (dumps True '', '' '': '' payload) of
        None \<Rightarrow> Inl ValueError
      | Some payload \<Rightarrow>
         (let ts = (case ts of None \<Rightarrow> now | Some t \<Rightarrow> t);
              prev = last_hash (key_events db);
              event = \<lparr>ke_seq = key_next_seq db, ke_ts = ts, ke_action = action, ke_actor = actor,
                 ke_payload = payload, ke_prev_hash = prev,
                 ke_hash = compute_hash H prev (key_content (JStr (iso_utc ts)) (JStr action) (JStr actor) payload)\<rparr>
          in rbind (insert_event db event) (\<lambda>db'. Inr (db', event))))"

definition event_content :: "key_event \<Rightarrow> string" where
  "event_content e = key_content (JStr (iso_utc (ke_ts e))) (JStr (ke_action e)) (JStr (ke_actor e)) (ke_payload e)"

fun key_verify_from :: "(string \<Rightarrow> string) \<Rightarrow> string \<Rightarrow> key_event list \<Rightarrow> bool \<times> nat option" where
  "key_verify_from H prev [] = (True, None)"
| "key_verify_from H prev (ev # es) =
     (let want = compute_hash H prev (event_content ev)
      in if ke_prev_hash ev \<noteq> prev \<or> ke_hash ev \<noteq> want then (False, Some (ke_seq ev))
         else key_verify_from H (ke_hash ev) es)"

definition key_verify_chain :: "(string \<Rightarrow> string) \<Rightarrow> key_db \<Rightarrow> bool \<times> nat option" where
  "key_verify_chain H db = key_verify_from H GENESIS_HASH (key_events_by_seq (key_events db))"

text \<open>\<open>{..., **payload, ...}\<close>\<close>

definition dict_update :: "(string, json) dict \<Rightarrow> (string, json) dict \<Rightarrow> (string, json) dict" where
  "dict_update d kvs = foldl (\<lambda>d (k, v). dict_set k v d) d kvs"

definition members :: "json \<Rightarrow> (string, json) dict" where
  "members v = (case v of JObj kvs \<Rightarrow> kvs | _ \<Rightarrow> [])"

definition as_dict :: "key_event \<Rightarrow> (string, json) dict" where
  "as_dict ev = dict_set ''actor'' (JStr (ke_actor ev)) (dict_update
     [(''ts'', JStr (iso_utc (ke_ts ev))), (''stage'', JStr STREAM), (''action'', JStr (ke_action ev))]
     (members (ke_payload ev)))"

subsection \<open>The driver's operations\<close>

definition strs :: "string list \<Rightarrow> json" where
  "strs xs = JArr (map JStr xs)"

definition post_event ::
    "(string \<Rightarrow> string) \<Rightarrow> datetime \<Rightarrow> key_db \<Rightarrow> string \<Rightarrow> string \<Rightarrow> (string \<times> json) list \<Rightarrow> key_db result" where
  "post_event H now db action actor payload =
     rbind (append_event H now db action actor (JObj payload) None) (\<lambda>(db', _). Inr db')"

definition rotation_event where
  "rotation_event H now db old_key_id new_key_id entries actor scope =
     post_event H now db ROTATION_ACTION actor
       [(''old_key_id'', JStr old_key_id), (''scope'', opt_str scope), (''new_key_id'', JStr new_key_id),
        (''entries_reencrypted'', JInt (int entries))]"

definition grant_issued_event where
  "grant_issued_event H now db grant_id recipient allowed_types document_id actor domain role =
     post_event H now db GRANT_ISSUED_ACTION actor
       [(''grant_id'', JStr grant_id), (''recipient'', JStr recipient),
        (''allowed_types'', strs allowed_types), (''document_id'', opt_str document_id),
        (''domain'', opt_str domain), (''role'', opt_str role)]"

definition grant_revoked_event where
  "grant_revoked_event H now db grant_id actor =
     post_event H now db GRANT_REVOKED_ACTION actor [(''grant_id'', JStr grant_id)]"

definition role_changed_event where
  "role_changed_event H now db role change allowed_types active actor reason =
     post_event H now db ROLE_ACTION actor
       [(''role'', JStr role), (''change'', JStr change), (''allowed_types'', strs allowed_types),
        (''active'', JBool active), (''reason'', opt_str reason)]"

definition dossier_renamed_event where
  "dossier_renamed_event H now db dossier_id old new documents actor =
     post_event H now db DOSSIER_RENAMED_ACTION actor
       [(''dossier_id'', JStr dossier_id), (''old'', JStr old), (''new'', JStr new),
        (''documents'', JInt (int documents))]"

definition read_events :: "key_db \<Rightarrow> (string, json) dict list" where
  "read_events db = map as_dict (key_events_by_seq (key_events db))"

subsection \<open>The exported stream\<close>

definition event_row :: "key_event \<Rightarrow> (string, json) dict" where
  "event_row ev = dict_set ''hash'' (JStr (ke_hash ev)) (dict_set ''prev_hash'' (JStr (ke_prev_hash ev))
     (dict_update [(''seq'', JInt (int (ke_seq ev)))] (as_dict ev)))"

definition event_line :: "key_event \<Rightarrow> string" where
  "event_line ev = dumps_sorted True '', '' '': '' (JObj (event_row ev))"

definition key_events_after :: "key_db \<Rightarrow> nat \<Rightarrow> key_event list" where
  "key_events_after db after = key_events_by_seq (filter (\<lambda>e. after < ke_seq e) (key_events db))"

definition key_export_jsonl :: "key_db \<Rightarrow> nat \<Rightarrow> string" where
  "key_export_jsonl db after = concat (map (\<lambda>l. l @ [CHR 0x0A]) (map event_line (key_events_after db after)))"

definition hash_before :: "key_db \<Rightarrow> nat \<Rightarrow> string" where
  "hash_before db seq = last_hash (filter (\<lambda>e. ke_seq e \<le> seq) (key_events db))"

text \<open>\<open>row[k]\<close> on a value that was read\<close>

definition item :: "json \<Rightarrow> string \<Rightarrow> json result" where
  "item row k = (case row of
     JObj kvs \<Rightarrow> (case dict_get kvs k of None \<Rightarrow> Inl (KeyError k) | Some v \<Rightarrow> Inr v)
   | _ \<Rightarrow> Inl TypeError)"

fun verify_lines :: "(string \<Rightarrow> string) \<Rightarrow> string \<Rightarrow> string list \<Rightarrow> (bool \<times> json option) result" where
  "verify_lines H prev [] = Inr (True, None)"
| "verify_lines H prev (line # ls) =
     (case loads line of
        None \<Rightarrow> Inl ValueError
      | Some row \<Rightarrow>
         (case row of
            JObj kvs \<Rightarrow>
              (let payload = JObj (filter (\<lambda>(k, v). k \<notin> set ENVELOPE) kvs)
               in rbind (item row ''ts'') (\<lambda>ts.
                  rbind (item row ''action'') (\<lambda>action.
                  rbind (item row ''actor'') (\<lambda>actor.
                  let want = compute_hash H prev (key_content ts action actor payload)
                  in rbind (item row ''prev_hash'') (\<lambda>ph.
                     if ph \<noteq> JStr prev then rbind (item row ''seq'') (\<lambda>s. Inr (False, Some s))
                     else rbind (item row ''hash'') (\<lambda>h.
                       if h \<noteq> JStr want then rbind (item row ''seq'') (\<lambda>s. Inr (False, Some s))
                       else verify_lines H want ls))))))
          | _ \<Rightarrow> Inl AttributeError))"

definition verify_jsonl :: "(string \<Rightarrow> string) \<Rightarrow> string \<Rightarrow> string \<Rightarrow> (bool \<times> json option) result" where
  "verify_jsonl H jsonl prev = verify_lines H prev (splitlines jsonl)"


subsection \<open>The chain\<close>

interpretation ka: hash_chain H "\<lambda>p es. key_verify_from H p es = (True, None)"
    ke_prev_hash ke_hash "\<lambda>e. Some (event_content e)" for H
  by unfold_locales (auto simp: compute_hash_def Let_def)

definition keys_wf :: "key_db \<Rightarrow> bool" where
  "keys_wf db = (sorted (map ke_seq (key_events db)) \<and> distinct (map ke_seq (key_events db))
     \<and> (\<forall>e\<in>set (key_events db). ke_seq e < key_next_seq db \<and> 0 < ke_seq e) \<and> 0 < key_next_seq db)"

lemma key_events_by_seq_sorted: "sorted (map ke_seq es) \<Longrightarrow> key_events_by_seq es = es"
  by (simp add: key_events_by_seq_def sort_key_id_if_sorted)

lemma keys_wf_by_seq: "keys_wf db \<Longrightarrow> key_events_by_seq (key_events db) = key_events db"
  by (simp add: keys_wf_def key_events_by_seq_sorted)

lemma keys_wf_filter: "keys_wf db \<Longrightarrow> key_events_by_seq (filter P (key_events db)) = filter P (key_events db)"
  by (simp add: keys_wf_def key_events_by_seq_sorted sorted_filter)

lemma key_verify_wf: "keys_wf db \<Longrightarrow> key_verify_chain H db = key_verify_from H GENESIS_HASH (key_events db)"
  by (simp add: key_verify_chain_def keys_wf_by_seq)

lemma last_hash_eq:
  assumes "digest64 H" and "key_verify_from H GENESIS_HASH es = (True, None)" and "sorted (map ke_seq es)"
  shows "last_hash es = tail_of ke_hash GENESIS_HASH es"
proof (cases es rule: rev_cases)
  case (snoc es' e)
  have "length (ke_hash (last es)) = 64"
    using ka.tail_digest [OF assms(2), of 64] assms(1) snoc by simp
  then have "ke_hash e \<noteq> []" using snoc by auto
  with snoc key_events_by_seq_sorted [OF assms(3)] show ?thesis by (simp add: last_hash_def)
qed (simp add: last_hash_def key_events_by_seq_def)

definition key_texts :: "key_event list \<Rightarrow> string set" where
  "key_texts es = hashed ke_hash (\<lambda>e. Some (event_content e)) GENESIS_HASH es"

lemma loads_payload: "json_ok v \<Longrightarrow> loads (dumps True '', '' '': '' v) = Some v"
  using loads_dumps [of v "'' ''" "'' ''" True] by (simp add: is_ws_def)

lemma append_event_cases:
  assumes "digest64 H" and "keys_wf db" and "key_verify_chain H db = (True, None)" and "json_ok payload"
  obtains (full) e db' where "append_event H now db action actor payload ts = Inr (db', e)"
      "keys_wf db'" "key_verify_chain H db' = (True, None)" "key_events db' = key_events db @ [e]"
      "ke_action e = action" "ke_actor e = actor" "ke_payload e = payload"
      "ke_ts e = (case ts of None \<Rightarrow> now | Some t \<Rightarrow> t)" "ke_seq e = key_next_seq db"
  | (broken) c e where "append_event H now db action actor payload ts = Inl (IntegrityError c)"
      "hash_broken H GENESIS_HASH (key_texts (key_events db @ [e]))"
proof -
  have v: "key_verify_from H GENESIS_HASH (key_events db) = (True, None)"
    using assms(2,3) by (simp add: key_verify_wf)
  have s: "sorted (map ke_seq (key_events db))" using assms(2) by (simp add: keys_wf_def)
  let ?tail = "tail_of ke_hash GENESIS_HASH (key_events db)"
  let ?ts = "case ts of None \<Rightarrow> now | Some t \<Rightarrow> t"
  define e where "e = \<lparr>ke_seq = key_next_seq db, ke_ts = ?ts, ke_action = action, ke_actor = actor,
    ke_payload = payload, ke_prev_hash = ?tail,
    ke_hash = H (?tail @ key_content (JStr (iso_utc ?ts)) (JStr action) (JStr actor) payload)\<rparr>"
  have app: "append_event H now db action actor payload ts = rbind (insert_event db e) (\<lambda>db'. Inr (db', e))"
    by (simp add: append_event_def loads_payload assms(4) last_hash_eq [OF assms(1) v s] e_def
        compute_hash_def Let_def)
  have ok: "key_verify_from H GENESIS_HASH (key_events db @ [e]) = (True, None)"
    by (rule ka.extend [OF v]) (simp_all add: e_def event_content_def)
  have len: "length (H s) = length GENESIS_HASH" for s using assms(1) by simp
  show thesis
  proof (cases "\<exists>x\<in>set (key_events db). ke_prev_hash x = ke_prev_hash e \<or> ke_hash x = ke_hash e")
    case True
    then obtain x where x: "x \<in> set (key_events db)" "ke_prev_hash x = ke_prev_hash e \<or> ke_hash x = ke_hash e"
      by blast
    have "\<exists>c. insert_event db e = Inl (IntegrityError c)" using True by (auto simp: insert_event_def)
    with ka.unique_clash [OF len ok x] show thesis
      by (auto simp: app key_texts_def intro: broken)
  next
    case False
    define db' where "db' = db\<lparr>key_events := key_events db @ [e], key_next_seq := key_next_seq db + 1\<rparr>"
    have i: "insert_event db e = Inr db'" using False by (auto simp: insert_event_def db'_def)
    have wf: "keys_wf db'"
      using assms(2) by (auto simp: keys_wf_def db'_def sorted_append less_imp_le e_def)
    have ev: "key_events db' = key_events db @ [e]" by (simp add: db'_def)
    have "key_verify_chain H db' = (True, None)"
      using ok by (simp only: key_verify_wf [OF wf] ev)
    with wf ev i show thesis by (intro full [of db' e]) (simp_all add: app e_def)
  qed
qed

text \<open>An event appended to a key-lifecycle stream that verifies is its new last row, with exactly the
  action, actor and payload given, and the stream still verifies; it can be refused only by a unique
  constraint, and then the digest function has failed on texts of this stream.\<close>

theorem key_append_keeps_chain:
  assumes "digest64 H" and "keys_wf db" and "key_verify_chain H db = (True, None)" and "json_ok payload"
  shows "case append_event H now db action actor payload ts of
      Inr (db', e) \<Rightarrow> keys_wf db' \<and> key_verify_chain H db' = (True, None)
        \<and> key_events db' = key_events db @ [e] \<and> ke_action e = action \<and> ke_actor e = actor
        \<and> ke_payload e = payload
    | Inl err \<Rightarrow> \<exists>e. hash_broken H GENESIS_HASH (key_texts (key_events db @ [e]))"
  by (cases rule: append_event_cases [OF assms, of now action actor ts]) auto

subsection \<open>Reading an exported line back\<close>

definition event_ok :: "key_event \<Rightarrow> bool" where
  "event_ok e = (json_ok (ke_payload e) \<and> (\<exists>kvs. ke_payload e = JObj kvs)
     \<and> set (map fst (members (ke_payload e))) \<inter> set ENVELOPE = {})"

lemma event_row_eq:
  assumes "event_ok e"
  shows "event_row e = [(''seq'', JInt (int (ke_seq e))), (''ts'', JStr (iso_utc (ke_ts e))),
      (''stage'', JStr STREAM), (''action'', JStr (ke_action e))] @ members (ke_payload e)
    @ [(''actor'', JStr (ke_actor e)), (''prev_hash'', JStr (ke_prev_hash e)), (''hash'', JStr (ke_hash e))]"
proof -
  obtain kvs where kvs: "ke_payload e = JObj kvs" "distinct (map fst kvs)"
      "set (map fst kvs) \<inter> set ENVELOPE = {}"
    using assms by (auto simp: event_ok_def members_def)
  have n: "k \<notin> fst ` set kvs" if "k \<in> set ENVELOPE" for k using kvs(3) that by auto
  have upd: "dict_update d kvs' = d @ kvs'" if "distinct (map fst (d @ kvs'))" for d kvs'
    unfolding dict_update_def using foldl_dict_set_new [OF that] .
  have a: "as_dict e = [(''ts'', JStr (iso_utc (ke_ts e))), (''stage'', JStr STREAM),
      (''action'', JStr (ke_action e))] @ kvs @ [(''actor'', JStr (ke_actor e))]"
    unfolding as_dict_def kvs(1) members_def json.case
    using kvs(2) n by (subst upd) (auto simp: ENVELOPE_def dict_set_new)
  have b: "dict_update [(''seq'', JInt (int (ke_seq e)))] (as_dict e)
      = (''seq'', JInt (int (ke_seq e))) # as_dict e"
    unfolding a using kvs(2) n by (subst upd) (auto simp: ENVELOPE_def)
  show ?thesis
    unfolding event_row_def b unfolding a kvs(1) members_def json.case
    using n [of "''hash''"] n [of "''prev_hash''"] by (simp add: ENVELOPE_def dict_set_new)
qed

lemma event_row_ok: "event_ok e \<Longrightarrow> json_ok (JObj (event_row e))"
  unfolding event_row_eq
  by (fastforce simp: event_ok_def members_def ENVELOPE_def)

lemma event_row_keys:
  assumes "event_ok e"
  shows "dict_get (event_row e) ''ts'' = Some (JStr (iso_utc (ke_ts e)))"
    "dict_get (event_row e) ''action'' = Some (JStr (ke_action e))"
    "dict_get (event_row e) ''actor'' = Some (JStr (ke_actor e))"
    "dict_get (event_row e) ''prev_hash'' = Some (JStr (ke_prev_hash e))"
    "dict_get (event_row e) ''hash'' = Some (JStr (ke_hash e))"
    "dict_get (event_row e) ''seq'' = Some (JInt (int (ke_seq e)))"
proof -
  have n: "dict_get (members (ke_payload e)) k = None" if "k \<in> set ENVELOPE" for k
    using assms that by (auto simp: event_ok_def dict_get_None)
  show "dict_get (event_row e) ''ts'' = Some (JStr (iso_utc (ke_ts e)))"
    "dict_get (event_row e) ''action'' = Some (JStr (ke_action e))"
    "dict_get (event_row e) ''actor'' = Some (JStr (ke_actor e))"
    "dict_get (event_row e) ''prev_hash'' = Some (JStr (ke_prev_hash e))"
    "dict_get (event_row e) ''hash'' = Some (JStr (ke_hash e))"
    "dict_get (event_row e) ''seq'' = Some (JInt (int (ke_seq e)))"
    unfolding event_row_eq [OF assms] using n by (simp_all add: ENVELOPE_def map_add_def)
qed

definition event_read :: "key_event \<Rightarrow> json" where
  "event_read e = jsort (JObj (event_row e))"

lemma loads_event_line: "event_ok e \<Longrightarrow> loads (event_line e) = Some (event_read e)"
  unfolding event_line_def dumps_sorted_def event_read_def
  by (rule loads_payload) (rule json_ok_jsort, rule event_row_ok)

lemma item_event_read:
  assumes "event_ok e" and "dict_get (event_row e) k = Some v"
  shows "item (event_read e) k = Inr (jsort v)"
proof -
  have "jget k (event_read e) = Some (jsort v)"
    using jget_jsort [OF event_row_ok [OF assms(1)], of k] assms(2) by (simp add: event_read_def jget_def)
  then show ?thesis by (auto simp: item_def jget_def event_read_def)
qed

lemma payload_read:
  assumes "event_ok e" and "event_read e = JObj kvs"
  shows "JObj (filter (\<lambda>(k, v). k \<notin> set ENVELOPE) kvs) = jsort (ke_payload e)"
proof -
  let ?p = "\<lambda>(k, v). k \<notin> set ENVELOPE"
  have m: "filter ?p (members (ke_payload e)) = members (ke_payload e)"
    using assms(1) by (auto simp: filter_id_conv event_ok_def)
  have f: "filter ?p (map (map_prod id jsort) xs) = map (map_prod id jsort) (filter ?p xs)" for xs
    by (induction xs) auto
  have "filter ?p (event_row e) = members (ke_payload e)"
    unfolding event_row_eq [OF assms(1)] filter_append m by (simp add: ENVELOPE_def)
  moreover have "kvs = sort_key fst (map (map_prod id jsort) (event_row e))"
    using assms(2) by (simp add: event_read_def)
  ultimately have "filter ?p kvs = sort_key fst (map (map_prod id jsort) (members (ke_payload e)))"
    by (simp add: filter_sort f)
  moreover obtain ms where "ke_payload e = JObj ms" using assms(1) by (auto simp: event_ok_def)
  ultimately show ?thesis by (simp add: members_def)
qed

lemma key_content_jsort:
  "key_content (JStr t) (JStr a) (JStr b) (jsort p) = key_content (JStr t) (JStr a) (JStr b) p"
  by (simp add: key_content_def dumps_sorted_def)

lemma verify_lines_export:
  assumes "\<forall>e\<in>set es. event_ok e"
  shows "key_verify_from H p es = (True, None) \<Longrightarrow> verify_lines H p (map event_line es) = Inr (True, None)"
  using assms
proof (induction es arbitrary: p)
  case (Cons e es)
  then have ok: "event_ok e" by simp
  have v: "ke_prev_hash e = p" "ke_hash e = H (p @ event_content e)"
      "key_verify_from H (ke_hash e) es = (True, None)"
    using Cons.prems(1) by (auto simp: compute_hash_def Let_def split: if_splits)
  obtain kvs where kvs: "event_read e = JObj kvs" by (auto simp: event_read_def)
  note it = item_event_read [OF ok event_row_keys(1) [OF ok]] item_event_read [OF ok event_row_keys(2) [OF ok]]
    item_event_read [OF ok event_row_keys(3) [OF ok]] item_event_read [OF ok event_row_keys(4) [OF ok]]
    item_event_read [OF ok event_row_keys(5) [OF ok]]
  have "verify_lines H (ke_hash e) (map event_line es) = Inr (True, None)"
    using Cons.IH [OF v(3)] Cons.prems(2) by simp
  then show ?case
    using it v by (simp add: loads_event_line [OF ok] kvs payload_read [OF ok kvs] key_content_jsort
        event_content_def compute_hash_def Let_def)
qed simp


text \<open>An honest export verifies on its own. Whatever row the export starts after, the text written
  for a stream that verifies passes \<open>verify_jsonl\<close> from the hash the slice chains onto.\<close>

theorem verify_jsonl_export:
  assumes "digest64 H" and "keys_wf db" and "key_verify_chain H db = (True, None)"
    and "\<forall>e\<in>set (key_events db). event_ok e"
  shows "verify_jsonl H (key_export_jsonl db after) (hash_before db after) = Inr (True, None)"
proof -
  let ?xs = "filter (\<lambda>e. ke_seq e \<le> after) (key_events db)"
  let ?ys = "filter (\<lambda>e. after < ke_seq e) (key_events db)"
  have s: "sorted (map ke_seq (key_events db))" using assms(2) by (simp add: keys_wf_def)
  have "key_verify_from H GENESIS_HASH (?xs @ ?ys) = (True, None)"
    using assms(2,3) by (simp add: key_verify_wf sorted_filter_split [OF s])
  then have v: "key_verify_from H GENESIS_HASH ?xs = (True, None)"
      "key_verify_from H (tail_of ke_hash GENESIS_HASH ?xs) ?ys = (True, None)"
    by (simp_all only: ka.ok_append)
  have hb: "hash_before db after = tail_of ke_hash GENESIS_HASH ?xs"
    unfolding hash_before_def using s by (intro last_hash_eq [OF assms(1) v(1)]) (simp add: sorted_filter)
  have lines: "splitlines (key_export_jsonl db after) = map event_line ?ys"
    unfolding key_export_jsonl_def key_events_after_def keys_wf_filter [OF assms(2)]
  proof (rule splitlines_terminated)
    fix l assume "l \<in> set (map event_line ?ys)"
    then obtain e where e: "l = event_line e" "event_ok e" using assms(4) by auto
    then show "\<forall>c\<in>set l. \<not> is_line_break c"
      unfolding e(1) event_line_def dumps_sorted_def
      using dumps_ascii_no_break json_ok_jsort [OF event_row_ok [OF e(2)]] by blast
  qed
  show ?thesis
    unfolding verify_jsonl_def lines hb using assms(4) v(2) by (intro verify_lines_export) auto
qed


text \<open>What one operation of the driver does to the stream: one more event, of this actor and payload.\<close>

definition recorded :: "(string \<Rightarrow> string) \<Rightarrow> key_db \<Rightarrow> key_db \<Rightarrow> string \<Rightarrow> string \<Rightarrow> (string \<times> json) list \<Rightarrow> bool" where
  "recorded H db db' action actor payload =
     (keys_wf db' \<and> key_verify_chain H db' = (True, None)
      \<and> (\<exists>e. key_events db' = key_events db @ [e] \<and> ke_action e = action \<and> ke_actor e = actor
           \<and> ke_payload e = JObj payload))"

definition stream_broken :: "(string \<Rightarrow> string) \<Rightarrow> key_db \<Rightarrow> bool" where
  "stream_broken H db = (\<exists>e. hash_broken H GENESIS_HASH (key_texts (key_events db @ [e])))"

lemma post_event_cases:
  assumes "digest64 H" and "keys_wf db" and "key_verify_chain H db = (True, None)" and "json_ok (JObj payload)"
  obtains (full) db' where "post_event H now db action actor payload = Inr db'"
      "recorded H db db' action actor payload"
  | (broken) c where "post_event H now db action actor payload = Inl (IntegrityError c)" "stream_broken H db"
proof (cases rule: append_event_cases [OF assms, of now action actor None])
  case (1 e db')
  then show thesis by (intro full [of db']) (auto simp: post_event_def recorded_def)
next
  case (2 c e)
  then show thesis by (intro broken [of c]) (auto simp: post_event_def stream_broken_def)
qed

lemma strs_ok [simp]: "json_ok (strs xs)"
  by (simp add: strs_def)

subsection \<open>Concrete instances\<close>

definition sample_event :: key_event where
  "sample_event = \<lparr>ke_seq = 1, ke_ts = sample_time, ke_action = GRANT_REVOKED_ACTION, ke_actor = ''admin'',
     ke_payload = JObj [(''grant_id'', JStr ''g1'')], ke_prev_hash = GENESIS_HASH, ke_hash = sample_hash []\<rparr>"

definition sample_keys :: key_db where
  "sample_keys = \<lparr>key_events = [sample_event], key_next_seq = 2\<rparr>"

lemma sample_keys_ok [simp]:
  "keys_wf sample_keys" "key_verify_chain sample_hash sample_keys = (True, None)"
  "\<forall>e\<in>set (key_events sample_keys). event_ok e"
  by (simp_all add: keys_wf_def sample_keys_def sample_event_def key_verify_chain_def key_events_by_seq_def
      compute_hash_def sample_hash_def event_ok_def members_def ENVELOPE_def del: replicate.simps)

definition empty_keys :: key_db where
  "empty_keys = \<lparr>key_events = [], key_next_seq = 1\<rparr>"

lemma empty_keys_ok [simp]: "keys_wf empty_keys" "key_verify_chain H empty_keys = (True, None)"
  by (simp_all add: empty_keys_def keys_wf_def key_verify_chain_def key_events_by_seq_def)

lemma empty_post:
  assumes "json_ok (JObj payload)"
  shows "\<exists>kdb'. post_event H now empty_keys action actor payload = Inr kdb'"
  unfolding post_event_def append_event_def loads_payload [OF assms] Let_def
  by (simp add: insert_event_def empty_keys_def)

lemma key_append_keeps_chain_witness:
  "case append_event sample_hash sample_time sample_keys ''grant_revoked'' ''admin'' (JObj []) None of
      Inr (db', e) \<Rightarrow> keys_wf db' \<and> key_verify_chain sample_hash db' = (True, None)
        \<and> key_events db' = key_events sample_keys @ [e] \<and> ke_action e = ''grant_revoked'' \<and> ke_actor e = ''admin''
        \<and> ke_payload e = JObj []
    | Inl err \<Rightarrow> \<exists>e. hash_broken sample_hash GENESIS_HASH (key_texts (key_events sample_keys @ [e]))"
  by (rule key_append_keeps_chain) simp_all

lemma verify_jsonl_export_witness:
  "verify_jsonl sample_hash (key_export_jsonl sample_keys 0) (hash_before sample_keys 0) = Inr (True, None)"
  by (rule verify_jsonl_export) (rule sample_hash_digest sample_keys_ok)+

end
