(* ===== verification/AuditExport.thy ===== *)
theory AuditExport
  imports AuditTrail KeyAudit
begin

text \<open>
  \<open>audit_export.py\<close> and \<open>key_audit_export.py\<close>: the write-once store and the exports of the two chains
  to it. The store an export writes to is the \<open>WormObjectStore\<close> protocol: its two operations are
  arguments of the exports, the locale \<open>worm_store\<close> states what an export relies on, and
  \<open>InMemoryWormStore\<close> is its interpretation. An object is its bytes with the end of its retention.
\<close>

type_synonym worm_objects = "(string, string \<times> datetime) dict"

subsection \<open>\<open>InMemoryWormStore\<close>\<close>

definition worm_guard :: "datetime \<Rightarrow> worm_objects \<Rightarrow> string \<Rightarrow> unit result" where
  "worm_guard clock objs key = (case dict_get objs key of
     None \<Rightarrow> Inr ()
   | Some existing \<Rightarrow> if instant clock < instant (snd existing) then Inl WormRetentionError else Inr ())"

definition worm_put :: "datetime \<Rightarrow> worm_objects \<Rightarrow> string \<Rightarrow> string \<Rightarrow> datetime \<Rightarrow> worm_objects result" where
  "worm_put clock objs key data until =
     rbind (worm_guard clock objs key) (\<lambda>_. Inr (dict_set key (data, until) objs))"

definition worm_delete :: "datetime \<Rightarrow> worm_objects \<Rightarrow> string \<Rightarrow> worm_objects result" where
  "worm_delete clock objs key = rbind (worm_guard clock objs key) (\<lambda>_. Inr (dict_pop key objs))"

definition worm_get :: "worm_objects \<Rightarrow> string \<Rightarrow> string result" where
  "worm_get objs key = (case dict_get objs key of None \<Rightarrow> Inl (KeyError key) | Some (d, _) \<Rightarrow> Inr d)"

definition worm_retain_until :: "worm_objects \<Rightarrow> string \<Rightarrow> datetime option" where
  "worm_retain_until objs key = map_option snd (dict_get objs key)"

subsection \<open>Checking an export against the table\<close>

record export_result =
  er_object_key :: "string option"
  er_first_seq :: "nat option"
  er_last_seq :: nat
  er_count :: nat
  er_retain_until :: "datetime option"

definition hash_at :: "audit_db \<Rightarrow> nat \<Rightarrow> string option" where
  "hash_at db seq = map_option ar_hash (find (\<lambda>r. ar_seq r = seq) (trail db))"

text \<open>\<open>v == n\<close> for a value that was read and an integer: \<open>True\<close> is 1 and \<open>False\<close> is 0.\<close>

definition py_eq_int :: "json option \<Rightarrow> int \<Rightarrow> bool" where
  "py_eq_int v n = (case v of Some (JInt m) \<Rightarrow> m = n | Some (JBool b) \<Rightarrow> n = of_bool b | _ \<Rightarrow> False)"

text \<open>The content rebuilt from an exported line, inside the \<open>try\<close>.\<close>

definition line_content :: "json \<Rightarrow> string result" where
  "line_content row =
     rbind (item row ''document_id'') (\<lambda>doc.
     rbind (item row ''from_state'') (\<lambda>frm.
     rbind (item row ''to_state'') (\<lambda>to.
     rbind (item row ''ts'') (\<lambda>ts.
     rbind (case ts of JStr t \<Rightarrow> fromisoformat t | _ \<Rightarrow> Inl TypeError) (\<lambda>t.
     rbind (item row ''step'') (\<lambda>stp.
     rbind (item row ''payload'') (\<lambda>payload.
     canonical_content (py_str doc) frm to t stp payload)))))))"

fun verify_pairs :: "(string \<Rightarrow> string) \<Rightarrow> string \<Rightarrow> (string \<times> audit_record) list \<Rightarrow> bool result" where
  "verify_pairs H prev [] = Inr True"
| "verify_pairs H prev ((line, rec) # ps) =
     (case loads line of
        None \<Rightarrow> Inl ValueError
      | Some (JObj kvs) \<Rightarrow>
          (let row = JObj kvs
           in if \<not> py_eq_int (jget ''seq'' row) (int (ar_seq rec)) \<or> jget ''hash'' row \<noteq> Some (JStr (ar_hash rec))
              then Inr False
              else if jget ''prev_hash'' row \<noteq> Some (JStr (ar_prev_hash rec)) \<or> jget ''prev_hash'' row \<noteq> Some (JStr prev)
              then Inr False
              else (case line_content row of
                  Inl (KeyError _) \<Rightarrow> Inr False
                | Inl ValueError \<Rightarrow> Inr False
                | Inl e \<Rightarrow> Inl e
                | Inr content \<Rightarrow>
                    if compute_hash H prev content \<noteq> ar_hash rec then Inr False
                    else verify_pairs H (ar_hash rec) ps))
      | Some _ \<Rightarrow> Inl AttributeError)"

definition verify_export :: "(string \<Rightarrow> string) \<Rightarrow> audit_db \<Rightarrow> string \<Rightarrow> nat \<Rightarrow> bool result" where
  "verify_export H db jsonl after =
     (let lines = (if jsonl = [] then [] else splitlines jsonl);
          records = records_after db after
      in if length lines \<noteq> length records then Inr False
         else if after \<noteq> 0
           then (case hash_at db after of
                   None \<Rightarrow> Inr False
                 | Some prev \<Rightarrow> verify_pairs H prev (zip lines records))
         else verify_pairs H GENESIS_HASH (zip lines records))"

subsection \<open>The two exports\<close>

definition export_last_seq :: "audit_db \<Rightarrow> nat" where
  "export_last_seq db = (case last_opt (by_seq (trail db)) of None \<Rightarrow> 0 | Some r \<Rightarrow> ar_seq r)"

definition worm_key :: "string \<Rightarrow> nat \<Rightarrow> nat \<Rightarrow> string" where
  "worm_key prefix first lst =
     prefix @ ''/seq-'' @ zfill 12 (digits_of first) @ ''-'' @ zfill 12 (digits_of lst) @ ''.jsonl''"

definition export_worm ::
    "(string \<Rightarrow> string) \<Rightarrow> ('s \<Rightarrow> string \<Rightarrow> string \<Rightarrow> datetime \<Rightarrow> 's result) \<Rightarrow> ('s \<Rightarrow> string \<Rightarrow> string result)
      \<Rightarrow> audit_db \<Rightarrow> 's \<Rightarrow> nat \<Rightarrow> nat \<Rightarrow> datetime \<Rightarrow> string \<Rightarrow> ('s \<times> export_result) result" where
  "export_worm H put get db store retention_days after now key_prefix =
     rbind (verify_chain H db) (\<lambda>(ok, bad).
     if \<not> ok then Inl (ExportError ''chain'')
     else
       (let last = export_last_seq db
        in if last \<le> after then Inr (store, \<lparr>er_object_key = None, er_first_seq = None, er_last_seq = after,
               er_count = 0, er_retain_until = None\<rparr>)
           else
             (let jsonl = export_jsonl db after
              in rbind (verify_export H db jsonl after) (\<lambda>v.
                 if \<not> v then Inl (ExportError ''slice'')
                 else
                   (let first_seq = after + 1;
                        key = worm_key key_prefix first_seq last;
                        retain_until = add_days now retention_days
                    in rbind (put store key (utf8 jsonl) retain_until) (\<lambda>store.
                       rbind (get store key) (\<lambda>bytes.
                       rbind (utf8_decode bytes) (\<lambda>stored.
                       rbind (if stored \<noteq> jsonl then Inr False else verify_export H db stored after) (\<lambda>v.
                       if \<not> v then Inl (ExportError ''stored'')
                       else Inr (store, \<lparr>er_object_key = Some key, er_first_seq = Some first_seq,
                          er_last_seq = last, er_count = last - after,
                          er_retain_until = Some retain_until\<rparr>))))))))))"

definition line_seq :: "string \<Rightarrow> nat result" where
  "line_seq line = (case loads line of
     None \<Rightarrow> Inl ValueError
   | Some row \<Rightarrow> rbind (item row ''seq'') (\<lambda>s. case s of JInt n \<Rightarrow> Inr (nat n) | _ \<Rightarrow> Inl TypeError))"

definition export_key_lifecycle_worm ::
    "(string \<Rightarrow> string) \<Rightarrow> ('s \<Rightarrow> string \<Rightarrow> string \<Rightarrow> datetime \<Rightarrow> 's result) \<Rightarrow> ('s \<Rightarrow> string \<Rightarrow> string result)
      \<Rightarrow> key_db \<Rightarrow> 's \<Rightarrow> nat \<Rightarrow> nat \<Rightarrow> datetime \<Rightarrow> string \<Rightarrow> ('s \<times> export_result) result" where
  "export_key_lifecycle_worm H put get db store retention_days after now key_prefix =
     (if \<not> fst (key_verify_chain H db) then Inl (ExportError ''chain'')
      else
        (let jsonl = key_export_jsonl db after
         in if jsonl = [] then Inr (store, \<lparr>er_object_key = None, er_first_seq = None, er_last_seq = after,
                er_count = 0, er_retain_until = None\<rparr>)
            else rbind (rmap line_seq (splitlines jsonl)) (\<lambda>seqs.
              let first = hd seqs; lst = last seqs;
                  key = worm_key key_prefix first lst;
                  retain_until = add_days now retention_days
              in rbind (put store key (utf8 jsonl) retain_until) (\<lambda>store.
                 rbind (get store key) (\<lambda>bytes.
                 rbind (utf8_decode bytes) (\<lambda>stored.
                 rbind (if stored \<noteq> jsonl then Inr False
                        else rbind (verify_jsonl H stored (hash_before db after)) (\<lambda>r. Inr (fst r))) (\<lambda>v.
                 if \<not> v then Inl (ExportError ''stored'')
                 else Inr (store, \<lparr>er_object_key = Some key, er_first_seq = Some first, er_last_seq = lst,
                    er_count = length seqs, er_retain_until = Some retain_until\<rparr>))))))))"


subsection \<open>The store interface\<close>

text \<open>What an export relies on: what was put is what is got, and no other object is touched.\<close>

locale worm_store =
  fixes put :: "'s \<Rightarrow> string \<Rightarrow> string \<Rightarrow> datetime \<Rightarrow> 's result"
    and get :: "'s \<Rightarrow> string \<Rightarrow> string result"
  assumes get_put: "put s k d u = Inr s' \<Longrightarrow> get s' k = Inr d"
    and get_other: "put s k d u = Inr s' \<Longrightarrow> k' \<noteq> k \<Longrightarrow> get s' k' = get s k'"
begin

lemma export_stored:
  assumes "export_worm H put get db s days after now pre = Inr (s', res)" and "er_object_key res = Some k"
  shows "verify_chain H db = Inr (True, None) \<and> verify_export H db (export_jsonl db after) after = Inr True
    \<and> get s' k = Inr (utf8 (export_jsonl db after)) \<and> put s k (utf8 (export_jsonl db after)) (add_days now days) = Inr s'
    \<and> (\<forall>k'. k' \<noteq> k \<longrightarrow> get s' k' = get s k') \<and> er_retain_until res = Some (add_days now days)
    \<and> k = worm_key pre (after + 1) (export_last_seq db) \<and> er_last_seq res = export_last_seq db
    \<and> er_count res = export_last_seq db - after \<and> after < export_last_seq db"
proof -
  have v: "verify_chain H db = Inr (ok, bad) \<Longrightarrow> ok = (bad = None)" for ok bad
    using verify_from_bool by (simp add: verify_chain_def)
  show ?thesis
    using assms
    by (auto simp: export_worm_def Let_def result_simps split: if_splits dest!: v dest: get_put get_other)
qed

lemma export_succeeds:
  assumes "verify_chain H db = Inr (True, None)" and "after < export_last_seq db"
    and "verify_export H db (export_jsonl db after) after = Inr True"
    and "put s (worm_key pre (after + 1) (export_last_seq db)) (utf8 (export_jsonl db after)) (add_days now days) = Inr s'"
  shows "\<exists>res. export_worm H put get db s days after now pre = Inr (s', res)
    \<and> er_object_key res = Some (worm_key pre (after + 1) (export_last_seq db))"
  using assms get_put [OF assms(4)] by (simp add: export_worm_def Let_def)

lemma key_export_succeeds:
  assumes "fst (key_verify_chain H db)" and "key_export_jsonl db after \<noteq> []"
    and "rmap line_seq (splitlines (key_export_jsonl db after)) = Inr seqs"
    and "verify_jsonl H (key_export_jsonl db after) (hash_before db after) = Inr (True, None)"
    and "put s (worm_key pre (hd seqs) (last seqs)) (utf8 (key_export_jsonl db after)) (add_days now days) = Inr s'"
  shows "export_key_lifecycle_worm H put get db s days after now pre = Inr (s',
    \<lparr>er_object_key = Some (worm_key pre (hd seqs) (last seqs)), er_first_seq = Some (hd seqs),
     er_last_seq = last seqs, er_count = length seqs, er_retain_until = Some (add_days now days)\<rparr>)"
  using assms get_put [OF assms(5)] by (simp add: export_key_lifecycle_worm_def Let_def)

end

lemma worm_put_Inr:
  "worm_put clock objs k d u = Inr objs' \<longleftrightarrow> worm_guard clock objs k = Inr () \<and> objs' = dict_set k (d, u) objs"
  by (auto simp: worm_put_def result_simps)

interpretation mem: worm_store "worm_put clock" worm_get for clock
  by unfold_locales (auto simp: worm_put_Inr worm_get_def)

subsection \<open>Write once\<close>

datatype worm_op = Put string string datetime | Del string

text \<open>A refused operation leaves the store as it was.\<close>

definition worm_step :: "worm_objects \<Rightarrow> datetime \<times> worm_op \<Rightarrow> worm_objects" where
  "worm_step objs step = (case step of (clock, op) \<Rightarrow>
     (case (case op of Put k d u \<Rightarrow> worm_put clock objs k d u | Del k \<Rightarrow> worm_delete clock objs k) of
        Inl _ \<Rightarrow> objs | Inr objs' \<Rightarrow> objs'))"

lemma worm_step_locked:
  assumes "dict_get objs k = Some (d, u)" and "instant clock < instant u"
  shows "dict_get (worm_step objs (clock, op)) k = Some (d, u)"
  using assms by (cases op) (auto simp: worm_step_def worm_put_def worm_delete_def worm_guard_def
      split: option.splits)

text \<open>A stored object is immutable until its retention ends: no sequence of writes and deletes made
  before that instant, by anyone and to any key, changes its bytes or its lock.\<close>

theorem worm_immutable:
  assumes "dict_get objs k = Some (d, u)" and "\<forall>(clock, op)\<in>set ops. instant clock < instant u"
  shows "dict_get (foldl worm_step objs ops) k = Some (d, u)"
  using assms
proof (induction ops arbitrary: objs)
  case (Cons op ops)
  obtain clock o' where op: "op = (clock, o')" by (cases op)
  have "dict_get (worm_step objs (clock, o')) k = Some (d, u)"
    using Cons.prems op by (intro worm_step_locked) auto
  with Cons op show ?case by simp
qed simp

subsection \<open>An honest export verifies\<close>

definition NEL :: char where
  "NEL = char_of (133::nat)"

lemma cp_NEL [simp]: "cp NEL = 133"
  by (simp add: NEL_def)

definition record_chars :: "audit_record \<Rightarrow> char set" where
  "record_chars r = set (ar_document_id r) \<union> (case ar_from_state r of None \<Rightarrow> {} | Some f \<Rightarrow> set f)
     \<union> set (ar_to_state r) \<union> set (ar_step r) \<union> json_chars (ar_payload r)
     \<union> set (ar_prev_hash r) \<union> set (ar_hash r)"

definition line_json :: "audit_record \<Rightarrow> json" where
  "line_json r = JObj
     [(''seq'', JInt (int (ar_seq r))), (''document_id'', JStr (ar_document_id r)),
      (''from_state'', opt_str (ar_from_state r)), (''to_state'', JStr (ar_to_state r)),
      (''ts'', JStr (isoformat (to_utc (ar_ts r)))), (''step'', JStr (ar_step r)),
      (''payload'', ar_payload r), (''prev_hash'', JStr (ar_prev_hash r)), (''hash'', JStr (ar_hash r))]"

lemma jsonl_line_eq: "jsonl_line r = dumps False '', '' '': '' (jsort (line_json r))"
  by (simp only: jsonl_line_def dumps_sorted_def line_json_def)

lemma line_json_ok: "json_ok (ar_payload r) \<Longrightarrow> json_ok (line_json r)"
  by (simp add: line_json_def)

lemma line_json_keys:
  "jget ''seq'' (line_json r) = Some (JInt (int (ar_seq r)))"
  "jget ''document_id'' (line_json r) = Some (JStr (ar_document_id r))"
  "jget ''from_state'' (line_json r) = Some (opt_str (ar_from_state r))"
  "jget ''to_state'' (line_json r) = Some (JStr (ar_to_state r))"
  "jget ''ts'' (line_json r) = Some (JStr (isoformat (to_utc (ar_ts r))))"
  "jget ''step'' (line_json r) = Some (JStr (ar_step r))"
  "jget ''payload'' (line_json r) = Some (ar_payload r)"
  "jget ''prev_hash'' (line_json r) = Some (JStr (ar_prev_hash r))"
  "jget ''hash'' (line_json r) = Some (JStr (ar_hash r))"
  by (simp_all add: line_json_def jget_def)

lemma item_jget: "item v k = Inr x \<longleftrightarrow> jget k v = Some x"
  by (cases v) (auto simp: item_def jget_def split: option.splits)

lemma loads_jsonl_line:
  "json_ok (ar_payload r) \<Longrightarrow> loads (jsonl_line r) = Some (jsort (line_json r))"
  using loads_dumps [of "jsort (line_json r)" "'' ''" "'' ''" False]
  by (simp add: jsonl_line_eq is_ws_def line_json_ok)

lemma jget_read:
  assumes "json_ok (ar_payload r)"
  shows "jget k (jsort (line_json r)) = map_option jsort (jget k (line_json r))"
  by (rule jget_jsort [OF line_json_ok [OF assms]])

lemma line_content_read:
  assumes "record_ok r"
  shows "line_content (jsort (line_json r)) = record_content r"
proof -
  have p: "json_ok (ar_payload r)" and t: "utc_ok (ar_ts r)" using assms by (simp_all add: record_ok_def)
  have it: "item (jsort (line_json r)) k = Inr (jsort v)" if "jget k (line_json r) = Some v" for k v
    using that by (simp add: item_jget jget_read [OF p])
  note k = line_json_keys [of r, THEN it]
  have ts: "fromisoformat (isoformat (to_utc (ar_ts r))) = Inr (to_utc (ar_ts r))"
    using ts_text_read [OF t ts_text_ok [OF t]] .
  show ?thesis
    by (simp add: line_content_def k ts record_content_def canonical_content_def ts_text_to_utc [OF t]
        content_of_def dumps_sorted_def)
qed

lemma verify_pairs_export:
  assumes "\<forall>r\<in>set rs. record_ok r" and "verify_from H p rs = Inr (True, None)"
  shows "verify_pairs H p (zip (map jsonl_line rs) rs) = Inr True"
  using assms
proof (induction rs arbitrary: p)
  case (Cons r rs)
  then have ok: "record_ok r" "json_ok (ar_payload r)" by (simp_all add: record_ok_def)
  obtain c where v: "ar_prev_hash r = p" "record_content r = Inr c" "ar_hash r = H (p @ c)"
      "verify_from H (ar_hash r) rs = Inr (True, None)"
    using Cons.prems(2) by (auto simp: result_simps compute_hash_def split: if_splits)
  obtain kvs where kvs: "jsort (line_json r) = JObj kvs" by (auto simp: line_json_def)
  have j: "jget k (JObj kvs) = map_option jsort (jget k (line_json r))" for k
    using jget_read [OF ok(2)] kvs by simp
  have "verify_pairs H (ar_hash r) (zip (map jsonl_line rs) rs) = Inr True"
    using Cons.IH [OF _ v(4)] Cons.prems(1) by simp
  then show ?case
    using v line_content_read [OF ok(1)]
    by (simp add: loads_jsonl_line [OF ok(2)] kvs j line_json_keys py_eq_int_def compute_hash_def Let_def)
qed simp

lemma line_json_chars: "json_chars (line_json r) \<subseteq> record_chars r \<union> Collect printable
    \<union> set (concat [''seq'', ''document_id'', ''from_state'', ''to_state'', ''ts'', ''step'', ''payload'', ''prev_hash'', ''hash''])"
  by (auto simp: line_json_def record_chars_def opt_str_def isoformat_printable split: option.splits)

lemma jsonl_line_chars:
  assumes "json_ok (ar_payload r)" and "x \<in> set (jsonl_line r)"
  shows "printable x \<or> x \<in> record_chars r \<and> 32 \<le> cp x"
proof -
  have "json_ok (jsort (line_json r))" using assms(1) by (simp add: line_json_ok)
  from dumps_chars [OF this, of x False "'', ''" "'': ''"] assms(2)
  have "x \<in> set '', '' \<union> set '': '' \<or> printable x \<or> x \<in> json_chars (line_json r) \<and> 32 \<le> cp x"
    by (auto simp: jsonl_line_eq)
  then show ?thesis
  proof (elim disjE)
    assume "x \<in> json_chars (line_json r) \<and> 32 \<le> cp x"
    then show ?thesis using line_json_chars [of r] by (auto simp: printable_def)
  qed (auto simp: printable_def)
qed

lemma jsonl_line_brackets: "\<exists>m. jsonl_line r = CHR ''{'' # m @ [CHR ''}'']"
  by (simp add: jsonl_line_eq line_json_def)

lemma line_break_33: "is_line_break c \<Longrightarrow> 32 \<le> cp c \<Longrightarrow> c = NEL"
proof -
  assume "is_line_break c" "32 \<le> cp c"
  then have "cp c = 133" by (auto simp: is_line_break_def Let_def)
  then show ?thesis using cp_eqI [OF cp_NEL] by simp
qed

lemma records_after_wf:
  "trail_wf db \<Longrightarrow> records_after db after = filter (\<lambda>r. after < ar_seq r) (trail db)"
  by (simp add: records_after_def)

lemma hash_at_wf:
  assumes "trail_wf db" and "r \<in> set (trail db)"
  shows "hash_at db (ar_seq r) = Some (ar_hash r)"
proof -
  have d: "distinct (map ar_seq (trail db))" using assms(1) by (simp add: trail_wf_def)
  from find_distinct [OF this assms(2)] show ?thesis by (simp add: hash_at_def)
qed


lemma export_lines:
  assumes "\<forall>r\<in>set rs. json_ok (ar_payload r) \<and> NEL \<notin> record_chars r"
  shows "splitlines (join [CHR 0x0A] (map jsonl_line rs)) = map jsonl_line rs"
proof (rule splitlines_join)
  fix l assume "l \<in> set (map jsonl_line rs)"
  then obtain r where r: "l = jsonl_line r" "json_ok (ar_payload r)" "NEL \<notin> record_chars r"
    using assms by auto
  have "\<not> is_line_break c" if "c \<in> set l" for c
    using jsonl_line_chars [OF r(2), of c] that r(1,3) printable_no_break line_break_33 by auto
  moreover have "l \<noteq> []" using jsonl_line_brackets [of r] r(1) by auto
  ultimately show "l \<noteq> [] \<and> (\<forall>c\<in>set l. \<not> is_line_break c)" by blast
qed

definition start_hash :: "audit_db \<Rightarrow> nat \<Rightarrow> string" where
  "start_hash db after = (if after = 0 then GENESIS_HASH
     else case hash_at db after of None \<Rightarrow> [] | Some h \<Rightarrow> h)"

lemma verify_after:
  assumes "trail_wf db" and "verify_chain H db = Inr (True, None)"
    and "after = 0 \<or> after \<in> ar_seq ` set (trail db)"
  shows "verify_from H (start_hash db after) (records_after db after) = Inr (True, None)"
proof -
  let ?xs = "filter (\<lambda>r. ar_seq r \<le> after) (trail db)"
  let ?ys = "filter (\<lambda>r. after < ar_seq r) (trail db)"
  have srt: "sorted (map ar_seq (trail db))" and d: "distinct (map ar_seq (trail db))"
    and pos: "\<forall>r\<in>set (trail db). 0 < ar_seq r" using assms(1) by (simp_all add: trail_wf_def)
  have "verify_from H GENESIS_HASH (?xs @ ?ys) = Inr (True, None)"
    using assms(1,2) by (simp add: verify_chain_wf sorted_filter_split [OF srt])
  then have v: "verify_from H (tail_of ar_hash GENESIS_HASH ?xs) ?ys = Inr (True, None)"
    by (simp only: at.ok_append)
  have "tail_of ar_hash GENESIS_HASH ?xs = start_hash db after"
  proof (cases "after = 0")
    case True
    then have "?xs = []" using pos by (auto simp: filter_empty_conv)
    then show ?thesis by (simp only: tail_of_simps start_hash_def True if_True refl)
  next
    case False
    then obtain r where r: "r \<in> set (trail db)" "ar_seq r = after" using assms(3) by auto
    then have ne: "r \<in> set ?xs" by simp
    then have ne': "?xs \<noteq> []" by (metis list.set(1) empty_iff)
    have "sorted (map ar_seq ?xs)" using srt by (rule sorted_filter)
    have "ar_seq (last ?xs) = after"
    proof (rule antisym)
      have "last ?xs \<in> set ?xs" using ne' by (rule last_in_set)
      then show "ar_seq (last ?xs) \<le> after" by simp
      obtain i where i: "i < length ?xs" "?xs ! i = r" using ne by (metis in_set_conv_nth)
      have "map ar_seq ?xs ! i \<le> map ar_seq ?xs ! (length ?xs - 1)"
        using \<open>sorted (map ar_seq ?xs)\<close> i(1) by (intro sorted_nth_mono) auto
      moreover have "length ?xs - 1 < length ?xs" using i(1) by linarith
      ultimately show "after \<le> ar_seq (last ?xs)"
        using i r(2) ne' by (simp add: last_conv_nth)
    qed
    moreover have "last ?xs \<in> set (trail db)" using last_in_set [OF ne'] by simp
    ultimately have "hash_at db after = Some (ar_hash (last ?xs))"
      using hash_at_wf [OF assms(1)] by metis
    then show ?thesis using ne' False by (simp add: tail_of_def start_hash_def)
  qed
  with v show ?thesis by (simp add: records_after_wf [OF assms(1)])
qed

lemma hash_at_start:
  assumes "trail_wf db" and "after = 0 \<or> after \<in> ar_seq ` set (trail db)"
  shows "after \<noteq> 0 \<Longrightarrow> hash_at db after = Some (start_hash db after)"
proof -
  assume "after \<noteq> 0"
  then obtain r where "r \<in> set (trail db)" "ar_seq r = after" using assms(2) by auto
  then show ?thesis using hash_at_wf [OF assms(1)] \<open>after \<noteq> 0\<close> by (auto simp: start_hash_def)
qed

lemma verify_export_start:
  assumes "trail_wf db" and "after = 0 \<or> after \<in> ar_seq ` set (trail db)"
  shows "verify_export H db jsonl after =
     (let lines = (if jsonl = [] then [] else splitlines jsonl)
      in if length lines \<noteq> length (records_after db after) then Inr False
         else verify_pairs H (start_hash db after) (zip lines (records_after db after)))"
  using hash_at_start [OF assms]
  by (cases "after = 0") (simp_all add: verify_export_def Let_def, simp add: start_hash_def)

lemma export_verifies:
  assumes "trail_wf db" and "verify_chain H db = Inr (True, None)"
    and "after = 0 \<or> after \<in> ar_seq ` set (trail db)"
    and "\<forall>r\<in>set (trail db). record_ok r \<and> NEL \<notin> record_chars r"
  shows "verify_export H db (export_jsonl db after) after = Inr True"
proof -
  let ?rs = "records_after db after"
  have sub: "set ?rs \<subseteq> set (trail db)" by (auto simp: records_after_wf [OF assms(1)])
  have lines: "splitlines (export_jsonl db after) = map jsonl_line ?rs"
    unfolding export_jsonl_def using assms(4) sub by (intro export_lines) (auto simp: record_ok_def)
  have "verify_pairs H (start_hash db after) (zip (map jsonl_line ?rs) ?rs) = Inr True"
    using assms(4) sub verify_after [OF assms(1-3)] by (intro verify_pairs_export) auto
  then show ?thesis
    unfolding verify_export_start [OF assms(1,3)]
    using lines by (auto simp: Let_def export_jsonl_def splitlines_def)
qed

text \<open>C21: An honest export verifies, for text within the characters of the model. The trail verifies, its payloads are values that JSON can hold and
  its instants are within range (\<open>record_ok\<close>), the start is 0 or an existing row, and no field holds U+0085, at which the check splits a line and which the
  export does not escape; then the exported text passes \<open>verify_export\<close>. This speaks of characters up to U+00FF only: \<open>str.splitlines\<close> also breaks at U+2028 and
  U+2029, which the model does not have, and an export with one of them is rejected like one with U+0085.\<close>

theorem verify_export_honest:
  assumes "trail_wf db" and "verify_chain H db = Inr (True, None)"
    and "after = 0 \<or> after \<in> ar_seq ` set (trail db)"
    and "\<forall>r\<in>set (trail db). record_ok r \<and> NEL \<notin> record_chars r"
  shows "verify_export H db (export_jsonl db after) after = Inr True"
  using assms by (rule export_verifies)

text \<open>One U+0085 in any exported text breaks the export. The exported lines keep the character as it
  is, and \<open>verify_export\<close> splits the text with \<open>str.splitlines\<close>, which breaks there too: the honest
  export of a good trail is then rejected.\<close>

theorem verify_export_nel:
  assumes "trail_wf db" and "\<forall>r\<in>set (trail db). json_ok (ar_payload r)"
    and "r \<in> set (records_after db after)" and "NEL \<in> json_chars (ar_payload r)"
  shows "verify_export H db (export_jsonl db after) after = Inr False"
proof -
  let ?rs = "records_after db after"
  let ?t = "export_jsonl db after"
  have sub: "set ?rs \<subseteq> set (trail db)" by (auto simp: records_after_wf [OF assms(1)])
  have chars: "printable x \<or> 32 \<le> cp x" if "q \<in> set ?rs" "x \<in> set (jsonl_line q)" for q x
    using jsonl_line_chars [OF _ that(2)] assms(2) sub that(1) by auto
  have nel: "NEL \<in> set (jsonl_line r)"
  proof -
    have "NEL \<in> json_chars (jsort (line_json r))" using assms(4) by (simp add: line_json_def)
    then show ?thesis unfolding jsonl_line_eq by (intro dumps_keeps) (simp_all add: esc_char_def)
  qed
  have cr: "CHR 0x0D \<notin> set (join [CHR 0x0A] (map jsonl_line rs))" if "set rs \<subseteq> set ?rs" for rs
    using that join_chars [of "CHR 0x0D" "[CHR 0x0A]" "map jsonl_line rs"] chars
    by (fastforce simp: printable_def)
  have count: "length rs - 1 + (if r \<in> set rs then 1 else 0)
      \<le> length (filter is_line_break (join [CHR 0x0A] (map jsonl_line rs)))" for rs
  proof (induction rs rule: induct_list012)
    case (2 x)
    have "NEL \<in> set (filter is_line_break (jsonl_line r))" using nel by (simp add: is_line_break_def)
    then have "1 \<le> length (filter is_line_break (jsonl_line r))"
      by (metis One_nat_def Suc_leI length_pos_if_in_set)
    then show ?case by auto
  next
    case (3 x y zs)
    have "NEL \<in> set (filter is_line_break (jsonl_line r))" using nel by (simp add: is_line_break_def)
    then have "1 \<le> length (filter is_line_break (jsonl_line r))"
      by (metis One_nat_def Suc_leI length_pos_if_in_set)
    moreover have "is_line_break (CHR 0x0A)" by (simp add: is_line_break_def)
    ultimately show ?case using 3(2) by (auto split: if_splits)
  qed simp
  have last: "rs \<noteq> [] \<Longrightarrow> join [CHR 0x0A] (map jsonl_line rs) \<noteq> []
      \<and> \<not> is_line_break (last (join [CHR 0x0A] (map jsonl_line rs)))" for rs
  proof (induction rs rule: induct_list012)
    case (2 x)
    obtain m where "jsonl_line x = CHR ''{'' # m @ [CHR ''}'']" using jsonl_line_brackets by blast
    then show ?case by (simp add: is_line_break_def)
  qed auto
  have ne: "?rs \<noteq> []" using assms(3) by auto
  have "length (splitlines ?t) = Suc (length (filter is_line_break ?t))"
    unfolding splitlines_def export_jsonl_def using cr [OF subset_refl] last [OF ne]
    by (intro length_lines_acc) auto
  moreover have "length ?rs \<le> length (filter is_line_break ?t)"
    using count [of ?rs] assms(3) ne unfolding export_jsonl_def by (cases ?rs) auto
  ultimately have "length (splitlines ?t) \<noteq> length ?rs" by simp
  moreover have "?t \<noteq> []" using last [OF ne] by (simp add: export_jsonl_def)
  ultimately show ?thesis by (simp add: verify_export_def Let_def)
qed


definition line_matches :: "(string \<Rightarrow> string) \<Rightarrow> string \<Rightarrow> audit_record \<Rightarrow> bool" where
  "line_matches H line r = (\<exists>row c c'. loads line = Some row \<and> py_eq_int (jget ''seq'' row) (int (ar_seq r))
     \<and> jget ''hash'' row = Some (JStr (ar_hash r)) \<and> jget ''prev_hash'' row = Some (JStr (ar_prev_hash r))
     \<and> line_content row = Inr c \<and> record_content r = Inr c'
     \<and> (c = c' \<or> collision H {ar_prev_hash r @ c, ar_prev_hash r @ c'}))"

lemma verify_pairs_sound:
  assumes "length ls = length rs" and "verify_pairs H p (zip ls rs) = Inr True"
    and "verify_from H p rs = Inr (True, None)"
  shows "list_all2 (line_matches H) ls rs"
  using assms
proof (induction ls rs arbitrary: p rule: list_induct2)
  case (Cons l ls r rs)
  obtain c' where v: "ar_prev_hash r = p" "record_content r = Inr c'" "ar_hash r = H (p @ c')"
      "verify_from H (ar_hash r) rs = Inr (True, None)"
    using Cons.prems(2) by (auto simp: result_simps compute_hash_def split: if_splits)
  have vp: "verify_pairs H p ((l, r) # zip ls rs) = Inr True" using Cons.prems(1) by simp
  obtain kvs where kvs: "loads l = Some (JObj kvs)"
    using vp by (auto split: option.splits json.splits)
  obtain c where c: "line_content (JObj kvs) = Inr c" "H (p @ c) = ar_hash r"
      "verify_pairs H (ar_hash r) (zip ls rs) = Inr True"
    using vp kvs by (auto simp: Let_def compute_hash_def split: if_splits sum.splits error.splits)
  have k: "py_eq_int (jget ''seq'' (JObj kvs)) (int (ar_seq r))"
      "jget ''hash'' (JObj kvs) = Some (JStr (ar_hash r))"
      "jget ''prev_hash'' (JObj kvs) = Some (JStr (ar_prev_hash r))"
    using vp kvs by (auto simp: Let_def split: if_splits)
  have "c = c' \<or> collision H {ar_prev_hash r @ c, ar_prev_hash r @ c'}"
    using c(2) v(1,3) by (auto simp: collision_def)
  then have "line_matches H l r"
    unfolding line_matches_def using kvs k c(1) v(2) by blast
  with Cons.IH [OF c(3) v(4)] show ?case by simp
qed simp

text \<open>A text that passes \<open>verify_export\<close> is the table's: line by line it carries the row's number, hash
  and predecessor, and the content rebuilt from the line itself is the row's, unless the digest
  function collides on those two contents.\<close>

theorem verify_export_sound:
  assumes "trail_wf db" and "verify_chain H db = Inr (True, None)"
    and "after = 0 \<or> after \<in> ar_seq ` set (trail db)"
    and "verify_export H db jsonl after = Inr True"
  shows "list_all2 (line_matches H) (if jsonl = [] then [] else splitlines jsonl) (records_after db after)"
  using assms(4) verify_after [OF assms(1-3)]
  unfolding verify_export_start [OF assms(1,3)]
  by (intro verify_pairs_sound [where p = "start_hash db after"]) (simp_all add: Let_def split: if_splits)

text \<open>When \<open>export_worm\<close> names an object, the trail and the exported slice verified, the store holds
  exactly the slice's bytes under that name with the retention asked for, no other object changed, and
  an object that stood there before was out of its retention.\<close>

theorem export_worm_stores:
  assumes "export_worm H (worm_put clock) worm_get db objs days after now pre = Inr (objs', res)"
    and "er_object_key res = Some k"
  shows "verify_chain H db = Inr (True, None) \<and> verify_export H db (export_jsonl db after) after = Inr True
    \<and> dict_get objs' k = Some (utf8 (export_jsonl db after), add_days now days)
    \<and> (\<forall>k'. k' \<noteq> k \<longrightarrow> dict_get objs' k' = dict_get objs k')
    \<and> (\<forall>d u. dict_get objs k = Some (d, u) \<longrightarrow> instant u \<le> instant clock)"
proof -
  note st = mem.export_stored [OF assms]
  then have "worm_put clock objs k (utf8 (export_jsonl db after)) (add_days now days) = Inr objs'" by blast
  then have p: "worm_guard clock objs k = Inr ()"
      "objs' = dict_set k (utf8 (export_jsonl db after), add_days now days) objs"
    by (simp_all add: worm_put_Inr)
  from p(1) have "\<forall>d u. dict_get objs k = Some (d, u) \<longrightarrow> instant u \<le> instant clock"
    by (auto simp: worm_guard_def split: if_splits)
  with st p(2) show ?thesis by simp
qed

lemma distinct_between:
  fixes xs :: "nat list"
  assumes "distinct xs" and "set xs \<subseteq> {a<..b}"
  shows "length xs \<le> b - a" and "length xs = b - a \<longleftrightarrow> set xs = {a<..b}"
proof -
  have c: "card (set xs) = length xs" using assms(1) by (rule distinct_card)
  have "card (set xs) \<le> card {a<..b}" using assms(2) by (intro card_mono) auto
  then show "length xs \<le> b - a" using c by simp
  show "length xs = b - a \<longleftrightarrow> set xs = {a<..b}"
    using c assms(2) card_subset_eq [of "{a<..b}" "set xs"] by auto
qed

text \<open>The count an export reports is the span of the numbers, not the number of rows: it never
  undercounts, and it is right exactly when no number is missing after the start.\<close>

theorem export_worm_count:
  assumes "export_worm H (worm_put clock) worm_get db objs days after now pre = Inr (objs', res)"
    and "er_object_key res = Some k" and "trail_wf db"
  shows "length (records_after db after) \<le> er_count res
    \<and> (er_count res = length (records_after db after)
        \<longleftrightarrow> {after<..er_last_seq res} \<subseteq> ar_seq ` set (trail db))"
proof -
  let ?ys = "filter (\<lambda>r. after < ar_seq r) (trail db)"
  note st = mem.export_stored [OF assms(1,2)]
  have srt: "sorted (map ar_seq (trail db))" and d: "distinct (map ar_seq (trail db))"
    using assms(3) by (simp_all add: trail_wf_def)
  have lst: "ar_seq r \<le> export_last_seq db" if "r \<in> set (trail db)" for r
  proof (cases "trail db" rule: rev_cases)
    case (snoc xs x)
    then have "export_last_seq db = ar_seq x"
      using by_seq_sorted [OF srt] by (simp add: export_last_seq_def)
    then show ?thesis using srt that snoc by (auto simp: sorted_append)
  qed (use that in simp)
  have "distinct (map ar_seq ?ys)" using d by (rule distinct_map_filter)
  moreover have "set (map ar_seq ?ys) \<subseteq> {after<..export_last_seq db}" using lst by auto
  ultimately have "length ?ys \<le> export_last_seq db - after"
      "length ?ys = export_last_seq db - after \<longleftrightarrow> ar_seq ` set ?ys = {after<..export_last_seq db}"
    using distinct_between [of "map ar_seq ?ys"] by simp_all
  moreover have "ar_seq ` set ?ys = {after<..export_last_seq db}
      \<longleftrightarrow> {after<..export_last_seq db} \<subseteq> ar_seq ` set (trail db)"
    using lst by auto
  ultimately show ?thesis
    using st by (auto simp: records_after_wf [OF assms(3)])
qed

lemma line_seq_event: "event_ok e \<Longrightarrow> line_seq (event_line e) = Inr (ke_seq e)"
  by (simp add: line_seq_def loads_event_line item_event_read [OF _ event_row_keys(6)])

text \<open>The key-lifecycle export reports what it wrote, gaps in the numbering included: for a stream
  that verifies and a name that is free, it stores exactly the text of the rows after the start, and
  first, last and count are those of these rows.\<close>

theorem key_export_complete:
  assumes "digest64 H" and "keys_wf db" and "key_verify_chain H db = (True, None)"
    and "\<forall>e\<in>set (key_events db). event_ok e"
    and "key_events_after db after = e # es"
    and "dict_get objs (worm_key pre (ke_seq e) (ke_seq (last (e # es)))) = None"
  shows "\<exists>objs'. export_key_lifecycle_worm H (worm_put clock) worm_get db objs days after now pre
      = Inr (objs', \<lparr>er_object_key = Some (worm_key pre (ke_seq e) (ke_seq (last (e # es)))),
          er_first_seq = Some (ke_seq e), er_last_seq = ke_seq (last (e # es)),
          er_count = length (e # es), er_retain_until = Some (add_days now days)\<rparr>)
    \<and> dict_get objs' (worm_key pre (ke_seq e) (ke_seq (last (e # es))))
      = Some (utf8 (concat (map (\<lambda>x. event_line x @ [CHR 0x0A]) (e # es))), add_days now days)"
proof -
  let ?k = "worm_key pre (ke_seq e) (ke_seq (last (e # es)))"
  have ok: "\<forall>x\<in>set (e # es). event_ok x"
    unfolding assms(5) [symmetric] key_events_after_def keys_wf_filter [OF assms(2)] using assms(4) by simp
  have lines: "splitlines (key_export_jsonl db after) = map event_line (e # es)"
    unfolding key_export_jsonl_def assms(5)
  proof (rule splitlines_terminated)
    fix l assume "l \<in> set (map event_line (e # es))"
    then obtain x where x: "l = event_line x" "event_ok x" using ok by (auto simp: image_iff)
    then show "\<forall>c\<in>set l. \<not> is_line_break c"
      unfolding x(1) event_line_def dumps_sorted_def
      using dumps_ascii_no_break json_ok_jsort [OF event_row_ok [OF x(2)]] by blast
  qed
  have ne: "key_export_jsonl db after \<noteq> []" by (simp add: key_export_jsonl_def assms(5))
  have "rmap line_seq (map event_line xs) = Inr (map ke_seq xs)" if "\<forall>x\<in>set xs. event_ok x" for xs
    using that by (induction xs) (auto simp: line_seq_event)
  from this [OF ok] have seqs: "rmap line_seq (splitlines (key_export_jsonl db after)) = Inr (map ke_seq (e # es))"
    unfolding lines .
  have put: "worm_put clock objs (worm_key pre (hd (map ke_seq (e # es))) (last (map ke_seq (e # es))))
      (utf8 (key_export_jsonl db after)) (add_days now days)
      = Inr (dict_set ?k (utf8 (key_export_jsonl db after), add_days now days) objs)"
    using assms(6) by (cases "es = []") (simp_all add: worm_put_Inr worm_guard_def last_map)
  note r = mem.key_export_succeeds [OF _ ne seqs verify_jsonl_export [OF assms(1-4)] put, unfolded assms(3)]
  have "key_export_jsonl db after = concat (map (\<lambda>x. event_line x @ [CHR 0x0A]) (e # es))"
    unfolding key_export_jsonl_def assms(5) by (simp add: comp_def)
  with r show ?thesis by (cases "es = []") (simp_all add: last_map)
qed


subsection \<open>Concrete instances\<close>

lemma worm_immutable_witness:
  "dict_get (foldl worm_step [(''k'', ''data'', add_days sample_time 10)]
     [(sample_time, Put ''k'' ''other'' sample_time), (sample_time, Del ''k'')]) ''k''
   = Some (''data'', add_days sample_time 10)"
  by (rule worm_immutable) (simp_all add: instant_add_days day_us_def)

definition nel_record :: audit_record where
  "nel_record = sample_record\<lparr>ar_payload := JObj [(''reason'', JStr [NEL])]\<rparr>"

definition nel_trail :: audit_db where
  "nel_trail = \<lparr>trail = [nel_record], next_seq = 2\<rparr>"

lemma sample_no_nel: "NEL \<notin> record_chars sample_record"
proof
  assume "NEL \<in> record_chars sample_record"
  moreover have "c \<in> record_chars sample_record \<Longrightarrow> printable c" for c
    by (auto simp: record_chars_def sample_record_def printable_def GENESIS_HASH_def sample_hash_def)
  ultimately have "printable NEL" by blast
  then show False by (simp add: printable_def)
qed

lemma verify_export_honest_witness:
  "verify_export sample_hash sample_trail (export_jsonl sample_trail 0) 0 = Inr True"
  by (rule verify_export_honest) (simp_all, simp add: sample_trail_def sample_no_nel)

lemma verify_export_nel_witness:
  "verify_export sample_hash nel_trail (export_jsonl nel_trail 0) 0 = Inr False"
proof -
  have "trail_wf nel_trail" by (simp add: trail_wf_def nel_trail_def nel_record_def sample_record_def)
  then show ?thesis
    by (rule verify_export_nel [where r = nel_record])
      (simp_all add: nel_trail_def nel_record_def sample_record_def records_after_def by_seq_def)
qed

lemma verify_export_sound_witness:
  "list_all2 (line_matches sample_hash)
     (if export_jsonl sample_trail 0 = [] then [] else splitlines (export_jsonl sample_trail 0))
     (records_after sample_trail 0)"
  by (rule verify_export_sound) (simp_all, rule export_verifies, simp_all, simp add: sample_trail_def sample_no_nel)

lemma sample_export:
  "\<exists>objs' res k. export_worm sample_hash (worm_put sample_time) worm_get sample_trail [] 30 0 sample_time ''audit-chain''
     = Inr (objs', res) \<and> er_object_key res = Some k"
proof -
  have "verify_export sample_hash sample_trail (export_jsonl sample_trail 0) 0 = Inr True"
    by (rule export_verifies) (simp_all, simp add: sample_trail_def sample_no_nel)
  moreover have "0 < export_last_seq sample_trail"
    by (simp add: export_last_seq_def sample_trail_def by_seq_def sample_record_def last_opt_def)
  ultimately show ?thesis
    using mem.export_succeeds [OF sample_trail_ok(2), where clock = sample_time and s = "[]"]
    by (fastforce simp: worm_put_Inr worm_guard_def)
qed

lemma export_worm_stores_witness:
  "\<exists>(objs' :: worm_objects) k. dict_get objs' k = Some (utf8 (export_jsonl sample_trail 0), add_days sample_time 30)"
proof -
  obtain objs' res k where "export_worm sample_hash (worm_put sample_time) worm_get sample_trail [] 30 0 sample_time
      ''audit-chain'' = Inr (objs', res)" "er_object_key res = Some k"
    using sample_export by blast
  then have "dict_get objs' k = Some (utf8 (export_jsonl sample_trail 0), add_days sample_time 30)"
    using export_worm_stores [of sample_hash sample_time sample_trail "[]" 30 0 sample_time "''audit-chain''" objs' res k]
    by simp
  then show ?thesis by (intro exI) assumption
qed

lemma export_worm_count_witness:
  "\<exists>objs' res. export_worm sample_hash (worm_put sample_time) worm_get sample_trail [] 30 0 sample_time ''audit-chain''
     = Inr (objs', res) \<and> length (records_after sample_trail 0) \<le> er_count res"
proof -
  obtain objs' res k where r: "export_worm sample_hash (worm_put sample_time) worm_get sample_trail [] 30 0 sample_time
      ''audit-chain'' = Inr (objs', res)" "er_object_key res = Some k"
    using sample_export by blast
  from export_worm_count [OF r sample_trail_ok(1)]
  have "length (records_after sample_trail 0) \<le> er_count res" by (rule conjunct1)
  with r(1) show ?thesis by (intro exI conjI) assumption+
qed

lemma key_export_complete_witness:
  "\<exists>objs' res. export_key_lifecycle_worm sample_hash (worm_put sample_time) worm_get sample_keys [] 30 0 sample_time ''key-lifecycle''
      = Inr (objs', res) \<and> er_count res = 1"
proof -
  have "key_events_after sample_keys 0 = sample_event # []"
    by (simp add: key_events_after_def sample_keys_def key_events_by_seq_def sample_event_def)
  from key_export_complete [OF sample_hash_digest sample_keys_ok this, of "[]" "''key-lifecycle''"]
  show ?thesis by fastforce
qed

end
