(* ===== verification/Grants.thy ===== *)
theory Grants
  imports KeyAudit
begin

text \<open>
  \<open>grants.py\<close>: what a grant authorises, the two grant stores, and issuing and revoking with their
  audit events. \<open>resolve_role\<close> is the argument of the source, a function from a role's name to its
  current types. Sets of types are finite sets of strings, computed from lists.
\<close>

definition DEFAULT_DOMAIN :: string where "DEFAULT_DOMAIN = ''_global''"
definition ACTIVE :: string where "ACTIVE = ''active''"
definition REVOKED :: string where "REVOKED = ''revoked''"

record grant =
  g_id :: string
  g_recipient :: string
  g_allowed_types :: "string list"
  g_document_id :: "string option"
  g_status :: string
  g_created_at :: datetime
  g_revoked_at :: "datetime option"
  g_expires_at :: "datetime option"
  g_actor :: string
  g_domain :: string
  g_role :: "string option"

definition is_recipient :: "string option \<Rightarrow> string \<Rightarrow> bool" where
  "is_recipient caller recipient =
     (if \<not> truthy caller \<or> recipient = [] then False else strip (the caller) = strip recipient)"

definition upper_types :: "string list \<Rightarrow> string set" where
  "upper_types ts = set (map upper ts)"

definition permitted_types :: "grant \<Rightarrow> (string \<Rightarrow> string list) option \<Rightarrow> string set" where
  "permitted_types grant resolve_role =
     (if truthy (g_role grant) then
        (case resolve_role of None \<Rightarrow> {} | Some f \<Rightarrow> upper_types (f (the (g_role grant))))
      else upper_types (g_allowed_types grant))"

text \<open>Whether an expiry lies at or before \<open>now\<close>, naive times read as UTC.\<close>

definition expired :: "datetime \<Rightarrow> datetime \<Rightarrow> bool" where
  "expired now expires = (instant (assume_utc expires) \<le> instant (assume_utc now))"

definition authorize ::
    "grant \<Rightarrow> string option \<Rightarrow> string list \<Rightarrow> datetime \<Rightarrow> string \<Rightarrow> bool \<Rightarrow> string option \<Rightarrow> bool
      \<Rightarrow> (string \<Rightarrow> string list) option \<Rightarrow> string list \<Rightarrow> string set" where
  "authorize grant document_id requested now domain allow_global caller auth_enabled resolve_role global_roles =
     (if g_status grant \<noteq> ACTIVE then {}
      else if auth_enabled \<and> \<not> is_recipient caller (g_recipient grant) then {}
      else if or_str (Some (g_domain grant)) DEFAULT_DOMAIN \<noteq> domain then {}
      else if (case g_expires_at grant of None \<Rightarrow> False | Some e \<Rightarrow> expired now e) then {}
      else if (case g_document_id grant of
                 None \<Rightarrow> \<not> (allow_global \<or> truthy (g_role grant) \<and> the (g_role grant) \<in> set global_roles)
               | Some d \<Rightarrow> document_id \<noteq> Some d) then {}
      else (let allowed = permitted_types grant resolve_role
            in set (filter (\<lambda>t. t \<in> allowed) (map upper requested))))"

subsection \<open>Stores\<close>

text \<open>The row of \<open>grants\<close>; its domain may be NULL.\<close>

record grant_row =
  gr_grant_id :: string
  gr_recipient :: string
  gr_allowed_types :: "string list"
  gr_document_id :: "string option"
  gr_status :: string
  gr_created_at :: datetime
  gr_revoked_at :: "datetime option"
  gr_expires_at :: "datetime option"
  gr_actor :: string
  gr_domain :: "string option"
  gr_role :: "string option"

definition caller_holds_role :: "grant_row list \<Rightarrow> datetime \<Rightarrow> string option \<Rightarrow> string \<Rightarrow> bool" where
  "caller_holds_role rows now caller role =
     (truthy caller \<and>
      list_ex (\<lambda>row. case gr_expires_at row of None \<Rightarrow> True
                 | Some e \<Rightarrow> \<not> (instant (assume_utc e) \<le> instant now))
        (filter (\<lambda>row. gr_recipient row = the caller \<and> gr_role row = Some role \<and> gr_status row = ACTIVE) rows))"

text \<open>What \<open>issue\<close> is called with; \<open>gid\<close> is the value of \<open>uuid4().hex\<close>.\<close>

record grant_request =
  q_recipient :: string
  q_allowed_types :: "string list"
  q_actor :: string
  q_document_id :: "string option"
  q_expires_at :: "datetime option"
  q_domain :: string
  q_role :: "string option"

definition new_grant :: "datetime \<Rightarrow> string \<Rightarrow> grant_request \<Rightarrow> grant" where
  "new_grant now gid q = \<lparr>g_id = gid, g_recipient = q_recipient q,
     g_allowed_types = map upper (q_allowed_types q), g_document_id = q_document_id q,
     g_status = ACTIVE, g_created_at = now, g_revoked_at = None, g_expires_at = q_expires_at q,
     g_actor = q_actor q, g_domain = q_domain q, g_role = q_role q\<rparr>"

definition revoked :: "datetime \<Rightarrow> grant \<Rightarrow> grant" where
  "revoked now g = (if g_status g = REVOKED then g else g\<lparr>g_status := REVOKED, g_revoked_at := Some now\<rparr>)"

type_synonym grant_dict = "(string, grant) dict"

definition mem_issue :: "datetime \<Rightarrow> string \<Rightarrow> grant_dict \<Rightarrow> grant_request \<Rightarrow> (grant_dict \<times> grant) result" where
  "mem_issue now gid d q = (let grant = new_grant now gid q in Inr (dict_set (g_id grant) grant d, grant))"

definition mem_get :: "grant_dict \<Rightarrow> string \<Rightarrow> grant option" where
  "mem_get d gid = dict_get d gid"

definition mem_revoke :: "datetime \<Rightarrow> grant_dict \<Rightarrow> string \<Rightarrow> grant_dict result" where
  "mem_revoke now d gid = (case dict_get d gid of
     None \<Rightarrow> Inl (KeyError gid)
   | Some g \<Rightarrow> if g_status g = REVOKED then Inr d
              else Inr (dict_set gid (g\<lparr>g_status := REVOKED, g_revoked_at := Some now\<rparr>) d))"

definition row_of_grant :: "grant \<Rightarrow> grant_row" where
  "row_of_grant g = \<lparr>gr_grant_id = g_id g, gr_recipient = g_recipient g,
     gr_allowed_types = g_allowed_types g, gr_document_id = g_document_id g, gr_status = g_status g,
     gr_created_at = g_created_at g, gr_revoked_at = g_revoked_at g, gr_expires_at = g_expires_at g,
     gr_actor = g_actor g, gr_domain = Some (g_domain g), gr_role = g_role g\<rparr>"

definition grant_of_row :: "grant_row \<Rightarrow> grant" where
  "grant_of_row row = \<lparr>g_id = gr_grant_id row, g_recipient = gr_recipient row,
     g_allowed_types = gr_allowed_types row, g_document_id = gr_document_id row, g_status = gr_status row,
     g_created_at = gr_created_at row, g_revoked_at = gr_revoked_at row, g_expires_at = gr_expires_at row,
     g_actor = gr_actor row, g_domain = or_str (gr_domain row) DEFAULT_DOMAIN, g_role = gr_role row\<rparr>"

definition row_by_id :: "grant_row list \<Rightarrow> string \<Rightarrow> grant_row option" where
  "row_by_id rows gid = find (\<lambda>row. gr_grant_id row = gid) rows"

definition pg_issue :: "datetime \<Rightarrow> string \<Rightarrow> grant_row list \<Rightarrow> grant_request \<Rightarrow> (grant_row list \<times> grant) result" where
  "pg_issue now gid rows q =
     (let grant = new_grant now gid q
      in if row_by_id rows (g_id grant) \<noteq> None then Inl (IntegrityError ''grants'')
         else Inr (rows @ [row_of_grant grant], grant))"

definition pg_get :: "grant_row list \<Rightarrow> string \<Rightarrow> grant option" where
  "pg_get rows gid = map_option grant_of_row (row_by_id rows gid)"

definition pg_revoke :: "datetime \<Rightarrow> grant_row list \<Rightarrow> string \<Rightarrow> grant_row list result" where
  "pg_revoke now rows gid = (case row_by_id rows gid of
     None \<Rightarrow> Inl (KeyError gid)
   | Some row \<Rightarrow> if gr_status row = REVOKED then Inr rows
       else Inr (map (\<lambda>r. if gr_grant_id r = gid then r\<lparr>gr_status := REVOKED, gr_revoked_at := Some now\<rparr> else r) rows))"

subsection \<open>Issuing and revoking on the record\<close>

definition issue_grant where
  "issue_grant H now issue st kdb q =
     rbind (issue st q) (\<lambda>(st', grant).
     rbind (grant_issued_event H now kdb (g_id grant) (g_recipient grant) (g_allowed_types grant)
              (if truthy (g_document_id grant) then g_document_id grant else None)
              (q_actor q) (Some (g_domain grant)) (g_role grant)) (\<lambda>kdb'.
     Inr (st', kdb', grant)))"

definition revoke_grant where
  "revoke_grant H now revoke st kdb gid actor =
     rbind (revoke st gid) (\<lambda>st'.
     rbind (grant_revoked_event H now kdb gid actor) (\<lambda>kdb'. Inr (st', kdb')))"

subsection \<open>The decision\<close>

lemma authorize_revoked [simp]:
  "g_status g \<noteq> ACTIVE \<Longrightarrow> authorize g doc req now dm ag caller auth resolve gr = {}"
  by (simp add: authorize_def)

lemma status_distinct [simp]: "ACTIVE \<noteq> REVOKED" "REVOKED \<noteq> ACTIVE"
  by (simp_all add: ACTIVE_def REVOKED_def)

lemma strip_idem_eq: "is_recipient (Some c) r \<Longrightarrow> c \<noteq> [] \<and> r \<noteq> [] \<and> strip c = strip r"
  by (simp add: is_recipient_def split: if_splits)

subsection \<open>The store interface\<close>

text \<open>What the reveal path relies on in a grant store, whatever it is kept in.\<close>

locale grant_store =
  fixes issue :: "datetime \<Rightarrow> string \<Rightarrow> 's \<Rightarrow> grant_request \<Rightarrow> ('s \<times> grant) result"
    and get :: "'s \<Rightarrow> string \<Rightarrow> grant option"
    and revoke :: "datetime \<Rightarrow> 's \<Rightarrow> string \<Rightarrow> 's result"
    and ok :: "'s \<Rightarrow> bool"
  assumes issue_ok: "ok st \<Longrightarrow> get st gid = None \<Longrightarrow>
      \<exists>st'. issue now gid st q = Inr (st', new_grant now gid q) \<and> ok st'"
    and get_issue: "ok st \<Longrightarrow> get st gid = None \<Longrightarrow> q_domain q \<noteq> [] \<Longrightarrow>
      issue now gid st q = Inr (st', g) \<Longrightarrow> get st' gid = Some g"
    and get_issue_other: "ok st \<Longrightarrow> get st gid = None \<Longrightarrow> issue now gid st q = Inr (st', g) \<Longrightarrow> gid' \<noteq> gid \<Longrightarrow>
      get st' gid' = get st gid'"
    and revoke_unknown: "ok st \<Longrightarrow> get st gid = None \<Longrightarrow> revoke now st gid = Inl (KeyError gid)"
    and revoke_known: "ok st \<Longrightarrow> get st gid = Some g \<Longrightarrow>
      \<exists>st'. revoke now st gid = Inr st' \<and> ok st' \<and> get st' gid = Some (revoked now g)
        \<and> (\<forall>gid'. gid' \<noteq> gid \<longrightarrow> get st' gid' = get st gid')"
begin

text \<open>A store's later life: grants issued under new identifiers, and revocations.\<close>

inductive later :: "'s \<Rightarrow> 's \<Rightarrow> bool" where
  later_refl: "later st st"
| later_issue: "later st st1 \<Longrightarrow> get st1 gid = None \<Longrightarrow> issue now gid st1 q = Inr (st2, g) \<Longrightarrow> later st st2"
| later_revoke: "later st st1 \<Longrightarrow> revoke now st1 gid = Inr st2 \<Longrightarrow> later st st2"

lemma revoke_Inr:
  assumes "ok st" and "revoke now st gid = Inr st'"
  shows "\<exists>g. get st gid = Some g \<and> get st' gid = Some (revoked now g) \<and> ok st'
    \<and> (\<forall>gid'. gid' \<noteq> gid \<longrightarrow> get st' gid' = get st gid')"
proof (cases "get st gid")
  case None
  from revoke_unknown [OF assms(1) this, of now] assms(2) show ?thesis by simp
next
  case (Some g)
  from revoke_known [OF assms(1) this, of now] assms(2) Some show ?thesis by auto
qed

lemma stays_revoked:
  assumes "later st st'" and "ok st" and "get st gid = Some g" and "g_status g = REVOKED"
  shows "ok st' \<and> get st' gid = Some g"
  using assms
proof (induction rule: later.induct)
  case (later_issue st st1 gid' now q st2 g')
  then have "ok st1" "get st1 gid = Some g" by auto
  with later_issue.hyps show ?case
    using issue_ok [OF \<open>ok st1\<close> later_issue.hyps(2), of now q] get_issue_other [OF \<open>ok st1\<close> later_issue.hyps(2,3)]
    by (cases "gid = gid'") auto
next
  case (later_revoke st st1 now gid' st2)
  then have "ok st1" "get st1 gid = Some g" by auto
  then show ?case using revoke_Inr [OF _ later_revoke.hyps(2)] later_revoke.prems(3)
    by (cases "gid = gid'") (auto simp: revoked_def)
qed simp

lemma revoke_final:
  assumes "ok st" and "revoke now st gid = Inr st1" and "later st1 st2"
  shows "\<exists>g. get st2 gid = Some g \<and> authorize g doc req t dm ag caller auth resolve gr = {}"
proof -
  obtain g where g: "get st1 gid = Some (revoked now g)" "ok st1"
    using revoke_Inr [OF assms(1,2)] by blast
  have "g_status (revoked now g) = REVOKED" by (simp add: revoked_def)
  with stays_revoked [OF assms(3) g(2,1)] show ?thesis by simp
qed

end


interpretation gm: grant_store mem_issue mem_get mem_revoke "\<lambda>_. True"
  by unfold_locales
    (auto simp: mem_issue_def mem_get_def mem_revoke_def Let_def new_grant_def revoked_def split: option.splits)

definition rows_ok :: "grant_row list \<Rightarrow> bool" where
  "rows_ok rows = distinct (map gr_grant_id rows)"

lemma row_by_id_append:
  "row_by_id (rows @ [r]) gid = (case row_by_id rows gid of Some x \<Rightarrow> Some x
     | None \<Rightarrow> if gr_grant_id r = gid then Some r else None)"
  by (induction rows) (auto simp: row_by_id_def)

lemma row_by_id_None: "row_by_id rows gid = None \<longleftrightarrow> gid \<notin> gr_grant_id ` set rows"
  by (auto simp: row_by_id_def find_None_iff)

lemma row_by_id_map:
  assumes "\<And>r. gr_grant_id (f r) = gr_grant_id r"
  shows "row_by_id (map f rows) gid = map_option f (row_by_id rows gid)"
  using assms by (induction rows) (auto simp: row_by_id_def)

lemma grant_of_row_of_grant: "g_domain g \<noteq> [] \<Longrightarrow> grant_of_row (row_of_grant g) = g"
  by (simp add: grant_of_row_def row_of_grant_def or_str_def)

lemma row_by_id_gid: "row_by_id rows gid = Some r \<Longrightarrow> gr_grant_id r = gid"
  by (auto simp: row_by_id_def find_Some_iff)

lemma pg_revoke_row:
  assumes "row_by_id rows gid = Some row"
  shows "\<exists>rows'. pg_revoke now rows gid = Inr rows' \<and> map gr_grant_id rows' = map gr_grant_id rows
    \<and> pg_get rows' gid = Some (revoked now (grant_of_row row))
    \<and> (\<forall>gid'. gid' \<noteq> gid \<longrightarrow> pg_get rows' gid' = pg_get rows gid')"
proof (cases "gr_status row = REVOKED")
  case True
  then show ?thesis using assms
    by (simp add: pg_revoke_def pg_get_def revoked_def grant_of_row_def)
next
  case False
  let ?f = "\<lambda>r. if gr_grant_id r = gid then r\<lparr>gr_status := REVOKED, gr_revoked_at := Some now\<rparr> else r"
  have f: "gr_grant_id (?f r) = gr_grant_id r" for r by simp
  have id: "gr_grant_id row = gid" using assms by (rule row_by_id_gid)
  have "pg_get (map ?f rows) gid' = pg_get rows gid'" if "gid' \<noteq> gid" for gid'
  proof (cases "row_by_id rows gid'")
    case (Some r)
    then have "gr_grant_id r = gid'" by (rule row_by_id_gid)
    with Some that show ?thesis by (simp add: pg_get_def row_by_id_map [of ?f, OF f])
  qed (simp add: pg_get_def row_by_id_map [of ?f, OF f])
  moreover have "pg_get (map ?f rows) gid = Some (revoked now (grant_of_row row))"
    using assms id False by (simp add: pg_get_def row_by_id_map [of ?f, OF f] revoked_def grant_of_row_def)
  moreover have "map gr_grant_id (map ?f rows) = map gr_grant_id rows" by simp
  moreover have "pg_revoke now rows gid = Inr (map ?f rows)"
    using assms False by (simp add: pg_revoke_def)
  ultimately show ?thesis by blast
qed

interpretation gp: grant_store pg_issue pg_get pg_revoke rows_ok
proof
  fix st :: "grant_row list" and gid now q
  assume ok: "rows_ok st" and none: "pg_get st gid = None"
  show "\<exists>st'. pg_issue now gid st q = Inr (st', new_grant now gid q) \<and> rows_ok st'"
    using ok none by (auto simp: pg_issue_def pg_get_def Let_def new_grant_def rows_ok_def row_of_grant_def
        row_by_id_None)
next
  fix st :: "grant_row list" and gid now q st' g
  assume a: "pg_get st gid = None" "q_domain q \<noteq> []" "pg_issue now gid st q = Inr (st', g)"
  then have st': "st' = st @ [row_of_grant g]" "g = new_grant now gid q"
    by (auto simp: pg_issue_def Let_def split: if_splits)
  have "g_domain g \<noteq> []" "g_id g = gid" using a(2) st'(2) by (simp_all add: new_grant_def)
  then show "pg_get st' gid = Some g"
    using a(1) grant_of_row_of_grant [of g]
    by (simp add: st'(1) pg_get_def row_by_id_append) (simp add: row_of_grant_def)
next
  fix st :: "grant_row list" and gid now q st' g gid'
  assume a: "pg_get st gid = None" "pg_issue now gid st q = Inr (st', g)" "gid' \<noteq> gid"
  then have st': "st' = st @ [row_of_grant g]" "g_id g = gid"
    by (auto simp: pg_issue_def Let_def new_grant_def split: if_splits)
  then have "gr_grant_id (row_of_grant g) \<noteq> gid'" using a(3) by (simp add: row_of_grant_def)
  then show "pg_get st' gid' = pg_get st gid'"
    by (simp add: st'(1) pg_get_def row_by_id_append split: option.split)
next
  fix st :: "grant_row list" and gid now
  assume "pg_get st gid = None"
  then show "pg_revoke now st gid = Inl (KeyError gid)" by (simp add: pg_get_def pg_revoke_def)
next
  fix st :: "grant_row list" and gid now g
  assume ok: "rows_ok st" and some: "pg_get st gid = Some g"
  then obtain row where row: "row_by_id st gid = Some row" "g = grant_of_row row"
    by (auto simp: pg_get_def)
  from pg_revoke_row [OF row(1), of now] ok row(2)
  show "\<exists>st'. pg_revoke now st gid = Inr st' \<and> rows_ok st' \<and> pg_get st' gid = Some (revoked now g)
        \<and> (\<forall>gid'. gid' \<noteq> gid \<longrightarrow> pg_get st' gid' = pg_get st gid')"
    unfolding rows_ok_def by auto
qed

text \<open>A revocation is final. Once a grant of the table has been revoked, no later sequence of new grants
  and revocations makes it authorise anything, for any document, types, time, caller or configuration.\<close>

theorem revoke_is_final:
  assumes "rows_ok rows" and "pg_revoke now rows gid = Inr rows1" and "gp.later rows1 rows2"
  shows "\<exists>g. pg_get rows2 gid = Some g \<and> authorize g doc req t dm ag caller auth resolve gr = {}"
  using assms by (rule gp.revoke_final)

definition issued_payload :: "grant \<Rightarrow> (string \<times> json) list" where
  "issued_payload g = [(''grant_id'', JStr (g_id g)), (''recipient'', JStr (g_recipient g)),
     (''allowed_types'', strs (g_allowed_types g)),
     (''document_id'', opt_str (if truthy (g_document_id g) then g_document_id g else None)),
     (''domain'', JStr (g_domain g)), (''role'', opt_str (g_role g))]"

text \<open>A grant and its record come together. Issuing under a new identifier stores exactly the grant
  asked for, its types in upper case, and appends exactly one event to the key-lifecycle stream, which
  still verifies; the only failure is the stream's, and then nothing is returned.\<close>

theorem issue_grant_recorded:
  assumes "digest64 H" and "keys_wf kdb" and "key_verify_chain H kdb = (True, None)"
    and "rows_ok rows" and "pg_get rows gid = None" and "q_domain q \<noteq> []"
  shows "case issue_grant H now (pg_issue now gid) rows kdb q of
      Inr (rows', kdb', g) \<Rightarrow> g = new_grant now gid q \<and> pg_get rows' gid = Some g \<and> rows_ok rows'
        \<and> (\<forall>gid'. gid' \<noteq> gid \<longrightarrow> pg_get rows' gid' = pg_get rows gid')
        \<and> recorded H kdb kdb' GRANT_ISSUED_ACTION (q_actor q) (issued_payload g)
    | Inl e \<Rightarrow> stream_broken H kdb"
proof -
  let ?g = "new_grant now gid q"
  obtain rows' where i: "pg_issue now gid rows q = Inr (rows', ?g)" "rows_ok rows'"
    using gp.issue_ok [OF assms(4,5)] by blast
  note get = gp.get_issue [OF assms(4-6) i(1)] gp.get_issue_other [OF assms(4,5) i(1)]
  have e: "grant_issued_event H now kdb (g_id ?g) (g_recipient ?g) (g_allowed_types ?g)
      (if truthy (g_document_id ?g) then g_document_id ?g else None) (q_actor q) (Some (g_domain ?g)) (g_role ?g)
      = post_event H now kdb GRANT_ISSUED_ACTION (q_actor q) (issued_payload ?g)"
    by (simp add: grant_issued_event_def issued_payload_def opt_str_def)
  have ok: "json_ok (JObj (issued_payload ?g))" by (simp add: issued_payload_def)
  show ?thesis
  proof (cases rule: post_event_cases [OF assms(1-3) ok, of now GRANT_ISSUED_ACTION "q_actor q"])
    case (1 kdb')
    then show ?thesis using i get by (auto simp: issue_grant_def e simp del: truthy_simps)
  next
    case (2 c)
    then show ?thesis using i by (auto simp: issue_grant_def e simp del: truthy_simps)
  qed
qed

lemma revoke_grant_recorded:
  assumes "digest64 H" and "keys_wf kdb" and "key_verify_chain H kdb = (True, None)"
    and "rows_ok rows" and "pg_get rows gid = Some g"
  shows "case revoke_grant H now (pg_revoke now) rows kdb gid actor of
      Inr (rows', kdb') \<Rightarrow> pg_get rows' gid = Some (revoked now g) \<and> rows_ok rows'
        \<and> recorded H kdb kdb' GRANT_REVOKED_ACTION actor [(''grant_id'', JStr gid)]
    | Inl e \<Rightarrow> stream_broken H kdb"
proof -
  obtain rows' where r: "pg_revoke now rows gid = Inr rows'" "rows_ok rows'" "pg_get rows' gid = Some (revoked now g)"
    using gp.revoke_known [OF assms(4,5)] by blast
  have ok: "json_ok (JObj [(''grant_id'', JStr gid)])" by simp
  show ?thesis
    using r post_event_cases [OF assms(1-3) ok, of now GRANT_REVOKED_ACTION actor]
    by (cases "post_event H now kdb GRANT_REVOKED_ACTION actor [(''grant_id'', JStr gid)]")
      (auto simp: revoke_grant_def grant_revoked_event_def)
qed

lemma caller_holds_role_iff:
  "caller_holds_role rows now caller role \<longleftrightarrow> truthy caller \<and>
     (\<exists>row\<in>set rows. Some (gr_recipient row) = caller \<and> gr_role row = Some role \<and> gr_status row = ACTIVE
        \<and> (\<forall>e. gr_expires_at row = Some e \<longrightarrow> instant now < instant (assume_utc e)))"
  by (cases caller) (auto simp: caller_holds_role_def list_ex_iff not_le split: option.splits)

subsection \<open>Concrete instances\<close>

definition sample_grant :: grant where
  "sample_grant = \<lparr>g_id = ''g1'', g_recipient = ''alice'', g_allowed_types = [''PERSON''], g_document_id = Some ''d1'',
     g_status = ACTIVE, g_created_at = sample_time, g_revoked_at = None, g_expires_at = None, g_actor = ''admin'',
     g_domain = DEFAULT_DOMAIN, g_role = None\<rparr>"

definition sample_request :: grant_request where
  "sample_request = \<lparr>q_recipient = ''alice'', q_allowed_types = [''person''], q_actor = ''admin'',
     q_document_id = Some ''d1'', q_expires_at = None, q_domain = DEFAULT_DOMAIN, q_role = None\<rparr>"

lemma upper_person: "upper ''person'' = ''PERSON''" "upper ''PERSON'' = ''PERSON''"
  by code_simp+

lemma revoke_is_final_witness:
  "\<exists>g. pg_get [row_of_grant sample_grant\<lparr>gr_status := REVOKED, gr_revoked_at := Some sample_time\<rparr>] ''g1'' = Some g
     \<and> authorize g (Some ''d1'') [''PERSON''] sample_time DEFAULT_DOMAIN False (Some ''alice'') True None [] = {}"
proof (rule revoke_is_final [of "[row_of_grant sample_grant]" sample_time "''g1''"])
  show "rows_ok [row_of_grant sample_grant]" by (simp add: rows_ok_def)
  show "pg_revoke sample_time [row_of_grant sample_grant] ''g1'' =
      Inr [row_of_grant sample_grant\<lparr>gr_status := REVOKED, gr_revoked_at := Some sample_time\<rparr>]"
    by (simp add: pg_revoke_def row_by_id_def row_of_grant_def sample_grant_def)
qed (rule gp.later_refl)

lemma issue_grant_recorded_witness:
  "case issue_grant sample_hash sample_time (pg_issue sample_time ''g1'') [] sample_keys sample_request of
      Inr (rows', kdb', g) \<Rightarrow> g = new_grant sample_time ''g1'' sample_request \<and> pg_get rows' ''g1'' = Some g \<and> rows_ok rows'
        \<and> (\<forall>gid'. gid' \<noteq> ''g1'' \<longrightarrow> pg_get rows' gid' = pg_get [] gid')
        \<and> recorded sample_hash sample_keys kdb' GRANT_ISSUED_ACTION (q_actor sample_request) (issued_payload g)
    | Inl e \<Rightarrow> stream_broken sample_hash sample_keys"
  by (rule issue_grant_recorded) (simp_all add: rows_ok_def pg_get_def row_by_id_def sample_request_def DEFAULT_DOMAIN_def)

end
