(* ===== verification/Auth.thy ===== *)
theory Auth
  imports Grants
begin

text \<open>
  \<open>auth.py\<close>: API keys, who may issue grants, delete and read full text, and the middleware in front of
  every request. A request is what the middleware reads of it; header names are in lower case, as
  starlette looks them up. The identity provider is the argument \<open>identity\<close> (\<open>access_identity.py\<close>),
  and the answer of the wrapped application is the constructor \<open>Pass\<close> with the caller it is given.
\<close>

definition partition_on :: "char \<Rightarrow> string \<Rightarrow> string \<times> string" where
  "partition_on c s = (takeWhile (\<lambda>x. x \<noteq> c) s, drop 1 (dropWhile (\<lambda>x. x \<noteq> c) s))"

definition add_entry :: "(string, string) dict \<Rightarrow> string \<Rightarrow> (string, string) dict" where
  "add_entry keys entry =
     (let entry = strip entry
      in if entry = [] \<or> CHR '':'' \<notin> set entry then keys
         else (let label = strip (fst (partition_on (CHR '':'') entry));
                   key = strip (snd (partition_on (CHR '':'') entry))
               in if label \<noteq> [] \<and> key \<noteq> [] then dict_set key label keys else keys))"

definition parse_api_keys :: "string \<Rightarrow> (string, string) dict" where
  "parse_api_keys raw = foldl add_entry [] (split_on (CHR '','') raw)"

definition authorize_grant_issue :: "string option \<Rightarrow> string list \<Rightarrow> bool \<Rightarrow> bool" where
  "authorize_grant_issue caller issuer_labels auth_enabled =
     (if \<not> auth_enabled then True else truthy caller \<and> the caller \<in> set issuer_labels)"

definition authorize_delete :: "string option \<Rightarrow> string list \<Rightarrow> bool \<Rightarrow> bool \<Rightarrow> bool" where
  "authorize_delete caller issuer_labels auth_enabled is_beheerder =
     (if \<not> auth_enabled then True
      else if truthy caller \<and> the caller \<in> set issuer_labels then True
      else truthy caller \<and> is_beheerder)"

definition authorize_corpus_read :: "string option \<Rightarrow> string list \<Rightarrow> bool" where
  "authorize_corpus_read caller allowed_labels =
     (if allowed_labels = [] then True
      else (case caller of None \<Rightarrow> False | Some c \<Rightarrow> c \<in> set allowed_labels))"

definition wants_html :: "string \<Rightarrow> bool" where
  "wants_html accept = contains_sub ''text/html'' (lower accept)"

definition CONSOLE_COOKIE :: string where "CONSOLE_COOKIE = ''ww_console''"

record request =
  rq_type :: string
  rq_path :: string
  rq_headers :: "(string, string) dict"
  rq_cookies :: "(string, string) dict"

definition header :: "request \<Rightarrow> string \<Rightarrow> string" where
  "header rq name = (case dict_get (rq_headers rq) name of None \<Rightarrow> [] | Some v \<Rightarrow> v)"

record auth_config =
  ac_keys :: "(string, string) dict"
  ac_exempt :: "string list"
  ac_login_path :: "string option"
  ac_exempt_prefixes :: "string list"

datatype response = Pass "string option" | Redirect string nat | Unauthorized nat

text \<open>\<open>ApiKeyAuthMiddleware.__call__\<close>; an exception of the identity provider propagates.\<close>

definition auth_middleware ::
    "auth_config \<Rightarrow> (request \<Rightarrow> string option result) option \<Rightarrow> request \<Rightarrow> response result" where
  "auth_middleware cfg identity rq =
     (if rq_type rq \<noteq> ''http'' \<or> rq_path rq \<in> set (ac_exempt cfg)
         \<or> list_ex (\<lambda>p. starts_with p (rq_path rq)) (ac_exempt_prefixes cfg)
      then Inr (Pass None)
      else
        (let key = (if header rq ''x-api-key'' \<noteq> [] then header rq ''x-api-key''
                    else (case dict_get (rq_cookies rq) CONSOLE_COOKIE of None \<Rightarrow> [] | Some v \<Rightarrow> v));
             label = dict_get (ac_keys cfg) key
         in rbind (if label = None then (case identity of None \<Rightarrow> Inr None | Some f \<Rightarrow> f rq) else Inr label) (\<lambda>label.
            case label of
              None \<Rightarrow> if truthy (ac_login_path cfg) \<and> wants_html (header rq ''accept'')
                then Inr (Redirect (the (ac_login_path cfg)) 303) else Inr (Unauthorized 401)
            | Some l \<Rightarrow> Inr (Pass (Some l)))))"

subsection \<open>Keys\<close>

definition keys_ok :: "(string, string) dict \<Rightarrow> bool" where
  "keys_ok keys = (\<forall>k l. dict_get keys k = Some l \<longrightarrow> k \<noteq> [] \<and> l \<noteq> [])"

lemma add_entry_ok: "keys_ok keys \<Longrightarrow> keys_ok (add_entry keys e)"
  by (simp add: add_entry_def Let_def keys_ok_def)

text \<open>No malformed entry becomes a key: the empty string is never a valid key, no label is empty.\<close>

lemma parse_keys_ok: "keys_ok (parse_api_keys raw)"
proof -
  have "keys_ok keys \<Longrightarrow> keys_ok (foldl add_entry keys es)" for keys es
    by (induction es arbitrary: keys) (simp_all add: add_entry_ok)
  moreover have "keys_ok []" by (simp add: keys_ok_def)
  ultimately show ?thesis unfolding parse_api_keys_def by blast
qed

text \<open>C19: The door. A request to a path that is not exempt reaches the application only with the label of a
  configured key, sent in the header or else in the cookie, or else with the identity the provider
  vouches for; otherwise it is answered by the login page or by 401, and never passed on.\<close>

theorem middleware_gate:
  assumes "auth_middleware cfg identity rq = Inr resp"
    and "rq_type rq = ''http''" and "rq_path rq \<notin> set (ac_exempt cfg)"
    and "\<forall>p\<in>set (ac_exempt_prefixes cfg). \<not> starts_with p (rq_path rq)"
    and "ac_keys cfg = parse_api_keys raw"
  shows "(\<exists>l. resp = Pass (Some l) \<and>
      ((\<exists>k. k \<noteq> [] \<and> dict_get (parse_api_keys raw) k = Some l \<and>
          (header rq ''x-api-key'' = k
            \<or> header rq ''x-api-key'' = [] \<and> dict_get (rq_cookies rq) CONSOLE_COOKIE = Some k))
       \<or> (\<exists>f. identity = Some f \<and> f rq = Inr (Some l))))
    \<or> (\<exists>p. resp = Redirect p 303 \<and> ac_login_path cfg = Some p \<and> wants_html (header rq ''accept''))
    \<or> resp = Unauthorized 401"
proof -
  let ?h = "header rq ''x-api-key''"
  let ?key = "if ?h \<noteq> [] then ?h
     else (case dict_get (rq_cookies rq) CONSOLE_COOKIE of None \<Rightarrow> [] | Some v \<Rightarrow> v)"
  have gate: "\<not> list_ex (\<lambda>p. starts_with p (rq_path rq)) (ac_exempt_prefixes cfg)"
    using assms(4) by (auto simp: list_ex_iff)
  show ?thesis
  proof (cases "dict_get (parse_api_keys raw) ?key")
    case (Some l)
    then have k: "?key \<noteq> []" using parse_keys_ok [of raw] by (auto simp: keys_ok_def)
    have "resp = Pass (Some l)"
      using assms(1-3,5) gate Some by (simp add: auth_middleware_def Let_def)
    moreover have "?h = ?key \<or> ?h = [] \<and> dict_get (rq_cookies rq) CONSOLE_COOKIE = Some ?key"
      using k by (auto split: option.splits)
    ultimately show ?thesis using k Some by blast
  next
    case None
    then have "rbind (case identity of None \<Rightarrow> Inr None | Some f \<Rightarrow> f rq) (\<lambda>label.
            case label of
              None \<Rightarrow> if truthy (ac_login_path cfg) \<and> wants_html (header rq ''accept'')
                then Inr (Redirect (the (ac_login_path cfg)) 303) else Inr (Unauthorized 401)
            | Some l \<Rightarrow> Inr (Pass (Some l))) = Inr resp"
      using assms(1-3,5) gate by (simp add: auth_middleware_def Let_def)
    then show ?thesis
      by (auto simp: result_simps truthy_def split: option.splits if_splits)
  qed
qed

subsection \<open>Concrete instances\<close>

definition sample_raw :: string where
  "sample_raw = ''bob:k1''"

definition sample_auth :: auth_config where
  "sample_auth = \<lparr>ac_keys = parse_api_keys sample_raw, ac_exempt = [''/healthz''], ac_login_path = None, ac_exempt_prefixes = []\<rparr>"

definition sample_http :: request where
  "sample_http = \<lparr>rq_type = ''http'', rq_path = ''/ask'', rq_headers = [(''x-api-key'', ''k1'')], rq_cookies = []\<rparr>"

lemma sample_pass: "auth_middleware sample_auth None sample_http = Inr (Pass (Some ''bob''))"
  by code_simp

lemma middleware_gate_witness:
  "(\<exists>l. Pass (Some ''bob'') = Pass (Some l) \<and>
      ((\<exists>k. k \<noteq> [] \<and> dict_get (parse_api_keys sample_raw) k = Some l \<and>
          (header sample_http ''x-api-key'' = k
            \<or> header sample_http ''x-api-key'' = [] \<and> dict_get (rq_cookies sample_http) CONSOLE_COOKIE = Some k))
       \<or> (\<exists>f. (None :: (request \<Rightarrow> string option result) option) = Some f \<and> f sample_http = Inr (Some l))))
    \<or> (\<exists>p. Pass (Some ''bob'') = Redirect p 303 \<and> ac_login_path sample_auth = Some p \<and> wants_html (header sample_http ''accept''))
    \<or> Pass (Some ''bob'') = Unauthorized 401"
  by (rule middleware_gate [OF sample_pass]) (simp_all add: sample_http_def sample_auth_def)

end
