(* ===== verification/AccessIdentity.thy ===== *)
theory AccessIdentity
  imports Auth Complex_Main
begin

text \<open>
  \<open>access_identity.py\<close> and \<open>access_preflight.py\<close>: reading and checking the signed assertion of an identity
  provider, the refreshed key set, and the report of grants that would go quiet. The RSA signature check
  and the construction of a public key are the cryptography library's: they are the arguments \<open>verify\<close>
  and \<open>mk_key\<close>; \<open>fetch\<close> is the HTTP call, an argument of the source too. \<open>base64\<close> decoding is CPython's
  lenient one. Times are seconds as rationals, with the infinities and the not-a-number of \<open>float\<close>.
\<close>

definition JWT_HEADER :: string where "JWT_HEADER = ''cf-access-jwt-assertion''"
definition BEARER_HEADER :: string where "BEARER_HEADER = ''authorization''"
definition BEARER_PREFIX :: string where "BEARER_PREFIX = ''Bearer ''"

subsection \<open>base64\<close>

definition b64_val :: "char \<Rightarrow> nat option" where
  "b64_val c = (let n = cp c in
     if is_upper_az c then Some (n - 65) else if is_lower_az c then Some (n - 71)
     else if is_decimal c then Some (n + 4)
     else if c = CHR ''+'' \<or> c = CHR ''-'' then Some 62 else if c = CHR ''/'' \<or> c = CHR ''_'' then Some 63 else None)"

text \<open>\<open>binascii.a2b_base64\<close>: position in the group of four, bits left over, padding seen.\<close>

fun a2b :: "nat \<Rightarrow> nat \<Rightarrow> nat \<Rightarrow> string \<Rightarrow> string option" where
  "a2b q l p [] = (if q = 0 then Some [] else None)"
| "a2b q l p (c # cs) =
     (if c = CHR ''='' then
        (if 2 \<le> q \<and> 4 \<le> q + p + 1 then Some [] else a2b q l (if 2 \<le> q then p + 1 else p) cs)
      else case b64_val c of
          None \<Rightarrow> a2b q l p cs
        | Some v \<Rightarrow>
            if q = 0 then a2b 1 v 0 cs
            else if q = 1 then map_option (Cons (char_of (4 * l + v div 16))) (a2b 2 (v mod 16) 0 cs)
            else if q = 2 then map_option (Cons (char_of (16 * l + v div 4))) (a2b 3 (v mod 4) 0 cs)
            else map_option (Cons (char_of (64 * l + v))) (a2b 0 0 0 cs))"

definition b64 :: "string \<Rightarrow> string result" where
  "b64 s =
     (let t = s @ replicate ((4 - length s mod 4) mod 4) (CHR ''='')
      in if list_ex (\<lambda>c. 128 \<le> cp c) t then Inl ValueError
         else (case a2b 0 0 0 t of None \<Rightarrow> Inl ValueError | Some d \<Rightarrow> Inr d))"

text \<open>\<open>json.loads\<close> of bytes\<close>

definition loads_bytes :: "string \<Rightarrow> json result" where
  "loads_bytes d = rbind (utf8_decode d) (\<lambda>s. case loads s of None \<Rightarrow> Inl ValueError | Some v \<Rightarrow> Inr v)"

subsection \<open>\<open>float\<close>\<close>

datatype fl = Fin rat | PInf | NInf | NaN

fun underscores_ok :: "string \<Rightarrow> bool" where
  "underscores_ok (a # CHR ''_'' # b # r) = (is_decimal a \<and> is_decimal b \<and> underscores_ok (b # r))"
| "underscores_ok (a # r) = (a \<noteq> CHR ''_'' \<and> underscores_ok r)"
| "underscores_ok [] = True"

definition pow10 :: "int \<Rightarrow> rat" where
  "pow10 n = (if 0 \<le> n then 10 ^ nat n else 1 / 10 ^ nat (- n))"

definition fl_exponent :: "string \<Rightarrow> int option" where
  "fl_exponent s = (case s of
     [] \<Rightarrow> Some 0
   | e # r \<Rightarrow>
       if e = CHR ''e'' \<or> e = CHR ''E'' then
         (let neg = (case r of c # _ \<Rightarrow> c = CHR ''-'' | [] \<Rightarrow> False);
              d = (case r of c # cs \<Rightarrow> if c = CHR ''-'' \<or> c = CHR ''+'' then cs else r | [] \<Rightarrow> [])
          in if d \<noteq> [] \<and> list_all is_decimal d
             then Some (if neg then - int (nat_of_digits d) else int (nat_of_digits d)) else None)
       else None)"

definition fl_unsigned :: "string \<Rightarrow> fl option" where
  "fl_unsigned s =
     (if casefold s \<in> {''inf'', ''infinity''} then Some PInf
      else if casefold s = ''nan'' then Some NaN
      else if \<not> underscores_ok s then None
      else
        (let t = filter (\<lambda>c. c \<noteq> CHR ''_'') s;
             ip = takeWhile is_decimal t; r = dropWhile is_decimal t;
             fp = (case r of c # cs \<Rightarrow> if c = CHR ''.'' then takeWhile is_decimal cs else [] | [] \<Rightarrow> []);
             r = (case r of c # cs \<Rightarrow> if c = CHR ''.'' then dropWhile is_decimal cs else r | [] \<Rightarrow> [])
         in if ip = [] \<and> fp = [] then None
            else map_option (\<lambda>e. Fin (rat_of_nat (nat_of_digits (ip @ fp)) * pow10 (e - int (length fp)))) (fl_exponent r)))"

definition fl_neg :: "fl \<Rightarrow> fl" where
  "fl_neg f = (case f of Fin r \<Rightarrow> Fin (- r) | PInf \<Rightarrow> NInf | NInf \<Rightarrow> PInf | NaN \<Rightarrow> NaN)"

definition fl_text :: "string \<Rightarrow> fl option" where
  "fl_text s = (case strip s of
     [] \<Rightarrow> None
   | c # cs \<Rightarrow> if c = CHR ''-'' then map_option fl_neg (fl_unsigned cs)
       else if c = CHR ''+'' then fl_unsigned cs else fl_unsigned (c # cs))"

definition py_float :: "json \<Rightarrow> fl result" where
  "py_float v = (case v of
     JInt n \<Rightarrow> Inr (Fin (of_int n))
   | JBool b \<Rightarrow> Inr (Fin (if b then 1 else 0))
   | JFloat s \<Rightarrow> (case fl_text s of None \<Rightarrow> Inl ValueError | Some f \<Rightarrow> Inr f)
   | JStr s \<Rightarrow> (case fl_text s of None \<Rightarrow> Inl ValueError | Some f \<Rightarrow> Inr f)
   | _ \<Rightarrow> Inl TypeError)"

definition fl_le :: "fl \<Rightarrow> rat \<Rightarrow> bool" where
  "fl_le f r = (case f of Fin x \<Rightarrow> x \<le> r | PInf \<Rightarrow> False | NInf \<Rightarrow> True | NaN \<Rightarrow> False)"

subsection \<open>The verifier and its keys\<close>

record verifier =
  vf_issuer :: string
  vf_audience :: string
  vf_jwks_url :: string

definition cloudflare :: "string \<Rightarrow> string \<Rightarrow> verifier" where
  "cloudflare team_domain audience = \<lparr>vf_issuer = ''https://'' @ team_domain, vf_audience = audience,
     vf_jwks_url = ''https://'' @ team_domain @ ''/cdn-cgi/access/certs''\<rparr>"

definition oidc :: "string \<Rightarrow> string \<Rightarrow> string \<Rightarrow> verifier" where
  "oidc issuer audience jwks_url = \<lparr>vf_issuer = issuer, vf_audience = audience, vf_jwks_url = jwks_url\<rparr>"

text \<open>\<open>v.get(k, d)\<close>: only a dictionary has the method.\<close>

definition get_or :: "json \<Rightarrow> string \<Rightarrow> json \<Rightarrow> json result" where
  "get_or v k d = (case v of
     JObj kvs \<Rightarrow> Inr (case dict_get kvs k of None \<Rightarrow> d | Some x \<Rightarrow> x) | _ \<Rightarrow> Inl AttributeError)"

definition py_truth :: "json \<Rightarrow> bool" where
  "py_truth v = (case v of JNull \<Rightarrow> False | JBool b \<Rightarrow> b | JInt n \<Rightarrow> n \<noteq> 0
     | JFloat s \<Rightarrow> fl_text s \<noteq> Some (Fin 0) | JStr s \<Rightarrow> s \<noteq> [] | JArr vs \<Rightarrow> vs \<noteq> [] | JObj kvs \<Rightarrow> kvs \<noteq> [])"

text \<open>\<open>discover_jwks_url\<close>: the cache and what is returned; \<open>fetch\<close> may raise.\<close>

definition discover_jwks_url ::
    "(string \<Rightarrow> json result) \<Rightarrow> (string, json) dict \<Rightarrow> string \<Rightarrow> ((string, json) dict \<times> json) result" where
  "discover_jwks_url fetch cache issuer =
     (case dict_get cache issuer of
        Some u \<Rightarrow> Inr (cache, u)
      | None \<Rightarrow>
          (case fetch (rstrip_char (CHR ''/'') issuer @ ''/.well-known/openid-configuration'') of
             Inl _ \<Rightarrow> Inl (AccessError ''discovery'')
           | Inr doc \<Rightarrow>
               (case jget ''jwks_uri'' doc of
                  None \<Rightarrow> Inl (AccessError ''discovery'')
                | Some u \<Rightarrow> if py_truth u then Inr (dict_set issuer u cache, u) else Inl (AccessError ''discovery''))))"

definition resolved_jwks_url ::
    "(string \<Rightarrow> json result) \<Rightarrow> (string, json) dict \<Rightarrow> verifier \<Rightarrow> ((string, json) dict \<times> json) result" where
  "resolved_jwks_url fetch cache v =
     (if vf_jwks_url v \<noteq> [] then Inr (cache, JStr (vf_jwks_url v)) else discover_jwks_url fetch cache (vf_issuer v))"

definition int_of_bytes :: "string \<Rightarrow> nat" where
  "int_of_bytes s = foldl (\<lambda>n c. 256 * n + cp c) 0 s"

definition b64_json :: "json \<Rightarrow> string result" where
  "b64_json v = (case v of JStr s \<Rightarrow> b64 s | _ \<Rightarrow> Inl TypeError)"

definition hashable :: "json \<Rightarrow> bool" where
  "hashable v = (case v of JArr _ \<Rightarrow> False | JObj _ \<Rightarrow> False | _ \<Rightarrow> True)"

fun jwks_keys :: "(nat \<Rightarrow> nat \<Rightarrow> 'k result) \<Rightarrow> (json, 'k) dict \<Rightarrow> json list \<Rightarrow> (json, 'k) dict result" where
  "jwks_keys mk_key keys [] = Inr keys"
| "jwks_keys mk_key keys (k # ks) =
     rbind (get_or k ''kty'' JNull) (\<lambda>kty.
     if kty \<noteq> JStr ''RSA'' then jwks_keys mk_key keys ks
     else rbind (rbind (item k ''n'') b64_json) (\<lambda>n.
          rbind (rbind (item k ''e'') b64_json) (\<lambda>e.
          rbind (mk_key (int_of_bytes e) (int_of_bytes n)) (\<lambda>key.
          rbind (item k ''kid'') (\<lambda>kid.
          if \<not> hashable kid then Inl TypeError else jwks_keys mk_key (dict_set kid key keys) ks)))))"

text \<open>\<open>public_keys\<close>, of the document \<open>fetch\<close> returned for the verifier's address\<close>

definition public_keys :: "(nat \<Rightarrow> nat \<Rightarrow> 'k result) \<Rightarrow> json \<Rightarrow> (json, 'k) dict result" where
  "public_keys mk_key raw =
     rbind (get_or raw ''keys'' (JArr [])) (\<lambda>ks. case ks of
       JArr vs \<Rightarrow> jwks_keys mk_key [] vs
     | JObj kvs \<Rightarrow> jwks_keys mk_key [] (map (JStr \<circ> fst) kvs)
     | JStr s \<Rightarrow> jwks_keys mk_key [] (map (\<lambda>c. JStr [c]) s)
     | _ \<Rightarrow> Inl TypeError)"

subsection \<open>Checking an assertion\<close>

definition read_token :: "string \<Rightarrow> (string \<times> string \<times> string \<times> json \<times> json) result" where
  "read_token token = (case split_on (CHR ''.'') token of
     [h, b, s] \<Rightarrow> rbind (rbind (b64 h) loads_bytes) (\<lambda>head. rbind (rbind (b64 b) loads_bytes) (\<lambda>body.
       Inr (h, b, s, head, body)))
   | _ \<Rightarrow> Inl ValueError)"

definition refuse :: "'a result \<Rightarrow> string \<Rightarrow> 'a result" where
  "refuse m why = (case m of Inl _ \<Rightarrow> Inl (AccessError why) | Inr x \<Rightarrow> Inr x)"

definition usable_email :: "json \<Rightarrow> string result" where
  "usable_email email = (case email of
       JStr e \<Rightarrow> if strip e = [] then Inl (AccessError ''email'') else Inr e
     | _ \<Rightarrow> Inl (AccessError ''email''))"

definition email_from ::
    "('k \<Rightarrow> string \<Rightarrow> string \<Rightarrow> bool) \<Rightarrow> string \<Rightarrow> (json, 'k) dict \<Rightarrow> verifier \<Rightarrow> rat \<Rightarrow> string result" where
  "email_from verify token keys v now =
     rbind (refuse (read_token token) ''unreadable'') (\<lambda>(h, b, s, head, body).
     rbind (get_or head ''alg'' JNull) (\<lambda>alg.
     if alg \<noteq> JStr ''RS256'' then Inl (AccessError ''algorithm'')
     else rbind (get_or head ''kid'' JNull) (\<lambda>kid.
     if \<not> hashable kid then Inl TypeError
     else (case dict_get keys kid of
         None \<Rightarrow> Inl (AccessError ''unknown key'')
       | Some key \<Rightarrow>
     rbind (refuse (b64 s) ''unreadable signature'') (\<lambda>sig.
     if \<not> verify key sig (utf8 (h @ ''.'' @ b)) then Inl (AccessError ''signature'')
     else rbind (get_or body ''aud'' JNull) (\<lambda>aud.
     let aud = (case aud of JArr vs \<Rightarrow> vs | a \<Rightarrow> [a])
     in if JStr (vf_audience v) \<notin> set aud then Inl (AccessError ''audience'')
     else rbind (get_or body ''iss'' JNull) (\<lambda>iss.
     if iss \<noteq> JStr (vf_issuer v) then Inl (AccessError ''issuer'')
     else rbind (get_or body ''exp'' (JInt 0)) (\<lambda>exp.
     rbind (refuse (py_float exp) ''expiry'') (\<lambda>verloopt.
     if fl_le verloopt now then Inl (AccessError ''expired'')
     else rbind (get_or body ''email'' JNull) (\<lambda>email.
     usable_email email))))))))))"

record 'k identity =
  id_keys :: "(json, 'k) dict"
  id_at :: rat

text \<open>\<open>Identity.keys\<close>: \<open>fetched\<close> is the outcome of \<open>public_keys\<close>, should it be called.\<close>

definition identity_keys ::
    "rat \<Rightarrow> rat \<Rightarrow> (json, 'k) dict result \<Rightarrow> rat \<Rightarrow> 'k identity \<Rightarrow> 'k identity \<times> (json, 'k) dict" where
  "identity_keys ttl backoff fetched now i =
     (if id_keys i \<noteq> [] \<and> now - id_at i < ttl then (i, id_keys i)
      else (case fetched of
          Inr keys \<Rightarrow> (i\<lparr>id_keys := keys, id_at := now\<rparr>, keys)
        | Inl _ \<Rightarrow> (i\<lparr>id_at := now - ttl + backoff\<rparr>, id_keys i)))"

definition caller_token :: "request \<Rightarrow> string" where
  "caller_token rq =
     (let auth = header rq BEARER_HEADER
      in if starts_with BEARER_PREFIX auth then strip (drop (length BEARER_PREFIX) auth) else header rq JWT_HEADER)"

definition identity_caller ::
    "('k \<Rightarrow> string \<Rightarrow> string \<Rightarrow> bool) \<Rightarrow> (json, 'k) dict \<Rightarrow> verifier \<Rightarrow> rat \<Rightarrow> request \<Rightarrow> string option result" where
  "identity_caller verify keys v now rq =
     (let token = caller_token rq
      in if token = [] then Inr None
         else (case email_from verify token keys v now of
             Inl (AccessError _) \<Rightarrow> Inr None
           | Inl e \<Rightarrow> Inl e
           | Inr e \<Rightarrow> Inr (Some e)))"

subsection \<open>\<open>access_preflight.at_risk\<close>\<close>

record at_risk_row =
  risk_grant_id :: string
  risk_recipient :: string
  risk_types :: "string list"
  risk_known_label :: bool
  risk_scope :: string

definition at_risk :: "grant_row list \<Rightarrow> string set \<Rightarrow> at_risk_row list" where
  "at_risk rows labels =
     map (\<lambda>g. \<lparr>risk_grant_id = gr_grant_id g, risk_recipient = gr_recipient g,
            risk_types = sort (gr_allowed_types g), risk_known_label = (gr_recipient g \<in> labels),
            risk_scope = (if truthy (gr_document_id g) then ''dit document'' else ''alle documenten'')\<rparr>)
       (filter (\<lambda>g. CHR ''@'' \<notin> set (gr_recipient g)) (filter (\<lambda>g. gr_status g = ACTIVE) rows))"


subsection \<open>What is trusted\<close>

lemma refuse_Inr: "refuse m why = Inr x \<longleftrightarrow> m = Inr x"
  by (cases m) (auto simp: refuse_def)

lemma usable_email_Inr: "usable_email v = Inr e \<longleftrightarrow> v = JStr e \<and> strip e \<noteq> []"
  by (cases v) (auto simp: usable_email_def)

lemma get_or_Inr: "get_or v k d = Inr x \<longleftrightarrow> (\<exists>kvs. v = JObj kvs \<and> x = (case dict_get kvs k of None \<Rightarrow> d | Some y \<Rightarrow> y))"
  by (cases v) (auto simp: get_or_def)

lemma get_or_str: "get_or v k d = Inr (JStr s) \<Longrightarrow> (\<And>t. d \<noteq> JStr t) \<Longrightarrow> jget k v = Some (JStr s)"
  by (auto simp: get_or_Inr jget_def split: option.splits)

text \<open>C20: An identity is a verified signature. An email comes out only of an assertion of three parts whose
  signature verifies, over exactly those bytes, under the key that the set of the provider has for the \<open>kid\<close> of the assertion's own header, with the
  algorithm RS256, for this audience and this issuer, and with an expiry that does not lie at or before
  the present; and it is the email the signed body names.\<close>

theorem email_from_sound:
  assumes "email_from verify token keys v now = Inr e"
  shows "\<exists>h b s head body kid key sig exp f.
      split_on (CHR ''.'') token = [h, b, s]
    \<and> jget ''alg'' head = Some (JStr ''RS256'')
    \<and> get_or head ''kid'' JNull = Inr kid \<and> dict_get keys kid = Some key \<and> b64 s = Inr sig \<and> verify key sig (utf8 (h @ ''.'' @ b))
    \<and> rbind (b64 h) loads_bytes = Inr head \<and> rbind (b64 b) loads_bytes = Inr body
    \<and> (jget ''aud'' body = Some (JStr (vf_audience v))
        \<or> (\<exists>vs. jget ''aud'' body = Some (JArr vs) \<and> JStr (vf_audience v) \<in> set vs))
    \<and> jget ''iss'' body = Some (JStr (vf_issuer v))
    \<and> get_or body ''exp'' (JInt 0) = Inr exp \<and> py_float exp = Inr f \<and> \<not> fl_le f now
    \<and> jget ''email'' body = Some (JStr e) \<and> strip e \<noteq> []"
proof -
  from assms obtain h b s head body alg kid key sig aud iss exp f email where
    t: "read_token token = Inr (h, b, s, head, body)" and
    a: "get_or head ''alg'' JNull = Inr alg" "alg = JStr ''RS256''" and
    k: "get_or head ''kid'' JNull = Inr kid" "dict_get keys kid = Some key" "b64 s = Inr sig" "verify key sig (utf8 (h @ ''.'' @ b))" and
    u: "get_or body ''aud'' JNull = Inr aud" "JStr (vf_audience v) \<in> set (case aud of JArr vs \<Rightarrow> vs | a \<Rightarrow> [a])" and
    i: "get_or body ''iss'' JNull = Inr iss" "iss = JStr (vf_issuer v)" and
    x: "get_or body ''exp'' (JInt 0) = Inr exp" "py_float exp = Inr f" "\<not> fl_le f now" and
    m: "get_or body ''email'' JNull = Inr email" "email = JStr e" "strip e \<noteq> []"
    unfolding email_from_def
    by (auto simp: rbind_eq_Inr refuse_Inr usable_email_Inr Let_def split: if_splits option.splits)
  have r: "split_on (CHR ''.'') token = [h, b, s]" "rbind (b64 h) loads_bytes = Inr head"
      "rbind (b64 b) loads_bytes = Inr body"
    using t by (auto simp: read_token_def rbind_eq_Inr split: list.splits)
  have al: "jget ''alg'' head = Some (JStr ''RS256'')" using a get_or_str by simp
  have isr: "jget ''iss'' body = Some (JStr (vf_issuer v))" using i get_or_str by simp
  have em: "jget ''email'' body = Some (JStr e)" using m get_or_str by simp
  have au: "jget ''aud'' body = Some (JStr (vf_audience v))
        \<or> (\<exists>vs. jget ''aud'' body = Some (JArr vs) \<and> JStr (vf_audience v) \<in> set vs)"
    using u by (auto simp: get_or_Inr jget_def split: option.splits json.splits)
  show ?thesis using r al k x isr em au m(3) by blast
qed

text \<open>Not every malformation is a refusal. A token whose header decodes to JSON that is not an object,
  here \<open>[]\<close>, raises \<open>AttributeError\<close> before any signature is checked; \<open>Identity.caller\<close> catches only
  \<open>AccessError\<close>, so the exception reaches the middleware and an unauthenticated request ends in an
  internal error where a 401 is meant.\<close>

theorem header_not_object:
  "email_from verify ''W10.e30.'' keys v now = Inl AttributeError
   \<and> identity_caller verify keys v now
       \<lparr>rq_type = ''http'', rq_path = p, rq_headers = [(JWT_HEADER, ''W10.e30.'')], rq_cookies = []\<rparr> = Inl AttributeError"
proof -
  have "b64 ''W10'' = Inr ''[]''" "b64 ''e30'' = Inr ''{}''"
    by (simp_all add: b64_def b64_val_def is_upper_az_def is_lower_az_def is_decimal_def char_of_def
        bit_Suc_0_iff)
  moreover have "loads_bytes ''[]'' = Inr (JArr [])" "loads_bytes ''{}'' = Inr (JObj [])"
    by (simp_all add: loads_bytes_def loads_def skip_ws_def)
  ultimately have e: "email_from verify ''W10.e30.'' keys v now = Inl AttributeError"
    by (simp add: email_from_def read_token_def refuse_def get_or_def)
  then show ?thesis
    by (simp add: identity_caller_def caller_token_def header_def BEARER_HEADER_def JWT_HEADER_def BEARER_PREFIX_def)
qed

text \<open>A failed refresh keeps the keys, and is not repeated before the back-off has passed.\<close>

lemma identity_keys_failed:
  assumes "identity_keys ttl backoff (Inl e) now i = (i', ks)" and "now' < now + backoff"
  shows "ks = id_keys i \<and> id_keys i' = id_keys i
    \<and> (id_keys i \<noteq> [] \<longrightarrow> \<not> now - id_at i < ttl \<longrightarrow> identity_keys ttl backoff fetched now' i' = (i', id_keys i))"
  using assms by (auto simp: identity_keys_def split: if_splits)

lemma strip_mem: "c \<in> set s \<Longrightarrow> \<not> is_space c \<Longrightarrow> c \<in> set (strip s)"
proof -
  have d: "c \<in> set (dropWhile is_space s)" if "c \<in> set s" "\<not> is_space c" for s
    using that by (induction s) auto
  show "c \<in> set s \<Longrightarrow> \<not> is_space c \<Longrightarrow> c \<in> set (strip s)"
    using d [of s] d [of "rev (dropWhile is_space s)"] by (simp add: strip_def rstrip_def lstrip_def)
qed

lemma strip_subset: "c \<in> set (strip s) \<Longrightarrow> c \<in> set s"
  by (auto simp: strip_def rstrip_def lstrip_def dest!: set_dropWhileD)

text \<open>The preflight report is exact. A grant that is active and not reported names an identity, and no
  identity, that is no caller with an at sign in its name, is the recipient of a reported grant.\<close>

theorem at_risk_exact:
  "(\<forall>row\<in>set rows. gr_status row = ACTIVE \<longrightarrow>
      (CHR ''@'' \<in> set (gr_recipient row)) \<noteq> (\<exists>r\<in>set (at_risk rows labels). risk_grant_id r = gr_grant_id row
        \<and> risk_recipient r = gr_recipient row \<and> risk_known_label r = (gr_recipient row \<in> labels)))
   \<and> (\<forall>r\<in>set (at_risk rows labels). \<forall>caller. CHR ''@'' \<in> set caller \<longrightarrow> \<not> is_recipient (Some caller) (risk_recipient r))"
proof (intro conjI ballI allI impI)
  fix row assume "row \<in> set rows" "gr_status row = ACTIVE"
  then show "(CHR ''@'' \<in> set (gr_recipient row)) \<noteq> (\<exists>r\<in>set (at_risk rows labels). risk_grant_id r = gr_grant_id row
        \<and> risk_recipient r = gr_recipient row \<and> risk_known_label r = (gr_recipient row \<in> labels))"
    by (force simp: at_risk_def)
next
  fix r caller assume r: "r \<in> set (at_risk rows labels)" and c: "CHR ''@'' \<in> set caller"
  have "\<not> is_space (CHR ''@'')" by (simp add: is_space_def)
  then have "CHR ''@'' \<in> set (strip caller)" using strip_mem [OF c] by simp
  moreover have "CHR ''@'' \<notin> set (strip (risk_recipient r))"
    using r by (auto simp: at_risk_def dest: strip_subset)
  ultimately show "\<not> is_recipient (Some caller) (risk_recipient r)"
    using strip_idem_eq by metis
qed

subsection \<open>Concrete instances\<close>

definition sample_verifier :: verifier where
  "sample_verifier = \<lparr>vf_issuer = ''i'', vf_audience = ''a'', vf_jwks_url = ''u''\<rparr>"

definition sample_token :: string where
  "sample_token = ''eyJhbGciOiJSUzI1NiIsImtpZCI6ImsifQ.eyJhdWQiOiJhIiwiaXNzIjoiaSIsImV4cCI6OSwiZW1haWwiOiJlIn0.AAAA''"

lemma sample_email: "email_from (\<lambda>_ _ _. True) sample_token [(JStr ''k'', ())] sample_verifier 1 = Inr ''e''"
  by code_simp

lemma email_from_sound_witness:
  "\<exists>h b s head body kid key sig exp f.
      split_on (CHR ''.'') sample_token = [h, b, s]
    \<and> jget ''alg'' head = Some (JStr ''RS256'')
    \<and> get_or head ''kid'' JNull = Inr kid \<and> dict_get [(JStr ''k'', ())] kid = Some key \<and> b64 s = Inr sig \<and> (\<lambda>_ _ _. True) key sig (utf8 (h @ ''.'' @ b))
    \<and> rbind (b64 h) loads_bytes = Inr head \<and> rbind (b64 b) loads_bytes = Inr body
    \<and> (jget ''aud'' body = Some (JStr (vf_audience sample_verifier))
        \<or> (\<exists>vs. jget ''aud'' body = Some (JArr vs) \<and> JStr (vf_audience sample_verifier) \<in> set vs))
    \<and> jget ''iss'' body = Some (JStr (vf_issuer sample_verifier))
    \<and> get_or body ''exp'' (JInt 0) = Inr exp \<and> py_float exp = Inr f \<and> \<not> fl_le f 1
    \<and> jget ''email'' body = Some (JStr ''e'') \<and> strip ''e'' \<noteq> []"
  by (rule email_from_sound [OF sample_email])

lemma at_risk_exact_witness:
  "\<exists>r\<in>set (at_risk [row_of_grant sample_grant] {''alice''}). risk_grant_id r = ''g1'' \<and> risk_recipient r = ''alice''
     \<and> risk_known_label r"
proof -
  let ?row = "row_of_grant sample_grant"
  have row: "gr_status ?row = ACTIVE" "CHR ''@'' \<notin> set (gr_recipient ?row)" "gr_grant_id ?row = ''g1''" "gr_recipient ?row = ''alice''"
    by (simp_all add: row_of_grant_def sample_grant_def)
  from at_risk_exact [of "[?row]" "{''alice''}"]
  have "\<exists>r\<in>set (at_risk [?row] {''alice''}). risk_grant_id r = gr_grant_id ?row
      \<and> risk_recipient r = gr_recipient ?row \<and> risk_known_label r = (gr_recipient ?row \<in> {''alice''})"
    using row(1,2) by (metis list.set_intros(1))
  then show ?thesis unfolding row(3,4) by simp
qed

end
