(* ===== verification/Roles.thy ===== *)
theory Roles
  imports Grants
begin

text \<open>
  \<open>roles.py\<close>: creating, restricting and switching roles, and what a role allows at this moment. The table
  \<open>roles\<close> is a list of rows in the order of their creation, unique by name. The argument \<open>audit\<close> tells
  whether the caller passed a key-lifecycle stream; without one a change is refused.
\<close>

definition ADMIN :: string where "ADMIN = ''beheerder''"

record role =
  r_name :: string
  r_allowed_types :: "string list"
  r_active :: bool
  r_created_by :: string

record resolved =
  res_types :: "string list"
  res_reason :: string

definition by_name :: "role list \<Rightarrow> string \<Rightarrow> role option" where
  "by_name rs name = find (\<lambda>r. r_name r = name) rs"

text \<open>\<open>normalise\<close> returns a set; its callers sort it.\<close>

definition normalise :: "string list \<Rightarrow> string set" where
  "normalise ts = set (map (\<lambda>t. upper (strip t)) (filter (\<lambda>t. t \<noteq> [] \<and> strip t \<noteq> []) ts))"

definition sorted_types :: "string set \<Rightarrow> string list" where
  "sorted_types S = sorted_list_of_set S"

definition noteer ::
    "(string \<Rightarrow> string) \<Rightarrow> datetime \<Rightarrow> bool \<Rightarrow> key_db \<Rightarrow> role \<Rightarrow> string \<Rightarrow> string \<Rightarrow> string option \<Rightarrow> key_db result" where
  "noteer H now audit kdb role change actor reason =
     (if \<not> audit then Inl MissingAuditStream
      else role_changed_event H now kdb (r_name role) change (r_allowed_types role) (r_active role) actor reason)"

definition must :: "role list \<Rightarrow> string \<Rightarrow> role result" where
  "must rs name = (case by_name rs name of None \<Rightarrow> Inl (RoleError (''onbekende rol '' @ repr_str name)) | Some r \<Rightarrow> Inr r)"

definition update_role :: "role list \<Rightarrow> role \<Rightarrow> role list" where
  "update_role rs r = map (\<lambda>x. if r_name x = r_name r then r else x) rs"

definition create_role ::
    "(string \<Rightarrow> string) \<Rightarrow> datetime \<Rightarrow> bool \<Rightarrow> role list \<Rightarrow> key_db \<Rightarrow> string option \<Rightarrow> string list \<Rightarrow> string
      \<Rightarrow> (role list \<times> key_db \<times> role) result" where
  "create_role H now audit rs kdb name allowed_types actor =
     (let name = strip (case name of None \<Rightarrow> [] | Some n \<Rightarrow> n)
      in if name = [] then Inl (RoleError ''een rol heeft een naam nodig'')
         else
           (let types = normalise allowed_types;
                role = \<lparr>r_name = name, r_allowed_types = sorted_types types, r_active = True, r_created_by = actor\<rparr>
            in if by_name rs name \<noteq> None then Inl (RoleError (''rol '' @ repr_str name @ '' bestaat al''))
               else (case noteer H now audit kdb role ''created'' actor None of
                       Inl (IntegrityError _) \<Rightarrow> Inl (RoleError (''rol '' @ repr_str name @ '' bestaat al''))
                     | Inl e \<Rightarrow> Inl e
                     | Inr kdb' \<Rightarrow> Inr (rs @ [role], kdb', role))))"

definition set_types ::
    "(string \<Rightarrow> string) \<Rightarrow> datetime \<Rightarrow> bool \<Rightarrow> role list \<Rightarrow> key_db \<Rightarrow> string \<Rightarrow> string list \<Rightarrow> string
      \<Rightarrow> (role list \<times> key_db \<times> role) result" where
  "set_types H now audit rs kdb name allowed_types actor =
     rbind (must rs name) (\<lambda>role.
     let role = role\<lparr>r_allowed_types := sorted_types (normalise allowed_types)\<rparr>
     in rbind (noteer H now audit kdb role ''types'' actor None) (\<lambda>kdb'. Inr (update_role rs role, kdb', role)))"

definition deactivate ::
    "(string \<Rightarrow> string) \<Rightarrow> datetime \<Rightarrow> bool \<Rightarrow> role list \<Rightarrow> key_db \<Rightarrow> string \<Rightarrow> string \<Rightarrow> string option
      \<Rightarrow> (role list \<times> key_db \<times> role) result" where
  "deactivate H now audit rs kdb name actor reason =
     (if strip (case reason of None \<Rightarrow> [] | Some r \<Rightarrow> r) = [] then Inl (RoleError ''uitzetten vraagt een reden'')
      else rbind (must rs name) (\<lambda>role.
        let role = role\<lparr>r_active := False\<rparr>
        in rbind (noteer H now audit kdb role ''deactivated'' actor reason) (\<lambda>kdb'.
           Inr (update_role rs role, kdb', role))))"

definition activate ::
    "(string \<Rightarrow> string) \<Rightarrow> datetime \<Rightarrow> bool \<Rightarrow> role list \<Rightarrow> key_db \<Rightarrow> string \<Rightarrow> string \<Rightarrow> string option
      \<Rightarrow> (role list \<times> key_db \<times> role) result" where
  "activate H now audit rs kdb name actor reason =
     (if strip (case reason of None \<Rightarrow> [] | Some r \<Rightarrow> r) = [] then Inl (RoleError ''aanzetten vraagt een reden'')
      else rbind (must rs name) (\<lambda>role.
        let role = role\<lparr>r_active := True\<rparr>
        in rbind (noteer H now audit kdb role ''activated'' actor reason) (\<lambda>kdb'.
           Inr (update_role rs role, kdb', role))))"

definition resolve_role :: "role list \<Rightarrow> string option \<Rightarrow> resolved" where
  "resolve_role rs name =
     (if \<not> truthy name then \<lparr>res_types = [], res_reason = ''geen rol''\<rparr>
      else (case by_name rs (the name) of
          None \<Rightarrow> \<lparr>res_types = [], res_reason = ''onbekende rol''\<rparr>
        | Some role \<Rightarrow>
            if \<not> r_active role then \<lparr>res_types = [], res_reason = ''rol staat uit''\<rparr>
            else \<lparr>res_types = r_allowed_types role, res_reason = ''rol actief''\<rparr>))"

text \<open>The resolver the reveal path passes to \<open>authorize\<close>: \<open>lambda name: resolve(session, name).types\<close>.\<close>

definition role_types :: "role list \<Rightarrow> string \<Rightarrow> string list" where
  "role_types rs name = res_types (resolve_role rs (Some name))"

subsection \<open>Rows\<close>

lemma by_name_update:
  "by_name (update_role rs r) n = (if n = r_name r then map_option (\<lambda>_. r) (by_name rs n) else by_name rs n)"
  by (induction rs) (auto simp: by_name_def update_role_def)

lemma by_name_append:
  "by_name (rs @ [r]) n = (case by_name rs n of None \<Rightarrow> if r_name r = n then Some r else None | Some x \<Rightarrow> Some x)"
  by (induction rs) (auto simp: by_name_def)

lemma by_name_name: "by_name rs n = Some r \<Longrightarrow> r_name r = n"
  by (auto simp: by_name_def find_Some_iff)

lemma must_Inr: "must rs n = Inr r \<longleftrightarrow> by_name rs n = Some r"
  by (simp add: must_def split: option.split)

lemma set_sorted_types [simp]: "finite S \<Longrightarrow> set (sorted_types S) = S"
  by (simp add: sorted_types_def)

lemma finite_normalise [simp]: "finite (normalise ts)"
  by (simp add: normalise_def)

lemma normalise_upper: "t \<in> normalise ts \<Longrightarrow> upper t = t \<and> t \<noteq> []"
  by (auto simp: normalise_def)

definition roles_wf :: "role list \<Rightarrow> bool" where
  "roles_wf rs = (distinct (map r_name rs) \<and> (\<forall>r\<in>set rs. r_name r \<noteq> [] \<and> (\<forall>t\<in>set (r_allowed_types r). upper t = t)))"

lemma update_role_names: "map r_name (update_role rs r) = map r_name rs"
  by (induction rs) (auto simp: update_role_def)

lemma by_name_mem: "by_name rs n = Some r \<Longrightarrow> r \<in> set rs"
  by (auto simp: by_name_def find_Some_iff)

lemma roles_wf_update:
  assumes "roles_wf rs" and "by_name rs (r_name r) \<noteq> None" and "\<forall>t\<in>set (r_allowed_types r). upper t = t"
  shows "roles_wf (update_role rs r)"
proof -
  obtain x where x: "by_name rs (r_name r) = Some x" using assms(2) by auto
  then have "r_name x \<noteq> []" using by_name_mem [OF x] assms(1) by (auto simp: roles_wf_def)
  then have "r_name r \<noteq> []" using by_name_name [OF x] by simp
  then show ?thesis
    using assms(1,3) unfolding roles_wf_def update_role_names by (auto simp: update_role_def)
qed

lemma create_wf:
  assumes "roles_wf rs" and "create_role H now audit rs kdb name ts actor = Inr (rs', kdb', r)"
  shows "roles_wf rs' \<and> rs' = rs @ [r]"
proof -
  have r: "rs' = rs @ [r]" "r_name r \<noteq> []" "by_name rs (r_name r) = None"
      "r_allowed_types r = sorted_types (normalise ts)"
    using assms(2) by (auto simp: create_role_def Let_def split: if_splits sum.splits error.splits)
  have "r_name r \<notin> r_name ` set rs" using r(3) by (auto simp: by_name_def find_None_iff)
  then show ?thesis using assms(1) r normalise_upper by (auto simp: roles_wf_def)
qed

lemma changed:
  assumes "deactivate H now audit rs kdb name actor reason = Inr (rs', kdb', r)
      \<or> activate H now audit rs kdb name actor reason = Inr (rs', kdb', r)
      \<or> set_types H now audit rs kdb name ts actor = Inr (rs', kdb', r)"
  shows "r_name r = name \<and> rs' = update_role rs r \<and> by_name rs' name = Some r \<and> audit"
  using assms
  by (auto simp: deactivate_def activate_def set_types_def result_simps Let_def must_Inr noteer_def
      by_name_update dest: by_name_name split: if_splits)

subsection \<open>What switching off means\<close>

lemma deactivated:
  assumes "deactivate H now audit rs kdb name actor reason = Inr (rs', kdb', r)"
  shows "by_name rs' name = Some r" and "\<not> r_active r"
  using assms changed [of H now audit rs kdb name actor reason rs' kdb' r]
  by (auto simp: deactivate_def result_simps Let_def split: if_splits)

text \<open>Switching a role off works at once. After \<open>deactivate\<close> every grant that names the role, whatever
  it says itself and whoever holds it, authorises nothing; every other role resolves as before, and
  no grant was touched.\<close>

theorem deactivate_immediate:
  assumes "deactivate H now audit rs kdb name actor reason = Inr (rs', kdb', r)"
    and "g_role g = Some name" and "name \<noteq> []"
  shows "authorize g doc req t dm ag caller auth (Some (role_types rs')) gr = {}
    \<and> (\<forall>n. n \<noteq> name \<longrightarrow> resolve_role rs' (Some n) = resolve_role rs (Some n))"
proof (intro conjI allI impI)
  note d = deactivated [OF assms(1)]
  have "role_types rs' name = []" using d assms(3) by (simp add: role_types_def resolve_role_def)
  then have "permitted_types g (Some (role_types rs')) = {}"
    using assms(2,3) by (simp add: permitted_types_def upper_types_def)
  then show "authorize g doc req t dm ag caller auth (Some (role_types rs')) gr = {}"
    by (auto simp: authorize_def Let_def)
  fix n assume "n \<noteq> name"
  moreover have "rs' = update_role rs r" "r_name r = name"
    using changed assms(1) by blast+
  ultimately show "resolve_role rs' (Some n) = resolve_role rs (Some n)"
    by (simp add: resolve_role_def by_name_update)
qed

text \<open>A role means its current list. For a grant that names a role, the types it permits are those of
  the role as it stands in the table now: none for an unknown or switched-off role, and after
  \<open>set_types\<close> exactly the normalised new list.\<close>

theorem set_types_immediate:
  assumes "set_types H now audit rs kdb name ts actor = Inr (rs', kdb', r)"
    and "g_role g = Some name" and "name \<noteq> []"
  shows "permitted_types g (Some (role_types rs')) = (if r_active r then normalise ts else {})"
proof -
  have c: "by_name rs' name = Some r" using changed assms(1) by blast
  have t: "r_allowed_types r = sorted_types (normalise ts)"
    using assms(1) by (auto simp: set_types_def result_simps Let_def)
  have "upper ` normalise ts = normalise ts" using normalise_upper by (force simp: image_iff)
  then show ?thesis
    using c t assms(2,3) by (simp add: permitted_types_def role_types_def resolve_role_def upper_types_def)
qed

text \<open>A change of a role is on the record or it does not happen: without a stream it is refused, a
  switch without a reason is refused, and otherwise exactly one event with the state after the change
  is appended to a stream that still verifies.\<close>

theorem deactivate_recorded:
  assumes "digest64 H" and "keys_wf kdb" and "key_verify_chain H kdb = (True, None)"
  shows "case deactivate H now audit rs kdb name actor reason of
      Inr (rs', kdb', r) \<Rightarrow> audit \<and> strip (the reason) \<noteq> [] \<and> recorded H kdb kdb' ROLE_ACTION actor
          [(''role'', JStr name), (''change'', JStr ''deactivated''), (''allowed_types'', strs (r_allowed_types r)),
           (''active'', JBool False), (''reason'', opt_str reason)]
    | Inl e \<Rightarrow> e = RoleError ''uitzetten vraagt een reden'' \<and> strip (case reason of None \<Rightarrow> [] | Some s \<Rightarrow> s) = []
        \<or> e = RoleError (''onbekende rol '' @ repr_str name) \<and> by_name rs name = None \<or> e = MissingAuditStream \<and> \<not> audit \<or> stream_broken H kdb"
proof (cases "strip (case reason of None \<Rightarrow> [] | Some s \<Rightarrow> s) = [] \<or> by_name rs name = None \<or> \<not> audit")
  case True
  then show ?thesis
    by (auto simp: deactivate_def must_def noteer_def split: option.splits)
next
  case False
  then obtain r where r: "by_name rs name = Some r" and audit and "strip (the reason) \<noteq> []"
    by (cases reason) (auto simp: strip_def rstrip_def lstrip_def)
  have n: "r_name r = name" using by_name_name [OF r] .
  let ?p = "[(''role'', JStr name), (''change'', JStr ''deactivated''), (''allowed_types'', strs (r_allowed_types r)),
     (''active'', JBool False), (''reason'', opt_str reason)]"
  have ok: "json_ok (JObj ?p)" by simp
  have eq: "deactivate H now audit rs kdb name actor reason
      = rbind (post_event H now kdb ROLE_ACTION actor ?p) (\<lambda>kdb'. Inr (update_role rs (r\<lparr>r_active := False\<rparr>), kdb', r\<lparr>r_active := False\<rparr>))"
    using False r n by (simp add: deactivate_def must_def noteer_def role_changed_event_def Let_def)
  show ?thesis
    unfolding eq using \<open>audit\<close> \<open>strip (the reason) \<noteq> []\<close> post_event_cases [OF assms ok, of now ROLE_ACTION actor]
    by (cases "post_event H now kdb ROLE_ACTION actor ?p") auto
qed

subsection \<open>Concrete instances\<close>

definition sample_role :: role where
  "sample_role = \<lparr>r_name = ''jurist'', r_allowed_types = [''PERSON''], r_active = True, r_created_by = ''admin''\<rparr>"

definition role_grant :: grant where
  "role_grant = sample_grant\<lparr>g_role := Some ''jurist''\<rparr>"

definition quiet_role :: role where
  "quiet_role = sample_role\<lparr>r_active := False\<rparr>"

lemma not_space [simp]: "strip ''why'' = ''why''"
  by code_simp

lemma deactivate_immediate_witness:
  "\<exists>rs' kdb' r. deactivate sample_hash sample_time True [sample_role] empty_keys ''jurist'' ''admin'' (Some ''why'')
       = Inr (rs', kdb', r)
     \<and> authorize role_grant (Some ''d1'') [''PERSON''] sample_time DEFAULT_DOMAIN False (Some ''alice'') True
         (Some (role_types rs')) [] = {}
     \<and> (\<forall>n. n \<noteq> ''jurist'' \<longrightarrow> resolve_role rs' (Some n) = resolve_role [sample_role] (Some n))"
proof -
  obtain kdb' where "role_changed_event sample_hash sample_time empty_keys ''jurist'' ''deactivated'' [''PERSON''] False ''admin''
      (Some ''why'') = Inr kdb'"
    unfolding role_changed_event_def using empty_post by force
  then have d: "deactivate sample_hash sample_time True [sample_role] empty_keys ''jurist'' ''admin'' (Some ''why'')
      = Inr (update_role [sample_role] quiet_role, kdb', quiet_role)"
    by (simp add: deactivate_def must_def by_name_def noteer_def sample_role_def quiet_role_def Let_def)
  have g: "g_role role_grant = Some ''jurist''" "''jurist'' \<noteq> []" by (simp_all add: role_grant_def)
  note h = deactivate_immediate [OF d g, of "Some ''d1''" "[''PERSON'']" sample_time DEFAULT_DOMAIN False "Some ''alice''" True "[]"]
  show ?thesis by (intro exI conjI) (rule d, rule conjunct1 [OF h], rule conjunct2 [OF h])
qed

lemma set_types_immediate_witness:
  "\<exists>rs' kdb' r. set_types sample_hash sample_time True [sample_role] empty_keys ''jurist'' [''email''] ''admin'' = Inr (rs', kdb', r)
     \<and> permitted_types role_grant (Some (role_types rs')) = (if r_active r then normalise [''email''] else {})"
proof -
  let ?r = "sample_role\<lparr>r_allowed_types := sorted_types (normalise [''email''])\<rparr>"
  obtain kdb' where "role_changed_event sample_hash sample_time empty_keys ''jurist'' ''types'' (r_allowed_types ?r) True ''admin''
      None = Inr kdb'"
    unfolding role_changed_event_def using empty_post by force
  then have d: "set_types sample_hash sample_time True [sample_role] empty_keys ''jurist'' [''email''] ''admin''
      = Inr (update_role [sample_role] ?r, kdb', ?r)"
    by (simp add: set_types_def must_def by_name_def noteer_def sample_role_def Let_def)
  have g: "g_role role_grant = Some ''jurist''" "''jurist'' \<noteq> []" by (simp_all add: role_grant_def)
  from d set_types_immediate [OF d g] show ?thesis by (intro exI conjI) assumption+
qed

lemma deactivate_recorded_witness:
  "case deactivate sample_hash sample_time True [sample_role] empty_keys ''jurist'' ''admin'' (Some ''why'') of
      Inr (rs', kdb', r) \<Rightarrow> True \<and> strip (the (Some ''why'')) \<noteq> [] \<and> recorded sample_hash empty_keys kdb' ROLE_ACTION ''admin''
          [(''role'', JStr ''jurist''), (''change'', JStr ''deactivated''), (''allowed_types'', strs (r_allowed_types r)),
           (''active'', JBool False), (''reason'', opt_str (Some ''why''))]
    | Inl e \<Rightarrow> e = RoleError ''uitzetten vraagt een reden'' \<and> strip (case Some ''why'' of None \<Rightarrow> [] | Some s \<Rightarrow> s) = []
        \<or> e = RoleError (''onbekende rol '' @ repr_str ''jurist'') \<and> by_name [sample_role] ''jurist'' = None \<or> e = MissingAuditStream \<and> \<not> True
        \<or> stream_broken sample_hash empty_keys"
  by (rule deactivate_recorded) simp_all

end
