(* ===== verification/Keys.thy ===== *)
theory Keys
  imports PyString Grants
begin

text \<open>
  \<open>keys.py\<close> and the key vault of \<open>transit.py\<close>: key scopes, the three key providers and the vault stores.
  Random material is an argument where the code draws it (\<open>os.urandom\<close>), as is the monotonic clock.
  \<open>HB\<close> is the hexadecimal SHA-256 of a byte string; \<open>wrap\<close> and \<open>unwrap\<close> are the Transit key-encryption
  service, which may refuse; a byte is the character of the same number.
\<close>

record key =
  k_id :: string
  k_material :: string

definition mint_key :: "(string \<Rightarrow> string) \<Rightarrow> string \<Rightarrow> key" where
  "mint_key HB material = \<lparr>k_id = take 12 (HB (''id:'' @ material)), k_material = material\<rparr>"

definition DEFAULT_SCOPE :: string where "DEFAULT_SCOPE = ''_global''"

definition scope_for :: "string \<Rightarrow> string \<Rightarrow> string result" where
  "scope_for domain pii_type =
     (if CHR ''/'' \<in> set domain \<or> CHR ''/'' \<in> set pii_type \<or> domain = [] \<or> pii_type = [] then Inl ValueError
      else Inr (if domain = DEFAULT_DOMAIN then pii_type else domain @ ''/'' @ pii_type))"

subsection \<open>\<open>StubKeyProvider\<close>\<close>

text \<open>\<open>material\<close> is the digest of the passphrase.\<close>

definition stub_current :: "(string \<Rightarrow> string) \<Rightarrow> string \<Rightarrow> string \<Rightarrow> key" where
  "stub_current HB material scope = \<lparr>k_id = take 12 (HB (''id:'' @ material)), k_material = material\<rparr>"

definition stub_key :: "(string \<Rightarrow> string) \<Rightarrow> string \<Rightarrow> string \<Rightarrow> key result" where
  "stub_key HB material key_id =
     (let current = stub_current HB material DEFAULT_SCOPE
      in if key_id \<noteq> k_id current then Inl (KeyError key_id) else Inr current)"

definition stub_rotate :: "string \<Rightarrow> key result" where
  "stub_rotate scope = Inl NotImplemented"

subsection \<open>\<open>InMemoryKeyProvider\<close>\<close>

record mem_provider =
  mp_keys :: "(string, key) dict"
  mp_current :: "(string, string) dict"

definition mp_init :: "key \<Rightarrow> mem_provider" where
  "mp_init first = \<lparr>mp_keys = [(k_id first, first)], mp_current = [(DEFAULT_SCOPE, k_id first)]\<rparr>"

definition mp_mint :: "(string \<Rightarrow> string) \<Rightarrow> string \<Rightarrow> string \<Rightarrow> mem_provider \<Rightarrow> key \<times> mem_provider" where
  "mp_mint HB material scope st =
     (let new = mint_key HB material
      in (new, st\<lparr>mp_keys := dict_set (k_id new) new (mp_keys st), mp_current := dict_set scope (k_id new) (mp_current st)\<rparr>))"

definition mp_key :: "mem_provider \<Rightarrow> string \<Rightarrow> key result" where
  "mp_key st key_id = (case dict_get (mp_keys st) key_id of None \<Rightarrow> Inl (KeyError key_id) | Some k \<Rightarrow> Inr k)"

definition mp_current_key :: "(string \<Rightarrow> string) \<Rightarrow> string \<Rightarrow> string \<Rightarrow> mem_provider \<Rightarrow> (key \<times> mem_provider) result" where
  "mp_current_key HB material scope st =
     (let st = (if dict_get (mp_current st) scope = None then snd (mp_mint HB material scope st) else st)
      in (case dict_get (mp_current st) scope of
            None \<Rightarrow> Inl (KeyError scope)
          | Some kid \<Rightarrow> (case dict_get (mp_keys st) kid of None \<Rightarrow> Inl (KeyError kid) | Some k \<Rightarrow> Inr (k, st))))"

definition mp_rotate :: "(string \<Rightarrow> string) \<Rightarrow> string \<Rightarrow> string \<Rightarrow> string \<Rightarrow> mem_provider \<Rightarrow> (key \<times> mem_provider) result" where
  "mp_rotate HB material1 material2 scope st =
     rbind (mp_current_key HB material1 scope st) (\<lambda>(_, st). Inr (mp_mint HB material2 scope st))"

definition mp_add :: "key \<Rightarrow> mem_provider \<Rightarrow> mem_provider" where
  "mp_add k st = st\<lparr>mp_keys := dict_set (k_id k) k (mp_keys st)\<rparr>"

subsection \<open>The key vault\<close>

record vault_entry =
  ve_key_id :: string
  ve_scope :: string
  ve_wrapped :: string
  ve_status :: string

type_synonym vault = "(string, vault_entry) dict"

definition vault_active_for :: "vault \<Rightarrow> string \<Rightarrow> vault_entry option" where
  "vault_active_for v scope = find (\<lambda>e. ve_scope e = scope \<and> ve_status e = ''active'') (map snd v)"

definition vault_get :: "vault \<Rightarrow> string \<Rightarrow> vault_entry option" where
  "vault_get v key_id = dict_get v key_id"

text \<open>The two stores differ in the exception of a second active key and in \<open>set_status\<close>.\<close>

definition mem_vault_put :: "vault \<Rightarrow> string \<Rightarrow> string \<Rightarrow> string \<Rightarrow> string \<Rightarrow> vault result" where
  "mem_vault_put v key_id scope wrapped status =
     (if dict_get v key_id \<noteq> None then Inr v
      else if status = ''active'' \<and> vault_active_for v scope \<noteq> None then Inl ActiveKeyExists
      else Inr (dict_set key_id \<lparr>ve_key_id = key_id, ve_scope = scope, ve_wrapped = wrapped, ve_status = status\<rparr> v))"

definition pg_vault_put :: "vault \<Rightarrow> string \<Rightarrow> string \<Rightarrow> string \<Rightarrow> string \<Rightarrow> vault result" where
  "pg_vault_put v key_id scope wrapped status =
     (if dict_get v key_id \<noteq> None then Inr v
      else if status = ''active'' \<and> vault_active_for v scope \<noteq> None then Inl (IntegrityError ''uq_key_vault_active_scope'')
      else Inr (dict_set key_id \<lparr>ve_key_id = key_id, ve_scope = scope, ve_wrapped = wrapped, ve_status = status\<rparr> v))"

definition mem_vault_set_status :: "vault \<Rightarrow> string \<Rightarrow> string \<Rightarrow> vault result" where
  "mem_vault_set_status v key_id status = (case dict_get v key_id of
     None \<Rightarrow> Inl (KeyError key_id)
   | Some e \<Rightarrow> Inr (dict_set key_id (e\<lparr>ve_status := status\<rparr>) v))"

definition pg_vault_set_status :: "vault \<Rightarrow> string \<Rightarrow> string \<Rightarrow> vault result" where
  "pg_vault_set_status v key_id status = (case dict_get v key_id of
     None \<Rightarrow> Inl (KeyError key_id)
   | Some e \<Rightarrow>
       (let v' = dict_set key_id (e\<lparr>ve_status := status\<rparr>) v
        in if status = ''active''
              \<and> 1 < length (filter (\<lambda>x. ve_scope x = ve_scope e \<and> ve_status x = ''active'') (map snd v'))
           then Inl (IntegrityError ''uq_key_vault_active_scope'') else Inr v'))"

subsection \<open>\<open>DurableKeyProvider\<close>\<close>

record durable =
  dp_vault :: vault
  dp_cache :: "(string, string \<times> nat) dict"

text \<open>\<open>_material\<close>: the clear key, from the cache while it is fresh, else unwrapped and cached.\<close>

definition dp_material ::
    "(string \<Rightarrow> string result) \<Rightarrow> nat \<Rightarrow> nat \<Rightarrow> durable \<Rightarrow> string \<Rightarrow> string \<Rightarrow> (string \<times> durable) result" where
  "dp_material unwrap ttl now st key_id wrapped =
     (case dict_get (dp_cache st) key_id of
        Some (material, expiry) \<Rightarrow>
          if now < expiry then Inr (material, st)
          else rbind (unwrap wrapped) (\<lambda>m. Inr (m, st\<lparr>dp_cache := dict_set key_id (m, now + ttl) (dp_cache st)\<rparr>))
      | None \<Rightarrow> rbind (unwrap wrapped) (\<lambda>m. Inr (m, st\<lparr>dp_cache := dict_set key_id (m, now + ttl) (dp_cache st)\<rparr>)))"

definition dp_to_key ::
    "(string \<Rightarrow> string result) \<Rightarrow> nat \<Rightarrow> nat \<Rightarrow> durable \<Rightarrow> vault_entry \<Rightarrow> (key \<times> durable) result" where
  "dp_to_key unwrap ttl now st e =
     rbind (dp_material unwrap ttl now st (ve_key_id e) (ve_wrapped e)) (\<lambda>(m, st).
     Inr (\<lparr>k_id = ve_key_id e, k_material = m\<rparr>, st))"

definition dp_key ::
    "(string \<Rightarrow> string result) \<Rightarrow> nat \<Rightarrow> nat \<Rightarrow> durable \<Rightarrow> string \<Rightarrow> (key \<times> durable) result" where
  "dp_key unwrap ttl now st key_id = (case vault_get (dp_vault st) key_id of
     None \<Rightarrow> Inl (KeyError key_id)
   | Some e \<Rightarrow> rbind (dp_material unwrap ttl now st key_id (ve_wrapped e)) (\<lambda>(m, st).
       Inr (\<lparr>k_id = key_id, k_material = m\<rparr>, st)))"

definition dp_mint_active ::
    "(string \<Rightarrow> string) \<Rightarrow> (string \<Rightarrow> string result) \<Rightarrow> (vault \<Rightarrow> string \<Rightarrow> string \<Rightarrow> string \<Rightarrow> string \<Rightarrow> vault result)
      \<Rightarrow> nat \<Rightarrow> nat \<Rightarrow> string \<Rightarrow> durable \<Rightarrow> string \<Rightarrow> (key \<times> durable) result" where
  "dp_mint_active HB wrap put ttl now material st scope =
     (let fresh = mint_key HB material
      in rbind (wrap (k_material fresh)) (\<lambda>wrapped.
         rbind (put (dp_vault st) (k_id fresh) scope wrapped ''active'') (\<lambda>v.
         Inr (fresh, st\<lparr>dp_vault := v, dp_cache := dict_set (k_id fresh) (k_material fresh, now + ttl) (dp_cache st)\<rparr>))))"

definition dp_mint_or_adopt where
  "dp_mint_or_adopt HB wrap unwrap put ttl now material st scope =
     (case dp_mint_active HB wrap put ttl now material st scope of
        Inr r \<Rightarrow> Inr r
      | Inl e \<Rightarrow>
          (if (case e of IntegrityError _ \<Rightarrow> True | ActiveKeyExists \<Rightarrow> True | _ \<Rightarrow> False)
           then (case vault_active_for (dp_vault st) scope of
                   None \<Rightarrow> Inl e
                 | Some entry \<Rightarrow> dp_to_key unwrap ttl now st entry)
           else Inl e))"

text \<open>
  \<open>env\<close> is what other sessions commit to the vault between the read of the active key and the write of a
  new one.
\<close>

definition dp_current_key where
  "dp_current_key HB wrap unwrap put ttl now material env st scope =
     (case vault_active_for (dp_vault st) scope of
        Some e \<Rightarrow> dp_to_key unwrap ttl now st e
      | None \<Rightarrow> dp_mint_or_adopt HB wrap unwrap put ttl now material (st\<lparr>dp_vault := env (dp_vault st)\<rparr>) scope)"

definition dp_rotate where
  "dp_rotate HB wrap unwrap put set_status ttl now material env st scope =
     (case vault_active_for (dp_vault st) scope of
        None \<Rightarrow> dp_mint_or_adopt HB wrap unwrap put ttl now material (st\<lparr>dp_vault := env (dp_vault st)\<rparr>) scope
      | Some prev \<Rightarrow>
          rbind (set_status (dp_vault st) (ve_key_id prev) ''retired'') (\<lambda>v.
          dp_mint_or_adopt HB wrap unwrap put ttl now material (st\<lparr>dp_vault := env v\<rparr>) scope))"


subsection \<open>Scopes\<close>

text \<open>A scope says exactly which domain and which type it is for: two pairs that have a scope have the
  same one only if they are the same pair, so no domain's key is ever another's.\<close>

theorem scope_for_inj:
  assumes "scope_for d t = Inr s" and "scope_for d' t' = Inr s"
  shows "d = d' \<and> t = t'"
proof -
  have sl: "d @ CHR ''/'' # t = d' @ CHR ''/'' # t' \<Longrightarrow> CHR ''/'' \<notin> set d \<Longrightarrow> CHR ''/'' \<notin> set d' \<Longrightarrow> d = d' \<and> t = t'"
    for d d' t t' :: string
    by (auto simp: append_eq_append_conv2 append_eq_Cons_conv Cons_eq_append_conv)
  have "CHR ''/'' \<notin> set t" "CHR ''/'' \<notin> set t'" "CHR ''/'' \<notin> set d" "CHR ''/'' \<notin> set d'"
      "s = (if d = DEFAULT_DOMAIN then t else d @ CHR ''/'' # t)"
      "s = (if d' = DEFAULT_DOMAIN then t' else d' @ CHR ''/'' # t')"
    using assms by (auto simp: scope_for_def split: if_splits)
  then show ?thesis using sl [of d t d' t'] by (auto split: if_splits)
qed

subsection \<open>The provider interface\<close>

text \<open>
  What re-encryption relies on: \<open>lookup\<close> is what the provider can resolve. Reading does not change it, and
  asking for the current key or rotating adds to it and never takes away.
\<close>

locale key_provider =
  fixes ok :: "'s \<Rightarrow> bool"
    and fresh :: "'s \<Rightarrow> bool"
    and lookup :: "'s \<Rightarrow> string \<Rightarrow> key option"
    and get :: "'s \<Rightarrow> string \<Rightarrow> (key \<times> 's) result"
    and current :: "'s \<Rightarrow> (key \<times> 's) result"
    and rotate :: "'s \<Rightarrow> (key \<times> 's) result"
  assumes get_known: "ok st \<Longrightarrow> lookup st i = Some k \<Longrightarrow> \<exists>st'. get st i = Inr (k, st') \<and> ok st' \<and> lookup st' = lookup st"
    and current_ok: "ok st \<Longrightarrow> fresh st \<Longrightarrow> current st = Inr (k, st') \<Longrightarrow> ok st' \<and> fresh st'
      \<and> lookup st' (k_id k) = Some k \<and> (\<forall>i x. lookup st i = Some x \<longrightarrow> lookup st' i = Some x)"
    and rotate_ok: "ok st \<Longrightarrow> fresh st \<Longrightarrow> rotate st = Inr (k, st') \<Longrightarrow> ok st'
      \<and> lookup st' (k_id k) = Some k \<and> (\<forall>i x. lookup st i = Some x \<longrightarrow> lookup st' i = Some x)"
begin

lemma current_then_rotate:
  assumes "ok st" and "fresh st" and "current st = Inr (old, st1)" and "rotate st1 = Inr (new, st2)"
  shows "ok st2 \<and> lookup st2 (k_id old) = Some old \<and> lookup st2 (k_id new) = Some new
    \<and> (\<forall>i x. lookup st i = Some x \<longrightarrow> lookup st2 i = Some x)"
  using current_ok [OF assms(1-3)] rotate_ok [OF _ _ assms(4)] by blast

end

subsubsection \<open>In memory\<close>

definition mp_wf :: "mem_provider \<Rightarrow> bool" where
  "mp_wf st = ((\<forall>i k. dict_get (mp_keys st) i = Some k \<longrightarrow> k_id k = i)
     \<and> (\<forall>sc i. dict_get (mp_current st) sc = Some i \<longrightarrow> dict_get (mp_keys st) i \<noteq> None))"

text \<open>The identifiers of the keys about to be minted are not those of other keys.\<close>

definition unclaimed :: "mem_provider \<Rightarrow> key \<Rightarrow> bool" where
  "unclaimed st k = (dict_get (mp_keys st) (k_id k) = None \<or> dict_get (mp_keys st) (k_id k) = Some k)"

definition mp_fresh :: "(string \<Rightarrow> string) \<Rightarrow> string \<Rightarrow> string \<Rightarrow> mem_provider \<Rightarrow> bool" where
  "mp_fresh HB m1 m2 st = (unclaimed st (mint_key HB m1) \<and> unclaimed st (mint_key HB m2)
     \<and> (k_id (mint_key HB m1) = k_id (mint_key HB m2) \<longrightarrow> mint_key HB m1 = mint_key HB m2))"

definition mp_get :: "mem_provider \<Rightarrow> string \<Rightarrow> (key \<times> mem_provider) result" where
  "mp_get st i = rbind (mp_key st i) (\<lambda>k. Inr (k, st))"

lemma mp_mint_ok:
  assumes "mp_wf st" and "unclaimed st (mint_key HB m)" and "mp_mint HB m scope st = (k, st')"
  shows "mp_wf st'" and "k = mint_key HB m" and "dict_get (mp_keys st') (k_id k) = Some k"
    and "dict_get (mp_current st') scope = Some (k_id k)"
    and "dict_get (mp_keys st) i = Some x \<Longrightarrow> dict_get (mp_keys st') i = Some x"
    and "unclaimed st k' \<Longrightarrow> (k_id k = k_id k' \<Longrightarrow> k = k') \<Longrightarrow> unclaimed st' k'"
proof -
  have k: "k = mint_key HB m" and st': "mp_keys st' = dict_set (k_id k) k (mp_keys st)"
      "mp_current st' = dict_set scope (k_id k) (mp_current st)"
    using assms(3) by (auto simp: mp_mint_def Let_def)
  show "k = mint_key HB m" by (rule k)
  show "mp_wf st'" using assms(1) by (simp add: mp_wf_def st')
  show "dict_get (mp_keys st') (k_id k) = Some k" "dict_get (mp_current st') scope = Some (k_id k)"
    by (simp_all add: st')
  show "dict_get (mp_keys st) i = Some x \<Longrightarrow> dict_get (mp_keys st') i = Some x"
    using assms(2) by (auto simp: st' unclaimed_def k)
  show "unclaimed st k' \<Longrightarrow> (k_id k = k_id k' \<Longrightarrow> k = k') \<Longrightarrow> unclaimed st' k'"
    by (simp add: unclaimed_def st')
qed

lemma mp_current_ok:
  assumes "mp_wf st" and "mp_fresh HB m1 m2 st" and "mp_current_key HB m1 scope st = Inr (k, st')"
  shows "mp_wf st' \<and> mp_fresh HB m1 m2 st' \<and> dict_get (mp_keys st') (k_id k) = Some k
    \<and> (\<forall>i x. dict_get (mp_keys st) i = Some x \<longrightarrow> dict_get (mp_keys st') i = Some x)"
proof (cases "dict_get (mp_current st) scope")
  case None
  obtain k0 st0 where m: "mp_mint HB m1 scope st = (k0, st0)" by (cases "mp_mint HB m1 scope st")
  have f: "unclaimed st (mint_key HB m1)" using assms(2) by (simp add: mp_fresh_def)
  note r = mp_mint_ok [OF assms(1) f m]
  have e: "k = k0" "st' = st0"
    using assms(3) None m r(3,4) by (simp_all add: mp_current_key_def Let_def)
  have "mp_fresh HB m1 m2 st0"
    using assms(2) r(2) r(6) [of "mint_key HB m1"] r(6) [of "mint_key HB m2"] by (simp add: mp_fresh_def)
  with r(1,3,5) e show ?thesis by simp
next
  case (Some i)
  then have "dict_get (mp_keys st) i = Some k" "st' = st"
    using assms(3) by (auto simp: mp_current_key_def Let_def split: option.splits)
  with assms(1,2) show ?thesis by (auto simp: mp_wf_def)
qed

interpretation kpm: key_provider mp_wf "mp_fresh HB m1 m2" "\<lambda>st. dict_get (mp_keys st)" mp_get
    "mp_current_key HB m1 scope" "mp_rotate HB m1 m2 scope" for HB m1 m2 scope
proof
  fix st :: mem_provider and i k
  assume "mp_wf st" "dict_get (mp_keys st) i = Some k"
  then show "\<exists>st'. mp_get st i = Inr (k, st') \<and> mp_wf st' \<and> dict_get (mp_keys st') = dict_get (mp_keys st)"
    by (simp add: mp_get_def mp_key_def)
next
  fix st k st'
  assume "mp_wf st" "mp_fresh HB m1 m2 st" "mp_current_key HB m1 scope st = Inr (k, st')"
  from mp_current_ok [OF this] show "mp_wf st' \<and> mp_fresh HB m1 m2 st' \<and> dict_get (mp_keys st') (k_id k) = Some k
      \<and> (\<forall>i x. dict_get (mp_keys st) i = Some x \<longrightarrow> dict_get (mp_keys st') i = Some x)" .
next
  fix st k st'
  assume a: "mp_wf st" "mp_fresh HB m1 m2 st" "mp_rotate HB m1 m2 scope st = Inr (k, st')"
  then obtain k1 st1 where c: "mp_current_key HB m1 scope st = Inr (k1, st1)" "mp_mint HB m2 scope st1 = (k, st')"
    by (auto simp: mp_rotate_def result_simps)
  note r = mp_current_ok [OF a(1,2) c(1)]
  then have "mp_wf st1" "unclaimed st1 (mint_key HB m2)" by (simp_all add: mp_fresh_def)
  from mp_mint_ok [OF this c(2)] r
  show "mp_wf st' \<and> dict_get (mp_keys st') (k_id k) = Some k
      \<and> (\<forall>i x. dict_get (mp_keys st) i = Some x \<longrightarrow> dict_get (mp_keys st') i = Some x)" by blast
qed


subsection \<open>The durable provider\<close>

definition vault_ok :: "vault \<Rightarrow> bool" where
  "vault_ok v = (dict_wf v \<and> (\<forall>i e. dict_get v i = Some e \<longrightarrow> ve_key_id e = i)
     \<and> (\<forall>i j e f. dict_get v i = Some e \<longrightarrow> dict_get v j = Some f \<longrightarrow> ve_scope e = ve_scope f
          \<longrightarrow> ve_status e = ''active'' \<longrightarrow> ve_status f = ''active'' \<longrightarrow> i = j))"

text \<open>What the provider needs of a vault store; both stores have it.\<close>

locale key_vault =
  fixes put :: "vault \<Rightarrow> string \<Rightarrow> string \<Rightarrow> string \<Rightarrow> string \<Rightarrow> vault result"
    and set_status :: "vault \<Rightarrow> string \<Rightarrow> string \<Rightarrow> vault result"
  assumes put_new: "dict_get v i = None \<Longrightarrow> put v i sc w ''active'' = Inr v' \<Longrightarrow>
      vault_active_for v sc = None
      \<and> v' = dict_set i \<lparr>ve_key_id = i, ve_scope = sc, ve_wrapped = w, ve_status = ''active''\<rparr> v"
    and put_err: "put v i sc w ''active'' = Inl err \<Longrightarrow>
      vault_active_for v sc \<noteq> None \<and> (err = ActiveKeyExists \<or> (\<exists>c. err = IntegrityError c))"
    and retire: "dict_get v i = Some e \<Longrightarrow> set_status v i ''retired'' = Inr (dict_set i (e\<lparr>ve_status := ''retired''\<rparr>) v)"

interpretation vmem: key_vault mem_vault_put mem_vault_set_status
  by unfold_locales (auto simp: mem_vault_put_def mem_vault_set_status_def split: if_splits)

interpretation vpg: key_vault pg_vault_put pg_vault_set_status
  by unfold_locales (auto simp: pg_vault_put_def pg_vault_set_status_def Let_def split: if_splits)

definition dp_lookup :: "(string \<Rightarrow> string result) \<Rightarrow> durable \<Rightarrow> string \<Rightarrow> key option" where
  "dp_lookup unwrap st i = (case dict_get (dp_vault st) i of
     None \<Rightarrow> None
   | Some e \<Rightarrow> (case unwrap (ve_wrapped e) of Inl _ \<Rightarrow> None | Inr m \<Rightarrow> Some \<lparr>k_id = i, k_material = m\<rparr>))"

text \<open>The cache never disagrees with the vault.\<close>

definition cache_ok :: "(string \<Rightarrow> string result) \<Rightarrow> vault \<Rightarrow> (string, string \<times> nat) dict \<Rightarrow> bool" where
  "cache_ok unwrap v c = (\<forall>i m x. dict_get c i = Some (m, x) \<longrightarrow>
     (\<exists>e. dict_get v i = Some e \<and> unwrap (ve_wrapped e) = Inr m))"

definition dp_ok :: "(string \<Rightarrow> string result) \<Rightarrow> durable \<Rightarrow> bool" where
  "dp_ok unwrap st = (vault_ok (dp_vault st) \<and> cache_ok unwrap (dp_vault st) (dp_cache st))"

definition transit_ok :: "(string \<Rightarrow> string result) \<Rightarrow> (string \<Rightarrow> string result) \<Rightarrow> bool" where
  "transit_ok wrap unwrap = (\<forall>p w. wrap p = Inr w \<longrightarrow> unwrap w = Inr p)"

definition extends :: "vault \<Rightarrow> vault \<Rightarrow> bool" where
  "extends v v' = (\<forall>i e. dict_get v i = Some e \<longrightarrow> (\<exists>e'. dict_get v' i = Some e' \<and> ve_wrapped e' = ve_wrapped e))"

text \<open>What other sessions may do meanwhile: add keys out of \<open>E\<close>, change statuses, keep the index.\<close>

definition env_ok :: "string set \<Rightarrow> (vault \<Rightarrow> vault) \<Rightarrow> bool" where
  "env_ok E env = (\<forall>v. vault_ok v \<longrightarrow> vault_ok (env v) \<and> extends v (env v)
     \<and> (\<forall>i. dict_get (env v) i \<noteq> None \<longrightarrow> dict_get v i \<noteq> None \<or> i \<in> E))"

lemma extends_lookup:
  assumes "extends (dp_vault st) (dp_vault st')" and "dp_lookup unwrap st i = Some k"
  shows "dp_lookup unwrap st' i = Some k"
  using assms by (fastforce simp: extends_def dp_lookup_def split: option.splits sum.splits)

lemma active_for_Some:
  assumes "vault_ok v" and "vault_active_for v sc = Some e"
  shows "dict_get v (ve_key_id e) = Some e \<and> ve_scope e = sc \<and> ve_status e = ''active''"
proof -
  from assms(2) have e: "e \<in> snd ` set v" "ve_scope e = sc" "ve_status e = ''active''"
    using find_SomeD by (fastforce simp: vault_active_for_def)+
  then obtain i where "(i, e) \<in> set v" by auto
  then have "dict_get v i = Some e" using assms(1) by (simp add: vault_ok_def dict_wf_mem)
  with assms(1) e show ?thesis by (auto simp: vault_ok_def)
qed

lemma active_for_None:
  assumes "vault_ok v" and "vault_active_for v sc = None" and "dict_get v i = Some e"
  shows "\<not> (ve_scope e = sc \<and> ve_status e = ''active'')"
  using assms(2) dict_get_SomeD [OF assms(3)] by (auto simp: vault_active_for_def find_None_iff)

lemma material:
  assumes "dp_ok unwrap st" and "dict_get (dp_vault st) i = Some e" and "unwrap (ve_wrapped e) = Inr m"
  shows "\<exists>st'. dp_material unwrap ttl now st i (ve_wrapped e) = Inr (m, st') \<and> dp_ok unwrap st' \<and> dp_vault st' = dp_vault st"
proof (cases "\<exists>m' x. dict_get (dp_cache st) i = Some (m', x) \<and> now < x")
  case True
  then obtain m' x where c: "dict_get (dp_cache st) i = Some (m', x)" "now < x" by blast
  then have "m' = m" using assms by (fastforce simp: dp_ok_def cache_ok_def)
  with c assms(1) show ?thesis by (simp add: dp_material_def)
next
  case False
  let ?st = "st\<lparr>dp_cache := dict_set i (m, now + ttl) (dp_cache st)\<rparr>"
  have "dp_material unwrap ttl now st i (ve_wrapped e) = Inr (m, ?st)"
    using False assms(3) by (auto simp: dp_material_def split: option.splits)
  moreover have "dp_ok unwrap ?st" using assms by (simp add: dp_ok_def cache_ok_def)
  ultimately show ?thesis by simp
qed

lemma material_fails:
  assumes "dp_ok unwrap st" and "dict_get (dp_vault st) i = Some e"
    and "dp_material unwrap ttl now st i (ve_wrapped e) = Inr (m, st')"
  shows "unwrap (ve_wrapped e) = Inr m"
  using assms by (fastforce simp: dp_material_def dp_ok_def cache_ok_def result_simps split: option.splits if_splits)

lemma to_key_ok:
  assumes "dp_ok unwrap st" and "vault_active_for (dp_vault st) sc = Some e"
    and "dp_to_key unwrap ttl now st e = Inr (k, st')"
  shows "dp_ok unwrap st' \<and> dp_vault st' = dp_vault st \<and> k_id k = ve_key_id e \<and> dp_lookup unwrap st' (k_id k) = Some k"
proof -
  have v: "dict_get (dp_vault st) (ve_key_id e) = Some e"
    using active_for_Some assms(1,2) by (simp add: dp_ok_def)
  obtain m where m: "dp_material unwrap ttl now st (ve_key_id e) (ve_wrapped e) = Inr (m, st')"
      "k = \<lparr>k_id = ve_key_id e, k_material = m\<rparr>"
    using assms(3) by (auto simp: dp_to_key_def result_simps)
  have u: "unwrap (ve_wrapped e) = Inr m" using material_fails [OF assms(1) v m(1)] .
  from material [OF assms(1) v u, of ttl now] m v u show ?thesis by (auto simp: dp_lookup_def)
qed

lemma vault_ok_add:
  assumes "vault_ok v" and "dict_get v i = None" and "vault_active_for v sc = None"
  shows "vault_ok (dict_set i \<lparr>ve_key_id = i, ve_scope = sc, ve_wrapped = w, ve_status = ''active''\<rparr> v)"
  using assms(1) active_for_None [OF assms(1,3)] unfolding vault_ok_def by (auto split: if_splits)

lemma vault_ok_retire:
  assumes "vault_ok v" and "dict_get v i = Some e"
  shows "vault_ok (dict_set i (e\<lparr>ve_status := ''retired''\<rparr>) v)"
  using assms unfolding vault_ok_def by (auto split: if_splits)

context key_vault begin

lemma mint_or_adopt:
  assumes t: "transit_ok wrap unwrap" and ok: "dp_ok unwrap st"
    and new: "dict_get (dp_vault st) (k_id (mint_key HB m)) = None"
    and r: "dp_mint_or_adopt HB wrap unwrap put ttl now m st sc = Inr (k, st')"
  shows "dp_ok unwrap st' \<and> dp_lookup unwrap st' (k_id k) = Some k \<and> extends (dp_vault st) (dp_vault st')
    \<and> (\<exists>e. vault_active_for (dp_vault st') sc = Some e \<and> ve_key_id e = k_id k)
    \<and> (\<forall>i. dict_get (dp_vault st') i \<noteq> None \<longrightarrow> dict_get (dp_vault st) i \<noteq> None \<or> i = k_id (mint_key HB m))"
proof (cases "dp_mint_active HB wrap put ttl now m st sc")
  case (Inr ks)
  let ?k = "mint_key HB m"
  have "k = ?k" and e: "ks = (k, st')"
    using r Inr by (auto simp: dp_mint_or_adopt_def dp_mint_active_def Let_def result_simps)
  from Inr obtain w v' where w: "wrap (k_material ?k) = Inr w" "put (dp_vault st) (k_id ?k) sc w ''active'' = Inr v'"
      "st' = st\<lparr>dp_vault := v', dp_cache := dict_set (k_id ?k) (k_material ?k, now + ttl) (dp_cache st)\<rparr>"
    unfolding e by (auto simp: dp_mint_active_def Let_def result_simps)
  from put_new [OF new w(2)] have v: "vault_active_for (dp_vault st) sc = None"
      "v' = dict_set (k_id ?k) \<lparr>ve_key_id = k_id ?k, ve_scope = sc, ve_wrapped = w, ve_status = ''active''\<rparr> (dp_vault st)"
    by auto
  have vok: "vault_ok (dp_vault st)" using ok by (simp add: dp_ok_def)
  have vok': "vault_ok v'" unfolding v(2) by (rule vault_ok_add [OF vok new v(1)])
  have u: "unwrap w = Inr (k_material ?k)" using t w(1) by (simp add: transit_ok_def)
  have c: "cache_ok unwrap v' (dp_cache st')"
    using ok new u by (auto simp: dp_ok_def cache_ok_def w(3) v(2))
  have ext: "extends (dp_vault st) v'" using new by (auto simp: extends_def v(2))
  have "vault_active_for v' sc = Some \<lparr>ve_key_id = k_id ?k, ve_scope = sc, ve_wrapped = w, ve_status = ''active''\<rparr>"
    using v(1) new unfolding v(2) by (subst dict_set_new) (auto simp: vault_active_for_def dict_get_None find_append)
  then show ?thesis
    using vok' c ext u \<open>k = ?k\<close> unfolding w(3) dp_ok_def by (auto simp: dp_lookup_def v(2) dp_ok_def)
next
  case (Inl e)
  then obtain en where en: "vault_active_for (dp_vault st) sc = Some en" "dp_to_key unwrap ttl now st en = Inr (k, st')"
    using r by (auto simp: dp_mint_or_adopt_def split: if_splits option.splits)
  from to_key_ok [OF ok en] en(1) show ?thesis by (auto simp: extends_def)
qed

end


lemma cache_extends: "cache_ok unwrap v c \<Longrightarrow> extends v v' \<Longrightarrow> cache_ok unwrap v' c"
  unfolding cache_ok_def extends_def by metis

lemma extends_trans: "extends a b \<Longrightarrow> extends b c \<Longrightarrow> extends a c"
  unfolding extends_def by metis

lemma extends_refl [simp]: "extends v v"
  by (simp add: extends_def)

lemma env_step:
  assumes "env_ok E env" and "dp_ok unwrap st"
  shows "dp_ok unwrap (st\<lparr>dp_vault := env (dp_vault st)\<rparr>)" and "extends (dp_vault st) (env (dp_vault st))"
    and "i \<notin> E \<Longrightarrow> dict_get (dp_vault st) i = None \<Longrightarrow> dict_get (env (dp_vault st)) i = None"
proof -
  have "vault_ok (dp_vault st)" using assms(2) by (simp add: dp_ok_def)
  then have e: "vault_ok (env (dp_vault st))" "extends (dp_vault st) (env (dp_vault st))"
      "\<forall>i. dict_get (env (dp_vault st)) i \<noteq> None \<longrightarrow> dict_get (dp_vault st) i \<noteq> None \<or> i \<in> E"
    using assms(1) unfolding env_ok_def by blast+
  then show "dp_ok unwrap (st\<lparr>dp_vault := env (dp_vault st)\<rparr>)" "extends (dp_vault st) (env (dp_vault st))"
    using assms(2) cache_extends by (auto simp: dp_ok_def)
  show "i \<notin> E \<Longrightarrow> dict_get (dp_vault st) i = None \<Longrightarrow> dict_get (env (dp_vault st)) i = None"
    using e(3) by blast
qed

text \<open>The two identifiers that may be minted are new, also to the other sessions.\<close>

definition dp_fresh :: "(string \<Rightarrow> string) \<Rightarrow> string set \<Rightarrow> string \<Rightarrow> string \<Rightarrow> string \<Rightarrow> durable \<Rightarrow> bool" where
  "dp_fresh HB E m1 m2 sc st =
     (k_id (mint_key HB m1) \<noteq> k_id (mint_key HB m2)
      \<and> k_id (mint_key HB m1) \<notin> E \<and> k_id (mint_key HB m2) \<notin> E
      \<and> dict_get (dp_vault st) (k_id (mint_key HB m2)) = None
      \<and> (vault_active_for (dp_vault st) sc \<noteq> None \<or> dict_get (dp_vault st) (k_id (mint_key HB m1)) = None))"

definition dp_all_ok where
  "dp_all_ok wrap unwrap E env st = (transit_ok wrap unwrap \<and> env_ok E env \<and> dp_ok unwrap st)"

context key_vault begin

lemma current_key_ok:
  assumes ok: "dp_all_ok wrap unwrap E env st" and f: "dp_fresh HB E m1 m2 sc st"
    and r: "dp_current_key HB wrap unwrap put ttl now m1 env st sc = Inr (k, st')"
  shows "dp_all_ok wrap unwrap E env st' \<and> dp_fresh HB E m1 m2 sc st' \<and> dp_lookup unwrap st' (k_id k) = Some k
    \<and> extends (dp_vault st) (dp_vault st')
    \<and> (\<exists>e. vault_active_for (dp_vault st') sc = Some e \<and> ve_key_id e = k_id k)"
proof (cases "vault_active_for (dp_vault st) sc")
  case (Some e)
  have d: "dp_ok unwrap st" using ok by (simp add: dp_all_ok_def)
  have "dp_to_key unwrap ttl now st e = Inr (k, st')" using r Some by (simp add: dp_current_key_def)
  from to_key_ok [OF d Some this] Some ok f show ?thesis by (auto simp: dp_all_ok_def dp_fresh_def)
next
  case None
  have d: "dp_ok unwrap st" and t: "transit_ok wrap unwrap" and e: "env_ok E env"
    using ok by (simp_all add: dp_all_ok_def)
  let ?st = "st\<lparr>dp_vault := env (dp_vault st)\<rparr>"
  note es = env_step [OF e d]
  have n: "dict_get (dp_vault ?st) (k_id (mint_key HB m1)) = None"
    using f None es(3) by (auto simp: dp_fresh_def)
  have "dp_mint_or_adopt HB wrap unwrap put ttl now m1 ?st sc = Inr (k, st')"
    using r None by (simp add: dp_current_key_def)
  note m = mint_or_adopt [OF t es(1) n this]
  have n2: "dict_get (env (dp_vault st)) (k_id (mint_key HB m2)) = None"
    using f es(3) by (auto simp: dp_fresh_def)
  have "dp_fresh HB E m1 m2 sc st'" using f m n2 unfolding dp_fresh_def by auto
  moreover have "extends (dp_vault st) (dp_vault st')" using m es(2) extends_trans by auto
  ultimately show ?thesis using m t e by (auto simp: dp_all_ok_def)
qed

lemma rotate_ok:
  assumes ok: "dp_all_ok wrap unwrap E env st" and f: "dp_fresh HB E m1 m2 sc st"
    and r: "dp_rotate HB wrap unwrap put set_status ttl now m2 env st sc = Inr (k, st')"
  shows "dp_all_ok wrap unwrap E env st' \<and> dp_lookup unwrap st' (k_id k) = Some k
    \<and> extends (dp_vault st) (dp_vault st')
    \<and> (\<exists>e. vault_active_for (dp_vault st') sc = Some e \<and> ve_key_id e = k_id k)"
proof -
  have d: "dp_ok unwrap st" and t: "transit_ok wrap unwrap" and e: "env_ok E env"
    using ok by (simp_all add: dp_all_ok_def)
  have "\<exists>v. vault_ok v \<and> extends (dp_vault st) v \<and> dict_get v (k_id (mint_key HB m2)) = None
      \<and> dp_mint_or_adopt HB wrap unwrap put ttl now m2 (st\<lparr>dp_vault := env v\<rparr>) sc = Inr (k, st')"
  proof (cases "vault_active_for (dp_vault st) sc")
    case None
    then show ?thesis using r d f by (intro exI [of _ "dp_vault st"]) (simp add: dp_rotate_def dp_ok_def dp_fresh_def)
  next
    case (Some prev)
    have vok: "vault_ok (dp_vault st)" using d by (simp add: dp_ok_def)
    have p: "dict_get (dp_vault st) (ve_key_id prev) = Some prev"
      using active_for_Some [OF vok Some] by blast
    let ?v = "dict_set (ve_key_id prev) (prev\<lparr>ve_status := ''retired''\<rparr>) (dp_vault st)"
    have "dp_mint_or_adopt HB wrap unwrap put ttl now m2 (st\<lparr>dp_vault := env ?v\<rparr>) sc = Inr (k, st')"
      using r Some retire [OF p] by (simp add: dp_rotate_def)
    moreover have "extends (dp_vault st) ?v" using p by (simp add: extends_def)
    moreover have "dict_get ?v (k_id (mint_key HB m2)) = None"
      using f p by (auto simp: dp_fresh_def)
    ultimately show ?thesis using vault_ok_retire [OF vok p] by blast
  qed
  then obtain v where v: "vault_ok v" "extends (dp_vault st) v" "dict_get v (k_id (mint_key HB m2)) = None"
      "dp_mint_or_adopt HB wrap unwrap put ttl now m2 (st\<lparr>dp_vault := env v\<rparr>) sc = Inr (k, st')" by blast
  let ?s = "st\<lparr>dp_vault := v\<rparr>"
  have s: "dp_ok unwrap ?s" using d v cache_extends by (auto simp: dp_ok_def)
  note es = env_step [OF e s, simplified]
  have n: "dict_get (env v) (k_id (mint_key HB m2)) = None"
    using v(3) f es(3) by (auto simp: dp_fresh_def)
  have n': "dict_get (dp_vault (st\<lparr>dp_vault := env v\<rparr>)) (k_id (mint_key HB m2)) = None"
    using n by simp
  from mint_or_adopt [OF t es(1) n' v(4)]
  have m: "dp_ok unwrap st' \<and> dp_lookup unwrap st' (k_id k) = Some k \<and> extends (env v) (dp_vault st')
    \<and> (\<exists>e. vault_active_for (dp_vault st') sc = Some e \<and> ve_key_id e = k_id k)" by simp
  have "extends (dp_vault st) (dp_vault st')"
    using m v(2) es(2) extends_trans by blast
  with m t e show ?thesis by (simp add: dp_all_ok_def)
qed

end

lemma dp_key_known:
  assumes "dp_all_ok wrap unwrap E env st" and "dp_lookup unwrap st i = Some k"
  shows "\<exists>st'. dp_key unwrap ttl now st i = Inr (k, st') \<and> dp_all_ok wrap unwrap E env st' \<and> dp_vault st' = dp_vault st"
proof -
  obtain e m where e: "dict_get (dp_vault st) i = Some e" "unwrap (ve_wrapped e) = Inr m" "k = \<lparr>k_id = i, k_material = m\<rparr>"
    using assms(2) by (auto simp: dp_lookup_def split: option.splits sum.splits)
  have "dp_ok unwrap st" using assms(1) by (simp add: dp_all_ok_def)
  from material [OF this e(1,2), of ttl now] e assms(1) show ?thesis
    by (auto simp: dp_key_def vault_get_def dp_all_ok_def)
qed

lemma dp_lookup_vault: "dp_vault st' = dp_vault st \<Longrightarrow> dp_lookup unwrap st' = dp_lookup unwrap st"
  by (rule ext) (simp add: dp_lookup_def)

interpretation kpd: key_provider "dp_all_ok wrap unwrap E env" "dp_fresh HB E m1 m2 sc" "dp_lookup unwrap"
    "\<lambda>st. dp_key unwrap ttl now st"
    "\<lambda>st. dp_current_key HB wrap unwrap pg_vault_put ttl now m1 env st sc"
    "\<lambda>st. dp_rotate HB wrap unwrap pg_vault_put pg_vault_set_status ttl now m2 env st sc"
  for wrap unwrap E env HB m1 m2 sc ttl now
proof
  fix st i k
  assume "dp_all_ok wrap unwrap E env st" "dp_lookup unwrap st i = Some k"
  from dp_key_known [OF this, of ttl now]
  show "\<exists>st'. dp_key unwrap ttl now st i = Inr (k, st') \<and> dp_all_ok wrap unwrap E env st' \<and> dp_lookup unwrap st' = dp_lookup unwrap st"
    using dp_lookup_vault by blast
next
  fix st k st'
  assume "dp_all_ok wrap unwrap E env st" "dp_fresh HB E m1 m2 sc st"
    "dp_current_key HB wrap unwrap pg_vault_put ttl now m1 env st sc = Inr (k, st')"
  from vpg.current_key_ok [OF this] extends_lookup
  show "dp_all_ok wrap unwrap E env st' \<and> dp_fresh HB E m1 m2 sc st' \<and> dp_lookup unwrap st' (k_id k) = Some k
      \<and> (\<forall>i x. dp_lookup unwrap st i = Some x \<longrightarrow> dp_lookup unwrap st' i = Some x)" by blast
next
  fix st k st'
  assume "dp_all_ok wrap unwrap E env st" "dp_fresh HB E m1 m2 sc st"
    "dp_rotate HB wrap unwrap pg_vault_put pg_vault_set_status ttl now m2 env st sc = Inr (k, st')"
  from vpg.rotate_ok [OF this] extends_lookup
  show "dp_all_ok wrap unwrap E env st' \<and> dp_lookup unwrap st' (k_id k) = Some k
      \<and> (\<forall>i x. dp_lookup unwrap st i = Some x \<longrightarrow> dp_lookup unwrap st' i = Some x)" by blast
qed

text \<open>The vault after the first write of a rotation: the active key of the scope, if there is one, is retired.\<close>

definition retire_active :: "vault \<Rightarrow> string \<Rightarrow> vault" where
  "retire_active v sc = (case vault_active_for v sc of
     None \<Rightarrow> v | Some p \<Rightarrow> dict_set (ve_key_id p) (p\<lparr>ve_status := ''retired''\<rparr>) v)"

context key_vault begin

lemma minted_or_adopted:
  assumes new: "dict_get (dp_vault st) (k_id (mint_key HB m)) = None"
    and r: "dp_mint_or_adopt HB wrap unwrap put ttl now m st sc = Inr (k, st')"
  shows "k = mint_key HB m \<and> vault_active_for (dp_vault st) sc = None \<and> (\<forall>i. i \<noteq> k_id k \<longrightarrow> dict_get (dp_vault st') i = dict_get (dp_vault st) i)
    \<or> (\<exists>e. vault_active_for (dp_vault st) sc = Some e \<and> ve_key_id e = k_id k)"
proof (cases "dp_mint_active HB wrap put ttl now m st sc")
  case (Inr ks)
  have e: "ks = (k, st')" using r Inr by (simp add: dp_mint_or_adopt_def)
  from Inr obtain w v' where w: "put (dp_vault st) (k_id (mint_key HB m)) sc w ''active'' = Inr v'" "k = mint_key HB m" "dp_vault st' = v'"
    unfolding e by (auto simp: dp_mint_active_def Let_def result_simps)
  from put_new [OF new w(1)] show ?thesis by (auto simp: w)
next
  case (Inl e)
  then show ?thesis using r
    by (auto simp: dp_mint_or_adopt_def dp_to_key_def result_simps split: if_splits option.splits)
qed

lemma rotate_retires:
  assumes "vault_ok (dp_vault st)"
  shows "dp_rotate HB wrap unwrap put set_status ttl now m env st sc
    = dp_mint_or_adopt HB wrap unwrap put ttl now m (st\<lparr>dp_vault := env (retire_active (dp_vault st) sc)\<rparr>) sc"
proof (cases "vault_active_for (dp_vault st) sc")
  case (Some p)
  then show ?thesis
    using retire [of "dp_vault st" "ve_key_id p" p] active_for_Some [OF assms Some] by (simp add: dp_rotate_def retire_active_def)
qed (simp add: dp_rotate_def retire_active_def)

end

lemma retire_active_ok:
  assumes "vault_ok v"
  shows "vault_ok (retire_active v sc)" and "dict_get v i = None \<Longrightarrow> dict_get (retire_active v sc) i = None"
    and "dict_get v i \<noteq> None \<Longrightarrow> dict_get (retire_active v sc) i \<noteq> None"
  using active_for_Some [OF assms] vault_ok_retire [OF assms] assms by (auto simp: retire_active_def split: option.split)

text \<open>What the key of a rotation is.\<close>

lemma rotate_mints:
  assumes "env_ok E env" and "dp_ok unwrap st" and "dp_fresh HB E m1 m2 sc st"
    and "dp_rotate HB wrap unwrap pg_vault_put pg_vault_set_status ttl now m2 env st sc = Inr (k, st')"
  shows "k = mint_key HB m2 \<and> dict_get (dp_vault st) (k_id k) = None
         \<and> (\<forall>p. vault_active_for (dp_vault st) sc = Some p \<longrightarrow> ve_key_id p \<noteq> k_id k \<and> dict_get (dp_vault st') (ve_key_id p)
              = dict_get (env (dict_set (ve_key_id p) (p\<lparr>ve_status := ''retired''\<rparr>) (dp_vault st))) (ve_key_id p))
       \<or> (\<exists>e. vault_active_for (env (retire_active (dp_vault st) sc)) sc = Some e \<and> ve_key_id e = k_id k)"
proof -
  let ?v = "retire_active (dp_vault st) sc"
  have ok: "vault_ok (dp_vault st)" using assms(2) by (simp add: dp_ok_def)
  have e: "vault_ok (env ?v)" "extends ?v (env ?v)" "\<forall>i. dict_get (env ?v) i \<noteq> None \<longrightarrow> dict_get ?v i \<noteq> None \<or> i \<in> E"
    using assms(1) retire_active_ok(1) [OF ok] unfolding env_ok_def by blast+
  have old: "dict_get (dp_vault st) (k_id (mint_key HB m2)) = None" using assms(3) by (simp add: dp_fresh_def)
  have "dict_get ?v (k_id (mint_key HB m2)) = None" using retire_active_ok(2) [OF ok old] .
  then have n: "dict_get (dp_vault (st\<lparr>dp_vault := env ?v\<rparr>)) (k_id (mint_key HB m2)) = None"
    using e(3) assms(3) by (auto simp: dp_fresh_def)
  have r: "dp_mint_or_adopt HB wrap unwrap pg_vault_put ttl now m2 (st\<lparr>dp_vault := env ?v\<rparr>) sc = Inr (k, st')"
    using assms(4) by (simp only: vpg.rotate_retires [OF ok])
  from vpg.minted_or_adopted [OF n r] consider
      (minted) "k = mint_key HB m2" "vault_active_for (env ?v) sc = None" "\<forall>i. i \<noteq> k_id k \<longrightarrow> dict_get (dp_vault st') i = dict_get (env ?v) i"
    | (adopted) "\<exists>e. vault_active_for (env ?v) sc = Some e \<and> ve_key_id e = k_id k"
    by auto
  then show ?thesis
  proof cases
    case minted
    have "ve_key_id p \<noteq> k_id k \<and> dict_get (dp_vault st') (ve_key_id p) = dict_get (env ?v) (ve_key_id p)
        \<and> ?v = dict_set (ve_key_id p) (p\<lparr>ve_status := ''retired''\<rparr>) (dp_vault st)"
      if p: "vault_active_for (dp_vault st) sc = Some p" for p
    proof -
      have "ve_key_id p \<noteq> k_id k" using active_for_Some [OF ok p] old minted(1) by auto
      then show ?thesis using minted(3) by (simp add: retire_active_def p)
    qed
    then show ?thesis using minted(1) old by metis
  qed simp
qed

text \<open>C17: Rotation leaves one active key, a new one, and loses none. Whatever other sessions commit to the vault between the retirement of the old
  key and the write of the new one (they may add keys with identifiers of their own, change statuses, keep one active key per scope, and take no key away),
  a rotation that returns a key returns the one active key of the scope in the vault, and every key that could be resolved before still
  is. The key is the minted one, which no vault held before, and the key that was active is then not active any more and stands as the
  retirement and the other sessions left it; or it is the key that another session has made the active one of the scope after the retirement.
  The condition on the minted material is that its identifier is new, to the vault and to the other sessions.\<close>

theorem rotate_single_active:
  assumes "transit_ok wrap unwrap" and "env_ok E env" and "dp_ok unwrap st" and "dp_fresh HB E m1 m2 sc st"
    and "dp_rotate HB wrap unwrap pg_vault_put pg_vault_set_status ttl now m2 env st sc = Inr (k, st')"
  shows "vault_ok (dp_vault st') \<and> dp_lookup unwrap st' (k_id k) = Some k
    \<and> (\<forall>i e. dict_get (dp_vault st') i = Some e \<and> ve_scope e = sc \<and> ve_status e = ''active'' \<longleftrightarrow>
         dict_get (dp_vault st') i = Some e \<and> i = k_id k)
    \<and> (\<forall>i x. dp_lookup unwrap st i = Some x \<longrightarrow> dp_lookup unwrap st' i = Some x)
    \<and> (k = mint_key HB m2 \<and> dict_get (dp_vault st) (k_id k) = None
         \<and> (\<forall>p. vault_active_for (dp_vault st) sc = Some p \<longrightarrow> ve_key_id p \<noteq> k_id k \<and> dict_get (dp_vault st') (ve_key_id p)
              = dict_get (env (dict_set (ve_key_id p) (p\<lparr>ve_status := ''retired''\<rparr>) (dp_vault st))) (ve_key_id p))
       \<or> (\<exists>e. vault_active_for (env (retire_active (dp_vault st) sc)) sc = Some e \<and> ve_key_id e = k_id k))"
proof -
  have "dp_all_ok wrap unwrap E env st" using assms(1-3) by (simp add: dp_all_ok_def)
  note r = vpg.rotate_ok [OF this assms(4,5)]
  then have v: "vault_ok (dp_vault st')" by (simp add: dp_all_ok_def dp_ok_def)
  obtain a where a: "vault_active_for (dp_vault st') sc = Some a" "ve_key_id a = k_id k" using r by blast
  note a' = active_for_Some [OF v a(1), unfolded a(2)]
  have only: "i = k_id k" if "dict_get (dp_vault st') i = Some e" "ve_scope e = sc" "ve_status e = ''active''" for i e
  proof -
    have "ve_scope e = ve_scope a" "ve_status a = ''active''" using a' that(2) by auto
    with v a' that(1,3) show ?thesis unfolding vault_ok_def by blast
  qed
  have act: "(dict_get (dp_vault st') i = Some e \<and> ve_scope e = sc \<and> ve_status e = ''active'')
      = (dict_get (dp_vault st') i = Some e \<and> i = k_id k)" for i e
    using only [of i e] a' by (metis option.inject)
  have "extends (dp_vault st) (dp_vault st')" using r by blast
  note kept = extends_lookup [OF this]
  have lk: "dp_lookup unwrap st' (k_id k) = Some k" using r by blast
  have new: "k = mint_key HB m2 \<and> dict_get (dp_vault st) (k_id k) = None
         \<and> (\<forall>p. vault_active_for (dp_vault st) sc = Some p \<longrightarrow> ve_key_id p \<noteq> k_id k \<and> dict_get (dp_vault st') (ve_key_id p)
              = dict_get (env (dict_set (ve_key_id p) (p\<lparr>ve_status := ''retired''\<rparr>) (dp_vault st))) (ve_key_id p))
       \<or> (\<exists>e. vault_active_for (env (retire_active (dp_vault st) sc)) sc = Some e \<and> ve_key_id e = k_id k)"
    by (rule rotate_mints [OF assms(2-5)])
  show ?thesis using v lk kept new act by (intro conjI allI impI) simp_all
qed

subsection \<open>Concrete instances\<close>

text \<open>A digest that tells two materials apart, a key service that stores keys as they are, an empty vault.\<close>

definition sample_hb :: "string \<Rightarrow> string" where
  "sample_hb s = s @ replicate 64 (CHR ''a'')"

definition sample_wrap :: "string \<Rightarrow> string result" where
  "sample_wrap = Inr"

definition sample_dp :: durable where
  "sample_dp = \<lparr>dp_vault = [], dp_cache = []\<rparr>"

definition sample_key :: key where
  "sample_key = \<lparr>k_id = ''id:maaaaaaaa'', k_material = ''m''\<rparr>"

definition sample_dp' :: durable where
  "sample_dp' = \<lparr>dp_vault = [(''id:maaaaaaaa'', \<lparr>ve_key_id = ''id:maaaaaaaa'', ve_scope = ''EMAIL'',
     ve_wrapped = ''m'', ve_status = ''active''\<rparr>)], dp_cache = [(''id:maaaaaaaa'', ''m'', 5)]\<rparr>"

lemma scope_for_inj_witness:
  "''a'' = ''a'' \<and> ''EMAIL'' = ''EMAIL''"
  by (rule scope_for_inj [of _ _ "''a/EMAIL''"]) code_simp+

lemma sample_dp_ok [simp]: "dp_ok unwrap sample_dp"
  by (simp add: dp_ok_def vault_ok_def cache_ok_def sample_dp_def)

lemma sample_env_ok [simp]: "env_ok {} (\<lambda>v. v)"
  by (auto simp: env_ok_def extends_def)

lemma sample_transit_ok [simp]: "transit_ok sample_wrap sample_wrap"
  by (simp add: transit_ok_def sample_wrap_def)

lemma sample_ids: "k_id (mint_key sample_hb ''m'') = ''id:maaaaaaaa''" "k_id (mint_key sample_hb ''n'') = ''id:naaaaaaaa''"
  by code_simp+

lemma sample_fresh [simp]: "dp_fresh sample_hb {} ''n'' ''m'' ''EMAIL'' sample_dp"
  by (simp add: dp_fresh_def sample_dp_def sample_ids)

lemma sample_rotate: "dp_rotate sample_hb sample_wrap sample_wrap pg_vault_put pg_vault_set_status 5 0 ''m'' (\<lambda>v. v) sample_dp ''EMAIL''
    = Inr (sample_key, sample_dp')"
  by code_simp

text \<open>A vault with an active key, and a rotation that retires it.\<close>

definition sample_key2 :: key where
  "sample_key2 = \<lparr>k_id = ''id:naaaaaaaa'', k_material = ''n''\<rparr>"

definition sample_dp2 :: durable where
  "sample_dp2 = \<lparr>dp_vault = [(''id:maaaaaaaa'', \<lparr>ve_key_id = ''id:maaaaaaaa'', ve_scope = ''EMAIL'', ve_wrapped = ''m'', ve_status = ''retired''\<rparr>),
       (''id:naaaaaaaa'', \<lparr>ve_key_id = ''id:naaaaaaaa'', ve_scope = ''EMAIL'', ve_wrapped = ''n'', ve_status = ''active''\<rparr>)],
     dp_cache = [(''id:maaaaaaaa'', ''m'', 5), (''id:naaaaaaaa'', ''n'', 5)]\<rparr>"

lemma sample_active_ok: "dp_ok sample_wrap sample_dp'"
  by (simp add: dp_ok_def vault_ok_def cache_ok_def dict_wf_def sample_dp'_def sample_wrap_def)

lemma sample_fresh2: "dp_fresh sample_hb {} ''m'' ''n'' ''EMAIL'' sample_dp'"
  by (simp add: dp_fresh_def sample_dp'_def sample_ids vault_active_for_def)

lemma sample_rotate2: "dp_rotate sample_hb sample_wrap sample_wrap pg_vault_put pg_vault_set_status 5 0 ''n'' (\<lambda>v. v) sample_dp' ''EMAIL''
    = Inr (sample_key2, sample_dp2)"
  by code_simp

lemma rotate_single_active_witness:
  "vault_ok (dp_vault sample_dp2) \<and> dp_lookup sample_wrap sample_dp2 (k_id sample_key2) = Some sample_key2
    \<and> (\<forall>i e. dict_get (dp_vault sample_dp2) i = Some e \<and> ve_scope e = ''EMAIL'' \<and> ve_status e = ''active'' \<longleftrightarrow>
         dict_get (dp_vault sample_dp2) i = Some e \<and> i = k_id sample_key2)
    \<and> dp_lookup sample_wrap sample_dp2 (k_id sample_key) = Some sample_key \<and> sample_key2 = mint_key sample_hb ''n''"
proof -
  note r = rotate_single_active [OF sample_transit_ok sample_env_ok sample_active_ok sample_fresh2 sample_rotate2]
  have "dp_lookup sample_wrap sample_dp' (k_id sample_key) = Some sample_key"
    by (simp add: dp_lookup_def sample_dp'_def sample_key_def sample_wrap_def)
  moreover have "sample_key2 = mint_key sample_hb ''n''" by code_simp
  ultimately show ?thesis using r by blast
qed

end
