(* ===== verification/MappingStore.thy ===== *)
theory MappingStore
  imports Keys
begin

text \<open>
  \<open>crypto.py\<close>, \<open>mapping_store.py\<close> and \<open>key_lifecycle.py\<close>: encrypting, the pseudonym-to-ciphertext stores,
  and rotating a scope's key with re-encryption of its mappings. AES-GCM is the library's: \<open>enc\<close> and
  \<open>dec\<close> take key, nonce, text and associated data, and \<open>aead_ok\<close> is its documented behaviour, that
  decryption yields a text exactly for the ciphertext that text encrypts to under the same key, nonce and
  data, and is refused otherwise. Nonces are drawn by the caller: \<open>nonces\<close> gives the i-th of a run.
\<close>

definition aead_ok :: "(string \<Rightarrow> string \<Rightarrow> string \<Rightarrow> string \<Rightarrow> string) \<Rightarrow>
    (string \<Rightarrow> string \<Rightarrow> string \<Rightarrow> string \<Rightarrow> string option) \<Rightarrow> bool" where
  "aead_ok enc dec = (\<forall>k n c a p. dec k n c a = Some p \<longleftrightarrow> c = enc k n p a)"

lemma aead_dec_enc: "aead_ok enc dec \<Longrightarrow> dec k n (enc k n p a) a = Some p"
  by (simp add: aead_ok_def)

definition encrypt where
  "encrypt enc nonce k plaintext = (enc k nonce (utf8 plaintext) [], nonce :: string)"

definition decrypt :: "(string \<Rightarrow> string \<Rightarrow> string \<Rightarrow> string \<Rightarrow> string option) \<Rightarrow> string \<Rightarrow> string \<Rightarrow> string \<Rightarrow> string result" where
  "decrypt dec k ciphertext nonce = (case dec k nonce ciphertext [] of
     None \<Rightarrow> Inl InvalidTag | Some b \<Rightarrow> utf8_decode b)"

lemma decrypt_encrypt:
  "aead_ok enc dec \<Longrightarrow> encrypt enc nonce k p = (c, n) \<Longrightarrow> decrypt dec k c n = Inr p"
  by (auto simp: encrypt_def decrypt_def aead_dec_enc)

record mapping =
  m_pseudonym :: string
  m_ciphertext :: string
  m_nonce :: string
  m_key_id :: string
  m_norm_version :: "string option"

type_synonym mappings = "(string, mapping) dict"

definition mapping_get :: "mappings \<Rightarrow> string \<Rightarrow> mapping option" where
  "mapping_get d pseudonym = dict_get d pseudonym"

text \<open>\<open>INSERT ... ON CONFLICT DO NOTHING\<close>, and \<open>setdefault\<close> of the in-memory store.\<close>

definition pg_mapping_put :: "mappings \<Rightarrow> string \<Rightarrow> string \<Rightarrow> string \<Rightarrow> string \<Rightarrow> string option \<Rightarrow> mappings" where
  "pg_mapping_put d pseudonym ciphertext nonce key_id norm_version =
     (if dict_get d pseudonym \<noteq> None then d
      else d @ [(pseudonym, \<lparr>m_pseudonym = pseudonym, m_ciphertext = ciphertext, m_nonce = nonce,
             m_key_id = key_id, m_norm_version = norm_version\<rparr>)])"

definition mem_mapping_put :: "mappings \<Rightarrow> string \<Rightarrow> string \<Rightarrow> string \<Rightarrow> string \<Rightarrow> string option \<Rightarrow> mappings" where
  "mem_mapping_put d pseudonym ciphertext nonce key_id norm_version =
     (case dict_get d pseudonym of
        Some _ \<Rightarrow> d
      | None \<Rightarrow> dict_set pseudonym \<lparr>m_pseudonym = pseudonym, m_ciphertext = ciphertext, m_nonce = nonce,
             m_key_id = key_id, m_norm_version = norm_version\<rparr> d)"

text \<open>One row of \<open>reencrypt\<close>, and the loop over the rows; \<open>i\<close> counts the nonces drawn.\<close>

definition reencrypt_row where
  "reencrypt_row enc dec old new new_id nonce m =
     rbind (decrypt dec (k_material old) (m_ciphertext m) (m_nonce m)) (\<lambda>plaintext.
     let (c, n) = encrypt enc nonce (k_material new) plaintext
     in Inr (m\<lparr>m_ciphertext := c, m_nonce := n, m_key_id := new_id\<rparr>))"

fun reencrypt_rows where
  "reencrypt_rows enc dec old old_id new new_id nonces i [] = Inr ([], 0)"
| "reencrypt_rows enc dec old old_id new new_id nonces i ((p, m) # d) =
     (if m_key_id m \<noteq> old_id then
        rbind (reencrypt_rows enc dec old old_id new new_id nonces i d) (\<lambda>(d', n). Inr ((p, m) # d', n))
      else
        rbind (reencrypt_row enc dec old new new_id (nonces i) m) (\<lambda>m'.
        rbind (reencrypt_rows enc dec old old_id new new_id nonces (Suc i) d) (\<lambda>(d', n).
        Inr ((p, m') # d', Suc n))))"

definition reencrypt where
  "reencrypt enc dec get nonces old_id new_id st d =
     rbind (get st old_id) (\<lambda>(old, st).
     rbind (get st new_id) (\<lambda>(new, st).
     rbind (reencrypt_rows enc dec old old_id new new_id nonces (0 :: nat) d) (\<lambda>(d', n).
     Inr (d', n, st))))"

text \<open>\<open>rotate_keys\<close>: the escrow is the argument \<open>deposit\<close>.\<close>

definition rotate_keys where
  "rotate_keys enc dec get current rotate_to deposit nonces H now st d esc kdb actor scope =
     rbind (current st) (\<lambda>(old, st).
     rbind (rotate_to st) (\<lambda>(new, st).
     rbind (deposit esc new) (\<lambda>esc.
     rbind (reencrypt enc dec get nonces (k_id old) (k_id new) st d) (\<lambda>(d', count, st).
     rbind (rotation_event H now kdb (k_id old) (k_id new) count actor (Some scope)) (\<lambda>kdb.
     Inr (new, st, d', esc, kdb))))))"

subsection \<open>The store interface\<close>

text \<open>The first value stored for a pseudonym stays; another pseudonym is not touched.\<close>

locale mapping_store =
  fixes put :: "mappings \<Rightarrow> string \<Rightarrow> string \<Rightarrow> string \<Rightarrow> string \<Rightarrow> string option \<Rightarrow> mappings"
  assumes get_put: "mapping_get (put d p c n k v) q =
      (if q = p \<and> mapping_get d p = None
       then Some \<lparr>m_pseudonym = p, m_ciphertext = c, m_nonce = n, m_key_id = k, m_norm_version = v\<rparr>
       else mapping_get d q)"
    and put_wf: "dict_wf d \<Longrightarrow> dict_wf (put d p c n k v)"
begin

lemma put_twice: "mapping_get (put (put d p c n k v) p c' n' k' v') q = mapping_get (put d p c n k v) q"
  by (auto simp: get_put)

lemma put_keeps: "mapping_get d q = Some m \<Longrightarrow> mapping_get (put d p c n k v) q = Some m"
  by (auto simp: get_put)

end

interpretation msp: mapping_store pg_mapping_put
proof
  fix d p c n k v q
  show "mapping_get (pg_mapping_put d p c n k v) q =
      (if q = p \<and> mapping_get d p = None
       then Some \<lparr>m_pseudonym = p, m_ciphertext = c, m_nonce = n, m_key_id = k, m_norm_version = v\<rparr>
       else mapping_get d q)"
    by (auto simp: mapping_get_def pg_mapping_put_def map_add_def split: option.splits)
  show "dict_wf d \<Longrightarrow> dict_wf (pg_mapping_put d p c n k v)"
    by (auto simp: pg_mapping_put_def dict_wf_def dict_get_None split: if_splits)
qed

interpretation msm: mapping_store mem_mapping_put
  by unfold_locales (auto simp: mapping_get_def mem_mapping_put_def split: option.splits)

subsection \<open>Re-encryption\<close>

text \<open>What a stored pseudonym stands for under the keys a provider can resolve.\<close>

definition reveals where
  "reveals dec lookup d p = (case mapping_get d p of
     None \<Rightarrow> None
   | Some m \<Rightarrow> (case lookup (m_key_id m) of
       None \<Rightarrow> None
     | Some k \<Rightarrow> (case decrypt dec (k_material k) (m_ciphertext m) (m_nonce m) of Inl _ \<Rightarrow> None | Inr s \<Rightarrow> Some s)))"

lemma reencrypt_row_reveals:
  assumes "aead_ok enc dec" and "reencrypt_row enc dec old new new_id nonce m = Inr m'"
  shows "\<exists>s. decrypt dec (k_material old) (m_ciphertext m) (m_nonce m) = Inr s
    \<and> decrypt dec (k_material new) (m_ciphertext m') (m_nonce m') = Inr s \<and> m_key_id m' = new_id
    \<and> m_pseudonym m' = m_pseudonym m \<and> m_norm_version m' = m_norm_version m"
proof -
  obtain s where s: "decrypt dec (k_material old) (m_ciphertext m) (m_nonce m) = Inr s"
      "m' = m\<lparr>m_ciphertext := fst (encrypt enc nonce (k_material new) s),
         m_nonce := snd (encrypt enc nonce (k_material new) s), m_key_id := new_id\<rparr>"
    using assms(2) by (auto simp: reencrypt_row_def result_simps split_beta)
  from decrypt_encrypt [OF assms(1) prod.collapse [symmetric]] s show ?thesis by simp
qed

lemma reencrypt_rows_get:
  assumes "aead_ok enc dec" and "reencrypt_rows enc dec old old_id new new_id nonces i d = Inr (d', n)"
  shows "map fst d' = map fst d"
    and "mapping_get d p = None \<Longrightarrow> mapping_get d' p = None"
    and "mapping_get d p = Some m \<Longrightarrow> m_key_id m \<noteq> old_id \<Longrightarrow> mapping_get d' p = Some m"
    and "mapping_get d p = Some m \<Longrightarrow> m_key_id m = old_id \<Longrightarrow>
      \<exists>m' nonce. mapping_get d' p = Some m' \<and> reencrypt_row enc dec old new new_id nonce m = Inr m'"
    and "n = length (filter (\<lambda>x. m_key_id (snd x) = old_id) d)"
  using assms(2)
proof (atomize (full), induction d arbitrary: i d' n)
  case (Cons x d)
  obtain q mq where x: "x = (q, mq)" by (cases x)
  show ?case
  proof (cases "m_key_id mq = old_id")
    case True
    with Cons.prems obtain m' d1 n1 where s: "reencrypt_row enc dec old new new_id (nonces i) mq = Inr m'"
        "reencrypt_rows enc dec old old_id new new_id nonces (Suc i) d = Inr (d1, n1)"
        "d' = (q, m') # d1" "n = Suc n1"
      by (auto simp: x result_simps)
    from Cons.IH [OF s(2)] s True show ?thesis by (auto simp: x mapping_get_def)
  next
    case False
    with Cons.prems obtain d1 where s: "reencrypt_rows enc dec old old_id new new_id nonces i d = Inr (d1, n)"
        "d' = (q, mq) # d1"
      by (auto simp: x result_simps)
    from Cons.IH [OF s(1)] s False show ?thesis by (auto simp: x mapping_get_def)
  qed
qed (simp add: mapping_get_def)

lemma reencrypt_reveals:
  assumes "aead_ok enc dec" and "reencrypt_rows enc dec old old_id new new_id nonces i d = Inr (d', n)"
    and "lookup old_id = Some old" and "lookup new_id = Some new"
  shows "reveals dec lookup d' p = reveals dec lookup d p"
proof (cases "mapping_get d p")
  case None
  then show ?thesis using reencrypt_rows_get(2) [OF assms(1,2)] by (simp add: reveals_def)
next
  case (Some m)
  note g = reencrypt_rows_get(3,4) [OF assms(1,2) Some]
  show ?thesis
  proof (cases "m_key_id m = old_id")
    case False
    then show ?thesis using g(1) Some by (simp add: reveals_def)
  next
    case True
    then obtain m' nonce where m': "mapping_get d' p = Some m'" "reencrypt_row enc dec old new new_id nonce m = Inr m'"
      using g(2) by blast
    from reencrypt_row_reveals [OF assms(1) m'(2)] obtain s where
      "decrypt dec (k_material old) (m_ciphertext m) (m_nonce m) = Inr s"
      "decrypt dec (k_material new) (m_ciphertext m') (m_nonce m') = Inr s" "m_key_id m' = new_id" by blast
    then show ?thesis using Some m'(1) True assms(3,4) by (simp add: reveals_def)
  qed
qed

context key_provider begin

text \<open>Rotation with any provider: every pseudonym stands for what it stood for.\<close>

lemma rotate_keys_steps:
  assumes a: "aead_ok enc dec" and ok: "ok st" "fresh st"
    and r: "rotate_keys enc dec get current rotate deposit nonces H now st d esc kdb actor scope
      = Inr (new, st', d', esc', kdb')"
  obtains old st1 n where "current st = Inr (old, st1)"
    and "reencrypt_rows enc dec old (k_id old) new (k_id new) nonces 0 d = Inr (d', n)"
    and "rotation_event H now kdb (k_id old) (k_id new) n actor (Some scope) = Inr kdb'"
    and "lookup st' (k_id old) = Some old" and "lookup st' (k_id new) = Some new"
    and "\<forall>i x. lookup st i = Some x \<longrightarrow> lookup st' i = Some x"
proof -
  obtain old st1 st2 n where s:
    "current st = Inr (old, st1)" "rotate st1 = Inr (new, st2)"
    "reencrypt enc dec get nonces (k_id old) (k_id new) st2 d = Inr (d', n, st')"
    "rotation_event H now kdb (k_id old) (k_id new) n actor (Some scope) = Inr kdb'"
    using r unfolding rotate_keys_def by (auto simp: result_simps)
  note c = current_then_rotate [OF ok s(1,2)]
  obtain st3 where g1: "get st2 (k_id old) = Inr (old, st3)" "ok st3" "lookup st3 = lookup st2"
    using get_known c by blast
  obtain st4 where g2: "get st3 (k_id new) = Inr (new, st4)" "ok st4" "lookup st4 = lookup st2"
    using get_known [OF g1(2), of "k_id new" new] c g1(3) by auto
  have rr: "reencrypt_rows enc dec old (k_id old) new (k_id new) nonces 0 d = Inr (d', n)" "st' = st4"
    using s(3) g1(1) g2(1) by (auto simp: reencrypt_def result_simps)
  show ?thesis by (rule that [OF s(1) rr(1) s(4)]) (use c g2(3) rr(2) in auto)
qed

text \<open>Rotation with any provider: every pseudonym stands for what it stood for, and the rows of the old key, and no others, are under the new one.\<close>

lemma rotate_keys_rows:
  assumes a: "aead_ok enc dec" and ok: "ok st" "fresh st"
    and r: "rotate_keys enc dec get current rotate deposit nonces H now st d esc kdb actor scope
      = Inr (new, st', d', esc', kdb')"
  shows "\<exists>old st1. current st = Inr (old, st1) \<and> map fst d' = map fst d
    \<and> (\<forall>p s. reveals dec (lookup st) d p = Some s \<longrightarrow> reveals dec (lookup st') d' p = Some s)
    \<and> (\<forall>p m. mapping_get d p = Some m \<longrightarrow> (\<exists>m'. mapping_get d' p = Some m' \<and>
         (if m_key_id m = k_id old then m_key_id m' = k_id new \<and> m_pseudonym m' = m_pseudonym m \<and> m_norm_version m' = m_norm_version m
          else m' = m)))
    \<and> rotation_event H now kdb (k_id old) (k_id new) (length (filter (\<lambda>(p, m). m_key_id m = k_id old) d)) actor (Some scope) = Inr kdb'"
proof -
  obtain old st1 n where s: "current st = Inr (old, st1)"
      "reencrypt_rows enc dec old (k_id old) new (k_id new) nonces 0 d = Inr (d', n)"
      "rotation_event H now kdb (k_id old) (k_id new) n actor (Some scope) = Inr kdb'"
    and l: "lookup st' (k_id old) = Some old" "lookup st' (k_id new) = Some new"
      "\<forall>i x. lookup st i = Some x \<longrightarrow> lookup st' i = Some x"
    using assms by (rule rotate_keys_steps)
  note g = reencrypt_rows_get [OF a s(2)]
  have "reveals dec (lookup st') d' p = Some s" if p: "reveals dec (lookup st) d p = Some s" for p s
  proof -
    have "reveals dec (lookup st') d p = Some s" using p l(3) by (auto simp: reveals_def split: option.splits)
    then show ?thesis using reencrypt_reveals [OF a s(2) l(1,2)] by simp
  qed
  moreover have "\<exists>m'. mapping_get d' p = Some m' \<and>
      (if m_key_id m = k_id old then m_key_id m' = k_id new \<and> m_pseudonym m' = m_pseudonym m \<and> m_norm_version m' = m_norm_version m else m' = m)"
    if m: "mapping_get d p = Some m" for p m
  proof (cases "m_key_id m = k_id old")
    case True
    then obtain m' nonce where "mapping_get d' p = Some m'" "reencrypt_row enc dec old new (k_id new) nonce m = Inr m'" using g(4) [OF m] by blast
    then show ?thesis using True reencrypt_row_reveals [OF a] by fastforce
  qed (use g(3) [OF m] in auto)
  ultimately show ?thesis using s(1,3) g(1,5) by (auto simp: split_def)
qed

end

text \<open>C18: Rotating a scope loses no mapping and rewrites those of the old key only. With the durable provider, and other sessions that may at the same
  time add keys with identifiers of their own and change statuses but take no key away, a \<open>rotate_keys\<close> that returns leaves every
  pseudonym that decrypted before decrypting to the same text. The rows are those that were there: each row under the key that was the current one of the scope is now
  under the new key, with its pseudonym and its version kept, and each row of another key is as it was; the number on record is the number of rows rewritten.
  The conditions are that decryption undoes encryption, that unwrapping undoes wrapping, and that the identifiers of the minted keys are new.\<close>

theorem rotate_keys_keeps:
  assumes "aead_ok enc dec" and "transit_ok wrap unwrap" and "env_ok E env" and "dp_ok unwrap st"
    and "dp_fresh HB E m1 m2 scope st"
    and "rotate_keys enc dec (\<lambda>st. dp_key unwrap ttl t st)
        (\<lambda>st. dp_current_key HB wrap unwrap pg_vault_put ttl t m1 env st scope)
        (\<lambda>st. dp_rotate HB wrap unwrap pg_vault_put pg_vault_set_status ttl t m2 env st scope)
        deposit nonces H now st d esc kdb actor scope = Inr (new, st', d', esc', kdb')"
  shows "\<exists>old st1. dp_current_key HB wrap unwrap pg_vault_put ttl t m1 env st scope = Inr (old, st1) \<and> map fst d' = map fst d
    \<and> (\<forall>p s. reveals dec (dp_lookup unwrap st) d p = Some s \<longrightarrow> reveals dec (dp_lookup unwrap st') d' p = Some s)
    \<and> (\<forall>p m. mapping_get d p = Some m \<longrightarrow> (\<exists>m'. mapping_get d' p = Some m' \<and>
         (if m_key_id m = k_id old then m_key_id m' = k_id new \<and> m_pseudonym m' = m_pseudonym m \<and> m_norm_version m' = m_norm_version m
          else m' = m)))
    \<and> rotation_event H now kdb (k_id old) (k_id new) (length (filter (\<lambda>(p, m). m_key_id m = k_id old) d)) actor (Some scope) = Inr kdb'"
proof -
  have "dp_all_ok wrap unwrap E env st" using assms(2-4) by (simp add: dp_all_ok_def)
  from kpd.rotate_keys_rows [OF assms(1) this assms(5,6)] show ?thesis .
qed

subsection \<open>Concrete instances\<close>

definition sample_enc :: "string \<Rightarrow> string \<Rightarrow> string \<Rightarrow> string \<Rightarrow> string" where
  "sample_enc k n p a = k @ n @ p"

definition sample_dec :: "string \<Rightarrow> string \<Rightarrow> string \<Rightarrow> string \<Rightarrow> string option" where
  "sample_dec k n c a = (if take (length (k @ n)) c = k @ n then Some (drop (length (k @ n)) c) else None)"

lemma sample_aead [simp]: "aead_ok sample_enc sample_dec"
proof -
  have "sample_dec k n c a = Some p \<longleftrightarrow> c = sample_enc k n p a" for k n c a p
    unfolding sample_enc_def sample_dec_def by (metis append.assoc append_eq_conv_conj append_take_drop_id option.distinct(1) option.inject)
  then show ?thesis by (simp add: aead_ok_def)
qed

definition sample_mappings :: mappings where
  "sample_mappings = [(''PERSON-1'', \<lparr>m_pseudonym = ''PERSON-1'', m_ciphertext = ''mxBob'', m_nonce = ''x'',
     m_key_id = ''id:maaaaaaaa'', m_norm_version = None\<rparr>),
     (''BSN-1'', \<lparr>m_pseudonym = ''BSN-1'', m_ciphertext = ''ab'', m_nonce = ''x'', m_key_id = ''other'', m_norm_version = None\<rparr>)]"

definition sample_rotation :: "(key \<times> durable \<times> mappings \<times> unit \<times> key_db) result" where
  "sample_rotation = rotate_keys sample_enc sample_dec (\<lambda>st. dp_key sample_wrap 5 1 st)
        (\<lambda>st. dp_current_key sample_hb sample_wrap sample_wrap pg_vault_put 5 1 ''n'' (\<lambda>v. v) st ''EMAIL'')
        (\<lambda>st. dp_rotate sample_hb sample_wrap sample_wrap pg_vault_put pg_vault_set_status 5 1 ''q'' (\<lambda>v. v) st ''EMAIL'')
        (\<lambda>e _. Inr e) (\<lambda>_. ''y'') sample_hash sample_time sample_dp' sample_mappings () empty_keys ''admin'' ''EMAIL''"

definition sample_dp'' :: durable where
  "sample_dp'' = \<lparr>dp_vault = [(''id:maaaaaaaa'', \<lparr>ve_key_id = ''id:maaaaaaaa'', ve_scope = ''EMAIL'',
       ve_wrapped = ''m'', ve_status = ''retired''\<rparr>),
     (''id:qaaaaaaaa'', \<lparr>ve_key_id = ''id:qaaaaaaaa'', ve_scope = ''EMAIL'', ve_wrapped = ''q'', ve_status = ''active''\<rparr>)],
     dp_cache = [(''id:maaaaaaaa'', ''m'', 5), (''id:qaaaaaaaa'', ''q'', 6)]\<rparr>"

lemma sample_steps:
  "dp_current_key sample_hb sample_wrap sample_wrap pg_vault_put 5 1 ''n'' (\<lambda>v. v) sample_dp' ''EMAIL'' = Inr (sample_key, sample_dp')"
  "dp_rotate sample_hb sample_wrap sample_wrap pg_vault_put pg_vault_set_status 5 1 ''q'' (\<lambda>v. v) sample_dp' ''EMAIL''
    = Inr (\<lparr>k_id = ''id:qaaaaaaaa'', k_material = ''q''\<rparr>, sample_dp'')"
  "reencrypt sample_enc sample_dec (\<lambda>st. dp_key sample_wrap 5 1 st) (\<lambda>_. ''y'') ''id:maaaaaaaa'' ''id:qaaaaaaaa'' sample_dp'' sample_mappings
    = Inr ([(''PERSON-1'', \<lparr>m_pseudonym = ''PERSON-1'', m_ciphertext = ''qyBob'', m_nonce = ''y'',
     m_key_id = ''id:qaaaaaaaa'', m_norm_version = None\<rparr>),
     (''BSN-1'', \<lparr>m_pseudonym = ''BSN-1'', m_ciphertext = ''ab'', m_nonce = ''x'', m_key_id = ''other'', m_norm_version = None\<rparr>)], 1, sample_dp'')"
  by code_simp+

lemma sample_rotation_ok: "\<exists>st' d' kdb'. sample_rotation = Inr (\<lparr>k_id = ''id:qaaaaaaaa'', k_material = ''q''\<rparr>, st', d', (), kdb')"
proof -
  obtain kdb' where "rotation_event sample_hash sample_time empty_keys ''id:maaaaaaaa'' ''id:qaaaaaaaa'' 1 ''admin'' (Some ''EMAIL'') = Inr kdb'"
    unfolding rotation_event_def using empty_post by force
  then show ?thesis
    unfolding sample_rotation_def rotate_keys_def by (simp add: sample_steps sample_key_def del: One_nat_def)
qed

lemma sample_dp'_ok: "dp_ok sample_wrap sample_dp'" "dp_fresh sample_hb {} ''n'' ''q'' ''EMAIL'' sample_dp'"
    "reveals sample_dec (dp_lookup sample_wrap sample_dp') sample_mappings ''PERSON-1'' = Some ''Bob''"
  by (simp_all add: dp_ok_def vault_ok_def cache_ok_def sample_dp'_def sample_wrap_def) code_simp+

lemma rotate_keys_keeps_witness:
  "\<exists>new (st' :: durable) (d' :: mappings) esc' kdb'. sample_rotation = Inr (new, st', d', esc', kdb')
     \<and> reveals sample_dec (dp_lookup sample_wrap st') d' ''PERSON-1'' = Some ''Bob''
     \<and> mapping_get d' ''BSN-1'' = mapping_get sample_mappings ''BSN-1''
     \<and> (\<exists>m. mapping_get d' ''PERSON-1'' = Some m \<and> m_key_id m = k_id new)"
proof -
  obtain new st' d' esc' kdb' where r: "sample_rotation = Inr (new, st', d', esc', kdb')"
    using sample_rotation_ok by blast
  note h = rotate_keys_keeps [OF sample_aead sample_transit_ok sample_env_ok sample_dp'_ok(1,2)
      r [unfolded sample_rotation_def]]
  have m: "mapping_get sample_mappings ''BSN-1'' = Some \<lparr>m_pseudonym = ''BSN-1'', m_ciphertext = ''ab'', m_nonce = ''x'', m_key_id = ''other'', m_norm_version = None\<rparr>"
    "mapping_get sample_mappings ''PERSON-1'' = Some \<lparr>m_pseudonym = ''PERSON-1'', m_ciphertext = ''mxBob'', m_nonce = ''x'', m_key_id = ''id:maaaaaaaa'', m_norm_version = None\<rparr>"
    by (simp_all add: mapping_get_def sample_mappings_def)
  from h obtain old st1 where o: "dp_current_key sample_hb sample_wrap sample_wrap pg_vault_put 5 1 ''n'' (\<lambda>v. v) sample_dp' ''EMAIL'' = Inr (old, st1)"
    and rv: "\<forall>p s. reveals sample_dec (dp_lookup sample_wrap sample_dp') sample_mappings p = Some s \<longrightarrow> reveals sample_dec (dp_lookup sample_wrap st') d' p = Some s"
    and rows: "\<forall>p m. mapping_get sample_mappings p = Some m \<longrightarrow> (\<exists>m'. mapping_get d' p = Some m' \<and>
         (if m_key_id m = k_id old then m_key_id m' = k_id new \<and> m_pseudonym m' = m_pseudonym m \<and> m_norm_version m' = m_norm_version m else m' = m))"
    by (elim exE conjE)
  have old: "k_id old = ''id:maaaaaaaa''" using o sample_steps(1) by (simp add: sample_key_def)
  have "mapping_get d' ''BSN-1'' = mapping_get sample_mappings ''BSN-1''" using rows [rule_format, OF m(1)] by (simp add: old m(1))
  moreover have "\<exists>m. mapping_get d' ''PERSON-1'' = Some m \<and> m_key_id m = k_id new" using rows [rule_format, OF m(2)] by (auto simp: old)
  ultimately show ?thesis using r rv sample_dp'_ok(3) by blast
qed

end
