(* ===== verification/Originals.thy ===== *)
theory Originals
  imports MappingStore
begin

text \<open>
  \<open>object_store.py\<close>, \<open>originals_envelope.py\<close>, \<open>document_keys.py\<close>, \<open>originals_store.py\<close>,
  \<open>originals_io.py\<close> and \<open>sealed_orphans.py\<close>: original documents, sealed under a data key of their own.
  The object store is the in-memory driver (the S3 driver only calls its client): the bytes and the
  modification times. \<open>enc\<close>/\<open>dec\<close> are AES-GCM as in MappingStore, \<open>wrap\<close>/\<open>unwrap\<close> the Transit service per
  key-encryption key. Nonces and key material are arguments where the code draws them.
\<close>

subsection \<open>The object store\<close>

record objects =
  ob_data :: "(string, string) dict"
  ob_modified :: "(string, datetime) dict"

definition SEALED_MAGIC :: string where "SEALED_MAGIC = ''WWENC''"

definition is_sealed :: "string \<Rightarrow> bool" where
  "is_sealed data = (take (length SEALED_MAGIC) data = SEALED_MAGIC)"

definition object_put :: "datetime \<Rightarrow> objects \<Rightarrow> string \<Rightarrow> string \<Rightarrow> objects" where
  "object_put now ob key data = ob\<lparr>ob_data := dict_set key data (ob_data ob), ob_modified := dict_set key now (ob_modified ob)\<rparr>"

definition object_get_raw :: "objects \<Rightarrow> string \<Rightarrow> string result" where
  "object_get_raw ob key = (case dict_get (ob_data ob) key of None \<Rightarrow> Inl ObjectStoreError | Some d \<Rightarrow> Inr d)"

definition object_get :: "objects \<Rightarrow> string \<Rightarrow> string result" where
  "object_get ob key = rbind (object_get_raw ob key) (\<lambda>data. if is_sealed data then Inl SealedObjectError else Inr data)"

definition object_iter :: "objects \<Rightarrow> string \<Rightarrow> (string \<times> datetime) list" where
  "object_iter ob prefix = filter (\<lambda>(k, _). starts_with prefix k) (ob_modified ob)"

definition object_exists :: "objects \<Rightarrow> string \<Rightarrow> bool" where
  "object_exists ob key = (dict_get (ob_data ob) key \<noteq> None)"

definition object_delete :: "objects \<Rightarrow> string \<Rightarrow> objects \<times> bool" where
  "object_delete ob key = (ob\<lparr>ob_data := dict_pop key (ob_data ob), ob_modified := dict_pop key (ob_modified ob)\<rparr>,
     dict_get (ob_data ob) key \<noteq> None)"

subsection \<open>The envelope\<close>

definition HEADER_MAGIC :: string where "HEADER_MAGIC = ''WWENC''"
definition VERSION :: nat where "VERSION = 1"
definition KEY_ID_LEN :: nat where "KEY_ID_LEN = 12"
definition NONCE_LEN :: nat where "NONCE_LEN = 12"
definition KEY_ID_START :: nat where "KEY_ID_START = length HEADER_MAGIC + 1"
definition NONCE_START :: nat where "NONCE_START = KEY_ID_START + KEY_ID_LEN"
definition HEADER_LEN :: nat where "HEADER_LEN = NONCE_START + NONCE_LEN"

lemmas layout_defs = HEADER_MAGIC_def VERSION_def KEY_ID_LEN_def NONCE_LEN_def KEY_ID_START_def
  NONCE_START_def HEADER_LEN_def SEALED_MAGIC_def

definition aad :: "string \<Rightarrow> string \<Rightarrow> string" where
  "aad object_key key_id = ''wordsworth-original/1'' @ utf8 object_key @ key_id"

definition ascii_encode :: "string \<Rightarrow> string result" where
  "ascii_encode s = (if list_all (\<lambda>c. cp c < 128) s then Inr s else Inl ValueError)"

definition seal where
  "seal enc nonce dek key_id object_key plaintext =
     rbind (ascii_encode key_id) (\<lambda>kb.
     if length kb \<noteq> KEY_ID_LEN then Inl ValueError
     else Inr (HEADER_MAGIC @ [char_of VERSION] @ kb @ nonce @ enc dek nonce plaintext (aad object_key key_id)))"

definition header_key_id :: "string \<Rightarrow> string result" where
  "header_key_id sealed =
     (if length sealed < HEADER_LEN \<or> take (length HEADER_MAGIC) sealed \<noteq> HEADER_MAGIC then Inl ValueError
      else if cp (sealed ! length HEADER_MAGIC) \<noteq> VERSION then Inl ValueError
      else ascii_encode (slice KEY_ID_START NONCE_START sealed))"

definition open_sealed where
  "open_sealed dec dek key_id object_key sealed =
     rbind (header_key_id sealed) (\<lambda>actual.
     if actual \<noteq> key_id then Inl ValueError
     else (case dec dek (slice NONCE_START HEADER_LEN sealed) (drop HEADER_LEN sealed) (aad object_key key_id) of
         None \<Rightarrow> Inl InvalidTag | Some p \<Rightarrow> Inr (p :: string)))"

subsection \<open>Document keys\<close>

record key_row =
  dk_object_key :: string
  dk_document_id :: string
  dk_key_id :: string
  dk_kek_ref :: string
  dk_wrapped :: string
  dk_sealed_at :: "datetime option"

type_synonym key_rows = "(string, key_row) dict"
type_synonym key_cache = "(string \<times> key \<times> nat) list"

definition kek_name_for :: "(string, string) dict \<Rightarrow> string \<Rightarrow> string \<Rightarrow> string" where
  "kek_name_for by_domain dflt domain = (case dict_get by_domain domain of None \<Rightarrow> dflt | Some k \<Rightarrow> k)"

text \<open>The least-recently-used cache, oldest entry first.\<close>

definition cache_get :: "nat \<Rightarrow> key_cache \<Rightarrow> string \<Rightarrow> key option \<times> key_cache" where
  "cache_get clk c object_key = (case dict_get c object_key of
     None \<Rightarrow> (None, c)
   | Some (k, expiry) \<Rightarrow>
       if expiry \<le> clk then (None, dict_pop object_key c)
       else (Some k, dict_pop object_key c @ [(object_key, k, expiry)]))"

definition cache_put :: "nat \<Rightarrow> nat \<Rightarrow> nat \<Rightarrow> key_cache \<Rightarrow> string \<Rightarrow> key \<Rightarrow> key_cache" where
  "cache_put maxsize ttl clk c object_key k =
     (let c' = dict_pop object_key c @ [(object_key, k, clk + ttl)]
      in drop (length c' - maxsize) c')"

record originals =
  og_rows :: key_rows
  og_objects :: objects
  og_cache :: key_cache

record key_config =
  kc_size :: nat
  kc_ttl :: nat
  kc_clock :: nat
  kc_now :: datetime
  kc_kek :: "string \<Rightarrow> string"

definition unwrap_row where
  "unwrap_row unwrap cfg cache row =
     (case unwrap (dk_kek_ref row) (dk_wrapped row) of
        Inl (_ :: error) \<Rightarrow> Inl OriginalsKeyUnavailable
      | Inr m \<Rightarrow>
          (let k = \<lparr>k_id = dk_key_id row, k_material = m\<rparr>
           in Inr (k, cache_put (kc_size cfg) (kc_ttl cfg) (kc_clock cfg) cache (dk_object_key row) k)))"

text \<open>\<open>rows\<close> is the table at the moment of the insert, concurrent commits included.\<close>

definition mint_row where
  "mint_row HB wrap unwrap cfg rows cache material document_id object_key domain =
     (let kek_name = kc_kek cfg domain; fresh = mint_key HB material
      in case wrap kek_name (k_material fresh) of
           Inl (_ :: error) \<Rightarrow> Inl OriginalsKeyUnavailable
         | Inr wrapped \<Rightarrow>
             (case dict_get rows object_key of
                Some row \<Rightarrow> rbind (unwrap_row unwrap cfg cache row) (\<lambda>(k, cache). Inr (k, rows, cache))
              | None \<Rightarrow> Inr (fresh,
                  dict_set object_key \<lparr>dk_object_key = object_key, dk_document_id = document_id,
                     dk_key_id = k_id fresh, dk_kek_ref = kek_name, dk_wrapped = wrapped, dk_sealed_at = None\<rparr> rows,
                  cache_put (kc_size cfg) (kc_ttl cfg) (kc_clock cfg) cache object_key fresh)))"

definition unwrap_key where
  "unwrap_key unwrap cfg rows cache object_key =
     (case cache_get (kc_clock cfg) cache object_key of
        (Some k, cache) \<Rightarrow> Inr (k, cache)
      | (None, cache) \<Rightarrow> (case dict_get rows object_key of
            None \<Rightarrow> Inl OriginalsKeyUnavailable
          | Some row \<Rightarrow> unwrap_row unwrap cfg cache row))"

subsection \<open>The originals store\<close>

datatype put_result = WROTE | UNCHANGED | LEGACY

definition seal_and_write where
  "seal_and_write enc cfg nonce st row k object_key data =
     rbind (seal enc nonce (k_material k) (k_id k) object_key data) (\<lambda>sealed.
     Inr (st\<lparr>og_objects := object_put (kc_now cfg) (og_objects st) object_key sealed,
             og_rows := dict_set object_key (row\<lparr>dk_sealed_at := Some (kc_now cfg)\<rparr>) (og_rows st)\<rparr>))"

text \<open>\<open>get_raw\<close> is the read as it goes at this moment: that of the in-memory driver, or one that fails although the object may be there,
  which to \<open>put_original\<close> is the same as a missing object.\<close>

definition unread :: "objects \<Rightarrow> string \<Rightarrow> string result" where
  "unread ob key = Inl ObjectStoreError"

definition put_original where
  "put_original get_raw HB enc wrap unwrap cfg nonce material env domain st document_id object_key data =
     (let row = dict_get (og_rows st) object_key;
          stored = (case get_raw (og_objects st) object_key of Inl (_ :: error) \<Rightarrow> None | Inr d \<Rightarrow> Some d);
          stored_sealed = (case stored of None \<Rightarrow> False | Some d \<Rightarrow> is_sealed d);
          rest = (\<lambda>_ :: unit.
            (case row of
               Some r \<Rightarrow>
                 if stored = None \<or> stored_sealed then
                   rbind (unwrap_key unwrap cfg (og_rows st) (og_cache st) object_key) (\<lambda>(k, cache).
                   rbind (seal_and_write enc cfg nonce (st\<lparr>og_cache := cache\<rparr>) r k object_key data) (\<lambda>st.
                   Inr (WROTE, st)))
                 else if dk_sealed_at r = None then Inr (LEGACY, st)
                 else Inl SealedObjectError
             | None \<Rightarrow>
                 if stored = None \<or> stored_sealed then
                   rbind (mint_row HB wrap unwrap cfg (env (og_rows st)) (og_cache st) material document_id object_key domain)
                     (\<lambda>(k, rows, cache).
                   rbind (seal_and_write enc cfg nonce (st\<lparr>og_rows := rows, og_cache := cache\<rparr>)
                            (the (dict_get rows object_key)) k object_key data) (\<lambda>st.
                   Inr (WROTE, st)))
                 else Inr (LEGACY, st)))
      in (case (row, stored) of
            (Some r, Some d) \<Rightarrow>
              if stored_sealed then
                rbind (header_key_id d) (\<lambda>hid.
                if hid = dk_key_id r then
                  Inr (UNCHANGED, st\<lparr>og_rows := (if dk_document_id r \<noteq> document_id
                    then dict_set object_key (r\<lparr>dk_document_id := document_id\<rparr>) (og_rows st) else og_rows st)\<rparr>)
                else rest ())
              else rest ()
          | _ \<Rightarrow> rest ()))"

definition get_original where
  "get_original dec unwrap cfg st object_key =
     (let row = dict_get (og_rows st) object_key
      in rbind (object_get_raw (og_objects st) object_key) (\<lambda>stored.
         if \<not> is_sealed stored then
           (if (case row of None \<Rightarrow> False | Some r \<Rightarrow> dk_sealed_at r \<noteq> None) then Inl SealedObjectError
            else Inr (stored, st))
         else rbind (unwrap_key unwrap cfg (og_rows st) (og_cache st) object_key) (\<lambda>(k, cache).
           rbind (open_sealed dec (k_material k) (k_id k) object_key stored) (\<lambda>p.
           Inr (p, st\<lparr>og_cache := cache\<rparr>)))))"

subsection \<open>The seam\<close>

datatype store = Plain objects | Sealing originals

definition read_original where
  "read_original dec unwrap cfg store object_key = (case store of
     Sealing st \<Rightarrow> rbind (get_original dec unwrap cfg st object_key) (\<lambda>(p, st). Inr (p, Sealing st))
   | Plain ob \<Rightarrow> rbind (object_get ob object_key) (\<lambda>p. Inr (p, Plain ob)))"

definition write_original where
  "write_original get_raw HB enc wrap unwrap cfg nonce material env domain store document_id object_key data = (case store of
     Sealing st \<Rightarrow> rbind (put_original get_raw HB enc wrap unwrap cfg nonce material env domain st document_id object_key data)
        (\<lambda>(r, st). Inr (r, Sealing st))
   | Plain ob \<Rightarrow> Inr (if object_exists ob object_key then UNCHANGED else WROTE,
        Plain (object_put (kc_now cfg) ob object_key data)))"

subsection \<open>Orphans\<close>

definition find_orphans :: "key_rows \<Rightarrow> objects \<Rightarrow> datetime \<Rightarrow> (string \<times> datetime) list" where
  "find_orphans rows ob now =
     filter (\<lambda>(key, modified).
        \<not> instant now - instant modified < 3600000000
        \<and> (case object_get_raw ob key of
             Inl _ \<Rightarrow> False
           | Inr data \<Rightarrow> is_sealed data
               \<and> (case header_key_id data of
                    Inl _ \<Rightarrow> False
                  | Inr hid \<Rightarrow> (case dict_get rows key of None \<Rightarrow> True | Some row \<Rightarrow> dk_key_id row \<noteq> hid))))
       (object_iter ob ''documents/'')"

definition sweep_orphans :: "bool \<Rightarrow> key_rows \<Rightarrow> objects \<Rightarrow> datetime \<Rightarrow> objects \<times> string list \<times> string list" where
  "sweep_orphans apply_it rows ob now =
     (let found = map fst (find_orphans rows ob now)
      in if \<not> apply_it then (ob, found, [])
         else foldl (\<lambda>(ob, found, removed) key.
             let (ob', was) = object_delete ob key in (ob', found, if was then removed @ [key] else removed))
           (ob, found, []) found)"


subsection \<open>The envelope opens for what it was sealed for\<close>

lemma layout: "KEY_ID_START = 6" "NONCE_START = 18" "HEADER_LEN = 30" "length HEADER_MAGIC = 5"
    "KEY_ID_LEN = 12" "VERSION = 1" "length SEALED_MAGIC = 5"
  by (simp_all add: layout_defs)

lemma magic_eq: "HEADER_MAGIC = SEALED_MAGIC"
  by (simp add: layout_defs)

lemma ascii_encode_Inr: "ascii_encode s = Inr t \<longleftrightarrow> t = s \<and> list_all (\<lambda>c. cp c < 128) s"
  by (auto simp: ascii_encode_def)

lemma seal_parts:
  assumes "seal enc nonce dek kid ok p = Inr s" and "length nonce = 12"
  shows "header_key_id s = Inr kid" and "slice NONCE_START HEADER_LEN s = nonce"
    and "drop HEADER_LEN s = enc dek nonce p (aad ok kid)" and "is_sealed s" and "length kid = 12"
    and "list_all (\<lambda>c. cp c < 128) kid"
proof -
  have s: "s = HEADER_MAGIC @ [char_of VERSION] @ kid @ nonce @ enc dek nonce p (aad ok kid)"
    and k: "length kid = 12" "list_all (\<lambda>c. cp c < 128) kid"
    using assms(1) by (auto simp: seal_def result_simps ascii_encode_Inr KEY_ID_LEN_def split: if_splits)
  have sl: "slice 6 18 s = kid" "slice 18 30 s = nonce" "drop 30 s = enc dek nonce p (aad ok kid)"
    using k(1) assms(2) unfolding s by (simp_all add: slice_def layout_defs)
  have v: "s ! 5 = char_of (1::nat)" "take 5 s = ''WWENC''" "30 \<le> length s"
    using k(1) assms(2) unfolding s by (simp_all add: layout_defs nth_append)
  show "header_key_id s = Inr kid"
    using v sl(1) k by (simp add: header_key_id_def layout ascii_encode_def) (simp add: HEADER_MAGIC_def)
  show "slice NONCE_START HEADER_LEN s = nonce" "drop HEADER_LEN s = enc dek nonce p (aad ok kid)" "is_sealed s"
    using sl v by (simp_all add: layout is_sealed_def) (simp add: SEALED_MAGIC_def)
  show "length kid = 12" "list_all (\<lambda>c. cp c < 128) kid" by (rule k)+
qed

lemma open_seal:
  assumes "aead_ok enc dec" and "length nonce = 12" and "seal enc nonce dek kid ok p = Inr s"
  shows "open_sealed dec dek kid ok s = Inr p"
  using seal_parts [OF assms(3,2)] aead_dec_enc [OF assms(1)] by (simp add: open_sealed_def)

lemma aad_inj:
  assumes "aad o1 k1 = aad o2 k2" and "length k1 = length k2"
  shows "o1 = o2 \<and> k1 = k2"
  using assms by (simp add: aad_def append_eq_append_conv)

lemma header_len:
  assumes "header_key_id s = Inr k"
  shows "length k = 12"
proof -
  have "30 \<le> length s" "k = slice 6 18 s"
    using assms by (auto simp: header_key_id_def ascii_encode_Inr layout split: if_splits)
  then show ?thesis by (simp add: slice_def)
qed

text \<open>A sealed object opens to what was sealed, and to nothing else: what \<open>open\<close> returns is the text whose
  sealing under that data key, for that object and key id, gives exactly these bytes after the header;
  the same bytes opened for another object come from a second encryption under different associated
  data, so an object copied or swapped to another name never opens as the original's plaintext unless
  the cipher itself gives one ciphertext for two different associated data.\<close>

theorem open_binds:
  assumes "aead_ok enc dec" and "open_sealed dec dek kid obj s = Inr p"
  shows "header_key_id s = Inr kid
    \<and> drop HEADER_LEN s = enc dek (slice NONCE_START HEADER_LEN s) p (aad obj kid)
    \<and> (\<forall>obj' kid' q. open_sealed dec dek kid' obj' s = Inr q \<longrightarrow>
         (obj' = obj \<and> kid' = kid \<and> q = p)
         \<or> (aad obj' kid' \<noteq> aad obj kid
            \<and> enc dek (slice NONCE_START HEADER_LEN s) q (aad obj' kid')
              = enc dek (slice NONCE_START HEADER_LEN s) p (aad obj kid)))"
proof -
  have o: "header_key_id s = Inr k \<and> drop HEADER_LEN s = enc dek (slice NONCE_START HEADER_LEN s) q (aad b k)"
    if "open_sealed dec dek k b s = Inr q" for k b q
    using that assms(1) by (auto simp: open_sealed_def result_simps aead_ok_def split: if_splits option.splits)
  note p = o [OF assms(2)]
  show ?thesis
  proof (intro conjI allI impI)
    fix obj' kid' q assume "open_sealed dec dek kid' obj' s = Inr q"
    note q = o [OF this]
    then have k: "kid' = kid" using p by simp
    show "(obj' = obj \<and> kid' = kid \<and> q = p) \<or> (aad obj' kid' \<noteq> aad obj kid
            \<and> enc dek (slice NONCE_START HEADER_LEN s) q (aad obj' kid')
              = enc dek (slice NONCE_START HEADER_LEN s) p (aad obj kid))"
    proof (cases "aad obj' kid' = aad obj kid")
      case True
      then have "obj' = obj" using aad_inj k by blast
      moreover have "dec dek (slice NONCE_START HEADER_LEN s) (drop HEADER_LEN s) (aad obj kid) = Some q"
          "dec dek (slice NONCE_START HEADER_LEN s) (drop HEADER_LEN s) (aad obj kid) = Some p"
        using p q True assms(1) by (simp_all add: aead_ok_def)
      ultimately show ?thesis using k by simp
    qed (use p q k in auto)
  qed (use p in blast)+
qed

subsection \<open>What an original reads as\<close>

definition key_cache_ok where
  "key_cache_ok unwrap rows (c :: key_cache) = (\<forall>b k e. (b, k, e) \<in> set c \<longrightarrow>
     (\<exists>row. dict_get rows b = Some row \<and> k_id k = dk_key_id row
        \<and> unwrap (dk_kek_ref row) (dk_wrapped row) = (Inr (k_material k) :: string result)))"

definition rows_keyed :: "key_rows \<Rightarrow> bool" where
  "rows_keyed rows = (\<forall>b row. dict_get rows b = Some row \<longrightarrow> dk_object_key row = b)"

definition og_ok where
  "og_ok unwrap st = (rows_keyed (og_rows st) \<and> key_cache_ok unwrap (og_rows st) (og_cache st))"

definition row_key where
  "row_key unwrap row = (case unwrap (dk_kek_ref row) (dk_wrapped row) of
     Inl (_ :: error) \<Rightarrow> None | Inr m \<Rightarrow> Some \<lparr>k_id = dk_key_id row, k_material = m\<rparr>)"

definition view_original where
  "view_original dec unwrap st b = (case dict_get (ob_data (og_objects st)) b of
     None \<Rightarrow> None
   | Some d \<Rightarrow>
       if \<not> is_sealed d then
         (case dict_get (og_rows st) b of
            Some r \<Rightarrow> if dk_sealed_at r \<noteq> None then None else Some d | None \<Rightarrow> Some d)
       else (case dict_get (og_rows st) b of
           None \<Rightarrow> None
         | Some r \<Rightarrow> (case row_key unwrap r of
             None \<Rightarrow> None
           | Some k \<Rightarrow> (case open_sealed dec (k_material k) (k_id k) b d of Inl _ \<Rightarrow> None | Inr p \<Rightarrow> Some p))))"

lemma set_dict_pop: "set (dict_pop k d) \<subseteq> set d"
  by (auto simp: AList.delete_eq)

lemma cache_get_sub:
  "cache_get clk c b = (r, c') \<Longrightarrow> set c' \<subseteq> set c \<and> (\<forall>k. r = Some k \<longrightarrow> (\<exists>e. (b, k, e) \<in> set c))"
proof (cases "dict_get c b")
  case (Some ke)
  then have "(b, fst ke, snd ke) \<in> set c" using dict_get_SomeD [OF Some] by simp
  with Some show "cache_get clk c b = (r, c') \<Longrightarrow> set c' \<subseteq> set c \<and> (\<forall>k. r = Some k \<longrightarrow> (\<exists>e. (b, k, e) \<in> set c))"
    using set_dict_pop [of b c] by (cases ke) (fastforce simp: cache_get_def split: if_splits)
qed (simp add: cache_get_def)

lemma cache_put_sub: "set (cache_put n ttl clk c b k) \<subseteq> insert (b, k, clk + ttl) (set c)"
  using set_dict_pop [of b c] set_drop_subset by (fastforce simp: cache_put_def Let_def)

lemma unwrap_row_ok:
  assumes "key_cache_ok unwrap rows c" and "dict_get rows b = Some row" and "dk_object_key row = b"
    and "unwrap_row unwrap cfg c row = Inr (k, c')"
  shows "row_key unwrap row = Some k \<and> key_cache_ok unwrap rows c'"
proof -
  obtain m where m: "unwrap (dk_kek_ref row) (dk_wrapped row) = Inr m" "k = \<lparr>k_id = dk_key_id row, k_material = m\<rparr>"
      "c' = cache_put (kc_size cfg) (kc_ttl cfg) (kc_clock cfg) c b k"
    using assms(3,4) by (auto simp: unwrap_row_def Let_def split: sum.splits)
  have "key_cache_ok unwrap rows c'"
    using assms(1,2) cache_put_sub [of "kc_size cfg" "kc_ttl cfg" "kc_clock cfg" c b k] m
    unfolding key_cache_ok_def m(3) by (fastforce simp del: fun_upd_apply)
  with m show ?thesis by (simp add: row_key_def)
qed

lemma unwrap_key_ok:
  assumes "key_cache_ok unwrap rows c" and "rows_keyed rows" and "unwrap_key unwrap cfg rows c b = Inr (k, c')"
  shows "(\<exists>row. dict_get rows b = Some row \<and> row_key unwrap row = Some k) \<and> key_cache_ok unwrap rows c'"
proof -
  obtain r c1 where g: "cache_get (kc_clock cfg) c b = (r, c1)" by (cases "cache_get (kc_clock cfg) c b")
  note gs = cache_get_sub [OF g]
  have c1: "key_cache_ok unwrap rows c1" using assms(1) gs unfolding key_cache_ok_def by blast
  show ?thesis
  proof (cases r)
    case None
    then obtain row where row: "dict_get rows b = Some row" "unwrap_row unwrap cfg c1 row = Inr (k, c')"
      using assms(3) g by (auto simp: unwrap_key_def split: option.splits)
    have "dk_object_key row = b" using assms(2) row(1) by (simp add: rows_keyed_def)
    from unwrap_row_ok [OF c1 row(1) this row(2)] row(1) show ?thesis by blast
  next
    case (Some k0)
    then have k: "k0 = k" "c' = c1" using assms(3) g by (auto simp: unwrap_key_def)
    obtain e where "(b, k, e) \<in> set c" using gs Some k by blast
    then obtain row where "dict_get rows b = Some row" "k_id k = dk_key_id row"
        "unwrap (dk_kek_ref row) (dk_wrapped row) = Inr (k_material k)"
      using assms(1) unfolding key_cache_ok_def by blast
    then show ?thesis using c1 k by (auto simp: row_key_def)
  qed
qed

lemma unwrap_key_total:
  assumes "key_cache_ok unwrap rows c" and "rows_keyed rows" and "dict_get rows b = Some row"
    and "row_key unwrap row = Some k"
  shows "\<exists>c'. unwrap_key unwrap cfg rows c b = Inr (k, c')"
proof -
  have "\<exists>k' c'. unwrap_key unwrap cfg rows c b = Inr (k', c')"
    using assms(3,4) by (auto simp: unwrap_key_def unwrap_row_def row_key_def Let_def
        split: prod.splits option.splits sum.splits)
  then show ?thesis using unwrap_key_ok [OF assms(1,2)] assms(3,4) by fastforce
qed

lemma get_original_view:
  assumes "og_ok unwrap st"
  shows "(\<exists>st'. get_original dec unwrap cfg st b = Inr (p, st')) \<longleftrightarrow> view_original dec unwrap st b = Some p"
proof (cases "dict_get (ob_data (og_objects st)) b")
  case None
  then show ?thesis by (simp add: get_original_def view_original_def object_get_raw_def)
next
  case (Some d)
  have c: "key_cache_ok unwrap (og_rows st) (og_cache st)" "rows_keyed (og_rows st)"
    using assms by (simp_all add: og_ok_def)
  show ?thesis
  proof (cases "is_sealed d")
    case False
    with Some show ?thesis
      by (auto simp: get_original_def view_original_def object_get_raw_def split: option.splits)
  next
    case True
    show ?thesis
    proof
      assume "\<exists>st'. get_original dec unwrap cfg st b = Inr (p, st')"
      then obtain k c' where k: "unwrap_key unwrap cfg (og_rows st) (og_cache st) b = Inr (k, c')"
          "open_sealed dec (k_material k) (k_id k) b d = Inr p"
        using Some True by (auto simp: get_original_def object_get_raw_def result_simps)
      from unwrap_key_ok [OF c k(1)] k(2) Some True show "view_original dec unwrap st b = Some p"
        by (auto simp: view_original_def)
    next
      assume "view_original dec unwrap st b = Some p"
      then obtain row k where r: "dict_get (og_rows st) b = Some row" "row_key unwrap row = Some k"
          "open_sealed dec (k_material k) (k_id k) b d = Inr p"
        using Some True by (auto simp: view_original_def split: option.splits sum.splits)
      obtain c' where "unwrap_key unwrap cfg (og_rows st) (og_cache st) b = Inr (k, c')"
        using unwrap_key_total [OF c r(1,2)] by blast
      with r(3) Some True show "\<exists>st'. get_original dec unwrap cfg st b = Inr (p, st')"
        by (simp add: get_original_def object_get_raw_def)
    qed
  qed
qed


subsection \<open>Writing never loses an original\<close>

definition same_key :: "key_row \<Rightarrow> key_row \<Rightarrow> bool" where
  "same_key r r' = (dk_key_id r' = dk_key_id r \<and> dk_kek_ref r' = dk_kek_ref r \<and> dk_wrapped r' = dk_wrapped r)"

lemma key_cache_ok_mono:
  assumes "key_cache_ok unwrap rows c"
    and "\<And>b r. dict_get rows b = Some r \<Longrightarrow> \<exists>r'. dict_get rows' b = Some r' \<and> same_key r r'"
  shows "key_cache_ok unwrap rows' c"
  unfolding key_cache_ok_def
proof (intro allI impI)
  fix b k e assume "(b, k, e) \<in> set c"
  then obtain row where r: "dict_get rows b = Some row" "k_id k = dk_key_id row"
      "unwrap (dk_kek_ref row) (dk_wrapped row) = Inr (k_material k)"
    using assms(1) unfolding key_cache_ok_def by blast
  from assms(2) [OF r(1)] obtain r' where "dict_get rows' b = Some r'" "same_key row r'" by blast
  with r show "\<exists>row. dict_get rows' b = Some row \<and> k_id k = dk_key_id row
      \<and> unwrap (dk_kek_ref row) (dk_wrapped row) = Inr (k_material k)"
    by (auto simp: same_key_def)
qed

lemma row_key_same: "same_key r r' \<Longrightarrow> row_key unwrap r' = row_key unwrap r"
  unfolding row_key_def same_key_def by (simp split: sum.split)

text \<open>The state after sealing under a row's key: readable, and nothing else changed.\<close>

lemma sealed_state:
  assumes a: "aead_ok enc dec" and n: "length nonce = 12"
    and c: "key_cache_ok unwrap rows c" and rk: "rows_keyed rows"
    and row: "dict_get rows b = Some row" "row_key unwrap row = Some k"
    and w: "seal_and_write enc cfg nonce (st\<lparr>og_rows := rows, og_cache := c\<rparr>) row k b data = Inr st'"
  shows "og_ok unwrap st'" and "view_original dec unwrap st' b = Some data"
    and "b' \<noteq> b \<Longrightarrow> dict_get (ob_data (og_objects st')) b' = dict_get (ob_data (og_objects st)) b'
      \<and> dict_get (og_rows st') b' = dict_get rows b'"
proof -
  let ?row = "row\<lparr>dk_sealed_at := Some (kc_now cfg)\<rparr>"
  obtain s where s: "seal enc nonce (k_material k) (k_id k) b data = Inr s"
      "og_objects st' = object_put (kc_now cfg) (og_objects st) b s" "og_rows st' = dict_set b ?row rows"
      "og_cache st' = c"
    using w by (auto simp: seal_and_write_def result_simps)
  have "key_cache_ok unwrap (og_rows st') c"
    by (rule key_cache_ok_mono [OF c]) (use row(1) in \<open>auto simp: s(3) same_key_def\<close>)
  moreover have "dk_object_key ?row = b" using rk row(1) by (simp add: rows_keyed_def)
  then have "rows_keyed (og_rows st')" using rk by (simp add: s(3) rows_keyed_def)
  ultimately show "og_ok unwrap st'" by (simp add: og_ok_def s(4))
  have "row_key unwrap ?row = Some k" using row_key_same [of row ?row] row(2) by (simp add: same_key_def)
  then show "view_original dec unwrap st' b = Some data"
    using seal_parts(4) [OF s(1) n] open_seal [OF a n s(1)]
    by (simp add: view_original_def s(2,3) object_put_def)
  show "b' \<noteq> b \<Longrightarrow> dict_get (ob_data (og_objects st')) b' = dict_get (ob_data (og_objects st)) b'
      \<and> dict_get (og_rows st') b' = dict_get rows b'"
    by (simp add: s(2,3) object_put_def)
qed

text \<open>The key table at the time of a mint: another session may have inserted this object's row.\<close>

definition race_ok :: "string \<Rightarrow> (key_rows \<Rightarrow> key_rows) \<Rightarrow> bool" where
  "race_ok b env = (\<forall>rows. rows_keyed rows \<longrightarrow> rows_keyed (env rows)
     \<and> (\<forall>b'. b' \<noteq> b \<or> dict_get rows b \<noteq> None \<longrightarrow> dict_get (env rows) b' = dict_get rows b'))"

lemma mint_row_ok:
  assumes t: "\<forall>kek. transit_ok (wrap kek) (unwrap kek)" and e: "race_ok b env" and st: "og_ok unwrap st"
    and none: "dict_get (og_rows st) b = None"
    and m: "mint_row HB wrap unwrap cfg (env (og_rows st)) (og_cache st) material doc b domain = Inr (k, rows, c)"
  shows "key_cache_ok unwrap rows c \<and> rows_keyed rows
    \<and> (\<exists>row. dict_get rows b = Some row \<and> row_key unwrap row = Some k)
    \<and> (\<forall>b'. b' \<noteq> b \<longrightarrow> dict_get rows b' = dict_get (og_rows st) b')"
proof -
  have rk: "rows_keyed (og_rows st)" and c: "key_cache_ok unwrap (og_rows st) (og_cache st)"
    using st by (simp_all add: og_ok_def)
  have er: "rows_keyed (env (og_rows st))" "\<And>b'. b' \<noteq> b \<Longrightarrow> dict_get (env (og_rows st)) b' = dict_get (og_rows st) b'"
    using e rk by (auto simp: race_ok_def)
  have ec: "key_cache_ok unwrap (env (og_rows st)) (og_cache st)"
  proof (rule key_cache_ok_mono [OF c])
    fix b' r assume "dict_get (og_rows st) b' = Some r"
    then show "\<exists>r'. dict_get (env (og_rows st)) b' = Some r' \<and> same_key r r'"
      using er(2) none by (cases "b' = b") (auto simp: same_key_def)
  qed
  let ?fresh = "mint_key HB material"
  obtain w where w: "wrap (kc_kek cfg domain) (k_material ?fresh) = Inr w"
    using m by (auto simp: mint_row_def Let_def split: sum.splits)
  show ?thesis
  proof (cases "dict_get (env (og_rows st)) b")
    case (Some row)
    then have u: "unwrap_row unwrap cfg (og_cache st) row = Inr (k, c)" "rows = env (og_rows st)"
      using m w by (auto simp: mint_row_def Let_def result_simps)
    have "dk_object_key row = b" using er(1) Some by (simp add: rows_keyed_def)
    from unwrap_row_ok [OF ec Some this u(1)] Some er u(2) show ?thesis by blast
  next
    case None
    let ?row = "\<lparr>dk_object_key = b, dk_document_id = doc, dk_key_id = k_id ?fresh,
      dk_kek_ref = kc_kek cfg domain, dk_wrapped = w, dk_sealed_at = None\<rparr>"
    have r: "k = ?fresh" "rows = dict_set b ?row (env (og_rows st))"
        "c = cache_put (kc_size cfg) (kc_ttl cfg) (kc_clock cfg) (og_cache st) b ?fresh"
      using m w None by (auto simp: mint_row_def Let_def)
    have u: "unwrap (kc_kek cfg domain) w = Inr (k_material ?fresh)"
      using t w by (auto simp: transit_ok_def)
    have c1: "key_cache_ok unwrap rows (og_cache st)"
    proof (rule key_cache_ok_mono [OF ec])
      fix b' r' assume "dict_get (env (og_rows st)) b' = Some r'"
      then show "\<exists>r''. dict_get rows b' = Some r'' \<and> same_key r' r''"
        using None by (cases "b' = b") (auto simp: r(2) same_key_def)
    qed
    have "key_cache_ok unwrap rows c"
      unfolding key_cache_ok_def
    proof (intro allI impI)
      fix b' k' e assume "(b', k', e) \<in> set c"
      then have "(b', k', e) \<in> set (og_cache st) \<or> b' = b \<and> k' = ?fresh"
        using cache_put_sub unfolding r(3) by fastforce
      then show "\<exists>row. dict_get rows b' = Some row \<and> k_id k' = dk_key_id row
          \<and> unwrap (dk_kek_ref row) (dk_wrapped row) = Inr (k_material k')"
      proof
        assume "(b', k', e) \<in> set (og_cache st)"
        then show ?thesis using c1 unfolding key_cache_ok_def by blast
      next
        assume "b' = b \<and> k' = ?fresh"
        then show ?thesis using u by (simp add: r(2))
      qed
    qed
    moreover have "rows_keyed rows" using er(1) by (simp add: r(2) rows_keyed_def)
    moreover have "row_key unwrap ?row = Some ?fresh" using u by (simp add: row_key_def mint_key_def)
    ultimately show ?thesis using er(2) by (auto simp: r(1,2))
  qed
qed

lemma view_other:
  fixes st st' :: originals
  assumes "dict_get (ob_data (og_objects st')) b = dict_get (ob_data (og_objects st)) b"
    and "dict_get (og_rows st') b = dict_get (og_rows st) b"
  shows "view_original dec unwrap st' b = view_original dec unwrap st b"
  unfolding view_original_def assms by (rule refl)

lemma view_relink:
  fixes st :: originals
  assumes "dict_get (og_rows st) b = Some q"
  shows "view_original dec unwrap (st\<lparr>og_rows := (if changed then dict_set b (q\<lparr>dk_document_id := doc\<rparr>) (og_rows st)
      else og_rows st)\<rparr>) b' = view_original dec unwrap st b'"
proof (cases "changed \<and> b' = b")
  case True
  have "row_key unwrap (q\<lparr>dk_document_id := doc\<rparr>) = row_key unwrap q"
    by (rule row_key_same) (simp add: same_key_def)
  with True assms show ?thesis
    by (cases "dict_get (ob_data (og_objects st)) b") (simp_all add: view_original_def)
next
  case False
  show ?thesis by (rule view_other) (use False in auto)
qed

text \<open>C15: Storing an original never costs one. A \<open>put_original\<close> that reports \<open>WROTE\<close> leaves the object
  reading back as exactly the bytes given, any other outcome leaves every object as it was, and in all
  cases every original that was readable before, the same one included, reads as it did; also when
  another session mints the object's key in between, and also when the read of what lies there fails, provided that an original that can be read under the key
  is the bytes given, as it is where keys name the digest of their bytes.\<close>

theorem put_original_safe:
  fixes st :: originals
  assumes "aead_ok enc dec" and "\<forall>kek. transit_ok (wrap kek) (unwrap kek)" and "length nonce = 12"
    and "og_ok unwrap st" and "race_ok b env"
    and "put_original get_raw HB enc wrap unwrap cfg nonce material env domain st doc b data = Inr (r, st')"
    and "get_raw (og_objects st) b = object_get_raw (og_objects st) b
      \<or> get_raw (og_objects st) b = Inl ObjectStoreError \<and> (\<forall>x. view_original dec unwrap st b = Some x \<longrightarrow> x = data)"
  shows "og_ok unwrap st'
    \<and> (r = WROTE \<longrightarrow> view_original dec unwrap st' b = Some data)
    \<and> (r \<noteq> WROTE \<longrightarrow> og_objects st' = og_objects st)
    \<and> (\<forall>b' x. view_original dec unwrap st b' = Some x \<longrightarrow> view_original dec unwrap st' b' = Some x)"
proof -
  have rk: "rows_keyed (og_rows st)" and c: "key_cache_ok unwrap (og_rows st) (og_cache st)"
    using assms(4) by (simp_all add: og_ok_def)
  define row where "row = dict_get (og_rows st) b"
  define held where "held = dict_get (ob_data (og_objects st)) b"
  define stored where "stored = (case get_raw (og_objects st) b of Inl _ \<Rightarrow> None | Inr d \<Rightarrow> Some d)"
  define ss where "ss = (case stored of None \<Rightarrow> False | Some d \<Rightarrow> is_sealed d)"
  have seen: "stored = held \<or> stored = None \<and> (\<forall>x. view_original dec unwrap st b = Some x \<longrightarrow> x = data)"
    using assms(7) by (auto simp: object_get_raw_def stored_def held_def split: option.splits)
  note unf = assms(6)[unfolded put_original_def stored_def [symmetric] row_def [symmetric] Let_def ss_def [symmetric]]
  consider (same) q d where "row = Some q" "stored = Some d" "ss" "header_key_id d = Inr (dk_key_id q)"
    | (reseal) q where "row = Some q" "stored = None \<or> ss" "\<forall>d. stored = Some d \<longrightarrow> header_key_id d \<noteq> Inr (dk_key_id q)"
    | (mint) "row = None" "stored = None \<or> ss"
    | (plain) d where "stored = Some d" "\<not> ss"
  proof -
    from that show thesis
      by (cases row; cases stored; cases ss) (auto simp: ss_def)
  qed
  then show ?thesis
  proof cases
    case same
    then have r: "r = UNCHANGED" "st' = st\<lparr>og_rows := (if dk_document_id q \<noteq> doc
        then dict_set b (q\<lparr>dk_document_id := doc\<rparr>) (og_rows st) else og_rows st)\<rparr>"
      using unf by auto
    have q: "dict_get (og_rows st) b = Some q" "dk_object_key q = b" using same(1) rk by (auto simp: row_def rows_keyed_def)
    have "key_cache_ok unwrap (og_rows st') (og_cache st)"
      by (rule key_cache_ok_mono [OF c]) (use q in \<open>auto simp: r(2) same_key_def\<close>)
    moreover have "rows_keyed (og_rows st')" using rk q(2) by (auto simp: r(2) rows_keyed_def)
    moreover have "view_original dec unwrap st' b' = view_original dec unwrap st b'" for b'
      unfolding r(2) by (rule view_relink [OF q(1)])
    ultimately show ?thesis by (simp add: og_ok_def r)
  next
    case (reseal q)
    have q: "dict_get (og_rows st) b = Some q" using reseal(1) by (simp add: row_def)
    obtain k c1 st1 where s: "unwrap_key unwrap cfg (og_rows st) (og_cache st) b = Inr (k, c1)"
        "seal_and_write enc cfg nonce (st\<lparr>og_cache := c1\<rparr>) q k b data = Inr st1" "r = WROTE" "st' = st1"
      using unf reseal by (auto simp: result_simps split: option.splits if_splits)
    from unwrap_key_ok [OF c rk s(1)] q have k: "row_key unwrap q = Some k" "key_cache_ok unwrap (og_rows st) c1" by auto
    have "seal_and_write enc cfg nonce (st\<lparr>og_rows := og_rows st, og_cache := c1\<rparr>) q k b data = Inr st'"
      using s by simp
    note ws = sealed_state [OF assms(1,3) k(2) rk q k(1) this]
    have "view_original dec unwrap st b = None" if st: "stored = held"
    proof (cases stored)
      case (Some d)
      have "k_id k = dk_key_id q" using k(1) by (auto simp: row_key_def split: sum.splits)
      moreover have "is_sealed d" using reseal(2) Some by (simp add: ss_def)
      ultimately show ?thesis
        using Some q k(1) reseal(3) by (auto simp: view_original_def held_def [symmetric] st [symmetric] open_sealed_def
            result_simps split: sum.splits if_splits)
    qed (simp add: view_original_def held_def [symmetric] st [symmetric])
    then have "view_original dec unwrap st b = None \<or> view_original dec unwrap st b = Some data" using seen by (cases "view_original dec unwrap st b") auto
    moreover have "view_original dec unwrap st' b' = view_original dec unwrap st b'" if "b' \<noteq> b" for b'
      using ws(3) [OF that] by (intro view_other) auto
    ultimately show ?thesis using ws(1,2) s(3) by (metis option.distinct(1) option.inject put_result.distinct(1))
  next
    case mint
    have none: "dict_get (og_rows st) b = None" using mint(1) by (simp add: row_def)
    obtain k rows c1 where s: "mint_row HB wrap unwrap cfg (env (og_rows st)) (og_cache st) material doc b domain = Inr (k, rows, c1)"
        "seal_and_write enc cfg nonce (st\<lparr>og_rows := rows, og_cache := c1\<rparr>) (the (dict_get rows b)) k b data = Inr st'"
        "r = WROTE"
      using unf mint by (auto simp: result_simps split: option.splits)
    from mint_row_ok [OF assms(2,5,4) none s(1)] obtain q where q: "key_cache_ok unwrap rows c1" "rows_keyed rows"
        "dict_get rows b = Some q" "row_key unwrap q = Some k"
        "\<forall>b'. b' \<noteq> b \<longrightarrow> dict_get rows b' = dict_get (og_rows st) b'" by blast
    note ws = sealed_state [OF assms(1,3) q(1-4) s(2)[unfolded q(3) option.sel]]
    have "view_original dec unwrap st b = None" if st: "stored = held"
      using mint(2) none by (cases stored) (auto simp: view_original_def held_def [symmetric] st [symmetric] ss_def)
    then have "view_original dec unwrap st b = None \<or> view_original dec unwrap st b = Some data" using seen by (cases "view_original dec unwrap st b") auto
    moreover have "view_original dec unwrap st' b' = view_original dec unwrap st b'" if "b' \<noteq> b" for b'
      using ws(3) [OF that] q(5) that by (intro view_other) auto
    ultimately show ?thesis using ws(1,2) s(3) by (metis option.distinct(1) option.inject put_result.distinct(1))
  next
    case (plain d)
    then have "st' = st \<and> r = LEGACY" using unf by (auto split: option.splits if_splits)
    then show ?thesis using assms(4) by simp
  qed
qed

subsection \<open>The orphan sweep\<close>

definition sweep_step :: "objects \<times> string list \<times> string list \<Rightarrow> string \<Rightarrow> objects \<times> string list \<times> string list" where
  "sweep_step = (\<lambda>(ob, found, removed) key.
     let (ob', was) = object_delete ob key in (ob', found, if was then removed @ [key] else removed))"

lemma sweep_fold:
  assumes "distinct ks" and "\<forall>k\<in>set ks. dict_get (ob_data ob) k \<noteq> None"
    and "foldl sweep_step (ob, found, removed) ks = (ob', found', removed')"
  shows "removed' = removed @ ks \<and> found' = found
    \<and> (\<forall>b. dict_get (ob_data ob') b = (if b \<in> set ks then None else dict_get (ob_data ob) b))
    \<and> ob_modified ob' = filter (\<lambda>(k, _). k \<notin> set ks) (ob_modified ob)"
  using assms
proof (induction ks arbitrary: ob removed)
  case (Cons k ks)
  let ?ob = "fst (object_delete ob k)"
  have step: "sweep_step (ob, found, removed) k = (?ob, found, removed @ [k])"
    using Cons.prems(2) by (simp add: sweep_step_def object_delete_def)
  have get: "dict_get (ob_data ?ob) b = (if b = k then None else dict_get (ob_data ob) b)" for b
    by (simp add: object_delete_def)
  have pres: "\<forall>k'\<in>set ks. dict_get (ob_data ?ob) k' \<noteq> None"
    using Cons.prems(1,2) by (auto simp: get)
  have "foldl sweep_step (?ob, found, removed @ [k]) ks = (ob', found', removed')"
    using Cons.prems(3) step by simp
  from Cons.IH [OF _ pres this] Cons.prems(1) have ih: "removed' = (removed @ [k]) @ ks \<and> found' = found
    \<and> (\<forall>b. dict_get (ob_data ob') b = (if b \<in> set ks then None else dict_get (ob_data ?ob) b))
    \<and> ob_modified ob' = filter (\<lambda>(k, _). k \<notin> set ks) (ob_modified ?ob)" by simp
  have "ob_modified ?ob = filter (\<lambda>(k', _). k' \<noteq> k) (ob_modified ob)"
    by (simp add: object_delete_def AList.delete_eq) (auto intro: filter_cong)
  with ih get show ?case by (auto simp: split_beta intro: filter_cong)
qed simp

lemma orphan_unreadable:
  assumes "k \<in> set (map fst (find_orphans rows ob now))"
  shows "dict_get (ob_data ob) k \<noteq> None \<and> k \<in> set (dict_keys (ob_modified ob))
    \<and> view_original dec unwrap \<lparr>og_rows = rows, og_objects = ob, og_cache = c\<rparr> k = None"
proof -
  obtain d hid where d: "dict_get (ob_data ob) k = Some d" "is_sealed d" "header_key_id d = Inr hid"
      "case dict_get rows k of None \<Rightarrow> True | Some row \<Rightarrow> dk_key_id row \<noteq> hid"
      "k \<in> set (dict_keys (ob_modified ob))"
  proof -
    obtain t where t: "(k, t) \<in> set (find_orphans rows ob now)" using assms by force
    then have m: "(k, t) \<in> set (ob_modified ob)" by (simp add: find_orphans_def object_iter_def)
    obtain d where d: "dict_get (ob_data ob) k = Some d"
      using t by (cases "dict_get (ob_data ob) k") (simp_all add: find_orphans_def object_get_raw_def)
    with t have s: "is_sealed d" by (simp add: find_orphans_def object_get_raw_def)
    obtain hid where h: "header_key_id d = Inr hid"
      using t d by (cases "header_key_id d") (simp_all add: find_orphans_def object_get_raw_def)
    have "case dict_get rows k of None \<Rightarrow> True | Some row \<Rightarrow> dk_key_id row \<noteq> hid"
      using t d h by (simp add: find_orphans_def object_get_raw_def)
    then show thesis using that d s h m by force
  qed
  have "open_sealed dec m (dk_key_id row) k d = Inl ValueError" if "dict_get rows k = Some row" for row m
    using d(3,4) that by (simp add: open_sealed_def)
  with d show ?thesis
    by (auto simp: view_original_def row_key_def split: option.split sum.split)
qed

text \<open>The orphan sweep removes exactly what it reports and no original that anybody can read: with
  \<open>apply\<close> it deletes every sealed object older than an hour that opens under no key row, every readable
  original still reads as before, and a second sweep at the same time finds nothing.\<close>

theorem sweep_orphans_safe:
  fixes st :: originals
  assumes "dict_wf (ob_modified (og_objects st))"
    and "sweep_orphans True (og_rows st) (og_objects st) now = (ob', found, removed)"
  shows "removed = found \<and> found = map fst (find_orphans (og_rows st) (og_objects st) now)
    \<and> (\<forall>b x. view_original dec unwrap st b = Some x \<longrightarrow> view_original dec unwrap (st\<lparr>og_objects := ob'\<rparr>) b = Some x)
    \<and> find_orphans (og_rows st) ob' now = []"
proof -
  let ?ob = "og_objects st" and ?f = "map fst (find_orphans (og_rows st) (og_objects st) now)"
  have dis: "distinct ?f"
    using assms(1) unfolding find_orphans_def object_iter_def dict_wf_def
    by (intro distinct_map_filterI) auto
  have pres: "\<forall>k\<in>set ?f. dict_get (ob_data ?ob) k \<noteq> None"
    using orphan_unreadable by blast
  have fold: "foldl sweep_step (?ob, ?f, []) ?f = (ob', found, removed)"
    using assms(2) by (simp add: sweep_orphans_def Let_def sweep_step_def)
  have s: "removed = ?f" "found = ?f"
      "\<And>b. dict_get (ob_data ob') b = (if b \<in> set ?f then None else dict_get (ob_data ?ob) b)"
      "ob_modified ob' = filter (\<lambda>(k, _). k \<notin> set ?f) (ob_modified ?ob)"
    using sweep_fold [OF dis pres fold] by simp_all
  have view: "view_original dec unwrap (st\<lparr>og_objects := ob'\<rparr>) b = Some x"
    if v: "view_original dec unwrap st b = Some x" for b x
  proof -
    have "b \<notin> set ?f"
      using orphan_unreadable [of b "og_rows st" ?ob now dec unwrap "og_cache st"] v by (cases st) auto
    then have "view_original dec unwrap (st\<lparr>og_objects := ob'\<rparr>) b = view_original dec unwrap st b"
      using s(3) [of b] by (intro view_other) simp_all
    then show ?thesis using v by simp
  qed
  have "find_orphans (og_rows st) ob' now = []"
  proof (rule ccontr)
    assume "find_orphans (og_rows st) ob' now \<noteq> []"
    then obtain k t where k: "(k, t) \<in> set (find_orphans (og_rows st) ob' now)"
      by (metis list.set_intros(1) neq_Nil_conv surj_pair)
    then have k': "k \<notin> set ?f" "(k, t) \<in> set (ob_modified ?ob)"
      by (auto simp: find_orphans_def object_iter_def s(4))
    then have "dict_get (ob_data ob') k = dict_get (ob_data ?ob) k" using s(3) by simp
    with k k'(2) have "(k, t) \<in> set (find_orphans (og_rows st) ?ob now)"
      by (auto simp: find_orphans_def object_iter_def object_get_raw_def)
    then show False using k'(1) by force
  qed
  with s view show ?thesis by blast
qed

subsection \<open>Concrete instances\<close>

definition sample_sealed :: string where
  "sample_sealed = (case seal sample_enc (replicate 12 (CHR ''x'')) ''m'' ''id:maaaaaaaa'' ''documents/d1'' ''Bob'' of
     Inl _ \<Rightarrow> [] | Inr s \<Rightarrow> s)"

lemma sample_opens: "open_sealed sample_dec ''m'' ''id:maaaaaaaa'' ''documents/d1'' sample_sealed = Inr ''Bob''"
  by code_simp

lemma open_binds_witness:
  "header_key_id sample_sealed = Inr ''id:maaaaaaaa''
    \<and> drop HEADER_LEN sample_sealed = sample_enc ''m'' (slice NONCE_START HEADER_LEN sample_sealed) ''Bob'' (aad ''documents/d1'' ''id:maaaaaaaa'')"
  using open_binds [OF sample_aead sample_opens] by blast

definition sample_config :: key_config where
  "sample_config = \<lparr>kc_size = 8, kc_ttl = 5, kc_clock = 0, kc_now = sample_time, kc_kek = (\<lambda>_. ''kek'')\<rparr>"

definition no_originals :: originals where
  "no_originals = \<lparr>og_rows = [], og_objects = \<lparr>ob_data = [], ob_modified = []\<rparr>, og_cache = []\<rparr>"

definition sample_put :: "(put_result \<times> originals) result" where
  "sample_put = put_original object_get_raw sample_hb sample_enc (\<lambda>_. sample_wrap) (\<lambda>_. sample_wrap) sample_config (replicate 12 (CHR ''x''))
     ''m'' (\<lambda>rows. rows) DEFAULT_DOMAIN no_originals ''d1'' ''documents/d1'' ''Bob''"

definition sample_row :: key_row where
  "sample_row = \<lparr>dk_object_key = ''documents/d1'', dk_document_id = ''d1'', dk_key_id = ''id:maaaaaaaa'', dk_kek_ref = ''kek'',
     dk_wrapped = ''m'', dk_sealed_at = None\<rparr>"

lemma sample_mint: "mint_row sample_hb (\<lambda>_. sample_wrap) (\<lambda>_. sample_wrap) sample_config [] [] ''m'' ''d1'' ''documents/d1'' DEFAULT_DOMAIN
    = Inr (sample_key, [(''documents/d1'', sample_row)], [(''documents/d1'', sample_key, 5)])"
  by (simp add: mint_row_def Let_def mint_key_def sample_hb_def sample_wrap_def sample_config_def sample_row_def
      sample_key_def cache_put_def eval_nat_numeral)

lemma sample_put_wrote: "\<exists>st'. sample_put = Inr (WROTE, st')"
proof -
  have "seal sample_enc (replicate 12 (CHR ''x'')) ''m'' ''id:maaaaaaaa'' ''documents/d1'' ''Bob'' = Inr sample_sealed"
    by code_simp
  then show ?thesis
    unfolding sample_put_def put_original_def
    using sample_mint by (simp add: no_originals_def object_get_raw_def seal_and_write_def sample_key_def Let_def)
qed

lemma put_original_safe_witness:
  "\<exists>st' :: originals. sample_put = Inr (WROTE, st') \<and> og_ok (\<lambda>_. sample_wrap) st'
    \<and> (WROTE = WROTE \<longrightarrow> view_original sample_dec (\<lambda>_. sample_wrap) st' ''documents/d1'' = Some ''Bob'')
    \<and> (WROTE \<noteq> WROTE \<longrightarrow> og_objects st' = og_objects no_originals)
    \<and> (\<forall>b' x. view_original sample_dec (\<lambda>_. sample_wrap) no_originals b' = Some x \<longrightarrow>
          view_original sample_dec (\<lambda>_. sample_wrap) st' b' = Some x)"
proof -
  obtain st' where r: "sample_put = Inr (WROTE, st')"
    using sample_put_wrote by blast
  have "og_ok (\<lambda>_. sample_wrap) no_originals"
    by (simp add: og_ok_def rows_keyed_def key_cache_ok_def no_originals_def)
  moreover have "race_ok ''documents/d1'' (\<lambda>rows. rows)" by (simp add: race_ok_def)
  moreover have "\<forall>kek :: string. transit_ok ((\<lambda>_. sample_wrap) kek) ((\<lambda>_. sample_wrap) kek)" by simp
  ultimately have "og_ok (\<lambda>_. sample_wrap) st'
    \<and> (WROTE = WROTE \<longrightarrow> view_original sample_dec (\<lambda>_. sample_wrap) st' ''documents/d1'' = Some ''Bob'')
    \<and> (WROTE \<noteq> WROTE \<longrightarrow> og_objects st' = og_objects no_originals)
    \<and> (\<forall>b' x. view_original sample_dec (\<lambda>_. sample_wrap) no_originals b' = Some x \<longrightarrow>
          view_original sample_dec (\<lambda>_. sample_wrap) st' b' = Some x)"
    using put_original_safe [OF sample_aead _ _ _ _ r [unfolded sample_put_def]] by simp
  with r show ?thesis by blast
qed

lemma sample_sweep: "sweep_orphans True (og_rows no_originals) (og_objects no_originals) sample_time
    = (og_objects no_originals, [], [])"
  by (simp add: sweep_orphans_def find_orphans_def object_iter_def no_originals_def)

lemma sweep_orphans_safe_witness:
  "([] :: string list) = map fst (find_orphans (og_rows no_originals) (og_objects no_originals) sample_time)
    \<and> find_orphans (og_rows no_originals) (og_objects no_originals) sample_time = []"
proof -
  have "dict_wf (ob_modified (og_objects no_originals))" by (simp add: no_originals_def)
  from sweep_orphans_safe [OF this sample_sweep] show ?thesis by blast
qed

end
