(* ===== verification/DetectionStats.thy ===== *)
theory DetectionStats
  imports PyString Complex_Main
begin

text \<open>
  \<open>detection_stats.py\<close>: how much each layer found of each type, how confidently, and how much of it below
  the threshold, without a value or an offset. Scores are rationals.
\<close>

record cell =
  c_count :: nat
  c_min :: rat
  c_max :: rat
  c_below :: nat

type_synonym rows = "(string, cell) dict"
type_synonym stats = "(string, rows) dict"

definition DETERMINISTIC :: string where "DETERMINISTIC = ''deterministic''"
definition OPENANONYMISER :: string where "OPENANONYMISER = ''openanonymiser''"

definition rows_of :: "stats \<Rightarrow> string \<Rightarrow> rows" where
  "rows_of d layer = (case dict_get d layer of None \<Rightarrow> [] | Some r \<Rightarrow> r)"

definition stats_add :: "rat \<Rightarrow> stats \<Rightarrow> string \<Rightarrow> string \<Rightarrow> rat \<Rightarrow> nat \<Rightarrow> stats" where
  "stats_add min_score d layer entity_type score n =
     (if n = 0 then d
      else let rows = rows_of d layer;
               cell = (case dict_get rows (upper entity_type) of
                         None \<Rightarrow> \<lparr>c_count = 0, c_min = score, c_max = score, c_below = 0\<rparr> | Some c \<Rightarrow> c);
               cell = cell\<lparr>c_count := c_count cell + n, c_min := min (c_min cell) score,
                        c_max := max (c_max cell) score,
                        c_below := (if score < min_score then c_below cell + n else c_below cell)\<rparr>
           in dict_set layer (dict_set (upper entity_type) cell rows) d)"

definition merge_cell :: "cell \<Rightarrow> cell \<Rightarrow> cell" where
  "merge_cell cell c = cell\<lparr>c_count := c_count cell + c_count c, c_min := min (c_min cell) (c_min c),
     c_max := max (c_max cell) (c_max c), c_below := c_below cell + c_below c\<rparr>"

definition merge_rows :: "rows \<Rightarrow> rows \<Rightarrow> rows" where
  "merge_rows rows types = foldl (\<lambda>rows (t, c).
     case dict_get rows t of None \<Rightarrow> dict_set t c rows | Some cell \<Rightarrow> dict_set t (merge_cell cell c) rows) rows types"

definition stats_merge :: "stats \<Rightarrow> stats \<Rightarrow> stats" where
  "stats_merge d other = foldl (\<lambda>d (layer, types). dict_set layer (merge_rows (rows_of d layer) types) d) d other"

subsection \<open>What the aggregate counts\<close>

text \<open>
  The specification: the calls of \<open>add\<close> as a list of detections (layer, type, score, number); the entry of a
  layer and type is computed from the detections it is about.
\<close>

type_synonym detection = "string \<times> string \<times> rat \<times> nat"

definition about :: "string \<Rightarrow> string \<Rightarrow> detection list \<Rightarrow> (rat \<times> nat) list" where
  "about layer t ds = map snd (map snd (filter (\<lambda>(l, e, s, n). l = layer \<and> upper e = t \<and> 0 < n) ds))"

definition aggregate :: "rat \<Rightarrow> detection list \<Rightarrow> string \<Rightarrow> string \<Rightarrow> cell option" where
  "aggregate min_score ds layer t =
     (let es = about layer t ds
      in if es = [] then None
         else Some \<lparr>c_count = sum_list (map snd es), c_min = Min (set (map fst es)), c_max = Max (set (map fst es)),
           c_below = sum_list (map snd (filter (\<lambda>(s, n). s < min_score) es))\<rparr>)"

definition cell_of :: "stats \<Rightarrow> string \<Rightarrow> string \<Rightarrow> cell option" where
  "cell_of d layer t = dict_get (rows_of d layer) t"

definition stats_of :: "rat \<Rightarrow> detection list \<Rightarrow> stats" where
  "stats_of min_score ds = foldl (\<lambda>d (l, e, s, n). stats_add min_score d l e s n) [] ds"

fun join_cells :: "cell option \<Rightarrow> cell option \<Rightarrow> cell option" where
  "join_cells None y = y"
| "join_cells x None = x"
| "join_cells (Some x) (Some y) = Some (merge_cell x y)"

lemma join_cells_None [simp]: "join_cells x None = x"
  by (cases x) simp_all

definition single :: "rat \<Rightarrow> rat \<Rightarrow> nat \<Rightarrow> cell" where
  "single min_score s n = \<lparr>c_count = n, c_min = s, c_max = s, c_below = (if s < min_score then n else 0)\<rparr>"

lemma about_append [simp]: "about layer t (xs @ ys) = about layer t xs @ about layer t ys"
  by (simp add: about_def)

lemma aggregate_append: "aggregate m (xs @ ys) layer t = join_cells (aggregate m xs layer t) (aggregate m ys layer t)"
  by (cases "about layer t xs = []"; cases "about layer t ys = []")
    (simp_all add: aggregate_def Let_def merge_cell_def Min_Un Max_Un)

lemma aggregate_single: "aggregate m [(l, e, s, n)] layer t =
    (if l = layer \<and> upper e = t \<and> 0 < n then Some (single m s n) else None)"
  by (simp add: aggregate_def about_def single_def)

lemma rows_of_set [simp]: "rows_of (dict_set l r d) l' = (if l' = l then r else rows_of d l')"
  by (simp add: rows_of_def)

lemma cell_of_add: "cell_of (stats_add m d l e s n) layer t =
    join_cells (cell_of d layer t) (if l = layer \<and> upper e = t \<and> 0 < n then Some (single m s n) else None)"
  by (cases "dict_get (rows_of d l) (upper e)")
    (auto simp: cell_of_def stats_add_def single_def merge_cell_def Let_def)

lemma stats_of_cell: "cell_of (stats_of m ds) layer t = aggregate m ds layer t"
proof (induction ds rule: rev_induct)
  case Nil
  show ?case by (simp add: stats_of_def cell_of_def rows_of_def aggregate_def about_def)
next
  case (snoc x ds)
  obtain l e s n where x: "x = (l, e, s, n)" by (cases x)
  have "stats_of m (ds @ [x]) = stats_add m (stats_of m ds) l e s n" by (simp add: stats_of_def x)
  then show ?case using snoc by (simp add: cell_of_add aggregate_append x aggregate_single)
qed

lemma merge_rows_get: "dict_wf types \<Longrightarrow> dict_get (merge_rows rows types) t = join_cells (dict_get rows t) (dict_get types t)"
proof (induction types arbitrary: rows)
  case Nil
  show ?case by (simp add: merge_rows_def)
next
  case (Cons x types)
  obtain u c where x: "x = (u, c)" by (cases x)
  define rows1 where "rows1 = (case dict_get rows u of None \<Rightarrow> dict_set u c rows | Some cell \<Rightarrow> dict_set u (merge_cell cell c) rows)"
  have m: "merge_rows rows (x # types) = merge_rows rows1 types" by (simp add: merge_rows_def rows1_def x)
  have w: "dict_wf types" "dict_get types u = None" using Cons.prems by (auto simp: dict_wf_def x dict_get_None)
  have r: "dict_get rows1 t = (if t = u then join_cells (dict_get rows u) (Some c) else dict_get rows t)" for t
    by (cases "dict_get rows u") (simp_all add: rows1_def)
  show ?case using Cons.IH [OF w(1), of rows1] w(2) by (simp add: m [unfolded x] r x)
qed

definition stats_wf :: "stats \<Rightarrow> bool" where
  "stats_wf d = (dict_wf d \<and> (\<forall>l. dict_wf (rows_of d l)))"

lemma stats_add_wf: "stats_wf d \<Longrightarrow> stats_wf (stats_add m d l e s n)"
  by (simp add: stats_wf_def stats_add_def Let_def)

lemma stats_of_wf: "stats_wf (stats_of m ds)"
proof (induction ds rule: rev_induct)
  case Nil
  show ?case by (simp add: stats_of_def stats_wf_def rows_of_def)
next
  case (snoc x ds)
  then show ?case by (cases x) (simp add: stats_of_def stats_add_wf)
qed

lemma stats_merge_cell: "stats_wf other \<Longrightarrow> cell_of (stats_merge d other) layer t = join_cells (cell_of d layer t) (cell_of other layer t)"
proof (induction other arbitrary: d)
  case Nil
  show ?case by (simp add: stats_merge_def cell_of_def rows_of_def)
next
  case (Cons x other)
  obtain u r where x: "x = (u, r)" by (cases x)
  have u: "u \<notin> set (map fst other)" "dict_wf other" using Cons.prems by (auto simp: stats_wf_def dict_wf_def x)
  then have n: "rows_of other u = []" by (simp add: rows_of_def dict_get_None [THEN iffD2])
  have rr: "rows_of ((u, r) # other) l = (if l = u then r else rows_of other l)" for l by (simp add: rows_of_def)
  have w: "dict_wf r" "stats_wf other"
  proof -
    have a: "\<forall>l. dict_wf (rows_of ((u, r) # other) l)" using Cons.prems by (simp add: stats_wf_def x)
    from spec [OF a, of u] show "dict_wf r" by (simp add: rr)
    have "dict_wf (rows_of other l)" for l using spec [OF a, of l] n by (cases "l = u") (simp_all add: rr)
    with u(2) show "stats_wf other" by (simp add: stats_wf_def)
  qed
  have m: "stats_merge d (x # other) = stats_merge (dict_set u (merge_rows (rows_of d u) r) d) other"
    by (simp add: stats_merge_def x)
  show ?case using Cons.IH [OF w(2), of "dict_set u (merge_rows (rows_of d u) r) d"] n
    by (simp add: m [unfolded x] x cell_of_def rr merge_rows_get [OF w(1)])
qed

text \<open>The per-layer statistics are the statistics of the detections. Every entry that calls of \<open>add\<close> build
  has the number of detections of that layer and type, their lowest and highest score and the number below
  the threshold, a type in any capitalisation counting as one; and merging the statistics of two parts of
  a document gives, entry by entry, the statistics of both parts together.\<close>

theorem stats_refine:
  "cell_of (stats_of m ds) layer t = aggregate m ds layer t
   \<and> cell_of (stats_merge (stats_of m ds) (stats_of m ds')) layer t = aggregate m (ds @ ds') layer t"
  by (simp add: stats_of_cell stats_merge_cell [OF stats_of_wf] aggregate_append)

end
