(* ===== verification/Actions.thy ===== *)
theory Actions
  imports PyString Complex_Main
begin

text \<open>
  Effects that outlive a failure: an action takes a state and gives a result and the state it leaves, also
  when it raises. \<open>retry.py\<close>: which exceptions are worth another attempt, and the bounded retry with
  exponential back-off; the waits it makes are part of what it returns.
\<close>

type_synonym ('s, 'a) act = "'s \<Rightarrow> 'a result \<times> 's"

definition ret :: "'a \<Rightarrow> ('s, 'a) act" where "ret x s = (Inr x, s)"
definition raise_err :: "error \<Rightarrow> ('s, 'a) act" where "raise_err e s = (Inl e, s)"

definition andthen :: "('s, 'a) act \<Rightarrow> ('a \<Rightarrow> ('s, 'b) act) \<Rightarrow> ('s, 'b) act" where
  "andthen m f s = (case m s of (Inl e, s') \<Rightarrow> (Inl e, s') | (Inr x, s') \<Rightarrow> f x s')"

definition handle :: "('s, 'a) act \<Rightarrow> (error \<Rightarrow> ('s, 'a) act) \<Rightarrow> ('s, 'a) act" where
  "handle m h s = (case m s of (Inl e, s') \<Rightarrow> h e s' | (Inr x, s') \<Rightarrow> (Inr x, s'))"

definition reading :: "('s \<Rightarrow> 'a) \<Rightarrow> ('s, 'a) act" where "reading f s = (Inr (f s), s)"
definition changing :: "('s \<Rightarrow> 's) \<Rightarrow> ('s, unit) act" where "changing f s = (Inr (), f s)"
definition checked :: "'a result \<Rightarrow> ('s, 'a) act" where "checked r s = (r, s)"

lemma act_simps [simp]:
  "ret x s = (Inr x, s)" "raise_err e s = (Inl e, s)" "reading f s = (Inr (f s), s)"
  "changing g s = (Inr (), g s)" "checked r s = (r, s)"
  by (simp_all add: ret_def raise_err_def reading_def changing_def checked_def)

lemma andthen_Inr [result_simps]: "andthen m f s = (Inr y, s') \<longleftrightarrow> (\<exists>x s1. m s = (Inr x, s1) \<and> f x s1 = (Inr y, s'))"
  by (auto simp: andthen_def split: prod.splits sum.splits)

lemma andthen_simps [simp]:
  "andthen (reading f) g s = g (f s) s" "andthen (ret x) g s = g x s" "andthen (raise_err e) g s = (Inl e, s)"
  by (simp_all add: andthen_def ret_def reading_def raise_err_def)

lemma andthen_cases:
  assumes "andthen m f s = (r, s')"
  obtains (raised) e where "m s = (Inl e, s')" and "r = Inl e"
    | (went_on) x s1 where "m s = (Inr x, s1)" and "f x s1 = (r, s')"
  using assms by (cases "m s"; cases "fst (m s)") (auto simp: andthen_def)

lemma andthen_eval:
  "m s = (Inr x, s1) \<Longrightarrow> andthen m f s = f x s1"
  "m s = (Inl e, s1) \<Longrightarrow> andthen m f s = (Inl e, s1)"
  by (simp_all add: andthen_def)

text \<open>What holds of the state after every run, failed or not.\<close>

definition keeps :: "('s \<Rightarrow> 's \<Rightarrow> bool) \<Rightarrow> ('s, 'a) act \<Rightarrow> bool" where
  "keeps R m = (\<forall>s. R s (snd (m s)))"

lemma keeps_andthen:
  assumes "\<And>a b c. R a b \<Longrightarrow> R b c \<Longrightarrow> R a c" and "keeps R m" and "\<And>x. keeps R (f x)"
  shows "keeps R (andthen m f)"
  unfolding keeps_def
proof
  fix s
  obtain r s1 where m: "m s = (r, s1)" by (cases "m s")
  have "R s s1" using assms(2) m by (auto simp: keeps_def dest: spec [of _ s])
  moreover have "R s1 (snd (f x s1))" for x using assms(3) by (simp add: keeps_def)
  ultimately show "R s (snd (andthen m f s))"
    using assms(1) by (cases r) (simp_all add: andthen_def m)
qed

subsection \<open>Transient failures\<close>

text \<open>
  The classes of \<open>_PERMANENT\<close> include the subclasses of \<open>ValueError\<close>; \<open>Transport\<close> stands for the connection
  and time-out exceptions; an exception with an HTTP status is transient from 500 on; the classes without
  a status whose names contain neither \<open>connection\<close> nor \<open>timeout\<close> are permanent.
\<close>

primrec is_transient :: "error \<Rightarrow> bool" where
  "is_transient ValueError = False"
| "is_transient TypeError = False"
| "is_transient (KeyError k) = False"
| "is_transient AttributeError = False"
| "is_transient AssertionError = False"
| "is_transient (IntegrityError c) = False"
| "is_transient (DossierError m) = False"
| "is_transient (RoleError m) = False"
| "is_transient DeletionError = False"
| "is_transient (SupersessionError m) = False"
| "is_transient MissingAuditStream = False"
| "is_transient ObjectStoreError = False"
| "is_transient SealedObjectError = False"
| "is_transient OriginalsKeyUnavailable = False"
| "is_transient InvalidTag = False"
| "is_transient ActiveKeyExists = False"
| "is_transient (VcError m) = False"
| "is_transient (AccessError m) = False"
| "is_transient (ExportError m) = False"
| "is_transient WormRetentionError = False"
| "is_transient ExtractionError = False"
| "is_transient ProfilingError = False"
| "is_transient OcrError = False"
| "is_transient PdfError = False"
| "is_transient GenerationError = False"
| "is_transient EmbeddingError = False"
| "is_transient EmbeddingUnavailable = True"
| "is_transient AnonymizationEngineError = True"
| "is_transient (AnonymizationInvariantError c) = False"
| "is_transient SearchUnavailable = False"
| "is_transient (Transport m) = True"
| "is_transient (HttpStatus n) = (500 \<le> n)"
| "is_transient NotImplemented = False"
| "is_transient DegenerateBoxError = False"
| "is_transient (HTTPException n) = (500 \<le> n)"
| "is_transient ProvenanceError = False"
| "is_transient (TopicError m) = False"
| "is_transient (ManifestError m) = False"
| "is_transient (CheckError m) = False"
| "is_transient (ManifestRunError m) = False"
| "is_transient CsvError = False"
| "is_transient FileNotFoundError = True"

fun retry_loop :: "('s, 'a) act \<Rightarrow> rat \<Rightarrow> nat \<Rightarrow> nat \<Rightarrow> 's \<Rightarrow> ('a result \<times> 's) \<times> rat list" where
  "retry_loop fn base_delay i 0 s = ((Inl AssertionError, s), [])"
| "retry_loop fn base_delay i (Suc n) s = (case fn s of
     (Inr x, s') \<Rightarrow> ((Inr x, s'), [])
   | (Inl e, s') \<Rightarrow>
       if \<not> is_transient e then ((Inl e, s'), [])
       else if n = 0 then ((Inl e, s'), [])
       else (let (r, delays) = retry_loop fn base_delay (Suc i) n s' in (r, base_delay * 2 ^ i # delays)))"

definition retry_with_delays :: "('s, 'a) act \<Rightarrow> int \<Rightarrow> rat \<Rightarrow> 's \<Rightarrow> ('a result \<times> 's) \<times> rat list" where
  "retry_with_delays fn attempts base_delay s = retry_loop fn base_delay 0 (nat (max 1 attempts)) s"

definition retry_transient :: "('s, 'a) act \<Rightarrow> int \<Rightarrow> rat \<Rightarrow> ('s, 'a) act" where
  "retry_transient fn attempts base_delay s = fst (retry_with_delays fn attempts base_delay s)"

text \<open>The state after \<open>k\<close> calls.\<close>

definition after :: "('s, 'a) act \<Rightarrow> nat \<Rightarrow> 's \<Rightarrow> 's" where
  "after fn k s = ((\<lambda>s. snd (fn s)) ^^ k) s"

lemma after_simps [simp]: "after fn 0 s = s" "after fn (Suc k) s = after fn k (snd (fn s))"
  by (simp add: after_def) (simp only: after_def funpow_Suc_right comp_apply)

lemma retry_loop_spec:
  assumes "0 < n"
  shows "\<exists>k<n. (\<forall>j<k. \<exists>e. fst (fn (after fn j s)) = Inl e \<and> is_transient e)
    \<and> retry_loop fn b i n s = (fn (after fn k s), map (\<lambda>j. b * 2 ^ (i + j)) [0..<k])
    \<and> (k = n - 1 \<or> (case fst (fn (after fn k s)) of Inl e \<Rightarrow> \<not> is_transient e | Inr _ \<Rightarrow> True))"
  using assms
proof (induction n arbitrary: i s)
  case (Suc n)
  obtain r s1 where f: "fn s = (r, s1)" by (cases "fn s")
  show ?case
  proof (cases "n \<noteq> 0 \<and> (\<exists>e. r = Inl e \<and> is_transient e)")
    case False
    then have "retry_loop fn b i (Suc n) s = (fn s, [])"
      by (cases r) (auto simp: f)
    moreover have "n = 0 \<or> (case r of Inl e \<Rightarrow> \<not> is_transient e | Inr _ \<Rightarrow> True)"
      using False by (cases r) auto
    ultimately show ?thesis by (intro exI [of _ 0]) (auto simp: f)
  next
    case True
    then obtain e where e: "r = Inl e" "is_transient e" "0 < n" by auto
    from Suc.IH [OF e(3), of s1 "Suc i"] obtain k where k: "k < n"
      "\<forall>j<k. \<exists>e. fst (fn (after fn j s1)) = Inl e \<and> is_transient e"
      "retry_loop fn b (Suc i) n s1 = (fn (after fn k s1), map (\<lambda>j. b * 2 ^ (Suc i + j)) [0..<k])"
      "k = n - 1 \<or> (case fst (fn (after fn k s1)) of Inl e \<Rightarrow> \<not> is_transient e | Inr _ \<Rightarrow> True)" by blast
    have "retry_loop fn b i (Suc n) s = (fn (after fn (Suc k) s), map (\<lambda>j. b * 2 ^ (i + j)) [0..<Suc k])"
      using e k(3) by (simp add: f upt_conv_Cons map_Suc_upt [symmetric] del: upt_Suc)
    moreover have "\<forall>j<Suc k. \<exists>e. fst (fn (after fn j s)) = Inl e \<and> is_transient e"
    proof (intro allI impI)
      fix j assume "j < Suc k"
      then show "\<exists>e. fst (fn (after fn j s)) = Inl e \<and> is_transient e"
        using e k(2) f by (cases j) auto
    qed
    moreover have "Suc k = Suc n - 1 \<or> (case fst (fn (after fn (Suc k) s)) of Inl e \<Rightarrow> \<not> is_transient e | Inr _ \<Rightarrow> True)"
      using k(1,4) f by auto
    ultimately show ?thesis using k(1) by (intro exI [of _ "Suc k"]) simp
  qed
qed simp

text \<open>A retry is bounded, waits and stops where it should. For every function, state and setting there is a
  number of calls, at least one and at most the budget, after which the outcome is that of the last call,
  success or failure; every call before it failed with a transient error; the last call succeeded, failed
  for good, or used up the budget; and between two calls the wait is the base delay, doubled each time.\<close>

theorem retry_bounded:
  "\<exists>k. int k < max 1 attempts
    \<and> retry_with_delays fn attempts b s = (fn (after fn k s), map (\<lambda>j. b * 2 ^ j) [0..<k])
    \<and> list_all (\<lambda>j. \<exists>e. fst (fn (after fn j s)) = Inl e \<and> is_transient e) [0..<k]
    \<and> (int (Suc k) = max 1 attempts \<or> (case fst (fn (after fn k s)) of Inl e \<Rightarrow> \<not> is_transient e | Inr _ \<Rightarrow> True))"
proof -
  let ?n = "nat (max 1 attempts)"
  have n: "0 < ?n" by simp
  from retry_loop_spec [OF n, of fn s b 0] obtain k where k: "k < ?n"
    "\<forall>j<k. \<exists>e. fst (fn (after fn j s)) = Inl e \<and> is_transient e"
    "retry_loop fn b 0 ?n s = (fn (after fn k s), map (\<lambda>j. b * 2 ^ (0 + j)) [0..<k])"
    "k = ?n - 1 \<or> (case fst (fn (after fn k s)) of Inl e \<Rightarrow> \<not> is_transient e | Inr _ \<Rightarrow> True)" by blast
  have "k = ?n - 1 \<Longrightarrow> int (Suc k) = max 1 attempts" using n by linarith
  with k have "int (Suc k) = max 1 attempts \<or> (case fst (fn (after fn k s)) of Inl e \<Rightarrow> \<not> is_transient e | Inr _ \<Rightarrow> True)"
    by blast
  moreover have "int k < max 1 attempts" using k(1) by linarith
  moreover have "list_all (\<lambda>j. \<exists>e. fst (fn (after fn j s)) = Inl e \<and> is_transient e) [0..<k]"
    using k(2) by (simp add: list_all_iff)
  ultimately show ?thesis using k(3) by (intro exI [of _ k]) (simp add: retry_with_delays_def)
qed

end
