(* ===== verification/SearchIndex.thy ===== *)
theory SearchIndex
  imports Actions
begin

text \<open>
  \<open>search_index.py\<close> (the in-memory driver), \<open>rrf.py\<close>, \<open>passages.py\<close> and \<open>hybrid.py\<close>: the index, scoped
  search, rank fusion and passages. The similarity of two vectors is the parameter \<open>cosine\<close>
  (\<open>zeef.similarity\<close>); a vector is a list of rationals; an embedder is an action.
\<close>

type_synonym vector = "rat list"

subsection \<open>Fusing rankings\<close>

definition add_score :: "string \<Rightarrow> rat \<Rightarrow> (string, rat) dict \<Rightarrow> (string, rat) dict" where
  "add_score i x scores = dict_set i ((case dict_get scores i of None \<Rightarrow> 0 | Some y \<Rightarrow> y) + x) scores"

fun score_ranking :: "nat \<Rightarrow> nat \<Rightarrow> (string, rat) dict \<Rightarrow> string list \<Rightarrow> (string, rat) dict" where
  "score_ranking k rank scores [] = scores"
| "score_ranking k rank scores (i # ids) = score_ranking k (Suc rank) (add_score i (1 / of_nat (k + rank)) scores) ids"

definition reciprocal_rank_fusion :: "string list list \<Rightarrow> nat \<Rightarrow> (string, rat) dict" where
  "reciprocal_rank_fusion rankings k = foldl (score_ranking k 1) [] rankings"

definition fuse_ranked_ids :: "string list list \<Rightarrow> nat \<Rightarrow> string list" where
  "fuse_ranked_ids rankings k =
     (let scores = reciprocal_rank_fusion rankings k
      in sort_key (\<lambda>i. - (case dict_get scores i of None \<Rightarrow> 0 | Some s \<Rightarrow> s)) (map fst scores))"

subsection \<open>Passages\<close>

definition WORDS :: nat where "WORDS = 200"
definition STRIDE :: nat where "STRIDE = 150"

definition passage_starts :: "nat \<Rightarrow> nat \<Rightarrow> nat \<Rightarrow> nat list" where
  "passage_starts n width stride =
     (if n = 0 then []
      else let starts = filter (\<lambda>s. s mod stride = 0) [0..<n - width + 1]
           in if last starts + width < n then starts @ [n - width] else starts)"

definition passages :: "string \<Rightarrow> nat \<Rightarrow> nat \<Rightarrow> string list" where
  "passages text width stride =
     (let tokens = words text
      in map (\<lambda>s. join '' '' (take width (drop s tokens))) (passage_starts (length tokens) width stride))"

fun each_passage :: "(string \<Rightarrow> ('s, vector) act) \<Rightarrow> int \<Rightarrow> rat \<Rightarrow> string list \<Rightarrow> ('s, vector list) act" where
  "each_passage emb attempts base_delay [] = ret []"
| "each_passage emb attempts base_delay (p # ps) =
     andthen (retry_transient (emb p) attempts base_delay) (\<lambda>v.
     andthen (each_passage emb attempts base_delay ps) (\<lambda>vs. ret (v # vs)))"

definition embed_passages :: "(string \<Rightarrow> ('s, vector) act) \<Rightarrow> int \<Rightarrow> rat \<Rightarrow> string \<Rightarrow> ('s, vector list) act" where
  "embed_passages emb attempts base_delay text = each_passage emb attempts base_delay (passages text WORDS STRIDE)"

subsection \<open>The index\<close>

record index_entry =
  ie_text :: string
  ie_key :: string
  ie_vector :: "vector option"

record index =
  ix_docs :: "(string, index_entry) dict"
  ix_dossiers :: "(string, string set) dict"
  ix_topics :: "(string, string set) dict"
  ix_passages :: "(string, vector list) dict"

definition empty_index :: index where
  "empty_index = \<lparr>ix_docs = [], ix_dossiers = [], ix_topics = [], ix_passages = []\<rparr>"

definition members_of :: "(string, string set) dict \<Rightarrow> string \<Rightarrow> string set" where
  "members_of d i = (case dict_get d i of None \<Rightarrow> {} | Some s \<Rightarrow> s)"

definition index_put ::
    "index \<Rightarrow> string \<Rightarrow> string \<Rightarrow> string \<Rightarrow> vector option \<Rightarrow> string list \<Rightarrow> vector list \<Rightarrow> string list \<Rightarrow> index" where
  "index_put ix i text key vector dossiers ps topics =
     ix\<lparr>ix_docs := dict_set i \<lparr>ie_text = text, ie_key = key, ie_vector = vector\<rparr> (ix_docs ix),
        ix_dossiers := dict_set i (set dossiers) (ix_dossiers ix),
        ix_topics := dict_set i (set topics) (ix_topics ix),
        ix_passages := (if ps \<noteq> [] then dict_set i ps (ix_passages ix) else dict_pop i (ix_passages ix))\<rparr>"

definition set_passages :: "index \<Rightarrow> string \<Rightarrow> vector list \<Rightarrow> bool \<times> index" where
  "set_passages ix i ps =
     (if dict_get (ix_docs ix) i = None then (False, ix) else (True, ix\<lparr>ix_passages := dict_set i ps (ix_passages ix)\<rparr>))"

definition missing_passages :: "index \<Rightarrow> nat \<Rightarrow> (string \<times> string) list" where
  "missing_passages ix limit =
     take limit (map (\<lambda>(i, e). (i, ie_text e)) (filter (\<lambda>(i, e). dict_get (ix_passages ix) i = None) (ix_docs ix)))"

definition set_dossiers :: "index \<Rightarrow> string \<Rightarrow> string list \<Rightarrow> bool \<times> index" where
  "set_dossiers ix i ds =
     (if dict_get (ix_docs ix) i = None then (False, ix) else (True, ix\<lparr>ix_dossiers := dict_set i (set ds) (ix_dossiers ix)\<rparr>))"

definition set_topics :: "index \<Rightarrow> string \<Rightarrow> string list \<Rightarrow> bool \<times> index" where
  "set_topics ix i ts =
     (if dict_get (ix_docs ix) i = None then (False, ix) else (True, ix\<lparr>ix_topics := dict_set i (set ts) (ix_topics ix)\<rparr>))"

definition topics_of :: "index \<Rightarrow> string \<Rightarrow> string list" where
  "topics_of ix i = sorted_list_of_set (members_of (ix_topics ix) i)"

definition index_delete :: "index \<Rightarrow> string \<Rightarrow> bool \<times> index" where
  "index_delete ix i = (dict_get (ix_docs ix) i \<noteq> None,
     ix\<lparr>ix_docs := dict_pop i (ix_docs ix), ix_dossiers := dict_pop i (ix_dossiers ix),
        ix_topics := dict_pop i (ix_topics ix), ix_passages := dict_pop i (ix_passages ix)\<rparr>)"

definition index_exists :: "index \<Rightarrow> string \<Rightarrow> bool" where
  "index_exists ix i = (dict_get (ix_docs ix) i \<noteq> None)"

record indexed_document =
  id_document_id :: string
  id_text :: string
  id_vector :: "vector option"
  id_topics :: "string list"
  id_object_key :: string

definition index_documents_in :: "index \<Rightarrow> string \<Rightarrow> nat \<Rightarrow> indexed_document list" where
  "index_documents_in ix dossier limit =
     take limit (map (\<lambda>(i, e). \<lparr>id_document_id = i, id_text = ie_text e, id_vector = ie_vector e,
         id_topics = topics_of ix i, id_object_key = ie_key e\<rparr>)
       (filter (\<lambda>(i, e). dossier \<in> members_of (ix_dossiers ix) i) (ix_docs ix)))"

definition has_object_key :: "index \<Rightarrow> string \<Rightarrow> bool" where
  "has_object_key ix key = list_ex (\<lambda>(i, e). ie_key e = key) (ix_docs ix)"

definition in_scope :: "index \<Rightarrow> string \<Rightarrow> string list option \<Rightarrow> string option \<Rightarrow> bool" where
  "in_scope ix i only topic =
     (if (case only of None \<Rightarrow> False | Some ds \<Rightarrow> members_of (ix_dossiers ix) i \<inter> set ds = {}) then False
      else (case topic of None \<Rightarrow> True | Some t \<Rightarrow> t \<in> members_of (ix_topics ix) i))"

text \<open>\<open>re.findall(r"\w+", text.lower())\<close>\<close>

fun word_runs :: "string \<Rightarrow> string \<Rightarrow> string list" where
  "word_runs acc [] = (if acc = [] then [] else [rev acc])"
| "word_runs acc (c # cs) =
     (if is_word c then word_runs (c # acc) cs else (if acc = [] then word_runs [] cs else rev acc # word_runs [] cs))"

definition terms :: "string \<Rightarrow> string list" where
  "terms text = word_runs [] (lower text)"

definition lexical :: "index \<Rightarrow> string \<Rightarrow> string list option \<Rightarrow> string option \<Rightarrow> (string \<times> nat) list" where
  "lexical ix query only topic =
     sort_key (\<lambda>(i, s). - int s)
       (filter (\<lambda>(i, s). 0 < s)
         (map (\<lambda>(i, e). (i, length (filter (\<lambda>t. t \<in> set (terms query)) (terms (ie_text e)))))
           (filter (\<lambda>(i, e). in_scope ix i only topic) (ix_docs ix))))"

record hit =
  ht_document_id :: string
  ht_score :: rat
  ht_object_key :: string
  ht_vector :: "vector option"
  ht_text :: "string option"

definition search_index :: "index \<Rightarrow> string \<Rightarrow> nat \<Rightarrow> string list option \<Rightarrow> string option \<Rightarrow> hit list" where
  "search_index ix query limit only topic =
     map (\<lambda>(i, s). \<lparr>ht_document_id = i, ht_score = of_nat s, ht_object_key = ie_key (the (dict_get (ix_docs ix) i)),
            ht_vector = None, ht_text = None\<rparr>)
       (take limit (lexical ix query only topic))"

definition knn_pairs ::
    "(vector \<Rightarrow> vector \<Rightarrow> rat) \<Rightarrow> index \<Rightarrow> vector \<Rightarrow> string list option \<Rightarrow> string option \<Rightarrow> string \<Rightarrow> (string \<times> rat) list" where
  "knn_pairs cosine ix query_vector only topic knn =
     (if knn = ''passage'' then
        map (\<lambda>(i, vs). (i, Max (set (map (cosine query_vector) vs))))
          (filter (\<lambda>(i, vs). vs \<noteq> [] \<and> in_scope ix i only topic) (ix_passages ix))
      else
        map (\<lambda>(i, e). (i, cosine query_vector (the (ie_vector e))))
          (filter (\<lambda>(i, e). ie_vector e \<noteq> None \<and> ie_vector e \<noteq> Some [] \<and> in_scope ix i only topic) (ix_docs ix)))"

definition index_hybrid_search ::
    "(vector \<Rightarrow> vector \<Rightarrow> rat) \<Rightarrow> index \<Rightarrow> string \<Rightarrow> vector \<Rightarrow> nat \<Rightarrow> string list option \<Rightarrow> string option \<Rightarrow> string \<Rightarrow> hit list result" where
  "index_hybrid_search cosine ix query query_vector recall only topic knn =
     (let lexical_ids = map fst (lexical ix query only topic);
          knn_ids = map fst (sort_key (\<lambda>(i, s). - s) (knn_pairs cosine ix query_vector only topic knn));
          fused = take recall (fuse_ranked_ids [lexical_ids, knn_ids] 60)
      in rmap (\<lambda>i. case dict_get (ix_docs ix) i of
            None \<Rightarrow> Inl (KeyError i)
          | Some e \<Rightarrow> Inr \<lparr>ht_document_id = i, ht_score = 0, ht_object_key = ie_key e, ht_vector = ie_vector e,
                ht_text = Some (ie_text e)\<rparr>) fused)"

text \<open>\<open>round(x, 6)\<close> is the parameter \<open>round6\<close>.\<close>

definition hybrid_search where
  "hybrid_search cosine round6 ix emb attempts base_delay query limit recall only topic final knn =
     (if final \<notin> {''cosine'', ''rrf''} then raise_err ValueError
      else if knn \<notin> {''document'', ''passage''} then raise_err ValueError
      else andthen (retry_transient (emb query) attempts base_delay) (\<lambda>query_vector.
           andthen (checked (index_hybrid_search cosine ix query query_vector recall only topic knn)) (\<lambda>candidates.
           let scored = map (\<lambda>h. h\<lparr>ht_score := (case ht_vector h of
                   None \<Rightarrow> 0 | Some v \<Rightarrow> if v = [] then 0 else round6 (cosine query_vector v))\<rparr>) candidates;
               ordered = (if final = ''cosine'' then sort_key (\<lambda>h. - ht_score h) scored else scored)
           in ret (take limit ordered :: hit list))))"

subsection \<open>What fusing computes\<close>

text \<open>The specification: every list in which an id stands contributes the reciprocal of its rank.\<close>

fun contribution :: "nat \<Rightarrow> nat \<Rightarrow> string \<Rightarrow> string list \<Rightarrow> rat" where
  "contribution k rank i [] = 0"
| "contribution k rank i (j # js) = (if j = i then 1 / of_nat (k + rank) else 0) + contribution k (Suc rank) i js"

definition score_of :: "(string, rat) dict \<Rightarrow> string \<Rightarrow> rat" where
  "score_of d i = (case dict_get d i of None \<Rightarrow> 0 | Some s \<Rightarrow> s)"

lemma add_score_facts:
  "score_of (add_score j x d) i = score_of d i + (if i = j then x else 0)"
  "fst ` set (add_score j x d) = insert j (fst ` set d)"
  "dict_wf d \<Longrightarrow> dict_wf (add_score j x d)"
  by (auto simp: score_of_def add_score_def dom_update [unfolded dom_def] dest: arg_cong [of _ _ "\<lambda>f. f"] split: option.splits)

lemma score_ranking_facts:
  "score_of (score_ranking k rank d ids) i = score_of d i + contribution k rank i ids"
  "fst ` set (score_ranking k rank d ids) = fst ` set d \<union> set ids"
  "dict_wf d \<Longrightarrow> dict_wf (score_ranking k rank d ids)"
  by (induction ids arbitrary: rank d) (auto simp: add_score_facts)

lemma fusion_facts:
  "score_of (foldl (score_ranking k 1) d rankings) i = score_of d i + sum_list (map (contribution k 1 i) rankings)"
  "fst ` set (foldl (score_ranking k 1) d rankings) = fst ` set d \<union> \<Union> (set ` set rankings)"
  "dict_wf d \<Longrightarrow> dict_wf (foldl (score_ranking k 1) d rankings)"
  by (induction rankings arbitrary: d) (auto simp: score_ranking_facts)

lemma fuse_set: "set (fuse_ranked_ids rankings k) = \<Union> (set ` set rankings)"
  using fusion_facts(2) [of k "[]" rankings] by (simp add: fuse_ranked_ids_def Let_def reciprocal_rank_fusion_def)

text \<open>Fusing is reciprocal rank fusion and loses no id. The fused list has every id of the rankings once
  and no other, ordered by the sum over the rankings of one over \<open>k\<close> plus the rank, best first.\<close>

theorem fuse_is_rrf:
  "distinct (fuse_ranked_ids rankings k) \<and> set (fuse_ranked_ids rankings k) = \<Union> (set ` set rankings)
   \<and> sorted_wrt (\<lambda>i j. sum_list (map (contribution k 1 j) rankings) \<le> sum_list (map (contribution k 1 i) rankings))
       (fuse_ranked_ids rankings k)"
proof -
  let ?d = "reciprocal_rank_fusion rankings k"
  have e: "fuse_ranked_ids rankings k = sort_key (\<lambda>i. - score_of ?d i) (map fst ?d)"
    by (simp add: fuse_ranked_ids_def Let_def score_of_def)
  have s: "score_of ?d i = sum_list (map (contribution k 1 i) rankings)" for i
    unfolding reciprocal_rank_fusion_def fusion_facts(1) by (simp add: score_of_def)
  have "sorted_wrt (\<le>) (map (\<lambda>i. - score_of ?d i) (fuse_ranked_ids rankings k))"
    unfolding e using sorted_sort_key by blast
  then have "sorted_wrt (\<lambda>i j. score_of ?d j \<le> score_of ?d i) (fuse_ranked_ids rankings k)"
    by (simp add: sorted_wrt_map)
  moreover have "distinct (fuse_ranked_ids rankings k)"
    using fusion_facts(3) [of "[]" k rankings] by (simp add: e dict_wf_def reciprocal_rank_fusion_def)
  moreover have "set (fuse_ranked_ids rankings k) = \<Union> (set ` set rankings)" by (rule fuse_set)
  ultimately show ?thesis unfolding s by blast
qed

subsection \<open>Passages cover the text\<close>

lemma last_multiple: "0 < (st :: nat) \<Longrightarrow> last (filter (\<lambda>s. s mod st = 0) [0..<m + 1]) = m - m mod st"
proof -
  assume st: "0 < st"
  have "[0..<m + 1] = [0..<m - m mod st] @ (m - m mod st) # [Suc (m - m mod st)..<m + 1]"
    using upt_add_eq_append [of 0 "m - m mod st" "Suc (m mod st)"] upt_conv_Cons [of "m - m mod st" "m + 1"] by simp
  moreover have "(m - m mod st) mod st = 0" by (simp add: minus_mod_eq_mult_div)
  moreover have "filter (\<lambda>s. s mod st = 0) [Suc (m - m mod st)..<m + 1] = []"
  proof (rule filter_False, rule ballI)
    fix s assume "s \<in> set [Suc (m - m mod st)..<m + 1]"
    then have s: "m - m mod st < s" "s \<le> m" by auto
    define d where "d = s - (m - m mod st)"
    have "m mod st \<le> m" by simp
    then have d: "s = (m - m mod st) + d" "0 < d" "d \<le> m mod st" using s unfolding d_def by linarith+
    then have "s mod st = d mod st" by (simp add: minus_mod_eq_mult_div)
    then show "s mod st \<noteq> 0" using d st by (simp add: le_less_trans)
  qed
  ultimately show ?thesis by simp
qed

text \<open>No word is left out of every passage. For a text of any number of words the windows together cover
  every word, each window lies within the text, holds the fixed number of words unless the text itself is
  shorter, and an empty text has no window.\<close>

theorem passages_cover:
  "list_all (\<lambda>i. list_ex (\<lambda>s. s \<le> i \<and> i < s + WORDS) (passage_starts n WORDS STRIDE)) [0..<n]
   \<and> list_all (\<lambda>s. s + min n WORDS \<le> n) (passage_starts n WORDS STRIDE)
   \<and> (n = 0 \<longleftrightarrow> passage_starts n WORDS STRIDE = [])"
proof (cases "n = 0")
  case False
  let ?m = "n - WORDS"
  let ?starts = "filter (\<lambda>s. s mod STRIDE = 0) [0..<?m + 1]"
  have st: "0 < STRIDE" "STRIDE \<le> WORDS" by (simp_all add: STRIDE_def WORDS_def)
  have l: "last ?starts = ?m - ?m mod STRIDE" by (rule last_multiple [OF st(1)])
  have e: "passage_starts n WORDS STRIDE = (if last ?starts + WORDS < n then ?starts @ [?m] else ?starts)"
    using False by (simp add: passage_starts_def Let_def)
  have cover: "list_ex (\<lambda>s. s \<le> i \<and> i < s + WORDS) (passage_starts n WORDS STRIDE)" if i: "i < n" for i
  proof (cases "i < ?m - ?m mod STRIDE + WORDS")
    case True
    define s where "s = min (i - i mod STRIDE) (?m - ?m mod STRIDE)"
    have "(i - i mod STRIDE) mod STRIDE = 0" "(?m - ?m mod STRIDE) mod STRIDE = 0" by (simp_all add: minus_mod_eq_mult_div)
    then have "s mod STRIDE = 0" by (simp add: s_def min_def)
    moreover have "s \<le> ?m - ?m mod STRIDE" unfolding s_def by (rule min.cobounded2)
    then have "s < ?m + 1" by linarith
    ultimately have "s \<in> set ?starts" by (simp del: upt_Suc)
    moreover have "i mod STRIDE < STRIDE" using st(1) by simp
    then have "s \<le> i \<and> i < s + WORDS" using True st(2) by (auto simp: s_def min_def)
    ultimately show ?thesis by (auto simp: e list_ex_iff)
  next
    case F: False
    then have "last ?starts + WORDS < n" using i l by simp
    then have "?m \<in> set (passage_starts n WORDS STRIDE)" by (simp add: e)
    have "WORDS < n" using \<open>last ?starts + WORDS < n\<close> by simp
    moreover have "?m mod STRIDE < STRIDE" using st(1) by simp
    ultimately have "?m \<le> i \<and> i < ?m + WORDS" using i F st(2) by linarith
    with \<open>?m \<in> set (passage_starts n WORDS STRIDE)\<close> show ?thesis by (auto simp: list_ex_iff)
  qed
  have bound: "s + min n WORDS \<le> n" if "s \<in> set (passage_starts n WORDS STRIDE)" for s
    using that by (auto simp: e min_def split: if_splits)
  have "0 \<in> set ?starts" by (simp del: upt_Suc)
  then have "?starts \<noteq> []" by (metis empty_iff empty_set)
  moreover have "xs \<noteq> [] \<Longrightarrow> (if P then xs @ [m] else xs) \<noteq> []" for xs :: "nat list" and P m by simp
  ultimately have "passage_starts n WORDS STRIDE \<noteq> []" unfolding e by blast
  then show ?thesis using cover bound False by (auto simp: list_all_iff)
qed (simp add: passage_starts_def)

subsection \<open>The scope\<close>

lemma search_in_scope: "h \<in> set (search_index ix q n only topic) \<Longrightarrow> in_scope ix (ht_document_id h) only topic"
  by (auto simp: search_index_def lexical_def dest!: in_set_takeD)

lemma hybrid_in_scope:
  assumes "index_hybrid_search cosine ix q v recall only topic knn = Inr hs" and "h \<in> set hs"
  shows "in_scope ix (ht_document_id h) only topic"
proof -
  let ?ids = "[map fst (lexical ix q only topic), map fst (sort_key (\<lambda>(i, s). - s) (knn_pairs cosine ix v only topic knn))]"
  obtain i where i: "i \<in> set (take recall (fuse_ranked_ids ?ids 60))" "ht_document_id h = i"
    using assms list_all2_right [OF assms(1) [unfolded index_hybrid_search_def Let_def rmap_eq_Inr] assms(2)]
    by (auto split: option.splits)
  then have "i \<in> set (fuse_ranked_ids ?ids 60)" by (auto dest: in_set_takeD)
  then have "i \<in> \<Union> (set ` set ?ids)" by (simp only: fuse_set)
  then have "i \<in> fst ` set (lexical ix q only topic) \<or> i \<in> fst ` set (knn_pairs cosine ix v only topic knn)" by auto
  then show ?thesis by (auto simp: i(2) lexical_def knn_pairs_def split: if_splits)
qed

end
