(* ===== verification/Regex.thy ===== *)
theory Regex
  imports PyString
begin

text \<open>
  The part of Python's \<open>re\<close> that the patterns of the program use: character classes, sequence,
  alternation, greedy repetition of a class, word boundaries, one-character lookarounds and \<open>$\<close>. A
  position is the text before it, reversed, and the text after it. \<open>ends\<close> lists the positions where a
  match can end in the order of the backtracking engine, so its head is the match. \<open>pieces\<close> is the
  left-to-right scan of \<open>finditer\<close> and \<open>sub\<close>. None of the program's own patterns matches the empty text;
  the scan passes over an empty match.
\<close>

datatype rx =
    Cls "char \<Rightarrow> bool"
  | Cat rx rx
  | Alt rx rx
  | Rep "char \<Rightarrow> bool" nat "nat option"
  | Bound
  | NotBehind "char \<Rightarrow> bool"
  | NotAhead "char \<Rightarrow> bool"
  | AtEnd
  | Never

type_synonym pos = "string \<times> string"

fun rep_ends :: "(char \<Rightarrow> bool) \<Rightarrow> nat \<Rightarrow> nat option \<Rightarrow> string \<Rightarrow> string \<Rightarrow> pos list" where
  "rep_ends P m n b [] = (if m = 0 then [(b, [])] else [])"
| "rep_ends P m n b (c # cs) =
     (if n \<noteq> Some 0 \<and> P c then rep_ends P (m - 1) (map_option (\<lambda>k. k - 1) n) (c # b) cs else [])
     @ (if m = 0 then [(b, c # cs)] else [])"

definition word_at :: "string \<Rightarrow> bool" where
  "word_at s = (case s of [] \<Rightarrow> False | c # _ \<Rightarrow> is_word c)"

primrec ends :: "rx \<Rightarrow> pos \<Rightarrow> pos list" where
  "ends (Cls P) p = (case snd p of [] \<Rightarrow> [] | c # cs \<Rightarrow> if P c then [(c # fst p, cs)] else [])"
| "ends (Cat r s) p = concat (map (ends s) (ends r p))"
| "ends (Alt r s) p = ends r p @ ends s p"
| "ends (Rep P m n) p = rep_ends P m n (fst p) (snd p)"
| "ends Bound p = (if word_at (fst p) \<noteq> word_at (snd p) then [p] else [])"
| "ends (NotBehind P) p = (if (case fst p of [] \<Rightarrow> False | c # _ \<Rightarrow> P c) then [] else [p])"
| "ends (NotAhead P) p = (if (case snd p of [] \<Rightarrow> False | c # _ \<Rightarrow> P c) then [] else [p])"
| "ends AtEnd p = (if snd p = [] \<or> snd p = [CHR 0x0A] then [p] else [])"
| "ends Never p = []"

definition match_at :: "rx \<Rightarrow> string \<Rightarrow> string \<Rightarrow> string option" where
  "match_at r b cs = (case ends r (b, cs) of
     [] \<Rightarrow> None | q # _ \<Rightarrow> Some (take (length cs - length (snd q)) cs))"

definition fullmatch :: "rx \<Rightarrow> string \<Rightarrow> bool" where
  "fullmatch r s = list_ex (\<lambda>q. snd q = []) (ends r ([], s))"

definition chr :: "char \<Rightarrow> rx" where "chr c = Cls (\<lambda>x. x = c)"

primrec lit :: "string \<Rightarrow> rx" where
  "lit [] = Rep (\<lambda>_. True) 0 (Some 0)"
| "lit (c # cs) = (if cs = [] then chr c else Cat (chr c) (lit cs))"

definition alts :: "rx list \<Rightarrow> rx" where
  "alts rs = foldr Alt rs Never"

subsection \<open>Scanning\<close>

text \<open>A character outside every match, or a match with the index where it starts.\<close>

datatype piece = Lit char | Hit nat string

fun piece_text :: "piece \<Rightarrow> string" where
  "piece_text (Lit c) = [c]"
| "piece_text (Hit i v) = v"

function scan :: "rx \<Rightarrow> string \<Rightarrow> string \<Rightarrow> piece list" where
  "scan r b [] = []"
| "scan r b (c # cs) = (case match_at r b (c # cs) of
     Some (d # v) \<Rightarrow> Hit (length b) (d # v) # scan r (rev (d # v) @ b) (drop (length v) cs)
   | _ \<Rightarrow> Lit c # scan r (c # b) cs)"
  by pat_completeness auto
termination by (relation "measure (\<lambda>(r, b, cs). length cs)") auto

definition pieces :: "rx \<Rightarrow> string \<Rightarrow> piece list" where
  "pieces r s = scan r [] s"

fun hits :: "piece list \<Rightarrow> (nat \<times> string) list" where
  "hits [] = []"
| "hits (Lit c # ps) = hits ps"
| "hits (Hit i v # ps) = (i, v) # hits ps"

definition finditer :: "rx \<Rightarrow> string \<Rightarrow> (nat \<times> string) list" where
  "finditer r s = hits (pieces r s)"

definition search :: "rx \<Rightarrow> string \<Rightarrow> bool" where
  "search r s = (finditer r s \<noteq> [])"

text \<open>\<open>pattern.sub(repl, text)\<close> with a replacement that keeps a state and may raise.\<close>

fun sub_pieces :: "(nat \<Rightarrow> string \<Rightarrow> 's \<Rightarrow> (string \<times> 's) result) \<Rightarrow> piece list \<Rightarrow> 's \<Rightarrow> (string \<times> 's) result" where
  "sub_pieces f [] st = Inr ([], st)"
| "sub_pieces f (Lit c # ps) st = rbind (sub_pieces f ps st) (\<lambda>(t, st). Inr (c # t, st))"
| "sub_pieces f (Hit i v # ps) st =
     rbind (f i v st) (\<lambda>(r, st). rbind (sub_pieces f ps st) (\<lambda>(t, st). Inr (r @ t, st)))"

definition sub_with :: "rx \<Rightarrow> (nat \<Rightarrow> string \<Rightarrow> 's \<Rightarrow> (string \<times> 's) result) \<Rightarrow> string \<Rightarrow> 's \<Rightarrow> (string \<times> 's) result" where
  "sub_with r f s st = sub_pieces f (pieces r s) st"

definition sub :: "rx \<Rightarrow> (string \<Rightarrow> string) \<Rightarrow> string \<Rightarrow> string" where
  "sub r f s = concat (map (\<lambda>p. case p of Lit c \<Rightarrow> [c] | Hit i v \<Rightarrow> f v) (pieces r s))"

subsection \<open>What a match consumes\<close>

text \<open>A position further on: some text of what lay ahead now lies behind.\<close>

definition later_pos :: "pos \<Rightarrow> pos \<Rightarrow> bool" where
  "later_pos p q = (\<exists>v. snd p = v @ snd q \<and> fst q = rev v @ fst p)"

lemma later_refl [simp]: "later_pos p p"
  by (simp add: later_pos_def)

lemma later_trans: "later_pos p q \<Longrightarrow> later_pos q s \<Longrightarrow> later_pos p s"
  by (auto simp: later_pos_def)

lemma rep_ends_iff:
  "(b', cs') \<in> set (rep_ends P m n b cs) \<longleftrightarrow>
     (\<exists>v. cs = v @ cs' \<and> b' = rev v @ b \<and> (\<forall>c\<in>set v. P c) \<and> m \<le> length v \<and> (\<forall>k. n = Some k \<longrightarrow> length v \<le> k))"
proof (induction P m n b cs rule: rep_ends.induct)
  case (1 P m n b)
  then show ?case by auto
next
  case (2 P m n b c cs)
  show ?case (is "?l = (\<exists>v. ?r v)")
  proof
    assume ?l
    then consider "n \<noteq> Some 0" "P c" "(b', cs') \<in> set (rep_ends P (m - 1) (map_option (\<lambda>k. k - 1) n) (c # b) cs)"
      | "m = 0" "b' = b" "cs' = c # cs" by (auto split: if_splits)
    then show "\<exists>v. ?r v"
    proof cases
      case 1
      then obtain v where "cs = v @ cs' \<and> b' = rev v @ c # b \<and> (\<forall>c\<in>set v. P c) \<and> m - 1 \<le> length v
          \<and> (\<forall>k. map_option (\<lambda>k. k - 1) n = Some k \<longrightarrow> length v \<le> k)" using 2 by auto
      with 1(1,2) have "?r (c # v)" by (cases n) auto
      then show ?thesis by blast
    next
      case 2
      then have "?r []" by simp
      then show ?thesis by blast
    qed
  next
    assume "\<exists>v. ?r v"
    then obtain v where v: "?r v" by blast
    show ?l
    proof (cases v)
      case Nil
      from v [unfolded Nil] have "b' = b" "cs' = c # cs" "m = 0" by auto
      then show ?thesis by simp
    next
      case (Cons d w)
      with v have "n \<noteq> Some 0 \<and> P c" "cs = w @ cs' \<and> b' = rev w @ c # b \<and> (\<forall>c\<in>set w. P c) \<and> m - 1 \<le> length w
          \<and> (\<forall>k. map_option (\<lambda>k. k - 1) n = Some k \<longrightarrow> length w \<le> k)" by (auto split: option.splits)
      with 2 show ?thesis by simp
    qed
  qed
qed

lemma ends_later: "q \<in> set (ends r p) \<Longrightarrow> later_pos p q"
proof (induction r arbitrary: p q)
  case (Rep P m n)
  then have "(fst q, snd q) \<in> set (rep_ends P m n (fst p) (snd p))" by simp
  then obtain v where "snd p = v @ snd q \<and> fst q = rev v @ fst p" unfolding rep_ends_iff by blast
  then show ?case unfolding later_pos_def by blast
next
  case (Cat r s)
  then obtain p1 where "p1 \<in> set (ends r p)" "q \<in> set (ends s p1)" by auto
  then show ?case using Cat.IH later_trans by blast
next
  case (Alt r s)
  then have "q \<in> set (ends r p) \<or> q \<in> set (ends s p)" by simp
  then show ?case using Alt.IH by blast
qed (auto simp: later_pos_def split: list.splits if_splits)

lemma match_at_Some:
  "match_at r b cs = Some v \<Longrightarrow> \<exists>cs' qs. cs = v @ cs' \<and> ends r (b, cs) = (rev v @ b, cs') # qs"
proof -
  assume m: "match_at r b cs = Some v"
  then obtain q qs where q: "ends r (b, cs) = q # qs" "v = take (length cs - length (snd q)) cs"
    by (auto simp: match_at_def split: list.splits)
  then have "later_pos (b, cs) q" using ends_later [of q r "(b, cs)"] by simp
  then obtain w where "cs = w @ snd q" "fst q = rev w @ b" by (auto simp: later_pos_def)
  with q show ?thesis by (cases q) auto
qed

lemma match_at_None: "match_at r b cs = None \<longleftrightarrow> ends r (b, cs) = []"
  by (simp add: match_at_def split: list.split)

subsection \<open>The scan loses nothing\<close>

lemma concat_scan [simp]: "concat (map piece_text (scan r b cs)) = cs"
proof (induction r b cs rule: scan.induct)
  case (2 r b c cs)
  show ?case
  proof (cases "match_at r b (c # cs)")
    case (Some v)
    from match_at_Some [OF this] obtain cs' where cs: "c # cs = v @ cs'" by blast
    with Some 2 show ?thesis by (cases v) auto
  qed (use 2 in auto)
qed simp

lemma concat_pieces [simp]: "concat (map piece_text (pieces r s)) = s"
  by (simp add: pieces_def)

lemma scan_hit:
  assumes "Hit i v \<in> set (scan r b cs)"
  shows "\<exists>x y. cs = x @ v @ y \<and> i = length b + length x \<and> v \<noteq> [] \<and> match_at r (rev x @ b) (v @ y) = Some v"
  using assms
proof (induction r b cs rule: scan.induct)
  case (2 r b c cs)
  show ?case
  proof (cases "match_at r b (c # cs)")
    case None
    with 2 obtain x y where "cs = x @ v @ y \<and> i = length (c # b) + length x \<and> v \<noteq> [] \<and> match_at r (rev x @ c # b) (v @ y) = Some v"
      by auto
    then show ?thesis by (intro exI [of _ "c # x"] exI [of _ y]) simp
  next
    case (Some w)
    from match_at_Some [OF Some] obtain cs' where cs: "c # cs = w @ cs'" by blast
    show ?thesis
    proof (cases w)
      case Nil
      with 2 Some obtain x y where "cs = x @ v @ y \<and> i = length (c # b) + length x \<and> v \<noteq> [] \<and> match_at r (rev x @ c # b) (v @ y) = Some v"
        by auto
      then show ?thesis by (intro exI [of _ "c # x"] exI [of _ y]) simp
    next
      case (Cons d u)
      then have d: "drop (length u) cs = cs'" using cs by simp
      from "2.prems" Some Cons d consider "i = length b" "v = w" | "Hit i v \<in> set (scan r (rev w @ b) cs')" by auto
      then show ?thesis
      proof cases
        case 1
        then show ?thesis using cs Some Cons by (intro exI [of _ "[]"] exI [of _ cs']) simp
      next
        case 2
        from "2.IH"(3) [OF Some Cons] this Cons d obtain x y where
          "cs' = x @ v @ y \<and> i = length (rev w @ b) + length x \<and> v \<noteq> [] \<and> match_at r (rev x @ rev w @ b) (v @ y) = Some v"
          by auto
        then show ?thesis using cs by (intro exI [of _ "w @ x"] exI [of _ y]) simp
      qed
    qed
  qed
qed simp

lemma pieces_hit:
  assumes "Hit i v \<in> set (pieces r s)"
  shows "\<exists>x y. s = x @ v @ y \<and> i = length x \<and> v \<noteq> [] \<and> match_at r (rev x) (v @ y) = Some v"
  using scan_hit [of i v r "[]" s] assms by (simp add: pieces_def)

lemma set_hits: "(i, v) \<in> set (hits ps) \<longleftrightarrow> Hit i v \<in> set ps"
  by (induction ps rule: hits.induct) auto

text \<open>Where a character is passed over, no (non-empty) match starts.\<close>

lemma scan_lit_no_match:
  assumes "scan r b (c # cs) = Lit d # ps"
  shows "d = c \<and> ps = scan r (c # b) cs \<and> (\<forall>v. match_at r b (c # cs) = Some v \<longrightarrow> v = [])"
  using assms by (auto split: option.splits list.splits)

lemma scan_split:
  assumes "scan r b cs = ps1 @ Lit c # ps2"
  shows "\<exists>b' cs'. scan r b' (c # cs') = Lit c # scan r (c # b') cs' \<and> ps2 = scan r (c # b') cs'"
  using assms
proof (induction r b cs arbitrary: ps1 rule: scan.induct)
  case (2 r b d cs)
  consider (hit) e v where "match_at r b (d # cs) = Some (e # v)"
    | (pass) "scan r b (d # cs) = Lit d # scan r (d # b) cs" "match_at r b (d # cs) = None \<or> match_at r b (d # cs) = Some []"
  proof (cases "match_at r b (d # cs)")
    case (Some w)
    then show thesis using that by (cases w) auto
  qed (use that in auto)
  then show ?case
  proof cases
    case hit
    then obtain ps where "ps1 = Hit (length b) (e # v) # ps" "scan r (rev (e # v) @ b) (drop (length v) cs) = ps @ Lit c # ps2"
      using "2.prems" by (cases ps1) auto
    then show ?thesis using "2.IH"(3) [OF hit refl] by blast
  next
    case pass
    show ?thesis
    proof (cases ps1)
      case Nil
      with pass "2.prems" show ?thesis by (intro exI [of _ b] exI [of _ cs]) auto
    next
      case (Cons p ps)
      then have "scan r (d # b) cs = ps @ Lit c # ps2" using pass(1) "2.prems" by simp
      then show ?thesis using pass(2) "2.IH"(1) "2.IH"(2) [OF _ refl] by blast
    qed
  qed
qed simp

subsection \<open>Substitution\<close>

text \<open>A substitution as a list of edits: what stood there and what stands there now.\<close>

fun edit_of :: "(string \<Rightarrow> string) \<Rightarrow> piece \<Rightarrow> string \<times> string" where
  "edit_of f (Lit c) = ([c], [c])"
| "edit_of f (Hit i v) = (v, f v)"

lemma sub_edits: "sub r f s = concat (map (snd \<circ> edit_of f) (pieces r s))"
  unfolding sub_def by (intro arg_cong [of _ _ concat] map_cong refl) (simp split: piece.split)

lemma edits_src: "concat (map (fst \<circ> edit_of f) ps) = concat (map piece_text ps)"
proof -
  have "fst (edit_of f p) = piece_text p" for p by (cases p) simp_all
  then show ?thesis by (simp add: comp_def)
qed

lemma sub_pieces_edits:
  assumes "sub_pieces f ps st = Inr (t, st')"
  shows "\<exists>es. map fst es = map piece_text ps \<and> concat (map snd es) = t
    \<and> list_all2 (\<lambda>p e. case p of Lit c \<Rightarrow> e = ([c], [c])
         | Hit i v \<Rightarrow> fst e = v \<and> (\<exists>st1 st2. f i v st1 = Inr (snd e, st2))) ps es"
  using assms
proof (induction f ps st arbitrary: t rule: sub_pieces.induct)
  case (2 f c ps st)
  then obtain t' where t': "sub_pieces f ps st = Inr (t', st')" "t = c # t'" by (auto simp: result_simps)
  from 2(1) [OF t'(1)] obtain es where "map fst es = map piece_text ps" "concat (map snd es) = t'"
    "list_all2 (\<lambda>p e. case p of Lit c \<Rightarrow> e = ([c], [c])
         | Hit i v \<Rightarrow> fst e = v \<and> (\<exists>st1 st2. f i v st1 = Inr (snd e, st2))) ps es" by blast
  then show ?case using t'(2) by (intro exI [of _ "([c], [c]) # es"]) simp
next
  case (3 f i v ps st)
  then obtain r st1 t' where s: "f i v st = Inr (r, st1)" "sub_pieces f ps st1 = Inr (t', st')" "t = r @ t'"
    by (auto simp: result_simps)
  from 3(1) [OF s(2)] obtain es where "map fst es = map piece_text ps" "concat (map snd es) = t'"
    "list_all2 (\<lambda>p e. case p of Lit c \<Rightarrow> e = ([c], [c])
         | Hit i v \<Rightarrow> fst e = v \<and> (\<exists>st1 st2. f i v st1 = Inr (snd e, st2))) ps es" by blast
  then show ?case using s(1,3) by (intro exI [of _ "(v, r) # es"]) auto
qed simp

end
