(* ===== verification/Tokens.thy ===== *)
theory Tokens
  imports Regex PyDatetime
begin

text \<open>
  The pseudonym tokens of \<open>pseudonymizer.py\<close> and \<open>pseudonym_registry.py\<close>: their shape, taking foreign
  tokens apart, the reader's view of \<open>legible.py\<close>, and which tokens belong to which document. A text
  substitution is seen as a list of edits, from which follows which tokens its result can contain.
\<close>

definition is_label_char :: "char \<Rightarrow> bool" where
  "is_label_char c = (is_upper_az c \<or> is_decimal c \<or> c = CHR ''_'')"

definition PSEUDONYM_RE :: rx where
  "PSEUDONYM_RE = Cat (chr (CHR ''['')) (Cat (Rep is_label_char 1 None)
     (Cat (chr (CHR '':'')) (Cat (Rep is_hex_lower 8 (Some 8)) (chr (CHR '']'')))))"

definition label_of :: "string \<Rightarrow> string" where
  "label_of pseudonym = upper (takeWhile (\<lambda>c. c \<noteq> CHR '':'') (drop 1 pseudonym))"

definition without_tokens :: "string \<Rightarrow> string \<Rightarrow> string" where
  "without_tokens text replacement = sub PSEUDONYM_RE (\<lambda>_. replacement) text"

definition defuse :: "string \<Rightarrow> string" where
  "defuse v = CHR ''('' # butlast (tl v) @ '')''"

definition neutralise_foreign_tokens :: "string \<Rightarrow> string \<times> nat" where
  "neutralise_foreign_tokens text = (sub PSEUDONYM_RE defuse text, length (finditer PSEUDONYM_RE text))"

definition tokens_in :: "string \<Rightarrow> string set" where
  "tokens_in text = set (map snd (finditer PSEUDONYM_RE text))"

subsection \<open>The shape of a token\<close>

definition is_token :: "string \<Rightarrow> bool" where
  "is_token v = (\<exists>L h. v = CHR ''['' # L @ CHR '':'' # h @ [CHR '']''] \<and> L \<noteq> [] \<and> (\<forall>c\<in>set L. is_label_char c)
     \<and> length h = 8 \<and> (\<forall>c\<in>set h. is_hex_lower c))"

lemma class_facts:
  "\<not> is_label_char (CHR '':'')" "\<not> is_label_char (CHR ''['')" "\<not> is_label_char (CHR '']'')" "\<not> is_label_char (CHR ''('')"
  "\<not> is_hex_lower (CHR '':'')" "\<not> is_hex_lower (CHR ''['')" "\<not> is_hex_lower (CHR '']'')" "\<not> is_hex_lower (CHR ''('')"
  by (simp_all add: is_label_char_def is_hex_lower_def is_upper_az_def is_decimal_def)

lemma in_ends_Cat: "q \<in> set (ends (Cat r s) p) \<longleftrightarrow> (\<exists>p1. p1 \<in> set (ends r p) \<and> q \<in> set (ends s p1))"
  by auto

lemma in_ends_chr: "q \<in> set (ends (chr c) p) \<longleftrightarrow> snd p = c # snd q \<and> fst q = c # fst p"
  by (cases q) (auto simp: chr_def split: list.splits)

lemma in_ends_Rep:
  "q \<in> set (ends (Rep P m n) p) \<longleftrightarrow> (\<exists>v. snd p = v @ snd q \<and> fst q = rev v @ fst p \<and> (\<forall>c\<in>set v. P c)
     \<and> m \<le> length v \<and> (\<forall>k. n = Some k \<longrightarrow> length v \<le> k))"
  using rep_ends_iff [of "fst q" "snd q" P m n "fst p" "snd p"] by simp

lemma in_ends_token:
  "q \<in> set (ends PSEUDONYM_RE p) \<longleftrightarrow> (\<exists>v. is_token v \<and> snd p = v @ snd q \<and> fst q = rev v @ fst p)" (is "?l = ?r")
proof
  assume ?l
  then obtain p1 p2 p3 p4 where s: "p1 \<in> set (ends (chr (CHR ''['')) p)" "p2 \<in> set (ends (Rep is_label_char 1 None) p1)"
      "p3 \<in> set (ends (chr (CHR '':'')) p2)" "p4 \<in> set (ends (Rep is_hex_lower 8 (Some 8)) p3)" "q \<in> set (ends (chr (CHR '']'')) p4)"
    unfolding PSEUDONYM_RE_def in_ends_Cat by blast
  obtain L where L: "snd p1 = L @ snd p2" "fst p2 = rev L @ fst p1" "\<forall>c\<in>set L. is_label_char c" "1 \<le> length L"
    using s(2) unfolding in_ends_Rep by blast
  obtain h where h: "snd p3 = h @ snd p4" "fst p4 = rev h @ fst p3" "\<forall>c\<in>set h. is_hex_lower c" "length h = 8"
    using s(4) unfolding in_ends_Rep by (metis le_antisym)
  let ?v = "CHR ''['' # L @ CHR '':'' # h @ [CHR '']'']"
  have "is_token ?v" unfolding is_token_def using L(3,4) h(3,4) by (intro exI [of _ L] exI [of _ h]) auto
  moreover have "snd p = ?v @ snd q" "fst q = rev ?v @ fst p"
    using s(1,3,5) L(1,2) h(1,2) unfolding in_ends_chr by simp_all
  ultimately show ?r by blast
next
  assume ?r
  then obtain L h where v: "L \<noteq> []" "\<forall>c\<in>set L. is_label_char c" "length h = 8" "\<forall>c\<in>set h. is_hex_lower c"
      "snd p = CHR ''['' # L @ CHR '':'' # h @ CHR '']'' # snd q"
      "fst q = CHR '']'' # rev h @ CHR '':'' # rev L @ CHR ''['' # fst p"
    unfolding is_token_def by auto
  let ?p1 = "(CHR ''['' # fst p, L @ CHR '':'' # h @ CHR '']'' # snd q)"
  let ?p2 = "(rev L @ fst ?p1, CHR '':'' # h @ CHR '']'' # snd q)"
  let ?p3 = "(CHR '':'' # fst ?p2, h @ CHR '']'' # snd q)"
  let ?p4 = "(rev h @ fst ?p3, CHR '']'' # snd q)"
  have "?p1 \<in> set (ends (chr (CHR ''['')) p)" "?p3 \<in> set (ends (chr (CHR '':'')) ?p2)" "q \<in> set (ends (chr (CHR '']'')) ?p4)"
    using v(5,6) unfolding in_ends_chr by simp_all
  moreover have "?p2 \<in> set (ends (Rep is_label_char 1 None) ?p1)"
    unfolding in_ends_Rep using v(1,2) by (intro exI [of _ L]) (simp add: Suc_le_eq)
  moreover have "?p4 \<in> set (ends (Rep is_hex_lower 8 (Some 8)) ?p3)"
    unfolding in_ends_Rep using v(3,4) by (intro exI [of _ h]) simp
  ultimately show ?l unfolding PSEUDONYM_RE_def in_ends_Cat by blast
qed

lemma token_prefix_unique:
  assumes "is_token v" and "is_token w" and "v @ x = w @ y"
  shows "v = w"
proof -
  obtain L h where v: "v = CHR ''['' # L @ CHR '':'' # h @ [CHR '']'']" "\<forall>c\<in>set L. is_label_char c" "length h = 8"
    using assms(1) unfolding is_token_def by blast
  obtain M k where w: "w = CHR ''['' # M @ CHR '':'' # k @ [CHR '']'']" "\<forall>c\<in>set M. is_label_char c" "length k = 8"
    using assms(2) unfolding is_token_def by blast
  have e: "L @ CHR '':'' # h @ CHR '']'' # x = M @ CHR '':'' # k @ CHR '']'' # y" using assms(3) v(1) w(1) by simp
  have t: "takeWhile (\<lambda>c. c \<noteq> CHR '':'') (L @ CHR '':'' # z) = L" if "\<forall>c\<in>set L. is_label_char c" for L z
  proof -
    have "\<forall>c\<in>set L. c \<noteq> CHR '':''" using that class_facts(1) by auto
    then show ?thesis by (simp add: takeWhile_append)
  qed
  have "L = M" using t [OF v(2), of "h @ CHR '']'' # x"] t [OF w(2), of "k @ CHR '']'' # y"] e by simp
  with e v w show ?thesis by simp
qed

lemma match_token: "match_at PSEUDONYM_RE b cs = Some v \<longleftrightarrow> is_token v \<and> (\<exists>cs'. cs = v @ cs')"
proof
  assume m: "match_at PSEUDONYM_RE b cs = Some v"
  from match_at_Some [OF this] obtain cs' qs where s: "cs = v @ cs'" "ends PSEUDONYM_RE (b, cs) = (rev v @ b, cs') # qs" by blast
  then have "(rev v @ b, cs') \<in> set (ends PSEUDONYM_RE (b, cs))" by simp
  then obtain w where "is_token w" "cs = w @ cs'" unfolding in_ends_token by auto
  with s(1) show "is_token v \<and> (\<exists>cs'. cs = v @ cs')" by simp
next
  assume v: "is_token v \<and> (\<exists>cs'. cs = v @ cs')"
  then obtain cs' where cs: "cs = v @ cs'" by blast
  have "(rev v @ b, cs') \<in> set (ends PSEUDONYM_RE (b, cs))" unfolding in_ends_token using v cs by auto
  then obtain w where w: "match_at PSEUDONYM_RE b cs = Some w"
    using match_at_None [of PSEUDONYM_RE b cs] by (cases "match_at PSEUDONYM_RE b cs") auto
  from match_at_Some [OF this] obtain cs'' qs where s: "cs = w @ cs''" "ends PSEUDONYM_RE (b, cs) = (rev w @ b, cs'') # qs" by blast
  then have "(rev w @ b, cs'') \<in> set (ends PSEUDONYM_RE (b, cs))" by simp
  then obtain w' where "is_token w'" "cs = w' @ cs''" unfolding in_ends_token by auto
  with s(1) have "is_token w" by simp
  then have "v = w" using token_prefix_unique v cs s(1) by metis
  with w show "match_at PSEUDONYM_RE b cs = Some v" by simp
qed

lemma token_hd: "is_token v \<Longrightarrow> \<exists>w. v = CHR ''['' # w \<and> CHR ''['' \<notin> set w \<and> CHR ''('' \<notin> set w"
  unfolding is_token_def using class_facts by auto

text \<open>The scan of a text that starts with a token, and of one that does not.\<close>

lemma scan_token: "is_token v \<Longrightarrow> scan PSEUDONYM_RE b (v @ cs) = Hit (length b) v # scan PSEUDONYM_RE (rev v @ b) cs"
proof -
  assume v: "is_token v"
  then obtain w where w: "v = CHR ''['' # w" using token_hd by blast
  have "match_at PSEUDONYM_RE b (v @ cs) = Some v" using v match_token by blast
  then show ?thesis by (simp add: w)
qed

lemma scan_other:
  assumes "\<nexists>v y. is_token v \<and> c # cs = v @ y"
  shows "scan PSEUDONYM_RE b (c # cs) = Lit c # scan PSEUDONYM_RE (c # b) cs"
proof (cases "match_at PSEUDONYM_RE b (c # cs)")
  case (Some v)
  then show ?thesis using match_token [of b "c # cs" v] assms by blast
qed simp

text \<open>Wherever a token stands in a text, the scan finds it.\<close>

lemma tokens_in_iff: "v \<in> tokens_in s \<longleftrightarrow> is_token v \<and> (\<exists>x y. s = x @ v @ y)"
proof
  assume "v \<in> tokens_in s"
  then obtain i where "Hit i v \<in> set (pieces PSEUDONYM_RE s)"
    by (auto simp: tokens_in_def finditer_def set_hits)
  from pieces_hit [OF this] show "is_token v \<and> (\<exists>x y. s = x @ v @ y)" unfolding match_token by blast
next
  have *: "is_token v \<Longrightarrow> s = x @ v @ y \<Longrightarrow> \<exists>i. Hit i v \<in> set (scan PSEUDONYM_RE b s)" for s x y b
  proof (induction "length x" arbitrary: s x b rule: less_induct)
    case less
    obtain w where w: "v = CHR ''['' # w" using token_hd less.prems(1) by blast
    show ?case
    proof (cases "\<exists>t z. is_token t \<and> s = t @ z")
      case True
      then obtain t z where t: "is_token t" "s = t @ z" by blast
      obtain u where u: "t = CHR ''['' # u" "CHR ''['' \<notin> set u" using token_hd t(1) by blast
      consider "x = []" | x' where "x = t @ x'" "z = x' @ v @ y"
      proof -
        have "x @ v @ y = t @ z" using t(2) less.prems(2) by simp
        then obtain r where r: "x = t @ r \<and> r @ v @ y = z \<or> x @ r = t \<and> v @ y = r @ z"
          unfolding append_eq_append_conv2 by blast
        then consider "x = t @ r" "z = r @ v @ y" | "t = x" "z = v @ y" | "t = x @ r" "r \<noteq> []" "v @ y = r @ z"
          by (cases "r = []") auto
        then show thesis
        proof cases
          case 3
          note 2 = 3
          then have "hd r = CHR ''[''" using w by (cases r) auto
          then have "x = []" using 2(1,2) u by (cases x; cases r) auto
          then show thesis using that by blast
        next
          case 2
          then show thesis using that(2) [of "[]"] by simp
        qed (use that in blast)
      qed
      then show ?thesis
      proof cases
        case 1
        then have "v = t" using t less.prems token_prefix_unique by (metis append_Nil)
        then show ?thesis using t scan_token [of t b z] by auto
      next
        case 2
        then have "length x' < length x" using u by simp
        from less.hyps [OF this less.prems(1) 2(2)] obtain i where "Hit i v \<in> set (scan PSEUDONYM_RE (rev t @ b) z)" by blast
        then show ?thesis using t scan_token [of t b z] by auto
      qed
    next
      case False
      then have "x \<noteq> []" using less.prems by auto
      then obtain c x' where x: "x = c # x'" by (cases x) auto
      from less.hyps [of x', OF _ less.prems(1) refl] x obtain i where
        "Hit i v \<in> set (scan PSEUDONYM_RE (c # b) (x' @ v @ y))" by auto
      then show ?thesis using scan_other [of c "x' @ v @ y" b] False less.prems(2) x by auto
    qed
  qed
  assume "is_token v \<and> (\<exists>x y. s = x @ v @ y)"
  then obtain x y where "is_token v" "s = x @ v @ y" by blast
  from * [OF this, of "[]"] obtain i where "(i, v) \<in> set (finditer PSEUDONYM_RE s)"
    by (auto simp: finditer_def pieces_def set_hits)
  then show "v \<in> tokens_in s" unfolding tokens_in_def by force
qed

subsection \<open>Edits\<close>

text \<open>Edits that keep what stood there, put a token in its place, or something that cannot be part of one.\<close>

definition token_edit :: "string \<times> string \<Rightarrow> bool" where
  "token_edit e = (fst e = snd e \<or> is_token (snd e) \<or> (\<exists>w. snd e = CHR ''('' # w \<and> CHR ''['' \<notin> set w))"

lemma edits_prefix:
  assumes "\<forall>e\<in>set es. token_edit e" and "CHR ''['' \<notin> set w" and "CHR ''('' \<notin> set w"
    and "concat (map snd es) = w @ y"
  shows "\<exists>y'. concat (map fst es) = w @ y'"
  using assms
proof (induction es arbitrary: w y)
  case (Cons e es)
  consider (keep) "fst e = snd e" | (open_paren) c v where "snd e = c # v" "c = CHR ''['' \<or> c = CHR ''(''"
    using Cons.prems(1) token_hd unfolding token_edit_def by (metis list.set_intros(1))
  then show ?case
  proof cases
    case keep
    have "snd e @ concat (map snd es) = w @ y" using Cons.prems(4) by simp
    then consider r where "snd e = w @ r" | r where "w = snd e @ r" "concat (map snd es) = r @ y"
      by (auto simp: append_eq_append_conv2)
    then show ?thesis
    proof cases
      case 1
      then show ?thesis using keep by simp
    next
      case 2
      have "\<exists>y'. concat (map fst es) = r @ y'"
        by (rule Cons.IH [OF _ _ _ 2(2)]) (use Cons.prems(1-3) 2(1) in auto)
      then show ?thesis using keep 2(1) by auto
    qed
  next
    case open_paren
    then have "w = []" using Cons.prems(2-4) by (cases w) auto
    then show ?thesis by simp
  qed
qed simp

lemma edits_tokens:
  assumes "\<forall>e\<in>set es. token_edit e" and "is_token v" and "concat (map snd es) = x @ v @ y"
  shows "(\<exists>u. (u, v) \<in> set es \<and> u \<noteq> v)
    \<or> (\<exists>es1 e es2 a b y. es = es1 @ e # es2 \<and> fst e = snd e \<and> fst e = a @ b \<and> b \<noteq> [] \<and> b @ concat (map fst es2) = v @ y)"
  using assms
proof (induction es arbitrary: x y)
  case (Cons e es)
  obtain w where w: "v = CHR ''['' # w" "CHR ''['' \<notin> set w" "CHR ''('' \<notin> set w" using token_hd Cons.prems(2) by blast
  have rest: ?case if "concat (map snd es) = x' @ v @ y" for x'
  proof -
    have "(\<exists>u. (u, v) \<in> set es \<and> u \<noteq> v)
      \<or> (\<exists>es1 e es2 a b y. es = es1 @ e # es2 \<and> fst e = snd e \<and> fst e = a @ b \<and> b \<noteq> [] \<and> b @ concat (map fst es2) = v @ y)"
      by (rule Cons.IH [OF _ Cons.prems(2) that]) (use Cons.prems(1) in simp)
    then show ?thesis
    proof
      assume "\<exists>u. (u, v) \<in> set es \<and> u \<noteq> v"
      then show ?thesis by auto
    next
      assume "\<exists>es1 e es2 a b y. es = es1 @ e # es2 \<and> fst e = snd e \<and> fst e = a @ b \<and> b \<noteq> [] \<and> b @ concat (map fst es2) = v @ y"
      then obtain es1 e' es2 a b y where "e # es = (e # es1) @ e' # es2 \<and> fst e' = snd e' \<and> fst e' = a @ b \<and> b \<noteq> []
          \<and> b @ concat (map fst es2) = v @ y" by auto
      then show ?thesis by blast
    qed
  qed
  have "snd e @ concat (map snd es) = x @ v @ y" using Cons.prems(3) by simp
  then obtain r where "snd e @ r = x \<and> concat (map snd es) = r @ v @ y \<or> snd e = x @ r \<and> r @ concat (map snd es) = v @ y"
    unfolding append_eq_append_conv2 by blast
  then consider "concat (map snd es) = r @ v @ y" | r' where "snd e = x @ CHR ''['' # r'" "r' @ concat (map snd es) = w @ y"
      | "concat (map snd es) = [] @ v @ y"
    using w(1) by (cases r) auto
  then show ?case
  proof cases
    case 2
    consider (keep) "fst e = snd e" | (token) "fst e \<noteq> snd e" "is_token (snd e)" | (defused) u where "snd e = CHR ''('' # u" "CHR ''['' \<notin> set u"
      using Cons.prems(1) unfolding token_edit_def by auto
    then show ?thesis
    proof cases
      case keep
      have "\<exists>y'. concat (map fst ((r', r') # es)) = w @ y'"
        by (rule edits_prefix [where y = y]) (use Cons.prems(1) w(2,3) 2(2) in \<open>auto simp: token_edit_def\<close>)
      then obtain y' where "r' @ concat (map fst es) = w @ y'" by auto
      then have "e # es = [] @ e # es \<and> fst e = snd e \<and> fst e = x @ CHR ''['' # r' \<and> CHR ''['' # r' \<noteq> []
          \<and> (CHR ''['' # r') @ concat (map fst es) = v @ y'" using keep 2(1) w(1) by simp
      then show ?thesis by blast
    next
      case token
      obtain u where "snd e = CHR ''['' # u" "CHR ''['' \<notin> set u" using token_hd token(2) by blast
      then have "x = []" using 2(1) by (cases x) auto
      then have "snd e @ concat (map snd es) = v @ y" using 2 w(1) by simp
      then have "snd e = v" using token_prefix_unique [OF token(2) Cons.prems(2)] by blast
      then have "(fst e, v) \<in> set (e # es) \<and> fst e \<noteq> v" using token(1) by auto
      then show ?thesis by blast
    next
      case defused
      have "CHR ''['' \<in> set (snd e)" unfolding 2(1) by simp
      then show ?thesis unfolding defused(1) using defused(2) by simp
    qed
  qed (use rest in blast)+
qed (simp add: is_token_def)

text \<open>So a token of the result was put there, or stood in the source.\<close>

lemma edits_tokens_in:
  assumes "\<forall>e\<in>set es. token_edit e" and "v \<in> tokens_in (concat (map snd es))"
  shows "(\<exists>u. (u, v) \<in> set es \<and> u \<noteq> v) \<or> v \<in> tokens_in (concat (map fst es))"
proof -
  obtain x y where v: "is_token v" "concat (map snd es) = x @ v @ y" using assms(2) tokens_in_iff by blast
  from edits_tokens [OF assms(1) this] show ?thesis
  proof
    assume "\<exists>es1 e es2 a b y. es = es1 @ e # es2 \<and> fst e = snd e \<and> fst e = a @ b \<and> b \<noteq> [] \<and> b @ concat (map fst es2) = v @ y"
    then obtain es1 e es2 a b y where "es = es1 @ e # es2" "fst e = a @ b" "b @ concat (map fst es2) = v @ y" by blast
    then have "concat (map fst es) = (concat (map fst es1) @ a) @ v @ y" by simp
    then show ?thesis using v(1) tokens_in_iff by blast
  qed blast
qed

subsection \<open>Foreign tokens\<close>

lemma defuse_token:
  assumes "is_token v"
  shows "\<exists>w. v = CHR ''['' # w @ '']'' \<and> defuse v = CHR ''('' # w @ '')'' \<and> CHR ''['' \<notin> set w"
proof -
  obtain L h where "v = CHR ''['' # (L @ CHR '':'' # h) @ '']''" "\<forall>c\<in>set L. is_label_char c" "\<forall>c\<in>set h. is_hex_lower c"
    using assms unfolding is_token_def by auto
  then show ?thesis using class_facts by (intro exI [of _ "L @ CHR '':'' # h"]) (auto simp: defuse_def butlast_append)
qed

lemma token_pieces: "Hit i v \<in> set (pieces PSEUDONYM_RE s) \<Longrightarrow> is_token v"
  using pieces_hit match_token by blast

lemma hit_tokens_in: "Hit i v \<in> set (pieces PSEUDONYM_RE s) \<Longrightarrow> v \<in> tokens_in s"
  using pieces_hit [of i v PSEUDONYM_RE s] token_pieces [of i v s] tokens_in_iff by blast

text \<open>C16: After neutralising, no text is a key. Whatever text is handed in, the neutralised text contains no
  pseudonym token at all; it has the same length, differs from the original only in the brackets of
  the tokens that were taken apart, which are counted, and a text without tokens is not changed.\<close>

theorem neutralise_no_tokens:
  "tokens_in (fst (neutralise_foreign_tokens text)) = {}
   \<and> length (fst (neutralise_foreign_tokens text)) = length text
   \<and> (\<exists>ps. text = concat (map piece_text ps) \<and> length (hits ps) = snd (neutralise_foreign_tokens text)
        \<and> fst (neutralise_foreign_tokens text) = concat (map (\<lambda>p. case p of Lit c \<Rightarrow> [c] | Hit i v \<Rightarrow> defuse v) ps))
   \<and> (tokens_in text = {} \<longleftrightarrow> fst (neutralise_foreign_tokens text) = text)"
proof -
  let ?ps = "pieces PSEUDONYM_RE text" and ?t = "fst (neutralise_foreign_tokens text)"
  let ?es = "map (edit_of defuse) ?ps"
  have out: "?t = concat (map snd ?es)" by (simp add: neutralise_foreign_tokens_def sub_edits)
  have src: "concat (map fst ?es) = text" using edits_src [of defuse ?ps] by simp
  have te: "\<forall>e\<in>set ?es. token_edit e"
  proof
    fix e assume "e \<in> set ?es"
    then obtain p where p: "p \<in> set ?ps" "e = edit_of defuse p" by auto
    show "token_edit e"
    proof (cases p)
      case (Hit i v)
      with defuse_token token_pieces p show ?thesis by (fastforce simp: token_edit_def)
    qed (simp add: p token_edit_def)
  qed
  have none: "tokens_in ?t = {}"
  proof (rule ccontr)
    assume "tokens_in ?t \<noteq> {}"
    then obtain v where "v \<in> tokens_in (concat (map snd ?es))" unfolding out by blast
    then obtain x y where v: "is_token v" "concat (map snd ?es) = x @ v @ y" unfolding tokens_in_iff by blast
    from edits_tokens [OF te this] show False
    proof
      assume "\<exists>u. (u, v) \<in> set ?es \<and> u \<noteq> v"
      then obtain u p where p: "p \<in> set ?ps" "(u, v) = edit_of defuse p" "u \<noteq> v" by auto
      obtain i where i: "p = Hit i u" "v = defuse u" using p(2,3) by (cases p) auto
      have "is_token u" using p(1) unfolding i(1) by (rule token_pieces)
      then show False using i(2) defuse_token [of u] token_hd [OF v(1)] by auto
    next
      assume "\<exists>es1 e es2 a b y. ?es = es1 @ e # es2 \<and> fst e = snd e \<and> fst e = a @ b \<and> b \<noteq> [] \<and> b @ concat (map fst es2) = v @ y"
      then obtain es1 e es2 a b y where e: "?es = es1 @ e # es2" "fst e = snd e" "fst e = a @ b" "b \<noteq> []"
          "b @ concat (map fst es2) = v @ y" by blast
      obtain ps1 p ps2 where ps: "?ps = ps1 @ p # ps2" "e = edit_of defuse p" "es2 = map (edit_of defuse) ps2"
        using e(1) by (auto simp: map_eq_append_conv map_eq_Cons_conv)
      show False
      proof (cases p)
        case (Lit c)
        then have b: "b = [c]" using e(3,4) ps(2) by (cases a) auto
        obtain b' cs' where s: "scan PSEUDONYM_RE b' (c # cs') = Lit c # scan PSEUDONYM_RE (c # b') cs'" "ps2 = scan PSEUDONYM_RE (c # b') cs'"
          using scan_split ps(1) Lit unfolding pieces_def by blast
        have "c # cs' = v @ y" using e(5) b edits_src [of defuse ps2] ps(3) s(2) by simp
        then show False using scan_token [OF v(1)] s(1) by simp
      next
        case (Hit i u)
        then have "Hit i u \<in> set ?ps" "e = (u, defuse u)" using ps(1,2) by simp_all
        then show False using defuse_token [OF token_pieces] e(2) by fastforce
      qed
    qed
  qed
  have len: "length (snd (edit_of defuse p)) = length (fst (edit_of defuse p))" if "p \<in> set ?ps" for p
  proof (cases p)
    case (Hit i v)
    obtain w where "v = CHR ''['' # w @ '']''" "defuse v = CHR ''('' # w @ '')''"
      using defuse_token [OF token_pieces] \<open>p \<in> set ?ps\<close> Hit by blast
    then show ?thesis by (simp add: Hit)
  qed simp
  have "length (concat (map snd ?es)) = length (concat (map fst ?es))"
    unfolding length_concat map_map by (intro arg_cong [of _ _ sum_list] map_cong refl) (simp add: len)
  then have length: "length ?t = length text" using out src by simp
  have same: "tokens_in text = {} \<longleftrightarrow> ?t = text"
  proof
    assume e: "tokens_in text = {}"
    have "edit_of defuse p = (piece_text p, piece_text p)" if "p \<in> set ?ps" for p
    proof (cases p)
      case (Hit i v)
      then have "v \<in> tokens_in text" using that hit_tokens_in by blast
      then show ?thesis using e by simp
    qed simp
    then have m: "map snd ?es = map piece_text ?ps" unfolding map_map by (intro map_cong refl) simp
    show "?t = text" unfolding out m by (rule concat_pieces)
  next
    assume "?t = text"
    then show "tokens_in text = {}" using none by simp
  qed
  have "text = concat (map piece_text ?ps) \<and> length (hits ?ps) = snd (neutralise_foreign_tokens text)
        \<and> ?t = concat (map (\<lambda>p. case p of Lit c \<Rightarrow> [c] | Hit i v \<Rightarrow> defuse v) ?ps)"
    by (simp add: neutralise_foreign_tokens_def finditer_def sub_def)
  then show ?thesis using none length same by blast
qed

subsection \<open>The registry\<close>

record doc_pseudonym =
  ps_document_id :: string
  ps_pseudonym :: string
  ps_source :: string
  ps_created_at :: datetime

definition MINTED :: string where "MINTED = ''minted''"
definition BACKFILLED :: string where "BACKFILLED = ''backfilled''"

definition registered :: "doc_pseudonym list \<Rightarrow> string \<Rightarrow> string set" where
  "registered rows document_id = set (map ps_pseudonym (filter (\<lambda>r. ps_document_id r = document_id) rows))"

definition register :: "datetime \<Rightarrow> doc_pseudonym list \<Rightarrow> string \<Rightarrow> string \<Rightarrow> string \<Rightarrow> doc_pseudonym list \<times> nat" where
  "register now rows document_id text source =
     (let found = tokens_in text;
          fresh = sorted_list_of_set (found - registered rows document_id)
      in if found = {} then (rows, 0)
         else (rows @ map (\<lambda>p. \<lparr>ps_document_id = document_id, ps_pseudonym = p, ps_source = source, ps_created_at = now\<rparr>) fresh,
               length fresh))"

lemma finite_tokens_in [simp]: "finite (tokens_in s)"
  by (simp add: tokens_in_def)

text \<open>Registering adds exactly the tokens of the text, once, and never takes a row away.\<close>

lemma register_registered:
  assumes "register now rows doc text source = (rows', n)"
  shows "registered rows' doc = registered rows doc \<union> tokens_in text"
    and "d \<noteq> doc \<Longrightarrow> registered rows' d = registered rows d"
    and "n = card (tokens_in text - registered rows doc)" and "\<exists>new. rows' = rows @ new"
    and "register later rows' doc text source = (rows', 0)"
proof -
  let ?fresh = "sorted_list_of_set (tokens_in text - registered rows doc)"
  let ?row = "\<lambda>p. \<lparr>ps_document_id = doc, ps_pseudonym = p, ps_source = source, ps_created_at = now\<rparr>"
  have r: "rows' = rows @ map ?row ?fresh" "n = length ?fresh"
    using assms by (auto simp: register_def Let_def split: if_splits)
  have "registered (rows @ map ?row fs) d = registered rows d \<union> (if d = doc then set fs else {})" for fs d
    by (simp add: registered_def filter_map comp_def image_Un)
  then show reg: "registered rows' doc = registered rows doc \<union> tokens_in text"
    and "d \<noteq> doc \<Longrightarrow> registered rows' d = registered rows d" by (auto simp: r)
  show "n = card (tokens_in text - registered rows doc)" "\<exists>new. rows' = rows @ new" by (auto simp: r)
  have "tokens_in text - registered rows' doc = {}" unfolding reg by blast
  then show "register later rows' doc text source = (rows', 0)" unfolding register_def by (simp add: Let_def)
qed

subsection \<open>The reader's view\<close>

definition LABELS :: "(string, string) dict" where
  "LABELS = [(''PERSON'', ''PERSOON''), (''LOCATION'', ''LOCATIE''), (''ADDRESS'', ''ADRES''),
     (''ORGANIZATION'', ''ORGANISATIE''), (''PHONE_NUMBER'', ''TELEFOON''), (''DATE'', ''DATUM''),
     (''DATE_TIME'', ''DATUM''), (''EMAIL_ADDRESS'', ''EMAIL''), (''LICENSE_PLATE'', ''KENTEKEN''),
     (''HEALTH'', ''GEZONDHEID''), (''RELIGION'', ''RELIGIE''), (''ETHNICITY'', ''ETNICITEIT''),
     (''CRIMINAL'', ''STRAFRECHTELIJK'')]"

definition reader_label :: "string \<Rightarrow> string" where
  "reader_label token = (case dict_get LABELS (label_of token) of Some l \<Rightarrow> l | None \<Rightarrow> label_of token)"

definition placeholder :: "string \<Rightarrow> nat \<Rightarrow> string" where
  "placeholder label n = ''['' @ label @ '' '' @ digits_of n @ '']''"

type_synonym legible_state = "(string, string) dict \<times> (string, nat) dict"

definition legible_repl :: "nat \<Rightarrow> string \<Rightarrow> legible_state \<Rightarrow> (string \<times> legible_state) result" where
  "legible_repl i token st =
     (case dict_get (fst st) token of
        Some ph \<Rightarrow> Inr (ph, st)
      | None \<Rightarrow>
          (let label = reader_label token;
               counters = dict_add label 1 (snd st);
               ph = placeholder label (dict_count counters label)
           in Inr (ph, (dict_set token ph (fst st), counters))))"

definition to_legible :: "string \<Rightarrow> (string \<times> (string, string) dict) result" where
  "to_legible text = rbind (sub_with PSEUDONYM_RE legible_repl text ([], []))
     (\<lambda>(rendered, ordinal, _). Inr (rendered, foldl (\<lambda>d (tok, ph). dict_set ph tok d) [] ordinal))"

text \<open>The numbering state: every placeholder was given out once, under the counter of its label.\<close>

definition legible_ok :: "legible_state \<Rightarrow> bool" where
  "legible_ok st = (dict_wf (fst st) \<and> distinct (map snd (fst st)) \<and> (\<forall>(t, ph)\<in>set (fst st). is_token t
     \<and> (\<exists>n. ph = placeholder (reader_label t) n \<and> n \<le> dict_count (snd st) (reader_label t))))"

lemma token_label:
  assumes "is_token t"
  shows "CHR '' '' \<notin> set (label_of t)"
proof -
  obtain L h where t: "t = CHR ''['' # L @ CHR '':'' # h @ [CHR '']'']" "\<forall>c\<in>set L. is_label_char c"
    using assms unfolding is_token_def by blast
  have "\<forall>c\<in>set L. c \<noteq> CHR '':''" using t(2) class_facts(1) by auto
  then have "label_of t = upper L" by (simp add: label_of_def t(1) takeWhile_append)
  moreover have "upper_char c = [c]" if "is_label_char c" for c
    using that by (auto simp: upper_char_def is_label_char_def is_upper_az_def is_decimal_def Let_def)
  moreover have "\<not> is_label_char (CHR '' '')" by (simp add: is_label_char_def is_upper_az_def is_decimal_def)
  ultimately show ?thesis using t(2) by (auto simp: upper_def)
qed

lemma reader_label_no_space: "is_token t \<Longrightarrow> CHR '' '' \<notin> set (reader_label t)"
proof -
  have "\<forall>l\<in>set (map snd LABELS). CHR '' '' \<notin> set l" by (simp add: LABELS_def)
  then have "dict_get LABELS k = Some l \<Longrightarrow> CHR '' '' \<notin> set l" for k l
    using dict_get_SomeD by fastforce
  then show "is_token t \<Longrightarrow> CHR '' '' \<notin> set (reader_label t)"
    using token_label by (auto simp: reader_label_def split: option.split)
qed

lemma placeholder_inj:
  assumes "CHR '' '' \<notin> set l" and "CHR '' '' \<notin> set m" and "placeholder l i = placeholder m j"
  shows "l = m \<and> i = j"
proof -
  have tw: "takeWhile (\<lambda>c. c \<noteq> CHR '' '') (l @ CHR '' '' # z) = l" if "CHR '' '' \<notin> set l" for l z
    using that by (subst takeWhile_append2) auto
  have e: "l @ CHR '' '' # digits_of i @ '']'' = m @ CHR '' '' # digits_of j @ '']''"
    using assms(3) by (simp add: placeholder_def)
  then have "l = m" using tw [OF assms(1)] tw [OF assms(2)] by metis
  with e show ?thesis by (simp add: digits_of_inj)
qed

lemma legible_step:
  assumes "legible_ok st" and "is_token t"
  shows "\<exists>ph st'. legible_repl i t st = Inr (ph, st') \<and> legible_ok st' \<and> dict_get (fst st') t = Some ph
    \<and> set (map fst (fst st')) = insert t (set (map fst (fst st)))
    \<and> (\<forall>u x. dict_get (fst st) u = Some x \<longrightarrow> dict_get (fst st') u = Some x)"
proof (cases "dict_get (fst st) t")
  case (Some ph)
  then have "t \<in> set (map fst (fst st))" using dict_get_None by (metis option.distinct(1))
  then have "insert t (set (map fst (fst st))) = set (map fst (fst st))" by (rule insert_absorb)
  with Some assms(1) show ?thesis by (simp add: legible_repl_def)
next
  case None
  let ?l = "reader_label t"
  let ?c = "dict_add ?l 1 (snd st)"
  let ?ph = "placeholder ?l (dict_count ?c ?l)"
  have new: "t \<notin> set (map fst (fst st))" using None dict_get_None by metis
  have fresh: "?ph \<notin> set (map snd (fst st))"
  proof
    assume "?ph \<in> set (map snd (fst st))"
    then obtain u where u: "(u, ?ph) \<in> set (fst st)" by auto
    then obtain n where n: "is_token u" "?ph = placeholder (reader_label u) n" "n \<le> dict_count (snd st) (reader_label u)"
      using assms(1) by (auto simp: legible_ok_def)
    from placeholder_inj [OF _ _ n(2)] reader_label_no_space assms(2) n(1)
    have "?l = reader_label u \<and> dict_count ?c ?l = n" by blast
    then have "n = Suc (dict_count (snd st) (reader_label u))" by auto
    with n(3) show False by simp
  qed
  have e: "legible_repl i t st = Inr (?ph, dict_set t ?ph (fst st), ?c)"
    by (simp add: legible_repl_def None Let_def)
  have "legible_ok (dict_set t ?ph (fst st), ?c)"
    unfolding legible_ok_def fst_conv snd_conv dict_set_new [OF new]
    using assms fresh new by (fastforce simp: legible_ok_def dict_wf_def)
  moreover have "\<forall>u x. dict_get (fst st) u = Some x \<longrightarrow> dict_get (dict_set t ?ph (fst st)) u = Some x"
    using None by auto
  moreover have "set (map fst (dict_set t ?ph (fst st))) = insert t (set (map fst (fst st)))"
    unfolding dict_set_new [OF new] by simp
  ultimately show ?thesis using e by (intro exI [of _ ?ph] exI [of _ "(dict_set t ?ph (fst st), ?c)"]) simp
qed

lemma legible_run:
  assumes "legible_ok st" and "\<forall>p\<in>set ps. \<forall>i v. p = Hit i v \<longrightarrow> is_token v"
  shows "\<exists>t st'. sub_pieces legible_repl ps st = Inr (t, st') \<and> legible_ok st'
    \<and> set (map fst (fst st')) = set (map fst (fst st)) \<union> set (map snd (hits ps))
    \<and> (\<forall>u x. dict_get (fst st) u = Some x \<longrightarrow> dict_get (fst st') u = Some x)
    \<and> t = concat (map (\<lambda>p. case p of Lit c \<Rightarrow> [c] | Hit i v \<Rightarrow> the (dict_get (fst st') v)) ps)"
  using assms
proof (induction ps arbitrary: st)
  case (Cons p ps)
  show ?case
  proof (cases p)
    case (Lit c)
    from Cons.IH [OF Cons.prems(1)] Cons.prems(2) obtain t st' where "sub_pieces legible_repl ps st = Inr (t, st')" "legible_ok st'"
      "set (map fst (fst st')) = set (map fst (fst st)) \<union> set (map snd (hits ps))"
      "\<forall>u x. dict_get (fst st) u = Some x \<longrightarrow> dict_get (fst st') u = Some x"
      "t = concat (map (\<lambda>p. case p of Lit c \<Rightarrow> [c] | Hit i v \<Rightarrow> the (dict_get (fst st') v)) ps)" by auto
    then show ?thesis by (intro exI [of _ "c # t"] exI [of _ st']) (simp add: Lit)
  next
    case (Hit i v)
    then have "is_token v" using Cons.prems(2) by simp
    from legible_step [OF Cons.prems(1) this, of i] obtain ph st1 where s: "legible_repl i v st = Inr (ph, st1)" "legible_ok st1"
      "dict_get (fst st1) v = Some ph" "set (map fst (fst st1)) = insert v (set (map fst (fst st)))"
      "\<forall>u x. dict_get (fst st) u = Some x \<longrightarrow> dict_get (fst st1) u = Some x" by blast
    from Cons.IH [OF s(2)] Cons.prems(2) obtain t st' where r: "sub_pieces legible_repl ps st1 = Inr (t, st')" "legible_ok st'"
      "set (map fst (fst st')) = set (map fst (fst st1)) \<union> set (map snd (hits ps))"
      "\<forall>u x. dict_get (fst st1) u = Some x \<longrightarrow> dict_get (fst st') u = Some x"
      "t = concat (map (\<lambda>p. case p of Lit c \<Rightarrow> [c] | Hit i v \<Rightarrow> the (dict_get (fst st') v)) ps)" by auto
    have "dict_get (fst st') v = Some ph" using s(3) r(4) by blast
    then show ?thesis using s r by (intro exI [of _ "ph @ t"] exI [of _ st']) (auto simp: Hit)
  qed
qed simp

lemma legend_swap: "distinct (map snd d) \<Longrightarrow> foldl (\<lambda>d (tok, ph). dict_set ph tok d) [] d = map prod.swap d"
proof (induction d rule: rev_induct)
  case (snoc e d)
  have "snd e \<notin> set (map fst (map prod.swap d))" using snoc.prems by (auto simp: comp_def)
  from dict_set_new [OF this] snoc show ?case by (cases e) simp
qed simp

text \<open>The reader's view is one to one. It never fails; every token of the text is shown as a placeholder
  of its own, the same one wherever it stands, all other text is left as it is, and the legend takes
  every placeholder back to exactly its token.\<close>

theorem legible_one_to_one:
  "\<exists>rendered legend. to_legible text = Inr (rendered, legend)
     \<and> dict_wf legend \<and> distinct (map snd legend) \<and> set (map snd legend) = tokens_in text
     \<and> rendered = sub PSEUDONYM_RE (\<lambda>t. the (dict_get (map prod.swap legend) t)) text"
proof -
  have "legible_ok ([], [])" by (simp add: legible_ok_def)
  moreover have "\<forall>p\<in>set (pieces PSEUDONYM_RE text). \<forall>i v. p = Hit i v \<longrightarrow> is_token v"
    using token_pieces by blast
  ultimately obtain t st' where r: "sub_pieces legible_repl (pieces PSEUDONYM_RE text) ([], []) = Inr (t, st')" "legible_ok st'"
      "set (map fst (fst st')) = tokens_in text"
      "t = sub PSEUDONYM_RE (\<lambda>v. the (dict_get (fst st') v)) text"
    using legible_run [of "([], [])" "pieces PSEUDONYM_RE text"] unfolding sub_def tokens_in_def finditer_def by auto
  let ?legend = "map prod.swap (fst st')"
  have d: "distinct (map snd (fst st'))" "distinct (map fst (fst st'))" using r(2) by (auto simp: legible_ok_def dict_wf_def)
  have "to_legible text = Inr (t, ?legend)"
    using r(1) legend_swap [OF d(1)] by (simp add: to_legible_def sub_with_def split_beta)
  moreover have "dict_wf ?legend" "distinct (map snd ?legend)" using d by (simp_all add: dict_wf_def comp_def)
  moreover have "set (map snd ?legend) = tokens_in text" using r(3) by (simp add: comp_def image_image)
  moreover have "map prod.swap ?legend = fst st'" by (simp add: comp_def)
  ultimately show ?thesis using r(4) by (intro exI [of _ t] exI [of _ ?legend] conjI) simp_all
qed

end
