(* ===== verification/Normalization.thy ===== *)
theory Normalization
  imports Tokens
begin

text \<open>
  \<open>normalization.py\<close>: the canonical form of a value before its pseudonym is derived. \<open>NFC\<close> is the identity
  on U+0000 to U+00FF, so the baseline rule is trimming. Dates are read as \<open>strptime\<close> reads them: the
  alternatives of each directive in order, the first that lets the rest of the format match, and
  then no text left over.
\<close>

definition PROFILE_VERSION :: string where "PROFILE_VERSION = ''n1''"

definition default_rule :: "string \<Rightarrow> string" where
  "default_rule value = strip value"

definition casefold_rule :: "string \<Rightarrow> string" where
  "casefold_rule value = casefold (default_rule value)"

definition is_sep :: "char \<Rightarrow> bool" where
  "is_sep c = (c = CHR ''.'' \<or> is_space c \<or> c = CHR ''-'')"

definition bsn_rule :: "string \<Rightarrow> string" where
  "bsn_rule value =
     (let digits = filter (\<lambda>c. \<not> is_sep c) (default_rule value)
      in if digits \<noteq> [] \<and> list_all is_digit digits then zfill 9 digits else default_rule value)"

definition postcode_rule :: "string \<Rightarrow> string" where
  "postcode_rule value = upper (filter (\<lambda>c. \<not> is_space c) (default_rule value))"

datatype directive = FY | FM | FD | FC char

text \<open>\<open>%Y\<close>, \<open>%m\<close> and \<open>%d\<close> of CPython's \<open>_strptime\<close>, as the readings in order of preference.\<close>

definition in_range :: "char \<Rightarrow> char \<Rightarrow> char \<Rightarrow> bool" where
  "in_range a b c = (cp a \<le> cp c \<and> cp c \<le> cp b)"

definition two :: "(char \<Rightarrow> bool) \<Rightarrow> (char \<Rightarrow> bool) \<Rightarrow> string \<Rightarrow> (nat \<times> string) list" where
  "two P Q s = (case s of a # b # r \<Rightarrow> if P a \<and> Q b then [(10 * (cp a - 48) + (cp b - 48), r)] else [] | _ \<Rightarrow> [])"

definition one :: "(char \<Rightarrow> bool) \<Rightarrow> string \<Rightarrow> (nat \<times> string) list" where
  "one P s = (case s of a # r \<Rightarrow> if P a then [(cp a - 48, r)] else [] | _ \<Rightarrow> [])"

definition read_month :: "string \<Rightarrow> (nat \<times> string) list" where
  "read_month s = two (\<lambda>c. c = CHR ''1'') (in_range (CHR ''0'') (CHR ''2'')) s
     @ two (\<lambda>c. c = CHR ''0'') (in_range (CHR ''1'') (CHR ''9'')) s @ one (in_range (CHR ''1'') (CHR ''9'')) s"

definition read_day :: "string \<Rightarrow> (nat \<times> string) list" where
  "read_day s = two (\<lambda>c. c = CHR ''3'') (in_range (CHR ''0'') (CHR ''1'')) s
     @ two (in_range (CHR ''1'') (CHR ''2'')) is_decimal s
     @ two (\<lambda>c. c = CHR ''0'') (in_range (CHR ''1'') (CHR ''9'')) s @ one (in_range (CHR ''1'') (CHR ''9'')) s
     @ (case s of c # r \<Rightarrow> if c = CHR '' '' then one (in_range (CHR ''1'') (CHR ''9'')) r else [] | [] \<Rightarrow> [])"

definition read_year :: "string \<Rightarrow> (nat \<times> string) list" where
  "read_year s = (if 4 \<le> length s \<and> list_all is_decimal (take 4 s) then [(nat_of_digits (take 4 s), drop 4 s)] else [])"

fun read_format :: "directive list \<Rightarrow> nat \<times> nat \<times> nat \<Rightarrow> string \<Rightarrow> ((nat \<times> nat \<times> nat) \<times> string) list" where
  "read_format [] ymd s = [(ymd, s)]"
| "read_format (FY # fs) (y, m, d) s = concat (map (\<lambda>(n, r). read_format fs (n, m, d) r) (read_year s))"
| "read_format (FM # fs) (y, m, d) s = concat (map (\<lambda>(n, r). read_format fs (y, n, d) r) (read_month s))"
| "read_format (FD # fs) (y, m, d) s = concat (map (\<lambda>(n, r). read_format fs (y, m, n) r) (read_day s))"
| "read_format (FC c # fs) ymd s = (case s of a # r \<Rightarrow> if a = c then read_format fs ymd r else [] | [] \<Rightarrow> [])"

definition DATE_FORMATS :: "directive list list" where
  "DATE_FORMATS = [[FY, FC (CHR ''-''), FM, FC (CHR ''-''), FD], [FD, FC (CHR ''-''), FM, FC (CHR ''-''), FY],
     [FD, FC (CHR ''/''), FM, FC (CHR ''/''), FY], [FD, FC (CHR ''.''), FM, FC (CHR ''.''), FY], [FY, FM, FD]]"

definition strptime :: "directive list \<Rightarrow> string \<Rightarrow> (nat \<times> nat \<times> nat) option" where
  "strptime fmt s = (case read_format fmt (1900, 1, 1) s of
     ((y, m, d), []) # _ \<Rightarrow> if 1 \<le> y \<and> d \<le> days_in_month (is_leap y) m then Some (y, m, d) else None
   | _ \<Rightarrow> None)"

definition iso_date :: "nat \<times> nat \<times> nat \<Rightarrow> string" where
  "iso_date = (\<lambda>(y, m, d). pad 4 y @ ''-'' @ pad 2 m @ ''-'' @ pad 2 d)"

definition date_rule :: "string \<Rightarrow> string" where
  "date_rule value =
     (let raw = default_rule value
      in case List.map_filter (\<lambda>fmt. strptime fmt raw) DATE_FORMATS of [] \<Rightarrow> raw | ymd # _ \<Rightarrow> iso_date ymd)"

definition RULES :: "(string, string \<Rightarrow> string) dict" where
  "RULES = [(''BSN'', bsn_rule), (''POSTCODE'', postcode_rule), (''PERSON'', casefold_rule), (''PERSOON'', casefold_rule),
     (''LOCATION'', casefold_rule), (''LOCATIE'', casefold_rule), (''ADRES'', casefold_rule), (''ADDRESS'', casefold_rule),
     (''ORGANIZATION'', casefold_rule), (''ORGANISATIE'', casefold_rule), (''EMAIL'', casefold_rule),
     (''EMAIL_ADDRESS'', casefold_rule), (''DATE'', date_rule), (''DATE_TIME'', date_rule), (''GEBOORTEDATUM'', date_rule)]"

definition normalize :: "string \<Rightarrow> string \<Rightarrow> string" where
  "normalize label value = (case dict_get RULES (upper label) of None \<Rightarrow> default_rule value | Some rule \<Rightarrow> rule value)"

subsection \<open>Normalising twice\<close>

lemma strip_clean: "(\<forall>c\<in>set s. \<not> is_space c) \<Longrightarrow> strip s = s"
proof -
  assume a: "\<forall>c\<in>set s. \<not> is_space c"
  have d: "dropWhile is_space t = t" if "\<forall>c\<in>set t. \<not> is_space c" for t using that by (cases t) auto
  from a show ?thesis by (simp add: strip_def lstrip_def rstrip_def d)
qed

lemma strip_ends: "strip s = s \<longleftrightarrow> s = [] \<or> \<not> is_space (hd s) \<and> \<not> is_space (last s)"
proof (cases s)
  case (Cons c t)
  have len: "length (strip s) \<le> length (lstrip s)"
    unfolding strip_def rstrip_def using length_dropWhile_le [of is_space "rev (lstrip s)"] by simp
  show ?thesis
  proof (cases "is_space c")
    case True
    then have "length (lstrip s) < length s" using length_dropWhile_le [of is_space t] by (simp add: lstrip_def Cons less_Suc_eq_le)
    then show ?thesis using len True Cons by auto
  next
    case False
    then have l: "lstrip s = s" by (simp add: lstrip_def Cons)
    have "rev (dropWhile is_space (rev s)) = s \<longleftrightarrow> dropWhile is_space (rev s) = rev s"
      by (metis rev_rev_ident)
    moreover have "dropWhile is_space r = r \<longleftrightarrow> \<not> is_space (hd r)" if "r \<noteq> []" for r
      using that length_dropWhile_le [of is_space "tl r"] by (cases r) (auto dest: arg_cong [of _ _ length])
    moreover have "hd (rev s) = last s" by (simp add: hd_rev)
    ultimately show ?thesis using l False Cons by (simp add: strip_def rstrip_def)
  qed
qed (simp add: strip_def lstrip_def rstrip_def)

lemma strip_strip [simp]: "strip (strip s) = strip s"
proof (cases "strip s = []")
  case False
  let ?l = "lstrip s"
  have "strip s = rev (dropWhile is_space (rev ?l))" by (simp add: strip_def rstrip_def)
  then obtain w where w: "?l = strip s @ w" "\<not> is_space (last (strip s))"
    using False by (metis takeWhile_dropWhile_id rev_append rev_rev_ident hd_dropWhile last_rev rev.simps(1))
  have "?l \<noteq> []" using w(1) False by simp
  then have "\<not> is_space (hd ?l)" unfolding lstrip_def by (rule hd_dropWhile)
  with w False show ?thesis by (simp add: strip_ends)
qed (use strip_clean [of "[]"] in simp)

lemma cp_lower: "cp (lower_char c) = (if 65 \<le> cp c \<and> cp c \<le> 90 \<or> 192 \<le> cp c \<and> cp c \<le> 222 \<and> cp c \<noteq> 215
    then cp c + 32 else cp c)"
proof -
  have "cp (char_of (cp c + 32) :: char) = cp c + 32" if "cp c \<le> 222"
    using that by (simp add: take_bit_nat_def)
  then show ?thesis unfolding lower_char_def Let_def by (simp split: if_split)
qed

lemma is_space_lower [simp]: "is_space (lower_char c) = is_space c"
proof -
  have "is_space (lower_char c) \<longleftrightarrow> (let n = cp (lower_char c) in 9 \<le> n \<and> n \<le> 13 \<or> 28 \<le> n \<and> n \<le> 32 \<or> n = 133 \<or> n = 160)"
    by (rule is_space_def)
  then show ?thesis unfolding cp_lower by (auto simp: is_space_def Let_def)
qed

lemma lower_idem [simp]: "lower_char (lower_char c) = lower_char c"
proof -
  have "cp (lower_char (lower_char c)) = cp (lower_char c)" unfolding cp_lower by auto
  then show ?thesis by (metis char_of_cp)
qed

lemma lower_not_sz: "cp c \<noteq> 223 \<Longrightarrow> cp (lower_char c) \<noteq> 223"
  unfolding cp_lower by auto

lemma casefold_idem: "casefold (casefold s) = casefold s"
proof (induction s)
  case (Cons c s)
  have a: "casefold (x @ y) = casefold x @ casefold y" for x y by (simp add: casefold_def)
  have "casefold (if cp c = 223 then ''ss'' else [lower_char c]) = (if cp c = 223 then ''ss'' else [lower_char c])"
    using lower_not_sz [of c] by (simp add: casefold_def) (simp add: lower_char_def)
  moreover have "casefold (c # s) = (if cp c = 223 then ''ss'' else [lower_char c]) @ casefold s" by (simp add: casefold_def)
  ultimately show ?case using Cons a by simp
qed (simp add: casefold_def)

lemma casefold_ends:
  assumes "s \<noteq> []"
  shows "casefold s \<noteq> [] \<and> (is_space (hd (casefold s)) \<longleftrightarrow> is_space (hd s)) \<and> (is_space (last (casefold s)) \<longleftrightarrow> is_space (last s))"
proof -
  define f where "f = (\<lambda>c. if cp c = 223 then ''ss'' else [lower_char c])"
  have cf: "casefold x = concat (map f x)" for x by (simp add: casefold_def f_def)
  have f: "f c \<noteq> [] \<and> is_space (hd (f c)) = is_space c \<and> is_space (last (f c)) = is_space c" for c
  proof (cases "cp c = 223")
    case True
    then have "\<not> is_space c" by (simp add: is_space_def)
    with True show ?thesis by (simp add: is_space_def f_def)
  qed (simp add: f_def)
  obtain c t where c: "s = c # t" using assms by (cases s) auto
  obtain d u where d: "s = u @ [d]" using assms by (cases s rule: rev_cases) auto
  have "casefold s = f c @ casefold t" by (simp add: cf c)
  then have h: "casefold s \<noteq> [] \<and> hd (casefold s) = hd (f c)" using f [of c] by simp
  have "casefold s = casefold u @ f d" by (simp add: cf d)
  then have l: "last (casefold s) = last (f d)" using f [of d] by simp
  have "hd s = c" by (simp add: c)
  moreover have "last s = d" by (simp add: d)
  moreover note h l
  ultimately show ?thesis using f by simp
qed

lemma casefold_rule_idem: "casefold_rule (casefold_rule v) = casefold_rule v"
proof -
  have "strip (casefold (strip v)) = casefold (strip v)"
  proof (cases "strip v = []")
    case False
    have "\<not> is_space (hd (strip v)) \<and> \<not> is_space (last (strip v))"
      using strip_ends [of "strip v"] strip_strip False by blast
    then show ?thesis using casefold_ends [OF False] False by (simp add: strip_ends)
  qed (simp add: casefold_def strip_clean)
  then show ?thesis by (simp add: casefold_rule_def default_rule_def casefold_idem)
qed

lemma digit_facts: "is_digit c \<Longrightarrow> \<not> is_space c \<and> \<not> is_sep c"
  by (auto simp: is_digit_def is_decimal_def is_sep_def is_space_def Let_def)

lemma bsn_rule_idem: "bsn_rule (bsn_rule v) = bsn_rule v"
proof -
  define w where "w = filter (\<lambda>c. \<not> is_sep c) (strip v)"
  show ?thesis
  proof (cases "w \<noteq> [] \<and> list_all is_digit w")
    case True
    let ?z = "zfill 9 w"
    have r: "bsn_rule v = ?z" using True by (simp add: bsn_rule_def default_rule_def w_def Let_def)
    have dig: "\<forall>c\<in>set ?z. is_digit c" using True
      by (auto simp: zfill_def list_all_iff is_digit_def is_decimal_def split: if_splits)
    then have c: "\<forall>c\<in>set ?z. \<not> is_space c \<and> \<not> is_sep c" using digit_facts by blast
    then have f: "strip ?z = ?z" "filter (\<lambda>c. \<not> is_sep c) ?z = ?z" by (simp_all add: strip_clean)
    have "?z \<noteq> []" "zfill 9 ?z = ?z" using True by (auto simp: zfill_def)
    then show ?thesis unfolding r using f dig by (simp add: bsn_rule_def default_rule_def list_all_iff)
  next
    case False
    then have r: "bsn_rule v = strip v" by (auto simp: bsn_rule_def default_rule_def w_def Let_def)
    show ?thesis unfolding r using False by (auto simp: bsn_rule_def default_rule_def w_def Let_def)
  qed
qed

lemma upper_not_space:
  assumes "\<not> is_space c" and "d \<in> set (upper_char c)"
  shows "\<not> is_space d"
proof (cases "97 \<le> cp c \<and> cp c \<le> 122 \<or> 224 \<le> cp c \<and> cp c \<le> 254 \<and> cp c \<noteq> 247")
  case True
  then have "d = char_of (cp c - 32)" using assms(2) by (auto simp: upper_char_def Let_def split: if_splits)
  moreover have "cp (char_of (cp c - 32) :: char) = cp c - 32" using True by (simp add: take_bit_nat_def) (intro mod_less, linarith)
  ultimately have d: "cp d = cp c - 32" by simp
  have "\<not> (9 \<le> cp d \<and> cp d \<le> 13 \<or> 28 \<le> cp d \<and> cp d \<le> 32 \<or> cp d = 133 \<or> cp d = 160)" unfolding d using True by linarith
  then show ?thesis by (simp add: is_space_def Let_def)
next
  case False
  then have "d = c \<or> d = CHR ''S''" using assms(2) by (auto simp: upper_char_def Let_def split: if_splits)
  then show ?thesis using assms(1) by (auto simp: is_space_def)
qed

lemma upper_clean: "\<forall>c\<in>set s. \<not> is_space c \<Longrightarrow> \<forall>d\<in>set (upper s). \<not> is_space d"
proof
  fix d
  assume a: "\<forall>c\<in>set s. \<not> is_space c" and d: "d \<in> set (upper s)"
  from d obtain c where "c \<in> set s" "d \<in> set (upper_char c)" unfolding upper_def by fastforce
  with a upper_not_space show "\<not> is_space d" by blast
qed

lemma postcode_rule_idem: "postcode_rule (postcode_rule v) = postcode_rule v"
proof -
  define r where "r = upper (filter (\<lambda>c. \<not> is_space c) (strip v))"
  have "\<forall>c\<in>set (filter (\<lambda>c. \<not> is_space c) (strip v)). \<not> is_space c" by simp
  then have c: "\<forall>c\<in>set r. \<not> is_space c" unfolding r_def by (rule upper_clean)
  have f: "strip r = r" "filter (\<lambda>c. \<not> is_space c) r = r" using c by (simp_all add: strip_clean)
  have u: "upper r = r" unfolding r_def by (rule upper_idem)
  have "postcode_rule v = r" by (simp add: postcode_rule_def default_rule_def r_def)
  moreover have "postcode_rule r = r" unfolding postcode_rule_def default_rule_def using f u by simp
  ultimately show ?thesis by simp
qed

lemma read_year_pad: "y < 10000 \<Longrightarrow> read_year (pad 4 y @ s) = [(y, s)]"
proof -
  assume "y < 10000"
  then have "nat_of_digits (pad 4 y) = y" using nat_of_digits_pad [of 4 y] by (simp del: pad.simps)
  moreover have "list_all is_decimal (pad 4 y)" unfolding list_all_iff using pad_decimal by blast
  moreover have "length (pad 4 y) = 4" by (rule length_pad)
  ultimately show "read_year (pad 4 y @ s) = [(y, s)]" by (simp add: read_year_def del: pad.simps)
qed

lemma pad2: "n < 100 \<Longrightarrow> pad 2 n = [char_of (48 + n div 10), char_of (48 + n mod 10)]"
  by (simp add: numeral_2_eq_2)

lemma char_digit_eq: "n < 10 \<Longrightarrow> char_of (48 + n) = c \<longleftrightarrow> cp c = 48 + n"
  using cp_digit by (metis char_of_cp)

lemma in_range_digit: "n < 10 \<Longrightarrow> in_range a b (char_of (48 + n)) \<longleftrightarrow> cp a \<le> 48 + n \<and> 48 + n \<le> cp b"
  by (simp add: in_range_def)

lemmas reading = read_month_def read_day_def two_def one_def pad2 char_digit_eq in_range_digit is_decimal_digit

lemma digits_cases: "n < 100 \<Longrightarrow> \<exists>a b. n = 10 * a + b \<and> a < 10 \<and> b < (10 :: nat) \<and> n div 10 = a \<and> n mod 10 = b"
  by (intro exI [of _ "n div 10"] exI [of _ "n mod 10"]) auto

lemma read_month_pad:
  assumes "1 \<le> m" and "m \<le> 12"
  shows "\<exists>ms. read_month (pad 2 m @ s) = (m, s) # ms"
proof -
  obtain a b where m: "m = 10 * a + b" "a < 10" "b < 10" "m div 10 = a" "m mod 10 = b"
  proof -
    have "m < 100" using assms(2) by simp
    from digits_cases [OF this] that show thesis by blast
  qed
  then have "a = 0 \<and> 1 \<le> b \<or> a = 1 \<and> b \<le> 2" using assms by linarith
  moreover have "pad 2 m = [char_of (48 + a), char_of (48 + b)]" using pad2 [of m] m assms(2) by simp
  ultimately show ?thesis using m(1-3) by (auto simp: reading)
qed

lemma read_day_pad:
  assumes "1 \<le> d" and "d \<le> 31"
  shows "\<exists>ds. read_day (pad 2 d @ s) = (d, s) # ds"
proof -
  obtain a b where d: "d = 10 * a + b" "a < 10" "b < 10" "d div 10 = a" "d mod 10 = b"
  proof -
    have "d < 100" using assms(2) by simp
    from digits_cases [OF this] that show thesis by blast
  qed
  then have "a = 0 \<and> 1 \<le> b \<or> a = 1 \<or> a = 2 \<or> a = 3 \<and> b \<le> 1" using assms by linarith
  moreover have "pad 2 d = [char_of (48 + a), char_of (48 + b)]" using pad2 [of d] d assms(2) by simp
  ultimately show ?thesis using d(1-3) by (auto simp: reading)
qed

lemma strptime_iso:
  assumes "1 \<le> y" and "y < 10000" and "1 \<le> m" and "m \<le> 12" and "1 \<le> d" and "d \<le> days_in_month (is_leap y) m" and "d \<le> 31"
  shows "strptime [FY, FC (CHR ''-''), FM, FC (CHR ''-''), FD] (iso_date (y, m, d)) = Some (y, m, d)"
proof -
  obtain ds where ds: "read_day (pad 2 d) = (d, []) # ds" using read_day_pad [OF assms(5,7), of "[]"] by auto
  obtain ms where ms: "read_month (pad 2 m @ CHR ''-'' # pad 2 d) = (m, CHR ''-'' # pad 2 d) # ms"
    using read_month_pad [OF assms(3,4)] by blast
  have "\<exists>rest. read_format [FY, FC (CHR ''-''), FM, FC (CHR ''-''), FD] (1900, 1, 1) (iso_date (y, m, d)) = ((y, m, d), []) # rest"
    unfolding iso_date_def prod.case append_Cons append_Nil
    by (simp add: read_year_pad [OF assms(2)] ms ds del: pad.simps)
  then show ?thesis using assms(1,6) by (auto simp: strptime_def)
qed

lemma read_ranges:
  "(n, r) \<in> set (read_month s) \<Longrightarrow> 1 \<le> n \<and> n \<le> 12"
  "(n, r) \<in> set (read_day s) \<Longrightarrow> 1 \<le> n \<and> n \<le> 31"
  "(n, r) \<in> set (read_year s) \<Longrightarrow> n < 10000"
proof -
  show "(n, r) \<in> set (read_month s) \<Longrightarrow> 1 \<le> n \<and> n \<le> 12"
    by (auto simp: read_month_def two_def one_def in_range_def split: list.splits if_splits)
  show "(n, r) \<in> set (read_day s) \<Longrightarrow> 1 \<le> n \<and> n \<le> 31"
    by (auto simp: read_day_def two_def one_def in_range_def is_decimal_def Let_def split: list.splits if_splits)
  assume "(n, r) \<in> set (read_year s)"
  then have "n = nat_of_digits (take 4 s)" "list_all is_decimal (take 4 s)" "length (take 4 s) = 4"
    by (auto simp: read_year_def split: if_splits)
  then show "n < 10000" using nat_of_digits_bound [of "take 4 s"] by simp
qed

lemma read_format_ranges:
  assumes "((y, m, d), r) \<in> set (read_format fs (y0, m0, d0) s)" and "y0 < 10000" and "1 \<le> m0 \<and> m0 \<le> 12" and "1 \<le> d0 \<and> d0 \<le> 31"
  shows "y < 10000 \<and> 1 \<le> m \<and> m \<le> 12 \<and> 1 \<le> d \<and> d \<le> 31"
  using assms
proof (induction fs "(y0, m0, d0)" s arbitrary: y0 m0 d0 rule: read_format.induct)
  case (2 fs y m d s)
  then show ?case using read_ranges(3) by fastforce
next
  case (3 fs y m d s)
  then show ?case using read_ranges(1) by fastforce
next
  case (4 fs y m d s)
  then show ?case using read_ranges(2) by fastforce
next
  case (5 c fs s)
  then show ?case by (auto split: list.splits if_splits)
qed simp

lemma date_rule_idem: "date_rule (date_rule v) = date_rule v"
proof (cases "List.map_filter (\<lambda>fmt. strptime fmt (strip v)) DATE_FORMATS")
  case Nil
  then have r: "date_rule v = strip v" by (simp add: date_rule_def default_rule_def)
  show ?thesis unfolding r using Nil by (simp add: date_rule_def default_rule_def)
next
  case (Cons ymd rest)
  obtain y m d where ymd: "ymd = (y, m, d)" by (cases ymd)
  have r: "date_rule v = iso_date (y, m, d)" using Cons ymd by (simp add: date_rule_def default_rule_def)
  have "ymd \<in> set (List.map_filter (\<lambda>fmt. strptime fmt (strip v)) DATE_FORMATS)" using Cons by simp
  then obtain fmt where "strptime fmt (strip v) = Some ymd" by (auto simp: List.map_filter_def)
  then obtain rest where s: "read_format fmt (1900, 1, 1) (strip v) = ((y, m, d), []) # rest" "1 \<le> y" "d \<le> days_in_month (is_leap y) m"
    by (auto simp: strptime_def ymd split: list.splits if_splits)
  then have "((y, m, d), []) \<in> set (read_format fmt (1900, 1, 1) (strip v))" by simp
  from read_format_ranges [OF this] have range: "y < 10000" "1 \<le> m" "m \<le> 12" "1 \<le> d" "d \<le> 31" by simp_all
  have iso: "strptime [FY, FC (CHR ''-''), FM, FC (CHR ''-''), FD] (iso_date (y, m, d)) = Some (y, m, d)"
    by (rule strptime_iso [OF s(2) range(1-4) s(3) range(5)])
  have "\<not> is_space c" if "is_decimal c" for c using that by (auto simp: is_decimal_def is_space_def Let_def)
  then have "\<forall>c\<in>set (iso_date (y, m, d)). \<not> is_space c"
    using pad_decimal by (auto simp: iso_date_def is_space_def simp del: pad.simps)
  then have "strip (iso_date (y, m, d)) = iso_date (y, m, d)" by (rule strip_clean)
  then show ?thesis unfolding r using iso by (simp add: date_rule_def default_rule_def DATE_FORMATS_def List.map_filter_def)
qed

text \<open>A canonical form is canonical. For every type and every value, normalising the normalised value
  changes nothing, whichever rule the type has: case folding, separators and padding, spaces, or a date
  in any of the five accepted formats. So deriving a pseudonym from a value that is already in its
  canonical spelling gives the token of all its variants.\<close>

theorem normalize_idempotent: "normalize label (normalize label v) = normalize label v"
proof (cases "dict_get RULES (upper label)")
  case None
  then show ?thesis by (simp add: normalize_def default_rule_def)
next
  case (Some rule)
  from dict_get_SomeD [OF Some] have "rule \<in> set (map snd RULES)" by force
  then have "rule = bsn_rule \<or> rule = postcode_rule \<or> rule = casefold_rule \<or> rule = date_rule" by (auto simp: RULES_def)
  then have "rule (rule v) = rule v"
    by (elim disjE) (simp_all add: bsn_rule_idem postcode_rule_idem casefold_rule_idem date_rule_idem)
  then show ?thesis by (simp add: normalize_def Some)
qed

end
