(* ===== verification/PdfText.thy ===== *)
theory PdfText
  imports Normalization Tokens Complex_Main
begin

text \<open>
  \<open>pdf_text.py\<close>, \<open>profiling.py\<close>, \<open>extraction.py\<close> and \<open>pdf_boxes.py\<close>: the one text of a PDF, its
  classification, and the rectangles that cover a value in it. The PDF library is the parameter \<open>pdf\<close>: the
  pages of a file, each the characters in reading order with their tight and their loose box, or \<open>None\<close> where it
  cannot parse the bytes. Coordinates are rationals.
\<close>

type_synonym rect = "rat \<times> rat \<times> rat \<times> rat"

record glyph =
  g_char :: char
  g_tight :: rect
  g_loose :: rect

type_synonym pdf_library = "string \<Rightarrow> glyph list list option"
type_synonym placed = "char \<times> rect option"

definition TEXT_SOURCE :: string where "TEXT_SOURCE = ''pdfium-v1''"
definition GAP_FRACTION :: rat where "GAP_FRACTION = 4 / 10"
definition DEGENERATE_PT :: rat where "DEGENERATE_PT = 1 / 2"

definition char_box :: "glyph \<Rightarrow> rect" where
  "char_box g = (case g_tight g of (x0, y0, x1, y1) \<Rightarrow>
     if y1 - y0 < DEGENERATE_PT \<or> x1 - x0 \<le> 0 then g_loose g else (x0, y0, x1, y1))"

definition needs_space :: "rect \<Rightarrow> rect \<Rightarrow> bool" where
  "needs_space = (\<lambda>(px0, py0, px1, py1) (x0, y0, x1, y1).
     max (max (py1 - py0) (y1 - y0)) 1 * GAP_FRACTION < x0 - px1)"

fun place_chars :: "rect option \<Rightarrow> glyph list \<Rightarrow> placed list" where
  "place_chars prev [] = []"
| "place_chars prev (g # gs) =
     (if g_char g \<in> {CHR 0x0D, CHR 0x0A} then (g_char g, None) # place_chars None gs
      else (let rect = char_box g
            in (case prev of None \<Rightarrow> []
                | Some p \<Rightarrow> if g_char g \<noteq> CHR '' '' \<and> needs_space p rect then [(CHR '' '', None)] else [])
               @ (g_char g, Some rect) # place_chars (if g_char g = CHR '' '' then None else Some rect) gs))"

definition page_chars :: "glyph list \<Rightarrow> placed list" where
  "page_chars page = place_chars None page"

definition page_text :: "glyph list \<Rightarrow> string" where
  "page_text page = map fst (page_chars page)"

definition positioned_text :: "pdf_library \<Rightarrow> string \<Rightarrow> string option" where
  "positioned_text pdf data = map_option (\<lambda>pages. join [CHR 0x0A] (map page_text pages)) (pdf data)"

definition extract_text :: "pdf_library \<Rightarrow> string \<Rightarrow> string result" where
  "extract_text pdf data = (case positioned_text pdf data of None \<Rightarrow> Inl ExtractionError | Some t \<Rightarrow> Inr t)"

record metric =
  mc_chars :: nat
  mc_pages :: nat
  mc_bytes :: nat
  mc_born_digital :: bool

definition profile_pdf :: "pdf_library \<Rightarrow> string \<Rightarrow> int \<Rightarrow> metric result" where
  "profile_pdf pdf data threshold_chars_per_page = (case pdf data of
     None \<Rightarrow> Inl ProfilingError
   | Some ps \<Rightarrow>
       (let pages = length ps; chars = sum_list (map (\<lambda>p. length (strip (page_text p))) ps)
        in Inr \<lparr>mc_chars = chars, mc_pages = pages, mc_bytes = length data,
                mc_born_digital = (0 < pages \<and> threshold_chars_per_page * int pages \<le> int chars)\<rparr>))"

subsection \<open>Locating values\<close>

record box =
  bx_page :: nat
  bx_rect :: rect
  bx_token :: string

definition same_ignoring_case :: "char \<Rightarrow> char \<Rightarrow> bool" where
  "same_ignoring_case c d = (lower_char c = lower_char d)"

definition lit_by :: "(char \<Rightarrow> char \<Rightarrow> bool) \<Rightarrow> string \<Rightarrow> rx" where
  "lit_by eq w = foldr (\<lambda>c r. Cat (Cls (eq c)) r) w (Regex.lit [])"

fun spaced :: "rx list \<Rightarrow> rx" where
  "spaced [] = Regex.lit []"
| "spaced [r] = r"
| "spaced (r # rs) = Cat r (Cat (Rep is_space 0 None) (spaced rs))"

definition word_pattern :: "(char \<Rightarrow> char \<Rightarrow> bool) \<Rightarrow> bool \<Rightarrow> string \<Rightarrow> rx" where
  "word_pattern eq whitespace_insensitive value =
     Cat (NotBehind is_word)
       (Cat (spaced (if whitespace_insensitive then map (\<lambda>c. lit_by eq [c]) (filter (\<lambda>c. \<not> is_space c) value)
                     else map (lit_by eq) (words value)))
         (NotAhead is_word))"

text \<open>
  \<open>rule is _casefold\<close> and \<open>rule is _postcode\<close>: the types that \<open>RULES\<close> gives these rules. A value consists of
  more than white space (no detector yields one that does not).
\<close>

definition CASEFOLD_TYPES :: "string list" where
  "CASEFOLD_TYPES = [''PERSON'', ''PERSOON'', ''LOCATION'', ''LOCATIE'', ''ADRES'', ''ADDRESS'', ''ORGANIZATION'',
     ''ORGANISATIE'', ''EMAIL'', ''EMAIL_ADDRESS'']"

definition token_pattern :: "string \<Rightarrow> string \<Rightarrow> rx" where
  "token_pattern token value =
     word_pattern (if label_of token \<in> set CASEFOLD_TYPES then same_ignoring_case else (=)) (label_of token = ''POSTCODE'') value"

fun flatten :: "bool \<Rightarrow> placed list \<Rightarrow> placed list" where
  "flatten in_break [] = []"
| "flatten in_break ((c, r) # cs) =
     (if c \<in> {CHR 0x0D, CHR 0x0A} then (if in_break then [] else [(CHR '' '', None)]) @ flatten True cs
      else (c, r) # flatten False cs)"

definition height_of :: "rect \<Rightarrow> rat" where "height_of = (\<lambda>(x0, y0, x1, y1). y1 - y0)"
definition mid_of :: "rect \<Rightarrow> rat" where "mid_of = (\<lambda>(x0, y0, x1, y1). (y0 + y1) / 2)"

definition add_line :: "rect list list \<Rightarrow> rect \<Rightarrow> rect list list" where
  "add_line groups b =
     (if groups = [] then [[b]]
      else (let prev = last (last groups)
         in if \<bar>mid_of b - mid_of prev\<bar> \<le> max (max (height_of prev) (height_of b)) 1 / 2
            then butlast groups @ [last groups @ [b]] else groups @ [[b]]))"

definition line_groups :: "rect list \<Rightarrow> rect list list" where
  "line_groups boxes = foldl add_line [] boxes"

definition merge_rect :: "rect \<Rightarrow> rect \<Rightarrow> rect" where
  "merge_rect = (\<lambda>(a0, b0, a1, b1) (x0, y0, x1, y1). (min a0 x0, min b0 y0, max a1 x1, max b1 y1))"

definition merge_rects :: "rect list \<Rightarrow> rect" where
  "merge_rects boxes = foldl merge_rect (hd boxes) (tl boxes)"

fun count_from :: "string \<Rightarrow> nat \<Rightarrow> string \<Rightarrow> nat" where
  "count_from pat skip [] = 0"
| "count_from pat skip (c # cs) =
     (if 0 < skip then count_from pat (skip - 1) cs
      else if starts_with pat (c # cs) then Suc (count_from pat (length pat - 1) cs) else count_from pat 0 cs)"

text \<open>\<open>text.count(token)\<close>, for a token that is not empty.\<close>

definition count_sub :: "string \<Rightarrow> string \<Rightarrow> nat" where
  "count_sub pat text = count_from pat 0 text"

definition match_boxes :: "string \<Rightarrow> nat \<Rightarrow> placed list \<Rightarrow> nat \<times> string \<Rightarrow> box list" where
  "match_boxes token page_index flat = (\<lambda>(i, v).
     map (\<lambda>g. \<lparr>bx_page = page_index, bx_rect = merge_rects g, bx_token = token\<rparr>)
       (line_groups (List.map_filter snd (take (length v) (drop i flat)))))"

definition page_matches :: "string \<Rightarrow> string \<Rightarrow> placed list list \<Rightarrow> (nat \<times> placed list \<times> (nat \<times> string)) list" where
  "page_matches token value flats =
     concat (map (\<lambda>(k, flat). map (\<lambda>m. (k, flat, m)) (finditer (token_pattern token value) (map fst flat)))
       (enumerate 0 flats))"

definition token_boxes :: "placed list list \<Rightarrow> string \<times> string \<Rightarrow> box list" where
  "token_boxes flats = (\<lambda>(token, value).
     concat (map (\<lambda>(k, flat, m). match_boxes token k flat m) (page_matches token value flats)))"

datatype located = Boxes "box list" | NotLocated string nat nat

fun locate_all :: "placed list list \<Rightarrow> string \<Rightarrow> (string \<times> string) list \<Rightarrow> box list \<Rightarrow> located" where
  "locate_all flats anonymized [] boxes = Boxes boxes"
| "locate_all flats anonymized ((token, value) # items) boxes =
     (if value = [] then locate_all flats anonymized items boxes
      else (let ms = page_matches token value flats; expected = count_sub token anonymized
            in if length ms < expected then NotLocated token expected (length ms)
               else locate_all flats anonymized items
                      (boxes @ token_boxes flats (token, value))))"

definition build_box_map :: "pdf_library \<Rightarrow> string \<Rightarrow> string \<Rightarrow> (string \<times> string) list \<Rightarrow> located option" where
  "build_box_map pdf data anonymized items =
     map_option (\<lambda>pages. locate_all (map (\<lambda>p. flatten False (page_chars p)) pages) anonymized items []) (pdf data)"

subsection \<open>What the text keeps\<close>

definition inside :: "rect \<Rightarrow> rect \<Rightarrow> bool" where
  "inside = (\<lambda>(x0, y0, x1, y1) (a0, b0, a1, b1). a0 \<le> x0 \<and> b0 \<le> y0 \<and> x1 \<le> a1 \<and> y1 \<le> b1)"

lemma inside_refl [simp]: "inside r r"
  by (simp add: inside_def split: prod.splits)

lemma inside_trans: "inside r s \<Longrightarrow> inside s t \<Longrightarrow> inside r t"
  by (auto simp: inside_def split: prod.splits)

lemma inside_merge: "inside r (merge_rect r s)" "inside s (merge_rect r s)"
  by (auto simp: inside_def merge_rect_def split: prod.splits)

lemma inside_fold: "r \<in> set (b # bs) \<Longrightarrow> inside r (foldl merge_rect b bs)"
proof (induction bs arbitrary: b r)
  case (Cons x xs)
  have i: "inside b (merge_rect b x)" "inside x (merge_rect b x)" by (rule inside_merge)+
  have "inside (merge_rect b x) (foldl merge_rect (merge_rect b x) xs)" by (rule Cons.IH) simp
  with i Cons.prems Cons.IH [of r "merge_rect b x"] show ?case by (auto intro: inside_trans)
qed simp

lemma inside_merge_rects: "r \<in> set g \<Longrightarrow> inside r (merge_rects g)"
  unfolding merge_rects_def by (cases g) (auto intro: inside_fold)

lemma add_line_groups: "concat (add_line gs b) = concat gs @ [b]"
  by (cases gs rule: rev_cases) (simp_all add: add_line_def Let_def)

lemma line_groups_all: "concat (line_groups boxes) = boxes"
  unfolding line_groups_def by (induction boxes rule: rev_induct) (simp_all add: add_line_groups)

lemma match_boxes_cover:
  assumes "i \<le> k" and "k < i + length v" and "k < length flat" and "snd (flat ! k) = Some r"
  shows "\<exists>b\<in>set (match_boxes token page flat (i, v)). bx_page b = page \<and> bx_token b = token \<and> inside r (bx_rect b)"
proof -
  let ?cs = "take (length v) (drop i flat)"
  have "?cs ! (k - i) = flat ! k" "k - i < length ?cs" using assms by auto
  then have "flat ! k \<in> set ?cs" by (metis nth_mem)
  then have "r \<in> set (List.map_filter snd ?cs)" using assms(4) unfolding List.map_filter_def by (force simp del: split_paired_Ex)
  then obtain g where g: "g \<in> set (line_groups (List.map_filter snd ?cs))" "r \<in> set g"
    using line_groups_all [of "List.map_filter snd ?cs"] by (metis (no_types, lifting) in_set_conv_decomp set_concat UN_E)
  then show ?thesis using inside_merge_rects [OF g(2)]
    by (intro bexI [of _ "\<lparr>bx_page = page, bx_rect = merge_rects g, bx_token = token\<rparr>"]) (auto simp: match_boxes_def)
qed

text \<open>What a located value has: enough matches, and the boxes of all of them.\<close>

definition boxed :: "placed list list \<Rightarrow> string \<Rightarrow> box list \<Rightarrow> string \<times> string \<Rightarrow> bool" where
  "boxed flats a bs = (\<lambda>(token, value). value = [] \<or> count_sub token a \<le> length (page_matches token value flats)
     \<and> set (token_boxes flats (token, value)) \<subseteq> set bs)"

definition missing :: "placed list list \<Rightarrow> string \<Rightarrow> string \<Rightarrow> nat \<Rightarrow> nat \<Rightarrow> string \<times> string \<Rightarrow> bool" where
  "missing flats a t expected found = (\<lambda>(token, value). token = t \<and> value \<noteq> [] \<and> found < expected
     \<and> expected = count_sub token a \<and> found = length (page_matches token value flats))"

lemma locate_all_spec:
  "case locate_all flats a xs boxes of
     Boxes bs \<Rightarrow> set boxes \<subseteq> set bs \<and> list_all (boxed flats a bs) xs \<and> set bs \<subseteq> set boxes \<union> (\<Union>x\<in>set xs. set (token_boxes flats x))
   | NotLocated t expected found \<Rightarrow> list_ex (missing flats a t expected found) xs"
proof (induction xs arbitrary: boxes)
  case (Cons x xs)
  obtain token v where x: "x = (token, v)" by (cases x)
  let ?ms = "page_matches token v flats"
  consider (empty) "v = []" | (short) "v \<noteq> []" "length ?ms < count_sub token a"
    | (found) "v \<noteq> []" "count_sub token a \<le> length ?ms" by linarith
  then show ?case
  proof cases
    case empty
    then have "locate_all flats a (x # xs) boxes = locate_all flats a xs boxes" "boxed flats a bs x" for bs
      by (simp_all add: x boxed_def)
    then show ?thesis using Cons [of boxes] by (auto split: located.splits)
  next
    case short
    then show ?thesis by (simp add: x missing_def Let_def)
  next
    case found
    then have e: "locate_all flats a (x # xs) boxes = locate_all flats a xs (boxes @ token_boxes flats x)" by (simp add: x Let_def)
    show ?thesis
    proof (cases "locate_all flats a xs (boxes @ token_boxes flats x)")
      case (Boxes bs)
      note ih = Cons [of "boxes @ token_boxes flats x", unfolded Boxes, simplified]
      then have "boxed flats a bs x" using found(2) by (simp add: x boxed_def)
      with ih show ?thesis unfolding e Boxes by auto
    next
      case (NotLocated t e' f)
      with Cons [of "boxes @ token_boxes flats x"] show ?thesis by (simp add: e)
    qed
  qed
qed simp

text \<open>The glyphs of a page that a value was found on: page, position and rectangle.\<close>

definition found_glyphs :: "placed list list \<Rightarrow> string \<times> string \<Rightarrow> (nat \<times> nat \<times> rect) set" where
  "found_glyphs flats = (\<lambda>(token, value). {(page, k, r). value \<noteq> [] \<and> (\<exists>flat i v. (page, flat, i, v) \<in> set (page_matches token value flats)
     \<and> i \<le> k \<and> k < i + length v \<and> k < length flat \<and> snd (flat ! k) = Some r)})"

definition covered_by :: "box list \<Rightarrow> string \<Rightarrow> (nat \<times> nat \<times> rect) set" where
  "covered_by bs token = {(page, k, r). \<exists>b\<in>set bs. bx_page b = page \<and> bx_token b = token \<and> inside r (bx_rect b)}"

lemma token_boxes_cover: "found_glyphs flats (token, v) \<subseteq> covered_by (token_boxes flats (token, v)) token"
proof (clarsimp simp: found_glyphs_def simp del: split_paired_Ex)
  fix page k a b c d flat i w
  assume m: "(page, flat, i, w) \<in> set (page_matches token v flats)" and k: "i \<le> k" "k < i + length w" "k < length flat" "snd (flat ! k) = Some (a, b, c, d)"
  from match_boxes_cover [OF k, of token page] m
  show "(page, k, a, b, c, d) \<in> covered_by (token_boxes flats (token, v)) token"
    by (fastforce simp: covered_by_def token_boxes_def)
qed

text \<open>A box map covers every occurrence or is not made. When the boxes are given, every value that is replaced by a
  token occurs in the page text at least as often as the token in the anonymised text, and every visible character of
  every place where it was found lies inside a box of its token on its page; no box lies anywhere else. When a value
  is found too few times, no box is returned, only the first such token and the two counts. A file that does
  not parse is the third outcome.\<close>

theorem box_map_complete:
  "case pdf data of
     None \<Rightarrow> build_box_map pdf data a xs = None
   | Some pages \<Rightarrow>
       (let flats = map (\<lambda>p. flatten False (page_chars p)) pages
        in case build_box_map pdf data a xs of
             None \<Rightarrow> False
           | Some (Boxes bs) \<Rightarrow>
               list_all (\<lambda>(token, v). v = [] \<or> count_sub token a \<le> length (page_matches token v flats)) xs
               \<and> list_all (\<lambda>(token, v). found_glyphs flats (token, v) \<subseteq> covered_by bs token) xs
               \<and> set bs \<subseteq> (\<Union>x\<in>set xs. set (token_boxes flats x))
           | Some (NotLocated t expected found) \<Rightarrow> found < expected \<and> list_ex (missing flats a t expected found) xs)"
proof (cases "pdf data")
  case (Some pages)
  define flats where "flats = map (\<lambda>p. flatten False (page_chars p)) pages"
  note spec = locate_all_spec [where flats = flats and a = a and xs = xs and boxes = "[]"]
  have b: "build_box_map pdf data a xs = Some (locate_all flats a xs [])" by (simp add: build_box_map_def Some flats_def)
  show ?thesis
  proof (cases "locate_all flats a xs []")
    case (Boxes bs)
    have cov: "found_glyphs flats (token, v) \<subseteq> covered_by bs token" if "boxed flats a bs (token, v)" for token v
    proof (cases "v = []")
      case True
      then show ?thesis by (simp add: found_glyphs_def)
    next
      case False
      with that have "covered_by (token_boxes flats (token, v)) token \<subseteq> covered_by bs token"
        by (auto simp: boxed_def covered_by_def)
      with token_boxes_cover show ?thesis by blast
    qed
    have all: "list_all (boxed flats a bs) xs" using spec by (simp add: Boxes)
    have "list_all (\<lambda>(token, v). v = [] \<or> count_sub token a \<le> length (page_matches token v flats)) xs"
      by (rule list.pred_mono_strong [OF all]) (auto simp: boxed_def)
    moreover have "list_all (\<lambda>(token, v). found_glyphs flats (token, v) \<subseteq> covered_by bs token) xs"
      by (rule list.pred_mono_strong [OF all]) (use cov in auto)
    moreover note spec
    ultimately show ?thesis by (simp add: Some b Boxes flats_def [symmetric])
  next
    case (NotLocated t e f)
    with spec have l: "list_ex (missing flats a t e f) xs" by simp
    then have "f < e" by (auto simp: list_ex_iff missing_def)
    with l show ?thesis by (simp add: Some b NotLocated flats_def [symmetric])
  qed
qed (simp add: build_box_map_def)

lemma flatten_no_breaks: "CHR 0x0D \<notin> fst ` set (flatten b cs) \<and> CHR 0x0A \<notin> fst ` set (flatten b cs)"
  by (induction b cs rule: flatten.induct) auto

end
