(* ===== verification/Corpus.thy ===== *)
theory Corpus
  imports PdfText AuditTrail KeyAudit MappingStore
begin

text \<open>
  The register of documents: the tables of \<open>models.py\<close> as one record, the guarded transition and
  registration of \<open>pipeline.py\<close>, membership of dossiers (\<open>dossiers.py\<close>, \<open>dossier_events.py\<close>). An operation
  takes the tables and gives its value and the tables it leaves, or the exception, after which the caller's
  transaction rolls back. \<open>env\<close> is what other sessions commit between a read and the insert that follows
  it; a savepoint that fails leaves the tables as they then are. New identifiers and the clock are
  arguments. The log line of a transition is not modelled.
\<close>

record document =
  dc_id :: string
  dc_object_key :: string
  dc_filename :: "string option"
  dc_superseded_by :: "string option"
  dc_source_url :: "string option"
  dc_fetched_at :: "datetime option"
  dc_source_sha256 :: "string option"

record dossier =
  ds_id :: string
  ds_name :: string
  ds_created_at :: datetime

record box_map =
  bm_hash :: string
  bm_lists_hash :: "string option"
  bm_boxes :: "box list"

record summary =
  sm_text :: string
  sm_model :: string
  sm_created_at :: datetime

record corpus =
  documents :: "document list"
  audit :: audit_db
  texts :: "(string, string) dict"
  pseudonyms :: "doc_pseudonym list"
  pii_mappings :: mappings
  dossier_rows :: "dossier list"
  memberships :: "(string \<times> string) list"
  topic_rows :: "(string \<times> string) list"
  grant_rows :: "grant_row list"
  key_log :: key_db
  box_maps :: "(string, box_map) dict"
  summary_rows :: "(string, summary) dict"

definition document_by_id :: "corpus \<Rightarrow> string \<Rightarrow> document option" where
  "document_by_id db i = find (\<lambda>d. dc_id d = i) (documents db)"

definition dossier_by_id :: "corpus \<Rightarrow> string \<Rightarrow> dossier option" where
  "dossier_by_id db i = find (\<lambda>d. ds_id d = i) (dossier_rows db)"

definition dossier_by_name :: "corpus \<Rightarrow> string \<Rightarrow> dossier option" where
  "dossier_by_name db n = find (\<lambda>d. ds_name d = n) (dossier_rows db)"

text \<open>The index \<open>uq_documents_live_object_key\<close>: one document per object among those not superseded.\<close>

definition live_document_for :: "corpus \<Rightarrow> string \<Rightarrow> document option" where
  "live_document_for db key = find (\<lambda>d. dc_object_key d = key \<and> dc_superseded_by d = None) (documents db)"

definition UQ_LIVE :: string where "UQ_LIVE = ''uq_documents_live_object_key''"

definition insert_document :: "corpus \<Rightarrow> document \<Rightarrow> corpus result" where
  "insert_document db d =
     (if document_by_id db (dc_id d) \<noteq> None then Inl (IntegrityError ''documents_pkey'')
      else if dc_superseded_by d = None \<and> live_document_for db (dc_object_key d) \<noteq> None then Inl (IntegrityError UQ_LIVE)
      else Inr (db\<lparr>documents := documents db @ [d]\<rparr>))"

definition update_document :: "corpus \<Rightarrow> document \<Rightarrow> corpus result" where
  "update_document db d =
     (let others = filter (\<lambda>x. dc_id x \<noteq> dc_id d) (documents db)
      in if dc_superseded_by d = None
            \<and> list_ex (\<lambda>x. dc_object_key x = dc_object_key d \<and> dc_superseded_by x = None) others
         then Inl (IntegrityError UQ_LIVE)
         else Inr (db\<lparr>documents := map (\<lambda>x. if dc_id x = dc_id d then d else x) (documents db)\<rparr>))"

subsection \<open>Transitions\<close>

definition doc_state :: "corpus \<Rightarrow> string \<Rightarrow> state option result" where
  "doc_state db doc = current_state (audit db) doc"

definition transition ::
    "(string \<Rightarrow> string) \<Rightarrow> datetime \<Rightarrow> corpus \<Rightarrow> string \<Rightarrow> state \<Rightarrow> string \<Rightarrow> json option \<Rightarrow> (audit_record option \<times> corpus) result" where
  "transition H now db doc to_state stp payload =
     rbind (doc_state db doc) (\<lambda>frm.
     if frm = Some to_state then Inr (None, db)
     else if \<not> is_allowed frm to_state then Inl ValueError
     else rbind (append_record H now (audit db) doc (map_option state_value frm) (state_value to_state) stp payload None)
       (\<lambda>(a, r). Inr (Some r, db\<lparr>audit := a\<rparr>)))"

text \<open>A record that leaves the state as it is.\<close>

definition note_event ::
    "(string \<Rightarrow> string) \<Rightarrow> datetime \<Rightarrow> corpus \<Rightarrow> string \<Rightarrow> state \<Rightarrow> string \<Rightarrow> json \<Rightarrow> corpus result" where
  "note_event H now db doc s stp payload =
     rbind (append_record H now (audit db) doc (Some (state_value s)) (state_value s) stp (Some payload) None)
       (\<lambda>(a, r). Inr (db\<lparr>audit := a\<rparr>))"

definition register_payload :: "string \<Rightarrow> string option \<Rightarrow> datetime option \<Rightarrow> string option \<Rightarrow> json" where
  "register_payload domain source_url fetched_at source_sha256 =
     JObj ([(''domain'', JStr domain), (''source_sha256'', opt_str source_sha256)]
       @ (case source_url of None \<Rightarrow> [] | Some u \<Rightarrow> [(''source_url'', JStr u)])
       @ (case fetched_at of None \<Rightarrow> [] | Some t \<Rightarrow> [(''fetched_at'', JStr (isoformat t))]))"

record delivery =
  dl_object_key :: string
  dl_domain :: string
  dl_filename :: "string option"
  dl_source_url :: "string option"
  dl_fetched_at :: "datetime option"
  dl_source_sha256 :: "string option"

definition register_document ::
    "(string \<Rightarrow> string) \<Rightarrow> datetime \<Rightarrow> string \<Rightarrow> corpus \<Rightarrow> delivery \<Rightarrow> (document \<times> corpus) result" where
  "register_document H now new_id db dl =
     (let doc = \<lparr>dc_id = new_id, dc_object_key = dl_object_key dl, dc_filename = dl_filename dl, dc_superseded_by = None,
            dc_source_url = dl_source_url dl, dc_fetched_at = dl_fetched_at dl, dc_source_sha256 = dl_source_sha256 dl\<rparr>
      in rbind (insert_document db doc) (\<lambda>db.
         rbind (transition H now db new_id REGISTERED ''register''
                  (Some (register_payload (dl_domain dl) (dl_source_url dl) (dl_fetched_at dl) (dl_source_sha256 dl))))
           (\<lambda>(r, db). Inr (doc, db))))"

text \<open>The payload of a document's first record of a step, or of its last; \<open>None\<close> is a document without one.\<close>

definition records_of :: "corpus \<Rightarrow> string \<Rightarrow> string list \<Rightarrow> audit_record list" where
  "records_of db doc steps = by_seq (filter (\<lambda>r. ar_document_id r = doc \<and> ar_step r \<in> set steps) (trail (audit db)))"

definition payload_get :: "string \<Rightarrow> json \<Rightarrow> json" where
  "payload_get k p = (case jget k p of None \<Rightarrow> JNull | Some v \<Rightarrow> v)"

definition document_domain :: "corpus \<Rightarrow> string \<Rightarrow> json" where
  "document_domain db doc = (case records_of db doc [''register''] of
     [] \<Rightarrow> JStr DEFAULT_DOMAIN
   | r # _ \<Rightarrow> (let v = payload_get ''domain'' (ar_payload r)
               in if v = JNull \<or> v = JStr [] then JStr DEFAULT_DOMAIN else v))"

definition register_live ::
    "(string \<Rightarrow> string) \<Rightarrow> datetime \<Rightarrow> string \<Rightarrow> (corpus \<Rightarrow> corpus) \<Rightarrow> corpus \<Rightarrow> delivery \<Rightarrow> (document \<times> corpus) result" where
  "register_live H now new_id env db dl =
     (case live_document_for db (dl_object_key dl) of
        Some d \<Rightarrow> Inr (d, db)
      | None \<Rightarrow>
          (case register_document H now new_id (env db) dl of
             Inr r \<Rightarrow> Inr r
           | Inl e \<Rightarrow>
               if e \<noteq> IntegrityError UQ_LIVE then Inl e
               else (case live_document_for (env db) (dl_object_key dl) of None \<Rightarrow> Inl e | Some d \<Rightarrow> Inr (d, env db))))"

definition dossiers_of :: "corpus \<Rightarrow> string \<Rightarrow> string list" where
  "dossiers_of db doc = map fst (filter (\<lambda>(ds, d). d = doc) (memberships db))"

definition get_anonymized_text :: "corpus \<Rightarrow> string \<Rightarrow> string option" where
  "get_anonymized_text db doc = dict_get (texts db) doc"

text \<open>\<open>lists_hash_of\<close> and \<open>text_source_of\<close>: what the last (re)anonymisation recorded.\<close>

definition last_anonymize :: "corpus \<Rightarrow> string \<Rightarrow> json" where
  "last_anonymize db doc = (case last_opt (records_of db doc [''anonymize'', ''reanonymize'']) of
     None \<Rightarrow> JObj [] | Some r \<Rightarrow> ar_payload r)"

definition lists_hash_of :: "corpus \<Rightarrow> string \<Rightarrow> json" where
  "lists_hash_of db doc = payload_get ''lists_hash'' (last_anonymize db doc)"

definition text_source_of :: "corpus \<Rightarrow> string \<Rightarrow> json" where
  "text_source_of db doc = payload_get ''text_source'' (last_anonymize db doc)"

subsection \<open>What a dossier change leaves behind\<close>

definition ADDED :: string where "ADDED = ''dossier_added''"
definition REMOVED :: string where "REMOVED = ''dossier_removed''"
definition DOSSIER_DELETED :: string where "DOSSIER_DELETED = ''dossier-deleted''"

definition name_of :: "corpus \<Rightarrow> string \<Rightarrow> string" where
  "name_of db dossier_id = (case dossier_by_id db dossier_id of None \<Rightarrow> dossier_id | Some d \<Rightarrow> ds_name d)"

definition opt_field :: "string \<Rightarrow> string option \<Rightarrow> (string \<times> json) list" where
  "opt_field k v = (case v of None \<Rightarrow> [] | Some s \<Rightarrow> if s = [] then [] else [(k, JStr s)])"

definition with_state :: "corpus \<Rightarrow> string \<Rightarrow> (state \<Rightarrow> 'a result) \<Rightarrow> 'a result" where
  "with_state db doc f = rbind (doc_state db doc) (\<lambda>s. case s of None \<Rightarrow> Inl ValueError | Some st \<Rightarrow> f st)"

definition membership_changed where
  "membership_changed H now db doc dossier_id dossier stp actor reason batch =
     with_state db doc (\<lambda>s. note_event H now db doc s stp
       (JObj ([(''dossier'', JStr dossier), (''dossier_id'', JStr dossier_id), (''actor'', JStr actor)]
          @ opt_field ''reason'' reason @ opt_field ''batch'' batch)))"

definition dossier_deleted where
  "dossier_deleted H now db doc dossier_id actor released =
     with_state db doc (\<lambda>s. note_event H now db doc s DOSSIER_DELETED
       (JObj [(''dossier_id'', JStr dossier_id), (''actor'', JStr actor),
              (''action'', JStr (if released then ''released'' else ''deleted''))]))"

definition renamed where
  "renamed H now db has_stream dossier_id new old actor =
     (if \<not> has_stream then Inl MissingAuditStream
      else rbind (dossier_renamed_event H now (key_log db) dossier_id old new
                    (length (filter (\<lambda>(ds, d). ds = dossier_id) (memberships db))) actor)
             (\<lambda>k. Inr (db\<lparr>key_log := k\<rparr>)))"

subsection \<open>Dossiers\<close>

definition ALL_DOSSIERS :: string where "ALL_DOSSIERS = ''alle''"

definition ensure_dossier ::
    "datetime \<Rightarrow> string \<Rightarrow> (corpus \<Rightarrow> corpus) \<Rightarrow> corpus \<Rightarrow> string \<Rightarrow> (dossier \<times> corpus) result" where
  "ensure_dossier now new_id env db name =
     (let name = strip name
      in if name = [] then Inl (DossierError ''name'')
         else if lower name = ALL_DOSSIERS then Inl (DossierError ''all'')
         else (case dossier_by_name db name of
             Some d \<Rightarrow> Inr (d, db)
           | None \<Rightarrow>
               (let created = \<lparr>ds_id = new_id, ds_name = name, ds_created_at = now\<rparr>
                in if dossier_by_name (env db) name = None \<and> dossier_by_id (env db) new_id = None
                   then Inr (created, (env db)\<lparr>dossier_rows := dossier_rows (env db) @ [created]\<rparr>)
                   else (case dossier_by_name (env db) name of
                       None \<Rightarrow> Inl (IntegrityError ''dossiers'') | Some d \<Rightarrow> Inr (d, env db)))))"

text \<open>The foreign keys of a membership count: a pair with an unknown side is refused by the table.\<close>

definition add_member ::
    "(string \<Rightarrow> string) \<Rightarrow> datetime \<Rightarrow> (corpus \<Rightarrow> corpus) \<Rightarrow> corpus \<Rightarrow> string \<Rightarrow> string \<Rightarrow> string \<Rightarrow> string option
      \<Rightarrow> (bool \<times> corpus) result" where
  "add_member H now env db dossier_id doc actor batch =
     (if (case document_by_id db doc of None \<Rightarrow> False | Some d \<Rightarrow> dc_superseded_by d \<noteq> None) then Inl (DossierError ''superseded'')
      else if (dossier_id, doc) \<in> set (memberships db) then Inr (False, db)
      else if (dossier_id, doc) \<in> set (memberships (env db)) \<or> dossier_by_id (env db) dossier_id = None
              \<or> document_by_id (env db) doc = None
      then Inr (False, env db)
      else (let db' = (env db)\<lparr>memberships := memberships (env db) @ [(dossier_id, doc)]\<rparr>
            in rbind (membership_changed H now db' doc dossier_id (name_of db' dossier_id) ADDED actor None batch)
                 (\<lambda>db''. Inr (True, db''))))"

definition remove_member ::
    "(string \<Rightarrow> string) \<Rightarrow> datetime \<Rightarrow> corpus \<Rightarrow> string \<Rightarrow> string \<Rightarrow> string \<Rightarrow> string \<Rightarrow> string option \<Rightarrow> (bool \<times> corpus) result" where
  "remove_member H now db dossier_id doc actor reason batch =
     (if strip reason = [] then Inl (DossierError ''reason'')
      else if (dossier_id, doc) \<notin> set (memberships db) then Inr (False, db)
      else (let db' = db\<lparr>memberships := filter (\<lambda>p. p \<noteq> (dossier_id, doc)) (memberships db)\<rparr>
            in rbind (membership_changed H now db' doc dossier_id (name_of db dossier_id) REMOVED actor (Some reason) batch)
                 (\<lambda>db''. Inr (True, db''))))"

definition rename_dossier where
  "rename_dossier H now db old new actor has_stream =
     (case dossier_by_name db (strip old) of
        None \<Rightarrow> Inl (DossierError ''unknown'')
      | Some found \<Rightarrow>
          (let new = strip new
           in if new = [] then Inl (DossierError ''name'')
              else if lower new = ALL_DOSSIERS then Inl (DossierError ''all'')
              else if (case dossier_by_name db new of None \<Rightarrow> False | Some c \<Rightarrow> ds_id c \<noteq> ds_id found)
              then Inl (DossierError ''exists'')
              else (let db' = db\<lparr>dossier_rows := map (\<lambda>d. if ds_id d = ds_id found then d\<lparr>ds_name := new\<rparr> else d) (dossier_rows db)\<rparr>
                    in rbind (renamed H now db' has_stream (ds_id found) new (strip old) actor) (\<lambda>db'.
                       Inr (found\<lparr>ds_name := new\<rparr>, db')))))"

definition homeless :: "corpus \<Rightarrow> nat" where
  "homeless db = length (filter (\<lambda>d. dc_id d \<notin> snd ` set (memberships db)) (documents db))"

definition documents_in :: "corpus \<Rightarrow> string list \<Rightarrow> string set" where
  "documents_in db dossier_ids =
     (if dossier_ids = [] then {} else snd ` set (filter (\<lambda>(ds, d). ds \<in> set dossier_ids) (memberships db)))"

definition resolve_scope :: "corpus \<Rightarrow> string option \<Rightarrow> string list option result" where
  "resolve_scope db scope =
     (case scope of None \<Rightarrow> Inl (DossierError ''scope'') | Some s \<Rightarrow>
      if strip s = [] then Inl (DossierError ''scope'')
      else (let names = filter (\<lambda>n. n \<noteq> []) (map strip (split_on (CHR '','') s))
            in if list_ex (\<lambda>n. lower n = ALL_DOSSIERS) names
               then (if 1 < length names then Inl (DossierError ''combined'') else Inr None)
               else (let found = filter (\<lambda>d. ds_name d \<in> set names) (dossier_rows db)
                     in if \<not> set names \<subseteq> set (map ds_name found) then Inl (DossierError ''unknown'')
                        else Inr (Some (map ds_id found)))))"

definition listing :: "corpus \<Rightarrow> (string \<times> string \<times> nat) list" where
  "listing db = map (\<lambda>d. (ds_id d, ds_name d, card (documents_in db [ds_id d])))
     (sort_key (\<lambda>d. - instant (ds_created_at d)) (dossier_rows db))"

subsection \<open>The life of a document\<close>

text \<open>
  The records of a document follow the machine: each starts from the state the one before left, and takes
  an allowed edge or, for an event, stays.
\<close>

definition doc_trail :: "audit_db \<Rightarrow> string \<Rightarrow> audit_record list" where
  "doc_trail a doc = filter (\<lambda>r. ar_document_id r = doc) (trail a)"

fun state_path :: "state option \<Rightarrow> audit_record list \<Rightarrow> bool" where
  "state_path s [] = True"
| "state_path s (r # rs) = (ar_from_state r = map_option state_value s
     \<and> (case state_of (ar_to_state r) of Inl _ \<Rightarrow> False | Inr t \<Rightarrow> (s = Some t \<or> is_allowed s t) \<and> state_path (Some t) rs))"

definition path_end :: "state option \<Rightarrow> audit_record list \<Rightarrow> state option" where
  "path_end s rs = (if rs = [] then s else (case state_of (ar_to_state (last rs)) of Inl _ \<Rightarrow> None | Inr t \<Rightarrow> Some t))"

lemma state_path_snoc:
  "state_path s (rs @ [r]) \<longleftrightarrow> state_path s rs \<and> state_path (path_end s rs) [r]"
proof (induction rs arbitrary: s)
  case (Cons x rs)
  show ?case using Cons [of "Some t" for t] by (cases rs) (auto simp: path_end_def split: sum.splits)
qed (simp add: path_end_def)

definition trail_ok :: "(string \<Rightarrow> string) \<Rightarrow> audit_db \<Rightarrow> bool" where
  "trail_ok H a = (trail_wf a \<and> verify_chain H a = Inr (True, None) \<and> (\<forall>doc. state_path None (doc_trail a doc)))"

lemma state_value_ne [simp]: "state_value s \<noteq> []"
  by (cases s) simp_all

lemma trail_state:
  assumes "trail_ok H a"
  shows "current_state a doc = Inr (path_end None (doc_trail a doc))"
proof (cases "doc_trail a doc" rule: rev_cases)
  case Nil
  then show ?thesis by (simp add: current_state_def doc_trail_def path_end_def last_opt_def by_seq_def)
next
  case (snoc rs r)
  have "state_path None (rs @ [r])" using assms snoc by (metis trail_ok_def)
  then obtain t where t: "ar_to_state r = state_value t"
    unfolding state_path_snoc by (auto simp: state_of_Inr split: sum.splits)
  have "by_seq (filter (\<lambda>r. ar_document_id r = doc) (trail a)) = rs @ [r]"
    using assms snoc by_seq_filter_wf [of a "\<lambda>r. ar_document_id r = doc"] by (metis trail_ok_def doc_trail_def)
  then show ?thesis using t by (simp add: current_state_def snoc path_end_def last_opt_def del: by_seq_filter_wf)
qed

lemma append_trail_ok:
  assumes "digest64 H" and "trail_ok H a" and "current_state a doc = Inr frm" and "frm = Some to_state \<or> is_allowed frm to_state"
    and "append_record H now a doc (map_option state_value frm) (state_value to_state) stp payload None = Inr (a', r)"
  shows "trail_ok H a'"
    and "current_state a' d = (if d = doc then Inr (Some to_state) else current_state a d)"
    and "doc_trail a' d = doc_trail a d @ (if d = doc then [r] else [])"
    and "ar_step r = stp" and "ar_document_id r = doc" and "ar_payload r = or_empty payload"
proof -
  have wf: "trail_wf a" "verify_chain H a = Inr (True, None)" using assms(2) by (simp_all add: trail_ok_def)
  note w = append_wf [OF wf(1) assms(5)] and v = append_verifies [OF assms(1) wf assms(5)]
  have r: "ar_document_id r = doc" "ar_from_state r = map_option state_value frm" "ar_to_state r = state_value to_state"
    "ar_step r = stp" "ar_payload r = or_empty payload"
    using assms(5) by (auto elim: append_recordE)
  show dt: "doc_trail a' d = doc_trail a d @ (if d = doc then [r] else [])" for d
    using w(2) r(1) by (simp add: doc_trail_def)
  have e: "path_end None (doc_trail a doc) = frm" using trail_state [OF assms(2), of doc] assms(3) by simp
  have "state_path None (doc_trail a' d)" for d
    using assms(2,4) r(2,3) by (auto simp: dt state_path_snoc e trail_ok_def)
  then show "trail_ok H a'" using w v by (simp add: trail_ok_def)
  show "current_state a' d = (if d = doc then Inr (Some to_state) else current_state a d)"
    by (rule current_state_append [OF wf(1) assms(5)])
  show "ar_step r = stp" "ar_document_id r = doc" "ar_payload r = or_empty payload" by (rule r)+
qed

text \<open>The tables' own constraints.\<close>

definition live :: "document \<Rightarrow> bool" where
  "live d = (dc_superseded_by d = None)"

definition tables_ok :: "corpus \<Rightarrow> bool" where
  "tables_ok db = (distinct (map dc_id (documents db))
     \<and> distinct (map dc_object_key (filter live (documents db)))
     \<and> distinct (memberships db) \<and> snd ` set (memberships db) \<subseteq> dc_id ` set (documents db)
     \<and> fst ` set (memberships db) \<subseteq> ds_id ` set (dossier_rows db)
     \<and> distinct (map ds_id (dossier_rows db)) \<and> distinct (map ds_name (dossier_rows db))
     \<and> distinct (map (\<lambda>r. (ps_document_id r, ps_pseudonym r)) (pseudonyms db)))"

definition corpus_ok :: "(string \<Rightarrow> string) \<Rightarrow> corpus \<Rightarrow> bool" where
  "corpus_ok H db = (trail_ok H (audit db) \<and> tables_ok db)"

lemma tables_ok_audit [simp]: "tables_ok (db\<lparr>audit := a\<rparr>) = tables_ok db"
  by (simp add: tables_ok_def)

lemma transition_ok:
  assumes "digest64 H" and "corpus_ok H db" and "transition H now db doc t stp payload = Inr (r, db')"
  shows "corpus_ok H db' \<and> (\<exists>a. db' = db\<lparr>audit := a\<rparr>)
    \<and> (\<forall>d. doc_state db' d = (if d = doc then Inr (Some t) else doc_state db d))
    \<and> (case r of None \<Rightarrow> db' = db \<and> doc_state db doc = Inr (Some t)
         | Some x \<Rightarrow> (\<exists>s. doc_state db doc = Inr s \<and> is_allowed s t) \<and> (\<forall>d. doc_trail (audit db') d = doc_trail (audit db) d @ (if d = doc then [x] else []))
             \<and> ar_step x = stp \<and> ar_payload x = or_empty payload)"
proof -
  obtain frm where frm: "doc_state db doc = Inr frm" using assms(3) by (auto simp: transition_def result_simps)
  show ?thesis
  proof (cases "frm = Some t")
    case True
    then have "r = None" "db' = db" using assms(3) frm by (simp_all add: transition_def)
    with True frm assms(2) show ?thesis by (auto intro: exI [of _ "audit db"])
  next
    case False
    then have al: "is_allowed frm t" using assms(3) frm by (auto simp: transition_def split: if_splits)
    obtain a x where a: "append_record H now (audit db) doc (map_option state_value frm) (state_value t) stp payload None = Inr (a, x)"
      "r = Some x" "db' = db\<lparr>audit := a\<rparr>"
      using assms(3) frm False al by (auto simp: transition_def result_simps)
    have tr: "trail_ok H (audit db)" using assms(2) by (simp add: corpus_ok_def)
    note n = append_trail_ok [OF assms(1) tr frm [unfolded doc_state_def] disjI2 [OF al] a(1)]
    show ?thesis using n al frm a(2,3) assms(2) by (auto simp: corpus_ok_def doc_state_def)
  qed
qed

lemma note_event_ok:
  assumes "digest64 H" and "corpus_ok H db" and "doc_state db doc = Inr (Some s)" and "note_event H now db doc s stp payload = Inr db'"
  shows "corpus_ok H db' \<and> (\<exists>a. db' = db\<lparr>audit := a\<rparr>) \<and> (\<forall>d. doc_state db' d = doc_state db d)
    \<and> (\<exists>r. (\<forall>d. doc_trail (audit db') d = doc_trail (audit db) d @ (if d = doc then [r] else [])) \<and> ar_step r = stp \<and> ar_payload r = payload)"
proof -
  obtain a r where a: "append_record H now (audit db) doc (map_option state_value (Some s)) (state_value s) stp (Some payload) None = Inr (a, r)"
    "db' = db\<lparr>audit := a\<rparr>" using assms(4) by (auto simp: note_event_def result_simps)
  have tr: "trail_ok H (audit db)" using assms(2) by (simp add: corpus_ok_def)
  note n = append_trail_ok [OF assms(1) tr assms(3) [unfolded doc_state_def] disjI1 [OF refl] a(1)]
  show ?thesis using n a(2) assms(2,3) by (auto simp: corpus_ok_def doc_state_def or_empty_def)
qed

lemma document_by_id_None: "document_by_id db i = None \<longleftrightarrow> i \<notin> dc_id ` set (documents db)"
  by (auto simp: document_by_id_def find_None_iff)

lemma document_by_id_Some: "document_by_id db i = Some d \<Longrightarrow> d \<in> set (documents db) \<and> dc_id d = i"
  by (auto simp: document_by_id_def find_Some_iff)

lemma live_document_None: "live_document_for db k = None \<longleftrightarrow> k \<notin> dc_object_key ` set (filter live (documents db))"
  by (auto simp: live_document_for_def find_None_iff live_def)

lemma live_document_Some: "live_document_for db k = Some d \<Longrightarrow> d \<in> set (documents db) \<and> dc_object_key d = k \<and> live d"
  by (auto simp: live_document_for_def find_Some_iff live_def)

lemma insert_document_ok:
  assumes "corpus_ok H db" and "insert_document db d = Inr db'"
  shows "corpus_ok H db' \<and> db' = db\<lparr>documents := documents db @ [d]\<rparr>"
proof -
  have new: "dc_id d \<notin> dc_id ` set (documents db)" "live d \<Longrightarrow> dc_object_key d \<notin> dc_object_key ` set (filter live (documents db))"
    "db' = db\<lparr>documents := documents db @ [d]\<rparr>"
    using assms(2) by (auto simp: insert_document_def document_by_id_None live_document_None live_def split: if_splits)
  have t: "tables_ok db" "trail_ok H (audit db)" using assms(1) by (simp_all add: corpus_ok_def)
  have "tables_ok db'"
    using t(1) new(1,2) unfolding tables_ok_def new(3) by (cases "live d") (simp_all add: subset_insertI2)
  with t(2) new(3) show ?thesis by (simp add: corpus_ok_def)
qed

lemma register_document_ok:
  assumes "digest64 H" and "corpus_ok H db" and "register_document H now new_id db dl = Inr (d, db')"
  shows "corpus_ok H db' \<and> documents db' = documents db @ [d] \<and> dc_object_key d = dl_object_key dl \<and> live d \<and> dc_id d = new_id
    \<and> (\<forall>i. doc_state db' i = (if i = new_id then Inr (Some REGISTERED) else doc_state db i))
    \<and> (\<exists>a. db' = db\<lparr>documents := documents db @ [d], audit := a\<rparr>)"
proof -
  obtain db1 r where s: "insert_document db d = Inr db1"
      "transition H now db1 new_id REGISTERED ''register''
         (Some (register_payload (dl_domain dl) (dl_source_url dl) (dl_fetched_at dl) (dl_source_sha256 dl))) = Inr (r, db')"
      "dc_object_key d = dl_object_key dl" "live d" "dc_id d = new_id"
    using assms(3) by (auto simp: register_document_def result_simps live_def Let_def)
  note i = insert_document_ok [OF assms(2) s(1)]
  then have "corpus_ok H db1" by blast
  note t = transition_ok [OF assms(1) this s(2)]
  from t obtain a where "db' = db1\<lparr>audit := a\<rparr>" by blast
  with i have "documents db' = documents db @ [d]" "db' = db\<lparr>documents := documents db @ [d], audit := a\<rparr>" by simp_all
  moreover have "doc_state db1 d = doc_state db d" for d using i by (simp add: doc_state_def)
  ultimately show ?thesis using t s(3-5) by auto
qed

text \<open>What other sessions may do: commit changes that keep the constraints and take no document away.\<close>

definition commits_ok :: "(string \<Rightarrow> string) \<Rightarrow> (corpus \<Rightarrow> corpus) \<Rightarrow> bool" where
  "commits_ok H env = (\<forall>db. corpus_ok H db \<longrightarrow> corpus_ok H (env db))"

lemma register_live_ok:
  assumes "digest64 H" and "corpus_ok H db" and "commits_ok H env" and "register_live H now new_id env db dl = Inr (d, db')"
  shows "corpus_ok H db' \<and> live_document_for db' (dl_object_key dl) = Some d"
proof -
  have unique: "live_document_for x k = Some e" if x: "corpus_ok H x" and e: "e \<in> set (documents x)" "live e" "dc_object_key e = k" for x k e
  proof -
    have "live_document_for x k \<noteq> None" using e by (auto simp: live_document_None)
    then obtain f where f: "live_document_for x k = Some f" by blast
    have "inj_on dc_object_key (set (filter live (documents x)))"
      using x by (auto simp: corpus_ok_def tables_ok_def distinct_map)
    then have "f = e" using live_document_Some [OF f] e by (auto simp: inj_on_def)
    with f show ?thesis by simp
  qed
  show ?thesis
  proof (cases "live_document_for db (dl_object_key dl)")
    case (Some f)
    then show ?thesis using assms(2,4) by (simp add: register_live_def)
  next
    case None
    have env: "corpus_ok H (env db)" using assms(2,3) by (simp add: commits_ok_def)
    show ?thesis
    proof (cases "register_document H now new_id (env db) dl")
      case (Inr r)
      then have "register_document H now new_id (env db) dl = Inr (d, db')" using assms(4) None by (simp add: register_live_def)
      from register_document_ok [OF assms(1) env this] unique [of db' d] show ?thesis by auto
    next
      case (Inl e)
      then have "live_document_for (env db) (dl_object_key dl) = Some d" "db' = env db"
        using assms(4) None by (auto simp: register_live_def split: if_splits option.splits)
      with env show ?thesis by simp
    qed
  qed
qed

subsection \<open>Membership\<close>

definition dossiers_holding :: "corpus \<Rightarrow> string \<Rightarrow> string set" where
  "dossiers_holding db doc = {ds. (ds, doc) \<in> set (memberships db)}"

lemma dossiers_of_set: "set (dossiers_of db doc) = dossiers_holding db doc"
  by (force simp: dossiers_of_def dossiers_holding_def)

text \<open>The tables a membership change leaves alone.\<close>

definition same_but_members :: "corpus \<Rightarrow> corpus \<Rightarrow> bool" where
  "same_but_members db db' = (\<exists>a ms. db' = db\<lparr>audit := a, memberships := ms\<rparr>)"

lemma same_but_members_refl [simp]: "same_but_members db db"
  unfolding same_but_members_def by (intro exI [of _ "audit db"] exI [of _ "memberships db"]) simp

lemma same_but_members_trans: "same_but_members a b \<Longrightarrow> same_but_members b c \<Longrightarrow> same_but_members a c"
  by (force simp: same_but_members_def)

lemma same_but_members_update [simp]: "same_but_members db (db\<lparr>memberships := ms, audit := a\<rparr>)"
  unfolding same_but_members_def by (intro exI [of _ a] exI [of _ ms]) simp

lemma same_but_members_simps:
  assumes "same_but_members db db'"
  shows "documents db' = documents db" "dossier_rows db' = dossier_rows db" "texts db' = texts db" "pseudonyms db' = pseudonyms db"
    "grant_rows db' = grant_rows db" "pii_mappings db' = pii_mappings db" "document_by_id db' i = document_by_id db i"
  using assms by (auto simp: same_but_members_def document_by_id_def)

lemma with_state_Inr: "with_state db doc f = Inr x \<longleftrightarrow> (\<exists>s. doc_state db doc = Inr (Some s) \<and> f s = Inr x)"
  by (auto simp: with_state_def result_simps split: option.splits)

lemma membership_changed_ok:
  assumes "digest64 H" and "corpus_ok H db" and "membership_changed H now db doc ds n stp actor reason batch = Inr db'"
  shows "corpus_ok H db' \<and> (\<exists>a. db' = db\<lparr>audit := a\<rparr>) \<and> (\<forall>d. doc_state db' d = doc_state db d)
    \<and> (\<exists>r. (\<forall>d. doc_trail (audit db') d = doc_trail (audit db) d @ (if d = doc then [r] else [])) \<and> ar_step r = stp)"
proof -
  obtain s where "doc_state db doc = Inr (Some s)" "note_event H now db doc s stp
       (JObj ([(''dossier'', JStr n), (''dossier_id'', JStr ds), (''actor'', JStr actor)]
          @ opt_field ''reason'' reason @ opt_field ''batch'' batch)) = Inr db'"
    using assms(3) by (auto simp: membership_changed_def with_state_Inr)
  from note_event_ok [OF assms(1,2) this] show ?thesis by blast
qed

lemma tables_ok_add:
  assumes "tables_ok db" and "(ds, doc) \<notin> set (memberships db)" and "dossier_by_id db ds \<noteq> None" and "document_by_id db doc \<noteq> None"
  shows "tables_ok (db\<lparr>memberships := memberships db @ [(ds, doc)]\<rparr>)"
proof -
  have "ds \<in> ds_id ` set (dossier_rows db)" "doc \<in> dc_id ` set (documents db)"
    using assms(3,4) by (auto simp: dossier_by_id_def document_by_id_def find_None_iff)
  with assms(1,2) show ?thesis by (auto simp: tables_ok_def)
qed

lemma tables_ok_remove: "tables_ok db \<Longrightarrow> tables_ok (db\<lparr>memberships := filter P (memberships db)\<rparr>)"
  by (auto simp: tables_ok_def)

lemma audit_member_update: "doc_state (db\<lparr>memberships := ms\<rparr>) d = doc_state db d" "corpus_ok H (db\<lparr>memberships := ms\<rparr>) \<longleftrightarrow> trail_ok H (audit db) \<and> tables_ok (db\<lparr>memberships := ms\<rparr>)"
  by (simp_all add: doc_state_def corpus_ok_def)

lemma add_member_ok:
  assumes "digest64 H" and "corpus_ok H db" and "add_member H now (\<lambda>x. x) db ds doc actor batch = Inr (b, db')"
  shows "corpus_ok H db' \<and> same_but_members db db' \<and> (\<forall>d. doc_state db' d = doc_state db d)
    \<and> (case document_by_id db doc of None \<Rightarrow> True | Some x \<Rightarrow> live x)
    \<and> set (memberships db') = set (memberships db) \<union> (if b then {(ds, doc)} else {})
    \<and> (if b then (ds, doc) \<notin> set (memberships db)
        else (ds, doc) \<in> set (memberships db) \<or> dossier_by_id db ds = None \<or> document_by_id db doc = None)"
proof -
  have l: "case document_by_id db doc of None \<Rightarrow> True | Some x \<Rightarrow> live x"
    using assms(3) by (auto simp: add_member_def live_def split: option.splits if_splits)
  show ?thesis
  proof (cases "(ds, doc) \<in> set (memberships db) \<or> dossier_by_id db ds = None \<or> document_by_id db doc = None")
    case True
    then have "b = False" "db' = db" using assms(3) by (auto simp: add_member_def split: if_splits)
    with True l assms(2) show ?thesis by simp
  next
    case False
    let ?db = "db\<lparr>memberships := memberships db @ [(ds, doc)]\<rparr>"
    have m: "membership_changed H now ?db doc ds (name_of ?db ds) ADDED actor None batch = Inr db'" "b = True"
      using assms(3) False by (auto simp: add_member_def Let_def result_simps split: if_splits)
    have t: "tables_ok ?db" using tables_ok_add [of db ds doc] False assms(2) by (simp add: corpus_ok_def)
    then have ok: "corpus_ok H ?db" using assms(2) by (simp add: corpus_ok_def)
    from membership_changed_ok [OF assms(1) ok m(1)] m(2) False l
    show ?thesis by (auto simp: audit_member_update)
  qed
qed

lemma remove_member_ok:
  assumes "digest64 H" and "corpus_ok H db" and "remove_member H now db ds doc actor reason batch = Inr (b, db')"
  shows "corpus_ok H db' \<and> same_but_members db db' \<and> (\<forall>d. doc_state db' d = doc_state db d)
    \<and> set (memberships db') = set (memberships db) - {(ds, doc)} \<and> b = ((ds, doc) \<in> set (memberships db)) \<and> strip reason \<noteq> []"
proof (cases "(ds, doc) \<in> set (memberships db)")
  case False
  then have "b = False" "db' = db" "strip reason \<noteq> []" using assms(3) by (auto simp: remove_member_def split: if_splits)
  with False assms(2) show ?thesis by simp
next
  case True
  let ?db = "db\<lparr>memberships := filter (\<lambda>p. p \<noteq> (ds, doc)) (memberships db)\<rparr>"
  have m: "membership_changed H now ?db doc ds (name_of db ds) REMOVED actor (Some reason) batch = Inr db'" "b = True" "strip reason \<noteq> []"
    using assms(3) True by (auto simp: remove_member_def Let_def result_simps split: if_splits)
  have ok: "corpus_ok H ?db" using assms(2) tables_ok_remove by (simp add: corpus_ok_def)
  from membership_changed_ok [OF assms(1) ok m(1)] m(2,3) True
  show ?thesis by (auto simp: audit_member_update)
qed

subsection \<open>A register to try things on\<close>

text \<open>
  A digest under which records can be appended: it shifts a \<open>1\<close> into the digest it is given first, so the
  \<open>k\<close>-th record of a trail has the digest of \<open>k\<close> ones.
\<close>

definition tick_hash :: "string \<Rightarrow> string" where
  "tick_hash s = take 64 (CHR ''1'' # s @ replicate 64 (CHR ''0''))"

definition mark :: "nat \<Rightarrow> string" where
  "mark k = replicate k (CHR ''1'') @ replicate (64 - k) (CHR ''0'')"

lemma digest_tick [simp]: "digest64 tick_hash"
  by (auto simp: digest64_def tick_hash_def)

lemma tick_mark: "k < 64 \<Longrightarrow> tick_hash (mark k @ c) = mark (Suc k)"
proof -
  assume k: "k < 64"
  then obtain n where n: "64 - k = Suc n" by (cases "64 - k") auto
  then have "63 - k = n" "63 = k + n" using k by auto
  then show ?thesis by (simp add: tick_hash_def mark_def n replicate_append_same [symmetric])
qed

lemma mark_inj: "mark j = mark k \<Longrightarrow> j \<le> 64 \<Longrightarrow> k \<le> 64 \<Longrightarrow> j = k"
proof -
  have "length (filter (\<lambda>c. c = CHR ''1'') (mark i)) = i" for i by (simp add: mark_def)
  then show "mark j = mark k \<Longrightarrow> j \<le> 64 \<Longrightarrow> k \<le> 64 \<Longrightarrow> j = k" by metis
qed

lemma mark_0: "mark 0 = GENESIS_HASH"
  by (simp add: mark_def GENESIS_HASH_def)

definition counted :: "nat \<Rightarrow> audit_db \<Rightarrow> bool" where
  "counted k a = (trail_wf a \<and> tail_hash a = mark k
     \<and> (\<forall>x\<in>set (trail a). \<exists>j<k. ar_prev_hash x = mark j \<and> ar_hash x = mark (Suc j)))"

lemma counted_append:
  assumes "counted k a" and "k < 64" and "aware now"
  shows "\<exists>a' r. append_record tick_hash now a doc frm to stp payload None = Inr (a', r) \<and> counted (Suc k) a'"
proof -
  obtain c where c: "canonical_content doc (opt_str frm) (JStr to) now (JStr stp) (or_empty payload) = Inr c"
    using assms(3) by (auto simp: canonical_content_def ts_text_def aware_def)
  define r where "r = \<lparr>ar_seq = next_seq a, ar_document_id = doc, ar_from_state = frm, ar_to_state = to, ar_ts = now, ar_step = stp,
     ar_payload = or_empty payload, ar_prev_hash = mark k, ar_hash = mark (Suc k)\<rparr>"
  have tl: "tail_hash a = mark k" using assms(1) unfolding counted_def by (elim conjE)
  have h: "compute_hash tick_hash (mark k) c = mark (Suc k)"
    using assms(2) by (simp add: compute_hash_def tick_mark)
  have "ar_prev_hash x \<noteq> mark k \<and> ar_hash x \<noteq> mark (Suc k)" if "x \<in> set (trail a)" for x
  proof -
    have "\<forall>x\<in>set (trail a). \<exists>j<k. ar_prev_hash x = mark j \<and> ar_hash x = mark (Suc j)" using assms(1) unfolding counted_def by (elim conjE)
    from bspec [OF this that] obtain j where "j < k" "ar_prev_hash x = mark j" "ar_hash x = mark (Suc j)" by blast
    moreover have "mark j \<noteq> mark k" "mark (Suc j) \<noteq> mark (Suc k)"
      using mark_inj [of j k] mark_inj [of "Suc j" "Suc k"] assms(2) \<open>j < k\<close> by linarith+
    ultimately show ?thesis by simp
  qed
  then have i: "insert_record a r = Inr (a\<lparr>trail := trail a @ [r], next_seq := next_seq a + 1\<rparr>)"
    by (auto simp: insert_record_def r_def)
  have app: "append_record tick_hash now a doc frm to stp payload None = Inr (a\<lparr>trail := trail a @ [r], next_seq := next_seq a + 1\<rparr>, r)"
    using i by (simp add: append_record_def c h tl Let_def r_def)
  have wf: "trail_wf a" using assms(1) by (simp add: counted_def)
  note w = append_wf [OF wf app]
  have "tail_hash (a\<lparr>trail := trail a @ [r], next_seq := next_seq a + 1\<rparr>) = mark (Suc k)"
    unfolding tail_hash_def by_seq_wf [OF w(1)] by (simp add: r_def last_opt_def) (simp add: mark_def)
  then have "counted (Suc k) (a\<lparr>trail := trail a @ [r], next_seq := next_seq a + 1\<rparr>)"
    using w(1) assms(1) by (auto simp: counted_def r_def less_Suc_eq)
  with app show ?thesis by blast
qed

definition empty_corpus :: corpus where
  "empty_corpus = \<lparr>documents = [], audit = \<lparr>trail = [], next_seq = 1\<rparr>, texts = [], pseudonyms = [], pii_mappings = [], dossier_rows = [],
     memberships = [], topic_rows = [], grant_rows = [], key_log = \<lparr>key_events = [], key_next_seq = 1\<rparr>, box_maps = [], summary_rows = []\<rparr>"

lemma empty_corpus_ok [simp]: "corpus_ok H empty_corpus"
  by (simp add: corpus_ok_def empty_corpus_def trail_ok_def trail_wf_def verify_chain_def by_seq_def doc_trail_def tables_ok_def)

lemma empty_counted [simp]: "counted 0 (audit empty_corpus)"
  by (simp add: counted_def empty_corpus_def trail_wf_def tail_hash_def by_seq_def last_opt_def mark_0)

lemma transition_possible:
  assumes "counted k (audit db)" and "k < 64" and "aware now" and "doc_state db doc = Inr s" and "is_allowed s t" and "s \<noteq> Some t"
  shows "\<exists>r a. transition tick_hash now db doc t stp payload = Inr (Some r, db\<lparr>audit := a\<rparr>) \<and> counted (Suc k) a"
  using counted_append [OF assms(1-3), of doc "map_option state_value s" "state_value t" stp payload] assms(4-6)
  by (auto simp: transition_def)

lemma membership_possible:
  assumes "counted k (audit db)" and "k < 64" and "aware now" and "doc_state db doc = Inr (Some s)"
  shows "\<exists>a. membership_changed tick_hash now db doc ds n stp actor reason batch = Inr (db\<lparr>audit := a\<rparr>) \<and> counted (Suc k) a
    \<and> (\<forall>d. current_state a d = doc_state db d)"
proof -
  obtain a r where a: "append_record tick_hash now (audit db) doc (Some (state_value s)) (state_value s) stp
      (Some (JObj ([(''dossier'', JStr n), (''dossier_id'', JStr ds), (''actor'', JStr actor)]
          @ opt_field ''reason'' reason @ opt_field ''batch'' batch))) None = Inr (a, r)" "counted (Suc k) a"
    using counted_append [OF assms(1-3)] by blast
  have wf: "trail_wf (audit db)" using assms(1) by (simp add: counted_def)
  have "current_state a d = doc_state db d" for d
    using current_state_append [OF wf a(1), of d] assms(4) by (simp add: doc_state_def)
  with a assms(4) show ?thesis by (auto simp: membership_changed_def with_state_def note_event_def)
qed

lemma register_possible:
  assumes "counted k (audit db)" and "k < 64" and "aware now" and "corpus_ok H db" and "document_by_id db i = None"
    and "live_document_for db (dl_object_key dl) = None" and "doc_state db i = Inr None"
  shows "\<exists>d db'. register_document tick_hash now i db dl = Inr (d, db') \<and> counted (Suc k) (audit db')
    \<and> (\<exists>a. db' = db\<lparr>documents := documents db @ [d], audit := a\<rparr>) \<and> dc_id d = i \<and> dc_object_key d = dl_object_key dl \<and> live d"
proof -
  define d where "d = \<lparr>dc_id = i, dc_object_key = dl_object_key dl, dc_filename = dl_filename dl, dc_superseded_by = None,
            dc_source_url = dl_source_url dl, dc_fetched_at = dl_fetched_at dl, dc_source_sha256 = dl_source_sha256 dl\<rparr>"
  let ?db = "db\<lparr>documents := documents db @ [d]\<rparr>"
  have ins: "insert_document db d = Inr ?db" using assms(5,6) by (simp add: insert_document_def d_def)
  have pre: "counted k (audit ?db)" "doc_state ?db i = Inr None" "is_allowed None REGISTERED"
    using assms(1,7) by (simp_all add: doc_state_def is_allowed_def ALLOWED_def EDGES_def)
  from transition_possible [OF pre(1) assms(2,3) pre(2,3), of "''register''"
      "Some (register_payload (dl_domain dl) (dl_source_url dl) (dl_fetched_at dl) (dl_source_sha256 dl))"]
  obtain r a where "transition tick_hash now ?db i REGISTERED ''register''
      (Some (register_payload (dl_domain dl) (dl_source_url dl) (dl_fetched_at dl) (dl_source_sha256 dl))) = Inr (Some r, ?db\<lparr>audit := a\<rparr>)"
    "counted (Suc k) a" by auto
  then have "register_document tick_hash now i db dl = Inr (d, ?db\<lparr>audit := a\<rparr>)"
    by (simp add: register_document_def ins [unfolded d_def] d_def Let_def)
  with \<open>counted (Suc k) a\<close> show ?thesis
    by (intro exI [of _ d] exI [of _ "?db\<lparr>audit := a\<rparr>"]) (auto simp: d_def live_def)
qed

definition sample_delivery :: "string \<Rightarrow> delivery" where
  "sample_delivery key = \<lparr>dl_object_key = key, dl_domain = ''default'', dl_filename = None, dl_source_url = None, dl_fetched_at = None,
     dl_source_sha256 = None\<rparr>"

text \<open>Two documents, one of them in a dossier.\<close>

definition sample_corpus :: "corpus \<Rightarrow> bool" where
  "sample_corpus db = (corpus_ok tick_hash db \<and> counted 2 (audit db)
     \<and> map dc_id (documents db) = [''a'', ''b''] \<and> map dc_object_key (documents db) = [''documents/1'', ''documents/2'']
     \<and> list_all live (documents db) \<and> map ds_id (dossier_rows db) = [''s''] \<and> memberships db = [(''s'', ''a'')]
     \<and> doc_state db ''a'' = Inr (Some REGISTERED) \<and> doc_state db ''b'' = Inr (Some REGISTERED)
     \<and> texts db = [] \<and> summary_rows db = [] \<and> pseudonyms db = [] \<and> grant_rows db = [] \<and> pii_mappings db = []
     \<and> (\<forall>i. doc_state db i \<noteq> Inr (Some DELETED)))"

lemma sample_corpus_exists: "\<exists>db. sample_corpus db"
proof -
  let ?k1 = "sample_delivery ''documents/1''" and ?k2 = "sample_delivery ''documents/2''"
  have "doc_state empty_corpus i = Inr None" for i
    by (simp add: empty_corpus_def doc_state_def current_state_def by_seq_def last_opt_def)
  from register_possible [OF empty_counted _ sample_time_ok(2) empty_corpus_ok _ _ this, of "''a''" ?k1]
  obtain d1 db1 a1 where 1: "register_document tick_hash sample_time ''a'' empty_corpus ?k1 = Inr (d1, db1)" "counted 1 (audit db1)"
    "db1 = empty_corpus\<lparr>documents := [d1], audit := a1\<rparr>" "dc_id d1 = ''a''" "dc_object_key d1 = ''documents/1''" "live d1"
    by (auto simp: empty_corpus_def document_by_id_def live_document_for_def sample_delivery_def)
  note ok1 = register_document_ok [OF digest_tick empty_corpus_ok 1(1)]
  have c1: "corpus_ok tick_hash db1" using ok1 by blast
  have st1: "doc_state db1 i = (if i = ''a'' then Inr (Some REGISTERED) else Inr None)" for i
    using ok1 \<open>\<And>i. doc_state empty_corpus i = Inr None\<close> by simp
  have pre: "document_by_id db1 ''b'' = None" "live_document_for db1 (dl_object_key ?k2) = None" "1 < (64::nat)"
    using 1(3-6) by (simp_all add: document_by_id_def live_document_for_def sample_delivery_def)
  have none: "doc_state db1 ''b'' = Inr None" by (simp add: st1)
  from register_possible [OF 1(2) pre(3) sample_time_ok(2) c1 pre(1,2) none]
  obtain d2 db2 a2 where 2: "register_document tick_hash sample_time ''b'' db1 ?k2 = Inr (d2, db2)" "counted 2 (audit db2)"
    "db2 = db1\<lparr>documents := [d1, d2], audit := a2\<rparr>" "dc_id d2 = ''b''" "dc_object_key d2 = ''documents/2''" "live d2"
    using 1(3) by (auto simp: sample_delivery_def numeral_2_eq_2)
  note ok2 = register_document_ok [OF digest_tick c1 2(1)]
  let ?db = "db2\<lparr>dossier_rows := [\<lparr>ds_id = ''s'', ds_name = ''case'', ds_created_at = sample_time\<rparr>], memberships := [(''s'', ''a'')]\<rparr>"
  have t: "trail_ok tick_hash (audit db2)" using ok2 by (auto simp: corpus_ok_def)
  moreover have "pseudonyms db1 = []" by (simp add: 1(3) empty_corpus_def)
  ultimately have "corpus_ok tick_hash ?db"
    using 1(4-6) 2(3-6) by (simp add: corpus_ok_def tables_ok_def)
  moreover have "doc_state ?db i = doc_state db2 i" for i by (simp add: doc_state_def)
  ultimately have "sample_corpus ?db"
    using 1(3-6) 2(2-6) ok2 st1 by (simp add: sample_corpus_def empty_corpus_def)
  then show ?thesis by blast
qed

end
