(* ===== verification/World.thy ===== *)
theory World
  imports Corpus SearchIndex Originals
begin

text \<open>
  Everything an operation of the pipeline touches: the tables, the store of originals, the search index.
  The store and the index are other machines: a call to one can fail before it has done anything
  (\<open>Refused\<close>) or after (\<open>Lost\<close>, the answer did not arrive). \<open>w_faults\<close> says what happens to the calls to come;
  an empty list is a world without failures. A transaction that fails takes its changes of the tables back, and
  nothing else; the key provider of the service (\<open>w_keys\<close>) commits on its own, and \<open>w_drawn\<close> counts the nonces drawn.
\<close>

datatype fault = Fine | Refused error | Lost error

record world =
  w_db :: corpus
  w_store :: store
  w_index :: index
  w_keys :: durable
  w_drawn :: nat
  w_faults :: "fault list"

definition external :: "(world, 'a) act \<Rightarrow> (world, 'a) act" where
  "external f w = (case w_faults w of
     [] \<Rightarrow> f w
   | x # fs \<Rightarrow> (let w = w\<lparr>w_faults := fs\<rparr>
       in case x of
            Fine \<Rightarrow> f w
          | Refused e \<Rightarrow> (Inl e, w)
          | Lost e \<Rightarrow> (case f w of (Inl e', w') \<Rightarrow> (Inl e', w') | (Inr _, w') \<Rightarrow> (Inl e, w'))))"

definition on_db :: "(corpus \<Rightarrow> ('a \<times> corpus) result) \<Rightarrow> (world, 'a) act" where
  "on_db f w = (case f (w_db w) of Inl e \<Rightarrow> (Inl e, w) | Inr (x, db) \<Rightarrow> (Inr x, w\<lparr>w_db := db\<rparr>))"

definition on_index :: "(index \<Rightarrow> 'a \<times> index) \<Rightarrow> (world, 'a) act" where
  "on_index f = external (\<lambda>w. case f (w_index w) of (x, ix) \<Rightarrow> (Inr x, w\<lparr>w_index := ix\<rparr>))"

definition on_store :: "(store \<Rightarrow> ('a \<times> store) result) \<Rightarrow> (world, 'a) act" where
  "on_store f = external (\<lambda>w. case f (w_store w) of Inl e \<Rightarrow> (Inl e, w) | Inr (x, st) \<Rightarrow> (Inr x, w\<lparr>w_store := st\<rparr>))"

definition roll_back :: "world \<Rightarrow> world \<Rightarrow> world" where
  "roll_back before now = now\<lparr>w_db := w_db before,
     w_store := (case (w_store before, w_store now) of
         (Sealing b, Sealing a) \<Rightarrow> Sealing (a\<lparr>og_rows := og_rows b\<rparr>) | _ \<Rightarrow> w_store now)\<rparr>"

definition transaction :: "(world, 'a) act \<Rightarrow> (world, 'a) act" where
  "transaction m w = (case m w of (Inl e, w') \<Rightarrow> (Inl e, roll_back w w') | (Inr x, w') \<Rightarrow> (Inr x, w'))"

text \<open>The bytes of the originals, sealed or not.\<close>

definition store_objects :: "store \<Rightarrow> objects" where
  "store_objects st = (case st of Plain ob \<Rightarrow> ob | Sealing og \<Rightarrow> og_objects og)"

definition with_objects :: "store \<Rightarrow> objects \<Rightarrow> store" where
  "with_objects st ob = (case st of Plain _ \<Rightarrow> Plain ob | Sealing og \<Rightarrow> Sealing (og\<lparr>og_objects := ob\<rparr>))"

definition store_has :: "world \<Rightarrow> string \<Rightarrow> bool" where
  "store_has w key = object_exists (store_objects (w_store w)) key"

definition store_delete :: "string \<Rightarrow> (world, bool) act" where
  "store_delete key = on_store (\<lambda>st. let (ob, was) = object_delete (store_objects st) key in Inr (was, with_objects st ob))"

definition store_exists :: "string \<Rightarrow> (world, bool) act" where
  "store_exists key = on_store (\<lambda>st. Inr (object_exists (store_objects st) key, st))"

subsection \<open>What a step can have done\<close>

lemma transaction_simps:
  "m w = (Inl e, w') \<Longrightarrow> transaction m w = (Inl e, roll_back w w')"
  "m w = (Inr x, w') \<Longrightarrow> transaction m w = (Inr x, w')"
  by (simp_all add: transaction_def)

lemma roll_back_simps [simp]:
  "w_db (roll_back w w') = w_db w" "w_index (roll_back w w') = w_index w'" "w_faults (roll_back w w') = w_faults w'"
  "store_has (roll_back w w') k = store_has w' k"
  by (simp_all add: roll_back_def store_has_def store_objects_def split: store.splits)

lemma roll_back_same [simp]: "roll_back w w = w"
  by (cases w) (auto simp: roll_back_def split: store.splits)

lemma on_db_eq:
  "on_db f w = (r, w') \<longleftrightarrow>
     (case f (w_db w) of Inl e \<Rightarrow> r = Inl e \<and> w' = w | Inr (x, db) \<Rightarrow> r = Inr x \<and> w' = w\<lparr>w_db := db\<rparr>)"
  by (auto simp: on_db_def split: sum.splits prod.splits)

lemma on_db_Inr [result_simps]: "on_db f w = (Inr x, w') \<longleftrightarrow> (\<exists>db. f (w_db w) = Inr (x, db) \<and> w' = w\<lparr>w_db := db\<rparr>)"
  by (auto simp: on_db_def split: sum.splits prod.splits)

lemma on_index_Inr:
  assumes "on_index f w = (Inr x, w')"
  obtains fs where "x = fst (f (w_index w))" and "w' = w\<lparr>w_faults := fs, w_index := snd (f (w_index w))\<rparr>"
proof -
  obtain y ix where f: "f (w_index w) = (y, ix)" by (cases "f (w_index w)")
  have "\<exists>fs. x = y \<and> w' = w\<lparr>w_faults := fs, w_index := ix\<rparr>"
  proof (cases "w_faults w")
    case Nil
    with assms f have "x = y" "w' = w\<lparr>w_index := ix\<rparr>" by (auto simp: on_index_def external_def)
    moreover have "w\<lparr>w_index := ix\<rparr> = w\<lparr>w_faults := [], w_index := ix\<rparr>" using Nil by simp
    ultimately show ?thesis by blast
  next
    case (Cons a fs)
    with assms f show ?thesis
      by (intro exI [of _ fs]) (auto simp: on_index_def external_def Let_def split: fault.splits sum.splits prod.splits)
  qed
  with f that show ?thesis by auto
qed

lemma on_index_any:
  assumes "on_index f w = (r, w')"
  shows "w_db w' = w_db w \<and> w_store w' = w_store w \<and> (w_index w' = w_index w \<or> w_index w' = snd (f (w_index w)))"
  using assms
  by (auto simp: on_index_def external_def Let_def split: list.splits fault.splits sum.splits prod.splits)

lemma on_store_any:
  assumes "on_store f w = (r, w')"
  shows "w_db w' = w_db w \<and> w_index w' = w_index w \<and> (w_store w' = w_store w \<or> (\<exists>x. f (w_store w) = Inr (x, w_store w')))"
  using assms
  by (auto simp: on_store_def external_def Let_def split: list.splits fault.splits sum.splits prod.splits)

lemma on_store_Inr:
  assumes "on_store f w = (Inr x, w')"
  obtains fs st where "f (w_store w) = Inr (x, st)" and "w' = w\<lparr>w_faults := fs, w_store := st\<rparr>"
proof -
  have "\<exists>fs st. f (w_store w) = Inr (x, st) \<and> w' = w\<lparr>w_faults := fs, w_store := st\<rparr>"
  proof (cases "w_faults w")
    case Nil
    with assms obtain st where "f (w_store w) = Inr (x, st)" "w' = w\<lparr>w_store := st\<rparr>"
      by (auto simp: on_store_def external_def split: sum.splits prod.splits)
    moreover have "w\<lparr>w_store := st\<rparr> = w\<lparr>w_faults := [], w_store := st\<rparr>" using Nil by simp
    ultimately show ?thesis by blast
  next
    case (Cons a fs)
    with assms show ?thesis
      by (intro exI [of _ fs]) (auto simp: on_store_def external_def Let_def split: fault.splits sum.splits prod.splits)
  qed
  with that show ?thesis by blast
qed

lemma store_objects_with [simp]: "store_objects (with_objects st ob) = ob"
  by (simp add: store_objects_def with_objects_def split: store.splits)

lemma object_delete_exists [simp]: "object_exists (fst (object_delete ob key)) k = (k \<noteq> key \<and> object_exists ob k)"
  by (simp add: object_delete_def object_exists_def)

lemma store_delete_any:
  assumes "store_delete key w = (r, w')"
  shows "w_db w' = w_db w \<and> w_index w' = w_index w \<and> (\<forall>k. store_has w' k \<longrightarrow> store_has w k)
    \<and> (\<forall>k. k \<noteq> key \<longrightarrow> store_has w' k = store_has w k) \<and> (case r of Inl _ \<Rightarrow> True | Inr b \<Rightarrow> \<not> store_has w' key)"
proof -
  have a: "w_db w' = w_db w \<and> w_index w' = w_index w"
    "w_store w' = w_store w \<or> w_store w' = with_objects (w_store w) (fst (object_delete (store_objects (w_store w)) key))"
    using on_store_any [OF assms [unfolded store_delete_def]] by (auto simp: case_prod_beta)
  have "\<not> store_has w' key" if r: "r = Inr b" for b
    using assms unfolding r store_delete_def
    by (elim on_store_Inr) (auto simp: case_prod_beta store_has_def)
  with a show ?thesis by (cases r) (auto simp: store_has_def)
qed

lemma store_exists_any:
  assumes "store_exists key w = (r, w')"
  shows "w_db w' = w_db w \<and> w_index w' = w_index w \<and> w_store w' = w_store w \<and> store_has w' = store_has w"
  using on_store_any [OF assms [unfolded store_exists_def]] by (auto simp: store_has_def fun_eq_iff)

lemma index_delete_simps [simp]:
  "index_exists (snd (index_delete ix i)) k = (k \<noteq> i \<and> index_exists ix k)" "fst (index_delete ix i) = index_exists ix i"
  by (simp_all add: index_delete_def index_exists_def)

end
