(* ===== verification/Supersession.thy ===== *)
theory Supersession
  imports World "HOL-Library.Product_Lexorder"
begin

text \<open>
  \<open>supersession.py\<close> and \<open>dedupe.py\<close>: retiring a copy in favour of the document that survives, and the tool that
  retires every copy. The index goes first, outside the transaction. A dictionary of counts is a record.
\<close>

record outcome =
  oc_superseded :: bool
  oc_moved :: nat
  oc_removed :: nat
  oc_index_entry :: bool

definition supersede_checks :: "corpus \<Rightarrow> string \<Rightarrow> string \<Rightarrow> string option \<Rightarrow> bool result" where
  "supersede_checks db copy_id survivor_id as_object =
     (case (document_by_id db copy_id, document_by_id db survivor_id) of
        (Some copy, Some survivor) \<Rightarrow>
          if dc_id copy = dc_id survivor then Inl (SupersessionError ''itself'')
          else if (case as_object of Some k \<Rightarrow> if k = [] then dc_object_key copy else k | None \<Rightarrow> dc_object_key copy)
                  \<noteq> dc_object_key survivor then Inl (SupersessionError ''object'')
          else if dc_superseded_by survivor \<noteq> None then Inl (SupersessionError ''survivor'')
          else if dc_superseded_by copy \<noteq> None then
            (if dc_superseded_by copy = Some (dc_id survivor) then Inr False else Inl (SupersessionError ''another''))
          else Inr True
      | _ \<Rightarrow> Inl (SupersessionError ''unknown''))"

fun move_members ::
    "(string \<Rightarrow> string) \<Rightarrow> datetime \<Rightarrow> string \<Rightarrow> string \<Rightarrow> string \<Rightarrow> string option \<Rightarrow> string list \<Rightarrow> nat \<times> nat \<Rightarrow> corpus
      \<Rightarrow> ((nat \<times> nat) \<times> corpus) result" where
  "move_members H now copy survivor actor batch [] n db = Inr (n, db)"
| "move_members H now copy survivor actor batch (ds # dss) (moved, removed) db =
     rbind (add_member H now (\<lambda>x. x) db ds survivor actor batch) (\<lambda>(a, db).
     rbind (remove_member H now db ds copy actor (''superseded by '' @ survivor) batch) (\<lambda>(r, db).
     move_members H now copy survivor actor batch dss (moved + of_bool a, removed + of_bool r) db))"

definition retire ::
    "(string \<Rightarrow> string) \<Rightarrow> datetime \<Rightarrow> string \<Rightarrow> string \<Rightarrow> string \<Rightarrow> string option \<Rightarrow> string option \<Rightarrow> corpus \<Rightarrow> ((nat \<times> nat) \<times> corpus) result" where
  "retire H now copy survivor actor batch as_object db =
     rbind (move_members H now copy survivor actor batch (dossiers_of db copy) (0, 0) db) (\<lambda>(n, db).
     rbind (transition H now db copy SUPERSEDED ''supersede''
       (Some (JObj ([(''superseded_by'', JStr survivor), (''actor'', JStr actor), (''batch'', opt_str batch)]
          @ opt_field ''as_object'' as_object)))) (\<lambda>(r, db).
     case document_by_id db copy of
       None \<Rightarrow> Inl (SupersessionError ''unknown'')
     | Some d \<Rightarrow> rbind (update_document db (d\<lparr>dc_superseded_by := Some survivor\<rparr>)) (\<lambda>db. Inr (n, db))))"

definition supersede ::
    "(string \<Rightarrow> string) \<Rightarrow> datetime \<Rightarrow> bool \<Rightarrow> string \<Rightarrow> string \<Rightarrow> string \<Rightarrow> string option \<Rightarrow> string option \<Rightarrow> (world, outcome) act" where
  "supersede H now has_index copy_id survivor_id actor batch as_object =
     andthen (on_db (\<lambda>db. rbind (supersede_checks db copy_id survivor_id as_object) (\<lambda>b. Inr (b, db)))) (\<lambda>todo.
     if \<not> todo then ret \<lparr>oc_superseded = False, oc_moved = 0, oc_removed = 0, oc_index_entry = False\<rparr>
     else
       andthen (if has_index then on_index (\<lambda>ix. index_delete ix copy_id) else ret False) (\<lambda>index_entry.
       andthen (on_db (retire H now copy_id survivor_id actor batch as_object)) (\<lambda>(moved, removed).
       ret \<lparr>oc_superseded = True, oc_moved = moved, oc_removed = removed, oc_index_entry = index_entry\<rparr>)))"

subsection \<open>Retiring every copy\<close>

definition first_register :: "corpus \<Rightarrow> string \<Rightarrow> nat option" where
  "first_register db doc = (case records_of db doc [''register''] of [] \<Rightarrow> None | r # _ \<Rightarrow> Some (ar_seq r))"

text \<open>\<open>ORDER BY object_key, seq NULLS LAST, id\<close>\<close>

definition plan_key :: "corpus \<Rightarrow> document \<Rightarrow> string \<times> (bool \<times> nat) \<times> string" where
  "plan_key db d = (dc_object_key d,
     (case first_register db (dc_id d) of None \<Rightarrow> (True, 0) | Some n \<Rightarrow> (False, n)), dc_id d)"

definition add_to_group :: "(string, string list) dict \<Rightarrow> document \<Rightarrow> (string, string list) dict" where
  "add_to_group groups d =
     dict_set (dc_object_key d) ((case dict_get groups (dc_object_key d) of None \<Rightarrow> [] | Some ids \<Rightarrow> ids) @ [dc_id d]) groups"

definition dedupe_plan :: "corpus \<Rightarrow> (string \<times> string \<times> string list) list" where
  "dedupe_plan db =
     (let live_rows = sort_key (plan_key db) (filter (\<lambda>d. dc_superseded_by d = None) (documents db));
          groups = foldl add_to_group [] live_rows
      in map (\<lambda>(k, ids). (k, hd ids, tl ids)) (filter (\<lambda>(k, ids). 1 < length ids) groups))"

record found =
  fd_objects :: nat
  fd_copies :: nat
  fd_memberships :: nat

definition dedupe_counts :: "corpus \<Rightarrow> (string \<times> string \<times> string list) list \<Rightarrow> found" where
  "dedupe_counts db groups =
     (let copies = concat (map (\<lambda>(_, _, cs). cs) groups)
      in \<lparr>fd_objects = length groups, fd_copies = length copies,
          fd_memberships = length (filter (\<lambda>(_, d). d \<in> set copies) (memberships db))\<rparr>)"

record expected =
  ex_copies :: "nat option"
  ex_memberships :: "nat option"
  ex_index_entries :: "nat option"

definition as_expected :: "expected \<Rightarrow> found \<Rightarrow> bool" where
  "as_expected ex fd = ((case ex_copies ex of None \<Rightarrow> True | Some n \<Rightarrow> n = fd_copies fd)
     \<and> (case ex_memberships ex of None \<Rightarrow> True | Some n \<Rightarrow> n = fd_memberships fd))"

fun supersede_all ::
    "(string \<Rightarrow> string) \<Rightarrow> datetime \<Rightarrow> string \<Rightarrow> string option \<Rightarrow> string list \<Rightarrow> (world, outcome list) act" where
  "supersede_all H now survivor batch [] = ret []"
| "supersede_all H now survivor batch (c # cs) =
     andthen (supersede H now True c survivor ''dedupe'' batch None) (\<lambda>x.
     andthen (supersede_all H now survivor batch cs) (\<lambda>xs. ret (x # xs)))"

record dedupe_done =
  dn_superseded :: nat
  dn_moved :: nat
  dn_removed :: nat
  dn_index_entries :: nat

definition add_done :: "dedupe_done \<Rightarrow> outcome list \<Rightarrow> dedupe_done" where
  "add_done d os = \<lparr>dn_superseded = dn_superseded d + length (filter oc_superseded os),
     dn_moved = dn_moved d + sum_list (map oc_moved os), dn_removed = dn_removed d + sum_list (map oc_removed os),
     dn_index_entries = dn_index_entries d + length (filter oc_index_entry os)\<rparr>"

fun dedupe_groups ::
    "(string \<Rightarrow> string) \<Rightarrow> datetime \<Rightarrow> string option \<Rightarrow> (string \<times> string \<times> string list) list \<Rightarrow> dedupe_done \<Rightarrow> (world, dedupe_done) act" where
  "dedupe_groups H now batch [] d = ret d"
| "dedupe_groups H now batch ((key, survivor, copies) # groups) d =
     andthen (transaction (supersede_all H now survivor batch copies)) (\<lambda>outcomes.
     andthen (if sum_list (map oc_moved outcomes) \<noteq> 0
              then (\<lambda>w. on_index (\<lambda>ix. set_dossiers ix survivor (dossiers_of (w_db w) survivor)) w) else ret False) (\<lambda>_.
     dedupe_groups H now batch groups (add_done d outcomes)))"

datatype dedupe_report = Refused_report found | Dry_run found | Applied found string dedupe_done bool

definition dedupe_run :: "(string \<Rightarrow> string) \<Rightarrow> datetime \<Rightarrow> string \<Rightarrow> bool \<Rightarrow> expected \<Rightarrow> (world, dedupe_report) act" where
  "dedupe_run H now batch apply_it ex =
     andthen (reading (\<lambda>w. (dedupe_plan (w_db w), dedupe_counts (w_db w) (dedupe_plan (w_db w))))) (\<lambda>(groups, fd).
     if \<not> as_expected ex fd then ret (Refused_report fd)
     else if \<not> apply_it then ret (Dry_run fd)
     else andthen (dedupe_groups H now (Some batch) groups \<lparr>dn_superseded = 0, dn_moved = 0, dn_removed = 0, dn_index_entries = 0\<rparr>) (\<lambda>d.
       ret (Applied fd batch d
         (case ex_index_entries ex of None \<Rightarrow> True | Some n \<Rightarrow> n = dn_index_entries d))))"

definition dedupe_exit :: "dedupe_report \<Rightarrow> int" where
  "dedupe_exit r = (case r of Refused_report _ \<Rightarrow> 1 | Dry_run _ \<Rightarrow> 0 | Applied _ _ _ same \<Rightarrow> if same then 0 else 1)"

subsection \<open>What retiring does\<close>

lemma same_holding:
  "set ms = set (memberships db) - {(ds, doc)} \<Longrightarrow> {x. (x, d) \<in> set ms} = dossiers_holding db d - (if d = doc then {ds} else {})"
  by (auto simp: dossiers_holding_def)

lemma move_members_ok:
  assumes "digest64 H" and "corpus_ok H db" and "copy \<noteq> survivor" and "document_by_id db survivor \<noteq> None"
    and "set dss \<subseteq> ds_id ` set (dossier_rows db)" and "move_members H now copy survivor actor batch dss n db = Inr (n', db')"
  shows "corpus_ok H db' \<and> same_but_members db db' \<and> (\<forall>d. doc_state db' d = doc_state db d)
    \<and> set (memberships db') = (set (memberships db) \<union> {(ds, survivor) | ds. ds \<in> set dss}) - {(ds, copy) | ds. ds \<in> set dss}"
  using assms(2,4-)
proof (induction dss arbitrary: db n)
  case (Cons ds dss)
  obtain moved removed where n: "n = (moved, removed)" by (cases n)
  obtain a db1 r db2 where s: "add_member H now (\<lambda>x. x) db ds survivor actor batch = Inr (a, db1)"
      "remove_member H now db1 ds copy actor (''superseded by '' @ survivor) batch = Inr (r, db2)"
      "move_members H now copy survivor actor batch dss (moved + of_bool a, removed + of_bool r) db2 = Inr (n', db')"
    using Cons.prems(4) by (auto simp: n result_simps)
  note add = add_member_ok [OF assms(1) Cons.prems(1) s(1)]
  then have ok1: "corpus_ok H db1" by blast
  note rem = remove_member_ok [OF assms(1) ok1 s(2)]
  have same: "same_but_members db db2" using add rem same_but_members_trans by blast
  note [simp] = same_but_members_simps [OF same]
  have ok2: "corpus_ok H db2" using rem by blast
  have pre: "document_by_id db2 survivor \<noteq> None" "set dss \<subseteq> ds_id ` set (dossier_rows db2)" using Cons.prems(2,3) by simp_all
  note ih = Cons.IH [OF ok2 pre s(3)]
  have "dossier_by_id db ds \<noteq> None" using Cons.prems(3) by (auto simp: dossier_by_id_def find_None_iff)
  then have m1: "set (memberships db1) = set (memberships db) \<union> {(ds, survivor)}" using add Cons.prems(2) by auto
  have "set (memberships db2) = (set (memberships db) \<union> {(ds, survivor)}) - {(ds, copy)}" using rem m1 by simp
  with ih have "set (memberships db') = (set (memberships db) \<union> {(x, survivor) | x. x \<in> set (ds # dss)}) - {(x, copy) | x. x \<in> set (ds # dss)}"
    using assms(3) by auto
  moreover have "same_but_members db db'" using ih same same_but_members_trans by blast
  ultimately show ?case using ih add rem by simp
qed simp

lemma update_document_ok:
  assumes "corpus_ok H db" and "document_by_id db (dc_id d) = Some d0" and "update_document db d = Inr db'"
  shows "corpus_ok H db' \<and> db' = db\<lparr>documents := map (\<lambda>x. if dc_id x = dc_id d then d else x) (documents db)\<rparr>
    \<and> (\<forall>i. document_by_id db' i = (if i = dc_id d then Some d else document_by_id db i))"
proof -
  have d0: "d0 \<in> set (documents db)" "dc_id d0 = dc_id d" using document_by_id_Some [OF assms(2)] by simp_all
  let ?f = "\<lambda>x. if dc_id x = dc_id d then d else x"
  have db': "db' = db\<lparr>documents := map ?f (documents db)\<rparr>"
    and u: "live d \<Longrightarrow> \<not> (\<exists>x\<in>set (documents db). dc_id x \<noteq> dc_id d \<and> dc_object_key x = dc_object_key d \<and> live x)"
    using assms(3) by (auto simp: update_document_def Let_def live_def list_ex_iff split: if_splits)
  have ids: "map dc_id (map ?f (documents db)) = map dc_id (documents db)" by simp
  have lk: "distinct (map dc_object_key (filter live (map ?f xs)))"
    if "distinct (map dc_object_key (filter live xs))" "distinct (map dc_id xs)" "set xs \<subseteq> set (documents db)" for xs
    using that
  proof (induction xs)
    case (Cons x xs)
    then have ih: "distinct (map dc_object_key (filter live (map ?f xs)))" by (auto split: if_splits)
    show ?case
    proof (cases "dc_id x = dc_id d")
      case True
      then have new: "dc_id d \<notin> dc_id ` set xs" using Cons.prems(2) by simp
      then have "map ?f xs = xs" by (intro map_idI) (auto simp: image_iff)
      moreover have "live d \<Longrightarrow> dc_object_key d \<notin> dc_object_key ` set (filter live xs)"
        using u Cons.prems(3) new by (auto simp: image_iff) (metis subsetD)
      ultimately show ?thesis using True ih by auto
    next
      case False
      have "live x \<Longrightarrow> dc_object_key x \<notin> dc_object_key ` set (filter live (map ?f xs))"
        using u Cons.prems False by (fastforce split: if_splits)
      with False ih show ?thesis by auto
    qed
  qed simp
  define docs where "docs = map ?f (documents db)"
  have i: "map dc_id docs = map dc_id (documents db)" unfolding docs_def by (rule ids)
  then have i': "dc_id ` set docs = dc_id ` set (documents db)" by (metis set_map)
  have "tables_ok db" using assms(1) by (simp add: corpus_ok_def)
  then have "tables_ok (db\<lparr>documents := docs\<rparr>)" using lk [of "documents db", folded docs_def]
    by (simp add: tables_ok_def i i')
  then have "tables_ok db'" unfolding db' docs_def .
  moreover have "document_by_id db' i = (if i = dc_id d then Some d else document_by_id db i)" for i
  proof -
    have "find (\<lambda>y. dc_id y = i) (map ?f xs)
        = (if i = dc_id d then (if i \<in> dc_id ` set xs then Some d else None) else find (\<lambda>y. dc_id y = i) xs)" for xs
      by (induction xs) auto
    moreover have "dc_id d \<in> dc_id ` set (documents db)" using d0 by (metis imageI)
    ultimately show ?thesis by (simp add: document_by_id_def db')
  qed
  ultimately show ?thesis using assms(1) db' by (simp add: corpus_ok_def)
qed


lemma retire_ok:
  assumes "digest64 H" and "corpus_ok H db" and "copy \<noteq> survivor" and "document_by_id db survivor \<noteq> None"
    and "retire H now copy survivor actor batch as_object db = Inr (n, db')"
  shows "corpus_ok H db' \<and> doc_state db' copy = Inr (Some SUPERSEDED) \<and> (\<forall>d. d \<noteq> copy \<longrightarrow> doc_state db' d = doc_state db d)
    \<and> (\<forall>i. document_by_id db' i = (if i = copy then map_option (\<lambda>c. c\<lparr>dc_superseded_by := Some survivor\<rparr>) (document_by_id db i)
         else document_by_id db i))
    \<and> dossiers_holding db' copy = {} \<and> dossiers_holding db' survivor = dossiers_holding db survivor \<union> dossiers_holding db copy
    \<and> (\<forall>d. d \<noteq> copy \<longrightarrow> d \<noteq> survivor \<longrightarrow> dossiers_holding db' d = dossiers_holding db d)
    \<and> (\<exists>ds a ms. db' = db\<lparr>documents := ds, audit := a, memberships := ms\<rparr>)"
proof -
  obtain db1 r db2 d where s: "move_members H now copy survivor actor batch (dossiers_of db copy) (0, 0) db = Inr (n, db1)"
      "transition H now db1 copy SUPERSEDED ''supersede''
       (Some (JObj ([(''superseded_by'', JStr survivor), (''actor'', JStr actor), (''batch'', opt_str batch)]
          @ opt_field ''as_object'' as_object))) = Inr (r, db2)"
      "document_by_id db2 copy = Some d" "update_document db2 (d\<lparr>dc_superseded_by := Some survivor\<rparr>) = Inr db'"
    using assms(5) by (auto simp: retire_def result_simps split: option.splits)
  have t: "tables_ok db" using assms(2) by (simp add: corpus_ok_def)
  have dss: "set (dossiers_of db copy) \<subseteq> ds_id ` set (dossier_rows db)"
    using t by (force simp: dossiers_of_def tables_ok_def)
  note m = move_members_ok [OF assms(1,2,3,4) dss s(1)]
  then have ok1: "corpus_ok H db1" and same: "same_but_members db db1" by blast+
  note tr = transition_ok [OF assms(1) ok1 s(2)]
  then obtain a where a: "db2 = db1\<lparr>audit := a\<rparr>" by blast
  have ok2: "corpus_ok H db2" using tr by blast
  have id: "dc_id d = copy" using document_by_id_Some [OF s(3)] by simp
  have "document_by_id db2 (dc_id (d\<lparr>dc_superseded_by := Some survivor\<rparr>)) = Some d" using s(3) id by simp
  note u = update_document_ok [OF ok2 this s(4)]
  have by_id: "document_by_id db2 i = document_by_id db i" for i
    using same_but_members_simps(7) [OF same, of i] by (simp add: a document_by_id_def)
  have st: "doc_state db' i = doc_state db2 i" for i using u by (simp add: doc_state_def)
  have mem: "memberships db' = memberships db1" using u a by simp
  have h: "dossiers_holding db' i = (dossiers_holding db i \<union> (if i = survivor then dossiers_holding db copy else {}))
      - (if i = copy then dossiers_holding db copy else {})" for i
    using m assms(3) unfolding dossiers_holding_def mem by (auto simp: dossiers_of_set dossiers_holding_def)
  from same obtain a' ms where "db1 = db\<lparr>audit := a', memberships := ms\<rparr>" by (auto simp: same_but_members_def)
  then have shape: "\<exists>ds a ms. db' = db\<lparr>documents := ds, audit := a, memberships := ms\<rparr>"
    using u a by (intro exI [of _ "documents db'"] exI [of _ a] exI [of _ ms]) simp
  have "document_by_id db' i = (if i = copy then map_option (\<lambda>c. c\<lparr>dc_superseded_by := Some survivor\<rparr>) (document_by_id db i)
         else document_by_id db i)" for i
    using u [THEN conjunct2, THEN conjunct2] s(3) id by (simp add: by_id)
  with u tr m st h shape assms(3) show ?thesis by auto
qed

lemma supersede_checks_True:
  assumes "supersede_checks db copy survivor as_object = Inr True"
  shows "copy \<noteq> survivor \<and> document_by_id db copy \<noteq> None \<and> document_by_id db survivor \<noteq> None"
  using assms document_by_id_Some [of db] by (auto simp: supersede_checks_def split: option.splits if_splits)

lemma supersede_cases:
  assumes "digest64 H" and "corpus_ok H (w_db w)" and "supersede H now has_index copy survivor actor batch as_object w = (r, w')"
  shows "w_store w' = w_store w
    \<and> (w_index w' = w_index w \<or> w_index w' = snd (index_delete (w_index w) copy))
    \<and> (case r of Inl e \<Rightarrow> w_db w' = w_db w
       | Inr out \<Rightarrow> if oc_superseded out
           then (has_index \<longrightarrow> w_index w' = snd (index_delete (w_index w) copy) \<and> oc_index_entry out = index_exists (w_index w) copy)
             \<and> supersede_checks (w_db w) copy survivor as_object = Inr True
             \<and> retire H now copy survivor actor batch as_object (w_db w) = Inr ((oc_moved out, oc_removed out), w_db w')
           else w' = w \<and> supersede_checks (w_db w) copy survivor as_object = Inr False)"
proof (cases "supersede_checks (w_db w) copy survivor as_object")
  case (Inl e)
  with assms(3) show ?thesis by (auto simp: supersede_def andthen_def on_db_def)
next
  case (Inr todo)
  show ?thesis
  proof (cases todo)
    case False
    with Inr assms(3) show ?thesis by (auto simp: supersede_def andthen_def on_db_def)
  next
    case True
    let ?del = "if has_index then on_index (\<lambda>ix. index_delete ix copy) else ret False"
    obtain rd w1 where d: "?del w = (rd, w1)" by (cases "?del w")
    have d': "w_db w1 = w_db w" "w_store w1 = w_store w"
        "w_index w1 = w_index w \<or> w_index w1 = snd (index_delete (w_index w) copy)"
      using d on_index_any [of "\<lambda>ix. index_delete ix copy" w rd w1] by (auto split: if_splits)
    have eq: "supersede H now has_index copy survivor actor batch as_object w = andthen ?del (\<lambda>index_entry.
       andthen (on_db (retire H now copy survivor actor batch as_object)) (\<lambda>(moved, removed).
       ret \<lparr>oc_superseded = True, oc_moved = moved, oc_removed = removed, oc_index_entry = index_entry\<rparr>)) w"
      using Inr True by (simp add: supersede_def andthen_def on_db_def)
    show ?thesis
    proof (cases rd)
      case (Inl e)
      with assms(3) d d' show ?thesis by (auto simp: eq andthen_eval(2) [of ?del])
    next
      case (Inr entry)
      have i: "has_index \<longrightarrow> entry = index_exists (w_index w) copy \<and> w_index w1 = snd (index_delete (w_index w) copy)"
        using d unfolding Inr by (auto elim!: on_index_Inr)
      have "(r, w') = andthen (on_db (retire H now copy survivor actor batch as_object)) (\<lambda>(moved, removed).
         ret \<lparr>oc_superseded = True, oc_moved = moved, oc_removed = removed, oc_index_entry = entry\<rparr>) w1"
        using assms(3) d Inr by (simp add: eq andthen_eval(1) [of ?del])
      with d' i \<open>supersede_checks (w_db w) copy survivor as_object = Inr todo\<close> True show ?thesis
        by (cases "retire H now copy survivor actor batch as_object (w_db w)") (auto simp: andthen_def on_db_def)
    qed
  qed
qed

text \<open>Retiring a copy loses nothing and leaves nothing searchable. Whatever fails, the tables stay sound, the store of
  originals is untouched and no entry of another document leaves the index. If the call raises, the tables are
  exactly as before; the copy may have left the index, never the other way round. If it retires the copy, the copy is
  out of the index, its state is superseded for good, it points at the survivor, it is in no dossier, the survivor is
  in every dossier that held either of them, and the state and the dossiers of every other document are the same.\<close>

theorem supersede_moves:
  assumes "digest64 H" and "corpus_ok H (w_db w)"
    and "transaction (supersede H now True copy survivor actor batch as_object) w = (r, w')"
  shows "corpus_ok H (w_db w') \<and> w_store w' = w_store w
    \<and> {i. index_exists (w_index w) i} - {copy} = {i. index_exists (w_index w') i} - {copy}
    \<and> (case r of
         Inl e \<Rightarrow> w_db w' = w_db w
       | Inr out \<Rightarrow> if oc_superseded out then
           \<not> index_exists (w_index w') copy \<and> doc_state (w_db w') copy = Inr (Some SUPERSEDED)
           \<and> map_option dc_superseded_by (document_by_id (w_db w') copy) = Some (Some survivor)
           \<and> dossiers_holding (w_db w') copy = {}
           \<and> dossiers_holding (w_db w') survivor = dossiers_holding (w_db w) survivor \<union> dossiers_holding (w_db w) copy
           \<and> {(d, s, D). d \<noteq> copy \<and> d \<noteq> survivor \<and> doc_state (w_db w) d = s \<and> dossiers_holding (w_db w) d = D}
             = {(d, s, D). d \<noteq> copy \<and> d \<noteq> survivor \<and> doc_state (w_db w') d = s \<and> dossiers_holding (w_db w') d = D}
         else w' = w)"
proof -
  obtain w1 where s: "supersede H now True copy survivor actor batch as_object w = (r, w1)" "w' = (if isl r then roll_back w w1 else w1)"
    using assms(3) by (cases "supersede H now True copy survivor actor batch as_object w") (auto simp: transaction_def split: sum.splits)
  note c = supersede_cases [OF assms(1,2) s(1)]
  have store: "w_store w' = w_store w" using c s(2) by (auto simp: roll_back_def split: store.splits)
  have ix: "w_index w' = w_index w1" using s(2) by simp
  have keep: "{i. index_exists (w_index w) i} - {copy} = {i. index_exists (w_index w') i} - {copy}"
    using c unfolding ix by auto
  show ?thesis
  proof (cases r)
    case (Inl e)
    then show ?thesis using c s(2) assms(2) store keep by simp
  next
    case (Inr out)
    show ?thesis
    proof (cases "oc_superseded out")
      case False
      then show ?thesis using c s(2) assms(2) store keep Inr by simp
    next
      case True
      then have ok: "supersede_checks (w_db w) copy survivor as_object = Inr True"
        and ret: "retire H now copy survivor actor batch as_object (w_db w) = Inr ((oc_moved out, oc_removed out), w_db w')"
        and gone: "w_index w' = snd (index_delete (w_index w) copy)"
        using c s(2) Inr by auto
      note pre = supersede_checks_True [OF ok]
      then have ne: "copy \<noteq> survivor" and sv: "document_by_id (w_db w) survivor \<noteq> None" by blast+
      note f = retire_ok [OF assms(1,2) ne sv ret]
      have "map_option dc_superseded_by (document_by_id (w_db w') copy) = Some (Some survivor)" using f pre by auto
      with f gone store keep True show ?thesis by (auto simp: Inr)
    qed
  qed
qed

lemma sample_supersede:
  assumes "sample_corpus db"
  shows "\<exists>db'. retire tick_hash sample_time ''a'' ''b'' ''me'' None (Some ''documents/2'') db = Inr ((1, 1), db')
    \<and> supersede_checks db ''a'' ''b'' (Some ''documents/2'') = Inr True"
proof -
  obtain da db0 where d: "documents db = [da, db0]" "dc_id da = ''a''" "dc_id db0 = ''b''" "dc_object_key da = ''documents/1''"
    "dc_object_key db0 = ''documents/2''" "live da" "live db0"
    using assms by (auto simp: sample_corpus_def)
  obtain s where s: "dossier_rows db = [s]" "ds_id s = ''s''" using assms by (auto simp: sample_corpus_def)
  have st: "doc_state db ''a'' = Inr (Some REGISTERED)" "doc_state db ''b'' = Inr (Some REGISTERED)" "counted 2 (audit db)"
    "memberships db = [(''s'', ''a'')]"
    using assms by (simp_all add: sample_corpus_def)
  have id: "document_by_id (db\<lparr>memberships := ms, audit := a\<rparr>) ''a'' = Some da" "document_by_id db ''a'' = Some da"
      "document_by_id (db\<lparr>memberships := ms, audit := a\<rparr>) ''b'' = Some db0" "document_by_id db ''b'' = Some db0" for ms a
    using d by (simp_all add: document_by_id_def)
  define db1 where "db1 = db\<lparr>memberships := [(''s'', ''a''), (''s'', ''b'')]\<rparr>"
  have "counted 2 (audit db1)" "2 < (64::nat)" "doc_state db1 ''b'' = Inr (Some REGISTERED)" using st by (simp_all add: db1_def doc_state_def)
  from membership_possible [OF this(1,2) sample_time_ok(2) this(3), of "''s''" "name_of db1 ''s''" ADDED "''me''" None None]
  obtain a1 where 1: "membership_changed tick_hash sample_time db1 ''b'' ''s'' (name_of db1 ''s'') ADDED ''me'' None None = Inr (db1\<lparr>audit := a1\<rparr>)"
    "counted 3 a1" "\<And>d. current_state a1 d = doc_state db1 d" by (auto simp: numeral_eq_Suc)
  have add: "add_member tick_hash sample_time (\<lambda>x. x) db ''s'' ''b'' ''me'' None = Inr (True, db1\<lparr>audit := a1\<rparr>)"
    using 1(1) d s st id by (simp add: add_member_def live_def dossier_by_id_def Let_def db1_def)
  define db2 where "db2 = db1\<lparr>audit := a1, memberships := [(''s'', ''b'')]\<rparr>"
  have "counted 3 (audit db2)" "3 < (64::nat)" "doc_state db2 ''a'' = Inr (Some REGISTERED)"
    using 1(2,3) st by (simp_all add: db2_def doc_state_def db1_def)
  from membership_possible [OF this(1,2) sample_time_ok(2) this(3), of "''s''" "name_of (db1\<lparr>audit := a1\<rparr>) ''s''" REMOVED "''me''"
      "Some (''superseded by '' @ ''b'')" None]
  obtain a2 where 2: "membership_changed tick_hash sample_time db2 ''a'' ''s'' (name_of (db1\<lparr>audit := a1\<rparr>) ''s'') REMOVED ''me''
      (Some (''superseded by '' @ ''b'')) None = Inr (db2\<lparr>audit := a2\<rparr>)"
    "counted 4 a2" "\<And>d. current_state a2 d = doc_state db2 d" by (auto simp: numeral_eq_Suc)
  have "strip (''superseded by '' @ ''b'') \<noteq> []" by code_simp
  then have rem: "remove_member tick_hash sample_time (db1\<lparr>audit := a1\<rparr>) ''s'' ''a'' ''me'' (''superseded by '' @ ''b'') None
      = Inr (True, db2\<lparr>audit := a2\<rparr>)"
    using 2(1) by (simp add: remove_member_def Let_def db2_def) (simp add: db1_def)
  have "counted 4 (audit (db2\<lparr>audit := a2\<rparr>))" "4 < (64::nat)" "doc_state (db2\<lparr>audit := a2\<rparr>) ''a'' = Inr (Some REGISTERED)"
      "is_allowed (Some REGISTERED) SUPERSEDED" "Some REGISTERED \<noteq> Some SUPERSEDED"
    using 2(2,3) 1(3) st by (simp_all add: doc_state_def db2_def db1_def)
  from transition_possible [OF this(1,2) sample_time_ok(2) this(3-5), of "''supersede''" "Some (JObj ([(''superseded_by'', JStr ''b''), (''actor'', JStr ''me''), (''batch'', opt_str None)]
          @ opt_field ''as_object'' (Some ''documents/2'')))"]
  obtain r a3 where tr: "transition tick_hash sample_time (db2\<lparr>audit := a2\<rparr>) ''a'' SUPERSEDED ''supersede'' (Some (JObj ([(''superseded_by'', JStr ''b''), (''actor'', JStr ''me''), (''batch'', opt_str None)]
          @ opt_field ''as_object'' (Some ''documents/2'')))) = Inr (r, db2\<lparr>audit := a3\<rparr>)" by auto
  have "dossiers_of db ''a'' = [''s'']" using st by (simp add: dossiers_of_def)
  then have mv: "move_members tick_hash sample_time ''a'' ''b'' ''me'' None (dossiers_of db ''a'') (0, 0) db = Inr ((1, 1), db2\<lparr>audit := a2\<rparr>)"
    using rem by (simp add: add)
  have upd: "\<exists>x. update_document (db2\<lparr>audit := a3\<rparr>) (da\<lparr>dc_superseded_by := Some ''b''\<rparr>) = Inr x" by (simp add: update_document_def Let_def)
  have "document_by_id (db2\<lparr>audit := a3\<rparr>) ''a'' = Some da" using d by (simp add: db2_def db1_def document_by_id_def)
  with mv tr upd have "\<exists>x. retire tick_hash sample_time ''a'' ''b'' ''me'' None (Some ''documents/2'') db = Inr ((1, 1), x)"
    by (auto simp: retire_def)
  moreover have "supersede_checks db ''a'' ''b'' (Some ''documents/2'') = Inr True"
    using d id by (simp add: supersede_checks_def live_def)
  ultimately show ?thesis by blast
qed

definition sample_index :: index where
  "sample_index = \<lparr>ix_docs = [(''a'', \<lparr>ie_text = ''t'', ie_key = ''documents/1'', ie_vector = None\<rparr>)], ix_dossiers = [(''a'', {''s''})],
     ix_topics = [], ix_passages = []\<rparr>"

definition sample_world :: "corpus \<Rightarrow> world" where
  "sample_world db = \<lparr>w_db = db, w_store = Plain \<lparr>ob_data = [], ob_modified = []\<rparr>, w_index = sample_index, w_keys = \<lparr>dp_vault = [], dp_cache = []\<rparr>,
     w_drawn = 0, w_faults = []\<rparr>"

lemma sample_world_same [simp]: "(sample_world db)\<lparr>w_db := db\<rparr> = sample_world db"
  by (simp add: sample_world_def)

lemma supersede_moves_witness:
  "\<exists>(w :: world) w' out. transaction (supersede tick_hash sample_time True ''a'' ''b'' ''me'' None (Some ''documents/2'')) w = (Inr out, w')
     \<and> index_exists (w_index w) ''a'' \<and> \<not> index_exists (w_index w') ''a'' \<and> doc_state (w_db w') ''a'' = Inr (Some SUPERSEDED)
     \<and> dossiers_holding (w_db w) ''a'' = {''s''} \<and> dossiers_holding (w_db w') ''b'' = {''s''}"
proof -
  obtain db where db: "sample_corpus db" using sample_corpus_exists by blast
  then have ok: "corpus_ok tick_hash (w_db (sample_world db))" and h: "dossiers_holding db ''a'' = {''s''}" "dossiers_holding db ''b'' = {}"
    by (auto simp: sample_corpus_def sample_world_def dossiers_holding_def)
  obtain db' where db': "retire tick_hash sample_time ''a'' ''b'' ''me'' None (Some ''documents/2'') db = Inr ((1, 1), db')"
    "supersede_checks db ''a'' ''b'' (Some ''documents/2'') = Inr True" using sample_supersede [OF db] by blast
  have "\<exists>w' out. supersede tick_hash sample_time True ''a'' ''b'' ''me'' None (Some ''documents/2'') (sample_world db) = (Inr out, w') \<and> oc_superseded out"
    using db' by (simp add: supersede_def andthen_def on_db_def on_index_def external_def sample_world_def case_prod_beta)
  then obtain w' out where run: "transaction (supersede tick_hash sample_time True ''a'' ''b'' ''me'' None (Some ''documents/2'')) (sample_world db) = (Inr out, w')"
    and "oc_superseded out" by (auto simp: transaction_def)
  moreover have "w_db (sample_world db) = db" "index_exists (w_index (sample_world db)) ''a''"
    by (simp_all add: sample_world_def sample_index_def index_exists_def)
  ultimately show ?thesis using supersede_moves [OF digest_tick ok run] h
    by (intro exI [of _ "sample_world db"] exI [of _ w'] exI [of _ out]) simp
qed

end
