(* ===== verification/Deletion.thy ===== *)
theory Deletion
  imports Supersession
begin

text \<open>
  \<open>deletion.py\<close> and \<open>dossier_deletion.py\<close>: deleting the content of a document and deleting a dossier. The calls
  to the index and the store go first, each may fail; the rows follow in the caller's transaction.
\<close>

definition DELETED_KEY_PREFIX :: string where "DELETED_KEY_PREFIX = ''deleted/''"

definition released_object_key :: "string \<Rightarrow> string" where
  "released_object_key document_id = DELETED_KEY_PREFIX @ document_id"

record deletion_counts =
  dl_object :: nat
  dl_text :: nat
  dl_pseudonyms :: nat
  dl_mappings :: nat
  dl_index_entries :: nat
  dl_grants :: nat

definition counts_json :: "deletion_counts \<Rightarrow> (string \<times> json) list" where
  "counts_json c = [(''object'', JInt (int (dl_object c))), (''text'', JInt (int (dl_text c))),
     (''pseudonyms'', JInt (int (dl_pseudonyms c))), (''mappings'', JInt (int (dl_mappings c))),
     (''index_entries'', JInt (int (dl_index_entries c))), (''grants'', JInt (int (dl_grants c)))]"

fun any_not_deleted :: "corpus \<Rightarrow> string list \<Rightarrow> bool result" where
  "any_not_deleted db [] = Inr False"
| "any_not_deleted db (d # ds) = rbind (doc_state db d) (\<lambda>s. if s \<noteq> Some DELETED then Inr True else any_not_deleted db ds)"

definition object_claimed_elsewhere :: "corpus \<Rightarrow> string \<Rightarrow> string \<Rightarrow> bool result" where
  "object_claimed_elsewhere db doc key =
     any_not_deleted db (map dc_id (filter (\<lambda>d. dc_object_key d = key \<and> dc_id d \<noteq> doc) (documents db)))"

text \<open>The pseudonyms of a document, one by one; the mapping goes when no other document has the pseudonym.\<close>

definition orphaned :: "corpus \<Rightarrow> string \<Rightarrow> string \<Rightarrow> bool" where
  "orphaned db doc p = (\<not> list_ex (\<lambda>r. ps_pseudonym r = p \<and> ps_document_id r \<noteq> doc) (pseudonyms db))"

fun delete_pseudonyms :: "bool \<Rightarrow> string \<Rightarrow> string list \<Rightarrow> nat \<Rightarrow> corpus \<Rightarrow> nat \<times> corpus" where
  "delete_pseudonyms dry doc [] n db = (n, db)"
| "delete_pseudonyms dry doc (p # ps) n db =
     (let n = n + of_bool (orphaned db doc p \<and> mapping_get (pii_mappings db) p \<noteq> None);
          db = (if dry then db
            else db\<lparr>pseudonyms := filter (\<lambda>r. \<not> (ps_document_id r = doc \<and> ps_pseudonym r = p)) (pseudonyms db),
                    pii_mappings := (if orphaned db doc p then dict_pop p (pii_mappings db) else pii_mappings db)\<rparr>)
      in delete_pseudonyms dry doc ps n db)"

definition delete_content :: "bool \<Rightarrow> string \<Rightarrow> nat \<Rightarrow> nat \<Rightarrow> corpus \<Rightarrow> deletion_counts \<times> corpus" where
  "delete_content dry doc entries objs db =
     (let has_text = dict_get (texts db) doc \<noteq> None;
          db = (if dry then db else db\<lparr>texts := dict_pop doc (texts db)\<rparr>);
          ps = map ps_pseudonym (filter (\<lambda>r. ps_document_id r = doc) (pseudonyms db));
          (maps, db) = delete_pseudonyms dry doc ps 0 db;
          grants = length (filter (\<lambda>g. gr_document_id g = Some doc) (grant_rows db));
          db = (if dry then db else db\<lparr>grant_rows := filter (\<lambda>g. gr_document_id g \<noteq> Some doc) (grant_rows db)\<rparr>)
      in (\<lparr>dl_object = objs, dl_text = of_bool has_text, dl_pseudonyms = length ps, dl_mappings = maps,
           dl_index_entries = entries, dl_grants = grants\<rparr>, db))"

definition mark_deleted ::
    "(string \<Rightarrow> string) \<Rightarrow> datetime \<Rightarrow> document \<Rightarrow> bool \<Rightarrow> string \<Rightarrow> deletion_counts \<Rightarrow> corpus \<Rightarrow> corpus result" where
  "mark_deleted H now d already actor counts db =
     rbind (if already then Inr db else update_document db (d\<lparr>dc_object_key := released_object_key (dc_id d)\<rparr>)) (\<lambda>db.
     rbind (transition H now db (dc_id d) DELETED ''delete'' (Some (JObj ([(''actor'', JStr actor)] @ counts_json counts
         @ (if already then [] else [(''released_object_key'', JStr (dc_object_key d))]))))) (\<lambda>(r, db). Inr db))"

definition delete_rows ::
    "(string \<Rightarrow> string) \<Rightarrow> datetime \<Rightarrow> bool \<Rightarrow> document \<Rightarrow> bool \<Rightarrow> string \<Rightarrow> nat \<Rightarrow> nat \<Rightarrow> corpus \<Rightarrow> (deletion_counts \<times> corpus) result" where
  "delete_rows H now dry d already actor entries objs db =
     (case delete_content dry (dc_id d) entries objs db of (counts, db) \<Rightarrow>
        if dry then Inr (counts, db)
        else rbind (mark_deleted H now d already actor counts db) (\<lambda>db. Inr (counts, db)))"

text \<open>The entry of the index, then the bytes, and whether each was there to be removed.\<close>

definition drop_entry :: "bool \<Rightarrow> string \<Rightarrow> (world, bool) act" where
  "drop_entry dry doc =
     andthen (on_index (\<lambda>ix. (index_exists ix doc, ix))) (\<lambda>entry.
     andthen (if \<not> dry \<and> entry then on_index (\<lambda>ix. index_delete ix doc) else ret False) (\<lambda>_. ret entry))"

definition drop_object :: "bool \<Rightarrow> string \<Rightarrow> string \<Rightarrow> (world, bool) act" where
  "drop_object dry doc key =
     andthen (store_exists key) (\<lambda>present.
     andthen (if present then on_db (\<lambda>db. rbind (object_claimed_elsewhere db doc key) (\<lambda>b. Inr (\<not> b, db))) else ret False) (\<lambda>removable.
     andthen (if \<not> dry \<and> removable then store_delete key else ret False) (\<lambda>_. ret removable)))"

definition delete_document ::
    "(string \<Rightarrow> string) \<Rightarrow> datetime \<Rightarrow> string \<Rightarrow> string \<Rightarrow> bool \<Rightarrow> (world, deletion_counts) act" where
  "delete_document H now doc actor dry =
     andthen (on_db (\<lambda>db. case document_by_id db doc of
         None \<Rightarrow> Inl DeletionError
       | Some d \<Rightarrow> rbind (doc_state db doc) (\<lambda>s. Inr ((d, s = Some DELETED), db)))) (\<lambda>(d, already).
     andthen (drop_entry dry doc) (\<lambda>entry.
     andthen (drop_object dry doc (dc_object_key d)) (\<lambda>removable.
     on_db (delete_rows H now dry d already actor (of_bool entry) (of_bool removable)))))"

subsection \<open>Deleting a dossier\<close>

record dossier_report =
  dr_deleted :: "string list"
  dr_released :: "string list"
  dr_topics :: nat

definition member_elsewhere :: "corpus \<Rightarrow> string \<Rightarrow> string \<Rightarrow> bool" where
  "member_elsewhere db doc dossier_id = list_ex (\<lambda>(ds, d). d = doc \<and> ds \<noteq> dossier_id) (memberships db)"

fun delete_members ::
    "(string \<Rightarrow> string) \<Rightarrow> datetime \<Rightarrow> string \<Rightarrow> string \<Rightarrow> bool \<Rightarrow> string list \<Rightarrow> string list \<times> string list
      \<Rightarrow> (world, string list \<times> string list) act" where
  "delete_members H now dossier_id actor dry [] r = ret r"
| "delete_members H now dossier_id actor dry (doc # docs) (deleted, released) =
     andthen (reading (\<lambda>w. member_elsewhere (w_db w) doc dossier_id)) (\<lambda>elsewhere.
     if elsewhere then delete_members H now dossier_id actor dry docs (deleted, released @ [doc])
     else andthen (delete_document H now doc actor dry) (\<lambda>_.
       delete_members H now dossier_id actor dry docs (deleted @ [doc], released)))"

fun release_members ::
    "(string \<Rightarrow> string) \<Rightarrow> datetime \<Rightarrow> string \<Rightarrow> string \<Rightarrow> string list \<Rightarrow> string list \<Rightarrow> (world, unit) act" where
  "release_members H now dossier_id actor deleted [] = ret ()"
| "release_members H now dossier_id actor deleted (doc # docs) =
     andthen (on_db (\<lambda>db. Inr ((), db\<lparr>memberships := filter (\<lambda>p. p \<noteq> (dossier_id, doc)) (memberships db)\<rparr>))) (\<lambda>_.
     andthen (if doc \<notin> set deleted then (\<lambda>w. on_index (\<lambda>ix. set_dossiers ix doc (dossiers_of (w_db w) doc)) w) else ret False) (\<lambda>_.
     andthen (on_db (\<lambda>db. rbind (dossier_deleted H now db doc dossier_id actor (doc \<notin> set deleted)) (\<lambda>db. Inr ((), db)))) (\<lambda>_.
     release_members H now dossier_id actor deleted docs)))"

definition delete_dossier ::
    "(string \<Rightarrow> string) \<Rightarrow> datetime \<Rightarrow> string \<Rightarrow> string \<Rightarrow> bool \<Rightarrow> (world, dossier_report) act" where
  "delete_dossier H now dossier_id actor dry =
     andthen (on_db (\<lambda>db. if dossier_by_id db dossier_id = None then Inl DeletionError
        else Inr (map snd (filter (\<lambda>(ds, d). ds = dossier_id) (memberships db)), db))) (\<lambda>members.
     andthen (delete_members H now dossier_id actor dry members ([], [])) (\<lambda>(deleted, released).
     andthen (reading (\<lambda>w. length (filter (\<lambda>(t, ds). ds = dossier_id) (topic_rows (w_db w))))) (\<lambda>topics.
     if dry then ret \<lparr>dr_deleted = deleted, dr_released = released, dr_topics = topics\<rparr>
     else
       andthen (release_members H now dossier_id actor deleted members) (\<lambda>_.
       andthen (on_db (\<lambda>db. Inr ((), db\<lparr>topic_rows := filter (\<lambda>(t, ds). ds \<noteq> dossier_id) (topic_rows db),
                dossier_rows := filter (\<lambda>d. ds_id d \<noteq> dossier_id) (dossier_rows db)\<rparr>))) (\<lambda>_.
       ret \<lparr>dr_deleted = deleted, dr_released = released, dr_topics = topics\<rparr>)))))"


subsection \<open>What is left after a deletion\<close>

lemma orphaned_filter: "orphaned (db\<lparr>pseudonyms := filter (\<lambda>r. \<not> (ps_document_id r = doc \<and> P r)) (pseudonyms db), pii_mappings := m\<rparr>) doc q = orphaned db doc q"
  by (auto simp: orphaned_def list_ex_iff)

lemma delete_pseudonyms_spec:
  assumes "delete_pseudonyms False doc ps n db = (n', db')"
  shows "\<exists>m. db' = db\<lparr>pseudonyms := filter (\<lambda>r. \<not> (ps_document_id r = doc \<and> ps_pseudonym r \<in> set ps)) (pseudonyms db), pii_mappings := m\<rparr>
    \<and> (\<forall>q. dict_get m q = (if q \<in> set ps \<and> orphaned db doc q then None else dict_get (pii_mappings db) q))"
  using assms
proof (induction ps arbitrary: n db)
  case Nil
  then show ?case by (intro exI [of _ "pii_mappings db"]) simp
next
  case (Cons p ps)
  define db1 where "db1 = db\<lparr>pseudonyms := filter (\<lambda>r. \<not> (ps_document_id r = doc \<and> ps_pseudonym r = p)) (pseudonyms db),
      pii_mappings := (if orphaned db doc p then dict_pop p (pii_mappings db) else pii_mappings db)\<rparr>"
  have o: "orphaned db1 doc q = orphaned db doc q" for q unfolding db1_def by (rule orphaned_filter)
  have "\<exists>k. delete_pseudonyms False doc ps k db1 = (n', db')" using Cons.prems by (auto simp: db1_def Let_def)
  then obtain k where "delete_pseudonyms False doc ps k db1 = (n', db')" by blast
  from Cons.IH [OF this] obtain m where m: "db' = db1\<lparr>pseudonyms := filter (\<lambda>r. \<not> (ps_document_id r = doc \<and> ps_pseudonym r \<in> set ps)) (pseudonyms db1), pii_mappings := m\<rparr>"
    "\<And>q. dict_get m q = (if q \<in> set ps \<and> orphaned db1 doc q then None else dict_get (pii_mappings db1) q)" by blast
  have "filter (\<lambda>r. \<not> (ps_document_id r = doc \<and> ps_pseudonym r \<in> set ps)) (pseudonyms db1)
      = filter (\<lambda>r. \<not> (ps_document_id r = doc \<and> ps_pseudonym r \<in> set (p # ps))) (pseudonyms db)"
    by (auto simp: db1_def intro: filter_cong)
  then have "db' = db\<lparr>pseudonyms := filter (\<lambda>r. \<not> (ps_document_id r = doc \<and> ps_pseudonym r \<in> set (p # ps))) (pseudonyms db), pii_mappings := m\<rparr>"
    using m(1) by (simp add: db1_def)
  moreover have "dict_get m q = (if q \<in> set (p # ps) \<and> orphaned db doc q then None else dict_get (pii_mappings db) q)" for q
    unfolding m(2) o by (simp add: db1_def)
  ultimately show ?case by blast
qed

lemma delete_content_spec:
  assumes "delete_content False doc entries objs db = (c, db')"
  shows "\<exists>m. db' = db\<lparr>texts := dict_pop doc (texts db), pseudonyms := filter (\<lambda>r. ps_document_id r \<noteq> doc) (pseudonyms db), pii_mappings := m,
      grant_rows := filter (\<lambda>g. gr_document_id g \<noteq> Some doc) (grant_rows db)\<rparr>
    \<and> (\<forall>q. dict_get m q = (if q \<in> registered (pseudonyms db) doc \<and> orphaned db doc q then None else dict_get (pii_mappings db) q))"
proof -
  let ?ps = "map ps_pseudonym (filter (\<lambda>r. ps_document_id r = doc) (pseudonyms db))"
  obtain n db1 where p: "delete_pseudonyms False doc ?ps 0 (db\<lparr>texts := dict_pop doc (texts db)\<rparr>) = (n, db1)" by fastforce
  from delete_pseudonyms_spec [OF p] obtain m where m: "db1 = db\<lparr>texts := dict_pop doc (texts db),
       pseudonyms := filter (\<lambda>r. \<not> (ps_document_id r = doc \<and> ps_pseudonym r \<in> set ?ps)) (pseudonyms db), pii_mappings := m\<rparr>"
    "\<And>q. dict_get m q = (if q \<in> set ?ps \<and> orphaned db doc q then None else dict_get (pii_mappings db) q)"
    by (auto simp: orphaned_def)
  have "filter (\<lambda>r. \<not> (ps_document_id r = doc \<and> ps_pseudonym r \<in> set ?ps)) (pseudonyms db) = filter (\<lambda>r. ps_document_id r \<noteq> doc) (pseudonyms db)"
    by (rule filter_cong) auto
  with m(1) have "db1 = db\<lparr>texts := dict_pop doc (texts db), pseudonyms := filter (\<lambda>r. ps_document_id r \<noteq> doc) (pseudonyms db), pii_mappings := m\<rparr>"
    by simp
  moreover have "set ?ps = registered (pseudonyms db) doc" by (simp add: registered_def)
  ultimately show ?thesis using assms m(2) by (intro exI [of _ m]) (auto simp: delete_content_def Let_def p)
qed

text \<open>The trail of the document has one record more, unless it was deleted already; no other trail has changed.\<close>

definition on_trail :: "string \<Rightarrow> bool \<Rightarrow> json \<Rightarrow> audit_db \<Rightarrow> audit_db \<Rightarrow> bool" where
  "on_trail doc already payload a a' =
     (\<exists>xs. (\<forall>i. doc_trail a' i = doc_trail a i @ (if i = doc then xs else []))
        \<and> (if already then xs = [] else \<exists>x. xs = [x] \<and> ar_step x = ''delete'' \<and> ar_payload x = payload))"

lemma mark_deleted_ok:
  assumes "digest64 H" and "corpus_ok H db" and "document_by_id db (dc_id d) = Some d"
    and "mark_deleted H now d already actor counts db = Inr db'"
  shows "corpus_ok H db' \<and> (\<exists>ds a. db' = db\<lparr>documents := ds, audit := a\<rparr>)
    \<and> (\<forall>i. doc_state db' i = (if i = dc_id d then Inr (Some DELETED) else doc_state db i))
    \<and> (\<forall>i. document_by_id db' i = (if i = dc_id d \<and> \<not> already then Some (d\<lparr>dc_object_key := released_object_key (dc_id d)\<rparr>) else document_by_id db i))
    \<and> on_trail (dc_id d) (doc_state db (dc_id d) = Inr (Some DELETED)) (JObj ([(''actor'', JStr actor)] @ counts_json counts
         @ (if already then [] else [(''released_object_key'', JStr (dc_object_key d))]))) (audit db) (audit db')"
proof -
  obtain db1 r where s: "(if already then Inr db else update_document db (d\<lparr>dc_object_key := released_object_key (dc_id d)\<rparr>)) = Inr db1"
      "transition H now db1 (dc_id d) DELETED ''delete'' (Some (JObj ([(''actor'', JStr actor)] @ counts_json counts
         @ (if already then [] else [(''released_object_key'', JStr (dc_object_key d))])))) = Inr (r, db')"
    using assms(4) by (auto simp: mark_deleted_def rbind_eq_Inr)
  have u: "corpus_ok H db1 \<and> (\<exists>ds. db1 = db\<lparr>documents := ds\<rparr>)
      \<and> (\<forall>i. document_by_id db1 i = (if i = dc_id d \<and> \<not> already then Some (d\<lparr>dc_object_key := released_object_key (dc_id d)\<rparr>) else document_by_id db i))"
  proof (cases already)
    case True
    then show ?thesis using s(1) assms(2) by (auto intro: exI [of _ "documents db"])
  next
    case False
    have "document_by_id db (dc_id (d\<lparr>dc_object_key := released_object_key (dc_id d)\<rparr>)) = Some d" using assms(3) by simp
    from update_document_ok [OF assms(2) this, of db1] s(1) False show ?thesis by auto
  qed
  then obtain ds where db1: "db1 = db\<lparr>documents := ds\<rparr>" and ok1: "corpus_ok H db1" by blast
  note t = transition_ok [OF assms(1) ok1 s(2)]
  then obtain a where a: "db' = db1\<lparr>audit := a\<rparr>" by blast
  have "doc_state db1 i = doc_state db i" for i by (simp add: db1 doc_state_def)
  moreover have "document_by_id db' i = document_by_id db1 i" for i by (simp add: a document_by_id_def)
  moreover have "\<exists>ds a. db' = db\<lparr>documents := ds, audit := a\<rparr>" by (intro exI [of _ ds] exI [of _ a]) (simp add: a db1)
  moreover have "on_trail (dc_id d) (doc_state db (dc_id d) = Inr (Some DELETED)) (JObj ([(''actor'', JStr actor)] @ counts_json counts
         @ (if already then [] else [(''released_object_key'', JStr (dc_object_key d))]))) (audit db) (audit db')"
  proof (cases r)
    case None
    then show ?thesis using t by (simp add: on_trail_def db1 doc_state_def)
  next
    case (Some x)
    then have x: "\<exists>s. doc_state db1 (dc_id d) = Inr s \<and> is_allowed s DELETED" "\<forall>i. doc_trail (audit db') i = doc_trail (audit db1) i @ (if i = dc_id d then [x] else [])"
        "ar_step x = ''delete''" "ar_payload x = or_empty (Some (JObj ([(''actor'', JStr actor)] @ counts_json counts
         @ (if already then [] else [(''released_object_key'', JStr (dc_object_key d))]))))"
      using t by simp_all
    have n: "doc_state db (dc_id d) \<noteq> Inr (Some DELETED)"
    proof
      assume "doc_state db (dc_id d) = Inr (Some DELETED)"
      then have "is_allowed (Some DELETED) DELETED" using x(1) by (auto simp: db1 doc_state_def)
      then show False by code_simp
    qed
    show ?thesis unfolding on_trail_def
      by (intro exI [of _ "[x]"] conjI) (use x(2-4) n in \<open>simp_all add: or_empty_def db1\<close>)
  qed
  ultimately show ?thesis using t u by simp
qed

text \<open>What a finished deletion leaves of the tables.\<close>

definition content_gone :: "corpus \<Rightarrow> string \<Rightarrow> corpus \<Rightarrow> bool" where
  "content_gone db doc db' =
     (doc_state db' doc = Inr (Some DELETED) \<and> dict_get (texts db') doc = None \<and> registered (pseudonyms db') doc = {}
      \<and> filter (\<lambda>g. gr_document_id g = Some doc) (grant_rows db') = []
      \<and> (\<forall>q. mapping_get (pii_mappings db') q = (if q \<in> registered (pseudonyms db) doc \<and> orphaned db doc q then None
           else mapping_get (pii_mappings db) q)))"

definition others_kept :: "corpus \<Rightarrow> string \<Rightarrow> corpus \<Rightarrow> bool" where
  "others_kept db doc db' =
     (\<forall>i. i \<noteq> doc \<longrightarrow> doc_state db' i = doc_state db i \<and> dict_get (texts db') i = dict_get (texts db) i
       \<and> registered (pseudonyms db') i = registered (pseudonyms db) i \<and> document_by_id db' i = document_by_id db i
       \<and> filter (\<lambda>g. gr_document_id g = Some i) (grant_rows db') = filter (\<lambda>g. gr_document_id g = Some i) (grant_rows db))"

text \<open>The tables that a deletion writes: every other one is the one it was.\<close>

definition frame_of :: "corpus \<Rightarrow> string \<Rightarrow> corpus \<Rightarrow> bool" where
  "frame_of db doc db' = (\<exists>ds a m. db' = db\<lparr>texts := dict_pop doc (texts db), pseudonyms := filter (\<lambda>r. ps_document_id r \<noteq> doc) (pseudonyms db),
     pii_mappings := m, grant_rows := filter (\<lambda>g. gr_document_id g \<noteq> Some doc) (grant_rows db), documents := ds, audit := a\<rparr>)"

lemma delete_rows_ok:
  assumes "digest64 H" and "corpus_ok H db" and "document_by_id db (dc_id d) = Some d"
    and "delete_rows H now False d already actor entries objs db = Inr (c, db')"
  shows "corpus_ok H db' \<and> content_gone db (dc_id d) db' \<and> others_kept db (dc_id d) db'
    \<and> (\<forall>i. document_by_id db' i = (if i = dc_id d \<and> \<not> already then Some (d\<lparr>dc_object_key := released_object_key (dc_id d)\<rparr>) else document_by_id db i))
    \<and> memberships db' = memberships db \<and> dossier_rows db' = dossier_rows db \<and> topic_rows db' = topic_rows db
    \<and> summary_rows db' = summary_rows db \<and> box_maps db' = box_maps db \<and> frame_of db (dc_id d) db'
    \<and> on_trail (dc_id d) (doc_state db (dc_id d) = Inr (Some DELETED)) (JObj ([(''actor'', JStr actor)] @ counts_json c
         @ (if already then [] else [(''released_object_key'', JStr (dc_object_key d))]))) (audit db) (audit db')"
proof -
  obtain db1 where s: "delete_content False (dc_id d) entries objs db = (c, db1)" "mark_deleted H now d already actor c db1 = Inr db'"
    using assms(4) by (auto simp: delete_rows_def rbind_eq_Inr split: prod.splits)
  from delete_content_spec [OF s(1)] obtain m where m: "db1 = db\<lparr>texts := dict_pop (dc_id d) (texts db),
      pseudonyms := filter (\<lambda>r. ps_document_id r \<noteq> dc_id d) (pseudonyms db), pii_mappings := m,
      grant_rows := filter (\<lambda>g. gr_document_id g \<noteq> Some (dc_id d)) (grant_rows db)\<rparr>"
    "\<And>q. dict_get m q = (if q \<in> registered (pseudonyms db) (dc_id d) \<and> orphaned db (dc_id d) q then None else dict_get (pii_mappings db) q)" by blast
  have ok1: "corpus_ok H db1" using assms(2) by (simp add: m(1) corpus_ok_def tables_ok_def distinct_map_filter)
  have id1: "document_by_id db1 i = document_by_id db i" and st1: "doc_state db1 i = doc_state db i" for i
    by (simp_all add: m(1) document_by_id_def doc_state_def)
  note k = mark_deleted_ok [OF assms(1) ok1 assms(3) [folded id1] s(2)]
  then obtain ds a where db': "db' = db1\<lparr>documents := ds, audit := a\<rparr>" by blast
  have reg: "registered (filter (\<lambda>r. ps_document_id r \<noteq> dc_id d) (pseudonyms db)) i = (if i = dc_id d then {} else registered (pseudonyms db) i)" for i
    by (auto simp: registered_def)
  have gr: "filter (\<lambda>g. gr_document_id g = Some i) (filter (\<lambda>g. gr_document_id g \<noteq> Some (dc_id d)) (grant_rows db))
      = (if i = dc_id d then [] else filter (\<lambda>g. gr_document_id g = Some i) (grant_rows db))" for i
    by (auto simp: filter_empty_conv intro: filter_cong)
  have st: "doc_state db' i = (if i = dc_id d then Inr (Some DELETED) else doc_state db i)"
    and byid: "document_by_id db' i = (if i = dc_id d \<and> \<not> already then Some (d\<lparr>dc_object_key := released_object_key (dc_id d)\<rparr>) else document_by_id db i)" for i
    using k by (simp_all add: st1 id1)
  have tx: "texts db' = dict_pop (dc_id d) (texts db)" "pseudonyms db' = filter (\<lambda>r. ps_document_id r \<noteq> dc_id d) (pseudonyms db)"
    "pii_mappings db' = m" "grant_rows db' = filter (\<lambda>g. gr_document_id g \<noteq> Some (dc_id d)) (grant_rows db)"
    "memberships db' = memberships db" "dossier_rows db' = dossier_rows db" "topic_rows db' = topic_rows db"
    "summary_rows db' = summary_rows db" "box_maps db' = box_maps db" by (simp_all add: db' m(1))
  have "content_gone db (dc_id d) db'" using st m(2) by (simp add: content_gone_def tx reg gr mapping_get_def)
  moreover have "others_kept db (dc_id d) db'" by (auto simp: others_kept_def tx reg st byid intro: filter_cong)
  moreover have "frame_of db (dc_id d) db'" unfolding frame_of_def db' m(1) by (intro exI [of _ ds] exI [of _ a] exI [of _ m]) simp
  moreover have "audit db1 = audit db" by (simp add: m(1))
  ultimately show ?thesis using k byid tx st1 by metis
qed


subsection \<open>Deleting, with calls that fail\<close>

lemma drop_entry_any:
  assumes "drop_entry dry doc w = (r, w')"
  shows "w_db w' = w_db w \<and> w_store w' = w_store w
    \<and> (w_index w' = w_index w \<or> \<not> dry \<and> w_index w' = snd (index_delete (w_index w) doc))
    \<and> (case r of Inl _ \<Rightarrow> True | Inr b \<Rightarrow> b = index_exists (w_index w) doc \<and> (dry \<or> \<not> index_exists (w_index w') doc))"
  using assms unfolding drop_entry_def
proof (cases rule: andthen_cases)
  case (raised e)
  then show ?thesis using on_index_any [OF raised(1)] by simp
next
  case (went_on entry w1)
  then have 1: "w_db w1 = w_db w" "w_store w1 = w_store w" "w_index w1 = w_index w" "entry = index_exists (w_index w) doc"
    by (auto elim!: on_index_Inr)
  from went_on(2) show ?thesis
  proof (cases rule: andthen_cases)
    case (raised e)
    then have "on_index (\<lambda>ix. index_delete ix doc) w1 = (Inl e, w')" "\<not> dry" by (auto split: if_splits)
    with 1 raised(2) show ?thesis using on_index_any [of "\<lambda>ix. index_delete ix doc" w1 "Inl e" w'] by auto
  next
    case (went_on b w2)
    then have r: "r = Inr entry" "w2 = w'" by simp_all
    show ?thesis
    proof (cases "\<not> dry \<and> entry")
      case True
      then have "on_index (\<lambda>ix. index_delete ix doc) w1 = (Inr b, w')" using went_on(1) r(2) by simp
      then have "w_db w' = w_db w1" "w_store w' = w_store w1" "w_index w' = snd (index_delete (w_index w1) doc)"
        by (auto elim!: on_index_Inr)
      with 1 True r show ?thesis by simp
    next
      case False
      then show ?thesis using went_on(1) r 1 by auto
    qed
  qed
qed

lemma drop_object_any:
  assumes "drop_object dry doc key w = (r, w')"
  shows "w_db w' = w_db w \<and> w_index w' = w_index w \<and> (\<forall>k. k \<noteq> key \<longrightarrow> store_has w' k = store_has w k)
    \<and> (store_has w' key \<longrightarrow> store_has w key)
    \<and> (store_has w key \<longrightarrow> store_has w' key \<or> \<not> dry \<and> object_claimed_elsewhere (w_db w) doc key = Inr False)
    \<and> (case r of Inl _ \<Rightarrow> True | Inr b \<Rightarrow> b = (store_has w key \<and> object_claimed_elsewhere (w_db w) doc key = Inr False)
         \<and> (dry \<or> \<not> store_has w' key \<or> object_claimed_elsewhere (w_db w) doc key = Inr True))"
  using assms unfolding drop_object_def
proof (cases rule: andthen_cases)
  case (raised e)
  then show ?thesis using store_exists_any [OF raised(1)] by simp
next
  case (went_on present w1)
  then have 1: "w_db w1 = w_db w" "w_index w1 = w_index w" "w_store w1 = w_store w" "present = store_has w key"
    unfolding store_exists_def by (auto elim!: on_store_Inr simp: store_has_def)
  have has1: "store_has w1 k = store_has w k" for k by (simp add: store_has_def 1)
  from went_on(2) show ?thesis
  proof (cases rule: andthen_cases)
    case (raised e)
    then have "w' = w1" by (auto simp: on_db_def split: if_splits sum.splits prod.splits)
    with 1 raised(2) show ?thesis by (simp add: has1)
  next
    case (went_on removable w2)
    then have 2: "w2 = w1" "removable = (present \<and> object_claimed_elsewhere (w_db w) doc key = Inr False)"
        "present \<longrightarrow> (\<exists>b. object_claimed_elsewhere (w_db w) doc key = Inr b)"
      using 1 by (auto simp: on_db_def rbind_def split: if_splits sum.splits prod.splits)
    from went_on(2) show ?thesis
    proof (cases rule: andthen_cases)
      case (raised e)
      then have d: "store_delete key w2 = (Inl e, w')" "\<not> dry" "removable" by (auto split: if_splits)
      show ?thesis using store_delete_any [OF d(1)] d(2,3) 1 2 raised(2) by (auto simp: has1)
    next
      case (went_on b w3)
      then have r: "r = Inr removable" "w3 = w'" by simp_all
      show ?thesis
      proof (cases "\<not> dry \<and> removable")
        case True
        then have d: "store_delete key w2 = (Inr b, w')" using went_on(1) r(2) by simp
        show ?thesis using store_delete_any [OF d] True 1 2 r by (auto simp: has1)
      next
        case False
        then have "w' = w1" using went_on(1) r 2 by auto
        with False r 1 2 show ?thesis by (auto simp: has1)
      qed
    qed
  qed
qed

lemma drop_object_changed:
  assumes "drop_object dry doc key w = (r, w')" and "store_has w' k \<noteq> store_has w k"
  shows "k = key \<and> \<not> dry \<and> store_has w k \<and> object_claimed_elsewhere (w_db w) doc key = Inr False"
  using drop_object_any [OF assms(1)] assms(2) by (cases "k = key") auto

text \<open>What a deletion can have done to the index and to the stored bytes.\<close>

definition dropped :: "bool \<Rightarrow> string \<Rightarrow> world \<Rightarrow> world \<Rightarrow> bool" where
  "dropped dry doc w w' =
     ((w_index w' = w_index w \<or> \<not> dry \<and> w_index w' = snd (index_delete (w_index w) doc))
      \<and> (\<forall>k. store_has w' k \<noteq> store_has w k \<longrightarrow> \<not> dry \<and> store_has w k
           \<and> object_claimed_elsewhere (w_db w) doc k = Inr False
           \<and> map_option dc_object_key (document_by_id (w_db w) doc) = Some k))"

lemma delete_document_cases:
  assumes "delete_document H now doc actor dry w = (r, w')"
  shows "dropped dry doc w w' \<and> (case r of
      Inl e \<Rightarrow> w_db w' = w_db w
    | Inr c \<Rightarrow> (\<exists>d s. document_by_id (w_db w) doc = Some d \<and> doc_state (w_db w) doc = Inr s
        \<and> delete_rows H now dry d (s = Some DELETED) actor (of_bool (index_exists (w_index w) doc))
            (of_bool (store_has w (dc_object_key d) \<and> object_claimed_elsewhere (w_db w) doc (dc_object_key d) = Inr False)) (w_db w)
          = Inr (c, w_db w')
        \<and> (dry \<or> \<not> index_exists (w_index w') doc
             \<and> (\<not> store_has w' (dc_object_key d) \<or> object_claimed_elsewhere (w_db w) doc (dc_object_key d) = Inr True))))"
  using assms unfolding delete_document_def
proof (cases rule: andthen_cases)
  case (raised e)
  then have "w' = w" by (auto simp: on_db_eq split: sum.splits prod.splits)
  with raised(2) show ?thesis by (simp add: dropped_def)
next
  case (went_on x w1)
  then obtain d s where x: "x = (d, s = Some DELETED)" "w1 = w" "document_by_id (w_db w) doc = Some d" "doc_state (w_db w) doc = Inr s"
    by (auto simp: result_simps split: option.splits)
  let ?key = "dc_object_key d"
  have "andthen (drop_entry dry doc) (\<lambda>entry. andthen (drop_object dry doc ?key) (\<lambda>removable.
     on_db (delete_rows H now dry d (s = Some DELETED) actor (of_bool entry) (of_bool removable)))) w = (r, w')"
    using went_on(2) x by simp
  then show ?thesis
  proof (cases rule: andthen_cases)
    case (raised e)
    then show ?thesis using drop_entry_any [OF raised(1)] by (auto simp: dropped_def store_has_def)
  next
    case (went_on entry w2)
    note e = drop_entry_any [OF went_on(1)]
    then have has2: "store_has w2 k = store_has w k" for k by (simp add: store_has_def)
    from went_on(2) show ?thesis
    proof (cases rule: andthen_cases)
      case (raised err)
      note o = drop_object_any [OF raised(1)]
      have ch: "\<forall>k. store_has w' k \<noteq> store_has w k \<longrightarrow> \<not> dry \<and> store_has w k \<and> object_claimed_elsewhere (w_db w) doc k = Inr False
          \<and> map_option dc_object_key (document_by_id (w_db w) doc) = Some k"
      proof (intro allI impI)
        fix k assume "store_has w' k \<noteq> store_has w k"
        from drop_object_changed [OF raised(1), unfolded has2, OF this] e x(3)
        show "\<not> dry \<and> store_has w k \<and> object_claimed_elsewhere (w_db w) doc k = Inr False
          \<and> map_option dc_object_key (document_by_id (w_db w) doc) = Some k" by auto
      qed
      have ix: "w_index w' = w_index w \<or> \<not> dry \<and> w_index w' = snd (index_delete (w_index w) doc)" using o e by simp
      from ix ch have "dropped dry doc w w'" unfolding dropped_def by (rule conjI)
      then show ?thesis using o e raised(2) by simp
    next
      case (went_on removable w3)
      note o = drop_object_any [OF went_on(1)]
      have 3: "w_index w' = w_index w3" "w_store w' = w_store w3" "case r of Inl _ \<Rightarrow> w_db w' = w_db w3 | Inr c \<Rightarrow>
          delete_rows H now dry d (s = Some DELETED) actor (of_bool entry) (of_bool removable) (w_db w3) = Inr (c, w_db w')"
        using went_on(2) by (auto simp: on_db_def split: sum.splits prod.splits)
      then have has3: "store_has w' k = store_has w3 k" for k by (simp add: store_has_def)
      have ch: "\<forall>k. store_has w' k \<noteq> store_has w k \<longrightarrow> \<not> dry \<and> store_has w k \<and> object_claimed_elsewhere (w_db w) doc k = Inr False
          \<and> map_option dc_object_key (document_by_id (w_db w) doc) = Some k"
      proof (intro allI impI)
        fix k assume "store_has w' k \<noteq> store_has w k"
        from drop_object_changed [OF went_on(1), unfolded has2 has3 [symmetric], OF this] e x(3)
        show "\<not> dry \<and> store_has w k \<and> object_claimed_elsewhere (w_db w) doc k = Inr False
          \<and> map_option dc_object_key (document_by_id (w_db w) doc) = Some k" by auto
      qed
      have ix: "w_index w' = w_index w \<or> \<not> dry \<and> w_index w' = snd (index_delete (w_index w) doc)" using o e 3(1) by simp
      from ix ch have drop: "dropped dry doc w w'" unfolding dropped_def by (rule conjI)
      have db: "w_db w3 = w_db w" and rm: "removable = (store_has w ?key \<and> object_claimed_elsewhere (w_db w) doc ?key = Inr False)"
        and en: "entry = index_exists (w_index w) doc" "dry \<or> \<not> index_exists (w_index w') doc"
        and ob: "dry \<or> \<not> store_has w' ?key \<or> object_claimed_elsewhere (w_db w) doc ?key = Inr True"
        using o e 3(1) by (simp_all add: has2 has3)
      show ?thesis
      proof (cases r)
        case (Inl err)
        with drop 3(3) db show ?thesis by simp
      next
        case (Inr c)
        have "delete_rows H now dry d (s = Some DELETED) actor (of_bool (index_exists (w_index w) doc))
            (of_bool (store_has w ?key \<and> object_claimed_elsewhere (w_db w) doc ?key = Inr False)) (w_db w) = Inr (c, w_db w')"
          using 3(3) unfolding Inr db rm en(1) by simp
        with drop x(3,4) en(2) ob show ?thesis unfolding Inr by auto
      qed
    qed
  qed
qed


lemma retried: "transaction m w = (r, w') \<Longrightarrow> \<exists>w1. m w = (r, w1) \<and> w' = (case r of Inl _ \<Rightarrow> roll_back w w1 | Inr _ \<Rightarrow> w1)"
  by (auto simp: transaction_def split: prod.splits sum.splits)

lemma dropped_roll_back: "dropped dry doc w w1 \<Longrightarrow> dropped dry doc w (roll_back w w1)"
  unfolding dropped_def roll_back_simps .

lemma delete_transaction:
  assumes "digest64 H" and "corpus_ok H (w_db w)" and "transaction (delete_document H now doc actor False) w = (r, w')"
  shows "corpus_ok H (w_db w') \<and> dropped False doc w w' \<and> (case r of
      Inl e \<Rightarrow> w_db w' = w_db w
    | Inr c \<Rightarrow> content_gone (w_db w) doc (w_db w') \<and> others_kept (w_db w) doc (w_db w') \<and> \<not> index_exists (w_index w') doc
        \<and> memberships (w_db w') = memberships (w_db w) \<and> dossier_rows (w_db w') = dossier_rows (w_db w) \<and> topic_rows (w_db w') = topic_rows (w_db w)
        \<and> summary_rows (w_db w') = summary_rows (w_db w) \<and> box_maps (w_db w') = box_maps (w_db w) \<and> frame_of (w_db w) doc (w_db w')
        \<and> (\<exists>d. document_by_id (w_db w) doc = Some d
             \<and> on_trail doc (doc_state (w_db w) doc = Inr (Some DELETED)) (JObj ([(''actor'', JStr actor)] @ counts_json c
                  @ (if doc_state (w_db w) doc = Inr (Some DELETED) then [] else [(''released_object_key'', JStr (dc_object_key d))]))) (audit (w_db w)) (audit (w_db w'))
             \<and> (\<not> store_has w' (dc_object_key d) \<or> object_claimed_elsewhere (w_db w) doc (dc_object_key d) = Inr True)
             \<and> map_option dc_object_key (document_by_id (w_db w') doc)
               = Some (if doc_state (w_db w) doc = Inr (Some DELETED) then dc_object_key d else released_object_key doc)))"
proof -
  obtain w1 where w1: "delete_document H now doc actor False w = (r, w1)" "w' = (case r of Inl _ \<Rightarrow> roll_back w w1 | Inr _ \<Rightarrow> w1)"
    using retried [OF assms(3)] by blast
  note c = delete_document_cases [OF w1(1)]
  show ?thesis
  proof (cases r)
    case (Inl e)
    with c w1(2) assms(2) dropped_roll_back show ?thesis by simp
  next
    case (Inr cs)
    then obtain d s where d: "document_by_id (w_db w) doc = Some d" "doc_state (w_db w) doc = Inr s"
      "delete_rows H now False d (s = Some DELETED) actor (of_bool (index_exists (w_index w) doc))
            (of_bool (store_has w (dc_object_key d) \<and> object_claimed_elsewhere (w_db w) doc (dc_object_key d) = Inr False)) (w_db w)
          = Inr (cs, w_db w')"
      "\<not> index_exists (w_index w') doc" "\<not> store_has w' (dc_object_key d) \<or> object_claimed_elsewhere (w_db w) doc (dc_object_key d) = Inr True"
      "dropped False doc w w'"
      using c w1(2) by auto
    have id: "dc_id d = doc" using document_by_id_Some [OF d(1)] by simp
    note k = delete_rows_ok [OF assms(1,2) d(1) [folded id] d(3), unfolded id]
    then have "map_option dc_object_key (document_by_id (w_db w') doc)
        = Some (if doc_state (w_db w) doc = Inr (Some DELETED) then dc_object_key d else released_object_key doc)"
      by (auto simp: d(1,2))
    moreover have "(s = Some DELETED) = (doc_state (w_db w) doc = Inr (Some DELETED))" using d(2) by simp
    ultimately show ?thesis using k d(1,4-6) by (simp add: Inr)
  qed
qed

text \<open>C24: Deleting a document removes what the module deletes, and nothing else, or is not recorded. Whatever call fails on
  the way, the tables stay sound, only the document's own entry can leave the index, and bytes leave the store only
  when no document that is not deleted still holds their key. If the deletion raises, the tables are as before. If it
  returns, the state is deleted; the text, the pseudonyms, the grants on the document and the entry of the index are gone; a mapping is gone
  exactly when the document had its pseudonym and no other document has; and the bytes are gone unless another document claims them. The row gives up its object key for
  the released one, unless the document was deleted before: then the row keeps the key it has. The trail has one record more, with the actor, the counts and
  the released key (none if the document was deleted before). No other row, text, pseudonym, grant or trail has changed, nor the memberships, dossiers, topics and
  the key log. What the deletion leaves are the summary and the box map of the document, both tables being the same (see \<open>deletion_leaves_summary\<close>).\<close>

theorem deletion_complete:
  assumes "digest64 H" and "corpus_ok H (w_db w)" and "transaction (delete_document H now doc actor False) w = (r, w')"
  shows "corpus_ok H (w_db w') \<and> dropped False doc w w' \<and> (case r of
      Inl e \<Rightarrow> w_db w' = w_db w
    | Inr c \<Rightarrow> content_gone (w_db w) doc (w_db w') \<and> others_kept (w_db w) doc (w_db w') \<and> \<not> index_exists (w_index w') doc
        \<and> frame_of (w_db w) doc (w_db w')
        \<and> (\<exists>d. document_by_id (w_db w) doc = Some d
             \<and> on_trail doc (doc_state (w_db w) doc = Inr (Some DELETED)) (JObj ([(''actor'', JStr actor)] @ counts_json c
                  @ (if doc_state (w_db w) doc = Inr (Some DELETED) then [] else [(''released_object_key'', JStr (dc_object_key d))]))) (audit (w_db w)) (audit (w_db w'))
             \<and> (\<not> store_has w' (dc_object_key d) \<or> object_claimed_elsewhere (w_db w) doc (dc_object_key d) = Inr True)
             \<and> map_option dc_object_key (document_by_id (w_db w') doc)
               = Some (if doc_state (w_db w) doc = Inr (Some DELETED) then dc_object_key d else released_object_key doc)))"
  using delete_transaction [OF assms] by (cases r) auto

text \<open>Deleting a document leaves its summary and its box map in the tables: the module promises that everything
  about the content goes, and lists neither.\<close>

theorem deletion_leaves_summary:
  assumes "digest64 H" and "corpus_ok H (w_db w)" and "transaction (delete_document H now doc actor False) w = (Inr c, w')"
  shows "doc_state (w_db w') doc = Inr (Some DELETED) \<and> dict_get (summary_rows (w_db w')) doc = dict_get (summary_rows (w_db w)) doc
    \<and> dict_get (box_maps (w_db w')) doc = dict_get (box_maps (w_db w)) doc"
  using delete_transaction [OF assms] by (simp add: content_gone_def)

subsection \<open>The dry run\<close>

lemma delete_pseudonyms_dry:
  assumes "distinct ps" and "\<And>q. q \<in> set ps \<Longrightarrow> orphaned db1 doc q = orphaned db2 doc q"
    and "\<And>q. q \<in> set ps \<Longrightarrow> mapping_get (pii_mappings db1) q = mapping_get (pii_mappings db2) q"
  shows "fst (delete_pseudonyms True doc ps n db1) = fst (delete_pseudonyms False doc ps n db2)"
  using assms
proof (induction ps arbitrary: n db2)
  case (Cons p ps)
  define n' where "n' = n + of_bool (orphaned db2 doc p \<and> mapping_get (pii_mappings db2) p \<noteq> None)"
  define db3 where "db3 = db2\<lparr>pseudonyms := filter (\<lambda>r. \<not> (ps_document_id r = doc \<and> ps_pseudonym r = p)) (pseudonyms db2),
      pii_mappings := (if orphaned db2 doc p then dict_pop p (pii_mappings db2) else pii_mappings db2)\<rparr>"
  have "orphaned db1 doc q = orphaned db3 doc q" if "q \<in> set ps" for q
    using that Cons.prems(2) [of q] unfolding db3_def by (subst orphaned_filter) simp
  moreover have "mapping_get (pii_mappings db1) q = mapping_get (pii_mappings db3) q" if "q \<in> set ps" for q
    using that Cons.prems(1,3) by (auto simp: db3_def mapping_get_def)
  ultimately have "fst (delete_pseudonyms True doc ps n' db1) = fst (delete_pseudonyms False doc ps n' db3)"
    using Cons.prems(1) by (intro Cons.IH) simp_all
  moreover have "fst (delete_pseudonyms True doc (p # ps) n db1) = fst (delete_pseudonyms True doc ps n' db1)"
    using Cons.prems(2,3) [of p] by (simp add: n'_def Let_def)
  moreover have "fst (delete_pseudonyms False doc (p # ps) n db2) = fst (delete_pseudonyms False doc ps n' db3)"
    by (simp add: n'_def db3_def Let_def)
  ultimately show ?case by simp
qed simp

lemma delete_pseudonyms_same: "snd (delete_pseudonyms True doc ps n db) = db"
  by (induction ps arbitrary: n) (simp_all add: Let_def)

lemma delete_content_dry:
  assumes "tables_ok db"
  shows "delete_content True doc entries objs db = (fst (delete_content False doc entries objs db), db)"
proof -
  let ?ps = "map ps_pseudonym (filter (\<lambda>r. ps_document_id r = doc) (pseudonyms db))"
  have "distinct (map (\<lambda>r. (ps_document_id r, ps_pseudonym r)) (filter (\<lambda>r. ps_document_id r = doc) (pseudonyms db)))"
    using assms by (simp add: tables_ok_def distinct_map_filter)
  then have d: "distinct ?ps" by (auto simp: distinct_map inj_on_def)
  have "fst (delete_pseudonyms True doc ?ps 0 db) = fst (delete_pseudonyms False doc ?ps 0 (db\<lparr>texts := dict_pop doc (texts db)\<rparr>))"
    by (rule delete_pseudonyms_dry [OF d]) (simp_all add: orphaned_def)
  moreover have "snd (delete_pseudonyms True doc ?ps 0 db) = db" by (rule delete_pseudonyms_same)
  ultimately show ?thesis
    by (cases "delete_pseudonyms True doc ?ps 0 db"; cases "delete_pseudonyms False doc ?ps 0 (db\<lparr>texts := dict_pop doc (texts db)\<rparr>)")
      (auto simp: delete_content_def Let_def dest!: delete_pseudonyms_spec)
qed

lemma dropped_dry:
  assumes "dropped True doc w w'"
  shows "w_index w' = w_index w" and "store_has w' = store_has w"
  using assms by (auto simp: dropped_def)

lemma quiet_drop:
  assumes "w_faults w = []"
  shows "drop_entry True doc w = (Inr (index_exists (w_index w) doc), w)"
    and "drop_object True doc key w = (if store_has w key
       then (case object_claimed_elsewhere (w_db w) doc key of Inl e \<Rightarrow> (Inl e, w) | Inr b \<Rightarrow> (Inr (\<not> b), w)) else (Inr False, w))"
  using assms
  by (simp_all add: drop_entry_def drop_object_def andthen_def on_index_def on_store_def store_exists_def external_def on_db_def store_has_def
      split: sum.splits)

text \<open>The dry run reports what the deletion does. It changes neither the tables, nor the bytes, nor the index, and
  when the deletion itself returns, from the same world, it returns the very counts the dry run gave; without failing
  calls the dry run fails only where the deletion fails.\<close>

theorem dry_run_honest:
  assumes "corpus_ok H (w_db w)"
  shows "w_db (snd (delete_document H now doc actor True w)) = w_db w
    \<and> w_index (snd (delete_document H now doc actor True w)) = w_index w
    \<and> {k. store_has (snd (delete_document H now doc actor True w)) k} = {k. store_has w k}
    \<and> (case (fst (delete_document H now doc actor True w), fst (delete_document H now doc actor False w)) of
         (Inr c, Inr c') \<Rightarrow> c = c' | (Inl e, Inr c) \<Rightarrow> w_faults w \<noteq> [] | _ \<Rightarrow> True)"
proof -
  obtain r w1 where 1: "delete_document H now doc actor True w = (r, w1)" by fastforce
  obtain r' w2 where 2: "delete_document H now doc actor False w = (r', w2)" by fastforce
  note c1 = delete_document_cases [OF 1] and c2 = delete_document_cases [OF 2]
  have dry: "w_index w1 = w_index w" "store_has w1 = store_has w" using c1 dropped_dry by blast+
  have t: "tables_ok (w_db w)" using assms by (simp add: corpus_ok_def)
  have rows: "c = fst (delete_content False (dc_id d) en ob (w_db w)) \<and> (dry \<longrightarrow> db = w_db w)"
    if "delete_rows H now dry d al actor en ob (w_db w) = Inr (c, db)" for dry d al en ob c db
    using that delete_content_dry [OF t, of "dc_id d" en ob]
    by (cases dry) (auto simp: delete_rows_def rbind_eq_Inr split: prod.splits)
  have db: "w_db w1 = w_db w" using c1 rows by (cases r) fastforce+
  have "case (r, r') of (Inr c, Inr c') \<Rightarrow> c = c' | (Inl e, Inr c) \<Rightarrow> w_faults w \<noteq> [] | _ \<Rightarrow> True"
  proof (cases r')
    case (Inr c')
    then obtain d s where d: "document_by_id (w_db w) doc = Some d" "doc_state (w_db w) doc = Inr s"
      "delete_rows H now False d (s = Some DELETED) actor (of_bool (index_exists (w_index w) doc))
            (of_bool (store_has w (dc_object_key d) \<and> object_claimed_elsewhere (w_db w) doc (dc_object_key d) = Inr False)) (w_db w)
          = Inr (c', w_db w2)"
      "\<not> store_has w2 (dc_object_key d) \<or> object_claimed_elsewhere (w_db w) doc (dc_object_key d) = Inr True"
      "dropped False doc w w2"
      using c2 by auto
    show ?thesis
    proof (cases r)
      case (Inr c)
      with c1 d rows [OF d(3)] have "c = c'" by (auto dest: rows)
      then show ?thesis by (simp add: Inr \<open>r' = Inr c'\<close>)
    next
      case (Inl e)
      have "w_faults w \<noteq> []"
      proof
        assume q: "w_faults w = []"
        have "\<exists>b. object_claimed_elsewhere (w_db w) doc (dc_object_key d) = Inr b" if "store_has w (dc_object_key d)"
          using that d(4,5) unfolding dropped_def by blast
        then have "\<exists>b. drop_object True doc (dc_object_key d) w = (Inr b, w)" by (auto simp: quiet_drop(2) [OF q])
        then have "\<exists>c w'. delete_document H now doc actor True w = (Inr c, w')"
          by (auto simp: delete_document_def andthen_def on_db_def quiet_drop(1) [OF q] d(1,2) delete_rows_def split: prod.splits)
        with 1 Inl show False by simp
      qed
      then show ?thesis by (simp add: Inl \<open>r' = Inr c'\<close>)
    qed
  qed (simp split: sum.splits)
  with 1 2 dry db show ?thesis by simp
qed


subsection \<open>Deleting a dossier spares what another dossier holds\<close>

definition kept :: "world \<Rightarrow> world \<Rightarrow> string \<Rightarrow> bool" where
  "kept w w' i = (doc_state (w_db w') i = doc_state (w_db w) i \<and> dict_get (texts (w_db w')) i = dict_get (texts (w_db w)) i
     \<and> registered (pseudonyms (w_db w')) i = registered (pseudonyms (w_db w)) i \<and> document_by_id (w_db w') i = document_by_id (w_db w) i
     \<and> index_exists (w_index w') i = index_exists (w_index w) i)"

definition wiped :: "world \<Rightarrow> string \<Rightarrow> bool" where
  "wiped w i = (doc_state (w_db w) i = Inr (Some DELETED) \<and> dict_get (texts (w_db w)) i = None
     \<and> registered (pseudonyms (w_db w)) i = {} \<and> \<not> index_exists (w_index w) i)"

lemma kept_refl [simp]: "kept w w i"
  by (simp add: kept_def)

lemma kept_trans: "kept w w1 i \<Longrightarrow> kept w1 w2 i \<Longrightarrow> kept w w2 i"
  by (simp add: kept_def)

lemma kept_wiped: "kept w w' i \<Longrightarrow> wiped w i \<Longrightarrow> wiped w' i"
  by (simp add: kept_def wiped_def)

lemma delete_document_kept:
  assumes "digest64 H" and "corpus_ok H (w_db w)" and "delete_document H now doc actor False w = (Inr c, w')"
  shows "corpus_ok H (w_db w') \<and> wiped w' doc \<and> (\<forall>i. i \<noteq> doc \<longrightarrow> kept w w' i)
    \<and> memberships (w_db w') = memberships (w_db w) \<and> dossier_rows (w_db w') = dossier_rows (w_db w) \<and> topic_rows (w_db w') = topic_rows (w_db w)"
proof -
  have t: "transaction (delete_document H now doc actor False) w = (Inr c, w')" using assms(3) by (simp add: transaction_def)
  note d = delete_transaction [OF assms(1,2) t]
  then have ix: "w_index w' = w_index w \<or> w_index w' = snd (index_delete (w_index w) doc)" by (simp add: dropped_def)
  have "index_exists (w_index w') i = index_exists (w_index w) i" if "i \<noteq> doc" for i using ix that by auto
  with d show ?thesis by (simp add: kept_def wiped_def content_gone_def others_kept_def)
qed

lemma member_elsewhere_same: "memberships db' = memberships db \<Longrightarrow> member_elsewhere db' = member_elsewhere db"
  by (simp add: member_elsewhere_def fun_eq_iff)

lemma delete_members_ok:
  assumes "digest64 H" and "corpus_ok H (w_db w)" and "delete_members H now ds actor False docs (del, rel) w = (Inr (del', rel'), w')"
  shows "corpus_ok H (w_db w') \<and> del' = del @ filter (\<lambda>d. \<not> member_elsewhere (w_db w) d ds) docs
    \<and> rel' = rel @ filter (\<lambda>d. member_elsewhere (w_db w) d ds) docs
    \<and> memberships (w_db w') = memberships (w_db w) \<and> dossier_rows (w_db w') = dossier_rows (w_db w) \<and> topic_rows (w_db w') = topic_rows (w_db w)
    \<and> (\<forall>i. if i \<in> set docs \<and> \<not> member_elsewhere (w_db w) i ds then wiped w' i else kept w w' i)"
  using assms(2,3)
proof (induction docs arbitrary: w del rel)
  case (Cons doc docs)
  show ?case
  proof (cases "member_elsewhere (w_db w) doc ds")
    case True
    then have "delete_members H now ds actor False docs (del, rel @ [doc]) w = (Inr (del', rel'), w')"
      using Cons.prems(2) by simp
    from Cons.IH [OF Cons.prems(1) this] True show ?thesis by auto
  next
    case False
    then obtain c w1 where s: "delete_document H now doc actor False w = (Inr c, w1)"
        "delete_members H now ds actor False docs (del @ [doc], rel) w1 = (Inr (del', rel'), w')"
      using Cons.prems(2) by (auto simp: result_simps)
    note d = delete_document_kept [OF assms(1) Cons.prems(1) s(1)]
    then have ok1: "corpus_ok H (w_db w1)" and me: "member_elsewhere (w_db w1) = member_elsewhere (w_db w)"
      using member_elsewhere_same by blast+
    note ih = Cons.IH [OF ok1 s(2), unfolded me]
    have "if i \<in> set (doc # docs) \<and> \<not> member_elsewhere (w_db w) i ds then wiped w' i else kept w w' i" for i
    proof (cases "i \<in> set docs \<and> \<not> member_elsewhere (w_db w) i ds")
      case True
      then show ?thesis using ih by (auto dest: spec [of _ i])
    next
      case rest: False
      then have k: "kept w1 w' i" using ih by (auto dest: spec [of _ i])
      show ?thesis
      proof (cases "i = doc")
        case True
        then show ?thesis using kept_wiped [OF k] d False by simp
      next
        case other: False
        then have "kept w w' i" using d k kept_trans by blast
        with rest other show ?thesis by auto
      qed
    qed
    with ih d False show ?thesis by auto
  qed
qed simp

lemma corpus_ok_remove: "corpus_ok H db \<Longrightarrow> corpus_ok H (db\<lparr>memberships := filter P (memberships db)\<rparr>)"
  by (simp add: corpus_ok_def tables_ok_remove)

lemma set_dossiers_exists [simp]: "index_exists (snd (set_dossiers ix i ds)) k = index_exists ix k"
  by (simp add: set_dossiers_def index_exists_def)

lemma release_members_ok:
  assumes "digest64 H" and "corpus_ok H (w_db w)" and "release_members H now ds actor del docs w = (Inr (), w')"
  shows "corpus_ok H (w_db w') \<and> memberships (w_db w') = filter (\<lambda>(x, d). \<not> (x = ds \<and> d \<in> set docs)) (memberships (w_db w))
    \<and> dossier_rows (w_db w') = dossier_rows (w_db w) \<and> topic_rows (w_db w') = topic_rows (w_db w) \<and> (\<forall>i. kept w w' i)"
  using assms(2,3)
proof (induction docs arbitrary: w)
  case Nil
  then show ?case by (simp add: case_prod_beta)
next
  case (Cons doc docs)
  let ?db = "(w_db w)\<lparr>memberships := filter (\<lambda>p. p \<noteq> (ds, doc)) (memberships (w_db w))\<rparr>"
  let ?w = "w\<lparr>w_db := ?db\<rparr>"
  let ?set = "if doc \<notin> set del then (\<lambda>w. on_index (\<lambda>ix. set_dossiers ix doc (dossiers_of (w_db w) doc)) w) else ret False"
  obtain b w1 db2 where s: "?set ?w = (Inr b, w1)" "dossier_deleted H now (w_db w1) doc ds actor (doc \<notin> set del) = Inr db2"
      "release_members H now ds actor del docs (w1\<lparr>w_db := db2\<rparr>) = (Inr (), w')"
    using Cons.prems(2) by (auto simp: result_simps)
  have 1: "w_db w1 = ?db" "\<And>i. index_exists (w_index w1) i = index_exists (w_index w) i"
    using s(1) by (auto split: if_splits elim!: on_index_Inr)
  have ok1: "corpus_ok H ?db" by (rule corpus_ok_remove [OF Cons.prems(1)])
  obtain st p where "doc_state ?db doc = Inr (Some st)" "note_event H now ?db doc st DOSSIER_DELETED p = Inr db2"
    using s(2) 1(1) by (auto simp: dossier_deleted_def with_state_Inr)
  note n = note_event_ok [OF assms(1) ok1 this]
  then obtain a where a: "db2 = ?db\<lparr>audit := a\<rparr>" by blast
  have "kept w (w1\<lparr>w_db := db2\<rparr>) i" for i
  proof -
    have "doc_state db2 i = doc_state (w_db w) i" using n by (simp add: doc_state_def)
    then show ?thesis using 1(2) by (simp add: kept_def a document_by_id_def)
  qed
  moreover have "corpus_ok H (w_db (w1\<lparr>w_db := db2\<rparr>))" using n by simp
  note ih = Cons.IH [OF this s(3)]
  moreover have "filter (\<lambda>(x, d). \<not> (x = ds \<and> d \<in> set docs)) (memberships db2)
      = filter (\<lambda>(x, d). \<not> (x = ds \<and> d \<in> set (doc # docs))) (memberships (w_db w))"
    by (auto simp: a intro: filter_cong)
  moreover have "kept w w' i" for i using kept_trans [OF \<open>\<And>i. kept w (w1\<lparr>w_db := db2\<rparr>) i\<close>] ih by blast
  ultimately show ?case by (simp add: a)
qed

lemma delete_dossier_ok:
  assumes "digest64 H" and "corpus_ok H (w_db w)" and run: "delete_dossier H now ds actor False w = (Inr rep, w1)"
  shows "corpus_ok H (w_db w1) \<and> dossier_by_id (w_db w1) ds = None
        \<and> memberships (w_db w1) = filter (\<lambda>(x, d). x \<noteq> ds) (memberships (w_db w))
        \<and> filter (\<lambda>(t, x). x = ds) (topic_rows (w_db w1)) = []
        \<and> set (dr_deleted rep) = {d. (ds, d) \<in> set (memberships (w_db w)) \<and> dossiers_holding (w_db w) d = {ds}}
        \<and> set (dr_released rep) = {d. (ds, d) \<in> set (memberships (w_db w)) \<and> dossiers_holding (w_db w) d \<noteq> {ds}}
        \<and> (\<forall>i. if i \<in> set (dr_deleted rep) then wiped w1 i else kept w w1 i)"
proof -
  let ?members = "map snd (filter (\<lambda>(x, d). x = ds) (memberships (w_db w)))"
  obtain del rel w2 w3 where s: "delete_members H now ds actor False ?members ([], []) w = (Inr (del, rel), w2)"
      "release_members H now ds actor del ?members w2 = (Inr (), w3)"
      "w1 = w3\<lparr>w_db := (w_db w3)\<lparr>topic_rows := filter (\<lambda>(t, x). x \<noteq> ds) (topic_rows (w_db w3)),
              dossier_rows := filter (\<lambda>d. ds_id d \<noteq> ds) (dossier_rows (w_db w3))\<rparr>\<rparr>"
      "dr_deleted rep = del" "dr_released rep = rel"
    using run by (auto simp: delete_dossier_def result_simps split: if_splits)
  note d = delete_members_ok [OF assms(1,2) s(1)]
  then have ok2: "corpus_ok H (w_db w2)" by blast
  note m = release_members_ok [OF assms(1) ok2 s(2)]
  have mem: "set ?members = {d. (ds, d) \<in> set (memberships (w_db w))}" by force
  have "(ds, b) \<in> set (memberships (w_db w)) \<Longrightarrow> b \<in> set ?members" for b using mem by blast
  then have "filter (\<lambda>(x, d). \<not> (x = ds \<and> d \<in> set ?members)) (memberships (w_db w)) = filter (\<lambda>(x, d). x \<noteq> ds) (memberships (w_db w))"
    by (intro filter_cong refl) (auto simp del: set_map)
  then have mem3: "memberships (w_db w3) = filter (\<lambda>(x, d). x \<noteq> ds) (memberships (w_db w))" using m d by simp
  have else: "(ds, x) \<in> set (memberships (w_db w)) \<Longrightarrow> member_elsewhere (w_db w) x ds = (dossiers_holding (w_db w) x \<noteq> {ds})" for x
    by (auto simp: member_elsewhere_def dossiers_holding_def list_ex_iff)
  have sets: "set del = {d. (ds, d) \<in> set (memberships (w_db w)) \<and> dossiers_holding (w_db w) d = {ds}}"
      "set rel = {d. (ds, d) \<in> set (memberships (w_db w)) \<and> dossiers_holding (w_db w) d \<noteq> {ds}}"
    using d else by (auto simp: mem simp del: set_map)
  have same: "kept w3 w1 i" for i by (simp add: kept_def s(3) doc_state_def document_by_id_def)
  have each: "if i \<in> set del then wiped w1 i else kept w w1 i" for i
  proof -
    have "i \<in> set del \<longleftrightarrow> i \<in> set ?members \<and> \<not> member_elsewhere (w_db w) i ds" using sets(1) else mem by auto
    moreover have "if i \<in> set ?members \<and> \<not> member_elsewhere (w_db w) i ds then wiped w2 i else kept w w2 i" using d by blast
    moreover have "kept w2 w1 i" using m same kept_trans by blast
    ultimately show ?thesis using kept_trans kept_wiped by presburger
  qed
  have "tables_ok (w_db w3)" "trail_ok H (audit (w_db w3))" using m by (simp_all add: corpus_ok_def)
  then have "corpus_ok H (w_db w1)"
    using mem3 by (auto simp: s(3) corpus_ok_def tables_ok_def distinct_map_filter image_subset_iff)
  moreover have "dossier_by_id (w_db w1) ds = None" by (auto simp: s(3) dossier_by_id_def find_None_iff)
  moreover have "memberships (w_db w1) = filter (\<lambda>(x, d). x \<noteq> ds) (memberships (w_db w))"
      "filter (\<lambda>(t, x). x = ds) (topic_rows (w_db w1)) = []"
    using mem3 by (simp_all add: s(3) filter_empty_conv case_prod_beta)
  moreover have "\<forall>i. if i \<in> set del then wiped w1 i else kept w w1 i" using each by blast
  ultimately show ?thesis using sets unfolding s(4,5) by blast
qed

text \<open>C25: Deleting a dossier never takes a document another dossier holds. When it returns, the tables are sound, the
  dossier, its memberships and its topics are gone and every other membership stays; the report divides the members: those
  that no other dossier holds have been deleted, with their text, pseudonyms and index entry, and the rest is released;
  and every document that is not in the deleted part, a member or not, keeps its row, state, text, pseudonyms and
  index entry. When it raises, the tables are as before.\<close>

theorem delete_dossier_spares:
  assumes "digest64 H" and "corpus_ok H (w_db w)"
  shows "case transaction (delete_dossier H now ds actor False) w of
      (Inl e, w') \<Rightarrow> w_db w' = w_db w
    | (Inr rep, w') \<Rightarrow> corpus_ok H (w_db w') \<and> dossier_by_id (w_db w') ds = None
        \<and> memberships (w_db w') = filter (\<lambda>(x, d). x \<noteq> ds) (memberships (w_db w))
        \<and> filter (\<lambda>(t, x). x = ds) (topic_rows (w_db w')) = []
        \<and> set (dr_deleted rep) = {d. (ds, d) \<in> set (memberships (w_db w)) \<and> dossiers_holding (w_db w) d = {ds}}
        \<and> set (dr_released rep) = {d. (ds, d) \<in> set (memberships (w_db w)) \<and> dossiers_holding (w_db w) d \<noteq> {ds}}
        \<and> (\<forall>i. if i \<in> set (dr_deleted rep) then wiped w' i else kept w w' i)"
proof -
  obtain r w1 where run: "delete_dossier H now ds actor False w = (r, w1)" by fastforce
  then show ?thesis using delete_dossier_ok [OF assms, of now ds actor] by (cases r) (auto simp: transaction_def)
qed
subsection \<open>A deletion\<close>

lemma sample_deletion:
  assumes "sample_corpus db"
  shows "\<exists>c w'. transaction (delete_document tick_hash sample_time ''a'' ''me'' False) (sample_world (db\<lparr>summary_rows := s\<rparr>)) = (Inr c, w')"
proof -
  obtain da db0 where d: "documents db = [da, db0]" "dc_id da = ''a''" "dc_id db0 = ''b''" "dc_object_key db0 = ''documents/2''"
    using assms by (auto simp: sample_corpus_def)
  have st: "doc_state db ''a'' = Inr (Some REGISTERED)" "counted 2 (audit db)" "texts db = []" "pseudonyms db = []" "grant_rows db = []"
    using assms by (simp_all add: sample_corpus_def)
  let ?db = "db\<lparr>summary_rows := s\<rparr>"
  have look: "document_by_id ?db ''a'' = Some da" "doc_state ?db ''a'' = Inr (Some REGISTERED)"
    using d st by (simp_all add: document_by_id_def doc_state_def)
  obtain c db1 where content: "delete_content False ''a'' 1 0 ?db = (c, db1)" by fastforce
  from delete_content_spec [OF content] obtain m where db1: "db1 = ?db\<lparr>texts := [], pseudonyms := [], pii_mappings := m, grant_rows := []\<rparr>"
    using st by auto
  define db2 where "db2 = db1\<lparr>documents := [da\<lparr>dc_object_key := released_object_key ''a''\<rparr>, db0]\<rparr>"
  have upd: "update_document db1 (da\<lparr>dc_object_key := released_object_key ''a''\<rparr>) = Inr db2"
    using d by (simp add: update_document_def db2_def db1 Let_def released_object_key_def DELETED_KEY_PREFIX_def)
  have "counted 2 (audit db2)" "2 < (64::nat)" "doc_state db2 ''a'' = Inr (Some REGISTERED)" "is_allowed (Some REGISTERED) DELETED"
      "Some REGISTERED \<noteq> Some DELETED"
    using st by (simp_all add: db2_def db1 doc_state_def is_allowed_def ALLOWED_def EDGES_def)
  from transition_possible [OF this(1,2) sample_time_ok(2) this(3-5), of "''delete''"
      "Some (JObj ([(''actor'', JStr ''me'')] @ counts_json c @ [(''released_object_key'', JStr (dc_object_key da))]))"]
  obtain r db3 where "transition tick_hash sample_time db2 ''a'' DELETED ''delete''
      (Some (JObj ([(''actor'', JStr ''me'')] @ counts_json c @ [(''released_object_key'', JStr (dc_object_key da))]))) = Inr (r, db3)" by blast
  then have "mark_deleted tick_hash sample_time da False ''me'' c db1 = Inr db3"
    by (simp add: mark_deleted_def upd d(2))
  then have rows: "\<exists>x. delete_rows tick_hash sample_time False da False ''me'' 1 0 ?db = Inr x" by (auto simp: delete_rows_def d(2) content simp del: One_nat_def)
  have w: "w_db (sample_world ?db) = ?db" "w_faults (sample_world ?db) = []" "\<not> store_has (sample_world ?db) k"
      "index_exists (w_index (sample_world ?db)) ''a''" for k
    by (simp_all add: sample_world_def sample_index_def index_exists_def store_has_def store_objects_def object_exists_def)
  obtain w2 where entry: "drop_entry False ''a'' (sample_world ?db) = (Inr True, w2)" "w_db w2 = ?db" "w_faults w2 = []"
      "w_store w2 = w_store (sample_world ?db)"
    using w by (simp add: drop_entry_def andthen_def on_index_def external_def case_prod_beta)
  have "drop_object False ''a'' (dc_object_key da) w2 = (Inr False, w2)"
    using entry(3,4) w(3) [of "dc_object_key da"]
    by (simp add: drop_object_def andthen_def store_exists_def on_store_def external_def store_has_def)
  with entry w(1) rows look have "\<exists>c w'. delete_document tick_hash sample_time ''a'' ''me'' False (sample_world ?db) = (Inr c, w')"
    by (auto simp: delete_document_def andthen_def on_db_def simp del: One_nat_def)
  then show ?thesis by (auto simp: transaction_def)
qed

lemma corpus_ok_summaries: "corpus_ok H (db\<lparr>summary_rows := s\<rparr>) = corpus_ok H db"
  by (simp add: corpus_ok_def tables_ok_def)

lemma sample_summary_ok: "sample_corpus db \<Longrightarrow> corpus_ok tick_hash (w_db (sample_world (db\<lparr>summary_rows := s\<rparr>)))"
  unfolding sample_corpus_def by (simp add: sample_world_def corpus_ok_summaries)

lemma deletion_complete_witness:
  "\<exists>(w :: world) w' c. transaction (delete_document tick_hash sample_time ''a'' ''me'' False) w = (Inr c, w')
     \<and> index_exists (w_index w) ''a'' \<and> \<not> index_exists (w_index w') ''a'' \<and> content_gone (w_db w) ''a'' (w_db w')
     \<and> others_kept (w_db w) ''a'' (w_db w')"
proof -
  obtain db where db: "sample_corpus db" using sample_corpus_exists by blast
  obtain c w' where run: "transaction (delete_document tick_hash sample_time ''a'' ''me'' False) (sample_world (db\<lparr>summary_rows := []\<rparr>)) = (Inr c, w')"
    using sample_deletion [OF db] by blast
  have "index_exists (w_index (sample_world (db\<lparr>summary_rows := []\<rparr>))) ''a''" by (simp add: sample_world_def sample_index_def index_exists_def)
  with deletion_complete [OF digest_tick sample_summary_ok [OF db] run] run show ?thesis by auto
qed

lemma deletion_leaves_summary_witness:
  "\<exists>(w' :: world). doc_state (w_db w') ''a'' = Inr (Some DELETED)
     \<and> dict_get (summary_rows (w_db w')) ''a'' = Some \<lparr>sm_text = ''about'', sm_model = ''m'', sm_created_at = sample_time\<rparr>"
proof -
  obtain db where db: "sample_corpus db" using sample_corpus_exists by blast
  let ?s = "[(''a'', \<lparr>sm_text = ''about'', sm_model = ''m'', sm_created_at = sample_time\<rparr>)]"
  obtain c w' where run: "transaction (delete_document tick_hash sample_time ''a'' ''me'' False) (sample_world (db\<lparr>summary_rows := ?s\<rparr>)) = (Inr c, w')"
    using sample_deletion [OF db] by blast
  have "summary_rows (w_db (sample_world (db\<lparr>summary_rows := ?s\<rparr>))) = ?s" by (simp add: sample_world_def)
  with deletion_leaves_summary [OF digest_tick sample_summary_ok [OF db] run] show ?thesis by (intro exI [of _ w']) simp
qed

lemma dry_run_honest_witness:
  "\<exists>(w :: world). w_index (snd (delete_document tick_hash sample_time ''a'' ''me'' True w)) = w_index w
     \<and> corpus_ok tick_hash (w_db w) \<and> index_exists (w_index w) ''a''"
proof -
  obtain db where db: "sample_corpus db" using sample_corpus_exists by blast
  have "index_exists (w_index (sample_world (db\<lparr>summary_rows := []\<rparr>))) ''a''" by (simp add: sample_world_def sample_index_def index_exists_def)
  with dry_run_honest [OF sample_summary_ok [OF db]] sample_summary_ok [OF db] show ?thesis by blast
qed


lemma delete_dossier_spares_witness:
  "\<exists>(w :: world). dossiers_holding (w_db w) ''a'' = {''s''} \<and> (case transaction (delete_dossier tick_hash sample_time ''s'' ''me'' False) w of
      (Inl e, w') \<Rightarrow> w_db w' = w_db w
    | (Inr rep, w') \<Rightarrow> dossier_by_id (w_db w') ''s'' = None)"
proof -
  obtain db where db: "sample_corpus db" using sample_corpus_exists by blast
  have "dossiers_holding (w_db (sample_world (db\<lparr>summary_rows := []\<rparr>))) ''a'' = {''s''}"
    using db by (simp add: sample_corpus_def sample_world_def dossiers_holding_def)
  with delete_dossier_spares [OF digest_tick sample_summary_ok [OF db, of "[]"], where now = sample_time and ds = "''s''" and actor = "''me''"] show ?thesis
    by (intro exI [of _ "sample_world (db\<lparr>summary_rows := []\<rparr>)"]) (auto split: prod.splits sum.splits)
qed

end
