(* ===== verification/Detectors.thy ===== *)
theory Detectors
  imports Tokens
begin

text \<open>
  \<open>detectors.py\<close>: the deterministic detectors of BSN, IBAN, email address and postcode. A validator
  answers or raises, as the source's calls of \<open>int\<close> can; a context rule sees the text and where the
  match starts. The replacer of \<open>substitute\<close> may keep a state and may raise.
\<close>

definition BSN_RE :: rx where
  "BSN_RE = Cat Bound (Cat (Rep is_decimal 9 (Some 9)) Bound)"

definition BSN_WEIGHTS :: "int list" where
  "BSN_WEIGHTS = [9, 8, 7, 6, 5, 4, 3, 2, -1]"

definition is_upper_digit :: "char \<Rightarrow> bool" where
  "is_upper_digit c = (is_upper_az c \<or> is_decimal c)"

definition is_letter_az :: "char \<Rightarrow> bool" where
  "is_letter_az c = (is_upper_az c \<or> is_lower_az c)"

definition IBAN_RE :: rx where
  "IBAN_RE = Cat Bound (Cat (Rep is_upper_az 2 (Some 2)) (Cat (Rep is_decimal 2 (Some 2))
     (Cat (Rep is_upper_digit 10 (Some 30)) Bound)))"

definition is_email_local :: "char \<Rightarrow> bool" where
  "is_email_local c = (is_letter_az c \<or> is_decimal c \<or> c \<in> set ''._%+-'')"

definition is_email_host :: "char \<Rightarrow> bool" where
  "is_email_host c = (is_letter_az c \<or> is_decimal c \<or> c \<in> set ''.-'')"

definition EMAIL_RE :: rx where
  "EMAIL_RE = Cat Bound (Cat (Rep is_email_local 1 None) (Cat (chr (CHR ''@'')) (Cat (Rep is_email_host 1 None)
     (Cat (chr (CHR ''.'')) (Cat (Rep is_letter_az 2 None) Bound)))))"

definition POSTCODE_RE :: rx where
  "POSTCODE_RE = Cat Bound (Cat (Cls (\<lambda>c. is_decimal c \<and> c \<noteq> CHR ''0'')) (Cat (Rep is_decimal 3 (Some 3))
     (Cat (Rep is_space 0 (Some 1)) (Cat (Rep is_upper_az 2 (Some 2)) Bound))))"

definition POSTBUS_RE :: rx where
  "POSTBUS_RE = Cat (Cls (\<lambda>c. c \<in> set ''Pp'')) (Cat (lit ''ostbus'') (Cat (Rep is_space 1 None) (Cat (Rep is_decimal 1 None)
     (Cat (Rep (\<lambda>c. c \<in> set '',.|'' \<or> is_space c) 1 (Some 4)) AtEnd))))"

definition bsn_total :: "string \<Rightarrow> int" where
  "bsn_total digits = sum_list (map2 (\<lambda>d w. int (digit_val d) * w) digits BSN_WEIGHTS)"

text \<open>\<open>int(digits)\<close> refuses what \<open>isdigit\<close> accepts beyond the decimal digits.\<close>

definition is_valid_bsn :: "string \<Rightarrow> bool result" where
  "is_valid_bsn digits =
     (if length digits \<noteq> 9 \<or> \<not> list_all is_digit digits then Inr False
      else if \<not> list_all is_decimal digits then Inl ValueError
      else if nat_of_digits digits = 0 then Inr False
      else Inr (bsn_total digits mod 11 = 0))"

text \<open>\<open>int(ch, 36)\<close> of one character\<close>

definition digit36 :: "char \<Rightarrow> nat option" where
  "digit36 c = (if is_decimal c then Some (cp c - 48) else if is_upper_az c then Some (cp c - 55)
     else if is_lower_az c then Some (cp c - 87) else None)"

definition iban_numeric :: "string \<Rightarrow> string option" where
  "iban_numeric rearranged = (if list_all (\<lambda>c. digit36 c \<noteq> None) rearranged
     then Some (concat (map (\<lambda>c. digits_of (the (digit36 c))) rearranged)) else None)"

definition is_valid_iban :: "string \<Rightarrow> bool result" where
  "is_valid_iban candidate =
     (case iban_numeric (drop 4 candidate @ take 4 candidate) of
        None \<Rightarrow> Inr False
      | Some numeric \<Rightarrow> if numeric = [] then Inl ValueError else Inr (nat_of_digits numeric mod 97 = 1))"

definition postcode_context :: "string \<Rightarrow> nat \<Rightarrow> bool" where
  "postcode_context text start = (\<not> search POSTBUS_RE (slice (start - 40) start text))"

type_synonym detector = "string \<times> rx \<times> (string \<Rightarrow> bool result) option \<times> (string \<Rightarrow> nat \<Rightarrow> bool) option"

definition DETECTORS :: "detector list" where
  "DETECTORS = [(''bsn'', BSN_RE, Some is_valid_bsn, None), (''iban'', IBAN_RE, Some is_valid_iban, None),
     (''email'', EMAIL_RE, None, None), (''postcode'', POSTCODE_RE, None, Some postcode_context)]"

definition valid_by :: "(string \<Rightarrow> bool result) option \<Rightarrow> string \<Rightarrow> bool result" where
  "valid_by validate v = (case validate of None \<Rightarrow> Inr True | Some f \<Rightarrow> f v)"

definition context_ok :: "(string \<Rightarrow> nat \<Rightarrow> bool) option \<Rightarrow> string \<Rightarrow> nat \<Rightarrow> bool" where
  "context_ok ctx text start = (case ctx of None \<Rightarrow> True | Some f \<Rightarrow> f text start)"

fun find_hits :: "string \<Rightarrow> string \<Rightarrow> (string \<Rightarrow> bool result) option \<Rightarrow> (string \<Rightarrow> nat \<Rightarrow> bool) option
    \<Rightarrow> (nat \<times> string) list \<Rightarrow> (string \<times> string \<times> nat \<times> nat) list result" where
  "find_hits text label validate ctx [] = Inr []"
| "find_hits text label validate ctx ((i, v) # ms) =
     rbind (valid_by validate v) (\<lambda>ok.
     rbind (find_hits text label validate ctx ms) (\<lambda>out.
     Inr (if ok \<and> context_ok ctx text i then (label, v, i, i + length v) # out else out)))"

definition find_deterministic :: "string \<Rightarrow> (string \<times> string \<times> nat \<times> nat) list result" where
  "find_deterministic text =
     rbind (rmap (\<lambda>(label, pattern, validate, ctx). find_hits text label validate ctx (finditer pattern text)) DETECTORS)
       (\<lambda>outs. Inr (concat outs))"

definition substitute_repl ::
    "string \<Rightarrow> (string \<Rightarrow> 's \<Rightarrow> (string \<times> 's) result) \<Rightarrow> (string \<Rightarrow> bool result) option
      \<Rightarrow> (string \<Rightarrow> nat \<Rightarrow> bool) option \<Rightarrow> nat \<Rightarrow> string \<Rightarrow> nat \<times> 's \<Rightarrow> (string \<times> nat \<times> 's) result" where
  "substitute_repl text replacer validate ctx i v = (\<lambda>(count, st).
     if \<not> context_ok ctx text i then Inr (v, count, st)
     else rbind (valid_by validate v) (\<lambda>ok.
       if ok then rbind (replacer v st) (\<lambda>(r, st). Inr (r, Suc count, st)) else Inr (v, count, st)))"

definition substitute ::
    "string \<Rightarrow> rx \<Rightarrow> (string \<Rightarrow> 's \<Rightarrow> (string \<times> 's) result) \<Rightarrow> (string \<Rightarrow> bool result) option
      \<Rightarrow> (string \<Rightarrow> nat \<Rightarrow> bool) option \<Rightarrow> 's \<Rightarrow> (string \<times> nat \<times> 's) result" where
  "substitute text pattern replacer validate ctx st =
     sub_with pattern (substitute_repl text replacer validate ctx) text (0, st)"

definition redact :: "rx \<Rightarrow> string \<Rightarrow> (string \<Rightarrow> bool result) option \<Rightarrow> (string \<Rightarrow> nat \<Rightarrow> bool) option
    \<Rightarrow> string \<Rightarrow> (string \<times> nat) result" where
  "redact pattern mark validate ctx text =
     rbind (substitute text pattern (\<lambda>v st. Inr (mark, st)) validate ctx ()) (\<lambda>(t, n, _). Inr (t, n))"

definition redact_bsn :: "string \<Rightarrow> (string \<times> nat) result" where
  "redact_bsn = redact BSN_RE ''[BSN]'' (Some is_valid_bsn) None"
definition redact_iban :: "string \<Rightarrow> (string \<times> nat) result" where
  "redact_iban = redact IBAN_RE ''[IBAN]'' (Some is_valid_iban) None"
definition redact_email :: "string \<Rightarrow> (string \<times> nat) result" where
  "redact_email = redact EMAIL_RE ''[EMAIL]'' None None"
definition redact_postcode :: "string \<Rightarrow> (string \<times> nat) result" where
  "redact_postcode = redact POSTCODE_RE ''[POSTCODE]'' None (Some postcode_context)"

subsection \<open>Finding and replacing agree\<close>

lemma sub_count:
  assumes "sub_pieces (substitute_repl text replacer validate ctx) ps (count, st) = Inr (t, n, st')"
    and "find_hits text label validate ctx (hits ps) = Inr out"
  shows "n = count + length out"
  using assms
proof (induction ps arbitrary: count st t out)
  case (Cons p ps)
  show ?case
  proof (cases p)
    case (Lit c)
    with Cons show ?thesis by (auto simp: result_simps)
  next
    case (Hit i v)
    obtain ok out' where o: "valid_by validate v = Inr ok" "find_hits text label validate ctx (hits ps) = Inr out'"
        "out = (if ok \<and> context_ok ctx text i then (label, v, i, i + length v) # out' else out')"
      using Cons.prems(2) Hit by (auto simp: result_simps)
    obtain r c1 st1 t' where s: "substitute_repl text replacer validate ctx i v (count, st) = Inr (r, c1, st1)"
        "sub_pieces (substitute_repl text replacer validate ctx) ps (c1, st1) = Inr (t', n, st')"
      using Cons.prems(1) Hit by (auto simp: result_simps)
    have "c1 = (if ok \<and> context_ok ctx text i then Suc count else count)"
      using s(1) o(1) by (auto simp: substitute_repl_def result_simps split: if_splits)
    with Cons.IH [OF s(2) o(2)] o(3) show ?thesis by simp
  qed
qed simp

text \<open>One rule, not two. On every text, for every detector and whatever the replacement does, the number
  of values \<open>substitute\<close> replaces is the number of spans \<open>find_deterministic\<close> reports for it: the same
  validation and the same context rule decide in both, so what the evaluation counts is what the
  pipelines take out.\<close>

theorem substitute_counts_found:
  assumes "(label, pattern, validate, ctx) \<in> set DETECTORS"
    and "substitute text pattern replacer validate ctx st = Inr (t, n, st')"
    and "find_deterministic text = Inr found"
  shows "n = length (filter (\<lambda>(l, _). l = label) found)"
proof -
  let ?f = "\<lambda>(label, pattern, validate, ctx). find_hits text label validate ctx (finditer pattern text)"
  obtain outs where outs: "rmap ?f DETECTORS = Inr outs" "found = concat outs"
    using assms(3) by (auto simp: find_deterministic_def result_simps)
  have labels: "list_all (\<lambda>(l, _). l = label) out" if "find_hits text label validate ctx ms = Inr out" for label validate ctx ms out
    using that by (induction ms arbitrary: out) (auto simp: result_simps)
  obtain o1 o2 o3 o4 where o: "outs = [o1, o2, o3, o4]"
      "find_hits text ''bsn'' (Some is_valid_bsn) None (finditer BSN_RE text) = Inr o1"
      "find_hits text ''iban'' (Some is_valid_iban) None (finditer IBAN_RE text) = Inr o2"
      "find_hits text ''email'' None None (finditer EMAIL_RE text) = Inr o3"
      "find_hits text ''postcode'' None (Some postcode_context) (finditer POSTCODE_RE text) = Inr o4"
    using outs(1) unfolding DETECTORS_def rmap.simps rbind_eq_Inr prod.case by blast
  have keep: "filter (\<lambda>(l, _). l = label) out = (if l' = label then out else [])"
    if "list_all (\<lambda>(l, _). l = l') out" for l' and out :: "(string \<times> string \<times> nat \<times> nat) list"
    using that by (induction out) auto
  have f: "filter (\<lambda>(l, _). l = label) found = (if ''bsn'' = label then o1 else []) @ (if ''iban'' = label then o2 else [])
      @ (if ''email'' = label then o3 else []) @ (if ''postcode'' = label then o4 else [])"
    unfolding outs(2) o(1) using keep [OF labels [OF o(2)]] keep [OF labels [OF o(3)]]
      keep [OF labels [OF o(4)]] keep [OF labels [OF o(5)]] by simp
  have n: "n = length out" if "find_hits text label validate ctx (finditer pattern text) = Inr out" for out
    using sub_count [OF assms(2)[unfolded substitute_def sub_with_def]] that by (simp add: finditer_def)
  from assms(1) have d: "label = ''bsn'' \<and> pattern = BSN_RE \<and> validate = Some is_valid_bsn \<and> ctx = None
    \<or> label = ''iban'' \<and> pattern = IBAN_RE \<and> validate = Some is_valid_iban \<and> ctx = None
    \<or> label = ''email'' \<and> pattern = EMAIL_RE \<and> validate = None \<and> ctx = None
    \<or> label = ''postcode'' \<and> pattern = POSTCODE_RE \<and> validate = None \<and> ctx = Some postcode_context"
    by (simp only: DETECTORS_def list.set insert_iff empty_iff prod.inject simp_thms)
  from d show ?thesis
  proof (elim disjE conjE)
    assume 1: "label = ''bsn''" "pattern = BSN_RE" "validate = Some is_valid_bsn" "ctx = None"
    from n [of o1] o(2) show ?thesis unfolding f unfolding 1 by simp
  next
    assume 1: "label = ''iban''" "pattern = IBAN_RE" "validate = Some is_valid_iban" "ctx = None"
    from n [of o2] o(3) show ?thesis unfolding f unfolding 1 by simp
  next
    assume 1: "label = ''email''" "pattern = EMAIL_RE" "validate = None" "ctx = None"
    from n [of o3] o(4) show ?thesis unfolding f unfolding 1 by simp
  next
    assume 1: "label = ''postcode''" "pattern = POSTCODE_RE" "validate = None" "ctx = Some postcode_context"
    from n [of o4] o(5) show ?thesis unfolding f unfolding 1 by simp
  qed
qed

subsection \<open>The eleven test\<close>

lemma sum_update:
  fixes g :: "'a \<Rightarrow> 'b \<Rightarrow> int"
  assumes "i < length xs" and "i < length ws"
  shows "sum_list (map2 g (xs[i := c]) ws) = sum_list (map2 g xs ws) - g (xs ! i) (ws ! i) + g c (ws ! i)"
  using assms
proof (induction xs arbitrary: ws i)
  case (Cons x xs)
  then show ?case by (cases ws; cases i) auto
qed simp

lemma digit_val_inj: "is_decimal c \<Longrightarrow> is_decimal d \<Longrightarrow> digit_val c = digit_val d \<Longrightarrow> c = d"
proof -
  assume "is_decimal c" "is_decimal d" "digit_val c = digit_val d"
  then have "cp c = cp d" unfolding is_decimal_def digit_val_def Let_def by linarith
  then show "c = d" by (metis char_of_cp)
qed

lemma digit_val_le: "is_decimal c \<Longrightarrow> digit_val c \<le> 9"
  by (auto simp: is_decimal_def digit_val_def Let_def)

lemma weights_ok:
  assumes "i < 9" and "- 9 \<le> x" and "x \<le> 9" and "x \<noteq> 0"
  shows "(x * BSN_WEIGHTS ! i) mod 11 \<noteq> 0"
proof -
  from assms(1) consider "i = 0" | "i = 1" | "i = 2" | "i = 3" | "i = 4" | "i = 5" | "i = 6" | "i = 7" | "i = 8" by linarith
  then show ?thesis
    by cases (use assms(2-4) in \<open>simp_all add: BSN_WEIGHTS_def\<close>, presburger+)
qed

lemma weight_steps_ok:
  assumes "i < 8" and "- 9 \<le> x" and "x \<le> 9" and "x \<noteq> 0"
  shows "(x * (BSN_WEIGHTS ! i - BSN_WEIGHTS ! Suc i)) mod 11 \<noteq> 0"
proof -
  from assms(1) consider "i = 0" | "i = 1" | "i = 2" | "i = 3" | "i = 4" | "i = 5" | "i = 6" | "i = 7" by linarith
  then show ?thesis
    by cases (use assms(2-4) in \<open>simp_all add: BSN_WEIGHTS_def\<close>, presburger+)
qed

lemma add_mod11: "(a :: int) mod 11 = 0 \<Longrightarrow> y mod 11 \<noteq> 0 \<Longrightarrow> (a + y) mod 11 \<noteq> 0"
  by presburger

lemma valid_bsnD:
  "is_valid_bsn d = Inr True \<Longrightarrow> length d = 9 \<and> list_all is_decimal d \<and> bsn_total d mod 11 = 0"
  by (auto simp: is_valid_bsn_def split: if_splits)

lemma invalid_bsnI:
  "length d = 9 \<Longrightarrow> list_all is_decimal d \<Longrightarrow> bsn_total d mod 11 \<noteq> 0 \<Longrightarrow> is_valid_bsn d = Inr False"
  by (auto simp: is_valid_bsn_def is_digit_def list_all_iff)

text \<open>What the eleven test catches. Change any one digit of a valid BSN to another digit, or swap any two
  different neighbouring digits, and the result is not a valid BSN: the weights are such that no single
  misread digit and no transposition passes.\<close>

theorem bsn_detects_errors:
  assumes "is_valid_bsn d = Inr True"
  shows "(i < 9 \<and> is_decimal c \<and> c \<noteq> d ! i \<longrightarrow> is_valid_bsn (d[i := c]) = Inr False)
    \<and> (i < 8 \<and> d ! i \<noteq> d ! Suc i \<longrightarrow> is_valid_bsn (d[i := d ! Suc i, Suc i := d ! i]) = Inr False)"
proof (intro conjI impI)
  have total: "bsn_total (e[i := c]) = bsn_total e - int (digit_val (e ! i)) * BSN_WEIGHTS ! i + int (digit_val c) * BSN_WEIGHTS ! i"
    if "i < length e" "i < length BSN_WEIGHTS" for e i c
    unfolding bsn_total_def by (rule sum_update [OF that])
  note v = valid_bsnD [OF assms]
  have w: "length BSN_WEIGHTS = 9" by (simp add: BSN_WEIGHTS_def)
  have dec: "is_decimal (d ! j)" if "j < 9" for j using v that by (auto simp: list_all_length)
  have ok: "list_all is_decimal (e[j := x])" if "list_all is_decimal e" "is_decimal x" for e j x
    using that by (auto simp: list_all_iff dest!: set_update_subset_insert [THEN subsetD])
  have diff: "int (digit_val x) - int (digit_val y) \<noteq> 0 \<and> - 9 \<le> int (digit_val x) - int (digit_val y)
      \<and> int (digit_val x) - int (digit_val y) \<le> 9" if "is_decimal x" "is_decimal y" "x \<noteq> y" for x y
    using digit_val_inj [OF that(1,2)] digit_val_le [OF that(1)] digit_val_le [OF that(2)] that(3) by auto
  {
    assume a: "i < 9 \<and> is_decimal c \<and> c \<noteq> d ! i"
    let ?x = "int (digit_val c) - int (digit_val (d ! i))"
    have t: "bsn_total (d[i := c]) = bsn_total d + ?x * BSN_WEIGHTS ! i"
      using total [of i d c] a v w by (simp add: algebra_simps)
    have m: "(?x * BSN_WEIGHTS ! i) mod 11 \<noteq> 0"
    proof -
      have di: "is_decimal (d ! i)" using a by (intro dec) simp
      from diff [OF _ di, of c] a show ?thesis by (intro weights_ok) simp_all
    qed
    have "bsn_total (d[i := c]) mod 11 \<noteq> 0" unfolding t by (rule add_mod11 [OF _ m]) (use v in blast)
    then show "is_valid_bsn (d[i := c]) = Inr False" using invalid_bsnI [of "d[i := c]"] v ok a by simp
  next
    assume a: "i < 8 \<and> d ! i \<noteq> d ! Suc i"
    let ?x = "int (digit_val (d ! Suc i)) - int (digit_val (d ! i))" and ?e = "d[i := d ! Suc i, Suc i := d ! i]"
    have t: "bsn_total ?e = bsn_total d + ?x * (BSN_WEIGHTS ! i - BSN_WEIGHTS ! Suc i)"
      using total [of i d "d ! Suc i"] total [of "Suc i" "d[i := d ! Suc i]" "d ! i"] a v w
      by (simp add: algebra_simps)
    have m: "(?x * (BSN_WEIGHTS ! i - BSN_WEIGHTS ! Suc i)) mod 11 \<noteq> 0"
    proof -
      have di: "is_decimal (d ! i)" "is_decimal (d ! Suc i)" using a by (auto intro: dec)
      have "d ! Suc i \<noteq> d ! i" using a by metis
      from diff [OF di(2,1) this] a show ?thesis by (intro weight_steps_ok) simp_all
    qed
    have "bsn_total ?e mod 11 \<noteq> 0" unfolding t by (rule add_mod11 [OF _ m]) (use v in blast)
    then show "is_valid_bsn ?e = Inr False" using invalid_bsnI [of ?e] v ok a dec by simp
  }
qed

lemma bsn_detects_errors_witness:
  "is_valid_bsn (''111222333''[0 := CHR ''7'']) = Inr False"
proof -
  have "is_valid_bsn ''111222333'' = Inr True"
    by (simp add: is_valid_bsn_def bsn_total_def BSN_WEIGHTS_def is_digit_def is_decimal_def nat_of_digits_def digit_val_def)
  from bsn_detects_errors [OF this, of 0 "CHR ''7''"] show ?thesis by (simp add: is_decimal_def)
qed

lemma substitute_counts_found_witness:
  "\<exists>t (n :: nat). substitute ''a@b.nl'' EMAIL_RE (\<lambda>v st. Inr (''[EMAIL]'', st)) None None () = Inr (t, n, ())
     \<and> n = length (filter (\<lambda>(l, _). l = ''email'') [(''email'', ''a@b.nl'', 0 :: nat, 6 :: nat)])"
proof -
  have s: "substitute ''a@b.nl'' EMAIL_RE (\<lambda>v st. Inr (''[EMAIL]'', st)) None None () = Inr (''[EMAIL]'', 1, ())"
    by code_simp
  have f: "find_deterministic ''a@b.nl'' = Inr [(''email'', ''a@b.nl'', 0, 6)]" by code_simp
  have "(''email'', EMAIL_RE, None, None) \<in> set DETECTORS" by (simp add: DETECTORS_def)
  from substitute_counts_found [OF this s f] s show ?thesis by blast
qed

end
