(* ===== verification/Entities.thy ===== *)
theory Entities
  imports AccessIdentity Detectors DetectionStats
begin

text \<open>
  \<open>openanonymiser_driver.py\<close> and \<open>anonymizer.py\<close>: cutting a text into bounded pieces, asking the entity
  service for each piece, mapping the spans back to the whole text, and the two drivers that replace for
  good. The service is the parameter \<open>post\<close>: the decoded answer to a request for a text, or the exception
  of the transport. Scores are finite numbers. The pool and the limiter change the order of the requests,
  not of the answers.
\<close>

subsection \<open>Cutting a text\<close>

text \<open>\<open>while len(cur) > max_chars\<close>\<close>

function hard_split :: "nat \<Rightarrow> string \<Rightarrow> string list \<times> string" where
  "hard_split n cur =
     (if 0 < n \<and> n < length cur then (let (cs, r) = hard_split n (drop n cur) in (take n cur # cs, r)) else ([], cur))"
  by pat_completeness auto
termination by (relation "measure (\<lambda>(n, cur). length cur)") auto

declare hard_split.simps [simp del]

fun chunk_lines :: "nat \<Rightarrow> string \<Rightarrow> string list \<Rightarrow> string list" where
  "chunk_lines n cur [] = (if cur \<noteq> [] then [cur] else [])"
| "chunk_lines n cur (line # ls) =
     (if cur \<noteq> [] \<and> n < length cur + length line
      then (let (cs, r) = hard_split n line in cur # cs @ chunk_lines n r ls)
      else (let (cs, r) = hard_split n (cur @ line) in cs @ chunk_lines n r ls))"

definition chunk_text :: "string \<Rightarrow> int \<Rightarrow> string list" where
  "chunk_text text max_chars =
     (if max_chars \<le> 0 \<or> int (length text) \<le> max_chars then [text]
      else chunk_lines (nat max_chars) [] (splitlines_keep text))"

lemma hard_split_ok:
  "hard_split n cur = (cs, r) \<Longrightarrow> concat cs @ r = cur \<and> (0 < n \<longrightarrow> (\<forall>c\<in>set cs. length c = n) \<and> length r \<le> n)"
proof (induction n cur arbitrary: cs r rule: hard_split.induct)
  case (1 n cur)
  show ?case
  proof (cases "0 < n \<and> n < length cur")
    case True
    obtain ds s where d: "hard_split n (drop n cur) = (ds, s)" by (cases "hard_split n (drop n cur)")
    have e: "cs = take n cur # ds" "r = s" using 1(2) True by (simp_all add: hard_split.simps [of n cur] d)
    from 1(1) [OF True d] True show ?thesis by (auto simp: e)
  next
    case False
    then have "cs = []" "r = cur" using 1(2) by (auto simp: hard_split.simps [of n cur])
    with False show ?thesis by auto
  qed
qed

lemma hard_split_rest: "hard_split n cur = (cs, r) \<Longrightarrow> cur \<noteq> [] \<Longrightarrow> r \<noteq> []"
proof (induction n cur arbitrary: cs r rule: hard_split.induct)
  case (1 n cur)
  show ?case
  proof (cases "0 < n \<and> n < length cur")
    case True
    obtain ds s where d: "hard_split n (drop n cur) = (ds, s)" by (cases "hard_split n (drop n cur)")
    have "r = s" using 1(2) True by (simp add: hard_split.simps [of n cur] d)
    with 1(1) [OF True d] True show ?thesis by auto
  next
    case False
    then show ?thesis using 1(2,3) by (auto simp: hard_split.simps [of n cur])
  qed
qed

lemma chunk_lines_ok:
  assumes "0 < n" and "length cur \<le> n"
  shows "concat (chunk_lines n cur ls) = cur @ concat ls \<and> (\<forall>c\<in>set (chunk_lines n cur ls). c \<noteq> [] \<and> length c \<le> n)"
  using assms(2)
proof (induction ls arbitrary: cur)
  case (Cons line ls)
  define start where "start = (if cur \<noteq> [] \<and> n < length cur + length line then line else cur @ line)"
  define before where "before = (if cur \<noteq> [] \<and> n < length cur + length line then [cur] else [])"
  obtain cs r where h: "hard_split n start = (cs, r)" by (cases "hard_split n start")
  from hard_split_ok [OF h] assms(1) have s: "concat cs @ r = start" "\<forall>c\<in>set cs. length c = n" "length r \<le> n" by auto
  have e: "chunk_lines n cur (line # ls) = before @ cs @ chunk_lines n r ls"
    using h by (auto simp: start_def before_def split: if_splits)
  have "concat before @ start = cur @ line" by (simp add: before_def start_def)
  moreover have "concat (chunk_lines n cur (line # ls)) = (concat before @ (concat cs @ r)) @ concat ls"
    using Cons.IH [OF s(3)] by (simp add: e del: chunk_lines.simps)
  ultimately have "concat (chunk_lines n cur (line # ls)) = cur @ concat (line # ls)" by (simp add: s(1))
  moreover have "\<forall>c\<in>set cs. c \<noteq> [] \<and> length c \<le> n" using s(2) assms(1) by auto
  moreover have "\<forall>c\<in>set before. c \<noteq> [] \<and> length c \<le> n" using Cons.prems by (simp add: before_def)
  ultimately show ?case using Cons.IH [OF s(3)] by (auto simp: e simp del: chunk_lines.simps)
qed auto

text \<open>Cutting loses nothing and bounds every request. For every text and every setting the pieces put
  together again are the text; with a positive bound no piece is longer than it, and no piece but the
  whole of an empty text is empty; cutting always ends, however long a single line is.\<close>

theorem chunk_text_ok:
  "concat (chunk_text text n) = text \<and> chunk_text text n \<noteq> []
   \<and> list_all (\<lambda>c. (c = [] \<longleftrightarrow> text = []) \<and> (n \<le> 0 \<or> int (length c) \<le> n)) (chunk_text text n)"
proof (cases "n \<le> 0 \<or> int (length text) \<le> n")
  case False
  then have n: "0 < nat n" "text \<noteq> []" by auto
  have e: "chunk_text text n = chunk_lines (nat n) [] (splitlines_keep text)" using False by (simp add: chunk_text_def)
  from chunk_lines_ok [OF n(1), of "[]" "splitlines_keep text"]
  have c: "concat (chunk_text text n) = text" "\<forall>c\<in>set (chunk_text text n). c \<noteq> [] \<and> length c \<le> nat n" by (simp_all add: e)
  then have "chunk_text text n \<noteq> []" using n(2) by auto
  moreover have "list_all (\<lambda>c. (c = [] \<longleftrightarrow> text = []) \<and> (n \<le> 0 \<or> int (length c) \<le> n)) (chunk_text text n)"
    unfolding list_all_iff using c(2) n(2) False by auto
  ultimately show ?thesis using c(1) by blast
qed (auto simp: chunk_text_def)

subsection \<open>The service's answer\<close>

text \<open>\<open>k in v\<close>, \<open>v[k]\<close>, iterating over a value, and \<open>int(v)\<close>\<close>

definition has_key :: "string \<Rightarrow> json \<Rightarrow> bool result" where
  "has_key k v = (case v of
     JObj kvs \<Rightarrow> Inr (dict_get kvs k \<noteq> None) | JArr vs \<Rightarrow> Inr (JStr k \<in> set vs)
   | JStr s \<Rightarrow> Inr (contains_sub k s) | _ \<Rightarrow> Inl TypeError)"

definition at_key :: "string \<Rightarrow> json \<Rightarrow> json result" where
  "at_key k v = (case v of
     JObj kvs \<Rightarrow> (case dict_get kvs k of None \<Rightarrow> Inl (KeyError k) | Some x \<Rightarrow> Inr x) | _ \<Rightarrow> Inl TypeError)"

definition items_of :: "json \<Rightarrow> json list result" where
  "items_of v = (case v of
     JArr vs \<Rightarrow> Inr vs | JObj kvs \<Rightarrow> Inr (map (JStr \<circ> fst) kvs) | JStr s \<Rightarrow> Inr (map (\<lambda>c. JStr [c]) s) | _ \<Rightarrow> Inl TypeError)"

definition int_text :: "string \<Rightarrow> int option" where
  "int_text s = (case strip s of
     [] \<Rightarrow> None
   | c # cs \<Rightarrow>
       (let d = (if c = CHR ''-'' \<or> c = CHR ''+'' then cs else c # cs);
            t = filter (\<lambda>x. x \<noteq> CHR ''_'') d
        in if d \<noteq> [] \<and> underscores_ok d \<and> list_all is_decimal t
           then Some (if c = CHR ''-'' then - int (nat_of_digits t) else int (nat_of_digits t)) else None))"

definition py_int :: "json \<Rightarrow> int result" where
  "py_int v = (case v of
     JInt n \<Rightarrow> Inr n
   | JBool b \<Rightarrow> Inr (if b then 1 else 0)
   | JFloat s \<Rightarrow> (case fl_text s of Some (Fin q) \<Rightarrow> Inr (if q < 0 then ceiling q else floor q) | _ \<Rightarrow> Inl ValueError)
   | JStr s \<Rightarrow> (case int_text s of None \<Rightarrow> Inl ValueError | Some n \<Rightarrow> Inr n)
   | _ \<Rightarrow> Inl TypeError)"

definition or_list :: "json \<Rightarrow> json" where
  "or_list v = (if py_truth v then v else JArr [])"

record entity =
  e_type :: string
  e_text :: string
  e_start :: int
  e_end :: int
  e_layer :: string
  e_score :: rat

definition entity_score :: "json \<Rightarrow> rat result" where
  "entity_score e =
     rbind (has_key ''score'' e) (\<lambda>b.
     if \<not> b then Inl (AnonymizationInvariantError ''entiteit-zonder-score'')
     else rbind (at_key ''score'' e) (\<lambda>v. rbind (py_float v) (\<lambda>f. case f of Fin q \<Rightarrow> Inr q | _ \<Rightarrow> Inl ValueError)))"

definition read_entity :: "json \<Rightarrow> entity option result" where
  "read_entity e =
     rbind (entity_score e) (\<lambda>score.
     rbind (has_key ''start'' e) (\<lambda>has_start.
     rbind (has_key ''end'' e) (\<lambda>has_end.
     if \<not> has_start \<or> \<not> has_end then Inr None
     else rbind (at_key ''entity_type'' e) (\<lambda>ty.
          rbind (get_or e ''text'' (JStr [])) (\<lambda>tx.
          rbind (rbind (at_key ''start'' e) py_int) (\<lambda>a.
          rbind (rbind (at_key ''end'' e) py_int) (\<lambda>b.
          Inr (Some \<lparr>e_type = py_str ty, e_text = py_str tx, e_start = a, e_end = b,
            e_layer = OPENANONYMISER, e_score = score\<rparr>))))))))"

definition detect_one :: "(string \<Rightarrow> json result) \<Rightarrow> string \<Rightarrow> entity list result" where
  "detect_one post text =
     rbind (post text) (\<lambda>answer.
     rbind (get_or answer ''entities_found'' JNull) (\<lambda>found.
     rbind (items_of (or_list found)) (\<lambda>es.
     rbind (rmap read_entity es) (\<lambda>out. Inr (List.map_filter id out)))))"

text \<open>The offset of each piece in the whole text.\<close>

fun with_bases :: "nat \<Rightarrow> string list \<Rightarrow> (nat \<times> string) list" where
  "with_bases base [] = []"
| "with_bases base (c # cs) = (base, c) # with_bases (base + length c) cs"

definition shift :: "nat \<Rightarrow> entity \<Rightarrow> entity" where
  "shift off e = e\<lparr>e_start := e_start e + int off, e_end := e_end e + int off\<rparr>"

definition detect_entities :: "(string \<Rightarrow> json result) \<Rightarrow> int \<Rightarrow> string \<Rightarrow> entity list result" where
  "detect_entities post chunk_chars text =
     (let chunks = chunk_text text chunk_chars
      in if length chunks = 1 then detect_one post text
         else rbind (rmap (\<lambda>(off, chunk). rbind (detect_one post chunk) (\<lambda>es. Inr (map (shift off) es))) (with_bases 0 chunks))
                (\<lambda>per_chunk. Inr (concat per_chunk)))"

subsection \<open>The driver that lets the service redact\<close>

type_synonym engine_result = "string \<times> (string, nat) dict \<times> stats option"

definition redact_entity :: "rat \<Rightarrow> (string, nat) dict \<times> stats \<Rightarrow> json \<Rightarrow> ((string, nat) dict \<times> stats) result" where
  "redact_entity min_score = (\<lambda>(counts, stats) e.
     rbind (entity_score e) (\<lambda>score.
     rbind (at_key ''entity_type'' e) (\<lambda>ty.
     let label = lower (py_str ty)
     in Inr (dict_add label 1 counts, stats_add min_score stats OPENANONYMISER label score 1))))"

fun rfold :: "('a \<Rightarrow> 'b \<Rightarrow> 'a result) \<Rightarrow> 'a \<Rightarrow> 'b list \<Rightarrow> 'a result" where
  "rfold f a [] = Inr a"
| "rfold f a (x # xs) = rbind (f a x) (\<lambda>a. rfold f a xs)"

definition redact_one :: "(string \<Rightarrow> json result) \<Rightarrow> rat \<Rightarrow> string \<Rightarrow> (json \<times> (string, nat) dict \<times> stats) result" where
  "redact_one post min_score text =
     rbind (post text) (\<lambda>answer.
     rbind (get_or answer ''entities_found'' JNull) (\<lambda>found.
     rbind (items_of (or_list found)) (\<lambda>es.
     rbind (rfold (redact_entity min_score) ([], []) es) (\<lambda>(counts, stats).
     rbind (at_key ''anonymized_text'' answer) (\<lambda>t. Inr (t, counts, stats))))))"

definition add_counts :: "(string, nat) dict \<Rightarrow> (string, nat) dict \<Rightarrow> (string, nat) dict" where
  "add_counts counts c = foldl (\<lambda>d (label, n). dict_add label n d) counts c"

text \<open>\<open>''''.join(parts)\<close> wants strings.\<close>

definition str_part :: "json \<Rightarrow> string result" where
  "str_part v = (case v of JStr s \<Rightarrow> Inr s | _ \<Rightarrow> Inl TypeError)"

definition openanonymiser_redact :: "(string \<Rightarrow> json result) \<Rightarrow> int \<Rightarrow> rat \<Rightarrow> string \<Rightarrow> (json \<times> (string, nat) dict \<times> stats) result" where
  "openanonymiser_redact post chunk_chars min_score text =
     (let chunks = chunk_text text chunk_chars
      in if length chunks = 1 then redact_one post min_score text
         else rbind (rmap (redact_one post min_score) chunks) (\<lambda>results.
              rbind (rmap (\<lambda>(t, _). str_part t) results) (\<lambda>parts.
              Inr (JStr (concat parts), foldl (\<lambda>d (_, c, _). add_counts d c) [] results,
                foldl (\<lambda>d (_, _, s). stats_merge d s) [] results))))"

subsection \<open>Spans in the whole text\<close>

definition span_ok :: "string \<Rightarrow> entity \<Rightarrow> bool" where
  "span_ok text e = (0 \<le> e_start e \<and> e_start e \<le> e_end e \<and> e_end e \<le> int (length text)
     \<and> slice (nat (e_start e)) (nat (e_end e)) text = e_text e)"

lemma with_bases_mem: "(off, c) \<in> set (with_bases base cs) \<Longrightarrow> \<exists>xs ys. cs = xs @ c # ys \<and> off = base + length (concat xs)"
proof (induction base cs rule: with_bases.induct)
  case (2 base d cs)
  show ?case
  proof (cases "(off, c) = (base, d)")
    case True
    then show ?thesis by (intro exI [of _ "[]"] exI [of _ cs]) simp
  next
    case False
    with 2 obtain xs ys where "cs = xs @ c # ys" "off = base + length d + length (concat xs)" by auto
    then show ?thesis by (intro exI [of _ "d # xs"] exI [of _ ys]) simp
  qed
qed simp

lemma shift_span_ok:
  assumes "span_ok c e"
  shows "span_ok (x @ c @ y) (shift (length x) e)"
proof -
  define a b where "a = nat (e_start e)" and "b = nat (e_end e)"
  with assms have ab: "e_start e = int a" "e_end e = int b" "a \<le> b" "b \<le> length c"
    by (auto simp: span_ok_def)
  then have "slice a b c = e_text e" using assms by (simp add: span_ok_def)
  moreover have "nat (e_start e + int (length x)) = a + length x" "nat (e_end e + int (length x)) = b + length x"
    using ab by simp_all
  ultimately show ?thesis using ab by (simp add: span_ok_def shift_def slice_def)
qed

text \<open>Cutting does not move a finding. If every span the service reports for a piece is where it says it
  is in that piece, every span found in the whole text is where it says it is in the whole text, however
  the text was cut; and each piece's findings are among them.\<close>

theorem detect_entities_spans:
  assumes "\<And>c es e. c \<in> set (chunk_text text n) \<Longrightarrow> detect_one post c = Inr es \<Longrightarrow> e \<in> set es \<Longrightarrow> span_ok c e"
    and "detect_entities post n text = Inr es"
  shows "list_all (span_ok text) es
    \<and> list_all (\<lambda>c. \<exists>fs. detect_one post c = Inr fs \<and> set (map e_text fs) \<subseteq> set (map e_text es)) (chunk_text text n)"
proof (cases "length (chunk_text text n) = 1")
  case True
  then obtain c where c: "chunk_text text n = [c]" by (cases "chunk_text text n") auto
  with chunk_text_ok [of "text" n] have "c = text" by simp
  moreover from this assms(2) c have "detect_one post text = Inr es" by (simp add: detect_entities_def)
  ultimately show ?thesis using assms(1) c by (auto simp: list_all_iff)
next
  case False
  define one where "one = (\<lambda>(off, chunk). rbind (detect_one post chunk) (\<lambda>es. Inr (map (shift off) es)))"
  let ?bases = "with_bases 0 (chunk_text text n)"
  obtain parts where p: "list_all2 (\<lambda>x y. one x = Inr y) ?bases parts" "es = concat parts"
    using assms(2) False by (auto simp: detect_entities_def Let_def result_simps rmap_eq_Inr simp flip: one_def)
  have bases: "map snd (with_bases b cs) = cs" for b cs by (induction b cs rule: with_bases.induct) simp_all
  have "span_ok text e" if e: "e \<in> set es" for e
  proof -
    from e p(2) obtain part where "part \<in> set parts" "e \<in> set part" by auto
    with list_all2_right [OF p(1)] obtain x where x: "x \<in> set ?bases" "one x = Inr part" by blast
    obtain off c where oc: "x = (off, c)" by (cases x)
    from x oc obtain fs where fs: "detect_one post c = Inr fs" "part = map (shift off) fs"
      by (auto simp: one_def result_simps)
    have "(off, c) \<in> set ?bases" using x(1) oc by simp
    from with_bases_mem [OF this] obtain xs ys where
      w: "chunk_text text n = xs @ c # ys" "off = length (concat xs)" by auto
    then have "text = concat xs @ c @ concat ys" using chunk_text_ok [of "text" n] by (metis concat.simps(2) concat_append)
    moreover obtain f where f: "f \<in> set fs" "e = shift off f" using fs(2) \<open>e \<in> set part\<close> by auto
    moreover have "span_ok c f" using assms(1) [OF _ fs(1) f(1)] w(1) by simp
    ultimately show ?thesis using shift_span_ok [of c f "concat xs" "concat ys"] w(2) by simp
  qed
  moreover have "\<exists>fs. detect_one post c = Inr fs \<and> set (map e_text fs) \<subseteq> set (map e_text es)"
    if c: "c \<in> set (chunk_text text n)" for c
  proof -
    from c bases [of 0 "chunk_text text n"] obtain off where "(off, c) \<in> set ?bases" by (metis (no_types, lifting) imageE list.set_map prod.collapse)
    with list_all2_left [OF p(1)] obtain part where "part \<in> set parts" "one (off, c) = Inr part" by blast
    then obtain fs where fs: "detect_one post c = Inr fs" "part = map (shift off) fs" by (auto simp: one_def result_simps)
    then have "map e_text fs = map e_text part" by (simp add: shift_def)
    then have "set (map e_text fs) = e_text ` set part" by simp
    also have "\<dots> \<subseteq> e_text ` set es" unfolding p(2) using \<open>part \<in> set parts\<close> by (intro image_mono) auto
    finally show ?thesis using fs(1) by simp
  qed
  ultimately show ?thesis unfolding list_all_iff by blast
qed

subsection \<open>Concrete instances\<close>

text \<open>A service that reports the first two characters of every piece.\<close>

definition sample_post :: "string \<Rightarrow> json result" where
  "sample_post t = Inr (JObj [(''entities_found'', JArr [JObj [(''entity_type'', JStr ''PERSON''), (''text'', JStr (take 2 t)),
     (''start'', JInt 0), (''end'', JInt (int (min 2 (length t)))), (''score'', JInt 1)]])])"

lemma sample_detect: "detect_one sample_post t = Inr [\<lparr>e_type = ''PERSON'', e_text = take 2 t, e_start = 0,
    e_end = int (min 2 (length t)), e_layer = OPENANONYMISER, e_score = 1\<rparr>]"
  by (simp add: detect_one_def sample_post_def get_or_def or_list_def py_truth_def items_of_def read_entity_def
      entity_score_def has_key_def at_key_def py_float_def py_int_def py_str_def List.map_filter_def)

lemma sample_chunks: "chunk_text ''jan en piet'' 4 = [''jan '', ''en p'', ''iet'']"
  by code_simp

lemma detect_entities_spans_witness:
  "\<exists>es. detect_entities sample_post 4 ''jan en piet'' = Inr es \<and> list_all (span_ok ''jan en piet'') es \<and> length es = 3"
proof -
  obtain es where es: "detect_entities sample_post 4 ''jan en piet'' = Inr es" "length es = 3"
    by (simp add: detect_entities_def sample_chunks sample_detect Let_def)
  have "span_ok c e" if "detect_one sample_post c = Inr es" "e \<in> set es" for c es e
    using that by (auto simp: sample_detect span_ok_def slice_def min_def)
  then have "list_all (span_ok ''jan en piet'') es" using detect_entities_spans [OF _ es(1)] by blast
  with es show ?thesis by blast
qed

end
