(* ===== verification/Drivers.thy ===== *)
theory Drivers
  imports Entities Tokens "HOL-Library.Sublist"
begin

text \<open>
  What refines the detections and the drivers that replace for good: \<open>detection_lists.py\<close>,
  \<open>particle_names.py\<close>, \<open>person_spans.py\<close>, \<open>combinations.py\<close>, \<open>anonymizer.py\<close> and the driver class of
  \<open>openanonymiser_driver.py\<close>. A pattern that comes out of a JSON file is compiled by the parameter
  \<open>compile\<close>; what is used of it is where it matches a text and whether it matches a whole value. A file of
  the list directory is what \<open>file\<close> gives for its name, or none.
\<close>

subsection \<open>Allow and deny lists\<close>

record pattern =
  p_finditer :: "string \<Rightarrow> (nat \<times> string) list"
  p_fullmatch :: "string \<Rightarrow> bool"

record lists =
  l_allow :: "(string, pattern list) dict"
  l_deny :: "(string, pattern list) dict"
  l_hash :: "string option"

definition no_lists :: lists where
  "no_lists = \<lparr>l_allow = [], l_deny = [], l_hash = None\<rparr>"

definition LIST_LAYER :: string where "LIST_LAYER = ''list''"

definition compile_json :: "(string \<Rightarrow> pattern result) \<Rightarrow> json \<Rightarrow> pattern result" where
  "compile_json compile v = (case v of JStr s \<Rightarrow> compile s | _ \<Rightarrow> Inl TypeError)"

definition read_rule :: "(string \<Rightarrow> pattern result) \<Rightarrow> string \<Rightarrow> json \<Rightarrow> pattern result" where
  "read_rule compile name rule = (case rule of
     JStr s \<Rightarrow> if name = ''allow'' then Inl ValueError else compile s
   | JObj kvs \<Rightarrow>
       (let patroon = (case dict_get kvs ''patroon'' of None \<Rightarrow> JNull | Some v \<Rightarrow> v);
            reden = (case dict_get kvs ''reden'' of None \<Rightarrow> JStr [] | Some v \<Rightarrow> v)
        in if \<not> py_truth patroon then Inl ValueError
           else if strip (py_str reden) = [] then Inl ValueError
           else compile_json compile patroon)
   | _ \<Rightarrow> Inl ValueError)"

definition patronen :: "(string \<Rightarrow> pattern result) \<Rightarrow> string \<Rightarrow> json \<Rightarrow> pattern list result" where
  "patronen compile name rules = (case rules of JArr rs \<Rightarrow> rmap (read_rule compile name) rs | _ \<Rightarrow> Inl ValueError)"

definition read_list :: "(string \<Rightarrow> pattern result) \<Rightarrow> string \<Rightarrow> json \<Rightarrow> (string, pattern list) dict result" where
  "read_list compile name data = (case data of
     JObj kvs \<Rightarrow> rfold (\<lambda>d (t, pats). if starts_with ''_'' t then Inr d
        else rbind (patronen compile name pats) (\<lambda>ps. Inr (dict_set (upper t) ps d))) [] kvs
   | _ \<Rightarrow> Inl ValueError)"

text \<open>\<open>raw or b"{}"\<close>\<close>

definition raw_json :: "string \<Rightarrow> json result" where
  "raw_json raw = loads_bytes (if raw = [] then ''{}'' else raw)"

definition load_lists :: "(string \<Rightarrow> pattern result) \<Rightarrow> (string \<Rightarrow> string) \<Rightarrow> (string \<Rightarrow> string option) \<Rightarrow> string option \<Rightarrow> lists result" where
  "load_lists compile HB file directory =
     (if directory = None \<or> directory = Some [] then Inr no_lists
      else let raw_a = (case file ''allow.json'' of None \<Rightarrow> ''{}'' | Some r \<Rightarrow> r);
               raw_d = (case file ''deny.json'' of None \<Rightarrow> ''{}'' | Some r \<Rightarrow> r)
           in rbind (rbind (raw_json raw_a) (read_list compile ''allow'')) (\<lambda>allow.
              rbind (rbind (raw_json raw_d) (read_list compile ''deny'')) (\<lambda>deny.
              Inr \<lparr>l_allow = allow, l_deny = deny,
                l_hash = Some (HB (''allow'' @ CHR 0x00 # raw_a @ CHR 0x00 # ''deny'' @ CHR 0x00 # raw_d @ [CHR 0x00]))\<rparr>)))"

definition rules_of :: "(string, pattern list) dict \<Rightarrow> string \<Rightarrow> pattern list" where
  "rules_of d t = (case dict_get d t of None \<Rightarrow> [] | Some ps \<Rightarrow> ps)"

definition allowed :: "lists \<Rightarrow> string \<Rightarrow> string \<Rightarrow> bool" where
  "allowed ls t value = list_ex (\<lambda>p. p_fullmatch p value) (rules_of (l_allow ls) t)"

definition deny_entities :: "lists \<Rightarrow> string \<Rightarrow> entity list" where
  "deny_entities ls text = concat (map (\<lambda>(t, ps). concat (map (\<lambda>p. map (\<lambda>(i, v).
     \<lparr>e_type = t, e_text = v, e_start = int i, e_end = int (i + length v), e_layer = LIST_LAYER, e_score = 1\<rparr>)
     (p_finditer p text)) ps)) (l_deny ls))"

fun split_allowed :: "lists \<Rightarrow> entity list \<Rightarrow> entity list \<Rightarrow> (string, nat) dict \<Rightarrow> entity list \<times> (string, nat) dict" where
  "split_allowed ls [] kept suppressed = (kept, suppressed)"
| "split_allowed ls (e # es) kept suppressed =
     (if allowed ls (upper (e_type e)) (e_text e)
      then split_allowed ls es kept (dict_add (upper (e_type e)) 1 suppressed)
      else split_allowed ls es (kept @ [e]) suppressed)"

definition apply_lists :: "lists \<Rightarrow> string \<Rightarrow> entity list \<Rightarrow> entity list \<times> (string, nat) dict" where
  "apply_lists ls text detections = split_allowed ls (detections @ deny_entities ls text) [] []"

definition allowed_spans :: "lists \<Rightarrow> string \<Rightarrow> string \<Rightarrow> (nat \<times> nat) list" where
  "allowed_spans ls text ty =
     concat (map (\<lambda>p. map (\<lambda>(i, v). (i, i + length v)) (filter (\<lambda>(i, v). allowed ls (upper ty) v) (p_finditer p text)))
       (rules_of (l_deny ls) (upper ty)))"

subsection \<open>Names with a particle\<close>

definition PARTICLES :: "string list" where
  "PARTICLES = [''van der'', ''van den'', ''van'', ''de'', ''ter'', ''ten'']"

definition name_head :: "char \<Rightarrow> bool" where
  "name_head c = (is_upper_az c \<or> 192 \<le> cp c \<and> cp c \<le> 221)"

definition name_tail :: "char \<Rightarrow> bool" where
  "name_tail c = (is_word c \<or> 224 \<le> cp c \<and> cp c \<le> 255 \<or> c = CHR 0x27 \<or> c = CHR ''-'')"

definition gazetteer_entry :: "json \<Rightarrow> json result" where
  "gazetteer_entry entry = (case entry of
     JObj kvs \<Rightarrow>
       (let text_of = (\<lambda>k. case dict_get kvs k of None \<Rightarrow> JStr [] | Some v \<Rightarrow> v)
        in if strip (py_str (text_of ''naam'')) = [] then Inl ValueError
           else if strip (py_str (text_of ''reden'')) = [] then Inl ValueError
           else Inr (text_of ''naam''))
   | _ \<Rightarrow> Inl ValueError)"

definition parse_gazetteer :: "string \<Rightarrow> json list result" where
  "parse_gazetteer raw = (case loads raw of
     Some (JArr es) \<Rightarrow> rmap gazetteer_entry es | _ \<Rightarrow> Inl ValueError)"

definition build_pattern :: "string list \<Rightarrow> rx result" where
  "build_pattern first_names =
     (if first_names = [] then Inl ValueError
      else Inr (Cat Bound (Cat (alts (map lit (sort_key (\<lambda>n. - int (length n)) (remdups first_names))))
        (Cat (chr (CHR '' '')) (Cat (alts (map lit PARTICLES)) (Cat (chr (CHR '' ''))
        (Cat (Cls name_head) (Cat (Rep name_tail 0 None) Bound))))))))"

definition PARTICLE_LAYER :: string where "PARTICLE_LAYER = ''dutch_particle_name''"

definition particle_detect :: "string list \<Rightarrow> string \<Rightarrow> entity list result" where
  "particle_detect first_names text =
     rbind (build_pattern first_names) (\<lambda>pattern.
     Inr (map (\<lambda>(i, v). \<lparr>e_type = ''PERSON'', e_text = v, e_start = int i, e_end = int (i + length v),
       e_layer = PARTICLE_LAYER, e_score = 1\<rparr>) (finditer pattern text)))"

subsection \<open>One person, one row\<close>

fun contains_in_order :: "string list \<Rightarrow> string list \<Rightarrow> bool" where
  "contains_in_order [] ys = True"
| "contains_in_order (x # xs) ys =
     (case dropWhile (\<lambda>y. y \<noteq> x) ys of [] \<Rightarrow> False | _ # r \<Rightarrow> contains_in_order xs r)"

definition is_absorbed :: "string \<Rightarrow> string list \<Rightarrow> bool" where
  "is_absorbed value other_values = list_ex (\<lambda>other. \<not> (other = value \<or> length other \<le> length value)
     \<and> contains_in_order (words value) (words other)) other_values"

definition person_values :: "entity list \<Rightarrow> string list" where
  "person_values es = map e_text (filter (\<lambda>e. upper (e_type e) = ''PERSON'' \<and> e_text e \<noteq> []) es)"

definition drop_absorbed :: "entity list \<Rightarrow> entity list" where
  "drop_absorbed entities =
     (let vs = person_values entities; absorbed = filter (\<lambda>v. is_absorbed v vs) vs
      in filter (\<lambda>e. \<not> (upper (e_type e) = ''PERSON'' \<and> e_text e \<in> set absorbed)) entities)"

subsection \<open>Types that identify together\<close>

record combination =
  cb_types :: "string list"
  cb_reason :: string

definition make_combination :: "string list \<Rightarrow> string \<Rightarrow> combination result" where
  "make_combination types reason =
     (if length (remdups types) < 2 then Inl ValueError
      else if reason = [] \<or> strip reason = [] then Inl ValueError
      else Inr \<lparr>cb_types = types, cb_reason = reason\<rparr>)"

definition parse_combinations :: "(string list \<times> string) list \<Rightarrow> combination list result" where
  "parse_combinations ds = rmap (\<lambda>(types, reason). make_combination (map upper types) reason) ds"

definition unbroken :: "combination \<Rightarrow> string list \<Rightarrow> bool" where
  "unbroken c pseudonymised = (set (map upper (cb_types c)) \<inter> set (map upper pseudonymised) = {})"

definition combination_findings :: "combination list \<Rightarrow> string list \<Rightarrow> combination list" where
  "combination_findings cs pseudonymised = filter (\<lambda>c. unbroken c pseudonymised) cs"

subsection \<open>The drivers\<close>

record anon_result =
  an_text :: string
  an_counts :: "(string, nat) dict"
  an_detections :: stats
  an_lists_hash :: "string option"

definition deterministic_step :: "string \<times> (string, nat) dict \<times> stats \<Rightarrow> detector \<Rightarrow> (string \<times> (string, nat) dict \<times> stats) result" where
  "deterministic_step = (\<lambda>(text, counts, stats) (label, pattern, validate, ctx).
     rbind (substitute text pattern (\<lambda>v st. Inr (CHR ''['' # upper label @ '']'', st)) validate ctx ())
       (\<lambda>(t, n, _). Inr (t, dict_set label n counts, stats_add 0 stats DETERMINISTIC label 1 n)))"

definition deterministic_anonymize :: "string \<Rightarrow> anon_result result" where
  "deterministic_anonymize text =
     rbind (rfold deterministic_step (text, [], []) DETECTORS) (\<lambda>(t, counts, stats).
     Inr \<lparr>an_text = t, an_counts = counts, an_detections = stats, an_lists_hash = None\<rparr>)"

text \<open>\<open>p.subn(f"[{t}]", text)\<close> for a type without a backslash: the matches, left to right, replaced.\<close>

fun replace_spans :: "string \<Rightarrow> nat \<Rightarrow> string \<Rightarrow> (nat \<times> string) list \<Rightarrow> string" where
  "replace_spans mark k s [] = s"
| "replace_spans mark k s ((i, v) # ms) =
     take (i - k) s @ mark @ replace_spans mark (i + length v) (drop (i - k + length v) s) ms"

definition apply_deny_one :: "string \<Rightarrow> string \<times> stats \<Rightarrow> pattern \<Rightarrow> rat \<Rightarrow> string \<times> stats" where
  "apply_deny_one t = (\<lambda>(text, stats) p min_score.
     (let ms = p_finditer p text
      in (replace_spans (CHR ''['' # t @ '']'') 0 text ms, stats_add min_score stats LIST_LAYER t 1 (length ms))))"

definition apply_deny :: "lists \<Rightarrow> rat \<Rightarrow> string \<Rightarrow> stats \<Rightarrow> string \<times> stats" where
  "apply_deny ls min_score text stats =
     foldl (\<lambda>a (t, ps). foldl (\<lambda>a p. apply_deny_one t a p min_score) a ps) (text, stats) (l_deny ls)"

definition openanonymiser_anonymize ::
    "(string \<Rightarrow> (json \<times> (string, nat) dict \<times> stats option) result) \<Rightarrow> lists \<Rightarrow> rat \<Rightarrow> string
      \<Rightarrow> (json \<times> anon_result) result" where
  "openanonymiser_anonymize engine ls min_score text =
     rbind (deterministic_anonymize text) (\<lambda>d.
     let (t, pre) = apply_deny ls min_score (an_text d) (stats_merge [] (an_detections d));
         d = d\<lparr>an_text := t, an_detections := pre, an_lists_hash := l_hash ls\<rparr>
     in if strip t = [] then Inr (JStr t, d)
        else (case engine t of
            Inl _ \<Rightarrow> Inl AnonymizationEngineError
          | Inr (redacted, engine_counts, agg) \<Rightarrow>
              (let stats = stats_merge [] (an_detections d);
                   stats = (case agg of None \<Rightarrow> stats | Some a \<Rightarrow> stats_merge stats a)
               in Inr (redacted, d\<lparr>an_counts := add_counts (an_counts d) engine_counts, an_detections := stats\<rparr>))))"

subsection \<open>The lists\<close>

lemma split_allowed_eq:
  "fst (split_allowed ls es kept d) = kept @ filter (\<lambda>e. \<not> allowed ls (upper (e_type e)) (e_text e)) es
   \<and> dict_count (snd (split_allowed ls es kept d)) t = dict_count d t
       + length (filter (\<lambda>e. allowed ls (upper (e_type e)) (e_text e) \<and> upper (e_type e) = t) es)"
  by (induction es arbitrary: kept d) (auto simp: dict_count_add)

text \<open>The lists do what their rules say and no more. What is kept are exactly the detections and the deny
  matches, in their order, that no allow rule of their own type matches as a whole; a rule of another type
  never removes anything; and for every type the number counted as suppressed is the number removed, so
  nothing disappears silently.\<close>

theorem apply_lists_exact:
  "fst (apply_lists ls text es) =
     filter (\<lambda>e. \<not> list_ex (\<lambda>p. p_fullmatch p (e_text e)) (rules_of (l_allow ls) (upper (e_type e)))) (es @ deny_entities ls text)
   \<and> dict_count (snd (apply_lists ls text es)) t =
     length (filter (\<lambda>e. upper (e_type e) = t \<and> list_ex (\<lambda>p. p_fullmatch p (e_text e)) (rules_of (l_allow ls) t)) (es @ deny_entities ls text))"
proof -
  have "filter (\<lambda>e. list_ex (\<lambda>p. p_fullmatch p (e_text e)) (rules_of (l_allow ls) (upper (e_type e))) \<and> upper (e_type e) = t) xs
      = filter (\<lambda>e. upper (e_type e) = t \<and> list_ex (\<lambda>p. p_fullmatch p (e_text e)) (rules_of (l_allow ls) t)) xs" for xs :: "entity list"
    by (rule filter_cong) auto
  moreover have "dict_count [] t = 0" by (simp add: dict_count_def)
  ultimately show ?thesis
    using split_allowed_eq [of ls "es @ deny_entities ls text" "[]" "[]" t]
    by (simp add: apply_lists_def allowed_def del: filter_append)
qed

lemma rfold_step: "rfold f a xs = Inr b \<Longrightarrow> x \<in> set xs \<Longrightarrow> \<exists>a1 a2. f a1 x = Inr a2"
  by (induction f a xs arbitrary: b rule: rfold.induct) (auto simp: result_simps)

text \<open>An exception without a reason is refused. If the lists load, every rule of every type in
  \<open>allow.json\<close> is an object with a pattern and a reason that is not blank; a bare pattern, an object
  without a reason or a list that is not one stops the load, it is never skipped.\<close>

theorem load_lists_reasons:
  assumes "load_lists compile HB file directory = Inr ls" and "directory = Some dir" and "dir \<noteq> []"
    and "file ''allow.json'' = Some raw" and "raw_json raw = Inr (JObj kvs)"
    and "(t, rules) \<in> set kvs" and "\<not> starts_with ''_'' t"
  shows "\<exists>rs. rules = JArr rs \<and> list_all (\<lambda>r. \<exists>fs s. r = JObj fs \<and> dict_get fs ''patroon'' = Some (JStr s) \<and> s \<noteq> []
    \<and> (\<exists>reden. dict_get fs ''reden'' = Some reden \<and> strip (py_str reden) \<noteq> [])) rs"
proof -
  have dir: "\<not> (directory = None \<or> directory = Some [])" using assms(2,3) by simp
  have "load_lists compile HB file directory = rbind (read_list compile ''allow'' (JObj kvs)) (\<lambda>allow.
      rbind (rbind (raw_json (case file ''deny.json'' of None \<Rightarrow> ''{}'' | Some r \<Rightarrow> r)) (read_list compile ''deny'')) (\<lambda>deny.
      Inr \<lparr>l_allow = allow, l_deny = deny, l_hash = Some (HB (''allow'' @ CHR 0x00 # raw @ CHR 0x00 # ''deny'' @ CHR 0x00
        # (case file ''deny.json'' of None \<Rightarrow> ''{}'' | Some r \<Rightarrow> r) @ [CHR 0x00]))\<rparr>))"
    unfolding load_lists_def if_not_P [OF dir] Let_def assms(4) by (simp add: assms(5))
  with assms(1) have "\<exists>allow. read_list compile ''allow'' (JObj kvs) = Inr allow"
    by (cases "read_list compile ''allow'' (JObj kvs)") simp_all
  then obtain allow where "rfold (\<lambda>d (t, pats). if starts_with ''_'' t then Inr d
        else rbind (patronen compile ''allow'' pats) (\<lambda>ps. Inr (dict_set (upper t) ps d))) [] kvs = Inr allow"
    by (simp only: read_list_def json.case) blast
  from rfold_step [OF this assms(6)] obtain a1 a2 where
    "rbind (patronen compile ''allow'' rules) (\<lambda>ps. Inr (dict_set (upper t) ps a1)) = Inr a2"
    using assms(7) by (simp only: split if_False) blast
  then obtain ps where "patronen compile ''allow'' rules = Inr ps"
    by (cases "patronen compile ''allow'' rules") simp_all
  then obtain rs where rs: "rules = JArr rs" "rmap (read_rule compile ''allow'') rs = Inr ps"
    by (auto simp: patronen_def split: json.splits)
  have "\<exists>fs s. r = JObj fs \<and> dict_get fs ''patroon'' = Some (JStr s) \<and> s \<noteq> []
      \<and> (\<exists>reden. dict_get fs ''reden'' = Some reden \<and> strip (py_str reden) \<noteq> [])" if r: "r \<in> set rs" for r
  proof -
    obtain q where q: "read_rule compile ''allow'' r = Inr q"
      using list_all2_left [OF rs(2) [unfolded rmap_eq_Inr] r] by blast
    then obtain fs where fs: "r = JObj fs" by (cases r) (simp_all add: read_rule_def)
    obtain v where v: "dict_get fs ''patroon'' = Some v"
      using q by (cases "dict_get fs ''patroon''") (simp_all add: fs read_rule_def Let_def py_truth_def)
    obtain w where w: "dict_get fs ''reden'' = Some w"
      using q by (cases "dict_get fs ''reden''") (simp_all add: fs read_rule_def Let_def py_str_def strip_def lstrip_def rstrip_def split: if_splits)
    from q have "py_truth v" "strip (py_str w) \<noteq> []" "compile_json compile v = Inr q"
      by (auto simp: fs read_rule_def v w Let_def split: if_splits)
    then show ?thesis using fs v w by (cases v) (auto simp: compile_json_def py_truth_def)
  qed
  then show ?thesis using rs(1) by (auto simp: list_all_iff)
qed

subsection \<open>Absorption\<close>

lemma contains_subseq: "contains_in_order xs ys \<longleftrightarrow> subseq xs ys"
proof (induction ys arbitrary: xs)
  case Nil
  show ?case by (cases xs) simp_all
next
  case (Cons y ys)
  show ?case
  proof (cases xs)
    case (Cons x xs')
    then show ?thesis using Cons.IH [of xs'] Cons.IH [of xs] by auto
  qed simp
qed

definition is_person :: "entity \<Rightarrow> bool" where
  "is_person e = (upper (e_type e) = ''PERSON'' \<and> e_text e \<noteq> [])"

lemma person_values_mem: "v \<in> set (person_values es) \<longleftrightarrow> (\<exists>e\<in>set es. is_person e \<and> e_text e = v)"
  by (auto simp: person_values_def is_person_def)

lemma is_absorbed_iff: "is_absorbed v vs \<longleftrightarrow> (\<exists>w\<in>set vs. length v < length w \<and> subseq (words v) (words w))"
  by (force simp: is_absorbed_def list_ex_iff contains_subseq)

lemma drop_absorbed_mem: "e \<in> set (drop_absorbed es) \<longleftrightarrow> e \<in> set es \<and> \<not> (is_person e \<and> is_absorbed (e_text e) (person_values es))"
  by (auto simp: drop_absorbed_def Let_def person_values_mem is_person_def)

lemma absorbing_kept:
  assumes "is_absorbed v vs"
  shows "\<exists>w\<in>set vs. length v < length w \<and> subseq (words v) (words w) \<and> \<not> is_absorbed w vs"
proof -
  define Q where "Q u = (u \<in> set vs \<and> length v < length u \<and> subseq (words v) (words u))" for u
  obtain v0 where v0: "Q v0" using assms by (auto simp: is_absorbed_iff Q_def)
  have b: "\<forall>u. Q u \<longrightarrow> length u < Suc (Max (length ` set vs))" by (simp add: Q_def less_Suc_eq_le)
  from ex_has_greatest_nat [of Q, OF v0 b] obtain w where w: "Q w" "\<And>u. Q u \<Longrightarrow> length u \<le> length w" by blast
  have "\<not> is_absorbed w vs"
  proof
    assume "is_absorbed w vs"
    then obtain u where u: "u \<in> set vs" "length w < length u" "subseq (words w) (words u)" by (auto simp: is_absorbed_iff)
    have "subseq (words v) (words u)" using w(1) u(3) unfolding Q_def by (elim conjE) (rule subseq_order.trans)
    then have "Q u" using w(1) u by (simp add: Q_def)
    from w(2) [OF this] u(2) show False by simp
  qed
  with w(1) show ?thesis unfolding Q_def by blast
qed

text \<open>One person, one row, and never a person less. Dropping absorbed names only leaves out entries: what is
  left are the others in their order, and every entry that is left out is a \<open>PERSON\<close> whose words stand, in
  order, in a longer \<open>PERSON\<close> value that is kept, so a chain of ever longer names still ends in a row.\<close>

theorem drop_absorbed_covers:
  "subseq (drop_absorbed es) es
   \<and> list_all (\<lambda>e. e \<in> set (drop_absorbed es) \<or> upper (e_type e) = ''PERSON'' \<and> (\<exists>f. f \<in> set (drop_absorbed es)
        \<and> upper (e_type f) = ''PERSON'' \<and> length (e_text e) < length (e_text f) \<and> subseq (words (e_text e)) (words (e_text f)))) es"
proof
  show "subseq (drop_absorbed es) es" by (simp add: drop_absorbed_def Let_def)
  have "e \<in> set (drop_absorbed es) \<or> upper (e_type e) = ''PERSON'' \<and> (\<exists>f. f \<in> set (drop_absorbed es)
        \<and> upper (e_type f) = ''PERSON'' \<and> length (e_text e) < length (e_text f) \<and> subseq (words (e_text e)) (words (e_text f)))"
    if e: "e \<in> set es" for e
  proof (cases "is_person e \<and> is_absorbed (e_text e) (person_values es)")
    case True
    then obtain w where w: "w \<in> set (person_values es)" "length (e_text e) < length w"
        "subseq (words (e_text e)) (words w)" "\<not> is_absorbed w (person_values es)" using absorbing_kept by blast
    then obtain f where "f \<in> set es" "is_person f" "e_text f = w" by (auto simp: person_values_mem)
    with w have "f \<in> set (drop_absorbed es)" "is_person f" "e_text f = w" by (auto simp: drop_absorbed_mem)
    with w True show ?thesis unfolding is_person_def by blast
  next
    case False
    with e show ?thesis by (simp add: drop_absorbed_mem)
  qed
  then show "list_all (\<lambda>e. e \<in> set (drop_absorbed es) \<or> upper (e_type e) = ''PERSON'' \<and> (\<exists>f. f \<in> set (drop_absorbed es)
        \<and> upper (e_type f) = ''PERSON'' \<and> length (e_text e) < length (e_text f) \<and> subseq (words (e_text e)) (words (e_text f)))) es"
    unfolding list_all_iff by blast
qed

subsection \<open>What a name match is\<close>

lemma in_ends_alts: "q \<in> set (ends (alts rs) p) \<longleftrightarrow> (\<exists>r\<in>set rs. q \<in> set (ends r p))"
  by (induction rs) (auto simp: alts_def)

lemma in_ends_lit: "q \<in> set (ends (lit s) p) \<longleftrightarrow> snd p = s @ snd q \<and> fst q = rev s @ fst p"
proof (induction s arbitrary: p)
  case Nil
  show ?case unfolding lit.simps in_ends_Rep by auto
next
  case (Cons c s)
  show ?case
  proof (cases s)
    case Nil
    then show ?thesis by (auto simp: in_ends_chr)
  next
    case (Cons d t)
    then have "lit (c # s) = Cat (chr c) (lit s)" by simp
    then have "q \<in> set (ends (lit (c # s)) p) \<longleftrightarrow> (\<exists>p1. p1 \<in> set (ends (chr c) p) \<and> q \<in> set (ends (lit s) p1))"
      by (simp only: in_ends_Cat)
    also have "\<dots> \<longleftrightarrow> (\<exists>p1. snd p = c # snd p1 \<and> fst p1 = c # fst p \<and> snd p1 = s @ snd q \<and> fst q = rev s @ fst p1)"
      by (simp only: in_ends_chr Cons.IH) blast
    also have "\<dots> \<longleftrightarrow> snd p = (c # s) @ snd q \<and> fst q = rev (c # s) @ fst p"
      by (auto intro!: exI [of _ "(c # fst p, s @ snd q)"])
    finally show ?thesis .
  qed
qed

text \<open>The rule finds names and only names. With a gazetteer every match it reports stands where it says in
  the text and is a first name of the gazetteer, a particle and a last name that begins with a capital, so
  an institution whose first word is no first name is never taken for a person; without a gazetteer it
  refuses to run.\<close>

theorem particle_detect_sound:
  "case particle_detect names text of
     Inl _ \<Rightarrow> names = []
   | Inr es \<Rightarrow> names \<noteq> [] \<and> list_all (\<lambda>e. span_ok text e \<and> e_type e = ''PERSON'' \<and> (\<exists>n p h l. n \<in> set names \<and> p \<in> set PARTICLES
       \<and> name_head h \<and> e_text e = n @ '' '' @ p @ '' '' @ h # l)) es"
proof (cases "build_pattern names")
  case (Inl e)
  then show ?thesis by (simp add: particle_detect_def build_pattern_def split: if_splits)
next
  case (Inr pattern)
  then have n: "names \<noteq> []" by (auto simp: build_pattern_def)
  have shape: "\<exists>n p h l. n \<in> set names \<and> p \<in> set PARTICLES \<and> name_head h \<and> v = n @ '' '' @ p @ '' '' @ h # l"
    if m: "match_at pattern b s = Some v" for b s v
  proof -
    from match_at_Some [OF m] obtain r where r: "s = v @ r" "(rev v @ b, r) \<in> set (ends pattern (b, s))"
      by (metis list.set_intros(1))
    have pat: "pattern = Cat Bound (Cat (alts (map lit (sort_key (\<lambda>n. - int (length n)) (remdups names))))
        (Cat (chr (CHR '' '')) (Cat (alts (map lit PARTICLES)) (Cat (chr (CHR '' ''))
        (Cat (Cls name_head) (Cat (Rep name_tail 0 None) Bound))))))"
      using Inr n by (simp add: build_pattern_def)
    from r(2) obtain p1 p2 p3 p4 p5 p6 p7 where e: "p1 \<in> set (ends Bound (b, s))"
        "p2 \<in> set (ends (alts (map lit (sort_key (\<lambda>n. - int (length n)) (remdups names)))) p1)"
        "p3 \<in> set (ends (chr (CHR '' '')) p2)" "p4 \<in> set (ends (alts (map lit PARTICLES)) p3)"
        "p5 \<in> set (ends (chr (CHR '' '')) p4)" "p6 \<in> set (ends (Cls name_head) p5)"
        "p7 \<in> set (ends (Rep name_tail 0 None) p6)" "(rev v @ b, r) \<in> set (ends Bound p7)"
      unfolding pat in_ends_Cat by blast
    have "p1 = (b, s)" "p7 = (rev v @ b, r)" using e(1,8) by (auto split: if_splits)
    moreover obtain nm where nm: "nm \<in> set names" "snd p1 = nm @ snd p2" using e(2) by (auto simp: in_ends_alts in_ends_lit)
    moreover have "snd p2 = CHR '' '' # snd p3" using e(3) by (simp add: in_ends_chr)
    moreover obtain pt where pt: "pt \<in> set PARTICLES" "snd p3 = pt @ snd p4" using e(4) by (auto simp: in_ends_alts in_ends_lit)
    moreover have "snd p4 = CHR '' '' # snd p5" using e(5) by (simp add: in_ends_chr)
    moreover obtain h where h: "name_head h" "snd p5 = h # snd p6" using e(6) by (auto split: list.splits if_splits)
    moreover obtain l where "snd p6 = l @ snd p7" using e(7) unfolding in_ends_Rep by blast
    ultimately have "v @ r = (nm @ '' '' @ pt @ '' '' @ h # l) @ r" using r(1) by simp
    then have "v = nm @ '' '' @ pt @ '' '' @ h # l" by (rule append_same_eq [THEN iffD1])
    with nm pt h show ?thesis by blast
  qed
  define ent where "ent = (\<lambda>(i, v). \<lparr>e_type = ''PERSON'', e_text = v, e_start = int i, e_end = int (i + length v),
       e_layer = PARTICLE_LAYER, e_score = 1\<rparr>)"
  define good where "good e = (span_ok text e \<and> e_type e = ''PERSON'' \<and> (\<exists>n p h l. n \<in> set names \<and> p \<in> set PARTICLES
       \<and> name_head h \<and> e_text e = n @ '' '' @ p @ '' '' @ h # l))" for e
  have "good (ent m)" if m: "m \<in> set (finditer pattern text)" for m
  proof -
    obtain i v where iv: "m = (i, v)" by (cases m)
    then have "Hit i v \<in> set (scan pattern [] text)" using m by (simp add: finditer_def set_hits pieces_def)
    from scan_hit [OF this] obtain x y where xy: "text = x @ v @ y" "i = length x" "match_at pattern (rev x @ []) (v @ y) = Some v"
      by auto
    have "span_ok text (ent m)" using xy(1,2) by (simp add: iv ent_def span_ok_def slice_def nat_add_distrib)
    with shape [OF xy(3)] show ?thesis by (simp add: good_def iv ent_def)
  qed
  moreover have "particle_detect names text = Inr (map ent (finditer pattern text))"
    by (simp add: particle_detect_def Inr ent_def)
  ultimately have "case particle_detect names text of Inl _ \<Rightarrow> names = [] | Inr es \<Rightarrow> names \<noteq> [] \<and> list_all good es"
    using n by (simp add: list_all_iff)
  then show ?thesis unfolding good_def .
qed

subsection \<open>Concrete instances\<close>

definition sample_allow :: string where
  "sample_allow = dumps_sorted True '', '' '': '' (JObj [(''PERSON'', JArr [JObj [(''patroon'', JStr ''a''), (''reden'', JStr ''b'')]])])"

lemma load_lists_reasons_witness:
  "\<exists>ls. load_lists (\<lambda>s. Inr \<lparr>p_finditer = \<lambda>_. [], p_fullmatch = \<lambda>v. v = s\<rparr>) (\<lambda>s. s)
      (\<lambda>n. if n = ''allow.json'' then Some sample_allow else None) (Some ''d'') = Inr ls
    \<and> (\<exists>rs. JArr [JObj [(''patroon'', JStr ''a''), (''reden'', JStr ''b'')]] = JArr rs \<and> rs \<noteq> []
       \<and> list_all (\<lambda>r. \<exists>fs s. r = JObj fs \<and> dict_get fs ''patroon'' = Some (JStr s) \<and> s \<noteq> []
          \<and> (\<exists>reden. dict_get fs ''reden'' = Some reden \<and> strip (py_str reden) \<noteq> [])) rs)"
proof -
  let ?kvs = "[(''PERSON'', JArr [JObj [(''patroon'', JStr ''a''), (''reden'', JStr ''b'')]])]"
  let ?compile = "\<lambda>s. Inr \<lparr>p_finditer = \<lambda>_. [], p_fullmatch = \<lambda>v. v = s\<rparr>"
  let ?file = "\<lambda>n. if n = ''allow.json'' then Some sample_allow else None"
  have raw: "raw_json sample_allow = Inr (JObj ?kvs)" "raw_json ''{}'' = Inr (JObj [])" by code_simp+
  have "read_list ?compile ''allow'' (JObj ?kvs) = Inr [(''PERSON'', [\<lparr>p_finditer = \<lambda>_. [], p_fullmatch = \<lambda>v. v = ''a''\<rparr>])]"
    by (simp add: read_list_def patronen_def read_rule_def py_truth_def compile_json_def upper_def upper_char_def py_str_def strip_def lstrip_def
        rstrip_def is_space_def)
  then obtain ls where ls: "load_lists ?compile (\<lambda>s. s) ?file (Some ''d'') = Inr ls"
    by (auto simp: load_lists_def raw Let_def read_list_def [of _ _ "JObj []"])
  have f: "?file ''allow.json'' = Some sample_allow" "\<not> starts_with ''_'' ''PERSON''" by simp_all
  from load_lists_reasons [OF ls refl _ f(1) raw(1) _ f(2)] have
    "\<exists>rs. JArr [JObj [(''patroon'', JStr ''a''), (''reden'', JStr ''b'')]] = JArr rs
       \<and> list_all (\<lambda>r. \<exists>fs s. r = JObj fs \<and> dict_get fs ''patroon'' = Some (JStr s) \<and> s \<noteq> []
          \<and> (\<exists>reden. dict_get fs ''reden'' = Some reden \<and> strip (py_str reden) \<noteq> [])) rs" by simp
  with ls show ?thesis by auto
qed

end
