(* ===== verification/KeyReader.thy ===== *)
theory KeyReader
  imports MappingStore Regex
begin

text \<open>
  The part of a key provider that revealing uses: looking a key up by its identifier. A key that cannot be
  resolved raises; looking up does not change what can be resolved. Both providers satisfy it.
\<close>

locale key_reader =
  fixes ok :: "'s \<Rightarrow> bool"
    and lookup :: "'s \<Rightarrow> string \<Rightarrow> key option"
    and get :: "'s \<Rightarrow> string \<Rightarrow> (key \<times> 's) result"
  assumes get_Some: "ok st \<Longrightarrow> lookup st i = Some k \<Longrightarrow> \<exists>st'. get st i = Inr (k, st') \<and> ok st' \<and> lookup st' = lookup st"
    and get_None: "ok st \<Longrightarrow> lookup st i = None \<Longrightarrow> \<exists>e. get st i = Inl e"
begin

lemma get_Inr: "ok st \<Longrightarrow> get st i = Inr (k, st') \<Longrightarrow> ok st' \<and> lookup st i = Some k \<and> lookup st' = lookup st"
  using get_Some [of st i] get_None [of st i] by (cases "lookup st i") fastforce+

end

interpretation krm: key_reader mp_wf "\<lambda>st. dict_get (mp_keys st)" mp_get
  by unfold_locales (auto simp: mp_get_def mp_key_def)

interpretation krd: key_reader "dp_ok unwrap" "dp_lookup unwrap" "\<lambda>st. dp_key unwrap ttl now st" for unwrap ttl now
proof
  fix st i k
  assume a: "dp_ok unwrap st" "dp_lookup unwrap st i = Some k"
  then obtain e m where e: "dict_get (dp_vault st) i = Some e" "unwrap (ve_wrapped e) = Inr m" "k = \<lparr>k_id = i, k_material = m\<rparr>"
    by (auto simp: dp_lookup_def split: option.splits sum.splits)
  from material [OF a(1) e(1,2), of ttl now] e
  show "\<exists>st'. dp_key unwrap ttl now st i = Inr (k, st') \<and> dp_ok unwrap st' \<and> dp_lookup unwrap st' = dp_lookup unwrap st"
    by (auto simp: dp_key_def vault_get_def dest: dp_lookup_vault)
next
  fix st i
  assume a: "dp_ok unwrap st" "dp_lookup unwrap st i = None"
  show "\<exists>e. dp_key unwrap ttl now st i = Inl e"
  proof (cases "dict_get (dp_vault st) i")
    case None
    then show ?thesis by (simp add: dp_key_def vault_get_def)
  next
    case (Some e)
    then have "\<exists>x. unwrap (ve_wrapped e) = Inl x" using a(2) by (auto simp: dp_lookup_def split: sum.splits)
    then have "\<not> (\<exists>m. unwrap (ve_wrapped e) = Inr m)" by auto
    then have "\<not> (\<exists>m st'. dp_material unwrap ttl now st i (ve_wrapped e) = Inr (m, st'))"
      using material_fails [OF a(1) Some] by blast
    then obtain x where "dp_material unwrap ttl now st i (ve_wrapped e) = Inl x"
      by (cases "dp_material unwrap ttl now st i (ve_wrapped e)") auto
    then show ?thesis using Some by (simp add: dp_key_def vault_get_def)
  qed
qed

end
