(* ===== verification/PiiCategories.thy ===== *)
theory PiiCategories
  imports PyString
begin

text \<open>
  \<open>pii_categories.py\<close>: the legal category of a PII type and the protection levels. Warnings about
  unknown types (a log line) are not modelled. A set is computed from a list.
\<close>

definition CATEGORIES :: "(string \<times> string \<times> nat) list" where
  "CATEGORIES = [(''c1'', ''Art. 6'', 1), (''c2'', ''Art. 9'', 2), (''c3'', ''Art. 10'', 3)]"

definition UNKNOWN_CATEGORY :: string where "UNKNOWN_CATEGORY = ''c1''"

definition TYPES :: "(string \<times> string) list" where
  "TYPES =
     map (\<lambda>t. (t, ''c1'')) [''PERSON'', ''PERSOON'', ''LOCATION'', ''LOCATIE'', ''ADRES'', ''ADDRESS'',
       ''POSTCODE'', ''BSN'', ''IBAN'', ''EMAIL'', ''EMAIL_ADDRESS'', ''PHONE_NUMBER'',
       ''TELEFOON'', ''DATE'', ''DATE_TIME'', ''GEBOORTEDATUM'', ''KENTEKEN'',
       ''LICENSE_PLATE'', ''ORGANIZATION'', ''ORGANISATIE'', ''BEDRAG'', ''KVK'',
       ''URL'', ''IP_ADDRESS'', ''OVERIG'', ''RECORD'']
     @ map (\<lambda>t. (t, ''c2'')) [''GEZONDHEID'', ''HEALTH'', ''MEDICAL'', ''RELIGIE'', ''RELIGION'', ''ETNICITEIT'',
       ''ETHNICITY'', ''BIOMETRIE'', ''BIOMETRIC'', ''GENETISCH'', ''GENETIC'',
       ''SEKSUELE_GEAARDHEID'', ''SEXUAL_ORIENTATION'', ''POLITIEKE_OPVATTING'',
       ''POLITICAL_OPINION'', ''VAKBOND'', ''TRADE_UNION'']
     @ map (\<lambda>t. (t, ''c3'')) [''STRAFRECHTELIJK'', ''CRIMINAL'', ''CRIMINAL_RECORD'']"

definition known_types :: "string list" where
  "known_types = sort_key (\<lambda>t. the (map_of TYPES t)) (sort (map fst TYPES))"

definition category_of :: "string \<Rightarrow> string" where
  "category_of t = (case map_of TYPES (upper t) of None \<Rightarrow> UNKNOWN_CATEGORY | Some c \<Rightarrow> c)"

definition legal_basis_of :: "string \<Rightarrow> string" where
  "legal_basis_of t = fst (the (map_of CATEGORIES (category_of t)))"

definition ppl_min_of :: "string \<Rightarrow> nat" where
  "ppl_min_of t = snd (the (map_of CATEGORIES (category_of t)))"

definition types_for_ppl :: "int \<Rightarrow> string list result" where
  "types_for_ppl ppl =
     (if \<not> (0 \<le> ppl \<and> ppl \<le> 3) then Inl ValueError
      else Inr (map fst (filter (\<lambda>(t, c). int (snd (the (map_of CATEGORIES c))) \<le> ppl) TYPES)))"

definition ppl_of_types :: "string list \<Rightarrow> int option" where
  "ppl_of_types types =
     (let wanted = set (map upper types)
      in find (\<lambda>ppl. case types_for_ppl ppl of Inl _ \<Rightarrow> False | Inr ts \<Rightarrow> set ts = wanted) [0, 1, 2, 3])"

definition group_by_basis :: "string list \<Rightarrow> (string, string list) dict" where
  "group_by_basis types =
     foldl (\<lambda>out t. let b = legal_basis_of t
              in dict_set b ((case dict_get out b of None \<Rightarrow> [] | Some ts \<Rightarrow> ts) @ [t]) out)
       [] (sort (dedup (map upper types)))"

definition counts_by_category :: "(string, nat) dict \<Rightarrow> (string, nat) dict" where
  "counts_by_category counts =
     foldl (\<lambda>out (label, n). dict_add (category_of label) n out) (map (\<lambda>(c, _). (c, 0)) CATEGORIES) counts"

subsection \<open>The registry\<close>

lemma types_upper: "(t, c) \<in> set TYPES \<Longrightarrow> upper t = t"
  by (auto simp: TYPES_def upper_def upper_char_def)

lemma types_cat: "(t, c) \<in> set TYPES \<Longrightarrow> c \<in> {''c1'', ''c2'', ''c3''}"
  by (auto simp: TYPES_def)

lemma category_of_mem: "category_of t \<in> {''c1'', ''c2'', ''c3''}"
  using types_cat by (auto simp: category_of_def UNKNOWN_CATEGORY_def split: option.split dest!: map_of_SomeD)

lemma ppl_min_pos: "1 \<le> ppl_min_of t \<and> ppl_min_of t \<le> 3"
  using category_of_mem [of t] by (auto simp: ppl_min_of_def CATEGORIES_def)

lemma counts_total_aux:
  assumes "dict_wf out" and "map fst out = [''c1'', ''c2'', ''c3'']"
  shows "sum_list (map snd (foldl (\<lambda>out (label, n). dict_add (category_of label) n out) out counts))
      = sum_list (map snd out) + sum_list (map snd counts)
    \<and> map fst (foldl (\<lambda>out (label, n). dict_add (category_of label) n out) out counts) = [''c1'', ''c2'', ''c3'']"
  using assms
proof (induction counts arbitrary: out)
  case (Cons x counts)
  obtain label n where x: "x = (label, n)" by (cases x)
  obtain a b c where out: "out = [(''c1'', a), (''c2'', b), (''c3'', c)]"
    using Cons.prems(2) by (auto simp: map_eq_Cons_conv)
  have "sum_list (map snd (dict_add (category_of label) n out)) = sum_list (map snd out) + n
      \<and> map fst (dict_add (category_of label) n out) = [''c1'', ''c2'', ''c3'']"
    using category_of_mem [of label] by (auto simp: out dict_add_def)
  moreover have "dict_wf (dict_add (category_of label) n out)" using Cons.prems(1) by simp
  ultimately show ?case using Cons.IH by (simp add: x)
qed simp

text \<open>Counting by category loses nothing: the three categories are always present, in order, and their
  counts add up to the total over all labels, unknown labels included.\<close>

theorem counts_by_category_total:
  "map fst (counts_by_category counts) = [''c1'', ''c2'', ''c3'']
   \<and> sum_list (map snd (counts_by_category counts)) = sum_list (map snd counts)"
  using counts_total_aux [of "map (\<lambda>(c, _). (c, 0)) CATEGORIES" counts]
  by (simp add: counts_by_category_def CATEGORIES_def dict_wf_def)

lemma ppl_lists:
  "types_for_ppl 0 = Inr []"
  "types_for_ppl 1 = Inr (map fst (filter (\<lambda>x. snd x = ''c1'') TYPES))"
  "types_for_ppl 2 = Inr (map fst (filter (\<lambda>x. snd x = ''c1'' \<or> snd x = ''c2'') TYPES))"
  "types_for_ppl 3 = Inr (map fst TYPES)"
  by (simp_all add: types_for_ppl_def TYPES_def CATEGORIES_def)

text \<open>A level expands to exactly the registered types whose own minimum is at most that level, so a
  higher level never permits less, and level 0 nothing; outside 0 to 3 the expansion is refused.\<close>

theorem types_for_ppl_iff:
  "types_for_ppl ppl = (if 0 \<le> ppl \<and> ppl \<le> 3 then Inr (map fst (filter (\<lambda>(t, c). int (ppl_min_of t) \<le> ppl) TYPES))
     else Inl ValueError)"
proof -
  have "distinct (map fst TYPES)" by (simp add: TYPES_def)
  then have "map_of TYPES t = Some c" if "(t, c) \<in> set TYPES" for t c using that by simp
  then have "ppl_min_of t = snd (the (map_of CATEGORIES c))" if "(t, c) \<in> set TYPES" for t c
    using that types_upper [OF that] by (simp add: ppl_min_of_def category_of_def)
  then have "filter (\<lambda>(t, c). int (snd (the (map_of CATEGORIES c))) \<le> ppl) TYPES
      = filter (\<lambda>(t, c). int (ppl_min_of t) \<le> ppl) TYPES"
    by (intro filter_cong) auto
  then show ?thesis by (simp add: types_for_ppl_def)
qed

lemma ppl_of_types_expansion:
  assumes "types_for_ppl ppl = Inr ts"
  shows "ppl_of_types ts = Some ppl"
proof -
  have r: "ppl \<in> {0, 1, 2, 3}" using assms by (auto simp: types_for_ppl_def split: if_splits)
  have sub: "set ts \<subseteq> fst ` set TYPES" using assms by (auto simp: types_for_ppl_def split: if_splits)
  then have up: "set (map upper ts) = set ts" using types_upper by (force simp: image_iff)
  have "''BSN'' \<in> set (map fst (filter (\<lambda>x. snd x = ''c1'') TYPES))"
      "''HEALTH'' \<notin> set (map fst (filter (\<lambda>x. snd x = ''c1'') TYPES))"
      "''HEALTH'' \<in> set (map fst (filter (\<lambda>x. snd x = ''c1'' \<or> snd x = ''c2'') TYPES))"
      "''CRIMINAL'' \<notin> set (map fst (filter (\<lambda>x. snd x = ''c1'' \<or> snd x = ''c2'') TYPES))"
      "''CRIMINAL'' \<notin> set (map fst (filter (\<lambda>x. snd x = ''c1'') TYPES))"
      "''CRIMINAL'' \<in> set (map fst TYPES)" "''BSN'' \<in> set (map fst TYPES)" "''HEALTH'' \<in> set (map fst TYPES)"
      "''BSN'' \<in> set (map fst (filter (\<lambda>x. snd x = ''c1'' \<or> snd x = ''c2'') TYPES))"
    by (simp_all add: TYPES_def)
  note m = this
  have e: "\<And>A x. x \<in> A \<Longrightarrow> A \<noteq> {}" by auto
  have neq: "\<And>A B x. x \<in> A \<Longrightarrow> x \<notin> B \<Longrightarrow> B \<noteq> A" by auto
  have ne: "set (map fst (filter (\<lambda>x. snd x = ''c1'') TYPES)) \<noteq> {}"
      "set (map fst (filter (\<lambda>x. snd x = ''c1'' \<or> snd x = ''c2'') TYPES)) \<noteq> {}"
      "set (map fst TYPES) \<noteq> {}"
      "set (map fst (filter (\<lambda>x. snd x = ''c1'') TYPES)) \<noteq> set (map fst (filter (\<lambda>x. snd x = ''c1'' \<or> snd x = ''c2'') TYPES))"
      "set (map fst (filter (\<lambda>x. snd x = ''c1'') TYPES)) \<noteq> set (map fst TYPES)"
      "set (map fst (filter (\<lambda>x. snd x = ''c1'' \<or> snd x = ''c2'') TYPES)) \<noteq> set (map fst TYPES)"
    by (rule e [OF m(1)] e [OF m(9)] e [OF m(7)] neq [OF m(3,2)] neq [OF m(8,2)] neq [OF m(6,4)])+
  from r show ?thesis
    using assms ne unfolding ppl_of_types_def up Let_def
    by (elim insertE emptyE) (simp_all add: ppl_lists del: set_map set_filter)
qed

end
