(* ===== verification/Pseudonymizer.thy ===== *)
theory Pseudonymizer
  imports Normalization Drivers KeyReader PiiCategories AuditTrail "HOL-Library.Product_Lexorder"
begin

text \<open>
  \<open>pseudonymizer.py\<close>: deriving a token, replacing the values the detectors find by tokens, revealing tokens
  under three gates, and putting every reveal on the record. The keyed digest is the parameter \<open>HM\<close> (key
  material and message to hexadecimal digits), AES-GCM is \<open>enc\<close> and \<open>dec\<close>; \<open>current\<close> and \<open>get\<close> are the key
  provider's operations on its state. What a run of anonymisation changes is the provider's state, the
  mapping store and the number of nonces drawn.
\<close>

record 's mint =
  mt_keys :: 's
  mt_store :: mappings
  mt_drawn :: nat

definition MIN_ENTITY_LEN :: nat where "MIN_ENTITY_LEN = 3"

definition token_hash :: "(string \<Rightarrow> string \<Rightarrow> string) \<Rightarrow> string \<Rightarrow> string \<Rightarrow> string \<Rightarrow> string" where
  "token_hash HM material label value = take 8 (HM material (utf8 (label @ '':'' @ normalize label value)))"

definition make_token :: "(string \<Rightarrow> string \<Rightarrow> string) \<Rightarrow> string \<Rightarrow> string \<Rightarrow> string \<Rightarrow> string" where
  "make_token HM material label value = CHR ''['' # upper label @ CHR '':'' # token_hash HM material label value @ '']''"

text \<open>\<open>Pseudonymizer.pseudonym\<close>, and the same steps in the replacement function of the entity pass.\<close>

definition pseudonym where
  "pseudonym HM enc put current nonces domain label value st =
     (let label = lower label
      in rbind (scope_for domain (upper label)) (\<lambda>scope.
         rbind (current scope (mt_keys st)) (\<lambda>(key, ks).
         let p = make_token HM (k_material key) label value;
             (c, n) = encrypt enc (nonces (mt_drawn st)) (k_material key) value
         in Inr (p, st\<lparr>mt_keys := ks, mt_store := put (mt_store st) p c n (k_id key) (Some PROFILE_VERSION),
                   mt_drawn := Suc (mt_drawn st)\<rparr>))))"

subsection \<open>The deterministic pass\<close>

definition pseudonymize_step where
  "pseudonymize_step HM enc put current nonces domain min_score =
     (\<lambda>(text, counts, stats, st) (label, pattern, validate, ctx).
        rbind (substitute text pattern (pseudonym HM enc put current nonces domain label) validate ctx st) (\<lambda>(t, n, st).
        Inr (t, dict_set label n counts, stats_add min_score stats DETERMINISTIC label 1 n, st)))"

definition pseudonymizer_anonymize where
  "pseudonymizer_anonymize HM enc put current nonces domain min_score text st =
     (let (text, foreign) = neutralise_foreign_tokens text
      in rbind (rfold (pseudonymize_step HM enc put current nonces domain min_score) (text, [], [], st) DETECTORS)
           (\<lambda>(t, counts, stats, st).
         Inr (\<lparr>an_text = t,
               an_counts = (if 0 < foreign then dict_set ''FOREIGN_TOKEN_NEUTRALISED'' foreign counts else counts),
               an_detections = stats, an_lists_hash = None\<rparr>, st)))"

subsection \<open>The entity pass\<close>

text \<open>The value of an entity as it is matched, and the label each value is replaced under.\<close>

definition entity_labels :: "entity list \<Rightarrow> (string, string) dict" where
  "entity_labels es = foldl (\<lambda>d e.
     let value = strip (e_text e)
     in if MIN_ENTITY_LEN \<le> length value \<and> dict_get d value = None then dict_set value (lower (e_type e)) d else d) [] es"

definition entity_values :: "(string, string) dict \<Rightarrow> string list" where
  "entity_values labels = sort_key (\<lambda>v. - int (length v)) (map fst labels)"

definition whole_word :: "rx \<Rightarrow> rx" where
  "whole_word r = Cat (NotBehind is_word) (Cat r (NotAhead is_word))"

definition value_pattern :: "string list \<Rightarrow> rx" where
  "value_pattern vs = whole_word (alts (map Regex.lit vs))"

definition in_token :: "string \<Rightarrow> nat \<Rightarrow> bool" where
  "in_token text i = list_ex (\<lambda>(b, v). b \<le> i \<and> i < b + length v) (finditer PSEUDONYM_RE text)"

type_synonym 's pass = "(string, nat) dict \<times> (string, string) dict \<times> 's mint"

definition entity_repl where
  "entity_repl HM enc put current nonces domain labels text i value =
     (\<lambda>(counts, value_of_token, st).
       if in_token text i then Inr (value, counts, value_of_token, st)
       else (case dict_get labels value of
               None \<Rightarrow> Inl (KeyError value)
             | Some label \<Rightarrow>
                 rbind (scope_for domain (upper label)) (\<lambda>scope.
                 rbind (current scope (mt_keys st)) (\<lambda>(key, ks).
                 let p = make_token HM (k_material key) label value;
                     (c, n) = encrypt enc (nonces (mt_drawn st)) (k_material key) value
                 in Inr (p, dict_add label 1 counts, dict_set p value value_of_token,
                      st\<lparr>mt_keys := ks, mt_store := put (mt_store st) p c n (k_id key) (Some PROFILE_VERSION),
                         mt_drawn := Suc (mt_drawn st)\<rparr>)))))"

text \<open>
  \<open>_hosts_eruit\<close>: the spans of the protected hosts cut the text into stretches. The code puts three
  characters that are not word characters in the place of a host and a value cannot match across them, so
  each stretch is replaced and checked on its own and the hosts come back between them.
\<close>

fun cut_hosts :: "string \<Rightarrow> nat \<Rightarrow> nat \<Rightarrow> (nat \<times> nat) list \<Rightarrow> (string \<times> string) list \<times> string" where
  "cut_hosts text prev room [] = ([], drop prev text)"
| "cut_hosts text prev room ((b, e) # spans) =
     (if b < prev then cut_hosts text prev room spans
      else if room = 0 then ([], drop prev text)
      else (let (parts, rest) = cut_hosts text e (room - 1) spans in ((slice prev b text, slice b e text) # parts, rest)))"

definition host_span :: "string \<Rightarrow> nat \<times> nat \<Rightarrow> nat \<times> nat" where
  "host_span text = (\<lambda>(b, e).
     let address = slice b e text;
         start = (case find_sub ''://'' address of None \<Rightarrow> 0 | Some i \<Rightarrow> i + 3)
     in (b, b + start + length (takeWhile (\<lambda>c. c \<notin> set ''/?#'') (drop start address))))"

definition masker :: "(string, string) dict \<Rightarrow> string \<Rightarrow> string" where
  "masker value_of_token token = (case dict_get value_of_token token of
     None \<Rightarrow> ''xx''
   | Some v \<Rightarrow> [if is_alnum (hd v) \<or> hd v = CHR ''_'' then CHR ''x'' else CHR 0x00,
                if is_alnum (last v) \<or> last v = CHR ''_'' then CHR ''x'' else CHR 0x00])"

definition survives :: "string \<Rightarrow> string \<Rightarrow> bool" where
  "survives value text = search (whole_word (Regex.lit value)) text"

definition sub_values where
  "sub_values HM enc put current nonces domain labels text st =
     sub_with (value_pattern (entity_values labels)) (entity_repl HM enc put current nonces domain labels text) text st"

fun sub_stretches where
  "sub_stretches HM enc put current nonces domain labels [] st = Inr ([], st)"
| "sub_stretches HM enc put current nonces domain labels (s # ss) st =
     rbind (sub_values HM enc put current nonces domain labels s st) (\<lambda>(t, st).
     rbind (sub_stretches HM enc put current nonces domain labels ss st) (\<lambda>(ts, st). Inr (t # ts, st)))"

fun put_hosts :: "string list \<Rightarrow> string list \<Rightarrow> string" where
  "put_hosts (t # ts) (h # hs) = t @ h @ put_hosts ts hs"
| "put_hosts ts _ = concat ts"

definition pseudonymize_entities where
  "pseudonymize_entities HM enc put current nonces domain text entities protected st =
     (let labels = entity_labels entities
      in if labels = [] then Inr (text, [], st)
         else let (parts, rest) = cut_hosts text 0 6400 (sort protected)
              in rbind (sub_stretches HM enc put current nonces domain labels (map fst parts @ [rest]) ([], [], st))
                   (\<lambda>(ts, counts, value_of_token, st).
                 if list_ex (\<lambda>v. list_ex (\<lambda>t. survives v (sub PSEUDONYM_RE (masker value_of_token) t)) ts)
                      (entity_values labels)
                 then Inl (AnonymizationInvariantError ''waarde-overleefde-vervanging'')
                 else Inr (put_hosts ts (map snd parts), counts, st)))"

text \<open>The aggregate rows: the label a value was replaced under wins.\<close>

fun winner_rows :: "rat \<Rightarrow> (string, string) dict \<Rightarrow> stats \<Rightarrow> entity list \<Rightarrow> stats" where
  "winner_rows min_score winner stats [] = stats"
| "winner_rows min_score winner stats (e # es) =
     (if e_text e \<noteq> [] \<and> MIN_ENTITY_LEN \<le> length (strip (e_text e)) then
        (let winner = (if dict_get winner (e_text e) = None then dict_set (e_text e) (lower (e_type e)) winner else winner)
         in winner_rows min_score winner
              (if dict_get winner (e_text e) = Some (lower (e_type e))
               then stats_add min_score stats (e_layer e) (e_type e) (e_score e) 1 else stats) es)
      else winner_rows min_score winner stats es)"

definition SUPPRESSED :: string where "SUPPRESSED = ''suppressed_by_list''"

definition reversible_anonymize where
  "reversible_anonymize HM enc put current nonces domain min_score ls detect names text st =
     rbind (pseudonymizer_anonymize HM enc put current nonces domain min_score text st) (\<lambda>(result, st).
     let body = an_text result
     in if strip body = [] then Inr (result, st)
        else (case detect body of
            Inl _ \<Rightarrow> Inl AnonymizationEngineError
          | Inr found \<Rightarrow>
              rbind (particle_detect names body) (\<lambda>particles.
              let (entities, suppressed) = apply_lists ls body (found @ particles);
                  hosts = map (host_span body) (allowed_spans ls body ''URL'')
              in rbind (pseudonymize_entities HM enc put current nonces domain body entities hosts st)
                   (\<lambda>(t, entity_counts, st).
                 let stats = winner_rows min_score [] (stats_merge [] (an_detections result)) (drop_absorbed entities);
                     stats = foldl (\<lambda>d (ty, n). stats_add min_score d SUPPRESSED ty 1 n) stats suppressed
                 in Inr (\<lparr>an_text = t, an_counts = add_counts (an_counts result) entity_counts,
                          an_detections = stats, an_lists_hash = l_hash ls\<rparr>, st)))))"

subsection \<open>Revealing\<close>

definition reveal_repl where
  "reveal_repl dec lookup_mapping get allowed_types registered_tokens i p =
     (\<lambda>(revealed, ks).
       if (case registered_tokens of None \<Rightarrow> False | Some R \<Rightarrow> p \<notin> R) then Inr (p, revealed, ks)
       else if (case allowed_types of None \<Rightarrow> False | Some A \<Rightarrow> label_of p \<notin> set A) then Inr (p, revealed, ks)
       else (case lookup_mapping p of
           None \<Rightarrow> Inr (p, revealed, ks)
         | Some m \<Rightarrow> (case get ks (m_key_id m) of
               Inl e \<Rightarrow> (case e of KeyError _ \<Rightarrow> Inr (p, revealed, ks) | _ \<Rightarrow> Inl e)
             | Inr (key, ks) \<Rightarrow>
                 rbind (decrypt dec (k_material key) (m_ciphertext m) (m_nonce m)) (\<lambda>s. Inr (s, revealed @ [p], ks)))))"

definition reveal where
  "reveal dec lookup_mapping get text allowed_types registered_tokens ks =
     rbind (sub_with PSEUDONYM_RE (reveal_repl dec lookup_mapping get allowed_types registered_tokens) text ([], ks))
       (\<lambda>(t, revealed, ks). Inr (t, revealed :: string list, ks))"

text \<open>\<open>_current_state\<close>: the target state of the last record, as stored.\<close>

definition stored_state :: "audit_db \<Rightarrow> string \<Rightarrow> string option" where
  "stored_state db doc = map_option ar_to_state (last_opt (by_seq (filter (\<lambda>r. ar_document_id r = doc) (trail db))))"

definition sorted_set :: "string list \<Rightarrow> string list" where
  "sorted_set xs = sort (remdups xs)"

definition access_payload :: "string list \<Rightarrow> string list option \<Rightarrow> string \<Rightarrow> (string \<times> json) list \<Rightarrow> json" where
  "access_payload revealed allowed_types actor extra =
     (let types = sorted_set (map label_of revealed)
      in JObj (foldl (\<lambda>d (k, v). dict_set k v d)
           [(''pseudonyms'', JArr (map JStr (sorted_set revealed))),
            (''types'', JArr (map JStr types)),
            (''categories'', JArr (map JStr (sorted_set (map category_of types)))),
            (''requested_types'', JArr (map JStr (case allowed_types of None \<Rightarrow> [] | Some A \<Rightarrow> sorted_set A))),
            (''requested_all'', JBool (allowed_types = None \<or> allowed_types = Some [])),
            (''actor'', JStr actor)] extra))"

definition deanonymize where
  "deanonymize H now dec d get doc_rows db doc text ks actor allowed_types extra =
     (case stored_state db doc of
        None \<Rightarrow> Inl ValueError
      | Some state \<Rightarrow>
          rbind (reveal dec (mapping_get d) get text allowed_types (Some (registered doc_rows doc)) ks)
            (\<lambda>(restored, revealed, ks).
          rbind (append_record H now db doc (Some state) state ''deanonymize''
                   (Some (access_payload revealed allowed_types actor extra)) None) (\<lambda>(db, _).
          Inr (restored, db, ks))))"

subsection \<open>What a reveal shows\<close>

text \<open>The three gates, and what stands behind them.\<close>

definition granted :: "string list option \<Rightarrow> string set option \<Rightarrow> string \<Rightarrow> bool" where
  "granted allowed_types registered_tokens p =
     ((case registered_tokens of None \<Rightarrow> True | Some R \<Rightarrow> p \<in> R)
      \<and> (case allowed_types of None \<Rightarrow> True | Some A \<Rightarrow> label_of p \<in> set A))"

definition shown where
  "shown dec lookup d allowed_types registered_tokens p =
     (if granted allowed_types registered_tokens p then reveals dec lookup d p else None)"

definition shown_text where
  "shown_text f p = (case f p of None \<Rightarrow> p | Some s \<Rightarrow> (s :: string))"

context key_reader begin

lemma reveal_repl_ok:
  assumes "ok st" and "reveal_repl dec (mapping_get d) get A R i p (rv, st) = Inr (t, rv', st')"
  shows "ok st' \<and> lookup st' = lookup st \<and> t = shown_text (shown dec (lookup st) d A R) p
    \<and> rv' = rv @ (if shown dec (lookup st) d A R p = None then [] else [p])"
proof (cases "granted A R p")
  case False
  then have "t = p" "rv' = rv" "st' = st"
    using assms(2) by (auto simp: reveal_repl_def granted_def split: option.splits if_splits)
  with False assms(1) show ?thesis by (simp add: shown_def shown_text_def)
next
  case g: True
  have r: "reveal_repl dec (mapping_get d) get A R i p (rv, st) = (case mapping_get d p of
           None \<Rightarrow> Inr (p, rv, st)
         | Some m \<Rightarrow> (case get st (m_key_id m) of
               Inl e \<Rightarrow> (case e of KeyError _ \<Rightarrow> Inr (p, rv, st) | _ \<Rightarrow> Inl e)
             | Inr (key, ks) \<Rightarrow>
                 rbind (decrypt dec (k_material key) (m_ciphertext m) (m_nonce m)) (\<lambda>s. Inr (s, rv @ [p], ks))))"
    using g by (auto simp: reveal_repl_def granted_def split: option.splits)
  show ?thesis
  proof (cases "mapping_get d p")
    case None
    then show ?thesis using assms g by (simp add: r shown_def shown_text_def reveals_def)
  next
    case (Some m)
    show ?thesis
    proof (cases "get st (m_key_id m)")
      case (Inl e)
      then have "lookup st (m_key_id m) = None" using get_Some [OF assms(1)] by (cases "lookup st (m_key_id m)") fastforce+
      moreover have "t = p \<and> rv' = rv \<and> st' = st" using assms(2) by (simp add: r Some Inl split: error.splits)
      ultimately show ?thesis using assms(1) Some g by (simp add: shown_def shown_text_def reveals_def)
    next
      case (Inr ks)
      obtain key st1 where ks: "ks = (key, st1)" by (cases ks)
      from get_Inr [OF assms(1) Inr [unfolded ks]] have l: "ok st1" "lookup st (m_key_id m) = Some key" "lookup st1 = lookup st" by auto
      obtain s where "decrypt dec (k_material key) (m_ciphertext m) (m_nonce m) = Inr s" "t = s" "rv' = rv @ [p]" "st' = st1"
        using assms(2) by (auto simp: r Some Inr ks result_simps)
      with l Some g show ?thesis by (simp add: shown_def shown_text_def reveals_def)
    qed
  qed
qed

lemma reveal_pieces_ok:
  assumes "ok st" and "sub_pieces (reveal_repl dec (mapping_get d) get A R) ps (rv, st) = Inr (t, rv', st')"
  shows "ok st' \<and> lookup st' = lookup st
    \<and> t = concat (map (\<lambda>p. case p of Lit c \<Rightarrow> [c] | Hit i v \<Rightarrow> shown_text (shown dec (lookup st) d A R) v) ps)
    \<and> rv' = rv @ filter (\<lambda>v. shown dec (lookup st) d A R v \<noteq> None) (map snd (hits ps))"
  using assms
proof (induction ps arbitrary: rv st t)
  case (Cons p ps)
  show ?case
  proof (cases p)
    case (Lit c)
    then obtain t' where t': "sub_pieces (reveal_repl dec (mapping_get d) get A R) ps (rv, st) = Inr (t', rv', st')" "t = c # t'"
      using Cons.prems(2) by (auto simp: result_simps)
    from Cons.IH [OF Cons.prems(1) t'(1)] t'(2) Lit show ?thesis by simp
  next
    case (Hit i v)
    then obtain s rv1 st1 t' where s: "reveal_repl dec (mapping_get d) get A R i v (rv, st) = Inr (s, rv1, st1)"
        "sub_pieces (reveal_repl dec (mapping_get d) get A R) ps (rv1, st1) = Inr (t', rv', st')" "t = s @ t'"
      using Cons.prems(2) by (auto simp: result_simps)
    note one = reveal_repl_ok [OF Cons.prems(1) s(1)]
    then have "ok st1" by blast
    from Cons.IH [OF this s(2)] one s(3) Hit show ?thesis by auto
  qed
qed simp

lemma reveal_ok:
  assumes "ok st" and "reveal dec (mapping_get d) get text A R st = Inr (out, revealed, st')"
  shows "ok st' \<and> lookup st' = lookup st \<and> out = sub PSEUDONYM_RE (shown_text (shown dec (lookup st) d A R)) text
    \<and> set revealed = {p \<in> tokens_in text. shown dec (lookup st) d A R p \<noteq> None}"
proof -
  have "sub_pieces (reveal_repl dec (mapping_get d) get A R) (pieces PSEUDONYM_RE text) ([], st) = Inr (out, revealed, st')"
    using assms(2) by (auto simp: reveal_def sub_with_def result_simps)
  from reveal_pieces_ok [OF assms(1) this] show ?thesis
    by (auto simp: sub_def tokens_in_def finditer_def)
qed

end

text \<open>C22: A reveal shows what may be shown and nothing else. Every token of the text is replaced by the value
  it stands for exactly when it is registered for the document, its type is granted, it has a mapping and
  the mapping's key can be resolved; all other text, refused tokens included, stays as it was, and the
  list of revealed tokens is exactly the set of those shown.\<close>

theorem reveal_gates:
  assumes "dp_ok unwrap st"
    and "reveal dec (mapping_get d) (\<lambda>st. dp_key unwrap ttl t st) text (Some A) (Some R) st = Inr (out, revealed, st')"
  shows "set revealed = {p \<in> tokens_in text. p \<in> R \<and> label_of p \<in> set A \<and> reveals dec (dp_lookup unwrap st) d p \<noteq> None}
    \<and> out = sub PSEUDONYM_RE (\<lambda>p. if p \<in> R \<and> label_of p \<in> set A \<and> reveals dec (dp_lookup unwrap st) d p \<noteq> None
        then the (reveals dec (dp_lookup unwrap st) d p) else p) text"
proof -
  let ?s = "shown dec (dp_lookup unwrap st) d (Some A) (Some R)"
  note r = krd.reveal_ok [OF assms]
  have g: "?s p = (if p \<in> R \<and> label_of p \<in> set A then reveals dec (dp_lookup unwrap st) d p else None)" for p
    by (simp add: shown_def granted_def)
  have "shown_text ?s = (\<lambda>p. if p \<in> R \<and> label_of p \<in> set A \<and> reveals dec (dp_lookup unwrap st) d p \<noteq> None
        then the (reveals dec (dp_lookup unwrap st) d p) else p)"
    by (rule ext) (auto simp: shown_text_def g split: option.split)
  with r g show ?thesis by auto
qed

subsection \<open>A reveal is on the record\<close>

lemma extra_keeps: "k \<notin> fst ` set extra \<Longrightarrow> dict_get (foldl (\<lambda>d (k, v). dict_set k v d) d extra) k = dict_get d k"
  by (induction extra arbitrary: d) auto

lemma access_payload_get:
  "k \<notin> fst ` set extra \<Longrightarrow> jget k (access_payload revealed A actor extra) = jget k (access_payload revealed A actor [])"
  by (simp add: access_payload_def Let_def jget_def extra_keeps)

lemma sub_id: "(\<And>v. f v = v) \<Longrightarrow> sub r f s = s"
proof -
  assume f: "\<And>v. f v = v"
  then have "(case p of Lit c \<Rightarrow> [c] | Hit i v \<Rightarrow> f v) = piece_text p" for p by (cases p) simp_all
  then show ?thesis by (simp add: sub_def)
qed

lemma deanonymizeE:
  assumes "deanonymize H now dec d get doc_rows db doc text ks actor A extra = Inr (out, db', ks')"
  obtains state revealed r where "stored_state db doc = Some state"
    "reveal dec (mapping_get d) get text A (Some (registered doc_rows doc)) ks = Inr (out, revealed, ks')"
    "append_record H now db doc (Some state) state ''deanonymize'' (Some (access_payload revealed A actor extra)) None = Inr (db', r)"
  using assms by (auto simp: deanonymize_def result_simps split: option.splits)

text \<open>The restored text, the record and the tokens that were replaced.\<close>

lemma deanonymize_spec:
  assumes "dp_ok unwrap st"
    and "deanonymize H now dec d (\<lambda>st. dp_key unwrap ttl t st) doc_rows db doc text st actor A extra = Inr (out, db', st')"
    and "''pseudonyms'' \<notin> fst ` set extra"
  shows "\<exists>r revealed. trail db' = trail db @ [r] \<and> ar_document_id r = doc \<and> ar_step r = ''deanonymize''
    \<and> ar_from_state r = stored_state db doc \<and> ar_from_state r = Some (ar_to_state r)
    \<and> ar_payload r = access_payload revealed A actor extra
    \<and> jget ''pseudonyms'' (ar_payload r) = Some (JArr (map JStr (sorted_set revealed)))
    \<and> set revealed = {p \<in> tokens_in text. p \<in> registered doc_rows doc
        \<and> (case A of None \<Rightarrow> True | Some ts \<Rightarrow> label_of p \<in> set ts) \<and> reveals dec (dp_lookup unwrap st) d p \<noteq> None}
    \<and> out = sub PSEUDONYM_RE (\<lambda>p. if p \<in> set revealed then the (reveals dec (dp_lookup unwrap st) d p) else p) text"
proof -
  from assms(2) obtain state revealed r where s: "stored_state db doc = Some state"
    "reveal dec (mapping_get d) (\<lambda>st. dp_key unwrap ttl t st) text A (Some (registered doc_rows doc)) st = Inr (out, revealed, st')"
    "append_record H now db doc (Some state) state ''deanonymize'' (Some (access_payload revealed A actor extra)) None = Inr (db', r)"
    by (rule deanonymizeE)
  let ?s = "shown dec (dp_lookup unwrap st) d A (Some (registered doc_rows doc))"
  note g = krd.reveal_ok [OF assms(1) s(2)]
  have sh: "?s p \<noteq> None \<longleftrightarrow> p \<in> registered doc_rows doc \<and> (case A of None \<Rightarrow> True | Some ts \<Rightarrow> label_of p \<in> set ts)
      \<and> reveals dec (dp_lookup unwrap st) d p \<noteq> None" for p
    by (auto simp: shown_def granted_def)
  have set: "set revealed = {p \<in> tokens_in text. ?s p \<noteq> None}" using g by blast
  have a: "shown_text ?s v = (if v \<in> set revealed then the (reveals dec (dp_lookup unwrap st) d v) else v)"
    if "v \<in> tokens_in text" for v
    using that set by (auto simp: shown_text_def shown_def split: option.split)
  have b: "sub PSEUDONYM_RE f text = sub PSEUDONYM_RE f' text" if "\<And>v. v \<in> tokens_in text \<Longrightarrow> f v = f' v" for f f'
    unfolding sub_def by (intro arg_cong [of _ _ concat] map_cong refl) (auto split: piece.split intro: that hit_tokens_in)
  have out: "out = sub PSEUDONYM_RE (\<lambda>p. if p \<in> set revealed then the (reveals dec (dp_lookup unwrap st) d p) else p) text"
    using g b [of "shown_text ?s", OF a] by simp
  have "trail db' = trail db @ [r]" "ar_document_id r = doc" "ar_step r = ''deanonymize''"
      "ar_from_state r = Some state" "ar_to_state r = state" "ar_payload r = access_payload revealed A actor extra"
    using s(3) by (auto elim: append_recordE simp: or_empty_def)
  moreover have "jget ''pseudonyms'' (access_payload revealed A actor extra) = Some (JArr (map JStr (sorted_set revealed)))"
    by (simp only: access_payload_get [OF assms(3)]) (simp add: access_payload_def Let_def jget_def)
  ultimately show ?thesis using s(1) set out unfolding sh by (intro exI [of _ r] exI [of _ revealed]) simp
qed

text \<open>C23: No reveal without a record. Whenever a document is revealed, exactly one record is added to the trail:
  of that document, with the step \<open>deanonymize\<close>, leaving its state as it was, and naming exactly the tokens
  that were replaced; those are tokens of the text that are registered for this very document, whatever
  other document's tokens the text may contain, of a granted type and with a value that resolves.\<close>

theorem deanonymize_on_record:
  assumes "dp_ok unwrap st"
    and "deanonymize H now dec d (\<lambda>st. dp_key unwrap ttl t st) doc_rows db doc text st actor A extra = Inr (out, db', st')"
    and "''pseudonyms'' \<notin> fst ` set extra"
  shows "\<exists>r revealed. trail db' = trail db @ [r] \<and> ar_document_id r = doc \<and> ar_step r = ''deanonymize''
    \<and> ar_from_state r = stored_state db doc \<and> ar_from_state r = Some (ar_to_state r)
    \<and> jget ''pseudonyms'' (ar_payload r) = Some (JArr (map JStr (sorted_set revealed)))
    \<and> set revealed = {p \<in> tokens_in text. p \<in> registered doc_rows doc
        \<and> (case A of None \<Rightarrow> True | Some ts \<Rightarrow> label_of p \<in> set ts) \<and> reveals dec (dp_lookup unwrap st) d p \<noteq> None}
    \<and> out = sub PSEUDONYM_RE (\<lambda>p. if p \<in> set revealed then the (reveals dec (dp_lookup unwrap st) d p) else p) text"
  using deanonymize_spec [OF assms] by blast

text \<open>Granting no type at all is recorded as asking for all of them. With an empty set of types nothing is
  revealed and the text comes back as it is, but the record says that everything was requested
  (\<open>requested_all\<close>) and lists no type: the two cases the record is meant to tell apart look the same.\<close>

theorem empty_scope_recorded_as_all:
  assumes "dp_ok unwrap st"
    and "deanonymize H now dec d (\<lambda>st. dp_key unwrap ttl t st) doc_rows db doc text st actor (Some []) [] = Inr (out, db', st')"
  shows "out = text \<and> (\<exists>r. trail db' = trail db @ [r] \<and> jget ''requested_all'' (ar_payload r) = Some (JBool True)
    \<and> jget ''requested_types'' (ar_payload r) = Some (JArr []) \<and> jget ''pseudonyms'' (ar_payload r) = Some (JArr []))"
proof -
  from assms(2) obtain state revealed r where s: "stored_state db doc = Some state"
    "reveal dec (mapping_get d) (\<lambda>st. dp_key unwrap ttl t st) text (Some []) (Some (registered doc_rows doc)) st = Inr (out, revealed, st')"
    "append_record H now db doc (Some state) state ''deanonymize'' (Some (access_payload revealed (Some []) actor [])) None = Inr (db', r)"
    by (rule deanonymizeE)
  note g = krd.reveal_ok [OF assms(1) s(2)]
  have n: "shown dec (dp_lookup unwrap st) d (Some []) (Some (registered doc_rows doc)) p = None" for p
    by (simp add: shown_def granted_def)
  then have "revealed = []" using g by auto
  moreover have "out = text" using g n by (simp add: sub_id shown_text_def)
  moreover have "trail db' = trail db @ [r]" "ar_payload r = access_payload revealed (Some []) actor []"
    using s(3) by (auto elim: append_recordE simp: or_empty_def)
  ultimately show ?thesis by (auto simp: access_payload_def Let_def jget_def sorted_set_def)
qed

subsection \<open>Concrete instances\<close>

definition sample_text :: string where "sample_text = ''to [EMAIL:00000000], [EMAIL:11111111]''"

definition sample_store :: mappings where
  "sample_store = [(''[EMAIL:00000000]'', \<lparr>m_pseudonym = ''[EMAIL:00000000]'', m_ciphertext = ''mxa@b.nl'', m_nonce = ''x'',
     m_key_id = ''id:maaaaaaaa'', m_norm_version = None\<rparr>)]"

definition sample_rows :: "doc_pseudonym list" where
  "sample_rows = [\<lparr>ps_document_id = ''d1'', ps_pseudonym = ''[EMAIL:00000000]'', ps_source = MINTED, ps_created_at = sample_time\<rparr>]"

definition other_hash :: "string \<Rightarrow> string" where
  "other_hash s = replicate 64 (CHR ''b'')"

lemma sample_reveal:
  "reveal sample_dec (mapping_get sample_store) (\<lambda>st. dp_key sample_wrap 5 1 st) sample_text (Some [''EMAIL'']) (Some {''[EMAIL:00000000]''}) sample_dp'
     = Inr (''to a@b.nl, [EMAIL:11111111]'', [''[EMAIL:00000000]''], sample_dp')"
  "reveal sample_dec (mapping_get sample_store) (\<lambda>st. dp_key sample_wrap 5 1 st) sample_text (Some []) (Some {''[EMAIL:00000000]''}) sample_dp'
     = Inr (sample_text, [], sample_dp')"
  by code_simp+

lemma sample_registered: "registered sample_rows ''d1'' = {''[EMAIL:00000000]''}"
  by (simp add: registered_def sample_rows_def)

lemma sample_dp_fine: "dp_ok sample_wrap sample_dp'"
  by (rule sample_dp'_ok(1))

lemma reveal_gates_witness:
  "set [''[EMAIL:00000000]''] = {p \<in> tokens_in sample_text. p \<in> {''[EMAIL:00000000]''} \<and> label_of p \<in> set [''EMAIL'']
     \<and> reveals sample_dec (dp_lookup sample_wrap sample_dp') sample_store p \<noteq> None}"
  by (rule conjunct1 [OF reveal_gates [OF sample_dp_fine sample_reveal(1)]])

lemma sample_append:
  "\<exists>db' r. append_record other_hash sample_time sample_trail ''d1'' frm to stp payload None = Inr (db', r)"
proof (rule append_possible)
  show "aware (case None of None \<Rightarrow> sample_time | Some t \<Rightarrow> t)" by simp
  fix x s assume "x \<in> set (trail sample_trail)"
  then have x: "x = sample_record" by (simp add: sample_trail_def)
  have "tail_hash sample_trail = sample_hash []" by (simp add: tail_hash_def sample_trail_def by_seq_def sample_record_def sample_hash_def last_opt_def)
  then show "ar_prev_hash x \<noteq> tail_hash sample_trail" "ar_hash x \<noteq> other_hash s"
    by (simp_all add: x sample_record_def sample_hash_def other_hash_def GENESIS_HASH_def)
qed

lemma sample_stored: "stored_state sample_trail ''d1'' = Some ''registered''"
  by (simp add: stored_state_def sample_trail_def sample_record_def by_seq_def last_opt_def)

lemma sample_deanonymize:
  assumes "reveal sample_dec (mapping_get sample_store) (\<lambda>st. dp_key sample_wrap 5 1 st) sample_text A (Some {''[EMAIL:00000000]''}) sample_dp'
     = Inr (out, revealed, sample_dp')"
  shows "\<exists>db'. deanonymize other_hash sample_time sample_dec sample_store (\<lambda>st. dp_key sample_wrap 5 1 st) sample_rows sample_trail ''d1''
    sample_text sample_dp' ''admin'' A [] = Inr (out, db', sample_dp')"
proof -
  obtain db' r where "append_record other_hash sample_time sample_trail ''d1'' (Some ''registered'') ''registered'' ''deanonymize''
      (Some (access_payload revealed A ''admin'' [])) None = Inr (db', r)" using sample_append by blast
  then show ?thesis by (simp add: deanonymize_def sample_stored sample_registered assms del: One_nat_def)
qed

lemma deanonymize_on_record_witness:
  "\<exists>(db' :: audit_db) r revealed. trail db' = trail sample_trail @ [r] \<and> ar_step r = ''deanonymize''
    \<and> jget ''pseudonyms'' (ar_payload r) = Some (JArr (map JStr (sorted_set revealed)))"
proof -
  obtain db' where "deanonymize other_hash sample_time sample_dec sample_store (\<lambda>st. dp_key sample_wrap 5 1 st) sample_rows sample_trail ''d1''
      sample_text sample_dp' ''admin'' (Some [''EMAIL'']) [] = Inr (''to a@b.nl, [EMAIL:11111111]'', db', sample_dp')"
    using sample_deanonymize [OF sample_reveal(1)] by blast
  from deanonymize_on_record [OF sample_dp_fine this] show ?thesis by auto
qed

lemma empty_scope_recorded_as_all_witness:
  "\<exists>(db' :: audit_db) r. trail db' = trail sample_trail @ [r] \<and> jget ''requested_all'' (ar_payload r) = Some (JBool True)"
proof -
  obtain db' where "deanonymize other_hash sample_time sample_dec sample_store (\<lambda>st. dp_key sample_wrap 5 1 st) sample_rows sample_trail ''d1''
      sample_text sample_dp' ''admin'' (Some []) [] = Inr (sample_text, db', sample_dp')"
    using sample_deanonymize [OF sample_reveal(2)] by blast
  from empty_scope_recorded_as_all [OF sample_dp_fine this] show ?thesis by auto
qed

end
