(* ===== verification/Pipeline.thy ===== *)
theory Pipeline
  imports Supersession Pseudonymizer Tokens
begin

text \<open>
  \<open>pipeline.py\<close> from \<open>ingest\<close> on, \<open>pdf_redaction.py\<close> and \<open>recovery.py\<close>: bringing a document in, taking it from
  state to state, anonymising it again, and recovering a scan. What a run is given is the record \<open>services\<close>: the
  digest, the clock, the PDF library, the reader and writer of originals, an anonymizer and an embedder (each an action
  on the world, each may fail), the settings, and the key provider when box maps are to be made. \<open>sv_repr\<close> is the text
  of a number in JSON.
\<close>

record services =
  sv_hash :: "string \<Rightarrow> string"
  sv_now :: datetime
  sv_pdf :: pdf_library
  sv_read :: "string \<Rightarrow> (world, string) act"
  sv_write :: "string \<Rightarrow> string \<Rightarrow> string \<Rightarrow> (world, put_result) act"
  sv_anonymize :: "string \<Rightarrow> (world, anon_result) act"
  sv_embed :: "string \<Rightarrow> (world, vector) act"
  sv_attempts :: int
  sv_delay :: rat
  sv_threshold :: int
  sv_key :: "(string \<Rightarrow> (world, key) act) option"
  sv_dec :: "string \<Rightarrow> string \<Rightarrow> string \<Rightarrow> string \<Rightarrow> string option"
  sv_repr :: "rat \<Rightarrow> string"

text \<open>The services as the program wires them.\<close>

definition reading_original :: "_ \<Rightarrow> _ \<Rightarrow> _ \<Rightarrow> string \<Rightarrow> (world, string) act" where
  "reading_original dec unwrap cfg key = on_store (\<lambda>st. read_original dec unwrap cfg st key)"

text \<open>Writing looks at what lies under the key first, a call of its own: in a plain store whether there is something, which must be answered; in a
  sealing store the bytes, and there a failed read is taken for a missing object.\<close>

definition peeking :: "string \<Rightarrow> (world, objects \<Rightarrow> string \<Rightarrow> string result) act" where
  "peeking key w = (case w_store w of
     Plain _ \<Rightarrow> andthen (store_exists key) (\<lambda>_. ret object_get_raw) w
   | Sealing _ \<Rightarrow> (case on_store (\<lambda>st. Inr ((), st)) w of
         (Inl e, w') \<Rightarrow> (if e = ObjectStoreError then Inr unread else Inl e, w')
       | (Inr _, w') \<Rightarrow> (Inr object_get_raw, w')))"

definition writing_original :: "_ \<Rightarrow> _ \<Rightarrow> _ \<Rightarrow> _ \<Rightarrow> _ \<Rightarrow> _ \<Rightarrow> _ \<Rightarrow> _ \<Rightarrow> string \<Rightarrow> string \<Rightarrow> string \<Rightarrow> (world, put_result) act" where
  "writing_original HB enc wrap unwrap cfg nonce material domain doc key data =
     andthen (peeking key) (\<lambda>get_raw.
     on_store (\<lambda>st. write_original get_raw HB enc wrap unwrap cfg nonce material (\<lambda>x. x) domain st doc key data))"

text \<open>An attempt of the reversible anonymizer that raises leaves nothing behind here: the mappings it has put are taken back with the transaction, and the keys
  it has minted, which a provider commits on its own, are left out.\<close>

definition anonymizing_deterministic :: "string \<Rightarrow> (world, anon_result) act" where
  "anonymizing_deterministic text = checked (deterministic_anonymize text)"

definition anonymizing_reversible :: "_ \<Rightarrow> _ \<Rightarrow> _ \<Rightarrow> _ \<Rightarrow> _ \<Rightarrow> _ \<Rightarrow> _ \<Rightarrow> _ \<Rightarrow> _ \<Rightarrow> string \<Rightarrow> (world, anon_result) act" where
  "anonymizing_reversible HM enc current nonces domain min_score ls detect names text w =
     (case reversible_anonymize HM enc pg_mapping_put current nonces domain min_score ls detect names text
             \<lparr>mt_keys = w_keys w, mt_store = pii_mappings (w_db w), mt_drawn = w_drawn w\<rparr> of
        Inl e \<Rightarrow> (Inl e, w)
      | Inr (r, st) \<Rightarrow> (Inr r, w\<lparr>w_db := (w_db w)\<lparr>pii_mappings := mt_store st\<rparr>, w_keys := mt_keys st, w_drawn := mt_drawn st\<rparr>))"

text \<open>A call to the embedder, and the provider's key by its id.\<close>

definition embedding :: "(string \<Rightarrow> vector result) \<Rightarrow> string \<Rightarrow> (world, vector) act" where
  "embedding emb text = external (checked (emb text))"

definition fetching_key :: "_ \<Rightarrow> _ \<Rightarrow> _ \<Rightarrow> string \<Rightarrow> (world, key) act" where
  "fetching_key unwrap ttl now i w = (case dp_key unwrap ttl now (w_keys w) i of
     Inl e \<Rightarrow> (Inl e, w) | Inr (k, ks) \<Rightarrow> (Inr k, w\<lparr>w_keys := ks\<rparr>))"

definition deterministic_services :: "services \<Rightarrow> _ \<Rightarrow> _ \<Rightarrow> _ \<Rightarrow> _ \<Rightarrow> services" where
  "deterministic_services sv dec unwrap cfg emb = sv\<lparr>sv_read := reading_original dec unwrap cfg, sv_embed := embedding emb,
     sv_anonymize := anonymizing_deterministic, sv_key := None\<rparr>"

definition reversible_services ::
    "services \<Rightarrow> _ \<Rightarrow> _ \<Rightarrow> _ \<Rightarrow> _ \<Rightarrow> _ \<Rightarrow> _ \<Rightarrow> _ \<Rightarrow> _ \<Rightarrow> _ \<Rightarrow> _ \<Rightarrow> _ \<Rightarrow> _ \<Rightarrow> _ \<Rightarrow> _ \<Rightarrow> _ \<Rightarrow> _ \<Rightarrow> services" where
  "reversible_services sv dec unwrap cfg emb HM enc current nonces domain min_score ls detect names kunwrap ttl now =
     sv\<lparr>sv_read := reading_original dec unwrap cfg, sv_embed := embedding emb,
        sv_anonymize := anonymizing_reversible HM enc current nonces domain min_score ls detect names,
        sv_key := Some (fetching_key kunwrap ttl now)\<rparr>"

subsection \<open>Steps\<close>

definition step_to :: "services \<Rightarrow> string \<Rightarrow> state \<Rightarrow> string \<Rightarrow> json \<Rightarrow> (world, unit) act" where
  "step_to sv doc t stp payload =
     on_db (\<lambda>db. rbind (transition (sv_hash sv) (sv_now sv) db doc t stp (Some payload)) (\<lambda>(r, db). Inr ((), db)))"

definition error_name :: "error \<Rightarrow> string" where
  "error_name e = (case e of ProfilingError \<Rightarrow> ''ProfilingError'' | ExtractionError \<Rightarrow> ''ExtractionError'' | _ \<Rightarrow> ''Exception'')"

definition error_payload :: "error \<Rightarrow> json" where
  "error_payload e = JObj [(''error'', JStr (error_name e))]"

definition key_of :: "document option \<Rightarrow> (world, string) act" where
  "key_of d = (case d of None \<Rightarrow> raise_err AttributeError | Some d \<Rightarrow> ret (dc_object_key d))"

definition pdf_bytes :: "services \<Rightarrow> document option \<Rightarrow> string option \<Rightarrow> (world, string) act" where
  "pdf_bytes sv d raw = (case raw of Some b \<Rightarrow> ret b | None \<Rightarrow> andthen (key_of d) (sv_read sv))"

definition extract_or_fail :: "services \<Rightarrow> string \<Rightarrow> string \<Rightarrow> (world, string option) act" where
  "extract_or_fail sv doc raw = (case extract_text (sv_pdf sv) raw of
     Inr t \<Rightarrow> ret (Some t)
   | Inl e \<Rightarrow> andthen (step_to sv doc FAILED ''extract'' (error_payload e)) (\<lambda>_. ret None))"

definition metric_payload :: "metric \<Rightarrow> (string \<times> json) list" where
  "metric_payload m = [(''chars'', JInt (int (mc_chars m))), (''pages'', JInt (int (mc_pages m))), (''bytes'', JInt (int (mc_bytes m)))]"

definition profile_stage :: "services \<Rightarrow> string \<Rightarrow> document option \<Rightarrow> (world, state \<times> string option) act" where
  "profile_stage sv doc d =
     andthen (pdf_bytes sv d None) (\<lambda>raw.
     case profile_pdf (sv_pdf sv) raw (sv_threshold sv) of
       Inl e \<Rightarrow> andthen (step_to sv doc FAILED ''profile'' (error_payload e)) (\<lambda>_. ret (FAILED, Some raw))
     | Inr m \<Rightarrow>
         (let target = (if mc_born_digital m then EXTRACTABLE else UNPROCESSABLE_OCR)
          in andthen (step_to sv doc target ''profile'' (JObj (metric_payload m))) (\<lambda>_. ret (target, Some raw))))"

definition extract_stage ::
    "services \<Rightarrow> string \<Rightarrow> document option \<Rightarrow> string option \<Rightarrow> (world, state \<times> string option \<times> string option) act" where
  "extract_stage sv doc d raw =
     andthen (pdf_bytes sv d raw) (\<lambda>raw.
     andthen (extract_or_fail sv doc raw) (\<lambda>t. case t of
       None \<Rightarrow> ret (FAILED, Some raw, None)
     | Some text \<Rightarrow> andthen (step_to sv doc EXTRACTED ''extract'' (JObj [(''chars'', JInt (int (length text)))])) (\<lambda>_.
         ret (EXTRACTED, Some raw, Some text))))"

text \<open>\<open>to_dict\<close>, and the payloads of the two steps that anonymise.\<close>

definition stats_json :: "(rat \<Rightarrow> string) \<Rightarrow> stats \<Rightarrow> json" where
  "stats_json repr d = JObj (map (\<lambda>(layer, types). (layer, JObj (map (\<lambda>(t, c). (t, JObj
     [(''count'', JInt (int (c_count c))), (''min_score'', JFloat (repr (c_min c))), (''max_score'', JFloat (repr (c_max c))),
      (''below_threshold'', JInt (int (c_below c)))])) types))) d)"

definition counts_obj :: "(string, nat) dict \<Rightarrow> (string \<times> json) list" where
  "counts_obj counts = map (\<lambda>(k, n). (k, JInt (int n))) counts"

definition anonymize_payload :: "services \<Rightarrow> anon_result \<Rightarrow> json" where
  "anonymize_payload sv r = JObj (foldl (\<lambda>d (k, v). dict_set k v d) (counts_obj (an_counts r))
     [(''detections'', stats_json (sv_repr sv) (an_detections r)), (''lists_hash'', opt_str (an_lists_hash r)),
      (''text_source'', JStr TEXT_SOURCE)])"

text \<open>\<open>session.merge(DocumentText ...)\<close> and \<open>pseudonym_registry.register\<close>\<close>

definition store_text :: "services \<Rightarrow> string \<Rightarrow> string \<Rightarrow> corpus \<Rightarrow> corpus" where
  "store_text sv doc text db = db\<lparr>texts := dict_set doc text (texts db),
     pseudonyms := fst (register (sv_now sv) (pseudonyms db) doc text MINTED)\<rparr>"

subsection \<open>The box map\<close>

fun clear_values :: "services \<Rightarrow> (string \<Rightarrow> (world, key) act) \<Rightarrow> string list \<Rightarrow> (world, (string \<times> string) list) act" where
  "clear_values sv get [] = ret []"
| "clear_values sv get (p # ps) =
     andthen (reading (\<lambda>w. mapping_get (pii_mappings (w_db w)) p)) (\<lambda>m. case m of
       None \<Rightarrow> clear_values sv get ps
     | Some m \<Rightarrow>
         andthen (handle (andthen (get (m_key_id m)) (\<lambda>k. ret (Some k))) (\<lambda>e. case e of KeyError _ \<Rightarrow> ret None | _ \<Rightarrow> raise_err e)) (\<lambda>k.
         case k of
           None \<Rightarrow> clear_values sv get ps
         | Some k \<Rightarrow> andthen (checked (decrypt (sv_dec sv) (k_material k) (m_ciphertext m) (m_nonce m))) (\<lambda>v.
             andthen (clear_values sv get ps) (\<lambda>vs. ret ((p, v) # vs)))))"

definition serialise :: "(rat \<Rightarrow> string) \<Rightarrow> box list \<Rightarrow> json" where
  "serialise repr boxes = JArr (map (\<lambda>b. case bx_rect b of (x0, y0, x1, y1) \<Rightarrow>
     JObj [(''page'', JInt (int (bx_page b))), (''rect'', JArr (map (\<lambda>x. JFloat (repr x)) [x0, y0, x1, y1])), (''token'', JStr (bx_token b))]) boxes)"

definition save_box_map :: "services \<Rightarrow> string \<Rightarrow> string \<Rightarrow> string \<Rightarrow> string option \<Rightarrow> (string \<times> string) list \<Rightarrow> corpus \<Rightarrow> (unit \<times> corpus) result" where
  "save_box_map sv doc raw text lists_hash items db =
     (case build_box_map (sv_pdf sv) raw text items of
        None \<Rightarrow> Inl PdfError
      | Some (Boxes bs) \<Rightarrow> Inr ((), db\<lparr>box_maps := dict_set doc
          \<lparr>bm_hash = sv_hash sv (dumps_sorted True '', '' '': '' (serialise (sv_repr sv) bs)), bm_lists_hash = lists_hash, bm_boxes = bs\<rparr> (box_maps db)\<rparr>)
      | Some (NotLocated t expected found) \<Rightarrow>
          with_state db doc (\<lambda>s. rbind (note_event (sv_hash sv) (sv_now sv) db doc s ''value-not-located''
            (JObj [(''pii_type'', JStr (label_of t)), (''in_anonymized'', JInt (int expected)), (''in_positioned'', JInt (int found))]))
            (\<lambda>db. Inr ((), db))))"

definition compute_box_map :: "services \<Rightarrow> string \<Rightarrow> string \<Rightarrow> string \<Rightarrow> string option \<Rightarrow> (world, unit) act" where
  "compute_box_map sv doc raw text lists_hash = (case sv_key sv of
     None \<Rightarrow> ret ()
   | Some get \<Rightarrow>
       andthen (reading (\<lambda>w. sorted_list_of_set (registered (pseudonyms (w_db w)) doc \<inter> tokens_in text))) (\<lambda>tokens.
       andthen (clear_values sv get tokens) (\<lambda>items.
       on_db (save_box_map sv doc raw text lists_hash items))))"

definition redacted_cache_key :: "string \<Rightarrow> nat \<Rightarrow> string \<Rightarrow> string" where
  "redacted_cache_key doc render_version boxmap_hash =
     ''redacted/'' @ doc @ ''/'' @ digits_of render_version @ ''/'' @ boxmap_hash"

subsection \<open>process\<close>

definition anonymized :: "services \<Rightarrow> string \<Rightarrow> (world, anon_result) act" where
  "anonymized sv text = retry_transient (sv_anonymize sv text) (sv_attempts sv) (sv_delay sv)"

definition anonymize_stage :: "services \<Rightarrow> string \<Rightarrow> document option \<Rightarrow> string option \<Rightarrow> string option \<Rightarrow> (world, state) act" where
  "anonymize_stage sv doc d raw text =
     andthen (case text of Some t \<Rightarrow> ret (Some t, raw)
              | None \<Rightarrow> andthen (pdf_bytes sv d raw) (\<lambda>b. andthen (extract_or_fail sv doc b) (\<lambda>t. ret (t, Some b)))) (\<lambda>(text, raw).
     case text of
       None \<Rightarrow> ret FAILED
     | Some text \<Rightarrow>
         andthen (anonymized sv text) (\<lambda>result.
         andthen (on_db (\<lambda>db. Inr ((), store_text sv doc (an_text result) db))) (\<lambda>_.
         andthen (step_to sv doc ANONYMIZED ''anonymize'' (anonymize_payload sv result)) (\<lambda>_.
         andthen (case sv_key sv of None \<Rightarrow> ret ()
                  | Some _ \<Rightarrow> andthen (pdf_bytes sv d raw) (\<lambda>b. compute_box_map sv doc b (an_text result) (an_lists_hash result))) (\<lambda>_.
         ret ANONYMIZED)))))"

definition embedded :: "services \<Rightarrow> string \<Rightarrow> (world, vector) act" where
  "embedded sv text = retry_transient (sv_embed sv text) (sv_attempts sv) (sv_delay sv)"

definition write_index ::
    "services \<Rightarrow> string \<Rightarrow> document option \<Rightarrow> string \<Rightarrow> vector \<Rightarrow> vector list \<Rightarrow> string list \<Rightarrow> (world, unit) act" where
  "write_index sv doc d text vector ps topics =
     retry_transient (andthen (key_of d) (\<lambda>key w.
       on_index (\<lambda>ix. ((), index_put ix doc text key (Some vector) (dossiers_of (w_db w) doc) ps topics)) w))
       (sv_attempts sv) (sv_delay sv)"

definition index_stage :: "services \<Rightarrow> string \<Rightarrow> document option \<Rightarrow> (world, state) act" where
  "index_stage sv doc d =
     andthen (reading (\<lambda>w. case get_anonymized_text (w_db w) doc of None \<Rightarrow> [] | Some t \<Rightarrow> t)) (\<lambda>text.
     andthen (embedded sv text) (\<lambda>vector.
     andthen (embed_passages (sv_embed sv) (sv_attempts sv) (sv_delay sv) text) (\<lambda>ps.
     andthen (write_index sv doc d text vector ps []) (\<lambda>_.
     andthen (step_to sv doc INDEXED ''index'' (JObj [(''chars'', JInt (int (length text))), (''dim'', JInt (int (length vector)))])) (\<lambda>_.
     ret INDEXED)))))"

definition lookup :: "string \<Rightarrow> (world, document option \<times> state option) act" where
  "lookup doc = on_db (\<lambda>db. rbind (doc_state db doc) (\<lambda>s. Inr ((document_by_id db doc, s), db)))"

definition process :: "services \<Rightarrow> string \<Rightarrow> (world, state option) act" where
  "process sv doc =
     andthen (lookup doc) (\<lambda>(d, s).
     andthen (if s = Some REGISTERED then andthen (profile_stage sv doc d) (\<lambda>(s, raw). ret (Some s, raw)) else ret (s, None)) (\<lambda>(s, raw).
     andthen (if s = Some EXTRACTABLE then andthen (extract_stage sv doc d raw) (\<lambda>(s, raw, text). ret (Some s, raw, text))
              else ret (s, raw, None)) (\<lambda>(s, raw, text).
     andthen (if s = Some EXTRACTED then andthen (anonymize_stage sv doc d raw text) (\<lambda>s. ret (Some s)) else ret s) (\<lambda>s.
     if s = Some ANONYMIZED then andthen (index_stage sv doc d) (\<lambda>s. ret (Some s)) else ret s))))"

subsection \<open>reanonymize\<close>

definition orphaned_tokens :: "string set \<Rightarrow> string \<Rightarrow> (string, nat) dict" where
  "orphaned_tokens before after_text =
     foldl (\<lambda>d t. dict_add (label_of t) 1 d) [] (sorted_list_of_set (before - tokens_in after_text))"

definition reanonymize_payload :: "services \<Rightarrow> anon_result \<Rightarrow> (string, nat) dict \<Rightarrow> json" where
  "reanonymize_payload sv r orphans = JObj
     [(''counts'', JObj (counts_obj (an_counts r))), (''detections'', stats_json (sv_repr sv) (an_detections r)),
      (''lists_hash'', opt_str (an_lists_hash r)), (''reanonymized'', JBool True), (''text_source'', JStr TEXT_SOURCE),
      (''orphaned_tokens'', JObj (counts_obj orphans))]"

definition reanonymize :: "services \<Rightarrow> string \<Rightarrow> (world, state option) act" where
  "reanonymize sv doc =
     andthen (lookup doc) (\<lambda>(d, s).
     if d = None then raise_err ValueError
     else (case s of
       Some st \<Rightarrow>
         if st \<notin> {INDEXED, ANONYMIZED} then ret s
         else
           andthen (reading (\<lambda>w. registered (pseudonyms (w_db w)) doc)) (\<lambda>before.
           andthen (pdf_bytes sv d None) (\<lambda>raw.
           andthen (checked (extract_text (sv_pdf sv) raw)) (\<lambda>text.
           andthen (anonymized sv text) (\<lambda>result.
           andthen (embedded sv (an_text result)) (\<lambda>vector.
           andthen (embed_passages (sv_embed sv) (sv_attempts sv) (sv_delay sv) (an_text result)) (\<lambda>ps.
           andthen (on_index (\<lambda>ix. (topics_of ix doc, ix))) (\<lambda>topics.
           andthen (write_index sv doc d (an_text result) vector ps topics) (\<lambda>_.
           andthen (on_db (\<lambda>db. let db = store_text sv doc (an_text result) db
              in rbind (note_event (sv_hash sv) (sv_now sv) db doc st ''reanonymize''
                   (reanonymize_payload sv result (orphaned_tokens before (an_text result)))) (\<lambda>db. Inr ((), db)))) (\<lambda>_.
           andthen (compute_box_map sv doc raw (an_text result) (an_lists_hash result)) (\<lambda>_.
           ret s))))))))))
     | None \<Rightarrow> ret s))"

subsection \<open>ingest\<close>

definition original_key :: "services \<Rightarrow> string \<Rightarrow> string" where
  "original_key sv data = ''documents/'' @ sv_hash sv data"

definition keyed_delivery :: "services \<Rightarrow> string \<Rightarrow> delivery \<Rightarrow> delivery" where
  "keyed_delivery sv data dl = dl\<lparr>dl_object_key := original_key sv data, dl_source_sha256 := Some (sv_hash sv data)\<rparr>"

definition file_under :: "services \<Rightarrow> string \<Rightarrow> string option \<Rightarrow> document \<Rightarrow> (world, document) act" where
  "file_under sv new_dossier dossier doc = (case dossier of
     None \<Rightarrow> ret doc
   | Some name \<Rightarrow>
       if name = [] then ret doc
       else andthen (on_db (\<lambda>db. ensure_dossier (sv_now sv) new_dossier (\<lambda>x. x) db name)) (\<lambda>ds.
            andthen (on_db (\<lambda>db. add_member (sv_hash sv) (sv_now sv) (\<lambda>x. x) db (ds_id ds) (dc_id doc) ''ingest'' None)) (\<lambda>_.
            ret doc)))"

definition undo_write :: "services \<Rightarrow> string \<Rightarrow> put_result \<Rightarrow> error \<Rightarrow> (world, document) act" where
  "undo_write sv data wrote e = andthen (if wrote = WROTE then store_delete (original_key sv data) else ret False) (\<lambda>_. raise_err e)"

definition ingest :: "services \<Rightarrow> string \<Rightarrow> string \<Rightarrow> (corpus \<Rightarrow> corpus) \<Rightarrow> string \<Rightarrow> delivery \<Rightarrow> string option \<Rightarrow> (world, document) act" where
  "ingest sv new_doc new_dossier env data dl dossier =
     andthen (on_db (\<lambda>db. register_live (sv_hash sv) (sv_now sv) new_doc env db (keyed_delivery sv data dl))) (\<lambda>doc.
     andthen (sv_write sv (dc_id doc) (original_key sv data) data) (\<lambda>wrote.
     handle (file_under sv new_dossier dossier doc) (undo_write sv data wrote)))"

subsection \<open>recover\<close>

definition store_put :: "datetime \<Rightarrow> string \<Rightarrow> string \<Rightarrow> (world, unit) act" where
  "store_put now key data = on_store (\<lambda>st. Inr ((), with_objects st (object_put now (store_objects st) key data)))"

definition repoint :: "services \<Rightarrow> string \<Rightarrow> document \<Rightarrow> string \<Rightarrow> metric \<Rightarrow> (world, state) act" where
  "repoint sv doc me new_key m =
     andthen (on_db (\<lambda>db. rbind (update_document db (me\<lparr>dc_object_key := new_key\<rparr>)) (\<lambda>db. Inr ((), db)))) (\<lambda>_.
     andthen (step_to sv doc EXTRACTABLE ''ocr'' (JObj (metric_payload m
        @ [(''old_object_key'', JStr (dc_object_key me)), (''new_object_key'', JStr new_key)]))) (\<lambda>_.
     ret EXTRACTABLE))"

definition settle_ocr :: "services \<Rightarrow> string \<Rightarrow> document option \<Rightarrow> string \<Rightarrow> metric \<Rightarrow> (world, state) act" where
  "settle_ocr sv doc d new_key m =
     andthen (reading (\<lambda>w. live_document_for (w_db w) new_key)) (\<lambda>owner.
     case (owner, d) of
       (Some own, Some me) \<Rightarrow>
         if dc_id own \<noteq> dc_id me then
           andthen (supersede (sv_hash sv) (sv_now sv) False doc (dc_id own) ''ocr'' None (Some new_key)) (\<lambda>_. ret SUPERSEDED)
         else repoint sv doc me new_key m
     | (None, Some me) \<Rightarrow> repoint sv doc me new_key m
     | (_, None) \<Rightarrow> raise_err AttributeError)"

definition recover :: "services \<Rightarrow> (string \<Rightarrow> (world, string) act) \<Rightarrow> string \<Rightarrow> (world, state) act" where
  "recover sv ocr doc =
     andthen (lookup doc) (\<lambda>(d, s).
     if s \<noteq> Some UNPROCESSABLE_OCR then raise_err ValueError
     else
       andthen (pdf_bytes sv d None) (\<lambda>pdf.
       andthen (ocr pdf) (\<lambda>ocr_bytes.
       case profile_pdf (sv_pdf sv) ocr_bytes (sv_threshold sv) of
         Inl e \<Rightarrow> raise_err e
       | Inr m \<Rightarrow>
           if \<not> mc_born_digital m then
             andthen (on_db (\<lambda>db. rbind (note_event (sv_hash sv) (sv_now sv) db doc UNPROCESSABLE_OCR ''ocr'' (JObj (metric_payload m)))
                (\<lambda>db. Inr ((), db)))) (\<lambda>_. ret UNPROCESSABLE_OCR)
           else
             andthen (store_put (sv_now sv) (original_key sv ocr_bytes) ocr_bytes) (\<lambda>_.
             settle_ocr sv doc d (original_key sv ocr_bytes) m))))"

end
