(* ===== verification/Triples.thy ===== *)
theory Triples
  imports Actions
begin

text \<open>
  A small Hoare logic of actions: \<open>triple A m Q E\<close> says that a run of \<open>m\<close> from a state in \<open>A\<close> ends in \<open>Q x\<close> when it
  returns \<open>x\<close> and in \<open>E\<close> when it raises.
\<close>

definition triple :: "('s \<Rightarrow> bool) \<Rightarrow> ('s, 'a) act \<Rightarrow> ('a \<Rightarrow> 's \<Rightarrow> bool) \<Rightarrow> ('s \<Rightarrow> bool) \<Rightarrow> bool" where
  "triple A m Q E = (\<forall>s. A s \<longrightarrow> (case m s of (Inr x, s') \<Rightarrow> Q x s' | (Inl _, s') \<Rightarrow> E s'))"

named_theorems triple_intros \<open>how an action is proved correct\<close>

lemma triple_run: "triple A m Q E \<Longrightarrow> A s \<Longrightarrow> m s = (r, s') \<Longrightarrow> (case r of Inr x \<Rightarrow> Q x s' | Inl _ \<Rightarrow> E s')"
  unfolding triple_def by (drule spec [of _ s]) (simp split: sum.splits)

lemma triple_conseq:
  assumes "triple A m Q E" and "\<And>s. A' s \<Longrightarrow> A s" and "\<And>x s. Q x s \<Longrightarrow> Q' x s" and "\<And>s. E s \<Longrightarrow> E' s"
  shows "triple A' m Q' E'"
  unfolding triple_def
proof (intro allI impI)
  fix s assume "A' s"
  then have a: "A s" by (rule assms(2))
  obtain r s' where m: "m s = (r, s')" by (cases "m s")
  from triple_run [OF assms(1) a m] assms(3,4) m
  show "case m s of (Inr x, s') \<Rightarrow> Q' x s' | (Inl e, s') \<Rightarrow> E' s'" by (cases r) simp_all
qed

lemma triple_pre: "triple A m Q E \<Longrightarrow> (\<And>s. A' s \<Longrightarrow> A s) \<Longrightarrow> triple A' m Q E"
  by (erule triple_conseq) simp_all

lemma triple_post: "triple A m Q E \<Longrightarrow> (\<And>x s. Q x s \<Longrightarrow> Q' x s) \<Longrightarrow> triple A m Q' E"
  by (erule triple_conseq) simp_all

lemma triple_ret [triple_intros]: "(\<And>s. A s \<Longrightarrow> Q x s) \<Longrightarrow> triple A (ret x) Q E"
  by (simp add: triple_def)

lemma triple_raise [triple_intros]: "(\<And>s. A s \<Longrightarrow> E s) \<Longrightarrow> triple A (raise_err e) Q E"
  by (simp add: triple_def)

lemma triple_reading [triple_intros]: "(\<And>s. A s \<Longrightarrow> Q (f s) s) \<Longrightarrow> triple A (reading f) Q E"
  by (simp add: triple_def)

lemma triple_checked [triple_intros]: "(\<And>s x. A s \<Longrightarrow> r = Inr x \<Longrightarrow> Q x s) \<Longrightarrow> (\<And>s. A s \<Longrightarrow> E s) \<Longrightarrow> triple A (checked r) Q E"
  by (simp add: triple_def split: sum.splits)

lemma triple_andthen [triple_intros]:
  assumes "triple A m R E" and "\<And>x. triple (R x) (f x) Q E"
  shows "triple A (andthen m f) Q E"
  unfolding triple_def
proof (intro allI impI)
  fix s assume a: "A s"
  obtain r s1 where m: "m s = (r, s1)" by (cases "m s")
  show "case andthen m f s of (Inr x, s') \<Rightarrow> Q x s' | (Inl e, s') \<Rightarrow> E s'"
  proof (cases r)
    case (Inl e)
    with triple_run [OF assms(1) a m] m show ?thesis by (simp add: andthen_def)
  next
    case (Inr x)
    obtain r' s2 where f: "f x s1 = (r', s2)" by (cases "f x s1")
    from triple_run [OF assms(1) a m] Inr have "R x s1" by simp
    from triple_run [OF assms(2) this f] f m Inr show ?thesis by (cases r') (simp_all add: andthen_def)
  qed
qed

lemma triple_handle:
  assumes "triple A m Q F" and "\<And>e. triple F (h e) Q E"
  shows "triple A (handle m h) Q E"
  unfolding triple_def
proof (intro allI impI)
  fix s assume a: "A s"
  obtain r s1 where m: "m s = (r, s1)" by (cases "m s")
  show "case handle m h s of (Inr x, s') \<Rightarrow> Q x s' | (Inl e, s') \<Rightarrow> E s'"
  proof (cases r)
    case (Inl e)
    obtain r' s2 where h: "h e s1 = (r', s2)" by (cases "h e s1")
    from triple_run [OF assms(1) a m] Inl have "F s1" by simp
    from triple_run [OF assms(2) this h] h m Inl show ?thesis by (cases r') (simp_all add: handle_def)
  next
    case (Inr x)
    with triple_run [OF assms(1) a m] m show ?thesis by (simp add: handle_def)
  qed
qed

lemma triple_if [triple_intros]: "(b \<Longrightarrow> triple A m Q E) \<Longrightarrow> (\<not> b \<Longrightarrow> triple A n Q E) \<Longrightarrow> triple A (if b then m else n) Q E"
  by simp

lemma triple_fact: "(b \<Longrightarrow> triple A m Q E) \<Longrightarrow> triple (\<lambda>s. A s \<and> b) m Q E"
  by (cases b) (simp_all add: triple_def)

text \<open>What an action keeps can be added to what is known before and after it.\<close>

lemma triple_frame:
  assumes "triple A m Q E" and "keeps R m" and "\<And>s s'. K s \<Longrightarrow> R s s' \<Longrightarrow> K s'"
  shows "triple (\<lambda>s. A s \<and> K s) m (\<lambda>x s. Q x s \<and> K s) (\<lambda>s. E s \<and> K s)"
  unfolding triple_def
proof (intro allI impI)
  fix s assume a: "A s \<and> K s"
  obtain r s' where m: "m s = (r, s')" by (cases "m s")
  have "K s'" using a m assms(2,3) by (auto simp: keeps_def dest: spec [of _ s])
  with triple_run [OF assms(1) conjunct1 [OF a] m] m
  show "case m s of (Inr x, s') \<Rightarrow> Q x s' \<and> K s' | (Inl e, s') \<Rightarrow> E s' \<and> K s'" by (cases r) simp_all
qed

text \<open>A call that raises may have changed something; what is retried keeps its precondition.\<close>

lemma triple_after:
  assumes "triple A m Q A" and "A s" and "\<And>j. j < k \<Longrightarrow> \<exists>e. fst (m (after m j s)) = Inl e"
  shows "A (after m k s)"
  using assms(2,3)
proof (induction k arbitrary: s)
  case (Suc k)
  obtain r s1 where m: "m s = (r, s1)" by (cases "m s")
  from Suc.prems(2) [of 0] m obtain e where "r = Inl e" by auto
  with triple_run [OF assms(1) Suc.prems(1) m] have a: "A s1" by simp
  have "\<exists>e. fst (m (after m j s1)) = Inl e" if "j < k" for j
    using Suc.prems(2) [of "Suc j"] that m by simp
  from Suc.IH [OF a this] m show ?case by simp
qed simp

lemma triple_retry [triple_intros]:
  assumes "triple A m Q A"
  shows "triple A (retry_transient m attempts b) Q A"
  unfolding triple_def
proof (intro allI impI)
  fix s assume a: "A s"
  let ?n = "nat (max 1 attempts)"
  have "0 < ?n" by simp
  from retry_loop_spec [OF this, of m s b 0] obtain k where k: "\<forall>j<k. \<exists>e. fst (m (after m j s)) = Inl e \<and> is_transient e"
    "retry_loop m b 0 ?n s = (m (after m k s), map (\<lambda>j. b * 2 ^ (0 + j)) [0..<k])" by blast
  have "A (after m k s)" by (rule triple_after [OF assms a]) (use k(1) in blast)
  moreover obtain r s' where m: "m (after m k s) = (r, s')" by (cases "m (after m k s)")
  ultimately have "case r of Inr x \<Rightarrow> Q x s' | Inl _ \<Rightarrow> A s'" by (rule triple_run [OF assms])
  then show "case retry_transient m attempts b s of (Inr x, s') \<Rightarrow> Q x s' | (Inl e, s') \<Rightarrow> A s'"
    by (cases r) (simp_all add: retry_transient_def retry_with_delays_def k(2) m)
qed

end
