(* ===== verification/Processing.thy ===== *)
theory Processing
  imports Pipeline Triples
begin

text \<open>
  What \<open>process\<close>, \<open>reanonymize\<close> and \<open>ingest\<close> keep and promise, proved once for every services that do their part
  (the locale), and for the services as the program wires them.
\<close>

definition texts_ok :: "(string \<Rightarrow> bool) \<Rightarrow> corpus \<Rightarrow> bool" where
  "texts_ok P db = (\<forall>i t. dict_get (texts db) i = Some t \<longrightarrow> P t)"

definition index_ok :: "(string \<Rightarrow> bool) \<Rightarrow> index \<Rightarrow> bool" where
  "index_ok P ix = (\<forall>i e. dict_get (ix_docs ix) i = Some e \<longrightarrow> P (ie_text e))"

definition WORK :: "state set" where
  "WORK = {EXTRACTABLE, UNPROCESSABLE_OCR, EXTRACTED, ANONYMIZED, INDEXED, FAILED}"

text \<open>A world that a run on \<open>doc\<close> has come to from \<open>w0\<close>; and one where the document is in a given state.\<close>

definition others_same :: "string \<Rightarrow> world \<Rightarrow> world \<Rightarrow> bool" where
  "others_same doc w0 w = (documents (w_db w) = documents (w_db w0) \<and> memberships (w_db w) = memberships (w_db w0)
     \<and> dossier_rows (w_db w) = dossier_rows (w_db w0)
     \<and> (\<forall>i. i \<noteq> doc \<longrightarrow> doc_state (w_db w) i = doc_state (w_db w0) i \<and> dict_get (texts (w_db w)) i = dict_get (texts (w_db w0)) i
          \<and> registered (pseudonyms (w_db w)) i = registered (pseudonyms (w_db w0)) i
          \<and> dict_get (ix_docs (w_index w)) i = dict_get (ix_docs (w_index w0)) i))"

definition going :: "(string \<Rightarrow> string) \<Rightarrow> (string \<Rightarrow> bool) \<Rightarrow> string \<Rightarrow> world \<Rightarrow> world \<Rightarrow> bool" where
  "going H P doc w0 w = (digest64 H \<and> corpus_ok H (w_db w) \<and> texts_ok P (w_db w) \<and> index_ok P (w_index w) \<and> others_same doc w0 w
     \<and> (doc_state (w_db w) doc = doc_state (w_db w0) doc \<or> (\<exists>s\<in>WORK. doc_state (w_db w) doc = Inr (Some s))))"

definition at_state :: "(string \<Rightarrow> string) \<Rightarrow> (string \<Rightarrow> bool) \<Rightarrow> string \<Rightarrow> world \<Rightarrow> state option \<Rightarrow> world \<Rightarrow> bool" where
  "at_state H P doc w0 s w = (going H P doc w0 w \<and> doc_state (w_db w) doc = Inr s)"

lemma at_going: "at_state H P doc w0 s w \<Longrightarrow> going H P doc w0 w"
  by (simp add: at_state_def)

lemma at_same_db:
  assumes "at_state H P doc w0 s w" and "w_db w' = w_db w" and "w_index w' = w_index w"
  shows "at_state H P doc w0 s w'"
  using assms(1) unfolding at_state_def going_def others_same_def assms(2,3) .

lemma at_other_tables:
  assumes "at_state H P doc w0 s w" and "corpus_ok H (w_db w') = corpus_ok H (w_db w)" and "texts (w_db w') = texts (w_db w)"
    and "pseudonyms (w_db w') = pseudonyms (w_db w)" and "documents (w_db w') = documents (w_db w)"
    and "memberships (w_db w') = memberships (w_db w)" and "dossier_rows (w_db w') = dossier_rows (w_db w)"
    and "\<And>i. doc_state (w_db w') i = doc_state (w_db w) i" and "w_index w' = w_index w"
  shows "at_state H P doc w0 s w'"
  using assms(1) unfolding at_state_def going_def others_same_def texts_ok_def assms(2-9) .

lemma at_same:
  assumes "at_state H P doc w0 s w" and "w_db w' = (w_db w)\<lparr>pii_mappings := m\<rparr>" and "w_index w' = w_index w"
  shows "at_state H P doc w0 s w'"
  by (rule at_other_tables [OF assms(1)]) (simp_all add: assms corpus_ok_def tables_ok_def doc_state_def)

lemma at_audit:
  assumes "at_state H P doc w0 s w" and "corpus_ok H db" and "db = (w_db w)\<lparr>audit := a\<rparr>"
    and "\<And>i. i \<noteq> doc \<Longrightarrow> doc_state db i = doc_state (w_db w) i" and "doc_state db doc = Inr s'" and "s' = s \<or> (\<exists>t\<in>WORK. s' = Some t)"
  shows "at_state H P doc w0 s' (w\<lparr>w_db := db\<rparr>)"
  using assms by (auto simp: at_state_def going_def others_same_def texts_ok_def)

text \<open>An action that leaves the tables and the index alone.\<close>

definition aside :: "(world, 'a) act \<Rightarrow> bool" where
  "aside m = (\<forall>w. w_db (snd (m w)) = w_db w \<and> w_index (snd (m w)) = w_index w)"

lemma aside_triple:
  assumes "aside m" and "\<And>w w'. A w \<Longrightarrow> w_db w' = w_db w \<Longrightarrow> w_index w' = w_index w \<Longrightarrow> A w'"
  shows "triple A m (\<lambda>_. A) A"
  unfolding triple_def
proof (intro allI impI)
  fix w assume a: "A w"
  obtain r w' where m: "m w = (r, w')" by (cases "m w")
  with assms(1) have "w_db w' = w_db w" "w_index w' = w_index w" by (auto simp: aside_def dest: spec [of _ w])
  with a m show "case m w of (Inr x, s') \<Rightarrow> A s' | (Inl e, s') \<Rightarrow> A s'" by (auto split: sum.split intro: assms(2))
qed

lemma aside_ret: "aside (ret x)"
  by (simp add: aside_def)

lemma aside_raise: "aside (raise_err e)"
  by (simp add: aside_def)

lemma aside_reading: "aside (reading f)"
  by (simp add: aside_def)

lemma aside_checked: "aside (checked r)"
  by (simp add: aside_def)

lemma aside_andthen:
  assumes "aside m" and "\<And>x. aside (f x)"
  shows "aside (andthen m f)"
  unfolding aside_def
proof
  fix w
  obtain r w' where "m w = (r, w')" by (cases "m w")
  with assms show "w_db (snd (andthen m f w)) = w_db w \<and> w_index (snd (andthen m f w)) = w_index w"
    by (cases r) (auto simp: aside_def andthen_def dest: spec [of _ w])
qed

lemma aside_handle:
  assumes "aside m" and "\<And>e. aside (h e)"
  shows "aside (handle m h)"
  unfolding aside_def
proof
  fix w
  obtain r w' where "m w = (r, w')" by (cases "m w")
  with assms show "w_db (snd (handle m h w)) = w_db w \<and> w_index (snd (handle m h w)) = w_index w"
    by (cases r) (auto simp: aside_def handle_def dest: spec [of _ w])
qed

lemma aside_option:
  "aside n \<Longrightarrow> (\<And>x. v = Some x \<Longrightarrow> aside (f x)) \<Longrightarrow> aside (case v of None \<Rightarrow> n | Some x \<Rightarrow> f x)"
  by (cases v) simp_all

lemma aside_on_store: "aside (on_store f)"
  unfolding aside_def using on_store_any by (metis surjective_pairing)

lemmas aside_rules = aside_ret aside_raise aside_reading aside_checked aside_andthen aside_handle aside_option aside_on_store

lemma triple_on_db:
  assumes "\<And>w x db. A w \<Longrightarrow> f (w_db w) = Inr (x, db) \<Longrightarrow> Q x (w\<lparr>w_db := db\<rparr>)" and "\<And>w. A w \<Longrightarrow> E w"
  shows "triple A (on_db f) Q E"
  using assms by (auto simp: triple_def on_db_def split: sum.splits prod.splits)

subsection \<open>Registering the pseudonyms of a text keeps the tables sound\<close>

lemma register_rows_ok:
  assumes "distinct (map (\<lambda>r. (ps_document_id r, ps_pseudonym r)) rows)"
  shows "distinct (map (\<lambda>r. (ps_document_id r, ps_pseudonym r)) (fst (register now rows doc text source)))"
proof -
  let ?new = "map (\<lambda>p. \<lparr>ps_document_id = doc, ps_pseudonym = p, ps_source = source, ps_created_at = now\<rparr>)
      (sorted_list_of_set (tokens_in text - registered rows doc))"
  have "distinct (map (\<lambda>r. (ps_document_id r, ps_pseudonym r)) (rows @ ?new))"
    using assms by (auto simp: distinct_map inj_on_def registered_def)
  then show ?thesis using assms by (simp add: register_def Let_def)
qed

lemma store_text_ok:
  assumes "at_state H P doc w0 s w" and "P t"
  shows "at_state H P doc w0 s (w\<lparr>w_db := store_text sv doc t (w_db w)\<rparr>)"
proof -
  have "corpus_ok H (store_text sv doc t (w_db w))"
    using assms(1) register_rows_ok by (simp add: at_state_def going_def corpus_ok_def tables_ok_def store_text_def)
  moreover have "i \<noteq> doc \<Longrightarrow> registered (fst (register now rows doc t source)) i = registered rows i" for i now rows source
    using register_registered(2) [of now rows doc t source] by (cases "register now rows doc t source") auto
  ultimately show ?thesis
    using assms by (auto simp: at_state_def going_def others_same_def texts_ok_def store_text_def doc_state_def)
qed

text \<open>The index holds what the tables say of a document, its text aside, and its stored text too.\<close>

definition indexed_as :: "string \<Rightarrow> string \<Rightarrow> world \<Rightarrow> bool" where
  "indexed_as t doc w = (case (dict_get (ix_docs (w_index w)) doc, document_by_id (w_db w) doc) of
     (Some e, Some d) \<Rightarrow> ie_text e = t \<and> ie_key e = dc_object_key d \<and> ie_vector e \<noteq> None
        \<and> members_of (ix_dossiers (w_index w)) doc = set (dossiers_of (w_db w) doc)
   | _ \<Rightarrow> False)"

definition stored_text :: "string \<Rightarrow> world \<Rightarrow> string" where
  "stored_text doc w = (case get_anonymized_text (w_db w) doc of None \<Rightarrow> [] | Some t \<Rightarrow> t)"

definition indexed_true :: "string \<Rightarrow> world \<Rightarrow> bool" where
  "indexed_true doc w = indexed_as (stored_text doc w) doc w"

lemma indexed_as_put:
  assumes "document_by_id (w_db w) doc = Some d" and "w_index w = index_put ix doc t (dc_object_key d) (Some v) (dossiers_of (w_db w) doc) ps tp"
  shows "indexed_as t doc w"
  unfolding indexed_as_def assms by (simp add: index_put_def members_of_def)

text \<open>What box maps, mappings and records do not touch.\<close>

definition same_core :: "world \<Rightarrow> world \<Rightarrow> bool" where
  "same_core w w' = (documents (w_db w') = documents (w_db w) \<and> memberships (w_db w') = memberships (w_db w)
     \<and> texts (w_db w') = texts (w_db w) \<and> w_index w' = w_index w)"

lemma same_core_refl: "same_core w w"
  by (simp add: same_core_def)

lemma same_core_trans: "same_core a b \<Longrightarrow> same_core b c \<Longrightarrow> same_core a c"
  by (simp add: same_core_def)

lemma same_core_audit: "same_core w (w\<lparr>w_db := (w_db w)\<lparr>audit := a\<rparr>\<rparr>)"
  by (simp add: same_core_def)

lemma same_core_indexed:
  assumes "same_core w w'"
  shows "indexed_as t doc w' = indexed_as t doc w" "indexed_true doc w' = indexed_true doc w"
proof -
  have eq: "document_by_id (w_db w') doc = document_by_id (w_db w) doc" "dossiers_of (w_db w') doc = dossiers_of (w_db w) doc"
    "w_index w' = w_index w" "stored_text doc w' = stored_text doc w"
    using assms by (simp_all add: same_core_def document_by_id_def dossiers_of_def stored_text_def get_anonymized_text_def)
  show "indexed_as t doc w' = indexed_as t doc w" "indexed_true doc w' = indexed_true doc w"
    unfolding indexed_true_def indexed_as_def eq by (rule refl)+
qed

lemma aside_keeps: "aside m \<Longrightarrow> keeps same_core m"
  by (simp add: aside_def keeps_def same_core_def)

lemma at_put:
  assumes "at_state H P doc w0 s w" and "P t" and "w_db w' = w_db w" and "w_index w' = index_put (w_index w) doc t key v ds ps tp"
  shows "at_state H P doc w0 s w'"
proof -
  have "index_ok P (w_index w')"
    using assms by (auto simp: at_state_def going_def index_ok_def index_put_def split: if_splits)
  moreover have "i \<noteq> doc \<Longrightarrow> dict_get (ix_docs (w_index w')) i = dict_get (ix_docs (w_index w)) i" for i
    by (simp add: assms(4) index_put_def)
  moreover have "others_same doc w0 w" using assms(1) by (simp add: at_state_def going_def)
  ultimately have "index_ok P (w_index w')" "others_same doc w0 w'"
    by (simp_all add: others_same_def assms(3))
  then show ?thesis
    using assms(1) unfolding at_state_def going_def assms(3) by blast
qed

subsection \<open>Services that do their part\<close>

text \<open>
  Reading, embedding and fetching a key leave the tables and the index alone; anonymising may add mappings and returns
  only texts that satisfy \<open>P\<close>.
\<close>

locale pipeline_services =
  fixes sv :: services and P :: "string \<Rightarrow> bool"
  assumes reads: "aside (sv_read sv key)"
    and embeds: "aside (sv_embed sv t)"
    and fetches: "sv_key sv = Some get \<Longrightarrow> aside (get k)"
    and anonymizes: "sv_anonymize sv t w = (r, w') \<Longrightarrow>
      (\<exists>m. w_db w' = (w_db w)\<lparr>pii_mappings := m\<rparr>) \<and> w_index w' = w_index w \<and> (case r of Inl _ \<Rightarrow> True | Inr x \<Rightarrow> P (an_text x))"
    and empty_text: "P []"
begin

abbreviation going_on :: "string \<Rightarrow> world \<Rightarrow> world \<Rightarrow> bool" where "going_on \<equiv> going (sv_hash sv) P"
abbreviation held :: "string \<Rightarrow> world \<Rightarrow> state option \<Rightarrow> world \<Rightarrow> bool" where "held \<equiv> at_state (sv_hash sv) P"

lemma step_triple:
  assumes "t \<in> WORK" and "\<And>w a. K w \<Longrightarrow> K (w\<lparr>w_db := (w_db w)\<lparr>audit := a\<rparr>\<rparr>)"
  shows "triple (\<lambda>w. held doc w0 s w \<and> K w) (step_to sv doc t stp pl) (\<lambda>_ w. held doc w0 (Some t) w \<and> K w) (going_on doc w0)"
  unfolding step_to_def
proof (rule triple_on_db)
  fix w x db
  assume w: "held doc w0 s w \<and> K w"
    and r: "rbind (transition (sv_hash sv) (sv_now sv) (w_db w) doc t stp (Some pl)) (\<lambda>(r, db). Inr ((), db)) = Inr (x, db)"
  from r obtain y where t: "transition (sv_hash sv) (sv_now sv) (w_db w) doc t stp (Some pl) = Inr (y, db)"
    by (auto simp: result_simps)
  have "digest64 (sv_hash sv)" "corpus_ok (sv_hash sv) (w_db w)" using w by (simp_all add: at_state_def going_def)
  note ok = transition_ok [OF this t]
  from ok obtain a where a: "db = (w_db w)\<lparr>audit := a\<rparr>" by blast
  have "held doc w0 (Some t) (w\<lparr>w_db := db\<rparr>)"
    using ok assms(1) by (intro at_audit [OF conjunct1 [OF w] _ a]) auto
  with w assms(2) a show "held doc w0 (Some t) (w\<lparr>w_db := db\<rparr>) \<and> K (w\<lparr>w_db := db\<rparr>)" by simp
qed (blast intro: at_going)

lemma step_held: "t \<in> WORK \<Longrightarrow> triple (held doc w0 s) (step_to sv doc t stp pl) (\<lambda>_. held doc w0 (Some t)) (going_on doc w0)"
  using step_triple [where K = "\<lambda>_. True"] by simp

lemma aside_held: "aside m \<Longrightarrow> triple (held doc w0 s) m (\<lambda>_. held doc w0 s) (held doc w0 s)"
  by (erule aside_triple) (rule at_same_db)

lemma to_going: "triple A m Q (held doc w0 s) \<Longrightarrow> triple A m Q (going_on doc w0)"
  by (erule triple_conseq) (simp_all add: at_going)

lemma aside_pdf_bytes: "aside (pdf_bytes sv d raw)"
  by (auto simp: pdf_bytes_def key_of_def intro!: aside_rules reads split: option.splits)

lemma pdf_bytes_held: "triple (held doc w0 s) (pdf_bytes sv d raw) (\<lambda>_. held doc w0 s) (going_on doc w0)"
  by (rule to_going [OF aside_held [OF aside_pdf_bytes]])

lemma anonymized_held: "triple (held doc w0 s) (anonymized sv t) (\<lambda>r w. held doc w0 s w \<and> P (an_text r)) (held doc w0 s)"
  unfolding anonymized_def
proof (rule triple_retry, unfold triple_def, intro allI impI)
  fix w assume w: "held doc w0 s w"
  obtain r w' where m: "sv_anonymize sv t w = (r, w')" by (cases "sv_anonymize sv t w")
  from anonymizes [OF m] obtain p where "w_db w' = (w_db w)\<lparr>pii_mappings := p\<rparr>" "w_index w' = w_index w" by blast
  with w have "held doc w0 s w'" by (rule at_same)
  with m anonymizes [OF m] show "case sv_anonymize sv t w of (Inr x, s') \<Rightarrow> held doc w0 s s' \<and> P (an_text x) | (Inl e, s') \<Rightarrow> held doc w0 s s'"
    by (auto split: sum.split)
qed

lemma extract_or_fail_held:
  "triple (held doc w0 s) (extract_or_fail sv doc raw) (\<lambda>t. held doc w0 (if t = None then Some FAILED else s)) (going_on doc w0)"
proof (cases "extract_text (sv_pdf sv) raw")
  case (Inl e)
  then show ?thesis
    by (auto simp: extract_or_fail_def WORK_def intro!: triple_andthen [OF step_held] triple_ret)
qed (auto simp: extract_or_fail_def intro!: triple_ret)

lemma profile_stage_held:
  "triple (held doc w0 s) (profile_stage sv doc d)
     (\<lambda>(s', raw) w. held doc w0 (Some s') w \<and> s' \<in> {FAILED, EXTRACTABLE, UNPROCESSABLE_OCR}) (going_on doc w0)"
  unfolding profile_stage_def
proof (rule triple_andthen [OF pdf_bytes_held])
  fix raw
  show "triple (held doc w0 s) (case profile_pdf (sv_pdf sv) raw (sv_threshold sv) of
       Inl e \<Rightarrow> andthen (step_to sv doc FAILED ''profile'' (error_payload e)) (\<lambda>_. ret (FAILED, Some raw))
     | Inr m \<Rightarrow> (let target = (if mc_born_digital m then EXTRACTABLE else UNPROCESSABLE_OCR)
          in andthen (step_to sv doc target ''profile'' (JObj (metric_payload m))) (\<lambda>_. ret (target, Some raw))))
     (\<lambda>(s', raw) w. held doc w0 (Some s') w \<and> s' \<in> {FAILED, EXTRACTABLE, UNPROCESSABLE_OCR}) (going_on doc w0)"
    by (cases "profile_pdf (sv_pdf sv) raw (sv_threshold sv)")
       (auto simp: Let_def WORK_def intro!: triple_andthen [OF step_held] triple_ret)
qed

lemma extract_stage_held:
  "triple (held doc w0 s) (extract_stage sv doc d raw)
     (\<lambda>(s', raw, t) w. held doc w0 (Some s') w \<and> s' \<in> {FAILED, EXTRACTED}) (going_on doc w0)"
  unfolding extract_stage_def
proof (rule triple_andthen [OF pdf_bytes_held], rule triple_andthen [OF extract_or_fail_held])
  fix raw :: string and t :: "string option"
  show "triple (held doc w0 (if t = None then Some FAILED else s)) (case t of None \<Rightarrow> ret (FAILED, Some raw, None)
     | Some text \<Rightarrow> andthen (step_to sv doc EXTRACTED ''extract'' (JObj [(''chars'', JInt (int (length text)))])) (\<lambda>_. ret (EXTRACTED, Some raw, Some text)))
     (\<lambda>(s', raw, t) w. held doc w0 (Some s') w \<and> s' \<in> {FAILED, EXTRACTED}) (going_on doc w0)"
    by (cases t) (auto simp: WORK_def intro!: triple_andthen [OF step_held] triple_ret)
qed

lemma store_text_held:
  "triple (\<lambda>w. held doc w0 s w \<and> P t) (on_db (\<lambda>db. Inr ((), store_text sv doc t db))) (\<lambda>_. held doc w0 s) (going_on doc w0)"
  by (rule triple_on_db) (auto intro: store_text_ok at_going)

lemma aside_clear_values:
  assumes "sv_key sv = Some get"
  shows "aside (clear_values sv get ps)"
proof (induction ps)
  case (Cons p ps)
  have "aside (case e of KeyError k \<Rightarrow> ret None | _ \<Rightarrow> raise_err e)" for e
    by (cases e) (simp_all add: aside_ret aside_raise)
  with Cons show ?case
    unfolding clear_values.simps by (intro aside_rules fetches [OF assms])
qed (simp add: aside_def)

lemma save_box_map_held:
  "triple (held doc w0 s) (on_db (save_box_map sv doc raw t lh items)) (\<lambda>_. held doc w0 s) (going_on doc w0)"
proof (rule triple_on_db)
  fix w x db
  assume w: "held doc w0 s w" and r: "save_box_map sv doc raw t lh items (w_db w) = Inr (x, db)"
  show "held doc w0 s (w\<lparr>w_db := db\<rparr>)"
  proof (cases "build_box_map (sv_pdf sv) raw t items")
    case (Some l)
    show ?thesis
    proof (cases l)
      case (Boxes bs)
      with r Some obtain m where db: "db = (w_db w)\<lparr>box_maps := m\<rparr>" by (auto simp: save_box_map_def)
      show ?thesis
        by (rule at_other_tables [OF w]) (simp_all add: db corpus_ok_def tables_ok_def doc_state_def)
    next
      case (NotLocated tk n m)
      obtain s' where s': "s = Some s'" "note_event (sv_hash sv) (sv_now sv) (w_db w) doc s' ''value-not-located''
            (JObj [(''pii_type'', JStr (label_of tk)), (''in_anonymized'', JInt (int n)), (''in_positioned'', JInt (int m))]) = Inr db"
        using r w by (auto simp: save_box_map_def Some NotLocated with_state_def at_state_def result_simps split: option.splits)
      have c: "digest64 (sv_hash sv)" "corpus_ok (sv_hash sv) (w_db w)" "doc_state (w_db w) doc = Inr (Some s')"
        using w s' by (simp_all add: at_state_def going_def)
      note ok = note_event_ok [OF c s'(2)]
      from ok obtain a where a: "db = (w_db w)\<lparr>audit := a\<rparr>" by blast
      show ?thesis using ok c s'(1) by (intro at_audit [OF w _ a]) auto
    qed
  qed (use r in \<open>simp add: save_box_map_def\<close>)
qed (blast intro: at_going)

lemma compute_box_map_held:
  "triple (held doc w0 s) (compute_box_map sv doc raw t lh) (\<lambda>_. held doc w0 s) (going_on doc w0)"
proof (cases "sv_key sv")
  case None
  then show ?thesis by (auto simp: compute_box_map_def intro!: triple_ret)
next
  case (Some get)
  show ?thesis
    unfolding compute_box_map_def Some option.case
    by (intro triple_andthen [OF to_going [OF aside_held [OF aside_reading]]]
              triple_andthen [OF to_going [OF aside_held [OF aside_clear_values [OF Some]]]] save_box_map_held)
qed

lemma anonymize_stage_held:
  "triple (held doc w0 s) (anonymize_stage sv doc d raw t) (\<lambda>s' w. held doc w0 (Some s') w \<and> s' \<in> {FAILED, ANONYMIZED}) (going_on doc w0)"
proof -
  let ?start = "case t of Some t \<Rightarrow> ret (Some t, raw)
      | None \<Rightarrow> andthen (pdf_bytes sv d raw) (\<lambda>b. andthen (extract_or_fail sv doc b) (\<lambda>t. ret (t, Some b)))"
  have start: "triple (held doc w0 s) ?start (\<lambda>(t, raw). held doc w0 (if t = None then Some FAILED else s)) (going_on doc w0)"
    by (cases t) (auto intro!: triple_andthen [OF pdf_bytes_held] triple_andthen [OF extract_or_fail_held] triple_ret)
  have boxes: "triple (held doc w0 (Some ANONYMIZED)) (case sv_key sv of None \<Rightarrow> ret ()
      | Some g \<Rightarrow> andthen (pdf_bytes sv d raw) (\<lambda>b. compute_box_map sv doc b tx lh)) (\<lambda>_. held doc w0 (Some ANONYMIZED)) (going_on doc w0)"
    for raw tx lh
    by (cases "sv_key sv") (auto intro!: triple_ret triple_andthen [OF pdf_bytes_held] compute_box_map_held)
  have rest: "triple (held doc w0 s) (andthen (anonymized sv tx) (\<lambda>result.
         andthen (on_db (\<lambda>db. Inr ((), store_text sv doc (an_text result) db))) (\<lambda>_.
         andthen (step_to sv doc ANONYMIZED ''anonymize'' (anonymize_payload sv result)) (\<lambda>_.
         andthen (case sv_key sv of None \<Rightarrow> ret ()
                  | Some _ \<Rightarrow> andthen (pdf_bytes sv d raw) (\<lambda>b. compute_box_map sv doc b (an_text result) (an_lists_hash result))) (\<lambda>_.
         ret ANONYMIZED))))) (\<lambda>s' w. held doc w0 (Some s') w \<and> s' \<in> {FAILED, ANONYMIZED}) (going_on doc w0)" for tx raw
    by (rule triple_andthen [OF to_going [OF anonymized_held]], rule triple_andthen [OF store_text_held],
        rule triple_andthen [OF step_held], simp add: WORK_def, rule triple_andthen [OF boxes], rule triple_ret) simp
  show ?thesis
    unfolding anonymize_stage_def
  proof (rule triple_andthen [OF start], goal_cases)
    case (1 x)
    obtain tx raw' where x: "x = (tx, raw')" by (cases x)
    show ?case
    proof (cases tx)
      case None
      show ?thesis unfolding x None prod.case option.case by (rule triple_ret) simp
    next
      case (Some y)
      show ?thesis unfolding x Some prod.case option.case using rest by simp
    qed
  qed
qed

lemma embedded_aside: "triple A (embedded sv t) (\<lambda>_. A) A" if "\<And>w w'. A w \<Longrightarrow> w_db w' = w_db w \<Longrightarrow> w_index w' = w_index w \<Longrightarrow> A w'"
  unfolding embedded_def by (rule triple_retry, rule aside_triple [OF embeds]) (rule that)

lemma each_passage_aside: "triple A (each_passage (sv_embed sv) n b ps) (\<lambda>_. A) A"
  if "\<And>w w'. A w \<Longrightarrow> w_db w' = w_db w \<Longrightarrow> w_index w' = w_index w \<Longrightarrow> A w'"
proof (induction ps)
  case (Cons p ps)
  show ?case
    unfolding each_passage.simps
    by (rule triple_andthen, rule triple_retry, rule aside_triple [OF embeds], erule (2) that,
        rule triple_andthen [OF Cons.IH], rule triple_ret)
qed (simp add: triple_def)

lemma write_index_held:
  assumes "d = document_by_id (w_db w0) doc" and "P t"
    and "\<And>w w'. K w \<Longrightarrow> w_db w' = w_db w \<Longrightarrow> K w'"
  shows "triple (\<lambda>w. held doc w0 s w \<and> K w) (write_index sv doc d t v ps tp) (\<lambda>_ w. held doc w0 s w \<and> K w \<and> indexed_as t doc w)
    (\<lambda>w. held doc w0 s w \<and> K w)"
  (is "triple ?A _ ?Q ?A")
  unfolding write_index_def
proof (rule triple_retry)
  let ?put = "\<lambda>key w. on_index (\<lambda>ix. ((), index_put ix doc t key (Some v) (dossiers_of (w_db w) doc) ps tp)) w"
  show "triple ?A (andthen (key_of d) ?put) ?Q ?A"
  proof (cases d)
    case None
    then show ?thesis by (simp add: key_of_def triple_def andthen_def)
  next
    case (Some me)
    show ?thesis
      unfolding triple_def
    proof (intro allI impI)
      fix w assume w: "?A w"
      obtain r w' where m: "?put (dc_object_key me) w = (r, w')" by fastforce
      have db: "w_db w' = w_db w" and ix: "w_index w' = w_index w
          \<or> w_index w' = index_put (w_index w) doc t (dc_object_key me) (Some v) (dossiers_of (w_db w) doc) ps tp"
        using on_index_any [OF m] by simp_all
      have h: "held doc w0 s w'"
        using ix at_put [OF conjunct1 [OF w] assms(2) db] at_same_db [OF conjunct1 [OF w] db] by blast
      moreover have k: "K w'" using w assms(3) db by blast
      moreover have "indexed_as t doc w'" if "r = Inr x" for x
      proof -
        from m that obtain fs where "w' = w\<lparr>w_faults := fs,
            w_index := index_put (w_index w) doc t (dc_object_key me) (Some v) (dossiers_of (w_db w) doc) ps tp\<rparr>"
          by (auto elim: on_index_Inr)
        moreover have "document_by_id (w_db w) doc = Some me"
          using w assms(1) Some by (simp add: at_state_def going_def others_same_def document_by_id_def)
        ultimately show ?thesis by (intro indexed_as_put) auto
      qed
      ultimately show "case andthen (key_of d) ?put w of (Inr x, s') \<Rightarrow> ?Q x s' | (Inl e, s') \<Rightarrow> ?A s'"
        using w db m by (cases r) (auto simp: Some key_of_def)
    qed
  qed
qed

lemma index_stage_held:
  assumes "d = document_by_id (w_db w0) doc"
  shows "triple (held doc w0 s) (index_stage sv doc d)
    (\<lambda>s' w. held doc w0 (Some s') w \<and> s' = INDEXED \<and> indexed_true doc w) (going_on doc w0)"
proof -
  let ?tx = "stored_text doc"
  have p: "P (?tx w)" if "held doc w0 s w" for w
    using that empty_text by (auto simp: at_state_def going_def texts_ok_def stored_text_def get_anonymized_text_def split: option.split)
  have rest: "triple (\<lambda>w. held doc w0 s w \<and> t = ?tx w) (andthen (embedded sv t) (\<lambda>vector.
     andthen (embed_passages (sv_embed sv) (sv_attempts sv) (sv_delay sv) t) (\<lambda>ps.
     andthen (write_index sv doc d t vector ps []) (\<lambda>_.
     andthen (step_to sv doc INDEXED ''index'' (JObj [(''chars'', JInt (int (length t))), (''dim'', JInt (int (length vector)))])) (\<lambda>_.
     ret INDEXED)))))
    (\<lambda>s' w. held doc w0 (Some s') w \<and> s' = INDEXED \<and> indexed_true doc w) (going_on doc w0)" if "P t" for t
  proof -
    let ?A = "\<lambda>w. held doc w0 s w \<and> t = ?tx w"
    have stable: "?A w \<Longrightarrow> w_db w' = w_db w \<Longrightarrow> w_index w' = w_index w \<Longrightarrow> ?A w'" for w w'
      by (elim conjE, intro conjI) (erule (2) at_same_db, simp add: stored_text_def)
    have gone: "?A w \<Longrightarrow> going_on doc w0 w" for w by (blast intro: at_going)
    have e: "triple ?A (embedded sv t) (\<lambda>_. ?A) (going_on doc w0)"
      by (rule triple_conseq [OF embedded_aside [OF stable]]) (auto intro: gone)
    have ps: "triple ?A (embed_passages (sv_embed sv) (sv_attempts sv) (sv_delay sv) t) (\<lambda>_. ?A) (going_on doc w0)"
      unfolding embed_passages_def by (rule triple_conseq [OF each_passage_aside [OF stable]]) (auto intro: gone)
    have put: "triple ?A (write_index sv doc d t v ps []) (\<lambda>_ w. held doc w0 s w \<and> indexed_true doc w) (going_on doc w0)" for v ps
      by (rule triple_conseq [OF write_index_held [OF assms that, where K = "\<lambda>w. t = ?tx w"]]) (auto intro: gone simp: indexed_true_def stored_text_def)
    show ?thesis
      by (rule triple_andthen [OF e], rule triple_andthen [OF ps], rule triple_andthen [OF put],
          rule triple_andthen [OF step_triple], simp add: WORK_def,
          simp add: same_core_indexed(2) [OF same_core_audit], rule triple_ret, simp)
  qed
  show ?thesis
    unfolding index_stage_def stored_text_def [symmetric]
  proof (rule triple_andthen [where R = "\<lambda>t w. (held doc w0 s w \<and> t = ?tx w) \<and> P t"])
    show "triple (held doc w0 s) (reading ?tx) (\<lambda>t w. (held doc w0 s w \<and> t = ?tx w) \<and> P t) (going_on doc w0)"
      by (rule triple_reading) (simp add: p)
  qed (rule triple_fact, erule rest)
qed

text \<open>
  One run: what it returns is the recorded state, and no step is left to do; the document it has indexed is in the
  index as the tables have it.
\<close>

lemma process_held:
  "triple (held doc w0 s0) (process sv doc)
     (\<lambda>s w. held doc w0 s w \<and> s \<notin> Some ` {REGISTERED, EXTRACTABLE, EXTRACTED, ANONYMIZED}
        \<and> (s = Some INDEXED \<longrightarrow> s0 = Some INDEXED \<or> indexed_true doc w)) (going_on doc w0)"
proof -
  have look: "triple (held doc w0 s0) (lookup doc) (\<lambda>(d, s) w. held doc w0 s0 w \<and> (d = document_by_id (w_db w0) doc \<and> s = s0)) (going_on doc w0)"
    unfolding lookup_def
    by (rule triple_on_db) (auto simp: at_state_def result_simps going_def others_same_def document_by_id_def)
  have profiled: "triple (held doc w0 s0) (if s0 = Some REGISTERED then andthen (profile_stage sv doc d) (\<lambda>(s, raw). ret (Some s, raw)) else ret (s0, None))
    (\<lambda>(s, raw) w. held doc w0 s w \<and> (s \<noteq> Some REGISTERED \<and> (s = Some INDEXED \<longrightarrow> s0 = Some INDEXED))) (going_on doc w0)" for d
    by (auto intro!: triple_andthen [OF profile_stage_held] triple_ret)
  have extracted: "triple (held doc w0 s) (if s = Some EXTRACTABLE then andthen (extract_stage sv doc d raw) (\<lambda>(s, raw, t). ret (Some s, raw, t)) else ret (s, raw, None))
    (\<lambda>(s, raw, t) w. held doc w0 s w \<and> (s \<notin> Some ` {REGISTERED, EXTRACTABLE} \<and> (s = Some INDEXED \<longrightarrow> s0 = Some INDEXED))) (going_on doc w0)"
    if "s \<noteq> Some REGISTERED \<and> (s = Some INDEXED \<longrightarrow> s0 = Some INDEXED)" for s d raw
    using that by (auto intro!: triple_andthen [OF extract_stage_held] triple_ret)
  have anonymised: "triple (held doc w0 s) (if s = Some EXTRACTED then andthen (anonymize_stage sv doc d raw t) (\<lambda>s. ret (Some s)) else ret s)
    (\<lambda>s w. held doc w0 s w \<and> (s \<notin> Some ` {REGISTERED, EXTRACTABLE, EXTRACTED} \<and> (s = Some INDEXED \<longrightarrow> s0 = Some INDEXED))) (going_on doc w0)"
    if "s \<notin> Some ` {REGISTERED, EXTRACTABLE} \<and> (s = Some INDEXED \<longrightarrow> s0 = Some INDEXED)" for s d raw t
    using that by (auto intro!: triple_andthen [OF anonymize_stage_held] triple_ret)
  have ended: "triple (held doc w0 s) (if s = Some ANONYMIZED then andthen (index_stage sv doc d) (\<lambda>s. ret (Some s)) else ret s)
     (\<lambda>s w. held doc w0 s w \<and> s \<notin> Some ` {REGISTERED, EXTRACTABLE, EXTRACTED, ANONYMIZED}
        \<and> (s = Some INDEXED \<longrightarrow> s0 = Some INDEXED \<or> indexed_true doc w)) (going_on doc w0)"
    if "s \<notin> Some ` {REGISTERED, EXTRACTABLE, EXTRACTED} \<and> (s = Some INDEXED \<longrightarrow> s0 = Some INDEXED)" "d = document_by_id (w_db w0) doc" for s d
    using that by (auto intro!: triple_andthen [OF index_stage_held] triple_ret)
  show ?thesis
    unfolding process_def
  proof (rule triple_andthen [OF look], goal_cases)
    case (1 x)
    obtain d s where x: "x = (d, s)" by (cases x)
    show ?case
      unfolding x prod.case
    proof (rule triple_fact, elim conjE, hypsubst, rule triple_andthen [OF profiled], goal_cases)
      case (1 y)
      obtain s raw where y: "y = (s, raw)" by (cases y)
      show ?case
        unfolding y prod.case
      proof (rule triple_fact, rule triple_andthen [OF extracted], assumption, goal_cases)
        case (1 z)
        obtain s raw t where z: "z = (s, raw, t)" by (cases z)
        show ?case
          unfolding z prod.case
          by (rule triple_fact, rule triple_andthen [OF anonymised], assumption, rule triple_fact, erule ended, rule refl)
      qed
    qed
  qed
qed

end

subsection \<open>The wired services\<close>

definition anonymizer_output :: "services \<Rightarrow> string \<Rightarrow> bool" where
  "anonymizer_output sv t = (t = [] \<or> (\<exists>src w r w'. sv_anonymize sv src w = (Inr r, w') \<and> an_text r = t))"

lemma aside_reading_original: "aside (reading_original dec unwrap cfg key)"
  by (simp add: reading_original_def aside_on_store)

lemma aside_embedding: "aside (embedding emb t)"
  by (auto simp: aside_def embedding_def external_def checked_def Let_def split: list.splits fault.splits sum.splits)

lemma aside_fetching_key: "aside (fetching_key unwrap ttl now i)"
  by (auto simp: aside_def fetching_key_def split: sum.splits)

lemma anonymizing_deterministic_any:
  "anonymizing_deterministic src w = (r, w') \<Longrightarrow> w' = w"
  by (simp add: anonymizing_deterministic_def)

lemma anonymizing_reversible_any:
  "anonymizing_reversible HM enc current nonces domain min_score ls detect names src w = (r, w') \<Longrightarrow>
     (\<exists>m. w_db w' = (w_db w)\<lparr>pii_mappings := m\<rparr>) \<and> w_index w' = w_index w"
  by (auto simp: anonymizing_reversible_def split: sum.splits intro: exI [of _ "pii_mappings (w_db w)"])

lemma anonymizer_outputI: "sv_anonymize sv t w = (Inr x, w') \<Longrightarrow> anonymizer_output sv (an_text x)"
  by (auto simp: anonymizer_output_def)

lemma own_mappings: "\<exists>m. db = db\<lparr>pii_mappings := m\<rparr>"
  by (rule exI [of _ "pii_mappings db"]) simp

interpretation det: pipeline_services "deterministic_services sv dec unwrap cfg emb"
    "anonymizer_output (deterministic_services sv dec unwrap cfg emb)" for sv dec unwrap cfg emb
proof
  show "aside (sv_read (deterministic_services sv dec unwrap cfg emb) k)" "aside (sv_embed (deterministic_services sv dec unwrap cfg emb) t)" for k t
    by (simp_all add: deterministic_services_def aside_reading_original aside_embedding)
  show "aside (get k)" if "sv_key (deterministic_services sv dec unwrap cfg emb) = Some get" for get k
    using that by (simp add: deterministic_services_def)
  show "(\<exists>m. w_db w' = (w_db w)\<lparr>pii_mappings := m\<rparr>) \<and> w_index w' = w_index w
      \<and> (case r of Inl e \<Rightarrow> True | Inr x \<Rightarrow> anonymizer_output (deterministic_services sv dec unwrap cfg emb) (an_text x))"
    if m: "sv_anonymize (deterministic_services sv dec unwrap cfg emb) t w = (r, w')" for t w r w'
  proof -
    have "w' = w" using m anonymizing_deterministic_any by (simp add: deterministic_services_def)
    then show ?thesis using m own_mappings anonymizer_outputI by (auto split: sum.split)
  qed
qed (simp add: anonymizer_output_def)

interpretation rev: pipeline_services "reversible_services sv dec unwrap cfg emb HM enc current nonces domain min_score ls detect names kunwrap ttl now"
    "anonymizer_output (reversible_services sv dec unwrap cfg emb HM enc current nonces domain min_score ls detect names kunwrap ttl now)"
    for sv dec unwrap cfg emb HM enc current nonces domain min_score ls detect names kunwrap ttl now
proof
  let ?sv = "reversible_services sv dec unwrap cfg emb HM enc current nonces domain min_score ls detect names kunwrap ttl now"
  show "aside (sv_read ?sv k)" "aside (sv_embed ?sv t)" for k t
    by (simp_all add: reversible_services_def aside_reading_original aside_embedding)
  show "aside (get k)" if "sv_key ?sv = Some get" for get k
    using that by (auto simp: reversible_services_def aside_fetching_key)
  show "(\<exists>m. w_db w' = (w_db w)\<lparr>pii_mappings := m\<rparr>) \<and> w_index w' = w_index w
      \<and> (case r of Inl e \<Rightarrow> True | Inr x \<Rightarrow> anonymizer_output ?sv (an_text x))" if m: "sv_anonymize ?sv t w = (r, w')" for t w r w'
  proof -
    have "(\<exists>m. w_db w' = (w_db w)\<lparr>pii_mappings := m\<rparr>) \<and> w_index w' = w_index w"
      using m by (simp add: reversible_services_def) (erule anonymizing_reversible_any)
    then show ?thesis using m anonymizer_outputI [of ?sv] by (cases r) simp_all
  qed
qed (simp add: anonymizer_output_def)

definition wired :: "services \<Rightarrow> bool" where
  "wired sv = ((\<exists>sv' dec unwrap (cfg :: key_config) emb. sv = deterministic_services sv' dec unwrap cfg emb)
     \<or> (\<exists>sv' dec unwrap (cfg :: key_config) emb HM (enc :: string \<Rightarrow> string \<Rightarrow> string \<Rightarrow> string \<Rightarrow> string)
           (current :: string \<Rightarrow> durable \<Rightarrow> (key \<times> durable) result) nonces domain min_score ls (detect :: string \<Rightarrow> entity list result) names kunwrap ttl now.
           sv = reversible_services sv' dec unwrap cfg emb HM enc current nonces domain min_score ls detect names kunwrap ttl now))"

lemma wired_process:
  assumes "wired sv"
  shows "triple (at_state (sv_hash sv) (anonymizer_output sv) doc w0 s0) (process sv doc)
     (\<lambda>s w. at_state (sv_hash sv) (anonymizer_output sv) doc w0 s w \<and> s \<notin> Some ` {REGISTERED, EXTRACTABLE, EXTRACTED, ANONYMIZED}
        \<and> (s = Some INDEXED \<longrightarrow> s0 = Some INDEXED \<or> indexed_true doc w)) (going (sv_hash sv) (anonymizer_output sv) doc w0)"
  using assms unfolding wired_def by (elim disjE exE; hypsubst) (rule det.process_held rev.process_held)+

lemma at_start:
  assumes "digest64 H" and "corpus_ok H (w_db w)" and "texts_ok P (w_db w)" and "index_ok P (w_index w)"
  shows "\<exists>s. at_state H P doc w s w"
  using assms trail_state [of H "audit (w_db w)" doc]
  by (auto simp: at_state_def going_def others_same_def corpus_ok_def doc_state_def)

text \<open>C7: A run of the pipeline that returns comes to rest: the state it returns is the one on record for the document, and
  no step is left that it could do. A document it has indexed is in the index exactly as the tables have it: its stored
  text, its object key, its dossiers, and a vector. Every stored or indexed text is an output of the anonymizer, the
  trail and the tables stay sound, and no other document's state, text, pseudonyms or entry has changed.
\<close>

theorem process_result:
  assumes "wired sv" and "digest64 (sv_hash sv)" and "corpus_ok (sv_hash sv) (w_db w)" and "texts_ok (anonymizer_output sv) (w_db w)"
    and "index_ok (anonymizer_output sv) (w_index w)" and "process sv doc w = (Inr s, w')"
  shows "doc_state (w_db w') doc = Inr s \<and> s \<notin> Some ` {REGISTERED, EXTRACTABLE, EXTRACTED, ANONYMIZED}
    \<and> (s = Some INDEXED \<and> doc_state (w_db w) doc \<noteq> Inr (Some INDEXED) \<longrightarrow> indexed_true doc w')
    \<and> corpus_ok (sv_hash sv) (w_db w') \<and> texts_ok (anonymizer_output sv) (w_db w') \<and> index_ok (anonymizer_output sv) (w_index w')
    \<and> others_same doc w w'"
proof -
  obtain s0 where s0: "at_state (sv_hash sv) (anonymizer_output sv) doc w s0 w" using at_start [OF assms(2-5)] by blast
  from triple_run [OF wired_process [OF assms(1)] s0 assms(6)]
  have "at_state (sv_hash sv) (anonymizer_output sv) doc w s w'" "s \<notin> Some ` {REGISTERED, EXTRACTABLE, EXTRACTED, ANONYMIZED}"
    "s = Some INDEXED \<longrightarrow> s0 = Some INDEXED \<or> indexed_true doc w'" by simp_all
  with s0 show ?thesis unfolding at_state_def going_def by auto
qed

text \<open>C11: A run that raises leaves no trace in the tables once its transaction is rolled back, and whatever it has put into
  the index by then is an output of the anonymizer under the document's own id: the entries of the other documents, and
  the soundness of what the index holds, are untouched.
\<close>

theorem process_failure:
  assumes "wired sv" and "digest64 (sv_hash sv)" and "corpus_ok (sv_hash sv) (w_db w)" and "texts_ok (anonymizer_output sv) (w_db w)"
    and "index_ok (anonymizer_output sv) (w_index w)" and "transaction (process sv doc) w = (Inl e, w')"
  shows "w_db w' = w_db w \<and> index_ok (anonymizer_output sv) (w_index w')
    \<and> {i. dict_get (ix_docs (w_index w')) i \<noteq> dict_get (ix_docs (w_index w)) i} \<subseteq> {doc}"
proof -
  obtain s0 where s0: "at_state (sv_hash sv) (anonymizer_output sv) doc w s0 w" using at_start [OF assms(2-5)] by blast
  obtain w1 where w1: "process sv doc w = (Inl e, w1)" "w' = roll_back w w1"
    using assms(6) by (auto simp: transaction_def split: prod.splits sum.splits)
  from triple_run [OF wired_process [OF assms(1)] s0 w1(1)]
  have "going (sv_hash sv) (anonymizer_output sv) doc w w1" by simp
  then show ?thesis unfolding w1(2) by (auto simp: going_def others_same_def)
qed

text \<open>C29: Running the pipeline again on a document it has brought to rest changes nothing and asks nothing of the store, the
  anonymizer, the embedder or the index: it returns the same state from the very world it was left in.
\<close>

theorem process_idempotent:
  assumes "wired sv" and "digest64 (sv_hash sv)" and "corpus_ok (sv_hash sv) (w_db w)" and "texts_ok (anonymizer_output sv) (w_db w)"
    and "index_ok (anonymizer_output sv) (w_index w)" and "process sv doc w = (Inr s, w')"
  shows "process sv doc w' = (Inr s, w')"
proof -
  obtain s0 where s0: "at_state (sv_hash sv) (anonymizer_output sv) doc w s0 w" using at_start [OF assms(2-5)] by blast
  from triple_run [OF wired_process [OF assms(1)] s0 assms(6)]
  have "doc_state (w_db w') doc = Inr s" "s \<notin> Some ` {REGISTERED, EXTRACTABLE, EXTRACTED, ANONYMIZED}" by (simp_all add: at_state_def)
  then show ?thesis by (auto simp: process_def lookup_def on_db_def andthen_def)
qed

subsection \<open>A document taken through\<close>

text \<open>A PDF of one page without a character, no threshold, and an embedder that always answers.\<close>

definition sample_services :: services where
  "sample_services = deterministic_services
     \<lparr>sv_hash = tick_hash, sv_now = sample_time, sv_pdf = (\<lambda>_. Some [[]]), sv_read = (\<lambda>_. ret []), sv_write = (\<lambda>_ _ _. ret WROTE),
      sv_anonymize = (\<lambda>_. raise_err ValueError), sv_embed = (\<lambda>_. raise_err EmbeddingError), sv_attempts = 3, sv_delay = 1, sv_threshold = 0,
      sv_key = None, sv_dec = (\<lambda>_ _ _ _. None), sv_repr = (\<lambda>_. ''0.0'')\<rparr>
     (\<lambda>_ _ _ _. None) (\<lambda>_ _. Inl InvalidTag) sample_config (\<lambda>_. Inr [1])"

lemma wired_sample: "wired sample_services"
  unfolding wired_def sample_services_def by blast

lemma sample_services_simps [simp]:
  "sv_hash sample_services = tick_hash" "sv_now sample_services = sample_time" "sv_pdf sample_services = (\<lambda>_. Some [[]])"
  "sv_read sample_services key = reading_original (\<lambda>_ _ _ _. None) (\<lambda>_ _. Inl InvalidTag) sample_config key"
  "sv_anonymize sample_services = anonymizing_deterministic" "sv_embed sample_services = embedding (\<lambda>_. Inr [1])"
  "sv_threshold sample_services = 0" "sv_key sample_services = None" "sv_attempts sample_services = 3" "sv_delay sample_services = 1"
  by (simp_all add: sample_services_def deterministic_services_def)

definition sample_ready :: "nat \<Rightarrow> state option \<Rightarrow> world \<Rightarrow> bool" where
  "sample_ready k s w = (counted k (audit (w_db w)) \<and> corpus_ok tick_hash (w_db w) \<and> doc_state (w_db w) ''a'' = Inr s \<and> w_faults w = []
     \<and> (\<exists>key m. w_store w = Plain \<lparr>ob_data = [(key, ''%PDF'')], ob_modified = m\<rparr>
         \<and> map_option dc_object_key (document_by_id (w_db w) ''a'') = Some key))"

lemma sample_step:
  assumes "sample_ready k (Some s) w" and "k < 60" and "is_allowed (Some s) t" and "s \<noteq> t"
  shows "\<exists>a x. step_to sample_services ''a'' t stp pl w = (Inr (), w\<lparr>w_db := (w_db w)\<lparr>audit := a\<rparr>\<rparr>) \<and> sample_ready (Suc k) (Some t) (w\<lparr>w_db := (w_db w)\<lparr>audit := a\<rparr>\<rparr>)
    \<and> doc_trail a ''a'' = doc_trail (audit (w_db w)) ''a'' @ [x] \<and> ar_step x = stp \<and> ar_payload x = pl"
proof -
  have pre: "counted k (audit (w_db w))" "k < 64" "corpus_ok tick_hash (w_db w)" "doc_state (w_db w) ''a'' = Inr (Some s)"
    using assms(1,2) by (simp_all add: sample_ready_def)
  from transition_possible [OF pre(1,2) sample_time_ok(2) pre(4) assms(3), of stp "Some pl"] assms(4)
  obtain r a where t: "transition tick_hash sample_time (w_db w) ''a'' t stp (Some pl) = Inr (Some r, (w_db w)\<lparr>audit := a\<rparr>)" "counted (Suc k) a"
    by auto
  note ok = transition_ok [OF digest_tick pre(3) t(1)]
  then have "corpus_ok tick_hash ((w_db w)\<lparr>audit := a\<rparr>)" "doc_state ((w_db w)\<lparr>audit := a\<rparr>) ''a'' = Inr (Some t)"
    "doc_trail a ''a'' = doc_trail (audit (w_db w)) ''a'' @ [r]" "ar_step r = stp" "ar_payload r = pl" by (simp_all add: or_empty_def)
  with t assms(1) show ?thesis
    by (intro exI [of _ a] exI [of _ r]) (auto simp: step_to_def on_db_def sample_ready_def document_by_id_def)
qed

lemma sample_read:
  assumes "sample_ready k s w" and "d = document_by_id (w_db w) ''a''"
  shows "pdf_bytes sample_services d None w = (Inr ''%PDF'', w)"
proof -
  obtain key m where st: "w_store w = Plain \<lparr>ob_data = [(key, ''%PDF'')], ob_modified = m\<rparr>" "map_option dc_object_key d = Some key"
    using assms by (auto simp: sample_ready_def)
  have "w\<lparr>w_store := Plain \<lparr>ob_data = [(key, ''%PDF'')], ob_modified = m\<rparr>\<rparr> = w"
    using st(1) by (cases w) simp
  with assms(1) st show ?thesis
    by (cases d) (auto simp: pdf_bytes_def key_of_def andthen_def reading_original_def on_store_def external_def sample_ready_def read_original_def
       object_get_def object_get_raw_def is_sealed_def SEALED_MAGIC_def)
qed

lemma sample_profile: "profile_pdf (\<lambda>_. Some [[]]) raw 0 = Inr \<lparr>mc_chars = 0, mc_pages = 1, mc_bytes = length raw, mc_born_digital = True\<rparr>"
  by (simp add: profile_pdf_def page_text_def page_chars_def Let_def) code_simp

lemma sample_text: "extract_text (\<lambda>_. Some [[]]) raw = Inr []"
  by (simp add: extract_text_def positioned_text_def page_text_def page_chars_def)

lemma sample_anonymize: "\<exists>r. deterministic_anonymize [] = Inr r \<and> an_text r = []"
proof -
  have "case deterministic_anonymize [] of Inr r \<Rightarrow> an_text r = [] | Inl _ \<Rightarrow> False" by code_simp
  then show ?thesis by (auto split: sum.splits)
qed

lemma sample_run:
  assumes w: "sample_ready k (Some REGISTERED) w" and k: "k < 50"
  shows "\<exists>w' p e a i r. process sample_services ''a'' w = (Inr (Some INDEXED), w') \<and> sample_ready (k + 4) (Some INDEXED) w'
    \<and> doc_trail (audit (w_db w')) ''a'' = doc_trail (audit (w_db w)) ''a'' @ [p, e, a, i]
    \<and> map ar_step [p, e, a, i] = [''profile'', ''extract'', ''anonymize'', ''index'']
    \<and> ar_payload a = anonymize_payload sample_services r \<and> deterministic_anonymize [] = Inr r"
proof -
  let ?sv = "sample_services"
  let ?d = "document_by_id (w_db w) ''a''"
  have key: "?d \<noteq> None" using w by (auto simp: sample_ready_def)
  have look: "lookup ''a'' w = (Inr (?d, Some REGISTERED), w)" using w by (simp add: lookup_def on_db_def sample_ready_def)
  obtain w1 x1 where w1: "sample_ready (Suc k) (Some EXTRACTABLE) w1" "step_to ?sv ''a'' EXTRACTABLE ''profile''
      (JObj (metric_payload \<lparr>mc_chars = 0, mc_pages = 1, mc_bytes = length ''%PDF'', mc_born_digital = True\<rparr>)) w = (Inr (), w1)"
      and t1: "doc_trail (audit (w_db w1)) ''a'' = doc_trail (audit (w_db w)) ''a'' @ [x1]" "ar_step x1 = ''profile''"
    using sample_step [OF w, of EXTRACTABLE] k by fastforce
  then have p: "profile_stage ?sv ''a'' ?d w = (Inr (EXTRACTABLE, Some ''%PDF''), w1)"
    by (simp add: profile_stage_def andthen_def sample_read [OF w refl] sample_profile Let_def del: One_nat_def)
  obtain w2 x2 where w2: "sample_ready (Suc (Suc k)) (Some EXTRACTED) w2" "step_to ?sv ''a'' EXTRACTED ''extract'' (JObj [(''chars'', JInt 0)]) w1 = (Inr (), w2)"
      and t2: "doc_trail (audit (w_db w2)) ''a'' = doc_trail (audit (w_db w1)) ''a'' @ [x2]" "ar_step x2 = ''extract''"
    using sample_step [OF w1(1), of EXTRACTED] k by fastforce
  then have e: "extract_stage ?sv ''a'' ?d (Some ''%PDF'') w1 = (Inr (EXTRACTED, Some ''%PDF'', Some []), w2)"
    by (simp add: extract_stage_def pdf_bytes_def extract_or_fail_def andthen_def sample_text)
  obtain r where r: "deterministic_anonymize [] = Inr r" "an_text r = []" using sample_anonymize by blast
  let ?w2 = "w2\<lparr>w_db := store_text ?sv ''a'' [] (w_db w2)\<rparr>"
  have "register now rows doc [] source = (rows, 0)" for now rows doc source
    by (simp add: register_def Let_def) code_simp?
  then have r2: "sample_ready (Suc (Suc k)) (Some EXTRACTED) ?w2"
    using w2(1) by (simp add: sample_ready_def store_text_def corpus_ok_def tables_ok_def doc_state_def document_by_id_def)
  obtain w3 x3 where w3: "sample_ready (Suc (Suc (Suc k))) (Some ANONYMIZED) w3" "step_to ?sv ''a'' ANONYMIZED ''anonymize'' (anonymize_payload ?sv r) ?w2 = (Inr (), w3)"
      and t3: "doc_trail (audit (w_db w3)) ''a'' = doc_trail (audit (w_db w2)) ''a'' @ [x3]" "ar_step x3 = ''anonymize''" "ar_payload x3 = anonymize_payload ?sv r"
    using sample_step [OF r2, of ANONYMIZED "''anonymize''" "anonymize_payload ?sv r"] k by (auto simp: store_text_def)
  have a: "anonymize_stage ?sv ''a'' ?d (Some ''%PDF'') (Some []) w2 = (Inr ANONYMIZED, w3)"
    using w3(2) r by (simp add: anonymize_stage_def andthen_def anonymized_def retry_transient_def retry_with_delays_def numeral_3_eq_3
      anonymizing_deterministic_def on_db_def)
  have d3: "sample_ready (Suc (Suc (Suc k))) (Some ANONYMIZED) w3" "?d \<noteq> None" using w3(1) key by auto
  have emb: "embedding (\<lambda>_. Inr [1]) t w3 = (Inr [1], w3)" for t
    using w3(1) by (simp add: embedding_def external_def sample_ready_def)
  let ?t = "stored_text ''a'' w3"
  have retry: "m w3 = (Inr x, w) \<Longrightarrow> retry_transient m 3 1 w3 = (Inr x, w)" for m :: "(world, 'a) act" and x w
    by (simp add: retry_transient_def retry_with_delays_def numeral_3_eq_3)
  have emb3: "retry_transient (embedding (\<lambda>_. Inr [1]) t) 3 1 w3 = (Inr [1], w3)" for t
    by (rule retry) (rule emb)
  have ps: "each_passage (embedding (\<lambda>_. Inr [1])) 3 1 qs w3 = (Inr (map (\<lambda>_. [1]) qs), w3)" for qs
    by (induction qs) (simp_all add: andthen_def emb3)
  obtain d where d: "?d = Some d" using d3 by blast
  let ?ps = "map (\<lambda>_. [1 :: rat]) (passages ?t WORDS STRIDE)"
  let ?w4 = "w3\<lparr>w_index := index_put (w_index w3) ''a'' ?t (dc_object_key d) (Some [1]) (dossiers_of (w_db w3) ''a'') ?ps []\<rparr>"
  have put: "write_index ?sv ''a'' ?d ?t [1] ?ps [] w3 = (Inr (), ?w4)"
    using d3(1) unfolding write_index_def d sample_services_simps
    by (intro retry) (simp add: key_of_def on_index_def external_def sample_ready_def)
  have r4: "sample_ready (Suc (Suc (Suc k))) (Some ANONYMIZED) ?w4" using d3(1) by (simp add: sample_ready_def)
  obtain w5 x5 where r5: "sample_ready (Suc (Suc (Suc (Suc k)))) (Some INDEXED) w5"
    and t5: "doc_trail (audit (w_db w5)) ''a'' = doc_trail (audit (w_db w3)) ''a'' @ [x5]" "ar_step x5 = ''index''" and w5: "step_to ?sv ''a'' INDEXED ''index'' (JObj [(''chars'', JInt (int (length ?t))), (''dim'', JInt (int (length [1 :: rat])))]) ?w4 = (Inr (), w5)"
    using sample_step [OF r4, of INDEXED "''index''" "JObj [(''chars'', JInt (int (length ?t))), (''dim'', JInt (int (length [1 :: rat])))]"] k by auto
  have "index_stage ?sv ''a'' ?d w3 = (Inr INDEXED, w5)"
    using put w5 emb ps by (simp add: index_stage_def andthen_def embedded_def emb3 embed_passages_def stored_text_def)
  then have "process ?sv ''a'' w = (Inr (Some INDEXED), w5)" using look p e a by (simp add: process_def andthen_def)
  moreover have "sample_ready (k + 4) (Some INDEXED) w5" using r5 by (simp add: numeral_eq_Suc)
  ultimately show ?thesis
    using t1 t2 t3 t5 r(1) by (intro exI [of _ w5] exI [of _ x1] exI [of _ x2] exI [of _ x3] exI [of _ x5] exI [of _ r]) simp
qed

lemma sample_ready_exists:
  "\<exists>w. sample_ready 2 (Some REGISTERED) w \<and> texts_ok (anonymizer_output sample_services) (w_db w)
     \<and> index_ok (anonymizer_output sample_services) (w_index w)"
proof -
  obtain db where db: "sample_corpus db" using sample_corpus_exists by blast
  then have k: "map_option dc_object_key (document_by_id db ''a'') = Some ''documents/1''"
    by (auto simp: sample_corpus_def document_by_id_def map_eq_Cons_conv)
  let ?w = "(sample_world db)\<lparr>w_store := Plain \<lparr>ob_data = [(''documents/1'', ''%PDF'')], ob_modified = []\<rparr>, w_index := empty_index\<rparr>"
  have "sample_ready 2 (Some REGISTERED) ?w" "texts_ok (anonymizer_output sample_services) (w_db ?w)" "index_ok (anonymizer_output sample_services) (w_index ?w)"
    using db k by (simp_all add: sample_corpus_def sample_world_def sample_ready_def texts_ok_def index_ok_def empty_index_def)
  then show ?thesis by blast
qed

lemma process_result_witness:
  "\<exists>(w :: world) w'. process sample_services ''a'' w = (Inr (Some INDEXED), w') \<and> doc_state (w_db w) ''a'' = Inr (Some REGISTERED)
     \<and> doc_state (w_db w') ''a'' = Inr (Some INDEXED) \<and> indexed_true ''a'' w'"
proof -
  obtain w where w: "sample_ready 2 (Some REGISTERED) w" "texts_ok (anonymizer_output sample_services) (w_db w)"
    "index_ok (anonymizer_output sample_services) (w_index w)" using sample_ready_exists by blast
  obtain w' where run: "process sample_services ''a'' w = (Inr (Some INDEXED), w')" using sample_run [OF w(1)] by auto
  have st: "doc_state (w_db w) ''a'' = Inr (Some REGISTERED)" "digest64 (sv_hash sample_services)" "corpus_ok (sv_hash sample_services) (w_db w)"
    using w(1) by (simp_all add: sample_ready_def)
  from process_result [OF wired_sample st(2,3) w(2,3) run] run st(1) show ?thesis by auto
qed

lemma process_failure_witness:
  "\<exists>(w :: world) w'. transaction (process sample_services ''a'') w = (Inl (Transport ''time-out''), w') \<and> w_db w' = w_db w"
proof -
  obtain w where w: "sample_ready 2 (Some REGISTERED) w" "texts_ok (anonymizer_output sample_services) (w_db w)"
    "index_ok (anonymizer_output sample_services) (w_index w)" using sample_ready_exists by blast
  let ?w = "w\<lparr>w_faults := [Refused (Transport ''time-out'')]\<rparr>"
  have st: "digest64 (sv_hash sample_services)" "corpus_ok (sv_hash sample_services) (w_db ?w)" "texts_ok (anonymizer_output sample_services) (w_db ?w)"
    "index_ok (anonymizer_output sample_services) (w_index ?w)"
    using w by (simp_all add: sample_ready_def)
  obtain d where d: "document_by_id (w_db w) ''a'' = Some d" using w(1) by (auto simp: sample_ready_def)
  have "lookup ''a'' ?w = (Inr (Some d, Some REGISTERED), ?w)" using w(1) d by (simp add: lookup_def on_db_def sample_ready_def)
  moreover have "pdf_bytes sample_services (Some d) None ?w = (Inl (Transport ''time-out''), w\<lparr>w_faults := []\<rparr>)"
    by (simp add: pdf_bytes_def key_of_def reading_original_def on_store_def external_def Let_def)
  ultimately have "process sample_services ''a'' ?w = (Inl (Transport ''time-out''), w\<lparr>w_faults := []\<rparr>)"
    by (simp add: process_def andthen_def profile_stage_def)
  then have run: "transaction (process sample_services ''a'') ?w = (Inl (Transport ''time-out''), roll_back ?w (w\<lparr>w_faults := []\<rparr>))"
    by (simp add: transaction_def)
  from process_failure [OF wired_sample st run] run show ?thesis by blast
qed

lemma process_idempotent_witness:
  "\<exists>(w :: world) w'. process sample_services ''a'' w = (Inr (Some INDEXED), w') \<and> process sample_services ''a'' w' = (Inr (Some INDEXED), w')"
proof -
  obtain w where w: "sample_ready 2 (Some REGISTERED) w" "texts_ok (anonymizer_output sample_services) (w_db w)"
    "index_ok (anonymizer_output sample_services) (w_index w)" using sample_ready_exists by blast
  obtain w' where run: "process sample_services ''a'' w = (Inr (Some INDEXED), w')" using sample_run [OF w(1)] by auto
  have st: "digest64 (sv_hash sample_services)" "corpus_ok (sv_hash sample_services) (w_db w)" using w(1) by (simp_all add: sample_ready_def)
  from process_idempotent [OF wired_sample st w(2,3) run] run show ?thesis by blast
qed

end
