(* ===== verification/Ingestion.thy ===== *)
theory Ingestion
  imports Processing
begin

text \<open>
  What \<open>reanonymize\<close>, \<open>ingest\<close> and \<open>recover\<close> keep and promise.
\<close>

lemmas core_andthen = keeps_andthen [where R = same_core, OF same_core_trans]

context pipeline_services
begin

lemma compute_box_map_keeps: "keeps same_core (compute_box_map sv doc raw t lh)"
proof (cases "sv_key sv")
  case None
  then show ?thesis by (simp add: compute_box_map_def keeps_def same_core_refl)
next
  case (Some get)
  have kb: "keeps same_core (on_db (save_box_map sv doc raw t lh items))" for items
    by (auto simp: keeps_def on_db_def save_box_map_def with_state_def note_event_def rbind_eq_Inr same_core_def
          split: sum.splits option.splits located.splits)
  then show ?thesis
    unfolding compute_box_map_def Some option.case
    by (intro core_andthen aside_keeps [OF aside_reading] aside_keeps [OF aside_clear_values [OF Some]] kb)
qed

lemma topics_aside: "aside (on_index (\<lambda>ix. (topics_of ix doc, ix)))"
  unfolding aside_def
proof
  fix w
  obtain r w' where m: "on_index (\<lambda>ix. (topics_of ix doc, ix)) w = (r, w')" by fastforce
  from on_index_any [OF m] m show "w_db (snd (on_index (\<lambda>ix. (topics_of ix doc, ix)) w)) = w_db w
      \<and> w_index (snd (on_index (\<lambda>ix. (topics_of ix doc, ix)) w)) = w_index w" by auto
qed

text \<open>
  The text is replaced after the index has taken it: from there on the index holds what the tables say.
\<close>

lemma restore_held:
  "triple (\<lambda>w. (held doc w0 (Some st) w \<and> indexed_as t doc w) \<and> P t)
     (on_db (\<lambda>db. let db = store_text sv doc t db
        in rbind (note_event (sv_hash sv) (sv_now sv) db doc st stp pl) (\<lambda>db. Inr ((), db))))
     (\<lambda>_ w. held doc w0 (Some st) w \<and> indexed_true doc w) (going_on doc w0)"
proof (rule triple_fact, rule triple_on_db)
  fix w :: world and x :: unit and db
  assume p: "P t" and w: "held doc w0 (Some st) w \<and> indexed_as t doc w"
    and r: "(let db = store_text sv doc t (w_db w) in rbind (note_event (sv_hash sv) (sv_now sv) db doc st stp pl) (\<lambda>db. Inr ((), db))) = Inr (x, db)"
  let ?w = "w\<lparr>w_db := store_text sv doc t (w_db w)\<rparr>"
  have h: "held doc w0 (Some st) ?w" using w p by (intro store_text_ok) auto
  then have c: "digest64 (sv_hash sv)" "corpus_ok (sv_hash sv) (w_db ?w)" "doc_state (w_db ?w) doc = Inr (Some st)"
    by (simp_all add: at_state_def going_def)
  have n: "note_event (sv_hash sv) (sv_now sv) (w_db ?w) doc st stp pl = Inr db" using r by (auto simp: Let_def result_simps)
  note ok = note_event_ok [OF c n]
  from ok obtain a where a: "db = (w_db ?w)\<lparr>audit := a\<rparr>" by blast
  have "held doc w0 (Some st) (?w\<lparr>w_db := db\<rparr>)" using ok c by (intro at_audit [OF h _ a]) auto
  moreover have "indexed_true doc (w\<lparr>w_db := db\<rparr>)"
  proof -
    let ?v = "w\<lparr>w_db := db\<rparr>"
    have eq: "document_by_id (w_db ?v) doc = document_by_id (w_db w) doc" "dossiers_of (w_db ?v) doc = dossiers_of (w_db w) doc"
      "w_index ?v = w_index w" "stored_text doc ?v = t"
      by (simp_all add: a store_text_def document_by_id_def dossiers_of_def stored_text_def get_anonymized_text_def)
    show ?thesis using w unfolding indexed_true_def eq(4) unfolding indexed_as_def eq(1-3) by blast
  qed
  ultimately show "held doc w0 (Some st) (w\<lparr>w_db := db\<rparr>) \<and> indexed_true doc (w\<lparr>w_db := db\<rparr>)" by simp
qed (blast intro: at_going)

lemma reanonymize_held:
  "triple (held doc w0 s0) (reanonymize sv doc)
     (\<lambda>s w. s = s0 \<and> held doc w0 s0 w \<and> (s0 \<in> Some ` {INDEXED, ANONYMIZED} \<longrightarrow> indexed_true doc w)) (going_on doc w0)"
proof -
  have look: "triple (held doc w0 s0) (lookup doc) (\<lambda>(d, s) w. held doc w0 s0 w \<and> (d = document_by_id (w_db w0) doc \<and> s = s0)) (going_on doc w0)"
    unfolding lookup_def
    by (rule triple_on_db) (auto simp: at_state_def result_simps going_def others_same_def document_by_id_def)
  have asd: "triple (held doc w0 s0) m (\<lambda>_. held doc w0 s0) (going_on doc w0)" if "aside m" for m :: "(world, 'a) act"
    by (rule to_going [OF aside_held [OF that]])
  let ?Q = "\<lambda>s w. s = s0 \<and> held doc w0 s0 w \<and> (s0 \<in> Some ` {INDEXED, ANONYMIZED} \<longrightarrow> indexed_true doc w)"
  let ?boxed = "\<lambda>raw r. compute_box_map sv doc raw (an_text r) (an_lists_hash r)"
  have boxes: "triple (\<lambda>w. held doc w0 (Some st) w \<and> indexed_true doc w) (?boxed raw r)
      (\<lambda>_ w. held doc w0 (Some st) w \<and> indexed_true doc w) (going_on doc w0)" for raw r st
    by (rule triple_conseq [OF triple_frame [OF compute_box_map_held compute_box_map_keeps, where K = "indexed_true doc"]])
       (blast | simp add: same_core_indexed)+
  have put: "triple (\<lambda>w. held doc w0 (Some st) w \<and> P t) (write_index sv doc (document_by_id (w_db w0) doc) t v ps tp)
      (\<lambda>_ w. (held doc w0 (Some st) w \<and> indexed_as t doc w) \<and> P t) (going_on doc w0)" for st t v ps tp
    by (rule triple_fact, rule triple_conseq [OF write_index_held [OF refl, where K = "\<lambda>_. True"]]) (auto intro: at_going)
  show ?thesis
    unfolding reanonymize_def
  proof (rule triple_andthen [OF look], goal_cases)
    case (1 x)
    obtain d s where x: "x = (d, s)" by (cases x)
    show ?case
      unfolding x prod.case
    proof (rule triple_fact, elim conjE, hypsubst, rule triple_if)
      show "triple (held doc w0 s0) (raise_err ValueError) ?Q (going_on doc w0)"
        by (rule triple_raise) (rule at_going)
    next
      show "triple (held doc w0 s0) (case s0 of
          Some st \<Rightarrow> if st \<notin> {INDEXED, ANONYMIZED} then ret s0
           else andthen (reading (\<lambda>w. registered (pseudonyms (w_db w)) doc)) (\<lambda>before.
           andthen (pdf_bytes sv (document_by_id (w_db w0) doc) None) (\<lambda>raw.
           andthen (checked (extract_text (sv_pdf sv) raw)) (\<lambda>text.
           andthen (anonymized sv text) (\<lambda>result.
           andthen (embedded sv (an_text result)) (\<lambda>vector.
           andthen (embed_passages (sv_embed sv) (sv_attempts sv) (sv_delay sv) (an_text result)) (\<lambda>ps.
           andthen (on_index (\<lambda>ix. (topics_of ix doc, ix))) (\<lambda>topics.
           andthen (write_index sv doc (document_by_id (w_db w0) doc) (an_text result) vector ps topics) (\<lambda>_.
           andthen (on_db (\<lambda>db. let db = store_text sv doc (an_text result) db
              in rbind (note_event (sv_hash sv) (sv_now sv) db doc st ''reanonymize''
                   (reanonymize_payload sv result (orphaned_tokens before (an_text result)))) (\<lambda>db. Inr ((), db)))) (\<lambda>_.
           andthen (compute_box_map sv doc raw (an_text result) (an_lists_hash result)) (\<lambda>_.
           ret s0))))))))))
        | None \<Rightarrow> ret s0) ?Q (going_on doc w0)"
      proof (cases s0)
        case (Some st)
        have stable: "held doc w0 s0 w \<and> P t \<Longrightarrow> w_db w' = w_db w \<Longrightarrow> w_index w' = w_index w \<Longrightarrow> held doc w0 s0 w' \<and> P t" for w w' t
          by (elim conjE, intro conjI) (erule (2) at_same_db)
        have asdp: "triple (\<lambda>w. held doc w0 s0 w \<and> P t) m (\<lambda>_ w. held doc w0 s0 w \<and> P t) (going_on doc w0)" if "aside m" for m :: "(world, 'a) act" and t
          by (rule triple_conseq [OF aside_triple [OF that, where A = "\<lambda>w. held doc w0 s0 w \<and> P t"]], erule (2) stable) (auto intro: at_going)
        have emb: "triple (\<lambda>w. held doc w0 s0 w \<and> P t) (embedded sv t) (\<lambda>_ w. held doc w0 s0 w \<and> P t) (going_on doc w0)" for t
          by (rule triple_conseq [OF embedded_aside [where A = "\<lambda>w. held doc w0 s0 w \<and> P t"]], erule (2) stable) (auto intro: at_going)
        have ps: "triple (\<lambda>w. held doc w0 s0 w \<and> P t) (embed_passages (sv_embed sv) n b t) (\<lambda>_ w. held doc w0 s0 w \<and> P t) (going_on doc w0)" for t n b
          unfolding embed_passages_def
          by (rule triple_conseq [OF each_passage_aside [where A = "\<lambda>w. held doc w0 s0 w \<and> P t"]], erule (2) stable) (auto intro: at_going)
        show ?thesis
          unfolding Some option.case
          by (rule triple_if, rule triple_ret, force, rule triple_andthen [OF asd [OF aside_reading, unfolded Some]],
              rule triple_andthen [OF asd [OF aside_pdf_bytes, unfolded Some]], rule triple_andthen [OF asd [OF aside_checked, unfolded Some]],
              rule triple_andthen [OF to_going [OF anonymized_held]], rule triple_andthen [OF emb [unfolded Some]],
              rule triple_andthen [OF ps [unfolded Some]], rule triple_andthen [OF asdp [OF topics_aside, unfolded Some]],
              rule triple_andthen [OF put], rule triple_andthen [OF restore_held], rule triple_andthen [OF boxes], rule triple_ret, simp)
      qed (auto intro: triple_ret)
    qed
  qed
qed

end

lemma wired_reanonymize:
  assumes "wired sv"
  shows "triple (at_state (sv_hash sv) (anonymizer_output sv) doc w0 s0) (reanonymize sv doc)
     (\<lambda>s w. s = s0 \<and> at_state (sv_hash sv) (anonymizer_output sv) doc w0 s0 w \<and> (s0 \<in> Some ` {INDEXED, ANONYMIZED} \<longrightarrow> indexed_true doc w))
     (going (sv_hash sv) (anonymizer_output sv) doc w0)"
  using assms unfolding wired_def by (elim disjE exE; hypsubst) (rule det.reanonymize_held rev.reanonymize_held)+

text \<open>What is stored is what the anonymizer returned for the text of the document's own original.\<close>

definition renewed_text :: "services \<Rightarrow> string \<Rightarrow> world \<Rightarrow> world \<Rightarrow> bool" where
  "renewed_text sv doc w w' =
     (\<exists>d raw source result w1 w2. document_by_id (w_db w) doc = Some d \<and> sv_read sv (dc_object_key d) w = (Inr raw, w1)
        \<and> extract_text (sv_pdf sv) raw = Inr source \<and> retry_transient (sv_anonymize sv source) (sv_attempts sv) (sv_delay sv) w1 = (Inr result, w2)
        \<and> get_anonymized_text (w_db w') doc = Some (an_text result))"

lemma wired_box_map:
  assumes "wired sv"
  shows "keeps same_core (compute_box_map sv doc raw t lh)"
  using assms unfolding wired_def by (elim disjE exE; hypsubst) (rule det.compute_box_map_keeps rev.compute_box_map_keeps)+

lemma reanonymize_text:
  assumes "wired sv" and "reanonymize sv doc w = (Inr s, w')" and "s \<in> Some ` {INDEXED, ANONYMIZED}"
  shows "renewed_text sv doc w w'"
proof -
  obtain d st w0 where look: "lookup doc w = (Inr (Some d, Some st), w0)" and st: "st \<in> {INDEXED, ANONYMIZED}"
    using assms by (auto simp: reanonymize_def andthen_Inr split: option.splits if_splits)
  then have d: "document_by_id (w_db w) doc = Some d" "w0 = w" by (auto simp: lookup_def result_simps)
  from assms(2) look st d(2) have "\<exists>raw source result w1 w2 w6 w7 x. sv_read sv (dc_object_key d) w = (Inr raw, w1)
      \<and> extract_text (sv_pdf sv) raw = Inr source \<and> anonymized sv source w1 = (Inr result, w2)
      \<and> on_db (\<lambda>db. let db = store_text sv doc (an_text result) db
              in rbind (note_event (sv_hash sv) (sv_now sv) db doc st ''reanonymize'' x) (\<lambda>db. Inr ((), db))) w6 = (Inr (), w7)
      \<and> compute_box_map sv doc raw (an_text result) (an_lists_hash result) w7 = (Inr (), w')"
    by (fastforce simp: reanonymize_def andthen_Inr pdf_bytes_def key_of_def)
  then obtain raw source result w1 w2 w6 w7 x where run: "sv_read sv (dc_object_key d) w = (Inr raw, w1)" "extract_text (sv_pdf sv) raw = Inr source"
      "anonymized sv source w1 = (Inr result, w2)"
      "on_db (\<lambda>db. let db = store_text sv doc (an_text result) db
              in rbind (note_event (sv_hash sv) (sv_now sv) db doc st ''reanonymize'' x) (\<lambda>db. Inr ((), db))) w6 = (Inr (), w7)"
      "compute_box_map sv doc raw (an_text result) (an_lists_hash result) w7 = (Inr (), w')" by blast
  have "texts (w_db w7) = dict_set doc (an_text result) (texts (w_db w6))"
    using run(4) by (auto simp: result_simps Let_def note_event_def store_text_def)
  moreover have "texts (w_db w') = texts (w_db w7)"
    using wired_box_map [OF assms(1), of doc raw "an_text result" "an_lists_hash result"] run(5) by (force simp: keeps_def same_core_def dest: spec [of _ w7])
  ultimately have "get_anonymized_text (w_db w') doc = Some (an_text result)" by (simp add: get_anonymized_text_def)
  then show ?thesis using d(1) run(1-3) unfolding renewed_text_def anonymized_def by blast
qed

text \<open>C8: Anonymising a document again never lets anything but an output of the anonymizer into the
  tables or the index. When it returns, the state is the one the document had and, for a document that had one to renew, the text
  stored is what the anonymizer returned for the text extracted from the document's own original, as it was read at the start, and the
  index holds precisely that text; when it raises, at whatever step, the tables are as they were. In either case no other document's
  entry of the index has changed. (Whether the text is empty is up to the anonymizer alone: nothing else can put an empty one in its place.)\<close>

theorem reanonymize_safe:
  assumes "wired sv" and "digest64 (sv_hash sv)" and "corpus_ok (sv_hash sv) (w_db w)" and "texts_ok (anonymizer_output sv) (w_db w)"
    and "index_ok (anonymizer_output sv) (w_index w)" and "transaction (reanonymize sv doc) w = (r, w')"
  shows "texts_ok (anonymizer_output sv) (w_db w') \<and> index_ok (anonymizer_output sv) (w_index w')
    \<and> {i. dict_get (ix_docs (w_index w')) i \<noteq> dict_get (ix_docs (w_index w)) i} \<subseteq> {doc}
    \<and> (case r of Inl e \<Rightarrow> w_db w' = w_db w
       | Inr s \<Rightarrow> doc_state (w_db w') doc = Inr s \<and> doc_state (w_db w) doc = Inr s \<and> corpus_ok (sv_hash sv) (w_db w')
           \<and> (s \<in> Some ` {INDEXED, ANONYMIZED} \<longrightarrow> indexed_true doc w' \<and> renewed_text sv doc w w'))"
proof -
  obtain s0 where s0: "at_state (sv_hash sv) (anonymizer_output sv) doc w s0 w" using at_start [OF assms(2-5)] by blast
  obtain r1 w1 where w1: "reanonymize sv doc w = (r1, w1)" by (cases "reanonymize sv doc w")
  note ran = triple_run [OF wired_reanonymize [OF assms(1)] s0 w1]
  show ?thesis
  proof (cases r1)
    case (Inl e)
    then have "r = Inl e" "w' = roll_back w w1" using assms(6) w1 by (simp_all add: transaction_def)
    moreover have "going (sv_hash sv) (anonymizer_output sv) doc w w1" using ran Inl by simp
    ultimately show ?thesis using assms(4) by (auto simp: going_def others_same_def)
  next
    case (Inr s)
    then have e: "r = Inr s" "w' = w1" using assms(6) w1 by (simp_all add: transaction_def)
    have h: "s = s0" "at_state (sv_hash sv) (anonymizer_output sv) doc w s0 w1" "s0 \<in> Some ` {INDEXED, ANONYMIZED} \<longrightarrow> indexed_true doc w1"
      using ran Inr by simp_all
    have "going (sv_hash sv) (anonymizer_output sv) doc w w1" "doc_state (w_db w1) doc = Inr s" "doc_state (w_db w) doc = Inr s"
      using h(1,2) s0 by (simp_all add: at_state_def)
    moreover have "s \<in> Some ` {INDEXED, ANONYMIZED} \<longrightarrow> renewed_text sv doc w w1" using reanonymize_text [OF assms(1)] w1 Inr by blast
    ultimately show ?thesis using h(1,3) unfolding e by (auto simp: going_def others_same_def)
  qed
qed

subsection \<open>ingest\<close>

text \<open>What can be read of an original.\<close>

definition original_view where
  "original_view dec unwrap st k = (case st of
     Plain ob \<Rightarrow> (case object_get ob k of Inl _ \<Rightarrow> None | Inr x \<Rightarrow> Some x)
   | Sealing og \<Rightarrow> view_original dec unwrap og k)"

lemma put_original_wrote:
  assumes "put_original get_raw HB enc wrap unwrap cfg nonce material env domain st doc b data = Inr (r, st')"
  shows "(\<forall>k. k \<noteq> b \<longrightarrow> dict_get (ob_data (og_objects st')) k = dict_get (ob_data (og_objects st)) k)
    \<and> (if r = WROTE then get_raw = object_get_raw \<longrightarrow> view_original dec unw st b = None else og_objects st' = og_objects st)"
proof -
  define row where "row = dict_get (og_rows st) b"
  define stored where "stored = (case get_raw (og_objects st) b of Inl _ \<Rightarrow> None | Inr d \<Rightarrow> Some d)"
  define ss where "ss = (case stored of None \<Rightarrow> False | Some d \<Rightarrow> is_sealed d)"
  have seen: "stored = dict_get (ob_data (og_objects st)) b" if "get_raw = object_get_raw"
    using that by (simp add: object_get_raw_def stored_def split: option.split)
  note unf = assms [unfolded put_original_def stored_def [symmetric] row_def [symmetric] Let_def ss_def [symmetric]]
  have wrote: "\<forall>k. k \<noteq> b \<longrightarrow> dict_get (ob_data (og_objects y)) k = dict_get (ob_data (og_objects x)) k"
    if "seal_and_write enc cfg nonce x q key b data = Inr y" for x q key y
    using that by (auto simp: seal_and_write_def object_put_def result_simps)
  consider (kept) "og_objects st' = og_objects st" "r \<noteq> WROTE"
    | (reseal) q where "row = Some q" "stored = None \<or> ss" "\<forall>d. stored = Some d \<longrightarrow> header_key_id d \<noteq> Inr (dk_key_id q)" "r = WROTE"
    | (mint) "row = None" "stored = None \<or> ss" "r = WROTE"
    using unf by (cases row; cases stored; cases ss) (auto simp: ss_def result_simps split: if_splits)
  then show ?thesis
  proof cases
    case (reseal q)
    have "\<exists>(k :: key) c. seal_and_write enc cfg nonce (st\<lparr>og_cache := c\<rparr>) q k b data = Inr st'"
      using unf reseal by (auto simp: result_simps split: option.splits if_splits)
    then obtain k :: key and c where "seal_and_write enc cfg nonce (st\<lparr>og_cache := c\<rparr>) q k b data = Inr st'" by blast
    from wrote [OF this] have "\<forall>k. k \<noteq> b \<longrightarrow> dict_get (ob_data (og_objects st')) k = dict_get (ob_data (og_objects st)) k" by simp
    moreover have "view_original dec unw st b = None" if "get_raw = object_get_raw"
      using reseal(1-3) by (auto simp: view_original_def row_def seen [OF that] ss_def open_sealed_def row_key_def result_simps
          split: option.splits sum.splits if_splits)
    ultimately show ?thesis using reseal(4) by simp
  next
    case mint
    have "\<exists>(k :: key) rows c q. seal_and_write enc cfg nonce (st\<lparr>og_rows := rows, og_cache := c\<rparr>) q k b data = Inr st'"
      using unf mint by (auto simp: result_simps split: option.splits)
    then obtain k :: key and rows c q where "seal_and_write enc cfg nonce (st\<lparr>og_rows := rows, og_cache := c\<rparr>) q k b data = Inr st'" by blast
    from wrote [OF this] have "\<forall>k. k \<noteq> b \<longrightarrow> dict_get (ob_data (og_objects st')) k = dict_get (ob_data (og_objects st)) k" by simp
    moreover have "view_original dec unw st b = None" if "get_raw = object_get_raw"
      using mint(1,2) by (auto simp: view_original_def row_def seen [OF that] ss_def split: option.splits)
    ultimately show ?thesis using mint(3) by simp
  qed simp
qed

text \<open>What the look under the key can have come to. Whether it succeeds is up to the next call.\<close>

definition sees :: "world \<Rightarrow> bool" where
  "sees w = (case w_faults w of [] \<Rightarrow> True | x # fs \<Rightarrow> x \<notin> {Refused ObjectStoreError, Lost ObjectStoreError})"

lemma peeking_cases:
  assumes "peeking key w = (r, w')"
  shows "w_db w' = w_db w \<and> w_store w' = w_store w \<and> w_index w' = w_index w
    \<and> (\<forall>g. r = Inr g \<longrightarrow> g = object_get_raw \<or> g = unread)
    \<and> (r = Inr unread \<longrightarrow> \<not> sees w)"
proof -
  have "unread \<noteq> object_get_raw"
  proof
    assume "unread = object_get_raw"
    then have "unread \<lparr>ob_data = [([], [])], ob_modified = []\<rparr> [] = object_get_raw \<lparr>ob_data = [([], [])], ob_modified = []\<rparr> []" by simp
    then show False by (simp add: unread_def object_get_raw_def)
  qed
  then show ?thesis
    using assms
    by (auto simp: peeking_def store_exists_def on_store_def external_def andthen_def sees_def Let_def
        split: store.splits list.splits fault.splits if_splits)
qed

text \<open>Writing costs no original that could be read, a plain one under the same key aside, which is written over, and one under the same key that could not be
  seen.\<close>

definition unharmed :: "_ \<Rightarrow> _ \<Rightarrow> string \<Rightarrow> world \<Rightarrow> world \<Rightarrow> bool" where
  "unharmed dec unwrap key w w' = (case (w_store w, w_store w') of
     (Plain ob, Plain ob') \<Rightarrow> (\<forall>k. object_exists ob k \<longrightarrow> object_exists ob' k) \<and> (\<forall>k. k \<noteq> key \<longrightarrow> dict_get (ob_data ob') k = dict_get (ob_data ob) k)
   | (Sealing og, Sealing og') \<Rightarrow> (\<forall>k. k \<noteq> key \<or> sees w \<and> view_original dec unwrap og key \<noteq> None \<longrightarrow>
         dict_get (ob_data (og_objects og')) k = dict_get (ob_data (og_objects og)) k)
   | _ \<Rightarrow> False)"

definition nothing_lost :: "_ \<Rightarrow> _ \<Rightarrow> string \<Rightarrow> world \<Rightarrow> bool" where
  "nothing_lost dec unw key w = (case w_store w of Plain ob \<Rightarrow> \<not> object_exists ob key | Sealing og \<Rightarrow> sees w \<longrightarrow> view_original dec unw og key = None)"

lemma unharmed_refl: "w_store w' = w_store w \<Longrightarrow> unharmed dec unwrap key w w'"
  by (simp add: unharmed_def split: store.splits)

lemma unharmed_db [simp]: "unharmed dec unw key (w\<lparr>w_db := db\<rparr>) w' = unharmed dec unw key w w'" "nothing_lost dec unw key (w\<lparr>w_db := db\<rparr>) = nothing_lost dec unw key w"
  by (simp_all add: unharmed_def nothing_lost_def sees_def cong: store.case_cong)

lemma writing_unharmed:
  assumes "writing_original HB enc wrap unwrap cfg nonce material domain doc key data w = (r, w')"
  shows "unharmed dec unw key w w' \<and> w_db w' = w_db w \<and> w_index w' = w_index w \<and> (r = Inr WROTE \<longrightarrow> nothing_lost dec unw key w)"
  using assms unfolding writing_original_def
proof (cases rule: andthen_cases)
  case (raised e)
  with peeking_cases [of key w "Inl e" w'] show ?thesis by (simp add: unharmed_refl)
next
  case (went_on g w1)
  note p = peeking_cases [OF went_on(1)]
  let ?f = "\<lambda>st. write_original g HB enc wrap unwrap cfg nonce material (\<lambda>x. x) domain st doc key data"
  note any = on_store_any [OF went_on(2)]
  have g: "g = object_get_raw" if "sees w" using p that by auto
  have one: "unharmed dec unw key w w' \<and> (x = WROTE \<longrightarrow> nothing_lost dec unw key w)"
    if f: "?f (w_store w) = Inr (x, w_store w')" for x
  proof (cases "w_store w")
    case (Plain ob)
    with f have p: "w_store w' = Plain (object_put (kc_now cfg) ob key data)" "x = (if object_exists ob key then UNCHANGED else WROTE)"
      by (auto simp: write_original_def)
    show ?thesis unfolding unharmed_def nothing_lost_def Plain p by (simp add: object_put_def object_exists_def)
  next
    case (Sealing og)
    with f obtain og' where p: "put_original g HB enc wrap unwrap cfg nonce material (\<lambda>x. x) domain og doc key data = Inr (x, og')" "w_store w' = Sealing og'"
      by (auto simp: write_original_def result_simps)
    from put_original_wrote [OF p(1), of dec unw] Sealing p(2) g show ?thesis by (auto simp: unharmed_def nothing_lost_def split: if_splits)
  qed
  have "r = Inr x \<Longrightarrow> ?f (w_store w) = Inr (x, w_store w')" for x
    using went_on(2) p by (auto elim!: on_store_Inr)
  with any one p show ?thesis using unharmed_refl [of w' w] by metis
qed

lemma delete_unharmed:
  assumes "unharmed dec unw key w w1" and "nothing_lost dec unw key w"
    and "store_delete key w1 = (r, w2)"
  shows "unharmed dec unw key w w2 \<and> w_db w2 = w_db w1 \<and> w_index w2 = w_index w1"
proof -
  note any = on_store_any [OF assms(3) [unfolded store_delete_def]]
  have "w_store w2 = w_store w1 \<or> w_store w2 = with_objects (w_store w1) (fst (object_delete (store_objects (w_store w1)) key))"
    using any by (auto simp: case_prod_beta)
  then have "unharmed dec unw key w w2"
  proof
    assume "w_store w2 = w_store w1"
    with assms(1) show ?thesis by (simp add: unharmed_def)
  next
    assume st: "w_store w2 = with_objects (w_store w1) (fst (object_delete (store_objects (w_store w1)) key))"
    show ?thesis
    proof (cases "w_store w")
      case (Plain ob)
      then obtain ob1 where 1: "w_store w1 = Plain ob1" using assms(1) by (auto simp: unharmed_def split: store.splits)
      have "object_exists ob k \<Longrightarrow> k \<noteq> key" for k using assms(2) Plain by (auto simp: nothing_lost_def)
      with assms(1) Plain 1 show ?thesis
        unfolding unharmed_def st 1 by (simp add: with_objects_def store_objects_def object_delete_def object_exists_def)
    next
      case (Sealing og)
      then obtain og1 where 1: "w_store w1 = Sealing og1" using assms(1) by (auto simp: unharmed_def split: store.splits)
      with assms(1,2) Sealing show ?thesis
        unfolding unharmed_def nothing_lost_def st 1 by (auto simp: with_objects_def store_objects_def object_delete_def)
    qed
  qed
  with any show ?thesis by simp
qed

definition same_store :: "world \<Rightarrow> world \<Rightarrow> bool" where
  "same_store w w' = (w_store w' = w_store w \<and> w_index w' = w_index w)"

lemma on_db_same_store: "keeps same_store (on_db f)"
  by (auto simp: keeps_def on_db_def same_store_def split: sum.splits)

lemma same_store_trans: "same_store a b \<Longrightarrow> same_store b c \<Longrightarrow> same_store a c"
  by (simp add: same_store_def)

lemma same_store_ret: "keeps same_store (ret x)"
  by (simp add: keeps_def same_store_def)

lemmas same_store_rules = keeps_andthen [where R = same_store, OF same_store_trans] same_store_ret on_db_same_store

lemma file_under_same_store: "keeps same_store (file_under sv ds dossier doc)"
  unfolding file_under_def by (cases dossier) (simp_all add: same_store_ret, intro impI same_store_rules)

lemma unharmed_same_store: "unharmed dec unw key w w1 \<Longrightarrow> same_store w1 w2 \<Longrightarrow> unharmed dec unw key w w2"
  by (simp add: unharmed_def same_store_def)

lemma ingest_unharmed:
  assumes "sv_write sv = writing_original HB enc wrap unwrap cfg nonce material domain" and "ingest sv i ds env data dl dossier w = (r, w')"
  shows "unharmed dec unw (original_key sv data) w w' \<and> w_index w' = w_index w"
  using assms(2) unfolding ingest_def
proof (cases rule: andthen_cases)
  case (raised e)
  then show ?thesis by (auto simp: on_db_eq unharmed_refl split: sum.splits)
next
  case (went_on doc w1)
  obtain db where db: "w1 = w\<lparr>w_db := db\<rparr>" using went_on(1) by (auto simp: on_db_Inr)
  have w1: "w_store w1 = w_store w" "w_index w1 = w_index w" "unharmed dec unw (original_key sv data) w1 = unharmed dec unw (original_key sv data) w"
    "nothing_lost dec unw (original_key sv data) w1 = nothing_lost dec unw (original_key sv data) w" by (simp_all add: db fun_eq_iff)
  from went_on(2) show ?thesis
  proof (cases rule: andthen_cases)
    case (raised e)
    with writing_unharmed [of HB enc wrap unwrap cfg nonce material domain "dc_id doc" "original_key sv data" data w1, of "Inl e" w' dec unw] w1
    show ?thesis by (simp add: assms(1))
  next
    case (went_on wrote w2)
    from writing_unharmed [of HB enc wrap unwrap cfg nonce material domain "dc_id doc" "original_key sv data" data w1, of "Inr wrote" w2 dec unw] went_on(1) w1
    have w2: "unharmed dec unw (original_key sv data) w w2" "w_index w2 = w_index w"
      "wrote = WROTE \<Longrightarrow> nothing_lost dec unw (original_key sv data) w"
      by (simp_all add: assms(1))
    obtain r3 w3 where w3: "file_under sv ds dossier doc w2 = (r3, w3)" by (cases "file_under sv ds dossier doc w2")
    have s3: "same_store w2 w3" using file_under_same_store [of sv ds dossier doc] w3 by (auto simp: keeps_def dest: spec [of _ w2])
    show ?thesis
    proof (cases r3)
      case (Inr d)
      then have "w' = w3" using went_on(2) w3 by (simp add: handle_def)
      with unharmed_same_store [OF w2(1) s3] w2(2) s3 show ?thesis by (simp add: same_store_def)
    next
      case (Inl e)
      then have u: "undo_write sv data wrote e w3 = (r, w')" using went_on(2) w3 by (simp add: handle_def)
      show ?thesis
      proof (cases "wrote = WROTE")
        case True
        obtain b where "store_delete (original_key sv data) w3 = (b, w')"
          using u True by (auto simp: undo_write_def andthen_def split: prod.splits sum.splits)
        from delete_unharmed [OF unharmed_same_store [OF w2(1) s3] w2(3) [OF True] this] w2(2) s3 show ?thesis
          by (simp add: same_store_def)
      next
        case False
        then have "w' = w3" using u by (simp add: undo_write_def)
        with unharmed_same_store [OF w2(1) s3] w2(2) s3 show ?thesis by (simp add: same_store_def)
      qed
    qed
  qed
qed

text \<open>C26: What an ingest that fails can cost. The register is as it was once its transaction is rolled back, the index is
  untouched, and every original that could be read before reads the same afterwards, also when the failure came after the
  bytes were written and the write was undone, with two exceptions, both of them the object of this very delivery: in a plain store, where the
  key is written over with the bytes it is named after, it can differ, but it does not disappear; and in a sealing store, if the read of what lies under the key
  failed (not \<open>sees\<close>), it can be lost, as the theorem after this one shows.
\<close>

theorem ingest_failure_keeps:
  assumes "sv_write sv = writing_original HB enc wrap unwrap cfg nonce material domain"
    and "transaction (ingest sv i ds env data dl dossier) w = (Inl e, w')"
  shows "w_db w' = w_db w \<and> w_index w' = w_index w
    \<and> {k. original_view dec unw (w_store w) k \<noteq> None \<and> original_view dec unw (w_store w') k \<noteq> original_view dec unw (w_store w) k}
        \<subseteq> (case w_store w of Plain _ \<Rightarrow> {original_key sv data} | Sealing _ \<Rightarrow> if sees w then {} else {original_key sv data})
    \<and> (case w_store w of Plain ob \<Rightarrow> {k. object_exists ob k} \<subseteq> {k. store_has w' k} | Sealing _ \<Rightarrow> True)"
proof -
  let ?key = "original_key sv data"
  obtain w1 where w1: "ingest sv i ds env data dl dossier w = (Inl e, w1)" "w' = roll_back w w1"
    using assms(2) by (auto simp: transaction_def split: prod.splits sum.splits)
  note u = ingest_unharmed [OF assms(1) w1(1), of dec unw]
  show ?thesis
  proof (cases "w_store w")
    case (Plain ob)
    then obtain ob' where ob': "w_store w1 = Plain ob'" using u by (auto simp: unharmed_def split: store.splits)
    with u Plain have p: "\<forall>k. object_exists ob k \<longrightarrow> object_exists ob' k" "\<forall>k. k \<noteq> ?key \<longrightarrow> dict_get (ob_data ob') k = dict_get (ob_data ob) k"
      by (simp_all add: unharmed_def)
    have "w_store w' = Plain ob'" by (simp add: w1(2) roll_back_def Plain ob')
    with p u w1(2) Plain show ?thesis
      by (auto simp: original_view_def object_get_def object_get_raw_def store_has_def store_objects_def)
  next
    case (Sealing og)
    then obtain og' where og': "w_store w1 = Sealing og'" using u by (auto simp: unharmed_def split: store.splits)
    with u Sealing have p: "k \<noteq> ?key \<or> sees w \<and> view_original dec unw og ?key \<noteq> None \<Longrightarrow>
        dict_get (ob_data (og_objects og')) k = dict_get (ob_data (og_objects og)) k" for k
      by (simp add: unharmed_def)
    have st: "w_store w' = Sealing (og'\<lparr>og_rows := og_rows og\<rparr>)" by (simp add: w1(2) roll_back_def Sealing og')
    have "view_original dec unw (og'\<lparr>og_rows := og_rows og\<rparr>) k = view_original dec unw og k" if "view_original dec unw og k \<noteq> None" "k \<noteq> ?key \<or> sees w" for k
      using that p [of k] by (intro view_other) auto
    then have "{k. view_original dec unw og k \<noteq> None \<and> view_original dec unw (og'\<lparr>og_rows := og_rows og\<rparr>) k \<noteq> view_original dec unw og k}
        \<subseteq> (if sees w then {} else {?key})" by (cases "sees w") (simp_all only: if_True if_False simp_thms, blast+)
    then show ?thesis using u w1(2) st Sealing by (simp add: original_view_def)
  qed
qed

lemma file_under_faults: "w_faults (snd (file_under sv ds dossier doc w)) = w_faults w"
  by (auto simp: file_under_def andthen_def on_db_def split: option.split sum.split prod.split)

lemma put_original_blind:
  assumes "put_original unread HB enc wrap unwrap cfg nonce material (\<lambda>x. x) domain og doc key data = r" and "dict_get (og_rows og) key = None"
  shows "(\<exists>og'. r = Inr (WROTE, og')) \<or> (\<exists>e. r = Inl e \<and> (\<forall>x. e \<noteq> DossierError x))"
  using assms
  by (auto simp: put_original_def unread_def mint_row_def seal_and_write_def seal_def ascii_encode_def Let_def split: sum.splits if_splits)

text \<open>C14: How an ingest loses an original. A legacy original lies in a sealing store, readable and without a key row; it is delivered again, the one read of
  what lies under its key fails for a moment, and the delivery cannot be filed. \<open>put_original\<close> takes the failed read for a missing
  object, seals the delivery over the original and reports \<open>WROTE\<close>, so the undo takes the object for one this ingest wrote and deletes it: once the transaction is rolled back,
  the register is as it was and the only copy of the document is gone. (The comment at rule 4 of \<open>put_original\<close> says that the only readable copy of a document is never written over.)
\<close>

theorem blind_ingest_loses:
  assumes "sv_write sv = writing_original HB enc wrap unwrap cfg nonce material domain" and "w_store w = Sealing og"
    and "dict_get (og_rows og) (original_key sv data) = None" and "object_get (og_objects og) (original_key sv data) = Inr data"
    and "w_faults w = [Refused ObjectStoreError]"
    and "register_live (sv_hash sv) (sv_now sv) i env (w_db w) (keyed_delivery sv data dl) = Inr (d, db)"
    and "transaction (ingest sv i ds env data dl dossier) w = (Inl (DossierError x), w')"
  shows "original_view dec unw (w_store w) (original_key sv data) = Some data \<and> \<not> store_has w' (original_key sv data) \<and> w_db w' = w_db w"
proof -
  let ?key = "original_key sv data" and ?w1 = "w\<lparr>w_db := db\<rparr>"
  obtain w4 where w4: "ingest sv i ds env data dl dossier w = (Inl (DossierError x), w4)" "w' = roll_back w w4"
    using assms(7) by (auto simp: transaction_def split: prod.splits sum.splits)
  have look: "peeking ?key ?w1 = (Inr unread, ?w1\<lparr>w_faults := []\<rparr>)"
    by (simp add: peeking_def on_store_def external_def Let_def assms(2,5))
  have putting: "writing_original HB enc wrap unwrap cfg nonce material domain (dc_id d) ?key data ?w1
     = (case put_original unread HB enc wrap unwrap cfg nonce material (\<lambda>x. x) domain og (dc_id d) ?key data of
          Inl e \<Rightarrow> (Inl e, ?w1\<lparr>w_faults := []\<rparr>) | Inr (r, og') \<Rightarrow> (Inr r, ?w1\<lparr>w_faults := [], w_store := Sealing og'\<rparr>))"
    by (auto simp: writing_original_def andthen_def look on_store_def external_def write_original_def assms(2) split: sum.split)
  have start: "ingest sv i ds env data dl dossier w = andthen (sv_write sv (dc_id d) ?key data) (\<lambda>wrote. handle (file_under sv ds dossier d) (undo_write sv data wrote)) ?w1"
    by (simp add: ingest_def andthen_def on_db_def assms(6))
  from put_original_blind [OF refl assms(3), of HB enc wrap unwrap cfg nonce material domain "dc_id d" data]
  obtain og' where og': "writing_original HB enc wrap unwrap cfg nonce material domain (dc_id d) ?key data ?w1 = (Inr WROTE, ?w1\<lparr>w_faults := [], w_store := Sealing og'\<rparr>)"
    using w4(1) unfolding start andthen_def assms(1) putting by (auto split: sum.splits)
  let ?w2 = "?w1\<lparr>w_faults := [], w_store := Sealing og'\<rparr>"
  obtain r3 w3 where w3: "file_under sv ds dossier d ?w2 = (r3, w3)" by fastforce
  have s3: "w_faults w3 = []" "w_store w3 = Sealing og'" using file_under_faults [of sv ds dossier d ?w2] file_under_same_store [of sv ds dossier d] w3
    by (auto simp: keeps_def same_store_def dest: spec [of _ ?w2])
  have "handle (file_under sv ds dossier d) (undo_write sv data WROTE) ?w2 = (Inl (DossierError x), w4)"
    using w4(1) unfolding start andthen_def assms(1) og' by simp
  then obtain e where "undo_write sv data WROTE e w3 = (Inl (DossierError x), w4)" using w3 by (cases r3) (simp_all add: handle_def)
  then have "w4 = w3\<lparr>w_store := Sealing (og'\<lparr>og_objects := fst (object_delete (og_objects og') ?key)\<rparr>)\<rparr>"
    using s3 by (auto simp: undo_write_def andthen_def store_delete_def on_store_def external_def with_objects_def store_objects_def split: prod.splits)
  then have "\<not> store_has w4 ?key" by (simp add: store_has_def store_objects_def object_exists_def object_delete_def)
  then have "\<not> store_has w' ?key" by (simp only: w4(2) roll_back_simps simp_thms)
  moreover have "original_view dec unw (w_store w) ?key = Some data"
    using assms(2-4) by (auto simp: original_view_def view_original_def object_get_def object_get_raw_def result_simps split: option.splits if_splits)
  ultimately show ?thesis using w4(2) by simp
qed

lemma ensure_dossier_ok:
  assumes "corpus_ok H db" and "ensure_dossier now new_id (\<lambda>x. x) db name = Inr (d, db')"
  shows "corpus_ok H db' \<and> dossier_by_name db' (strip name) = Some d \<and> dossier_by_id db' (ds_id d) \<noteq> None
    \<and> (\<exists>rows. db' = db\<lparr>dossier_rows := rows\<rparr>)"
proof (cases "dossier_by_name db (strip name)")
  case (Some e)
  then have "d = e" "db' = db" using assms(2) by (auto simp: ensure_dossier_def Let_def split: if_splits)
  moreover have "dossier_by_id db (ds_id e) \<noteq> None"
    using Some by (auto simp: dossier_by_name_def dossier_by_id_def find_Some_iff find_None_iff) (use nth_mem in blast)
  moreover have "\<exists>rows. db = db\<lparr>dossier_rows := rows\<rparr>" by (rule exI [of _ "dossier_rows db"]) simp
  ultimately show ?thesis using Some assms(1) by simp
next
  case None
  let ?n = "\<lparr>ds_id = new_id, ds_name = strip name, ds_created_at = now\<rparr>"
  have e: "dossier_by_id db new_id = None" "d = ?n" "db' = db\<lparr>dossier_rows := dossier_rows db @ [?n]\<rparr>"
    using assms(2) None by (auto simp: ensure_dossier_def Let_def split: if_splits)
  have fresh: "new_id \<notin> ds_id ` set (dossier_rows db)" "strip name \<notin> ds_name ` set (dossier_rows db)"
    using None e(1) by (auto simp: dossier_by_name_def dossier_by_id_def find_None_iff)
  then have "tables_ok db'" using assms(1) by (auto simp: corpus_ok_def tables_ok_def e(3))
  moreover have "dossier_by_name db' (strip name) = Some ?n" using None by (simp add: e(3) dossier_by_name_def find_append)
  moreover have "dossier_by_id db' new_id \<noteq> None" by (simp add: e(3) dossier_by_id_def find_append split: option.split)
  ultimately show ?thesis using assms(1) e by (auto simp: corpus_ok_def)
qed

lemma file_under_ok:
  assumes "digest64 (sv_hash sv)" and "corpus_ok (sv_hash sv) (w_db w)" and "document_by_id (w_db w) (dc_id doc) \<noteq> None"
    and "file_under sv ds dossier doc w = (Inr d, w')"
  shows "d = doc \<and> corpus_ok (sv_hash sv) (w_db w') \<and> documents (w_db w') = documents (w_db w)
    \<and> (\<forall>i. doc_state (w_db w') i = doc_state (w_db w) i)
    \<and> (case dossier of None \<Rightarrow> True | Some n \<Rightarrow> n = [] \<or>
         (\<exists>x. dossier_by_name (w_db w') (strip n) = Some x \<and> (ds_id x, dc_id doc) \<in> set (memberships (w_db w'))))"
proof (cases "dossier = None \<or> dossier = Some []")
  case True
  then show ?thesis using assms by (auto simp: file_under_def)
next
  case False
  then obtain n where n: "dossier = Some n" "n \<noteq> []" by auto
  obtain x db1 b db2 where r: "ensure_dossier (sv_now sv) ds (\<lambda>x. x) (w_db w) n = Inr (x, db1)"
    "add_member (sv_hash sv) (sv_now sv) (\<lambda>x. x) db1 (ds_id x) (dc_id doc) ''ingest'' None = Inr (b, db2)" "d = doc" "w' = w\<lparr>w_db := db2\<rparr>"
    using assms(4) n by (auto simp: file_under_def result_simps)
  note e = ensure_dossier_ok [OF assms(2) r(1)]
  obtain rows where rows: "db1 = (w_db w)\<lparr>dossier_rows := rows\<rparr>" using e by blast
  have c: "corpus_ok (sv_hash sv) db1" using e by blast
  note a = add_member_ok [OF assms(1) c r(2)]
  have sb: "same_but_members db1 db2" using a by blast
  have "document_by_id db1 (dc_id doc) \<noteq> None" using assms(3) by (simp add: rows document_by_id_def)
  then have m: "(ds_id x, dc_id doc) \<in> set (memberships db2)" using a e by (auto split: if_splits)
  have "dossier_by_name db2 (strip n) = Some x" using e same_but_members_simps(2) [OF sb] by (simp add: dossier_by_name_def)
  moreover have "documents db2 = documents (w_db w)" using same_but_members_simps(1) [OF sb] by (simp add: rows)
  moreover have "doc_state db2 i = doc_state (w_db w) i" for i using a by (simp add: rows doc_state_def)
  ultimately show ?thesis using a m n by (simp add: r(3,4))
qed

lemma put_original_has:
  assumes "put_original get_raw HB enc wrap unwrap cfg nonce material env domain st doc b data = Inr (r, st')" and "get_raw = object_get_raw \<or> get_raw = unread"
  shows "object_exists (og_objects st') b"
proof -
  have wrote: "object_exists (og_objects y) b" if "seal_and_write enc cfg nonce x q key b data = Inr y" for x q key y
    using that by (auto simp: seal_and_write_def object_put_def object_exists_def result_simps)
  have "\<exists>d. get_raw (og_objects st) b = Inr d \<Longrightarrow> object_exists (og_objects st) b"
    using assms(2) by (auto simp: object_get_raw_def unread_def object_exists_def split: option.splits)
  then show ?thesis
    using assms(1) wrote
    by (cases "get_raw (og_objects st) b") (auto simp: put_original_def Let_def result_simps split: option.splits if_splits)
qed

text \<open>C27: An ingest that returns has the delivery in the register, the store and the dossier it was meant for: the document it
  returns is the one live document for these bytes, whichever session registered it; its object is in the store under the
  key that names its digest; it is a member of the dossier of the given name, created if need be; and the trail and the
  tables are sound.
\<close>

theorem ingest_result:
  assumes "digest64 (sv_hash sv)" and "corpus_ok (sv_hash sv) (w_db w)" and "commits_ok (sv_hash sv) env"
    and "sv_write sv = writing_original HB enc wrap unwrap cfg nonce material domain"
    and "ingest sv i ds env data dl dossier w = (Inr doc, w')"
  shows "corpus_ok (sv_hash sv) (w_db w') \<and> live_document_for (w_db w') (original_key sv data) = Some doc
    \<and> store_has w' (original_key sv data)
    \<and> (case dossier of None \<Rightarrow> True | Some n \<Rightarrow> n = [] \<or>
         (\<exists>x. dossier_by_name (w_db w') (strip n) = Some x \<and> (ds_id x, dc_id doc) \<in> set (memberships (w_db w'))))"
proof -
  obtain d db w1 wrote w2 where r: "register_live (sv_hash sv) (sv_now sv) i env (w_db w) (keyed_delivery sv data dl) = Inr (d, db)"
    "w1 = w\<lparr>w_db := db\<rparr>" "writing_original HB enc wrap unwrap cfg nonce material domain (dc_id d) (original_key sv data) data w1 = (Inr wrote, w2)"
    "handle (file_under sv ds dossier d) (undo_write sv data wrote) w2 = (Inr doc, w')"
    using assms(5) unfolding ingest_def by (fastforce simp: result_simps assms(4))
  note live = register_live_ok [OF assms(1-3) r(1)]
  have w2: "w_db w2 = db" using writing_unharmed [OF r(3)] r(2) by simp
  have f: "file_under sv ds dossier d w2 = (Inr doc, w')"
  proof (cases "file_under sv ds dossier d w2")
    case (Pair x y)
    then show ?thesis
      using r(4) by (cases x) (auto simp: handle_def undo_write_def andthen_def split: prod.splits sum.splits)
  qed
  have known: "document_by_id (w_db w2) (dc_id d) \<noteq> None"
    using live live_document_Some [of db "dl_object_key (keyed_delivery sv data dl)" d] by (auto simp: w2 document_by_id_None)
  have ok: "corpus_ok (sv_hash sv) (w_db w2)" using live w2 by simp
  note filed = file_under_ok [OF assms(1) ok known f]
  have dd: "doc = d" using filed by (elim conjE)
  have "live_document_for (w_db w') (original_key sv data) = Some d"
    using live filed by (simp add: live_document_for_def w2 keyed_delivery_def)
  moreover have "store_has w2 (original_key sv data)"
  proof -
    obtain g w3 where g: "peeking (original_key sv data) w1 = (Inr g, w3)"
      "on_store (\<lambda>st. write_original g HB enc wrap unwrap cfg nonce material (\<lambda>x. x) domain st (dc_id d) (original_key sv data) data) w3 = (Inr wrote, w2)"
      using r(3) unfolding writing_original_def by (auto simp: andthen_Inr)
    note p = peeking_cases [OF g(1)]
    have seen: "g = object_get_raw \<or> g = unread" using p by simp
    have "\<exists>x. write_original g HB enc wrap unwrap cfg nonce material (\<lambda>x. x) domain (w_store w1) (dc_id d) (original_key sv data) data = Inr (x, w_store w2)"
      using g(2) p by (auto elim!: on_store_Inr)
    then show ?thesis
      by (cases "w_store w1") (auto simp: write_original_def result_simps store_has_def store_objects_def object_put_def object_exists_def
          dest!: put_original_has [OF _ seen] split: store.splits)
  qed
  moreover have "w_store w' = w_store w2"
    using file_under_same_store [of sv ds dossier d] f by (auto simp: keeps_def same_store_def dest: spec [of _ w2])
  moreover have "corpus_ok (sv_hash sv) (w_db w')" using filed by (elim conjE)
  moreover have "case dossier of None \<Rightarrow> True | Some n \<Rightarrow> n = [] \<or>
         (\<exists>x. dossier_by_name (w_db w') (strip n) = Some x \<and> (ds_id x, dc_id d) \<in> set (memberships (w_db w')))"
    using filed by (elim conjE)
  ultimately show ?thesis unfolding store_has_def dd by (intro conjI) simp_all
qed

subsection \<open>recover\<close>

lemma repoint_store: "w_store (snd (repoint sv doc me key m w)) = w_store w"
proof -
  have "keeps same_store (repoint sv doc me key m)"
    unfolding repoint_def step_to_def by (intro same_store_rules)
  then show ?thesis by (simp add: keeps_def same_store_def)
qed

lemma supersede_store: "w_store (snd (supersede H now False doc own actor batch key w)) = w_store w"
proof -
  have "keeps same_store (if \<not> todo then ret x else andthen (if False then f else ret False) (\<lambda>ie.
      andthen (on_db g) (\<lambda>(moved, removed). ret (h ie moved removed))))" for todo x f g h
    by (auto intro!: same_store_rules split: prod.split)
  then have "keeps same_store (supersede H now False doc own actor batch key)"
    unfolding supersede_def by (intro same_store_rules) (simp add: case_prod_beta)
  then show ?thesis by (simp add: keeps_def same_store_def)
qed

lemma settle_store: "w_store (snd (settle_ocr sv doc d key m w)) = w_store w"
proof -
  have "w_store (snd (andthen (supersede H now False doc own actor batch k) (\<lambda>_. ret SUPERSEDED) w)) = w_store w" for H now own actor batch k
    using supersede_store [of H now doc own actor batch k w]
    by (cases "supersede H now False doc own actor batch k w") (auto simp: andthen_def split: sum.splits)
  then show ?thesis
    by (auto simp: settle_ocr_def repoint_store split: option.split)
qed

text \<open>Reading an original from a sealing store changes only its cache.\<close>

lemma reading_rows:
  assumes "reading_original dec unwrap cfg key w = (r, w')" and "w_store w = Sealing og"
  shows "\<exists>c. w_store w' = Sealing (og\<lparr>og_cache := c\<rparr>)"
proof -
  have "\<exists>c. st = Sealing (og\<lparr>og_cache := c\<rparr>)" if "read_original dec unwrap cfg (Sealing og) key = Inr (x, st)" for x st
    using that by (auto simp: read_original_def get_original_def Let_def result_simps split: if_splits intro: exI [of _ "og_cache og"])
  moreover have "Sealing og = Sealing (og\<lparr>og_cache := og_cache og\<rparr>)" by simp
  ultimately show ?thesis
    using on_store_any [OF assms(1) [unfolded reading_original_def]] assms(2) by metis
qed

text \<open>C28: Recovery writes past the seal. What \<open>recover\<close> stores for a scan it can read goes into the store as plain bytes,
  also where originals are sealed. If the key of those bytes is the key of a sealed original, as when the scan turns out
  to be a copy of another document, that original is written over and can no longer be read: the store takes the plain
  object for a downgrade and refuses it.
\<close>

theorem recover_downgrades_owner:
  assumes "sv_read sv = reading_original dec unwrap cfg" and "w_store w = Sealing og"
    and "recover sv (\<lambda>_. ret b) doc w = (Inr s, w')" and "s \<noteq> UNPROCESSABLE_OCR" and "\<not> is_sealed b"
    and "dict_get (og_rows og) (original_key sv b) = Some row" and "dk_sealed_at row \<noteq> None"
  shows "object_get_raw (store_objects (w_store w')) (original_key sv b) = Inr b
    \<and> read_original dec unwrap cfg (w_store w') (original_key sv b) = Inl SealedObjectError"
proof -
  let ?key = "original_key sv b"
  obtain d w1 where look: "lookup doc w = (Inr (d, Some UNPROCESSABLE_OCR), w1)"
    and rest: "andthen (pdf_bytes sv d None) (\<lambda>pdf. andthen (ret b) (\<lambda>ocr_bytes.
       case profile_pdf (sv_pdf sv) ocr_bytes (sv_threshold sv) of
         Inl e \<Rightarrow> raise_err e
       | Inr m \<Rightarrow>
           if \<not> mc_born_digital m then
             andthen (on_db (\<lambda>db. rbind (note_event (sv_hash sv) (sv_now sv) db doc UNPROCESSABLE_OCR ''ocr'' (JObj (metric_payload m)))
                (\<lambda>db. Inr ((), db)))) (\<lambda>_. ret UNPROCESSABLE_OCR)
           else
             andthen (store_put (sv_now sv) (original_key sv ocr_bytes) ocr_bytes) (\<lambda>_.
             settle_ocr sv doc d (original_key sv ocr_bytes) m))) w1 = (Inr s, w')"
    using assms(3) by (auto simp: recover_def andthen_Inr split: if_splits)
  have "w_store w1 = Sealing og" using look assms(2) by (auto simp: lookup_def on_db_Inr)
  moreover obtain pdf w2 m where w2: "pdf_bytes sv d None w1 = (Inr pdf, w2)" and
    m: "profile_pdf (sv_pdf sv) b (sv_threshold sv) = Inr m" "mc_born_digital m"
      "andthen (store_put (sv_now sv) ?key b) (\<lambda>_. settle_ocr sv doc d ?key m) w2 = (Inr s, w')"
    using rest assms(4) by (auto simp: andthen_Inr split: sum.splits if_splits)
  moreover obtain me where "d = Some me" using w2 by (cases d) (auto simp: pdf_bytes_def key_of_def)
  ultimately obtain c where c: "w_store w2 = Sealing (og\<lparr>og_cache := c\<rparr>)"
    using reading_rows [of dec unwrap cfg "dc_object_key me" w1 "Inr pdf" w2 og] by (auto simp: pdf_bytes_def key_of_def assms(1))
  obtain w3 where w3: "store_put (sv_now sv) ?key b w2 = (Inr (), w3)" "settle_ocr sv doc d ?key m w3 = (Inr s, w')"
    using m(3) by (auto simp: andthen_Inr)
  have "w_store w3 = Sealing (og\<lparr>og_cache := c, og_objects := object_put (sv_now sv) (og_objects og) ?key b\<rparr>)"
    using w3(1) unfolding store_put_def by (auto elim!: on_store_Inr simp: c with_objects_def store_objects_def)
  then have "w_store w' = Sealing (og\<lparr>og_cache := c, og_objects := object_put (sv_now sv) (og_objects og) ?key b\<rparr>)"
    using settle_store [of sv doc d ?key m w3] w3(2) by simp
  then show ?thesis
    using assms(5-7) by (simp add: store_objects_def read_original_def get_original_def object_get_raw_def object_put_def)
qed

subsection \<open>Runs to try them on\<close>

definition sample_ingest :: services where
  "sample_ingest = sample_services\<lparr>sv_write :=
     writing_original sample_hb sample_enc (\<lambda>_. sample_wrap) (\<lambda>_. sample_wrap) sample_config (replicate 12 (CHR ''x'')) ''m'' DEFAULT_DOMAIN\<rparr>"

lemma sample_ingest_simps [simp]:
  "sv_hash sample_ingest = tick_hash" "sv_now sample_ingest = sample_time"
  "sv_write sample_ingest = writing_original sample_hb sample_enc (\<lambda>_. sample_wrap) (\<lambda>_. sample_wrap) sample_config (replicate 12 (CHR ''x'')) ''m'' DEFAULT_DOMAIN"
  by (simp_all add: sample_ingest_def)

definition fresh_world :: world where
  "fresh_world = (sample_world empty_corpus)\<lparr>w_index := empty_index\<rparr>"

lemma fresh_world_simps [simp]:
  "w_db fresh_world = empty_corpus" "w_store fresh_world = Plain \<lparr>ob_data = [], ob_modified = []\<rparr>" "w_faults fresh_world = []"
  by (simp_all add: fresh_world_def sample_world_def)

text \<open>The writer of originals plays no part in a run.\<close>

lemma clear_values_writer: "clear_values (sv\<lparr>sv_write := x\<rparr>) get ts = clear_values sv get ts"
  by (induction ts) (simp_all cong: if_cong option.case_cong sum.case_cong)

lemma steps_writer: "step_to (sv\<lparr>sv_write := x\<rparr>) = step_to sv" "pdf_bytes (sv\<lparr>sv_write := x\<rparr>) = pdf_bytes sv"
  "embedded (sv\<lparr>sv_write := x\<rparr>) = embedded sv" "anonymized (sv\<lparr>sv_write := x\<rparr>) = anonymized sv"
  "anonymize_payload (sv\<lparr>sv_write := x\<rparr>) = anonymize_payload sv" "store_text (sv\<lparr>sv_write := x\<rparr>) = store_text sv"
  "write_index (sv\<lparr>sv_write := x\<rparr>) = write_index sv" "save_box_map (sv\<lparr>sv_write := x\<rparr>) = save_box_map sv"
  by (simp_all add: fun_eq_iff step_to_def pdf_bytes_def embedded_def anonymized_def anonymize_payload_def store_text_def write_index_def
      save_box_map_def cong: option.case_cong located.case_cong)

lemma calls_writer: "extract_or_fail (sv\<lparr>sv_write := x\<rparr>) = extract_or_fail sv" "compute_box_map (sv\<lparr>sv_write := x\<rparr>) = compute_box_map sv"
  by (simp_all add: fun_eq_iff extract_or_fail_def compute_box_map_def steps_writer clear_values_writer cong: sum.case_cong option.case_cong)

lemma stages_writer: "profile_stage (sv\<lparr>sv_write := x\<rparr>) = profile_stage sv" "extract_stage (sv\<lparr>sv_write := x\<rparr>) = extract_stage sv"
  "anonymize_stage (sv\<lparr>sv_write := x\<rparr>) = anonymize_stage sv" "index_stage (sv\<lparr>sv_write := x\<rparr>) = index_stage sv"
  by (simp_all add: fun_eq_iff profile_stage_def extract_stage_def anonymize_stage_def index_stage_def steps_writer calls_writer
      cong: sum.case_cong option.case_cong)

lemma process_writer: "process (sv\<lparr>sv_write := x\<rparr>) = process sv"
  by (intro ext) (simp only: process_def stages_writer)

text \<open>A first delivery, up to the write.\<close>

lemma sample_arrival:
  "\<exists>d db w1. register_live tick_hash sample_time ''a'' (\<lambda>x. x) empty_corpus (keyed_delivery sample_ingest ''%PDF'' (sample_delivery [])) = Inr (d, db)
     \<and> counted 1 (audit db) \<and> dc_id d = ''a'' \<and> doc_state db ''a'' = Inr (Some REGISTERED) \<and> dossier_rows db = [] \<and> memberships db = []
     \<and> documents db = [d] \<and> live d
     \<and> sv_write sample_ingest (dc_id d) (original_key sample_ingest ''%PDF'') ''%PDF'' (fresh_world\<lparr>w_db := db\<rparr>) = (Inr WROTE, w1)
     \<and> w_db w1 = db \<and> w_faults w1 = [] \<and> w_store w1 = Plain (object_put sample_time \<lparr>ob_data = [], ob_modified = []\<rparr> (original_key sample_ingest ''%PDF'') ''%PDF'')"
proof -
  let ?dl = "keyed_delivery sample_ingest ''%PDF'' (sample_delivery [])"
  have none: "doc_state empty_corpus i = Inr None" for i
    by (simp add: empty_corpus_def doc_state_def current_state_def by_seq_def last_opt_def)
  have pre: "document_by_id empty_corpus ''a'' = None" "live_document_for empty_corpus (dl_object_key ?dl) = None" "(0 :: nat) < 64"
    by (simp_all add: empty_corpus_def document_by_id_def live_document_for_def)
  from register_possible [OF empty_counted pre(3) sample_time_ok(2) empty_corpus_ok pre(1,2) none]
  obtain d db a where r: "register_document tick_hash sample_time ''a'' empty_corpus ?dl = Inr (d, db)" "counted 1 (audit db)"
    "db = empty_corpus\<lparr>documents := [d], audit := a\<rparr>" "dc_id d = ''a''" "live d"
    by (auto simp: empty_corpus_def)
  then have "register_live tick_hash sample_time ''a'' (\<lambda>x. x) empty_corpus ?dl = Inr (d, db)"
    by (simp add: register_live_def pre(2))
  moreover have "doc_state db ''a'' = Inr (Some REGISTERED)"
    using register_document_ok [OF digest_tick empty_corpus_ok r(1)] by simp
  moreover have "dossier_rows db = []" "memberships db = []" "documents db = [d]" by (simp_all add: r(3) empty_corpus_def)
  ultimately show ?thesis
    using r by (simp add: writing_original_def peeking_def store_exists_def andthen_def on_store_def external_def write_original_def object_exists_def sample_config_def)
qed

lemma ingest_failure_keeps_witness:
  "\<exists>(w :: world) w'. transaction (ingest sample_ingest ''a'' ''s'' (\<lambda>x. x) ''%PDF'' (sample_delivery []) (Some ''alle'')) w = (Inl (DossierError ''all''), w')
     \<and> w_db w' = w_db w \<and> \<not> store_has w' (original_key sample_ingest ''%PDF'')"
proof -
  obtain d db w1 where a: "register_live tick_hash sample_time ''a'' (\<lambda>x. x) empty_corpus (keyed_delivery sample_ingest ''%PDF'' (sample_delivery [])) = Inr (d, db)"
    "sv_write sample_ingest (dc_id d) (original_key sample_ingest ''%PDF'') ''%PDF'' (fresh_world\<lparr>w_db := db\<rparr>) = (Inr WROTE, w1)"
    "w_db w1 = db" "w_faults w1 = []" "w_store w1 = Plain (object_put sample_time \<lparr>ob_data = [], ob_modified = []\<rparr> (original_key sample_ingest ''%PDF'') ''%PDF'')"
    using sample_arrival by blast
  have all: "ensure_dossier sample_time ''s'' (\<lambda>x. x) db ''alle'' = Inl (DossierError ''all'')"
  proof -
    have "strip ''alle'' = ''alle'' \<and> lower ''alle'' = ''alle''" by code_simp
    then show ?thesis by (simp add: ensure_dossier_def ALL_DOSSIERS_def Let_def)
  qed
  have filed: "file_under sample_ingest ''s'' (Some ''alle'') d w1 = (Inl (DossierError ''all''), w1)"
    using all a(3) by (simp add: file_under_def andthen_def on_db_def)
  obtain w2 where w2: "store_delete (original_key sample_ingest ''%PDF'') w1 = (Inr True, w2)" "\<not> store_has w2 (original_key sample_ingest ''%PDF'')"
    using a(4,5) by (simp add: store_delete_def on_store_def external_def with_objects_def store_objects_def object_delete_def object_put_def Let_def
        store_has_def object_exists_def)
  have run: "ingest sample_ingest ''a'' ''s'' (\<lambda>x. x) ''%PDF'' (sample_delivery []) (Some ''alle'') fresh_world = (Inl (DossierError ''all''), w2)"
    using a(1,2) filed w2(1) by (simp add: ingest_def andthen_def on_db_def handle_def undo_write_def)
  then have t: "transaction (ingest sample_ingest ''a'' ''s'' (\<lambda>x. x) ''%PDF'' (sample_delivery []) (Some ''alle'')) fresh_world
      = (Inl (DossierError ''all''), roll_back fresh_world w2)" by (simp add: transaction_def)
  have "w_db (roll_back fresh_world w2) = w_db fresh_world"
    using ingest_failure_keeps [OF sample_ingest_simps(3) t, of sample_dec "\<lambda>_. sample_wrap"] by blast
  with t w2(2) show ?thesis by (intro exI [of _ fresh_world] exI [of _ "roll_back fresh_world w2"]) simp
qed

text \<open>The legacy store, and the second delivery of its one document into a dossier whose name is reserved.\<close>

definition legacy_store :: originals where
  "legacy_store = \<lparr>og_rows = [], og_objects = \<lparr>ob_data = [(original_key sample_ingest ''%PDF'', ''%PDF'')], ob_modified = []\<rparr>, og_cache = []\<rparr>"

definition legacy_world :: world where
  "legacy_world = fresh_world\<lparr>w_store := Sealing legacy_store, w_faults := [Refused ObjectStoreError]\<rparr>"

lemma blind_ingest_loses_witness:
  "\<exists>(w' :: world) x. transaction (ingest sample_ingest ''a'' ''s'' (\<lambda>x. x) ''%PDF'' (sample_delivery []) (Some ''alle'')) legacy_world = (Inl (DossierError x), w')
     \<and> original_view sample_dec (\<lambda>_. sample_wrap) (w_store legacy_world) (original_key sample_ingest ''%PDF'') = Some ''%PDF''
     \<and> \<not> store_has w' (original_key sample_ingest ''%PDF'')"
proof -
  let ?key = "original_key sample_ingest ''%PDF''" and ?dl = "keyed_delivery sample_ingest ''%PDF'' (sample_delivery [])"
  obtain d db where a: "register_live tick_hash sample_time ''a'' (\<lambda>x. x) empty_corpus ?dl = Inr (d, db)" "dc_id d = ''a''"
    using sample_arrival by blast
  have w: "w_store legacy_world = Sealing legacy_store" "w_db legacy_world = empty_corpus" "w_faults legacy_world = [Refused ObjectStoreError]"
    by (simp_all add: legacy_world_def)
  have og: "dict_get (og_rows legacy_store) ?key = None" "object_get (og_objects legacy_store) ?key = Inr ''%PDF''"
    by (simp_all add: legacy_store_def object_get_def object_get_raw_def is_sealed_def SEALED_MAGIC_def)
  have "mint_key sample_hb ''m'' = \<lparr>k_id = ''id:maaaaaaaa'', k_material = ''m''\<rparr>" by (simp add: mint_key_def sample_hb_def eval_nat_numeral)
  then obtain og' where put: "put_original unread sample_hb sample_enc (\<lambda>_. sample_wrap) (\<lambda>_. sample_wrap) sample_config (replicate 12 (CHR ''x'')) ''m'' (\<lambda>x. x) DEFAULT_DOMAIN
      legacy_store ''a'' ?key ''%PDF'' = Inr (WROTE, og')"
    by (simp add: put_original_def unread_def og mint_row_def sample_wrap_def seal_and_write_def seal_def ascii_encode_def KEY_ID_LEN_def Let_def)
  have all: "ensure_dossier sample_time ''s'' (\<lambda>x. x) db ''alle'' = Inl (DossierError ''all'')"
  proof -
    have "strip ''alle'' = ''alle'' \<and> lower ''alle'' = ''alle''" by code_simp
    then show ?thesis by (simp add: ensure_dossier_def ALL_DOSSIERS_def Let_def)
  qed
  have "\<exists>w'. ingest sample_ingest ''a'' ''s'' (\<lambda>x. x) ''%PDF'' (sample_delivery []) (Some ''alle'') legacy_world = (Inl (DossierError ''all''), w')"
    using put
    by (simp add: ingest_def andthen_def on_db_def a w writing_original_def peeking_def on_store_def external_def Let_def write_original_def
        handle_def file_under_def all undo_write_def store_delete_def split: prod.split)
  then obtain w' where t: "transaction (ingest sample_ingest ''a'' ''s'' (\<lambda>x. x) ''%PDF'' (sample_delivery []) (Some ''alle'')) legacy_world = (Inl (DossierError ''all''), w')"
    by (auto simp: transaction_def)
  have "register_live (sv_hash sample_ingest) (sv_now sample_ingest) ''a'' (\<lambda>x. x) (w_db legacy_world) ?dl = Inr (d, db)" using a(1) w(2) by simp
  from blind_ingest_loses [OF sample_ingest_simps(3) w(1) og w(3) this t, of sample_dec "\<lambda>_. sample_wrap"] t show ?thesis by blast
qed

lemma ingest_result_witness:
  "\<exists>(w :: world) w' d. ingest sample_ingest ''a'' ''s'' (\<lambda>x. x) ''%PDF'' (sample_delivery []) (Some ''case'') w = (Inr d, w')
     \<and> live_document_for (w_db w') (original_key sample_ingest ''%PDF'') = Some d \<and> store_has w' (original_key sample_ingest ''%PDF'')"
proof -
  obtain d db w1 where a: "register_live tick_hash sample_time ''a'' (\<lambda>x. x) empty_corpus (keyed_delivery sample_ingest ''%PDF'' (sample_delivery [])) = Inr (d, db)"
    "counted 1 (audit db)" "dc_id d = ''a''" "doc_state db ''a'' = Inr (Some REGISTERED)" "dossier_rows db = []" "memberships db = []" "documents db = [d]" "live d"
    "sv_write sample_ingest (dc_id d) (original_key sample_ingest ''%PDF'') ''%PDF'' (fresh_world\<lparr>w_db := db\<rparr>) = (Inr WROTE, w1)" "w_db w1 = db"
    using sample_arrival by blast
  let ?ds = "\<lparr>ds_id = ''s'', ds_name = ''case'', ds_created_at = sample_time\<rparr>"
  let ?db = "db\<lparr>dossier_rows := [?ds]\<rparr>"
  have case_: "ensure_dossier sample_time ''s'' (\<lambda>x. x) db ''case'' = Inr (?ds, ?db)"
  proof -
    have "strip ''case'' = ''case'' \<and> lower ''case'' = ''case''" by code_simp
    then show ?thesis using a(5) by (simp add: ensure_dossier_def ALL_DOSSIERS_def Let_def dossier_by_name_def dossier_by_id_def)
  qed
  let ?db2 = "?db\<lparr>memberships := [(''s'', ''a'')]\<rparr>"
  have pre: "counted 1 (audit ?db2)" "(1 :: nat) < 64" "doc_state ?db2 ''a'' = Inr (Some REGISTERED)"
    using a(2,4) by (simp_all add: doc_state_def)
  from membership_possible [OF pre(1,2) sample_time_ok(2) pre(3)]
  obtain b where b: "membership_changed tick_hash sample_time ?db2 ''a'' ''s'' (name_of ?db2 ''s'') ADDED ''ingest'' None None = Inr (?db2\<lparr>audit := b\<rparr>)" by blast
  have "add_member tick_hash sample_time (\<lambda>x. x) ?db ''s'' ''a'' ''ingest'' None = Inr (True, ?db2\<lparr>audit := b\<rparr>)"
    using b a(3,6-8) by (simp add: add_member_def document_by_id_def dossier_by_id_def live_def Let_def)
  then have "file_under sample_ingest ''s'' (Some ''case'') d w1 = (Inr d, w1\<lparr>w_db := ?db2\<lparr>audit := b\<rparr>\<rparr>)"
    using case_ a(3,10) by (simp add: file_under_def andthen_def on_db_def)
  then have run: "ingest sample_ingest ''a'' ''s'' (\<lambda>x. x) ''%PDF'' (sample_delivery []) (Some ''case'') fresh_world = (Inr d, w1\<lparr>w_db := ?db2\<lparr>audit := b\<rparr>\<rparr>)"
    using a(1,9) by (simp add: ingest_def andthen_def on_db_def handle_def)
  have "digest64 (sv_hash sample_ingest)" "corpus_ok (sv_hash sample_ingest) (w_db fresh_world)" "commits_ok (sv_hash sample_ingest) (\<lambda>x. x)"
    by (simp_all add: commits_ok_def)
  from ingest_result [OF this sample_ingest_simps(3) run] run show ?thesis by blast
qed

lemma note_possible:
  assumes "counted k (audit db)" and "k < 64" and "aware now"
  shows "\<exists>a. note_event tick_hash now db doc s stp pl = Inr (db\<lparr>audit := a\<rparr>)"
  using counted_append [OF assms, of doc "Some (state_value s)" "state_value s" stp "Some pl"] by (auto simp: note_event_def)

lemma sample_again:
  assumes w: "sample_ready 6 (Some INDEXED) w"
  shows "\<exists>w'. reanonymize sample_services ''a'' w = (Inr (Some INDEXED), w')"
proof -
  let ?sv = "sample_services"
  obtain d where d: "document_by_id (w_db w) ''a'' = Some d" using w by (auto simp: sample_ready_def)
  have look: "lookup ''a'' w = (Inr (Some d, Some INDEXED), w)" using w d by (simp add: lookup_def on_db_def sample_ready_def)
  have pdf: "pdf_bytes ?sv (Some d) None w = (Inr ''%PDF'', w)" by (rule sample_read [OF w]) (simp add: d)
  obtain r where r: "deterministic_anonymize [] = Inr r" "an_text r = []" using sample_anonymize by blast
  have emb: "embedding (\<lambda>_. Inr [1]) t w = (Inr [1], w)" for t
    using w by (simp add: embedding_def external_def sample_ready_def)
  have retry: "m w = (Inr x, v) \<Longrightarrow> retry_transient m 3 1 w = (Inr x, v)" for m :: "(world, 'a) act" and x v
    by (simp add: retry_transient_def retry_with_delays_def numeral_3_eq_3)
  have emb3: "retry_transient (embedding (\<lambda>_. Inr [1]) t) 3 1 w = (Inr [1], w)" for t
    by (rule retry) (rule emb)
  have anon: "anonymized ?sv [] w = (Inr r, w)"
    unfolding anonymized_def sample_services_simps by (rule retry) (simp add: anonymizing_deterministic_def r)
  have ps: "each_passage (embedding (\<lambda>_. Inr [1])) 3 1 qs w = (Inr (map (\<lambda>_. [1]) qs), w)" for qs
    by (induction qs) (simp_all add: andthen_def emb3)
  have topics: "on_index (\<lambda>ix. (topics_of ix ''a'', ix)) w = (Inr (topics_of (w_index w) ''a''), w)"
    using w by (simp add: on_index_def external_def sample_ready_def)
  let ?ps = "map (\<lambda>_. [1 :: rat]) (passages [] WORDS STRIDE)"
  let ?w4 = "w\<lparr>w_index := index_put (w_index w) ''a'' [] (dc_object_key d) (Some [1]) (dossiers_of (w_db w) ''a'') ?ps (topics_of (w_index w) ''a'')\<rparr>"
  have put: "write_index ?sv ''a'' (Some d) [] [1] ?ps (topics_of (w_index w) ''a'') w = (Inr (), ?w4)"
    using w unfolding write_index_def sample_services_simps
    by (intro retry) (simp add: key_of_def on_index_def external_def sample_ready_def)
  let ?pl = "reanonymize_payload ?sv r (orphaned_tokens (registered (pseudonyms (w_db w)) ''a'') [])"
  have "counted 6 (audit (store_text ?sv ''a'' [] (w_db w)))" using w by (simp add: sample_ready_def store_text_def)
  from note_possible [OF this _ sample_time_ok(2), of "''a''" INDEXED "''reanonymize''" ?pl]
  obtain a where a: "note_event tick_hash sample_time (store_text ?sv ''a'' [] (w_db w)) ''a'' INDEXED ''reanonymize'' ?pl
      = Inr ((store_text ?sv ''a'' [] (w_db w))\<lparr>audit := a\<rparr>)" by auto
  show ?thesis
    using look pdf anon emb3 ps topics put a r
    by (simp add: reanonymize_def andthen_def sample_text embedded_def embed_passages_def on_db_def Let_def compute_box_map_def)
qed

lemma reanonymize_safe_witness:
  "\<exists>(w :: world) w'. transaction (reanonymize sample_services ''a'') w = (Inr (Some INDEXED), w') \<and> indexed_true ''a'' w'
     \<and> renewed_text sample_services ''a'' w w'"
proof -
  obtain w where w: "sample_ready 2 (Some REGISTERED) w" "texts_ok (anonymizer_output sample_services) (w_db w)"
    "index_ok (anonymizer_output sample_services) (w_index w)" using sample_ready_exists by blast
  obtain w1 where w1: "process sample_services ''a'' w = (Inr (Some INDEXED), w1)" "sample_ready 6 (Some INDEXED) w1" using sample_run [OF w(1)] by auto
  obtain s0 where "at_state (sv_hash sample_services) (anonymizer_output sample_services) ''a'' w s0 w"
    using at_start [of "sv_hash sample_services" w "anonymizer_output sample_services" "''a''"] w by (auto simp: sample_ready_def)
  from triple_run [OF wired_process [OF wired_sample] this w1(1)]
  have g: "corpus_ok (sv_hash sample_services) (w_db w1)" "texts_ok (anonymizer_output sample_services) (w_db w1)" "index_ok (anonymizer_output sample_services) (w_index w1)"
    by (simp_all add: at_state_def going_def)
  obtain w2 where "reanonymize sample_services ''a'' w1 = (Inr (Some INDEXED), w2)" using sample_again [OF w1(2)] by blast
  then have t: "transaction (reanonymize sample_services ''a'') w1 = (Inr (Some INDEXED), w2)" by (simp add: transaction_def)
  have dg: "digest64 (sv_hash sample_services)" by simp
  from reanonymize_safe [OF wired_sample dg g t] t show ?thesis by auto
qed

text \<open>A scan whose recovered bytes are a sealed original.\<close>

definition sealed_already :: originals where
  "sealed_already = \<lparr>og_rows = [(original_key sample_services ''text'', \<lparr>dk_object_key = original_key sample_services ''text'', dk_document_id = ''b'',
       dk_key_id = ''id:maaaaaaaa'', dk_kek_ref = ''kek'', dk_wrapped = ''m'', dk_sealed_at = Some sample_time\<rparr>)],
     og_objects = \<lparr>ob_data = [(''documents/1'', ''%PDF''), (original_key sample_services ''text'', sample_sealed)], ob_modified = []\<rparr>, og_cache = []\<rparr>"

lemma sealed_key: "original_key sample_services ''text'' \<noteq> ''documents/1''" "original_key sample_services ''text'' \<noteq> ''documents/2''"
proof -
  have "length (original_key sample_services ''text'') = 74" by (simp add: original_key_def digest64D [OF digest_tick])
  then show "original_key sample_services ''text'' \<noteq> ''documents/1''" "original_key sample_services ''text'' \<noteq> ''documents/2''" by auto
qed

lemma sample_recovery:
  "\<exists>(w :: world) w'. w_store w = Sealing sealed_already \<and> recover sample_services (\<lambda>_. ret ''text'') ''a'' w = (Inr EXTRACTABLE, w')"
proof -
  let ?sv = "sample_services" and ?key = "original_key sample_services ''text''"
  obtain db where db: "sample_corpus db" using sample_corpus_exists by blast
  then have ok: "corpus_ok tick_hash db" "counted 2 (audit db)" "doc_state db ''a'' = Inr (Some REGISTERED)" by (simp_all add: sample_corpus_def)
  obtain da dd where d: "documents db = [da, dd]" "dc_id da = ''a''" "dc_id dd = ''b''" "dc_object_key da = ''documents/1''" "dc_object_key dd = ''documents/2''"
    using db by (auto simp: sample_corpus_def map_eq_Cons_conv)
  obtain x a where t: "transition tick_hash sample_time db ''a'' UNPROCESSABLE_OCR ''profile'' None = Inr (Some x, db\<lparr>audit := a\<rparr>)" "counted 3 a"
    using transition_possible [OF ok(2) _ sample_time_ok(2) ok(3), of UNPROCESSABLE_OCR "''profile''" None] by auto
  let ?db = "db\<lparr>audit := a\<rparr>"
  have st: "doc_state ?db ''a'' = Inr (Some UNPROCESSABLE_OCR)" using transition_ok [OF digest_tick ok(1) t(1)] by simp
  define w where "w = (sample_world ?db)\<lparr>w_store := Sealing sealed_already\<rparr>"
  have w: "w_db w = ?db" "w_store w = Sealing sealed_already" "w_faults w = []" by (simp_all add: w_def sample_world_def)
  have doc: "document_by_id ?db ''a'' = Some da" using d by (simp add: document_by_id_def)
  have look: "lookup ''a'' w = (Inr (Some da, Some UNPROCESSABLE_OCR), w)" using st doc w by (simp add: lookup_def on_db_def)
  have "w\<lparr>w_store := Sealing sealed_already\<rparr> = w" using w(2) by simp
  moreover have "get_original dec unw cfg sealed_already ''documents/1'' = Inr (''%PDF'', sealed_already)" for dec unw and cfg :: key_config
    using sealed_key(1) by (simp add: get_original_def sealed_already_def object_get_raw_def is_sealed_def SEALED_MAGIC_def)
  ultimately have pdf: "pdf_bytes ?sv (Some da) None w = (Inr ''%PDF'', w)"
    using w by (simp add: pdf_bytes_def key_of_def d reading_original_def on_store_def external_def read_original_def)
  obtain st2 where put: "store_put sample_time ?key ''text'' w = (Inr (), w\<lparr>w_store := st2\<rparr>)"
    using w by (simp add: store_put_def on_store_def external_def)
  let ?db2 = "?db\<lparr>documents := map (\<lambda>x. if dc_id x = ''a'' then da\<lparr>dc_object_key := ?key\<rparr> else x) (documents ?db)\<rparr>"
  have upd: "update_document ?db (da\<lparr>dc_object_key := ?key\<rparr>) = Inr ?db2"
    using d sealed_key(2) by (simp add: update_document_def Let_def)
  have pre: "counted 3 (audit ?db2)" "(3 :: nat) < 64" "doc_state ?db2 ''a'' = Inr (Some UNPROCESSABLE_OCR)"
    using t(2) st by (simp_all add: doc_state_def)
  let ?pl = "JObj (metric_payload \<lparr>mc_chars = 0, mc_pages = 1, mc_bytes = length ''text'', mc_born_digital = True\<rparr>
      @ [(''old_object_key'', JStr (dc_object_key da)), (''new_object_key'', JStr ?key)])"
  obtain y db3 where fin: "transition tick_hash sample_time ?db2 ''a'' EXTRACTABLE ''ocr'' (Some ?pl) = Inr (Some y, db3)"
    using transition_possible [OF pre(1,2) sample_time_ok(2) pre(3), of EXTRACTABLE "''ocr''" "Some ?pl"] by auto
  have none: "live_document_for ?db ?key = None" using d sealed_key by (auto simp: live_document_for_def find_None_iff)
  have "settle_ocr ?sv ''a'' (Some da) ?key \<lparr>mc_chars = 0, mc_pages = 1, mc_bytes = length ''text'', mc_born_digital = True\<rparr> (w\<lparr>w_store := st2\<rparr>)
      = (Inr EXTRACTABLE, w\<lparr>w_store := st2, w_db := db3\<rparr>)"
    using none upd fin w by (simp add: settle_ocr_def repoint_def step_to_def on_db_def andthen_def del: One_nat_def)
  then have "recover ?sv (\<lambda>_. ret ''text'') ''a'' w = (Inr EXTRACTABLE, w\<lparr>w_store := st2, w_db := db3\<rparr>)"
    using look pdf put by (simp add: recover_def andthen_def sample_profile del: One_nat_def)
  with w(2) show ?thesis by blast
qed

lemma recover_downgrades_owner_witness:
  "\<exists>(w :: world) w'. recover sample_services (\<lambda>_. ret ''text'') ''a'' w = (Inr EXTRACTABLE, w')
     \<and> read_original (\<lambda>_ _ _ _. None) (\<lambda>_ _. Inl InvalidTag) sample_config (w_store w') (original_key sample_services ''text'') = Inl SealedObjectError"
proof -
  obtain w w' where w: "w_store w = Sealing sealed_already" "recover sample_services (\<lambda>_. ret ''text'') ''a'' w = (Inr EXTRACTABLE, w')"
    using sample_recovery by blast
  have rd: "sv_read sample_services = reading_original (\<lambda>_ _ _ _. None) (\<lambda>_ _. Inl InvalidTag) sample_config" by (rule ext) simp
  have plain: "\<not> is_sealed ''text''" by (simp add: is_sealed_def SEALED_MAGIC_def)
  have row: "dict_get (og_rows sealed_already) (original_key sample_services ''text'') = Some \<lparr>dk_object_key = original_key sample_services ''text'',
      dk_document_id = ''b'', dk_key_id = ''id:maaaaaaaa'', dk_kek_ref = ''kek'', dk_wrapped = ''m'', dk_sealed_at = Some sample_time\<rparr>"
    by (simp add: sealed_already_def)
  from recover_downgrades_owner [OF rd w _ plain row] w(2) show ?thesis by auto
qed

end
