(* ===== verification/Lifecycle.thy ===== *)
theory Lifecycle
  imports Deletion Ingestion
begin

text \<open>
  The life of a register: whatever sequence of ingests, pipeline runs, renewals, recoveries, supersessions, deletions and
  changes of dossiers it goes through, each in its own transaction and each possibly failing anywhere, it stays sound.
\<close>

definition sound :: "(string \<Rightarrow> string) \<Rightarrow> (string \<Rightarrow> bool) \<Rightarrow> world \<Rightarrow> bool" where
  "sound H P w = (corpus_ok H (w_db w) \<and> texts_ok P (w_db w) \<and> index_ok P (w_index w)
     \<and> (\<forall>i. doc_state (w_db w) i = Inr (Some DELETED) \<longrightarrow> wiped w i))"

text \<open>The index after operations that only take entries out of it, and tables in which nothing has been added to a deleted document.\<close>

definition shrinks :: "world \<Rightarrow> world \<Rightarrow> bool" where
  "shrinks w w' = (\<forall>i. dict_get (ix_docs (w_index w')) i = None \<or> dict_get (ix_docs (w_index w')) i = dict_get (ix_docs (w_index w)) i)"

definition calm :: "world \<Rightarrow> world \<Rightarrow> bool" where
  "calm w w' = (texts (w_db w') = texts (w_db w) \<and> pseudonyms (w_db w') = pseudonyms (w_db w)
     \<and> (\<forall>i. doc_state (w_db w') i = Inr (Some DELETED) \<longrightarrow> doc_state (w_db w) i = Inr (Some DELETED)))"

lemma shrinks_same: "w_index w' = w_index w \<Longrightarrow> shrinks w w'"
  by (simp add: shrinks_def)

lemma shrinks_trans: "shrinks a b \<Longrightarrow> shrinks b c \<Longrightarrow> shrinks a c"
  unfolding shrinks_def by metis

lemma shrinks_index: "shrinks w w' \<Longrightarrow> index_ok P (w_index w) \<Longrightarrow> index_ok P (w_index w')"
  unfolding shrinks_def index_ok_def by (metis option.distinct(1))

lemma shrinks_gone: "shrinks w w' \<Longrightarrow> \<not> index_exists (w_index w) i \<Longrightarrow> \<not> index_exists (w_index w') i"
  unfolding shrinks_def index_exists_def by metis

lemma calm_same: "w_db w' = w_db w \<Longrightarrow> calm w w'"
  by (simp add: calm_def)

lemma sound_calm:
  assumes "sound H P w" and "corpus_ok H (w_db w')" and "calm w w'" and "shrinks w w'"
  shows "sound H P w'"
  using assms shrinks_index [OF assms(4)] shrinks_gone [OF assms(4)]
  by (simp add: sound_def calm_def texts_ok_def wiped_def)

lemma sound_db: "sound H P w \<Longrightarrow> w_db w' = w_db w \<Longrightarrow> shrinks w w' \<Longrightarrow> sound H P w'"
  by (rule sound_calm) (simp_all add: sound_def calm_same)

text \<open>A transaction that fails leaves the tables, so the index alone decides.\<close>

lemma sound_transaction:
  assumes "sound H P w" and "transaction m w = (r, w')"
    and "\<And>x w1. m w = (Inr x, w1) \<Longrightarrow> sound H P w1" and "\<And>e w1. m w = (Inl e, w1) \<Longrightarrow> shrinks w w1"
  shows "sound H P w'"
proof -
  obtain w1 where w1: "m w = (r, w1)" "w' = (case r of Inl _ \<Rightarrow> roll_back w w1 | Inr _ \<Rightarrow> w1)" using retried [OF assms(2)] by blast
  show ?thesis
  proof (cases r)
    case (Inl e)
    then have "shrinks w w'" using assms(4) [of e w1] w1 by (simp add: shrinks_def)
    then show ?thesis using w1(2) Inl by (intro sound_db [OF assms(1)]) simp_all
  qed (use w1 assms(3) in simp)
qed

subsection \<open>Operations that only take out of the index\<close>

lemmas shrinks_andthen = keeps_andthen [where R = shrinks, OF shrinks_trans]

lemma shrinks_quiet: "(\<And>w. w_index (snd (m w)) = w_index w) \<Longrightarrow> keeps shrinks m"
  by (simp add: keeps_def shrinks_same)

lemma shrinks_ret: "keeps shrinks (ret x)" "keeps shrinks (reading f)" "keeps shrinks (raise_err e)"
  by (auto intro: shrinks_quiet)

lemma shrinks_on_db: "keeps shrinks (on_db f)"
  by (rule shrinks_quiet) (auto simp: on_db_def split: sum.splits)

lemma shrinks_on_store: "keeps shrinks (on_store f)"
  by (rule shrinks_quiet) (metis on_store_any surjective_pairing)

lemma shrinks_on_index:
  assumes "\<And>ix i. dict_get (ix_docs (snd (f ix))) i = None \<or> dict_get (ix_docs (snd (f ix))) i = dict_get (ix_docs ix) i"
  shows "keeps shrinks (on_index f)"
  unfolding keeps_def
proof
  fix w
  obtain r w' where m: "on_index f w = (r, w')" by fastforce
  show "shrinks w (snd (on_index f w))"
    unfolding shrinks_def
  proof
    fix i
    from on_index_any [OF m] m assms [of "w_index w" i]
    show "dict_get (ix_docs (w_index (snd (on_index f w)))) i = None
      \<or> dict_get (ix_docs (w_index (snd (on_index f w)))) i = dict_get (ix_docs (w_index w)) i" by auto
  qed
qed

lemma shrinks_index_steps: "keeps shrinks (on_index (\<lambda>ix. index_delete ix doc))" "keeps shrinks (on_index (\<lambda>ix. (g ix, ix)))"
    "keeps shrinks (on_index (\<lambda>ix. set_dossiers ix doc ds))"
  by (auto intro!: shrinks_on_index simp: index_delete_def set_dossiers_def)

lemmas shrinks_rules = shrinks_andthen shrinks_ret shrinks_on_db shrinks_on_store shrinks_index_steps

lemma delete_document_shrinks: "keeps shrinks (delete_document H now doc actor dry)"
  unfolding delete_document_def drop_entry_def drop_object_def store_exists_def store_delete_def
  by (auto intro!: shrinks_rules split: prod.split)

lemma supersede_shrinks: "keeps shrinks (supersede H now b copy survivor actor batch as_object)"
  unfolding supersede_def by (auto intro!: shrinks_rules split: prod.split)

lemma keeps_if: "keeps R m \<Longrightarrow> keeps R n \<Longrightarrow> keeps R (if b then m else n)"
  by simp

lemma shrinks_case_prod: "(\<And>a b. keeps shrinks (f a b)) \<Longrightarrow> keeps shrinks (case p of (a, b) \<Rightarrow> f a b)"
  by (cases p) simp

lemma delete_members_shrinks: "keeps shrinks (delete_members H now ds actor dry docs r)"
proof (induction docs arbitrary: r)
  case Nil
  obtain a b where "r = (a, b)" by (cases r)
  then show ?case unfolding delete_members.simps by (simp only:) (rule shrinks_ret)
next
  case (Cons doc docs)
  obtain a b where r: "r = (a, b)" by (cases r)
  show ?case
    unfolding r delete_members.simps
    by (intro shrinks_andthen shrinks_ret keeps_if Cons delete_document_shrinks)
qed

lemma release_members_shrinks: "keeps shrinks (release_members H now ds actor del docs)"
proof (induction docs)
  case Nil
  show ?case unfolding release_members.simps by (rule shrinks_ret)
next
  case (Cons doc docs)
  have "keeps shrinks (\<lambda>w. on_index (\<lambda>ix. set_dossiers ix doc (dossiers_of (w_db w) doc)) w)"
    using shrinks_index_steps(3) by (simp add: keeps_def)
  then show ?case
    unfolding release_members.simps
    by (intro shrinks_andthen shrinks_ret shrinks_on_db keeps_if Cons)
qed

lemma delete_dossier_shrinks: "keeps shrinks (delete_dossier H now ds actor dry)"
  unfolding delete_dossier_def
  by (intro shrinks_andthen shrinks_ret shrinks_on_db shrinks_case_prod keeps_if
      delete_members_shrinks release_members_shrinks)

lemma serves_mono: "pipeline_services sv P \<Longrightarrow> (\<And>t. P t \<Longrightarrow> Q t) \<Longrightarrow> pipeline_services sv Q"
  unfolding pipeline_services_def by (force split: sum.splits)

lemma handled_Inr: "handle m h w = (Inr x, w') \<Longrightarrow> m w = (Inr x, w') \<or> (\<exists>e w1. m w = (Inl e, w1) \<and> h e w1 = (Inr x, w'))"
  by (auto simp: handle_def split: prod.splits sum.splits)

lemma undo_raises: "undo_write sv data wrote e w \<noteq> (Inr x, w')"
  by (auto simp: undo_write_def andthen_def split: prod.splits sum.splits)

subsection \<open>Each operation keeps a register sound\<close>

lemma sound_kept:
  assumes "sound H P w" and "corpus_ok H (w_db w')" and "\<And>i. wiped w' i \<or> kept w w' i" and "shrinks w w'"
  shows "sound H P w'"
proof -
  have "P t" if "dict_get (texts (w_db w')) i = Some t" for i t
  proof -
    have "kept w w' i" using assms(3) [of i] that by (auto simp: wiped_def)
    then have "dict_get (texts (w_db w)) i = Some t" using that by (simp add: kept_def)
    then show ?thesis using assms(1) by (simp add: sound_def texts_ok_def)
  qed
  moreover have "wiped w' i" if "doc_state (w_db w') i = Inr (Some DELETED)" for i
  proof (rule ccontr)
    assume n: "\<not> wiped w' i"
    then have k: "kept w w' i" using assms(3) by blast
    then have "doc_state (w_db w) i = Inr (Some DELETED)" using that by (simp add: kept_def)
    then have "wiped w i" using assms(1) by (simp add: sound_def)
    from kept_wiped [OF k this] n show False by blast
  qed
  ultimately show ?thesis
    using shrinks_index [OF assms(4)] assms(1,2) by (simp add: sound_def texts_ok_def)
qed

lemma keeps_run: "keeps R m \<Longrightarrow> m w = (r, w') \<Longrightarrow> R w w'"
  by (auto simp: keeps_def dest: spec [of _ w])

lemma sound_delete:
  assumes "digest64 H" and "sound H P w" and "transaction (delete_document H now doc actor False) w = (r, w')"
  shows "sound H P w'"
proof (rule sound_transaction [OF assms(2,3)])
  fix c w1 assume m: "delete_document H now doc actor False w = (Inr c, w1)"
  have ok: "corpus_ok H (w_db w)" using assms(2) by (simp add: sound_def)
  note d = delete_document_kept [OF assms(1) ok m]
  have ok1: "corpus_ok H (w_db w1)" using d by (elim conjE)
  have "wiped w1 doc" using d by (elim conjE)
  moreover have k: "\<forall>i. i \<noteq> doc \<longrightarrow> kept w w1 i" using d by (elim conjE)
  ultimately have each: "wiped w1 i \<or> kept w w1 i" for i by (cases "i = doc") simp_all
  from each show "sound H P w1" by (rule sound_kept [OF assms(2) ok1]) (rule keeps_run [OF delete_document_shrinks m])
qed (rule keeps_run [OF delete_document_shrinks])

lemma sound_delete_dossier:
  assumes "digest64 H" and "sound H P w" and "transaction (delete_dossier H now ds actor False) w = (r, w')"
  shows "sound H P w'"
proof (rule sound_transaction [OF assms(2,3)])
  fix rep w1 assume m: "delete_dossier H now ds actor False w = (Inr rep, w1)"
  have ok: "corpus_ok H (w_db w)" using assms(2) by (simp add: sound_def)
  have ok1: "corpus_ok H (w_db w1)" using delete_dossier_ok [OF assms(1) ok m] by (elim conjE)
  have each: "\<forall>i. if i \<in> set (dr_deleted rep) then wiped w1 i else kept w w1 i"
    using delete_dossier_ok [OF assms(1) ok m] by (elim conjE)
  have "wiped w1 i \<or> kept w w1 i" for i using spec [OF each, of i] by (simp split: if_splits)
  then show "sound H P w1" by (rule sound_kept [OF assms(2) ok1]) (rule keeps_run [OF delete_dossier_shrinks m])
qed (rule keeps_run [OF delete_dossier_shrinks])

lemma supersede_sound:
  assumes "digest64 H" and "sound H P w" and "supersede H now b copy survivor actor batch as_object w = (Inr out, w1)"
  shows "sound H P w1 \<and> doc_state (w_db w1) copy \<in> {doc_state (w_db w) copy, Inr (Some SUPERSEDED)}"
proof -
  have ok: "corpus_ok H (w_db w)" using assms(2) by (simp add: sound_def)
  note c = supersede_cases [OF assms(1) ok assms(3)]
  have sh: "shrinks w w1" by (rule keeps_run [OF supersede_shrinks assms(3)])
  show ?thesis
  proof (cases "oc_superseded out")
    case True
    then have chk: "supersede_checks (w_db w) copy survivor as_object = Inr True"
      and ret: "retire H now copy survivor actor batch as_object (w_db w) = Inr ((oc_moved out, oc_removed out), w_db w1)"
      using c by auto
    from supersede_checks_True [OF chk] have ne: "copy \<noteq> survivor" "document_by_id (w_db w) survivor \<noteq> None" by blast+
    note f = retire_ok [OF assms(1) ok ne ret]
    then obtain dcs a ms where "w_db w1 = (w_db w)\<lparr>documents := dcs, audit := a, memberships := ms\<rparr>" by blast
    moreover have "doc_state (w_db w1) i = Inr (Some DELETED) \<Longrightarrow> doc_state (w_db w) i = Inr (Some DELETED)" for i
      using f by (cases "i = copy") auto
    ultimately have "calm w w1" by (simp add: calm_def)
    with f sh have "sound H P w1" by (intro sound_calm [OF assms(2)]) auto
    then show ?thesis using f by simp
  next
    case False
    then show ?thesis using c assms(2) by simp
  qed
qed

lemma sound_supersede:
  assumes "digest64 H" and "sound H P w" and "transaction (supersede H now b copy survivor actor batch as_object) w = (r, w')"
  shows "sound H P w'"
  by (rule sound_transaction [OF assms(2,3)])
    (rule conjunct1 [OF supersede_sound [OF assms(1,2)]] keeps_run [OF supersede_shrinks], assumption)+

text \<open>The dossiers.\<close>

lemma sound_on_db:
  assumes "sound H P w" and "on_db f w = (Inr x, w')"
    and "\<And>db. f (w_db w) = Inr (x, db) \<Longrightarrow> corpus_ok H db \<and> texts db = texts (w_db w) \<and> pseudonyms db = pseudonyms (w_db w) \<and> (\<forall>i. doc_state db i = doc_state (w_db w) i)"
  shows "sound H P w'"
proof -
  obtain db where db: "f (w_db w) = Inr (x, db)" "w' = w\<lparr>w_db := db\<rparr>" using assms(2) by (auto simp: on_db_Inr)
  from assms(3) [OF db(1)] show ?thesis
    unfolding db(2) by (intro sound_calm [OF assms(1)]) (simp_all add: calm_def shrinks_same)
qed

lemma sound_add_member:
  assumes "digest64 H" and "sound H P w" and "transaction (on_db (\<lambda>db. add_member H now (\<lambda>x. x) db ds doc actor batch)) w = (r, w')"
  shows "sound H P w'"
proof (rule sound_transaction [OF assms(2,3)])
  fix x w1 assume m: "on_db (\<lambda>db. add_member H now (\<lambda>x. x) db ds doc actor batch) w = (Inr x, w1)"
  have ok: "corpus_ok H (w_db w)" using assms(2) by (simp add: sound_def)
  show "sound H P w1"
  proof (rule sound_on_db [OF assms(2) m])
    fix db assume "add_member H now (\<lambda>x. x) (w_db w) ds doc actor batch = Inr (x, db)"
    note a = add_member_ok [OF assms(1) ok this]
    then have "same_but_members (w_db w) db" by blast
    from same_but_members_simps [OF this] a
    show "corpus_ok H db \<and> texts db = texts (w_db w) \<and> pseudonyms db = pseudonyms (w_db w) \<and> (\<forall>i. doc_state db i = doc_state (w_db w) i)" by simp
  qed
qed (rule keeps_run [OF shrinks_on_db])

lemma sound_remove_member:
  assumes "digest64 H" and "sound H P w" and "transaction (on_db (\<lambda>db. remove_member H now db ds doc actor reason batch)) w = (r, w')"
  shows "sound H P w'"
proof (rule sound_transaction [OF assms(2,3)])
  fix x w1 assume m: "on_db (\<lambda>db. remove_member H now db ds doc actor reason batch) w = (Inr x, w1)"
  have ok: "corpus_ok H (w_db w)" using assms(2) by (simp add: sound_def)
  show "sound H P w1"
  proof (rule sound_on_db [OF assms(2) m])
    fix db assume "remove_member H now (w_db w) ds doc actor reason batch = Inr (x, db)"
    note a = remove_member_ok [OF assms(1) ok this]
    then have "same_but_members (w_db w) db" by blast
    from same_but_members_simps [OF this] a
    show "corpus_ok H db \<and> texts db = texts (w_db w) \<and> pseudonyms db = pseudonyms (w_db w) \<and> (\<forall>i. doc_state db i = doc_state (w_db w) i)" by simp
  qed
qed (rule keeps_run [OF shrinks_on_db])

text \<open>Runs of the pipeline: a deleted document is not touched.\<close>

lemma process_deleted: "doc_state (w_db w) doc = Inr (Some DELETED) \<Longrightarrow> process sv doc w = (Inr (Some DELETED), w)"
  by (simp add: process_def lookup_def on_db_def andthen_def)

lemma reanonymize_deleted:
  assumes "doc_state (w_db w) doc = Inr (Some DELETED)" and "reanonymize sv doc w = (r, w')"
  shows "w' = w"
  using assms by (auto simp: reanonymize_def lookup_def on_db_def andthen_def split: if_splits)

lemma sound_going:
  assumes "sound H P w" and "going H P doc w w'" and "doc_state (w_db w) doc = Inr (Some DELETED) \<Longrightarrow> w' = w"
  shows "sound H P w'"
proof (cases "w' = w")
  case False
  have g: "corpus_ok H (w_db w')" "texts_ok P (w_db w')" "index_ok P (w_index w')" "others_same doc w w'"
    "doc_state (w_db w') doc = doc_state (w_db w) doc \<or> (\<exists>s\<in>WORK. doc_state (w_db w') doc = Inr (Some s))"
    using assms(2) by (simp_all add: going_def)
  have "wiped w' i" if i: "doc_state (w_db w') i = Inr (Some DELETED)" for i
  proof (cases "i = doc")
    case True
    then have "doc_state (w_db w) doc = Inr (Some DELETED)" using g(5) i by (auto simp: WORK_def)
    with assms(3) False show ?thesis by blast
  next
    case other: False
    then have "doc_state (w_db w) i = Inr (Some DELETED)" using g(4) i by (simp add: others_same_def)
    then have "wiped w i" using assms(1) by (simp add: sound_def)
    with i other g(4) show ?thesis by (simp add: wiped_def others_same_def index_exists_def)
  qed
  with g show ?thesis by (simp add: sound_def)
qed (use assms(1) in simp)

lemma sound_roll_back:
  assumes "sound H P w" and "going H P doc w w1" and "doc_state (w_db w) doc = Inr (Some DELETED) \<Longrightarrow> w1 = w"
  shows "sound H P (roll_back w w1)"
proof -
  have g: "index_ok P (w_index w1)" "others_same doc w w1" using assms(2) by (simp_all add: going_def)
  have "wiped (roll_back w w1) i" if i: "doc_state (w_db w) i = Inr (Some DELETED)" for i
  proof -
    have w: "wiped w i" using assms(1) i by (simp add: sound_def)
    have "index_exists (w_index w1) i = index_exists (w_index w) i"
      using g(2) assms(3) i by (cases "i = doc") (simp_all add: others_same_def index_exists_def)
    with w show ?thesis by (simp add: wiped_def)
  qed
  with g(1) assms(1) show ?thesis by (simp add: sound_def)
qed

lemma sound_run:
  assumes "digest64 H" and "sound H P w" and "transaction m w = (r, w')" and "\<And>s0. triple (at_state H P doc w s0) m (\<lambda>x. Q s0 x) (going H P doc w)"
    and "\<And>s0 x w1. Q s0 x w1 \<Longrightarrow> going H P doc w w1" and "\<And>r1 w1. doc_state (w_db w) doc = Inr (Some DELETED) \<Longrightarrow> m w = (r1, w1) \<Longrightarrow> w1 = w"
  shows "sound H P w'"
proof -
  have s: "corpus_ok H (w_db w)" "texts_ok P (w_db w)" "index_ok P (w_index w)" using assms(2) by (simp_all add: sound_def)
  obtain s0 where s0: "at_state H P doc w s0 w" using at_start [OF assms(1) s] by blast
  obtain w1 where w1: "m w = (r, w1)" "w' = (case r of Inl _ \<Rightarrow> roll_back w w1 | Inr _ \<Rightarrow> w1)" using retried [OF assms(3)] by blast
  from triple_run [OF assms(4) s0 w1(1)] have g: "going H P doc w w1" using assms(5) by (cases r) auto
  show ?thesis
  proof (cases r)
    case (Inl e)
    have "sound H P (roll_back w w1)" by (rule sound_roll_back [OF assms(2) g]) (rule assms(6) [OF _ w1(1)])
    then show ?thesis using w1(2) Inl by simp
  next
    case (Inr x)
    have "sound H P w1" by (rule sound_going [OF assms(2) g]) (rule assms(6) [OF _ w1(1)])
    then show ?thesis using w1(2) Inr by simp
  qed
qed

lemma wired_serves: "wired sv \<Longrightarrow> \<forall>t. anonymizer_output sv t \<longrightarrow> P t \<Longrightarrow> pipeline_services sv P"
  unfolding wired_def
  by (elim disjE exE; hypsubst)
     (rule serves_mono [OF det.pipeline_services_axioms] serves_mono [OF rev.pipeline_services_axioms]; simp)+

lemma sound_process:
  assumes "digest64 (sv_hash sv)" and "pipeline_services sv P" and "sound (sv_hash sv) P w" and "transaction (process sv doc) w = (r, w')"
  shows "sound (sv_hash sv) P w'"
  by (rule sound_run [OF assms(1,3,4) pipeline_services.process_held [OF assms(2)]]) (auto simp: at_state_def process_deleted)

lemma sound_reanonymize:
  assumes "digest64 (sv_hash sv)" and "pipeline_services sv P" and "sound (sv_hash sv) P w" and "transaction (reanonymize sv doc) w = (r, w')"
  shows "sound (sv_hash sv) P w'"
  by (rule sound_run [OF assms(1,3,4) pipeline_services.reanonymize_held [OF assms(2)]]) (auto simp: at_state_def dest: reanonymize_deleted)

text \<open>Arrivals: a new document is registered, a known one found.\<close>

lemma register_live_calm:
  assumes "digest64 H" and "corpus_ok H db" and "register_live H now i (\<lambda>x. x) db dl = Inr (d, db')"
  shows "corpus_ok H db' \<and> texts db' = texts db \<and> pseudonyms db' = pseudonyms db \<and> document_by_id db' (dc_id d) \<noteq> None
    \<and> (\<forall>j. doc_state db' j = Inr (Some DELETED) \<longrightarrow> doc_state db j = Inr (Some DELETED))"
proof (cases "live_document_for db (dl_object_key dl) = None")
  case True
  then have r: "register_document H now i db dl = Inr (d, db')"
    using assms(3) by (auto simp: register_live_def split: sum.splits if_splits)
  note o = register_document_ok [OF assms(1,2) r]
  then obtain a where a: "db' = db\<lparr>documents := documents db @ [d], audit := a\<rparr>" by blast
  have "doc_state db' j = Inr (Some DELETED) \<Longrightarrow> doc_state db j = Inr (Some DELETED)" for j using o by (cases "j = i") auto
  moreover have "document_by_id db' (dc_id d) \<noteq> None" by (simp add: a document_by_id_None)
  ultimately show ?thesis using o by (simp add: a)
next
  case False
  then have "live_document_for db (dl_object_key dl) = Some d" "db' = db" using assms(3) by (auto simp: register_live_def)
  then show ?thesis using live_document_Some [of db "dl_object_key dl" d] assms(2) by (auto simp: document_by_id_None)
qed

lemma file_under_tables:
  assumes "digest64 (sv_hash sv)" and "corpus_ok (sv_hash sv) (w_db w)" and "file_under sv ds dossier doc w = (Inr d, w')"
  shows "texts (w_db w') = texts (w_db w) \<and> pseudonyms (w_db w') = pseudonyms (w_db w)"
proof (cases "dossier = None \<or> dossier = Some []")
  case False
  then obtain n where n: "dossier = Some n" "n \<noteq> []" by auto
  obtain x db1 b db2 where r: "ensure_dossier (sv_now sv) ds (\<lambda>x. x) (w_db w) n = Inr (x, db1)"
    "add_member (sv_hash sv) (sv_now sv) (\<lambda>x. x) db1 (ds_id x) (dc_id doc) ''ingest'' None = Inr (b, db2)" "w' = w\<lparr>w_db := db2\<rparr>"
    using assms(3) n by (auto simp: file_under_def result_simps)
  note e = ensure_dossier_ok [OF assms(2) r(1)]
  obtain rows where rows: "db1 = (w_db w)\<lparr>dossier_rows := rows\<rparr>" using e by blast
  have c: "corpus_ok (sv_hash sv) db1" using e by blast
  have "same_but_members db1 db2" using add_member_ok [OF assms(1) c r(2)] by blast
  from same_but_members_simps [OF this] show ?thesis by (simp add: rows r(3))
qed (use assms(3) in \<open>auto simp: file_under_def\<close>)

lemma ingest_split:
  assumes "sv_write sv = writing_original HB enc wrap unwrap cfg nonce material domain" and "ingest sv i ds (\<lambda>x. x) data dl dossier w = (Inr doc, w')"
  obtains d w2 where "register_live (sv_hash sv) (sv_now sv) i (\<lambda>x. x) (w_db w) (keyed_delivery sv data dl) = Inr (d, w_db w2)"
    and "file_under sv ds dossier d w2 = (Inr doc, w')"
proof -
  obtain d db w1 wrote w2 where r: "register_live (sv_hash sv) (sv_now sv) i (\<lambda>x. x) (w_db w) (keyed_delivery sv data dl) = Inr (d, db)"
    "w1 = w\<lparr>w_db := db\<rparr>" "writing_original HB enc wrap unwrap cfg nonce material domain (dc_id d) (original_key sv data) data w1 = (Inr wrote, w2)"
    "handle (file_under sv ds dossier d) (undo_write sv data wrote) w2 = (Inr doc, w')"
    using assms(2) unfolding ingest_def by (fastforce simp: result_simps assms(1))
  have "w_db w2 = db" using writing_unharmed [OF r(3)] r(2) by simp
  moreover have "file_under sv ds dossier d w2 = (Inr doc, w')" using handled_Inr [OF r(4)] undo_raises by blast
  ultimately show ?thesis using r(1) by (intro that) simp_all
qed

text \<open>What an arrival leaves: no document it did not bring has another state, and the one it is about was found or is new.\<close>

lemma ingest_done:
  assumes "digest64 (sv_hash sv)" and "sound (sv_hash sv) P w"
    and wr: "sv_write sv = writing_original HB enc wrap unwrap cfg nonce material domain"
    and m: "ingest sv i ds (\<lambda>x. x) data dl dossier w = (Inr doc, w')"
  shows "sound (sv_hash sv) P w' \<and> w_index w' = w_index w
    \<and> (case live_document_for (w_db w) (original_key sv data) of
         Some d \<Rightarrow> doc = d \<and> (\<forall>j. doc_state (w_db w') j = doc_state (w_db w) j)
       | None \<Rightarrow> doc_state (w_db w') (dc_id doc) = Inr (Some REGISTERED))"
proof -
  obtain d w2 where r: "register_live (sv_hash sv) (sv_now sv) i (\<lambda>x. x) (w_db w) (keyed_delivery sv data dl) = Inr (d, w_db w2)"
    and f: "file_under sv ds dossier d w2 = (Inr doc, w')" using ingest_split [OF wr m] by blast
  have ok: "corpus_ok (sv_hash sv) (w_db w)" using assms(2) by (simp add: sound_def)
  note live = register_live_calm [OF assms(1) ok r]
  have ok2: "corpus_ok (sv_hash sv) (w_db w2)" "document_by_id (w_db w2) (dc_id d) \<noteq> None" using live by simp_all
  note filed = file_under_ok [OF assms(1) ok2 f]
  have c: "corpus_ok (sv_hash sv) (w_db w')" using filed by (elim conjE)
  have st: "\<forall>j. doc_state (w_db w') j = doc_state (w_db w2) j" using filed by (elim conjE)
  then have "calm w w'" using file_under_tables [OF assms(1) ok2(1) f] live by (simp add: calm_def)
  moreover have ix: "w_index w' = w_index w" using ingest_unharmed [OF wr m] by simp
  ultimately have "sound (sv_hash sv) P w'" using sound_calm [OF assms(2) c] by (simp add: shrinks_same)
  moreover have "case live_document_for (w_db w) (original_key sv data) of
         Some d \<Rightarrow> doc = d \<and> (\<forall>j. doc_state (w_db w2) j = doc_state (w_db w) j)
       | None \<Rightarrow> doc_state (w_db w2) (dc_id doc) = Inr (Some REGISTERED)"
  proof (cases "live_document_for (w_db w) (original_key sv data)")
    case None
    then have "register_document (sv_hash sv) (sv_now sv) i (w_db w) (keyed_delivery sv data dl) = Inr (d, w_db w2)"
      using r by (auto simp: register_live_def keyed_delivery_def split: sum.splits if_splits)
    from register_document_ok [OF assms(1) ok this] filed None show ?thesis by simp
  next
    case (Some e)
    then have "d = e" "w_db w2 = w_db w" using r by (auto simp: register_live_def keyed_delivery_def)
    then show ?thesis using filed Some by simp
  qed
  ultimately show ?thesis using ix st by (simp split: option.splits)
qed

lemma sound_ingest:
  assumes "digest64 (sv_hash sv)" and "sound (sv_hash sv) P w"
    and "sv_write sv = writing_original HB enc wrap unwrap cfg nonce material domain"
    and "transaction (ingest sv i ds (\<lambda>x. x) data dl dossier) w = (r, w')"
  shows "sound (sv_hash sv) P w'"
proof (rule sound_transaction [OF assms(2,4)])
  fix doc w3 assume "ingest sv i ds (\<lambda>x. x) data dl dossier w = (Inr doc, w3)"
  from ingest_done [OF assms(1-3) this] show "sound (sv_hash sv) P w3" by (elim conjE)
next
  fix e w3 assume "ingest sv i ds (\<lambda>x. x) data dl dossier w = (Inl e, w3)"
  from ingest_unharmed [OF assms(3) this] show "shrinks w w3" by (simp add: shrinks_same)
qed

text \<open>Recovery of a scan.\<close>

lemma shrinks_aside: "aside m \<Longrightarrow> keeps shrinks m"
  by (simp add: aside_def keeps_def shrinks_same)

lemma aside_sound: "aside m \<Longrightarrow> sound H P w \<Longrightarrow> m w = (r, w') \<Longrightarrow> sound H P w' \<and> w_db w' = w_db w"
  using sound_db [of H P w w'] by (auto simp: aside_def shrinks_same dest: spec [of _ w])

lemma pdf_bytes_aside: "(\<And>k. aside (sv_read sv k)) \<Longrightarrow> aside (pdf_bytes sv d raw)"
  by (auto simp: pdf_bytes_def key_of_def intro!: aside_rules split: option.split)

lemma settle_shrinks: "keeps shrinks (settle_ocr sv doc d k m)"
proof -
  have "keeps shrinks (repoint sv doc me k m)" for me
    unfolding repoint_def step_to_def by (intro shrinks_rules)
  moreover have "keeps shrinks (andthen (supersede H now b copy own actor batch key) (\<lambda>_. ret s))" for H now b copy own actor batch key s
    by (intro shrinks_rules supersede_shrinks)
  ultimately show ?thesis
    unfolding settle_ocr_def by (intro shrinks_rules) (auto simp: shrinks_ret split: option.split)
qed

lemma recover_shrinks:
  assumes "\<And>k. aside (sv_read sv k)" and "\<And>b. aside (ocr b)"
  shows "keeps shrinks (recover sv ocr doc)"
proof -
  have tail: "keeps shrinks (case profile_pdf (sv_pdf sv) x (sv_threshold sv) of Inl e \<Rightarrow> raise_err e
     | Inr m \<Rightarrow> if \<not> mc_born_digital m then andthen (on_db (f m)) (\<lambda>_. ret s) else andthen (store_put now (k x) x) (\<lambda>_. settle_ocr sv doc d (k x) m))"
    for x f s now k d
    unfolding store_put_def
    by (cases "profile_pdf (sv_pdf sv) x (sv_threshold sv)") (auto intro!: shrinks_rules settle_shrinks)
  show ?thesis
    unfolding recover_def lookup_def
    by (intro shrinks_rules shrinks_case_prod keeps_if tail shrinks_aside pdf_bytes_aside assms)
qed

lemma repoint_sound:
  assumes "digest64 (sv_hash sv)" and "sound (sv_hash sv) P w" and "document_by_id (w_db w) doc = Some me"
    and "repoint sv doc me k m w = (Inr s, w')"
  shows "sound (sv_hash sv) P w' \<and> doc_state (w_db w') doc = Inr (Some EXTRACTABLE)"
proof -
  have ok: "corpus_ok (sv_hash sv) (w_db w)" using assms(2) by (simp add: sound_def)
  have me: "dc_id me = doc" using document_by_id_Some [OF assms(3)] by simp
  obtain db1 x db2 where r: "update_document (w_db w) (me\<lparr>dc_object_key := k\<rparr>) = Inr db1" "w' = w\<lparr>w_db := db2\<rparr>"
    "transition (sv_hash sv) (sv_now sv) db1 doc EXTRACTABLE ''ocr'' (Some (JObj (metric_payload m
        @ [(''old_object_key'', JStr (dc_object_key me)), (''new_object_key'', JStr k)]))) = Inr (x, db2)"
    using assms(4) by (auto simp: repoint_def step_to_def result_simps)
  have "document_by_id (w_db w) (dc_id (me\<lparr>dc_object_key := k\<rparr>)) = Some me" using assms(3) me by simp
  note u = update_document_ok [OF ok this r(1)]
  then have "corpus_ok (sv_hash sv) db1" by (elim conjE)
  note t = transition_ok [OF assms(1) this r(3)]
  have c2: "corpus_ok (sv_hash sv) db2" using t by (elim conjE)
  have a2: "\<exists>a. db2 = db1\<lparr>audit := a\<rparr>" using t by (elim conjE)
  have s2: "\<forall>d. doc_state db2 d = (if d = doc then Inr (Some EXTRACTABLE) else doc_state db1 d)" using t by (elim conjE)
  obtain ds a where d2: "db2 = (w_db w)\<lparr>documents := ds, audit := a\<rparr>" using u a2 by fastforce
  have "doc_state db1 d = doc_state (w_db w) d" for d using u by (simp add: doc_state_def)
  with s2 d2 have "calm w w'" by (simp add: calm_def r(2))
  with c2 have "sound (sv_hash sv) P w'" by (intro sound_calm [OF assms(2)]) (simp_all add: r(2) shrinks_same)
  with s2 show ?thesis by (simp add: r(2))
qed

lemma settle_sound:
  assumes "digest64 (sv_hash sv)" and "sound (sv_hash sv) P w" and "document_by_id (w_db w) doc = d"
    and "settle_ocr sv doc d k m w = (Inr s, w')"
  shows "sound (sv_hash sv) P w' \<and> doc_state (w_db w') doc \<in> {doc_state (w_db w) doc, Inr (Some SUPERSEDED), Inr (Some EXTRACTABLE)}"
proof (cases d)
  case None
  then show ?thesis using assms(4) by (simp add: settle_ocr_def andthen_def split: option.splits)
next
  case (Some me)
  then consider "repoint sv doc me k m w = (Inr s, w')"
    | own out where "supersede (sv_hash sv) (sv_now sv) False doc own ''ocr'' None (Some k) w = (Inr out, w')"
    using assms(4) by (auto simp: settle_ocr_def andthen_Inr split: option.splits if_splits)
  then show ?thesis
  proof cases
    case 1
    have "document_by_id (w_db w) doc = Some me" using Some assms(3) by simp
    from repoint_sound [OF assms(1,2) this 1] show ?thesis by simp
  next
    case 2
    from supersede_sound [OF assms(1,2) this] show ?thesis by auto
  qed
qed

lemma metric_cases:
  assumes "(case r of Inl e \<Rightarrow> raise_err e | Inr m \<Rightarrow> f m) w = (Inr s, w')"
  obtains m where "r = Inr m" and "f m w = (Inr s, w')"
  using assms by (cases r) simp_all

lemma recover_done:
  assumes "digest64 (sv_hash sv)" and "sound (sv_hash sv) P w" and "\<And>k. aside (sv_read sv k)" and "\<And>b. aside (ocr b)"
    and m: "recover sv ocr doc w = (Inr s, w1)"
  shows "sound (sv_hash sv) P w1 \<and> doc_state (w_db w1) doc \<noteq> Inr (Some INDEXED)"
proof -
  obtain d where d: "doc_state (w_db w) doc = Inr (Some UNPROCESSABLE_OCR)" "d = document_by_id (w_db w) doc"
    and rest: "andthen (pdf_bytes sv d None) (\<lambda>pdf. andthen (ocr pdf) (\<lambda>ocr_bytes.
       case profile_pdf (sv_pdf sv) ocr_bytes (sv_threshold sv) of
         Inl e \<Rightarrow> raise_err e
       | Inr m \<Rightarrow>
           if \<not> mc_born_digital m then
             andthen (on_db (\<lambda>db. rbind (note_event (sv_hash sv) (sv_now sv) db doc UNPROCESSABLE_OCR ''ocr'' (JObj (metric_payload m)))
                (\<lambda>db. Inr ((), db)))) (\<lambda>_. ret UNPROCESSABLE_OCR)
           else
             andthen (store_put (sv_now sv) (original_key sv ocr_bytes) ocr_bytes) (\<lambda>_.
             settle_ocr sv doc d (original_key sv ocr_bytes) m))) w = (Inr s, w1)"
    using m by (auto simp: recover_def lookup_def andthen_Inr result_simps split: if_splits)
  obtain pdf w2 b w3 where w2: "pdf_bytes sv d None w = (Inr pdf, w2)" and w3: "ocr pdf w2 = (Inr b, w3)"
    and last: "(case profile_pdf (sv_pdf sv) b (sv_threshold sv) of Inl e \<Rightarrow> raise_err e
       | Inr m \<Rightarrow> if \<not> mc_born_digital m then
             andthen (on_db (\<lambda>db. rbind (note_event (sv_hash sv) (sv_now sv) db doc UNPROCESSABLE_OCR ''ocr'' (JObj (metric_payload m)))
                (\<lambda>db. Inr ((), db)))) (\<lambda>_. ret UNPROCESSABLE_OCR)
           else andthen (store_put (sv_now sv) (original_key sv b) b) (\<lambda>_. settle_ocr sv doc d (original_key sv b) m)) w3 = (Inr s, w1)"
    using rest unfolding andthen_Inr [of "pdf_bytes sv d None"] andthen_Inr [of "ocr _"] by (elim exE conjE) (rule that)
  obtain me where tail: "(if \<not> mc_born_digital me then
             andthen (on_db (\<lambda>db. rbind (note_event (sv_hash sv) (sv_now sv) db doc UNPROCESSABLE_OCR ''ocr'' (JObj (metric_payload me)))
                (\<lambda>db. Inr ((), db)))) (\<lambda>_. ret UNPROCESSABLE_OCR)
           else andthen (store_put (sv_now sv) (original_key sv b) b) (\<lambda>_. settle_ocr sv doc d (original_key sv b) me)) w3 = (Inr s, w1)"
    using last by (rule metric_cases)
  have s3: "sound (sv_hash sv) P w3" "w_db w3 = w_db w"
    using aside_sound [OF pdf_bytes_aside [OF assms(3)] assms(2) w2] aside_sound [OF assms(4) _ w3] by auto
  show ?thesis
  proof (cases "mc_born_digital me")
    case False
    then obtain db where db: "note_event (sv_hash sv) (sv_now sv) (w_db w3) doc UNPROCESSABLE_OCR ''ocr'' (JObj (metric_payload me)) = Inr db"
      "w1 = w3\<lparr>w_db := db\<rparr>" using tail by (auto simp: result_simps)
    have n: "corpus_ok (sv_hash sv) (w_db w3)" "doc_state (w_db w3) doc = Inr (Some UNPROCESSABLE_OCR)"
      using s3 d(1) by (simp_all add: sound_def)
    note e = note_event_ok [OF assms(1) n db(1)]
    then obtain a where "db = (w_db w3)\<lparr>audit := a\<rparr>" by blast
    moreover have "corpus_ok (sv_hash sv) db" using e by (elim conjE)
    moreover have st: "\<forall>i. doc_state db i = doc_state (w_db w3) i" using e by (elim conjE)
    ultimately have "sound (sv_hash sv) P w1" by (intro sound_calm [OF s3(1)]) (simp_all add: db(2) calm_def shrinks_same)
    then show ?thesis using st n(2) by (simp add: db(2))
  next
    case True
    then obtain w4 where w4: "store_put (sv_now sv) (original_key sv b) b w3 = (Inr (), w4)"
      and settle: "settle_ocr sv doc d (original_key sv b) me w4 = (Inr s, w1)"
      using tail by (auto simp: andthen_Inr)
    have "aside (store_put (sv_now sv) (original_key sv b) b)" by (simp add: store_put_def aside_on_store)
    from aside_sound [OF this s3(1) w4] s3(2) d(2) have w4: "sound (sv_hash sv) P w4" "document_by_id (w_db w4) doc = d" "w_db w4 = w_db w" by simp_all
    from settle_sound [OF assms(1) w4(1,2) settle] show ?thesis using d(1) w4(3) by auto
  qed
qed

lemma sound_recover:
  assumes "digest64 (sv_hash sv)" and "sound (sv_hash sv) P w" and "\<And>k. aside (sv_read sv k)" and "\<And>b. aside (ocr b)"
    and "transaction (recover sv ocr doc) w = (r, w')"
  shows "sound (sv_hash sv) P w'"
proof (rule sound_transaction [OF assms(2,5)])
  fix s w1 assume "recover sv ocr doc w = (Inr s, w1)"
  from recover_done [OF assms(1-4) this] show "sound (sv_hash sv) P w1" by (elim conjE)
qed (rule keeps_run [OF recover_shrinks [OF assms(3,4)]])

subsection \<open>Every reachable register\<close>

text \<open>
  One transaction of the program: what the handlers of the API and the workers do to a register, each call with services of
  its own, as long as they hash alike and their anonymizers' outputs are among \<open>P\<close>. Each may fail, at any call; \<open>faults\<close>
  is the network becoming better or worse in between.
\<close>

inductive tx :: "(string \<Rightarrow> string) \<Rightarrow> (string \<Rightarrow> bool) \<Rightarrow> world \<Rightarrow> world \<Rightarrow> bool" for H P where
  faults: "tx H P w (w\<lparr>w_faults := fs\<rparr>)"
| ingest: "tx H P w w'" if "sv_hash sv = H" and "sv_write sv = writing_original HB enc wrap unwrap (cfg :: key_config) nonce material domain"
    and "transaction (ingest sv i ds (\<lambda>x. x) data dl dossier) w = (r, w')"
| process: "tx H P w w'" if "sv_hash sv = H" and "wired sv" and "\<forall>t. anonymizer_output sv t \<longrightarrow> P t"
    and "transaction (process sv doc) w = (r, w')"
| reanonymize: "tx H P w w'" if "sv_hash sv = H" and "wired sv" and "\<forall>t. anonymizer_output sv t \<longrightarrow> P t"
    and "transaction (reanonymize sv doc) w = (r, w')"
| recover: "tx H P w w'" if "sv_hash sv = H" and "wired sv" and "\<forall>t. anonymizer_output sv t \<longrightarrow> P t" and "\<forall>b. aside (ocr b)"
    and "transaction (recover sv ocr doc) w = (r, w')"
| supersede: "tx H P w w'" if "transaction (supersede H now b copy survivor actor batch as_object) w = (r, w')"
| delete: "tx H P w w'" if "transaction (delete_document H now doc actor False) w = (r, w')"
| delete_dossier: "tx H P w w'" if "transaction (delete_dossier H now dossier actor False) w = (r, w')"
| add_member: "tx H P w w'" if "transaction (on_db (\<lambda>db. add_member H now (\<lambda>x. x) db dossier doc actor batch)) w = (r, w')"
| remove_member: "tx H P w w'" if "transaction (on_db (\<lambda>db. remove_member H now db dossier doc actor reason batch)) w = (r, w')"

inductive reachable :: "(string \<Rightarrow> string) \<Rightarrow> (string \<Rightarrow> bool) \<Rightarrow> world \<Rightarrow> bool" for H P where
  start: "w_db w = empty_corpus \<Longrightarrow> w_index w = empty_index \<Longrightarrow> reachable H P w"
| onward: "reachable H P w \<Longrightarrow> tx H P w w' \<Longrightarrow> reachable H P w'"

lemma tx_sound:
  assumes "digest64 H" and "tx H P w w'" and "sound H P w"
  shows "sound H P w'"
  using assms(2)
proof cases
  case (faults fs)
  then show ?thesis using assms(3) by (simp add: sound_def wiped_def)
next
  case ingest
  then show ?thesis using assms(1,3) sound_ingest by blast
next
  case process
  then show ?thesis using assms(1,3) sound_process wired_serves by blast
next
  case reanonymize
  then show ?thesis using assms(1,3) sound_reanonymize wired_serves by blast
next
  case (recover sv ocr doc r)
  have "aside (sv_read sv k)" for k using pipeline_services.reads [OF wired_serves [OF recover(2,3)]] .
  with recover assms(1,3) show ?thesis using sound_recover [of sv P w ocr doc r w'] by simp
next
  case supersede
  then show ?thesis using assms(1,3) sound_supersede by blast
next
  case delete
  then show ?thesis using assms(1,3) sound_delete by blast
next
  case delete_dossier
  then show ?thesis using assms(1,3) sound_delete_dossier by blast
next
  case add_member
  then show ?thesis using assms(1,3) sound_add_member by blast
next
  case remove_member
  then show ?thesis using assms(1,3) sound_remove_member by blast
qed

lemma sound_start:
  assumes "w_db w = empty_corpus" and "w_index w = empty_index"
  shows "sound H P w"
proof -
  have "doc_state empty_corpus i \<noteq> Inr (Some DELETED)" for i
    by (simp add: empty_corpus_def doc_state_def current_state_def by_seq_def last_opt_def)
  moreover have "texts_ok P empty_corpus" by (simp add: texts_ok_def empty_corpus_def)
  moreover have "index_ok P empty_index" by (simp add: index_ok_def empty_index_def)
  ultimately show ?thesis by (simp add: sound_def assms)
qed

text \<open>C1: Whatever a register goes through, ingests, pipeline runs, renewals, recoveries of scans, supersessions, deletions of
  documents and dossiers, changes of membership, in any order, with any of them failing at any external call, it stays
  sound: its tables keep their constraints and its trail verifies; every stored text and every text in the search index is
  something an anonymizer in use put out, never an original; and a document that is deleted has left no text, no pseudonym
  and no entry in the index behind, nor gets any later.
\<close>

theorem reachable_sound:
  assumes "digest64 H" and "reachable H P w"
  shows "corpus_ok H (w_db w) \<and> texts_ok P (w_db w) \<and> index_ok P (w_index w)
    \<and> {i. doc_state (w_db w) i = Inr (Some DELETED)} \<subseteq> {i. wiped w i}"
proof -
  have "sound H P w"
    using assms(2) by induction (auto intro: sound_start tx_sound [OF assms(1)])
  then show ?thesis by (auto simp: sound_def)
qed

text \<open>A life: a delivery arrives, is processed while the network fails, and is deleted.\<close>

lemma reachable_sound_witness:
  "\<exists>(w :: world) w1 w2 w3 d r c. transaction (ingest sample_ingest ''a'' ''s'' (\<lambda>x. x) ''%PDF'' (sample_delivery []) None) w = (Inr d, w1)
     \<and> transaction (process sample_services ''a'') w1 = (r, w2) \<and> transaction (delete_document tick_hash sample_time ''a'' ''me'' False) w2 = (c, w3)
     \<and> documents (w_db w1) = [d] \<and> corpus_ok tick_hash (w_db w3) \<and> texts_ok (anonymizer_output sample_services) (w_db w3)"
proof -
  let ?P = "anonymizer_output sample_services"
  obtain d db w1 where a: "register_live tick_hash sample_time ''a'' (\<lambda>x. x) empty_corpus (keyed_delivery sample_ingest ''%PDF'' (sample_delivery [])) = Inr (d, db)"
    "documents db = [d]" "sv_write sample_ingest (dc_id d) (original_key sample_ingest ''%PDF'') ''%PDF'' (fresh_world\<lparr>w_db := db\<rparr>) = (Inr WROTE, w1)" "w_db w1 = db"
    using sample_arrival by blast
  then have "ingest sample_ingest ''a'' ''s'' (\<lambda>x. x) ''%PDF'' (sample_delivery []) None fresh_world = (Inr d, w1)"
    by (simp add: ingest_def andthen_def on_db_def handle_def file_under_def)
  then have t1: "transaction (ingest sample_ingest ''a'' ''s'' (\<lambda>x. x) ''%PDF'' (sample_delivery []) None) fresh_world = (Inr d, w1)"
    by (simp add: transaction_def)
  obtain r w2 where t2: "transaction (process sample_services ''a'') w1 = (r, w2)" by fastforce
  obtain c w3 where t3: "transaction (delete_document tick_hash sample_time ''a'' ''me'' False) w2 = (c, w3)" by fastforce
  have "reachable tick_hash ?P fresh_world" by (rule reachable.start) (simp_all add: fresh_world_def sample_world_def)
  then have "reachable tick_hash ?P w1"
    by (rule reachable.onward) (rule tx.ingest [OF sample_ingest_simps(1) sample_ingest_simps(3) t1])
  then have "reachable tick_hash ?P w2"
    by (rule reachable.onward) (rule tx.process [OF _ wired_sample _ t2], simp_all)
  then have "reachable tick_hash ?P w3"
    by (rule reachable.onward) (rule tx.delete [OF t3])
  from reachable_sound [OF digest_tick this] t1 t2 t3 a(2,4) show ?thesis by blast
qed

end
