(* ===== verification/Caches.thy ===== *)
theory Caches
  imports Json
begin

text \<open>
  \<open>cache.py\<close>: the bounded cache, the embedder that goes through it and cached queries. A cache is what its \<open>get\<close> and
  \<open>set\<close> do to it, since a lookup also changes the order in which entries are evicted. The embedder behind the cache and the
  computation of a query are parameters, with a state of their own (\<open>'s\<close>) because they call out.
\<close>

subsection \<open>The bounded cache\<close>

record 'v lru =
  lru_max :: int
  lru_items :: "(string, 'v) dict"

definition lru_new :: "int \<Rightarrow> 'v lru result" where
  "lru_new maxsize = (if maxsize < 1 then Inl ValueError else Inr \<lparr>lru_max = maxsize, lru_items = []\<rparr>)"

definition move_to_end :: "string \<Rightarrow> (string, 'v) dict \<Rightarrow> (string, 'v) dict" where
  "move_to_end k d = (case dict_get d k of None \<Rightarrow> d | Some v \<Rightarrow> dict_pop k d @ [(k, v)])"

definition lru_get :: "'v lru \<Rightarrow> string \<Rightarrow> 'v option \<times> 'v lru" where
  "lru_get c k = (case dict_get (lru_items c) k of
     None \<Rightarrow> (None, c)
   | Some v \<Rightarrow> (Some v, c\<lparr>lru_items := move_to_end k (lru_items c)\<rparr>))"

text \<open>\<open>while len(store) > maxsize: popitem(last=False)\<close>\<close>

fun evict :: "int \<Rightarrow> (string, 'v) dict \<Rightarrow> (string, 'v) dict" where
  "evict m [] = []"
| "evict m (x # d) = (if int (length (x # d)) > m then evict m d else x # d)"

definition lru_set :: "string \<Rightarrow> 'v \<Rightarrow> 'v lru \<Rightarrow> 'v lru" where
  "lru_set k v c = c\<lparr>lru_items := evict (lru_max c) (move_to_end k (dict_set k v (lru_items c)))\<rparr>"

definition lru_invalidate :: "string \<Rightarrow> 'v lru \<Rightarrow> 'v lru" where
  "lru_invalidate prefix c = c\<lparr>lru_items := filter (\<lambda>(k, _). \<not> starts_with prefix k) (lru_items c)\<rparr>"

subsection \<open>Embedding through a cache\<close>

definition embedding_key :: "(string \<Rightarrow> string) \<Rightarrow> string \<Rightarrow> string \<Rightarrow> string" where
  "embedding_key H model text = ''emb:'' @ model @ '':'' @ H (utf8 text)"

text \<open>The first loop looks every text up, the second stores what was missing and fills the gaps in.\<close>

fun cache_scan :: "('c \<Rightarrow> string \<Rightarrow> 'v option \<times> 'c) \<Rightarrow> (string \<Rightarrow> string) \<Rightarrow> string list \<Rightarrow> 'c \<Rightarrow> 'v option list \<times> 'c" where
  "cache_scan cget key [] c = ([], c)"
| "cache_scan cget key (t # ts) c =
     (let (v, c) = cget c (key t); (vs, c) = cache_scan cget key ts c in (v # vs, c))"

fun cache_fill :: "(string \<Rightarrow> 'v \<Rightarrow> 'c \<Rightarrow> 'c) \<Rightarrow> (string \<Rightarrow> string) \<Rightarrow> 'v option list \<Rightarrow> string list \<Rightarrow> 'v list \<Rightarrow> 'c \<Rightarrow> 'v option list \<times> 'c" where
  "cache_fill cset key (Some v # vs) (t # ts) fresh c =
     (let (rs, c) = cache_fill cset key vs ts fresh c in (Some v # rs, c))"
| "cache_fill cset key (None # vs) (t # ts) (f # fresh) c =
     (let (rs, c) = cache_fill cset key vs ts fresh (cset (key t) f c) in (Some f # rs, c))"
| "cache_fill cset key vs ts fresh c = (vs, c)"

definition missing_texts :: "'v option list \<Rightarrow> string list \<Rightarrow> string list" where
  "missing_texts vs ts = map snd (filter (\<lambda>(v, t). v = None) (zip vs ts))"

definition caching_embed ::
    "('c \<Rightarrow> string \<Rightarrow> 'v option \<times> 'c) \<Rightarrow> (string \<Rightarrow> 'v \<Rightarrow> 'c \<Rightarrow> 'c) \<Rightarrow> (string \<Rightarrow> string) \<Rightarrow> (string list \<Rightarrow> 's \<Rightarrow> 'v list result \<times> 's)
      \<Rightarrow> string \<Rightarrow> string list \<Rightarrow> 'c \<times> 's \<Rightarrow> 'v option list result \<times> 'c \<times> 's" where
  "caching_embed cget cset H inner model texts = (\<lambda>(c, s).
     let key = embedding_key H model; (vs, c) = cache_scan cget key texts c; missing = missing_texts vs texts
     in if missing = [] then (Inr vs, c, s)
        else (case inner missing s of
            (Inl e, s) \<Rightarrow> (Inl e, c, s)
          | (Inr fresh, s) \<Rightarrow> (let (rs, c) = cache_fill cset key vs texts fresh c in (Inr rs, c, s))))"

subsection \<open>Cached queries\<close>

definition QUERY_PREFIX :: string where "QUERY_PREFIX = ''q:''"

definition query_key :: "string \<Rightarrow> int \<Rightarrow> int \<Rightarrow> string \<Rightarrow> string" where
  "query_key mode sz recall query = QUERY_PREFIX @ mode @ '':'' @ str_int sz @ '':'' @ str_int recall @ '':'' @ query"

definition cached_query ::
    "('c \<Rightarrow> string \<Rightarrow> 'v option \<times> 'c) \<Rightarrow> (string \<Rightarrow> 'v \<Rightarrow> 'c \<Rightarrow> 'c) \<Rightarrow> string \<Rightarrow> int \<Rightarrow> int \<Rightarrow> string \<Rightarrow> ('s \<Rightarrow> 'v result \<times> 's) \<Rightarrow> bool
      \<Rightarrow> 'c \<times> 's \<Rightarrow> 'v result \<times> 'c \<times> 's" where
  "cached_query cget cset mode sz recall query recompute bypass = (\<lambda>(c, s).
     let key = query_key mode sz recall query; (hit, c) = (if bypass then (None, c) else cget c key)
     in case hit of
          Some v \<Rightarrow> (Inr v, c, s)
        | None \<Rightarrow> (case recompute s of
              (Inl e, s) \<Rightarrow> (Inl e, c, s)
            | (Inr v, s) \<Rightarrow> (Inr v, cset key v c, s)))"

subsection \<open>What a cache has to promise\<close>

locale cache =
  fixes cget :: "'c \<Rightarrow> string \<Rightarrow> 'v option \<times> 'c" and cset :: "string \<Rightarrow> 'v \<Rightarrow> 'c \<Rightarrow> 'c"
    and entry :: "'c \<Rightarrow> string \<Rightarrow> 'v option" and ok :: "'c \<Rightarrow> bool"
  assumes get_entry: "ok c \<Longrightarrow> fst (cget c k) = entry c k"
    and get_keeps: "ok c \<Longrightarrow> entry (snd (cget c k)) k' = entry c k'"
    and get_ok: "ok c \<Longrightarrow> ok (snd (cget c k))"
    and set_entry: "ok c \<Longrightarrow> entry (cset k v c) k' = Some x \<Longrightarrow> (if k' = k then x = v else entry c k' = Some x)"
    and set_ok: "ok c \<Longrightarrow> ok (cset k v c)"
begin

definition holds_only :: "(string \<Rightarrow> 'v \<Rightarrow> bool) \<Rightarrow> 'c \<Rightarrow> bool" where
  "holds_only F c = (ok c \<and> (\<forall>k v. entry c k = Some v \<longrightarrow> F k v))"

lemma get_holds:
  assumes "holds_only F c" and "cget c k = (r, c')"
  shows "holds_only F c' \<and> (\<forall>v. r = Some v \<longrightarrow> F k v)"
proof -
  have c: "ok c" "\<And>k v. entry c k = Some v \<Longrightarrow> F k v" using assms(1) by (simp_all add: holds_only_def)
  have r: "r = entry c k" using get_entry [OF c(1), of k] assms(2) by simp
  have e: "entry c' k' = entry c k'" for k' using get_keeps [OF c(1), of k k'] assms(2) by simp
  have "ok c'" using get_ok [OF c(1), of k] assms(2) by simp
  then show ?thesis unfolding holds_only_def r e using c(2) by blast
qed

lemma set_holds: "holds_only F c \<Longrightarrow> F k v \<Longrightarrow> holds_only F (cset k v c)"
  unfolding holds_only_def
proof (elim conjE, intro conjI allI impI)
  fix k' x assume a: "ok c" "\<forall>k v. entry c k = Some v \<longrightarrow> F k v" "F k v" "entry (cset k v c) k' = Some x"
  from set_entry [OF a(1,4)] a(2,3) show "F k' x" by (cases "k' = k") simp_all
qed (rule set_ok)

lemma scan_holds:
  "holds_only F c \<Longrightarrow> cache_scan cget key ts c = (vs, c') \<Longrightarrow>
     holds_only F c' \<and> list_all2 (\<lambda>v t. \<forall>x. v = Some x \<longrightarrow> F (key t) x) vs ts"
proof (induction ts arbitrary: c vs c')
  case (Cons t ts)
  obtain v c1 where v: "cget c (key t) = (v, c1)" by fastforce
  obtain ws c2 where ws: "cache_scan cget key ts c1 = (ws, c2)" by fastforce
  from get_holds [OF Cons.prems(1) v] Cons.IH [OF _ ws] Cons.prems(2) v ws show ?case by auto
qed simp

lemma fill_holds:
  "holds_only F c \<Longrightarrow> list_all2 (\<lambda>v t. \<forall>x. v = Some x \<longrightarrow> x = f t) vs ts \<Longrightarrow> (\<And>t. t \<in> set ts \<Longrightarrow> F (key t) (f t))
     \<Longrightarrow> cache_fill cset key vs ts (map f (missing_texts vs ts)) c = (rs, c') \<Longrightarrow> rs = map (Some \<circ> f) ts \<and> holds_only F c'"
proof (induction vs ts arbitrary: c rs c' rule: list_induct2')
  case (4 v vs t ts)
  obtain qs c2 where qs: "cache_fill cset key vs ts (map f (missing_texts vs ts)) (case v of None \<Rightarrow> cset (key t) (f t) c | Some _ \<Rightarrow> c) = (qs, c2)"
    by fastforce
  have "holds_only F (case v of None \<Rightarrow> cset (key t) (f t) c | Some _ \<Rightarrow> c)"
    using 4 by (cases v) (simp_all add: set_holds)
  from "4.IH" [OF this _ _ qs] "4.prems" qs show ?case
    by (cases v) (auto simp: missing_texts_def)
qed (auto simp: missing_texts_def)

lemma embed_holds:
  assumes "holds_only F c" and "\<And>t v. t \<in> set ts \<Longrightarrow> F (embedding_key H model t) v \<longleftrightarrow> v = f t"
    and "\<And>ms s r s'. set ms \<subseteq> set ts \<Longrightarrow> inner ms s = (Inr r, s') \<Longrightarrow> r = map f ms"
    and "caching_embed cget cset H inner model ts (c, s) = (r, c', s')"
  shows "holds_only F c' \<and> (case r of Inr vs \<Rightarrow> vs = map (Some \<circ> f) ts
     | Inl e \<Rightarrow> (\<exists>ms. ms \<noteq> [] \<and> set ms \<subseteq> set ts \<and> inner ms s = (Inl e, s')))"
proof -
  let ?key = "embedding_key H model"
  obtain vs c1 where vs: "cache_scan cget ?key ts c = (vs, c1)" by fastforce
  let ?m = "missing_texts vs ts"
  from scan_holds [OF assms(1) vs] have h: "holds_only F c1" "list_all2 (\<lambda>v t. \<forall>x. v = Some x \<longrightarrow> F (?key t) x) vs ts" by blast+
  have all: "list_all2 (\<lambda>v t. \<forall>x. v = Some x \<longrightarrow> x = f t) vs ts"
    by (rule list.rel_mono_strong [OF h(2)]) (use assms(2) in blast)
  have m: "set ?m \<subseteq> set ts" by (auto simp: missing_texts_def dest: set_zip_rightD)
  show ?thesis
  proof (cases "?m = []")
    case True
    obtain qs c2 where f: "cache_fill cset ?key vs ts (map f ?m) c1 = (qs, c2)" by fastforce
    have "vs = map (Some \<circ> f) ts" using True all unfolding missing_texts_def
      by (induction vs ts rule: list_induct2') (auto split: if_splits)
    with True h(1) vs assms(4) show ?thesis by (auto simp: caching_embed_def Let_def)
  next
    case False
    obtain q s1 where q: "inner ?m s = (q, s1)" by fastforce
    show ?thesis
    proof (cases q)
      case (Inl e)
      with False q h(1) vs assms(4) m show ?thesis by (auto simp: caching_embed_def Let_def)
    next
      case (Inr fresh)
      then have fresh: "fresh = map f ?m" using assms(3) [OF m] q by simp
      obtain qs c2 where f: "cache_fill cset ?key vs ts (map f ?m) c1 = (qs, c2)" by fastforce
      from fill_holds [OF h(1) all _ f] assms(2) have "qs = map (Some \<circ> f) ts \<and> holds_only F c2" by blast
      with False q Inr fresh f vs assms(4) show ?thesis by (auto simp: caching_embed_def Let_def)
    qed
  qed
qed

lemma query_holds:
  assumes "holds_only F c" and "\<And>v s'. recompute s = (Inr v, s') \<Longrightarrow> F (query_key mode sz rec q) v"
    and "cached_query cget cset mode sz rec q recompute b (c, s) = (r, c', s')"
  shows "holds_only F c' \<and> (case r of Inr v \<Rightarrow> F (query_key mode sz rec q) v | Inl e \<Rightarrow> recompute s = (Inl e, s'))"
proof -
  obtain hit c1 where hit: "(if b then (None, c) else cget c (query_key mode sz rec q)) = (hit, c1)" by fastforce
  then have h: "holds_only F c1 \<and> (\<forall>v. hit = Some v \<longrightarrow> F (query_key mode sz rec q) v)"
    using get_holds [OF assms(1)] assms(1) by (auto split: if_splits)
  show ?thesis
  proof (cases hit)
    case (Some v)
    with hit h assms(3) show ?thesis by (auto simp: cached_query_def Let_def)
  next
    case None
    obtain x s1 where x: "recompute s = (x, s1)" by fastforce
    with None hit h assms(2,3) show ?thesis
      by (cases x) (auto simp: cached_query_def Let_def intro: set_holds)
  qed
qed

end

subsection \<open>The bounded cache keeps the promise\<close>

definition lru_ok :: "'v lru \<Rightarrow> bool" where
  "lru_ok c = (1 \<le> lru_max c \<and> dict_wf (lru_items c) \<and> int (length (lru_items c)) \<le> lru_max c)"

definition lru_entry :: "'v lru \<Rightarrow> string \<Rightarrow> 'v option" where
  "lru_entry c k = dict_get (lru_items c) k"

lemma lru_new_ok: "lru_new m = Inr c \<Longrightarrow> lru_ok c"
  by (auto simp: lru_new_def lru_ok_def split: if_splits)

lemma evict_drop: "evict m d = drop (length d - nat m) d"
  by (induction m d rule: evict.induct) (auto simp: nat_le_iff Suc_diff_le drop_Cons' split: if_splits)

lemma evict_fits: "0 \<le> m \<Longrightarrow> int (length (evict m d)) \<le> m"
  by (induction m d rule: evict.induct) auto

lemma drop_entry_old:
  assumes "dict_wf d" and "dict_get (drop n d) k = Some v"
  shows "dict_get d k = Some v"
  using assms in_set_dropD [of "(k, v)" n d] by (auto simp: dict_wf_def dest: map_of_SomeD)

lemma dict_wf_drop: "dict_wf d \<Longrightarrow> dict_wf (drop n d)"
  by (simp add: dict_wf_def flip: drop_map)

lemma move_to_end_get [simp]: "dict_get (move_to_end k d) k' = dict_get d k'"
  by (cases "dict_get d k") (auto simp: move_to_end_def map_add_def split: option.split)

lemma move_to_end_keys: "dict_get d k = Some v \<Longrightarrow> map fst (move_to_end k d) = removeAll k (map fst d) @ [k]"
  by (simp add: move_to_end_def delete_keys)

lemma move_to_end_wf: "dict_wf d \<Longrightarrow> dict_wf (move_to_end k d)"
  by (cases "dict_get d k") (simp add: move_to_end_def, simp add: dict_wf_def move_to_end_keys distinct_removeAll)

lemma move_to_end_length:
  assumes "dict_wf d"
  shows "length (move_to_end k d) = length d"
proof (cases "dict_get d k")
  case (Some v)
  then have "k \<in> set (map fst d)" by (force dest: map_of_SomeD)
  then have "length (removeAll k (map fst d)) = length d - 1"
    using assms by (simp add: dict_wf_def length_remove1 flip: distinct_remove1_removeAll)
  moreover have "length d \<noteq> 0" using Some by auto
  ultimately have "length (map fst (move_to_end k d)) = length d" by (simp add: move_to_end_keys [OF Some])
  then show ?thesis by simp
qed (simp add: move_to_end_def)

interpretation lru: cache lru_get lru_set lru_entry lru_ok
proof
  fix c :: "'v lru" and k k' :: string and v x :: 'v
  assume ok: "lru_ok c"
  show "fst (lru_get c k) = lru_entry c k" "lru_entry (snd (lru_get c k)) k' = lru_entry c k'"
    by (simp_all add: lru_get_def lru_entry_def split: option.split)
  show "lru_ok (snd (lru_get c k))"
    using ok by (simp add: lru_get_def lru_ok_def move_to_end_wf move_to_end_length split: option.split)
  have wf: "dict_wf (move_to_end k (dict_set k v (lru_items c)))" using ok by (simp add: lru_ok_def move_to_end_wf)
  then show "lru_ok (lru_set k v c)"
    using ok evict_fits [of "lru_max c"] by (auto simp: lru_set_def lru_ok_def evict_drop dict_wf_drop)
  show "if k' = k then x = v else lru_entry c k' = Some x" if "lru_entry (lru_set k v c) k' = Some x"
  proof -
    have "dict_get (move_to_end k (dict_set k v (lru_items c))) k' = Some x"
      by (rule drop_entry_old [OF wf]) (use that in \<open>simp add: lru_set_def lru_entry_def evict_drop\<close>)
    then show ?thesis by (auto simp: lru_entry_def split: if_splits)
  qed
qed

text \<open>Going through the cache changes no embedding. As long as the model's answer for a text is one and the same vector and no
  two of the texts collide under the hash, the vectors that come back are the model's own for every text, cached or not, in
  the order of the texts; the cache holds nothing but such vectors afterwards and never outgrows its bound; and when the model
  raises, so does this, with nothing half-computed stored.
\<close>

theorem caching_embed_same:
  assumes "lru_ok c" and "inj_on (\<lambda>t. H (utf8 t)) T" and "set ts \<subseteq> T"
    and "\<And>t v. t \<in> T \<Longrightarrow> lru_entry c (embedding_key H model t) = Some v \<Longrightarrow> v = f t"
    and "\<And>ms s r s'. set ms \<subseteq> set ts \<Longrightarrow> inner ms s = (Inr r, s') \<Longrightarrow> r = map f ms"
    and "caching_embed lru_get lru_set H inner model ts (c, s) = (r, c', s')"
  shows "lru_ok c' \<and> {(t, v). t \<in> T \<and> lru_entry c' (embedding_key H model t) = Some v} \<subseteq> {(t, f t) | t. t \<in> T}
    \<and> (case r of Inr vs \<Rightarrow> vs = map (Some \<circ> f) ts
       | Inl e \<Rightarrow> (\<exists>ms. ms \<noteq> [] \<and> set ms \<subseteq> set ts \<and> inner ms s = (Inl e, s')))"
proof -
  define F where "F k v = (\<forall>t\<in>T. embedding_key H model t = k \<longrightarrow> v = f t)" for k v
  have "inj_on (embedding_key H model) T" using assms(2) by (simp add: embedding_key_def inj_on_def)
  then have F: "F (embedding_key H model t) v \<longleftrightarrow> v = f t" if "t \<in> set ts" for t v
    using assms(3) that by (auto simp: F_def dest: inj_onD)
  have "lru.holds_only F c" using assms(1,4) by (auto simp: lru.holds_only_def F_def)
  from lru.embed_holds [OF this F assms(5,6)] show ?thesis
    by (auto simp: lru.holds_only_def F_def)
qed

text \<open>Two texts embedded twice over a cache of one entry.\<close>

lemma caching_embed_same_witness:
  "\<exists>(c :: nat lru) c' s'. lru_new 1 = Inr c
     \<and> caching_embed lru_get lru_set (\<lambda>x. x) (\<lambda>ms n. (Inr (map length ms), Suc n)) ''m'' [''one'', ''three''] (c, 0 :: nat) = (Inr [Some 3, Some 5], c', s') \<and> lru_ok c'"
proof -
  define c :: "nat lru" where "c = \<lparr>lru_max = 1, lru_items = []\<rparr>"
  let ?run = "caching_embed lru_get lru_set (\<lambda>x. x) (\<lambda>ms n. (Inr (map length ms), Suc n)) ''m'' [''one'', ''three''] (c, 0 :: nat)"
  obtain r c' s' where run: "?run = (r, c', s')" by (cases ?run)
  have ok: "lru_ok c" by (simp add: c_def lru_ok_def)
  have inj: "inj_on (\<lambda>t. utf8 t) {''one'', ''three''}" by (simp add: inj_on_def)
  have t: "lru_ok c' \<and> (case r of Inr vs \<Rightarrow> vs = map (Some \<circ> length) [''one'', ''three'']
      | Inl e \<Rightarrow> (\<exists>ms. ms \<noteq> [] \<and> set ms \<subseteq> set [''one'', ''three''] \<and> (Inr (map length ms) :: nat list result, Suc 0) = (Inl e, s')))"
    using caching_embed_same [OF ok inj _ _ _ run, of length] by (simp add: c_def lru_entry_def)
  then show ?thesis using run by (intro exI [of _ c] exI [of _ c'] exI [of _ s']) (auto simp: lru_new_def c_def split: sum.splits)
qed

subsection \<open>What the bounded cache keeps\<close>

datatype 'v cache_op = Lookup string | Store string 'v

fun op_key :: "'v cache_op \<Rightarrow> string" where
  "op_key (Lookup k) = k"
| "op_key (Store k v) = k"

fun cache_step :: "'v lru \<Rightarrow> 'v cache_op \<Rightarrow> 'v lru" where
  "cache_step c (Lookup k) = snd (lru_get c k)"
| "cache_step c (Store k v) = lru_set k v c"

text \<open>The entries that come after a key's are of keys used since.\<close>

definition behind :: "string \<Rightarrow> 'v \<Rightarrow> string set \<Rightarrow> 'v lru \<Rightarrow> bool" where
  "behind k v U c = (lru_ok c \<and> (\<exists>pre post. lru_items c = pre @ (k, v) # post \<and> fst ` set post \<subseteq> U))"

lemma pop_append: "dict_pop k (xs @ ys) = dict_pop k xs @ dict_pop k ys"
  by (induction xs) simp_all

lemma set_then_end: "move_to_end k (dict_set k v d) = dict_pop k d @ [(k, v)]"
  by (simp add: move_to_end_def delete_update_same)

lemma behind_lookup:
  assumes "behind k v W c"
  shows "behind k v (insert j W) (snd (lru_get c j))"
proof -
  obtain pre post where d: "lru_items c = pre @ (k, v) # post" "fst ` set post \<subseteq> W" using assms by (auto simp: behind_def)
  have "lru_ok c" using assms by (simp add: behind_def)
  from lru.get_ok [OF this] have ok: "lru_ok (snd (lru_get c j))" .
  have wf: "dict_wf (pre @ (k, v) # post)" using assms d(1) by (simp add: behind_def lru_ok_def)
  show ?thesis
  proof (cases "dict_get (lru_items c) j")
    case None
    then have "snd (lru_get c j) = c" by (simp add: lru_get_def)
    with ok d show ?thesis by (auto simp: behind_def)
  next
    case (Some w)
    then have i: "lru_items (snd (lru_get c j)) = dict_pop j (lru_items c) @ [(j, w)]" by (simp add: lru_get_def move_to_end_def)
    have "dict_get (pre @ (k, v) # post) k = Some v" using dict_wf_mem [OF wf, of k v] by simp
    then have wv: "j = k \<Longrightarrow> w = v" using Some d(1) by simp
    have "\<exists>pre' post'. lru_items (snd (lru_get c j)) = pre' @ (k, v) # post' \<and> fst ` set post' \<subseteq> insert j W"
    proof (cases "j = k")
      case True
      then have "lru_items (snd (lru_get c j)) = dict_pop j (pre @ post) @ (k, v) # []" using i wv d(1) by (simp add: pop_append)
      moreover have "fst ` set [] \<subseteq> insert j W" by simp
      ultimately show ?thesis by blast
    next
      case False
      then have "lru_items (snd (lru_get c j)) = dict_pop j pre @ (k, v) # dict_pop j post @ [(j, w)]" using i d(1) by (simp add: pop_append)
      moreover have "fst ` set (dict_pop j post @ [(j, w)]) \<subseteq> insert j W" using d(2) by (auto simp: AList.delete_eq)
      ultimately show ?thesis by blast
    qed
    with ok show ?thesis unfolding behind_def by blast
  qed
qed

lemma behind_store:
  assumes "behind k v W c" and "j \<noteq> k" and "finite W" and "int (card (insert j W - {k})) < lru_max c"
  shows "behind k v (insert j W) (lru_set j w c)"
proof -
  obtain pre post where d: "lru_items c = pre @ (k, v) # post" "fst ` set post \<subseteq> W" using assms by (auto simp: behind_def)
  have ok: "lru_ok c" using assms(1) by (simp add: behind_def)
  let ?pre = "dict_pop j pre" and ?post = "dict_pop j post @ [(j, w)]"
  have wf: "dict_wf (?pre @ (k, v) # ?post)"
    using ok move_to_end_wf [of "dict_set j w (lru_items c)" j] assms(2) by (simp add: lru_ok_def set_then_end d(1) pop_append)
  have keys: "fst ` set ?post \<subseteq> insert j W" using d(2) by (auto simp: AList.delete_eq)
  have "length ?post = card (fst ` set ?post)"
    using wf distinct_card [of "map fst ?post"] by (simp add: dict_wf_def)
  also have "\<dots> \<le> card (insert j W - {k})"
    using keys wf assms(3) by (intro card_mono) (auto simp: dict_wf_def)
  finally have "int (length ?post) < lru_max c" using assms(4) by simp
  moreover have "int (length (?pre @ (k, v) # ?post)) \<le> lru_max c + 1"
    using ok length_delete_le [of j pre] length_delete_le [of j post] by (simp add: lru_ok_def d(1))
  ultimately have n: "length (?pre @ (k, v) # ?post) - nat (lru_max c) \<le> length ?pre" by auto
  have "lru_items (lru_set j w c) = drop (length (?pre @ (k, v) # ?post) - nat (lru_max c)) ?pre @ (k, v) # ?post"
    using n assms(2) by (simp add: lru_set_def set_then_end evict_drop d(1) pop_append)
  with keys lru.set_ok [OF ok] show ?thesis unfolding behind_def by blast
qed

text \<open>The cache keeps what was used last. It never holds more than its bound, and a value that is stored is still there, and
  still that value, for as long as fewer other keys than the bound have been looked up or stored since and the key itself
  has not been stored again.
\<close>

theorem lru_keeps_recent:
  assumes "lru_ok c" and "\<forall>x. Store k x \<notin> set ops" and "int (card (op_key ` set ops - {k})) < lru_max c"
  shows "int (length (lru_items (foldl cache_step (lru_set k v c) ops))) \<le> lru_max c
    \<and> fst (lru_get (foldl cache_step (lru_set k v c) ops) k) = Some v"
proof -
  have inv: "behind k v (op_key ` set ops) (foldl cache_step (lru_set k v c) ops) \<and> lru_max (foldl cache_step (lru_set k v c) ops) = lru_max c"
    using assms(2,3)
  proof (induction ops rule: rev_induct)
    case Nil
    have "length (dict_pop k (lru_items c) @ [(k, v)]) - nat (lru_max c) \<le> length (dict_pop k (lru_items c))"
      using assms(1) by (simp add: lru_ok_def del: One_nat_def) arith
    then have "lru_items (lru_set k v c) = drop (length (dict_pop k (lru_items c) @ [(k, v)]) - nat (lru_max c)) (dict_pop k (lru_items c)) @ (k, v) # []"
      by (simp add: lru_set_def set_then_end evict_drop)
    with lru.set_ok [OF assms(1)] have "behind k v {} (lru_set k v c)" unfolding behind_def by fastforce
    then show ?case by (simp add: lru_set_def)
  next
    case (snoc x ops)
    let ?c = "foldl cache_step (lru_set k v c) ops"
    have sub: "op_key ` set ops - {k} \<subseteq> op_key ` set (ops @ [x]) - {k}" by auto
    from card_mono [OF _ sub] snoc have IH: "behind k v (op_key ` set ops) ?c" "lru_max ?c = lru_max c" by auto
    show ?case
    proof (cases x)
      case (Lookup j)
      then show ?thesis using behind_lookup [OF IH(1), of j] IH(2) by (auto simp: lru_get_def split: option.splits)
    next
      case (Store j w)
      then have "j \<noteq> k" using snoc.prems(1) by auto
      from behind_store [OF IH(1) this] Store snoc.prems(2) IH(2) show ?thesis by (simp add: lru_set_def)
    qed
  qed
  then have "lru_ok (foldl cache_step (lru_set k v c) ops)" "dict_get (lru_items (foldl cache_step (lru_set k v c) ops)) k = Some v"
    by (auto simp: behind_def lru_ok_def dict_wf_def dict_get_None map_add_def split: option.split)
  with inv show ?thesis by (simp add: lru_ok_def lru_get_def)
qed

lemma lru_keeps_recent_witness:
  "fst (lru_get (foldl cache_step (lru_set ''a'' (1 :: nat) \<lparr>lru_max = 3, lru_items = []\<rparr>) [Store ''b'' 2, Lookup ''a'', Store ''c'' 3]) ''a'') = Some 1"
proof -
  let ?c = "\<lparr>lru_max = 3, lru_items = []\<rparr> :: nat lru" and ?ops = "[Store ''b'' 2, Lookup ''a'', Store ''c'' 3]"
  have ok: "lru_ok ?c" by (simp add: lru_ok_def)
  have other: "\<forall>x. Store ''a'' x \<notin> set ?ops" by simp
  have "op_key ` set ?ops - {''a''} = {''b'', ''c''}" by auto
  then have few: "int (card (op_key ` set ?ops - {''a''})) < lru_max ?c" by simp
  show ?thesis by (rule lru_keeps_recent [OF ok other few, THEN conjunct2])
qed

subsection \<open>Keys of queries\<close>

lemma str_int_no_colon: "CHR '':'' \<notin> set (str_int n)"
proof -
  have "\<not> is_num_char (CHR '':'')" by code_simp
  then show ?thesis using str_int_num_chars [of n] by blast
qed

lemma split_at:
  assumes "c \<notin> set a" and "c \<notin> set b" and "a @ c # s = b @ c # t"
  shows "a = b \<and> s = t"
  using assms
proof (induction a arbitrary: b)
  case (Cons x a)
  then show ?case by (cases b) auto
next
  case Nil
  then show ?case by (cases b) auto
qed

text \<open>A cached search is the search that was asked for. Two queries share a key only if they agree on mode, size, recall
  and text, so what is found under a key was computed with the same four; and \<open>invalidate\<close> on the query prefix leaves no
  query behind and every cached embedding in place.
\<close>

theorem query_key_exact:
  assumes "CHR '':'' \<notin> set m" and "CHR '':'' \<notin> set m'"
  shows "(query_key m z r q = query_key m' z' r' q' \<longleftrightarrow> (m, z, r, q) = (m', z', r', q'))
    \<and> lru_entry (lru_invalidate QUERY_PREFIX c) (query_key m z r q) = None
    \<and> lru_entry (lru_invalidate QUERY_PREFIX c) (embedding_key H model t) = lru_entry c (embedding_key H model t)"
proof -
  have "(m, z, r, q) = (m', z', r', q')" if k: "query_key m z r q = query_key m' z' r' q'"
  proof -
    have "m @ CHR '':'' # str_int z @ CHR '':'' # str_int r @ CHR '':'' # q = m' @ CHR '':'' # str_int z' @ CHR '':'' # str_int r' @ CHR '':'' # q'"
      using k by (simp add: query_key_def)
    from split_at [OF assms this] have m: "m = m'"
      and "str_int z @ CHR '':'' # str_int r @ CHR '':'' # q = str_int z' @ CHR '':'' # str_int r' @ CHR '':'' # q'" by auto
    from split_at [OF str_int_no_colon str_int_no_colon this(2)] have "str_int z = str_int z'"
      and "str_int r @ CHR '':'' # q = str_int r' @ CHR '':'' # q'" by auto
    from this(1) split_at [OF str_int_no_colon str_int_no_colon this(2)] m show ?thesis
      by (metis int_literal_str_int)
  qed
  moreover have "lru_entry (lru_invalidate QUERY_PREFIX c) (query_key m z r q) = None"
    by (auto simp: lru_entry_def lru_invalidate_def query_key_def map_of_eq_None_iff starts_with_iff)
  moreover have "dict_get (filter (\<lambda>(k, _). \<not> starts_with QUERY_PREFIX k) d) k = dict_get d k" if "\<not> starts_with QUERY_PREFIX k" for d :: "(string, 'a) dict" and k
    using that by (induction d) auto
  then have "lru_entry (lru_invalidate QUERY_PREFIX c) (embedding_key H model t) = lru_entry c (embedding_key H model t)"
    by (auto simp: lru_entry_def lru_invalidate_def embedding_key_def QUERY_PREFIX_def)
  ultimately show ?thesis by blast
qed

lemma query_key_exact_witness: "query_key ''hybrid'' 10 100 ''a:b'' \<noteq> query_key ''hybrid'' 10 1 ''00:a:b''"
  using query_key_exact [of "''hybrid''" "''hybrid''" 10 100 "''a:b''" 10 1 "''00:a:b''", THEN conjunct1] by simp

end
