(* ===== verification/RateLimit.thy ===== *)
theory RateLimit
  imports Auth Complex_Main
begin

text \<open>
  \<open>rate_limit.py\<close> and \<open>rate_limit_pg.py\<close>: the token bucket with its state in the process, the one with its state in Postgres,
  and the middleware. Seconds and tokens are rationals. The clock is an argument of every check; for the Postgres bucket it
  is the clock of the database.
\<close>

record bucket_state =
  bs_tokens :: rat
  bs_updated :: rat

record decision =
  de_allowed :: bool
  de_retry_after :: int

record limiter =
  lm_rate :: rat
  lm_burst :: rat
  lm_store :: "(string, bucket_state) dict"

definition limiter_new :: "rat \<Rightarrow> rat \<Rightarrow> limiter result" where
  "limiter_new rate burst =
     (if rate \<le> 0 \<or> burst \<le> 0 then Inl ValueError else Inr \<lparr>lm_rate = rate, lm_burst = burst, lm_store = []\<rparr>)"

definition limiter_check :: "rat \<Rightarrow> string \<Rightarrow> limiter \<Rightarrow> decision \<times> limiter" where
  "limiter_check now key l =
     (let tokens = (case dict_get (lm_store l) key of
                      None \<Rightarrow> lm_burst l
                    | Some st \<Rightarrow> min (lm_burst l) (bs_tokens st + max 0 (now - bs_updated st) * lm_rate l))
      in if tokens \<ge> 1
         then (\<lparr>de_allowed = True, de_retry_after = 0\<rparr>, l\<lparr>lm_store := dict_set key \<lparr>bs_tokens = tokens - 1, bs_updated = now\<rparr> (lm_store l)\<rparr>)
         else (\<lparr>de_allowed = False, de_retry_after = max 1 \<lceil>(1 - tokens) / lm_rate l\<rceil>\<rparr>,
               l\<lparr>lm_store := dict_set key \<lparr>bs_tokens = tokens, bs_updated = now\<rparr> (lm_store l)\<rparr>))"

subsection \<open>Shared by every replica\<close>

text \<open>\<open>_CHECK_SQL\<close>: one row per bucket and hashed client, inserted or updated in one statement.\<close>

record bucket_row =
  br_tokens :: rat
  br_allowed :: bool
  br_updated :: rat

type_synonym bucket_table = "(string \<times> string, bucket_row) dict"

definition pg_upsert :: "string \<Rightarrow> string \<Rightarrow> rat \<Rightarrow> rat \<Rightarrow> rat \<Rightarrow> bucket_table \<Rightarrow> bucket_row" where
  "pg_upsert name client rate burst now table =
     (case dict_get table (name, client) of
        None \<Rightarrow> \<lparr>br_tokens = (if burst \<ge> 1 then burst - 1 else burst), br_allowed = (burst \<ge> 1), br_updated = now\<rparr>
      | Some b \<Rightarrow>
          (let level = min burst (br_tokens b + (now - br_updated b) * rate)
           in \<lparr>br_tokens = level - (if level \<ge> 1 then 1 else 0), br_allowed = (level \<ge> 1), br_updated = now\<rparr>))"

definition pg_check :: "(string \<Rightarrow> string) \<Rightarrow> string \<Rightarrow> rat \<Rightarrow> rat \<Rightarrow> rat \<Rightarrow> string \<Rightarrow> bucket_table \<Rightarrow> decision \<times> bucket_table" where
  "pg_check H name rate burst now key table =
     (let client = H (utf8 key); row = pg_upsert name client rate burst now table
      in (if br_allowed row then \<lparr>de_allowed = True, de_retry_after = 0\<rparr>
          else \<lparr>de_allowed = False, de_retry_after = max 1 \<lceil>(1 - br_tokens row) / rate\<rceil>\<rparr>,
          dict_set (name, client) row table))"

subsection \<open>In front of the application\<close>

definition EXEMPT_PATHS :: "string list" where "EXEMPT_PATHS = [''/health'', ''/metrics'']"

definition client_key :: "request \<Rightarrow> string option \<Rightarrow> string" where
  "client_key rq host =
     (if header rq ''x-api-key'' \<noteq> [] then ''key:'' @ header rq ''x-api-key''
      else ''ip:'' @ (case host of None \<Rightarrow> ''unknown'' | Some h \<Rightarrow> h))"

text \<open>The limit of a path: a bucket in the process, or the name, rate and burst of one in the table. A check of the latter raises while the
  database is not reachable (\<open>up\<close>). The state of the middleware is its limits and the table.\<close>

datatype bucket = Here limiter | Shared string rat rat

type_synonym limits = "(string, bucket) dict \<times> bucket_table"

fun bucket_check :: "(string \<Rightarrow> string) \<Rightarrow> bool \<Rightarrow> rat \<Rightarrow> string \<Rightarrow> bucket \<Rightarrow> bucket_table \<Rightarrow> (decision \<times> bucket \<times> bucket_table) result" where
  "bucket_check H up now key (Here l) table = (let (d, l) = limiter_check now key l in Inr (d, Here l, table))"
| "bucket_check H up now key (Shared name rate burst) table =
     (if up then (let (d, table) = pg_check H name rate burst now key table in Inr (d, Shared name rate burst, table))
      else Inl (Transport ''OperationalError''))"

datatype verdict = Forward | TooMany int | Raised error

definition rate_limit_middleware ::
    "(string \<Rightarrow> string) \<Rightarrow> string list \<Rightarrow> bool \<Rightarrow> rat \<Rightarrow> request \<Rightarrow> string option \<Rightarrow> limits \<Rightarrow> verdict \<times> limits" where
  "rate_limit_middleware H exempt up now rq host = (\<lambda>(limiters, table).
     (if rq_type rq \<noteq> ''http'' then (Forward, limiters, table)
      else (case (if rq_path rq \<in> set exempt then None else dict_get limiters (rq_path rq)) of
          None \<Rightarrow> (Forward, limiters, table)
        | Some b \<Rightarrow>
            (case bucket_check H up now (client_key rq host) b table of
               Inl e \<Rightarrow> (Raised e, limiters, table)
             | Inr (d, b, table) \<Rightarrow>
                 (if de_allowed d then Forward else TooMany (de_retry_after d), dict_set (rq_path rq) b limiters, table)))))"

record rate_settings =
  rs_enabled :: bool
  rs_rate :: rat
  rs_burst :: rat
  rs_ask_rate :: rat
  rs_ask_burst :: rat
  rs_login_rate :: rat
  rs_login_burst :: rat

text \<open>\<open>bucket\<close> of \<open>limiters_from_settings\<close>; \<open>shared\<close> says whether there is a \<open>session_factory\<close>.\<close>

definition bucket_of :: "bool \<Rightarrow> string \<Rightarrow> rat \<Rightarrow> rat \<Rightarrow> bucket result" where
  "bucket_of shared path rate burst =
     (if shared then (if rate \<le> 0 \<or> burst \<le> 0 then Inl ValueError else Inr (Shared path rate burst))
      else rbind (limiter_new rate burst) (\<lambda>l. Inr (Here l)))"

definition limiters_from_settings :: "bool \<Rightarrow> rate_settings \<Rightarrow> (string, bucket) dict result" where
  "limiters_from_settings shared st =
     (if \<not> rs_enabled st then Inr []
      else rbind (bucket_of shared ''/search'' (rs_rate st) (rs_burst st)) (\<lambda>search.
           rbind (bucket_of shared ''/hybrid'' (rs_rate st) (rs_burst st)) (\<lambda>hybrid.
           rbind (bucket_of shared ''/ask'' (rs_ask_rate st) (rs_ask_burst st)) (\<lambda>ask.
           rbind (bucket_of shared ''/console/login'' (rs_login_rate st) (rs_login_burst st)) (\<lambda>login.
           Inr [(''/search'', search), (''/hybrid'', hybrid), (''/ask'', ask), (''/console/login'', login)])))))"

subsection \<open>What a bucket holds\<close>

text \<open>The tokens a client finds in its bucket at a moment, and the limiters in which no bucket is over- or overdrawn.\<close>

definition level :: "limiter \<Rightarrow> string \<Rightarrow> rat \<Rightarrow> rat" where
  "level l key now = (case dict_get (lm_store l) key of
     None \<Rightarrow> lm_burst l
   | Some st \<Rightarrow> min (lm_burst l) (bs_tokens st + max 0 (now - bs_updated st) * lm_rate l))"

definition limiter_ok :: "limiter \<Rightarrow> bool" where
  "limiter_ok l = (0 < lm_rate l \<and> 0 < lm_burst l
     \<and> (\<forall>k st. dict_get (lm_store l) k = Some st \<longrightarrow> 0 \<le> bs_tokens st \<and> bs_tokens st \<le> lm_burst l))"

lemma limiter_new_ok: "limiter_new r b = Inr l \<Longrightarrow> limiter_ok l \<and> lm_rate l = r \<and> lm_burst l = b \<and> lm_store l = []"
  by (auto simp: limiter_new_def limiter_ok_def split: if_splits)

lemma level_bounds:
  assumes "limiter_ok l"
  shows "0 \<le> level l k now" "level l k now \<le> lm_burst l"
proof -
  have "0 \<le> max 0 (now - bs_updated st) * lm_rate l" for st using assms by (simp add: limiter_ok_def)
  with assms show "0 \<le> level l k now" "level l k now \<le> lm_burst l"
    by (auto simp: level_def limiter_ok_def intro: add_nonneg_nonneg split: option.split)
qed

lemma limiter_check_level:
  "limiter_check now key l =
     (if level l key now \<ge> 1
      then (\<lparr>de_allowed = True, de_retry_after = 0\<rparr>, l\<lparr>lm_store := dict_set key \<lparr>bs_tokens = level l key now - 1, bs_updated = now\<rparr> (lm_store l)\<rparr>)
      else (\<lparr>de_allowed = False, de_retry_after = max 1 \<lceil>(1 - level l key now) / lm_rate l\<rceil>\<rparr>,
            l\<lparr>lm_store := dict_set key \<lparr>bs_tokens = level l key now, bs_updated = now\<rparr> (lm_store l)\<rparr>))"
  unfolding limiter_check_def level_def Let_def by (rule refl)

lemma limiter_check_ok:
  assumes "limiter_ok l" and "limiter_check now key l = (d, l')"
  shows "limiter_ok l' \<and> lm_rate l' = lm_rate l \<and> lm_burst l' = lm_burst l
    \<and> level l' key now = level l key now - of_bool (de_allowed d)
    \<and> (\<forall>k. k \<noteq> key \<longrightarrow> level l' k = level l k)"
proof -
  note b = level_bounds [OF assms(1), of key now]
  have s: "lm_store l' = dict_set key \<lparr>bs_tokens = level l key now - of_bool (de_allowed d), bs_updated = now\<rparr> (lm_store l)"
    "lm_rate l' = lm_rate l" "lm_burst l' = lm_burst l" "de_allowed d \<longleftrightarrow> level l key now \<ge> 1"
    using assms(2) by (auto simp: limiter_check_level split: if_splits)
  have "0 \<le> level l key now - of_bool (de_allowed d)" "level l key now - of_bool (de_allowed d) \<le> lm_burst l"
    using b s(4) by auto
  with assms(1) s(1-3) show ?thesis by (auto simp: limiter_ok_def level_def fun_eq_iff split: option.split)
qed

subsection \<open>The limit holds\<close>

text \<open>A request as the middleware meets it: the time of the clock the bucket goes by, the request, the host it came from and whether the
  database answers.\<close>

type_synonym arrival = "rat \<times> request \<times> string option \<times> bool"

fun middleware_run :: "(string \<Rightarrow> string) \<Rightarrow> string list \<Rightarrow> arrival list \<Rightarrow> limits \<Rightarrow> verdict list \<times> limits" where
  "middleware_run H exempt [] s = ([], s)"
| "middleware_run H exempt ((now, rq, host, up) # rs) s =
     (let (v, s) = rate_limit_middleware H exempt up now rq host s; (vs, s) = middleware_run H exempt rs s in (v # vs, s))"

definition asks_for :: "string \<Rightarrow> string \<Rightarrow> arrival \<Rightarrow> bool" where
  "asks_for path key r = (case r of (now, rq, host, up) \<Rightarrow> rq_type rq = ''http'' \<and> rq_path rq = path \<and> client_key rq host = key)"

definition let_through :: "string \<Rightarrow> string \<Rightarrow> arrival list \<Rightarrow> verdict list \<Rightarrow> nat" where
  "let_through path key rs vs = length (filter (\<lambda>(r, v). asks_for path key r \<and> v = Forward) (zip rs vs))"

text \<open>The rate and the burst of a path, and what there is of one client for it: the level of its bucket and the moment it was written.\<close>

fun bucket_rate :: "bucket \<Rightarrow> rat" where
  "bucket_rate (Here l) = lm_rate l"
| "bucket_rate (Shared n r b) = r"

fun bucket_burst :: "bucket \<Rightarrow> rat" where
  "bucket_burst (Here l) = lm_burst l"
| "bucket_burst (Shared n r b) = b"

fun account :: "(string \<Rightarrow> string) \<Rightarrow> string \<Rightarrow> bucket \<Rightarrow> bucket_table \<Rightarrow> (rat \<times> rat) option" where
  "account H key (Here l) table = map_option (\<lambda>st. (bs_tokens st, bs_updated st)) (dict_get (lm_store l) key)"
| "account H key (Shared n r b) table = map_option (\<lambda>row. (br_tokens row, br_updated row)) (dict_get table (n, H (utf8 key)))"

fun is_shared :: "bucket \<Rightarrow> bool" where
  "is_shared (Here l) = False"
| "is_shared (Shared n r b) = True"

text \<open>What the limit of a path makes of one check of a client, in terms of these alone.\<close>

definition gained :: "bool \<Rightarrow> rat \<Rightarrow> rat" where
  "gained shared dt = (if shared then dt else max 0 dt)"

definition account_level :: "bucket \<Rightarrow> (rat \<times> rat) option \<Rightarrow> rat \<Rightarrow> rat" where
  "account_level b acc now = (case acc of
     None \<Rightarrow> bucket_burst b
   | Some (tokens, updated) \<Rightarrow> min (bucket_burst b) (tokens + gained (is_shared b) (now - updated) * bucket_rate b))"

lemma bucket_check_account:
  assumes "is_shared b \<longrightarrow> up"
  shows "\<exists>d b' table'. bucket_check H up now key b table = Inr (d, b', table')
    \<and> (de_allowed d \<longleftrightarrow> account_level b (account H key b table) now \<ge> 1)
    \<and> d = (if account_level b (account H key b table) now \<ge> 1 then \<lparr>de_allowed = True, de_retry_after = 0\<rparr>
           else \<lparr>de_allowed = False, de_retry_after = max 1 \<lceil>(1 - account_level b (account H key b table) now) / bucket_rate b\<rceil>\<rparr>)
    \<and> account H key b' table' = Some (account_level b (account H key b table) now - of_bool (de_allowed d), now)
    \<and> is_shared b' = is_shared b \<and> bucket_rate b' = bucket_rate b \<and> bucket_burst b' = bucket_burst b"
proof (cases b)
  case (Here l)
  have "account_level b (account H key b table) now = level l key now"
    by (cases "dict_get (lm_store l) key") (simp_all add: Here account_level_def level_def gained_def)
  then show ?thesis by (simp add: Here limiter_check_level)
next
  case (Shared n r bu)
  let ?x = "account_level b (account H key b table) now"
  have "pg_upsert n (H (utf8 key)) r bu now table = \<lparr>br_tokens = ?x - of_bool (?x \<ge> 1), br_allowed = (?x \<ge> 1), br_updated = now\<rparr>"
    by (cases "dict_get table (n, H (utf8 key))") (simp_all add: Shared account_level_def gained_def pg_upsert_def Let_def)
  then show ?thesis using assms by (simp add: Shared pg_check_def Let_def)
qed

text \<open>A check for another client, or another path, leaves it alone; the rows of the table are told apart by path and hashed client.\<close>

lemma bucket_check_other:
  assumes "bucket_check H up now k b table = Inr (d, b', table')" and "k \<noteq> key" and "H (utf8 k) \<noteq> H (utf8 key)"
  shows "account H key b' table' = account H key b table"
  using assms by (cases b) (auto simp: limiter_check_def pg_check_def Let_def split: if_splits)

lemma bucket_check_elsewhere:
  assumes "bucket_check H up now k b table = Inr (d, b', table')" and "\<And>n r bu. b = Shared n r bu \<Longrightarrow> n = p" and "\<And>n r bu. c = Shared n r bu \<Longrightarrow> n = q" and "p \<noteq> q"
  shows "account H key c table' = account H key c table"
  using assms by (cases b; cases c) (auto simp: limiter_check_def pg_check_def Let_def split: if_splits)

definition named :: "(string, bucket) dict \<Rightarrow> bool" where
  "named ls = (\<forall>p b. dict_get ls p = Some b \<longrightarrow> 0 < bucket_rate b \<and> 0 < bucket_burst b \<and> (\<forall>n r bu. b = Shared n r bu \<longrightarrow> n = p))"

lemma bucket_of_named:
  "bucket_of shared p r bu = Inr b \<Longrightarrow> 0 < bucket_rate b \<and> 0 < bucket_burst b \<and> (\<forall>n r bu. b = Shared n r bu \<longrightarrow> n = p)"
  by (auto simp: bucket_of_def limiter_new_def result_simps split: if_splits)

lemma limiters_from_settings_named: "limiters_from_settings shared st = Inr ls \<Longrightarrow> named ls"
  by (auto simp: limiters_from_settings_def named_def result_simps split: if_splits dest!: bucket_of_named)

text \<open>The part of the state a client's requests for a path can see.\<close>

definition own :: "(string \<Rightarrow> string) \<Rightarrow> string \<Rightarrow> string \<Rightarrow> limits \<Rightarrow> (bool \<times> rat \<times> rat \<times> (rat \<times> rat) option) option" where
  "own H path key s = map_option (\<lambda>b. (is_shared b, bucket_rate b, bucket_burst b, account H key b (snd s))) (dict_get (fst s) path)"

definition limited_by :: "string list \<Rightarrow> request \<Rightarrow> limits \<Rightarrow> bucket option" where
  "limited_by exempt rq s = (if rq_type rq = ''http'' \<and> rq_path rq \<notin> set exempt then dict_get (fst s) (rq_path rq) else None)"

lemma middleware_limited:
  "rate_limit_middleware H exempt up now rq host s = (case limited_by exempt rq s of
     None \<Rightarrow> (Forward, s)
   | Some b \<Rightarrow> (case bucket_check H up now (client_key rq host) b (snd s) of
       Inl e \<Rightarrow> (Raised e, s)
     | Inr (d, b, t) \<Rightarrow> (if de_allowed d then Forward else TooMany (de_retry_after d), dict_set (rq_path rq) b (fst s), t)))"
  by (cases s) (auto simp: rate_limit_middleware_def limited_by_def split: option.split sum.split)

lemma bucket_check_same_kind:
  assumes "bucket_check H up now k b table = Inr (d, b', table')"
  shows "is_shared b' = is_shared b \<and> bucket_rate b' = bucket_rate b \<and> bucket_burst b' = bucket_burst b \<and> (\<forall>n r bu. b' = Shared n r bu \<longrightarrow> b = b')"
  using assms by (cases b) (auto simp: limiter_check_def pg_check_def Let_def split: if_splits)

lemma middleware_named:
  assumes "named (fst s)" and "rate_limit_middleware H exempt up now rq host s = (v, s')"
  shows "named (fst s') \<and> (\<forall>p. map_option bucket_rate (dict_get (fst s') p) = map_option bucket_rate (dict_get (fst s) p)
    \<and> map_option bucket_burst (dict_get (fst s') p) = map_option bucket_burst (dict_get (fst s) p))"
proof (cases "limited_by exempt rq s")
  case None
  then show ?thesis using assms by (simp add: middleware_limited)
next
  case (Some b)
  then have b: "dict_get (fst s) (rq_path rq) = Some b" by (simp add: limited_by_def split: if_splits)
  show ?thesis
  proof (cases "bucket_check H up now (client_key rq host) b (snd s)")
    case (Inl e)
    then show ?thesis using assms Some by (simp add: middleware_limited)
  next
    case (Inr x)
    obtain d b' t where x: "x = (d, b', t)" by (cases x)
    note k = bucket_check_same_kind [OF Inr [unfolded x]]
    have "s' = (dict_set (rq_path rq) b' (fst s), t)" using assms(2) Some Inr x by (simp add: middleware_limited)
    then show ?thesis using assms(1) b k by (auto simp: named_def)
  qed
qed

text \<open>A request of somebody else, or for another path, leaves it as it is; the client's own is answered from it alone.\<close>

lemma other_request:
  assumes "named (fst s)" and "path \<notin> set exempt" and "\<not> asks_for path key (now, rq, host, up)"
    and "H (utf8 (client_key rq host)) = H (utf8 key) \<longrightarrow> client_key rq host = key"
    and "rate_limit_middleware H exempt up now rq host s = (v, s')"
  shows "own H path key s' = own H path key s"
proof (cases "limited_by exempt rq s")
  case None
  then show ?thesis using assms(5) by (simp add: middleware_limited)
next
  case (Some b)
  then have b: "dict_get (fst s) (rq_path rq) = Some b" "rq_type rq = ''http''" by (simp_all add: limited_by_def split: if_splits)
  show ?thesis
  proof (cases "bucket_check H up now (client_key rq host) b (snd s)")
    case (Inl e)
    then show ?thesis using assms Some by (simp add: middleware_limited)
  next
    case (Inr x)
    obtain d b' t where x: "x = (d, b', t)" by (cases x)
    note run = Inr [unfolded x]
    note k = bucket_check_same_kind [OF run]
    have s': "s' = (dict_set (rq_path rq) b' (fst s), t)" using assms(5) Some Inr x by (simp add: middleware_limited)
    show ?thesis
    proof (cases "rq_path rq = path")
      case True
      then have "client_key rq host \<noteq> key" using assms(3) b(2) by (simp add: asks_for_def)
      with assms(4) have "account H key b' t = account H key b (snd s)" using bucket_check_other [OF run] by blast
      then show ?thesis using k b(1) True by (simp add: own_def s')
    next
      case False
      have "account H key c t = account H key c (snd s)" if "dict_get (fst s) path = Some c" for c
        using bucket_check_elsewhere [OF run, of "rq_path rq" c path] False assms(1) b(1) that by (simp add: named_def)
      then show ?thesis using False by (cases "dict_get (fst s) path") (simp_all add: own_def s')
    qed
  qed
qed

lemma own_request:
  assumes "path \<notin> set exempt" and "asks_for path key (now, rq, host, up)" and "own H path key s = Some (sh, rate, burst, acc)"
    and "rate_limit_middleware H exempt up now rq host s = (v, s')"
  shows "if sh \<and> \<not> up then v = Raised (Transport ''OperationalError'') \<and> own H path key s' = own H path key s
    else let x = (case acc of None \<Rightarrow> burst | Some (tokens, updated) \<Rightarrow> min burst (tokens + gained sh (now - updated) * rate))
      in v = (if x \<ge> 1 then Forward else TooMany (max 1 \<lceil>(1 - x) / rate\<rceil>)) \<and> own H path key s' = Some (sh, rate, burst, Some (x - of_bool (x \<ge> 1), now))"
proof -
  from assms(2,3) obtain b where q: "rq_type rq = ''http''" "rq_path rq = path" "client_key rq host = key"
    and b: "dict_get (fst s) path = Some b" "sh = is_shared b" "rate = bucket_rate b" "burst = bucket_burst b" "acc = account H key b (snd s)"
    by (auto simp: own_def asks_for_def)
  have lim: "limited_by exempt rq s = Some b" using q b(1) assms(1) by (simp add: limited_by_def)
  show ?thesis
  proof (cases "sh \<and> \<not> up")
    case True
    then obtain n r bu where "b = Shared n r bu" using b(2) by (cases b) simp_all
    with True show ?thesis using assms(4) lim by (simp add: middleware_limited)
  next
    case False
    then have "is_shared b \<longrightarrow> up" using b(2) by simp
    from bucket_check_account [OF this, of H now key "snd s"] obtain d b' t where
      c: "bucket_check H up now key b (snd s) = Inr (d, b', t)" "de_allowed d \<longleftrightarrow> account_level b acc now \<ge> 1"
        "d = (if account_level b acc now \<ge> 1 then \<lparr>de_allowed = True, de_retry_after = 0\<rparr>
           else \<lparr>de_allowed = False, de_retry_after = max 1 \<lceil>(1 - account_level b acc now) / rate\<rceil>\<rparr>)"
        "account H key b' t = Some (account_level b acc now - of_bool (de_allowed d), now)"
        "is_shared b' = is_shared b" "bucket_rate b' = bucket_rate b" "bucket_burst b' = bucket_burst b"
      unfolding b(3,5) by blast
    have s': "s' = (dict_set path b' (fst s), t)" "v = (if de_allowed d then Forward else TooMany (de_retry_after d))"
      using assms(4) lim c(1) q by (simp_all add: middleware_limited)
    have x: "account_level b acc now = (case acc of None \<Rightarrow> burst | Some (tokens, updated) \<Rightarrow> min burst (tokens + gained sh (now - updated) * rate))"
      unfolding account_level_def b(2-4) by (rule refl)
    have "own H path key s' = Some (sh, rate, burst, Some (account_level b acc now - of_bool (account_level b acc now \<ge> 1), now))"
      using c(2,4-7) b(2-4) by (simp add: own_def s'(1))
    then show ?thesis using False c(3) s'(2) unfolding x [symmetric] by (simp add: Let_def)
  qed
qed

lemma own_answered:
  assumes "path \<notin> set exempt" and "asks_for path key (now, rq, host, up)" and "own H path key s = own H path key u" and "own H path key s \<noteq> None"
    and "rate_limit_middleware H exempt up now rq host s = (v, s')" and "rate_limit_middleware H exempt up now rq host u = (v', u')"
  shows "v' = v \<and> own H path key s' = own H path key u' \<and> own H path key s' \<noteq> None"
proof -
  obtain sh rate burst acc where o: "own H path key s = Some (sh, rate, burst, acc)" using assms(4) by auto
  then have o': "own H path key u = Some (sh, rate, burst, acc)" using assms(3) by simp
  from own_request [OF assms(1,2) o assms(5)] own_request [OF assms(1,2) o' assms(6)] o o'
  show ?thesis by (auto simp: Let_def split: if_splits)
qed

lemma run_own:
  assumes "named (fst s)" and "named (fst u)" and "path \<notin> set exempt" and "own H path key s = own H path key u" and "own H path key s \<noteq> None"
    and "\<forall>(now, rq, host, up)\<in>set rs. H (utf8 (client_key rq host)) = H (utf8 key) \<longrightarrow> client_key rq host = key"
    and "middleware_run H exempt rs s = (vs, s')" and "middleware_run H exempt (filter (asks_for path key) rs) u = (us, u')"
  shows "length vs = length rs \<and> map snd (filter (\<lambda>(r, v). asks_for path key r) (zip rs vs)) = us"
  using assms
proof (induction rs arbitrary: s u vs us)
  case (Cons r rs)
  obtain now rq host up where r: "r = (now, rq, host, up)" by (cases r)
  obtain v s1 where v: "rate_limit_middleware H exempt up now rq host s = (v, s1)" by (cases "rate_limit_middleware H exempt up now rq host s")
  obtain vs1 s2 where vs1: "middleware_run H exempt rs s1 = (vs1, s2)" by (cases "middleware_run H exempt rs s1")
  have vs: "vs = v # vs1" using Cons.prems(7) by (simp add: r v vs1)
  have run: "middleware_run H exempt rs s1 = (vs1, s')" using Cons.prems(7) by (simp add: r v vs1)
  have n1: "named (fst s1)" using middleware_named [OF Cons.prems(1) v] by blast
  have apart: "\<forall>(now, rq, host, up)\<in>set rs. H (utf8 (client_key rq host)) = H (utf8 key) \<longrightarrow> client_key rq host = key"
    "H (utf8 (client_key rq host)) = H (utf8 key) \<longrightarrow> client_key rq host = key" using Cons.prems(6) by (simp_all add: r)
  show ?case
  proof (cases "asks_for path key r")
    case True
    obtain v' u1 where v': "rate_limit_middleware H exempt up now rq host u = (v', u1)" by (cases "rate_limit_middleware H exempt up now rq host u")
    obtain us1 u2 where us1: "middleware_run H exempt (filter (asks_for path key) rs) u1 = (us1, u2)" by (cases "middleware_run H exempt (filter (asks_for path key) rs) u1")
    have us: "us = v' # us1" "u2 = u'" using Cons.prems(8) True by (simp_all add: r v' us1)
    have a: "v' = v" "own H path key s1 = own H path key u1" "own H path key s1 \<noteq> None"
      using own_answered [OF Cons.prems(3) True [unfolded r] Cons.prems(4,5) v v'] by blast+
    have n2: "named (fst u1)" using middleware_named [OF Cons.prems(2) v'] by blast
    from Cons.IH [OF n1 n2 Cons.prems(3) a(2,3) apart(1) run us1 [unfolded us(2)]] a(1) True show ?thesis by (simp add: vs us)
  next
    case False
    have "own H path key s1 = own H path key s" by (rule other_request [OF Cons.prems(1,3) False [unfolded r] apart(2) v])
    with Cons.IH [OF n1 Cons.prems(2,3) _ _ apart(1) run] Cons.prems(4,5,8) False show ?thesis by (simp add: vs)
  qed
qed simp

text \<open>The client's own requests in a stretch of time.\<close>

lemma own_bounded:
  assumes "path \<notin> set exempt" and "own H path key s = Some (sh, rate, burst, acc)" and "0 < rate"
    and "\<forall>r\<in>set rs. asks_for path key r" and "sorted (map fst rs)" and "\<forall>r\<in>set rs. t0 \<le> fst r \<and> fst r \<le> T" and "t0 \<le> T"
    and "0 \<le> x" and "case acc of None \<Rightarrow> burst \<le> x | Some (tokens, updated) \<Rightarrow> min burst (tokens + gained sh (t0 - updated) * rate) \<le> x"
    and "middleware_run H exempt rs s = (vs, s')"
  shows "of_nat (length (filter (\<lambda>v. v = Forward) vs)) \<le> x + (T - t0) * rate"
  using assms
proof (induction rs arbitrary: s acc t0 x vs)
  case Nil
  then show ?case by simp
next
  case (Cons r rs)
  obtain now rq host up where r: "r = (now, rq, host, up)" by (cases r)
  obtain v s1 where v: "rate_limit_middleware H exempt up now rq host s = (v, s1)" by (cases "rate_limit_middleware H exempt up now rq host s")
  obtain vs1 s2 where run: "middleware_run H exempt rs s1 = (vs1, s2)" by (cases "middleware_run H exempt rs s1")
  have vs: "vs = v # vs1" "s2 = s'" using Cons.prems(10) by (simp_all add: r v run)
  have asks: "asks_for path key (now, rq, host, up)" using Cons.prems(4) by (simp add: r)
  have times: "t0 \<le> now" "now \<le> T" "sorted (map fst rs)" "\<forall>x\<in>set rs. now \<le> fst x \<and> fst x \<le> T" "\<forall>r\<in>set rs. asks_for path key r"
    using Cons.prems(4-6) by (auto simp: r)
  define y where "y = (case acc of None \<Rightarrow> burst | Some (tokens, updated) \<Rightarrow> min burst (tokens + gained sh (now - updated) * rate))"
  have grow: "0 \<le> (now - t0) * rate" using Cons.prems(3) times(1) by simp
  have y: "y \<le> x + (now - t0) * rate"
  proof (cases acc)
    case None
    then show ?thesis using Cons.prems(9) grow by (simp add: y_def)
  next
    case (Some a)
    obtain tokens updated where a: "a = (tokens, updated)" by (cases a)
    have "gained sh (now - updated) \<le> gained sh (t0 - updated) + (now - t0)" using times(1) by (auto simp: gained_def)
    then have "gained sh (now - updated) * rate \<le> (gained sh (t0 - updated) + (now - t0)) * rate" using Cons.prems(3) by (intro mult_right_mono) simp_all
    then have "tokens + gained sh (now - updated) * rate \<le> (tokens + gained sh (t0 - updated) * rate) + (now - t0) * rate" by (simp add: distrib_right)
    then show ?thesis using Cons.prems(9) grow by (simp add: y_def Some a min_le_iff_disj) linarith
  qed
  note q = own_request [OF Cons.prems(1) asks Cons.prems(2) v, folded y_def]
  show ?case
  proof (cases "v = Forward")
    case True
    then have q: "1 \<le> y" "own H path key s1 = Some (sh, rate, burst, Some (y - 1, now))" using q by (auto simp: Let_def split: if_splits)
    have "case Some (y - 1, now) of None \<Rightarrow> burst \<le> x + (now - t0) * rate - 1
        | Some (tokens, updated) \<Rightarrow> min burst (tokens + gained sh (now - updated) * rate) \<le> x + (now - t0) * rate - 1"
      using y by (simp add: gained_def min_le_iff_disj)
    from Cons.IH [OF Cons.prems(1) q(2) Cons.prems(3) times(5,3,4,2) _ this run [unfolded vs(2)]] y q(1)
    show ?thesis by (simp add: vs(1) True algebra_simps)
  next
    case False
    have "\<exists>acc'. own H path key s1 = Some (sh, rate, burst, acc') \<and> (case acc' of None \<Rightarrow> burst \<le> x + (now - t0) * rate
        | Some (tokens, updated) \<Rightarrow> min burst (tokens + gained sh (now - updated) * rate) \<le> x + (now - t0) * rate)"
    proof (cases "sh \<and> \<not> up")
      case True
      then show ?thesis using q Cons.prems(2) y by (intro exI [of _ acc]) (auto simp: y_def split: option.splits)
    next
      case F: False
      then have "own H path key s1 = Some (sh, rate, burst, Some (y, now))" using q False by (auto simp: Let_def split: if_splits)
      then show ?thesis using y by (intro exI [of _ "Some (y, now)"]) (simp add: gained_def min_le_iff_disj)
    qed
    then obtain acc' where a: "own H path key s1 = Some (sh, rate, burst, acc')" "case acc' of None \<Rightarrow> burst \<le> x + (now - t0) * rate
        | Some (tokens, updated) \<Rightarrow> min burst (tokens + gained sh (now - updated) * rate) \<le> x + (now - t0) * rate" by blast
    have "0 \<le> x + (now - t0) * rate" using Cons.prems(8) grow by simp
    from Cons.IH [OF Cons.prems(1) a(1) Cons.prems(3) times(5,3,4,2) this a(2) run [unfolded vs(2)]] False
    show ?thesis by (simp add: vs(1) algebra_simps)
  qed
qed

lemma run_named:
  "named (fst s) \<Longrightarrow> middleware_run H exempt rs s = (vs, s') \<Longrightarrow> named (fst s')"
proof (induction rs arbitrary: s vs)
  case (Cons r rs)
  obtain now rq host up where r: "r = (now, rq, host, up)" by (cases r)
  obtain v s1 where v: "rate_limit_middleware H exempt up now rq host s = (v, s1)" by (cases "rate_limit_middleware H exempt up now rq host s")
  obtain vs1 where "middleware_run H exempt rs s1 = (vs1, s')" using Cons.prems(2) by (auto simp: r v split: prod.splits)
  then show ?case using Cons.IH middleware_named [OF Cons.prems(1) v] by blast
qed simp

lemma let_through_own: "length vs = length rs \<Longrightarrow>
  let_through path key rs vs = length (filter (\<lambda>v. v = Forward) (map snd (filter (\<lambda>(r, v). asks_for path key r) (zip rs vs))))"
  by (induction rs vs rule: list_induct2') (auto simp: let_through_def)

text \<open>C10: The rate limit is a limit, and everybody has their own. Behind the middleware that the settings build, with the buckets in the process or in Postgres, whatever requests arrive,
  in any stretch of time and from any state the buckets and the table have got into, at most \<open>burst + rate * seconds\<close> requests of one client for one limited path
  are let through. Other clients and other paths take nothing from it and add nothing to it: the client's requests for the path are answered, one by one, as
  they would be if no others had arrived. (No other client of the stretch has the same hash, and the clock does not run back within it; a request met while Postgres is not reachable is
  not let through.)
\<close>

theorem rate_limit_bound:
  assumes "limiters_from_settings shared st = Inr ls0" and "middleware_run H exempt earlier (ls0, table) = (before, s)"
    and "dict_get (fst s) path = Some b" and "path \<notin> set exempt"
    and "sorted (map fst rs)" and "\<forall>r\<in>set rs. t0 \<le> fst r \<and> fst r \<le> T" and "t0 \<le> T"
    and "\<forall>(now, rq, host, up)\<in>set rs. H (utf8 (client_key rq host)) = H (utf8 key) \<longrightarrow> client_key rq host = key"
    and "middleware_run H exempt rs s = (vs, s')"
  shows "of_nat (let_through path key rs vs) \<le> bucket_burst b + (T - t0) * bucket_rate b
    \<and> map snd (filter (\<lambda>(r, v). asks_for path key r) (zip rs vs)) = fst (middleware_run H exempt (filter (asks_for path key) rs) s)"
proof -
  have n: "named (fst s)" by (rule run_named [OF _ assms(2)]) (simp add: limiters_from_settings_named [OF assms(1)])
  have ob: "own H path key s = Some (is_shared b, bucket_rate b, bucket_burst b, account H key b (snd s))" by (simp add: own_def assms(3))
  obtain us u' where us: "middleware_run H exempt (filter (asks_for path key) rs) s = (us, u')" by (cases "middleware_run H exempt (filter (asks_for path key) rs) s")
  from run_own [OF n n assms(4) refl _ assms(8,9) us] ob
  have r: "length vs = length rs" "map snd (filter (\<lambda>(r, v). asks_for path key r) (zip rs vs)) = us" by simp_all
  have b: "0 < bucket_rate b" "0 \<le> bucket_burst b" using n assms(3) by (auto simp: named_def less_imp_le)
  have "sorted (map fst (filter (asks_for path key) rs))" using assms(5) by (simp add: sorted_filter)
  from own_bounded [OF assms(4) ob b(1) _ this _ assms(7) b(2) _ us] assms(6)
  have "of_nat (length (filter (\<lambda>v. v = Forward) us)) \<le> bucket_burst b + (T - t0) * bucket_rate b" by (simp split: option.split)
  then show ?thesis using r us by (simp add: let_through_own)
qed

definition sample_rates :: rate_settings where
  "sample_rates = \<lparr>rs_enabled = True, rs_rate = 10, rs_burst = 20, rs_ask_rate = 1, rs_ask_burst = 2, rs_login_rate = 1 / 10, rs_login_burst = 2\<rparr>"

definition login_request :: request where
  "login_request = \<lparr>rq_type = ''http'', rq_path = ''/console/login'', rq_headers = [], rq_cookies = []\<rparr>"

text \<open>Three guesses at the login within a second, and one from elsewhere, with the buckets in Postgres: two get through.\<close>

lemma rate_limit_bound_witness:
  "\<exists>ls vs s'. limiters_from_settings True sample_rates = Inr ls
     \<and> middleware_run (\<lambda>x. x) EXEMPT_PATHS [(0, login_request, None, True), (0, login_request, Some ''b'', True), (1 / 2, login_request, None, True), (1, login_request, None, True)] (ls, []) = (vs, s')
     \<and> (of_nat (let_through ''/console/login'' ''ip:unknown''
          [(0, login_request, None, True), (0, login_request, Some ''b'', True), (1 / 2, login_request, None, True), (1, login_request, None, True)] vs) :: rat) \<le> 2 + 1 / 10"
proof -
  let ?rs = "[(0, login_request, None, True), (0, login_request, Some ''b'', True), (1 / 2, login_request, None, True), (1, login_request, None, True)] :: arrival list"
  obtain ls b where ls: "limiters_from_settings True sample_rates = Inr ls" "dict_get (fst (ls, [] :: bucket_table)) ''/console/login'' = Some b" "bucket_burst b = 2" "bucket_rate b = 1 / 10"
    by (simp add: limiters_from_settings_def sample_rates_def bucket_of_def)
  obtain vs s' where run: "middleware_run (\<lambda>x. x) EXEMPT_PATHS ?rs (ls, []) = (vs, s')" by (cases "middleware_run (\<lambda>x. x) EXEMPT_PATHS ?rs (ls, [])")
  have start: "middleware_run (\<lambda>x. x) EXEMPT_PATHS [] (ls, []) = ([], ls, [])" by simp
  have "''/console/login'' \<notin> set EXEMPT_PATHS" by (simp add: EXEMPT_PATHS_def)
  moreover have "\<forall>(now, rq, host, up)\<in>set ?rs. utf8 (client_key rq host) = utf8 ''ip:unknown'' \<longrightarrow> client_key rq host = ''ip:unknown''" by simp
  ultimately have "of_nat (let_through ''/console/login'' ''ip:unknown'' ?rs vs) \<le> 2 + 1 / (10 :: rat)"
    using rate_limit_bound [OF ls(1) start ls(2) _ _ _ _ _ run, of 0 1 "''ip:unknown''"] by (simp add: ls(3,4))
  with ls(1) run show ?thesis by blast
qed

subsection \<open>Waiting as told\<close>

fun checks :: "(rat \<times> string) list \<Rightarrow> limiter \<Rightarrow> decision list \<times> limiter" where
  "checks [] l = ([], l)"
| "checks ((now, key) # rs) l =
     (let (d, l) = limiter_check now key l; (ds, l) = checks rs l in (d # ds, l))"

lemma checks_others:
  "limiter_ok l \<Longrightarrow> key \<notin> snd ` set rs \<Longrightarrow> checks rs l = (ds, l') \<Longrightarrow>
     limiter_ok l' \<and> lm_rate l' = lm_rate l \<and> lm_burst l' = lm_burst l \<and> level l' key = level l key"
proof (induction rs l arbitrary: ds rule: checks.induct)
  case (2 now k rs l)
  obtain d m where d: "limiter_check now k l = (d, m)" by fastforce
  obtain es where es: "checks rs m = (es, l')" using "2.prems"(3) d by (auto split: prod.splits)
  note c = limiter_check_ok [OF "2.prems"(1) d]
  from "2.IH" [OF d [symmetric] refl _ _ es] "2.prems"(2) c show ?case by auto
qed simp

text \<open>\<open>Retry-After\<close> is neither too short nor too long. A client that is refused and stays away for the seconds it is told is
  let through when it comes back, whatever other clients do in the meantime, provided a bucket can hold a token at all; and
  had it come back a whole second earlier it would have been refused again, unless it was told the least there is to tell,
  one second.
\<close>

theorem retry_after_exact:
  assumes "limiter_ok l" and "1 \<le> lm_burst l"
    and "limiter_check now key l = (d, l1)" and "\<not> de_allowed d"
    and "key \<notin> snd ` set others" and "checks others l1 = (ds, l2)"
  shows "(\<forall>t. now + of_int (de_retry_after d) \<le> t \<longrightarrow> de_allowed (fst (limiter_check t key l2)))
    \<and> (1 < de_retry_after d \<longrightarrow> \<not> de_allowed (fst (limiter_check (now + of_int (de_retry_after d) - 1) key l2)))"
proof -
  let ?x = "level l key now"
  have low: "?x < 1" and r: "de_retry_after d = max 1 \<lceil>(1 - ?x) / lm_rate l\<rceil>"
    and st: "l1 = l\<lparr>lm_store := dict_set key \<lparr>bs_tokens = ?x, bs_updated = now\<rparr> (lm_store l)\<rparr>"
    using assms(3,4) by (auto simp: limiter_check_level split: if_splits)
  have rate: "0 < lm_rate l" using assms(1) by (simp add: limiter_ok_def)
  have l1: "limiter_ok l1" using limiter_check_ok [OF assms(1,3)] by blast
  from checks_others [OF l1 assms(5,6)] have l2: "level l2 key = level l1 key" by blast
  have lv: "level l2 key t = min (lm_burst l) (?x + (t - now) * lm_rate l)" if "now \<le> t" for t
    using that by (simp add: l2) (simp add: level_def st)
  have allowed: "de_allowed (fst (limiter_check t key l2)) \<longleftrightarrow> 1 \<le> level l2 key t" for t by (simp add: limiter_check_level)
  have "de_allowed (fst (limiter_check t key l2))" if t: "now + of_int (de_retry_after d) \<le> t" for t
  proof -
    have "(1 - ?x) / lm_rate l \<le> of_int \<lceil>(1 - ?x) / lm_rate l\<rceil>" by (rule le_of_int_ceiling)
    also have "\<dots> \<le> of_int (de_retry_after d)" unfolding r by (simp only: of_int_le_iff max.cobounded2)
    also have "\<dots> \<le> t - now" using t by simp
    finally have "1 - ?x \<le> (t - now) * lm_rate l" using rate by (simp add: pos_divide_le_eq)
    moreover have "1 \<le> de_retry_after d" by (simp add: r)
    then have "(1 :: rat) \<le> of_int (de_retry_after d)" by simp
    then have "now \<le> t" using t by linarith
    ultimately show ?thesis using assms(2) by (simp add: allowed lv)
  qed
  moreover have "\<not> de_allowed (fst (limiter_check (now + of_int (de_retry_after d) - 1) key l2))" if "1 < de_retry_after d"
  proof -
    have "de_retry_after d = \<lceil>(1 - ?x) / lm_rate l\<rceil>" using that by (simp add: r)
    then have "of_int (de_retry_after d) - 1 < (1 - ?x) / lm_rate l" using ceiling_correct [of "(1 - ?x) / lm_rate l"] by simp
    then have "(of_int (de_retry_after d) - 1) * lm_rate l < 1 - ?x" using rate by (simp add: pos_less_divide_eq)
    moreover have "now \<le> now + of_int (de_retry_after d) - 1" using that by simp
    ultimately show ?thesis by (simp add: allowed lv)
  qed
  ultimately show ?thesis by blast
qed

lemma retry_after_exact_witness:
  "\<exists>l1 l2 d ds. limiter_check 0 ''a'' \<lparr>lm_rate = 1 / 4, lm_burst = 2, lm_store = [(''a'', \<lparr>bs_tokens = 0, bs_updated = 0\<rparr>)]\<rparr> = (d, l1)
     \<and> checks [(1, ''b'')] l1 = (ds, l2) \<and> de_retry_after d = 4 \<and> de_allowed (fst (limiter_check 4 ''a'' l2)) \<and> \<not> de_allowed (fst (limiter_check 3 ''a'' l2))"
proof -
  let ?l = "\<lparr>lm_rate = 1 / 4, lm_burst = 2, lm_store = [(''a'', \<lparr>bs_tokens = 0, bs_updated = 0\<rparr>)]\<rparr>"
  obtain d l1 where run: "limiter_check 0 ''a'' ?l = (d, l1)" by fastforce
  then have d: "limiter_check 0 ''a'' ?l = (d, l1)" "\<not> de_allowed d" "de_retry_after d = 4"
    by (auto simp: limiter_check_def)
  obtain ds l2 where ds: "checks [(1, ''b'')] l1 = (ds, l2)" by fastforce
  have "limiter_ok ?l" by (simp add: limiter_ok_def)
  from retry_after_exact [OF this _ d(1,2) _ ds] d(1,3) ds show ?thesis by auto
qed

subsection \<open>One bucket for every replica\<close>

fun pg_checks :: "(string \<Rightarrow> string) \<Rightarrow> string \<Rightarrow> rat \<Rightarrow> rat \<Rightarrow> (rat \<times> string) list \<Rightarrow> bucket_table \<Rightarrow> decision list \<times> bucket_table" where
  "pg_checks H name rate burst [] t = ([], t)"
| "pg_checks H name rate burst ((now, key) # rs) t =
     (let (d, t) = pg_check H name rate burst now key t; (ds, t) = pg_checks H name rate burst rs t in (d # ds, t))"

text \<open>The table holds what the process would, under the hash of the client, and nothing from the future.\<close>

definition mirrors :: "(string \<Rightarrow> string) \<Rightarrow> string \<Rightarrow> string set \<Rightarrow> rat \<Rightarrow> limiter \<Rightarrow> bucket_table \<Rightarrow> bool" where
  "mirrors H name K now l table = (\<forall>k\<in>K. case (dict_get (lm_store l) k, dict_get table (name, H (utf8 k))) of
     (None, None) \<Rightarrow> True
   | (Some st, Some b) \<Rightarrow> br_tokens b = bs_tokens st \<and> br_updated b = bs_updated st \<and> bs_updated st \<le> now
   | _ \<Rightarrow> False)"

lemma mirrors_later: "mirrors H name K now l t \<Longrightarrow> now \<le> now' \<Longrightarrow> mirrors H name K now' l t"
  by (fastforce simp: mirrors_def split: option.splits)

lemma pg_row:
  assumes "mirrors H name K now l t" and "key \<in> K"
  shows "pg_upsert name (H (utf8 key)) (lm_rate l) (lm_burst l) now t =
    \<lparr>br_tokens = level l key now - of_bool (level l key now \<ge> 1), br_allowed = (level l key now \<ge> 1), br_updated = now\<rparr>"
proof -
  have m: "case (dict_get (lm_store l) key, dict_get t (name, H (utf8 key))) of
     (None, None) \<Rightarrow> True
   | (Some st, Some b) \<Rightarrow> br_tokens b = bs_tokens st \<and> br_updated b = bs_updated st \<and> bs_updated st \<le> now
   | _ \<Rightarrow> False" using assms by (simp add: mirrors_def)
  show ?thesis
  proof (cases "dict_get (lm_store l) key")
    case None
    then have "dict_get t (name, H (utf8 key)) = None" using m by (simp split: option.splits)
    with None show ?thesis by (simp add: pg_upsert_def level_def)
  next
    case (Some st)
    then obtain b where b: "dict_get t (name, H (utf8 key)) = Some b" "br_tokens b = bs_tokens st" "br_updated b = bs_updated st" "bs_updated st \<le> now"
      using m by (auto split: option.splits)
    then show ?thesis using Some by (simp add: pg_upsert_def level_def Let_def)
  qed
qed

lemma pg_check_same:
  assumes "mirrors H name K now l t" and "key \<in> K" and "inj_on (\<lambda>k. H (utf8 k)) K"
    and "limiter_check now key l = (d, l')" and "pg_check H name (lm_rate l) (lm_burst l) now key t = (d', t')"
  shows "d' = d \<and> mirrors H name K now l' t' \<and> lm_rate l' = lm_rate l \<and> lm_burst l' = lm_burst l
    \<and> (\<forall>n c. n \<noteq> name \<longrightarrow> dict_get t' (n, c) = dict_get t (n, c))"
proof -
  let ?x = "level l key now"
  note row = pg_row [OF assms(1,2)]
  have t': "t' = dict_set (name, H (utf8 key)) \<lparr>br_tokens = ?x - of_bool (?x \<ge> 1), br_allowed = (?x \<ge> 1), br_updated = now\<rparr> t"
    and d': "d' = (if ?x \<ge> 1 then \<lparr>de_allowed = True, de_retry_after = 0\<rparr> else \<lparr>de_allowed = False, de_retry_after = max 1 \<lceil>(1 - ?x) / lm_rate l\<rceil>\<rparr>)"
    using assms(5) by (auto simp: pg_check_def row Let_def split: if_splits)
  have l': "l' = l\<lparr>lm_store := dict_set key \<lparr>bs_tokens = ?x - of_bool (?x \<ge> 1), bs_updated = now\<rparr> (lm_store l)\<rparr>"
    and d: "d = d'" using assms(4) d' by (auto simp: limiter_check_level split: if_splits)
  have "H (utf8 k) = H (utf8 key) \<longleftrightarrow> k = key" if "k \<in> K" for k using assms(2,3) that by (auto dest: inj_onD)
  then have "mirrors H name K now l' t'" using assms(1) by (simp add: mirrors_def l' t')
  with d show ?thesis by (simp add: l' t')
qed

text \<open>C38: The bucket in Postgres is the bucket in the process. As long as the database's clock does not run back and no two clients
  collide under the hash, every check, one after the other as the row lock has it, is answered as the bucket in the process
  would answer it, with the same \<open>Retry-After\<close>, whatever the state of the other limits in the table, whose rows it leaves alone.
\<close>

theorem pg_bucket_same:
  assumes "limiter_new rate burst = Inr l" and "inj_on (\<lambda>k. H (utf8 k)) (snd ` set rs)" and "sorted (map fst rs)"
    and "\<And>c. dict_get table (name, c) = None"
    and "checks rs l = (ds, l')" and "pg_checks H name rate burst rs table = (ds', table')"
  shows "ds' = ds \<and> (\<forall>n c. n \<noteq> name \<longrightarrow> dict_get table' (n, c) = dict_get table (n, c))"
proof -
  have run: "ds' = ds \<and> (\<forall>n c. n \<noteq> name \<longrightarrow> dict_get t' (n, c) = dict_get t (n, c))"
    if "mirrors H name K t0 l t" "\<forall>r\<in>set rs. t0 \<le> fst r" "sorted (map fst rs)" "snd ` set rs \<subseteq> K" "inj_on (\<lambda>k. H (utf8 k)) K"
      "checks rs l = (ds, l')" "pg_checks H name (lm_rate l) (lm_burst l) rs t = (ds', t')" for K t0 l t rs ds ds' t'
    using that
  proof (induction rs arbitrary: t0 l t ds ds')
    case (Cons r rs)
    obtain now key where r: "r = (now, key)" by (cases r)
    obtain d m where d: "limiter_check now key l = (d, m)" by fastforce
    obtain e u where e: "pg_check H name (lm_rate l) (lm_burst l) now key t = (e, u)" by fastforce
    have m: "mirrors H name K now l t" using mirrors_later [OF Cons.prems(1), of now] Cons.prems(2) by (simp add: r)
    have key: "key \<in> K" using Cons.prems(4) by (simp add: r)
    note s = pg_check_same [OF m key Cons.prems(5) d e]
    obtain es where es: "checks rs m = (es, l')" "ds = d # es" using Cons.prems(6) d by (auto simp: r split: prod.splits)
    obtain fs where fs: "pg_checks H name (lm_rate m) (lm_burst m) rs u = (fs, t')" "ds' = e # fs"
      using Cons.prems(7) e s by (auto simp: r split: prod.splits)
    from s have mu: "mirrors H name K now m u" by blast
    have rest: "\<forall>x\<in>set rs. now \<le> fst x" "sorted (map fst rs)" "snd ` set rs \<subseteq> K" using Cons.prems(3,4) by (auto simp: r)
    from Cons.IH [OF mu rest Cons.prems(5) es(1) fs(1)] s es(2) fs(2) show ?case by simp
  qed simp
  have l: "lm_rate l = rate" "lm_burst l = burst" "lm_store l = []" using limiter_new_ok [OF assms(1)] by simp_all
  obtain t0 where t0: "\<forall>r\<in>set rs. t0 \<le> fst r" using assms(3) by (cases rs) auto
  have "mirrors H name (snd ` set rs) t0 l table" using assms(4) by (simp add: mirrors_def l(3))
  from run [OF this t0 assms(3) _ assms(2,5)] assms(6) l(1,2) show ?thesis by blast
qed

lemma pg_bucket_same_witness:
  "fst (pg_checks (\<lambda>x. x) ''/ask'' 1 2 [(0, ''a''), (0, ''a''), (0, ''a''), (1, ''b''), (2, ''a'')] [])
     = fst (checks [(0, ''a''), (0, ''a''), (0, ''a''), (1, ''b''), (2, ''a'')] \<lparr>lm_rate = 1, lm_burst = 2, lm_store = []\<rparr>)"
proof -
  let ?rs = "[(0, ''a''), (0, ''a''), (0, ''a''), (1, ''b''), (2, ''a'')] :: (rat \<times> string) list" and ?l = "\<lparr>lm_rate = 1, lm_burst = 2, lm_store = []\<rparr>"
  obtain ds l' where ds: "checks ?rs ?l = (ds, l')" by fastforce
  obtain ds' t' where ds': "pg_checks (\<lambda>x. x) ''/ask'' 1 2 ?rs [] = (ds', t')" by fastforce
  have "limiter_new 1 2 = Inr ?l" "inj_on (\<lambda>k. utf8 k) (snd ` set ?rs)" "sorted (map fst ?rs)"
    by (simp_all add: limiter_new_def inj_on_def)
  from pg_bucket_same [OF this _ ds ds'] ds ds' show ?thesis by simp
qed

end
