(* ===== verification/Reprocess.thy ===== *)
theory Reprocess
  imports Lifecycle
begin

text \<open>
  \<open>reprocess.py\<close>: taking a set of documents through the anonymizer again, going on after a failure. What an exception says of
  itself, its class, a fixed code, traits that are safe to record and the exception it came from, is a value of type \<open>exc\<close>;
  which one belongs to an error of the model is the parameter \<open>describe\<close>. The progress callback is left out.
\<close>

subsection \<open>What is recorded of a failure\<close>

datatype exc = Exc (ex_class: string) (ex_code: "string option") (ex_traits: "(string \<times> json) list") (ex_from: "exc option")

fun safe_traits :: "exc \<Rightarrow> (string \<times> json) list" where
  "safe_traits (Exc cls code traits cause) =
     (if traits \<noteq> [] then [(''kenmerken'', JObj traits)]
      else (case cause of None \<Rightarrow> [] | Some e \<Rightarrow> safe_traits e))"

definition exc_name :: "exc \<Rightarrow> string" where
  "exc_name e = (if truthy (ex_code e) then ex_class e @ ''['' @ the (ex_code e) @ '']'' else ex_class e)"

text \<open>At most five names, from the outside in.\<close>

fun chain_names :: "nat \<Rightarrow> exc option \<Rightarrow> string list" where
  "chain_names (Suc n) (Some e) = exc_name e # chain_names n (ex_from e)"
| "chain_names n e = []"

definition cause_chain :: "exc \<Rightarrow> string" where
  "cause_chain e = join '' <- '' (chain_names 5 (Some e))"

definition failure_payload :: "(error \<Rightarrow> exc) \<Rightarrow> error \<Rightarrow> json" where
  "failure_payload describe e = JObj ([(''error_class'', JStr (cause_chain (describe e))), (''transient'', JBool (is_transient e))]
     @ safe_traits (describe e))"

definition write_failure :: "(string \<Rightarrow> string) \<Rightarrow> datetime \<Rightarrow> (error \<Rightarrow> exc) \<Rightarrow> string \<Rightarrow> error \<Rightarrow> (world, unit) act" where
  "write_failure H now describe doc e =
     on_db (\<lambda>db. rbind (doc_state db doc) (\<lambda>s. case s of
         None \<Rightarrow> Inl AttributeError
       | Some s \<Rightarrow> rbind (note_event H now db doc s ''reprocess_failed'' (failure_payload describe e)) (\<lambda>db. Inr ((), db))))"

text \<open>In a session of its own, and no exception leaves it.\<close>

definition note_failure :: "(string \<Rightarrow> string) \<Rightarrow> datetime \<Rightarrow> (error \<Rightarrow> exc) \<Rightarrow> string \<Rightarrow> error \<Rightarrow> world \<Rightarrow> world" where
  "note_failure H now describe doc e w = snd (transaction (write_failure H now describe doc e) w)"

subsection \<open>One document\<close>

definition value_not_located_detail :: "corpus \<Rightarrow> string \<Rightarrow> string option" where
  "value_not_located_detail db doc = (case last_opt (by_seq (filter (\<lambda>r. ar_document_id r = doc) (trail (audit db)))) of
     None \<Rightarrow> None
   | Some r \<Rightarrow>
       if ar_step r \<noteq> ''value-not-located'' then None
       else Some (''value-not-located: '' @ py_str (payload_get ''pii_type'' (ar_payload r)) @ '' (''
          @ py_str (payload_get ''in_positioned'' (ar_payload r)) @ '' of ''
          @ py_str (payload_get ''in_anonymized'' (ar_payload r)) @ '' located)''))"

definition reprocess_one :: "(json \<Rightarrow> services result) \<Rightarrow> string \<Rightarrow> (world, string \<times> string option) act" where
  "reprocess_one build doc =
     andthen (on_db (\<lambda>db. rbind (doc_state db doc) (\<lambda>s. Inr (s, db)))) (\<lambda>s.
     if s \<notin> {Some INDEXED, Some ANONYMIZED} then ret (''skipped'', None)
     else
       andthen (reading (\<lambda>w. document_domain (w_db w) doc)) (\<lambda>domain.
       andthen (checked (build domain)) (\<lambda>sv.
       andthen (reanonymize sv doc) (\<lambda>_.
       andthen (reading (\<lambda>w. value_not_located_detail (w_db w) doc)) (\<lambda>detail.
       ret (''reanonymized'', detail))))))"

definition outdated :: "corpus \<Rightarrow> string list \<Rightarrow> string option \<Rightarrow> string list" where
  "outdated db ids lists_hash = filter (\<lambda>i. lists_hash_of db i \<noteq> opt_str lists_hash \<or> text_source_of db i \<noteq> JStr TEXT_SOURCE) ids"

fun select_indexed :: "corpus \<Rightarrow> string list \<Rightarrow> string list result" where
  "select_indexed db [] = Inr []"
| "select_indexed db (i # ids) = rbind (doc_state db i) (\<lambda>s. rbind (select_indexed db ids) (\<lambda>js.
     Inr (if s = Some INDEXED then i # js else js)))"

definition indexed_ids :: "corpus \<Rightarrow> string list result" where
  "indexed_ids db = select_indexed db (map dc_id (documents db))"

subsection \<open>The run\<close>

type_synonym tally = "(string, nat) dict \<times> (string, string) dict"

definition no_tally :: tally where
  "no_tally = ([(''reanonymized'', 0), (''skipped'', 0), (''retryable'', 0), (''failed'', 0)], [])"

definition reprocess_step ::
    "(string \<Rightarrow> string) \<Rightarrow> datetime \<Rightarrow> (error \<Rightarrow> exc) \<Rightarrow> (json \<Rightarrow> services result) \<Rightarrow> string \<Rightarrow> tally \<Rightarrow> world \<Rightarrow> tally \<times> world" where
  "reprocess_step H now describe build doc = (\<lambda>(counts, problems) w.
     case transaction (reprocess_one build doc) w of
       (Inr (outcome, detail), w) \<Rightarrow>
         ((dict_add outcome 1 counts, case detail of None \<Rightarrow> problems | Some d \<Rightarrow> dict_set doc d problems), w)
     | (Inl e, w) \<Rightarrow>
         ((dict_add (if is_transient e then ''retryable'' else ''failed'') 1 counts,
           dict_set doc (cause_chain (describe e)) problems), note_failure H now describe doc e w))"

fun reprocess_run ::
    "(string \<Rightarrow> string) \<Rightarrow> datetime \<Rightarrow> (error \<Rightarrow> exc) \<Rightarrow> (json \<Rightarrow> services result) \<Rightarrow> string list \<Rightarrow> tally \<Rightarrow> world \<Rightarrow> tally \<times> world" where
  "reprocess_run H now describe build [] t w = (t, w)"
| "reprocess_run H now describe build (doc # docs) t w =
     (let (t, w) = reprocess_step H now describe build doc t w in reprocess_run H now describe build docs t w)"

subsection \<open>What a run does to the register\<close>

text \<open>The states and documents of a register, as a run leaves them.\<close>

definition same_states :: "world \<Rightarrow> world \<Rightarrow> bool" where
  "same_states w w' = (documents (w_db w') = documents (w_db w) \<and> memberships (w_db w') = memberships (w_db w)
     \<and> (\<forall>i. doc_state (w_db w') i = doc_state (w_db w) i))"

lemma same_states_refl [simp]: "same_states w w"
  by (simp add: same_states_def)

lemma same_states_trans: "same_states a b \<Longrightarrow> same_states b c \<Longrightarrow> same_states a c"
  by (simp add: same_states_def)

lemma same_states_db: "w_db w' = w_db w \<Longrightarrow> same_states w w'"
  by (simp add: same_states_def)

definition makes :: "(string \<Rightarrow> string) \<Rightarrow> (string \<Rightarrow> bool) \<Rightarrow> (json \<Rightarrow> services result) \<Rightarrow> bool" where
  "makes H P build = (\<forall>d sv. build d = Inr sv \<longrightarrow> sv_hash sv = H \<and> wired sv \<and> (\<forall>t. anonymizer_output sv t \<longrightarrow> P t))"

lemma one_runs:
  assumes "reprocess_one build doc w = (r, w')"
  shows "(w' = w \<and> (\<forall>x. r = Inr x \<longrightarrow> x = (''skipped'', None)))
    \<or> (\<exists>d sv r1. build d = Inr sv \<and> reanonymize sv doc w = (r1, w')
        \<and> (case r of Inl e \<Rightarrow> r1 = Inl e | Inr x \<Rightarrow> fst x = ''reanonymized'' \<and> (\<exists>s. r1 = Inr s)))"
proof (cases "doc_state (w_db w) doc")
  case (Inl e)
  then show ?thesis using assms by (auto simp: reprocess_one_def andthen_def on_db_def)
next
  case (Inr s)
  then have run: "(if s \<notin> {Some INDEXED, Some ANONYMIZED} then ret (''skipped'', None)
     else andthen (reading (\<lambda>w. document_domain (w_db w) doc)) (\<lambda>domain. andthen (checked (build domain)) (\<lambda>sv.
       andthen (reanonymize sv doc) (\<lambda>_. andthen (reading (\<lambda>w. value_not_located_detail (w_db w) doc)) (\<lambda>detail.
       ret (''reanonymized'', detail)))))) w = (r, w')"
    using assms by (auto simp: reprocess_one_def andthen_def on_db_def)
  show ?thesis
  proof (cases "s \<in> {Some INDEXED, Some ANONYMIZED}")
    case False
    then show ?thesis using run by auto
  next
    case True
    show ?thesis
    proof (cases "build (document_domain (w_db w) doc)")
      case (Inl e)
      then show ?thesis using run True by (auto simp: andthen_def)
    next
      case (Inr sv)
      obtain r1 w1 where r1: "reanonymize sv doc w = (r1, w1)" by fastforce
      with run True Inr have "w1 = w' \<and> (case r of Inl e \<Rightarrow> r1 = Inl e | Inr x \<Rightarrow> fst x = ''reanonymized'' \<and> (\<exists>s. r1 = Inr s))"
        by (cases r1) (auto simp: andthen_def)
      with Inr r1 show ?thesis by blast
    qed
  qed
qed

lemma one_keeps:
  assumes "digest64 H" and "makes H P build" and "sound H P w" and "transaction (reprocess_one build doc) w = (r, w')"
  shows "sound H P w' \<and> same_states w w'"
proof -
  obtain w1 where w1: "reprocess_one build doc w = (r, w1)" "w' = (case r of Inl _ \<Rightarrow> roll_back w w1 | Inr _ \<Rightarrow> w1)"
    using retried [OF assms(4)] by blast
  from one_runs [OF w1(1)] show ?thesis
  proof (elim disjE exE conjE)
    assume "w1 = w"
    then have "w_db w' = w_db w" "w_index w' = w_index w" by (auto simp: w1(2) split: sum.splits)
    then show ?thesis using sound_db [OF assms(3)] by (simp add: shrinks_same same_states_db)
  next
    fix d sv r1
    assume sv: "build d = Inr sv" and r1: "reanonymize sv doc w = (r1, w1)"
      and same: "case r of Inl e \<Rightarrow> r1 = Inl e | Inr x \<Rightarrow> fst x = ''reanonymized'' \<and> (\<exists>s. r1 = Inr s)"
    have h: "sv_hash sv = H" "wired sv" "\<forall>t. anonymizer_output sv t \<longrightarrow> P t" using assms(2) sv by (auto simp: makes_def)
    note serves = wired_serves [OF h(2,3)]
    have w': "w' = (case r1 of Inl _ \<Rightarrow> roll_back w w1 | Inr _ \<Rightarrow> w1)" using same w1(2) by (cases r) auto
    then have t: "transaction (reanonymize sv doc) w = (r1, w')" using r1 by (simp add: transaction_def split: sum.split)
    have "sound H P w'" using sound_reanonymize [OF _ serves _ t] assms(1,3) h(1) by simp
    moreover have "same_states w w'"
    proof (cases r1)
      case (Inl e)
      then show ?thesis using w' by (simp add: same_states_db)
    next
      case (Inr x)
      have s: "corpus_ok H (w_db w)" "texts_ok P (w_db w)" "index_ok P (w_index w)" using assms(3) by (simp_all add: sound_def)
      obtain s0 where s0: "at_state H P doc w s0 w" using at_start [OF assms(1) s] by blast
      from triple_run [OF pipeline_services.reanonymize_held [OF serves] s0 [folded h(1)] r1] Inr
      have "at_state H P doc w s0 w1" by (simp add: h(1))
      then have "at_state H P doc w s0 w1 \<and> doc_state (w_db w) doc = Inr s0" using s0 by (simp add: at_state_def)
      then have g: "others_same doc w w1" "doc_state (w_db w1) doc = doc_state (w_db w) doc" by (simp_all add: at_state_def going_def)
      have "doc_state (w_db w1) i = doc_state (w_db w) i" for i using g by (cases "i = doc") (simp_all add: others_same_def)
      with g(1) Inr w' show ?thesis by (simp add: same_states_def others_same_def)
    qed
    ultimately show ?thesis by blast
  qed
qed

lemma note_failure_keeps:
  assumes "digest64 H" and "sound H P w"
  shows "sound H P (note_failure H now describe doc e w) \<and> same_states w (note_failure H now describe doc e w)"
proof -
  obtain r w' where t: "transaction (write_failure H now describe doc e) w = (r, w')" by fastforce
  obtain w1 where w1: "write_failure H now describe doc e w = (r, w1)" "w' = (case r of Inl _ \<Rightarrow> roll_back w w1 | Inr _ \<Rightarrow> w1)"
    using retried [OF t] by blast
  have ix: "w_index w1 = w_index w" using w1(1) by (auto simp: write_failure_def on_db_def split: sum.splits)
  have "sound H P w' \<and> same_states w w'"
  proof (cases r)
    case (Inl x)
    then have "w_db w' = w_db w" "w_index w' = w_index w" using w1(2) ix by simp_all
    then show ?thesis using sound_db [OF assms(2)] by (simp add: shrinks_same same_states_db)
  next
    case (Inr x)
    obtain s db where db: "doc_state (w_db w) doc = Inr (Some s)" "note_event H now (w_db w) doc s ''reprocess_failed'' (failure_payload describe e) = Inr db"
      "w1 = w\<lparr>w_db := db\<rparr>" using w1(1) Inr by (auto simp: write_failure_def result_simps on_db_Inr split: option.splits)
    have ok: "corpus_ok H (w_db w)" using assms(2) by (simp add: sound_def)
    note n = note_event_ok [OF assms(1) ok db(1,2)]
    then obtain a where a: "db = (w_db w)\<lparr>audit := a\<rparr>" by blast
    have ok1: "corpus_ok H db" using n by (elim conjE)
    have st: "\<forall>d. doc_state db d = doc_state (w_db w) d" using n by (elim conjE)
    have "w' = w\<lparr>w_db := db\<rparr>" using w1(2) Inr db(3) by simp
    moreover from this have "sound H P w'" using a ok1 st by (intro sound_calm [OF assms(2)]) (simp_all add: calm_def shrinks_same)
    ultimately show ?thesis using a st by (simp add: same_states_def)
  qed
  then show ?thesis by (simp add: note_failure_def t)
qed

text \<open>What a run does with one document: the outcome it is counted under, the problem named for it, and the world after it.\<close>

definition renewal :: "(json \<Rightarrow> services result) \<Rightarrow> string \<Rightarrow> (world, state option) act" where
  "renewal build doc w = (case build (document_domain (w_db w) doc) of Inl e \<Rightarrow> (Inl e, w) | Inr sv \<Rightarrow> transaction (reanonymize sv doc) w)"

definition failure_noted :: "(string \<Rightarrow> string) \<Rightarrow> datetime \<Rightarrow> string \<Rightarrow> state \<Rightarrow> json \<Rightarrow> world \<Rightarrow> world \<Rightarrow> bool" where
  "failure_noted H now doc s payload w w' =
     (case note_event H now (w_db w) doc s ''reprocess_failed'' payload of
        Inl _ \<Rightarrow> w' = w
      | Inr db \<Rightarrow> w' = w\<lparr>w_db := db\<rparr>
          \<and> (\<exists>x. doc_trail (audit db) doc = doc_trail (audit (w_db w)) doc @ [x] \<and> ar_step x = ''reprocess_failed'' \<and> ar_payload x = payload))"

definition document_outcome ::
    "(string \<Rightarrow> string) \<Rightarrow> datetime \<Rightarrow> (error \<Rightarrow> exc) \<Rightarrow> (json \<Rightarrow> services result) \<Rightarrow> string \<Rightarrow> world \<Rightarrow> string \<Rightarrow> string option \<Rightarrow> world \<Rightarrow> bool" where
  "document_outcome H now describe build doc w out problem w' =
     (\<exists>s. doc_state (w_db w) doc = Inr s \<and> (case s of
        None \<Rightarrow> out = ''skipped'' \<and> problem = None \<and> w' = w
      | Some s \<Rightarrow>
          if s \<notin> {INDEXED, ANONYMIZED} then out = ''skipped'' \<and> problem = None \<and> w' = w
          else case renewal build doc w of
            (Inr _, v) \<Rightarrow> out = ''reanonymized'' \<and> problem = value_not_located_detail (w_db v) doc \<and> w' = v
          | (Inl e, v) \<Rightarrow> out = (if is_transient e then ''retryable'' else ''failed'') \<and> problem = Some (cause_chain (describe e))
              \<and> failure_noted H now doc s (failure_payload describe e) v w'))"

lemma one_is_renewal:
  assumes "doc_state (w_db w) doc = Inr (Some s)" and "s \<in> {INDEXED, ANONYMIZED}"
  shows "transaction (reprocess_one build doc) w = (case renewal build doc w of
    (Inl e, v) \<Rightarrow> (Inl e, v) | (Inr _, v) \<Rightarrow> (Inr (''reanonymized'', value_not_located_detail (w_db v) doc), v))"
proof (cases "build (document_domain (w_db w) doc)")
  case (Inl e)
  then show ?thesis using assms by (auto simp: transaction_def reprocess_one_def renewal_def andthen_def on_db_def)
next
  case (Inr sv)
  obtain r v where "reanonymize sv doc w = (r, v)" by fastforce
  then show ?thesis using assms Inr by (cases r) (auto simp: transaction_def reprocess_one_def renewal_def andthen_def on_db_def)
qed

lemma note_failure_noted:
  assumes "digest64 H" and "sound H P w" and "doc_state (w_db w) doc = Inr (Some s)"
  shows "failure_noted H now doc s (failure_payload describe e) w (note_failure H now describe doc e w)"
proof (cases "note_event H now (w_db w) doc s ''reprocess_failed'' (failure_payload describe e)")
  case (Inl err)
  then show ?thesis using assms(3) by (simp add: failure_noted_def note_failure_def write_failure_def transaction_def on_db_def)
next
  case (Inr db)
  have ok: "corpus_ok H (w_db w)" using assms(2) by (simp add: sound_def)
  from note_event_ok [OF assms(1) ok assms(3) Inr] Inr assms(3) show ?thesis
    by (auto simp: failure_noted_def note_failure_def write_failure_def transaction_def on_db_def)
qed

lemma step_outcome:
  assumes "digest64 H" and "makes H P build" and "sound H P w" and "reprocess_step H now describe build doc t w = (t', w')"
  shows "\<exists>out problem. document_outcome H now describe build doc w out problem w' \<and> fst t' = dict_add out 1 (fst t)
    \<and> dict_get (snd t') = (dict_get (snd t))(doc := case problem of None \<Rightarrow> dict_get (snd t) doc | Some x \<Rightarrow> Some x)"
proof -
  obtain counts problems where t: "t = (counts, problems)" by (cases t)
  have "corpus_ok H (w_db w)" using assms(3) by (simp add: sound_def)
  then obtain s where s: "doc_state (w_db w) doc = Inr s" using trail_state [of H "audit (w_db w)" doc] by (auto simp: corpus_ok_def doc_state_def)
  show ?thesis
  proof (cases "s \<in> {Some INDEXED, Some ANONYMIZED}")
    case False
    then have "transaction (reprocess_one build doc) w = (Inr (''skipped'', None), w)" using s by (auto simp: transaction_def reprocess_one_def andthen_def on_db_def)
    then show ?thesis using assms(4) s False
      by (intro exI [of _ "''skipped''"] exI [of _ None]) (auto simp: reprocess_step_def t document_outcome_def split: option.split)
  next
    case True
    then obtain s1 where s1: "s = Some s1" "s1 \<in> {INDEXED, ANONYMIZED}" by auto
    obtain r v where r: "renewal build doc w = (r, v)" by fastforce
    note one = one_is_renewal [OF s [unfolded s1(1)] s1(2), of build, unfolded r]
    show ?thesis
    proof (cases r)
      case (Inr x)
      then have "t' = (dict_add ''reanonymized'' 1 counts, case value_not_located_detail (w_db v) doc of None \<Rightarrow> problems | Some d \<Rightarrow> dict_set doc d problems)" "w' = v"
        using assms(4) one by (simp_all add: reprocess_step_def t eq_commute [of _ t'])
      then show ?thesis using s s1 r Inr
        by (intro exI [of _ "''reanonymized''"] exI [of _ "value_not_located_detail (w_db v) doc"]) (auto simp: t document_outcome_def split: option.split)
    next
      case (Inl e)
      then have u: "t' = (dict_add (if is_transient e then ''retryable'' else ''failed'') 1 counts, dict_set doc (cause_chain (describe e)) problems)"
        "w' = note_failure H now describe doc e v" using assms(4) one by (simp_all add: reprocess_step_def t)
      have "sound H P v \<and> same_states w v" using one_keeps [OF assms(1-3)] one Inl by auto
      then have "sound H P v" "doc_state (w_db v) doc = Inr (Some s1)" using s s1 by (auto simp: same_states_def)
      from note_failure_noted [OF assms(1) this] show ?thesis using s s1 r Inl u
        by (intro exI [of _ "if is_transient e then ''retryable'' else ''failed''"] exI [of _ "Some (cause_chain (describe e))"])
          (auto simp: t document_outcome_def)
    qed
  qed
qed

lemma step_sound:
  assumes "digest64 H" and "makes H P build" and "sound H P w" and "document_outcome H now describe build doc w out problem w'"
    and "reprocess_step H now describe build doc t w = (t', w')"
  shows "sound H P w' \<and> same_states w w'"
proof -
  obtain counts problems where t: "t = (counts, problems)" by (cases t)
  obtain r w1 where r: "transaction (reprocess_one build doc) w = (r, w1)" by fastforce
  note one = one_keeps [OF assms(1-3) r]
  show ?thesis
  proof (cases r)
    case (Inl e)
    have "sound H P w1" using one by blast
    from note_failure_keeps [OF assms(1) this] one assms(5) Inl r show ?thesis
      using same_states_trans by (auto simp: reprocess_step_def t)
  qed (use one assms(5) r in \<open>auto simp: reprocess_step_def t\<close>)
qed

text \<open>The run: one outcome for each document, in the world the one before left.\<close>

lemma run_trace:
  assumes "digest64 H" and "makes H P build"
  shows "sound H P w \<Longrightarrow> distinct ids \<Longrightarrow> reprocess_run H now describe build ids t w = (t', w') \<Longrightarrow>
    sound H P w' \<and> same_states w w' \<and> (\<exists>outs problems ws. length outs = length ids \<and> length problems = length ids \<and> length ws = Suc (length ids)
      \<and> ws ! 0 = w \<and> ws ! length ids = w' \<and> (\<forall>v\<in>set ws. same_states w v)
      \<and> (\<forall>i<length ids. document_outcome H now describe build (ids ! i) (ws ! i) (outs ! i) (problems ! i) (ws ! Suc i))
      \<and> (\<forall>k. dict_count (fst t') k = dict_count (fst t) k + count_list outs k)
      \<and> (\<forall>i<length ids. dict_get (snd t') (ids ! i) = (case problems ! i of None \<Rightarrow> dict_get (snd t) (ids ! i) | Some x \<Rightarrow> Some x))
      \<and> (\<forall>d. d \<notin> set ids \<longrightarrow> dict_get (snd t') d = dict_get (snd t) d))"
proof (induction ids arbitrary: t w)
  case Nil
  then show ?case by (intro conjI exI [of _ "[]"] exI [of _ "[w]"]) auto
next
  case (Cons doc ids)
  obtain t1 w1 where s: "reprocess_step H now describe build doc t w = (t1, w1)" by fastforce
  obtain out problem where o: "document_outcome H now describe build doc w out problem w1" "fst t1 = dict_add out 1 (fst t)"
    "dict_get (snd t1) = (dict_get (snd t))(doc := case problem of None \<Rightarrow> dict_get (snd t) doc | Some x \<Rightarrow> Some x)"
    using step_outcome [OF assms Cons.prems(1) s] by blast
  have k: "sound H P w1" "same_states w w1" using step_sound [OF assms Cons.prems(1) o(1) s] by blast+
  have run: "reprocess_run H now describe build ids t1 w1 = (t', w')" using Cons.prems(3) s by simp
  have d: "distinct ids" "doc \<notin> set ids" using Cons.prems(2) by simp_all
  obtain outs problems ws where ih: "sound H P w'" "same_states w1 w'" "length outs = length ids" "length problems = length ids" "length ws = Suc (length ids)"
      "ws ! 0 = w1" "ws ! length ids = w'" "\<forall>v\<in>set ws. same_states w1 v"
      "\<forall>i<length ids. document_outcome H now describe build (ids ! i) (ws ! i) (outs ! i) (problems ! i) (ws ! Suc i)"
      "\<forall>k. dict_count (fst t') k = dict_count (fst t1) k + count_list outs k"
      "\<forall>i<length ids. dict_get (snd t') (ids ! i) = (case problems ! i of None \<Rightarrow> dict_get (snd t1) (ids ! i) | Some x \<Rightarrow> Some x)"
      "\<forall>d. d \<notin> set ids \<longrightarrow> dict_get (snd t') d = dict_get (snd t1) d"
    using Cons.IH [OF k(1) d(1) run] by (elim exE conjE) (rule that)
  have same: "dict_get (snd t1) (ids ! i) = dict_get (snd t) (ids ! i)" if "i < length ids" for i
    using o(3) d(2) nth_mem [OF that] by auto
  have "sound H P w' \<and> same_states w w'" using ih(1,2) k(2) same_states_trans by blast
  moreover have "document_outcome H now describe build ((doc # ids) ! i) ((w # ws) ! i) ((out # outs) ! i) ((problem # problems) ! i) ((w # ws) ! Suc i)"
    if "i < length (doc # ids)" for i using that ih(6,9) o(1) by (cases i) auto
  moreover have "dict_get (snd t') ((doc # ids) ! i) = (case (problem # problems) ! i of None \<Rightarrow> dict_get (snd t) ((doc # ids) ! i) | Some x \<Rightarrow> Some x)"
    if "i < length (doc # ids)" for i using that ih(11,12) o(3) d(2) same by (cases i) (auto split: option.splits)
  moreover have "dict_count (fst t') k = dict_count (fst t) k + count_list (out # outs) k" for k using ih(10) o(2) by simp
  moreover have "e \<notin> set (doc # ids) \<longrightarrow> dict_get (snd t') e = dict_get (snd t) e" for e using ih(12) o(3) by simp
  moreover have "\<forall>v\<in>set (w # ws). same_states w v"
    using ih(8) k(2) same_states_trans [of w w1] by (auto simp: same_states_def)
  ultimately show ?case using ih(3-5,7)
    by (intro conjI exI [of _ "out # outs"] exI [of _ "problem # problems"] exI [of _ "w # ws"] allI impI) simp_all
qed

text \<open>C31: Taking a corpus through the anonymizer again is safe and leaves nobody out. A run over distinct documents, in which any
  number of them may fail in any way, ends with a register that is as sound as it was: every text and every index entry an
  output of an anonymizer in use, every document in the state it had, none added or lost. The documents are taken one after the other, each in the world the one before left
  (\<open>ws\<close>): one in a state to be renewed goes through \<open>reanonymize\<close> with the services built for its domain, any other is skipped and untouched; if building or renewing raises, the
  tables are put back, the failure is put on the document's trail with its classes and whether another attempt may help (unless the trail itself refuses the record), and the run
  goes on. Each document is counted once under its outcome, and a problem is named for exactly those that failed or were left with a value that could not be located.
\<close>

theorem reprocess_accounts:
  assumes "digest64 H" and "makes H P build" and "sound H P w" and "distinct ids"
    and "reprocess_run H now describe build ids no_tally w = ((counts, problems), w')"
  shows "sound H P w' \<and> documents (w_db w') = documents (w_db w) \<and> memberships (w_db w') = memberships (w_db w)
    \<and> doc_state (w_db w') = doc_state (w_db w)
    \<and> (\<exists>outs ws. length outs = length ids \<and> length ws = Suc (length ids) \<and> ws ! 0 = w \<and> ws ! length ids = w'
        \<and> (\<forall>v\<in>set ws. doc_state (w_db v) = doc_state (w_db w))
        \<and> (\<forall>i<length ids. document_outcome H now describe build (ids ! i) (ws ! i) (outs ! i) (dict_get problems (ids ! i)) (ws ! Suc i))
        \<and> dict_count counts = count_list outs \<and> dom (dict_get problems) \<subseteq> set ids)"
proof -
  obtain outs pr ws where r: "sound H P w'" "same_states w w'" "length outs = length ids" "length pr = length ids" "length ws = Suc (length ids)" "ws ! 0 = w" "ws ! length ids = w'"
      "\<forall>v\<in>set ws. same_states w v" "\<forall>i<length ids. document_outcome H now describe build (ids ! i) (ws ! i) (outs ! i) (pr ! i) (ws ! Suc i)"
      "\<forall>k. dict_count counts k = dict_count (fst no_tally) k + count_list outs k"
      "\<forall>i<length ids. dict_get problems (ids ! i) = (case pr ! i of None \<Rightarrow> dict_get (snd no_tally) (ids ! i) | Some x \<Rightarrow> Some x)"
      "\<forall>d. d \<notin> set ids \<longrightarrow> dict_get problems d = dict_get (snd no_tally) d"
    using run_trace [OF assms, unfolded fst_conv snd_conv] by (elim exE conjE) (rule that)
  have p: "dict_get problems (ids ! i) = pr ! i" if "i < length ids" for i using r(11) that by (simp add: no_tally_def split: option.splits)
  have "dict_count counts = count_list outs" using r(10) by (auto simp: no_tally_def dict_count_def)
  moreover have "dom (dict_get problems) \<subseteq> set ids" using r(12) by (auto simp: no_tally_def domIff)
  ultimately show ?thesis using r(1-3,5-9) p by (auto simp: same_states_def fun_eq_iff intro!: exI [of _ outs] exI [of _ ws])
qed

text \<open>A run over an indexed document whose services cannot be built, and one that is only registered: the first fails, the second is skipped.\<close>

lemma sample_indexed:
  "\<exists>(w :: world). sound tick_hash (anonymizer_output sample_services) w \<and> doc_state (w_db w) ''a'' = Inr (Some INDEXED) \<and> doc_state (w_db w) ''b'' = Inr (Some REGISTERED)"
proof -
  let ?P = "anonymizer_output sample_services"
  obtain db where db: "sample_corpus db" using sample_corpus_exists by blast
  then have k: "map_option dc_object_key (document_by_id db ''a'') = Some ''documents/1''"
    by (auto simp: sample_corpus_def document_by_id_def map_eq_Cons_conv)
  define w where "w = (sample_world db)\<lparr>w_store := Plain \<lparr>ob_data = [(''documents/1'', ''%PDF'')], ob_modified = []\<rparr>, w_index := empty_index\<rparr>"
  have w: "sample_ready 2 (Some REGISTERED) w" "texts_ok ?P (w_db w)" "index_ok ?P (w_index w)"
    using db k by (simp_all add: w_def sample_corpus_def sample_world_def sample_ready_def texts_ok_def index_ok_def empty_index_def)
  have st: "doc_state (w_db w) ''b'' = Inr (Some REGISTERED)" "\<forall>i. doc_state (w_db w) i \<noteq> Inr (Some DELETED)"
    using db by (simp_all add: w_def sample_world_def sample_corpus_def)
  obtain w1 where w1: "process sample_services ''a'' w = (Inr (Some INDEXED), w1)" "sample_ready 6 (Some INDEXED) w1" using sample_run [OF w(1)] by auto
  obtain s0 where "at_state (sv_hash sample_services) ?P ''a'' w s0 w"
    using at_start [of "sv_hash sample_services" w ?P "''a''"] w by (auto simp: sample_ready_def)
  from triple_run [OF wired_process [OF wired_sample] this w1(1)]
  have g: "corpus_ok tick_hash (w_db w1)" "texts_ok ?P (w_db w1)" "index_ok ?P (w_index w1)" "others_same ''a'' w w1"
    by (simp_all add: at_state_def going_def)
  have a: "doc_state (w_db w1) ''a'' = Inr (Some INDEXED)" using w1(2) by (simp add: sample_ready_def)
  have o: "doc_state (w_db w1) i = doc_state (w_db w) i" if "i \<noteq> ''a''" for i using g(4) that by (simp add: others_same_def)
  have no: "doc_state (w_db w1) i \<noteq> Inr (Some DELETED)" for i using a o [of i] st(2) by (cases "i = ''a''") auto
  have "sound tick_hash ?P w1" using g(1-3) no by (simp add: sound_def)
  moreover have "doc_state (w_db w1) ''b'' = Inr (Some REGISTERED)" using o [of "''b''"] st(1) by simp
  ultimately show ?thesis using a by blast
qed

lemma reprocess_accounts_witness:
  "\<exists>(w :: world) (w' :: world) counts problems. reprocess_run tick_hash sample_time (\<lambda>_. Exc ''ValueError'' None [] None) (\<lambda>_. Inl ValueError) [''a'', ''b''] no_tally w
      = ((counts, problems), w') \<and> dict_count counts ''failed'' = 1 \<and> dict_count counts ''skipped'' = 1
      \<and> dict_get problems ''a'' = Some ''ValueError'' \<and> dict_get problems ''b'' = None \<and> sound tick_hash (anonymizer_output sample_services) w'"
proof -
  let ?P = "anonymizer_output sample_services" and ?d = "\<lambda>_ :: error. Exc ''ValueError'' None [] None" and ?b = "\<lambda>_ :: json. Inl ValueError :: services result"
  have m: "makes tick_hash ?P ?b" by (simp add: makes_def)
  obtain w where s: "sound tick_hash ?P w" and st: "doc_state (w_db w) ''a'' = Inr (Some INDEXED)" "doc_state (w_db w) ''b'' = Inr (Some REGISTERED)"
    using sample_indexed by blast
  obtain counts problems w' where run: "reprocess_run tick_hash sample_time ?d ?b [''a'', ''b''] no_tally w = ((counts, problems), w')"
    by (metis prod.exhaust)
  have d: "distinct [''a'', ''b'']" by simp
  from reprocess_accounts [OF digest_tick m s d run] obtain outs ws where
    o: "sound tick_hash ?P w'" "doc_state (w_db w') = doc_state (w_db w)" "length outs = Suc (Suc 0)" "ws ! 0 = w" "ws ! Suc (Suc 0) = w'" "\<forall>v\<in>set ws. doc_state (w_db v) = doc_state (w_db w)" "dict_count counts = count_list outs"
      "length ws = Suc (Suc (Suc 0))" "\<forall>i<Suc (Suc 0). document_outcome tick_hash sample_time ?d ?b ([''a'', ''b''] ! i) (ws ! i) (outs ! i) (dict_get problems ([''a'', ''b''] ! i)) (ws ! Suc i)"
    by (elim exE conjE) (simp only: list.size add_0_right add_Suc_right)
  have rn: "renewal ?b doc v = (Inl ValueError, v)" for doc v by (simp add: renewal_def)
  have 0: "document_outcome tick_hash sample_time ?d ?b ''a'' w (outs ! 0) (dict_get problems ''a'') (ws ! Suc 0)"
    using spec [OF o(9), of 0] o(4) by simp
  have 1: "document_outcome tick_hash sample_time ?d ?b ''b'' (ws ! Suc 0) (outs ! Suc 0) (dict_get problems ''b'') w'"
    using spec [OF o(9), of "Suc 0"] o(5) by simp
  have chain: "cause_chain (Exc ''ValueError'' None [] None) = ''ValueError''" by code_simp
  have p: "outs ! 0 = ''failed''" "dict_get problems ''a'' = Some ''ValueError''"
    using 0 st(1) chain by (simp_all add: document_outcome_def rn)
  have "doc_state (w_db (ws ! Suc 0)) ''b'' = Inr (Some REGISTERED)" using o(6,8) st(2) nth_mem [of "Suc 0" ws] by simp
  then have q: "outs ! Suc 0 = ''skipped''" "dict_get problems ''b'' = None" using 1 by (simp_all add: document_outcome_def)
  obtain x y where "outs = [x, y]" using o(3) by (auto simp: length_Suc_conv)
  then have "outs = [''failed'', ''skipped'']" using p(1) q(1) by simp
  then have "dict_count counts ''failed'' = 1" "dict_count counts ''skipped'' = 1" using o(7) by simp_all
  then show ?thesis using run p(2) q(2) o(1) by blast
qed

end
