(* ===== verification/Vc.thy ===== *)
theory Vc
  imports AccessIdentity
begin

text \<open>
  \<open>vc.py\<close>: issuing, presenting and verifying an SD-JWT credential, and the gate that narrows a reveal by one. The cryptography
  library's ECDSA is the parameters \<open>sign\<close> and \<open>ecdsa\<close>, on the 64 bytes \<open>R || S\<close>; \<open>HD\<close> is the SHA-256 digest of bytes. The
  time is the \<open>timestamp()\<close> of the clock, in seconds. Reading a key from PEM is the library's.
\<close>

subsection \<open>base64url\<close>

definition b64u_char :: "nat \<Rightarrow> char" where
  "b64u_char n = (if n < 26 then char_of (n + 65) else if n < 52 then char_of (n + 71) else if n < 62 then char_of (n - 4)
     else if n = 62 then CHR ''-'' else CHR ''_'')"

fun b64u_encode :: "string \<Rightarrow> string" where
  "b64u_encode [] = []"
| "b64u_encode [a] = [b64u_char (cp a div 4), b64u_char (cp a mod 4 * 16)]"
| "b64u_encode [a, b] = [b64u_char (cp a div 4), b64u_char (cp a mod 4 * 16 + cp b div 16), b64u_char (cp b mod 16 * 4)]"
| "b64u_encode (a # b # c # s) =
     b64u_char (cp a div 4) # b64u_char (cp a mod 4 * 16 + cp b div 16) # b64u_char (cp b mod 16 * 4 + cp c div 64)
       # b64u_char (cp c mod 64) # b64u_encode s"

lemma b64u_char_simps:
  assumes "n < 64"
  shows "b64_val (b64u_char n) = Some n" "b64u_char n \<noteq> CHR ''=''" "b64u_char n \<noteq> CHR ''.''" "b64u_char n \<noteq> CHR ''~''" "cp (b64u_char n) < 128"
proof -
  consider "n < 26" | "26 \<le> n" "n < 52" | "52 \<le> n" "n < 62" | "n = 62" | "n = 63" using assms by linarith
  then have "cp (b64u_char n) \<in> {45, 95} \<union> {48..57} \<union> {65..90} \<union> {97..122} \<and> b64_val (b64u_char n) = Some n"
    by cases (auto simp: b64u_char_def b64_val_def is_upper_az_def is_lower_az_def is_decimal_def Let_def)
  then show "b64_val (b64u_char n) = Some n" "b64u_char n \<noteq> CHR ''=''" "b64u_char n \<noteq> CHR ''.''" "b64u_char n \<noteq> CHR ''~''" "cp (b64u_char n) < 128"
    by auto
qed

lemma cp_bounds: "cp c div 4 < 64" "cp c mod 4 * 16 < 64" "cp c mod 4 * 16 + cp d div 16 < 64" "cp c mod 16 * 4 < 64"
    "cp c mod 16 * 4 + cp d div 64 < 64" "cp c mod 64 < 64"
proof -
  have "cp d div 16 < 16" "cp d div 64 < 4" "cp c div 4 < 64" using cp_less [of c] cp_less [of d] by (simp_all add: less_mult_imp_div_less)
  moreover have "cp c mod 4 < 4" "cp c mod 16 < 16" "cp c mod 64 < 64" by simp_all
  ultimately show "cp c div 4 < 64" "cp c mod 4 * 16 < 64" "cp c mod 4 * 16 + cp d div 16 < 64" "cp c mod 16 * 4 < 64"
    "cp c mod 16 * 4 + cp d div 64 < 64" "cp c mod 64 < 64" by linarith+
qed

lemma b64u_encode_chars: "c \<in> set (b64u_encode s) \<Longrightarrow> c \<noteq> CHR ''='' \<and> c \<noteq> CHR ''.'' \<and> c \<noteq> CHR ''~'' \<and> cp c < 128"
  by (induction s rule: b64u_encode.induct) (auto simp: b64u_char_simps cp_bounds)

lemma length_b64u: "length (b64u_encode s) = length s div 3 * 4 + (if length s mod 3 = 0 then 0 else length s mod 3 + 1)"
  by (induction s rule: b64u_encode.induct) auto

text \<open>A group of four put back together.\<close>

lemma b64_groups:
  "4 * (cp a div 4) + (cp a mod 4 * 16 + cp b div 16) div 16 = cp a"
  "16 * ((cp a mod 4 * 16 + cp b div 16) mod 16) + (cp b mod 16 * 4 + cp c div 64) div 4 = cp b"
  "64 * ((cp b mod 16 * 4 + cp c div 64) mod 4) + cp c mod 64 = cp c"
proof -
  have "cp b div 16 < 16" "cp c div 64 < 4" using cp_less [of b] cp_less [of c] by (simp_all add: less_mult_imp_div_less)
  then have "cp b div 16 div 16 = 0" "cp b div 16 mod 16 = cp b div 16" "cp c div 64 div 4 = 0" "cp c div 64 mod 4 = cp c div 64" by simp_all
  then show "4 * (cp a div 4) + (cp a mod 4 * 16 + cp b div 16) div 16 = cp a"
    "16 * ((cp a mod 4 * 16 + cp b div 16) mod 16) + (cp b mod 16 * 4 + cp c div 64) div 4 = cp b"
    "64 * ((cp b mod 16 * 4 + cp c div 64) mod 4) + cp c mod 64 = cp c" by simp_all
qed

lemma cp_0_char: "cp (CHR 0x00) = 0"
  by simp

lemma a2b_b64u:
  "a2b 0 l p (b64u_encode s @ replicate ((4 - length (b64u_encode s) mod 4) mod 4) (CHR ''='')) = Some s"
proof (induction s arbitrary: l p rule: b64u_encode.induct)
  case (2 a)
  have "4 * (cp a div 4) + cp a mod 4 * 16 div 16 = cp a" by simp
  then show ?case by (simp add: b64u_char_simps cp_bounds numeral_2_eq_2)
next
  case (3 a b)
  have "16 * ((cp a mod 4 * 16 + cp b div 16) mod 16) + cp b mod 16 * 4 div 4 = cp b"
    using b64_groups(2) [of a b "CHR 0x00"] by simp
  then show ?case using b64_groups(1) [of a b] by (simp add: b64u_char_simps cp_bounds del: mod_mult_self4 div_mult_self4)
next
  case (4 a b c s)
  have "a2b 0 l p (b64u_encode (a # b # c # s) @ z) = map_option (\<lambda>r. char_of (4 * (cp a div 4) + (cp a mod 4 * 16 + cp b div 16) div 16)
      # char_of (16 * ((cp a mod 4 * 16 + cp b div 16) mod 16) + (cp b mod 16 * 4 + cp c div 64) div 4)
      # char_of (64 * ((cp b mod 16 * 4 + cp c div 64) mod 4) + cp c mod 64) # r) (a2b 0 0 0 (b64u_encode s @ z))" for z
    by (simp only: b64u_encode.simps a2b.simps append_Cons b64u_char_simps [OF cp_bounds(1)] b64u_char_simps [OF cp_bounds(3)]
        b64u_char_simps [OF cp_bounds(5)] b64u_char_simps [OF cp_bounds(6)] if_False option.case) (simp add: option.map_comp comp_def)
  then show ?case using "4.IH" by (simp only: b64_groups char_of_cp) simp
qed simp

lemma b64_b64u [simp]: "b64 (b64u_encode s) = Inr s"
proof -
  have "\<not> list_ex (\<lambda>c. 128 \<le> cp c) (b64u_encode s @ replicate n (CHR ''=''))" for n
    using b64u_encode_chars [of _ s] by (fastforce simp: list_ex_iff)
  then show ?thesis using a2b_b64u [of 0 0 s] by (simp add: b64_def Let_def)
qed

subsection \<open>Issuing\<close>

definition SEP :: char where "SEP = CHR ''~''"
definition SD_ALG :: string where "SD_ALG = ''sha-256''"
definition SD_TYP :: string where "SD_TYP = ''vc+sd-jwt''"

definition json_compact :: "json \<Rightarrow> string" where
  "json_compact v = utf8 (dumps False '','' '':'' v)"

definition vc_disclosure :: "string \<Rightarrow> string \<Rightarrow> json \<Rightarrow> string" where
  "vc_disclosure salt name v = b64u_encode (json_compact (JArr [JStr salt, JStr name, v]))"

definition disclosure_hash :: "(string \<Rightarrow> string) \<Rightarrow> string \<Rightarrow> string" where
  "disclosure_hash HD d = b64u_encode (HD d)"

record issued =
  ic_jwt :: string
  ic_disclosures :: "(string, string) dict"

definition present :: "issued \<Rightarrow> string list option \<Rightarrow> string" where
  "present ic reveal =
     (let names = (case reveal of None \<Rightarrow> dict_keys (ic_disclosures ic) | Some ns \<Rightarrow> ns);
          parts = ic_jwt ic # map (\<lambda>n. the (dict_get (ic_disclosures ic) n)) (filter (\<lambda>n. dict_get (ic_disclosures ic) n \<noteq> None) names)
      in join [SEP] parts @ [SEP])"

definition vc_salt :: "(string \<Rightarrow> string) \<Rightarrow> string \<Rightarrow> string \<Rightarrow> string \<Rightarrow> nat \<Rightarrow> string" where
  "vc_salt HD issuer salt name i =
     (if salt \<noteq> [] then salt @ name @ str_int (int i)
      else b64u_encode (take 16 (HD (utf8 (issuer @ '':'' @ name @ '':'' @ str_int (int i))))))"

fun vc_disclosures :: "(string \<Rightarrow> string) \<Rightarrow> string \<Rightarrow> string \<Rightarrow> nat \<Rightarrow> (string \<times> json) list \<Rightarrow> (string \<times> string) list" where
  "vc_disclosures HD issuer salt i [] = []"
| "vc_disclosures HD issuer salt i ((name, v) # claims) =
     (name, vc_disclosure (vc_salt HD issuer salt name i) name v) # vc_disclosures HD issuer salt (Suc i) claims"

definition vc_payload :: "string \<Rightarrow> string \<Rightarrow> string list \<Rightarrow> (string \<times> json) list \<Rightarrow> (string \<times> json) list" where
  "vc_payload vct issuer hashes flat =
     foldl (\<lambda>d (k, v). dict_set k v d)
       [(''iss'', JStr issuer), (''vct'', JStr vct), (''_sd_alg'', JStr SD_ALG), (''_sd'', JArr (map JStr (sort hashes)))] flat"

definition vc_header :: json where
  "vc_header = JObj [(''alg'', JStr ''ES256''), (''typ'', JStr SD_TYP)]"

definition issue_sdjwt_vc ::
    "(string \<Rightarrow> string) \<Rightarrow> (string \<Rightarrow> string) \<Rightarrow> string \<Rightarrow> string \<Rightarrow> (string \<times> json) list \<Rightarrow> (string \<times> json) list \<Rightarrow> string \<Rightarrow> issued" where
  "issue_sdjwt_vc sign HD vct issuer selective flat salt =
     (let ds = vc_disclosures HD issuer salt 0 selective;
          payload = vc_payload vct issuer (map (disclosure_hash HD \<circ> snd) ds) flat;
          signing_input = b64u_encode (json_compact vc_header) @ ''.'' @ b64u_encode (json_compact (JObj payload))
      in \<lparr>ic_jwt = signing_input @ ''.'' @ b64u_encode (sign signing_input), ic_disclosures = ds\<rparr>)"

subsection \<open>Verifying\<close>

record credential =
  vc_claims :: "(json, json) dict"
  vc_vct :: json
  vc_issuer :: json

definition vc_refuse :: "'a result \<Rightarrow> string \<Rightarrow> 'a result" where
  "vc_refuse m why = (case m of Inl _ \<Rightarrow> Inl (VcError why) | Inr x \<Rightarrow> Inr x)"

text \<open>\<open>_es256_verify\<close>: decoding the signature is outside its \<open>try\<close>.\<close>

definition es256_verify :: "(string \<Rightarrow> string \<Rightarrow> bool) \<Rightarrow> string \<Rightarrow> string \<Rightarrow> unit result" where
  "es256_verify ecdsa signing_input sig_b64 =
     rbind (b64 sig_b64) (\<lambda>raw.
     if length raw \<noteq> 64 then Inl (VcError ''malformed signature'')
     else if ecdsa raw signing_input then Inr () else Inl (VcError ''signature''))"

text \<open>\<open>set(v)\<close> and unpacking into three.\<close>

definition elements_of :: "json \<Rightarrow> json list result" where
  "elements_of v = (case v of
     JArr vs \<Rightarrow> Inr vs | JStr s \<Rightarrow> Inr (map (\<lambda>c. JStr [c]) s) | JObj kvs \<Rightarrow> Inr (map (JStr \<circ> fst) kvs) | _ \<Rightarrow> Inl TypeError)"

definition set_of :: "json \<Rightarrow> json list result" where
  "set_of v = rbind (elements_of v) (\<lambda>vs. if list_all hashable vs then Inr vs else Inl TypeError)"

definition unpack3 :: "json \<Rightarrow> (json \<times> json \<times> json) result" where
  "unpack3 v = rbind (elements_of v) (\<lambda>vs. case vs of [a, b, c] \<Rightarrow> Inr (a, b, c) | _ \<Rightarrow> Inl ValueError)"

fun take_disclosures ::
    "(string \<Rightarrow> string) \<Rightarrow> json list \<Rightarrow> string list \<Rightarrow> (json, json) dict \<Rightarrow> string list \<Rightarrow> (json, json) dict result" where
  "take_disclosures HD committed seen claims [] = Inr claims"
| "take_disclosures HD committed seen claims (d # ds) =
     (if list_ex (\<lambda>c. 128 \<le> cp c) d then Inl ValueError
      else
        (let h = disclosure_hash HD d
         in if JStr h \<notin> set committed then Inl (VcError ''not committed'')
            else if h \<in> set seen then Inl (VcError ''duplicate'')
            else rbind (vc_refuse (rbind (rbind (b64 d) loads_bytes) unpack3) ''malformed disclosure'') (\<lambda>(salt, name, v).
                 if \<not> hashable name then Inl TypeError
                 else take_disclosures HD committed (h # seen) (dict_set name v claims) ds)))"

definition RESERVED :: "string list" where
  "RESERVED = [''_sd'', ''_sd_alg'', ''iss'', ''vct'', ''exp'', ''iat'', ''nbf'']"

definition verify_sdjwt_vc ::
    "(string \<Rightarrow> string \<Rightarrow> bool) \<Rightarrow> (string \<Rightarrow> string) \<Rightarrow> string option \<Rightarrow> string option \<Rightarrow> rat \<Rightarrow> string \<Rightarrow> credential result" where
  "verify_sdjwt_vc ecdsa HD expected_vct expected_issuer now presentation =
     (let parts = split_on SEP presentation
      in if hd parts = [] then Inl (VcError ''empty'')
      else (case split_on (CHR ''.'') (hd parts) of
        [h, p, s] \<Rightarrow>
          rbind (vc_refuse (rbind (b64 h) loads_bytes) ''malformed segments'') (\<lambda>header.
          rbind (vc_refuse (rbind (b64 p) loads_bytes) ''malformed segments'') (\<lambda>payload.
          rbind (get_or header ''alg'' JNull) (\<lambda>alg.
          if alg \<noteq> JStr ''ES256'' then Inl (VcError ''alg'')
          else rbind (es256_verify ecdsa (h @ ''.'' @ p) s) (\<lambda>_.
          rbind (get_or payload ''_sd_alg'' (JStr SD_ALG)) (\<lambda>sd_alg.
          if sd_alg \<noteq> JStr SD_ALG then Inl (VcError ''_sd_alg'')
          else rbind (get_or payload ''iss'' JNull) (\<lambda>iss.
          if expected_issuer \<noteq> None \<and> iss \<noteq> JStr (the expected_issuer) then Inl (VcError ''issuer'')
          else rbind (get_or payload ''vct'' JNull) (\<lambda>vct.
          if expected_vct \<noteq> None \<and> vct \<noteq> JStr (the expected_vct) then Inl (VcError ''vct'')
          else rbind (get_or payload ''exp'' JNull) (\<lambda>exp.
          rbind (if exp = JNull then Inr False else rbind (py_float exp) (\<lambda>e. Inr (fl_le e now))) (\<lambda>old.
          if old then Inl (VcError ''expired'')
          else rbind (rbind (get_or payload ''_sd'' (JArr [])) set_of) (\<lambda>committed.
          let claims = (case payload of JObj kvs \<Rightarrow> map (\<lambda>(k, v). (JStr k, v)) (filter (\<lambda>(k, v). k \<notin> set RESERVED) kvs) | _ \<Rightarrow> [])
          in rbind (take_disclosures HD committed [] claims (filter (\<lambda>d. d \<noteq> []) (tl parts))) (\<lambda>claims.
          rbind (get_or payload ''vct'' (JStr [])) (\<lambda>vct.
          rbind (get_or payload ''iss'' (JStr [])) (\<lambda>iss.
          Inr \<lparr>vc_claims = claims, vc_vct = vct, vc_issuer = iss\<rparr>)))))))))))))
      | _ \<Rightarrow> Inl (VcError ''malformed JWT'')))"

subsection \<open>The gate\<close>

definition types_in :: "json \<Rightarrow> string set result" where
  "types_in raw =
     (let raw = (if py_truth raw then raw else JArr []);
          raw = (case raw of JStr s \<Rightarrow> JArr [JStr s] | v \<Rightarrow> v)
      in rbind (elements_of raw) (\<lambda>vs. Inr (set (map (upper \<circ> py_str) vs))))"

definition authorized_types :: "credential \<Rightarrow> string set result" where
  "authorized_types vc = types_in (case dict_get (vc_claims vc) (JStr ''authorized_types'') of None \<Rightarrow> JNull | Some v \<Rightarrow> v)"

definition apply_vc_gate ::
    "(string \<Rightarrow> string) \<Rightarrow> string set \<Rightarrow> string option \<Rightarrow> (string \<Rightarrow> string \<Rightarrow> bool) option \<Rightarrow> string option \<Rightarrow> string option \<Rightarrow> bool \<Rightarrow> rat
      \<Rightarrow> (string set \<times> (string \<times> json) list) result" where
  "apply_vc_gate HD allowed presentation public_key expected_vct expected_issuer required now =
     (case public_key of
        None \<Rightarrow> Inr (allowed, [])
      | Some ecdsa \<Rightarrow>
          if \<not> truthy presentation then (if required then Inl (VcError ''required'') else Inr (allowed, []))
          else rbind (verify_sdjwt_vc ecdsa HD expected_vct expected_issuer now (the presentation)) (\<lambda>vc.
               rbind (authorized_types vc) (\<lambda>ts.
               Inr (allowed \<inter> ts, [(''vc_issuer'', vc_issuer vc), (''vc_vct'', vc_vct vc)]))))"

subsection \<open>What a credential that is accepted says\<close>

lemma hashable_JStr [simp]: "hashable (JStr s)"
  by (simp add: hashable_def)

lemma vc_refuse_simps [simp]: "vc_refuse (Inr x) why = Inr x" "vc_refuse (Inl e) why = Inl (VcError why)"
  by (simp_all add: vc_refuse_def)

lemma vc_refuse_Inr [simp]: "vc_refuse m why = Inr x \<longleftrightarrow> m = Inr x"
  by (cases m) (simp_all add: vc_refuse_def)

text \<open>A claim that the issuer has signed: in the clear, or as a disclosure whose hash is.\<close>

definition signed_claim :: "(string \<Rightarrow> string) \<Rightarrow> (string \<times> json) list \<Rightarrow> string list \<Rightarrow> json \<Rightarrow> json \<Rightarrow> bool" where
  "signed_claim HD kvs ds name v =
     ((name, v) \<in> (\<lambda>(k, v). (JStr k, v)) ` set kvs
      \<or> (\<exists>d\<in>set ds. \<exists>salt vs. dict_get kvs ''_sd'' = Some vs \<and> (\<exists>cs. set_of vs = Inr cs \<and> JStr (disclosure_hash HD d) \<in> set cs)
           \<and> rbind (rbind (b64 d) loads_bytes) unpack3 = Inr (salt, name, v)))"

lemma take_disclosures_from:
  "take_disclosures HD cm seen claims ds = Inr claims' \<Longrightarrow> dict_get claims' k = Some v \<Longrightarrow>
     dict_get claims k = Some v \<or> (\<exists>d\<in>set ds. \<exists>salt. JStr (disclosure_hash HD d) \<in> set cm
        \<and> rbind (rbind (b64 d) loads_bytes) unpack3 = Inr (salt, k, v))"
proof (induction HD cm seen claims ds rule: take_disclosures.induct)
  case (2 HD cm seen claims d ds)
  let ?h = "disclosure_hash HD d"
  from "2.prems"(1) obtain salt name x where x: "\<not> list_ex (\<lambda>c. 128 \<le> cp c) d" "JStr ?h \<in> set cm" "?h \<notin> set seen"
      "rbind (rbind (b64 d) loads_bytes) unpack3 = Inr (salt, name, x)" "hashable name"
      "take_disclosures HD cm (?h # seen) (dict_set name x claims) ds = Inr claims'"
    by (auto simp: Let_def result_simps split: if_splits)
  have n: "\<not> JStr ?h \<notin> set cm" "\<not> \<not> hashable name" using x(2,5) by simp_all
  from "2.IH" [OF x(1) refl n(1) x(3) n(2) x(6) "2.prems"(2)]
  have "dict_get (dict_set name x claims) k = Some v \<or> (\<exists>d\<in>set ds. \<exists>salt. JStr (disclosure_hash HD d) \<in> set cm
        \<and> rbind (rbind (b64 d) loads_bytes) unpack3 = Inr (salt, k, v))" by simp
  then show ?case using x(2,4) by (auto split: if_splits)
qed simp

lemma verify_sound:
  assumes "verify_sdjwt_vc ecdsa HD expected_vct expected_issuer now presentation = Inr vc"
  shows "\<exists>h p s raw kvs. hd (split_on SEP presentation) \<noteq> [] \<and> split_on (CHR ''.'') (hd (split_on SEP presentation)) = [h, p, s]
    \<and> b64 s = Inr raw \<and> length raw = 64 \<and> ecdsa raw (h @ ''.'' @ p) \<and> rbind (b64 p) loads_bytes = Inr (JObj kvs)
    \<and> (expected_issuer = None \<or> dict_get kvs ''iss'' = map_option JStr expected_issuer)
    \<and> (expected_vct = None \<or> dict_get kvs ''vct'' = map_option JStr expected_vct)
    \<and> (\<forall>e. dict_get kvs ''exp'' = Some e \<longrightarrow> e = JNull \<or> (\<exists>f. py_float e = Inr f \<and> \<not> fl_le f now))
    \<and> (\<forall>n v. dict_get (vc_claims vc) n = Some v \<longrightarrow> signed_claim HD kvs (filter (\<lambda>d. d \<noteq> []) (tl (split_on SEP presentation))) n v)"
proof -
  let ?parts = "split_on SEP presentation"
  let ?ds = "filter (\<lambda>d. d \<noteq> []) (tl ?parts)"
  have ne: "hd ?parts \<noteq> []" using assms by (auto simp: verify_sdjwt_vc_def Let_def)
  then obtain h p s where hps: "split_on (CHR ''.'') (hd ?parts) = [h, p, s]"
    using assms by (auto simp: verify_sdjwt_vc_def Let_def split: list.splits)
  obtain header payload alg sd_alg iss vct exp old committed claims where
    r: "rbind (b64 p) loads_bytes = Inr payload" "es256_verify ecdsa (h @ ''.'' @ p) s = Inr ()"
      "get_or payload ''iss'' JNull = Inr iss" "\<not> (expected_issuer \<noteq> None \<and> iss \<noteq> JStr (the expected_issuer))"
      "get_or payload ''vct'' JNull = Inr vct" "\<not> (expected_vct \<noteq> None \<and> vct \<noteq> JStr (the expected_vct))"
      "get_or payload ''exp'' JNull = Inr exp" "(if exp = JNull then Inr False else rbind (py_float exp) (\<lambda>e. Inr (fl_le e now))) = Inr False"
      "rbind (get_or payload ''_sd'' (JArr [])) set_of = Inr committed"
      "take_disclosures HD committed [] (case payload of JObj kvs \<Rightarrow> map (\<lambda>(k, v). (JStr k, v)) (filter (\<lambda>(k, v). k \<notin> set RESERVED) kvs) | _ \<Rightarrow> []) ?ds = Inr claims"
      "vc_claims vc = claims"
    using assms ne hps by (auto simp: verify_sdjwt_vc_def Let_def result_simps split: if_splits)
  obtain kvs where kvs: "payload = JObj kvs" using r(3) by (auto simp: get_or_Inr)
  obtain raw where raw: "b64 s = Inr raw" "length raw = 64" "ecdsa raw (h @ ''.'' @ p)"
    using r(2) by (auto simp: es256_verify_def result_simps split: if_splits)
  have iss: "expected_issuer = None \<or> dict_get kvs ''iss'' = map_option JStr expected_issuer"
    using r(3,4) by (cases expected_issuer) (auto simp: get_or_Inr kvs split: option.splits)
  have vct: "expected_vct = None \<or> dict_get kvs ''vct'' = map_option JStr expected_vct"
    using r(5,6) by (cases expected_vct) (auto simp: get_or_Inr kvs split: option.splits)
  have exp: "\<forall>e. dict_get kvs ''exp'' = Some e \<longrightarrow> e = JNull \<or> (\<exists>f. py_float e = Inr f \<and> \<not> fl_le f now)"
    using r(7,8) by (auto simp: get_or_Inr kvs result_simps split: if_splits)
  have "signed_claim HD kvs ?ds n v" if "dict_get (vc_claims vc) n = Some v" for n v
  proof -
    from take_disclosures_from [OF r(10) that [unfolded r(11)]] show ?thesis
    proof (elim disjE bexE exE conjE)
      assume "dict_get (case payload of JObj kvs \<Rightarrow> map (\<lambda>(k, v). (JStr k, v)) (filter (\<lambda>(k, v). k \<notin> set RESERVED) kvs) | _ \<Rightarrow> []) n = Some v"
      then have "(n, v) \<in> (\<lambda>(k, v). (JStr k, v)) ` set kvs" by (auto simp: kvs dest!: map_of_SomeD)
      then show ?thesis by (simp add: signed_claim_def)
    next
      fix d salt assume d: "d \<in> set ?ds" "JStr (disclosure_hash HD d) \<in> set committed" "rbind (rbind (b64 d) loads_bytes) unpack3 = Inr (salt, n, v)"
      obtain vs where "dict_get kvs ''_sd'' = Some vs" "set_of vs = Inr committed"
        using r(9) d(2) by (auto simp: kvs get_or_def set_of_def elements_of_def split: option.splits)
      with d show ?thesis unfolding signed_claim_def by blast
    qed
  qed
  with ne hps raw r(1) kvs iss vct exp show ?thesis by blast
qed

text \<open>C9: A credential can only narrow a reveal. What passes the gate is part of what the grant allows; and where an issuer key is
  configured and a credential is shown, or must be, nothing passes unless the issuer's signature over the credential
  verifies, issuer and type are the expected ones and it has not expired; the types that pass are those of one claim the
  issuer signed, in the clear or as a disclosure committed to in the signed part, and none at all if there is no such claim.
\<close>

theorem vc_gate_narrows:
  assumes "apply_vc_gate HD allowed presentation (Some ecdsa) expected_vct expected_issuer required now = Inr (passed, extra)"
    and "required \<or> truthy presentation"
  shows "passed \<subseteq> allowed \<and> (\<exists>h p s raw kvs. split_on (CHR ''.'') (hd (split_on SEP (the presentation))) = [h, p, s]
    \<and> b64 s = Inr raw \<and> ecdsa raw (h @ ''.'' @ p) \<and> rbind (b64 p) loads_bytes = Inr (JObj kvs)
    \<and> (expected_issuer = None \<or> dict_get kvs ''iss'' = map_option JStr expected_issuer)
    \<and> (expected_vct = None \<or> dict_get kvs ''vct'' = map_option JStr expected_vct)
    \<and> (\<forall>e. dict_get kvs ''exp'' = Some e \<longrightarrow> e = JNull \<or> (\<exists>f. py_float e = Inr f \<and> \<not> fl_le f now))
    \<and> (passed = {} \<or> (\<exists>v ts. signed_claim HD kvs (filter (\<lambda>d. d \<noteq> []) (tl (split_on SEP (the presentation)))) (JStr ''authorized_types'') v
          \<and> types_in v = Inr ts \<and> passed = allowed \<inter> ts)))"
proof -
  have pres: "truthy presentation" using assms by (auto simp: apply_vc_gate_def split: if_splits)
  then obtain vc ts where vc: "verify_sdjwt_vc ecdsa HD expected_vct expected_issuer now (the presentation) = Inr vc"
    "authorized_types vc = Inr ts" "passed = allowed \<inter> ts" using assms(1) by (auto simp: apply_vc_gate_def result_simps)
  have claim: "passed = {} \<or> (\<exists>v ts. dict_get (vc_claims vc) (JStr ''authorized_types'') = Some v \<and> types_in v = Inr ts \<and> passed = allowed \<inter> ts)"
    using vc(2,3) by (auto simp: authorized_types_def types_in_def py_truth_def elements_of_def Let_def split: option.splits)
  show ?thesis
    using verify_sound [OF vc(1)] claim vc(3) by (elim exE conjE) (intro conjI exI; blast)
qed

subsection \<open>Presenting and verifying\<close>

lemma split_on_absent: "c \<notin> set x \<Longrightarrow> split_on c x = [x]"
  by (induction x) auto

lemma split_on_Cons: "c \<notin> set x \<Longrightarrow> split_on c (x @ c # s) = x # split_on c s"
  by (induction x) auto

lemma split_on_join: "\<forall>x\<in>set xs. c \<notin> set x \<Longrightarrow> xs \<noteq> [] \<Longrightarrow> split_on c (join [c] xs @ [c]) = xs @ [[]]"
proof (induction xs)
  case (Cons x xs)
  then show ?case
  proof (cases xs)
    case Nil
    then show ?thesis using Cons.prems(1) split_on_Cons [of c x "[]"] by simp
  next
    case (Cons y ys)
    then have "join [c] (x # xs) @ [c] = x @ c # (join [c] xs @ [c])" by simp
    then show ?thesis using Cons.IH Cons.prems(1) local.Cons by (simp add: split_on_Cons)
  qed
qed simp

lemma loads_compact: "json_ok v \<Longrightarrow> loads_bytes (json_compact v) = Inr v"
  using loads_dumps [of v "[]" "[]" False] by (simp add: loads_bytes_def json_compact_def)

lemma vc_disclosures_get:
  "distinct (map fst claims) \<Longrightarrow> (n, v) \<in> set claims \<Longrightarrow>
     \<exists>salt. dict_get (vc_disclosures HD issuer slt i claims) n = Some (vc_disclosure salt n v)"
  by (induction claims arbitrary: i) (auto simp: image_iff)

lemma vc_disclosures_keys [simp]: "map fst (vc_disclosures HD issuer slt i claims) = map fst claims"
  by (induction claims arbitrary: i) auto

lemma flat_keeps: "k \<notin> fst ` set flat \<Longrightarrow> dict_get (foldl (\<lambda>d (k, v). dict_set k v d) d flat) k = dict_get d k"
  by (induction flat arbitrary: d) auto

lemma flat_sets: "distinct (map fst flat) \<Longrightarrow> (k, v) \<in> set flat \<Longrightarrow> dict_get (foldl (\<lambda>d (k, v). dict_set k v d) d flat) k = Some v"
  by (induction flat arbitrary: d) (auto simp: flat_keeps)

lemma flat_wf: "dict_wf d \<Longrightarrow> dict_wf (foldl (\<lambda>d (k, v). dict_set k v d) d flat)"
  by (induction flat arbitrary: d) auto

text \<open>A list of disclosures of one credential, in the order they are shown.\<close>

definition shows_claims :: "(string \<Rightarrow> string) \<Rightarrow> json list \<Rightarrow> (string \<times> json) list \<Rightarrow> string list \<Rightarrow> bool" where
  "shows_claims HD committed nvs ds = list_all2 (\<lambda>(n, v) d. JStr (disclosure_hash HD d) \<in> set committed \<and> json_ok v \<and> (\<exists>salt. d = vc_disclosure salt n v)) nvs ds"

lemma disclosure_read:
  assumes "json_ok v"
  shows "rbind (rbind (b64 (vc_disclosure salt n v)) loads_bytes) unpack3 = Inr (JStr salt, JStr n, v)"
    and "\<not> list_ex (\<lambda>c. 128 \<le> cp c) (vc_disclosure salt n v)"
proof -
  have "json_ok (JArr [JStr salt, JStr n, v])" using assms by simp
  from loads_compact [OF this] show "rbind (rbind (b64 (vc_disclosure salt n v)) loads_bytes) unpack3 = Inr (JStr salt, JStr n, v)"
    by (simp add: vc_disclosure_def unpack3_def elements_of_def)
  show "\<not> list_ex (\<lambda>c. 128 \<le> cp c) (vc_disclosure salt n v)"
    using b64u_encode_chars by (fastforce simp: vc_disclosure_def list_ex_iff)
qed

lemma take_shown:
  "shows_claims HD committed nvs ds \<Longrightarrow> distinct ds \<Longrightarrow> inj_on (disclosure_hash HD) (set ds \<union> D) \<Longrightarrow> set seen = disclosure_hash HD ` D
     \<Longrightarrow> D \<inter> set ds = {} \<Longrightarrow>
     take_disclosures HD committed seen claims ds = Inr (foldl (\<lambda>c (n, v). dict_set (JStr n) v c) claims nvs)"
proof (induction nvs ds arbitrary: seen claims D rule: list_induct2')
  case (4 nv nvs d ds)
  obtain n v where nv: "nv = (n, v)" by (cases nv)
  obtain salt where d: "JStr (disclosure_hash HD d) \<in> set committed" "json_ok v" "d = vc_disclosure salt n v"
    using "4.prems"(1) nv by (auto simp: shows_claims_def)
  have fresh: "disclosure_hash HD d \<notin> set seen"
    using "4.prems"(3-5) by (auto simp: inj_on_def)
  have rest: "take_disclosures HD committed (disclosure_hash HD d # seen) (dict_set (JStr n) v claims) ds
      = Inr (foldl (\<lambda>c (n, v). dict_set (JStr n) v c) (dict_set (JStr n) v claims) nvs)"
  proof (rule "4.IH" [of "insert d D"])
    show "shows_claims HD committed nvs ds" using "4.prems"(1) by (simp add: shows_claims_def)
    show "inj_on (disclosure_hash HD) (set ds \<union> insert d D)" using "4.prems"(3) by simp
  qed (use "4.prems" in auto)
  show ?case
    using rest fresh d(1) disclosure_read [OF d(2), of salt n] by (simp add: nv d(3) Let_def)
qed (simp_all add: shows_claims_def)

lemma shown_get:
  "distinct (map fst nvs) \<Longrightarrow> dict_get (foldl (\<lambda>c (n, v). dict_set (JStr n) v c) claims nvs) (JStr k)
     = (case dict_get nvs k of None \<Rightarrow> dict_get claims (JStr k) | Some v \<Rightarrow> Some v)"
proof (induction nvs arbitrary: claims)
  case (Cons nv nvs)
  obtain n v where nv: "nv = (n, v)" by (cases nv)
  have "n \<notin> fst ` set nvs" using Cons.prems by (simp add: nv)
  then have "dict_get nvs n = None" by (simp add: map_of_eq_None_iff)
  with Cons nv show ?case by (auto split: option.split)
qed simp

lemma jwt_parts:
  "split_on (CHR ''.'') (b64u_encode a @ ''.'' @ b64u_encode b @ ''.'' @ b64u_encode c) = [b64u_encode a, b64u_encode b, b64u_encode c]"
proof -
  have no: "CHR ''.'' \<notin> set (b64u_encode x)" for x using b64u_encode_chars [of "CHR ''.''" x] by blast
  show ?thesis using split_on_Cons [OF no] split_on_absent [OF no] by simp
qed

text \<open>What the issuer may not say in the clear.\<close>

definition free_claims :: "(string \<times> json) list \<Rightarrow> bool" where
  "free_claims flat = (distinct (map fst flat) \<and> (\<forall>(k, v)\<in>set flat. json_ok v \<and> k \<notin> set RESERVED))"

lemma payload_ok:
  assumes "free_claims flat"
  shows "json_ok (JObj (vc_payload vct issuer hashes flat))" "dict_get (vc_payload vct issuer hashes flat) ''_sd'' = Some (JArr (map JStr (sort hashes)))"
    "dict_get (vc_payload vct issuer hashes flat) ''_sd_alg'' = Some (JStr SD_ALG)"
    "dict_get (vc_payload vct issuer hashes flat) ''iss'' = Some (JStr issuer)" "dict_get (vc_payload vct issuer hashes flat) ''vct'' = Some (JStr vct)"
    "dict_get (vc_payload vct issuer hashes flat) ''exp'' = None"
proof -
  let ?d = "[(''iss'', JStr issuer), (''vct'', JStr vct), (''_sd_alg'', JStr SD_ALG), (''_sd'', JArr (map JStr (sort hashes)))]"
  have k: "k \<notin> fst ` set flat" if "k \<in> set RESERVED" for k using assms that by (auto simp: free_claims_def)
  show "dict_get (vc_payload vct issuer hashes flat) ''_sd'' = Some (JArr (map JStr (sort hashes)))"
    "dict_get (vc_payload vct issuer hashes flat) ''_sd_alg'' = Some (JStr SD_ALG)"
    "dict_get (vc_payload vct issuer hashes flat) ''iss'' = Some (JStr issuer)" "dict_get (vc_payload vct issuer hashes flat) ''vct'' = Some (JStr vct)"
    "dict_get (vc_payload vct issuer hashes flat) ''exp'' = None"
    unfolding vc_payload_def by (simp_all add: flat_keeps k RESERVED_def)
  have wf: "dict_wf (vc_payload vct issuer hashes flat)" unfolding vc_payload_def by (rule flat_wf) (simp add: dict_wf_def)
  have "json_ok v" if v: "dict_get (vc_payload vct issuer hashes flat) n = Some v" for n v
  proof (cases "n \<in> fst ` set flat")
    case True
    then obtain x where x: "(n, x) \<in> set flat" by auto
    then have "dict_get (vc_payload vct issuer hashes flat) n = Some x" unfolding vc_payload_def
      using assms by (intro flat_sets) (simp_all add: free_claims_def)
    then have "v = x" using v by simp
    then show ?thesis using assms x by (auto simp: free_claims_def)
  next
    case False
    then have "dict_get ?d n = Some v" using v unfolding vc_payload_def by (simp only: flat_keeps [OF False])
    then show ?thesis by (auto split: if_splits)
  qed
  then have "\<forall>kv\<in>set (vc_payload vct issuer hashes flat). json_ok (snd kv)" using dict_wf_mem [OF wf] by auto
  with wf show "json_ok (JObj (vc_payload vct issuer hashes flat))" by (simp add: dict_wf_def)
qed

lemma clear_claims:
  assumes "free_claims flat"
  shows "dict_get (map (\<lambda>(k, v). (JStr k, v)) (filter (\<lambda>(k, v). k \<notin> set RESERVED) (vc_payload vct issuer hashes flat))) (JStr k) = dict_get flat k"
proof -
  have inj: "dict_get (map (\<lambda>(k, v). (JStr k, v)) kvs) (JStr k) = dict_get kvs k" for kvs :: "(string \<times> json) list"
    by (induction kvs) auto
  have filt: "dict_get (filter (\<lambda>(k, v). k \<notin> set RESERVED) kvs) k = (if k \<in> set RESERVED then None else dict_get kvs k)" for kvs :: "(string \<times> json) list"
    by (induction kvs) auto
  have res: "k \<in> set RESERVED \<Longrightarrow> dict_get flat k = None" using assms by (auto simp: free_claims_def map_of_eq_None_iff)
  have "dict_get (vc_payload vct issuer hashes flat) k = dict_get flat k" if "k \<notin> set RESERVED"
  proof (cases "dict_get flat k")
    case None
    then have "k \<notin> fst ` set flat" by (simp add: map_of_eq_None_iff)
    then show ?thesis using that None by (simp add: vc_payload_def flat_keeps RESERVED_def)
  next
    case (Some v)
    have d: "distinct (map fst flat)" using assms by (simp add: free_claims_def)
    from flat_sets [OF d map_of_SomeD [OF Some]] Some show ?thesis by (simp only: vc_payload_def)
  qed
  then show ?thesis using res by (simp add: inj filt)
qed

text \<open>The disclosures a holder shows of a credential with the claims \<open>selective\<close>.\<close>

lemma disclosures_shown:
  assumes "distinct (map fst selective)" and "\<forall>(k, v)\<in>set selective. json_ok v" and "distinct ns" and "set ns \<subseteq> fst ` set selective"
    and "ds = vc_disclosures HD issuer slt 0 selective" and "out = map (\<lambda>n. the (dict_get ds n)) ns"
  shows "filter (\<lambda>n. dict_get ds n \<noteq> None) ns = ns \<and> set out \<subseteq> snd ` set ds \<and> distinct out
    \<and> (\<forall>d\<in>set out. \<exists>salt n v. d = vc_disclosure salt n v)
    \<and> shows_claims HD (map JStr (sort (map (disclosure_hash HD \<circ> snd) ds))) (map (\<lambda>n. (n, the (dict_get selective n))) ns) out"
proof -
  have each: "\<exists>v salt. dict_get selective n = Some v \<and> json_ok v \<and> dict_get ds n = Some (vc_disclosure salt n v)" if n: "n \<in> set ns" for n
  proof -
    obtain v where v: "(n, v) \<in> set selective" using assms(4) n by auto
    then have "dict_get selective n = Some v" using assms(1) by simp
    moreover have "json_ok v" using assms(2) v by auto
    ultimately show ?thesis using vc_disclosures_get [OF assms(1) v, of HD issuer slt 0] by (auto simp: assms(5))
  qed
  have in_ds: "the (dict_get ds n) \<in> snd ` set ds" if n: "n \<in> set ns" for n
  proof -
    obtain e where e: "dict_get ds n = Some e" using each [OF n] by blast
    with map_of_SomeD [OF this] show ?thesis by force
  qed
  have "inj_on (\<lambda>n. the (dict_get ds n)) (set ns)"
  proof (rule inj_onI)
    fix m n assume mn: "m \<in> set ns" "n \<in> set ns" "the (dict_get ds m) = the (dict_get ds n)"
    obtain v s where v: "json_ok v" "dict_get ds m = Some (vc_disclosure s m v)" using each [OF mn(1)] by blast
    obtain w t where w: "json_ok w" "dict_get ds n = Some (vc_disclosure t n w)" using each [OF mn(2)] by blast
    have "vc_disclosure s m v = vc_disclosure t n w" using mn(3) v(2) w(2) by simp
    from disclosure_read(1) [OF v(1), of s m, unfolded this disclosure_read(1) [OF w(1)]] show "m = n" by simp
  qed
  then have "distinct out" by (simp add: assms(3,6) distinct_map)
  moreover have "\<exists>salt n v. d = vc_disclosure salt n v" if d: "d \<in> set out" for d
  proof -
    obtain n where n: "n \<in> set ns" "d = the (dict_get ds n)" using d by (auto simp: assms(6))
    obtain v salt where "dict_get ds n = Some (vc_disclosure salt n v)" using each [OF n(1)] by blast
    then have "d = vc_disclosure salt n v" using n(2) by simp
    then show ?thesis by blast
  qed
  moreover have "\<forall>n\<in>set ns. JStr (disclosure_hash HD (the (dict_get ds n))) \<in> set (map JStr (sort (map (disclosure_hash HD \<circ> snd) ds)))
      \<and> json_ok (the (dict_get selective n)) \<and> (\<exists>salt. the (dict_get ds n) = vc_disclosure salt n (the (dict_get selective n)))"
  proof
    fix n assume n: "n \<in> set ns"
    have "JStr (disclosure_hash HD (the (dict_get ds n))) \<in> set (map JStr (sort (map (disclosure_hash HD \<circ> snd) ds)))"
      using in_ds [OF n] by (force simp: image_iff)
    with each [OF n] show "JStr (disclosure_hash HD (the (dict_get ds n))) \<in> set (map JStr (sort (map (disclosure_hash HD \<circ> snd) ds)))
      \<and> json_ok (the (dict_get selective n)) \<and> (\<exists>salt. the (dict_get ds n) = vc_disclosure salt n (the (dict_get selective n)))" by auto
  qed
  then have "shows_claims HD (map JStr (sort (map (disclosure_hash HD \<circ> snd) ds))) (map (\<lambda>n. (n, the (dict_get selective n))) ns) out"
    by (simp add: shows_claims_def assms(6) list_all2_map1 list_all2_map2 list_all2_same)
  moreover have "filter (\<lambda>n. dict_get ds n \<noteq> None) ns = ns" using each by (auto intro!: filter_True)
  moreover have "set out \<subseteq> snd ` set ds" using in_ds by (auto simp: assms(6))
  ultimately show ?thesis by blast
qed

text \<open>A presentation falls apart into what it was put together from.\<close>

lemma present_split:
  assumes "SEP \<notin> set jwt" and "\<forall>d\<in>set out. \<exists>salt n v. d = vc_disclosure salt n v"
  shows "split_on SEP (join [SEP] (jwt # out) @ [SEP]) = jwt # out @ [[]] \<and> filter (\<lambda>d. d \<noteq> []) (out @ [[]]) = out"
proof -
  have no: "SEP \<notin> set (vc_disclosure salt n v)" for salt n v
    using b64u_encode_chars [of SEP] by (auto simp: vc_disclosure_def SEP_def)
  then have "\<forall>x\<in>set (jwt # out). SEP \<notin> set x" using assms by fastforce
  from split_on_join [OF this] have "split_on SEP (join [SEP] (jwt # out) @ [SEP]) = jwt # out @ [[]]" by simp
  moreover have "vc_disclosure salt n v \<noteq> []" for salt n v
  proof
    assume "vc_disclosure salt n v = []"
    then have "b64u_encode (json_compact (JArr [JStr salt, JStr n, v])) = b64u_encode []" by (simp add: vc_disclosure_def)
    then have "json_compact (JArr [JStr salt, JStr n, v]) = []" by (metis b64_b64u sum.inject(2))
    then have "utf8 (dumps False '','' '':'' (JArr [JStr salt, JStr n, v])) = utf8 []" by (simp add: json_compact_def utf8_def)
    then have "dumps False '','' '':'' (JArr [JStr salt, JStr n, v]) = []" by (simp only: utf8_inj)
    then show False by simp
  qed
  then have "[] \<notin> set out" using assms(2) by metis
  then have "filter (\<lambda>d. d \<noteq> []) (out @ [[]]) = out" by (auto intro!: filter_True)
  ultimately show ?thesis by blast
qed

lemma issued_verifies:
  assumes "\<And>x. length (sign x) = 64" and "\<And>x. ecdsa (sign x) x" and "inj_on HD (snd ` set (ic_disclosures ic))"
    and "ic = issue_sdjwt_vc sign HD vct issuer selective flat slt"
    and "distinct (map fst selective)" and "\<forall>(k, v)\<in>set selective. json_ok v" and "free_claims flat"
    and "distinct ns" and "set ns \<subseteq> fst ` set selective"
  shows "\<exists>claims. verify_sdjwt_vc ecdsa HD (Some vct) (Some issuer) now (present ic (Some ns)) = Inr \<lparr>vc_claims = claims, vc_vct = JStr vct, vc_issuer = JStr issuer\<rparr>
    \<and> (\<forall>k. dict_get claims (JStr k) = (if k \<in> set ns then dict_get selective k
         else dict_get flat k))"
proof -
  define ds where "ds = vc_disclosures HD issuer slt 0 selective"
  define out where "out = map (\<lambda>n. the (dict_get ds n)) ns"
  define kvs where "kvs = vc_payload vct issuer (map (disclosure_hash HD \<circ> snd) ds) flat"
  define si where "si = b64u_encode (json_compact vc_header) @ ''.'' @ b64u_encode (json_compact (JObj kvs))"
  have ic: "ic = \<lparr>ic_jwt = si @ ''.'' @ b64u_encode (sign si), ic_disclosures = ds\<rparr>"
    by (simp add: assms(4) issue_sdjwt_vc_def Let_def ds_def kvs_def si_def)
  note sh = disclosures_shown [OF assms(5,6,8,9) ds_def out_def]
  have "SEP \<notin> set (ic_jwt ic)" using b64u_encode_chars by (fastforce simp: ic si_def SEP_def)
  from present_split [OF this, of out] sh have parts: "split_on SEP (present ic (Some ns)) = ic_jwt ic # out @ [[]]" "filter (\<lambda>d. d \<noteq> []) (out @ [[]]) = out"
      "filter (\<lambda>d. d \<noteq> []) out = out"
    by (simp_all add: present_def ic out_def Let_def)
  have inj: "inj_on (disclosure_hash HD) (set out \<union> {})"
  proof -
    have "inj_on HD (set out)" using assms(3) sh by (simp add: ic inj_on_subset)
    then show ?thesis by (auto simp: inj_on_def disclosure_hash_def) (metis b64_b64u sum.inject(2))
  qed
  let ?claims = "map (\<lambda>(k, v). (JStr k, v)) (filter (\<lambda>(k, v). k \<notin> set RESERVED) kvs)"
  let ?nvs = "map (\<lambda>n. (n, the (dict_get selective n))) ns"
  have took: "take_disclosures HD (map JStr (sort (map (disclosure_hash HD \<circ> snd) ds))) [] ?claims out
      = Inr (foldl (\<lambda>c (n, v). dict_set (JStr n) v c) ?claims ?nvs)"
    by (rule take_shown [OF _ _ inj]) (use sh in simp_all)
  note pk = payload_ok [OF assms(7), of vct issuer "map (disclosure_hash HD \<circ> snd) ds", folded kvs_def]
  have jwt: "split_on (CHR ''.'') (ic_jwt ic) = [b64u_encode (json_compact vc_header), b64u_encode (json_compact (JObj kvs)), b64u_encode (sign si)]"
    using jwt_parts [of "json_compact vc_header" "json_compact (JObj kvs)" "sign si"] by (simp add: ic si_def)
  have read: "loads_bytes (json_compact vc_header) = Inr vc_header" "loads_bytes (json_compact (JObj kvs)) = Inr (JObj kvs)"
    by (rule loads_compact, simp add: vc_header_def) (rule loads_compact [OF pk(1)])
  have sig: "es256_verify ecdsa (b64u_encode (json_compact vc_header) @ ''.'' @ b64u_encode (json_compact (JObj kvs))) (b64u_encode (sign si)) = Inr ()"
    using assms(1,2) [of si] by (simp add: es256_verify_def) (simp add: si_def)
  have alg: "get_or vc_header ''alg'' JNull = Inr (JStr ''ES256'')" by (simp add: get_or_def vc_header_def)
  have got: "get_or (JObj kvs) k d = Inr (case dict_get kvs k of None \<Rightarrow> d | Some x \<Rightarrow> x)" for k d by (simp add: get_or_def)
  have set: "set_of (JArr (map JStr hs)) = Inr (map JStr hs)" for hs by (simp add: set_of_def elements_of_def list_all_iff)
  have "ic_jwt ic \<noteq> []" by (simp add: ic si_def)
  then have run: "verify_sdjwt_vc ecdsa HD (Some vct) (Some issuer) now (present ic (Some ns))
      = Inr \<lparr>vc_claims = foldl (\<lambda>c (n, v). dict_set (JStr n) v c) ?claims ?nvs, vc_vct = JStr vct, vc_issuer = JStr issuer\<rparr>"
    unfolding verify_sdjwt_vc_def Let_def parts(1) list.sel
    using jwt read sig took by (simp add: parts(3) alg got pk set)
  have "dict_get (foldl (\<lambda>c (n, v). dict_set (JStr n) v c) ?claims ?nvs) (JStr k) = (if k \<in> set ns then dict_get selective k else dict_get flat k)" for k
  proof -
    have "dict_get ?nvs k = (if k \<in> set ns then Some (the (dict_get selective k)) else None)" by (induction ns) auto
    moreover have "distinct (map fst ?nvs)" using assms(8) by (simp add: comp_def)
    moreover have "k \<in> set ns \<Longrightarrow> dict_get selective k \<noteq> None" using assms(9) by (auto simp: map_of_eq_None_iff)
    ultimately show ?thesis using clear_claims [OF assms(7)] by (auto simp: shown_get kvs_def)
  qed
  with run show ?thesis by blast
qed

text \<open>C30: Selective disclosure. A credential that was issued verifies under the issuer's key, whichever of its claims the holder
  chooses to show: the verifier gets the claims that were shown, each with the value that was issued, and the claims in the
  clear, and learns of no other, provided hashes do not collide.
\<close>

theorem sdjwt_roundtrip:
  assumes "\<And>x. length (sign x) = 64" and "\<And>x. ecdsa (sign x) x" and "inj_on HD (snd ` set (ic_disclosures ic))"
    and "ic = issue_sdjwt_vc sign HD vct issuer selective flat slt"
    and "distinct (map fst selective)" and "\<forall>(k, v)\<in>set selective. json_ok v" and "free_claims flat"
    and "distinct ns" and "set ns \<subseteq> fst ` set selective"
  shows "\<exists>claims. verify_sdjwt_vc ecdsa HD (Some vct) (Some issuer) now (present ic (Some ns)) = Inr \<lparr>vc_claims = claims, vc_vct = JStr vct, vc_issuer = JStr issuer\<rparr>
    \<and> (\<forall>k. dict_get claims (JStr k) = (if k \<in> set ns then dict_get selective k
         else dict_get flat k))"
  using assms by (rule issued_verifies)

text \<open>A credential of two claims, of which the holder shows one.\<close>

definition sample_sign :: "string \<Rightarrow> string" where
  "sample_sign x = replicate 64 (CHR ''s'')"

definition sample_credential :: issued where
  "sample_credential = issue_sdjwt_vc sample_sign (\<lambda>d. d) ''reveal'' ''issuer''
     [(''authorized_types'', JArr [JStr ''person'']), (''bsn'', JStr ''111222333'')] [(''dept'', JStr ''legal'')] ''salt''"

lemma sample_credential_ok:
  "length (sample_sign x) = 64" "inj_on (\<lambda>d. d) (snd ` set (ic_disclosures sample_credential))" "free_claims [(''dept'', JStr ''legal'')]"
  "distinct (map fst [(''authorized_types'', JArr [JStr ''person'']), (''bsn'', JStr ''111222333'')])"
  "\<forall>(k, v)\<in>set [(''authorized_types'', JArr [JStr ''person'']), (''bsn'', JStr ''111222333'')]. json_ok v"
  "distinct [''authorized_types'']" "set [''authorized_types''] \<subseteq> fst ` set [(''authorized_types'', JArr [JStr ''person'']), (''bsn'', JStr ''111222333'')]"
  by (simp_all add: sample_sign_def free_claims_def RESERVED_def inj_on_def)

lemma sdjwt_roundtrip_witness:
  "\<exists>claims. verify_sdjwt_vc (\<lambda>r x. r = sample_sign x) (\<lambda>d. d) (Some ''reveal'') (Some ''issuer'') 5 (present sample_credential (Some [''authorized_types'']))
       = Inr \<lparr>vc_claims = claims, vc_vct = JStr ''reveal'', vc_issuer = JStr ''issuer''\<rparr>
     \<and> dict_get claims (JStr ''authorized_types'') = Some (JArr [JStr ''person'']) \<and> dict_get claims (JStr ''bsn'') = None"
  using sdjwt_roundtrip [where sign = sample_sign and ecdsa = "\<lambda>r x. r = sample_sign x" and HD = "\<lambda>d. d" and now = 5,
      OF sample_credential_ok(1) refl sample_credential_ok(2) sample_credential_def sample_credential_ok(4,5,3,6,7)]
  by auto

lemma vc_gate_narrows_witness:
  "\<exists>passed extra. apply_vc_gate (\<lambda>d. d) {''PERSON'', ''BSN''} (Some (present sample_credential (Some [''authorized_types'']))) (Some (\<lambda>r x. r = sample_sign x))
       (Some ''reveal'') (Some ''issuer'') True 5 = Inr (passed, extra) \<and> passed = {''PERSON''} \<and> passed \<subseteq> {''PERSON'', ''BSN''}"
proof -
  let ?pres = "present sample_credential (Some [''authorized_types''])"
  obtain claims where c: "verify_sdjwt_vc (\<lambda>r x. r = sample_sign x) (\<lambda>d. d) (Some ''reveal'') (Some ''issuer'') 5 ?pres
       = Inr \<lparr>vc_claims = claims, vc_vct = JStr ''reveal'', vc_issuer = JStr ''issuer''\<rparr>" "dict_get claims (JStr ''authorized_types'') = Some (JArr [JStr ''person''])"
    using issued_verifies [where sign = sample_sign and ecdsa = "\<lambda>r x. r = sample_sign x" and HD = "\<lambda>d. d" and now = 5,
      OF sample_credential_ok(1) refl sample_credential_ok(2) sample_credential_def sample_credential_ok(4,5,3,6,7)]
    by auto
  have "upper ''person'' = ''PERSON''" by code_simp
  then have t: "types_in (JArr [JStr ''person'']) = Inr {''PERSON''}" by (simp add: types_in_def py_truth_def elements_of_def)
  have "?pres \<noteq> []" by (simp add: present_def Let_def)
  then have run: "apply_vc_gate (\<lambda>d. d) {''PERSON'', ''BSN''} (Some ?pres) (Some (\<lambda>r x. r = sample_sign x)) (Some ''reveal'') (Some ''issuer'') True 5
      = Inr ({''PERSON'', ''BSN''} \<inter> {''PERSON''}, [(''vc_issuer'', JStr ''issuer''), (''vc_vct'', JStr ''reveal'')])"
    by (simp add: apply_vc_gate_def c authorized_types_def t)
  from vc_gate_narrows [OF run disjI1 [OF TrueI]] have sub: "{''PERSON'', ''BSN''} \<inter> {''PERSON''} \<subseteq> {''PERSON'', ''BSN''}" by (elim conjE)
  have one: "{''PERSON'', ''BSN''} \<inter> {''PERSON''} = {''PERSON''}" by auto
  show ?thesis by (rule exI, rule exI, intro conjI, rule run, rule one, rule sub)
qed

end
