(* ===== verification/PdfRender.thy ===== *)
theory PdfRender
  imports PdfText "HOL-Library.Sublist"
begin

text \<open>
  \<open>pdf_render.py\<close>: the redacted page. A page of the source is its size and its characters; what is drawn on the page that is
  built in its place is a record: the rectangles painted on the raster, the invisible text runs and the labels.
  The PDF library (the parameter \<open>lib\<close>), the raster's encoding and the file format are not modelled.
\<close>

record page =
  pg_width :: rat
  pg_height :: rat
  pg_glyphs :: "glyph list"

record drawn_page =
  dr_size :: "rat \<times> rat"
  dr_painted :: "rect list"
  dr_runs :: "((rat \<times> rat) \<times> string) list"
  dr_labels :: "((rat \<times> rat) \<times> rat \<times> string) list"

definition MIN_BOX_PT :: rat where "MIN_BOX_PT = 1 / 2"
definition SCALE :: rat where "SCALE = 300 / 72"

definition by_page :: "box list \<Rightarrow> (nat, box list) dict" where
  "by_page boxes = foldl (\<lambda>out b. dict_set (bx_page b) ((case dict_get out (bx_page b) of None \<Rightarrow> [] | Some bs \<Rightarrow> bs) @ [b]) out) [] boxes"

definition to_pixels :: "rect \<Rightarrow> rat \<Rightarrow> rect" where
  "to_pixels = (\<lambda>(x0, y0, x1, y1) page_height. (x0 * SCALE, (page_height - y1) * SCALE, x1 * SCALE, (page_height - y0) * SCALE))"

definition no_surface :: "box \<Rightarrow> bool" where
  "no_surface b = (case bx_rect b of (x0, y0, x1, y1) \<Rightarrow> y1 - y0 < MIN_BOX_PT \<or> x1 - x0 < MIN_BOX_PT)"

definition check_boxes :: "box list \<Rightarrow> unit result" where
  "check_boxes boxes = (if list_ex no_surface boxes then Inl DegenerateBoxError else Inr ())"

definition paint :: "box list \<Rightarrow> rat \<Rightarrow> rect list" where
  "paint boxes page_height = map (\<lambda>b. to_pixels (bx_rect b) page_height) boxes"

definition label_size :: "rect \<Rightarrow> rat" where
  "label_size = (\<lambda>(x0, y0, x1, y1). max 5 (min ((y1 - y0) * (8 / 10)) 10))"

definition draw_label :: "(string, string) dict \<Rightarrow> box \<Rightarrow> (rat \<times> rat) \<times> rat \<times> string" where
  "draw_label labels b = (case bx_rect b of (x0, y0, x1, y1) \<Rightarrow>
     (let size = label_size (bx_rect b)
      in ((x0 + 1, y0 + (y1 - y0 - size) / 2 + 1), size,
          case dict_get labels (bx_token b) of None \<Rightarrow> bx_token b | Some l \<Rightarrow> l)))"

definition contains_box :: "rect \<Rightarrow> rect \<Rightarrow> bool" where
  "contains_box = (\<lambda>(x0, y0, x1, y1) (px0, py0, px1, py1).
     let cx = (px0 + px1) / 2; cy = (py0 + py1) / 2; eps = 1 / 2
     in x0 - eps \<le> cx \<and> cx \<le> x1 + eps \<and> y0 - eps \<le> cy \<and> cy \<le> y1 + eps)"

definition covering :: "box list \<Rightarrow> rect \<Rightarrow> box option" where
  "covering boxes r = find (\<lambda>b. contains_box (bx_rect b) r) boxes"

definition flush :: "(rat \<times> rat) option \<Rightarrow> string \<Rightarrow> ((rat \<times> rat) \<times> string) list" where
  "flush origin run = (if run = [] then [] else [(the origin, run)])"

fun text_runs :: "box list \<Rightarrow> (rat \<times> rat) option \<Rightarrow> string \<Rightarrow> glyph list \<Rightarrow> ((rat \<times> rat) \<times> string) list" where
  "text_runs boxes origin run [] = flush origin run"
| "text_runs boxes origin run (g # gs) =
     (if g_char g \<in> {CHR 0x0D, CHR 0x0A} then flush origin run @ text_runs boxes None [] gs
      else if covering boxes (char_box g) \<noteq> None then flush origin run @ text_runs boxes None [] gs
      else if strip [g_char g] = [] then text_runs boxes origin (if run = [] then run else run @ [g_char g]) gs
      else text_runs boxes (case origin of None \<Rightarrow> (case char_box g of (x0, y0, _) \<Rightarrow> Some (x0, y0)) | Some p \<Rightarrow> Some p)
             (run @ [g_char g]) gs)"

definition draw_page :: "box list \<Rightarrow> (string, string) dict \<Rightarrow> page \<Rightarrow> drawn_page" where
  "draw_page boxes labels p = \<lparr>dr_size = (pg_width p, pg_height p), dr_painted = paint boxes (pg_height p),
     dr_runs = text_runs boxes None [] (pg_glyphs p), dr_labels = map (draw_label labels) boxes\<rparr>"

definition render :: "(string \<Rightarrow> page list option) \<Rightarrow> string \<Rightarrow> box list \<Rightarrow> (string, string) dict \<Rightarrow> drawn_page list result" where
  "render lib data boxes labels =
     rbind (check_boxes boxes) (\<lambda>_.
     let grouped = by_page boxes
     in case lib data of
          None \<Rightarrow> Inl PdfError
        | Some pages \<Rightarrow> Inr (map (\<lambda>(i, p). draw_page (case dict_get grouped i of None \<Rightarrow> [] | Some bs \<Rightarrow> bs) labels p)
                                 (enumerate 0 pages)))"

subsection \<open>What is drawn\<close>

lemma by_page_get: "(case dict_get (by_page boxes) i of None \<Rightarrow> [] | Some bs \<Rightarrow> bs) = filter (\<lambda>b. bx_page b = i) boxes"
proof (induction boxes rule: rev_induct)
  case (snoc b bs)
  then show ?case by (auto simp: by_page_def split: option.splits)
qed (simp add: by_page_def)

lemma render_Inr:
  "render lib data boxes labels = Inr out \<longleftrightarrow> (\<exists>pages. lib data = Some pages \<and> list_all (\<lambda>b. \<not> no_surface b) boxes
     \<and> out = map (\<lambda>(i, p). draw_page (filter (\<lambda>b. bx_page b = i) boxes) labels p) (enumerate 0 pages))"
  by (auto simp: render_def check_boxes_def by_page_get list_ex_iff list_all_iff split: option.splits)

text \<open>The characters that go into the text layer: the glyphs no box covers, without line breaks, and without the
  white space that would start a run.\<close>

fun kept :: "box list \<Rightarrow> bool \<Rightarrow> glyph list \<Rightarrow> glyph list" where
  "kept boxes running [] = []"
| "kept boxes running (g # gs) =
     (if g_char g \<in> {CHR 0x0D, CHR 0x0A} \<or> covering boxes (char_box g) \<noteq> None then kept boxes False gs
      else if strip [g_char g] = [] then (if running then g # kept boxes True gs else kept boxes False gs)
      else g # kept boxes True gs)"

lemma kept_uncovered: "g \<in> set (kept boxes running gs) \<Longrightarrow> g \<in> set gs \<and> covering boxes (char_box g) = None"
  by (induction boxes running gs rule: kept.induct) (auto split: if_splits)

lemma kept_subseq: "subseq (kept boxes running gs) gs"
  by (induction boxes running gs rule: kept.induct) auto

definition printed :: "glyph \<Rightarrow> bool" where
  "printed g = (strip [g_char g] \<noteq> [])"

lemma kept_complete: "filter printed (kept boxes running gs) = filter (\<lambda>g. printed g \<and> covering boxes (char_box g) = None) gs"
proof (induction boxes running gs rule: kept.induct)
  case (2 boxes running g gs)
  have "strip [g_char g] = []" if "g_char g \<in> {CHR 0x0D, CHR 0x0A}"
    using that by (auto simp: strip_def lstrip_def rstrip_def is_space_def)
  with 2 show ?case by (auto simp: printed_def)
qed simp

lemma text_runs_kept:
  "(run \<noteq> [] \<longrightarrow> origin \<noteq> None) \<Longrightarrow>
     concat (map snd (text_runs boxes origin run gs)) = run @ map g_char (kept boxes (run \<noteq> []) gs)"
  by (induction boxes origin run gs rule: text_runs.induct) (auto simp: flush_def split: option.splits prod.splits)

lemma contains_inside:
  assumes "inside r s" and "fst r \<le> fst (snd (snd r))" and "fst (snd r) \<le> snd (snd (snd r))"
  shows "contains_box s r"
proof -
  obtain x0 y0 x1 y1 where r: "r = (x0, y0, x1, y1)" by (cases r)
  obtain a0 b0 a1 b1 where s: "s = (a0, b0, a1, b1)" by (cases s)
  have m: "a \<le> (x + y) / 2 \<and> (x + y) / 2 \<le> b" if "a \<le> x" "x \<le> y" "y \<le> b" for a b x y :: rat
    using that by (simp add: field_simps)
  show ?thesis
    using m [of a0 x0 x1 a1] m [of b0 y0 y1 b1] assms
    by (auto simp: contains_box_def inside_def r s Let_def)
qed

lemma covering_None: "covering boxes r = None \<longleftrightarrow> (\<forall>b\<in>set boxes. \<not> contains_box (bx_rect b) r)"
  by (auto simp: covering_def find_None_iff)

text \<open>What a redacted page owes its source page and its boxes. Its text layer is made of glyphs of the source page, in their
  order, that lie under no box; of those that print something it has every one.\<close>

definition layer_of :: "box list \<Rightarrow> page \<Rightarrow> drawn_page \<Rightarrow> bool" where
  "layer_of boxes p d =
     (\<exists>gs. concat (map snd (dr_runs d)) = map g_char gs \<and> subseq gs (pg_glyphs p)
        \<and> (\<forall>g\<in>set gs. \<forall>b\<in>set boxes. \<not> contains_box (bx_rect b) (char_box g))
        \<and> filter printed gs = filter (\<lambda>g. printed g \<and> (\<forall>b\<in>set boxes. \<not> contains_box (bx_rect b) (char_box g))) (pg_glyphs p))"

definition hides :: "box list \<Rightarrow> (string, string) dict \<Rightarrow> page \<Rightarrow> drawn_page \<Rightarrow> bool" where
  "hides boxes labels p d =
     (dr_painted d = map (\<lambda>b. to_pixels (bx_rect b) (pg_height p)) boxes \<and> (\<forall>b\<in>set boxes. \<not> no_surface b)
      \<and> map (snd \<circ> snd) (dr_labels d) = map (\<lambda>b. case dict_get labels (bx_token b) of None \<Rightarrow> bx_token b | Some l \<Rightarrow> l) boxes
      \<and> layer_of boxes p d)"

lemma draw_page_layer: "concat (map snd (dr_runs (draw_page boxes labels p))) = map g_char (kept boxes False (pg_glyphs p))"
  using text_runs_kept [of "[]" None] by (simp add: draw_page_def)

lemma draw_page_layer_of: "layer_of boxes p (draw_page boxes labels p)"
  unfolding layer_of_def draw_page_layer
  using kept_uncovered kept_complete [of boxes False "pg_glyphs p"] kept_subseq unfolding covering_None by blast

lemma draw_page_hides:
  assumes "list_all (\<lambda>b. \<not> no_surface b) boxes"
  shows "hides boxes labels p (draw_page boxes labels p)"
  using assms draw_page_layer_of
  by (auto simp: hides_def draw_page_def paint_def draw_label_def comp_def Let_def list_all_iff split: prod.split)


subsection \<open>From the text to the page\<close>

lemma place_chars_rect: "(c, Some r) \<in> set (place_chars prev gs) \<Longrightarrow> \<exists>g\<in>set gs. g_char g = c \<and> char_box g = r"
  by (induction prev gs rule: place_chars.induct) (auto simp: Let_def split: if_splits option.splits)

lemma flatten_rect: "(c, Some r) \<in> set (flatten b cs) \<Longrightarrow> (c, Some r) \<in> set cs"
  by (induction b cs rule: flatten.induct) (auto split: if_splits)

definition upright :: "rect \<Rightarrow> bool" where
  "upright = (\<lambda>(x0, y0, x1, y1). x0 \<le> x1 \<and> y0 \<le> y1)"

lemma char_box_upright: "upright (g_loose g) \<Longrightarrow> upright (char_box g)"
  by (auto simp: upright_def char_box_def DEGENERATE_PT_def split: prod.splits)

lemma contains_upright: "inside r s \<Longrightarrow> upright r \<Longrightarrow> contains_box s r"
  by (rule contains_inside) (auto simp: upright_def split: prod.splits)

lemma page_matches_flat: "(page, flat, m) \<in> set (page_matches token v flats) \<Longrightarrow> page < length flats \<and> flat = flats ! page"
  by (auto simp: page_matches_def in_set_enumerate_eq)

text \<open>A place where a value was found is a place on the page, and a box that covers it hides it.\<close>

lemma found_is_glyph:
  assumes "(page, k, r) \<in> found_glyphs (map (\<lambda>p. flatten False (page_chars p)) gss) x"
  shows "page < length gss \<and> (\<exists>g\<in>set (gss ! page). char_box g = r)"
proof -
  obtain token v where x: "x = (token, v)" by (cases x)
  obtain flat i w where m: "(page, flat, i, w) \<in> set (page_matches token v (map (\<lambda>p. flatten False (page_chars p)) gss))"
    "k < length flat" "snd (flat ! k) = Some r"
    using assms by (cases r) (auto simp: found_glyphs_def x)
  from page_matches_flat [OF m(1)] have f: "page < length gss" "flat = flatten False (page_chars (gss ! page))" by auto
  have "(fst (flat ! k), Some r) \<in> set flat" using m(2,3) by (metis nth_mem prod.collapse)
  from flatten_rect [OF this [unfolded f(2)]] obtain g where "g \<in> set (gss ! page)" "char_box g = r"
    unfolding page_chars_def by (auto dest: place_chars_rect simp: f(2))
  with f show ?thesis by blast
qed

text \<open>C33: From the value to the redacted page. Where the boxes come from \<open>build_box_map\<close> and the page is drawn from the
  same file, no character of any place where a located value was found is in the text layer of the redacted
  document: the layer of its page is made of glyphs of that page, in their order, none of which lies under a box of the page or at
  that place, and of those that print something it has every other one. Each such place lies inside a rectangle that is painted on its page.\<close>

theorem located_value_gone:
  assumes "build_box_map (\<lambda>d. map_option (map pg_glyphs) (lib d)) data anonymized items = Some (Boxes boxes)"
    and "render lib data boxes labels = Inr out" and "lib data = Some pages"
    and "\<forall>p\<in>set pages. \<forall>g\<in>set (pg_glyphs p). upright (g_loose g)"
    and "item \<in> set items" and "(i, k, r) \<in> found_glyphs (map (\<lambda>p. flatten False (page_chars (pg_glyphs p))) pages) item"
  shows "i < length out \<and> (\<exists>gs. concat (map snd (dr_runs (out ! i))) = map g_char gs \<and> subseq gs (pg_glyphs (pages ! i)) \<and> r \<notin> char_box ` set gs
        \<and> filter printed gs = filter (\<lambda>g. printed g \<and> (\<forall>b\<in>set boxes. bx_page b = i \<longrightarrow> \<not> contains_box (bx_rect b) (char_box g))) (pg_glyphs (pages ! i)))
    \<and> (\<exists>b\<in>set boxes. bx_page b = i \<and> contains_box (bx_rect b) r)
    \<and> (\<exists>s. inside r s \<and> to_pixels s (pg_height (pages ! i)) \<in> set (dr_painted (out ! i)))"
proof -
  have found: "(i, k, r) \<in> found_glyphs (map (\<lambda>p. flatten False (page_chars p)) (map pg_glyphs pages)) item"
    using assms(6) by (simp add: comp_def)
  obtain token v where item: "item = (token, v)" by (cases item)
  have bm: "locate_all (map (\<lambda>p. flatten False (page_chars p)) (map pg_glyphs pages)) anonymized items [] = Boxes boxes"
    using assms(1,3) by (simp add: build_box_map_def)
  have "boxed (map (\<lambda>p. flatten False (page_chars p)) (map pg_glyphs pages)) anonymized boxes item"
    using locate_all_spec [where flats = "map (\<lambda>p. flatten False (page_chars p)) (map pg_glyphs pages)" and a = anonymized and xs = items and boxes = "[]", unfolded bm] assms(5)
    by (auto simp: list_all_iff)
  then have "set (token_boxes (map (\<lambda>p. flatten False (page_chars p)) (map pg_glyphs pages)) (token, v)) \<subseteq> set boxes"
    using found by (auto simp: boxed_def item found_glyphs_def)
  then obtain b where b: "b \<in> set boxes" "bx_page b = i" "inside r (bx_rect b)"
    using found token_boxes_cover unfolding item covered_by_def by fastforce
  obtain g where i: "i < length pages" and g: "g \<in> set (pg_glyphs (pages ! i))" "char_box g = r"
    using found_is_glyph [OF found] by auto
  have "upright r" using assms(4) i g by (metis char_box_upright nth_mem)
  with b(3) have hit: "contains_box (bx_rect b) r" by (rule contains_upright)
  let ?here = "filter (\<lambda>b. bx_page b = i) boxes"
  have out: "i < length out" "out ! i = draw_page ?here labels (pages ! i)"
    using assms(2,3) i by (auto simp: render_Inr nth_enumerate_eq)
  let ?gs = "kept ?here False (pg_glyphs (pages ! i))"
  have "concat (map snd (dr_runs (out ! i))) = map g_char ?gs" by (simp add: out draw_page_layer)
  moreover have "r \<notin> char_box ` set ?gs" using kept_uncovered hit b(1,2) unfolding covering_None by fastforce
  moreover have "filter printed ?gs = filter (\<lambda>g. printed g \<and> (\<forall>b\<in>set boxes. bx_page b = i \<longrightarrow> \<not> contains_box (bx_rect b) (char_box g))) (pg_glyphs (pages ! i))"
    unfolding kept_complete covering_None by (rule filter_cong) auto
  moreover have "to_pixels (bx_rect b) (pg_height (pages ! i)) \<in> set (dr_painted (out ! i))"
    using b by (auto simp: out draw_page_def paint_def)
  ultimately show ?thesis using out(1) b hit kept_subseq by blast
qed

text \<open>One page with one name on it: the name is boxed, the rest of the line stays.\<close>

definition glyph_at :: "char \<Rightarrow> rat \<Rightarrow> glyph" where
  "glyph_at c x = \<lparr>g_char = c, g_tight = (x, 10, x + 5, 20), g_loose = (x, 10, x + 5, 20)\<rparr>"

definition sample_page :: page where
  "sample_page = \<lparr>pg_width = 100, pg_height = 50, pg_glyphs = [glyph_at (CHR ''A'') 0, glyph_at (CHR ''n'') 5, glyph_at (CHR '' '') 10, glyph_at (CHR ''o'') 15, glyph_at (CHR ''k'') 20]\<rparr>"

definition sample_box :: box where
  "sample_box = \<lparr>bx_page = 0, bx_rect = (0, 10, 10, 20), bx_token = ''[PERSON:00000000]''\<rparr>"

lemma sample_render:
  "render (\<lambda>_. Some [sample_page]) ''pdf'' [sample_box] [] = Inr [draw_page [sample_box] [] sample_page]"
  by (simp add: render_Inr no_surface_def sample_box_def MIN_BOX_PT_def enumerate_eq_zip)

lemma sample_layer: "dr_runs (draw_page [sample_box] [] sample_page) = [((15, 10), ''ok'')]"
  by (simp add: draw_page_def sample_page_def sample_box_def glyph_at_def covering_def contains_box_def char_box_def
      DEGENERATE_PT_def Let_def strip_def lstrip_def rstrip_def is_space_def flush_def)

lemma sample_flat:
  "flatten False (page_chars (pg_glyphs sample_page)) =
     [(CHR ''A'', Some (0, 10, 5, 20)), (CHR ''n'', Some (5, 10, 10, 20)), (CHR '' '', Some (10, 10, 15, 20)),
      (CHR ''o'', Some (15, 10, 20, 20)), (CHR ''k'', Some (20, 10, 25, 20))]"
  by (simp add: sample_page_def glyph_at_def page_chars_def char_box_def DEGENERATE_PT_def needs_space_def GAP_FRACTION_def Let_def)

lemma sample_matches:
  "finditer (token_pattern ''[PERSON:00000000]'' ''An'') ''An ok'' = [(0, ''An'')]"
  by code_simp

lemma sample_page_matches:
  "page_matches ''[PERSON:00000000]'' ''An'' (map (\<lambda>p. flatten False (page_chars (pg_glyphs p))) [sample_page])
     = [(0, flatten False (page_chars (pg_glyphs sample_page)), 0, ''An'')]"
  unfolding page_matches_def by (simp add: sample_flat sample_matches enumerate_eq_zip)

lemma sample_count: "count_sub ''[PERSON:00000000]'' ''[PERSON:00000000] ok'' = 1"
  by code_simp

lemma sample_token_boxes:
  "token_boxes (map (\<lambda>p. flatten False (page_chars (pg_glyphs p))) [sample_page]) (''[PERSON:00000000]'', ''An'') = [sample_box]"
  by (simp only: token_boxes_def prod.case sample_page_matches)
    (simp add: match_boxes_def sample_flat List.map_filter_def line_groups_def add_line_def mid_of_def height_of_def Let_def
      merge_rects_def merge_rect_def sample_box_def)

lemma sample_boxes:
  "build_box_map (\<lambda>d. map_option (map pg_glyphs) (Some [sample_page])) ''pdf'' ''[PERSON:00000000] ok'' [(''[PERSON:00000000]'', ''An'')]
     = Some (Boxes [sample_box])"
  using sample_token_boxes sample_page_matches sample_count by (simp add: build_box_map_def Let_def)

lemma located_value_gone_witness:
  "\<exists>(out :: drawn_page list) gs. render (\<lambda>_. Some [sample_page]) ''pdf'' [sample_box] [] = Inr out \<and> concat (map snd (dr_runs (out ! 0))) = ''ok''
     \<and> concat (map snd (dr_runs (out ! 0))) = map g_char gs \<and> subseq gs (pg_glyphs sample_page) \<and> (0, 10, 5, 20) \<notin> char_box ` set gs"
proof -
  have "\<forall>p\<in>set [sample_page]. \<forall>g\<in>set (pg_glyphs p). upright (g_loose g)"
    by (simp add: sample_page_def glyph_at_def upright_def)
  moreover have "(0, 0, (0, 10, 5, 20)) \<in> found_glyphs (map (\<lambda>p. flatten False (page_chars (pg_glyphs p))) [sample_page]) (''[PERSON:00000000]'', ''An'')"
    unfolding found_glyphs_def prod.case sample_page_matches by (simp add: sample_flat)
  moreover have "(''[PERSON:00000000]'', ''An'') \<in> set [(''[PERSON:00000000]'', ''An'')]" by simp
  ultimately obtain gs where "concat (map snd (dr_runs ([draw_page [sample_box] [] sample_page] ! 0))) = map g_char gs"
      "subseq gs (pg_glyphs ([sample_page] ! 0))" "(0, 10, 5, 20) \<notin> char_box ` set gs"
    using located_value_gone [OF sample_boxes sample_render refl] by blast
  moreover have "concat (map snd (dr_runs ([draw_page [sample_box] [] sample_page] ! 0))) = ''ok''" using sample_layer by simp
  ultimately show ?thesis using sample_render
    by (intro exI [of _ "[draw_page [sample_box] [] sample_page]"] exI [of _ gs] conjI) simp_all
qed

end
