(* ===== verification/ApiReveal.thy ===== *)
theory ApiReveal
  imports World Roles Pseudonymizer Vc Auth PiiCategories PdfRender
begin

text \<open>
  The reveal endpoints of \<open>api.py\<close>: \<open>POST /documents/{id}/reveal\<close> and \<open>.../reveal.pdf\<close>. An \<open>HTTPException\<close> with status
  \<open>n\<close> is \<open>Inl (HTTPException n)\<close>; any other error is a 500. A handler runs in one session, so one that raises leaves
  the tables as they were. The grants are those of the table, the key provider is the durable one; the table of
  roles, the caller that the door has named and the settings are arguments.
\<close>

record reveal_config =
  rv_allow_global :: bool
  rv_auth_enabled :: bool
  rv_vc_key :: "(string \<Rightarrow> string \<Rightarrow> bool) option"
  rv_vc_vct :: "string option"
  rv_vc_issuer :: "string option"
  rv_vc_required :: bool

record reveal_request =
  rq_grant_id :: string
  rq_types :: "string list option"
  rq_vc :: "string option"
  rq_caller :: "string option"

record reveal_response =
  rr_document_id :: string
  rr_revealed_text :: string
  rr_revealed_types :: "string list"
  rr_authorized_types :: "string list"
  rr_resolved_types :: "string list"
  rr_withheld_types :: "string list"
  rr_grant_id :: string
  rr_by_legal_basis :: "(string, string list \<times> string list) dict"

subsection \<open>The gates\<close>

definition find_grant :: "corpus \<Rightarrow> string \<Rightarrow> string \<Rightarrow> grant result" where
  "find_grant db grant_id doc = (case pg_get (grant_rows db) grant_id of
     None \<Rightarrow> Inl (HTTPException 404)
   | Some grant \<Rightarrow>
       rbind (doc_state db doc) (\<lambda>state.
       if state = None then Inl (HTTPException 404)
       else (case document_by_id db doc of
           None \<Rightarrow> Inr grant
         | Some d \<Rightarrow> if dc_superseded_by d \<noteq> None then Inl (HTTPException 409) else Inr grant)))"

text \<open>\<open>authorize\<close> as the endpoint calls it. A domain on record that is not a string equals no grant's.\<close>

definition authorize_here ::
    "reveal_config \<Rightarrow> role list \<Rightarrow> datetime \<Rightarrow> corpus \<Rightarrow> string \<Rightarrow> grant \<Rightarrow> string option \<Rightarrow> string list \<Rightarrow> string set" where
  "authorize_here cfg roles now db doc grant caller requested = (case document_domain db doc of
     JStr dm \<Rightarrow> authorize grant (Some doc) requested now dm (rv_allow_global cfg) caller (rv_auth_enabled cfg)
       (Some (role_types roles)) [ADMIN]
   | _ \<Rightarrow> {})"

definition permitted_here :: "role list \<Rightarrow> grant \<Rightarrow> string list" where
  "permitted_here roles grant = sorted_types (permitted_types grant (Some (role_types roles)))"

definition audit_extra :: "(string \<times> json) list \<Rightarrow> grant \<Rightarrow> reveal_request \<Rightarrow> (string \<times> json) list" where
  "audit_extra view grant rq =
     [(''grant_id'', JStr (rq_grant_id rq))] @ view
     @ (if truthy (rq_caller rq) then [(''caller'', JStr (the (rq_caller rq)))] else [])
     @ (if truthy (g_role grant)
        then (''role'', JStr (the (g_role grant))) # (if g_document_id grant = None then [(''global_by_role'', JBool True)] else [])
        else [])"

text \<open>\<open>now.timestamp()\<close>, in seconds.\<close>

definition timestamp :: "datetime \<Rightarrow> rat" where
  "timestamp t = (of_int (instant t) - 62135596800000000) / 1000000"

definition deny_vc :: "'a result \<Rightarrow> 'a result" where
  "deny_vc m = (case m of Inl (VcError why) \<Rightarrow> Inl (HTTPException 403) | r \<Rightarrow> r)"

text \<open>From the grant to the text, the types asked for, the types passed and what goes on record besides.\<close>

definition decide ::
    "(string \<Rightarrow> string) \<Rightarrow> reveal_config \<Rightarrow> role list \<Rightarrow> datetime \<Rightarrow> (string \<times> json) list \<Rightarrow> corpus \<Rightarrow> string \<Rightarrow> grant \<Rightarrow> reveal_request
      \<Rightarrow> (string \<times> string list \<times> string set \<times> (string \<times> json) list) result" where
  "decide HD cfg roles now view db doc grant rq =
     (if authorize_here cfg roles now db doc grant (rq_caller rq) (permitted_here roles grant) = {} then Inl (HTTPException 403)
      else (case get_anonymized_text db doc of
          None \<Rightarrow> Inl (HTTPException 409)
        | Some pseudo_text \<Rightarrow>
            (let requested = (case rq_types rq of Some (t # ts) \<Rightarrow> t # ts | _ \<Rightarrow> permitted_here roles grant);
                 passed = authorize_here cfg roles now db doc grant (rq_caller rq) requested
             in rbind (deny_vc (apply_vc_gate HD passed (rq_vc rq) (rv_vc_key cfg) (rv_vc_vct cfg) (rv_vc_issuer cfg)
                                  (rv_vc_required cfg) (timestamp now))) (\<lambda>(passed, vc_audit).
                Inr (pseudo_text, requested, passed, audit_extra view grant rq @ vc_audit)))))"

definition deanonymizing ::
    "(string \<Rightarrow> string) \<Rightarrow> datetime \<Rightarrow> (string \<Rightarrow> string \<Rightarrow> string \<Rightarrow> string \<Rightarrow> string option) \<Rightarrow> (string \<Rightarrow> string result) \<Rightarrow> nat \<Rightarrow> nat
      \<Rightarrow> string \<Rightarrow> string \<Rightarrow> string \<Rightarrow> string set \<Rightarrow> (string \<times> json) list \<Rightarrow> (world, string) act" where
  "deanonymizing H now dec unwrap ttl t doc pseudo_text actor passed extra w =
     (case deanonymize H now dec (pii_mappings (w_db w)) (\<lambda>st. dp_key unwrap ttl t st) (pseudonyms (w_db w)) (audit (w_db w)) doc
             pseudo_text (w_keys w) actor (Some (sorted_types passed)) extra of
        Inl e \<Rightarrow> (Inl e, w)
      | Inr (revealed, a, ks) \<Rightarrow> (Inr revealed, w\<lparr>w_db := (w_db w)\<lparr>audit := a\<rparr>, w_keys := ks\<rparr>))"

text \<open>A list of strings in the payload of the document's last record.\<close>

definition strings_of :: "json \<Rightarrow> string list result" where
  "strings_of v = (case v of
     JArr vs \<Rightarrow> if list_all (\<lambda>x. case x of JStr _ \<Rightarrow> True | _ \<Rightarrow> False) vs
                then Inr (map (\<lambda>x. case x of JStr s \<Rightarrow> s | _ \<Rightarrow> []) vs) else Inl TypeError
   | _ \<Rightarrow> Inl TypeError)"

definition last_payload :: "string \<Rightarrow> corpus \<Rightarrow> string \<Rightarrow> string list result" where
  "last_payload k db doc = (case last_opt (by_seq (filter (\<lambda>r. ar_document_id r = doc) (trail (audit db)))) of
     None \<Rightarrow> Inl ValueError
   | Some r \<Rightarrow> (case jget k (ar_payload r) of None \<Rightarrow> Inl (KeyError k) | Some v \<Rightarrow> strings_of v))"

definition by_legal_basis :: "string set \<Rightarrow> string set \<Rightarrow> (string, string list \<times> string list) dict" where
  "by_legal_basis passed withheld =
     (let a = group_by_basis (sorted_types passed); h = group_by_basis (sorted_types withheld);
          empty = foldl (\<lambda>d b. dict_set b ([], []) d) [] (map fst a @ map fst h);
          shown = foldl (\<lambda>d (b, ts). dict_set b (ts, case dict_get d b of None \<Rightarrow> [] | Some x \<Rightarrow> snd x) d) empty a
      in foldl (\<lambda>d (b, ts). dict_set b (case dict_get d b of None \<Rightarrow> [] | Some x \<Rightarrow> fst x, ts) d) shown h)"

definition reveal_response_of :: "string \<Rightarrow> reveal_request \<Rightarrow> string \<Rightarrow> string list \<Rightarrow> string set \<Rightarrow> string list \<Rightarrow> reveal_response" where
  "reveal_response_of doc rq revealed_text requested passed resolved =
     (let withheld = upper_types requested - passed
      in \<lparr>rr_document_id = doc, rr_revealed_text = revealed_text, rr_revealed_types = sorted_types passed,
          rr_authorized_types = sorted_types passed,
          rr_resolved_types = sort resolved, rr_withheld_types = sorted_types withheld, rr_grant_id = rq_grant_id rq,
          rr_by_legal_basis = by_legal_basis passed withheld\<rparr>)"

subsection \<open>The handlers\<close>

definition reveal_endpoint ::
    "(string \<Rightarrow> string) \<Rightarrow> (string \<Rightarrow> string) \<Rightarrow> (string \<Rightarrow> string \<Rightarrow> string \<Rightarrow> string \<Rightarrow> string option) \<Rightarrow> (string \<Rightarrow> string result) \<Rightarrow> nat \<Rightarrow> nat
      \<Rightarrow> reveal_config \<Rightarrow> role list \<Rightarrow> datetime \<Rightarrow> string \<Rightarrow> reveal_request \<Rightarrow> (world, reveal_response) act" where
  "reveal_endpoint H HD dec unwrap ttl t cfg roles now doc rq = transaction (
     andthen (reading w_db) (\<lambda>db.
     andthen (checked (find_grant db (rq_grant_id rq) doc)) (\<lambda>grant.
     andthen (checked (decide HD cfg roles now [] db doc grant rq)) (\<lambda>(pseudo_text, requested, passed, extra).
     andthen (deanonymizing H now dec unwrap ttl t doc pseudo_text (g_recipient grant) passed extra) (\<lambda>revealed_text.
     andthen (reading w_db) (\<lambda>db.
     andthen (checked (last_payload ''types'' db doc)) (\<lambda>resolved.
     ret (reveal_response_of doc rq revealed_text requested passed resolved))))))))"

definition box_map_of :: "corpus \<Rightarrow> string \<Rightarrow> box_map result" where
  "box_map_of db doc = (case dict_get (box_maps db) doc of None \<Rightarrow> Inl (HTTPException 409) | Some m \<Rightarrow> Inr m)"

text \<open>The labels of the legend, and the rendering with the answer to a box without a surface.\<close>

definition labels_of :: "string \<Rightarrow> (string, string) dict result" where
  "labels_of pseudo_text = rbind (to_legible pseudo_text) (\<lambda>(_, legend).
     Inr (foldl (\<lambda>d (placeholder, token). dict_set token placeholder d) [] legend))"

definition render_or_409 :: "(string \<Rightarrow> page list option) \<Rightarrow> string \<Rightarrow> box list \<Rightarrow> (string, string) dict \<Rightarrow> drawn_page list result" where
  "render_or_409 lib source boxes labels = (case render lib source boxes labels of
     Inl DegenerateBoxError \<Rightarrow> Inl (HTTPException 409) | r \<Rightarrow> r)"

definition read_or_503 :: "(string \<Rightarrow> (world, string) act) \<Rightarrow> corpus \<Rightarrow> string \<Rightarrow> (world, string) act" where
  "read_or_503 read db doc = (case document_by_id db doc of
     None \<Rightarrow> raise_err AttributeError
   | Some d \<Rightarrow> handle (read (dc_object_key d)) (\<lambda>e. raise_err (if e = OriginalsKeyUnavailable then HTTPException 503 else e)))"

definition reveal_pdf_endpoint ::
    "(string \<Rightarrow> string) \<Rightarrow> (string \<Rightarrow> string) \<Rightarrow> (string \<Rightarrow> string \<Rightarrow> string \<Rightarrow> string \<Rightarrow> string option) \<Rightarrow> (string \<Rightarrow> string result) \<Rightarrow> nat \<Rightarrow> nat
      \<Rightarrow> (string \<Rightarrow> (world, string) act) \<Rightarrow> (string \<Rightarrow> page list option)
      \<Rightarrow> reveal_config \<Rightarrow> role list \<Rightarrow> datetime \<Rightarrow> string \<Rightarrow> reveal_request \<Rightarrow> (world, drawn_page list) act" where
  "reveal_pdf_endpoint H HD dec unwrap ttl t read lib cfg roles now doc rq = transaction (
     andthen (reading w_db) (\<lambda>db.
     andthen (checked (find_grant db (rq_grant_id rq) doc)) (\<lambda>grant.
     andthen (checked (box_map_of db doc)) (\<lambda>m.
     andthen (checked (decide HD cfg roles now [(''view'', JStr ''pdf'')] db doc grant rq)) (\<lambda>(pseudo_text, requested, passed, extra).
     andthen (deanonymizing H now dec unwrap ttl t doc pseudo_text (g_recipient grant) passed extra) (\<lambda>_.
     andthen (reading w_db) (\<lambda>db.
     andthen (checked (last_payload ''pseudonyms'' db doc)) (\<lambda>resolved.
     andthen (checked (labels_of pseudo_text)) (\<lambda>labels.
     andthen (read_or_503 read db doc) (\<lambda>source.
     checked (render_or_409 lib source (filter (\<lambda>b. bx_token b \<notin> set resolved) (bm_boxes m)) labels)))))))))))"

subsection \<open>What the gates let through\<close>

lemma authorize_nonempty:
  assumes "authorize g doc requested now dm allow_global caller auth resolve global_roles \<noteq> {}"
  shows "g_status g = ACTIVE \<and> (auth \<longrightarrow> is_recipient caller (g_recipient g))
    \<and> (if g_domain g = [] then DEFAULT_DOMAIN else g_domain g) = dm
    \<and> (\<forall>e. g_expires_at g = Some e \<longrightarrow> instant (assume_utc now) < instant (assume_utc e))
    \<and> (case g_document_id g of None \<Rightarrow> allow_global \<or> truthy (g_role g) \<and> the (g_role g) \<in> set global_roles | Some d \<Rightarrow> doc = Some d)"
  using assms by (auto simp: authorize_def or_str_def expired_def Let_def not_le split: option.splits if_splits)

lemma authorize_within:
  "authorize g doc requested now dm allow_global caller auth resolve global_roles \<subseteq> permitted_types g resolve \<inter> upper_types requested"
  by (auto simp: authorize_def Let_def upper_types_def split: option.splits if_splits)

lemma finite_authorize [simp]: "finite (authorize g doc requested now dm allow_global caller auth resolve global_roles)"
  by (auto simp: authorize_def Let_def split: option.splits)

lemma vc_gate_within:
  assumes "apply_vc_gate HD types presentation key vct issuer required now = Inr (passed, extra)"
  shows "passed \<subseteq> types \<and> fst ` set extra \<subseteq> {''vc_issuer'', ''vc_vct''}"
  using assms by (auto simp: apply_vc_gate_def result_simps split: option.splits if_splits)

lemma deny_vc_Inr [simp]: "deny_vc m = Inr x \<longleftrightarrow> m = Inr x"
  by (auto simp: deny_vc_def split: sum.splits error.splits)

lemma deny_vc_simps [simp]: "deny_vc (Inr x) = Inr x" "deny_vc (Inl (VcError why)) = Inl (HTTPException 403)"
  by (simp_all add: deny_vc_def)

lemma find_grant_Inr:
  "find_grant db gid doc = Inr g \<longleftrightarrow> pg_get (grant_rows db) gid = Some g \<and> (\<exists>s. doc_state db doc = Inr (Some s))
     \<and> (\<forall>d. document_by_id db doc = Some d \<longrightarrow> dc_superseded_by d = None)"
  by (auto simp: find_grant_def result_simps split: option.splits if_splits)

definition open_for :: "reveal_config \<Rightarrow> role list \<Rightarrow> datetime \<Rightarrow> corpus \<Rightarrow> string \<Rightarrow> grant \<Rightarrow> string option \<Rightarrow> bool" where
  "open_for cfg roles now db doc g caller =
     (g_status g = ACTIVE \<and> (rv_auth_enabled cfg \<longrightarrow> is_recipient caller (g_recipient g))
      \<and> document_domain db doc = JStr (if g_domain g = [] then DEFAULT_DOMAIN else g_domain g)
      \<and> (\<forall>e. g_expires_at g = Some e \<longrightarrow> instant (assume_utc now) < instant (assume_utc e))
      \<and> (case g_document_id g of None \<Rightarrow> rv_allow_global cfg \<or> g_role g = Some ADMIN | Some d \<Rightarrow> d = doc)
      \<and> permitted_types g (Some (role_types roles)) \<noteq> {})"

lemma authorize_here_open:
  assumes "authorize_here cfg roles now db doc g caller requested \<noteq> {}"
  shows "open_for cfg roles now db doc g caller"
proof -
  obtain dm where d: "document_domain db doc = JStr dm"
    and a: "authorize g (Some doc) requested now dm (rv_allow_global cfg) caller (rv_auth_enabled cfg) (Some (role_types roles)) [ADMIN] \<noteq> {}"
    using assms by (auto simp: authorize_here_def split: json.splits)
  have "permitted_types g (Some (role_types roles)) \<noteq> {}" using a authorize_within by blast
  with authorize_nonempty [OF a] show ?thesis by (auto simp: open_for_def d truthy_def split: option.splits)
qed

lemma authorize_here_within:
  "authorize_here cfg roles now db doc g caller requested \<subseteq> permitted_types g (Some (role_types roles)) \<inter> upper_types requested"
  using authorize_within by (auto simp: authorize_here_def split: json.splits)

lemma finite_authorize_here [simp]: "finite (authorize_here cfg roles now db doc g caller requested)"
  by (simp add: authorize_here_def split: json.split)

lemma audit_extra_keys: "fst ` set (audit_extra view g rq) \<subseteq> {''grant_id'', ''caller'', ''role'', ''global_by_role''} \<union> fst ` set view"
  by (auto simp: audit_extra_def split: if_splits)

lemma decide_Inr:
  assumes "decide HD cfg roles now view db doc g rq = Inr (pseudo_text, requested, passed, extra)"
  shows "get_anonymized_text db doc = Some pseudo_text \<and> open_for cfg roles now db doc g (rq_caller rq) \<and> finite passed
    \<and> passed \<subseteq> permitted_types g (Some (role_types roles)) \<inter> upper_types requested
    \<and> requested = (case rq_types rq of Some (t # ts) \<Rightarrow> t # ts | _ \<Rightarrow> permitted_here roles g)
    \<and> fst ` set extra \<subseteq> {''grant_id'', ''caller'', ''role'', ''global_by_role'', ''vc_issuer'', ''vc_vct''} \<union> fst ` set view
    \<and> (\<exists>vc. extra = audit_extra view g rq @ vc \<and> apply_vc_gate HD (authorize_here cfg roles now db doc g (rq_caller rq) requested) (rq_vc rq)
         (rv_vc_key cfg) (rv_vc_vct cfg) (rv_vc_issuer cfg) (rv_vc_required cfg) (timestamp now) = Inr (passed, vc))"
proof -
  have ne: "authorize_here cfg roles now db doc g (rq_caller rq) (permitted_here roles g) \<noteq> {}"
    using assms by (auto simp: decide_def split: if_splits)
  obtain vc where r: "get_anonymized_text db doc = Some pseudo_text"
      "requested = (case rq_types rq of Some (t # ts) \<Rightarrow> t # ts | _ \<Rightarrow> permitted_here roles g)"
    and v: "apply_vc_gate HD (authorize_here cfg roles now db doc g (rq_caller rq) requested) (rq_vc rq) (rv_vc_key cfg)
         (rv_vc_vct cfg) (rv_vc_issuer cfg) (rv_vc_required cfg) (timestamp now) = Inr (passed, vc)"
    and e: "extra = audit_extra view g rq @ vc"
    using assms ne by (auto simp: decide_def result_simps Let_def split: option.splits)
  have sub: "passed \<subseteq> authorize_here cfg roles now db doc g (rq_caller rq) requested" "fst ` set vc \<subseteq> {''vc_issuer'', ''vc_vct''}"
    using vc_gate_within [OF v] by auto
  have fin: "finite passed" by (rule finite_subset [OF sub(1)]) simp
  have "fst ` set extra \<subseteq> {''grant_id'', ''caller'', ''role'', ''global_by_role'', ''vc_issuer'', ''vc_vct''} \<union> fst ` set view"
    using audit_extra_keys [of view g rq] sub(2) unfolding e by auto
  with r v e fin sub(1) authorize_here_open [OF ne] authorize_here_within [of cfg roles now db doc g "rq_caller rq" requested]
  show ?thesis by (intro conjI) blast+
qed

lemma deanonymizing_Inr:
  "deanonymizing H now dec unwrap ttl t doc pseudo_text actor passed extra w = (Inr out, w') \<longleftrightarrow>
     (\<exists>a ks. deanonymize H now dec (pii_mappings (w_db w)) (\<lambda>st. dp_key unwrap ttl t st) (pseudonyms (w_db w)) (audit (w_db w)) doc
             pseudo_text (w_keys w) actor (Some (sorted_types passed)) extra = Inr (out, a, ks)
        \<and> w' = w\<lparr>w_db := (w_db w)\<lparr>audit := a\<rparr>, w_keys := ks\<rparr>)"
  by (auto simp: deanonymizing_def split: sum.splits prod.splits)

lemma payload_extra:
  assumes "k \<in> {''pseudonyms'', ''types'', ''actor''}" and "fst ` set extra \<subseteq> {''grant_id'', ''caller'', ''role'', ''global_by_role'', ''vc_issuer'', ''vc_vct'', ''view''}"
  shows "jget k (access_payload revealed A actor extra) = jget k (access_payload revealed A actor [])"
  by (rule access_payload_get) (use assms in auto)

lemma sorted_types_set [simp]: "finite S \<Longrightarrow> set (sorted_types S) = S"
  by (simp add: sorted_types_def)

lemma deanonymize_last:
  assumes "trail_wf db" and "deanonymize H now dec d get rows db doc text st actor A extra = Inr (out, a, st')"
  shows "trail_wf a \<and> last_opt (by_seq (filter (\<lambda>r. ar_document_id r = doc) (trail a))) = Some (last (trail a))"
proof -
  obtain state revealed r where r: "append_record H now db doc (Some state) state ''deanonymize'' (Some (access_payload revealed A actor extra)) None = Inr (a, r)"
    using assms(2) by (rule deanonymizeE)
  note wf = append_wf [OF assms(1) r]
  have "ar_document_id r = doc" using r by (auto elim: append_recordE)
  then have "filter (\<lambda>r. ar_document_id r = doc) (trail a) = filter (\<lambda>r. ar_document_id r = doc) (trail db) @ [r]" "last (trail a) = r"
    by (simp_all add: wf(2))
  then show ?thesis using wf(1) by_seq_filter_wf [OF wf(1), of "\<lambda>r. ar_document_id r = doc"] by (simp add: last_opt_def del: by_seq_filter_wf)
qed

lemma strings_of_JStr [simp]: "strings_of (JArr (map JStr xs)) = Inr xs"
  by (simp add: strings_of_def list_all_iff comp_def)

lemma last_payload_strings:
  assumes "last_opt (by_seq (filter (\<lambda>r. ar_document_id r = doc) (trail (audit db)))) = Some r" and "jget k (ar_payload r) = Some (JArr (map JStr xs))"
  shows "last_payload k db doc = Inr xs"
  using assms by (simp add: last_payload_def)

text \<open>What goes on record besides: the grant, the caller where one is known, and the view.\<close>

lemma payload_added:
  assumes "extra = xs @ (k, v) # ys" and "k \<notin> fst ` set ys"
  shows "jget k (access_payload revealed A actor extra) = Some v"
  by (simp add: assms(1) access_payload_def Let_def jget_def extra_keeps [OF assms(2)])

lemma decide_recorded:
  assumes "decide HD cfg roles now view db doc g rq = Inr (pseudo_text, requested, passed, extra)" and "view \<in> {[], [(''view'', v)]}"
  shows "jget ''grant_id'' (access_payload revealed A actor extra) = Some (JStr (rq_grant_id rq))"
    and "truthy (rq_caller rq) \<Longrightarrow> jget ''caller'' (access_payload revealed A actor extra) = Some (JStr (the (rq_caller rq)))"
    and "view = [(''view'', v)] \<Longrightarrow> jget ''view'' (access_payload revealed A actor extra) = Some v"
proof -
  obtain vc T where e: "extra = audit_extra view g rq @ vc" "apply_vc_gate HD T (rq_vc rq)
         (rv_vc_key cfg) (rv_vc_vct cfg) (rv_vc_issuer cfg) (rv_vc_required cfg) (timestamp now) = Inr (passed, vc)"
    using decide_Inr [OF assms(1)] by blast
  have k: "fst ` set vc \<subseteq> {''vc_issuer'', ''vc_vct''}" using vc_gate_within [OF e(2)] by simp
  let ?role = "if truthy (g_role g) then (''role'', JStr (the (g_role g))) # (if g_document_id g = None then [(''global_by_role'', JBool True)] else []) else []"
  let ?caller = "if truthy (rq_caller rq) then [(''caller'', JStr (the (rq_caller rq)))] else []"
  have x: "extra = (''grant_id'', JStr (rq_grant_id rq)) # view @ ?caller @ ?role @ vc" unfolding e(1) audit_extra_def by simp
  show "jget ''grant_id'' (access_payload revealed A actor extra) = Some (JStr (rq_grant_id rq))"
    by (rule payload_added [of _ "[]" _ _ "view @ ?caller @ ?role @ vc"]) (use x k assms(2) in auto)
  show "jget ''caller'' (access_payload revealed A actor extra) = Some (JStr (the (rq_caller rq)))" if "truthy (rq_caller rq)"
    by (rule payload_added [of _ "(''grant_id'', JStr (rq_grant_id rq)) # view" _ _ "?role @ vc"]) (use x k that in auto)
  show "jget ''view'' (access_payload revealed A actor extra) = Some v" if "view = [(''view'', v)]"
    by (rule payload_added [of _ "[(''grant_id'', JStr (rq_grant_id rq))]" _ _ "?caller @ ?role @ vc"]) (use x k that in auto)
qed

lemma reveal_endpoint_steps:
  assumes "reveal_endpoint H HD dec unwrap ttl t cfg roles now doc rq w = (Inr resp, w')"
  obtains g pseudo_text requested passed extra out a ks resolved where
    "find_grant (w_db w) (rq_grant_id rq) doc = Inr g"
    "decide HD cfg roles now [] (w_db w) doc g rq = Inr (pseudo_text, requested, passed, extra)"
    "deanonymize H now dec (pii_mappings (w_db w)) (\<lambda>st. dp_key unwrap ttl t st) (pseudonyms (w_db w)) (audit (w_db w)) doc
       pseudo_text (w_keys w) (g_recipient g) (Some (sorted_types passed)) extra = Inr (out, a, ks)"
    "w' = w\<lparr>w_db := (w_db w)\<lparr>audit := a\<rparr>, w_keys := ks\<rparr>" "last_payload ''types'' (w_db w') doc = Inr resolved"
    "resp = reveal_response_of doc rq out requested passed resolved"
proof -
  from assms have "\<exists>g pseudo_text requested passed extra out a ks resolved.
    find_grant (w_db w) (rq_grant_id rq) doc = Inr g
    \<and> decide HD cfg roles now [] (w_db w) doc g rq = Inr (pseudo_text, requested, passed, extra)
    \<and> deanonymize H now dec (pii_mappings (w_db w)) (\<lambda>st. dp_key unwrap ttl t st) (pseudonyms (w_db w)) (audit (w_db w)) doc
       pseudo_text (w_keys w) (g_recipient g) (Some (sorted_types passed)) extra = Inr (out, a, ks)
    \<and> w' = w\<lparr>w_db := (w_db w)\<lparr>audit := a\<rparr>, w_keys := ks\<rparr> \<and> last_payload ''types'' (w_db w') doc = Inr resolved
    \<and> resp = reveal_response_of doc rq out requested passed resolved"
    by (auto simp: reveal_endpoint_def transaction_def result_simps deanonymizing_Inr split: sum.splits prod.splits)
  then show ?thesis using that by blast
qed

text \<open>C3: A reveal from the door to the trail. An answer of \<open>POST .../reveal\<close> means: the grant of the request is in
  the table, active, unexpired, presented by its recipient where callers are known, of the document's domain and of
  this document or unscoped by permission; the document is live and de-identified. The types of the answer are
  among those asked for and those the grant, or its role as it is now, permits. The text is the stored one with
  exactly the tokens of those types that are registered for this document and still resolve replaced by their
  values; precisely these and their types are on the one record the reveal adds to the trail, with the recipient of the grant as the actor, the
  identifier of the grant that was presented, and the caller where one is known. Nothing else of the tables changes.\<close>

theorem reveal_endpoint_safe:
  assumes "dp_ok unwrap (w_keys w)" and "trail_wf (audit (w_db w))"
    and "reveal_endpoint H HD dec unwrap ttl t cfg roles now doc rq w = (Inr resp, w')"
  shows "\<exists>g pseudo_text a r revealed. pg_get (grant_rows (w_db w)) (rq_grant_id rq) = Some g \<and> open_for cfg roles now (w_db w) doc g (rq_caller rq)
    \<and> (\<forall>d. document_by_id (w_db w) doc = Some d \<longrightarrow> dc_superseded_by d = None)
    \<and> get_anonymized_text (w_db w) doc = Some pseudo_text
    \<and> set (rr_authorized_types resp) \<subseteq> permitted_types g (Some (role_types roles))
    \<and> (\<forall>t ts. rq_types rq = Some (t # ts) \<longrightarrow> set (rr_authorized_types resp) \<subseteq> upper_types (t # ts))
    \<and> set revealed = {p \<in> tokens_in pseudo_text. p \<in> registered (pseudonyms (w_db w)) doc \<and> label_of p \<in> set (rr_authorized_types resp)
        \<and> reveals dec (dp_lookup unwrap (w_keys w)) (pii_mappings (w_db w)) p \<noteq> None}
    \<and> rr_resolved_types resp = sorted_set (map label_of revealed)
    \<and> rr_revealed_text resp = sub PSEUDONYM_RE
        (\<lambda>p. if p \<in> set revealed then the (reveals dec (dp_lookup unwrap (w_keys w)) (pii_mappings (w_db w)) p) else p) pseudo_text
    \<and> w_db w' = (w_db w)\<lparr>audit := a\<rparr> \<and> trail a = trail (audit (w_db w)) @ [r] \<and> ar_document_id r = doc \<and> ar_step r = ''deanonymize''
    \<and> jget ''pseudonyms'' (ar_payload r) = Some (JArr (map JStr (sorted_set revealed)))
    \<and> jget ''types'' (ar_payload r) = Some (JArr (map JStr (rr_resolved_types resp)))
    \<and> jget ''actor'' (ar_payload r) = Some (JStr (g_recipient g))
    \<and> jget ''grant_id'' (ar_payload r) = Some (JStr (rq_grant_id rq))
    \<and> (truthy (rq_caller rq) \<longrightarrow> jget ''caller'' (ar_payload r) = Some (JStr (the (rq_caller rq))))"
proof -
  obtain g pseudo_text requested passed extra out a ks resolved where
    s: "find_grant (w_db w) (rq_grant_id rq) doc = Inr g"
      "decide HD cfg roles now [] (w_db w) doc g rq = Inr (pseudo_text, requested, passed, extra)"
      "deanonymize H now dec (pii_mappings (w_db w)) (\<lambda>st. dp_key unwrap ttl t st) (pseudonyms (w_db w)) (audit (w_db w)) doc
         pseudo_text (w_keys w) (g_recipient g) (Some (sorted_types passed)) extra = Inr (out, a, ks)"
      "w' = w\<lparr>w_db := (w_db w)\<lparr>audit := a\<rparr>, w_keys := ks\<rparr>" "last_payload ''types'' (w_db w') doc = Inr resolved" "resp = reveal_response_of doc rq out requested passed resolved"
    using assms(3) by (rule reveal_endpoint_steps)
  have d: "get_anonymized_text (w_db w) doc = Some pseudo_text" "open_for cfg roles now (w_db w) doc g (rq_caller rq)" "finite passed"
    "passed \<subseteq> permitted_types g (Some (role_types roles)) \<inter> upper_types requested"
    "requested = (case rq_types rq of Some (t # ts) \<Rightarrow> t # ts | _ \<Rightarrow> permitted_here roles g)"
    "fst ` set extra \<subseteq> {''grant_id'', ''caller'', ''role'', ''global_by_role'', ''vc_issuer'', ''vc_vct'', ''view''}"
    using decide_Inr [OF s(2)] by auto
  have "''pseudonyms'' \<notin> fst ` set extra" using d(6) by auto
  from deanonymize_spec [OF assms(1) s(3) this] obtain r revealed where
    r: "trail a = trail (audit (w_db w)) @ [r]" "ar_document_id r = doc" "ar_step r = ''deanonymize''"
      "ar_payload r = access_payload revealed (Some (sorted_types passed)) (g_recipient g) extra"
      "jget ''pseudonyms'' (ar_payload r) = Some (JArr (map JStr (sorted_set revealed)))"
      "set revealed = {p \<in> tokens_in pseudo_text. p \<in> registered (pseudonyms (w_db w)) doc \<and> label_of p \<in> set (sorted_types passed)
        \<and> reveals dec (dp_lookup unwrap (w_keys w)) (pii_mappings (w_db w)) p \<noteq> None}"
      "out = sub PSEUDONYM_RE (\<lambda>p. if p \<in> set revealed then the (reveals dec (dp_lookup unwrap (w_keys w)) (pii_mappings (w_db w)) p) else p) pseudo_text"
    by (elim exE conjE) (simp only: option.case)
  have actor: "jget ''actor'' (ar_payload r) = Some (JStr (g_recipient g))"
    using payload_extra [OF _ d(6), of "''actor''"] by (simp add: r(4)) (simp add: access_payload_def Let_def jget_def)
  have types: "rr_authorized_types resp = sorted_types passed" "rr_revealed_text resp = out"
    by (simp_all add: s(6) reveal_response_of_def Let_def)
  have listed: "jget ''types'' (ar_payload r) = Some (JArr (map JStr (sorted_set (map label_of revealed))))"
    using payload_extra [OF _ d(6), of "''types''"] by (simp add: r(4)) (simp add: access_payload_def Let_def jget_def)
  have "last_opt (by_seq (filter (\<lambda>x. ar_document_id x = doc) (trail (audit (w_db w'))))) = Some r"
    using deanonymize_last [OF assms(2) s(3)] r(1) by (simp add: s(4))
  with listed have "resolved = sorted_set (map label_of revealed)" using last_payload_strings s(5) by fastforce
  then have resolved: "rr_resolved_types resp = sorted_set (map label_of revealed)"
    by (simp add: s(6) reveal_response_of_def Let_def sorted_set_def sorted_sort_id)
  have db: "w_db w' = (w_db w)\<lparr>audit := a\<rparr>" by (simp add: s(4))
  have asked: "\<forall>t ts. rq_types rq = Some (t # ts) \<longrightarrow> set (sorted_types passed) \<subseteq> upper_types (t # ts)"
    using d(3,4,5) by auto
  have g: "pg_get (grant_rows (w_db w)) (rq_grant_id rq) = Some g" "\<forall>d. document_by_id (w_db w) doc = Some d \<longrightarrow> dc_superseded_by d = None"
    using s(1) by (simp_all add: find_grant_Inr)
  have perm: "set (sorted_types passed) \<subseteq> permitted_types g (Some (role_types roles))" using d(3,4) by simp
  have listed': "jget ''types'' (ar_payload r) = Some (JArr (map JStr (rr_resolved_types resp)))" using listed resolved by simp
  have gid: "jget ''grant_id'' (ar_payload r) = Some (JStr (rq_grant_id rq))" unfolding r(4) by (rule decide_recorded(1) [OF s(2)]) simp
  have who: "truthy (rq_caller rq) \<longrightarrow> jget ''caller'' (ar_payload r) = Some (JStr (the (rq_caller rq)))"
    unfolding r(4) by (rule impI) (rule decide_recorded(2) [OF s(2)], simp_all)
  show ?thesis
    unfolding types
    by (intro exI [of _ g] exI [of _ pseudo_text] exI [of _ a] exI [of _ r] exI [of _ revealed] conjI)
      (rule g d(2) g(2) d(1) perm asked r(6) resolved r(7) db r(1) r(2) r(3) r(5) listed' actor gid who)+
qed

text \<open>Whichever gate fails, nothing has happened.\<close>

lemma reveal_refused:
  assumes "case pg_get (grant_rows (w_db w)) (rq_grant_id rq) of None \<Rightarrow> True
    | Some g \<Rightarrow> g_status g = REVOKED \<or> (\<exists>e. g_expires_at g = Some e \<and> instant (assume_utc e) \<le> instant (assume_utc now))
       \<or> (truthy (g_role g) \<and> (case by_name roles (the (g_role g)) of None \<Rightarrow> True | Some r \<Rightarrow> r_active r = False))
       \<or> (rv_auth_enabled cfg \<and> is_recipient (rq_caller rq) (g_recipient g) = False)
       \<or> (case document_by_id (w_db w) doc of None \<Rightarrow> False | Some d \<Rightarrow> dc_superseded_by d \<noteq> None)
       \<or> get_anonymized_text (w_db w) doc = None"
  shows "\<exists>e. reveal_endpoint H HD dec unwrap ttl t cfg roles now doc rq w = (Inl e, w)"
proof -
  have "\<exists>e. rbind (find_grant (w_db w) (rq_grant_id rq) doc) (\<lambda>g. decide HD cfg roles now [] (w_db w) doc g rq) = Inl e"
  proof (rule ccontr)
    assume "\<not> ?thesis"
    then obtain x where "rbind (find_grant (w_db w) (rq_grant_id rq) doc) (\<lambda>g. decide HD cfg roles now [] (w_db w) doc g rq) = Inr x"
      by (cases "rbind (find_grant (w_db w) (rq_grant_id rq) doc) (\<lambda>g. decide HD cfg roles now [] (w_db w) doc g rq)") auto
    then obtain g where g: "find_grant (w_db w) (rq_grant_id rq) doc = Inr g" "decide HD cfg roles now [] (w_db w) doc g rq = Inr x"
      by (auto simp: result_simps)
    obtain t rqs ps ex where x: "x = (t, rqs, ps, ex)" by (cases x)
    have o: "open_for cfg roles now (w_db w) doc g (rq_caller rq)" "get_anonymized_text (w_db w) doc \<noteq> None"
      using decide_Inr [OF g(2) [unfolded x]] by auto
    have f: "pg_get (grant_rows (w_db w)) (rq_grant_id rq) = Some g" "\<forall>d. document_by_id (w_db w) doc = Some d \<longrightarrow> dc_superseded_by d = None"
      using g(1) by (simp_all add: find_grant_Inr)
    have "\<not> (truthy (g_role g) \<and> (case by_name roles (the (g_role g)) of None \<Rightarrow> True | Some r \<Rightarrow> r_active r = False))"
      using o(1) by (auto simp: open_for_def permitted_types_def role_types_def resolve_role_def upper_types_def truthy_def split: option.splits if_splits)
    with assms f o show False by (auto simp: open_for_def split: option.splits)
  qed
  then show ?thesis
    by (auto simp: reveal_endpoint_def transaction_def andthen_def rbind_def split: sum.splits)
qed

text \<open>C35: The doors that stay shut. Whatever else the request says, a reveal is refused, with the tables and the keys
  as they were, when the grant is unknown, revoked or expired, when the role it is given under is switched off or
  gone, when callers are known and the caller is not its recipient, when the document has been retired for another one, or
  when its text has been deleted.\<close>

theorem reveal_shut:
  assumes "case pg_get (grant_rows (w_db w)) (rq_grant_id rq) of None \<Rightarrow> True
    | Some g \<Rightarrow> g_status g = REVOKED \<or> (\<exists>e. g_expires_at g = Some e \<and> instant (assume_utc e) \<le> instant (assume_utc now))
       \<or> (truthy (g_role g) \<and> (case by_name roles (the (g_role g)) of None \<Rightarrow> True | Some r \<Rightarrow> r_active r = False))
       \<or> (rv_auth_enabled cfg \<and> is_recipient (rq_caller rq) (g_recipient g) = False)
       \<or> (case document_by_id (w_db w) doc of None \<Rightarrow> False | Some d \<Rightarrow> dc_superseded_by d \<noteq> None)
       \<or> get_anonymized_text (w_db w) doc = None"
  shows "\<exists>e. reveal_endpoint H HD dec unwrap ttl t cfg roles now doc rq w = (Inl e, w)"
  using assms by (rule reveal_refused)

lemma reveal_pdf_steps:
  assumes "reveal_pdf_endpoint H HD dec unwrap ttl t read lib cfg roles now doc rq w = (Inr out, w')"
  obtains g m pseudo_text requested passed extra body a ks resolved labels source w2 where
    "find_grant (w_db w) (rq_grant_id rq) doc = Inr g" "dict_get (box_maps (w_db w)) doc = Some m"
    "decide HD cfg roles now [(''view'', JStr ''pdf'')] (w_db w) doc g rq = Inr (pseudo_text, requested, passed, extra)"
    "deanonymize H now dec (pii_mappings (w_db w)) (\<lambda>st. dp_key unwrap ttl t st) (pseudonyms (w_db w)) (audit (w_db w)) doc
       pseudo_text (w_keys w) (g_recipient g) (Some (sorted_types passed)) extra = Inr (body, a, ks)"
    "w2 = w\<lparr>w_db := (w_db w)\<lparr>audit := a\<rparr>, w_keys := ks\<rparr>" "last_payload ''pseudonyms'' (w_db w2) doc = Inr resolved"
    "labels_of pseudo_text = Inr labels" "read_or_503 read (w_db w2) doc w2 = (Inr source, w')"
    "render lib source (filter (\<lambda>b. bx_token b \<notin> set resolved) (bm_boxes m)) labels = Inr out"
proof -
  have r: "render_or_409 lib source bs labels = Inr out \<longleftrightarrow> render lib source bs labels = Inr out" for source bs labels
    by (auto simp: render_or_409_def split: sum.splits error.splits)
  have b: "box_map_of db doc = Inr m \<longleftrightarrow> dict_get (box_maps db) doc = Some m" for db m
    by (simp add: box_map_of_def split: option.split)
  from assms have "\<exists>g m pseudo_text requested passed extra body a ks resolved labels source w2.
    find_grant (w_db w) (rq_grant_id rq) doc = Inr g \<and> dict_get (box_maps (w_db w)) doc = Some m
    \<and> decide HD cfg roles now [(''view'', JStr ''pdf'')] (w_db w) doc g rq = Inr (pseudo_text, requested, passed, extra)
    \<and> deanonymize H now dec (pii_mappings (w_db w)) (\<lambda>st. dp_key unwrap ttl t st) (pseudonyms (w_db w)) (audit (w_db w)) doc
       pseudo_text (w_keys w) (g_recipient g) (Some (sorted_types passed)) extra = Inr (body, a, ks)
    \<and> w2 = w\<lparr>w_db := (w_db w)\<lparr>audit := a\<rparr>, w_keys := ks\<rparr> \<and> last_payload ''pseudonyms'' (w_db w2) doc = Inr resolved
    \<and> labels_of pseudo_text = Inr labels \<and> read_or_503 read (w_db w2) doc w2 = (Inr source, w')
    \<and> render lib source (filter (\<lambda>b. bx_token b \<notin> set resolved) (bm_boxes m)) labels = Inr out"
    unfolding r [symmetric] b [symmetric]
    by (auto simp: reveal_pdf_endpoint_def transaction_def result_simps deanonymizing_Inr split: sum.splits prod.splits)
  then show ?thesis using that by blast
qed

text \<open>C32: What a revealed PDF leaves covered. A page that \<open>reveal.pdf\<close> draws is a page of the file that was read under the object key of
  this document; every box the document's box map has for it is painted, with nothing of what lies under it in the text layer, except the boxes of the
  tokens this reveal has put on record: before the file is read, one record has been added to the trail, of this document, with
  precisely these tokens, the recipient as the actor, the grant and the view. They are the tokens of the de-identified text that are registered for this document, of a type (\<open>types\<close>) the grant
  permits and that was asked for, and that still resolve. (As C34 says, a box of the map on a page beyond the file is dropped.)\<close>

theorem reveal_pdf_covers:
  assumes "dp_ok unwrap (w_keys w)" and "trail_wf (audit (w_db w))"
    and "reveal_pdf_endpoint H HD dec unwrap ttl t read lib cfg roles now doc rq w = (Inr out, w')"
  shows "\<exists>g m pseudo_text revealed types labels source pages d a r ks. pg_get (grant_rows (w_db w)) (rq_grant_id rq) = Some g
    \<and> open_for cfg roles now (w_db w) doc g (rq_caller rq) \<and> dict_get (box_maps (w_db w)) doc = Some m
    \<and> get_anonymized_text (w_db w) doc = Some pseudo_text
    \<and> types \<subseteq> permitted_types g (Some (role_types roles)) \<and> (\<forall>t ts. rq_types rq = Some (t # ts) \<longrightarrow> types \<subseteq> upper_types (t # ts))
    \<and> set revealed = {p \<in> tokens_in pseudo_text. p \<in> registered (pseudonyms (w_db w)) doc \<and> label_of p \<in> types
        \<and> reveals dec (dp_lookup unwrap (w_keys w)) (pii_mappings (w_db w)) p \<noteq> None}
    \<and> trail a = trail (audit (w_db w)) @ [r] \<and> ar_document_id r = doc \<and> ar_step r = ''deanonymize''
    \<and> jget ''pseudonyms'' (ar_payload r) = Some (JArr (map JStr (sorted_set revealed)))
    \<and> jget ''actor'' (ar_payload r) = Some (JStr (g_recipient g)) \<and> jget ''grant_id'' (ar_payload r) = Some (JStr (rq_grant_id rq))
    \<and> jget ''view'' (ar_payload r) = Some (JStr ''pdf'')
    \<and> document_by_id (w_db w) doc = Some d
    \<and> read (dc_object_key d) (w\<lparr>w_db := (w_db w)\<lparr>audit := a\<rparr>, w_keys := ks\<rparr>) = (Inr source, w')
    \<and> lib source = Some pages
    \<and> list_all2 (\<lambda>(i, p) d. hides (filter (\<lambda>b. bx_page b = i \<and> bx_token b \<notin> set revealed) (bm_boxes m)) labels p d) (enumerate 0 pages) out"
proof -
  obtain g m pseudo_text requested passed extra body a ks resolved labels source w2 where
    s: "find_grant (w_db w) (rq_grant_id rq) doc = Inr g" "dict_get (box_maps (w_db w)) doc = Some m"
      "decide HD cfg roles now [(''view'', JStr ''pdf'')] (w_db w) doc g rq = Inr (pseudo_text, requested, passed, extra)"
      "deanonymize H now dec (pii_mappings (w_db w)) (\<lambda>st. dp_key unwrap ttl t st) (pseudonyms (w_db w)) (audit (w_db w)) doc
         pseudo_text (w_keys w) (g_recipient g) (Some (sorted_types passed)) extra = Inr (body, a, ks)"
      "w2 = w\<lparr>w_db := (w_db w)\<lparr>audit := a\<rparr>, w_keys := ks\<rparr>" "last_payload ''pseudonyms'' (w_db w2) doc = Inr resolved"
      "read_or_503 read (w_db w2) doc w2 = (Inr source, w')"
      "render lib source (filter (\<lambda>b. bx_token b \<notin> set resolved) (bm_boxes m)) labels = Inr out"
    using assms(3) by (rule reveal_pdf_steps)
  have d: "get_anonymized_text (w_db w) doc = Some pseudo_text" "open_for cfg roles now (w_db w) doc g (rq_caller rq)" "finite passed"
    "passed \<subseteq> permitted_types g (Some (role_types roles)) \<inter> upper_types requested"
    "requested = (case rq_types rq of Some (t # ts) \<Rightarrow> t # ts | _ \<Rightarrow> permitted_here roles g)"
    "fst ` set extra \<subseteq> {''grant_id'', ''caller'', ''role'', ''global_by_role'', ''vc_issuer'', ''vc_vct'', ''view''}"
    using decide_Inr [OF s(3)] by auto
  have "''pseudonyms'' \<notin> fst ` set extra" using d(6) by auto
  from deanonymize_spec [OF assms(1) s(4) this] obtain r revealed where
    r: "trail a = trail (audit (w_db w)) @ [r]" "ar_document_id r = doc" "ar_step r = ''deanonymize''"
      "ar_payload r = access_payload revealed (Some (sorted_types passed)) (g_recipient g) extra"
      "jget ''pseudonyms'' (ar_payload r) = Some (JArr (map JStr (sorted_set revealed)))"
      "set revealed = {p \<in> tokens_in pseudo_text. p \<in> registered (pseudonyms (w_db w)) doc \<and> label_of p \<in> set (sorted_types passed)
        \<and> reveals dec (dp_lookup unwrap (w_keys w)) (pii_mappings (w_db w)) p \<noteq> None}"
    by (elim exE conjE) (simp only: option.case)
  have actor: "jget ''actor'' (ar_payload r) = Some (JStr (g_recipient g))"
    using payload_extra [OF _ d(6), of "''actor''"] by (simp add: r(4)) (simp add: access_payload_def Let_def jget_def)
  have put: "jget ''grant_id'' (ar_payload r) = Some (JStr (rq_grant_id rq))" "jget ''view'' (ar_payload r) = Some (JStr ''pdf'')"
    unfolding r(4) by (rule decide_recorded(1) [OF s(3)], simp) (rule decide_recorded(3) [OF s(3)], simp_all)
  have "last_opt (by_seq (filter (\<lambda>x. ar_document_id x = doc) (trail (audit (w_db w2))))) = Some r"
    using deanonymize_last [OF assms(2) s(4)] r(1) by (simp add: s(5))
  from last_payload_strings [OF this r(5)] have res: "set resolved = set revealed" using s(6) by (simp add: sorted_set_def)
  obtain pages where p: "lib source = Some pages" "list_all (\<lambda>b. \<not> no_surface b) (filter (\<lambda>b. bx_token b \<notin> set revealed) (bm_boxes m))"
    "out = map (\<lambda>(i, p). draw_page (filter (\<lambda>b. bx_page b = i) (filter (\<lambda>b. bx_token b \<notin> set revealed) (bm_boxes m))) labels p) (enumerate 0 pages)"
    using s(8) by (auto simp: render_Inr res)
  have drawn: "list_all2 (\<lambda>(i, p) d. hides (filter (\<lambda>b. bx_page b = i \<and> bx_token b \<notin> set revealed) (bm_boxes m)) labels p d) (enumerate 0 pages) out"
    unfolding p(3) using p(2) by (auto simp: list_all2_conv_all_nth split_beta list_all_iff conj_commute intro!: draw_page_hides)
  obtain d' where d': "document_by_id (w_db w) doc = Some d'" "read (dc_object_key d') w2 = (Inr source, w')"
    using s(7) by (auto simp: read_or_503_def s(5) document_by_id_def raise_err_def handle_def split: option.splits prod.splits sum.splits)
  have perm: "set (sorted_types passed) \<subseteq> permitted_types g (Some (role_types roles))"
    "\<forall>t ts. rq_types rq = Some (t # ts) \<longrightarrow> set (sorted_types passed) \<subseteq> upper_types (t # ts)"
    using d(3-5) by auto
  have g: "pg_get (grant_rows (w_db w)) (rq_grant_id rq) = Some g" using s(1) by (simp add: find_grant_Inr)
  show ?thesis
    by (intro exI [of _ g] exI [of _ m] exI [of _ pseudo_text] exI [of _ revealed] exI [of _ "set (sorted_types passed)"] exI [of _ labels] exI [of _ source]
        exI [of _ pages] exI [of _ d'] exI [of _ a] exI [of _ r] exI [of _ ks] conjI)
      (rule g d(2) s(2) d(1) perm r(6) r(1) r(2) r(3) r(5) actor put d'(1) d'(2) [unfolded s(5)] p(1) drawn)+
qed

subsection \<open>Concrete instances\<close>

definition reveal_grant_row :: grant_row where
  "reveal_grant_row = \<lparr>gr_grant_id = ''g1'', gr_recipient = ''me'', gr_allowed_types = [''EMAIL''], gr_document_id = Some ''d1'', gr_status = ACTIVE,
     gr_created_at = sample_time, gr_revoked_at = None, gr_expires_at = None, gr_actor = ''op'', gr_domain = None, gr_role = None\<rparr>"

definition reveal_corpus :: corpus where
  "reveal_corpus = \<lparr>documents = [\<lparr>dc_id = ''d1'', dc_object_key = ''k'', dc_filename = None, dc_superseded_by = None, dc_source_url = None,
       dc_fetched_at = None, dc_source_sha256 = None\<rparr>], audit = sample_trail, texts = [(''d1'', sample_text)], pseudonyms = sample_rows,
     pii_mappings = sample_store, dossier_rows = [], memberships = [], topic_rows = [], grant_rows = [reveal_grant_row],
     key_log = \<lparr>key_events = [], key_next_seq = 1\<rparr>,
     box_maps = [(''d1'', \<lparr>bm_hash = ''h'', bm_lists_hash = None, bm_boxes = [\<lparr>bx_page = 0, bx_rect = (0, 10, 10, 20), bx_token = ''[EMAIL:11111111]''\<rparr>]\<rparr>)],
     summary_rows = []\<rparr>"

definition reveal_world :: world where
  "reveal_world = \<lparr>w_db = reveal_corpus, w_store = Plain \<lparr>ob_data = [(''k'', ''pdf'')], ob_modified = []\<rparr>,
     w_index = \<lparr>ix_docs = [], ix_dossiers = [], ix_topics = [], ix_passages = []\<rparr>, w_keys = sample_dp', w_drawn = 0, w_faults = []\<rparr>"

definition closed_config :: reveal_config where
  "closed_config = \<lparr>rv_allow_global = False, rv_auth_enabled = True, rv_vc_key = None, rv_vc_vct = None, rv_vc_issuer = None, rv_vc_required = False\<rparr>"

definition asked_by :: "string \<Rightarrow> reveal_request" where
  "asked_by who = \<lparr>rq_grant_id = ''g1'', rq_types = None, rq_vc = None, rq_caller = Some who\<rparr>"

lemma sample_upper: "upper ''EMAIL'' = ''EMAIL''" "strip ''me'' = ''me''" "strip ''you'' = ''you''"
  by code_simp+

lemma sample_permitted: "permitted_here [] (grant_of_row reveal_grant_row) = [''EMAIL'']"
  by (simp add: permitted_here_def permitted_types_def grant_of_row_def reveal_grant_row_def upper_types_def sample_upper sorted_types_def)

lemma sample_here:
  "authorize_here closed_config [] sample_time reveal_corpus ''d1'' (grant_of_row reveal_grant_row) (Some ''me'') [''EMAIL''] = {''EMAIL''}"
  by (simp add: authorize_here_def document_domain_def records_of_def reveal_corpus_def sample_trail_def sample_record_def by_seq_def
      payload_get_def jget_def authorize_def closed_config_def grant_of_row_def reveal_grant_row_def is_recipient_def sample_upper or_str_def
      DEFAULT_DOMAIN_def permitted_types_def upper_types_def)

lemma sample_gate: "apply_vc_gate HD types vc (rv_vc_key closed_config) vct issuer required t = Inr (types, [])"
  by (simp add: apply_vc_gate_def closed_config_def)

lemma reveal_corpus_text: "get_anonymized_text reveal_corpus ''d1'' = Some sample_text"
  by (simp add: get_anonymized_text_def reveal_corpus_def)

lemma sample_decide:
  "decide HD closed_config [] sample_time view reveal_corpus ''d1'' (grant_of_row reveal_grant_row) (asked_by ''me'')
      = Inr (sample_text, [''EMAIL''], {''EMAIL''}, audit_extra view (grant_of_row reveal_grant_row) (asked_by ''me''))"
proof -
  have rq: "rq_types (asked_by ''me'') = None" "rq_caller (asked_by ''me'') = Some ''me''"
    by (simp_all add: asked_by_def)
  show ?thesis by (simp add: decide_def rq sample_permitted sample_here reveal_corpus_text sample_gate)
qed

lemma reveal_corpus_rows:
  "pg_get (grant_rows reveal_corpus) ''g1'' = Some (grant_of_row reveal_grant_row)" "doc_state reveal_corpus ''d1'' = Inr (Some REGISTERED)"
  "\<exists>d. document_by_id reveal_corpus ''d1'' = Some d \<and> dc_superseded_by d = None"
proof -
  show "pg_get (grant_rows reveal_corpus) ''g1'' = Some (grant_of_row reveal_grant_row)"
    by (simp add: pg_get_def row_by_id_def reveal_corpus_def reveal_grant_row_def)
  have "audit reveal_corpus = sample_trail" by (simp add: reveal_corpus_def)
  moreover have "current_state sample_trail ''d1'' = Inr (Some REGISTERED)"
    by (simp add: current_state_def by_seq_def sample_trail_def sample_record_def last_opt_def state_of_Inr result_simps)
  ultimately show "doc_state reveal_corpus ''d1'' = Inr (Some REGISTERED)" by (simp add: doc_state_def)
qed (simp add: document_by_id_def reveal_corpus_def)

lemma sample_find: "find_grant reveal_corpus ''g1'' ''d1'' = Inr (grant_of_row reveal_grant_row)"
proof -
  obtain d where "document_by_id reveal_corpus ''d1'' = Some d" "dc_superseded_by d = None" using reveal_corpus_rows(3) by blast
  then show ?thesis by (simp add: find_grant_Inr reveal_corpus_rows)
qed

lemma sample_deanonymize_any:
  "\<exists>db'. deanonymize other_hash sample_time sample_dec sample_store (\<lambda>st. dp_key sample_wrap 5 1 st) sample_rows sample_trail ''d1''
    sample_text sample_dp' actor (Some [''EMAIL'']) extra = Inr (''to a@b.nl, [EMAIL:11111111]'', db', sample_dp')"
proof -
  obtain db' r where "append_record other_hash sample_time sample_trail ''d1'' (Some ''registered'') ''registered'' ''deanonymize''
      (Some (access_payload [''[EMAIL:00000000]''] (Some [''EMAIL'']) actor extra)) None = Inr (db', r)" using sample_append by blast
  then show ?thesis by (simp add: deanonymize_def sample_stored sample_registered sample_reveal(1) del: One_nat_def)
qed

lemma reveal_corpus_parts:
  "pii_mappings reveal_corpus = sample_store" "pseudonyms reveal_corpus = sample_rows" "audit reveal_corpus = sample_trail"
  "w_db reveal_world = reveal_corpus" "w_keys reveal_world = sample_dp'"
  by (simp_all add: reveal_corpus_def reveal_world_def)

lemma sample_last_payload:
  assumes "deanonymize H now dec d get rows sample_trail doc text st actor (Some A) extra = Inr (out, a, st')"
    and "fst ` set extra \<subseteq> {''grant_id'', ''caller'', ''role'', ''global_by_role'', ''vc_issuer'', ''vc_vct'', ''view''}"
    and "audit db = a" and "k \<in> {''types'', ''pseudonyms''}"
  shows "\<exists>xs. last_payload k db doc = Inr xs"
proof -
  obtain state revealed r where r: "append_record H now sample_trail doc (Some state) state ''deanonymize'' (Some (access_payload revealed (Some A) actor extra)) None = Inr (a, r)"
    using assms(1) by (rule deanonymizeE)
  have l: "last_opt (by_seq (filter (\<lambda>r. ar_document_id r = doc) (trail (audit db)))) = Some r"
    using deanonymize_last [OF _ assms(1)] append_wf(2) [OF _ r] by (simp add: assms(3))
  have "ar_payload r = access_payload revealed (Some A) actor extra"
    using r by (rule append_recordE) (simp add: or_empty_def)
  moreover obtain xs where "jget k (access_payload revealed (Some A) actor []) = Some (JArr (map JStr xs))"
    using assms(4) by (auto simp: access_payload_def Let_def jget_def)
  moreover have "jget k (access_payload revealed (Some A) actor extra) = jget k (access_payload revealed (Some A) actor [])"
    by (rule payload_extra [OF _ assms(2)]) (use assms(4) in blast)
  ultimately have "jget k (ar_payload r) = Some (JArr (map JStr xs))" by simp
  with l have "last_payload k db doc = Inr xs" by (rule last_payload_strings)
  then show ?thesis ..
qed

lemma sample_reveal_run:
  "\<exists>resp w'. reveal_endpoint other_hash HD sample_dec sample_wrap 5 1 closed_config [] sample_time ''d1'' (asked_by ''me'') reveal_world = (Inr resp, w')
     \<and> rr_authorized_types resp = [''EMAIL'']"
proof -
  let ?extra = "audit_extra [] (grant_of_row reveal_grant_row) (asked_by ''me'')"
  obtain a where a: "deanonymize other_hash sample_time sample_dec sample_store (\<lambda>st. dp_key sample_wrap 5 1 st) sample_rows sample_trail ''d1''
    sample_text sample_dp' (g_recipient (grant_of_row reveal_grant_row)) (Some [''EMAIL'']) ?extra = Inr (''to a@b.nl, [EMAIL:11111111]'', a, sample_dp')"
    using sample_deanonymize_any by blast
  have "fst ` set ?extra \<subseteq> {''grant_id'', ''caller'', ''role'', ''global_by_role'', ''vc_issuer'', ''vc_vct'', ''view''}"
    using audit_extra_keys [of "[]"] by auto
  from sample_last_payload [OF a this, where db = "reveal_corpus\<lparr>audit := a\<rparr>" and k = "''types''"] obtain xs where
    "last_payload ''types'' (reveal_corpus\<lparr>audit := a\<rparr>) ''d1'' = Inr xs" by auto
  moreover have "rq_grant_id (asked_by ''me'') = ''g1''" "sorted_types {''EMAIL''} = [''EMAIL'']"
    by (simp_all add: asked_by_def sorted_types_def)
  ultimately show ?thesis
    using a by (simp add: reveal_endpoint_def transaction_def andthen_def reveal_corpus_parts sample_find sample_decide deanonymizing_def
        reveal_response_of_def Let_def del: One_nat_def)
qed

lemma reveal_endpoint_safe_witness:
  "\<exists>(resp :: reveal_response) g. rr_authorized_types resp = [''EMAIL''] \<and> pg_get (grant_rows reveal_corpus) ''g1'' = Some g
     \<and> set (rr_authorized_types resp) \<subseteq> permitted_types g (Some (role_types []))"
proof -
  obtain resp w' where run: "reveal_endpoint other_hash (\<lambda>d. d) sample_dec sample_wrap 5 1 closed_config [] sample_time ''d1'' (asked_by ''me'') reveal_world = (Inr resp, w')"
    and ts: "rr_authorized_types resp = [''EMAIL'']" using sample_reveal_run by blast
  have "dp_ok sample_wrap (w_keys reveal_world)" "trail_wf (audit (w_db reveal_world))"
    by (simp_all add: reveal_corpus_parts sample_dp_fine)
  from reveal_endpoint_safe [OF this run] obtain g where
    "pg_get (grant_rows (w_db reveal_world)) (rq_grant_id (asked_by ''me'')) = Some g"
    "set (rr_authorized_types resp) \<subseteq> permitted_types g (Some (role_types []))" by (elim exE conjE) (rule that)
  then show ?thesis using ts by (auto simp: reveal_corpus_parts asked_by_def)
qed

text \<open>The same grant, presented by somebody else.\<close>

lemma reveal_shut_witness:
  "\<exists>e. reveal_endpoint other_hash (\<lambda>d. d) sample_dec sample_wrap 5 1 closed_config [] sample_time ''d1'' (asked_by ''you'') reveal_world = (Inl e, reveal_world)"
proof (rule reveal_shut)
  have "pg_get (grant_rows (w_db reveal_world)) (rq_grant_id (asked_by ''you'')) = Some (grant_of_row reveal_grant_row)"
    by (simp add: pg_get_def row_by_id_def reveal_corpus_parts) (simp add: reveal_corpus_def asked_by_def reveal_grant_row_def)
  moreover have "rv_auth_enabled closed_config \<and> is_recipient (rq_caller (asked_by ''you'')) (g_recipient (grant_of_row reveal_grant_row)) = False"
    by (simp add: closed_config_def asked_by_def is_recipient_def grant_of_row_def reveal_grant_row_def sample_upper)
  ultimately show "case pg_get (grant_rows (w_db reveal_world)) (rq_grant_id (asked_by ''you'')) of None \<Rightarrow> True
    | Some g \<Rightarrow> g_status g = REVOKED \<or> (\<exists>e. g_expires_at g = Some e \<and> instant (assume_utc e) \<le> instant (assume_utc sample_time))
       \<or> (truthy (g_role g) \<and> (case by_name [] (the (g_role g)) of None \<Rightarrow> True | Some r \<Rightarrow> r_active r = False))
       \<or> (rv_auth_enabled closed_config \<and> is_recipient (rq_caller (asked_by ''you'')) (g_recipient g) = False)
       \<or> (case document_by_id (w_db reveal_world) ''d1'' of None \<Rightarrow> False | Some d \<Rightarrow> dc_superseded_by d \<noteq> None)
       \<or> get_anonymized_text (w_db reveal_world) ''d1'' = None" by simp
qed

text \<open>The PDF: the e-mail address that is not registered keeps its box.\<close>

lemma sample_pdf_run:
  "\<exists>out w'. reveal_pdf_endpoint other_hash HD sample_dec sample_wrap 5 1 (\<lambda>k. ret ''pdf'') (\<lambda>_. Some [sample_page]) closed_config [] sample_time ''d1''
      (asked_by ''me'') reveal_world = (Inr out, w')"
proof -
  let ?extra = "audit_extra [(''view'', JStr ''pdf'')] (grant_of_row reveal_grant_row) (asked_by ''me'')"
  obtain a where a: "deanonymize other_hash sample_time sample_dec sample_store (\<lambda>st. dp_key sample_wrap 5 1 st) sample_rows sample_trail ''d1''
    sample_text sample_dp' (g_recipient (grant_of_row reveal_grant_row)) (Some [''EMAIL'']) ?extra = Inr (''to a@b.nl, [EMAIL:11111111]'', a, sample_dp')"
    using sample_deanonymize_any by blast
  have "fst ` set ?extra \<subseteq> {''grant_id'', ''caller'', ''role'', ''global_by_role'', ''vc_issuer'', ''vc_vct'', ''view''}"
    using audit_extra_keys [of "[(''view'', JStr ''pdf'')]"] by auto
  from sample_last_payload [OF a this, where db = "reveal_corpus\<lparr>audit := a\<rparr>" and k = "''pseudonyms''"] obtain xs where
    "last_payload ''pseudonyms'' (reveal_corpus\<lparr>audit := a\<rparr>) ''d1'' = Inr xs" by auto
  moreover have "rq_grant_id (asked_by ''me'') = ''g1''" "sorted_types {''EMAIL''} = [''EMAIL'']"
    by (simp_all add: asked_by_def sorted_types_def)
  moreover have "\<exists>labels. labels_of sample_text = Inr labels"
    using legible_one_to_one [of sample_text] by (auto simp: labels_of_def)
  moreover have "box_map_of reveal_corpus ''d1'' = Inr \<lparr>bm_hash = ''h'', bm_lists_hash = None, bm_boxes = [\<lparr>bx_page = 0, bx_rect = (0, 10, 10, 20), bx_token = ''[EMAIL:11111111]''\<rparr>]\<rparr>"
    by (simp add: box_map_of_def reveal_corpus_def)
  moreover have "read_or_503 (\<lambda>k. ret ''pdf'') (reveal_corpus\<lparr>audit := a\<rparr>) ''d1'' = ret ''pdf''"
    by (rule ext) (simp add: read_or_503_def document_by_id_def reveal_corpus_def handle_def)
  ultimately show ?thesis
    using a by (auto simp: reveal_pdf_endpoint_def transaction_def andthen_def reveal_corpus_parts sample_find sample_decide deanonymizing_def
        render_or_409_def render_def check_boxes_def no_surface_def MIN_BOX_PT_def simp del: One_nat_def)
qed

lemma reveal_pdf_covers_witness:
  "\<exists>(out :: drawn_page list) (r :: audit_record) revealed. jget ''pseudonyms'' (ar_payload r) = Some (JArr (map JStr (sorted_set revealed))) \<and> ''[EMAIL:11111111]'' \<notin> set revealed
     \<and> length out = 1 \<and> set revealed \<subseteq> {p \<in> tokens_in sample_text. p \<in> registered sample_rows ''d1''}"
proof -
  obtain out w' where run: "reveal_pdf_endpoint other_hash (\<lambda>d. d) sample_dec sample_wrap 5 1 (\<lambda>k. ret ''pdf'') (\<lambda>_. Some [sample_page]) closed_config [] sample_time ''d1''
      (asked_by ''me'') reveal_world = (Inr out, w')" using sample_pdf_run by blast
  have "dp_ok sample_wrap (w_keys reveal_world)" "trail_wf (audit (w_db reveal_world))"
    by (simp_all add: reveal_corpus_parts sample_dp_fine)
  from reveal_pdf_covers [OF this run] show ?thesis
  proof (elim exE conjE, goal_cases)
    case (1 g m pseudo_text revealed types labels source pages d a r ks)
    have "pages = [sample_page]" using 1(17) by simp
    then have "length out = 1" using list_all2_lengthD [OF 1(18)] by simp
    moreover have "pseudo_text = sample_text" using 1(4) by (simp add: reveal_corpus_parts reveal_corpus_text)
    then have "set revealed \<subseteq> {p \<in> tokens_in sample_text. p \<in> registered sample_rows ''d1''}"
      unfolding 1(7) by (auto simp: reveal_corpus_parts)
    moreover from this have "''[EMAIL:11111111]'' \<notin> set revealed" by (auto simp: sample_registered)
    ultimately show ?case using 1(11) by blast
  qed
qed

end
