(* ===== verification/ApiAdmin.thy ===== *)
theory ApiAdmin
  imports ApiReveal
begin

text \<open>
  The administration endpoints of \<open>api.py\<close>: issuing, inspecting and revoking grants, and the roles. A handler takes the
  tables it works on and gives its answer with the tables it leaves, or the exception, after which nothing is committed.
  Also \<open>UUID(s)\<close> as the standard library reads it.
\<close>

subsection \<open>UUIDs\<close>

text \<open>\<open>s.replace(p, "")\<close>, for a pattern that is not empty, and \<open>s.strip("{}")\<close>.\<close>

fun remove_sub :: "string \<Rightarrow> nat \<Rightarrow> string \<Rightarrow> string" where
  "remove_sub pat skip [] = []"
| "remove_sub pat skip (c # cs) =
     (if 0 < skip then remove_sub pat (skip - 1) cs
      else if starts_with pat (c # cs) then remove_sub pat (length pat - 1) cs else c # remove_sub pat 0 cs)"

definition strip_braces :: "string \<Rightarrow> string" where
  "strip_braces s = (let b = (\<lambda>c. c \<in> {CHR ''{'', CHR ''}''}) in rev (dropWhile b (rev (dropWhile b s))))"

text \<open>\<open>int(s, 16)\<close>: white space around it, a sign, the prefix \<open>0x\<close>, digits with single underscores between them.\<close>

fun hex_value :: "nat \<Rightarrow> string \<Rightarrow> nat option" where
  "hex_value n [] = Some n"
| "hex_value n (c # cs) = (case hex_val c of None \<Rightarrow> None | Some d \<Rightarrow> hex_value (16 * n + d) cs)"

definition hex_digits :: "string \<Rightarrow> nat option" where
  "hex_digits s = (let parts = split_on (CHR ''_'') s
     in if [] \<in> set parts then None else hex_value 0 (concat parts))"

definition int16 :: "string \<Rightarrow> int option" where
  "int16 s =
     (let s = strip s;
          neg = (case s of c # _ \<Rightarrow> c = CHR ''-'' | [] \<Rightarrow> False);
          s = (case s of c # cs \<Rightarrow> if c \<in> {CHR ''+'', CHR ''-''} then cs else c # cs | [] \<Rightarrow> []);
          s = (case s of z # x # cs \<Rightarrow> if z = CHR ''0'' \<and> x \<in> {CHR ''x'', CHR ''X''}
                                     then (case cs of u # ds \<Rightarrow> if u = CHR ''_'' then ds else u # ds | [] \<Rightarrow> []) else s | _ \<Rightarrow> s)
      in map_option (\<lambda>n. if neg then - int n else int n) (hex_digits s))"

definition uuid_digits :: "nat \<Rightarrow> string" where
  "uuid_digits n = map (\<lambda>i. hex_digit (n div 16 ^ (31 - i) mod 16)) [0..<32]"

definition uuid_text :: "nat \<Rightarrow> string" where
  "uuid_text n =
     (let h = uuid_digits n
      in take 8 h @ ''-'' @ take 4 (drop 8 h) @ ''-'' @ take 4 (drop 12 h) @ ''-'' @ take 4 (drop 16 h) @ ''-'' @ drop 20 h)"

definition parse_uuid :: "string \<Rightarrow> string result" where
  "parse_uuid s =
     (let h = filter (\<lambda>c. c \<noteq> CHR ''-'') (strip_braces (remove_sub ''uuid:'' 0 (remove_sub ''urn:'' 0 s)))
      in if length h \<noteq> 32 then Inl ValueError
         else (case int16 h of None \<Rightarrow> Inl ValueError
             | Some n \<Rightarrow> if 0 \<le> n \<and> n < 2 ^ 128 then Inr (uuid_text (nat n)) else Inl ValueError))"

subsection \<open>A UUID is canonical\<close>

definition is_hex :: "char \<Rightarrow> bool" where
  "is_hex c = (c \<in> set ''0123456789abcdef'')"

lemma is_hex_digit: "d < 16 \<Longrightarrow> is_hex (hex_digit d)"
proof -
  have "\<forall>d\<in>{..<16}. is_hex (hex_digit d)" by code_simp
  then show "d < 16 \<Longrightarrow> is_hex (hex_digit d)" by simp
qed

lemma is_hex_not: "is_hex c \<Longrightarrow> c \<notin> {CHR ''-'', CHR ''_'', CHR ''u'', CHR ''{'', CHR ''}'', CHR ''+'', CHR ''x'', CHR ''X''} \<and> \<not> is_space c"
proof -
  assume "is_hex c"
  moreover have "list_all (\<lambda>c. c \<notin> {CHR ''-'', CHR ''_'', CHR ''u'', CHR ''{'', CHR ''}'', CHR ''+'', CHR ''x'', CHR ''X''} \<and> \<not> is_space c) ''0123456789abcdef''"
    by code_simp
  ultimately show ?thesis unfolding is_hex_def list_all_iff by blast
qed

lemma uuid_digits_hex: "length (uuid_digits n) = 32" "\<forall>c\<in>set (uuid_digits n). is_hex c"
proof -
  show "length (uuid_digits n) = 32" unfolding uuid_digits_def by (simp only: length_map length_upt)
  have "is_hex (hex_digit (n div 16 ^ k mod 16))" for k by (rule is_hex_digit) simp
  then show "\<forall>c\<in>set (uuid_digits n). is_hex c" unfolding uuid_digits_def by (simp only: set_map ball_simps) blast
qed

lemma hex_value_append: "hex_value a (xs @ [hex_digit d]) = map_option (\<lambda>m. 16 * m + d) (hex_value a xs)" if "d < 16"
  using that by (induction xs arbitrary: a) (auto split: option.splits)

lemma hex_value_digits: "hex_value a (map (\<lambda>i. hex_digit (n div 16 ^ (k - 1 - i) mod 16)) [0..<k]) = Some (a * 16 ^ k + n mod 16 ^ k)"
proof (induction k arbitrary: n)
  case (Suc k)
  have eq: "map (\<lambda>i. hex_digit (n div 16 ^ (Suc k - 1 - i) mod 16)) [0..<k] = map (\<lambda>i. hex_digit ((n div 16) div 16 ^ (k - 1 - i) mod 16)) [0..<k]"
  proof (rule map_cong [OF refl])
    fix i assume "i \<in> set [0..<k]"
    then have "Suc k - 1 - i = Suc (k - 1 - i)" by auto
    then show "hex_digit (n div 16 ^ (Suc k - 1 - i) mod 16) = hex_digit ((n div 16) div 16 ^ (k - 1 - i) mod 16)"
      by (simp only: power_Suc div_mult2_eq)
  qed
  have "map (\<lambda>i. hex_digit (n div 16 ^ (Suc k - 1 - i) mod 16)) [0..<Suc k]
      = map (\<lambda>i. hex_digit ((n div 16) div 16 ^ (k - 1 - i) mod 16)) [0..<k] @ [hex_digit (n mod 16)]"
    using eq by (simp del: map_eq_conv)
  then have "hex_value a (map (\<lambda>i. hex_digit (n div 16 ^ (Suc k - 1 - i) mod 16)) [0..<Suc k]) = Some (16 * (a * 16 ^ k + n div 16 mod 16 ^ k) + n mod 16)"
    by (simp only: hex_value_append [of "n mod 16", simplified] Suc option.map)
  then show ?case by (simp add: mod_mult2_eq algebra_simps)
qed simp

lemma remove_sub_absent: "p \<notin> set s \<Longrightarrow> remove_sub (p # ps) 0 s = s"
  by (induction s) auto

lemma dropWhile_hd: "(\<And>c. c \<in> set s \<Longrightarrow> \<not> P c) \<Longrightarrow> dropWhile P s = s"
  by (cases s) auto

lemma int16_digits:
  assumes "length s = 32" and "\<forall>c\<in>set s. is_hex c" and "hex_value 0 s = Some n"
  shows "int16 s = Some (int n)"
proof -
  obtain a b t where s: "s = a # b # t" using assms(1) by (cases s rule: list.exhaust; cases "tl s") auto
  have h: "c \<in> set s \<Longrightarrow> c \<notin> {CHR ''-'', CHR ''_'', CHR ''u'', CHR ''{'', CHR ''}'', CHR ''+'', CHR ''x'', CHR ''X''} \<and> \<not> is_space c" for c
    using assms(2) is_hex_not by blast
  have "strip s = s" using dropWhile_hd [of s is_space] dropWhile_hd [of "rev s" is_space] h by (simp add: strip_def lstrip_def rstrip_def)
  moreover have "hex_digits s = Some n"
  proof -
    have "CHR ''_'' \<notin> set s" "s \<noteq> []" using h s by auto
    then show ?thesis using assms(3) by (simp add: hex_digits_def split_on_absent)
  qed
  ultimately show ?thesis using h [of a] h [of b] by (simp add: int16_def s)
qed

lemma split_five: "take 8 h @ take 4 (drop 8 h) @ take 4 (drop 12 h) @ take 4 (drop 16 h) @ drop 20 h = h"
proof -
  have "take 4 (drop 16 h) @ drop 20 h = drop 16 h" "take 4 (drop 12 h) @ drop 16 h = drop 12 h" "take 4 (drop 8 h) @ drop 12 h = drop 8 h"
    using append_take_drop_id [of 4 "drop 16 h"] append_take_drop_id [of 4 "drop 12 h"] append_take_drop_id [of 4 "drop 8 h"] by simp_all
  then show ?thesis by simp
qed

lemma uuid_text_parts:
  obtains a b c d e where "uuid_digits n = a @ b @ c @ d @ e" and "uuid_text n = a @ ''-'' @ b @ ''-'' @ c @ ''-'' @ d @ ''-'' @ e"
    and "map length [a, b, c, d, e] = [8, 4, 4, 4, 12]"
proof (rule that)
  let ?h = "uuid_digits n"
  show "?h = take 8 ?h @ take 4 (drop 8 ?h) @ take 4 (drop 12 ?h) @ take 4 (drop 16 ?h) @ drop 20 ?h" by (rule split_five [symmetric])
  show "uuid_text n = take 8 ?h @ ''-'' @ take 4 (drop 8 ?h) @ ''-'' @ take 4 (drop 12 ?h) @ ''-'' @ take 4 (drop 16 ?h) @ ''-'' @ drop 20 ?h"
    unfolding uuid_text_def Let_def ..
  show "map length [take 8 ?h, take 4 (drop 8 ?h), take 4 (drop 12 ?h), take 4 (drop 16 ?h), drop 20 ?h] = [8, 4, 4, 4, 12]"
    by (simp add: uuid_digits_hex(1))
qed

lemma uuid_text_filter: "filter (\<lambda>c. c \<noteq> CHR ''-'') (uuid_text n) = uuid_digits n"
proof -
  obtain a b c d e where h: "uuid_digits n = a @ b @ c @ d @ e" "uuid_text n = a @ ''-'' @ b @ ''-'' @ c @ ''-'' @ d @ ''-'' @ e"
    by (rule uuid_text_parts)
  have "filter (\<lambda>c. c \<noteq> CHR ''-'') (uuid_text n) = filter (\<lambda>c. c \<noteq> CHR ''-'') (uuid_digits n)" by (simp add: h)
  also have "\<dots> = uuid_digits n" using uuid_digits_hex(2) is_hex_not by (intro filter_True) blast
  finally show ?thesis .
qed

lemma uuid_text_chars: "c \<in> set (uuid_text n) \<Longrightarrow> c = CHR ''-'' \<or> is_hex c"
  by (rule uuid_text_parts [of n]) (use uuid_digits_hex(2) [of n] in auto)

lemma parse_uuid_text: "n < 2 ^ 128 \<Longrightarrow> parse_uuid (uuid_text n) = Inr (uuid_text n)"
proof -
  assume n: "n < 2 ^ 128"
  have no: "c \<in> set (uuid_text n) \<Longrightarrow> c \<notin> {CHR ''u'', CHR ''{'', CHR ''}''}" for c using uuid_text_chars [of c n] is_hex_not [of c] by auto
  have r: "remove_sub ''uuid:'' 0 (remove_sub ''urn:'' 0 (uuid_text n)) = uuid_text n"
  proof -
    have "CHR ''u'' \<notin> set (uuid_text n)" using no by blast
    then show ?thesis by (simp add: remove_sub_absent)
  qed
  have b: "strip_braces (uuid_text n) = uuid_text n" using dropWhile_hd [of "uuid_text n" "\<lambda>c. c \<in> {CHR ''{'', CHR ''}''}"] dropWhile_hd [of "rev (uuid_text n)" "\<lambda>c. c \<in> {CHR ''{'', CHR ''}''}"] no
    by (simp add: strip_braces_def Let_def)
  have "hex_value 0 (uuid_digits n) = Some (n mod 16 ^ 32)" using hex_value_digits [of 0 n 32] by (simp only: uuid_digits_def) simp
  moreover have "n mod 16 ^ 32 = n" using n by simp
  ultimately have "int16 (uuid_digits n) = Some (int n)" using uuid_digits_hex [of n] by (intro int16_digits) simp_all
  then show ?thesis using n by (simp add: parse_uuid_def r b uuid_text_filter uuid_digits_hex(1) Let_def)
qed

subsection \<open>Grants\<close>

record admin_config =
  ad_allow_global :: bool
  ad_issuer_labels :: "string list"
  ad_auth_enabled :: bool

definition actor_of :: "string option \<Rightarrow> string" where
  "actor_of caller = (if truthy caller then the caller else ''onbekend'')"

definition guard_grant_admin :: "admin_config \<Rightarrow> string option \<Rightarrow> unit result" where
  "guard_grant_admin cfg caller =
     (if authorize_grant_issue caller (ad_issuer_labels cfg) (ad_auth_enabled cfg) then Inr () else Inl (HTTPException 403))"

record grant_body =
  gb_recipient :: string
  gb_allowed_types :: "string list option"
  gb_ppl :: "int option"
  gb_role :: "string option"
  gb_document_id :: "string option"
  gb_expires_at :: "string option"
  gb_domain :: "string option"

text \<open>\<open>GrantIssueRequest._exactly_one_source\<close>; a body that fails it is a 422.\<close>

definition exactly_one_source :: "grant_body \<Rightarrow> bool" where
  "exactly_one_source b =
     (length (filter id [gb_allowed_types b \<noteq> None, gb_ppl b \<noteq> None, gb_role b \<noteq> None]) = 1
      \<and> (case gb_ppl b of None \<Rightarrow> True | Some p \<Rightarrow> 0 \<le> p \<and> p \<le> 3))"

record grant_response =
  go_grant_id :: string
  go_recipient :: string
  go_allowed_types :: "string list"
  go_ppl :: "int option"
  go_document_id :: "string option"
  go_domain :: string
  go_status :: string
  go_created_at :: string
  go_revoked_at :: "string option"
  go_expires_at :: "string option"

definition grant_response_of :: "grant \<Rightarrow> grant_response" where
  "grant_response_of g = \<lparr>go_grant_id = g_id g, go_recipient = g_recipient g, go_allowed_types = g_allowed_types g,
     go_ppl = ppl_of_types (g_allowed_types g), go_document_id = (if truthy (g_document_id g) then g_document_id g else None),
     go_domain = or_str (Some (g_domain g)) DEFAULT_DOMAIN, go_status = g_status g, go_created_at = isoformat (g_created_at g),
     go_revoked_at = map_option isoformat (g_revoked_at g), go_expires_at = map_option isoformat (g_expires_at g)\<rparr>"

text \<open>The checks before the session is opened: the document named, the scope, the expiry.\<close>

definition grant_document :: "admin_config \<Rightarrow> grant_body \<Rightarrow> string option result" where
  "grant_document cfg b =
     (if truthy (gb_document_id b) then
        (case parse_uuid (the (gb_document_id b)) of Inl _ \<Rightarrow> Inl (HTTPException 400) | Inr d \<Rightarrow> Inr (Some d))
      else if \<not> (ad_allow_global cfg \<or> gb_role b = Some ADMIN) then Inl (HTTPException 400)
      else Inr None)"

definition grant_expiry :: "grant_body \<Rightarrow> datetime option result" where
  "grant_expiry b =
     (if truthy (gb_expires_at b) then
        (case fromisoformat (the (gb_expires_at b)) of
           Inl _ \<Rightarrow> Inl (HTTPException 400)
         | Inr e \<Rightarrow> if tzoff e = None then Inl (HTTPException 400) else Inr (Some e))
      else Inr None)"

definition grant_types :: "grant_body \<Rightarrow> string list result" where
  "grant_types b = (case gb_ppl b of
     Some p \<Rightarrow> rbind (types_for_ppl p) (\<lambda>ts. Inr (sorted_types (set ts)))
   | None \<Rightarrow> Inr (case gb_allowed_types b of None \<Rightarrow> [] | Some ts \<Rightarrow> ts))"

definition grant_issue ::
    "(string \<Rightarrow> string) \<Rightarrow> datetime \<Rightarrow> string \<Rightarrow> admin_config \<Rightarrow> role list \<Rightarrow> string option \<Rightarrow> grant_body \<Rightarrow> corpus
      \<Rightarrow> (grant_response \<times> corpus) result" where
  "grant_issue H now gid cfg roles caller b db =
     (if \<not> exactly_one_source b then Inl (HTTPException 422)
      else rbind (guard_grant_admin cfg caller) (\<lambda>_.
      rbind (grant_document cfg b) (\<lambda>doc.
      rbind (grant_expiry b) (\<lambda>expires.
      rbind (grant_types b) (\<lambda>types.
      if (case doc of None \<Rightarrow> False | Some d \<Rightarrow> document_by_id db d = None) then Inl (HTTPException 404)
      else if (case gb_role b of None \<Rightarrow> False | Some r \<Rightarrow> by_name roles r = None) then Inl (HTTPException 404)
      else rbind (issue_grant H now (pg_issue now gid) (grant_rows db) (key_log db)
             \<lparr>q_recipient = gb_recipient b, q_allowed_types = types, q_actor = actor_of caller, q_document_id = doc,
              q_expires_at = expires, q_domain = or_str (gb_domain b) DEFAULT_DOMAIN, q_role = gb_role b\<rparr>)
        (\<lambda>(rows, log, grant). Inr (grant_response_of grant, db\<lparr>grant_rows := rows, key_log := log\<rparr>)))))))"

definition grant_show :: "string \<Rightarrow> corpus \<Rightarrow> grant_response result" where
  "grant_show gid db = (case pg_get (grant_rows db) gid of None \<Rightarrow> Inl (HTTPException 404) | Some g \<Rightarrow> Inr (grant_response_of g))"

definition grant_revoke ::
    "(string \<Rightarrow> string) \<Rightarrow> datetime \<Rightarrow> admin_config \<Rightarrow> string option \<Rightarrow> string \<Rightarrow> corpus \<Rightarrow> (grant_response \<times> corpus) result" where
  "grant_revoke H now cfg caller gid db =
     rbind (guard_grant_admin cfg caller) (\<lambda>_.
     case pg_get (grant_rows db) gid of
       None \<Rightarrow> Inl (HTTPException 404)
     | Some _ \<Rightarrow>
         rbind (revoke_grant H now (pg_revoke now) (grant_rows db) (key_log db) gid ''operator'') (\<lambda>(rows, log).
         let db = db\<lparr>grant_rows := rows, key_log := log\<rparr>
         in case pg_get (grant_rows db) gid of None \<Rightarrow> Inl AttributeError | Some g \<Rightarrow> Inr (grant_response_of g, db)))"

subsection \<open>Roles\<close>

text \<open>A role's answer is its row. The state is the table of roles and the key-lifecycle stream.\<close>

definition list_roles :: "admin_config \<Rightarrow> string option \<Rightarrow> role list \<Rightarrow> role list result" where
  "list_roles cfg caller rs = rbind (guard_grant_admin cfg caller) (\<lambda>_. Inr (sort_key r_name rs))"

definition or_status :: "(string \<Rightarrow> int) \<Rightarrow> 'a result \<Rightarrow> 'a result" where
  "or_status code m = (case m of Inl (RoleError msg) \<Rightarrow> Inl (HTTPException (code msg)) | r \<Rightarrow> r)"

definition create_role_endpoint ::
    "(string \<Rightarrow> string) \<Rightarrow> datetime \<Rightarrow> admin_config \<Rightarrow> string option \<Rightarrow> string \<Rightarrow> string list \<Rightarrow> role list \<Rightarrow> key_db
      \<Rightarrow> (role list \<times> key_db \<times> role) result" where
  "create_role_endpoint H now cfg caller name types rs kdb =
     rbind (guard_grant_admin cfg caller) (\<lambda>_.
     or_status (\<lambda>_. 400) (create_role H now True rs kdb (Some name) types (actor_of caller)))"

definition set_role_types_endpoint ::
    "(string \<Rightarrow> string) \<Rightarrow> datetime \<Rightarrow> admin_config \<Rightarrow> string option \<Rightarrow> string \<Rightarrow> string list \<Rightarrow> role list \<Rightarrow> key_db
      \<Rightarrow> (role list \<times> key_db \<times> role) result" where
  "set_role_types_endpoint H now cfg caller name types rs kdb =
     rbind (guard_grant_admin cfg caller) (\<lambda>_.
     or_status (\<lambda>_. 404) (set_types H now True rs kdb name types (actor_of caller)))"

definition switch_status :: "string \<Rightarrow> int" where
  "switch_status msg = (if contains_sub ''onbekende rol'' msg then 404 else 400)"

definition deactivate_role_endpoint ::
    "(string \<Rightarrow> string) \<Rightarrow> datetime \<Rightarrow> admin_config \<Rightarrow> string option \<Rightarrow> string \<Rightarrow> string \<Rightarrow> role list \<Rightarrow> key_db
      \<Rightarrow> (role list \<times> key_db \<times> role) result" where
  "deactivate_role_endpoint H now cfg caller name reason rs kdb =
     rbind (guard_grant_admin cfg caller) (\<lambda>_.
     or_status switch_status (deactivate H now True rs kdb name (actor_of caller) (Some reason)))"

definition activate_role_endpoint ::
    "(string \<Rightarrow> string) \<Rightarrow> datetime \<Rightarrow> admin_config \<Rightarrow> string option \<Rightarrow> string \<Rightarrow> string \<Rightarrow> role list \<Rightarrow> key_db
      \<Rightarrow> (role list \<times> key_db \<times> role) result" where
  "activate_role_endpoint H now cfg caller name reason rs kdb =
     rbind (guard_grant_admin cfg caller) (\<lambda>_.
     or_status switch_status (activate H now True rs kdb name (actor_of caller) (Some reason)))"

subsection \<open>What an administrator can do\<close>

lemma or_str_nonempty: "or_str x DEFAULT_DOMAIN \<noteq> []"
  by (auto simp: or_str_def DEFAULT_DOMAIN_def split: option.split)

text \<open>C6: No grant by omission. Where \<open>POST /grants\<close> answers, the caller was allowed to issue, and exactly one grant has been
  added, with one event on a stream that still verifies: it is active, its expiry has a time zone, its document and its
  role exist, and it is tied to a document unless the deployment allows global grants or it is on the administrator's role. Nothing else
  of the tables changes, every other grant stays as it was, and \<open>GET /grants/{id}\<close> gives the same answer.\<close>

theorem grant_issue_scoped:
  assumes "digest64 H" and "keys_wf (key_log db)" and "key_verify_chain H (key_log db) = (True, None)"
    and "rows_ok (grant_rows db)" and "pg_get (grant_rows db) gid = None"
    and "grant_issue H now gid cfg roles caller b db = Inr (resp, db')"
  shows "\<exists>g rows log. db' = db\<lparr>grant_rows := rows, key_log := log\<rparr> \<and> pg_get rows gid = Some g \<and> rows_ok rows \<and> grant_show gid db' = Inr resp
    \<and> (\<forall>i. i \<noteq> gid \<longrightarrow> pg_get rows i = pg_get (grant_rows db) i)
    \<and> recorded H (key_log db) log GRANT_ISSUED_ACTION (actor_of caller) (issued_payload g)
    \<and> (ad_auth_enabled cfg \<longrightarrow> truthy caller \<and> the caller \<in> set (ad_issuer_labels cfg))
    \<and> g_status g = ACTIVE \<and> g_role g = gb_role b \<and> (\<forall>r. g_role g = Some r \<longrightarrow> by_name roles r \<noteq> None)
    \<and> (\<forall>e. g_expires_at g = Some e \<longrightarrow> aware e)
    \<and> (case g_document_id g of None \<Rightarrow> ad_allow_global cfg \<or> g_role g = Some ADMIN | Some d \<Rightarrow> document_by_id db d \<noteq> None)"
proof -
  obtain doc expires types rows log g where
    s: "guard_grant_admin cfg caller = Inr ()" "grant_document cfg b = Inr doc" "grant_expiry b = Inr expires"
      "\<not> (case doc of None \<Rightarrow> False | Some d \<Rightarrow> document_by_id db d = None)" "\<not> (case gb_role b of None \<Rightarrow> False | Some r \<Rightarrow> by_name roles r = None)"
    and i: "issue_grant H now (pg_issue now gid) (grant_rows db) (key_log db)
             \<lparr>q_recipient = gb_recipient b, q_allowed_types = types, q_actor = actor_of caller, q_document_id = doc,
              q_expires_at = expires, q_domain = or_str (gb_domain b) DEFAULT_DOMAIN, q_role = gb_role b\<rparr> = Inr (rows, log, g)"
    and r: "resp = grant_response_of g" "db' = db\<lparr>grant_rows := rows, key_log := log\<rparr>"
    using assms(6) by (auto simp: grant_issue_def result_simps split: if_splits)
  let ?q = "\<lparr>q_recipient = gb_recipient b, q_allowed_types = types, q_actor = actor_of caller, q_document_id = doc,
              q_expires_at = expires, q_domain = or_str (gb_domain b) DEFAULT_DOMAIN, q_role = gb_role b\<rparr>"
  have "q_domain ?q \<noteq> []" by (simp add: or_str_nonempty)
  from issue_grant_recorded [OF assms(1-5) this, of now, unfolded i sum.case prod.case]
  have q: "g = new_grant now gid ?q" "pg_get rows gid = Some g" "rows_ok rows" "\<forall>i. i \<noteq> gid \<longrightarrow> pg_get rows i = pg_get (grant_rows db) i"
    "recorded H (key_log db) log GRANT_ISSUED_ACTION (actor_of caller) (issued_payload g)"
    by (elim conjE; simp)+
  have gate: "ad_auth_enabled cfg \<longrightarrow> truthy caller \<and> the caller \<in> set (ad_issuer_labels cfg)"
    using s(1) by (auto simp: guard_grant_admin_def authorize_grant_issue_def split: if_splits)
  have scope: "case doc of None \<Rightarrow> ad_allow_global cfg \<or> gb_role b = Some ADMIN | Some d \<Rightarrow> document_by_id db d \<noteq> None"
    using s(2,4) by (auto simp: grant_document_def split: if_splits sum.splits option.splits)
  have expiry: "\<forall>e. expires = Some e \<longrightarrow> aware e"
    using s(3) by (auto simp: grant_expiry_def aware_def split: if_splits sum.splits)
  have g: "g_status g = ACTIVE" "g_role g = gb_role b" "g_expires_at g = expires" "g_document_id g = doc"
    by (simp_all add: q(1) new_grant_def)
  have "grant_show gid db' = Inr resp" by (simp add: grant_show_def r q(2))
  with q(2-5) gate scope expiry s(5) show ?thesis unfolding r(2) g
    by (intro exI [of _ g] exI [of _ rows] exI [of _ log] conjI refl) (auto simp: g split: option.splits)
qed

text \<open>C4: The emergency brakes. Once \<open>POST /grants/{id}/revoke\<close> has answered, no reveal under that grant goes through, and once
  \<open>POST /roles/{name}/deactivate\<close> has answered, none under any grant on that role, whatever the document, the caller, the types asked for
  and the moment; the reveal is refused before anything is decrypted or recorded.\<close>

theorem brakes_hold:
  "(rows_ok (grant_rows db) \<and> grant_revoke K start ad caller gid db = Inr (resp, w_db w) \<and> rq_grant_id rq = gid)
     \<or> (deactivate_role_endpoint K start ad caller name reason rs kdb = Inr (roles, kdb', r) \<and> name \<noteq> []
        \<and> (\<exists>g. pg_get (grant_rows (w_db w)) (rq_grant_id rq) = Some g \<and> g_role g = Some name))
   \<Longrightarrow> \<exists>e. reveal_endpoint H HD dec unwrap ttl t cfg roles now doc rq w = (Inl e, w)"
proof (elim disjE conjE exE)
  assume ok: "rows_ok (grant_rows db)" and run: "grant_revoke K start ad caller gid db = Inr (resp, w_db w)" and "rq_grant_id rq = gid"
  obtain g where g: "pg_get (grant_rows db) gid = Some g"
    using run by (auto simp: grant_revoke_def result_simps split: option.splits)
  obtain rows where rows: "pg_revoke start (grant_rows db) gid = Inr rows" "pg_get rows gid = Some (revoked start g)"
    using gp.revoke_known [OF ok g] by blast
  obtain log where l: "db\<lparr>grant_rows := rows, key_log := log\<rparr> = w_db w"
    using run by (auto simp: grant_revoke_def revoke_grant_def result_simps g rows Let_def split: option.splits)
  have "pg_get (grant_rows (w_db w)) (rq_grant_id rq) = Some (revoked start g)"
    using rows(2) \<open>rq_grant_id rq = gid\<close> unfolding l [symmetric] by simp
  then show ?thesis by (intro reveal_refused) (simp add: revoked_def)
next
  fix g assume run: "deactivate_role_endpoint K start ad caller name reason rs kdb = Inr (roles, kdb', r)" and "name \<noteq> []"
    and g: "pg_get (grant_rows (w_db w)) (rq_grant_id rq) = Some g" "g_role g = Some name"
  have "deactivate K start True rs kdb name (actor_of caller) (Some reason) = Inr (roles, kdb', r)"
    using run by (auto simp: deactivate_role_endpoint_def or_status_def result_simps split: sum.splits error.splits)
  then obtain r0 where "by_name rs name = Some r0" "roles = update_role rs (r0\<lparr>r_active := False\<rparr>)"
    by (auto simp: deactivate_def must_Inr result_simps Let_def split: if_splits)
  then have "by_name roles name = Some (r0\<lparr>r_active := False\<rparr>)" using by_name_name [of rs name r0] by (simp add: by_name_update)
  with g \<open>name \<noteq> []\<close> show ?thesis by (intro reveal_refused) simp
qed

subsection \<open>Concrete instances\<close>

definition open_admin :: admin_config where
  "open_admin = \<lparr>ad_allow_global = False, ad_issuer_labels = [''op''], ad_auth_enabled = True\<rparr>"

definition admin_body :: grant_body where
  "admin_body = \<lparr>gb_recipient = ''me'', gb_allowed_types = None, gb_ppl = None, gb_role = Some ADMIN, gb_document_id = None,
     gb_expires_at = None, gb_domain = None\<rparr>"

definition admin_role :: role where
  "admin_role = \<lparr>r_name = ADMIN, r_allowed_types = [''PERSON''], r_active = True, r_created_by = ''op''\<rparr>"

lemma sample_issue_run: "\<exists>resp db'. grant_issue sample_hash sample_time ''g1'' open_admin [admin_role] (Some ''op'') admin_body empty_corpus = Inr (resp, db')"
proof -
  let ?g = "new_grant sample_time ''g1'' \<lparr>q_recipient = ''me'', q_allowed_types = [], q_actor = ''op'', q_document_id = None, q_expires_at = None,
    q_domain = DEFAULT_DOMAIN, q_role = Some ADMIN\<rparr>"
  have keys: "key_log empty_corpus = empty_keys" by (simp add: empty_corpus_def empty_keys_def)
  obtain log where log: "grant_issued_event sample_hash sample_time empty_keys (g_id ?g) (g_recipient ?g) (g_allowed_types ?g)
      (if truthy (g_document_id ?g) then g_document_id ?g else None) ''op'' (Some (g_domain ?g)) (g_role ?g) = Inr log"
    unfolding grant_issued_event_def using empty_post by force
  have "pg_issue sample_time ''g1'' [] \<lparr>q_recipient = ''me'', q_allowed_types = [], q_actor = ''op'', q_document_id = None, q_expires_at = None,
    q_domain = DEFAULT_DOMAIN, q_role = Some ADMIN\<rparr> = Inr ([row_of_grant ?g], ?g)" by (simp add: pg_issue_def row_by_id_def Let_def)
  then show ?thesis
    using log by (simp add: grant_issue_def exactly_one_source_def admin_body_def guard_grant_admin_def authorize_grant_issue_def open_admin_def
        grant_document_def grant_expiry_def grant_types_def by_name_def admin_role_def issue_grant_def keys actor_of_def or_str_def)
      (simp add: empty_corpus_def)
qed

lemma grant_issue_scoped_witness:
  "\<exists>(rows :: grant_row list) g. pg_get rows ''g1'' = Some g \<and> g_status g = ACTIVE \<and> g_role g = Some ADMIN \<and> rows_ok rows"
proof -
  obtain resp db' where run: "grant_issue sample_hash sample_time ''g1'' open_admin [admin_role] (Some ''op'') admin_body empty_corpus = Inr (resp, db')"
    using sample_issue_run by blast
  have k: "key_log empty_corpus = empty_keys" "grant_rows empty_corpus = []" by (simp_all add: empty_corpus_def empty_keys_def)
  have "keys_wf (key_log empty_corpus)" "key_verify_chain sample_hash (key_log empty_corpus) = (True, None)" "rows_ok (grant_rows empty_corpus)"
    "pg_get (grant_rows empty_corpus) ''g1'' = None"
    by (simp_all add: k rows_ok_def pg_get_def row_by_id_def)
  from grant_issue_scoped [OF sample_hash_digest this run] show ?thesis by (auto simp: admin_body_def)
qed

lemma brakes_hold_witness:
  "\<exists>e (resp :: grant_response) db'. grant_revoke sample_hash sample_time open_admin (Some ''op'') ''g1'' reveal_corpus = Inr (resp, db')
     \<and> reveal_endpoint other_hash (\<lambda>d. d) sample_dec sample_wrap 5 1 closed_config [] sample_time ''d1'' (asked_by ''me'') (reveal_world\<lparr>w_db := db'\<rparr>)
        = (Inl e, reveal_world\<lparr>w_db := db'\<rparr>)"
proof -
  have k: "key_log reveal_corpus = empty_keys" "grant_rows reveal_corpus = [reveal_grant_row]" by (simp_all add: reveal_corpus_def empty_keys_def)
  obtain log where log: "grant_revoked_event sample_hash sample_time empty_keys ''g1'' ''operator'' = Inr log"
    unfolding grant_revoked_event_def using empty_post by force
  have "gr_grant_id reveal_grant_row = ''g1''" "gr_status reveal_grant_row \<noteq> REVOKED" by (simp_all add: reveal_grant_row_def)
  then obtain resp db' where run: "grant_revoke sample_hash sample_time open_admin (Some ''op'') ''g1'' reveal_corpus = Inr (resp, db')"
    using log by (auto simp: grant_revoke_def guard_grant_admin_def authorize_grant_issue_def open_admin_def revoke_grant_def pg_revoke_def pg_get_def
        row_by_id_def k Let_def)
  have "\<exists>e. reveal_endpoint other_hash (\<lambda>d. d) sample_dec sample_wrap 5 1 closed_config [] sample_time ''d1'' (asked_by ''me'') (reveal_world\<lparr>w_db := db'\<rparr>)
        = (Inl e, reveal_world\<lparr>w_db := db'\<rparr>)"
    by (rule brakes_hold [where db = reveal_corpus and gid = "''g1''" and ad = open_admin and K = sample_hash and start = sample_time and caller = "Some ''op''" and resp = resp])
      (use run in \<open>simp add: k rows_ok_def asked_by_def\<close>)
  with run show ?thesis by blast
qed

end
