(* ===== verification/Provenance.thy ===== *)
theory Provenance
  imports PyDatetime
begin

text \<open>
  \<open>provenance.py\<close>: where a delivery came from. \<open>urlparse\<close> is the standard library's, as far as the scheme and the network location; its
  check of a host in square brackets is the parameter \<open>bracketed\<close>. On U+0000 to U+00FF its Unicode check of the network location accepts
  everything.
\<close>

definition MAX_SOURCE_URL_LENGTH :: nat where
  "MAX_SOURCE_URL_LENGTH = 2048"

definition is_c0_or_space :: "char \<Rightarrow> bool" where
  "is_c0_or_space c = (cp c \<le> 32)"

definition scheme_char :: "char \<Rightarrow> bool" where
  "scheme_char c = (cp c < 128 \<and> is_alnum c \<or> c \<in> {CHR ''+'', CHR ''-'', CHR ''.''})"

definition split_scheme :: "string \<Rightarrow> string \<times> string" where
  "split_scheme url =
     (let s = takeWhile (\<lambda>c. c \<noteq> CHR '':'') url
      in if s = url \<or> s = [] then ([], url)
         else if (is_upper_az (hd s) \<or> is_lower_az (hd s)) \<and> list_all scheme_char s
         then (lower s, drop (length s + 1) url) else ([], url))"

definition urlparse :: "(string \<Rightarrow> unit result) \<Rightarrow> string \<Rightarrow> (string \<times> string) result" where
  "urlparse bracketed url =
     (let url = filter (\<lambda>c. cp c \<notin> {9, 10, 13}) (dropWhile is_c0_or_space url);
          (scheme, rest) = split_scheme url
      in if take 2 rest \<noteq> ''//'' then Inr (scheme, [])
         else (let netloc = takeWhile (\<lambda>c. c \<notin> {CHR ''/'', CHR ''?'', CHR ''#''}) (drop 2 rest);
                   opens = CHR ''['' \<in> set netloc; closes = CHR '']'' \<in> set netloc
               in if opens \<noteq> closes then Inl ValueError
                  else if opens then rbind (bracketed netloc) (\<lambda>_. Inr (scheme, netloc))
                  else Inr (scheme, netloc)))"

definition validate_source_url :: "(string \<Rightarrow> unit result) \<Rightarrow> string \<Rightarrow> string result" where
  "validate_source_url bracketed source_url =
     (if length source_url > MAX_SOURCE_URL_LENGTH then Inl ProvenanceError
      else rbind (urlparse bracketed source_url) (\<lambda>(scheme, netloc).
           if scheme \<noteq> ''https'' \<or> netloc = [] then Inl ProvenanceError else Inr source_url))"

definition parse_fetched_at :: "string \<Rightarrow> datetime result" where
  "parse_fetched_at fetched_at = (case fromisoformat fetched_at of
     Inl ValueError \<Rightarrow> Inl ProvenanceError
   | Inl e \<Rightarrow> Inl e
   | Inr t \<Rightarrow> if tzoff t = None then Inl ProvenanceError else Inr t)"

lemma parse_fetched_at_aware: "parse_fetched_at s = Inr t \<Longrightarrow> aware t \<and> fromisoformat s = Inr t"
  by (auto simp: parse_fetched_at_def aware_def split: sum.splits error.splits if_splits)

lemma validate_source_url_Inr: "validate_source_url b s = Inr u \<Longrightarrow> u = s \<and> length s \<le> MAX_SOURCE_URL_LENGTH"
  by (auto simp: validate_source_url_def result_simps split: if_splits)

text \<open>An unbalanced bracket is neither accepted nor reported as \<open>ProvenanceError\<close>.\<close>

lemma unbalanced_bracket: "validate_source_url b ''https://[x'' = Inl ValueError"
  by code_simp

end
