(* ===== verification/ApiIngest.thy ===== *)
theory ApiIngest
  imports Reprocess ApiAdmin Provenance
begin

text \<open>
  The endpoints of \<open>api.py\<close> that bring documents in and take them out: \<open>POST /ingest\<close> with \<open>_ingest_one\<close> and \<open>_document_meta\<close>,
  \<open>POST /reprocess\<close>, the two \<open>DELETE\<close> routes with \<open>_guard_delete\<close>, and the feedback on a detection. A session that is committed between two steps
  is one transaction per step. What a session is given (the services, made for a domain; the identifiers \<open>uuid4\<close> draws) is
  \<open>parts\<close>, one per file. The rounding \<open>round(x, 1)\<close> of a float and the class name of an exception are parameters.
\<close>

subsection \<open>What is told of a document\<close>

record step_meta =
  sm_step :: string
  sm_from :: "string option"
  sm_to :: string
  sm_ts :: string
  sm_duration_ms :: "rat option"
  sm_payload :: json

record document_meta =
  me_document_id :: string
  me_object_key :: "string option"
  me_domain :: json
  me_source_url :: "string option"
  me_fetched_at :: "string option"
  me_source_sha256 :: "string option"
  me_state :: string
  me_duration_ms :: rat
  me_counts :: "(string \<times> json) list"
  me_by_category :: "(string, nat) dict"
  me_detections :: json
  me_lists_hash :: json
  me_pages :: json
  me_bytes :: json
  me_steps :: "step_meta list"

definition ms_between :: "datetime \<Rightarrow> datetime \<Rightarrow> rat" where
  "ms_between a b = of_int (instant b - instant a) / 1000"

fun steps_meta :: "(rat \<Rightarrow> rat) \<Rightarrow> datetime option \<Rightarrow> audit_record list \<Rightarrow> step_meta list" where
  "steps_meta round1 prev [] = []"
| "steps_meta round1 prev (r # rs) =
     \<lparr>sm_step = ar_step r, sm_from = ar_from_state r, sm_to = ar_to_state r, sm_ts = isoformat (to_utc (ar_ts r)),
      sm_duration_ms = map_option (\<lambda>p. round1 (ms_between p (ar_ts r))) prev, sm_payload = ar_payload r\<rparr>
     # steps_meta round1 (Some (ar_ts r)) rs"

definition first_payload :: "string \<Rightarrow> audit_record list \<Rightarrow> json" where
  "first_payload s rs = (case find (\<lambda>r. ar_step r = s) rs of None \<Rightarrow> JObj [] | Some r \<Rightarrow> ar_payload r)"

definition fields_of :: "json \<Rightarrow> (string \<times> json) list result" where
  "fields_of v = (case v of JObj kvs \<Rightarrow> Inr kvs | _ \<Rightarrow> Inl AttributeError)"

fun int_counts :: "(string \<times> json) list \<Rightarrow> (string, nat) dict result" where
  "int_counts [] = Inr []"
| "int_counts ((k, v) # kvs) = (case v of JInt n \<Rightarrow> rbind (int_counts kvs) (\<lambda>d. Inr ((k, nat n) # d)) | _ \<Rightarrow> Inl TypeError)"

definition or_json :: "json \<Rightarrow> string \<Rightarrow> json" where
  "or_json v d = (if v = JNull \<or> v = JStr [] then JStr d else v)"

definition document_meta_of :: "(rat \<Rightarrow> rat) \<Rightarrow> corpus \<Rightarrow> string \<Rightarrow> document_meta option result" where
  "document_meta_of round1 db doc =
     (case by_seq (filter (\<lambda>r. ar_document_id r = doc) (trail (audit db))) of
        [] \<Rightarrow> Inr None
      | r0 # rs \<Rightarrow>
          rbind (fields_of (first_payload ''anonymize'' (r0 # rs))) (\<lambda>anon.
          let counts = filter (\<lambda>(k, v). k \<notin> {''detections'', ''lists_hash'', ''text_source''}) anon;
              profile = first_payload ''profile'' (r0 # rs); reg = first_payload ''register'' (r0 # rs);
              d = document_by_id db doc; final = last (r0 # rs)
          in rbind (int_counts counts) (\<lambda>by_label.
             Inr (Some \<lparr>me_document_id = doc, me_object_key = map_option dc_object_key d,
               me_domain = or_json (payload_get ''domain'' reg) DEFAULT_DOMAIN,
               me_source_url = Option.bind d dc_source_url,
               me_fetched_at = map_option (\<lambda>t. isoformat (to_utc t)) (Option.bind d dc_fetched_at),
               me_source_sha256 = Option.bind d dc_source_sha256, me_state = ar_to_state final,
               me_duration_ms = round1 (ms_between (ar_ts r0) (ar_ts final)), me_counts = counts,
               me_by_category = counts_by_category by_label,
               me_detections = (case jget ''detections'' (JObj anon) of None \<Rightarrow> JObj [] | Some v \<Rightarrow> v),
               me_lists_hash = payload_get ''lists_hash'' (JObj anon), me_pages = payload_get ''pages'' profile,
               me_bytes = payload_get ''bytes'' profile, me_steps = steps_meta round1 None (r0 # rs)\<rparr>))))"

subsection \<open>One file\<close>

datatype factory = Shared services | Per_domain "string \<Rightarrow> services result" | Unaware "services result"

record parts =
  pt_factory :: factory
  pt_new_doc :: string
  pt_new_dossier :: string

definition make_anonymizer :: "factory \<Rightarrow> string \<Rightarrow> services result" where
  "make_anonymizer f domain = (case f of
     Shared sv \<Rightarrow> Inr sv
   | Per_domain build \<Rightarrow> build domain
   | Unaware sv \<Rightarrow> if domain \<noteq> DEFAULT_DOMAIN then Inl ValueError else sv)"

record one_meta =
  om_document_id :: string
  om_state :: string
  om_duration_ms :: "rat option"
  om_counts :: "(string \<times> json) list"

definition short_meta :: "string \<Rightarrow> string \<Rightarrow> one_meta" where
  "short_meta doc st = \<lparr>om_document_id = doc, om_state = st, om_duration_ms = None, om_counts = []\<rparr>"

text \<open>Content the index has already: only the dossier can be new.\<close>

definition known_member :: "(string \<Rightarrow> string) \<Rightarrow> datetime \<Rightarrow> string \<Rightarrow> string option \<Rightarrow> document option \<Rightarrow> (world, bool) act" where
  "known_member H now new_dossier dossier d = (case d of
     None \<Rightarrow> ret False
   | Some d \<Rightarrow>
       if truthy dossier then
         andthen (on_db (\<lambda>db. ensure_dossier now new_dossier (\<lambda>x. x) db (the dossier))) (\<lambda>ds.
         on_db (\<lambda>db. add_member H now (\<lambda>x. x) db (ds_id ds) (dc_id d) ''ingest'' None))
       else ret False)"

definition deliver_known :: "(string \<Rightarrow> string) \<Rightarrow> datetime \<Rightarrow> string \<Rightarrow> string \<Rightarrow> string option \<Rightarrow> (world, one_meta) act" where
  "deliver_known H now new_dossier key dossier =
     andthen (transaction (
       andthen (reading (\<lambda>w. live_document_for (w_db w) key)) (\<lambda>d.
       andthen (known_member H now new_dossier dossier d) (\<lambda>added.
       case d of None \<Rightarrow> raise_err (HTTPException 409) | Some d \<Rightarrow> ret (added, dc_id d))))) (\<lambda>(added, doc).
     andthen (if added then (\<lambda>w. on_index (\<lambda>ix. set_dossiers ix doc (dossiers_of (w_db w) doc)) w) else ret False) (\<lambda>_.
     ret (short_meta doc (if added then ''added_to_dossier'' else ''skipped''))))"

text \<open>A scan: OCR, and then on; if its text version is a document already, that one has the dossiers.\<close>

definition after_ocr :: "services \<Rightarrow> (string \<Rightarrow> (world, string) act) \<Rightarrow> string \<Rightarrow> (world, state option) act" where
  "after_ocr sv ocr doc =
     andthen (transaction (recover sv ocr doc)) (\<lambda>s.
     if s = SUPERSEDED then
       andthen (reading (\<lambda>w. document_by_id (w_db w) doc)) (\<lambda>d. case d of
         None \<Rightarrow> raise_err AttributeError
       | Some d \<Rightarrow>
           (let owner = (case dc_superseded_by d of None \<Rightarrow> ''None'' | Some i \<Rightarrow> i)
            in andthen (\<lambda>w. on_index (\<lambda>ix. set_dossiers ix owner (dossiers_of (w_db w) owner)) w) (\<lambda>_. ret (Some SUPERSEDED))))
     else transaction (process sv doc))"

definition meta_or_state :: "(rat \<Rightarrow> rat) \<Rightarrow> string \<Rightarrow> state option \<Rightarrow> (world, one_meta) act" where
  "meta_or_state round1 doc s =
     andthen (on_db (\<lambda>db. rbind (document_meta_of round1 db doc) (\<lambda>m. Inr (m, db)))) (\<lambda>m. case m of
       Some m \<Rightarrow> ret \<lparr>om_document_id = me_document_id m, om_state = me_state m, om_duration_ms = Some (me_duration_ms m), om_counts = me_counts m\<rparr>
     | None \<Rightarrow> (case s of None \<Rightarrow> raise_err AttributeError | Some s \<Rightarrow> ret (short_meta doc (state_value s))))"

definition ingest_new ::
    "(rat \<Rightarrow> rat) \<Rightarrow> (string \<Rightarrow> (world, string) act) \<Rightarrow> services \<Rightarrow> parts \<Rightarrow> string \<Rightarrow> delivery \<Rightarrow> string option \<Rightarrow> (world, one_meta) act" where
  "ingest_new round1 ocr sv pt data dl dossier =
     andthen (transaction (ingest sv (pt_new_doc pt) (pt_new_dossier pt) (\<lambda>x. x) data dl dossier)) (\<lambda>d.
     andthen (transaction (process sv (dc_id d))) (\<lambda>s.
     andthen (if s = Some UNPROCESSABLE_OCR then after_ocr sv ocr (dc_id d) else ret s) (\<lambda>s.
     meta_or_state round1 (dc_id d) s)))"

definition ingest_one ::
    "(string \<Rightarrow> string) \<Rightarrow> datetime \<Rightarrow> (rat \<Rightarrow> rat) \<Rightarrow> (string \<Rightarrow> (world, string) act) \<Rightarrow> parts \<Rightarrow> string \<Rightarrow> delivery \<Rightarrow> string option
      \<Rightarrow> (world, one_meta) act" where
  "ingest_one H now round1 ocr pt data dl dossier =
     andthen (on_index (\<lambda>ix. (has_object_key ix (''documents/'' @ H data), ix))) (\<lambda>known.
     if known then deliver_known H now (pt_new_dossier pt) (''documents/'' @ H data) dossier
     else andthen (checked (make_anonymizer (pt_factory pt) (dl_domain dl))) (\<lambda>sv.
       ingest_new round1 ocr sv pt data dl dossier))"

subsection \<open>POST /ingest\<close>

record upload =
  up_filename :: "string option"
  up_data :: string

record ingest_result =
  ir_filename :: "string option"
  ir_document_id :: "string option"
  ir_state :: string
  ir_duration_ms :: "rat option"
  ir_counts :: "(string \<times> json) list option"
  ir_error :: "string option"

record ingest_response =
  is_status :: int
  is_total :: nat
  is_indexed :: nat
  is_results :: "ingest_result list"

record ingest_query =
  iq_domain :: "string option"
  iq_dossier :: "string option"
  iq_source_url :: "string option"
  iq_fetched_at :: "string option"

definition not_ingested :: "upload \<Rightarrow> string \<Rightarrow> string \<Rightarrow> ingest_result" where
  "not_ingested f st why = \<lparr>ir_filename = up_filename f, ir_document_id = None, ir_state = st, ir_duration_ms = None,
     ir_counts = None, ir_error = Some why\<rparr>"

definition ingested :: "upload \<Rightarrow> one_meta \<Rightarrow> ingest_result" where
  "ingested f m = \<lparr>ir_filename = up_filename f, ir_document_id = Some (om_document_id m), ir_state = om_state m,
     ir_duration_ms = om_duration_ms m, ir_counts = (if om_counts m = [] then None else Some (om_counts m)), ir_error = None\<rparr>"

definition delivery_of :: "string \<Rightarrow> upload \<Rightarrow> string option \<Rightarrow> datetime option \<Rightarrow> delivery" where
  "delivery_of domain f source_url fetched_at = \<lparr>dl_object_key = [], dl_domain = domain, dl_filename = up_filename f,
     dl_source_url = source_url, dl_fetched_at = fetched_at, dl_source_sha256 = None\<rparr>"

text \<open>The files one after the other; \<open>n\<close> counts them. The boolean tells whether the key service refused.\<close>

fun ingest_files ::
    "(upload \<Rightarrow> nat \<Rightarrow> (world, one_meta) act) \<Rightarrow> (error \<Rightarrow> string) \<Rightarrow> nat \<Rightarrow> ingest_result list \<Rightarrow> upload list \<Rightarrow> world
      \<Rightarrow> (bool \<times> ingest_result list) \<times> world" where
  "ingest_files ing class_name n results [] w = ((False, results), w)"
| "ingest_files ing class_name n results (f # fs) w =
     (if up_data f = [] then ingest_files ing class_name (Suc n) (results @ [not_ingested f ''error'' ''empty upload'']) fs w
      else case ing f n w of
        (Inr m, w) \<Rightarrow> ingest_files ing class_name (Suc n) (results @ [ingested f m]) fs w
      | (Inl e, w) \<Rightarrow>
          if e = OriginalsKeyUnavailable then ((True, results), w)
          else ingest_files ing class_name (Suc n)
             (results @ [not_ingested f (if is_transient e then ''retryable'' else ''error'') (class_name e)]) fs w)"

definition count_indexed :: "ingest_result list \<Rightarrow> nat" where
  "count_indexed results = length (filter (\<lambda>r. ir_state r = ''indexed'') results)"

definition bad_request :: "'a result \<Rightarrow> 'a result" where
  "bad_request m = (case m of Inl ProvenanceError \<Rightarrow> Inl (HTTPException 400) | r \<Rightarrow> r)"

definition checked_query ::
    "(string \<Rightarrow> unit result) \<Rightarrow> string \<Rightarrow> ingest_query \<Rightarrow> (string \<times> string option \<times> datetime option) result" where
  "checked_query bracketed default_domain q =
     (let dom = or_str (iq_domain q) default_domain
      in if CHR ''/'' \<in> set dom then Inl (HTTPException 400)
         else if strip (or_str (iq_dossier q) []) = [] then Inl (HTTPException 400)
         else rbind (case iq_source_url q of None \<Rightarrow> Inr None
                | Some u \<Rightarrow> rbind (bad_request (validate_source_url bracketed u)) (\<lambda>_. Inr (Some u))) (\<lambda>url.
              rbind (case iq_fetched_at q of None \<Rightarrow> Inr None
                | Some t \<Rightarrow> rbind (bad_request (parse_fetched_at t)) (\<lambda>t. Inr (Some t))) (\<lambda>fetched.
              Inr (dom, url, fetched))))"

definition ingest_endpoint ::
    "(string \<Rightarrow> string) \<Rightarrow> datetime \<Rightarrow> (rat \<Rightarrow> rat) \<Rightarrow> (error \<Rightarrow> string) \<Rightarrow> (string \<Rightarrow> unit result) \<Rightarrow> (string \<Rightarrow> (world, string) act)
      \<Rightarrow> (nat \<Rightarrow> parts) \<Rightarrow> string \<Rightarrow> ingest_query \<Rightarrow> upload list \<Rightarrow> (world, ingest_response) act" where
  "ingest_endpoint H now round1 class_name bracketed ocr parts default_domain q files =
     andthen (checked (checked_query bracketed default_domain q)) (\<lambda>(dom, url, fetched) w.
     case ingest_files (\<lambda>f n. ingest_one H now round1 ocr (parts n) (up_data f) (delivery_of dom f url fetched) (iq_dossier q))
            class_name 0 [] files w of
       ((refused, results), w) \<Rightarrow>
         (Inr \<lparr>is_status = (if refused then 503 else 200), is_total = (if refused then length files else length results),
               is_indexed = count_indexed results, is_results = results\<rparr>, w))"

subsection \<open>The other routes\<close>

record reprocess_body =
  rb_document_ids :: "string list option"
  rb_only_outdated :: bool

record reprocess_response =
  rp_total :: nat
  rp_counts :: "(string, nat) dict"
  rp_problems :: "(string, string) dict"

fun parse_uuids :: "string list \<Rightarrow> string list result" where
  "parse_uuids [] = Inr []"
| "parse_uuids (x # xs) = rbind (parse_uuid x) (\<lambda>i. rbind (parse_uuids xs) (\<lambda>is. Inr (i # is)))"

definition or_400 :: "'a result \<Rightarrow> 'a result" where
  "or_400 m = (case m of Inl ValueError \<Rightarrow> Inl (HTTPException 400) | r \<Rightarrow> r)"

definition requested_ids :: "reprocess_body option \<Rightarrow> string list option result" where
  "requested_ids body = (case body of
     None \<Rightarrow> Inr None
   | Some b \<Rightarrow> (case rb_document_ids b of
         None \<Rightarrow> Inr None
       | Some xs \<Rightarrow> if xs = [] then Inr None else rbind (or_400 (parse_uuids xs)) (\<lambda>is. Inr (Some is))))"

definition selected_ids :: "string option result \<Rightarrow> reprocess_body option \<Rightarrow> string list option \<Rightarrow> corpus \<Rightarrow> string list result" where
  "selected_ids lists_hash body ids db =
     rbind (case ids of None \<Rightarrow> indexed_ids db | Some is \<Rightarrow> Inr is) (\<lambda>ids.
     if (case body of None \<Rightarrow> False | Some b \<Rightarrow> rb_only_outdated b)
     then rbind lists_hash (\<lambda>h. Inr (outdated db ids h)) else Inr ids)"

definition reprocess_endpoint ::
    "(string \<Rightarrow> string) \<Rightarrow> datetime \<Rightarrow> (error \<Rightarrow> exc) \<Rightarrow> (json \<Rightarrow> services result) \<Rightarrow> string option result \<Rightarrow> reprocess_body option
      \<Rightarrow> (world, reprocess_response) act" where
  "reprocess_endpoint H now describe build lists_hash body =
     andthen (checked (requested_ids body)) (\<lambda>ids.
     andthen (on_db (\<lambda>db. rbind (selected_ids lists_hash body ids db) (\<lambda>ids. Inr (ids, db)))) (\<lambda>ids w.
     case reprocess_run H now describe build ids no_tally w of
       ((counts, problems), w) \<Rightarrow> (Inr \<lparr>rp_total = length ids, rp_counts = counts, rp_problems = problems\<rparr>, w)))"

text \<open>Deleting. A membership always names a document that exists, so that only the dossier itself can be unknown.\<close>

definition guard_delete :: "admin_config \<Rightarrow> datetime \<Rightarrow> string option \<Rightarrow> corpus \<Rightarrow> unit result" where
  "guard_delete cfg now caller db =
     (if authorize_delete caller (ad_issuer_labels cfg) (ad_auth_enabled cfg)
           (truthy caller \<and> caller_holds_role (grant_rows db) now caller ADMIN)
      then Inr () else Inl (HTTPException 403))"

definition unknown_404 :: "(world, 'a) act \<Rightarrow> (world, 'a) act" where
  "unknown_404 m = handle m (\<lambda>e. raise_err (if e = DeletionError then HTTPException 404 else e))"

definition delete_document_endpoint ::
    "(string \<Rightarrow> string) \<Rightarrow> datetime \<Rightarrow> admin_config \<Rightarrow> string option \<Rightarrow> string \<Rightarrow> (world, deletion_counts) act" where
  "delete_document_endpoint H now cfg caller doc = transaction (
     andthen (\<lambda>w. (guard_delete cfg now caller (w_db w), w)) (\<lambda>_.
     unknown_404 (delete_document H now doc (actor_of caller) False)))"

definition delete_dossier_endpoint ::
    "(string \<Rightarrow> string) \<Rightarrow> datetime \<Rightarrow> admin_config \<Rightarrow> string option \<Rightarrow> string \<Rightarrow> (world, dossier_report) act" where
  "delete_dossier_endpoint H now cfg caller dossier = transaction (
     andthen (\<lambda>w. (guard_delete cfg now caller (w_db w), w)) (\<lambda>_.
     unknown_404 (delete_dossier H now dossier (actor_of caller) False)))"

record feedback_request =
  fb_kind :: string
  fb_type :: string
  fb_token :: "string option"

definition feedback_ok :: "feedback_request \<Rightarrow> bool" where
  "feedback_ok b = (fb_kind b \<in> {''fp'', ''fn''}
     \<and> (case fb_token b of None \<Rightarrow> True | Some t \<Rightarrow> list_ex (\<lambda>q. snd q = []) (ends PSEUDONYM_RE ([], t))))"

definition feedback_payload :: "feedback_request \<Rightarrow> string option \<Rightarrow> json" where
  "feedback_payload b caller = JObj ([(''kind'', JStr (fb_kind b)), (''type'', JStr (upper (fb_type b))), (''token'', opt_str (fb_token b))]
     @ (if truthy caller then [(''caller'', JStr (the caller))] else []))"

definition document_feedback ::
    "(string \<Rightarrow> string) \<Rightarrow> datetime \<Rightarrow> string \<Rightarrow> feedback_request \<Rightarrow> string option \<Rightarrow> (world, string \<times> nat \<times> json) act" where
  "document_feedback H now doc b caller = transaction (
     if \<not> feedback_ok b then raise_err (HTTPException 422)
     else on_db (\<lambda>db. rbind (doc_state db doc) (\<lambda>s. case s of
         None \<Rightarrow> Inl (HTTPException 404)
       | Some s \<Rightarrow> rbind (append_record H now (audit db) doc (Some (state_value s)) (state_value s) ''detection_feedback''
               (Some (feedback_payload b caller)) None) (\<lambda>(a, r). Inr ((doc, ar_seq r, feedback_payload b caller), db\<lparr>audit := a\<rparr>)))))"

subsection \<open>What every request keeps\<close>

definition keeping :: "(string \<Rightarrow> string) \<Rightarrow> (string \<Rightarrow> bool) \<Rightarrow> (world, 'a) act \<Rightarrow> bool" where
  "keeping H P m = (\<forall>w. sound H P w \<longrightarrow> sound H P (snd (m w)))"

lemma keeping_run: "keeping H P m \<Longrightarrow> sound H P w \<Longrightarrow> m w = (r, w') \<Longrightarrow> sound H P w'"
  by (metis keeping_def snd_conv)

lemma keepingI: "(\<And>w r w'. sound H P w \<Longrightarrow> m w = (r, w') \<Longrightarrow> sound H P w') \<Longrightarrow> keeping H P m"
  by (metis keeping_def surjective_pairing)

lemma keeping_andthen:
  assumes "keeping H P m" and "\<And>x. keeping H P (f x)"
  shows "keeping H P (andthen m f)"
  by (rule keepingI) (erule andthen_cases; metis assms keeping_run)

lemma keeping_still: "(\<And>w. snd (m w) = w) \<Longrightarrow> keeping H P m"
  by (simp add: keeping_def)

lemma keeping_simple: "keeping H P (ret x)" "keeping H P (raise_err e)" "keeping H P (reading f)" "keeping H P (checked c)"
    "keeping H P (on_db (\<lambda>db. rbind (g db) (\<lambda>x. Inr (x, db))))"
  by (auto intro!: keeping_still simp: on_db_def rbind_def split: sum.split)

lemma keeping_index: "keeps shrinks (on_index f) \<Longrightarrow> keeping H P (on_index f)"
  by (rule keepingI, erule sound_db) (auto dest: on_index_any intro: keeps_run)

lemma keeping_set_dossiers: "keeping H P (\<lambda>w. on_index (\<lambda>ix. set_dossiers ix doc (dossiers_of (w_db w) doc)) w)"
  using keeping_index [OF shrinks_index_steps(3)] by (simp add: keeping_def)

lemma keeping_if: "keeping H P m \<Longrightarrow> keeping H P n \<Longrightarrow> keeping H P (if b then m else n)"
  by simp

lemmas keeping_rules = keeping_andthen keeping_simple keeping_set_dossiers keeping_if

definition serving :: "(string \<Rightarrow> string) \<Rightarrow> (string \<Rightarrow> bool) \<Rightarrow> factory \<Rightarrow> bool" where
  "serving H P f = (\<forall>d sv. make_anonymizer f d = Inr sv \<longrightarrow> sv_hash sv = H \<and> wired sv \<and> (\<forall>t. anonymizer_output sv t \<longrightarrow> P t)
     \<and> (\<exists>HB enc wrap unwrap (cfg :: key_config) nonce material domain. sv_write sv = writing_original HB enc wrap unwrap cfg nonce material domain))"

lemma known_member_tables:
  assumes "digest64 H" and "corpus_ok H (w_db w)" and "known_member H now ds dossier d w = (Inr b, w')"
  shows "corpus_ok H (w_db w') \<and> (\<forall>i. doc_state (w_db w') i = doc_state (w_db w) i) \<and> texts (w_db w') = texts (w_db w)
    \<and> pseudonyms (w_db w') = pseudonyms (w_db w) \<and> documents (w_db w') = documents (w_db w)
    \<and> (b \<longrightarrow> (\<exists>d' x. d = Some d' \<and> (ds_id x, dc_id d') \<in> set (memberships (w_db w')) - set (memberships (w_db w))
        \<and> dossier_by_name (w_db w') (strip (the dossier)) = Some x))
    \<and> w_index w' = w_index w"
proof (cases "d = None \<or> \<not> truthy dossier")
  case True
  then show ?thesis using assms(2,3) by (auto simp: known_member_def split: option.splits)
next
  case False
  then obtain d' n where d: "d = Some d'" "dossier = Some n" by (cases dossier) auto
  obtain x db1 db2 where r: "ensure_dossier now ds (\<lambda>x. x) (w_db w) n = Inr (x, db1)"
    "add_member H now (\<lambda>x. x) db1 (ds_id x) (dc_id d') ''ingest'' None = Inr (b, db2)" "w' = w\<lparr>w_db := db2\<rparr>"
    using assms(3) False d by (auto simp: known_member_def result_simps)
  note e = ensure_dossier_ok [OF assms(2) r(1)]
  obtain rows where rows: "db1 = (w_db w)\<lparr>dossier_rows := rows\<rparr>" using e by blast
  have c: "corpus_ok H db1" using e by blast
  note a = add_member_ok [OF assms(1) c r(2)]
  have s: "same_but_members db1 db2" using a by blast
  have "doc_state db1 i = doc_state (w_db w) i" for i by (simp add: rows doc_state_def)
  moreover have "dossier_by_name db2 (strip n) = Some x"
    using e same_but_members_simps(2) [OF s] by (simp add: dossier_by_name_def)
  moreover have "b \<Longrightarrow> (ds_id x, dc_id d') \<in> set (memberships db2) - set (memberships (w_db w))"
    using a by (simp add: rows)
  ultimately show ?thesis using a same_but_members_simps [OF s] by (simp add: r(3) rows d)
qed

lemma known_member_shrinks: "keeps shrinks (known_member H now ds dossier d)"
  unfolding known_member_def by (auto intro!: shrinks_rules split: option.split)

lemma keeping_deliver:
  assumes "digest64 H"
  shows "keeping H P (deliver_known H now ds key dossier)"
proof -
  let ?f = "\<lambda>d added. (case d of None \<Rightarrow> raise_err (HTTPException 409) | Some d \<Rightarrow> ret (added, dc_id d)) :: (world, bool \<times> string) act"
  let ?m = "andthen (reading (\<lambda>w. live_document_for (w_db w) key)) (\<lambda>d. andthen (known_member H now ds dossier d) (?f d))"
  have "keeping H P (transaction ?m)"
  proof (rule keepingI)
    fix w r w' assume w: "sound H P w" and t: "transaction ?m w = (r, w')"
    show "sound H P w'"
    proof (rule sound_transaction [OF w t])
      fix x w1 assume "?m w = (Inr x, w1)"
      then obtain b where b: "known_member H now ds dossier (live_document_for (w_db w) key) w = (Inr b, w1)"
        by (auto simp: result_simps split: option.splits)
      have ok: "corpus_ok H (w_db w)" using w by (simp add: sound_def)
      from known_member_tables [OF assms ok b] show "sound H P w1"
        by (intro sound_calm [OF w]) (simp_all add: calm_def shrinks_same)
    next
      fix e w1 assume m: "?m w = (Inl e, w1)"
      have "keeps shrinks ?m" by (intro shrinks_rules known_member_shrinks) (auto simp: shrinks_ret split: option.split)
      from keeps_run [OF this m] show "shrinks w w1" .
    qed
  qed
  moreover have "keeping H P (case p of (added, doc) \<Rightarrow>
     andthen (if added then (\<lambda>w. on_index (\<lambda>ix. set_dossiers ix doc (dossiers_of (w_db w) doc)) w) else ret False) (\<lambda>_.
     ret (short_meta doc (if added then ''added_to_dossier'' else ''skipped''))))" for p
    by (cases p) (simp only: case_prod_conv, intro keeping_rules)
  ultimately show ?thesis unfolding deliver_known_def by (rule keeping_andthen)
qed

lemma keeping_process:
  assumes "digest64 H" and "sv_hash sv = H" and "wired sv" and "\<forall>t. anonymizer_output sv t \<longrightarrow> P t"
  shows "keeping H P (transaction (process sv doc))" "keeping H P (transaction (reanonymize sv doc))"
    "(\<And>b. aside (ocr b)) \<Longrightarrow> keeping H P (transaction (recover sv ocr doc))"
  using assms(1) sound_process [OF _ wired_serves [OF assms(3,4)]] sound_reanonymize [OF _ wired_serves [OF assms(3,4)]]
    sound_recover [OF _ _ pipeline_services.reads [OF wired_serves [OF assms(3,4)]]]
  unfolding assms(2) [symmetric] by (blast intro: keepingI)+

lemma keeping_after_ocr:
  assumes "digest64 H" and "sv_hash sv = H" and "wired sv" and "\<forall>t. anonymizer_output sv t \<longrightarrow> P t" and "\<And>b. aside (ocr b)"
  shows "keeping H P (after_ocr sv ocr doc)"
  unfolding after_ocr_def
  by (intro keeping_rules keeping_process [OF assms(1-4)] assms(5))
    (auto simp: Let_def intro!: keeping_rules split: option.split)

lemma keeping_meta: "keeping H P (meta_or_state round1 doc s)"
  unfolding meta_or_state_def by (intro keeping_rules) (auto intro: keeping_simple split: option.split)

lemma keeping_one:
  assumes "digest64 H" and "serving H P (pt_factory pt)" and "\<And>b. aside (ocr b)"
  shows "keeping H P (ingest_one H now round1 ocr pt data dl dossier)"
proof -
  have "keeping H P (ingest_new round1 ocr sv pt data dl dossier)" if "make_anonymizer (pt_factory pt) (dl_domain dl) = Inr sv" for sv
  proof -
    have sv: "sv_hash sv = H" "wired sv" "\<forall>t. anonymizer_output sv t \<longrightarrow> P t"
      and wr: "\<exists>HB enc wrap unwrap (cfg :: key_config) nonce material domain. sv_write sv = writing_original HB enc wrap unwrap cfg nonce material domain"
      using assms(2) that unfolding serving_def by simp_all
    have "keeping H P (transaction (ingest sv (pt_new_doc pt) (pt_new_dossier pt) (\<lambda>x. x) data dl dossier))"
      using wr assms(1) unfolding sv(1) [symmetric] by (elim exE) (blast intro: keepingI sound_ingest)
    then show ?thesis
      unfolding ingest_new_def
      by (intro keeping_andthen keeping_if keeping_process(1) [OF assms(1) sv(1-3)] keeping_after_ocr [OF assms(1) sv(1-3) assms(3)]
          keeping_simple(1) keeping_meta)
  qed
  then have "keeping H P (andthen (checked (make_anonymizer (pt_factory pt) (dl_domain dl))) (\<lambda>sv. ingest_new round1 ocr sv pt data dl dossier))"
    by (cases "make_anonymizer (pt_factory pt) (dl_domain dl)") (simp_all add: keeping_def andthen_def)
  from keeping_if [OF keeping_deliver [OF assms(1)] this] show ?thesis
    unfolding ingest_one_def by (intro keeping_andthen [OF keeping_index [OF shrinks_index_steps(2)]])
qed

subsection \<open>A batch\<close>

lemma files_keep:
  assumes "\<And>f n. keeping H P (ing f n)" and "sound H P w" and "ingest_files ing class_name n results fs w = ((refused, out), w')"
  shows "sound H P w' \<and> (\<exists>new. out = results @ new \<and> map ir_filename new = map up_filename (take (length new) fs)
    \<and> (if refused then length new < length fs \<and> up_data (fs ! length new) \<noteq> [] else length new = length fs))"
  using assms(2,3)
proof (induction fs arbitrary: n results w)
  case Nil
  then show ?case by simp
next
  case (Cons f fs)
  have step: ?case
    if s: "sound H P w1" and t: "ingest_files ing class_name (Suc n) (results @ [x]) fs w1 = ((refused, out), w')" and x: "ir_filename x = up_filename f" for w1 x
  proof -
    obtain new where "sound H P w'" "out = (results @ [x]) @ new" "map ir_filename new = map up_filename (take (length new) fs)"
      "if refused then length new < length fs \<and> up_data (fs ! length new) \<noteq> [] else length new = length fs"
      using Cons.IH [OF s t] by blast
    then show ?thesis using x by (intro conjI exI [of _ "x # new"]) (auto split: if_splits)
  qed
  show ?case
  proof (cases "up_data f = []")
    case True
    then show ?thesis using step [OF Cons.prems(1)] Cons.prems(2) by (simp add: not_ingested_def)
  next
    case False
    obtain r w1 where r: "ing f n w = (r, w1)" by fastforce
    have s1: "sound H P w1" by (rule keeping_run [OF assms(1) Cons.prems(1) r])
    show ?thesis
    proof (cases r)
      case (Inl e)
      show ?thesis
      proof (cases "e = OriginalsKeyUnavailable")
        case True
        then show ?thesis using Cons.prems(2) False r Inl s1 by auto
      next
        case n: False
        then show ?thesis using step [OF s1] Cons.prems(2) False r Inl by (simp add: not_ingested_def)
      qed
    next
      case (Inr m)
      then show ?thesis using step [OF s1] Cons.prems(2) False r by (simp add: ingested_def)
    qed
  qed
qed

subsection \<open>The answer about a file is true\<close>

lemma meta_says:
  assumes "meta_or_state round1 doc s w = (Inr m, w')"
  shows "w' = w \<and> om_document_id m = doc \<and> (\<forall>t. doc_state (w_db w) doc = Inr (Some t) \<longrightarrow> om_state m = state_value t)
    \<and> (doc_state (w_db w) doc = Inr None \<longrightarrow> om_state m = [] \<or> (\<exists>t. s = Some t \<and> om_state m = state_value t))"
proof -
  obtain x where x: "document_meta_of round1 (w_db w) doc = Inr x" and m: "(case x of
       Some m \<Rightarrow> ret \<lparr>om_document_id = me_document_id m, om_state = me_state m, om_duration_ms = Some (me_duration_ms m), om_counts = me_counts m\<rparr>
     | None \<Rightarrow> (case s of None \<Rightarrow> raise_err AttributeError | Some s \<Rightarrow> ret (short_meta doc (state_value s)))) w = (Inr m, w')"
    using assms by (auto simp: meta_or_state_def result_simps)
  show ?thesis
  proof (cases "by_seq (filter (\<lambda>r. ar_document_id r = doc) (trail (audit (w_db w))))")
    case Nil
    then have "x = None" using x by (simp add: document_meta_of_def)
    moreover have "doc_state (w_db w) doc = Inr None" by (simp add: doc_state_def current_state_def Nil last_opt_def)
    ultimately show ?thesis using m by (auto simp: short_meta_def split: option.splits)
  next
    case (Cons r rs)
    then obtain y where y: "x = Some y" "me_document_id y = doc" "me_state y = ar_to_state (last (r # rs))"
      using x by (auto simp: document_meta_of_def result_simps Let_def)
    have "doc_state (w_db w) doc = Inr (Some t) \<Longrightarrow> ar_to_state (last (r # rs)) = state_value t" for t
      by (auto simp: doc_state_def current_state_def Cons last_opt_def result_simps state_of_Inr split: if_splits)
    moreover have "doc_state (w_db w) doc = Inr None \<Longrightarrow> ar_to_state (last (r # rs)) = []"
      by (auto simp: doc_state_def current_state_def Cons last_opt_def result_simps split: if_splits)
    ultimately show ?thesis using m y by auto
  qed
qed

lemma process_done:
  assumes "digest64 H" and "sv_hash sv = H" and "wired sv" and "\<forall>t. anonymizer_output sv t \<longrightarrow> P t" and "sound H P w"
    and "transaction (process sv doc) w = (Inr s, w')"
  shows "sound H P w' \<and> doc_state (w_db w') doc = Inr s \<and> others_same doc w w'
    \<and> (s = Some INDEXED \<longrightarrow> doc_state (w_db w) doc = Inr (Some INDEXED) \<or> indexed_true doc w')"
proof -
  have run: "process sv doc w = (Inr s, w')" using retried [OF assms(6)] by auto
  have w: "corpus_ok H (w_db w)" "texts_ok P (w_db w)" "index_ok P (w_index w)" using assms(5) by (simp_all add: sound_def)
  obtain s0 where s0: "at_state H P doc w s0 w" using at_start [OF assms(1) w] by blast
  note triple_run [OF pipeline_services.process_held [OF wired_serves [OF assms(3,4)]] s0 [folded assms(2)] run]
  then have "at_state H P doc w s w'" "s = Some INDEXED \<longrightarrow> s0 = Some INDEXED \<or> indexed_true doc w'" by (simp_all add: assms(2))
  moreover have "sound H P w'" by (rule keeping_run [OF keeping_process(1) [OF assms(1-4)] assms(5,6)])
  ultimately show ?thesis using s0 by (auto simp: at_state_def going_def)
qed

lemma deliver_says:
  assumes "digest64 H" and "sound H P w" and "deliver_known H now ds key dossier w = (Inr m, w')"
  shows "om_state m \<noteq> ''indexed'' \<and> (om_state m = ''added_to_dossier'' \<longrightarrow>
      (\<exists>x. (ds_id x, om_document_id m) \<in> set (memberships (w_db w')) - set (memberships (w_db w)) \<and> dossier_by_name (w_db w') (strip (the dossier)) = Some x)
      \<and> (if index_exists (w_index w') (om_document_id m)
           then members_of (ix_dossiers (w_index w')) (om_document_id m) = set (dossiers_of (w_db w') (om_document_id m)) else w_index w' = w_index w))"
proof -
  obtain b d w1 where b: "live_document_for (w_db w) key = Some d" "known_member H now ds dossier (Some d) w = (Inr b, w1)"
    and rest: "andthen (if b then (\<lambda>w. on_index (\<lambda>ix. set_dossiers ix (dc_id d) (dossiers_of (w_db w) (dc_id d))) w) else ret False) (\<lambda>_.
     ret (short_meta (dc_id d) (if b then ''added_to_dossier'' else ''skipped''))) w1 = (Inr m, w')"
    using assms(3) by (auto simp: deliver_known_def result_simps transaction_def split: prod.splits sum.splits option.splits)
  have ok: "corpus_ok H (w_db w)" using assms(2) by (simp add: sound_def)
  show ?thesis
  proof (cases b)
    case False
    then show ?thesis using rest by (auto simp: short_meta_def)
  next
    case True
    then obtain y where set: "on_index (\<lambda>ix. set_dossiers ix (dc_id d) (dossiers_of (w_db w1) (dc_id d))) w1 = (Inr y, w')"
      and m: "m = short_meta (dc_id d) ''added_to_dossier''" using rest by (auto simp: andthen_Inr)
    obtain fs where w': "w' = w1\<lparr>w_faults := fs, w_index := snd (set_dossiers (w_index w1) (dc_id d) (dossiers_of (w_db w1) (dc_id d)))\<rparr>"
      using set by (rule on_index_Inr)
    have "w_index w1 = w_index w" using b(2) by (auto simp: known_member_def result_simps split: if_splits)
    then have "if index_exists (w_index w') (dc_id d) then members_of (ix_dossiers (w_index w')) (dc_id d) = set (dossiers_of (w_db w') (dc_id d))
        else w_index w' = w_index w"
      by (auto simp: w' set_dossiers_def index_exists_def members_of_def)
    with True known_member_tables [OF assms(1) ok b(2)] show ?thesis by (auto simp: m short_meta_def w')
  qed
qed

lemma ocr_says:
  assumes "digest64 H" and "sv_hash sv = H" and "wired sv" and "\<forall>t. anonymizer_output sv t \<longrightarrow> P t" and "\<forall>b. aside (ocr b)"
    and "sound H P w" and "after_ocr sv ocr doc w = (Inr s, w')"
  shows "sound H P w' \<and> (doc_state (w_db w') doc = Inr (Some INDEXED) \<longrightarrow> indexed_true doc w')
    \<and> (s = Some INDEXED \<longrightarrow> doc_state (w_db w') doc = Inr (Some INDEXED))"
proof -
  obtain t w1 where t: "recover sv ocr doc w = (Inr t, w1)" and rest: "(if t = SUPERSEDED then
       andthen (reading (\<lambda>w. document_by_id (w_db w) doc)) (\<lambda>d. case d of
         None \<Rightarrow> raise_err AttributeError
       | Some d \<Rightarrow> (let owner = (case dc_superseded_by d of None \<Rightarrow> ''None'' | Some i \<Rightarrow> i)
            in andthen (\<lambda>w. on_index (\<lambda>ix. set_dossiers ix owner (dossiers_of (w_db w) owner)) w) (\<lambda>_. ret (Some SUPERSEDED))))
     else transaction (process sv doc)) w1 = (Inr s, w')"
    using assms(7) by (auto simp: after_ocr_def andthen_Inr dest!: retried)
  have d: "sound H P w1 \<and> doc_state (w_db w1) doc \<noteq> Inr (Some INDEXED)"
    using recover_done [of sv P w ocr doc t w1] assms(1,5,6) t pipeline_services.reads [OF wired_serves [OF assms(3,4)]] by (simp add: assms(2))
  have s: "sound H P w'" using keeping_run [OF keeping_after_ocr [OF assms(1-4)] assms(6,7)] assms(5) by blast
  show ?thesis
  proof (cases "t = SUPERSEDED")
    case True
    then obtain owner x where "on_index (\<lambda>ix. set_dossiers ix owner (dossiers_of (w_db w1) owner)) w1 = (Inr x, w')" "s = Some SUPERSEDED"
      using rest by (auto simp: andthen_Inr Let_def split: option.splits)
    then show ?thesis using d s by (auto dest: on_index_any)
  next
    case False
    then have "transaction (process sv doc) w1 = (Inr s, w')" "sound H P w1" using rest d by simp_all
    from process_done [OF assms(1-4) this(2,1)] d s show ?thesis by auto
  qed
qed

lemma transaction_Inr: "transaction m w = (Inr x, w') \<longleftrightarrow> m w = (Inr x, w')"
  by (auto simp: transaction_def split: prod.splits sum.splits)

lemma new_says:
  assumes "digest64 H" and "sv_hash sv = H" and "wired sv" and "\<forall>t. anonymizer_output sv t \<longrightarrow> P t" and "\<forall>b. aside (ocr b)"
    and "sv_write sv = writing_original HB enc wrap unwrap cfg nonce material domain"
    and "sound H P w" and "ingest_new round1 ocr sv pt data dl dossier w = (Inr m, w')"
  shows "om_state m \<noteq> ''added_to_dossier'' \<and> (om_state m = ''indexed'' \<longrightarrow> doc_state (w_db w) (om_document_id m) = Inr (Some INDEXED)
         \<or> doc_state (w_db w') (om_document_id m) = Inr (Some INDEXED) \<and> indexed_true (om_document_id m) w')"
proof -
  obtain d w1 t w2 s w3 where i: "ingest sv (pt_new_doc pt) (pt_new_dossier pt) (\<lambda>x. x) data dl dossier w = (Inr d, w1)"
    and p: "transaction (process sv (dc_id d)) w1 = (Inr t, w2)"
    and o: "(if t = Some UNPROCESSABLE_OCR then after_ocr sv ocr (dc_id d) else ret t) w2 = (Inr s, w3)"
    and m: "meta_or_state round1 (dc_id d) s w3 = (Inr m, w')"
    using assms(8) unfolding ingest_new_def andthen_Inr transaction_Inr by blast
  have i': "sound H P w1 \<and> (doc_state (w_db w1) (dc_id d) = Inr (Some INDEXED) \<longrightarrow> doc_state (w_db w) (dc_id d) = Inr (Some INDEXED))"
    using ingest_done [OF _ _ assms(6) i, of P] assms(1,7) by (auto simp: assms(2) split: option.splits)
  note p' = process_done [OF assms(1-4) conjunct1 [OF i'] p]
  note w' = meta_says [OF m]
  have o': "sound H P w3 \<and> (doc_state (w_db w3) (dc_id d) = Inr (Some INDEXED) \<longrightarrow> doc_state (w_db w) (dc_id d) = Inr (Some INDEXED) \<or> indexed_true (dc_id d) w3)
      \<and> (s = Some INDEXED \<longrightarrow> doc_state (w_db w3) (dc_id d) = Inr (Some INDEXED))"
  proof (cases "t = Some UNPROCESSABLE_OCR")
    case True
    then have "after_ocr sv ocr (dc_id d) w2 = (Inr s, w3)" using o by simp
    from ocr_says [OF assms(1-5) conjunct1 [OF p'] this] show ?thesis by auto
  next
    case False
    then show ?thesis using o p' i' by auto
  qed
  have "corpus_ok H (w_db w3)" using o' by (simp add: sound_def)
  then obtain x where x: "doc_state (w_db w3) (dc_id d) = Inr x" by (auto simp: corpus_ok_def doc_state_def dest: trail_state)
  consider "om_state m = []" | y where "om_state m = state_value y" "y = INDEXED \<longrightarrow> doc_state (w_db w3) (dc_id d) = Inr (Some INDEXED)"
    using w' o' x by (cases x) auto
  then show ?thesis
  proof cases
    case 2
    then have "om_state m = ''indexed'' \<longrightarrow> y = INDEXED" "om_state m \<noteq> ''added_to_dossier''" by (cases y; simp)+
    then show ?thesis using 2 w' o' by auto
  qed simp
qed

text \<open>C2: What \<open>POST /ingest\<close> answers about a file is true. When a file is reported as indexed, the document is in that state and
  the index has exactly its stored text, its key and its dossiers, unless it was in that state before the request; when it is reported as added to a
  dossier, the membership is there and was not there before, and an index that holds an entry of the document has exactly the dossiers of the document with it. An
  index that holds no entry under that identifier, which happens when another document has the content in the index, is left as it was.
  The register is sound afterwards.\<close>

theorem ingest_answer_true:
  assumes "digest64 H" and "serving H P (pt_factory pt)" and "\<forall>b. aside (ocr b)" and "sound H P w"
    and "ingest_one H now round1 ocr pt data dl dossier w = (Inr m, w')"
  shows "sound H P w'
    \<and> (om_state m = ''indexed'' \<longrightarrow> doc_state (w_db w) (om_document_id m) = Inr (Some INDEXED)
         \<or> doc_state (w_db w') (om_document_id m) = Inr (Some INDEXED) \<and> indexed_true (om_document_id m) w')
    \<and> (om_state m = ''added_to_dossier'' \<longrightarrow>
        (\<exists>x. (ds_id x, om_document_id m) \<in> set (memberships (w_db w')) - set (memberships (w_db w)) \<and> dossier_by_name (w_db w') (strip (the dossier)) = Some x)
        \<and> (if index_exists (w_index w') (om_document_id m)
             then members_of (ix_dossiers (w_index w')) (om_document_id m) = set (dossiers_of (w_db w') (om_document_id m))
             else w_index w' = w_index w))"
proof -
  let ?key = "''documents/'' @ H data"
  have s: "sound H P w'" using keeping_run [OF keeping_one assms(4,5)] assms(1-3) by blast
  obtain w1 fs where w1: "w1 = w\<lparr>w_faults := fs, w_index := w_index w\<rparr>"
    and rest: "(if has_object_key (w_index w) ?key then deliver_known H now (pt_new_dossier pt) ?key dossier
     else andthen (checked (make_anonymizer (pt_factory pt) (dl_domain dl))) (\<lambda>sv. ingest_new round1 ocr sv pt data dl dossier)) w1 = (Inr m, w')"
    using assms(5) unfolding ingest_one_def andthen_Inr by (elim exE conjE on_index_Inr) simp
  have s1: "sound H P w1" using assms(4) by (simp add: w1 sound_def wiped_def)
  show ?thesis
  proof (cases "has_object_key (w_index w) ?key")
    case True
    have ix: "w_index w1 = w_index w" "memberships (w_db w1) = memberships (w_db w)" by (simp_all add: w1)
    from True rest have "deliver_known H now (pt_new_dossier pt) ?key dossier w1 = (Inr m, w')" by simp
    from deliver_says [OF assms(1) s1 this] s show ?thesis unfolding ix by blast
  next
    case False
    then obtain sv where sv: "make_anonymizer (pt_factory pt) (dl_domain dl) = Inr sv" and run: "ingest_new round1 ocr sv pt data dl dossier w1 = (Inr m, w')"
      using rest by (auto simp: andthen_Inr)
    have h: "sv_hash sv = H" "wired sv" "\<forall>t. anonymizer_output sv t \<longrightarrow> P t"
      and "\<exists>HB enc wrap unwrap (cfg :: key_config) nonce material domain. sv_write sv = writing_original HB enc wrap unwrap cfg nonce material domain"
      using assms(2) sv unfolding serving_def by simp_all
    then have "om_state m \<noteq> ''added_to_dossier'' \<and> (om_state m = ''indexed'' \<longrightarrow> doc_state (w_db w1) (om_document_id m) = Inr (Some INDEXED)
         \<or> doc_state (w_db w') (om_document_id m) = Inr (Some INDEXED) \<and> indexed_true (om_document_id m) w')"
      by (elim exE) (rule new_says [OF assms(1) h assms(3) _ s1 run])
    with s show ?thesis by (simp add: w1)
  qed
qed

text \<open>C37: The index is not the source of truth. \<open>_ingest_one\<close> says that a document missing from a recreated index becomes eligible
  again. It does not: when the content is that of a document the register has as indexed and the index does not hold it, a request that
  returns reports \<open>indexed\<close> and leaves the index as it was, without the document.\<close>

theorem recreated_index_not_refilled:
  assumes "digest64 H" and "serving H P (pt_factory pt)" and "sound H P w"
    and "live_document_for (w_db w) (''documents/'' @ H data) = Some d" and "doc_state (w_db w) (dc_id d) = Inr (Some INDEXED)"
    and "\<not> has_object_key (w_index w) (''documents/'' @ H data)"
    and "ingest_one H now round1 ocr pt data dl dossier w = (Inr m, w')"
  shows "om_document_id m = dc_id d \<and> om_state m = ''indexed'' \<and> w_index w' = w_index w \<and> \<not> has_object_key (w_index w') (''documents/'' @ H data)"
proof -
  obtain w1 fs where w1: "w1 = w\<lparr>w_faults := fs, w_index := w_index w\<rparr>"
    and rest: "andthen (checked (make_anonymizer (pt_factory pt) (dl_domain dl))) (\<lambda>sv. ingest_new round1 ocr sv pt data dl dossier) w1 = (Inr m, w')"
    using assms(6,7) unfolding ingest_one_def andthen_Inr [of "on_index _"] by (elim exE conjE on_index_Inr) simp
  obtain sv where sv: "make_anonymizer (pt_factory pt) (dl_domain dl) = Inr sv" and run: "ingest_new round1 ocr sv pt data dl dossier w1 = (Inr m, w')"
    using rest by (auto simp: andthen_Inr)
  have s1: "sound H P w1" using assms(3) by (simp add: w1 sound_def wiped_def)
  have h: "sv_hash sv = H"
    and "\<exists>HB enc wrap unwrap (cfg :: key_config) nonce material domain. sv_write sv = writing_original HB enc wrap unwrap cfg nonce material domain"
    using assms(2) sv unfolding serving_def by simp_all
  then obtain HB enc wrap unwrap nonce material domain and cfg :: key_config
    where wr: "sv_write sv = writing_original HB enc wrap unwrap cfg nonce material domain" by (elim exE)
  obtain e w2 t w3 s' w4 where i: "ingest sv (pt_new_doc pt) (pt_new_dossier pt) (\<lambda>x. x) data dl dossier w1 = (Inr e, w2)"
    and p: "process sv (dc_id e) w2 = (Inr t, w3)"
    and o: "(if t = Some UNPROCESSABLE_OCR then after_ocr sv ocr (dc_id e) else ret t) w3 = (Inr s', w4)"
    and m: "meta_or_state round1 (dc_id e) s' w4 = (Inr m, w')"
    using run unfolding ingest_new_def andthen_Inr transaction_Inr by blast
  have "live_document_for (w_db w1) (original_key sv data) = Some d" using assms(4) by (simp add: w1 h original_key_def)
  then have e: "e = d" "doc_state (w_db w2) (dc_id d) = Inr (Some INDEXED)" "w_index w2 = w_index w"
    using ingest_done [OF _ _ wr i, of P] assms(1,5) s1 by (simp_all add: h w1)
  then have "t = Some INDEXED" "w3 = w2" using p by (simp_all add: process_def lookup_def on_db_def andthen_def)
  then have "w4 = w2" using o by simp
  with meta_says [OF m] e assms(6) show ?thesis by simp
qed

text \<open>What happens to one file: its result, and the world after it.\<close>

definition file_outcome ::
    "(upload \<Rightarrow> nat \<Rightarrow> (world, one_meta) act) \<Rightarrow> (error \<Rightarrow> string) \<Rightarrow> nat \<Rightarrow> upload \<Rightarrow> world \<Rightarrow> ingest_result \<Rightarrow> world \<Rightarrow> bool" where
  "file_outcome ing class_name n f w res w' =
     (if up_data f = [] then w' = w \<and> res = not_ingested f ''error'' ''empty upload''
      else case ing f n w of
        (Inr m, v) \<Rightarrow> w' = v \<and> res = ingested f m
      | (Inl e, v) \<Rightarrow> e \<noteq> OriginalsKeyUnavailable \<and> w' = v
          \<and> res = not_ingested f (if is_transient e then ''retryable'' else ''error'') (class_name e))"

lemma files_trace:
  assumes "ingest_files ing class_name n results fs w = ((refused, out), w')"
  shows "\<exists>new ws. out = results @ new \<and> length ws = Suc (length new) \<and> ws ! 0 = w
    \<and> (\<forall>i<length new. file_outcome ing class_name (n + i) (fs ! i) (ws ! i) (new ! i) (ws ! Suc i))
    \<and> (if refused then length new < length fs \<and> up_data (fs ! length new) \<noteq> []
          \<and> ing (fs ! length new) (n + length new) (ws ! length new) = (Inl OriginalsKeyUnavailable, w')
        else length new = length fs \<and> w' = ws ! length new)"
  using assms
proof (induction fs arbitrary: n results w)
  case Nil
  then show ?case by (intro exI [of _ "[]"] exI [of _ "[w]"]) simp
next
  case (Cons f fs)
  have step: ?case
    if t: "ingest_files ing class_name (Suc n) (results @ [x]) fs w1 = ((refused, out), w')" and x: "file_outcome ing class_name n f w x w1" for w1 x
  proof -
    obtain new ws where ih: "out = (results @ [x]) @ new" "length ws = Suc (length new)" "ws ! 0 = w1"
      "\<forall>i<length new. file_outcome ing class_name (Suc n + i) (fs ! i) (ws ! i) (new ! i) (ws ! Suc i)"
      "if refused then length new < length fs \<and> up_data (fs ! length new) \<noteq> []
          \<and> ing (fs ! length new) (Suc n + length new) (ws ! length new) = (Inl OriginalsKeyUnavailable, w')
        else length new = length fs \<and> w' = ws ! length new"
      using Cons.IH [OF t] by (elim exE conjE) (rule that)
    have "file_outcome ing class_name (n + i) ((f # fs) ! i) ((w # ws) ! i) ((x # new) ! i) ((w # ws) ! Suc i)" if "i < length (x # new)" for i
      using ih(3,4) x that by (cases i) auto
    with ih show ?thesis by (intro exI [of _ "x # new"] exI [of _ "w # ws"]) (auto split: if_splits)
  qed
  show ?case
  proof (cases "up_data f = []")
    case True
    then show ?thesis using step Cons.prems by (simp add: file_outcome_def)
  next
    case False
    obtain r w1 where r: "ing f n w = (r, w1)" by fastforce
    show ?thesis
    proof (cases "r = Inl OriginalsKeyUnavailable")
      case True
      then have "out = results" "refused" "w' = w1" using Cons.prems False r by auto
      then show ?thesis using False r True by (intro exI [of _ "[]"] exI [of _ "[w]"]) simp
    next
      case other: False
      then show ?thesis using step [of _ w1] Cons.prems False r by (cases r) (auto simp: file_outcome_def)
    qed
  qed
qed

text \<open>C36: A batch is accounted for. From a sound register, whatever files are sent and whatever fails, \<open>POST /ingest\<close> leaves a sound register. A
  request that is refused has changed nothing. Otherwise the files are taken one after the other, each in the world the one before left (\<open>ws\<close>): an empty file
  is an error and touches nothing, a file that goes in has the answer of \<open>ingest_one\<close>, and one that fails has an error, or \<open>retryable\<close> where another attempt may help, and
  the next file follows; only when the key service refuses for a file does the batch end before that file's result, which the answer says with status 503. The
  number of indexed files is the number of results that say so.\<close>

theorem ingest_batch_accounts:
  assumes "digest64 H" and "\<forall>n. serving H P (pt_factory (parts n))" and "\<forall>b. aside (ocr b)" and "sound H P w"
    and "ingest_endpoint H now round1 class_name bracketed ocr parts default_domain q files w = (r, w')"
  shows "sound H P w' \<and> (case r of Inl e \<Rightarrow> w' = w \<and> checked_query bracketed default_domain q = Inl e
     | Inr a \<Rightarrow> is_total a = length files \<and> is_indexed a = count_indexed (is_results a)
         \<and> (\<exists>dom url fetched ws. checked_query bracketed default_domain q = Inr (dom, url, fetched)
             \<and> length ws = Suc (length (is_results a)) \<and> ws ! 0 = w
             \<and> (let ing = (\<lambda>f n. ingest_one H now round1 ocr (parts n) (up_data f) (delivery_of dom f url fetched) (iq_dossier q)); k = length (is_results a)
                in (\<forall>i<k. file_outcome ing class_name i (files ! i) (ws ! i) (is_results a ! i) (ws ! Suc i))
                   \<and> (if k = length files then is_status a = 200 \<and> w' = ws ! k
                      else is_status a = 503 \<and> k < length files \<and> up_data (files ! k) \<noteq> []
                        \<and> ing (files ! k) k (ws ! k) = (Inl OriginalsKeyUnavailable, w')))))"
proof (cases "checked_query bracketed default_domain q")
  case (Inl e)
  then show ?thesis using assms(4,5) by (auto simp: ingest_endpoint_def andthen_def)
next
  case (Inr x)
  obtain dom url fetched where x: "x = (dom, url, fetched)" by (cases x)
  let ?ing = "\<lambda>f n. ingest_one H now round1 ocr (parts n) (up_data f) (delivery_of dom f url fetched) (iq_dossier q)"
  obtain refused out w1 where run: "ingest_files ?ing class_name 0 [] files w = ((refused, out), w1)"
    by (cases "ingest_files ?ing class_name 0 [] files w") auto
  have k: "keeping H P (?ing f n)" for f n using keeping_one assms(1-3) by blast
  have r: "r = Inr \<lparr>is_status = (if refused then 503 else 200), is_total = (if refused then length files else length out),
      is_indexed = count_indexed out, is_results = out\<rparr>" "w' = w1"
    using assms(5) by (simp_all add: ingest_endpoint_def andthen_def Inr x run)
  obtain ws where ws: "length ws = Suc (length out)" "ws ! 0 = w"
      "\<forall>i<length out. file_outcome ?ing class_name i (files ! i) (ws ! i) (out ! i) (ws ! Suc i)"
      "if refused then length out < length files \<and> up_data (files ! length out) \<noteq> []
          \<and> ?ing (files ! length out) (length out) (ws ! length out) = (Inl OriginalsKeyUnavailable, w1)
        else length out = length files \<and> w1 = ws ! length out"
    using files_trace [OF run] by (auto simp only: append_Nil add_0)
  have "sound H P w1" using files_keep [OF k assms(4) run] by blast
  with ws show ?thesis unfolding r Inr x by (intro conjI) (auto simp: Let_def intro!: exI [of _ ws] split: if_splits)
qed

subsection \<open>Who may delete\<close>

text \<open>C5: Deleting is for the administrators. Where \<open>DELETE /documents/{id}\<close> answers, the caller, if callers are
  known, was on the list of issuers or the recipient of an active grant on the administrator's role that has not expired; the document is
  deleted, with its stored text, its pseudonyms with the mappings that no other document needs, its grants and its entry in the index, and its bytes
  have left the store unless another document claims them (its summary and its box map stay, as \<open>delete_document\<close> leaves them); the trail names the caller; and
  no other table, row or text has changed. A caller without that right gets a 403 and nothing at all has happened, and any other failure leaves the tables as they were.
  The register stays sound, and every other document keeps its state.\<close>

theorem deletion_guarded:
  assumes "digest64 H" and "sound H P w" and "delete_document_endpoint H now cfg caller doc w = (r, w')"
  shows "sound H P w' \<and> (\<forall>i. i \<noteq> doc \<longrightarrow> doc_state (w_db w') i = doc_state (w_db w) i)
    \<and> (let permitted = (\<not> ad_auth_enabled cfg \<or> truthy caller \<and> (the caller \<in> set (ad_issuer_labels cfg)
          \<or> caller_holds_role (grant_rows (w_db w)) now caller ADMIN))
       in case r of Inr c \<Rightarrow> permitted \<and> wiped w' doc \<and> content_gone (w_db w) doc (w_db w') \<and> others_kept (w_db w) doc (w_db w') \<and> frame_of (w_db w) doc (w_db w')
          \<and> (\<exists>d. document_by_id (w_db w) doc = Some d
               \<and> (\<not> store_has w' (dc_object_key d) \<or> object_claimed_elsewhere (w_db w) doc (dc_object_key d) = Inr True)
               \<and> on_trail doc (doc_state (w_db w) doc = Inr (Some DELETED)) (JObj ([(''actor'', JStr (actor_of caller))] @ counts_json c
                  @ (if doc_state (w_db w) doc = Inr (Some DELETED) then [] else [(''released_object_key'', JStr (dc_object_key d))]))) (audit (w_db w)) (audit (w_db w')))
        | Inl e \<Rightarrow> w_db w' = w_db w \<and> (\<not> permitted \<longrightarrow> e = HTTPException 403 \<and> w' = w))"
proof -
  define permitted where "permitted = (\<not> ad_auth_enabled cfg \<or> truthy caller \<and> (the caller \<in> set (ad_issuer_labels cfg)
          \<or> caller_holds_role (grant_rows (w_db w)) now caller ADMIN))"
  have guard: "guard_delete cfg now caller (w_db w) = (if permitted then Inr () else Inl (HTTPException 403))"
    by (auto simp: guard_delete_def authorize_delete_def permitted_def)
  have "sound H P w' \<and> (\<forall>i. i \<noteq> doc \<longrightarrow> doc_state (w_db w') i = doc_state (w_db w) i)
    \<and> (case r of Inr c \<Rightarrow> permitted \<and> wiped w' doc \<and> content_gone (w_db w) doc (w_db w') \<and> others_kept (w_db w) doc (w_db w') \<and> frame_of (w_db w) doc (w_db w')
          \<and> (\<exists>d. document_by_id (w_db w) doc = Some d
               \<and> (\<not> store_has w' (dc_object_key d) \<or> object_claimed_elsewhere (w_db w) doc (dc_object_key d) = Inr True)
               \<and> on_trail doc (doc_state (w_db w) doc = Inr (Some DELETED)) (JObj ([(''actor'', JStr (actor_of caller))] @ counts_json c
                  @ (if doc_state (w_db w) doc = Inr (Some DELETED) then [] else [(''released_object_key'', JStr (dc_object_key d))]))) (audit (w_db w)) (audit (w_db w')))
        | Inl e \<Rightarrow> w_db w' = w_db w \<and> (\<not> permitted \<longrightarrow> e = HTTPException 403 \<and> w' = w))"
  proof (cases permitted)
    case False
    then have "r = Inl (HTTPException 403)" "w' = w"
      using assms(3) by (simp_all add: delete_document_endpoint_def transaction_def andthen_def guard)
    then show ?thesis using assms(2) False by (simp add: Let_def)
  next
    case True
    then have run: "transaction (unknown_404 (delete_document H now doc (actor_of caller) False)) w = (r, w')"
      using assms(3) by (simp add: delete_document_endpoint_def transaction_def andthen_def guard)
    obtain r0 w1 where r0: "delete_document H now doc (actor_of caller) False w = (r0, w1)" by fastforce
    have t: "transaction (delete_document H now doc (actor_of caller) False) w = (r0, w')"
      using run r0 by (cases r0) (auto simp: transaction_def unknown_404_def handle_def)
    have s: "sound H P w'" by (rule sound_delete [OF assms(1,2) t])
    show ?thesis
    proof (cases r0)
      case (Inl e)
      then have "w_db w' = w_db w" "\<exists>e. r = Inl e" using run r0 by (auto simp: transaction_def unknown_404_def handle_def)
      then show ?thesis using s True by (auto simp: Let_def)
    next
      case (Inr c)
      then have r: "r = Inr c" "w' = w1" using run r0 by (auto simp: transaction_def unknown_404_def handle_def)
      have ok: "corpus_ok H (w_db w)" using assms(2) by (simp add: sound_def)
      note d = delete_document_kept [OF assms(1) ok r0 [unfolded Inr]] and t' = delete_transaction [OF assms(1) ok t [unfolded Inr]]
      have "doc_state (w_db w') i = doc_state (w_db w) i" if "i \<noteq> doc" for i using d that by (simp add: kept_def r(2))
      moreover have "wiped w' doc" using d r(2) by simp
      ultimately show ?thesis using s t' True unfolding r(1) sum.case by blast
    qed
  qed
  then show ?thesis unfolding Let_def permitted_def .
qed

subsection \<open>Concrete instances\<close>

text \<open>A first delivery to an empty register is taken all the way.\<close>

definition sample_parts :: parts where
  "sample_parts = \<lparr>pt_factory = Shared sample_ingest, pt_new_doc = ''a'', pt_new_dossier = ''s''\<rparr>"

lemma sample_serving: "serving tick_hash (anonymizer_output sample_ingest) (pt_factory sample_parts)"
proof -
  have "sample_ingest = deterministic_services sample_ingest (\<lambda>_ _ _ _. None) (\<lambda>_ _. Inl InvalidTag) sample_config (\<lambda>_. Inr [1])"
    by (simp add: sample_ingest_def sample_services_def deterministic_services_def)
  then have "wired sample_ingest" unfolding wired_def by blast
  then show ?thesis
    unfolding serving_def by (simp add: sample_parts_def make_anonymizer_def) blast
qed

lemma sample_register_step:
  assumes "register_live tick_hash sample_time ''a'' (\<lambda>x. x) empty_corpus dl = Inr (d, db)"
  shows "\<exists>r. doc_trail (audit db) ''a'' = [r] \<and> ar_step r = ''register'' \<and> dc_object_key d = dl_object_key dl"
proof -
  obtain db1 r where s: "insert_document empty_corpus d = Inr db1" "dc_object_key d = dl_object_key dl"
      "transition tick_hash sample_time db1 ''a'' REGISTERED ''register''
         (Some (register_payload (dl_domain dl) (dl_source_url dl) (dl_fetched_at dl) (dl_source_sha256 dl))) = Inr (r, db)"
    using assms by (auto simp: register_live_def register_document_def live_document_for_def empty_corpus_def result_simps Let_def split: sum.splits if_splits)
  have a: "audit db1 = audit empty_corpus" using s(1) by (auto simp: insert_document_def split: if_splits)
  have "current_state (audit empty_corpus) ''a'' = Inr None" by (simp add: empty_corpus_def current_state_def by_seq_def last_opt_def)
  then obtain r' where "append_record tick_hash sample_time (audit empty_corpus) ''a'' None ''registered'' ''register''
         (Some (register_payload (dl_domain dl) (dl_source_url dl) (dl_fetched_at dl) (dl_source_sha256 dl))) None = Inr (audit db, r')"
    using s(3) a by (auto simp: transition_def doc_state_def result_simps)
  then have "\<exists>r. doc_trail (audit db) ''a'' = [r] \<and> ar_step r = ''register''"
    by (rule append_recordE) (simp add: doc_trail_def empty_corpus_def)
  with s(2) show ?thesis by blast
qed

lemma sample_first:
  "\<exists>d w1. ingest sample_ingest ''a'' ''s'' (\<lambda>x. x) ''%PDF'' (sample_delivery []) None fresh_world = (Inr d, w1) \<and> dc_id d = ''a''
     \<and> sample_ready 1 (Some REGISTERED) w1 \<and> (\<exists>r. doc_trail (audit (w_db w1)) ''a'' = [r] \<and> ar_step r = ''register'')
     \<and> live_document_for (w_db w1) (''documents/'' @ tick_hash ''%PDF'') = Some d"
proof -
  obtain d db w1 where a: "register_live tick_hash sample_time ''a'' (\<lambda>x. x) empty_corpus (keyed_delivery sample_ingest ''%PDF'' (sample_delivery [])) = Inr (d, db)"
    "counted 1 (audit db)" "dc_id d = ''a''" "doc_state db ''a'' = Inr (Some REGISTERED)" "documents db = [d]" "live d"
    "sv_write sample_ingest (dc_id d) (original_key sample_ingest ''%PDF'') ''%PDF'' (fresh_world\<lparr>w_db := db\<rparr>) = (Inr WROTE, w1)" "w_db w1 = db" "w_faults w1 = []"
    "w_store w1 = Plain (object_put sample_time \<lparr>ob_data = [], ob_modified = []\<rparr> (original_key sample_ingest ''%PDF'') ''%PDF'')"
    using sample_arrival by blast
  have run: "ingest sample_ingest ''a'' ''s'' (\<lambda>x. x) ''%PDF'' (sample_delivery []) None fresh_world = (Inr d, w1)"
    using a(1,7) by (simp add: ingest_def andthen_def on_db_def handle_def file_under_def)
  have key: "dc_object_key d = original_key sample_ingest ''%PDF''" and tr: "\<exists>r. doc_trail (audit db) ''a'' = [r] \<and> ar_step r = ''register''"
    using sample_register_step [OF a(1)] by (auto simp: keyed_delivery_def)
  have "sound tick_hash (\<lambda>_. True) w1"
    using ingest_done [OF _ _ sample_ingest_simps(3) run, of "\<lambda>_. True"] sound_start [of fresh_world] by (simp add: fresh_world_def sample_world_def)
  then have ok: "corpus_ok tick_hash db" by (simp add: sound_def a(8))
  have "sample_ready 1 (Some REGISTERED) w1"
    using a(2-5,8-10) ok key by (auto simp: sample_ready_def object_put_def document_by_id_def)
  moreover have "live_document_for (w_db w1) (''documents/'' @ tick_hash ''%PDF'') = Some d"
    using a(5,6,8) key by (simp add: live_document_for_def live_def original_key_def)
  ultimately show ?thesis using run a(3,8) tr by blast
qed

lemma counts_read_back: "\<exists>kvs d. anonymize_payload sv r = JObj kvs
    \<and> int_counts (filter (\<lambda>(k, v). k \<notin> {''detections'', ''lists_hash'', ''text_source''}) kvs) = Inr d"
proof -
  have upd: "filter (\<lambda>(k, v). k \<notin> X) (dict_set k v d) = filter (\<lambda>(k, v). k \<notin> X) d" if "k \<in> X" for X k v and d :: "(string \<times> json) list"
    using that by (induction d) auto
  have ints: "\<exists>d. int_counts (filter P (counts_obj c)) = Inr d" for P c
    by (induction c) (auto simp: counts_obj_def)
  define X where "X = {''detections'', ''lists_hash'', ''text_source''}"
  have "''detections'' \<in> X" "''lists_hash'' \<in> X" "''text_source'' \<in> X" by (simp_all add: X_def)
  then show ?thesis
    unfolding anonymize_payload_def X_def [symmetric] by (simp add: upd ints)
qed

lemma sample_meta:
  assumes "corpus_ok H (w_db w)" and "doc_trail (audit (w_db w)) doc = [g, p, e, a, i]"
    and "map ar_step [g, p, e, a, i] = [''register'', ''profile'', ''extract'', ''anonymize'', ''index'']"
    and "ar_payload a = anonymize_payload sample_services r"
  shows "\<exists>m. meta_or_state round1 doc s w = (Inr m, w)"
proof -
  have rows: "by_seq (filter (\<lambda>r. ar_document_id r = doc) (trail (audit (w_db w)))) = [g, p, e, a, i]"
    using assms(1,2) by_seq_filter_wf [of "audit (w_db w)" "\<lambda>r. ar_document_id r = doc"]
    by (simp add: corpus_ok_def trail_ok_def doc_trail_def del: by_seq_filter_wf)
  from counts_read_back [of sample_services r] obtain kvs d where "anonymize_payload sample_services r = JObj kvs"
    "int_counts (filter (\<lambda>(k, v). k \<notin> {''detections'', ''lists_hash'', ''text_source''}) kvs) = Inr d" by blast
  then show ?thesis
    using assms(3,4) rows by (simp add: meta_or_state_def document_meta_of_def first_payload_def fields_of_def Let_def andthen_def on_db_def)
qed

text \<open>The register after that, and again with an index that was made anew.\<close>

lemma sample_taken:
  "\<exists>m w'. ingest_one tick_hash sample_time round1 ret sample_parts ''%PDF'' (sample_delivery []) None fresh_world = (Inr m, w') \<and> om_state m = ''indexed''
     \<and> sample_ready 5 (Some INDEXED) w' \<and> (\<exists>g p e a i r. doc_trail (audit (w_db w')) ''a'' = [g, p, e, a, i]
     \<and> map ar_step [g, p, e, a, i] = [''register'', ''profile'', ''extract'', ''anonymize'', ''index''] \<and> ar_payload a = anonymize_payload sample_services r)
     \<and> (\<exists>d. dc_id d = ''a'' \<and> live_document_for (w_db w') (''documents/'' @ tick_hash ''%PDF'') = Some d)"
proof -
  obtain d w1 g where i: "ingest sample_ingest ''a'' ''s'' (\<lambda>x. x) ''%PDF'' (sample_delivery []) None fresh_world = (Inr d, w1)" "dc_id d = ''a''"
    "sample_ready 1 (Some REGISTERED) w1" "doc_trail (audit (w_db w1)) ''a'' = [g]" "ar_step g = ''register''"
    "live_document_for (w_db w1) (''documents/'' @ tick_hash ''%PDF'') = Some d" using sample_first by blast
  obtain w2 p e a x r where p: "process sample_services ''a'' w1 = (Inr (Some INDEXED), w2)" "sample_ready (1 + 4) (Some INDEXED) w2"
    "doc_trail (audit (w_db w2)) ''a'' = doc_trail (audit (w_db w1)) ''a'' @ [p, e, a, x]"
    "map ar_step [p, e, a, x] = [''profile'', ''extract'', ''anonymize'', ''index'']" "ar_payload a = anonymize_payload sample_services r"
    using sample_run [OF i(3)] by auto
  have p1: "process sample_ingest ''a'' w1 = (Inr (Some INDEXED), w2)" using p(1) by (simp add: sample_ingest_def process_writer)
  have ok: "corpus_ok tick_hash (w_db w2)" and st: "doc_state (w_db w2) ''a'' = Inr (Some INDEXED)" using p(2) by (simp_all add: sample_ready_def)
  obtain m where m: "meta_or_state round1 ''a'' (Some INDEXED) w2 = (Inr m, w2)"
    using sample_meta [OF ok, of "''a''" g p e a x r round1 "Some INDEXED"] p(3-5) i(4,5) by auto
  have "has_object_key (w_index fresh_world) k = False" for k by (simp add: fresh_world_def empty_index_def has_object_key_def)
  then have "on_index (\<lambda>ix. (has_object_key ix (''documents/'' @ tick_hash ''%PDF''), ix)) fresh_world = (Inr False, fresh_world)"
    by (simp add: on_index_def external_def)
  then have run: "ingest_one tick_hash sample_time round1 ret sample_parts ''%PDF'' (sample_delivery []) None fresh_world = (Inr m, w2)"
    using i(1,2) p1 m by (simp add: ingest_one_def ingest_new_def andthen_def sample_parts_def make_anonymizer_def transaction_def)
  have "om_state m = ''indexed''" using meta_says [OF m] st by simp
  moreover have "live_document_for (w_db w2) (''documents/'' @ tick_hash ''%PDF'') = Some d"
  proof -
    have sv: "sv_hash sample_ingest = tick_hash" "wired sample_ingest" "\<forall>t. anonymizer_output sample_ingest t \<longrightarrow> True"
      using sample_serving by (auto simp: serving_def sample_parts_def make_anonymizer_def)
    have "sound tick_hash (\<lambda>_. True) w1"
      using ingest_done [OF _ _ sample_ingest_simps(3) i(1), of "\<lambda>_. True"] sound_start [of fresh_world] by (simp add: fresh_world_def sample_world_def)
    from process_done [OF digest_tick sv this] p1 have "others_same ''a'' w1 w2" by (simp add: transaction_Inr)
    then show ?thesis using i(6) by (simp add: others_same_def live_document_for_def)
  qed
  ultimately show ?thesis using run p(2-5) i(2,4,5) by auto
qed

lemma sample_taken_sound:
  assumes "ingest_one tick_hash sample_time round1 ret sample_parts data dl dossier w = (r, w')" and "sound tick_hash (anonymizer_output sample_ingest) w"
  shows "sound tick_hash (anonymizer_output sample_ingest) w'"
  by (rule keeping_run [OF keeping_one [OF digest_tick sample_serving aside_ret] assms(2,1)])

lemma sound_fresh: "sound H P fresh_world"
  by (rule sound_start) (simp_all add: fresh_world_def sample_world_def)

lemma ingest_answer_true_witness:
  "\<exists>(m :: one_meta) (w' :: world). ingest_one tick_hash sample_time (\<lambda>x. x) ret sample_parts ''%PDF'' (sample_delivery []) None fresh_world = (Inr m, w')
     \<and> om_state m = ''indexed'' \<and> indexed_true (om_document_id m) w'"
proof -
  obtain m w' where run: "ingest_one tick_hash sample_time (\<lambda>x. x) ret sample_parts ''%PDF'' (sample_delivery []) None fresh_world = (Inr m, w')"
    "om_state m = ''indexed''" using sample_taken [of "\<lambda>x. x"] by blast
  have "doc_state (w_db fresh_world) i \<noteq> Inr (Some INDEXED)" for i
    by (simp add: fresh_world_def sample_world_def empty_corpus_def doc_state_def current_state_def by_seq_def last_opt_def)
  with ingest_answer_true [OF digest_tick sample_serving _ sound_fresh run(1)] run show ?thesis by (auto simp: aside_ret)
qed

lemma sample_redelivered:
  assumes "sample_ready k (Some INDEXED) w" and "sound tick_hash P w" and "w_index w = empty_index"
    and "dc_id d = ''a''" and "live_document_for (w_db w) (''documents/'' @ tick_hash ''%PDF'') = Some d"
    and "doc_trail (audit (w_db w)) ''a'' = [g, p, e, a, i]"
    and "map ar_step [g, p, e, a, i] = [''register'', ''profile'', ''extract'', ''anonymize'', ''index'']"
    and "ar_payload a = anonymize_payload sample_services r"
  shows "\<exists>m w'. ingest_one tick_hash sample_time (\<lambda>x. x) ret sample_parts ''%PDF'' (sample_delivery []) None w = (Inr m, w')"
proof -
  obtain key mm where s: "w_faults w = []" "w_store w = Plain \<lparr>ob_data = [(key, ''%PDF'')], ob_modified = mm\<rparr>"
    "doc_state (w_db w) ''a'' = Inr (Some INDEXED)" "corpus_ok tick_hash (w_db w)"
    using assms(1) by (auto simp: sample_ready_def)
  have "original_key sample_ingest ''%PDF'' = ''documents/'' @ tick_hash ''%PDF''" by (simp add: original_key_def)
  then obtain x w1 where "sv_write sample_ingest ''a'' (original_key sample_ingest ''%PDF'') ''%PDF'' w = (Inr x, w1)" and w1: "w_db w1 = w_db w"
    using s(1,2) by (simp add: writing_original_def peeking_def store_exists_def andthen_def on_store_def external_def write_original_def sample_config_def)
  with assms(4,5) have i: "ingest sample_ingest ''a'' ''s'' (\<lambda>x. x) ''%PDF'' (sample_delivery []) None w = (Inr d, w1)"
    by (simp add: ingest_def andthen_def on_db_def handle_def file_under_def register_live_def keyed_delivery_def original_key_def)
  have "process sample_ingest ''a'' w1 = (Inr (Some INDEXED), w1)"
    using s(3) w1 by (simp add: process_def lookup_def on_db_def andthen_def)
  moreover obtain m where "meta_or_state (\<lambda>x. x) ''a'' (Some INDEXED) w1 = (Inr m, w1)"
    using sample_meta [of tick_hash w1 "''a''" g p e a i r "\<lambda>x. x" "Some INDEXED"] assms(6-8) s(4) w1 by auto
  moreover have "on_index (\<lambda>ix. (has_object_key ix (''documents/'' @ tick_hash ''%PDF''), ix)) w = (Inr False, w)"
    using s(1) assms(3) by (simp add: on_index_def external_def empty_index_def has_object_key_def)
  ultimately show ?thesis
    using i assms(4) by (simp add: ingest_one_def ingest_new_def andthen_def sample_parts_def make_anonymizer_def transaction_def)
qed

lemma recreated_index_not_refilled_witness:
  "\<exists>(w :: world) (m :: one_meta) (w' :: world). ingest_one tick_hash sample_time (\<lambda>x. x) ret sample_parts ''%PDF'' (sample_delivery []) None w = (Inr m, w')
     \<and> om_state m = ''indexed'' \<and> \<not> has_object_key (w_index w') (''documents/'' @ tick_hash ''%PDF'')"
proof -
  obtain m w1 d g p e a i r where run: "ingest_one tick_hash sample_time (\<lambda>x. x) ret sample_parts ''%PDF'' (sample_delivery []) None fresh_world = (Inr m, w1)"
    and r: "sample_ready 5 (Some INDEXED) w1" and t: "doc_trail (audit (w_db w1)) ''a'' = [g, p, e, a, i]"
     "map ar_step [g, p, e, a, i] = [''register'', ''profile'', ''extract'', ''anonymize'', ''index'']" "ar_payload a = anonymize_payload sample_services r"
    and d: "dc_id d = ''a''" "live_document_for (w_db w1) (''documents/'' @ tick_hash ''%PDF'') = Some d" using sample_taken [of "\<lambda>x. x"] by (elim exE conjE)
  let ?w = "w1\<lparr>w_index := empty_index\<rparr>" and ?P = "anonymizer_output sample_ingest"
  have s: "sound tick_hash ?P ?w"
    using sample_taken_sound [OF run sound_fresh] by (simp add: sound_def wiped_def index_exists_def empty_index_def index_ok_def)
  have r': "sample_ready 5 (Some INDEXED) ?w" "doc_state (w_db ?w) (dc_id d) = Inr (Some INDEXED)" "w_index ?w = empty_index"
    using r d(1) by (simp_all add: sample_ready_def)
  have l: "live_document_for (w_db ?w) (''documents/'' @ tick_hash ''%PDF'') = Some d" "doc_trail (audit (w_db ?w)) ''a'' = [g, p, e, a, i]"
    using d(2) t(1) by simp_all
  have n: "\<not> has_object_key (w_index ?w) (''documents/'' @ tick_hash ''%PDF'')" by (simp add: has_object_key_def empty_index_def)
  obtain m2 w2 where again: "ingest_one tick_hash sample_time (\<lambda>x. x) ret sample_parts ''%PDF'' (sample_delivery []) None ?w = (Inr m2, w2)"
    using sample_redelivered [OF r'(1) s r'(3) d(1) l t(2,3)] by blast
  from recreated_index_not_refilled [OF digest_tick sample_serving s l(1) r'(2) n again] again show ?thesis by blast
qed

definition sample_files :: "upload list" where
  "sample_files = [\<lparr>up_filename = Some ''leeg.pdf'', up_data = []\<rparr>, \<lparr>up_filename = Some ''brief.pdf'', up_data = ''%PDF''\<rparr>]"

definition sample_query :: ingest_query where
  "sample_query = \<lparr>iq_domain = None, iq_dossier = Some ''zaak'', iq_source_url = None, iq_fetched_at = None\<rparr>"

lemma ingest_batch_accounts_witness:
  "\<exists>(a :: ingest_response) (w' :: world). ingest_endpoint tick_hash sample_time (\<lambda>x. x) (\<lambda>_. ''E'') (\<lambda>_. Inr ()) ret (\<lambda>_. sample_parts) DEFAULT_DOMAIN sample_query
       sample_files fresh_world = (Inr a, w') \<and> is_total a = 2 \<and> sound tick_hash (anonymizer_output sample_ingest) w'"
proof -
  have q: "checked_query (\<lambda>_. Inr ()) DEFAULT_DOMAIN sample_query = Inr (DEFAULT_DOMAIN, None, None)" by code_simp
  obtain r w' where run: "ingest_endpoint tick_hash sample_time (\<lambda>x. x) (\<lambda>_. ''E'') (\<lambda>_. Inr ()) ret (\<lambda>_. sample_parts) DEFAULT_DOMAIN sample_query
       sample_files fresh_world = (r, w')" by fastforce
  have "\<exists>a. r = Inr a" using run by (auto simp: ingest_endpoint_def andthen_def q split: prod.splits)
  with ingest_batch_accounts [OF digest_tick _ _ sound_fresh run, of "anonymizer_output sample_ingest"] run sample_serving show ?thesis
    by (auto simp: aside_ret sample_files_def)
qed

lemma deletion_guarded_witness:
  "\<exists>(w :: world) (c :: deletion_counts) (w' :: world). delete_document_endpoint tick_hash sample_time (open_admin\<lparr>ad_issuer_labels := [''me'']\<rparr>) (Some ''me'') ''a'' w = (Inr c, w')
     \<and> index_exists (w_index w) ''a'' \<and> wiped w' ''a''"
proof -
  let ?cfg = "open_admin\<lparr>ad_issuer_labels := [''me'']\<rparr>"
  obtain db where db: "sample_corpus db" using sample_corpus_exists by blast
  let ?w = "sample_world (db\<lparr>summary_rows := []\<rparr>)"
  obtain c w' where run: "transaction (delete_document tick_hash sample_time ''a'' ''me'' False) ?w = (Inr c, w')" using sample_deletion [OF db] by blast
  have "guard_delete ?cfg sample_time (Some ''me'') d = Inr ()" for d
    by (simp add: guard_delete_def authorize_delete_def open_admin_def)
  then have e: "delete_document_endpoint tick_hash sample_time ?cfg (Some ''me'') ''a'' ?w = (Inr c, w')"
    using run by (simp add: delete_document_endpoint_def transaction_def andthen_def unknown_404_def handle_def actor_of_def split: prod.splits sum.splits)
  have ix: "index_exists (w_index ?w) ''a''" by (simp add: sample_world_def sample_index_def index_exists_def)
  have "sound tick_hash (\<lambda>_. True) ?w"
    using sample_summary_ok [OF db, of "[]"] db
    by (simp add: sound_def sample_corpus_def sample_world_def texts_ok_def index_ok_def doc_state_def)
  from deletion_guarded [OF digest_tick this e] e ix show ?thesis by (auto simp: Let_def)
qed

end
