(* ===== verification/Csv.thy ===== *)
theory Csv
  imports PyString
begin

text \<open>
  Python's \<open>csv\<close> as \<open>datasets.py\<close> and \<open>api.py\<close> use it: the reader and the writer of the default dialect, with \<open>DictReader\<close> and
  \<open>DictWriter\<close>. The reader is the state machine of the library, run over the lines of the text; \<open>None\<close> is the end of a line.
\<close>

subsection \<open>Reading\<close>

datatype csv_state = START_RECORD | START_FIELD | IN_FIELD | IN_QUOTED_FIELD | QUOTE_IN_QUOTED_FIELD | EAT_CRNL

definition field_size_limit :: nat where
  "field_size_limit = 131072"

abbreviation newline :: char where
  "newline \<equiv> CHR 0x0A"

abbreviation quote :: char where
  "quote \<equiv> CHR 0x22"

definition line_end :: "char \<Rightarrow> bool" where
  "line_end c = (c = newline \<or> c = CHR 0x0D)"

fun csv_tokens :: "string \<Rightarrow> char option list" where
  "csv_tokens [] = []"
| "csv_tokens (c # cs) = Some c # (if c = newline \<or> cs = [] then [None] else []) @ csv_tokens cs"

text \<open>What one character does: the new state, the field so far, the fields before it.\<close>

type_synonym csv_run = "csv_state \<times> string \<times> string list"

definition add_char :: "csv_state \<Rightarrow> char \<Rightarrow> string \<Rightarrow> string list \<Rightarrow> csv_run result" where
  "add_char st c f fs = (if field_size_limit \<le> length f then Inl CsvError else Inr (st, f @ [c], fs))"

definition save_field :: "csv_state \<Rightarrow> string \<Rightarrow> string list \<Rightarrow> csv_run result" where
  "save_field st f fs = Inr (st, [], fs @ [f])"

definition start_field :: "char \<Rightarrow> string \<Rightarrow> string list \<Rightarrow> csv_run result" where
  "start_field c f fs =
     (if line_end c then save_field EAT_CRNL f fs
      else if c = quote then Inr (IN_QUOTED_FIELD, f, fs)
      else if c = CHR '','' then save_field START_FIELD f fs
      else add_char IN_FIELD c f fs)"

fun csv_char :: "csv_state \<Rightarrow> char \<Rightarrow> string \<Rightarrow> string list \<Rightarrow> csv_run result" where
  "csv_char START_RECORD c f fs = (if line_end c then Inr (EAT_CRNL, f, fs) else start_field c f fs)"
| "csv_char START_FIELD c f fs = start_field c f fs"
| "csv_char IN_FIELD c f fs =
     (if line_end c then save_field EAT_CRNL f fs else if c = CHR '','' then save_field START_FIELD f fs else add_char IN_FIELD c f fs)"
| "csv_char IN_QUOTED_FIELD c f fs = (if c = quote then Inr (QUOTE_IN_QUOTED_FIELD, f, fs) else add_char IN_QUOTED_FIELD c f fs)"
| "csv_char QUOTE_IN_QUOTED_FIELD c f fs =
     (if c = quote then add_char IN_QUOTED_FIELD c f fs
      else if c = CHR '','' then save_field START_FIELD f fs
      else if line_end c then save_field EAT_CRNL f fs
      else add_char IN_FIELD c f fs)"
| "csv_char EAT_CRNL c f fs = (if line_end c then Inr (EAT_CRNL, f, fs) else Inl CsvError)"

fun csv_end :: "csv_state \<Rightarrow> string \<Rightarrow> string list \<Rightarrow> csv_run" where
  "csv_end START_RECORD f fs = (START_RECORD, f, fs)"
| "csv_end IN_QUOTED_FIELD f fs = (IN_QUOTED_FIELD, f, fs)"
| "csv_end EAT_CRNL f fs = (START_RECORD, f, fs)"
| "csv_end st f fs = (START_RECORD, [], fs @ [f])"

fun csv_rows :: "csv_state \<Rightarrow> string \<Rightarrow> string list \<Rightarrow> char option list \<Rightarrow> string list list result" where
  "csv_rows st f fs [] = Inr (if f \<noteq> [] \<or> st = IN_QUOTED_FIELD then [fs @ [f]] else [])"
| "csv_rows st f fs (Some c # ts) = rbind (csv_char st c f fs) (\<lambda>(st, f, fs). csv_rows st f fs ts)"
| "csv_rows st f fs (None # ts) =
     (case csv_end st f fs of
        (START_RECORD, f, fs) \<Rightarrow> rbind (csv_rows START_RECORD [] [] ts) (\<lambda>rows. Inr (fs # rows))
      | (st, f, fs) \<Rightarrow> csv_rows st f fs ts)"

definition csv_reader :: "string \<Rightarrow> string list list result" where
  "csv_reader s = csv_rows START_RECORD [] [] (csv_tokens s)"

text \<open>A row as a dictionary; the cells beyond the header are kept apart.\<close>

record dict_row =
  dr_cells :: "(string, string option) dict"
  dr_rest :: "string list option"

definition dict_row :: "string list \<Rightarrow> string list \<Rightarrow> dict_row" where
  "dict_row names row =
     (let d = foldl (\<lambda>d (k, v). dict_set k (Some v) d) [] (zip names row)
      in \<lparr>dr_cells = foldl (\<lambda>d k. dict_set k None d) d (drop (length row) names),
          dr_rest = (if length names < length row then Some (drop (length names) row) else None)\<rparr>)"

definition dict_reader :: "string \<Rightarrow> dict_row list result" where
  "dict_reader s = rbind (csv_reader s) (\<lambda>rows. case rows of
     [] \<Rightarrow> Inr []
   | names # rows \<Rightarrow> Inr (map (dict_row names) (filter (\<lambda>r. r \<noteq> []) rows)))"

subsection \<open>Writing\<close>

definition special :: "char \<Rightarrow> bool" where
  "special c = (c = CHR '','' \<or> c = quote \<or> line_end c)"

fun double_quotes :: "string \<Rightarrow> string" where
  "double_quotes [] = []"
| "double_quotes (c # cs) = (if c = quote then [quote, quote] else [c]) @ double_quotes cs"

definition csv_field :: "string \<Rightarrow> string" where
  "csv_field f = (if list_ex special f then quote # double_quotes f @ [quote] else f)"

definition csv_record :: "string \<Rightarrow> string list \<Rightarrow> string" where
  "csv_record terminator fs = (if fs = [[]] then [quote, quote] else join '','' (map csv_field fs)) @ terminator"

definition csv_writer :: "string \<Rightarrow> string list list \<Rightarrow> string" where
  "csv_writer terminator rows = concat (map (csv_record terminator) rows)"

text \<open>\<open>None\<close> is written as the empty text; a key that is not a field of the writer is an error.\<close>

definition dict_to_list :: "string list \<Rightarrow> (string, string option) dict \<Rightarrow> string list result" where
  "dict_to_list names row =
     (if list_ex (\<lambda>(k, v). k \<notin> set names) row then Inl ValueError
      else Inr (map (\<lambda>k. case dict_get row k of Some (Some v) \<Rightarrow> v | _ \<Rightarrow> []) names))"

definition dict_writer :: "string \<Rightarrow> string list \<Rightarrow> (string, string option) dict list \<Rightarrow> string result" where
  "dict_writer terminator names rows =
     rbind (rmap (dict_to_list names) rows) (\<lambda>rows. Inr (csv_writer terminator (names # rows)))"

subsection \<open>Reading back what was written\<close>

lemma special_simps: "special c \<longleftrightarrow> c = CHR '','' \<or> c = quote \<or> c = newline \<or> c = CHR 0x0D"
  by (simp add: special_def line_end_def)

lemma step_some:
  "s \<noteq> [] \<Longrightarrow> c \<noteq> newline \<Longrightarrow> csv_rows st f fs (csv_tokens (c # s)) = rbind (csv_char st c f fs) (\<lambda>(st, f, fs). csv_rows st f fs (csv_tokens s))"
  by simp

lemma read_plain:
  assumes "\<not> list_ex special g" and "s \<noteq> []" and "length f + length g \<le> field_size_limit"
  shows "csv_rows IN_FIELD f fs (csv_tokens (g @ s)) = csv_rows IN_FIELD (f @ g) fs (csv_tokens s)"
  using assms by (induction g arbitrary: f) (auto simp: special_simps add_char_def line_end_def)

lemma read_quoted:
  assumes "s \<noteq> []" and "length f + length g \<le> field_size_limit"
  shows "csv_rows IN_QUOTED_FIELD f fs (csv_tokens (double_quotes g @ quote # s)) = csv_rows QUOTE_IN_QUOTED_FIELD (f @ g) fs (csv_tokens s)"
  using assms by (induction g arbitrary: f) (auto simp: add_char_def)

text \<open>A field followed by a comma, and by the end of the line.\<close>

definition fresh_state :: "csv_state \<Rightarrow> string list \<Rightarrow> bool" where
  "fresh_state st fs = (st = START_FIELD \<or> st = START_RECORD \<and> fs = [])"

lemma read_field:
  assumes "fresh_state st fs" and "length g \<le> field_size_limit" and "s \<noteq> []"
  shows "csv_rows st [] fs (csv_tokens (csv_field g @ CHR '','' # s)) = csv_rows START_FIELD [] (fs @ [g]) (csv_tokens s)"
proof (cases "list_ex special g")
  case True
  have "csv_rows st [] fs (csv_tokens (csv_field g @ CHR '','' # s)) = csv_rows IN_QUOTED_FIELD [] fs (csv_tokens (double_quotes g @ quote # CHR '','' # s))"
    using True assms(1) by (auto simp: csv_field_def fresh_state_def start_field_def line_end_def)
  also have "\<dots> = csv_rows QUOTE_IN_QUOTED_FIELD g fs (csv_tokens (CHR '','' # s))"
    using read_quoted [of "CHR '','' # s" "[]" g fs] assms(2) by simp
  finally show ?thesis using assms(3) by (simp add: save_field_def)
next
  case False
  show ?thesis
  proof (cases g)
    case Nil
    then show ?thesis using assms(1,3) by (auto simp: csv_field_def fresh_state_def start_field_def line_end_def save_field_def)
  next
    case (Cons c g')
    have c: "\<not> special c" "\<not> list_ex special g'" using False Cons by simp_all
    have "csv_rows st [] fs (csv_tokens (csv_field g @ CHR '','' # s)) = csv_rows IN_FIELD [c] fs (csv_tokens (g' @ CHR '','' # s))"
      using c assms(1,2) Cons False by (auto simp: csv_field_def fresh_state_def start_field_def special_simps line_end_def add_char_def field_size_limit_def)
    also have "\<dots> = csv_rows IN_FIELD g fs (csv_tokens (CHR '','' # s))"
      using read_plain [OF c(2), of "CHR '','' # s" "[c]" fs] assms(2) Cons by simp
    finally show ?thesis using assms(3) by (simp add: save_field_def line_end_def)
  qed
qed

lemma read_last:
  assumes "fresh_state st fs" and "length g \<le> field_size_limit" and "g = [] \<longrightarrow> fs \<noteq> []"
  shows "csv_rows st [] fs (csv_tokens (csv_field g @ newline # s)) = rbind (csv_rows START_RECORD [] [] (csv_tokens s)) (\<lambda>rows. Inr ((fs @ [g]) # rows))"
proof (cases "list_ex special g")
  case True
  have "csv_rows st [] fs (csv_tokens (csv_field g @ newline # s)) = csv_rows IN_QUOTED_FIELD [] fs (csv_tokens (double_quotes g @ quote # newline # s))"
    using True assms(1) by (auto simp: csv_field_def fresh_state_def start_field_def line_end_def)
  also have "\<dots> = csv_rows QUOTE_IN_QUOTED_FIELD g fs (csv_tokens (newline # s))"
    using read_quoted [of "newline # s" "[]" g fs] assms(2) by simp
  finally show ?thesis by (simp add: save_field_def line_end_def)
next
  case False
  show ?thesis
  proof (cases g)
    case Nil
    then have "st = START_FIELD" using assms(1,3) by (simp add: fresh_state_def)
    then show ?thesis using Nil by (simp add: csv_field_def start_field_def line_end_def save_field_def)
  next
    case (Cons c g')
    have c: "\<not> special c" "\<not> list_ex special g'" using False Cons by simp_all
    have "csv_rows st [] fs (csv_tokens (csv_field g @ newline # s)) = csv_rows IN_FIELD [c] fs (csv_tokens (g' @ newline # s))"
      using c assms(1,2) Cons False by (auto simp: csv_field_def fresh_state_def start_field_def special_simps line_end_def add_char_def field_size_limit_def)
    also have "\<dots> = csv_rows IN_FIELD g fs (csv_tokens (newline # s))"
      using read_plain [OF c(2), of "newline # s" "[c]" fs] assms(2) Cons by simp
    finally show ?thesis by (simp add: save_field_def line_end_def)
  qed
qed

definition short_cells :: "string list \<Rightarrow> bool" where
  "short_cells fs = (fs \<noteq> [] \<and> list_all (\<lambda>f. length f \<le> field_size_limit) fs)"

lemma read_record:
  assumes "short_cells gs" and "gs = [[]] \<longrightarrow> fs \<noteq> []" and "fresh_state st fs"
  shows "csv_rows st [] fs (csv_tokens (join '','' (map csv_field gs) @ newline # s))
    = rbind (csv_rows START_RECORD [] [] (csv_tokens s)) (\<lambda>rows. Inr ((fs @ gs) # rows))"
  using assms
proof (induction gs arbitrary: fs st)
  case Nil
  then show ?case by (simp add: short_cells_def)
next
  case (Cons g gs)
  show ?case
  proof (cases gs)
    case Nil
    then show ?thesis using read_last [of st fs g s] Cons.prems by (simp add: short_cells_def)
  next
    case (Cons h hs)
    have "join '','' (map csv_field (g # gs)) @ newline # s = csv_field g @ CHR '','' # (join '','' (map csv_field gs) @ newline # s)"
      by (simp add: Cons)
    moreover have "fresh_state START_FIELD (fs @ [g])" "short_cells gs" using Cons.prems Cons by (auto simp: fresh_state_def short_cells_def)
    ultimately show ?thesis using read_field [of st fs g "join '','' (map csv_field gs) @ newline # s"] Cons.prems Cons.IH [of "fs @ [g]" START_FIELD]
      by (simp add: short_cells_def)
  qed
qed

lemma csv_roundtrip:
  assumes "list_all short_cells rows"
  shows "csv_reader (csv_writer [newline] rows) = Inr rows"
proof -
  have one: "csv_rows START_RECORD [] [] (csv_tokens (csv_record [newline] gs @ s)) = rbind (csv_rows START_RECORD [] [] (csv_tokens s)) (\<lambda>rows. Inr (gs # rows))"
    if "short_cells gs" for gs s
  proof (cases "gs = [[]]")
    case True
    then show ?thesis by (simp add: csv_record_def start_field_def line_end_def save_field_def)
  next
    case False
    then show ?thesis using read_record [OF that, of "[]" START_RECORD s] by (simp add: csv_record_def fresh_state_def)
  qed
  show ?thesis
    using assms unfolding csv_reader_def csv_writer_def by (induction rows) (simp_all add: one del: csv_tokens.simps(2))
qed

text \<open>The rows of one text have the same keys, and cells within the limit; written and read again they are what they were.\<close>

definition in_limit :: "string list \<Rightarrow> bool" where
  "in_limit fs = list_all (\<lambda>f. length f \<le> field_size_limit) fs"

lemma in_limit_simps [simp]: "in_limit []" "in_limit (fs @ gs) \<longleftrightarrow> in_limit fs \<and> in_limit gs" "in_limit (f # fs) \<longleftrightarrow> length f \<le> field_size_limit \<and> in_limit fs"
  by (auto simp: in_limit_def)

lemma start_field_limit:
  "start_field c f fs = Inr (st', f', fs') \<Longrightarrow> length f \<le> field_size_limit \<Longrightarrow> in_limit fs \<Longrightarrow> length f' \<le> field_size_limit \<and> in_limit fs'"
  by (auto simp: start_field_def save_field_def add_char_def split: if_splits)

lemma csv_char_limit:
  assumes "csv_char st c f fs = Inr (st', f', fs')" and "length f \<le> field_size_limit" and "in_limit fs"
  shows "length f' \<le> field_size_limit \<and> in_limit fs'"
  using assms by (cases st) (auto simp: save_field_def add_char_def split: if_splits dest: start_field_limit)

lemma csv_end_limit:
  "csv_end st f fs = (st', f', fs') \<Longrightarrow> length f \<le> field_size_limit \<Longrightarrow> in_limit fs \<Longrightarrow> length f' \<le> field_size_limit \<and> in_limit fs'"
  by (cases st) auto

lemma csv_rows_limit:
  "csv_rows st f fs ts = Inr rows \<Longrightarrow> length f \<le> field_size_limit \<Longrightarrow> in_limit fs \<Longrightarrow> list_all in_limit rows"
proof (induction st f fs ts arbitrary: rows rule: csv_rows.induct)
  case (1 st f fs)
  then show ?case by (auto split: if_splits)
next
  case (2 st f fs c ts)
  obtain st' f' fs' where s: "csv_char st c f fs = Inr (st', f', fs')" using "2.prems"(1) by (cases "csv_char st c f fs") auto
  from csv_char_limit [OF s "2.prems"(2,3)] show ?case using "2.IH" "2.prems"(1) s by simp
next
  case (3 st f fs ts)
  obtain st' f' fs' where e: "csv_end st f fs = (st', f', fs')" by (cases "csv_end st f fs")
  note l = csv_end_limit [OF e "3.prems"(2,3)]
  show ?case
  proof (cases "st' = START_RECORD")
    case True
    then obtain out where "csv_rows START_RECORD [] [] ts = Inr out" "rows = fs' # out" using "3.prems"(1) e by (auto simp: result_simps)
    then show ?thesis using "3.IH"(1) [OF e [symmetric] True refl] l by simp
  next
    case False
    then show ?thesis using "3.IH"(2-) "3.prems"(1) e l by (cases st') auto
  qed
qed

definition keys_of :: "string list \<Rightarrow> string list" where
  "keys_of names = foldl (\<lambda>ks k. if k \<in> set ks then ks else ks @ [k]) [] names"

lemma keys_insert: "map fst (foldl (\<lambda>d (k, v). dict_set k (f v) d) d xs) = foldl (\<lambda>ks k. if k \<in> set ks then ks else ks @ [k]) (map fst d) (map fst xs)"
proof (induction xs arbitrary: d)
  case (Cons x xs)
  have "map fst (dict_set (fst x) (f (snd x)) d) = (if fst x \<in> set (map fst d) then map fst d else map fst d @ [fst x])"
    by (induction d) auto
  then show ?case using Cons by (cases x) simp
qed simp

lemma keys_fill: "map fst (foldl (\<lambda>d k. dict_set k v d) d ks) = foldl (\<lambda>ks k. if k \<in> set ks then ks else ks @ [k]) (map fst d) ks"
  using keys_insert [of "\<lambda>_. v" d "map (\<lambda>k. (k, ())) ks"] by (simp add: foldl_map comp_def)

lemma keys_of_set: "set (foldl (\<lambda>ks k. if k \<in> set ks then ks else ks @ [k]) ks names) = set ks \<union> set names"
    "distinct ks \<Longrightarrow> distinct (foldl (\<lambda>ks k. if k \<in> set ks then ks else ks @ [k]) ks names)"
  by (induction names arbitrary: ks) auto

lemma keys_of_simps: "set (keys_of names) = set names" "distinct (keys_of names)"
  using keys_of_set [of "[]" names] by (simp_all add: keys_of_def)

lemma keys_of_distinct: "distinct (ks @ names) \<Longrightarrow> foldl (\<lambda>ks k. if k \<in> set ks then ks else ks @ [k]) ks names = ks @ names"
  by (induction names arbitrary: ks) auto

lemma dict_row_keys:
  assumes "dr_rest (dict_row names row) = None"
  shows "map fst (dr_cells (dict_row names row)) = keys_of names"
proof -
  have le: "length row \<le> length names" using assms by (simp add: dict_row_def Let_def split: if_splits)
  then have "map fst (zip names row) = take (length row) names" by (simp add: map_fst_zip_take)
  then have "map fst (dr_cells (dict_row names row))
      = foldl (\<lambda>ks k. if k \<in> set ks then ks else ks @ [k]) [] (take (length row) names @ drop (length row) names)"
    by (simp add: dict_row_def Let_def keys_fill keys_insert [of Some] foldl_append del: append_take_drop_id)
  then show ?thesis by (simp add: keys_of_def)
qed

lemma insert_new: "distinct (map fst d @ map fst xs) \<Longrightarrow> foldl (\<lambda>d (k, v). dict_set k (Some v) d) d xs = d @ map (\<lambda>(k, v). (k, Some v)) xs"
proof (induction xs arbitrary: d)
  case (Cons x xs)
  then show ?case by (cases x) (auto simp: dict_set_new)
qed simp

lemma dict_row_exact:
  assumes "distinct names"
  shows "dict_row names (map f names) = \<lparr>dr_cells = map (\<lambda>k. (k, Some (f k))) names, dr_rest = None\<rparr>"
proof -
  have "map fst (zip names (map f names)) = names" by simp
  then have "foldl (\<lambda>d (k, v). dict_set k (Some v) d) [] (zip names (map f names)) = map (\<lambda>(k, v). (k, Some v)) (zip names (map f names))"
    using insert_new [of "[]" "zip names (map f names)"] assms by simp
  moreover have "map (\<lambda>(k, v). (k, Some v)) (zip names (map f names)) = map (\<lambda>k. (k, Some (f k))) names"
    by (induction names) auto
  ultimately show ?thesis by (simp add: dict_row_def Let_def)
qed

definition cell :: "(string, string option) dict \<Rightarrow> string \<Rightarrow> string" where
  "cell row col = (case dict_get row col of Some (Some v) \<Rightarrow> v | _ \<Rightarrow> [])"

lemma dict_roundtrip:
  assumes "names \<noteq> []" and "distinct names" and "in_limit names" and "\<forall>row\<in>set rows. map fst row = names \<and> in_limit (map (cell row) names)"
  shows "\<exists>s. dict_writer [newline] names rows = Inr s
    \<and> dict_reader s = Inr (map (\<lambda>row. \<lparr>dr_cells = map (\<lambda>k. (k, Some (cell row k))) names, dr_rest = None\<rparr>) rows)"
proof -
  have "dict_to_list names row = Inr (map (cell row) names)" if "row \<in> set rows" for row
  proof -
    have "map fst row = names" using assms(4) that by blast
    then have "\<not> list_ex (\<lambda>(k, v). k \<notin> set names) row" by (force simp: list_ex_iff)
    then show ?thesis by (simp add: dict_to_list_def cell_def)
  qed
  then have "rmap (dict_to_list names) rows = Inr (map (\<lambda>row. map (cell row) names) rows)" by (rule rmap_Inr)
  then have w: "dict_writer [newline] names rows = Inr (csv_writer [newline] (names # map (\<lambda>row. map (cell row) names) rows))"
    by (simp add: dict_writer_def)
  have "list_all short_cells (names # map (\<lambda>row. map (cell row) names) rows)"
    using assms by (auto simp: short_cells_def in_limit_def list_all_iff)
  from csv_roundtrip [OF this] have "dict_reader (csv_writer [newline] (names # map (\<lambda>row. map (cell row) names) rows))
      = Inr (map (dict_row names) (filter (\<lambda>r. r \<noteq> []) (map (\<lambda>row. map (cell row) names) rows)))"
    by (simp add: dict_reader_def)
  moreover have "filter (\<lambda>r. r \<noteq> []) (map (\<lambda>row. map (cell row) names) rows) = map (\<lambda>row. map (cell row) names) rows"
    using assms(1) by (simp add: filter_True)
  ultimately show ?thesis using w dict_row_exact [OF assms(2)] by (simp add: comp_def)
qed

end
