(* ===== verification/Datasets.thy ===== *)
theory Datasets
  imports Csv Lifecycle
begin

text \<open>
  \<open>datasets.py\<close>, and \<open>POST /datasets/pseudonymize\<close> of \<open>api.py\<close>: the columns a profile selects are replaced by keyed pseudonyms, the others
  pass through. Pydantic's reading of the fields of a profile and its serialisation are parameters (\<open>parse\<close>, \<open>dump\<close>), as are
  the profile files.
\<close>

subsection \<open>Profiles\<close>

datatype run_mode = PER_ATTRIBUTE | PER_RECORD

datatype out_format = TOKEN | NEN7524

record profile =
  pr_domain :: string
  pr_columns :: "(string, string) dict"
  pr_mode :: run_mode
  pr_record_key :: "string list"
  pr_format :: out_format
  pr_ttp_id :: string
  pr_validate_pii :: bool
  pr_combinations :: "(string list \<times> string) list"

definition NEN_LETTER :: "(string, string) dict" where
  "NEN_LETTER = [(''BSN'', ''B''), (''PERSON'', ''N''), (''NAAM'', ''N''), (''ADRES'', ''A''), (''ADDRESS'', ''A''), (''LOCATION'', ''A''),
     (''DATE'', ''D''), (''GEBOORTEDATUM'', ''D''), (''POSTCODE'', ''C''), (''RECORD'', ''R'')]"

definition RECORD_TYPE :: string where "RECORD_TYPE = ''RECORD''"

definition SAMPLE_ROWS :: nat where "SAMPLE_ROWS = 200"

definition check_profile :: "profile \<Rightarrow> profile result" where
  "check_profile p =
     (if CHR ''/'' \<in> set (pr_domain p) \<or> pr_domain p = [] then Inl ValueError
      else if pr_columns p = [] then Inl ValueError
      else if pr_mode p = PER_RECORD \<and> pr_record_key p = [] then Inl ValueError
      else rbind (parse_combinations (pr_combinations p)) (\<lambda>_.
        if pr_format p = NEN7524 \<and> (let types = (if pr_mode p = PER_ATTRIBUTE then map snd (pr_columns p) else [RECORD_TYPE])
              in list_ex (\<lambda>t. dict_get NEN_LETTER (upper t) = None) types)
        then Inl ValueError else Inr p))"

definition unbroken_combinations :: "profile \<Rightarrow> combination list result" where
  "unbroken_combinations p = rbind (parse_combinations (pr_combinations p)) (\<lambda>cs. Inr (combination_findings cs (map snd (pr_columns p))))"

definition profile_sha256 :: "(string \<Rightarrow> string) \<Rightarrow> (profile \<Rightarrow> string) \<Rightarrow> profile \<Rightarrow> string" where
  "profile_sha256 H dump p = H (utf8 (dump p))"

definition validate_profile :: "(string \<Rightarrow> profile option) \<Rightarrow> string \<Rightarrow> profile result" where
  "validate_profile parse s = (case parse s of None \<Rightarrow> Inl ValueError | Some p \<Rightarrow> check_profile p)"

definition load_profile :: "(string \<Rightarrow> profile option) \<Rightarrow> (string \<Rightarrow> string option) \<Rightarrow> string \<Rightarrow> profile result" where
  "load_profile parse files name =
     (if CHR ''/'' \<in> set name \<or> starts_with ''.'' name then Inl ValueError
      else case files (name @ ''.json'') of None \<Rightarrow> Inl FileNotFoundError | Some s \<Rightarrow> validate_profile parse s)"

subsection \<open>The form of a pseudonym\<close>

definition b64_char :: "nat \<Rightarrow> char" where
  "b64_char n = (if n < 26 then char_of (n + 65) else if n < 52 then char_of (n + 71) else if n < 62 then char_of (n - 4)
     else if n = 62 then CHR ''+'' else CHR ''/'')"

fun b64_encode :: "string \<Rightarrow> string" where
  "b64_encode [] = []"
| "b64_encode [a] = [b64_char (cp a div 4), b64_char (cp a mod 4 * 16), CHR ''='', CHR ''='']"
| "b64_encode [a, b] = [b64_char (cp a div 4), b64_char (cp a mod 4 * 16 + cp b div 16), b64_char (cp b mod 16 * 4), CHR ''='']"
| "b64_encode (a # b # c # s) =
     b64_char (cp a div 4) # b64_char (cp a mod 4 * 16 + cp b div 16) # b64_char (cp b mod 16 * 4 + cp c div 64)
       # b64_char (cp c mod 64) # b64_encode s"

fun from_hex :: "string \<Rightarrow> string result" where
  "from_hex [] = Inr []"
| "from_hex [c] = Inl ValueError"
| "from_hex (c # d # s) = (case (hex_val c, hex_val d) of
     (Some a, Some b) \<Rightarrow> rbind (from_hex s) (\<lambda>r. Inr (char_of (16 * a + b) # r))
   | _ \<Rightarrow> Inl ValueError)"

definition render_token :: "string \<Rightarrow> out_format \<Rightarrow> string \<Rightarrow> string result" where
  "render_token token fmt ttp_id = (case fmt of
     TOKEN \<Rightarrow> Inr token
   | NEN7524 \<Rightarrow> (case split_on (CHR '':'') (butlast (tl token)) of
       [label, digest] \<Rightarrow> rbind (from_hex digest) (\<lambda>bytes.
         Inr (''01-'' @ ttp_id @ ''-P'' @ (case dict_get NEN_LETTER label of None \<Rightarrow> ''X'' | Some l \<Rightarrow> l) @ ''|'' @ b64_encode bytes))
     | _ \<Rightarrow> Inl ValueError))"

subsection \<open>A run\<close>

type_synonym row = "(string, string option) dict"

record 's dataset_run =
  dn_rows :: nat
  dn_unique :: "string list"
  dn_empty :: nat
  dn_mint :: "'s mint"

definition record_identity :: "profile \<Rightarrow> row \<Rightarrow> string result" where
  "record_identity p row =
     rbind (rmap (\<lambda>col. if dict_get row col = None then Inl (KeyError col)
              else Inr (normalize (case dict_get (pr_columns p) col of None \<Rightarrow> RECORD_TYPE | Some t \<Rightarrow> t) (cell row col))) (pr_record_key p))
       (\<lambda>parts. Inr (join ''|'' parts))"

definition strip_bars :: "string \<Rightarrow> string" where
  "strip_bars s = (let bar = (\<lambda>c. c = CHR ''|'') in rev (dropWhile bar (rev (dropWhile bar s))))"

definition replace_cells :: "profile \<Rightarrow> string \<Rightarrow> row \<Rightarrow> row result" where
  "replace_cells p token row =
     rfold (\<lambda>out (col, ty). if cell row col = [] then Inr (dict_set col (Some []) out)
        else rbind (render_token token (pr_format p) (pr_ttp_id p)) (\<lambda>v. Inr (dict_set col (Some v) out))) row (pr_columns p)"

definition transform_record where
  "transform_record HM enc current nonces p row rn =
     rbind (record_identity p row) (\<lambda>identity.
     rbind (pseudonym HM enc pg_mapping_put current nonces (pr_domain p) RECORD_TYPE identity (dn_mint rn)) (\<lambda>(token, st).
     rbind (replace_cells p token row) (\<lambda>out.
     Inr (out, rn\<lparr>dn_empty := (if strip_bars identity = [] then Suc (dn_empty rn) else dn_empty rn),
                   dn_unique := List.insert token (dn_unique rn), dn_mint := st\<rparr>))))"

definition transform_cell where
  "transform_cell HM enc current nonces p row = (\<lambda>(out, rn) (col, ty).
     if cell row col = [] then Inr (out, rn)
     else rbind (pseudonym HM enc pg_mapping_put current nonces (pr_domain p) ty (cell row col) (dn_mint rn)) (\<lambda>(token, st).
          rbind (render_token token (pr_format p) (pr_ttp_id p)) (\<lambda>v.
          Inr (dict_set col (Some v) out, rn\<lparr>dn_unique := List.insert token (dn_unique rn), dn_mint := st\<rparr>))))"

definition transform_row where
  "transform_row HM enc current nonces p row rn =
     (case find (\<lambda>c. dict_get row c = None) (map fst (pr_columns p)) of
        Some c \<Rightarrow> Inl (KeyError c)
      | None \<Rightarrow>
          rbind (if pr_mode p = PER_RECORD then transform_record HM enc current nonces p row rn
                 else rfold (transform_cell HM enc current nonces p row) (row, rn) (pr_columns p))
            (\<lambda>(out, rn). Inr (out, rn\<lparr>dn_rows := Suc (dn_rows rn)\<rparr>)))"

fun transform where
  "transform HM enc current nonces p [] rn = Inr ([], rn)"
| "transform HM enc current nonces p (row # rows) rn =
     rbind (transform_row HM enc current nonces p row rn) (\<lambda>(out, rn).
     rbind (transform HM enc current nonces p rows rn) (\<lambda>(outs, rn). Inr (out # outs, rn)))"

definition mode_name :: "run_mode \<Rightarrow> string" where
  "mode_name m = (case m of PER_ATTRIBUTE \<Rightarrow> ''per_attribute'' | PER_RECORD \<Rightarrow> ''per_record'')"

definition format_name :: "out_format \<Rightarrow> string" where
  "format_name f = (case f of TOKEN \<Rightarrow> ''token'' | NEN7524 \<Rightarrow> ''nen7524'')"

definition run_stats :: "(string \<Rightarrow> string) \<Rightarrow> (profile \<Rightarrow> string) \<Rightarrow> profile \<Rightarrow> 's dataset_run \<Rightarrow> (string \<times> json) list" where
  "run_stats H dump p rn =
     [(''rows'', JInt (int (dn_rows rn))), (''columns'', JArr (map JStr (sort (map fst (pr_columns p))))),
      (''mode'', JStr (mode_name (pr_mode p))), (''format'', JStr (format_name (pr_format p))), (''domain'', JStr (pr_domain p)),
      (''unique_pseudonyms'', JInt (int (length (dn_unique rn)))), (''rows_without_record_key'', JInt (int (dn_empty rn))),
      (''profile_sha256'', JStr (profile_sha256 H dump p))]"

definition validate_unselected :: "row list \<Rightarrow> profile \<Rightarrow> (string \<times> string list) list result" where
  "validate_unselected rows p = (case rows of
     [] \<Rightarrow> Inr []
   | r # _ \<Rightarrow>
       rbind (rmap (\<lambda>col. rbind (find_deterministic (join [newline] (map (\<lambda>r. cell r col) (take SAMPLE_ROWS rows)))) (\<lambda>hits.
                Inr (col, sort (remdups (map (\<lambda>(label, _). upper label) hits)))))
              (filter (\<lambda>col. dict_get (pr_columns p) col = None) (map fst r)))
         (\<lambda>ws. Inr (filter (\<lambda>(col, types). types \<noteq> []) ws)))"

subsection \<open>POST /datasets/pseudonymize\<close>

record dataset_response =
  ds_csv :: string
  ds_stats :: "(string \<times> json) list"
  ds_warnings :: "(string \<times> string list) list"
  ds_combinations :: "(string list \<times> string) list"
  ds_dataset_id :: string
  ds_audit_seq :: nat

definition bad_profile :: "'a result \<Rightarrow> 'a result" where
  "bad_profile m = (case m of Inl e \<Rightarrow> Inl (if e = ValueError \<or> e = FileNotFoundError then HTTPException 400 else e) | Inr x \<Rightarrow> Inr x)"

definition chosen_profile ::
    "(string \<Rightarrow> profile option) \<Rightarrow> (string \<Rightarrow> string option) \<Rightarrow> string option \<Rightarrow> string option \<Rightarrow> profile result" where
  "chosen_profile parse files inline name = (case (inline, name) of
     (Some s, None) \<Rightarrow> bad_profile (validate_profile parse s)
   | (None, Some n) \<Rightarrow> bad_profile (load_profile parse files n)
   | _ \<Rightarrow> Inl (HTTPException 400))"

definition utf8_sig :: "string \<Rightarrow> string result" where
  "utf8_sig data = (let bom = [CHR 0xEF, CHR 0xBB, CHR 0xBF]
     in case utf8_decode (if starts_with bom data then drop 3 data else data) of
          Inl _ \<Rightarrow> Inl (HTTPException 400) | Inr s \<Rightarrow> Inr s)"

definition dataset_rows :: "string \<Rightarrow> row list result" where
  "dataset_rows data =
     (if data = [] then Inl (HTTPException 400)
      else rbind (utf8_sig data) (\<lambda>s.
           rbind (dict_reader s) (\<lambda>rows.
           if rows = [] then Inl (HTTPException 400)
           else if list_ex (\<lambda>r. dr_rest r \<noteq> None) rows then Inl (HTTPException 400)
           else Inr (map dr_cells rows))))"

definition key_error_400 :: "'a result \<Rightarrow> 'a result" where
  "key_error_400 m = (case m of Inl (KeyError k) \<Rightarrow> Inl (HTTPException 400) | r \<Rightarrow> r)"

definition run_dataset where
  "run_dataset HM enc current nonces p rows w =
     (case key_error_400 (transform HM enc current nonces p rows
             \<lparr>dn_rows = 0, dn_unique = [], dn_empty = 0,
              dn_mint = \<lparr>mt_keys = w_keys w, mt_store = pii_mappings (w_db w), mt_drawn = w_drawn w\<rparr>\<rparr>) of
        Inl e \<Rightarrow> (Inl e, w)
      | Inr (outs, rn) \<Rightarrow> (Inr (outs, rn), w\<lparr>w_db := (w_db w)\<lparr>pii_mappings := mt_store (dn_mint rn)\<rparr>,
            w_keys := mt_keys (dn_mint rn), w_drawn := mt_drawn (dn_mint rn)\<rparr>))"

definition dataset_key :: "(string \<Rightarrow> string) \<Rightarrow> (profile \<Rightarrow> string) \<Rightarrow> profile \<Rightarrow> string \<Rightarrow> string" where
  "dataset_key H dump p data = ''datasets/'' @ H (data @ utf8 (profile_sha256 H dump p))"

definition dataset_payload :: "(string \<times> json) list \<Rightarrow> (string \<times> string list) list \<Rightarrow> nat \<Rightarrow> json" where
  "dataset_payload stats warnings n = JObj (stats @ [(''kind'', JStr ''dataset''),
     (''warnings'', JArr (map (\<lambda>(c, _). JStr c) warnings)), (''unbroken_combinations'', JInt (int n))])"

text \<open>The artefact is registered, if it is not yet, and the run is an event on it.\<close>

definition record_run ::
    "(string \<Rightarrow> string) \<Rightarrow> datetime \<Rightarrow> string \<Rightarrow> string \<Rightarrow> string \<Rightarrow> json \<Rightarrow> corpus \<Rightarrow> ((string \<times> nat) \<times> corpus) result" where
  "record_run H now new_id key domain payload db =
     rbind (register_live H now new_id (\<lambda>x. x) db \<lparr>dl_object_key = key, dl_domain = domain, dl_filename = None, dl_source_url = None,
              dl_fetched_at = None, dl_source_sha256 = None\<rparr>) (\<lambda>(d, db).
     rbind (doc_state db (dc_id d)) (\<lambda>s. case s of
       None \<Rightarrow> Inl AttributeError
     | Some s \<Rightarrow> rbind (append_record H now (audit db) (dc_id d) (Some (state_value s)) (state_value s) ''dataset_pseudonymize'' (Some payload) None)
         (\<lambda>(a, r). Inr ((dc_id d, ar_seq r), db\<lparr>audit := a\<rparr>))))"

definition dataset_session where
  "dataset_session H HM enc current nonces dump now new_id data p rows =
     andthen (run_dataset HM enc current nonces p rows) (\<lambda>(outs, rn).
     andthen (checked (dict_writer [newline] (map fst (hd rows)) outs)) (\<lambda>csv.
     andthen (checked (if pr_validate_pii p then validate_unselected rows p else Inr [])) (\<lambda>warnings.
     andthen (checked (unbroken_combinations p)) (\<lambda>open_sets.
     andthen (on_db (record_run H now new_id (dataset_key H dump p data) (pr_domain p)
                (dataset_payload (run_stats H dump p rn) warnings (length open_sets)))) (\<lambda>(doc, seq).
     ret \<lparr>ds_csv = csv, ds_stats = run_stats H dump p rn, ds_warnings = warnings,
          ds_combinations = map (\<lambda>c. (sort (remdups (cb_types c)), cb_reason c)) open_sets,
          ds_dataset_id = doc, ds_audit_seq = seq\<rparr>)))))"

definition datasets_pseudonymize where
  "datasets_pseudonymize H HM enc current nonces parse files dump now new_id data inline name =
     andthen (checked (chosen_profile parse files inline name)) (\<lambda>p.
     andthen (checked (dataset_rows data)) (\<lambda>rows.
     transaction (dataset_session H HM enc current nonces dump now new_id data p rows)))"

subsection \<open>What a run puts in a cell\<close>

text \<open>The states a key provider gets into from the state it has, by giving out current keys; and a pseudonym under the key that is current for the domain
  of the profile and the label at such a moment.\<close>

definition provider_step :: "(string \<Rightarrow> 's \<Rightarrow> (key \<times> 's) result) \<Rightarrow> 's \<Rightarrow> 's \<Rightarrow> bool" where
  "provider_step current ks ks' = (\<exists>scope key. current scope ks = Inr (key, ks'))"

definition pseudo_cell ::
    "(string \<Rightarrow> string \<Rightarrow> string) \<Rightarrow> (string \<Rightarrow> 's \<Rightarrow> (key \<times> 's) result) \<Rightarrow> 's \<Rightarrow> profile \<Rightarrow> string \<Rightarrow> string \<Rightarrow> string \<Rightarrow> bool" where
  "pseudo_cell HM current ks0 p label value v =
     (\<exists>scope ks key ks'. scope_for (pr_domain p) (upper (lower label)) = Inr scope \<and> rtranclp (provider_step current) ks0 ks
        \<and> current scope ks = Inr (key, ks') \<and> render_token (make_token HM (k_material key) (lower label) value) (pr_format p) (pr_ttp_id p) = Inr v)"

text \<open>The label and the value a cell is pseudonymised under.\<close>

definition derived :: "profile \<Rightarrow> row \<Rightarrow> string \<Rightarrow> string \<Rightarrow> string \<Rightarrow> string \<Rightarrow> bool" where
  "derived p row col ty label value =
     (if pr_mode p = PER_RECORD then label = RECORD_TYPE \<and> record_identity p row = Inr value else label = ty \<and> value = cell row col)"

definition replaced :: "(string \<Rightarrow> string \<Rightarrow> string) \<Rightarrow> (string \<Rightarrow> 's \<Rightarrow> (key \<times> 's) result) \<Rightarrow> 's \<Rightarrow> profile \<Rightarrow> row \<Rightarrow> row \<Rightarrow> bool" where
  "replaced HM current ks0 p row out = (map fst out = map fst row \<and> (\<forall>c\<in>fst ` set row. case dict_get (pr_columns p) c of
       None \<Rightarrow> cell out c = cell row c
     | Some t \<Rightarrow> if cell row c = [] then cell out c = [] else \<exists>label value. derived p row c t label value \<and> pseudo_cell HM current ks0 p label value (cell out c)))"

lemma replaced_cong:
  assumes "map fst out' = map fst out" and "\<forall>c\<in>fst ` set row. cell out' c = cell out c" and "replaced HM current ks0 p row out"
  shows "replaced HM current ks0 p row out'"
  using assms unfolding replaced_def by (simp cong: option.case_cong if_cong)

lemma replaced_unselected:
  assumes "replaced HM current ks0 p row out" and "c \<in> set (map fst row)" and "dict_get (pr_columns p) c = None"
  shows "cell out c = cell row c"
  using assms by (auto simp: replaced_def dest!: bspec [where x = c])

definition token_under :: "(string \<Rightarrow> string \<Rightarrow> string) \<Rightarrow> (string \<Rightarrow> 's \<Rightarrow> (key \<times> 's) result) \<Rightarrow> 's \<Rightarrow> profile \<Rightarrow> string \<Rightarrow> string \<Rightarrow> string \<Rightarrow> bool" where
  "token_under HM current ks0 p label value token =
     (\<exists>scope ks key ks'. scope_for (pr_domain p) (upper (lower label)) = Inr scope \<and> rtranclp (provider_step current) ks0 ks
        \<and> current scope ks = Inr (key, ks') \<and> token = make_token HM (k_material key) (lower label) value)"

lemma pseudonym_token:
  assumes "pseudonym HM enc put current nonces (pr_domain p) label value st = Inr (t, st')" and "rtranclp (provider_step current) ks0 (mt_keys st)"
  shows "token_under HM current ks0 p label value t \<and> rtranclp (provider_step current) ks0 (mt_keys st')"
proof -
  obtain scope key ks where k: "scope_for (pr_domain p) (upper (lower label)) = Inr scope" "current scope (mt_keys st) = Inr (key, ks)"
    "t = make_token HM (k_material key) (lower label) value" "mt_keys st' = ks"
    using assms(1) unfolding pseudonym_def Let_def rbind_eq_Inr by (auto simp: case_prod_beta)
  have "provider_step current (mt_keys st) ks" using k(2) by (auto simp: provider_step_def)
  then show ?thesis using k assms(2) by (auto simp: token_under_def intro: rtranclp.rtrancl_into_rtrancl)
qed

lemma token_rendered: "token_under HM current ks0 p label value t \<Longrightarrow> render_token t (pr_format p) (pr_ttp_id p) = Inr v \<Longrightarrow> pseudo_cell HM current ks0 p label value v"
  by (auto simp: token_under_def pseudo_cell_def)

lemma dict_set_keys: "k \<in> set (map fst d) \<Longrightarrow> map fst (dict_set k v d) = map fst d"
  by (induction d) auto

lemma cell_set: "cell (dict_set k v d) c = (if c = k then (case v of None \<Rightarrow> [] | Some x \<Rightarrow> x) else cell d c)"
  by (auto simp: cell_def split: option.split)

text \<open>A fold that sets the cells of the selected columns, one after the other.\<close>

lemma fold_cells:
  assumes "rfold f s cols = Inr s'" and "distinct (map fst cols)" and "fst ` set cols \<subseteq> set (map fst (row_of s))"
    and "\<forall>c\<in>fst ` set cols. cell (row_of s) c = cell row c"
    and "I s" and step: "\<And>s col ty s'. f s (col, ty) = Inr s' \<Longrightarrow> I s \<Longrightarrow> I s' \<and> (row_of s' = row_of s \<and> Q col ty (cell row col)
       \<or> (\<exists>v. row_of s' = dict_set col (Some v) (row_of s) \<and> Q col ty v))"
  shows "I s' \<and> map fst (row_of s') = map fst (row_of s) \<and> (\<forall>c. c \<notin> fst ` set cols \<longrightarrow> cell (row_of s') c = cell (row_of s) c)
    \<and> (\<forall>(c, t)\<in>set cols. Q c t (cell (row_of s') c))"
  using assms(1-5)
proof (induction cols arbitrary: s)
  case (Cons x cols)
  obtain col ty where x: "x = (col, ty)" by (cases x)
  obtain s1 where s: "f s (col, ty) = Inr s1" "rfold f s1 cols = Inr s'"
    using Cons.prems(1) by (auto simp: x result_simps)
  have same: "cell (row_of s) col = cell row col" using Cons.prems(4) by (simp add: x)
  have inv: "I s1" using step [OF s(1)] Cons.prems(5) by blast
  have one: "row_of s1 = row_of s \<and> Q col ty (cell row col) \<or> (\<exists>v. row_of s1 = dict_set col (Some v) (row_of s) \<and> Q col ty v)"
    using step [OF s(1)] Cons.prems(5) by blast
  have "col \<in> set (map fst (row_of s))" using Cons.prems(3) by (auto simp: x)
  then have keys: "map fst (row_of s1) = map fst (row_of s)" using one dict_set_keys [of col "row_of s"] by auto
  have others: "c \<noteq> col \<Longrightarrow> cell (row_of s1) c = cell (row_of s) c" for c using one by (auto simp: cell_set)
  have here: "Q col ty (cell (row_of s1) col)" using one same by (auto simp: cell_set)
  have new: "col \<notin> fst ` set cols" using Cons.prems(2) by (auto simp: x)
  have rest: "\<forall>c\<in>fst ` set cols. cell (row_of s1) c = cell row c"
  proof
    fix c assume c: "c \<in> fst ` set cols"
    then have "c \<noteq> col" using new by blast
    then show "cell (row_of s1) c = cell row c" using others Cons.prems(4) c by (auto simp: x)
  qed
  have "I s' \<and> map fst (row_of s') = map fst (row_of s1) \<and> (\<forall>c. c \<notin> fst ` set cols \<longrightarrow> cell (row_of s') c = cell (row_of s1) c)
      \<and> (\<forall>(c, t)\<in>set cols. Q c t (cell (row_of s') c))"
    by (rule Cons.IH [OF s(2) _ _ rest inv]) (use Cons.prems(2,3) keys in \<open>auto simp: x\<close>)
  then show ?case using keys others here new by (auto simp: x)
qed auto

lemma transform_cells_ok:
  assumes "rfold (transform_cell HM enc current nonces p row) (row, rn) (pr_columns p) = Inr (out, rn')" and "pr_mode p \<noteq> PER_RECORD"
    and "dict_wf (pr_columns p)" and "fst ` set (pr_columns p) \<subseteq> set (map fst row)" and "rtranclp (provider_step current) ks0 (mt_keys (dn_mint rn))"
  shows "replaced HM current ks0 p row out \<and> rtranclp (provider_step current) ks0 (mt_keys (dn_mint rn'))"
proof -
  let ?Q = "\<lambda>c t v. if cell row c = [] then v = [] else pseudo_cell HM current ks0 p t (cell row c) v"
  let ?I = "\<lambda>s. rtranclp (provider_step current) ks0 (mt_keys (dn_mint (snd s)))"
  have f: "?I (out, rn') \<and> map fst (fst (out, rn')) = map fst (fst (row, rn)) \<and> (\<forall>c. c \<notin> fst ` set (pr_columns p) \<longrightarrow> cell (fst (out, rn')) c = cell (fst (row, rn)) c)
      \<and> (\<forall>(c, t)\<in>set (pr_columns p). ?Q c t (cell (fst (out, rn')) c))"
  proof (rule fold_cells [OF assms(1), where row = row and row_of = fst and I = ?I])
    fix s col ty s'
    assume run: "transform_cell HM enc current nonces p row s (col, ty) = Inr s'" and "?I s"
    then obtain o1 m1 where s: "s = (o1, m1)" "rtranclp (provider_step current) ks0 (mt_keys (dn_mint m1))" by (cases s) simp
    show "?I s' \<and> (fst s' = fst s \<and> ?Q col ty (cell row col) \<or> (\<exists>v. fst s' = dict_set col (Some v) (fst s) \<and> ?Q col ty v))"
    proof (cases "cell row col = []")
      case False
      then obtain t st v where t: "pseudonym HM enc pg_mapping_put current nonces (pr_domain p) ty (cell row col) (dn_mint m1) = Inr (t, st)"
        "render_token t (pr_format p) (pr_ttp_id p) = Inr v" "s' = (dict_set col (Some v) o1, m1\<lparr>dn_unique := List.insert t (dn_unique m1), dn_mint := st\<rparr>)"
        using run by (auto simp: transform_cell_def result_simps s(1))
      note k = pseudonym_token [OF t(1) s(2)]
      have "\<exists>u. dict_set col (Some v) o1 = dict_set col (Some u) o1 \<and> ?Q col ty u"
        using token_rendered [OF conjunct1 [OF k] t(2)] False by (intro exI [of _ v]) simp
      then show ?thesis using k by (simp add: t(3) s(1))
    qed (use run s in \<open>auto simp: transform_cell_def\<close>)
  qed (use assms(3-5) in \<open>simp_all add: dict_wf_def\<close>)
  moreover have "replaced HM current ks0 p row out" using f
    assms(2,3) by (auto simp: replaced_def derived_def dict_wf_mem [symmetric] split: option.split) (force simp: dict_get_None)+
  ultimately show ?thesis by simp
qed

lemma replace_cells_ok:
  assumes "replace_cells p token row = Inr out" and "token_under HM current ks0 p RECORD_TYPE identity token"
    and "pr_mode p = PER_RECORD" and "record_identity p row = Inr identity"
    and "dict_wf (pr_columns p)" and "fst ` set (pr_columns p) \<subseteq> set (map fst row)"
  shows "replaced HM current ks0 p row out"
proof -
  let ?Q = "\<lambda>c t v. if cell row c = [] then v = [] else pseudo_cell HM current ks0 p RECORD_TYPE identity v"
  have "True \<and> map fst out = map fst row \<and> (\<forall>c. c \<notin> fst ` set (pr_columns p) \<longrightarrow> cell out c = cell row c)
      \<and> (\<forall>(c, t)\<in>set (pr_columns p). ?Q c t (cell out c))"
  proof (rule fold_cells [OF assms(1) [unfolded replace_cells_def], where row = row and row_of = "\<lambda>x. x" and I = "\<lambda>_. True"])
    fix s col ty s'
    assume "(case (col, ty) of (col, ty) \<Rightarrow> if cell row col = [] then Inr (dict_set col (Some []) s)
       else rbind (render_token token (pr_format p) (pr_ttp_id p)) (\<lambda>v. Inr (dict_set col (Some v) s))) = Inr s'"
    then show "True \<and> (s' = s \<and> ?Q col ty (cell row col) \<or> (\<exists>v. s' = dict_set col (Some v) s \<and> ?Q col ty v))"
      using token_rendered [OF assms(2)] by (auto simp: result_simps split: if_splits)
  qed (use assms(5,6) in \<open>simp_all add: dict_wf_def\<close>)
  then show ?thesis
    using assms(3-5) by (auto simp: replaced_def derived_def dict_wf_mem [symmetric] split: option.split) (force simp: dict_get_None)+
qed

lemma transform_row_ok:
  assumes "transform_row HM enc current nonces p row rn = Inr (out, rn')" and "dict_wf (pr_columns p)" and "rtranclp (provider_step current) ks0 (mt_keys (dn_mint rn))"
  shows "replaced HM current ks0 p row out \<and> rtranclp (provider_step current) ks0 (mt_keys (dn_mint rn'))"
proof -
  have "find (\<lambda>c. dict_get row c = None) (map fst (pr_columns p)) = None"
    using assms(1) by (auto simp: transform_row_def split: option.splits)
  then have cols: "fst ` set (pr_columns p) \<subseteq> set (map fst row)" by (auto simp: find_None_iff dict_get_None)
  show ?thesis
  proof (cases "pr_mode p = PER_RECORD")
    case True
    then obtain identity token st where r: "mt_keys (dn_mint rn') = mt_keys st" "record_identity p row = Inr identity"
      "pseudonym HM enc pg_mapping_put current nonces (pr_domain p) RECORD_TYPE identity (dn_mint rn) = Inr (token, st)" "replace_cells p token row = Inr out"
      using assms(1) by (auto simp: transform_row_def transform_record_def result_simps split: option.splits)
    note t = pseudonym_token [OF r(3) assms(3)]
    from replace_cells_ok [OF r(4) conjunct1 [OF t] True r(2) assms(2) cols] conjunct2 [OF t] show ?thesis by (simp add: r(1))
  next
    case False
    then obtain rn1 where rn1: "mt_keys (dn_mint rn') = mt_keys (dn_mint rn1)" "rfold (transform_cell HM enc current nonces p row) (row, rn) (pr_columns p) = Inr (out, rn1)"
      using assms(1) by (auto simp: transform_row_def result_simps split: option.splits)
    from transform_cells_ok [OF rn1(2) False assms(2) cols assms(3)] show ?thesis by (simp add: rn1(1))
  qed
qed

lemma transform_ok:
  "transform HM enc current nonces p rows rn = Inr (outs, rn') \<Longrightarrow> dict_wf (pr_columns p) \<Longrightarrow> rtranclp (provider_step current) ks0 (mt_keys (dn_mint rn))
    \<Longrightarrow> list_all2 (replaced HM current ks0 p) rows outs"
proof (induction rows arbitrary: rn outs)
  case (Cons row rows)
  obtain out rn1 rest where r: "transform_row HM enc current nonces p row rn = Inr (out, rn1)" "transform HM enc current nonces p rows rn1 = Inr (rest, rn')" "outs = out # rest"
    using Cons.prems(1) by (auto simp: result_simps)
  from transform_row_ok [OF r(1) Cons.prems(2,3)] Cons.IH [OF r(2) Cons.prems(2)] show ?case by (simp add: r(3))
qed simp

text \<open>What a run counts.\<close>

lemma length_insert_le: "length (List.insert x xs) \<le> Suc (length xs)"
  by (simp add: List.insert_def)

lemma cells_counted:
  "rfold (transform_cell HM enc current nonces p row) (o0, rn) cols = Inr (o1, rn') \<Longrightarrow>
     dn_rows rn' = dn_rows rn \<and> dn_empty rn' = dn_empty rn \<and> length (dn_unique rn') \<le> length (dn_unique rn) + length cols"
proof (induction cols arbitrary: o0 rn)
  case (Cons x cols)
  obtain o2 rn2 where r: "transform_cell HM enc current nonces p row (o0, rn) x = Inr (o2, rn2)" "rfold (transform_cell HM enc current nonces p row) (o2, rn2) cols = Inr (o1, rn')"
    using Cons.prems by (auto simp: result_simps)
  have "dn_rows rn2 = dn_rows rn \<and> dn_empty rn2 = dn_empty rn \<and> length (dn_unique rn2) \<le> Suc (length (dn_unique rn))"
    using r(1) length_insert_le by (cases x) (auto simp: transform_cell_def result_simps split: if_splits)
  with Cons.IH [OF r(2)] show ?case by simp
qed simp

lemma row_counted:
  assumes "transform_row HM enc current nonces p row rn = Inr (out, rn')" and "pr_columns p \<noteq> []"
  shows "dn_rows rn' = Suc (dn_rows rn) \<and> dn_empty rn' \<le> Suc (dn_empty rn) \<and> length (dn_unique rn') \<le> length (dn_unique rn) + length (pr_columns p)"
proof (cases "pr_mode p = PER_RECORD")
  case True
  have "Suc (length (dn_unique rn)) \<le> length (dn_unique rn) + length (pr_columns p)" using assms(2) by (cases "pr_columns p") simp_all
  then have "length (List.insert t (dn_unique rn)) \<le> length (dn_unique rn) + length (pr_columns p)" for t
    using length_insert_le [of t "dn_unique rn"] by linarith
  then show ?thesis using assms(1) True by (auto simp: transform_row_def transform_record_def result_simps split: option.splits)
next
  case False
  then obtain rn1 where "rfold (transform_cell HM enc current nonces p row) (row, rn) (pr_columns p) = Inr (out, rn1)" "rn' = rn1\<lparr>dn_rows := Suc (dn_rows rn1)\<rparr>"
    using assms(1) by (auto simp: transform_row_def result_simps split: option.splits)
  with cells_counted [OF this(1)] show ?thesis by simp
qed

lemma transform_counted:
  "transform HM enc current nonces p rows rn = Inr (outs, rn') \<Longrightarrow> pr_columns p \<noteq> [] \<Longrightarrow>
     dn_rows rn' = dn_rows rn + length rows \<and> dn_empty rn' \<le> dn_empty rn + length rows \<and> length (dn_unique rn') \<le> length (dn_unique rn) + length rows * length (pr_columns p)"
proof (induction rows arbitrary: rn outs)
  case (Cons row rows)
  obtain out rn1 rest where r: "transform_row HM enc current nonces p row rn = Inr (out, rn1)" "transform HM enc current nonces p rows rn1 = Inr (rest, rn')"
    using Cons.prems(1) by (auto simp: result_simps)
  from row_counted [OF r(1) Cons.prems(2)] Cons.IH [OF r(2) Cons.prems(2)] show ?case by simp
qed simp

subsection \<open>The whole run\<close>

lemma dataset_split:
  assumes "datasets_pseudonymize H HM enc current nonces parse files dump now new_id data inline name w = (Inr resp, w')"
  obtains p rows outs rn w1 db where "chosen_profile parse files inline name = Inr p" and "dataset_rows data = Inr rows"
    and "run_dataset HM enc current nonces p rows w = (Inr (outs, rn), w1)" and "dict_writer [newline] (map fst (hd rows)) outs = Inr (ds_csv resp)"
    and "record_run H now new_id (dataset_key H dump p data) (pr_domain p)
           (dataset_payload (ds_stats resp) (ds_warnings resp) (length (ds_combinations resp))) (w_db w1) = Inr ((ds_dataset_id resp, ds_audit_seq resp), db)"
    and "w' = w1\<lparr>w_db := db\<rparr>" and "ds_stats resp = run_stats H dump p rn"
    and "(if pr_validate_pii p then validate_unselected rows p else Inr []) = Inr (ds_warnings resp)"
proof -
  obtain p rows where p: "chosen_profile parse files inline name = Inr p" "dataset_rows data = Inr rows"
    and t: "transaction (dataset_session H HM enc current nonces dump now new_id data p rows) w = (Inr resp, w')"
    using assms unfolding datasets_pseudonymize_def andthen_Inr by (auto simp: result_simps)
  obtain outs rn w1 where run: "run_dataset HM enc current nonces p rows w = (Inr (outs, rn), w1)"
    and r: "andthen (checked (dict_writer [newline] (map fst (hd rows)) outs)) (\<lambda>csv.
       andthen (checked (if pr_validate_pii p then validate_unselected rows p else Inr [])) (\<lambda>warnings.
       andthen (checked (unbroken_combinations p)) (\<lambda>open_sets.
       andthen (on_db (record_run H now new_id (dataset_key H dump p data) (pr_domain p)
                  (dataset_payload (run_stats H dump p rn) warnings (length open_sets)))) (\<lambda>(doc, seq).
       ret \<lparr>ds_csv = csv, ds_stats = run_stats H dump p rn, ds_warnings = warnings,
            ds_combinations = map (\<lambda>c. (sort (remdups (cb_types c)), cb_reason c)) open_sets,
            ds_dataset_id = doc, ds_audit_seq = seq\<rparr>)))) w1 = (Inr resp, w')"
    using retried [OF t] by (auto simp: dataset_session_def andthen_Inr)
  obtain csv where c: "dict_writer [newline] (map fst (hd rows)) outs = Inr csv"
    using r by (cases "dict_writer [newline] (map fst (hd rows)) outs") (simp_all add: andthen_def)
  obtain warnings where wn: "(if pr_validate_pii p then validate_unselected rows p else Inr []) = Inr warnings"
    using r c by (cases "if pr_validate_pii p then validate_unselected rows p else Inr []") (simp_all add: andthen_def)
  obtain open_sets where u: "unbroken_combinations p = Inr open_sets"
    using r c wn by (cases "unbroken_combinations p") (simp_all add: andthen_def)
  let ?rec = "record_run H now new_id (dataset_key H dump p data) (pr_domain p)
       (dataset_payload (run_stats H dump p rn) warnings (length open_sets)) (w_db w1)"
  obtain x db where d: "?rec = Inr (x, db)" using r c wn u by (cases ?rec) (auto simp: andthen_def on_db_def)
  have e: "(case x of (doc, seq) \<Rightarrow> ret \<lparr>ds_csv = csv, ds_stats = run_stats H dump p rn, ds_warnings = warnings,
            ds_combinations = map (\<lambda>c. (sort (remdups (cb_types c)), cb_reason c)) open_sets,
            ds_dataset_id = doc, ds_audit_seq = seq\<rparr>) (w1\<lparr>w_db := db\<rparr>) = (Inr resp, w')"
    using r c wn u d by (simp add: andthen_def on_db_def)
  have "dict_writer [newline] (map fst (hd rows)) outs = Inr (ds_csv resp)" "x = (ds_dataset_id resp, ds_audit_seq resp)" "w' = w1\<lparr>w_db := db\<rparr>"
    "ds_stats resp = run_stats H dump p rn" "ds_warnings resp = warnings" "length (ds_combinations resp) = length open_sets"
    using c e by (auto split: prod.splits)
  with d wn show ?thesis using p run by (intro that) simp_all
qed

definition short_profile :: "profile \<Rightarrow> bool" where
  "short_profile p = (list_all (\<lambda>(c, t). length (upper (lower t)) \<le> 1000) (pr_columns p) \<and> length (pr_ttp_id p) \<le> 1000)"

lemma length_b64: "length (b64_encode s) \<le> 2 * length s + 2"
  by (induction s rule: b64_encode.induct) auto

lemma length_from_hex: "from_hex s = Inr b \<Longrightarrow> 2 * length b = length s"
  by (induction s arbitrary: b rule: from_hex.induct) (auto simp: result_simps split: option.splits)

lemma split_lengths: "split_on c s = [a, b] \<Longrightarrow> length a + length b < length s"
proof (induction s arbitrary: a b)
  case (Cons x s)
  show ?case
  proof (cases "x = c")
    case True
    then have "split_on c s = [b]" using Cons.prems by auto
    moreover have "split_on c s = [b] \<Longrightarrow> length b = length s" by (induction s arbitrary: b) (auto split: list.splits if_splits)
    ultimately show ?thesis using Cons.prems True by auto
  next
    case False
    then obtain a' where "split_on c s = [a', b]" "a = x # a'" using Cons.prems by (auto split: list.splits)
    then show ?thesis using Cons.IH by fastforce
  qed
qed simp

lemma render_short:
  assumes "render_token (make_token HM material label value) fmt ttp = Inr v" and "length (upper label) \<le> 1000" and "length ttp \<le> 1000"
  shows "length v \<le> field_size_limit"
proof -
  have tok: "length (make_token HM material label value) \<le> 1011" using assms(2) by (simp add: make_token_def token_hash_def)
  show ?thesis
  proof (cases fmt)
    case TOKEN
    then show ?thesis using assms(1) tok by (auto simp: render_token_def field_size_limit_def)
  next
    case NEN7524
    then obtain label' digest bytes where s: "split_on (CHR '':'') (butlast (tl (make_token HM material label value))) = [label', digest]" "from_hex digest = Inr bytes"
      "v = ''01-'' @ ttp @ ''-P'' @ (case dict_get NEN_LETTER label' of None \<Rightarrow> ''X'' | Some l \<Rightarrow> l) @ ''|'' @ b64_encode bytes"
      using assms(1) by (auto simp: render_token_def result_simps split: list.splits)
    have "length digest < length (butlast (tl (make_token HM material label value)))" using split_lengths [OF s(1)] by simp
    then have "length digest \<le> 1011" using tok by simp
    then have "length (b64_encode bytes) \<le> 1013" using length_from_hex [OF s(2)] length_b64 [of bytes] by simp
    moreover have "length (case dict_get NEN_LETTER label' of None \<Rightarrow> ''X'' | Some l \<Rightarrow> l) \<le> 1"
      by (auto simp: NEN_LETTER_def split: option.splits)
    ultimately show ?thesis using assms(3) by (simp add: s(3) field_size_limit_def)
  qed
qed

lemma dataset_rows_ok:
  assumes "dataset_rows data = Inr rows"
  shows "rows \<noteq> [] \<and> (\<exists>names. names \<noteq> [] \<and> distinct names \<and> in_limit names \<and> (\<forall>row\<in>set rows. map fst row = names \<and> in_limit (map (cell row) names)))"
proof -
  obtain s drs where s: "dict_reader s = Inr drs" "drs \<noteq> []" "\<forall>r\<in>set drs. dr_rest r = None" "rows = map dr_cells drs"
    using assms by (auto simp: dataset_rows_def result_simps list_ex_iff split: if_splits)
  obtain parsed where "csv_reader s = Inr parsed" using s(1) by (auto simp: dict_reader_def result_simps)
  then obtain header body where b: "csv_reader s = Inr (header # body)" "drs = map (dict_row header) (filter (\<lambda>r. r \<noteq> []) body)"
    using s(1,2) by (cases parsed) (auto simp: dict_reader_def)
  have lim: "in_limit header" "list_all in_limit body" using csv_rows_limit [OF b(1) [unfolded csv_reader_def]] by simp_all
  have "\<forall>row\<in>set rows. map fst row = keys_of header \<and> in_limit (map (cell row) (keys_of header))"
  proof
    fix row assume "row \<in> set rows"
    then obtain d where d: "d \<in> set drs" "row = dr_cells d" using s(4) by auto
    have "dr_rest d = None" using s(3) d(1) by blast
    moreover obtain r where "r \<in> set body" "d = dict_row header r" using d(1) unfolding b(2) by auto
    ultimately have r: "r \<in> set body" "row = dr_cells (dict_row header r)" "dr_rest (dict_row header r) = None" using d(2) by simp_all
    have vals: "\<forall>c v. dict_get row c = Some (Some v) \<longrightarrow> v \<in> set r"
    proof -
      have a: "dict_get (foldl (\<lambda>d (k, v). dict_set k (Some v) d) d xs) c = Some (Some v) \<Longrightarrow> dict_get d c = Some (Some v) \<or> v \<in> snd ` set xs" for d c v and xs :: "(string \<times> string) list"
        by (induction xs arbitrary: d) (fastforce split: if_splits)+
      have b: "dict_get (foldl (\<lambda>d k. dict_set k None d) d ks) c = Some (Some v) \<Longrightarrow> dict_get d c = Some (Some v)" for d c and v :: string and ks
        by (induction ks arbitrary: d) (fastforce split: if_splits)+
      show ?thesis
      proof (intro allI impI)
        fix c v assume "dict_get row c = Some (Some v)"
        then have "dict_get (foldl (\<lambda>d (k, v). dict_set k (Some v) d) [] (zip header r)) c = Some (Some v)"
          using b [of _ "drop (length r) header" c v] by (simp add: r(2) dict_row_def Let_def)
        then have "v \<in> snd ` set (zip header r)" using a [of "[]" "zip header r" c v] by simp
        then show "v \<in> set r" by (auto dest: set_zip_rightD)
      qed
    qed
    have "length (cell row c) \<le> field_size_limit" for c
      using vals lim(2) r(1) by (auto simp: cell_def in_limit_def list_all_iff split: option.split)
    then show "map fst row = keys_of header \<and> in_limit (map (cell row) (keys_of header))"
      using dict_row_keys [OF r(3)] r(2) by (simp add: in_limit_def list_all_iff)
  qed
  moreover have "keys_of header \<noteq> []"
  proof
    assume "keys_of header = []"
    then have "header = []" using keys_of_simps(1) [of header] by simp
    then show False using s(2,3) b(2) by (auto simp: dict_row_def Let_def filter_empty_conv)
  qed
  moreover have "in_limit (keys_of header)" using lim(1) by (simp add: in_limit_def list_all_iff keys_of_simps)
  ultimately show ?thesis using s(2,4) keys_of_simps(2) by blast
qed

lemma replaced_fits:
  assumes "replaced HM current ks0 p row out" and "dict_wf (pr_columns p)" and "short_profile p" and "map fst row = names \<and> in_limit (map (cell row) names)"
  shows "map fst out = names \<and> in_limit (map (cell out) names)"
proof -
  have "length (cell out c) \<le> field_size_limit" if c: "c \<in> set names" for c
  proof -
    have short: "length (cell row c) \<le> field_size_limit" using assms(4) c by (auto simp: in_limit_def list_all_iff)
    have "c \<in> fst ` set row" using assms(4) c by (metis list.set_map)
    then have here: "case dict_get (pr_columns p) c of None \<Rightarrow> cell out c = cell row c
      | Some t \<Rightarrow> if cell row c = [] then cell out c = [] else \<exists>label value. derived p row c t label value \<and> pseudo_cell HM current ks0 p label value (cell out c)"
      using assms(1) unfolding replaced_def by blast
    show ?thesis
    proof (cases "dict_get (pr_columns p) c")
      case None
      then show ?thesis using here short by simp
    next
      case (Some t)
      have "(c, t) \<in> set (pr_columns p)" using Some assms(2) by (simp add: dict_wf_mem)
      then have l: "length (upper (lower t)) \<le> 1000" "length (pr_ttp_id p) \<le> 1000" using assms(3) by (auto simp: short_profile_def list_all_iff)
      have r: "length (upper (lower RECORD_TYPE)) \<le> 1000" by code_simp
      show ?thesis
      proof (cases "cell row c = []")
        case False
        then obtain lb vl where v: "derived p row c t lb vl" "pseudo_cell HM current ks0 p lb vl (cell out c)" using here Some by auto
        then have "length (upper (lower lb)) \<le> 1000" using l r by (auto simp: derived_def split: if_splits)
        then show ?thesis using v(2) l(2) render_short unfolding pseudo_cell_def by blast
      qed (use here Some in simp)
    qed
  qed
  then show ?thesis using assms(1,4) by (simp add: replaced_def in_limit_def list_all_iff)
qed

lemma chosen_parsed: "chosen_profile parse files inline name = Inr p \<Longrightarrow> \<exists>s. parse s = Some p"
proof -
  have c: "check_profile q = Inr p \<Longrightarrow> q = p" for q by (auto simp: check_profile_def result_simps Let_def split: if_splits)
  have v: "validate_profile parse s = Inr p \<Longrightarrow> \<exists>s. parse s = Some p" for s by (auto simp: validate_profile_def dest: c split: option.splits)
  have l: "load_profile parse files n = Inr p \<Longrightarrow> \<exists>s. parse s = Some p" for n by (auto simp: load_profile_def dest: v split: option.splits if_splits)
  have b: "bad_profile m = Inr p \<Longrightarrow> m = Inr p" for m by (cases m) (auto simp: bad_profile_def)
  show "chosen_profile parse files inline name = Inr p \<Longrightarrow> \<exists>s. parse s = Some p"
    by (cases inline; cases name) (auto simp: chosen_profile_def dest!: b v l)
qed

text \<open>C39: A dataset run replaces the columns its profile selects, and nothing else. When \<open>POST /datasets/pseudonymize\<close> answers, the
  returned CSV can be read, and row by row it has the columns of the upload as it was parsed, each row a dict (of columns with the same header the parsed upload has one, with the last of the
  cells, and so has the result: the others are gone). A column the profile does not select has the text it had, an empty
  cell stays empty, and any other cell of a selected column holds the rendered token of its own value under its own type or, per record, of the identity of
  its row, made with a key that the provider gave as the current one for the scope of the profile's domain and that type. The profile is a dict with types and a sender of at most 1000 characters, which
  keeps every cell under the limit of the CSV reader.\<close>

theorem dataset_columns:
  assumes "\<forall>s p. parse s = Some p \<longrightarrow> dict_wf (pr_columns p) \<and> short_profile p"
    and "datasets_pseudonymize H HM enc current nonces parse files dump now new_id data inline name w = (Inr resp, w')"
  shows "\<exists>p rows outs. chosen_profile parse files inline name = Inr p \<and> dataset_rows data = Inr rows \<and> dict_reader (ds_csv resp) = Inr outs
    \<and> list_all2 (\<lambda>row out. dr_rest out = None \<and> replaced HM current (w_keys w) p row (dr_cells out)) rows outs"
proof -
  let ?ks0 = "w_keys w"
  obtain p rows outs rn w1 db where r: "chosen_profile parse files inline name = Inr p" "dataset_rows data = Inr rows"
    "run_dataset HM enc current nonces p rows w = (Inr (outs, rn), w1)" "dict_writer [newline] (map fst (hd rows)) outs = Inr (ds_csv resp)"
    and "record_run H now new_id (dataset_key H dump p data) (pr_domain p)
           (dataset_payload (ds_stats resp) (ds_warnings resp) (length (ds_combinations resp))) (w_db w1) = Inr ((ds_dataset_id resp, ds_audit_seq resp), db)"
    and "w' = w1\<lparr>w_db := db\<rparr>" and "ds_stats resp = run_stats H dump p rn"
    and "(if pr_validate_pii p then validate_unselected rows p else Inr []) = Inr (ds_warnings resp)"
    by (rule dataset_split [OF assms(2)])
  obtain s where "parse s = Some p" using chosen_parsed [OF r(1)] by blast
  then have p: "dict_wf (pr_columns p)" "short_profile p" using assms(1) by simp_all
  have all: "list_all2 (replaced HM current ?ks0 p) rows outs"
  proof -
    have "transform HM enc current nonces p rows \<lparr>dn_rows = 0, dn_unique = [], dn_empty = 0,
        dn_mint = \<lparr>mt_keys = w_keys w, mt_store = pii_mappings (w_db w), mt_drawn = w_drawn w\<rparr>\<rparr> = Inr (outs, rn)"
      using r(3) by (auto simp: run_dataset_def key_error_400_def split: sum.splits error.splits)
    from transform_ok [OF this p(1), of ?ks0] show ?thesis by simp
  qed
  obtain names where n: "rows \<noteq> []" "names \<noteq> []" "distinct names" "in_limit names" "\<forall>row\<in>set rows. map fst row = names \<and> in_limit (map (cell row) names)"
    using dataset_rows_ok [OF r(2)] by blast
  have hd: "map fst (hd rows) = names" using n(1,5) by simp
  have good: "\<forall>out\<in>set outs. map fst out = names \<and> in_limit (map (cell out) names)"
  proof
    fix out assume "out \<in> set outs"
    then obtain row where row: "row \<in> set rows" "replaced HM current ?ks0 p row out" using list_all2_right [OF all] by blast
    show "map fst out = names \<and> in_limit (map (cell out) names)" by (rule replaced_fits [OF row(2) p]) (use row(1) n(5) in simp)
  qed
  from dict_roundtrip [OF n(2-4) good] r(4) hd
  have again: "dict_reader (ds_csv resp) = Inr (map (\<lambda>out. \<lparr>dr_cells = map (\<lambda>k. (k, Some (cell out k))) names, dr_rest = None\<rparr>) outs)" by simp
  have "replaced HM current ?ks0 p row (map (\<lambda>k. (k, Some (cell out k))) names)" if "replaced HM current ?ks0 p row out" "out \<in> set outs" "row \<in> set rows" for row out
  proof -
    have "cell (map (\<lambda>k. (k, Some (cell out k))) names) c = cell out c" if "c \<in> set names" for c
      using that by (simp add: cell_def [of "map _ _"] map_of_map_restrict)
    moreover have "fst ` set row = set names" "map fst out = names" using that n(5) good by (simp_all flip: list.set_map)
    ultimately show ?thesis by (intro replaced_cong [OF _ _ that(1)]) (simp_all add: comp_def)
  qed
  with all have "list_all2 (\<lambda>row out. dr_rest out = None \<and> replaced HM current ?ks0 p row (dr_cells out)) rows
      (map (\<lambda>out. \<lparr>dr_cells = map (\<lambda>k. (k, Some (cell out k))) names, dr_rest = None\<rparr>) outs)"
    unfolding list.rel_map by (auto elim!: list.rel_mono_strong)
  with r(1,2) again show ?thesis by blast
qed

lemma run_dataset_tables:
  assumes "run_dataset HM enc current nonces p rows w = (Inr x, w1)"
  shows "\<exists>m k n. w1 = w\<lparr>w_db := (w_db w)\<lparr>pii_mappings := m\<rparr>, w_keys := k, w_drawn := n\<rparr>"
  using assms by (auto simp: run_dataset_def split: sum.splits prod.splits)

lemma record_run_ok:
  assumes "digest64 H" and "corpus_ok H db" and "record_run H now new_id key dm payload db = Inr ((doc, seq), db')"
  shows "corpus_ok H db' \<and> texts db' = texts db \<and> pseudonyms db' = pseudonyms db \<and> (\<forall>i. i \<noteq> doc \<longrightarrow> doc_state db' i = doc_state db i)
    \<and> (\<forall>i. doc_state db' i = Inr (Some DELETED) \<longrightarrow> doc_state db i = Inr (Some DELETED))
    \<and> (\<exists>d. live_document_for db' key = Some d \<and> dc_id d = doc)
    \<and> (\<exists>r. last_opt (doc_trail (audit db') doc) = Some r \<and> ar_seq r = seq \<and> ar_step r = ''dataset_pseudonymize'' \<and> ar_payload r = payload)"
proof -
  let ?dl = "\<lparr>dl_object_key = key, dl_domain = dm, dl_filename = None, dl_source_url = None, dl_fetched_at = None, dl_source_sha256 = None\<rparr>"
  obtain d db1 s a r where e: "register_live H now new_id (\<lambda>x. x) db ?dl = Inr (d, db1)" "doc_state db1 (dc_id d) = Inr (Some s)"
    "append_record H now (audit db1) (dc_id d) (Some (state_value s)) (state_value s) ''dataset_pseudonymize'' (Some payload) None = Inr (a, r)"
    "db' = db1\<lparr>audit := a\<rparr>" "doc = dc_id d" "seq = ar_seq r"
    using assms(3) by (auto simp: record_run_def result_simps split: option.splits)
  note l = register_live_calm [OF assms(1,2) e(1)]
  have others: "doc_state db1 i = doc_state db i" if "i \<noteq> dc_id d" for i
  proof (cases "live_document_for db key")
    case None
    then have "register_document H now new_id db ?dl = Inr (d, db1)"
      using e(1) by (auto simp: register_live_def split: sum.splits if_splits)
    from register_document_ok [OF assms(1,2) this] that show ?thesis by auto
  qed (use e(1) in \<open>simp add: register_live_def\<close>)
  have live: "live_document_for db1 key = Some d"
    using register_live_ok [OF assms(1,2) _ e(1)] by (simp add: commits_ok_def)
  have ok1: "corpus_ok H db1" using l by blast
  have n: "note_event H now db1 (dc_id d) s ''dataset_pseudonymize'' payload = Inr db'" using e(3,4) by (simp add: note_event_def)
  note ev = note_event_ok [OF assms(1) ok1 e(2) n]
  obtain x where x: "doc_trail (audit db') doc = doc_trail (audit db1) doc @ [x]" using ev e(5) by fastforce
  have "x = r \<and> ar_step r = ''dataset_pseudonymize'' \<and> ar_payload r = payload"
    using e(3) by (rule append_recordE) (use x e(4,5) ok1 in \<open>auto simp: or_empty_def doc_trail_def corpus_ok_def trail_ok_def\<close>)
  then have "last_opt (doc_trail (audit db') doc) = Some r \<and> ar_seq r = seq \<and> ar_step r = ''dataset_pseudonymize'' \<and> ar_payload r = payload"
    using x e(6) by (simp add: last_opt_def)
  moreover have "live_document_for db' key = Some d" using live e(4) by (simp add: live_document_for_def)
  moreover have "corpus_ok H db'" "\<forall>i. doc_state db' i = doc_state db1 i" using ev by blast+
  ultimately show ?thesis using l others e(4,5) by simp
qed

lemma session_index: "w_index (snd (dataset_session H HM enc current nonces dump now new_id data p rows w)) = w_index w"
proof -
  have still: "w_index (snd (andthen m f w)) = w_index w" if "w_index (snd (m w)) = w_index w" "\<And>x w'. w_index (snd (f x w')) = w_index w'"
    for m :: "(world, 'x) act" and f :: "'x \<Rightarrow> (world, 'y) act" and w
    using that by (cases "m w"; cases "fst (m w)") (auto simp: andthen_def)
  have run: "w_index (snd (run_dataset HM enc current nonces p rows w)) = w_index w"
    by (simp add: run_dataset_def split: sum.split prod.split)
  have db: "w_index (snd (on_db g w)) = w_index w" for g :: "corpus \<Rightarrow> ('x \<times> corpus) result" and w
    by (simp add: on_db_def split: sum.split prod.split)
  show ?thesis
    unfolding dataset_session_def
    by (rule still, rule run, simp only: split_beta) (rule still, simp, rule still, simp, rule still, simp, rule still, rule db, simp add: split_beta)
qed

lemma dataset_refused:
  assumes "datasets_pseudonymize H HM enc current nonces parse files dump now new_id data inline name w = (Inl e, w')"
  shows "w_db w' = w_db w \<and> w_index w' = w_index w"
proof (cases "chosen_profile parse files inline name")
  case (Inr p)
  show ?thesis
  proof (cases "dataset_rows data")
    case rows: (Inr rows)
    then have t: "transaction (dataset_session H HM enc current nonces dump now new_id data p rows) w = (Inl e, w')"
      using assms Inr by (simp add: datasets_pseudonymize_def andthen_def)
    obtain r w1 where m: "dataset_session H HM enc current nonces dump now new_id data p rows w = (r, w1)" by fastforce
    then have "r = Inl e" "w' = roll_back w w1" using t by (auto simp: transaction_def split: sum.splits)
    then show ?thesis using session_index [of H HM enc current nonces dump now new_id data p rows w] m by simp
  qed (use assms Inr in \<open>simp add: datasets_pseudonymize_def andthen_def\<close>)
qed (use assms in \<open>simp add: datasets_pseudonymize_def andthen_def\<close>)

lemma chosen_columns: "chosen_profile parse files inline name = Inr p \<Longrightarrow> pr_columns p \<noteq> []"
proof -
  have c: "check_profile q = Inr p \<Longrightarrow> pr_columns p \<noteq> []" for q by (auto simp: check_profile_def result_simps Let_def split: if_splits)
  have v: "validate_profile parse s = Inr p \<Longrightarrow> pr_columns p \<noteq> []" for s by (auto simp: validate_profile_def dest: c split: option.splits)
  have l: "load_profile parse files n = Inr p \<Longrightarrow> pr_columns p \<noteq> []" for n by (auto simp: load_profile_def dest: v split: option.splits if_splits)
  have b: "bad_profile m = Inr p \<Longrightarrow> m = Inr p" for m by (cases m) (auto simp: bad_profile_def)
  show "chosen_profile parse files inline name = Inr p \<Longrightarrow> pr_columns p \<noteq> []"
    by (cases inline; cases name) (auto simp: chosen_profile_def dest!: b v l)
qed

lemma warned_columns:
  assumes "(if check then validate_unselected rows p else Inr []) = Inr ws" and "rows \<noteq> []"
  shows "fst ` set ws \<subseteq> set (map fst (hd rows))"
proof (cases check)
  case True
  obtain x xs where rows: "rows = x # xs" using assms(2) by (cases rows) simp_all
  obtain ys where y: "rmap (\<lambda>col. rbind (find_deterministic (join [newline] (map (\<lambda>r. cell r col) (take SAMPLE_ROWS rows)))) (\<lambda>hits.
                Inr (col, sort (remdups (map (\<lambda>(label, _). upper label) hits))))) (filter (\<lambda>col. dict_get (pr_columns p) col = None) (map fst x)) = Inr ys"
    "ws = filter (\<lambda>(col, types). types \<noteq> []) ys" using assms(1) True by (auto simp: validate_unselected_def rows result_simps)
  have "list_all2 (\<lambda>col y. fst y = col) (filter (\<lambda>col. dict_get (pr_columns p) col = None) (map fst x)) ys"
    using y(1) unfolding rmap_eq_Inr by (auto elim!: list.rel_mono_strong simp: result_simps)
  then have "map fst ys = filter (\<lambda>col. dict_get (pr_columns p) col = None) (map fst x)"
    by (auto simp: list_all2_conv_all_nth intro: nth_equalityI)
  then have "fst ` set ys \<subseteq> set (map fst x)" by (metis filter_is_subset list.set_map)
  then show ?thesis using y(2) by (auto simp: rows)
qed (use assms in simp)

text \<open>C40: A dataset run is on record, without a value, and touches nothing else. From a sound register, \<open>POST /datasets/pseudonymize\<close>
  leaves a sound register. If it fails, the tables are as they were. If it answers, its last word on the artefact is one record, and this is all it says: how many rows
  there were, the sorted names of the selected columns, the mode, the format and the domain of the profile, how many different pseudonyms were used and how many rows had no record
  key (numbers bounded by the size of the upload), the digest of the profile, the names of the columns, none but columns of the upload, that drew a warning, and how many combinations the profile leaves open. There is no cell in it.
  The artefact is the live document of its content and profile; no stored text, no index entry and no state of another document has changed.\<close>

theorem dataset_run_recorded:
  assumes "digest64 H" and "sound H P w"
    and "datasets_pseudonymize H HM enc current nonces parse files dump now new_id data inline name w = (r, w')"
  shows "sound H P w' \<and> w_index w' = w_index w \<and> (case r of Inl e \<Rightarrow> w_db w' = w_db w
    | Inr resp \<Rightarrow> texts (w_db w') = texts (w_db w) \<and> (\<forall>i. i \<noteq> ds_dataset_id resp \<longrightarrow> doc_state (w_db w') i = doc_state (w_db w) i)
        \<and> (\<exists>p rows d x n m. chosen_profile parse files inline name = Inr p \<and> dataset_rows data = Inr rows
            \<and> live_document_for (w_db w') (dataset_key H dump p data) = Some d \<and> dc_id d = ds_dataset_id resp
            \<and> last_opt (doc_trail (audit (w_db w')) (ds_dataset_id resp)) = Some x \<and> ar_seq x = ds_audit_seq resp \<and> ar_step x = ''dataset_pseudonymize''
            \<and> ar_payload x = JObj [(''rows'', JInt (int (length rows))), (''columns'', JArr (map JStr (sort (map fst (pr_columns p))))),
                (''mode'', JStr (mode_name (pr_mode p))), (''format'', JStr (format_name (pr_format p))), (''domain'', JStr (pr_domain p)),
                (''unique_pseudonyms'', JInt (int n)), (''rows_without_record_key'', JInt (int m)),
                (''profile_sha256'', JStr (profile_sha256 H dump p)), (''kind'', JStr ''dataset''),
                (''warnings'', JArr (map (\<lambda>(c, _). JStr c) (ds_warnings resp))), (''unbroken_combinations'', JInt (int (length (ds_combinations resp))))]
            \<and> n \<le> length rows * length (pr_columns p) \<and> m \<le> length rows \<and> fst ` set (ds_warnings resp) \<subseteq> set (map fst (hd rows))))"
proof (cases r)
  case (Inl e)
  then have "w_db w' = w_db w" "w_index w' = w_index w" using dataset_refused assms(3) by blast+
  then show ?thesis using sound_db [OF assms(2)] by (simp add: Inl shrinks_same)
next
  case (Inr resp)
  show ?thesis
  proof (rule dataset_split [OF assms(3) [unfolded Inr]])
    fix p rows outs rn w1 db
    assume c: "chosen_profile parse files inline name = Inr p" and rows: "dataset_rows data = Inr rows" and run: "run_dataset HM enc current nonces p rows w = (Inr (outs, rn), w1)"
      and rec: "record_run H now new_id (dataset_key H dump p data) (pr_domain p)
           (dataset_payload (ds_stats resp) (ds_warnings resp) (length (ds_combinations resp))) (w_db w1) = Inr ((ds_dataset_id resp, ds_audit_seq resp), db)"
      and w': "w' = w1\<lparr>w_db := db\<rparr>" and st: "ds_stats resp = run_stats H dump p rn"
      and wn: "(if pr_validate_pii p then validate_unselected rows p else Inr []) = Inr (ds_warnings resp)"
    obtain m k n where w1: "w1 = w\<lparr>w_db := (w_db w)\<lparr>pii_mappings := m\<rparr>, w_keys := k, w_drawn := n\<rparr>" using run_dataset_tables [OF run] by blast
    have ok: "corpus_ok H (w_db w1)" using assms(2) by (simp add: sound_def w1 corpus_ok_def tables_ok_def)
    note rec' = record_run_ok [OF assms(1) ok rec]
    have same: "doc_state (w_db w1) i = doc_state (w_db w) i" for i by (simp add: w1 doc_state_def)
    have "sound H P w'"
      by (rule sound_calm [OF assms(2)]) (use rec' same in \<open>auto simp: w' w1 calm_def shrinks_same\<close>)
    moreover have "dn_rows rn = length rows \<and> dn_empty rn \<le> length rows \<and> length (dn_unique rn) \<le> length rows * length (pr_columns p)"
      using run transform_counted [OF _ chosen_columns [OF c]] by (fastforce simp: run_dataset_def key_error_400_def split: sum.splits error.splits)
    moreover have "fst ` set (ds_warnings resp) \<subseteq> set (map fst (hd rows))" using warned_columns [OF wn] dataset_rows_ok [OF rows] by blast
    moreover obtain d x where "live_document_for db (dataset_key H dump p data) = Some d" "dc_id d = ds_dataset_id resp"
      "last_opt (doc_trail (audit db) (ds_dataset_id resp)) = Some x" "ar_seq x = ds_audit_seq resp" "ar_step x = ''dataset_pseudonymize''"
      "ar_payload x = dataset_payload (run_stats H dump p rn) (ds_warnings resp) (length (ds_combinations resp))" using rec' unfolding st by blast
    moreover have "texts db = texts (w_db w)" "\<forall>i. i \<noteq> ds_dataset_id resp \<longrightarrow> doc_state db i = doc_state (w_db w) i" using rec' same by (simp_all add: w1)
    ultimately show ?thesis unfolding Inr sum.case w'
      by (intro conjI exI [of _ p] exI [of _ rows] exI [of _ d] exI [of _ x] exI [of _ "length (dn_unique rn)"] exI [of _ "dn_empty rn"])
        (simp_all add: w1 c rows dataset_payload_def run_stats_def)
  qed
qed

subsection \<open>A concrete run\<close>

definition sample_profile :: profile where
  "sample_profile = \<lparr>pr_domain = ''wi'', pr_columns = [(''naam'', ''PERSON'')], pr_mode = PER_ATTRIBUTE, pr_record_key = [], pr_format = TOKEN,
     pr_ttp_id = ''0001'', pr_validate_pii = False, pr_combinations = []\<rparr>"

definition sample_parse :: "string \<Rightarrow> profile option" where
  "sample_parse s = (if s = ''p'' then Some sample_profile else None)"

definition sample_data :: string where
  "sample_data = ''naam,plaats'' @ [newline] @ ''Jan,Ede'' @ [newline]"

definition sample_current :: "string \<Rightarrow> durable \<Rightarrow> (key \<times> durable) result" where
  "sample_current scope st = Inr (\<lparr>k_id = ''k'', k_material = ''m''\<rparr>, st)"

lemma record_run_possible:
  "\<exists>seq db. record_run tick_hash sample_time ''a'' key dm payload (empty_corpus\<lparr>pii_mappings := m\<rparr>) = Inr ((''a'', seq), db)"
proof -
  let ?db = "empty_corpus\<lparr>pii_mappings := m\<rparr>"
  let ?dl = "\<lparr>dl_object_key = key, dl_domain = dm, dl_filename = None, dl_source_url = None, dl_fetched_at = None, dl_source_sha256 = None\<rparr>"
  have ok: "corpus_ok tick_hash ?db" using empty_corpus_ok by (simp add: corpus_ok_def tables_ok_def)
  have cn: "counted 0 (audit ?db)" using empty_counted by simp
  have pre: "(0 :: nat) < 64" "document_by_id ?db ''a'' = None" "live_document_for ?db (dl_object_key ?dl) = None" "doc_state ?db ''a'' = Inr None"
    by (simp_all add: empty_corpus_def document_by_id_def live_document_for_def doc_state_def current_state_def by_seq_def last_opt_def)
  obtain d db where r: "register_document tick_hash sample_time ''a'' ?db ?dl = Inr (d, db)" "counted (Suc 0) (audit db)" "dc_id d = ''a''"
    using register_possible [OF cn pre(1) sample_time_ok(2) ok pre(2-4)] by blast
  have s: "doc_state db ''a'' = Inr (Some REGISTERED)" using register_document_ok [OF digest_tick ok r(1)] by simp
  obtain a x where "append_record tick_hash sample_time (audit db) ''a'' (Some (state_value REGISTERED)) (state_value REGISTERED) ''dataset_pseudonymize'' (Some payload) None = Inr (a, x)"
    using counted_append [OF r(2) _ sample_time_ok(2)] by fastforce
  then show ?thesis using r s pre(3) by (simp add: record_run_def register_live_def)
qed

lemma sample_pseudonym:
  "\<exists>st'. pseudonym (\<lambda>_ _. ''0123456789'') sample_enc pg_mapping_put sample_current (\<lambda>_. ''n'') ''wi'' ''PERSON'' v st = Inr (''[PERSON:01234567]'', st')"
proof -
  have t: "make_token (\<lambda>_ _. ''0123456789'') m (lower ''PERSON'') v = ''[PERSON:01234567]''" for m
    unfolding make_token_def token_hash_def by code_simp
  have sc: "scope_for ''wi'' (upper (lower ''PERSON'')) = Inr ''wi/PERSON''" by code_simp
  show ?thesis
    by (simp only: pseudonym_def Let_def sc t sample_current_def rbind_simps prod.case encrypt_def sum.inject prod.inject simp_thms)
qed

lemma sample_transform_row:
  "\<exists>rn'. transform_row (\<lambda>_ _. ''0123456789'') sample_enc sample_current (\<lambda>_. ''n'') sample_profile [(''naam'', Some ''Jan''), (''plaats'', Some ''Ede'')] rn
     = Inr ([(''naam'', Some ''[PERSON:01234567]''), (''plaats'', Some ''Ede'')], rn')"
proof -
  let ?row = "[(''naam'', Some ''Jan''), (''plaats'', Some ''Ede'')]" and ?out = "[(''naam'', Some ''[PERSON:01234567]''), (''plaats'', Some ''Ede'')]"
  obtain st' where st: "pseudonym (\<lambda>_ _. ''0123456789'') sample_enc pg_mapping_put sample_current (\<lambda>_. ''n'') ''wi'' ''PERSON'' ''Jan'' (dn_mint rn)
      = Inr (''[PERSON:01234567]'', st')" using sample_pseudonym by blast
  have p: "pr_domain sample_profile = ''wi''" "pr_columns sample_profile = [(''naam'', ''PERSON'')]" "pr_mode sample_profile = PER_ATTRIBUTE"
      "pr_format sample_profile = TOKEN" by (simp_all add: sample_profile_def)
  have f: "find (\<lambda>c. dict_get ?row c = None) (map fst [(''naam'', ''PERSON'')]) = None" by code_simp
  have c: "cell ?row ''naam'' = ''Jan''" by code_simp
  have d: "dict_set ''naam'' (Some ''[PERSON:01234567]'') ?row = ?out" by code_simp
  have "\<exists>rn'. transform_cell (\<lambda>_ _. ''0123456789'') sample_enc sample_current (\<lambda>_. ''n'') sample_profile ?row (?row, rn) (''naam'', ''PERSON'') = Inr (?out, rn')"
    by (simp only: transform_cell_def prod.case c p st rbind_simps render_token_def out_format.case d list.distinct if_False sum.inject prod.inject simp_thms)
  then obtain rn' where "transform_cell (\<lambda>_ _. ''0123456789'') sample_enc sample_current (\<lambda>_. ''n'') sample_profile ?row (?row, rn) (''naam'', ''PERSON'') = Inr (?out, rn')"
    by (elim exE)
  then show ?thesis
    by (simp only: transform_row_def p f option.case run_mode.distinct if_False rfold.simps rbind_simps prod.case sum.inject prod.inject simp_thms)
qed

lemma sample_dataset_rows: "dataset_rows sample_data = Inr [[(''naam'', Some ''Jan''), (''plaats'', Some ''Ede'')]]"
proof -
  let ?rows = "[[''naam'', ''plaats''], [''Jan'', ''Ede'']]"
  have w: "sample_data = csv_writer [newline] ?rows" by code_simp
  have r: "csv_reader sample_data = Inr ?rows"
    unfolding w by (rule csv_roundtrip) (simp add: short_cells_def field_size_limit_def)
  have u: "utf8_sig sample_data = Inr sample_data" by code_simp
  have d: "dict_row [''naam'', ''plaats''] [''Jan'', ''Ede''] = \<lparr>dr_cells = [(''naam'', Some ''Jan''), (''plaats'', Some ''Ede'')], dr_rest = None\<rparr>" by code_simp
  have e: "sample_data \<noteq> []" by code_simp
  show ?thesis by (simp add: dataset_rows_def e u dict_reader_def r d)
qed

lemma sample_dataset_run:
  "\<exists>resp w'. datasets_pseudonymize tick_hash (\<lambda>_ _. ''0123456789'') sample_enc sample_current (\<lambda>_. ''n'') sample_parse (\<lambda>_. None) (\<lambda>_. []) sample_time ''a''
     sample_data (Some ''p'') None fresh_world = (Inr resp, w')"
proof -
  let ?run = "run_dataset (\<lambda>_ _. ''0123456789'') sample_enc sample_current (\<lambda>_. ''n'') sample_profile [[(''naam'', Some ''Jan''), (''plaats'', Some ''Ede'')]] fresh_world"
  have p: "chosen_profile sample_parse (\<lambda>_. None) (Some ''p'') None = Inr sample_profile" by code_simp
  note d = sample_dataset_rows
  have "\<exists>rn'. transform (\<lambda>_ _. ''0123456789'') sample_enc sample_current (\<lambda>_. ''n'') sample_profile [[(''naam'', Some ''Jan''), (''plaats'', Some ''Ede'')]] rn0
      = Inr ([[(''naam'', Some ''[PERSON:01234567]''), (''plaats'', Some ''Ede'')]], rn')" for rn0
  proof -
    obtain rn' where "transform_row (\<lambda>_ _. ''0123456789'') sample_enc sample_current (\<lambda>_. ''n'') sample_profile [(''naam'', Some ''Jan''), (''plaats'', Some ''Ede'')] rn0
      = Inr ([(''naam'', Some ''[PERSON:01234567]''), (''plaats'', Some ''Ede'')], rn')" using sample_transform_row by blast
    then show ?thesis by (simp only: transform.simps rbind_simps prod.case sum.inject prod.inject simp_thms)
  qed
  then obtain rn where "transform (\<lambda>_ _. ''0123456789'') sample_enc sample_current (\<lambda>_. ''n'') sample_profile [[(''naam'', Some ''Jan''), (''plaats'', Some ''Ede'')]]
      \<lparr>dn_rows = 0, dn_unique = [], dn_empty = 0, dn_mint = \<lparr>mt_keys = w_keys fresh_world, mt_store = pii_mappings (w_db fresh_world), mt_drawn = w_drawn fresh_world\<rparr>\<rparr>
      = Inr ([[(''naam'', Some ''[PERSON:01234567]''), (''plaats'', Some ''Ede'')]], rn)" by blast
  then have "\<exists>w1 m. ?run = (Inr ([[(''naam'', Some ''[PERSON:01234567]''), (''plaats'', Some ''Ede'')]], rn), w1) \<and> w_db w1 = empty_corpus\<lparr>pii_mappings := m\<rparr>"
    by (auto simp: run_dataset_def key_error_400_def simp del: transform.simps)
  then obtain w1 m where run: "?run = (Inr ([[(''naam'', Some ''[PERSON:01234567]''), (''plaats'', Some ''Ede'')]], rn), w1)" "w_db w1 = empty_corpus\<lparr>pii_mappings := m\<rparr>"
    by (elim exE conjE)
  have c: "\<exists>csv. dict_writer [newline] [''naam'', ''plaats''] [[(''naam'', Some ''[PERSON:01234567]''), (''plaats'', Some ''Ede'')]] = Inr csv"
    by (simp add: dict_writer_def dict_to_list_def)
  have u: "unbroken_combinations sample_profile = Inr []" by code_simp
  obtain seq db where "record_run tick_hash sample_time ''a'' (dataset_key tick_hash (\<lambda>_. []) sample_profile sample_data) ''wi''
      (dataset_payload (run_stats tick_hash (\<lambda>_. []) sample_profile rn) [] 0) (w_db w1) = Inr ((''a'', seq), db)"
    unfolding run(2) using record_run_possible by blast
  with c u show ?thesis
    using p d run(1) by (auto simp: datasets_pseudonymize_def dataset_session_def andthen_def transaction_def on_db_def sample_profile_def)
qed

lemma dataset_columns_witness:
  "\<exists>(w :: world) (resp :: dataset_response) (w' :: world) outs. datasets_pseudonymize tick_hash (\<lambda>_ _. ''0123456789'') sample_enc sample_current (\<lambda>_. ''n'') sample_parse
       (\<lambda>_. None) (\<lambda>_. []) sample_time ''a'' sample_data (Some ''p'') None w = (Inr resp, w') \<and> dict_reader (ds_csv resp) = Inr outs
     \<and> map (\<lambda>x. cell (dr_cells x) ''plaats'') outs = [''Ede'']"
proof -
  obtain resp w' where run: "datasets_pseudonymize tick_hash (\<lambda>_ _. ''0123456789'') sample_enc sample_current (\<lambda>_. ''n'') sample_parse (\<lambda>_. None) (\<lambda>_. []) sample_time ''a''
     sample_data (Some ''p'') None fresh_world = (Inr resp, w')" using sample_dataset_run by blast
  have wf: "\<forall>s p. sample_parse s = Some p \<longrightarrow> dict_wf (pr_columns p) \<and> short_profile p"
  proof -
    have "dict_wf (pr_columns sample_profile) \<and> short_profile sample_profile" by code_simp
    then show ?thesis by (simp add: sample_parse_def)
  qed
  have p: "chosen_profile sample_parse (\<lambda>_. None) (Some ''p'') None = Inr sample_profile" by code_simp
  note d = sample_dataset_rows
  note DC = dataset_columns [OF wf run]
  obtain q rows outs where "chosen_profile sample_parse (\<lambda>_. None) (Some ''p'') None = Inr q" "dataset_rows sample_data = Inr rows"
    and r: "dict_reader (ds_csv resp) = Inr outs"
    and a: "list_all2 (\<lambda>row out. dr_rest out = None \<and> replaced (\<lambda>_ _. ''0123456789'') sample_current (w_keys fresh_world) q row (dr_cells out)) rows outs"
    using DC by (elim exE conjE)
  then have "q = sample_profile" "rows = [[(''naam'', Some ''Jan''), (''plaats'', Some ''Ede'')]]" using p d by simp_all
  with a obtain out where hit: "outs = [out]"
    "replaced (\<lambda>_ _. ''0123456789'') sample_current (w_keys fresh_world) sample_profile [(''naam'', Some ''Jan''), (''plaats'', Some ''Ede'')] (dr_cells out)"
    by (cases outs; cases "tl outs") auto
  have "cell (dr_cells out) ''plaats'' = cell [(''naam'', Some ''Jan''), (''plaats'', Some ''Ede'')] ''plaats''"
    using hit(2) by (rule replaced_unselected) code_simp+
  moreover have "cell [(''naam'', Some ''Jan''), (''plaats'', Some ''Ede'')] ''plaats'' = ''Ede''" by code_simp
  ultimately have "cell (dr_cells out) ''plaats'' = ''Ede''" by simp
  with run r hit(1) show ?thesis by (intro exI [of _ fresh_world] exI [of _ resp] exI [of _ w'] exI [of _ "[out]"]) simp
qed

lemma dataset_run_recorded_witness:
  "\<exists>(resp :: dataset_response) (w' :: world) d. datasets_pseudonymize tick_hash (\<lambda>_ _. ''0123456789'') sample_enc sample_current (\<lambda>_. ''n'') sample_parse
       (\<lambda>_. None) (\<lambda>_. []) sample_time ''a'' sample_data (Some ''p'') None fresh_world = (Inr resp, w') \<and> sound tick_hash (\<lambda>_. False) w'
     \<and> live_document_for (w_db w') (dataset_key tick_hash (\<lambda>_. []) sample_profile sample_data) = Some d"
proof -
  obtain resp w' where run: "datasets_pseudonymize tick_hash (\<lambda>_ _. ''0123456789'') sample_enc sample_current (\<lambda>_. ''n'') sample_parse (\<lambda>_. None) (\<lambda>_. []) sample_time ''a''
     sample_data (Some ''p'') None fresh_world = (Inr resp, w')" using sample_dataset_run by blast
  have s: "sound tick_hash (\<lambda>_. False) fresh_world" by (rule sound_start) (simp_all add: fresh_world_def sample_world_def)
  have p: "chosen_profile sample_parse (\<lambda>_. None) (Some ''p'') None = Inr sample_profile" by code_simp
  from dataset_run_recorded [OF digest_tick s run] run p show ?thesis by auto
qed

end
