(* ===== verification/Spec2Isabelle.thy ===== *)
theory Spec2Isabelle
  imports AuditExport AccessIdentity Roles Originals DetectionStats SearchIndex Lifecycle Caches RateLimit ApiIngest Datasets
begin

text \<open>
  Wordsworth is a document register for a municipality: PDF files come in, are read, cleared of personal data (deterministically,
  or by tokens that a grant can turn back into the values), indexed and searched, with every step on a hash-chained audit trail. This
  development models the Python package under \<open>src/src/wordsworth/\<close> and proves what makes its parts correct. Definitions
  have the names of the functions, classes and tables they stand for.

  \<^bold>\<open>Conventions.\<close> A Python \<open>str\<close> is a \<open>string\<close> read as code points U+0000 to U+00FF; \<open>bytes\<close> and UUIDs are strings too. A dictionary is an
  association list in insertion order (\<open>dict_get\<close>, \<open>dict_set\<close> in Prelude), a dataclass a record, an \<open>int\<close> an \<open>int\<close> or \<open>nat\<close>,
  a \<open>float\<close> a rational (scores, coordinates, seconds). What may raise is a \<open>result\<close>, \<open>Inl\<close> of an \<open>error\<close>; FastAPI's \<open>HTTPException\<close> is
  one of them. What changes state and may raise is an action \<open>'s \<Rightarrow> 'a result \<times> 's\<close> (Actions), because effects outlive a
  failure. The tables are the record \<open>corpus\<close> (Corpus), everything outside the process is \<open>world\<close> (World): the tables, the
  store of originals, the index, the key provider, and the failures still to come (\<open>w_faults\<close>). A transaction that raises takes back
  its tables and nothing else. Other sessions are functions \<open>env\<close> that run between a read and the write that follows it.

  \<^bold>\<open>Parameters.\<close> Code that is not in the repository is an argument: SHA-256 (\<open>H\<close>, \<open>HB\<close>, \<open>HD\<close>), HMAC (\<open>HM\<close>), AES-GCM (\<open>enc\<close>, \<open>dec\<close>),
  Transit (\<open>wrap\<close>, \<open>unwrap\<close>), ECDSA and RSA verification, the PDF library (\<open>pdf\<close>, \<open>lib\<close>), OCR, the entity service (\<open>post\<close>), embedders, the clock, random
  material. What a theorem uses of one is a named hypothesis (\<open>digest64\<close>, \<open>aead_ok\<close>, \<open>dp_ok\<close>), and each such theorem has a witness with a
  concrete instance. That a digest has no collision is never assumed; where it matters, the colliding texts are an alternative of the conclusion.

  \<^bold>\<open>Python's own library.\<close> PyString (\<open>str\<close> methods), PyDatetime (\<open>datetime\<close>, \<open>isoformat\<close>, \<open>fromisoformat\<close>, \<open>strptime\<close>), Json
  (\<open>json.dumps\<close>, \<open>json.loads\<close> and their round trip), Regex (the fragment of \<open>re\<close> in use, in backtracking order), Triples (a small Hoare logic of
  actions). Prelude has the errors, dictionaries and shared lemmas.

  \<^bold>\<open>The audit.\<close> Hashing (\<open>hashing.py\<close>), HashChain (the interface of a chained table and its append and tamper lemmas), AuditTrail
  (\<open>audit.py\<close>), KeyAudit (\<open>key_audit_pg.py\<close>, \<open>key_audit.py\<close>), AuditExport (\<open>audit_export.py\<close>, \<open>key_audit_export.py\<close>). Appending keeps a verifying chain,
  two verifying trails with the same tail record the same events, honest exports verify.

  \<^bold>\<open>Access.\<close> Grants (\<open>grants.py\<close>), Roles (\<open>roles.py\<close>), PiiCategories (\<open>pii_categories.py\<close>), Auth (\<open>auth.py\<close>), AccessIdentity
  (\<open>access_identity.py\<close>, \<open>access_preflight.py\<close>), Vc (\<open>vc.py\<close>), RateLimit (\<open>rate_limit.py\<close>, \<open>rate_limit_pg.py\<close>). The door
  lets only known callers pass; a credential only narrows; the limiter's bound holds from any state, in the process or in Postgres, and every client has a bucket of its own.

  \<^bold>\<open>Keys and originals.\<close> Keys (\<open>keys.py\<close>, \<open>transit.py\<close>), KeyReader (the part a reveal uses), MappingStore (\<open>crypto.py\<close>,
  \<open>mapping_store.py\<close>, \<open>key_lifecycle.py\<close>), Originals (\<open>object_store.py\<close>, \<open>originals_envelope.py\<close>, \<open>document_keys.py\<close>,
  \<open>originals_store.py\<close>, \<open>originals_io.py\<close>, \<open>sealed_orphans.py\<close>). Rotation leaves one active key and loses no mapping; storing an original costs none, also
  when the read of what lies under its key fails, but an ingest that then cannot file the delivery loses it.

  \<^bold>\<open>Detection and pseudonyms.\<close> Tokens (\<open>pseudonymizer.py\<close>, \<open>pseudonym_registry.py\<close>, \<open>legible.py\<close>), Detectors (\<open>detectors.py\<close>), Normalization
  (\<open>normalization.py\<close>), DetectionStats, Entities (\<open>openanonymiser_driver.py\<close>), Drivers (\<open>detection_lists.py\<close>, \<open>particle_names.py\<close>,
  \<open>person_spans.py\<close>, \<open>combinations.py\<close>, \<open>anonymizer.py\<close>), Pseudonymizer (the rest of \<open>pseudonymizer.py\<close>). No foreign token survives, and a reveal shows
  exactly the registered, permitted tokens that still resolve, and puts them on record.

  \<^bold>\<open>The register.\<close> States (\<open>states.py\<close>), Corpus (\<open>models.py\<close>, \<open>dossiers.py\<close>, \<open>dossier_events.py\<close>, the first part of \<open>pipeline.py\<close>), SearchIndex
  (\<open>search_index.py\<close>, \<open>rrf.py\<close>, \<open>passages.py\<close>, \<open>hybrid.py\<close>), World, PdfText (\<open>pdf_text.py\<close>, \<open>profiling.py\<close>, \<open>extraction.py\<close>, \<open>pdf_boxes.py\<close>),
  PdfRender (\<open>pdf_render.py\<close>), Pipeline (\<open>pipeline.py\<close>, \<open>pdf_redaction.py\<close>, \<open>recovery.py\<close>) with its theorems in Processing and Ingestion, Supersession
  (\<open>supersession.py\<close>, \<open>dedupe.py\<close>), Deletion (\<open>deletion.py\<close>, \<open>dossier_deletion.py\<close>), Reprocess (\<open>reprocess.py\<close>), Caches (\<open>cache.py\<close>).
  Lifecycle composes them: \<open>sound\<close> is the invariant of tables, index and store together, and every sequence of operations, each of which
  may fail anywhere, keeps it (\<open>reachable_sound\<close>).

  \<^bold>\<open>The interface.\<close> ApiReveal, ApiAdmin and ApiIngest are handlers of \<open>api.py\<close>: the reveal endpoints with all their gates, the grants and the
  roles, the deliveries, re-processing, deletion and feedback (with Provenance for \<open>provenance.py\<close>); Datasets is
  \<open>datasets.py\<close> with its endpoint, over Csv (Python's \<open>csv\<close>). They compose the parts above, and their theorems
  are about whole requests: what an answer says of a file is so, a refused caller changes nothing.

  \<^bold>\<open>Interfaces as locales.\<close> \<open>hash_chain\<close> (both audit tables), the grant stores, the vault and mapping stores, the key readers, the write-once
  store, the services of the pipeline: each is stated by what its client calls and what it relies on, and interpreted on the models of the code.

  \<^bold>\<open>Termination.\<close> Every modelled loop is a total function: structural, or with its measure. There is no fuel, except the budget of a
  retry, which is the source's own.

  \<^bold>\<open>Not modelled.\<close> HTML and the browser console (\<open>console*.py\<close>), the HTTP client, routing and serialisation, reading the environment
  (\<open>config.py\<close>, \<open>bootstrap.py\<close>), SQL locks beyond single transactions, log lines, the OpenSearch and S3 drivers (calls to their clients; the contract is modelled
  on the in-memory ones), language models and clustering, and the raster of a page. Characters above U+00FF are outside the fragment.
\<close>

end
